(* ===== verification/Theo_Prelude.thy ===== *)
theory Theo_Prelude
  imports Main "HOL-Library.Word" "HOL-Library.List_Lexorder" "HOL-Library.AList"
begin

text \<open>
  Shared ground of the development: the machine types of the Go sources, big-endian
  integers as \<^verbatim>\<open>encoding/binary\<close> writes them, positional reads and writes of files
  (\<^verbatim>\<open>os.File.ReadAt\<close>, \<^verbatim>\<open>os.File.WriteAt\<close>), and the interface of self-delimiting
  record codecs that the block log's entry format and its index format provide.
\<close>

named_theorems be_simps \<open>big-endian encoding and decoding\<close>
named_theorems file_simps \<open>positional file access\<close>
named_theorems codec_simps \<open>round trips of record codecs\<close>

type_synonym byte = "8 word"
type_synonym bytes = "byte list"
type_synonym u32 = "32 word"
type_synonym u64 = "64 word"

section \<open>Machine integers\<close>

text \<open>
  An \<^verbatim>\<open>int64\<close> is represented by its value, an \<open>int\<close>; \<open>i64\<close> wraps the result of an
  addition or a multiplication to that range, and the conversions between \<^verbatim>\<open>int64\<close> and
  \<^verbatim>\<open>uint64\<close> keep the 64 bits.
\<close>

definition i64 :: "int \<Rightarrow> int" where
  "i64 x = sint (word_of_int x :: u64)"

definition int64_of_uint64 :: "u64 \<Rightarrow> int" where
  "int64_of_uint64 w = sint w"

definition uint64_of_int64 :: "int \<Rightarrow> u64" where
  "uint64_of_int64 x = word_of_int x"

lemma i64_id: "- (2 ^ 63) \<le> x \<Longrightarrow> x < 2 ^ 63 \<Longrightarrow> i64 x = x"
  by (simp add: i64_def signed_of_int signed_take_bit_int_eq_self)

lemma int64_uint64_roundtrip: "- (2 ^ 63) \<le> x \<Longrightarrow> x < 2 ^ 63 \<Longrightarrow> int64_of_uint64 (uint64_of_int64 x) = x"
  by (simp add: int64_of_uint64_def uint64_of_int64_def signed_of_int signed_take_bit_int_eq_self)

section \<open>Big-endian integers\<close>

primrec be_put :: "nat \<Rightarrow> nat \<Rightarrow> bytes" where
  "be_put 0 v = []"
| "be_put (Suc n) v = word_of_nat (v div 256 ^ n) # be_put n v"

primrec be_get :: "bytes \<Rightarrow> nat" where
  "be_get [] = 0"
| "be_get (b # bs) = unat b * 256 ^ length bs + be_get bs"

lemma length_be_put [simp, be_simps]: "length (be_put n v) = n"
  by (induction n) auto

lemma be_get_be_put [be_simps]: "be_get (be_put n v) = v mod 256 ^ n"
proof (induction n)
  case 0
  then show ?case by simp
next
  case (Suc n)
  have "be_get (be_put (Suc n) v) = (v div 256 ^ n) mod 256 * 256 ^ n + v mod 256 ^ n"
    using Suc by (simp add: unat_of_nat)
  also have "\<dots> = v mod (256 ^ n * 256)"
    by (simp add: mod_mult2_eq)
  finally show ?case by (simp add: mult.commute)
qed

lemma be_get_less: "be_get bs < 256 ^ length bs"
proof (induction bs)
  case Nil
  then show ?case by simp
next
  case (Cons b bs)
  have "unat b < 256"
    using unsigned_less [of b, where ?'a = nat] by simp
  then have "unat b * 256 ^ length bs \<le> 255 * 256 ^ length bs"
    by (intro mult_le_mono1) simp
  then have "be_get (b # bs) < 255 * 256 ^ length bs + 256 ^ length bs"
    using Cons by (simp only: be_get.simps add_le_less_mono)
  then show ?case by simp
qed

lemma be_put_be_get [be_simps]: "be_put (length bs) (be_get bs) = bs"
proof (induction bs)
  case Nil
  then show ?case by simp
next
  case (Cons b bs)
  have lt: "be_get bs < 256 ^ length bs" by (rule be_get_less)
  have "be_put n (x * 256 ^ n + y) = be_put n y" for n x y
  proof -
    have "be_put m (x * 256 ^ n + y) = be_put m y" if "m \<le> n" for m
      using that
    proof (induction m)
      case (Suc m)
      define d where "d = n - Suc m"
      have n: "n = m + Suc d" using Suc.prems by (simp add: d_def)
      have "x * 256 ^ n + y = y + 256 ^ m * (256 * (x * 256 ^ d))"
        by (simp add: n power_add)
      then have "(x * 256 ^ n + y) div 256 ^ m = y div 256 ^ m + 256 * (x * 256 ^ d)"
        by (simp only: div_mult_self2 power_not_zero) simp
      moreover have "(word_of_nat (a + 256 * c) :: byte) = word_of_nat a" for a c
      proof -
        have "(256 :: byte) = 0" by simp
        then show ?thesis by (simp only: of_nat_add of_nat_mult of_nat_numeral mult_zero_left add_0_right)
      qed
      ultimately have "(word_of_nat ((x * 256 ^ n + y) div 256 ^ m) :: byte) = word_of_nat (y div 256 ^ m)"
        by metis
      then show ?case using Suc by (simp del: of_nat_add of_nat_mult)
    qed simp
    then show ?thesis by simp
  qed
  with Cons lt show ?case
    by (simp add: div_mult_self3)
qed

text \<open>
  \<^verbatim>\<open>binary.BigEndian.PutUint64\<close>, \<^verbatim>\<open>PutUint32\<close> and their readers. The readers take a
  buffer that holds at least eight (four) bytes, as every call site of the sources does.
\<close>

definition PutUint64 :: "u64 \<Rightarrow> bytes" where
  "PutUint64 w = be_put 8 (unat w)"

definition PutUint32 :: "u32 \<Rightarrow> bytes" where
  "PutUint32 w = be_put 4 (unat w)"

definition Uint64 :: "bytes \<Rightarrow> u64" where
  "Uint64 bs = word_of_nat (be_get (take 8 bs))"

definition Uint32 :: "bytes \<Rightarrow> u32" where
  "Uint32 bs = word_of_nat (be_get (take 4 bs))"

lemma length_PutUint [simp, be_simps]: "length (PutUint64 w) = 8" "length (PutUint32 v) = 4"
  by (simp_all add: PutUint64_def PutUint32_def)

lemma Uint64_PutUint64 [simp, be_simps]: "Uint64 (PutUint64 w @ rest) = w"
  using unsigned_less [of w, where ?'a = nat] by (simp add: Uint64_def PutUint64_def be_get_be_put)

lemma Uint32_PutUint32 [simp, be_simps]: "Uint32 (PutUint32 w @ rest) = w"
  using unsigned_less [of w, where ?'a = nat] by (simp add: Uint32_def PutUint32_def be_get_be_put)

lemma Uint_Put_alone [simp, be_simps]: "Uint64 (PutUint64 w) = w" "Uint32 (PutUint32 v) = v"
  using Uint64_PutUint64 [of w "[]"] Uint32_PutUint32 [of v "[]"] by simp_all

lemma PutUint64_Uint64: "length bs = 8 \<Longrightarrow> PutUint64 (Uint64 bs) = bs"
  using be_put_be_get [of bs] be_get_less [of bs]
  by (simp add: PutUint64_def Uint64_def unat_of_nat)

lemma PutUint64_inject: "PutUint64 a = PutUint64 b \<Longrightarrow> a = b"
  by (metis Uint_Put_alone(1))

section \<open>Files\<close>

text \<open>
  \<^verbatim>\<open>ReadAt(buf, off)\<close> fills the buffer or fails: a negative offset is an error of its own,
  a short read is \<^verbatim>\<open>io.EOF\<close>, an empty buffer needs no byte. \<^verbatim>\<open>WriteAt\<close> past the end of
  the file leaves a gap of zero bytes.
\<close>

datatype io_error = EOF | UnexpectedEOF | NegativeOffset | IOFault

definition readAt :: "bytes \<Rightarrow> int \<Rightarrow> nat \<Rightarrow> io_error + bytes" where
  "readAt f off n =
     (if off < 0 then Inl NegativeOffset
      else if n = 0 then Inr []
      else if nat off + n \<le> length f then Inr (take n (drop (nat off) f))
      else Inl EOF)"

definition writeAt :: "bytes \<Rightarrow> int \<Rightarrow> bytes \<Rightarrow> io_error + bytes" where
  "writeAt f off buf =
     (if off < 0 then Inl NegativeOffset
      else let p = nat off in
        Inr (take p f @ replicate (p - length f) 0 @ buf @ drop (p + length buf) f))"

lemma readAt_mid [file_simps]:
  "f = pre @ mid @ post \<Longrightarrow> off = int (length pre) \<Longrightarrow> n = length mid \<Longrightarrow> readAt f off n = Inr mid"
  by (simp add: readAt_def)

lemma readAt_length: "readAt f off n = Inr bs \<Longrightarrow> length bs = n"
  by (auto simp: readAt_def split: if_splits)

lemma writeAt_end [file_simps]: "writeAt f (int (length f)) buf = Inr (f @ buf)"
  by (simp add: writeAt_def)

lemma writeAt_mid [file_simps]:
  "f = pre @ mid @ post \<Longrightarrow> off = int (length pre) \<Longrightarrow> length buf = length mid \<Longrightarrow>
   writeAt f off buf = Inr (pre @ buf @ post)"
  by (simp add: writeAt_def)

lemma readAt_writeAt_same:
  assumes "writeAt f off buf = Inr f'"
  shows "readAt f' off (length buf) = Inr buf"
proof -
  define pre where "pre = take (nat off) f @ replicate (nat off - length f) 0"
  from assms have f': "f' = pre @ buf @ drop (nat off + length buf) f" and off: "0 \<le> off"
    by (auto simp: writeAt_def pre_def Let_def split: if_splits)
  have "off = int (length pre)" using off by (simp add: pre_def)
  with f' show ?thesis by (rule readAt_mid) simp
qed

section \<open>Self-delimiting records\<close>

text \<open>
  \<^verbatim>\<open>io.ReadFull\<close> on an in-memory reader: \<^verbatim>\<open>io.EOF\<close> when no byte is left and some are
  wanted, \<^verbatim>\<open>io.ErrUnexpectedEOF\<close> on a partial read.
\<close>

definition ReadFull :: "bytes \<Rightarrow> nat \<Rightarrow> io_error + bytes \<times> bytes" where
  "ReadFull r n =
     (if n \<le> length r then Inr (take n r, drop n r)
      else if r = [] then Inl EOF else Inl UnexpectedEOF)"

lemma ReadFull_append [simp]: "n = length bs \<Longrightarrow> ReadFull (bs @ rest) n = Inr (bs, rest)"
  by (simp add: ReadFull_def)

text \<open>
  The contract of a record format: \<open>dec\<close> takes one encoded record off the front of a
  buffer and gives the rest back. Every scanning loop of the block log is a repetition of
  such a step while bytes are left.
\<close>

primrec decode_loop :: "nat \<Rightarrow> (bytes \<Rightarrow> 'e + 'a \<times> bytes) \<Rightarrow> bytes \<Rightarrow> ('e option) \<times> 'a list" where
  "decode_loop 0 dec bs = (None, [])"
| "decode_loop (Suc n) dec bs =
     (if bs = [] then (None, [])
      else case dec bs of
          Inl e \<Rightarrow> (Some e, [])
        | Inr (x, rest) \<Rightarrow> (let (e, xs) = decode_loop n dec rest in (e, x # xs)))"

definition decode_all :: "(bytes \<Rightarrow> 'e + 'a \<times> bytes) \<Rightarrow> bytes \<Rightarrow> ('e option) \<times> 'a list" where
  "decode_all dec bs = decode_loop (length bs) dec bs"

locale record_codec =
  fixes enc :: "'a \<Rightarrow> bytes"
    and dec :: "bytes \<Rightarrow> 'e + 'a \<times> bytes"
    and ok :: "'a \<Rightarrow> bool"
  assumes dec_enc: "ok x \<Longrightarrow> dec (enc x @ rest) = Inr (x, rest)"
    and enc_nonempty: "enc x \<noteq> []"
begin

lemma decode_loop_concat:
  "\<forall>x \<in> set xs. ok x \<Longrightarrow> length (concat (map enc xs)) \<le> n \<Longrightarrow>
   decode_loop n dec (concat (map enc xs)) = (None, xs)"
proof (induction xs arbitrary: n)
  case Nil
  then show ?case by (cases n) simp_all
next
  case (Cons x xs)
  have pos: "0 < length (enc x)" using enc_nonempty by simp
  with Cons.prems(2) obtain m where n: "n = Suc m" by (cases n) auto
  have "length (concat (map enc xs)) \<le> m"
    using Cons.prems(2) pos n by (simp only: list.map concat.simps length_append)
  with Cons have "decode_loop m dec (concat (map enc xs)) = (None, xs)" by simp
  with Cons.prems(1) n show ?case by (simp add: enc_nonempty dec_enc)
qed

lemma decode_all_concat [codec_simps]:
  "\<forall>x \<in> set xs. ok x \<Longrightarrow> decode_all dec (concat (map enc xs)) = (None, xs)"
  by (simp add: decode_all_def decode_loop_concat)

lemma enc_injective: "ok x \<Longrightarrow> ok y \<Longrightarrow> enc x @ r = enc y @ s \<Longrightarrow> x = y \<and> r = s"
  using dec_enc by (metis Pair_inject sum.inject(2))

lemma enc_list_injective:
  assumes "\<forall>x \<in> set xs. ok x" "\<forall>y \<in> set ys. ok y"
    and "concat (map enc xs) = concat (map enc ys)"
  shows "xs = ys"
  using decode_all_concat [OF assms(1)] decode_all_concat [OF assms(2)] assms(3) by (metis prod.inject)

end

end
