(* ===== verification/Cache_Interface.thy ===== *)
theory Cache_Interface
  imports Main
begin

text \<open>
  The contract of a cache that stands in front of a store, as the code's clients rely on it:
  a lookup answers from the cache's content and may only drop entries, an insertion adds at
  most the inserted binding and never keeps an older binding of the same key. From these laws
  the interface derives that reading through the cache and writing through it keep the cache
  coherent with the store.
\<close>

locale store_cache =
  fixes inv :: "'c \<Rightarrow> bool"
    and content :: "'c \<Rightarrow> 'k \<Rightarrow> 'v option"
    and get :: "'c \<Rightarrow> 'k \<Rightarrow> 'v option \<times> 'c"
    and put :: "'c \<Rightarrow> 'k \<Rightarrow> 'v \<Rightarrow> 'c"
    and cacheable :: "'k \<Rightarrow> 'v \<Rightarrow> bool"
  assumes get_result: "inv c \<Longrightarrow> fst (get c k) = content c k"
    and get_content: "inv c \<Longrightarrow> content (snd (get c k)) \<subseteq>\<^sub>m content c"
    and get_inv: "inv c \<Longrightarrow> inv (snd (get c k))"
    and put_content: "inv c \<Longrightarrow> cacheable k v \<Longrightarrow> content (put c k v) \<subseteq>\<^sub>m (content c)(k \<mapsto> v)"
    and put_skip: "inv c \<Longrightarrow> \<not> cacheable k v \<Longrightarrow> put c k v = c"
    and put_inv: "inv c \<Longrightarrow> inv (put c k v)"
begin

definition coherent :: "'c \<Rightarrow> ('k \<Rightarrow> 'v option) \<Rightarrow> bool" where
  "coherent c store \<longleftrightarrow> inv c \<and> content c \<subseteq>\<^sub>m store"

definition read_through :: "'c \<Rightarrow> ('k \<Rightarrow> 'v option) \<Rightarrow> 'k \<Rightarrow> 'v option \<times> 'c" where
  "read_through c store k =
     (case get c k of
        (Some v, c') \<Rightarrow> (Some v, c')
      | (None, c') \<Rightarrow> (case store k of None \<Rightarrow> (None, c') | Some v \<Rightarrow> (Some v, put c' k v)))"

lemma map_le_upd_same: "m \<subseteq>\<^sub>m s \<Longrightarrow> s k = Some v \<Longrightarrow> m(k \<mapsto> v) \<subseteq>\<^sub>m s"
  by (auto simp: map_le_def)

lemma coherent_put: "coherent c store \<Longrightarrow> store k = Some v \<Longrightarrow> coherent (put c k v) store"
  using put_content [of c k v] put_skip [of c k v] put_inv [of c k v] map_le_upd_same [of "content c" store k v]
  unfolding coherent_def by (cases "cacheable k v") (auto dest: map_le_trans)

lemma coherent_get: "coherent c store \<Longrightarrow> coherent (snd (get c k)) store"
  using get_content [of c k] get_inv [of c k] unfolding coherent_def by (auto dest: map_le_trans)

lemma read_through_correct:
  assumes "coherent c store"
  shows "fst (read_through c store k) = store k \<and> coherent (snd (read_through c store k)) store"
proof -
  obtain r c' where g: "get c k = (r, c')" by (cases "get c k")
  have c': "coherent c' store" using coherent_get [OF assms, of k] g by simp
  have r: "r = content c k" using get_result [of c k] assms g by (simp add: coherent_def)
  have "store k = Some v" if "r = Some v" for v
    using assms r that unfolding coherent_def map_le_def by (metis domI)
  with g c' show ?thesis
    by (auto simp: read_through_def coherent_put split: option.split)
qed

lemma write_through_coherent:
  assumes "coherent c store" "cacheable k v"
  shows "coherent (put c k v) (store(k \<mapsto> v))"
proof -
  have "(content c)(k \<mapsto> v) \<subseteq>\<^sub>m store(k \<mapsto> v)"
    using assms by (auto simp: coherent_def map_le_def)
  then show ?thesis
    using assms put_content [of c k v] put_inv unfolding coherent_def by (meson map_le_trans)
qed

end

end
