(* ===== verification/Account_Cache.thy ===== *)
theory Account_Cache
  imports Theo_Prelude Cache_Interface "HOL-Library.Monad_Syntax"
begin

text \<open>
  \<^verbatim>\<open>THEO/account_hash_key_cache.go\<close>: a fixed-capacity LRU cache from 32-byte account
  hashes to account keys of at most 64 bytes. The recency list is threaded through an array
  of entries by index. An index outside the array is a Go panic: such an access is \<open>None\<close>.
  The theory proves that no access panics and that \<open>Get\<close> and \<open>Put\<close> implement the
  operations of an abstract LRU list, most recently used first.
\<close>

section \<open>State and operations\<close>

record accountHashToKeyCacheEntry =
  ce_hash :: bytes
  ce_key :: bytes
  ce_keyLen :: "8 word"
  ce_prev :: int
  ce_next :: int
  ce_inUse :: bool

record accountHashToKeyCache =
  ac_cap :: int
  ac_size :: int
  ac_head :: int
  ac_tail :: int
  ac_index :: "bytes \<rightharpoonup> int"
  ac_entries :: "accountHashToKeyCacheEntry list"

definition defaultAccountHashToKeyCacheCapacity :: int where
  "defaultAccountHashToKeyCacheCapacity = 10000"

definition newAccountHashToKeyCache :: "int \<Rightarrow> accountHashToKeyCache" where
  "newAccountHashToKeyCache capacity =
     (let capacity = (if capacity \<le> 0 then defaultAccountHashToKeyCacheCapacity else capacity) in
      \<lparr>ac_cap = sint (word_of_int capacity :: 32 word), ac_size = 0, ac_head = -1, ac_tail = -1,
       ac_index = Map.empty,
       ac_entries = replicate (nat capacity)
         \<lparr>ce_hash = replicate 32 0, ce_key = replicate 64 0, ce_keyLen = 0,
          ce_prev = -1, ce_next = -1, ce_inUse = False\<rparr>\<rparr>)"

text \<open>\<^verbatim>\<open>copy(dst[:], src)\<close> overwrites a prefix of the fixed-size array.\<close>

definition copy_into :: "bytes \<Rightarrow> bytes \<Rightarrow> bytes" where
  "copy_into dst src = take (length dst) src @ drop (length src) dst"

definition in_range :: "accountHashToKeyCache \<Rightarrow> int \<Rightarrow> bool" where
  "in_range c i \<longleftrightarrow> 0 \<le> i \<and> i < int (length (ac_entries c))"

definition entry_at :: "accountHashToKeyCache \<Rightarrow> int \<Rightarrow> accountHashToKeyCacheEntry option" where
  "entry_at c i = (if in_range c i then Some (ac_entries c ! nat i) else None)"

definition set_entry :: "accountHashToKeyCache \<Rightarrow> int \<Rightarrow>
    (accountHashToKeyCacheEntry \<Rightarrow> accountHashToKeyCacheEntry) \<Rightarrow> accountHashToKeyCache option" where
  "set_entry c i f =
     (if in_range c i
      then Some (c\<lparr>ac_entries := (ac_entries c)[nat i := f (ac_entries c ! nat i)]\<rparr>) else None)"

definition detach :: "accountHashToKeyCache \<Rightarrow> int \<Rightarrow> accountHashToKeyCache option" where
  "detach c idx = do {
     e \<leftarrow> entry_at c idx;
     let p = ce_prev e;
     let n = ce_next e;
     c1 \<leftarrow> (if 0 \<le> p then set_entry c p (\<lambda>x. x\<lparr>ce_next := n\<rparr>) else Some (c\<lparr>ac_head := n\<rparr>));
     c2 \<leftarrow> (if 0 \<le> n then set_entry c1 n (\<lambda>x. x\<lparr>ce_prev := p\<rparr>) else Some (c1\<lparr>ac_tail := p\<rparr>));
     set_entry c2 idx (\<lambda>x. x\<lparr>ce_prev := -1, ce_next := -1\<rparr>)
   }"

definition attachFront :: "accountHashToKeyCache \<Rightarrow> int \<Rightarrow> accountHashToKeyCache option" where
  "attachFront c idx = do {
     c1 \<leftarrow> set_entry c idx (\<lambda>x. x\<lparr>ce_prev := -1, ce_next := ac_head c\<rparr>);
     c2 \<leftarrow> (if 0 \<le> ac_head c1 then set_entry c1 (ac_head c1) (\<lambda>x. x\<lparr>ce_prev := idx\<rparr>)
            else Some (c1\<lparr>ac_tail := idx\<rparr>));
     Some (c2\<lparr>ac_head := idx\<rparr>)
   }"

definition moveToFront :: "accountHashToKeyCache \<Rightarrow> int \<Rightarrow> accountHashToKeyCache option" where
  "moveToFront c idx =
     (if idx = ac_head c then Some c else do { c1 \<leftarrow> detach c idx; attachFront c1 idx })"

definition allocIndexLocked :: "accountHashToKeyCache \<Rightarrow> int \<times> accountHashToKeyCache" where
  "allocIndexLocked c =
     (if ac_size c < ac_cap c then (ac_size c, c\<lparr>ac_size := ac_size c + 1\<rparr>)
      else if 0 \<le> ac_tail c then (ac_tail c, c)
      else (0, c))"

text \<open>
  \<open>Get\<close> returns the number of bytes written to the 64-byte destination, whether the hash was
  found, the destination and the cache.
\<close>

definition Get :: "accountHashToKeyCache \<Rightarrow> bytes \<Rightarrow> bytes \<Rightarrow>
    (8 word \<times> bool \<times> bytes \<times> accountHashToKeyCache) option" where
  "Get c accountHash dst =
     (if length accountHash \<noteq> 32 then Some (0, False, dst, c)
      else case ac_index c accountHash of
          None \<Rightarrow> Some (0, False, dst, c)
        | Some idx \<Rightarrow> do {
            e \<leftarrow> entry_at c idx;
            if \<not> ce_inUse e then Some (0, False, dst, c\<lparr>ac_index := (ac_index c)(accountHash := None)\<rparr>)
            else do {
              let n = ce_keyLen e;
              let dst' = (if 0 < n then copy_into dst (take (unat n) (ce_key e)) else dst);
              c1 \<leftarrow> moveToFront c idx;
              Some (n, True, dst', c1)
            }
          })"

definition store_key :: "bytes \<Rightarrow> bytes \<Rightarrow> accountHashToKeyCacheEntry \<Rightarrow> accountHashToKeyCacheEntry" where
  "store_key accountHash accountKey e =
     e\<lparr>ce_hash := copy_into (ce_hash e) accountHash, ce_key := copy_into (ce_key e) accountKey,
       ce_keyLen := word_of_nat (length accountKey), ce_inUse := True\<rparr>"

definition Put :: "accountHashToKeyCache \<Rightarrow> bytes \<Rightarrow> bytes \<Rightarrow> accountHashToKeyCache option" where
  "Put c accountHash accountKey =
     (if length accountHash \<noteq> 32 then Some c
      else if length accountKey = 0 \<or> 64 < length accountKey then Some c
      else case ac_index c accountHash of
          Some idx \<Rightarrow> do {
            c1 \<leftarrow> set_entry c idx (store_key accountHash accountKey);
            moveToFront c1 idx
          }
        | None \<Rightarrow> do {
            let (idx, c1) = allocIndexLocked c;
            e \<leftarrow> entry_at c1 idx;
            c2 \<leftarrow> (if ce_inUse e
                   then detach (c1\<lparr>ac_index := (ac_index c1)(ce_hash e := None)\<rparr>) idx else Some c1);
            c3 \<leftarrow> set_entry c2 idx (store_key accountHash accountKey);
            c4 \<leftarrow> attachFront c3 idx;
            Some (c4\<lparr>ac_index := (ac_index c4)(accountHash \<mapsto> idx)\<rparr>)
          })"

section \<open>The abstract LRU list\<close>

type_synonym lru = "(bytes \<times> bytes) list"

definition lru_remove :: "bytes \<Rightarrow> lru \<Rightarrow> lru" where
  "lru_remove k l = filter (\<lambda>(k', _). k' \<noteq> k) l"

definition lru_touch :: "bytes \<Rightarrow> lru \<Rightarrow> lru" where
  "lru_touch k l = (case map_of l k of None \<Rightarrow> l | Some v \<Rightarrow> (k, v) # lru_remove k l)"

definition lru_put :: "nat \<Rightarrow> bytes \<Rightarrow> bytes \<Rightarrow> lru \<Rightarrow> lru" where
  "lru_put cap k v l = (k, v) # take (cap - 1) (lru_remove k l)"

section \<open>Threaded lists\<close>

abbreviation ent :: "accountHashToKeyCache \<Rightarrow> int \<Rightarrow> accountHashToKeyCacheEntry" where
  "ent c i \<equiv> ac_entries c ! nat i"

definition first_or :: "int \<Rightarrow> int list \<Rightarrow> int" where
  "first_or d xs = (case xs of [] \<Rightarrow> d | x # _ \<Rightarrow> x)"

definition last_or :: "int \<Rightarrow> int list \<Rightarrow> int" where
  "last_or d xs = (if xs = [] then d else last xs)"

lemma first_last_or_simps [simp]:
  "first_or d [] = d" "first_or d (x # xs) = x" "last_or d [] = d" "last_or d (xs @ [x]) = x"
  "last_or d (x # xs) = last_or x xs" "first_or d (xs @ ys) = first_or (first_or d ys) xs"
  "last_or d (xs @ ys) = last_or (last_or d xs) ys"
  by (cases xs; simp add: first_or_def last_or_def)+

fun dseg :: "accountHashToKeyCache \<Rightarrow> int \<Rightarrow> int list \<Rightarrow> int \<Rightarrow> bool" where
  "dseg c p [] n = True"
| "dseg c p (i # is) n =
     (in_range c i \<and> ce_prev (ent c i) = p \<and> ce_next (ent c i) = first_or n is \<and> dseg c i is n)"

lemma dseg_append: "dseg c p (xs @ ys) n \<longleftrightarrow> dseg c p xs (first_or n ys) \<and> dseg c (last_or p xs) ys n"
  by (induction xs arbitrary: p) auto

lemma dseg_in_range: "dseg c p xs n \<Longrightarrow> i \<in> set xs \<Longrightarrow> in_range c i"
  by (induction xs arbitrary: p) auto

definition upd :: "accountHashToKeyCache \<Rightarrow> int \<Rightarrow>
    (accountHashToKeyCacheEntry \<Rightarrow> accountHashToKeyCacheEntry) \<Rightarrow> accountHashToKeyCache" where
  "upd c i f = c\<lparr>ac_entries := (ac_entries c)[nat i := f (ac_entries c ! nat i)]\<rparr>"

lemma set_entry_upd: "in_range c i \<Longrightarrow> set_entry c i f = Some (upd c i f)"
  by (simp add: set_entry_def upd_def)

lemma entry_at_ent: "in_range c i \<Longrightarrow> entry_at c i = Some (ent c i)"
  by (simp add: entry_at_def)

lemma upd_frame [simp]:
  "in_range (upd c i f) j = in_range c j" "ac_head (upd c i f) = ac_head c" "ac_tail (upd c i f) = ac_tail c"
  "ac_index (upd c i f) = ac_index c" "ac_cap (upd c i f) = ac_cap c" "ac_size (upd c i f) = ac_size c"
  "length (ac_entries (upd c i f)) = length (ac_entries c)"
  by (simp_all add: upd_def in_range_def)

lemma in_range_frame [simp]:
  "in_range (c\<lparr>ac_head := h\<rparr>) j = in_range c j" "in_range (c\<lparr>ac_tail := t\<rparr>) j = in_range c j"
  "in_range (c\<lparr>ac_index := m\<rparr>) j = in_range c j" "in_range (c\<lparr>ac_size := s\<rparr>) j = in_range c j"
  by (simp_all add: in_range_def)

lemma ent_upd [simp]:
  "in_range c i \<Longrightarrow> in_range c j \<Longrightarrow> ent (upd c i f) j = (if i = j then f (ent c j) else ent c j)"
  by (auto simp: upd_def in_range_def nth_list_update)

lemma dseg_cong:
  "(\<And>i. in_range c' i = in_range c i) \<Longrightarrow>
   (\<And>i. i \<in> set xs \<Longrightarrow> in_range c i \<Longrightarrow>
      ce_prev (ent c' i) = ce_prev (ent c i) \<and> ce_next (ent c' i) = ce_next (ent c i)) \<Longrightarrow>
   dseg c' p xs n = dseg c p xs n"
  by (induction xs arbitrary: p) auto

lemma dseg_upd_other: "in_range c i \<Longrightarrow> i \<notin> set xs \<Longrightarrow> dseg (upd c i f) p xs n = dseg c p xs n"
  by (rule dseg_cong) auto

lemma dseg_frame [simp]:
  "dseg (c\<lparr>ac_head := h\<rparr>) p xs n = dseg c p xs n" "dseg (c\<lparr>ac_tail := t\<rparr>) p xs n = dseg c p xs n"
  "dseg (c\<lparr>ac_index := m\<rparr>) p xs n = dseg c p xs n" "dseg (c\<lparr>ac_size := s\<rparr>) p xs n = dseg c p xs n"
  by (rule dseg_cong; simp)+

lemma dseg_set_next:
  "dseg c p (xs @ [a]) n \<Longrightarrow> a \<notin> set xs \<Longrightarrow> dseg (upd c a (\<lambda>x. x\<lparr>ce_next := m\<rparr>)) p (xs @ [a]) m"
  by (auto simp: dseg_append dseg_upd_other)

lemma dseg_set_prev:
  "dseg c p (b # ys) n \<Longrightarrow> b \<notin> set ys \<Longrightarrow> dseg (upd c b (\<lambda>x. x\<lparr>ce_prev := q\<rparr>)) q (b # ys) n"
  by (auto simp: dseg_upd_other)

definition linked :: "accountHashToKeyCache \<Rightarrow> int list \<Rightarrow> bool" where
  "linked c is \<longleftrightarrow> distinct is \<and> dseg c (-1) is (-1) \<and>
     ac_head c = first_or (-1) is \<and> ac_tail c = last_or (-1) is"

lemma linked_in_range: "linked c is \<Longrightarrow> i \<in> set is \<Longrightarrow> in_range c i"
  by (auto simp: linked_def dseg_in_range)

lemma in_range_nonneg: "in_range c i \<Longrightarrow> 0 \<le> i"
  by (simp add: in_range_def)

text \<open>Payload fields: what list surgery leaves alone.\<close>

definition payload :: "accountHashToKeyCacheEntry \<Rightarrow> bytes \<times> bytes \<times> 8 word \<times> bool" where
  "payload e = (ce_hash e, ce_key e, ce_keyLen e, ce_inUse e)"

lemma payload_simps [simp]:
  "payload (e\<lparr>ce_prev := p\<rparr>) = payload e" "payload (e\<lparr>ce_next := n\<rparr>) = payload e"
  by (simp_all add: payload_def)

definition same_payload :: "accountHashToKeyCache \<Rightarrow> accountHashToKeyCache \<Rightarrow> bool" where
  "same_payload c c' \<longleftrightarrow> length (ac_entries c') = length (ac_entries c) \<and> ac_index c' = ac_index c \<and>
     ac_cap c' = ac_cap c \<and> ac_size c' = ac_size c \<and>
     (\<forall>i. in_range c i \<longrightarrow> payload (ent c' i) = payload (ent c i))"

lemma same_payload_in_range: "same_payload c c' \<Longrightarrow> in_range c' i = in_range c i"
  by (simp add: same_payload_def in_range_def)

lemma same_payload_trans: "same_payload a b \<Longrightarrow> same_payload b c \<Longrightarrow> same_payload a c"
  by (simp add: same_payload_def in_range_def)

lemma same_payload_upd:
  "in_range c i \<Longrightarrow> (\<And>e. payload (f e) = payload e) \<Longrightarrow> same_payload c (upd c i f)"
  by (auto simp: same_payload_def)

lemma same_payload_frame [simp]:
  "same_payload c (c\<lparr>ac_head := h\<rparr>)" "same_payload c (c\<lparr>ac_tail := t\<rparr>)" "same_payload c c"
  by (simp_all add: same_payload_def)

lemma detach_linked:
  assumes "linked c (xs @ idx # ys)"
  shows "\<exists>c'. detach c idx = Some c' \<and> linked c' (xs @ ys) \<and> same_payload c c'"
proof -
  let ?p = "last_or (-1) xs" and ?n = "first_or (-1) ys"
  from assms have dist: "distinct (xs @ idx # ys)" and seg: "dseg c (-1) (xs @ idx # ys) (-1)"
    and head: "ac_head c = first_or idx xs" and tail: "ac_tail c = last_or idx ys"
    by (simp_all add: linked_def)
  from seg have rng: "in_range c idx" and prv: "ce_prev (ent c idx) = ?p" and nxt: "ce_next (ent c idx) = ?n"
    and segx: "dseg c (-1) xs idx" and segy: "dseg c idx ys (-1)"
    by (simp_all add: dseg_append)
  have all: "in_range c i" if "i \<in> set (xs @ idx # ys)" for i
    using seg that by (rule dseg_in_range)
  define c1 where "c1 = (if xs = [] then c\<lparr>ac_head := ?n\<rparr> else upd c ?p (\<lambda>x. x\<lparr>ce_next := ?n\<rparr>))"
  have s1: "(if 0 \<le> ?p then set_entry c ?p (\<lambda>x. x\<lparr>ce_next := ?n\<rparr>) else Some (c\<lparr>ac_head := ?n\<rparr>)) = Some c1"
    and c1x: "dseg c1 (-1) xs ?n" and c1y: "dseg c1 idx ys (-1)" and c1h: "ac_head c1 = first_or ?n xs"
    and c1t: "ac_tail c1 = ac_tail c" and c1p: "same_payload c c1"
  proof -
    show "(if 0 \<le> ?p then set_entry c ?p (\<lambda>x. x\<lparr>ce_next := ?n\<rparr>) else Some (c\<lparr>ac_head := ?n\<rparr>)) = Some c1"
      using all [of "last xs"] by (auto simp: c1_def last_or_def set_entry_upd dest: in_range_nonneg)
    show "dseg c1 (-1) xs ?n"
    proof (cases xs rule: rev_cases)
      case (snoc us a)
      with segx dist show ?thesis by (simp add: c1_def dseg_set_next)
    qed (simp add: c1_def)
    show "dseg c1 idx ys (-1)"
    proof (cases "xs = []")
      case False
      then have "last xs \<notin> set ys" 
        using dist by (metis disjoint_iff distinct_append last_in_set list.set_intros(2))
      with False segy all [of "last xs"] show ?thesis by (simp add: c1_def last_or_def dseg_upd_other)
    qed (use segy in \<open>simp add: c1_def\<close>)
    show "ac_head c1 = first_or ?n xs" using head by (cases xs) (simp_all add: c1_def)
    show "ac_tail c1 = ac_tail c" by (simp add: c1_def)
    show "same_payload c c1"
      using all [of "last xs"] by (auto simp: c1_def last_or_def intro: same_payload_upd)
  qed
  have rng1: "in_range c1 i = in_range c i" for i using c1p by (rule same_payload_in_range)
  define c2 where "c2 = (if ys = [] then c1\<lparr>ac_tail := ?p\<rparr> else upd c1 ?n (\<lambda>x. x\<lparr>ce_prev := ?p\<rparr>))"
  have s2: "(if 0 \<le> ?n then set_entry c1 ?n (\<lambda>x. x\<lparr>ce_prev := ?p\<rparr>) else Some (c1\<lparr>ac_tail := ?p\<rparr>)) = Some c2"
    and c2x: "dseg c2 (-1) xs ?n" and c2y: "dseg c2 ?p ys (-1)" and c2h: "ac_head c2 = first_or ?n xs"
    and c2t: "ac_tail c2 = last_or ?p ys" and c2p: "same_payload c1 c2"
  proof -
    show "(if 0 \<le> ?n then set_entry c1 ?n (\<lambda>x. x\<lparr>ce_prev := ?p\<rparr>) else Some (c1\<lparr>ac_tail := ?p\<rparr>)) = Some c2"
      using all [of "hd ys"] rng1 by (cases ys) (auto simp: c2_def set_entry_upd dest: in_range_nonneg)
    show "dseg c2 (-1) xs ?n"
      using c1x dist all [of "hd ys"] rng1 by (cases ys) (auto simp: c2_def dseg_upd_other)
    show "dseg c2 ?p ys (-1)"
      using c1y dist by (cases ys) (simp_all add: c2_def dseg_upd_other)
    show "ac_head c2 = first_or ?n xs" using c1h by (simp add: c2_def)
    show "ac_tail c2 = last_or ?p ys" using c1t tail by (cases ys) (simp_all add: c2_def)
    show "same_payload c1 c2"
      using all [of "hd ys"] rng1 by (cases ys) (auto simp: c2_def intro: same_payload_upd)
  qed
  have rng2: "in_range c2 i = in_range c i" for i using c2p rng1 by (simp add: same_payload_in_range)
  define c3 where "c3 = upd c2 idx (\<lambda>x. x\<lparr>ce_prev := -1, ce_next := -1\<rparr>)"
  have "detach c idx = Some c3"
    by (simp only: detach_def entry_at_ent [OF rng] bind.bind_lunit Let_def prv nxt s1 s2)
      (simp add: set_entry_upd rng rng2 c3_def)
  moreover have "linked c3 (xs @ ys)"
    using dist c2x c2y c2h c2t rng rng2
    by (simp add: linked_def c3_def dseg_append dseg_upd_other)
  moreover have "same_payload c c3"
  proof -
    have "same_payload c2 c3" unfolding c3_def using rng rng2 by (intro same_payload_upd) simp_all
    with c1p c2p show ?thesis using same_payload_trans by blast
  qed
  ultimately show ?thesis by blast
qed

lemma attachFront_linked:
  assumes "linked c is" and "in_range c idx" and "idx \<notin> set is"
  shows "\<exists>c'. attachFront c idx = Some c' \<and> linked c' (idx # is) \<and> same_payload c c'"
proof -
  let ?f = "\<lambda>x. x\<lparr>ce_prev := -1, ce_next := ac_head c\<rparr>"
  define c1 where "c1 = upd c idx ?f"
  have seg: "dseg c1 (-1) is (-1)" and head: "ac_head c = first_or (-1) is" and tail: "ac_tail c = last_or (-1) is"
    and dist: "distinct is"
    using assms by (simp_all add: linked_def c1_def dseg_upd_other)
  define c2 where "c2 = (if is = [] then c1\<lparr>ac_tail := idx\<rparr> else upd c1 (hd is) (\<lambda>x. x\<lparr>ce_prev := idx\<rparr>))"
  have hdr: "in_range c (hd is)" if "is \<noteq> []" using assms(1) that by (simp add: linked_in_range)
  have ne: "hd is \<noteq> idx" if "is \<noteq> []" using assms(3) that by (cases "is") auto
  have run: "attachFront c idx = Some (c2\<lparr>ac_head := idx\<rparr>)"
    using assms(2) head hdr
    by (cases "is") (auto simp: attachFront_def set_entry_upd c1_def c2_def dest: in_range_nonneg)
  have "dseg c2 idx is (-1)"
    using seg dist hdr by (cases "is") (simp_all add: c2_def c1_def dseg_upd_other)
  moreover have "in_range c2 idx \<and> ce_prev (ent c2 idx) = -1 \<and> ce_next (ent c2 idx) = first_or (-1) is"
    using assms(2) head hdr ne by (cases "is = []") (simp_all add: c2_def c1_def)
  moreover have "ac_tail c2 = last_or idx is"
    using tail by (cases "is") (simp_all add: c2_def c1_def)
  ultimately have "linked (c2\<lparr>ac_head := idx\<rparr>) (idx # is)"
    using assms(3) dist by (simp add: linked_def)
  moreover have "same_payload c (c2\<lparr>ac_head := idx\<rparr>)"
  proof -
    have "same_payload c c1" unfolding c1_def by (rule same_payload_upd) (simp_all add: assms(2))
    moreover have "in_range c1 (hd is)" if "is \<noteq> []" using hdr [OF that] by (simp add: c1_def)
    then have "same_payload c1 c2" by (cases "is = []") (simp_all add: c2_def same_payload_upd)
    ultimately have "same_payload c c2" by (rule same_payload_trans)
    then show ?thesis by (rule same_payload_trans) simp
  qed
  ultimately show ?thesis using run by blast
qed

lemma moveToFront_linked:
  assumes "linked c (xs @ idx # ys)"
  shows "\<exists>c'. moveToFront c idx = Some c' \<and> linked c' (idx # xs @ ys) \<and> same_payload c c'"
proof (cases xs)
  case Nil
  with assms show ?thesis by (auto simp: moveToFront_def linked_def)
next
  case (Cons x us)
  with assms have "idx \<noteq> ac_head c" by (auto simp: linked_def)
  obtain c1 where c1: "detach c idx = Some c1" "linked c1 (xs @ ys)" "same_payload c c1"
    using detach_linked [OF assms] by blast
  have "in_range c1 idx" using assms c1(3) by (simp add: linked_in_range same_payload_in_range)
  moreover have "idx \<notin> set (xs @ ys)" using assms by (simp add: linked_def)
  ultimately obtain c2 where c2: "attachFront c1 idx = Some c2" "linked c2 (idx # xs @ ys)" "same_payload c1 c2"
    using attachFront_linked [OF c1(2)] by blast
  with c1 \<open>idx \<noteq> ac_head c\<close> show ?thesis
    by (auto simp: moveToFront_def intro: same_payload_trans)
qed

section \<open>The cache as an LRU list\<close>

definition stored_key :: "accountHashToKeyCacheEntry \<Rightarrow> bytes" where
  "stored_key e = take (unat (ce_keyLen e)) (ce_key e)"

text \<open>
  The invariant: \<open>is\<close> lists the slots in recency order. The slots in use are the first
  \<open>size\<close> ones, their hashes are distinct 32-byte strings with keys of 1 to 64 bytes, and the
  index maps exactly these hashes to their slots.
\<close>

definition slot_ok :: "accountHashToKeyCache \<Rightarrow> int \<Rightarrow> bool" where
  "slot_ok c i \<longleftrightarrow> ce_inUse (ent c i) \<and> 0 < ce_keyLen (ent c i) \<and> unat (ce_keyLen (ent c i)) \<le> 64"

definition cache_inv :: "accountHashToKeyCache \<Rightarrow> int list \<Rightarrow> bool" where
  "cache_inv c is \<longleftrightarrow> linked c is \<and> 0 < ac_cap c \<and> ac_cap c = int (length (ac_entries c)) \<and>
     ac_size c = int (length is) \<and> set is = {0..<ac_size c} \<and>
     (\<forall>i. in_range c i \<longrightarrow> length (ce_hash (ent c i)) = 32 \<and> length (ce_key (ent c i)) = 64) \<and>
     (\<forall>i \<in> set is. slot_ok c i) \<and>
     (\<forall>i. in_range c i \<and> i \<notin> set is \<longrightarrow> \<not> ce_inUse (ent c i)) \<and>
     (\<forall>k i. ac_index c k = Some i \<longleftrightarrow> i \<in> set is \<and> ce_hash (ent c i) = k)"

definition cache_abs :: "accountHashToKeyCache \<Rightarrow> int list \<Rightarrow> lru" where
  "cache_abs c is = map (\<lambda>i. (ce_hash (ent c i), stored_key (ent c i))) is"

lemma cache_inv_hash_inj: "cache_inv c is \<Longrightarrow> i \<in> set is \<Longrightarrow> j \<in> set is \<Longrightarrow>
    ce_hash (ent c i) = ce_hash (ent c j) \<Longrightarrow> i = j"
  unfolding cache_inv_def by (metis option.inject)

lemma cache_inv_in_range: "cache_inv c is \<Longrightarrow> i \<in> set is \<Longrightarrow> in_range c i"
  by (auto simp: cache_inv_def linked_in_range)

lemma cache_inv_index: "cache_inv c is \<Longrightarrow> ac_index c k = Some i \<longleftrightarrow> i \<in> set is \<and> ce_hash (ent c i) = k"
  by (simp add: cache_inv_def)

lemma cache_inv_index_None: "cache_inv c is \<Longrightarrow> ac_index c k = None \<longleftrightarrow> k \<notin> (\<lambda>i. ce_hash (ent c i)) ` set is"
  unfolding image_iff by (metis cache_inv_index not_Some_eq)

lemma cache_inv_distinct_keys: "cache_inv c is \<Longrightarrow> distinct (map fst (cache_abs c is))"
  by (auto simp: cache_abs_def distinct_map o_def inj_on_def cache_inv_def linked_def
      intro: cache_inv_hash_inj [unfolded cache_inv_def linked_def])

lemma cache_inv_length: "cache_inv c is \<Longrightarrow> length is \<le> nat (ac_cap c)"
proof -
  assume inv: "cache_inv c is"
  have "ac_cap c = int (length (ac_entries c))" using inv by (simp add: cache_inv_def)
  then have "set is \<subseteq> {0..<ac_cap c}"
    using cache_inv_in_range [OF inv] by (simp add: in_range_def subset_iff)
  moreover have "distinct is" using inv by (simp add: cache_inv_def linked_def)
  ultimately show ?thesis
    using card_mono [of "{0..<ac_cap c}" "set is"] by (simp add: distinct_card)
qed

lemma lru_remove_abs:
  assumes "cache_inv c (xs @ i # ys)"
  shows "lru_remove (ce_hash (ent c i)) (cache_abs c (xs @ i # ys)) = cache_abs c (xs @ ys)"
proof -
  have "ce_hash (ent c j) \<noteq> ce_hash (ent c i)" if "j \<in> set (xs @ ys)" for j
    using cache_inv_hash_inj [OF assms, of j i] assms that by (auto simp: cache_inv_def linked_def)
  then have "filter (\<lambda>j. ce_hash (ent c j) \<noteq> ce_hash (ent c i)) xs = xs"
    "filter (\<lambda>j. ce_hash (ent c j) \<noteq> ce_hash (ent c i)) ys = ys"
    by (auto simp: filter_id_conv)
  then show ?thesis
    by (simp add: lru_remove_def cache_abs_def filter_map o_def)
qed

lemma lru_remove_absent: "k \<notin> fst ` set l \<Longrightarrow> lru_remove k l = l"
  by (force simp: lru_remove_def filter_id_conv)

lemma map_of_abs:
  "cache_inv c is \<Longrightarrow> map_of (cache_abs c is) k = map_option (\<lambda>i. stored_key (ent c i)) (ac_index c k)"
proof (cases "ac_index c k")
  case None
  assume "cache_inv c is"
  with None have "k \<notin> fst ` set (cache_abs c is)"
    by (auto simp: cache_abs_def cache_inv_index_None)
  with None show ?thesis by (simp add: map_of_eq_None_iff)
next
  case (Some i)
  assume inv: "cache_inv c is"
  with Some have "(k, stored_key (ent c i)) \<in> set (cache_abs c is)"
    by (auto simp: cache_abs_def cache_inv_index)
  with inv Some show ?thesis by (simp add: cache_inv_distinct_keys)
qed

lemma same_payload_ent:
  assumes "same_payload c c'" "in_range c i"
  shows "ce_hash (ent c' i) = ce_hash (ent c i)" "ce_key (ent c' i) = ce_key (ent c i)"
    "ce_keyLen (ent c' i) = ce_keyLen (ent c i)" "ce_inUse (ent c' i) = ce_inUse (ent c i)"
  using assms by (auto simp: same_payload_def payload_def)

lemma cache_inv_relink:
  assumes "cache_inv c is" "same_payload c c'" "linked c' js" "set js = set is"
  shows "cache_inv c' js" "cache_abs c' js = cache_abs c js"
proof -
  note ent = same_payload_ent [OF assms(2)]
  have rng: "in_range c' i = in_range c i" for i using assms(2) by (rule same_payload_in_range)
  have len: "length js = length is"
    using assms by (metis cache_inv_def distinct_card linked_def)
  have inr: "in_range c i" if "i \<in> set js" for i
    using assms(1,4) that by (simp add: cache_inv_in_range)
  show "cache_inv c' js"
    using assms rng len ent inr by (auto simp: cache_inv_def same_payload_def slot_ok_def)
  show "cache_abs c' js = cache_abs c js"
    using ent inr by (auto simp: cache_abs_def stored_key_def)
qed

lemma moveToFront_refines:
  assumes "cache_inv c is" "i \<in> set is"
  shows "\<exists>c' js. moveToFront c i = Some c' \<and> cache_inv c' js \<and>
     cache_abs c' js = (ce_hash (ent c i), stored_key (ent c i)) # lru_remove (ce_hash (ent c i)) (cache_abs c is)"
proof -
  from assms(2) obtain xs ys where split: "is = xs @ i # ys" by (metis split_list)
  with assms(1) have "linked c (xs @ i # ys)" by (simp add: cache_inv_def)
  then obtain c' where c': "moveToFront c i = Some c'" "linked c' (i # xs @ ys)" "same_payload c c'"
    using moveToFront_linked by blast
  from cache_inv_relink [OF assms(1) c'(3,2)] split
  have "cache_inv c' (i # xs @ ys)" "cache_abs c' (i # xs @ ys) = cache_abs c (i # xs @ ys)" by auto
  moreover have "cache_abs c (i # xs @ ys) =
      (ce_hash (ent c i), stored_key (ent c i)) # lru_remove (ce_hash (ent c i)) (cache_abs c is)"
    using lru_remove_abs [of c xs i ys] assms(1) split by (simp add: cache_abs_def)
  ultimately show ?thesis using c'(1) by auto
qed

lemma cache_abs_keys: "fst ` set (cache_abs c is) = (\<lambda>i. ce_hash (ent c i)) ` set is"
  by (auto simp: cache_abs_def image_image)

lemma Get_refines:
  assumes inv: "cache_inv c is" and "length h = 32" "length dst = 64"
  shows "case map_of (cache_abs c is) h of
      None \<Rightarrow> Get c h dst = Some (0, False, dst, c)
    | Some v \<Rightarrow> \<exists>c' js. Get c h dst = Some (word_of_nat (length v), True, v @ drop (length v) dst, c') \<and>
        cache_inv c' js \<and> cache_abs c' js = lru_touch h (cache_abs c is)"
proof (cases "ac_index c h")
  case None
  then show ?thesis using assms by (simp add: map_of_abs Get_def)
next
  case (Some i)
  then have i: "i \<in> set is" "ce_hash (ent c i) = h" using inv by (simp_all add: cache_inv_index)
  have rng: "in_range c i" using inv i(1) by (rule cache_inv_in_range)
  have slot: "slot_ok c i" "length (ce_key (ent c i)) = 64"
    using inv i(1) rng by (simp_all add: cache_inv_def)
  let ?v = "stored_key (ent c i)"
  have lenv: "length ?v = unat (ce_keyLen (ent c i))"
    using slot by (simp add: slot_ok_def stored_key_def)
  obtain c' js where c': "moveToFront c i = Some c'" "cache_inv c' js"
      "cache_abs c' js = (h, ?v) # lru_remove h (cache_abs c is)"
    using moveToFront_refines [OF inv i(1)] i(2) by auto
  have "Get c h dst = Some (word_of_nat (length ?v), True, ?v @ drop (length ?v) dst, c')"
    using assms Some rng slot c'(1) lenv
    by (simp add: Get_def entry_at_ent slot_ok_def copy_into_def stored_key_def Let_def)
  moreover have "lru_touch h (cache_abs c is) = (h, ?v) # lru_remove h (cache_abs c is)"
    using inv Some by (simp add: lru_touch_def map_of_abs)
  ultimately show ?thesis using inv Some c' by (auto simp: map_of_abs)
qed

lemma stored_key_store_key:
  assumes "length (ce_key e) = 64" "length k \<le> 64"
  shows "stored_key (store_key h k e) = k" "unat (ce_keyLen (store_key h k e)) = length k"
  using assms by (simp_all add: stored_key_def store_key_def copy_into_def unat_of_nat)

lemma store_key_fields [simp]:
  "ce_prev (store_key h k e) = ce_prev e" "ce_next (store_key h k e) = ce_next e"
  "ce_inUse (store_key h k e) = True"
  "length h = length (ce_hash e) \<Longrightarrow> ce_hash (store_key h k e) = h"
  "length k \<le> length (ce_key e) \<Longrightarrow> length (ce_key (store_key h k e)) = length (ce_key e)"
  by (simp_all add: store_key_def copy_into_def)

lemma linked_store_key: "in_range c i \<Longrightarrow> linked (upd c i (store_key h k)) is = linked c is"
proof -
  assume "in_range c i"
  then have "dseg (upd c i (store_key h k)) p xs n = dseg c p xs n" for p xs n
    by (intro dseg_cong) auto
  then show ?thesis by (simp add: linked_def)
qed

lemma keyLen_pos: "length k \<noteq> 0 \<Longrightarrow> length k \<le> 64 \<Longrightarrow> length (ce_key e) = 64 \<Longrightarrow> 0 < ce_keyLen (store_key h k e)"
  using stored_key_store_key(2) [of e k h] by (metis unat_gt_0 word_gt_0 neq0_conv)

text \<open>Overwriting the key of a cached hash.\<close>

lemma cache_inv_overwrite:
  assumes inv: "cache_inv c is" and i: "i \<in> set is" "ce_hash (ent c i) = h" and k: "length k \<noteq> 0" "length k \<le> 64"
  shows "cache_inv (upd c i (store_key h k)) is"
    and "cache_abs (upd c i (store_key h k)) is = map (\<lambda>(a, v). (a, if a = h then k else v)) (cache_abs c is)"
proof -
  have rng: "in_range c i" using inv i(1) by (rule cache_inv_in_range)
  have len: "length (ce_hash (ent c i)) = 32" "length (ce_key (ent c i)) = 64"
    using inv rng by (simp_all add: cache_inv_def)
  have hash: "ce_hash (ent (upd c i (store_key h k)) j) = ce_hash (ent c j)" if "in_range c j" for j
    using rng that i(2) len by (cases "i = j") simp_all
  show "cache_inv (upd c i (store_key h k)) is"
    using inv rng len i k hash keyLen_pos [OF k len(2)] stored_key_store_key(2) [OF len(2) k(2)]
      cache_inv_in_range [OF inv]
    by (auto simp: cache_inv_def linked_store_key slot_ok_def)
  show "cache_abs (upd c i (store_key h k)) is = map (\<lambda>(a, v). (a, if a = h then k else v)) (cache_abs c is)"
    using rng len i k hash cache_inv_in_range [OF inv] stored_key_store_key(1) [OF len(2) k(2)]
      cache_inv_hash_inj [OF inv]
    by (auto simp: cache_abs_def)
qed

lemma lru_remove_overwrite:
  "lru_remove h (map (\<lambda>(a, v). (a, if a = h then k else v)) l) = lru_remove h l"
  by (induction l) (auto simp: lru_remove_def)

text \<open>A slot \<open>idx\<close> outside the recency list is about to be filled.\<close>

definition free_inv :: "accountHashToKeyCache \<Rightarrow> int list \<Rightarrow> int \<Rightarrow> bool" where
  "free_inv c js idx \<longleftrightarrow> linked c js \<and> in_range c idx \<and> idx \<notin> set js \<and> 0 < ac_cap c \<and>
     ac_cap c = int (length (ac_entries c)) \<and> ac_size c = int (length js) + 1 \<and>
     insert idx (set js) = {0..<ac_size c} \<and>
     (\<forall>i. in_range c i \<longrightarrow> length (ce_hash (ent c i)) = 32 \<and> length (ce_key (ent c i)) = 64) \<and>
     (\<forall>i \<in> set js. slot_ok c i) \<and>
     (\<forall>i. in_range c i \<and> i \<notin> insert idx (set js) \<longrightarrow> \<not> ce_inUse (ent c i)) \<and>
     (\<forall>k i. ac_index c k = Some i \<longleftrightarrow> i \<in> set js \<and> ce_hash (ent c i) = k)"

lemma fill_slot:
  assumes free: "free_inv c js idx" and h: "length h = 32" "h \<notin> (\<lambda>i. ce_hash (ent c i)) ` set js"
    and k: "length k \<noteq> 0" "length k \<le> 64"
  shows "\<exists>c3 c4. set_entry c idx (store_key h k) = Some c3 \<and> attachFront c3 idx = Some c4 \<and>
     cache_inv (c4\<lparr>ac_index := (ac_index c4)(h \<mapsto> idx)\<rparr>) (idx # js) \<and>
     cache_abs (c4\<lparr>ac_index := (ac_index c4)(h \<mapsto> idx)\<rparr>) (idx # js) = (h, k) # cache_abs c js"
proof -
  have rng: "in_range c idx" and nin: "idx \<notin> set js" and lnk: "linked c js"
    and len: "length (ce_hash (ent c idx)) = 32" "length (ce_key (ent c idx)) = 64"
    using free by (auto simp: free_inv_def)
  let ?c3 = "upd c idx (store_key h k)"
  have c3: "set_entry c idx (store_key h k) = Some ?c3" using rng by (rule set_entry_upd)
  have "linked ?c3 js" "in_range ?c3 idx" using lnk rng by (simp_all add: linked_store_key)
  then obtain c4 where c4: "attachFront ?c3 idx = Some c4" "linked c4 (idx # js)" "same_payload ?c3 c4"
    using attachFront_linked nin by blast
  note e4 = same_payload_ent [OF c4(3)]
  have inr: "in_range c i" if "i \<in> set js" for i using lnk that by (rule linked_in_range)
  have new: "ce_hash (ent c4 idx) = h" "stored_key (ent c4 idx) = k" "ce_inUse (ent c4 idx)"
      "unat (ce_keyLen (ent c4 idx)) = length k" "0 < ce_keyLen (ent c4 idx)" "length (ce_key (ent c4 idx)) = 64"
    using rng e4 len h k stored_key_store_key [OF len(2) k(2), of h] keyLen_pos [OF k len(2), of h]
    by (simp_all add: stored_key_def)
  have old: "ce_hash (ent c4 i) = ce_hash (ent c i)" "ce_key (ent c4 i) = ce_key (ent c i)"
      "ce_keyLen (ent c4 i) = ce_keyLen (ent c i)" "ce_inUse (ent c4 i) = ce_inUse (ent c i)"
    if "in_range c i" "i \<noteq> idx" for i
    using e4 [of i] that rng by simp_all
  have frame: "in_range c4 i = in_range c i" "ac_cap c4 = ac_cap c" "ac_size c4 = ac_size c"
      "length (ac_entries c4) = length (ac_entries c)" "ac_index c4 = ac_index c" for i
    using c4(3) by (simp_all add: same_payload_def in_range_def)
  have nidx: "i \<noteq> idx" if "i \<in> set js" for i using nin that by auto
  let ?c5 = "c4\<lparr>ac_index := (ac_index c4)(h \<mapsto> idx)\<rparr>"
  have idx5: "ac_index ?c5 a = Some i \<longleftrightarrow> i \<in> set (idx # js) \<and> ce_hash (ent ?c5 i) = a" for a i
  proof -
    have fidx: "ac_index c a = Some i \<longleftrightarrow> i \<in> set js \<and> ce_hash (ent c i) = a"
      using free by (simp add: free_inv_def)
    have hjs: "ce_hash (ent c i) = ce_hash (ent c4 i) \<and> ce_hash (ent c i) \<noteq> h" if "i \<in> set js"
      using old(1) [OF inr [OF that] nidx [OF that]] h(2) that by auto
    show ?thesis
    proof (cases "a = h")
      case True
      with hjs new(1) show ?thesis by auto
    next
      case False
      with fidx hjs new(1) frame(5) show ?thesis by (cases "i \<in> set js") auto
    qed
  qed
  have lnk5: "linked ?c5 (idx # js)" using c4(2) by (simp add: linked_def)
  have lens5: "length (ce_hash (ent ?c5 i)) = 32 \<and> length (ce_key (ent ?c5 i)) = 64" if "in_range ?c5 i" for i
    using that frame(1) new h old [of i] free by (cases "i = idx") (auto simp: free_inv_def)
  have slots5: "slot_ok ?c5 i" if "i \<in> set (idx # js)" for i
    using that new k old [of i] inr nidx free by (cases "i = idx") (auto simp: free_inv_def slot_ok_def)
  have unused5: "\<not> ce_inUse (ent ?c5 i)" if "in_range ?c5 i" "i \<notin> set (idx # js)" for i
    using that frame(1) old [of i] free by (auto simp: free_inv_def)
  have "insert idx (set js) = {0..<ac_size c}" "ac_size c = int (length js) + 1" "0 < ac_cap c"
      "ac_cap c = int (length (ac_entries c))"
    using free unfolding free_inv_def by blast+
  then have shape5: "set (idx # js) = {0..<ac_size ?c5}" "ac_size ?c5 = int (length (idx # js))"
      "0 < ac_cap ?c5" "ac_cap ?c5 = int (length (ac_entries ?c5))"
    using frame by simp_all
  have "cache_inv ?c5 (idx # js)"
    unfolding cache_inv_def using lnk5 shape5 lens5 slots5 unused5 idx5 by blast
  moreover have "cache_abs ?c5 (idx # js) = (h, k) # cache_abs c js"
    using new old inr nidx by (auto simp: cache_abs_def stored_key_def)
  ultimately show ?thesis using c3 c4(1) by blast
qed

lemma free_inv_alloc:
  assumes inv: "cache_inv c is" and "ac_size c < ac_cap c"
  shows "free_inv (c\<lparr>ac_size := ac_size c + 1\<rparr>) is (ac_size c) \<and> \<not> ce_inUse (ent c (ac_size c))"
proof -
  have dom: "set is = {0..<ac_size c}" "ac_size c = int (length is)" "ac_cap c = int (length (ac_entries c))"
    using inv by (simp_all add: cache_inv_def)
  with assms(2) have rng: "in_range c (ac_size c)" and nin: "ac_size c \<notin> set is"
    by (simp_all add: in_range_def)
  have ins: "insert (ac_size c) (set is) = {0..<ac_size c + 1}" using dom by auto
  have "free_inv (c\<lparr>ac_size := ac_size c + 1\<rparr>) is (ac_size c)"
    using inv rng nin ins unfolding cache_inv_def free_inv_def slot_ok_def linked_def by auto
  moreover have "\<not> ce_inUse (ent c (ac_size c))"
    using inv rng nin unfolding cache_inv_def by blast
  ultimately show ?thesis ..
qed

lemma free_inv_evict:
  assumes inv: "cache_inv c (xs @ [idx])" and full: "ac_size c = ac_cap c"
  shows "\<exists>c'. detach (c\<lparr>ac_index := (ac_index c)(ce_hash (ent c idx) := None)\<rparr>) idx = Some c' \<and>
     free_inv c' xs idx \<and> cache_abs c' xs = cache_abs c xs"
proof -
  let ?c1 = "c\<lparr>ac_index := (ac_index c)(ce_hash (ent c idx) := None)\<rparr>"
  have "linked ?c1 (xs @ [idx])" using inv by (simp add: cache_inv_def linked_def)
  then obtain c' where c': "detach ?c1 idx = Some c'" "linked c' xs" "same_payload ?c1 c'"
    using detach_linked [of ?c1 xs idx "[]"] by auto
  note e' = same_payload_ent [OF c'(3)]
  have frame: "in_range c' i = in_range c i" "ac_cap c' = ac_cap c" "ac_size c' = ac_size c"
      "length (ac_entries c') = length (ac_entries c)" "ac_index c' = ac_index ?c1" for i
    using c'(3) by (simp_all add: same_payload_def in_range_def)
  have inr: "in_range c i" if "i \<in> set (xs @ [idx])" for i using cache_inv_in_range [OF inv] that by blast
  have ent': "ce_hash (ent c' i) = ce_hash (ent c i)" "ce_key (ent c' i) = ce_key (ent c i)"
      "ce_keyLen (ent c' i) = ce_keyLen (ent c i)" "ce_inUse (ent c' i) = ce_inUse (ent c i)"
    if "in_range c i" for i
    using e' [of i] that by simp_all
  have dist: "idx \<notin> set xs" using inv by (simp add: cache_inv_def linked_def)
  have index: "ac_index c' a = Some i \<longleftrightarrow> i \<in> set xs \<and> ce_hash (ent c' i) = a" for a i
    using cache_inv_index [OF inv, of a i] cache_inv_hash_inj [OF inv, of i idx] dist inr ent' frame(5)
    by auto
  have rngi: "in_range c idx" by (rule inr) simp
  have slots: "slot_ok c' i" if "i \<in> set xs" for i
  proof -
    have "slot_ok c i" using inv that by (simp add: cache_inv_def)
    with ent' [OF inr [of i]] that show ?thesis by (simp add: slot_ok_def)
  qed
  have shape: "set (xs @ [idx]) = {0..<ac_size c}" "ac_size c = int (length (xs @ [idx]))" "0 < ac_cap c"
      "ac_cap c = int (length (ac_entries c))"
    and lens: "\<And>i. in_range c i \<Longrightarrow> length (ce_hash (ent c i)) = 32 \<and> length (ce_key (ent c i)) = 64"
    and unused: "\<And>i. in_range c i \<Longrightarrow> i \<notin> set (xs @ [idx]) \<Longrightarrow> \<not> ce_inUse (ent c i)"
    using inv unfolding cache_inv_def by blast+
  have "insert idx (set xs) = {0..<ac_size c'}" "ac_size c' = int (length xs) + 1"
    using shape(1,2) frame(3) by simp_all
  then have "free_inv c' xs idx"
    unfolding free_inv_def using c'(2) index frame rngi dist slots shape(3,4) lens unused ent'
    by simp
  moreover have "cache_abs c' xs = cache_abs c xs"
    using inr ent' by (auto simp: cache_abs_def stored_key_def)
  ultimately show ?thesis using c'(1) by blast
qed

lemma cache_inv_full_tail:
  assumes inv: "cache_inv c is" and full: "\<not> ac_size c < ac_cap c"
  shows "\<exists>xs. is = xs @ [ac_tail c] \<and> 0 \<le> ac_tail c \<and> ac_size c = ac_cap c"
proof -
  have "0 < ac_cap c" "ac_size c = int (length is)" "linked c is" using inv unfolding cache_inv_def by blast+
  moreover have "length is \<le> nat (ac_cap c)" using inv by (rule cache_inv_length)
  ultimately have "is \<noteq> []" "ac_size c = ac_cap c" using full by auto
  moreover from this(1) have "ac_tail c = last is" using \<open>linked c is\<close> by (simp add: linked_def last_or_def)
  moreover have "0 \<le> last is"
    using \<open>is \<noteq> []\<close> cache_inv_in_range [OF inv, of "last is"] by (simp add: in_range_def)
  ultimately show ?thesis by (metis append_butlast_last_id)
qed

lemma Put_refines:
  assumes inv: "cache_inv c is" and h: "length h = 32" and k: "length k \<noteq> 0" "length k \<le> 64"
  shows "\<exists>c' js. Put c h k = Some c' \<and> cache_inv c' js \<and>
     cache_abs c' js = lru_put (nat (ac_cap c)) h k (cache_abs c is)"
proof (cases "ac_index c h")
  case (Some i)
  then have i: "i \<in> set is" "ce_hash (ent c i) = h" using inv by (simp_all add: cache_inv_index)
  have rng: "in_range c i" using inv i(1) by (rule cache_inv_in_range)
  let ?c1 = "upd c i (store_key h k)"
  note over = cache_inv_overwrite [OF inv i k]
  have ent1: "ce_hash (ent ?c1 i) = h" "stored_key (ent ?c1 i) = k"
    using rng h k inv i(2) stored_key_store_key(1) [of "ent c i" k h] by (auto simp: cache_inv_def)
  obtain c' js where c': "moveToFront ?c1 i = Some c'" "cache_inv c' js"
      "cache_abs c' js = (h, k) # lru_remove h (cache_abs c is)"
    using moveToFront_refines [OF over(1) i(1)] ent1 over(2) by (auto simp: lru_remove_overwrite)
  have short: "length (lru_remove h (cache_abs c is)) \<le> nat (ac_cap c) - 1"
  proof -
    have "length (lru_remove h (cache_abs c is)) < length (cache_abs c is)"
      using i unfolding lru_remove_def by (intro length_filter_less [of "(h, stored_key (ent c i))"])
        (auto simp: cache_abs_def)
    also have "\<dots> \<le> nat (ac_cap c)" using cache_inv_length [OF inv] by (simp add: cache_abs_def)
    finally show ?thesis by simp
  qed
  have "Put c h k = Some c'" using Some h k rng c'(1) by (simp add: Put_def set_entry_upd)
  with c' short show ?thesis by (auto simp: lru_put_def)
next
  case None
  then have nin: "h \<notin> (\<lambda>i. ce_hash (ent c i)) ` set is" using inv by (simp add: cache_inv_index_None)
  then have rem: "lru_remove h (cache_abs c is) = cache_abs c is"
    by (intro lru_remove_absent) (simp add: cache_abs_keys)
  show ?thesis
  proof (cases "ac_size c < ac_cap c")
    case True
    let ?c1 = "c\<lparr>ac_size := ac_size c + 1\<rparr>"
    have free: "free_inv ?c1 is (ac_size c)" "\<not> ce_inUse (ent c (ac_size c))"
      using free_inv_alloc [OF inv True] by blast+
    obtain c3 c4 where c4: "set_entry ?c1 (ac_size c) (store_key h k) = Some c3" "attachFront c3 (ac_size c) = Some c4"
        "cache_inv (c4\<lparr>ac_index := (ac_index c4)(h \<mapsto> ac_size c)\<rparr>) (ac_size c # is)"
        "cache_abs (c4\<lparr>ac_index := (ac_index c4)(h \<mapsto> ac_size c)\<rparr>) (ac_size c # is) = (h, k) # cache_abs ?c1 is"
      using fill_slot [OF free(1) h _ k] nin by auto
    have "entry_at ?c1 (ac_size c) = Some (ent c (ac_size c))"
      using free(1) by (simp only: free_inv_def entry_at_ent) simp
    then have "Put c h k = Some (c4\<lparr>ac_index := (ac_index c4)(h \<mapsto> ac_size c)\<rparr>)"
      using None h k True free(2) c4(1,2) by (simp add: Put_def allocIndexLocked_def)
    moreover have "length is \<le> nat (ac_cap c) - 1" using True inv by (simp add: cache_inv_def)
    ultimately show ?thesis using c4(3,4) rem by (auto simp: lru_put_def cache_abs_def)
  next
    case False
    let ?i = "ac_tail c"
    obtain xs where xs: "is = xs @ [?i]" "0 \<le> ?i" "ac_size c = ac_cap c"
      using cache_inv_full_tail [OF inv False] by blast
    let ?c1 = "c\<lparr>ac_index := (ac_index c)(ce_hash (ent c ?i) := None)\<rparr>"
    have last: "?i \<in> set is" by (subst xs(1)) simp
    have rng: "in_range c ?i" using inv last by (rule cache_inv_in_range)
    have use: "ce_inUse (ent c ?i)"
      using inv last unfolding cache_inv_def slot_ok_def by blast
    obtain c2 where c2: "detach ?c1 ?i = Some c2" "free_inv c2 xs ?i" "cache_abs c2 xs = cache_abs c xs"
      using free_inv_evict [of c xs ?i] inv xs by auto
    have "h \<notin> (\<lambda>i. ce_hash (ent c2 i)) ` set xs"
      using nin xs(1) c2(3) by (auto simp: cache_abs_def)
    then obtain c3 c4 where c4: "set_entry c2 ?i (store_key h k) = Some c3" "attachFront c3 ?i = Some c4"
        "cache_inv (c4\<lparr>ac_index := (ac_index c4)(h \<mapsto> ?i)\<rparr>) (?i # xs)"
        "cache_abs (c4\<lparr>ac_index := (ac_index c4)(h \<mapsto> ?i)\<rparr>) (?i # xs) = (h, k) # cache_abs c2 xs"
      using fill_slot [OF c2(2) h _ k] by auto
    have "Put c h k = Some (c4\<lparr>ac_index := (ac_index c4)(h \<mapsto> ?i)\<rparr>)"
      using None h k False xs(2) rng use c2(1) c4(1,2) by (simp add: Put_def allocIndexLocked_def entry_at_ent)
    moreover have "take (nat (ac_cap c) - 1) (cache_abs c is) = cache_abs c xs"
    proof -
      have "nat (ac_cap c) = length is" using inv xs(3) by (simp add: cache_inv_def)
      then show ?thesis using xs(1) by (simp add: cache_abs_def)
    qed
    ultimately show ?thesis using c4(3,4) rem c2(3) by (auto simp: lru_put_def)
  qed
qed

lemma cache_inv_new:
  assumes "0 < capacity" "capacity < 2 ^ 31"
  shows "cache_inv (newAccountHashToKeyCache capacity) []"
    and "ac_cap (newAccountHashToKeyCache capacity) = capacity"
proof -
  have cap: "sint (word_of_int capacity :: 32 word) = capacity"
    using assms by (simp add: signed_of_int signed_take_bit_int_eq_self)
  then show "ac_cap (newAccountHashToKeyCache capacity) = capacity"
    using assms by (simp add: newAccountHashToKeyCache_def)
  show "cache_inv (newAccountHashToKeyCache capacity) []"
    using assms cap by (auto simp: cache_inv_def newAccountHashToKeyCache_def linked_def in_range_def nat_less_iff)
qed

section \<open>Runs of the cache\<close>

datatype cache_op = OpGet bytes | OpPut bytes bytes

fun cache_run :: "accountHashToKeyCache \<Rightarrow> cache_op list \<Rightarrow> (bytes option list \<times> accountHashToKeyCache) option" where
  "cache_run c [] = Some ([], c)"
| "cache_run c (OpGet h # ops) = do {
     (n, found, dst, c1) \<leftarrow> Get c h (replicate 64 0);
     (rs, c2) \<leftarrow> cache_run c1 ops;
     Some ((if found then Some (take (unat n) dst) else None) # rs, c2)
   }"
| "cache_run c (OpPut h k # ops) = do { c1 \<leftarrow> Put c h k; cache_run c1 ops }"

fun lru_run :: "nat \<Rightarrow> lru \<Rightarrow> cache_op list \<Rightarrow> bytes option list \<times> lru" where
  "lru_run cap l [] = ([], l)"
| "lru_run cap l (OpGet h # ops) =
     (let (rs, l') = lru_run cap (if length h = 32 then lru_touch h l else l) ops in
      ((if length h = 32 then map_of l h else None) # rs, l'))"
| "lru_run cap l (OpPut h k # ops) =
     lru_run cap (if length h = 32 \<and> length k \<noteq> 0 \<and> length k \<le> 64 then lru_put cap h k l else l) ops"

lemma cache_inv_slot: "cache_inv c is \<Longrightarrow> i \<in> set is \<Longrightarrow> slot_ok c i"
  unfolding cache_inv_def by blast

lemma cache_inv_cap_abs_length:
  "cache_inv c is \<Longrightarrow> length (cache_abs c is) \<le> nat (ac_cap c)"
  using cache_inv_length by (simp add: cache_abs_def)

lemma set_entry_cap: "set_entry c i f = Some c' \<Longrightarrow> ac_cap c' = ac_cap c"
  by (auto simp: set_entry_def split: if_splits)

lemma attachFront_cap: "attachFront c i = Some c' \<Longrightarrow> ac_cap c' = ac_cap c"
  by (auto simp: attachFront_def bind_eq_Some_conv set_entry_cap split: if_splits)

lemma detach_cap: "detach c i = Some c' \<Longrightarrow> ac_cap c' = ac_cap c"
  by (auto simp: detach_def bind_eq_Some_conv Let_def set_entry_cap split: if_splits)

lemmas cap_simps = set_entry_cap attachFront_cap detach_cap

lemma moveToFront_cap: "moveToFront c i = Some c' \<Longrightarrow> ac_cap c' = ac_cap c"
  by (auto simp: moveToFront_def bind_eq_Some_conv cap_simps split: if_splits)

lemma Put_cap: "Put c h k = Some c' \<Longrightarrow> ac_cap c' = ac_cap c"
  by (auto simp: Put_def bind_eq_Some_conv cap_simps moveToFront_cap allocIndexLocked_def
      split: if_splits option.splits)

lemma Get_cap: "Get c h dst = Some (n, f, d, c') \<Longrightarrow> ac_cap c' = ac_cap c"
  by (auto simp: Get_def bind_eq_Some_conv Let_def moveToFront_cap split: if_splits option.splits)

lemma cache_run_refines:
  assumes "cache_inv c is"
  shows "\<exists>c' js. cache_run c ops = Some (fst (lru_run (nat (ac_cap c)) (cache_abs c is) ops), c') \<and>
     cache_inv c' js \<and> cache_abs c' js = snd (lru_run (nat (ac_cap c)) (cache_abs c is) ops)"
  using assms
proof (induction ops arbitrary: c "is")
  case Nil
  then show ?case by auto
next
  case (Cons x ops)
  show ?case
  proof (cases x)
    case (OpGet h)
    let ?l = "cache_abs c is" and ?dst = "replicate 64 0 :: bytes"
    let ?l' = "if length h = 32 then lru_touch h ?l else ?l"
    have "\<exists>n f d c1 js. Get c h ?dst = Some (n, f, d, c1) \<and> cache_inv c1 js \<and> cache_abs c1 js = ?l' \<and>
        (if f then Some (take (unat n) d) else None) = (if length h = 32 then map_of ?l h else None)"
    proof (cases "length h = 32")
      case False
      then have "Get c h ?dst = Some (0, False, ?dst, c)" by (simp add: Get_def)
      with False Cons.prems show ?thesis by auto
    next
      case True
      note r = Get_refines [OF Cons.prems True, of ?dst]
      show ?thesis
      proof (cases "map_of ?l h")
        case None
        with r Cons.prems True show ?thesis by (auto simp: lru_touch_def)
      next
        case (Some v)
        then obtain i where "ac_index c h = Some i" "v = stored_key (ent c i)"
          using map_of_abs [OF Cons.prems, of h] by auto
        then have "length v \<le> 64"
          using cache_inv_index [OF Cons.prems, of h i] cache_inv_slot [OF Cons.prems, of i]
          by (simp add: slot_ok_def stored_key_def min.coboundedI2)
        then have "unat (word_of_nat (length v) :: 8 word) = length v" by (simp add: unat_of_nat)
        with Some r True show ?thesis by fastforce
      qed
    qed
    then obtain n f d c1 js where g: "Get c h ?dst = Some (n, f, d, c1)" "cache_inv c1 js" "cache_abs c1 js = ?l'"
        "(if f then Some (take (unat n) d) else None) = (if length h = 32 then map_of ?l h else None)"
      by blast
    from Cons.IH [OF g(2)] g(3) Get_cap [OF g(1)] obtain c' js' where
      "cache_run c1 ops = Some (fst (lru_run (nat (ac_cap c)) ?l' ops), c')" "cache_inv c' js'"
      "cache_abs c' js' = snd (lru_run (nat (ac_cap c)) ?l' ops)" by auto
    with OpGet g show ?thesis by (auto simp: Let_def case_prod_beta split: if_splits)
  next
    case (OpPut h k)
    let ?l = "cache_abs c is"
    let ?ok = "length h = 32 \<and> length k \<noteq> 0 \<and> length k \<le> 64"
    let ?l' = "if ?ok then lru_put (nat (ac_cap c)) h k ?l else ?l"
    have "\<exists>c1 js. Put c h k = Some c1 \<and> cache_inv c1 js \<and> cache_abs c1 js = ?l'"
    proof (cases ?ok)
      case True
      with Put_refines [OF Cons.prems, of h k] show ?thesis by simp
    next
      case False
      then have "Put c h k = Some c" by (auto simp: Put_def)
      with False Cons.prems show ?thesis by auto
    qed
    then obtain c1 js where g: "Put c h k = Some c1" "cache_inv c1 js" "cache_abs c1 js = ?l'" by blast
    from Cons.IH [OF g(2)] g(3) Put_cap [OF g(1)] obtain c' js' where
      "cache_run c1 ops = Some (fst (lru_run (nat (ac_cap c)) ?l' ops), c')" "cache_inv c' js'"
      "cache_abs c' js' = snd (lru_run (nat (ac_cap c)) ?l' ops)" by auto
    with OpPut g(1) show ?thesis by auto
  qed
qed

lemma cache_run_cap: "cache_run c ops = Some (rs, c') \<Longrightarrow> ac_cap c' = ac_cap c"
proof (induction ops arbitrary: c rs)
  case Nil
  then show ?case by simp
next
  case (Cons x ops)
  then show ?case
    by (cases x) (auto simp: bind_eq_Some_conv Get_cap Put_cap dest: Cons.IH split: prod.splits if_splits)
qed

section \<open>The cache in front of a store\<close>

definition account_cache_inv :: "accountHashToKeyCache \<Rightarrow> bool" where
  "account_cache_inv c \<longleftrightarrow> (\<exists>is. cache_inv c is)"

definition account_cache_content :: "accountHashToKeyCache \<Rightarrow> bytes \<Rightarrow> bytes option" where
  "account_cache_content c h = map_option (\<lambda>i. stored_key (ent c i)) (ac_index c h)"

definition account_cache_get :: "accountHashToKeyCache \<Rightarrow> bytes \<Rightarrow> bytes option \<times> accountHashToKeyCache" where
  "account_cache_get c h =
     (case Get c h (replicate 64 0) of
        None \<Rightarrow> (None, c)
      | Some (n, found, dst, c') \<Rightarrow> (if found then Some (take (unat n) dst) else None, c'))"

definition account_cache_put :: "accountHashToKeyCache \<Rightarrow> bytes \<Rightarrow> bytes \<Rightarrow> accountHashToKeyCache" where
  "account_cache_put c h k = (case Put c h k of None \<Rightarrow> c | Some c' \<Rightarrow> c')"

definition account_cacheable :: "bytes \<Rightarrow> bytes \<Rightarrow> bool" where
  "account_cacheable h k \<longleftrightarrow> length h = 32 \<and> length k \<noteq> 0 \<and> length k \<le> 64"

lemma account_content_abs: "cache_inv c is \<Longrightarrow> account_cache_content c h = map_of (cache_abs c is) h"
  by (simp add: account_cache_content_def map_of_abs)

lemma account_content_32: "cache_inv c is \<Longrightarrow> length h \<noteq> 32 \<Longrightarrow> account_cache_content c h = None"
proof (rule ccontr)
  assume inv: "cache_inv c is" and "length h \<noteq> 32" and "account_cache_content c h \<noteq> None"
  then obtain i where "ac_index c h = Some i" by (auto simp: account_cache_content_def)
  then have "i \<in> set is" "ce_hash (ent c i) = h" using inv by (simp_all add: cache_inv_index)
  then have "length h = 32" using inv cache_inv_in_range [OF inv] by (auto simp: cache_inv_def)
  with \<open>length h \<noteq> 32\<close> show False ..
qed

lemma map_of_lru_remove: "map_of (lru_remove h l) k = (if k = h then None else map_of l k)"
  unfolding lru_remove_def by (induction l) (auto split: if_splits)

lemma map_of_lru_touch: "map_of (lru_touch h l) = map_of l"
  by (rule ext) (auto simp: lru_touch_def map_of_lru_remove split: option.split)

lemma map_of_take_le: "distinct (map fst l) \<Longrightarrow> map_of (take n l) \<subseteq>\<^sub>m map_of l"
  unfolding map_le_def
  by (metis domIff map_of_SomeD map_of_is_SomeI not_None_eq in_set_takeD)

lemma map_of_lru_put: "distinct (map fst l) \<Longrightarrow> map_of (lru_put cap h k l) \<subseteq>\<^sub>m (map_of l)(h \<mapsto> k)"
proof -
  assume d: "distinct (map fst l)"
  have "distinct (map fst (lru_remove h l))"
    using d by (simp add: lru_remove_def distinct_map_filter)
  then have "map_of (take (cap - 1) (lru_remove h l)) \<subseteq>\<^sub>m map_of (lru_remove h l)" by (rule map_of_take_le)
  moreover have "map_of (lru_remove h l) \<subseteq>\<^sub>m (map_of l)"
    by (auto simp: map_le_def map_of_lru_remove split: if_splits)
  ultimately have "map_of (take (cap - 1) (lru_remove h l)) \<subseteq>\<^sub>m map_of l" by (rule map_le_trans)
  then show ?thesis by (auto simp: lru_put_def map_le_def)
qed

lemma account_cache_get_cases:
  assumes inv: "cache_inv c is"
  shows "fst (account_cache_get c h) = account_cache_content c h \<and>
    (\<exists>js. cache_inv (snd (account_cache_get c h)) js) \<and>
    account_cache_content (snd (account_cache_get c h)) = account_cache_content c"
proof -
  obtain c' js where run: "cache_run c [OpGet h] = Some (fst (lru_run (nat (ac_cap c)) (cache_abs c is) [OpGet h]), c')"
      "cache_inv c' js" "cache_abs c' js = snd (lru_run (nat (ac_cap c)) (cache_abs c is) [OpGet h])"
    using cache_run_refines [OF inv] by blast
  from run(1) have "account_cache_get c h = (if length h = 32 then map_of (cache_abs c is) h else None, c')"
    by (auto simp: account_cache_get_def bind_eq_Some_conv split: if_splits)
  moreover have "map_of (cache_abs c' js) = map_of (cache_abs c is)"
    using run(3) by (simp add: map_of_lru_touch)
  ultimately show ?thesis
    using inv run(2) account_content_32 [OF inv, of h] by (auto simp: account_content_abs fun_eq_iff)
qed

lemma account_cache_put_cases:
  assumes inv: "cache_inv c is"
  shows "(\<exists>js. cache_inv (account_cache_put c h k) js) \<and>
    (account_cacheable h k \<longrightarrow> account_cache_content (account_cache_put c h k) \<subseteq>\<^sub>m (account_cache_content c)(h \<mapsto> k)) \<and>
    (\<not> account_cacheable h k \<longrightarrow> account_cache_put c h k = c)"
proof (cases "account_cacheable h k")
  case True
  then obtain c' js where put: "Put c h k = Some c'" "cache_inv c' js"
      "cache_abs c' js = lru_put (nat (ac_cap c)) h k (cache_abs c is)"
    using Put_refines [OF inv, of h k] by (auto simp: account_cacheable_def)
  have content: "account_cache_content c = map_of (cache_abs c is)" "account_cache_content c' = map_of (cache_abs c' js)"
    using inv put(2) by (auto simp: account_content_abs)
  show ?thesis
    using True put map_of_lru_put [OF cache_inv_distinct_keys [OF inv], of "nat (ac_cap c)" h k]
    by (auto simp: account_cache_put_def content)
next
  case False
  then have "Put c h k = Some c" by (auto simp: account_cacheable_def Put_def)
  with False inv show ?thesis by (auto simp: account_cache_put_def)
qed

interpretation account_cache: store_cache account_cache_inv account_cache_content
  account_cache_get account_cache_put account_cacheable
proof unfold_locales
  fix c h k
  assume "account_cache_inv c"
  then obtain "is" where inv: "cache_inv c is" by (auto simp: account_cache_inv_def)
  note g = account_cache_get_cases [OF inv] and p = account_cache_put_cases [OF inv]
  show "fst (account_cache_get c h) = account_cache_content c h"
    and "account_cache_content (snd (account_cache_get c h)) \<subseteq>\<^sub>m account_cache_content c"
    and "account_cache_inv (snd (account_cache_get c h))"
    using g by (auto simp: account_cache_inv_def)
  show "account_cache_inv (account_cache_put c h k)"
    using p by (auto simp: account_cache_inv_def)
  show "account_cache_content (account_cache_put c h k) \<subseteq>\<^sub>m (account_cache_content c)(h \<mapsto> k)"
    if "account_cacheable h k" using p that by blast
  show "account_cache_put c h k = c" if "\<not> account_cacheable h k" using p that by blast
qed

section \<open>Properties\<close>

text \<open>
  C15. Every sequence of lookups and insertions on a new cache of capacity below \<open>2 ^ 31\<close> runs
  without an index panic, returns what the abstract LRU list returns, and leaves exactly the
  entries of that list in the cache: lookups move the entry to the front, an insertion into a
  full cache evicts the least recently used entry.
\<close>

theorem account_cache_is_lru:
  assumes "0 < capacity" "capacity < 2 ^ 31"
  shows "\<exists>c' js. cache_run (newAccountHashToKeyCache capacity) ops
        = Some (fst (lru_run (nat capacity) [] ops), c') \<and>
      cache_inv c' js \<and> cache_abs c' js = snd (lru_run (nat capacity) [] ops)"
  using cache_run_refines [OF cache_inv_new(1) [OF assms], of ops] cache_inv_new(2) [OF assms]
  by (simp add: cache_abs_def)

theorem account_cache_is_lru_witness:
  "map_option fst (cache_run (newAccountHashToKeyCache 2)
     [OpPut (replicate 32 1) [1], OpPut (replicate 32 2) [2], OpGet (replicate 32 1),
      OpPut (replicate 32 3) [3], OpGet (replicate 32 2), OpGet (replicate 32 1)])
   = Some [Some [1], None, Some [1]]"
proof -
  let ?ops = "[OpPut (replicate 32 1) [1], OpPut (replicate 32 2) [2], OpGet (replicate 32 1),
      OpPut (replicate 32 3) [3], OpGet (replicate 32 2), OpGet (replicate 32 1)]"
  have "fst (lru_run 2 [] ?ops) = [Some [1], None, Some [1]]"
    by (simp add: lru_put_def lru_touch_def lru_remove_def Let_def numeral_eq_Suc)
  with account_cache_is_lru [of 2 ?ops] show ?thesis by auto
qed

text \<open>
  The cache stays within its capacity: the slots in use, the slot array and the index map
  never exceed the number of entries the cache was created with.
\<close>

theorem account_cache_bounded:
  assumes "0 < capacity" "capacity < 2 ^ 31"
    and "cache_run (newAccountHashToKeyCache capacity) ops = Some (rs, c')"
  shows "ac_size c' \<le> capacity \<and> length (ac_entries c') = nat capacity \<and>
    finite (dom (ac_index c')) \<and> card (dom (ac_index c')) \<le> nat capacity"
proof -
  let ?c = "newAccountHashToKeyCache capacity"
  obtain js where inv: "cache_inv c' js"
    using cache_run_refines [OF cache_inv_new(1) [OF assms(1,2)], of ops] assms(3) by auto
  have cap: "ac_cap c' = capacity"
    using cache_run_cap [OF assms(3)] cache_inv_new(2) [OF assms(1,2)] by simp
  have size: "ac_size c' = int (length js)" "ac_cap c' = int (length (ac_entries c'))"
    using inv unfolding cache_inv_def by blast+
  have "dom (ac_index c') \<subseteq> (\<lambda>i. ce_hash (ent c' i)) ` set js"
    using cache_inv_index_None [OF inv] by (metis domIff subsetI)
  moreover have "card ((\<lambda>i. ce_hash (ent c' i)) ` set js) \<le> length js"
    using card_image_le [of "set js"] card_length [of js] by (meson List.finite_set le_trans)
  ultimately have "finite (dom (ac_index c'))" "card (dom (ac_index c')) \<le> length js"
    by (meson List.finite_set card_mono finite_imageI finite_subset le_trans)+
  then show ?thesis
    using cap size cache_inv_length [OF inv] assms(1) by auto
qed

theorem account_cache_bounded_witness:
  "\<exists>rs c'. cache_run (newAccountHashToKeyCache 1) [OpPut (replicate 32 1) [1], OpPut (replicate 32 2) [2]] = Some (rs, c') \<and>
     card (dom (ac_index c')) \<le> 1"
proof -
  let ?ops = "[OpPut (replicate 32 1) [1], OpPut (replicate 32 2) [2]] :: cache_op list"
  obtain rs c' where run: "cache_run (newAccountHashToKeyCache 1) ?ops = Some (rs, c')"
    using cache_run_refines [OF cache_inv_new(1) [of 1], of ?ops] by auto
  from account_cache_bounded [OF _ _ run] run show ?thesis by auto
qed

end
