(* ===== verification/Key_Schema.thy ===== *)
theory Key_Schema
  imports Theo_Prelude "HOL-Library.Sublist"
begin

text \<open>
  The key schema of \<^verbatim>\<open>THEO/common.go\<close> and \<^verbatim>\<open>THEO/datatype/datatype.go\<close>: the KV
  classes, the database prefixes, the prefix trie that maps a key to its class by longest
  match, and the block numbers embedded in keys and values (\<^verbatim>\<open>THEO/theo.go\<close>).
\<close>

section \<open>Data types and prefixes\<close>

datatype DataType =
    UnknownTypeDataType
  | ChtRootDataType
  | ChtIndexTableDataType
  | ChtTableDataType
  | BloomTrieRootDataType
  | BloomTrieIndexDataType
  | BloomTrieTableDataType
  | PreimageDataType
  | ConfigDataType
  | GenesisStateDataType
  | CliqueSnapshotDataType
  | BloomBitsIndexDataType
  | HeaderDataType
  | HeaderNumberDataType
  | BlockBodyDataType
  | BlockReceiptsDataType
  | TransactionLookupMetadataDataType
  | BloomBitsDataType
  | HeaderTotalDifficultyDataType
  | HeaderNumberHashMappingDataType
  | SnapshotAccountDataType
  | SnapshotStorageDataType
  | CodeDataType
  | SkeletonHeaderDataType
  | TrieNodeAccountDataType
  | TrieNodeStorageDataType
  | StateIDLookupDataType
  | VerkleTrieDataType
  | DatabaseVersionDataType
  | HeadHeaderDataType
  | HeadBlockDataType
  | HeadFastBlockDataType
  | HeadFinalizedBlockDataType
  | PersistentStateIDDataType
  | LastPivotDataType
  | FastTrieProgressDataType
  | SnapshotDisabledDataType
  | SnapshotRootDataType
  | SnapshotJournalDataType
  | SnapshotGeneratorDataType
  | SnapshotRecoveryDataType
  | SnapshotSyncStatusDataType
  | SkeletonSyncStatusDataType
  | TrieJournalDataType
  | TransactionIndexTailDataType
  | FastTransactionLookupLimitDataType
  | BadBlockDataType
  | UncleanShutdownDataType
  | TransitionStatusDataType
  | SnapSyncStatusFlagDataType
  | LightClientUpdateDataType
  | FixedCommitteeRootDataType
  | SyncCommitteeDataType

primrec DataTypeStrings :: "DataType \<Rightarrow> string" where
  "DataTypeStrings UnknownTypeDataType = ''UnknownType''"
| "DataTypeStrings ChtRootDataType = ''ChtRoot''"
| "DataTypeStrings ChtIndexTableDataType = ''ChtIndexTable''"
| "DataTypeStrings ChtTableDataType = ''ChtTable''"
| "DataTypeStrings BloomTrieRootDataType = ''BloomTrieRoot''"
| "DataTypeStrings BloomTrieIndexDataType = ''BloomTrieIndex''"
| "DataTypeStrings BloomTrieTableDataType = ''BloomTrieTable''"
| "DataTypeStrings PreimageDataType = ''Preimage''"
| "DataTypeStrings ConfigDataType = ''Config''"
| "DataTypeStrings GenesisStateDataType = ''GenesisState''"
| "DataTypeStrings CliqueSnapshotDataType = ''CliqueSnapshot''"
| "DataTypeStrings BloomBitsIndexDataType = ''BloomBitsIndex''"
| "DataTypeStrings HeaderDataType = ''Header''"
| "DataTypeStrings HeaderNumberDataType = ''HeaderNumber''"
| "DataTypeStrings BlockBodyDataType = ''BlockBody''"
| "DataTypeStrings BlockReceiptsDataType = ''BlockReceipts''"
| "DataTypeStrings TransactionLookupMetadataDataType = ''TransactionLookupMetadata''"
| "DataTypeStrings BloomBitsDataType = ''BloomBits''"
| "DataTypeStrings HeaderTotalDifficultyDataType = ''HeaderTotalDifficulty''"
| "DataTypeStrings HeaderNumberHashMappingDataType = ''HeaderNumberHashMapping''"
| "DataTypeStrings SnapshotAccountDataType = ''SnapshotAccountData''"
| "DataTypeStrings SnapshotStorageDataType = ''SnapshotStorageData''"
| "DataTypeStrings CodeDataType = ''CodeData''"
| "DataTypeStrings SkeletonHeaderDataType = ''SkeletonHeaderData''"
| "DataTypeStrings TrieNodeAccountDataType = ''TrieNodeAccountData''"
| "DataTypeStrings TrieNodeStorageDataType = ''TrieNodeStorageData''"
| "DataTypeStrings StateIDLookupDataType = ''StateIDLookup''"
| "DataTypeStrings VerkleTrieDataType = ''VerkleTrieData''"
| "DataTypeStrings DatabaseVersionDataType = ''DatabaseVersion''"
| "DataTypeStrings HeadHeaderDataType = ''HeadHeader''"
| "DataTypeStrings HeadBlockDataType = ''HeadBlock''"
| "DataTypeStrings HeadFastBlockDataType = ''HeadFastBlock''"
| "DataTypeStrings HeadFinalizedBlockDataType = ''HeadFinalizedBlock''"
| "DataTypeStrings PersistentStateIDDataType = ''PersistentStateID''"
| "DataTypeStrings LastPivotDataType = ''LastPivot''"
| "DataTypeStrings FastTrieProgressDataType = ''FastTrieProgress''"
| "DataTypeStrings SnapshotDisabledDataType = ''SnapshotDisabled''"
| "DataTypeStrings SnapshotRootDataType = ''SnapshotRoot''"
| "DataTypeStrings SnapshotJournalDataType = ''SnapshotJournal''"
| "DataTypeStrings SnapshotGeneratorDataType = ''SnapshotGenerator''"
| "DataTypeStrings SnapshotRecoveryDataType = ''SnapshotRecovery''"
| "DataTypeStrings SnapshotSyncStatusDataType = ''SnapshotSyncStatus''"
| "DataTypeStrings SkeletonSyncStatusDataType = ''SkeletonSyncStatus''"
| "DataTypeStrings TrieJournalDataType = ''TrieJournal''"
| "DataTypeStrings TransactionIndexTailDataType = ''TransactionIndexTail''"
| "DataTypeStrings FastTransactionLookupLimitDataType = ''FastTransactionLookupLimit''"
| "DataTypeStrings BadBlockDataType = ''BadBlock''"
| "DataTypeStrings UncleanShutdownDataType = ''UncleanShutdown''"
| "DataTypeStrings TransitionStatusDataType = ''TransitionStatus''"
| "DataTypeStrings SnapSyncStatusFlagDataType = ''SnapSyncStatusFlag''"
| "DataTypeStrings LightClientUpdateDataType = ''LightClientUpdate''"
| "DataTypeStrings FixedCommitteeRootDataType = ''FixedCommitteeRoot''"
| "DataTypeStrings SyncCommitteeDataType = ''SyncCommittee''"

definition bytes_of_string :: "string \<Rightarrow> bytes" where
  "bytes_of_string s = map (\<lambda>c. word_of_nat (of_char c)) s"

lemma bytes_of_string_simps [simp]:
  "bytes_of_string [] = []"
  "bytes_of_string (c # s) = word_of_nat (of_char c) # bytes_of_string s"
  by (simp_all add: bytes_of_string_def)


definition databaseVersionKey :: bytes where "databaseVersionKey = bytes_of_string ''DatabaseVersion''"
definition headHeaderKey :: bytes where "headHeaderKey = bytes_of_string ''LastHeader''"
definition headBlockKey :: bytes where "headBlockKey = bytes_of_string ''LastBlock''"
definition headFastBlockKey :: bytes where "headFastBlockKey = bytes_of_string ''LastFast''"
definition headFinalizedBlockKey :: bytes where "headFinalizedBlockKey = bytes_of_string ''LastFinalized''"
definition persistentStateIDKey :: bytes where "persistentStateIDKey = bytes_of_string ''LastStateID''"
definition lastPivotKey :: bytes where "lastPivotKey = bytes_of_string ''LastPivot''"
definition fastTrieProgressKey :: bytes where "fastTrieProgressKey = bytes_of_string ''TrieSync''"
definition snapshotDisabledKey :: bytes where "snapshotDisabledKey = bytes_of_string ''SnapshotDisabled''"
definition SnapshotRootKey :: bytes where "SnapshotRootKey = bytes_of_string ''SnapshotRoot''"
definition snapshotJournalKey :: bytes where "snapshotJournalKey = bytes_of_string ''SnapshotJournal''"
definition snapshotGeneratorKey :: bytes where "snapshotGeneratorKey = bytes_of_string ''SnapshotGenerator''"
definition snapshotRecoveryKey :: bytes where "snapshotRecoveryKey = bytes_of_string ''SnapshotRecovery''"
definition snapshotSyncStatusKey :: bytes where "snapshotSyncStatusKey = bytes_of_string ''SnapshotSyncStatus''"
definition skeletonSyncStatusKey :: bytes where "skeletonSyncStatusKey = bytes_of_string ''SkeletonSyncStatus''"
definition trieJournalKey :: bytes where "trieJournalKey = bytes_of_string ''TrieJournal''"
definition txIndexTailKey :: bytes where "txIndexTailKey = bytes_of_string ''TransactionIndexTail''"
definition fastTxLookupLimitKey :: bytes where "fastTxLookupLimitKey = bytes_of_string ''FastTransactionLookupLimit''"
definition badBlockKey :: bytes where "badBlockKey = bytes_of_string ''InvalidBlock''"
definition uncleanShutdownKey :: bytes where "uncleanShutdownKey = bytes_of_string ''unclean-shutdown''"
definition transitionStatusKey :: bytes where "transitionStatusKey = bytes_of_string ''eth2-transition''"
definition snapSyncStatusFlagKey :: bytes where "snapSyncStatusFlagKey = bytes_of_string ''SnapSyncStatus''"
definition headerPrefix :: bytes where "headerPrefix = bytes_of_string ''h''"
definition headerTDSuffix :: bytes where "headerTDSuffix = bytes_of_string ''t''"
definition headerHashSuffix :: bytes where "headerHashSuffix = bytes_of_string ''n''"
definition headerNumberPrefix :: bytes where "headerNumberPrefix = bytes_of_string ''H''"
definition blockBodyPrefix :: bytes where "blockBodyPrefix = bytes_of_string ''b''"
definition blockReceiptsPrefix :: bytes where "blockReceiptsPrefix = bytes_of_string ''r''"
definition txLookupPrefix :: bytes where "txLookupPrefix = bytes_of_string ''l''"
definition bloomBitsPrefix :: bytes where "bloomBitsPrefix = bytes_of_string ''B''"
definition SnapshotAccountPrefix :: bytes where "SnapshotAccountPrefix = bytes_of_string ''a''"
definition SnapshotStoragePrefix :: bytes where "SnapshotStoragePrefix = bytes_of_string ''o''"
definition CodePrefix :: bytes where "CodePrefix = bytes_of_string ''c''"
definition skeletonHeaderPrefix :: bytes where "skeletonHeaderPrefix = bytes_of_string ''S''"
definition TrieNodeAccountPrefix :: bytes where "TrieNodeAccountPrefix = bytes_of_string ''A''"
definition TrieNodeStoragePrefix :: bytes where "TrieNodeStoragePrefix = bytes_of_string ''O''"
definition stateIDPrefix :: bytes where "stateIDPrefix = bytes_of_string ''L''"
definition VerklePrefix :: bytes where "VerklePrefix = bytes_of_string ''v''"
definition PreimagePrefix :: bytes where "PreimagePrefix = bytes_of_string ''secure-key-''"
definition configPrefix :: bytes where "configPrefix = bytes_of_string ''ethereum-config-''"
definition genesisPrefix :: bytes where "genesisPrefix = bytes_of_string ''ethereum-genesis-''"
definition BloomBitsIndexPrefix :: bytes where "BloomBitsIndexPrefix = bytes_of_string ''iB''"
definition ChtPrefix :: bytes where "ChtPrefix = bytes_of_string ''chtRootV2-''"
definition ChtTablePrefix :: bytes where "ChtTablePrefix = bytes_of_string ''cht-''"
definition ChtIndexTablePrefix :: bytes where "ChtIndexTablePrefix = bytes_of_string ''chtIndexV2-''"
definition BloomTriePrefix :: bytes where "BloomTriePrefix = bytes_of_string ''bltRoot-''"
definition BloomTrieTablePrefix :: bytes where "BloomTrieTablePrefix = bytes_of_string ''blt-''"
definition BloomTrieIndexPrefix :: bytes where "BloomTrieIndexPrefix = bytes_of_string ''bltIndex-''"
definition CliqueSnapshotPrefix :: bytes where "CliqueSnapshotPrefix = bytes_of_string ''clique-''"
definition BestUpdateKey :: bytes where "BestUpdateKey = bytes_of_string ''update-''"
definition FixedCommitteeRootKey :: bytes where "FixedCommitteeRootKey = bytes_of_string ''fixedRoot-''"
definition SyncCommitteeKey :: bytes where "SyncCommitteeKey = bytes_of_string ''committee-''"

lemmas schema_keys =
  databaseVersionKey_def
  headHeaderKey_def
  headBlockKey_def
  headFastBlockKey_def
  headFinalizedBlockKey_def
  persistentStateIDKey_def
  lastPivotKey_def
  fastTrieProgressKey_def
  snapshotDisabledKey_def
  SnapshotRootKey_def
  snapshotJournalKey_def
  snapshotGeneratorKey_def
  snapshotRecoveryKey_def
  snapshotSyncStatusKey_def
  skeletonSyncStatusKey_def
  trieJournalKey_def
  txIndexTailKey_def
  fastTxLookupLimitKey_def
  badBlockKey_def
  uncleanShutdownKey_def
  transitionStatusKey_def
  snapSyncStatusFlagKey_def
  headerPrefix_def
  headerTDSuffix_def
  headerHashSuffix_def
  headerNumberPrefix_def
  blockBodyPrefix_def
  blockReceiptsPrefix_def
  txLookupPrefix_def
  bloomBitsPrefix_def
  SnapshotAccountPrefix_def
  SnapshotStoragePrefix_def
  CodePrefix_def
  skeletonHeaderPrefix_def
  TrieNodeAccountPrefix_def
  TrieNodeStoragePrefix_def
  stateIDPrefix_def
  VerklePrefix_def
  PreimagePrefix_def
  configPrefix_def
  genesisPrefix_def
  BloomBitsIndexPrefix_def
  ChtPrefix_def
  ChtTablePrefix_def
  ChtIndexTablePrefix_def
  BloomTriePrefix_def
  BloomTrieTablePrefix_def
  BloomTrieIndexPrefix_def
  CliqueSnapshotPrefix_def
  BestUpdateKey_def
  FixedCommitteeRootKey_def
  SyncCommitteeKey_def

definition keyPrefixes :: "(bytes \<times> DataType) list" where
  "keyPrefixes = [
    (ChtPrefix, ChtRootDataType),
    (ChtIndexTablePrefix, ChtIndexTableDataType),
    (ChtTablePrefix, ChtTableDataType),
    (BloomTriePrefix, BloomTrieRootDataType),
    (BloomTrieIndexPrefix, BloomTrieIndexDataType),
    (BloomTrieTablePrefix, BloomTrieTableDataType),
    (PreimagePrefix, PreimageDataType),
    (configPrefix, ConfigDataType),
    (genesisPrefix, GenesisStateDataType),
    (CliqueSnapshotPrefix, CliqueSnapshotDataType),
    (BloomBitsIndexPrefix, BloomBitsIndexDataType),
    (headerPrefix, HeaderDataType),
    (headerNumberPrefix, HeaderNumberDataType),
    (blockBodyPrefix, BlockBodyDataType),
    (blockReceiptsPrefix, BlockReceiptsDataType),
    (txLookupPrefix, TransactionLookupMetadataDataType),
    (bloomBitsPrefix, BloomBitsDataType),
    (headerTDSuffix, HeaderTotalDifficultyDataType),
    (headerHashSuffix, HeaderNumberHashMappingDataType),
    (SnapshotAccountPrefix, SnapshotAccountDataType),
    (SnapshotStoragePrefix, SnapshotStorageDataType),
    (CodePrefix, CodeDataType),
    (skeletonHeaderPrefix, SkeletonHeaderDataType),
    (TrieNodeAccountPrefix, TrieNodeAccountDataType),
    (TrieNodeStoragePrefix, TrieNodeStorageDataType),
    (stateIDPrefix, StateIDLookupDataType),
    (VerklePrefix, VerkleTrieDataType),
    (databaseVersionKey, DatabaseVersionDataType),
    (headHeaderKey, HeadHeaderDataType),
    (headBlockKey, HeadBlockDataType),
    (headFastBlockKey, HeadFastBlockDataType),
    (headFinalizedBlockKey, HeadFinalizedBlockDataType),
    (persistentStateIDKey, PersistentStateIDDataType),
    (lastPivotKey, LastPivotDataType),
    (fastTrieProgressKey, FastTrieProgressDataType),
    (snapshotDisabledKey, SnapshotDisabledDataType),
    (SnapshotRootKey, SnapshotRootDataType),
    (snapshotJournalKey, SnapshotJournalDataType),
    (snapshotGeneratorKey, SnapshotGeneratorDataType),
    (snapshotRecoveryKey, SnapshotRecoveryDataType),
    (snapshotSyncStatusKey, SnapshotSyncStatusDataType),
    (skeletonSyncStatusKey, SkeletonSyncStatusDataType),
    (trieJournalKey, TrieJournalDataType),
    (txIndexTailKey, TransactionIndexTailDataType),
    (fastTxLookupLimitKey, FastTransactionLookupLimitDataType),
    (badBlockKey, BadBlockDataType),
    (uncleanShutdownKey, UncleanShutdownDataType),
    (transitionStatusKey, TransitionStatusDataType),
    (snapSyncStatusFlagKey, SnapSyncStatusFlagDataType),
    (BestUpdateKey, LightClientUpdateDataType),
    (FixedCommitteeRootKey, FixedCommitteeRootDataType),
    (SyncCommitteeKey, SyncCommitteeDataType)]"

section \<open>The prefix trie\<close>

datatype TrieNode = TrieNode (Children: "(byte \<times> TrieNode) list") (NodeDataType: DataType)

definition NewTrieNode :: TrieNode where
  "NewTrieNode = TrieNode [] UnknownTypeDataType"

definition child_or_new :: "(byte \<times> TrieNode) list \<Rightarrow> byte \<Rightarrow> TrieNode" where
  "child_or_new cs b = (case map_of cs b of Some c \<Rightarrow> c | None \<Rightarrow> NewTrieNode)"

fun Insert :: "TrieNode \<Rightarrow> bytes \<Rightarrow> DataType \<Rightarrow> TrieNode" where
  "Insert (TrieNode cs d) [] dataType = TrieNode cs dataType"
| "Insert (TrieNode cs d) (b # bs) dataType =
     TrieNode (AList.update b (Insert (child_or_new cs b) bs dataType) cs) d"

fun NewKeyDataTypeMatcher_loop :: "TrieNode \<Rightarrow> (bytes \<times> DataType) list \<Rightarrow> TrieNode" where
  "NewKeyDataTypeMatcher_loop trie [] = trie"
| "NewKeyDataTypeMatcher_loop trie ((p, dt) # kpis) =
     NewKeyDataTypeMatcher_loop (if 0 < length p then Insert trie p dt else trie) kpis"

definition NewKeyDataTypeMatcher :: TrieNode where
  "NewKeyDataTypeMatcher = NewKeyDataTypeMatcher_loop NewTrieNode keyPrefixes"

fun GetDataType_loop :: "TrieNode \<Rightarrow> bytes \<Rightarrow> DataType \<Rightarrow> DataType" where
  "GetDataType_loop node [] longestMatchType = longestMatchType"
| "GetDataType_loop node (b # bs) longestMatchType =
     (case map_of (Children node) b of
        None \<Rightarrow> longestMatchType
      | Some child \<Rightarrow> GetDataType_loop child bs
          (if NodeDataType child \<noteq> UnknownTypeDataType then NodeDataType child else longestMatchType))"

text \<open>A nil matcher or a matcher without a trie classifies nothing.\<close>

definition GetDataType :: "TrieNode option \<Rightarrow> bytes \<Rightarrow> DataType" where
  "GetDataType m key =
     (case m of None \<Rightarrow> UnknownTypeDataType
      | Some trie \<Rightarrow> GetDataType_loop trie key UnknownTypeDataType)"

definition GetDataTypeFromKey :: "bytes \<Rightarrow> DataType" where
  "GetDataTypeFromKey key = GetDataType (Some NewKeyDataTypeMatcher) key"

section \<open>Block numbers in keys and values\<close>

definition ParseBlockNumberFromKey :: "bytes \<Rightarrow> DataType \<Rightarrow> u64 option" where
  "ParseBlockNumberFromKey key dataType =
     (if dataType \<in> {HeaderDataType, BlockBodyDataType, BlockReceiptsDataType} \<and> 9 \<le> length key
      then Some (Uint64 (take 8 (drop 1 key))) else None)"

definition ParseBlockNumberFromValue :: "bytes \<Rightarrow> DataType \<Rightarrow> u64 option" where
  "ParseBlockNumberFromValue val dataType =
     (if dataType = HeaderNumberDataType \<and> length val = 8 then Some (Uint64 val) else None)"

section \<open>The trie as a map\<close>

text \<open>\<open>trie_type t p\<close> is the class recorded at the node that the path \<open>p\<close> reaches.\<close>

fun trie_type :: "TrieNode \<Rightarrow> bytes \<Rightarrow> DataType" where
  "trie_type t [] = NodeDataType t"
| "trie_type t (b # bs) =
     (case map_of (Children t) b of None \<Rightarrow> UnknownTypeDataType | Some c \<Rightarrow> trie_type c bs)"

lemma trie_type_New [simp]: "trie_type NewTrieNode p = UnknownTypeDataType"
  by (cases p) (simp_all add: NewTrieNode_def)

lemma trie_type_child_or_new:
  "trie_type (child_or_new cs b) bs =
     (case map_of cs b of None \<Rightarrow> UnknownTypeDataType | Some c \<Rightarrow> trie_type c bs)"
  by (simp add: child_or_new_def split: option.split)

lemma trie_type_Insert:
  "trie_type (Insert t p dt) q = (if q = p then dt else trie_type t q)"
proof (induction t p dt arbitrary: q rule: Insert.induct)
  case (1 cs d dataType)
  then show ?case by (cases q) simp_all
next
  case (2 cs d b bs dataType)
  then show ?case
    by (cases q) (auto simp: update_conv' trie_type_child_or_new)
qed

text \<open>
  The contract a client of the matcher relies on: registering a prefix changes the class of
  that prefix only.
\<close>

locale prefix_registry =
  fixes new :: 't
    and register :: "'t \<Rightarrow> bytes \<Rightarrow> DataType \<Rightarrow> 't"
    and class_of :: "'t \<Rightarrow> bytes \<Rightarrow> DataType"
  assumes class_new: "class_of new p = UnknownTypeDataType"
    and class_register: "class_of (register t p dt) q = (if q = p then dt else class_of t q)"
begin

primrec register_all :: "'t \<Rightarrow> (bytes \<times> DataType) list \<Rightarrow> 't" where
  "register_all t [] = t"
| "register_all t (x # xs) =
     register_all (if 0 < length (fst x) then register t (fst x) (snd x) else t) xs"

lemma class_register_all:
  "distinct (map fst ps) \<Longrightarrow> [] \<notin> fst ` set ps \<Longrightarrow>
   class_of (register_all t ps) q = (case map_of ps q of Some dt \<Rightarrow> dt | None \<Rightarrow> class_of t q)"
proof (induction ps arbitrary: t)
  case Nil
  then show ?case by simp
next
  case (Cons x xs)
  from Cons.prems have "fst x \<noteq> []" by force
  moreover from Cons.prems(1) have "map_of xs (fst x) = None"
    by (simp add: map_of_eq_None_iff)
  ultimately show ?case using Cons by (auto simp: class_register split: option.split)
qed

end

interpretation matcher_trie: prefix_registry NewTrieNode Insert trie_type
  by unfold_locales (simp_all add: trie_type_Insert)

lemma matcher_loop_register_all:
  "NewKeyDataTypeMatcher_loop t ps = matcher_trie.register_all t ps"
  by (induction t ps rule: NewKeyDataTypeMatcher_loop.induct) simp_all

section \<open>Longest match\<close>

text \<open>
  The specification: of the table's entries that are a prefix of the key, the longest one
  gives the class.
\<close>

definition matching :: "(bytes \<times> DataType) list \<Rightarrow> bytes \<Rightarrow> (bytes \<times> DataType) list" where
  "matching ps key = filter (\<lambda>(p, _). prefix p key) ps"

definition longest_matching :: "(bytes \<times> DataType) list \<Rightarrow> bytes \<Rightarrow> DataType" where
  "longest_matching ps key =
     (case filter (\<lambda>(p, _). \<forall>(q, _) \<in> set (matching ps key). length q \<le> length p) (matching ps key) of
        [] \<Rightarrow> UnknownTypeDataType
      | (_, dt) # _ \<Rightarrow> dt)"

lemma GetDataType_loop_cases:
  "(GetDataType_loop t key best = best \<and>
      (\<forall>p. prefix p key \<and> p \<noteq> [] \<longrightarrow> trie_type t p = UnknownTypeDataType)) \<or>
   (\<exists>p. prefix p key \<and> p \<noteq> [] \<and> trie_type t p \<noteq> UnknownTypeDataType \<and>
      GetDataType_loop t key best = trie_type t p \<and>
      (\<forall>q. prefix q key \<and> length p < length q \<longrightarrow> trie_type t q = UnknownTypeDataType))"
proof (induction t key best rule: GetDataType_loop.induct)
  case (1 node best)
  then show ?case by simp
next
  case (2 node b bs best)
  show ?case
  proof (cases "map_of (Children node) b")
    case None
    have "trie_type node p = UnknownTypeDataType" if "prefix p (b # bs)" "p \<noteq> []" for p
    proof -
      from that obtain r where "p = b # r" by (cases p) (simp_all add: prefix_Cons)
      with None show ?thesis by simp
    qed
    with None show ?thesis by (intro disjI1) simp
  next
    case (Some child)
    let ?best = "if NodeDataType child \<noteq> UnknownTypeDataType then NodeDataType child else best"
    have step: "GetDataType_loop node (b # bs) best = GetDataType_loop child bs ?best"
      using Some by simp
    have below: "trie_type node (b # p) = trie_type child p" for p using Some by simp
    from "2" [OF Some] show ?thesis
    proof
      assume none: "GetDataType_loop child bs ?best = ?best \<and>
        (\<forall>p. prefix p bs \<and> p \<noteq> [] \<longrightarrow> trie_type child p = UnknownTypeDataType)"
      show ?thesis
      proof (cases "NodeDataType child = UnknownTypeDataType")
        case True
        have "trie_type node p = UnknownTypeDataType" if "prefix p (b # bs)" "p \<noteq> []" for p
        proof -
          from that obtain r where r: "p = b # r" "prefix r bs" by (auto simp: prefix_Cons)
          show ?thesis using r none True below by (cases "r = []") auto
        qed
        with none True step show ?thesis by auto
      next
        case False
        have "trie_type node q = UnknownTypeDataType" if "prefix q (b # bs)" "1 < length q" for q
          using that none below by (cases q) (auto simp: prefix_Cons)
        with none False step below [of "[]"] show ?thesis
          by (intro disjI2 exI [of _ "[b]"]) auto
      qed
    next
      assume "\<exists>p. prefix p bs \<and> p \<noteq> [] \<and> trie_type child p \<noteq> UnknownTypeDataType \<and>
        GetDataType_loop child bs ?best = trie_type child p \<and>
        (\<forall>q. prefix q bs \<and> length p < length q \<longrightarrow> trie_type child q = UnknownTypeDataType)"
      then obtain p where p: "prefix p bs" "trie_type child p \<noteq> UnknownTypeDataType"
          "GetDataType_loop child bs ?best = trie_type child p"
          "\<And>q. prefix q bs \<Longrightarrow> length p < length q \<Longrightarrow> trie_type child q = UnknownTypeDataType"
        by blast
      have "trie_type node q = UnknownTypeDataType" if "prefix q (b # bs)" "length (b # p) < length q" for q
        using that p(4) below by (cases q) (auto simp: prefix_Cons)
      with p step below [of p] show ?thesis
        by (intro disjI2 exI [of _ "b # p"]) auto
    qed
  qed
qed

lemma longest_matching_eq:
  assumes "distinct (map fst ps)" and "(p, dt) \<in> set ps" "prefix p key"
    and longest: "\<And>q dq. (q, dq) \<in> set ps \<Longrightarrow> prefix q key \<Longrightarrow> length q \<le> length p"
  shows "longest_matching ps key = dt"
proof -
  let ?best = "filter (\<lambda>(p, _). \<forall>(q, _) \<in> set (matching ps key). length q \<le> length p) (matching ps key)"
  have pin: "(p, dt) \<in> set ?best"
    using assms by (auto simp: matching_def)
  have only: "x = (p, dt)" if "x \<in> set ?best" for x
  proof -
    obtain q dq where x: "x = (q, dq)" by (cases x)
    with that have "(q, dq) \<in> set ps" "prefix q key" by (auto simp: matching_def)
    moreover from that x assms have "length p \<le> length q" by (auto simp: matching_def)
    ultimately have "length q = length p" using longest by (simp add: le_antisym)
    with \<open>prefix q key\<close> \<open>prefix p key\<close> have "q = p" by (auto simp: prefix_def)
    with \<open>(q, dq) \<in> set ps\<close> assms(1,2) x show ?thesis by (simp add: eq_key_imp_eq_value)
  qed
  from pin obtain y ys where cons: "?best = y # ys" by (cases ?best) auto
  then have "y = (p, dt)" using only [of y] by simp
  with cons show ?thesis by (simp add: longest_matching_def)
qed

lemma longest_matching_none:
  assumes "\<And>q dq. (q, dq) \<in> set ps \<Longrightarrow> \<not> prefix q key"
  shows "longest_matching ps key = UnknownTypeDataType"
proof -
  have "matching ps key = []" using assms by (auto simp: matching_def filter_empty_conv)
  then show ?thesis by (simp add: longest_matching_def)
qed

lemma keyPrefixes_distinct: "distinct (map fst keyPrefixes)"
  by (simp add: keyPrefixes_def schema_keys)

lemma keyPrefixes_nonempty: "[] \<notin> fst ` set keyPrefixes"
  by (simp add: keyPrefixes_def schema_keys)

lemma keyPrefixes_known: "UnknownTypeDataType \<notin> snd ` set keyPrefixes"
  by (simp add: keyPrefixes_def)

lemma matcher_type:
  "trie_type NewKeyDataTypeMatcher q =
     (case map_of keyPrefixes q of Some dt \<Rightarrow> dt | None \<Rightarrow> UnknownTypeDataType)"
  unfolding NewKeyDataTypeMatcher_def matcher_loop_register_all
  by (subst matcher_trie.class_register_all)
    (auto simp: keyPrefixes_distinct keyPrefixes_nonempty simp flip: split: option.split)

lemma matcher_type_known:
  "trie_type NewKeyDataTypeMatcher q \<noteq> UnknownTypeDataType \<longleftrightarrow>
   (q, trie_type NewKeyDataTypeMatcher q) \<in> set keyPrefixes"
  using keyPrefixes_known keyPrefixes_distinct
  by (force simp: matcher_type split: option.splits dest: map_of_SomeD)

lemma matcher_longest_prefix:
  "GetDataTypeFromKey key = longest_matching keyPrefixes key"
proof -
  let ?t = NewKeyDataTypeMatcher
  have entry: "trie_type ?t q = dq" "q \<noteq> []" "dq \<noteq> UnknownTypeDataType"
    if "(q, dq) \<in> set keyPrefixes" for q dq
    using that keyPrefixes_distinct keyPrefixes_nonempty keyPrefixes_known
    by (force simp: matcher_type)+
  have eq: "GetDataTypeFromKey key = GetDataType_loop ?t key UnknownTypeDataType"
    by (simp add: GetDataTypeFromKey_def GetDataType_def)
  from GetDataType_loop_cases [of ?t key UnknownTypeDataType] show ?thesis
  proof
    assume none: "GetDataType_loop ?t key UnknownTypeDataType = UnknownTypeDataType \<and>
      (\<forall>p. prefix p key \<and> p \<noteq> [] \<longrightarrow> trie_type ?t p = UnknownTypeDataType)"
    then have "\<not> prefix q key" if "(q, dq) \<in> set keyPrefixes" for q dq
      using entry [OF that] by auto
    then have "longest_matching keyPrefixes key = UnknownTypeDataType"
      by (rule longest_matching_none)
    with none eq show ?thesis by simp
  next
    assume "\<exists>p. prefix p key \<and> p \<noteq> [] \<and> trie_type ?t p \<noteq> UnknownTypeDataType \<and>
      GetDataType_loop ?t key UnknownTypeDataType = trie_type ?t p \<and>
      (\<forall>q. prefix q key \<and> length p < length q \<longrightarrow> trie_type ?t q = UnknownTypeDataType)"
    then obtain p where p: "prefix p key" "trie_type ?t p \<noteq> UnknownTypeDataType"
        "GetDataType_loop ?t key UnknownTypeDataType = trie_type ?t p"
        "\<And>q. prefix q key \<Longrightarrow> length p < length q \<Longrightarrow> trie_type ?t q = UnknownTypeDataType"
      by blast
    then have "(p, trie_type ?t p) \<in> set keyPrefixes" using matcher_type_known by blast
    moreover have "length q \<le> length p" if "(q, dq) \<in> set keyPrefixes" "prefix q key" for q dq
      using p(4) [OF that(2)] entry [OF that(1)] by (metis not_le)
    ultimately have "longest_matching keyPrefixes key = trie_type ?t p"
      using p(1) keyPrefixes_distinct by (intro longest_matching_eq)
    with p(3) eq show ?thesis by simp
  qed
qed

section \<open>Keys of block data\<close>

text \<open>
  Geth's keys of headers, bodies and receipts: a one-byte prefix, the block number in eight
  big-endian bytes and the block hash (with a suffix for some header entries).
\<close>

definition block_key :: "bytes \<Rightarrow> u64 \<Rightarrow> bytes \<Rightarrow> bytes" where
  "block_key p num sfx = p @ PutUint64 num @ sfx"

lemma matching_header:
  "matching keyPrefixes (headerPrefix @ rest) = [(headerPrefix, HeaderDataType)]"
  by (simp add: matching_def keyPrefixes_def schema_keys)

lemma matching_body:
  "matching keyPrefixes (blockBodyPrefix @ 0 # rest) = [(blockBodyPrefix, BlockBodyDataType)]"
  by (simp add: matching_def keyPrefixes_def schema_keys)

lemma matching_receipts:
  "matching keyPrefixes (blockReceiptsPrefix @ rest) = [(blockReceiptsPrefix, BlockReceiptsDataType)]"
  by (simp add: matching_def keyPrefixes_def schema_keys)

lemma header_class: "GetDataTypeFromKey (headerPrefix @ rest) = HeaderDataType"
  by (simp add: matcher_longest_prefix longest_matching_def matching_header)

lemma receipts_class: "GetDataTypeFromKey (blockReceiptsPrefix @ rest) = BlockReceiptsDataType"
  by (simp add: matcher_longest_prefix longest_matching_def matching_receipts)

lemma body_class: "GetDataTypeFromKey (blockBodyPrefix @ 0 # rest) = BlockBodyDataType"
  by (simp add: matcher_longest_prefix longest_matching_def matching_body)

lemma PutUint64_small:
  assumes "unat num < 2 ^ 56"
  shows "PutUint64 num = 0 # be_put 7 (unat num)"
proof -
  have "PutUint64 num = word_of_nat (unat num div 256 ^ 7) # be_put 7 (unat num)"
    using be_put.simps(2) [of 7 "unat num"] by (simp only: PutUint64_def) simp
  with assms show ?thesis by simp
qed

lemmas class_simps = header_class receipts_class body_class

lemma block_key_class:
  assumes "unat num < 2 ^ 56"
  shows "GetDataTypeFromKey (block_key headerPrefix num sfx) = HeaderDataType"
    and "GetDataTypeFromKey (block_key blockBodyPrefix num sfx) = BlockBodyDataType"
    and "GetDataTypeFromKey (block_key blockReceiptsPrefix num sfx) = BlockReceiptsDataType"
  using PutUint64_small [OF assms] by (simp_all add: block_key_def class_simps)

lemma ParseBlockNumberFromKey_block_key:
  assumes "length p = 1" "dt \<in> {HeaderDataType, BlockBodyDataType, BlockReceiptsDataType}"
  shows "ParseBlockNumberFromKey (block_key p num sfx) dt = Some num"
proof -
  from assms(1) obtain b where "p = [b]" by (cases p) auto
  with assms(2) show ?thesis by (simp add: ParseBlockNumberFromKey_def block_key_def)
qed

definition block_prefixes :: "bytes set" where
  "block_prefixes = {headerPrefix, blockBodyPrefix, blockReceiptsPrefix}"

definition key_block :: "bytes \<Rightarrow> u64 option" where
  "key_block key = ParseBlockNumberFromKey key (GetDataTypeFromKey key)"

lemma key_block_block_key:
  assumes "p \<in> block_prefixes" "unat num < 2 ^ 56"
  shows "key_block (block_key p num sfx) = Some num"
proof -
  have len: "length headerPrefix = 1" "length blockBodyPrefix = 1" "length blockReceiptsPrefix = 1"
    by (simp_all add: schema_keys)
  from assms show ?thesis
    using ParseBlockNumberFromKey_block_key [OF len(1)] ParseBlockNumberFromKey_block_key [OF len(2)]
      ParseBlockNumberFromKey_block_key [OF len(3)]
    by (auto simp: key_block_def block_prefixes_def block_key_class)
qed

section \<open>Properties\<close>

text \<open>
  C19. The class of a key is the class of the longest registered prefix of the key (the trie
  walk agrees with a scan of the whole prefix table), and a key with no registered prefix is
  of the unknown class.
\<close>

theorem GetDataTypeFromKey_longest_prefix:
  "GetDataTypeFromKey key = longest_matching keyPrefixes key"
  by (rule matcher_longest_prefix)

text \<open>
  A header, body or receipts key of Geth's schema is routed by its own class and yields
  back the block number it was built from, for block numbers below \<open>2 ^ 56\<close>.
\<close>

theorem block_keys_classified:
  assumes "unat num < 2 ^ 56"
  shows "GetDataTypeFromKey (block_key headerPrefix num sfx) = HeaderDataType \<and>
    GetDataTypeFromKey (block_key blockBodyPrefix num sfx) = BlockBodyDataType \<and>
    GetDataTypeFromKey (block_key blockReceiptsPrefix num sfx) = BlockReceiptsDataType \<and>
    (\<forall>p dt. p \<in> block_prefixes \<and> dt = GetDataTypeFromKey (block_key p num sfx) \<longrightarrow>
       ParseBlockNumberFromKey (block_key p num sfx) dt = Some num)"
  using block_key_class [OF assms] key_block_block_key [OF _ assms] by (auto simp: key_block_def)

theorem block_keys_classified_witness:
  "GetDataTypeFromKey (block_key blockBodyPrefix 20500000 [1, 2]) = BlockBodyDataType \<and>
   ParseBlockNumberFromKey (block_key blockBodyPrefix 20500000 [1, 2]) BlockBodyDataType = Some 20500000"
proof -
  have "unat (20500000 :: u64) < 2 ^ 56" by simp
  note k = block_keys_classified [OF this, of "[1, 2]"]
  then have cls: "GetDataTypeFromKey (block_key blockBodyPrefix 20500000 [1, 2]) = BlockBodyDataType"
    by blast
  moreover have "blockBodyPrefix \<in> block_prefixes" by (simp add: block_prefixes_def)
  ultimately show ?thesis using k by metis
qed

end
