(* ===== verification/Block_Codec.thy ===== *)
theory Block_Codec
  imports Key_Schema "HOL-Library.Product_Lexorder" "HOL-Library.Multiset"
begin

text \<open>
  The on-disk formats of the block log, \<^verbatim>\<open>THEO/datablockStore.go\<close>: log entries
  (block number, key length, value length, key, value), index records (block number, start
  offset, end offset) and the index metadata, with the order in which a block's entries are
  written. Both record formats are interpreted as record codecs.
\<close>

section \<open>Constants and records\<close>

text \<open>The offset field of the Go record of a log entry is never assigned or read; it is left out.\<close>

definition defaultRecentN :: int where "defaultRecentN = 6000"
definition IgnoredThreshold :: u64 where "IgnoredThreshold = 10000"
definition TombstoneMarker :: bytes where "TombstoneMarker = bytes_of_string ''_D_''"
definition indexEntrySize :: nat where "indexEntrySize = 24"
definition indexMetaSize :: nat where "indexMetaSize = 16"

record logEntry =
  le_BlockID :: u64
  le_Key :: bytes
  le_Value :: bytes

record blockIndexEntry =
  BlockID :: u64
  StartOffset :: int
  EndOffset :: int

record kvPointer =
  kp_Offset :: int
  kp_ValueLen :: u32
  kp_BlockID :: u64
  kp_InlineValue :: bytes
  kp_HasInlineValue :: bool

section \<open>Log entries\<close>

definition writeLogEntry :: "u64 \<Rightarrow> bytes \<Rightarrow> bytes \<Rightarrow> bytes" where
  "writeLogEntry blockID key val =
     PutUint64 blockID @ PutUint32 (word_of_nat (length key)) @ PutUint32 (word_of_nat (length val)) @ key @ val"

datatype log_error = LogEOF | LogHeader io_error | LogKey io_error | LogValue io_error

definition readLogEntry :: "bytes \<Rightarrow> log_error + logEntry \<times> bytes" where
  "readLogEntry r =
     (case ReadFull r 16 of
        Inl EOF \<Rightarrow> Inl LogEOF
      | Inl e \<Rightarrow> Inl (LogHeader e)
      | Inr (headerBuf, r1) \<Rightarrow>
          (let keyLen = Uint32 (take 4 (drop 8 headerBuf)); valueLen = Uint32 (drop 12 headerBuf) in
           case ReadFull r1 (unat keyLen) of
             Inl e \<Rightarrow> Inl (LogKey e)
           | Inr (keyBytes, r2) \<Rightarrow>
               (case ReadFull r2 (unat valueLen) of
                  Inl e \<Rightarrow> Inl (LogValue e)
                | Inr (valueBytes, r3) \<Rightarrow>
                    Inr (\<lparr>le_BlockID = Uint64 (take 8 headerBuf), le_Key = keyBytes, le_Value = valueBytes\<rparr>, r3))))"

text \<open>A decoded entry accounts for its header, its key and its value.\<close>

definition entry_size :: "logEntry \<Rightarrow> nat" where
  "entry_size e = 16 + length (le_Key e) + length (le_Value e)"

section \<open>The entries of a block\<close>

definition baolWritePriority :: "bytes \<Rightarrow> nat" where
  "baolWritePriority key =
     (case GetDataTypeFromKey key of
        HeaderDataType \<Rightarrow> 0 | BlockBodyDataType \<Rightarrow> 1 | BlockReceiptsDataType \<Rightarrow> 2 | _ \<Rightarrow> 3)"

text \<open>
  A Go map is an association list of its bindings in some iteration order, each key once.
  The keys are sorted by write priority and then by bytes, so the order of iteration does not
  matter.
\<close>

definition write_order :: "(bytes \<times> bytes) list \<Rightarrow> (bytes \<times> bytes) list" where
  "write_order kvs = map (\<lambda>k. (k, the (map_of kvs k))) (sort_key (\<lambda>k. (baolWritePriority k, k)) (map fst kvs))"

definition writeLogEntries :: "u64 \<Rightarrow> (bytes \<times> bytes) list \<Rightarrow> bytes" where
  "writeLogEntries blockID kvs = concat (map (\<lambda>(k, v). writeLogEntry blockID k v) (write_order kvs))"

section \<open>Index records and metadata\<close>

definition encodeIndexEntry :: "blockIndexEntry \<Rightarrow> bytes" where
  "encodeIndexEntry e = PutUint64 (BlockID e) @ PutUint64 (uint64_of_int64 (StartOffset e)) @
     PutUint64 (uint64_of_int64 (EndOffset e))"

definition decodeIndexEntry :: "bytes \<Rightarrow> blockIndexEntry" where
  "decodeIndexEntry buf =
     \<lparr>BlockID = Uint64 (take 8 buf), StartOffset = int64_of_uint64 (Uint64 (take 8 (drop 8 buf))),
      EndOffset = int64_of_uint64 (Uint64 (drop 16 buf))\<rparr>"

definition readIndexRecord :: "bytes \<Rightarrow> io_error + blockIndexEntry \<times> bytes" where
  "readIndexRecord r =
     (case ReadFull r indexEntrySize of Inl e \<Rightarrow> Inl e | Inr (buf, r') \<Rightarrow> Inr (decodeIndexEntry buf, r'))"

definition encodeIndexMeta :: "u64 \<Rightarrow> u64 \<Rightarrow> bytes" where
  "encodeIndexMeta minID latestID = PutUint64 minID @ PutUint64 latestID"

section \<open>Round trips\<close>

definition entry_fits :: "logEntry \<Rightarrow> bool" where
  "entry_fits e \<longleftrightarrow> length (le_Key e) < 2 ^ 32 \<and> length (le_Value e) < 2 ^ 32"

definition enc_entry :: "logEntry \<Rightarrow> bytes" where
  "enc_entry e = writeLogEntry (le_BlockID e) (le_Key e) (le_Value e)"

lemma length_writeLogEntry [simp]: "length (writeLogEntry b k v) = 16 + length k + length v"
  by (simp add: writeLogEntry_def)

lemma readLogEntry_writeLogEntry:
  assumes "entry_fits e"
  shows "readLogEntry (enc_entry e @ rest) = Inr (e, rest)"
proof -
  obtain b k v where e: "e = \<lparr>le_BlockID = b, le_Key = k, le_Value = v\<rparr>" by (cases e) auto
  let ?h = "PutUint64 b @ PutUint32 (word_of_nat (length k)) @ PutUint32 (word_of_nat (length v))"
  have "ReadFull (enc_entry e @ rest) 16 = Inr (?h, k @ v @ rest)"
    using ReadFull_append [of 16 ?h "k @ v @ rest"] by (simp add: enc_entry_def writeLogEntry_def e)
  moreover have "unat (word_of_nat (length k) :: u32) = length k" "unat (word_of_nat (length v) :: u32) = length v"
    using assms by (simp_all add: entry_fits_def e unat_of_nat)
  moreover have "Uint32 (take 4 (drop 8 ?h)) = word_of_nat (length k)" "Uint32 (drop 12 ?h) = word_of_nat (length v)"
    "Uint64 (take 8 ?h) = b"
    by simp_all
  ultimately show ?thesis by (simp add: readLogEntry_def Let_def e)
qed

definition offset_fits :: "blockIndexEntry \<Rightarrow> bool" where
  "offset_fits e \<longleftrightarrow> - (2 ^ 63) \<le> StartOffset e \<and> StartOffset e < 2 ^ 63 \<and> - (2 ^ 63) \<le> EndOffset e \<and> EndOffset e < 2 ^ 63"

lemma length_encodeIndexEntry [simp]: "length (encodeIndexEntry e) = 24"
  by (simp add: encodeIndexEntry_def)

lemma decode_encodeIndexEntry: "offset_fits e \<Longrightarrow> decodeIndexEntry (encodeIndexEntry e) = e"
  by (simp add: decodeIndexEntry_def encodeIndexEntry_def offset_fits_def int64_uint64_roundtrip)

lemma readIndexRecord_encode:
  "offset_fits e \<Longrightarrow> readIndexRecord (encodeIndexEntry e @ rest) = Inr (e, rest)"
  by (simp add: readIndexRecord_def indexEntrySize_def decode_encodeIndexEntry)

interpretation log_codec: record_codec enc_entry readLogEntry entry_fits
  by unfold_locales (simp_all add: readLogEntry_writeLogEntry, simp add: enc_entry_def writeLogEntry_def flip: length_0_conv)

interpretation index_codec: record_codec encodeIndexEntry readIndexRecord offset_fits
  by unfold_locales (simp_all add: readIndexRecord_encode flip: length_0_conv)

lemma length_enc_entry: "length (enc_entry e) = entry_size e"
  by (simp add: enc_entry_def entry_size_def)

section \<open>Blocks\<close>

text \<open>The entries of block \<open>b\<close> and the bytes they occupy.\<close>

definition block_entries :: "u64 \<Rightarrow> (bytes \<times> bytes) list \<Rightarrow> logEntry list" where
  "block_entries b kvs = map (\<lambda>(k, v). \<lparr>le_BlockID = b, le_Key = k, le_Value = v\<rparr>) kvs"

definition enc_block :: "u64 \<Rightarrow> (bytes \<times> bytes) list \<Rightarrow> bytes" where
  "enc_block b kvs = concat (map enc_entry (block_entries b kvs))"

lemma enc_block_append: "enc_block b (xs @ ys) = enc_block b xs @ enc_block b ys"
  by (simp add: enc_block_def block_entries_def)

lemma enc_block_Nil [simp]: "enc_block b [] = []"
  by (simp add: enc_block_def block_entries_def)

lemma enc_block_Cons: "enc_block b ((k, v) # xs) = writeLogEntry b k v @ enc_block b xs"
  by (simp add: enc_block_def block_entries_def enc_entry_def)

lemma enc_block_eq_Nil: "enc_block b xs = [] \<longleftrightarrow> xs = []"
proof (cases xs)
  case (Cons x ys)
  obtain k v where "x = (k, v)" by (cases x)
  with Cons have "length (enc_block b xs) > 0" by (simp add: enc_block_Cons)
  with Cons show ?thesis by auto
qed simp

lemma writeLogEntries_enc_block: "writeLogEntries b kvs = enc_block b (write_order kvs)"
  unfolding writeLogEntries_def enc_block_def block_entries_def
  by (simp add: o_def enc_entry_def case_prod_beta')

definition kvs_fit :: "(bytes \<times> bytes) list \<Rightarrow> bool" where
  "kvs_fit kvs \<longleftrightarrow> (\<forall>(k, v) \<in> set kvs. length k < 2 ^ 32 \<and> length v < 2 ^ 32)"

lemma block_entries_fit: "kvs_fit kvs \<Longrightarrow> \<forall>e \<in> set (block_entries b kvs). entry_fits e"
  by (auto simp: kvs_fit_def block_entries_def entry_fits_def)

lemma decode_enc_block: "kvs_fit kvs \<Longrightarrow> decode_all readLogEntry (enc_block b kvs) = (None, block_entries b kvs)"
  unfolding enc_block_def by (rule log_codec.decode_all_concat) (rule block_entries_fit)

lemma set_write_order: "distinct (map fst kvs) \<Longrightarrow> set (write_order kvs) = set kvs"
  by (force simp: write_order_def image_iff)

lemma write_order_fst: "map fst (write_order kvs) = sort_key (\<lambda>k. (baolWritePriority k, k)) (map fst kvs)"
  by (simp add: write_order_def o_def)

lemma write_order_Nil_iff: "write_order kvs = [] \<longleftrightarrow> kvs = []"
  by (simp add: write_order_def flip: length_0_conv)

lemma distinct_write_order: "distinct (map fst kvs) \<Longrightarrow> distinct (map fst (write_order kvs))"
  by (simp add: write_order_fst)

lemma map_of_write_order: "distinct (map fst kvs) \<Longrightarrow> map_of (write_order kvs) = map_of kvs"
  using distinct_write_order set_write_order by (metis map_of_inject_set)

lemma write_order_cong:
  assumes "distinct (map fst kvs)" "distinct (map fst kvs')" "map_of kvs = map_of kvs'"
  shows "write_order kvs = write_order kvs'"
proof -
  have "set (map fst kvs) = set (map fst kvs')"
    using assms(3) by (metis dom_map_of_conv_image_fst list.set_map)
  then have "mset (map fst kvs) = mset (map fst kvs')"
    using assms(1,2) by (simp only: set_eq_iff_mset_eq_distinct)
  then have "sort_key (\<lambda>k. (baolWritePriority k, k)) (map fst kvs) = sort_key (\<lambda>k. (baolWritePriority k, k)) (map fst kvs')"
    by (rule sort_key_eq_sort_key) (simp add: inj_on_def)
  with assms(3) show ?thesis by (simp add: write_order_def)
qed

end
