(* ===== verification/Block_Window.thy ===== *)
theory Block_Window
  imports Block_Codec
begin

text \<open>
  The in-memory index of the block log's most recent blocks, \<^verbatim>\<open>THEO/datablockStore.go\<close>: a
  skiplist from keys to entry positions, the list of recent blocks, the set of indexed blocks
  and the keys each of them contributed. The skiplist is a third-party package; it is a
  parameter, the record \<open>skiplist_ops\<close> of the operations the log calls, and \<open>skiplist_laws\<close>
  states what the package documents of them.
\<close>

named_theorems window_simps \<open>fields the window operations leave alone\<close>

section \<open>The skiplist package\<close>

text \<open>
  \<open>sl_Front\<close> gives the elements that \<^verbatim>\<open>Front\<close> and repeated \<^verbatim>\<open>Next\<close> visit, \<open>sl_Find\<close> those
  visited from the element that \<^verbatim>\<open>Find\<close> returns, and \<open>sl_NextAfterRemove\<close> tells whether
  \<^verbatim>\<open>Next\<close> of an element still leads to its successor once the element has been removed.
\<close>

record 's skiplist_ops =
  sl_New :: 's
  sl_Get :: "'s \<Rightarrow> bytes \<Rightarrow> kvPointer option"
  sl_Set :: "'s \<Rightarrow> bytes \<Rightarrow> kvPointer \<Rightarrow> 's"
  sl_Remove :: "'s \<Rightarrow> bytes \<Rightarrow> 's"
  sl_Front :: "'s \<Rightarrow> (bytes \<times> kvPointer) list"
  sl_Find :: "'s \<Rightarrow> bytes \<Rightarrow> (bytes \<times> kvPointer) list"
  sl_NextAfterRemove :: bool

definition skiplist_laws :: "'s skiplist_ops \<Rightarrow> bool" where
  "skiplist_laws sl \<longleftrightarrow>
     sl_Front sl (sl_New sl) = [] \<and>
     (\<forall>s. sorted (map fst (sl_Front sl s)) \<and> distinct (map fst (sl_Front sl s))) \<and>
     (\<forall>s k. sl_Get sl s k = map_of (sl_Front sl s) k) \<and>
     (\<forall>s k p. map_of (sl_Front sl (sl_Set sl s k p)) = (map_of (sl_Front sl s))(k \<mapsto> p)) \<and>
     (\<forall>s k. map_of (sl_Front sl (sl_Remove sl s k)) = (map_of (sl_Front sl s))(k := None)) \<and>
     (\<forall>s k. sl_Find sl s k = dropWhile (\<lambda>e. fst e < k) (sl_Front sl s))"

text \<open>An instance, for evaluation: an association list kept in any order.\<close>

definition alist_skiplist :: "(bytes \<times> kvPointer) list skiplist_ops" where
  "alist_skiplist = \<lparr>sl_New = [], sl_Get = map_of, sl_Set = (\<lambda>s k p. (k, p) # s),
     sl_Remove = (\<lambda>s k. filter (\<lambda>e. fst e \<noteq> k) s),
     sl_Front = (\<lambda>s. sort_key fst (AList.clearjunk s)),
     sl_Find = (\<lambda>s k. dropWhile (\<lambda>e. fst e < k) (sort_key fst (AList.clearjunk s))),
     sl_NextAfterRemove = False\<rparr>"

section \<open>State and operations\<close>

record 's recentWindow =
  recentN :: int
  recentBlocks :: "u64 list option"
  skiplistIndex :: 's
  indexedBlocks :: "u64 set option"
  indexedBlockKeys :: "(u64 \<Rightarrow> bytes list option) option"

definition keys_of :: "(u64 \<Rightarrow> bytes list option) option \<Rightarrow> u64 \<Rightarrow> bytes list" where
  "keys_of m b = (case m of None \<Rightarrow> [] | Some f \<Rightarrow> (case f b of None \<Rightarrow> [] | Some ks \<Rightarrow> ks))"

definition is_indexed :: "'s recentWindow \<Rightarrow> u64 \<Rightarrow> bool" where
  "is_indexed w b \<longleftrightarrow> (case indexedBlocks w of None \<Rightarrow> False | Some S \<Rightarrow> b \<in> S)"

definition recordIndexedKey :: "u64 \<Rightarrow> bytes \<Rightarrow> 's recentWindow \<Rightarrow> 's recentWindow" where
  "recordIndexedKey blockID key w =
     (let m = (case indexedBlockKeys w of None \<Rightarrow> Map.empty | Some f \<Rightarrow> f) in
      w\<lparr>indexedBlockKeys := Some (m(blockID \<mapsto> keys_of (Some m) blockID @ [key]))\<rparr>)"

definition buildKVPointerForSkiplist :: "u64 \<Rightarrow> int \<Rightarrow> bytes \<Rightarrow> bytes \<Rightarrow> kvPointer" where
  "buildKVPointerForSkiplist blockID entryOffset key val =
     (let ptr = \<lparr>kp_Offset = entryOffset, kp_ValueLen = word_of_nat (length val), kp_BlockID = blockID,
                 kp_InlineValue = [], kp_HasInlineValue = False\<rparr> in
      if GetDataTypeFromKey key = HeaderDataType
      then ptr\<lparr>kp_InlineValue := val, kp_HasInlineValue := True\<rparr> else ptr)"

definition setSkiplistEntry ::
  "'s skiplist_ops \<Rightarrow> u64 \<Rightarrow> bytes \<Rightarrow> kvPointer \<Rightarrow> 's recentWindow \<Rightarrow> 's recentWindow" where
  "setSkiplistEntry sl blockID key ptr w =
     recordIndexedKey blockID key (w\<lparr>skiplistIndex := sl_Set sl (skiplistIndex w) key ptr\<rparr>)"

text \<open>
  The loop that indexes the entries of one block, in \<^verbatim>\<open>Append\<close>, \<^verbatim>\<open>AppendToNewBlock\<close> and
  \<^verbatim>\<open>readAndIndexBlockFrom\<close>: each decoded entry is set at its own position.
\<close>

primrec index_entries ::
  "'s skiplist_ops \<Rightarrow> int \<Rightarrow> logEntry list \<Rightarrow> 's recentWindow \<Rightarrow> 's recentWindow" where
  "index_entries sl entryPos [] w = w"
| "index_entries sl entryPos (e # es) w =
     index_entries sl (i64 (entryPos + int (entry_size e))) es
       (setSkiplistEntry sl (le_BlockID e) (le_Key e)
          (buildKVPointerForSkiplist (le_BlockID e) entryPos (le_Key e) (le_Value e)) w)"

text \<open>
  Eviction of a block: the keys it contributed are removed unless a newer block has replaced
  them; a block with no tracked key is looked for by a scan of the whole skiplist.
\<close>

fun evict_scan :: "'s skiplist_ops \<Rightarrow> u64 \<Rightarrow> (bytes \<times> kvPointer) list \<Rightarrow> 's \<Rightarrow> 's" where
  "evict_scan sl oldest [] s = s"
| "evict_scan sl oldest ((key, ptr) # es) s =
     (if kp_BlockID ptr \<noteq> oldest then evict_scan sl oldest es s
      else let s' = sl_Remove sl s key in
        if sl_NextAfterRemove sl then evict_scan sl oldest es s' else s')"

primrec evict_tracked :: "'s skiplist_ops \<Rightarrow> u64 \<Rightarrow> bytes list \<Rightarrow> 's \<Rightarrow> 's" where
  "evict_tracked sl oldest [] s = s"
| "evict_tracked sl oldest (key # keys) s =
     (case sl_Get sl s key of
        None \<Rightarrow> evict_tracked sl oldest keys s
      | Some ptr \<Rightarrow>
          if kp_BlockID ptr \<noteq> oldest then evict_tracked sl oldest keys s
          else evict_tracked sl oldest keys (sl_Remove sl s key))"

definition evictOldBlockFromSkiplist ::
  "'s skiplist_ops \<Rightarrow> u64 \<Rightarrow> 's recentWindow \<Rightarrow> 's recentWindow" where
  "evictOldBlockFromSkiplist sl oldest w =
     (let keys = keys_of (indexedBlockKeys w) oldest;
          w' = w\<lparr>indexedBlockKeys := map_option (\<lambda>f. f(oldest := None)) (indexedBlockKeys w)\<rparr> in
      if keys = []
      then w'\<lparr>skiplistIndex := evict_scan sl oldest (sl_Front sl (skiplistIndex w)) (skiplistIndex w)\<rparr>
      else w'\<lparr>skiplistIndex := evict_tracked sl oldest keys (skiplistIndex w)\<rparr>)"

definition updateRecentBlocks ::
  "'s skiplist_ops \<Rightarrow> u64 \<Rightarrow> 's recentWindow \<Rightarrow> 's recentWindow" where
  "updateRecentBlocks sl newBlockID w =
     (let rb = (case recentBlocks w of None \<Rightarrow> [] | Some bs \<Rightarrow> bs) @ [newBlockID];
          ib = insert newBlockID (case indexedBlocks w of None \<Rightarrow> {} | Some S \<Rightarrow> S);
          ks = (case indexedBlockKeys w of None \<Rightarrow> Map.empty | Some f \<Rightarrow> f);
          w1 = w\<lparr>recentBlocks := Some rb, indexedBlocks := Some ib, indexedBlockKeys := Some ks\<rparr> in
      if int (length rb) > recentN w
      then evictOldBlockFromSkiplist sl (hd rb)
             (w1\<lparr>recentBlocks := Some (tl rb), indexedBlocks := Some (ib - {hd rb})\<rparr>)
      else w1)"

text \<open>After the bootstrap the tracking is rebuilt from the skiplist on the first write.\<close>

definition blockKeys_of :: "(bytes \<times> kvPointer) list \<Rightarrow> u64 \<Rightarrow> bytes list option" where
  "blockKeys_of es b =
     (let ks = map fst (filter (\<lambda>e. kp_BlockID (snd e) = b) es) in if ks = [] then None else Some ks)"

definition last_n :: "int \<Rightarrow> 'a list \<Rightarrow> 'a list" where
  "last_n n xs = (if int (length xs) > n then drop (nat (int (length xs) - n)) xs else xs)"

definition ensureWriteTrackingInitialized ::
  "'s skiplist_ops \<Rightarrow> 's recentWindow \<Rightarrow> 's recentWindow" where
  "ensureWriteTrackingInitialized sl w =
     (if recentBlocks w \<noteq> None \<and> indexedBlockKeys w \<noteq> None then w
      else let es = sl_Front sl (skiplistIndex w);
               blockIDs = last_n (recentN w) (sort (remdups (map (\<lambda>e. kp_BlockID (snd e)) es))) in
        w\<lparr>recentBlocks := Some blockIDs,
          indexedBlocks := (case indexedBlocks w of None \<Rightarrow> Some (set blockIDs) | Some S \<Rightarrow> Some S),
          indexedBlockKeys := Some (blockKeys_of es)\<rparr>)"

definition releaseBootstrapResources_window :: "'s recentWindow \<Rightarrow> 's recentWindow" where
  "releaseBootstrapResources_window w = w\<lparr>recentBlocks := None, indexedBlockKeys := None\<rparr>"

section \<open>The skiplist laws\<close>

lemma skiplist_Get_New: "skiplist_laws sl \<Longrightarrow> sl_Get sl (sl_New sl) k = None"
  by (simp add: skiplist_laws_def)

lemma skiplist_Get_Set:
  "skiplist_laws sl \<Longrightarrow> sl_Get sl (sl_Set sl s k p) k' = (if k' = k then Some p else sl_Get sl s k')"
  by (simp add: skiplist_laws_def)

lemma skiplist_Get_Remove:
  "skiplist_laws sl \<Longrightarrow> sl_Get sl (sl_Remove sl s k) k' = (if k' = k then None else sl_Get sl s k')"
  by (simp add: skiplist_laws_def)

lemma skiplist_Front_iff:
  assumes "skiplist_laws sl"
  shows "(k, p) \<in> set (sl_Front sl s) \<longleftrightarrow> sl_Get sl s k = Some p"
proof -
  have "distinct (map fst (sl_Front sl s))" "sl_Get sl s k = map_of (sl_Front sl s) k"
    using assms unfolding skiplist_laws_def by blast+
  then show ?thesis by simp
qed

lemmas skiplist_simps = skiplist_Get_New skiplist_Get_Set skiplist_Get_Remove

lemma distinct_fst_sort_key: "distinct (map fst xs) \<Longrightarrow> distinct (map fst (sort_key fst xs))"
  by (metis distinct_map distinct_sort inj_on_def set_sort)

lemma map_of_sort_key: "distinct (map fst xs) \<Longrightarrow> map_of (sort_key fst xs) = map_of xs"
  by (rule map_of_inject_set [THEN iffD2]) (simp_all add: distinct_fst_sort_key)

lemma map_of_filter_key: "map_of (filter (\<lambda>e. fst e \<noteq> k) s) = (map_of s)(k := None)"
  by (induction s) auto

lemma alist_skiplist_laws: "skiplist_laws alist_skiplist"
proof -
  have "map_of (sort_key fst (AList.clearjunk ((k, p) # s))) = (map_of s)(k \<mapsto> p)" for k p and s :: "(bytes \<times> kvPointer) list"
    by (subst map_of_sort_key) (simp_all only: distinct_clearjunk map_of_clearjunk map_of.simps fst_conv snd_conv)
  moreover have "map_of (sort_key fst (AList.clearjunk (filter (\<lambda>e. fst e \<noteq> k) s))) = (map_of s)(k := None)"
    for k and s :: "(bytes \<times> kvPointer) list"
    by (simp add: map_of_sort_key map_of_filter_key map_of_clearjunk)
  ultimately show ?thesis
    unfolding skiplist_laws_def alist_skiplist_def
    by (simp del: AList.clearjunk.simps add: map_of_sort_key map_of_clearjunk distinct_fst_sort_key)
qed

section \<open>The window invariant\<close>

text \<open>The index as a partial function, and what remains of it without one block.\<close>

definition window_index :: "'s skiplist_ops \<Rightarrow> 's recentWindow \<Rightarrow> bytes \<Rightarrow> kvPointer option" where
  "window_index sl w = sl_Get sl (skiplistIndex w)"

definition index_without :: "u64 \<Rightarrow> (bytes \<Rightarrow> kvPointer option) \<Rightarrow> bytes \<Rightarrow> kvPointer option" where
  "index_without b m = (\<lambda>k. case m k of None \<Rightarrow> None | Some p \<Rightarrow> if kp_BlockID p = b then None else Some p)"

definition window_blocks :: "'s recentWindow \<Rightarrow> u64 set" where
  "window_blocks w = (case indexedBlocks w of None \<Rightarrow> {} | Some S \<Rightarrow> S)"

text \<open>Every indexed key is tracked under the block its pointer names.\<close>

definition keys_tracked :: "'s skiplist_ops \<Rightarrow> 's recentWindow \<Rightarrow> bool" where
  "keys_tracked sl w \<longleftrightarrow>
     (\<forall>k p. window_index sl w k = Some p \<longrightarrow> k \<in> set (keys_of (indexedBlockKeys w) (kp_BlockID p)))"

definition window_inv :: "'s skiplist_ops \<Rightarrow> 's recentWindow \<Rightarrow> bool" where
  "window_inv sl w \<longleftrightarrow>
     0 < recentN w \<and> indexedBlocks w \<noteq> None \<and>
     (\<forall>k p. window_index sl w k = Some p \<longrightarrow> kp_BlockID p \<in> window_blocks w) \<and>
     (case recentBlocks w of
        None \<Rightarrow> True
      | Some rb \<Rightarrow> int (length rb) \<le> recentN w \<and> indexedBlockKeys w \<noteq> None \<and> keys_tracked sl w)"

lemma is_indexed_window_blocks [simp]: "is_indexed w b \<longleftrightarrow> b \<in> window_blocks w"
  by (simp add: is_indexed_def window_blocks_def split: option.splits)

lemma keys_of_update [simp]:
  "keys_of (Some (m(b \<mapsto> ks))) b' = (if b' = b then ks else keys_of (Some m) b')"
  "keys_of (Some (m(b := None))) b' = (if b' = b then [] else keys_of (Some m) b')"
  "keys_of None b' = []" "keys_of (Some Map.empty) b' = []"
  by (simp_all add: keys_of_def)

lemma keys_of_recordIndexedKey:
  "keys_of (indexedBlockKeys (recordIndexedKey b k w)) b' =
     keys_of (indexedBlockKeys w) b' @ (if b' = b then [k] else [])"
  by (cases "indexedBlockKeys w") (simp_all add: recordIndexedKey_def)

lemma recordIndexedKey_fields [simp, window_simps]:
  "recentN (recordIndexedKey b k w) = recentN w" "recentBlocks (recordIndexedKey b k w) = recentBlocks w"
  "skiplistIndex (recordIndexedKey b k w) = skiplistIndex w" "indexedBlocks (recordIndexedKey b k w) = indexedBlocks w"
  "indexedBlockKeys (recordIndexedKey b k w) \<noteq> None"
  by (simp_all add: recordIndexedKey_def Let_def)

lemma setSkiplistEntry_fields [simp, window_simps]:
  "recentN (setSkiplistEntry sl b k p w) = recentN w" "recentBlocks (setSkiplistEntry sl b k p w) = recentBlocks w"
  "indexedBlocks (setSkiplistEntry sl b k p w) = indexedBlocks w"
  "window_blocks (setSkiplistEntry sl b k p w) = window_blocks w"
  "indexedBlockKeys (setSkiplistEntry sl b k p w) \<noteq> None"
  by (simp_all add: setSkiplistEntry_def window_blocks_def)

lemma window_index_setSkiplistEntry:
  "skiplist_laws sl \<Longrightarrow> window_index sl (setSkiplistEntry sl b k p w) = (window_index sl w)(k \<mapsto> p)"
  by (simp add: window_index_def setSkiplistEntry_def skiplist_simps fun_eq_iff)

lemma buildKVPointer_BlockID [simp]: "kp_BlockID (buildKVPointerForSkiplist b off k v) = b"
  by (simp add: buildKVPointerForSkiplist_def Let_def)

lemma setSkiplistEntry_tracked:
  assumes "skiplist_laws sl" "keys_tracked sl w" "kp_BlockID p = b"
  shows "keys_tracked sl (setSkiplistEntry sl b k p w)"
  using assms unfolding keys_tracked_def window_index_setSkiplistEntry [OF assms(1)]
  by (simp add: setSkiplistEntry_def keys_of_recordIndexedKey)

lemma setSkiplistEntry_inv:
  assumes "skiplist_laws sl" "window_inv sl w" "kp_BlockID p = b" "b \<in> window_blocks w"
  shows "window_inv sl (setSkiplistEntry sl b k p w)"
  using assms setSkiplistEntry_tracked [OF assms(1) _ assms(3)]
  by (auto simp: window_inv_def window_index_setSkiplistEntry split: option.splits)

section \<open>Eviction\<close>

lemma evict_tracked_Get:
  assumes "skiplist_laws sl"
  shows "sl_Get sl (evict_tracked sl b ks s) k =
    (if k \<in> set ks then index_without b (sl_Get sl s) k else sl_Get sl s k)"
proof (induction ks arbitrary: s)
  case (Cons x ks)
  then show ?case
    by (cases "sl_Get sl s x") (auto simp: skiplist_simps assms index_without_def split: option.splits)
qed simp

lemma evict_scan_none:
  "\<forall>(k, p) \<in> set es. kp_BlockID p \<noteq> b \<Longrightarrow> evict_scan sl b es s = s"
  by (induction sl b es s rule: evict_scan.induct) auto

lemma index_without_id:
  "(\<And>k p. m k = Some p \<Longrightarrow> kp_BlockID p \<noteq> b) \<Longrightarrow> index_without b m = m"
  by (auto simp: index_without_def fun_eq_iff split: option.splits)

text \<open>
  With every key tracked, the fallback scan finds nothing to remove, whatever \<^verbatim>\<open>Next\<close> does
  after a removal, and the tracked keys are all the keys there are.
\<close>

lemma evictOldBlock_index:
  assumes laws: "skiplist_laws sl" and tr: "keys_tracked sl w"
  shows "window_index sl (evictOldBlockFromSkiplist sl b w) = index_without b (window_index sl w)"
proof (cases "keys_of (indexedBlockKeys w) b = []")
  case True
  have no: "kp_BlockID p \<noteq> b" if "window_index sl w k = Some p" for k p
    using tr that by (metis True emptyE keys_tracked_def list.set(1))
  have "kp_BlockID p \<noteq> b" if "(k, p) \<in> set (sl_Front sl (skiplistIndex w))" for k p
    using no [of k p] that by (simp add: skiplist_Front_iff [OF laws] window_index_def)
  then have "\<forall>(k, p) \<in> set (sl_Front sl (skiplistIndex w)). kp_BlockID p \<noteq> b" by blast
  with True have "window_index sl (evictOldBlockFromSkiplist sl b w) = window_index sl w"
    by (simp add: evictOldBlockFromSkiplist_def window_index_def evict_scan_none Let_def)
  moreover have "index_without b (window_index sl w) = window_index sl w"
    using no by (rule index_without_id)
  ultimately show ?thesis by simp
next
  case False
  show ?thesis
  proof
    fix k
    have "k \<in> set (keys_of (indexedBlockKeys w) b) \<or> index_without b (window_index sl w) k = window_index sl w k"
      using tr by (auto simp: keys_tracked_def index_without_def split: option.splits)
    with False show "window_index sl (evictOldBlockFromSkiplist sl b w) k = index_without b (window_index sl w) k"
      by (auto simp: evictOldBlockFromSkiplist_def window_index_def Let_def evict_tracked_Get [OF laws])
  qed
qed

lemma evictOldBlock_fields [simp, window_simps]:
  "recentN (evictOldBlockFromSkiplist sl b w) = recentN w"
  "recentBlocks (evictOldBlockFromSkiplist sl b w) = recentBlocks w"
  "indexedBlocks (evictOldBlockFromSkiplist sl b w) = indexedBlocks w"
  "window_blocks (evictOldBlockFromSkiplist sl b w) = window_blocks w"
  "indexedBlockKeys (evictOldBlockFromSkiplist sl b w) = map_option (\<lambda>f. f(b := None)) (indexedBlockKeys w)"
  by (simp_all add: evictOldBlockFromSkiplist_def Let_def window_blocks_def)

lemma index_without_Some: "index_without b m k = Some p \<longleftrightarrow> m k = Some p \<and> kp_BlockID p \<noteq> b"
  by (auto simp: index_without_def split: option.splits)

lemma evictOldBlock_tracked:
  assumes "skiplist_laws sl" "keys_tracked sl w"
  shows "keys_tracked sl (evictOldBlockFromSkiplist sl b w)"
  using assms(2) unfolding keys_tracked_def evictOldBlock_index [OF assms] index_without_Some
  by (cases "indexedBlockKeys w") auto

section \<open>Advancing the window\<close>

text \<open>The block that leaves the window when a block is added.\<close>

definition leaving :: "'s recentWindow \<Rightarrow> u64 \<Rightarrow> u64 option" where
  "leaving w b =
     (let rb = (case recentBlocks w of None \<Rightarrow> [] | Some bs \<Rightarrow> bs) @ [b] in
      if int (length rb) > recentN w then Some (hd rb) else None)"

definition drop_block :: "u64 option \<Rightarrow> (bytes \<Rightarrow> kvPointer option) \<Rightarrow> bytes \<Rightarrow> kvPointer option" where
  "drop_block x m = (case x of None \<Rightarrow> m | Some b \<Rightarrow> index_without b m)"

lemma updateRecentBlocks_spec:
  fixes b :: u64
  assumes laws: "skiplist_laws sl" and inv: "window_inv sl w" and rb: "recentBlocks w = Some rb"
  defines "w' \<equiv> updateRecentBlocks sl b w"
  shows "window_inv sl w'"
    and "window_index sl w' = drop_block (leaving w b) (window_index sl w)"
    and "window_blocks w' = insert b (window_blocks w) - set_option (leaving w b)"
    and "recentN w' = recentN w" and "\<exists>rb'. recentBlocks w' = Some rb' \<and> set rb' \<subseteq> insert b (set rb)"
proof -
  obtain S ks where S: "indexedBlocks w = Some S" and ks: "indexedBlockKeys w = Some ks"
    using inv rb by (auto simp: window_inv_def)
  define w1 where "w1 = w\<lparr>recentBlocks := Some (rb @ [b]), indexedBlocks := Some (insert b S), indexedBlockKeys := Some ks\<rparr>"
  define w2 where "w2 = w\<lparr>indexedBlockKeys := Some ks, recentBlocks := Some (tl (rb @ [b])),
    indexedBlocks := Some (insert b S - {hd (rb @ [b])})\<rparr>"
  have w': "w' = (if int (length (rb @ [b])) > recentN w then evictOldBlockFromSkiplist sl (hd (rb @ [b])) w2 else w1)"
    unfolding w'_def updateRecentBlocks_def w1_def w2_def by (simp add: rb S ks Let_def)
  have tr: "keys_tracked sl w" and len: "int (length rb) \<le> recentN w"
    and blocks: "\<And>k p. window_index sl w k = Some p \<Longrightarrow> kp_BlockID p \<in> S"
    using inv rb S by (auto simp: window_inv_def window_blocks_def)
  have tr2: "keys_tracked sl w2" and idx: "window_index sl w2 = window_index sl w" "window_index sl w1 = window_index sl w"
    and tr1: "keys_tracked sl w1"
    using tr ks by (simp_all add: keys_tracked_def w1_def w2_def window_index_def)
  note ev = evictOldBlock_index [OF laws tr2] evictOldBlock_tracked [OF laws tr2]
  show "window_index sl w' = drop_block (leaving w b) (window_index sl w)"
    by (simp add: w' drop_block_def leaving_def rb Let_def idx ev)
  show "window_blocks w' = insert b (window_blocks w) - set_option (leaving w b)"
    by (auto simp: w' leaving_def rb Let_def w1_def w2_def window_blocks_def S)
  have "set (tl (rb @ [b])) \<subseteq> insert b (set rb)" by (cases rb) auto
  then show "recentN w' = recentN w" "\<exists>rb'. recentBlocks w' = Some rb' \<and> set rb' \<subseteq> insert b (set rb)"
    by (auto simp: w' w1_def w2_def)
  show "window_inv sl w'"
  proof (cases "int (length (rb @ [b])) > recentN w")
    case True
    then have w'_ev: "w' = evictOldBlockFromSkiplist sl (hd (rb @ [b])) w2" by (simp only: w' if_True)
    have f: "recentN w2 = recentN w" "recentBlocks w2 = Some (tl (rb @ [b]))" "indexedBlockKeys w2 = Some ks"
      "indexedBlocks w2 = Some (insert b S - {hd (rb @ [b])})" "window_blocks w2 = insert b S - {hd (rb @ [b])}"
      by (simp_all add: w2_def window_blocks_def)
    have "window_index sl w' k = Some p \<Longrightarrow> kp_BlockID p \<in> window_blocks w'" for k p
      using blocks [of k p] by (simp add: w'_ev ev idx index_without_Some f)
    with ev len True inv show ?thesis
      unfolding window_inv_def by (simp add: w'_ev f)
  next
    case False
    then have w'_w1: "w' = w1" by (simp only: w' if_False)
    have f: "recentN w1 = recentN w" "recentBlocks w1 = Some (rb @ [b])" "indexedBlockKeys w1 = Some ks"
      "indexedBlocks w1 = Some (insert b S)" "window_blocks w1 = insert b S"
      by (simp_all add: w1_def window_blocks_def)
    have "window_index sl w' k = Some p \<Longrightarrow> kp_BlockID p \<in> window_blocks w'" for k p
      using blocks [of k p] by (simp add: w'_w1 idx f)
    with False tr1 inv show ?thesis
      unfolding window_inv_def by (simp add: w'_w1 f)
  qed
qed

lemma last_n_subset: "set (last_n n xs) \<subseteq> set xs"
  by (auto simp: last_n_def dest: in_set_dropD)

lemma last_n_length: "0 \<le> n \<Longrightarrow> int (length (last_n n xs)) \<le> n"
  by (simp add: last_n_def)

lemma ensureWriteTracking_spec:
  assumes laws: "skiplist_laws sl" and inv: "window_inv sl w"
  defines "w' \<equiv> ensureWriteTrackingInitialized sl w"
  shows "window_inv sl w'" and "window_index sl w' = window_index sl w"
    and "window_blocks w' = window_blocks w" and "recentN w' = recentN w" and "\<exists>rb. recentBlocks w' = Some rb"
proof -
  show idx: "window_index sl w' = window_index sl w" and "recentN w' = recentN w"
    by (simp_all add: w'_def ensureWriteTrackingInitialized_def window_index_def Let_def)
  show blk: "window_blocks w' = window_blocks w" and rb: "\<exists>rb. recentBlocks w' = Some rb"
    using inv by (auto simp: w'_def ensureWriteTrackingInitialized_def window_blocks_def Let_def window_inv_def)
  show "window_inv sl w'"
  proof (cases "recentBlocks w \<noteq> None \<and> indexedBlockKeys w \<noteq> None")
    case True
    with inv show ?thesis by (simp add: w'_def ensureWriteTrackingInitialized_def)
  next
    case False
    let ?es = "sl_Front sl (skiplistIndex w)"
    from False have ks: "indexedBlockKeys w' = Some (blockKeys_of ?es)"
      by (auto simp: w'_def ensureWriteTrackingInitialized_def Let_def)
    have "k \<in> set (keys_of (Some (blockKeys_of ?es)) (kp_BlockID p))" if "window_index sl w k = Some p" for k p
      using that skiplist_Front_iff [OF laws, of k p "skiplistIndex w"]
      by (force simp: keys_of_def blockKeys_of_def Let_def window_index_def filter_empty_conv)
    then have "keys_tracked sl w'" by (simp add: keys_tracked_def idx ks)
    moreover from False obtain xs where "recentBlocks w' = Some (last_n (recentN w) xs)"
      by (auto simp: w'_def ensureWriteTrackingInitialized_def Let_def)
    ultimately show ?thesis
      using inv idx blk \<open>recentN w' = recentN w\<close> ks last_n_length [of "recentN w" xs]
      by (auto simp: window_inv_def w'_def ensureWriteTrackingInitialized_def Let_def)
  qed
qed

lemma ensureWriteTracking_recent:
  assumes laws: "skiplist_laws sl" and rb: "recentBlocks (ensureWriteTrackingInitialized sl w) = Some rb"
  shows "recentBlocks w = Some rb \<or> (\<forall>b \<in> set rb. \<exists>k p. window_index sl w k = Some p \<and> kp_BlockID p = b)"
proof (cases "recentBlocks w \<noteq> None \<and> indexedBlockKeys w \<noteq> None")
  case True
  with rb show ?thesis by (simp add: ensureWriteTrackingInitialized_def)
next
  case False
  let ?es = "sl_Front sl (skiplistIndex w)"
  have "rb = last_n (recentN w) (sort (remdups (map (\<lambda>e. kp_BlockID (snd e)) ?es)))"
    using False rb by (auto simp: ensureWriteTrackingInitialized_def Let_def split: if_splits)
  then have "set rb \<subseteq> (\<lambda>e. kp_BlockID (snd e)) ` set ?es"
    using last_n_subset [of "recentN w" "sort (remdups (map (\<lambda>e. kp_BlockID (snd e)) ?es))"] by simp
  then show ?thesis
    using skiplist_Front_iff [OF laws] by (force simp: window_index_def)
qed

section \<open>Indexing a block\<close>

lemma index_entries_fields [simp, window_simps]:
  "recentN (index_entries sl pos es w) = recentN w" "recentBlocks (index_entries sl pos es w) = recentBlocks w"
  "indexedBlocks (index_entries sl pos es w) = indexedBlocks w"
  "window_blocks (index_entries sl pos es w) = window_blocks w"
  by (induction es arbitrary: pos w) simp_all

lemma index_entries_inv:
  assumes "skiplist_laws sl"
  shows "window_inv sl w \<Longrightarrow> \<forall>e \<in> set es. le_BlockID e \<in> window_blocks w \<Longrightarrow>
    window_inv sl (index_entries sl pos es w)"
proof (induction es arbitrary: pos w)
  case (Cons e es)
  then have "window_inv sl (setSkiplistEntry sl (le_BlockID e) (le_Key e)
      (buildKVPointerForSkiplist (le_BlockID e) pos (le_Key e) (le_Value e)) w)"
    using setSkiplistEntry_inv [OF assms] by simp
  with Cons show ?case by simp
qed simp

end
