(* ===== verification/Block_Index.thy ===== *)
theory Block_Index
  imports Block_Codec
begin

text \<open>
  The block index of the append-only log, \<^verbatim>\<open>THEO/datablockStore.go\<close>: the index map file with
  one fixed-size slot per block counted from the smallest block number, the buffer of index
  entries not yet written, the metadata file, and the lookups that consult the bootstrap map,
  the buffer and the file in this order.
\<close>

named_theorems index_simps \<open>fields the index operations leave alone\<close>

section \<open>Errors and faults\<close>

datatype baol_error =
    ErrClosed
  | ErrLogClosed
  | ErrIndexWrite io_error
  | ErrIndexRead io_error
  | ErrMetaOpen
  | ErrMetaWrite
  | ErrDataWrite io_error
  | ErrDataFlush io_error
  | ErrDataRead io_error
  | ErrDecode log_error
  | ErrNonMonotonic u64 u64
  | ErrRequestedFutureBlock u64 u64
  | ErrTargetBlockNotFound u64
  | ErrInconsistentIndex u64
  | ErrPointer int

text \<open>
  The file system may refuse a write after some of its bytes: each operation runs in an
  environment that says which writes fail, and after how many bytes. Reads of existing bytes
  do not fail.
\<close>

record io_env =
  dataWriteFault :: "bytes \<Rightarrow> bytes \<Rightarrow> nat option"
  indexWriteFault :: "bytes \<Rightarrow> int \<Rightarrow> bytes \<Rightarrow> nat option"
  metaOpenFault :: bool
  metaWriteFault :: "nat option"

definition no_faults :: io_env where
  "no_faults = \<lparr>dataWriteFault = (\<lambda>_ _. None), indexWriteFault = (\<lambda>_ _ _. None),
     metaOpenFault = False, metaWriteFault = None\<rparr>"

section \<open>State and operations\<close>

record blockIndexState =
  indexMapFile :: bytes
  indexMapOpen :: bool
  indexMetaFile :: "bytes option"
  blockIndex :: "(u64 \<times> blockIndexEntry) list option"
  minBlockID :: u64
  latestBlockID :: u64
  indexBuffer :: "blockIndexEntry list"
  indexBufferSize :: int
  indexBufferFlush :: bool

definition bufferIndexEntry :: "blockIndexEntry \<Rightarrow> blockIndexState \<Rightarrow> blockIndexState" where
  "bufferIndexEntry entry s =
     (let buf = indexBuffer s @ [entry] in
      s\<lparr>indexBuffer := buf,
        indexBufferFlush := (if int (length buf) \<ge> indexBufferSize s then True else indexBufferFlush s)\<rparr>)"

text \<open>
  Every caller of \<^verbatim>\<open>writeIndexEntry\<close> passes \<^verbatim>\<open>baol.indexMapFile\<close> as the writer, open or nil,
  and for that writer the entry is buffered.
\<close>

definition writeIndexEntry :: "blockIndexEntry \<Rightarrow> blockIndexState \<Rightarrow> blockIndexState" where
  "writeIndexEntry entry s = bufferIndexEntry entry s"

definition restoreIndexBuffer :: "blockIndexEntry list \<Rightarrow> blockIndexState \<Rightarrow> blockIndexState" where
  "restoreIndexBuffer entries s = (if entries = [] then s else s\<lparr>indexBuffer := entries @ indexBuffer s\<rparr>)"

definition index_pos :: "u64 \<Rightarrow> u64 \<Rightarrow> int" where
  "index_pos minID b = i64 (int64_of_uint64 (b - minID) * int indexEntrySize)"

definition index_writeAt :: "io_env \<Rightarrow> bytes \<Rightarrow> int \<Rightarrow> bytes \<Rightarrow> io_error option \<times> bytes" where
  "index_writeAt env f pos buf =
     (case indexWriteFault env f pos buf of
        None \<Rightarrow> (case writeAt f pos buf of Inl e \<Rightarrow> (Some e, f) | Inr f' \<Rightarrow> (None, f'))
      | Some n \<Rightarrow> (Some IOFault,
          if n = 0 then f else case writeAt f pos (take n buf) of Inl e \<Rightarrow> f | Inr f' \<Rightarrow> f'))"

primrec flush_entries :: "io_env \<Rightarrow> u64 \<Rightarrow> blockIndexEntry list \<Rightarrow> bytes \<Rightarrow> io_error option \<times> bytes" where
  "flush_entries env minID [] f = (None, f)"
| "flush_entries env minID (entry # entries) f =
     (if BlockID entry < minID then flush_entries env minID entries f
      else case index_writeAt env f (index_pos minID (BlockID entry)) (encodeIndexEntry entry) of
          (Some e, f') \<Rightarrow> (Some e, f')
        | (None, f') \<Rightarrow> flush_entries env minID entries f')"

definition flushIndexBufferWithBlockID ::
  "io_env \<Rightarrow> u64 \<Rightarrow> blockIndexState \<Rightarrow> baol_error option \<times> blockIndexState" where
  "flushIndexBufferWithBlockID env minID s =
     (if indexBuffer s = [] then (None, s)
      else let entries = indexBuffer s; s1 = s\<lparr>indexBuffer := []\<rparr> in
        if \<not> indexMapOpen s1 then (Some ErrClosed, restoreIndexBuffer entries s1)
        else case flush_entries env minID entries (indexMapFile s1) of
            (None, f) \<Rightarrow> (None, s1\<lparr>indexMapFile := f\<rparr>)
          | (Some e, f) \<Rightarrow> (Some (ErrIndexWrite e), restoreIndexBuffer entries (s1\<lparr>indexMapFile := f\<rparr>)))"

definition flushIndexBuffer :: "io_env \<Rightarrow> blockIndexState \<Rightarrow> baol_error option \<times> blockIndexState" where
  "flushIndexBuffer env s = flushIndexBufferWithBlockID env (minBlockID s) s"

definition findBlockIndexEntryOnDisk ::
  "blockIndexState \<Rightarrow> u64 \<Rightarrow> baol_error + blockIndexEntry option" where
  "findBlockIndexEntryOnDisk s blockID =
     (if blockID < minBlockID s then Inr None
      else if \<not> indexMapOpen s then Inl ErrClosed
      else case readAt (indexMapFile s) (index_pos (minBlockID s) blockID) indexEntrySize of
          Inl e \<Rightarrow> if e = EOF \<or> e = UnexpectedEOF then Inr None else Inl (ErrIndexRead e)
        | Inr buf \<Rightarrow>
            (let entry = decodeIndexEntry buf in
             if BlockID entry \<noteq> blockID then Inr None
             else if BlockID entry = 0 \<and> StartOffset entry = 0 \<and> EndOffset entry = 0 then Inr None
             else if EndOffset entry < StartOffset entry then Inr None
             else Inr (Some entry)))"

definition buffered_entry :: "blockIndexState \<Rightarrow> u64 \<Rightarrow> blockIndexEntry option" where
  "buffered_entry s blockID = find (\<lambda>e. BlockID e = blockID) (indexBuffer s)"

definition getBlockIndexEntryWithSource ::
  "blockIndexState \<Rightarrow> u64 \<Rightarrow> baol_error + (blockIndexEntry \<times> bool) option" where
  "getBlockIndexEntryWithSource s blockID =
     (case (case blockIndex s of None \<Rightarrow> None | Some m \<Rightarrow> map_of m blockID) of
        Some entry \<Rightarrow> Inr (Some (entry, True))
      | None \<Rightarrow>
          (case buffered_entry s blockID of
             Some entry \<Rightarrow> Inr (Some (entry, True))
           | None \<Rightarrow>
               (case findBlockIndexEntryOnDisk s blockID of
                  Inl e \<Rightarrow> Inl e
                | Inr None \<Rightarrow> Inr None
                | Inr (Some entry) \<Rightarrow> Inr (Some (entry, False)))))"

definition getBlockIndexEntry :: "blockIndexState \<Rightarrow> u64 \<Rightarrow> blockIndexEntry option" where
  "getBlockIndexEntry s blockID =
     (case getBlockIndexEntryWithSource s blockID of
        Inl e \<Rightarrow> None | Inr None \<Rightarrow> None | Inr (Some (entry, src)) \<Rightarrow> Some entry)"

definition saveIndexMeta :: "io_env \<Rightarrow> blockIndexState \<Rightarrow> baol_error option \<times> blockIndexState" where
  "saveIndexMeta env s =
     (if metaOpenFault env then (Some ErrMetaOpen, s)
      else let buf = encodeIndexMeta (minBlockID s) (latestBlockID s) in
        case metaWriteFault env of
          Some n \<Rightarrow> (Some ErrMetaWrite, s\<lparr>indexMetaFile := Some (take n buf)\<rparr>)
        | None \<Rightarrow> (None, s\<lparr>indexMetaFile := Some buf\<rparr>))"

definition loadIndexMeta :: "blockIndexState \<Rightarrow> blockIndexState" where
  "loadIndexMeta s =
     (case indexMetaFile s of
        None \<Rightarrow> s\<lparr>minBlockID := 0\<rparr>
      | Some f \<Rightarrow>
          (case ReadFull f indexMetaSize of
             Inl e \<Rightarrow> s\<lparr>minBlockID := 0\<rparr>
           | Inr (buf, r) \<Rightarrow> s\<lparr>minBlockID := Uint64 (take 8 buf)\<rparr>))"

text \<open>
  The loop of \<^verbatim>\<open>loadBlockIndex\<close> over the complete records of the index file: the map built so
  far, the largest and the smallest block number seen.
\<close>

primrec load_entries ::
  "bool \<Rightarrow> u64 \<Rightarrow> u64 \<Rightarrow> blockIndexEntry list \<Rightarrow> (u64 \<times> blockIndexEntry) list \<times> u64 \<times> u64 \<Rightarrow>
   (u64 \<times> blockIndexEntry) list \<times> u64 \<times> u64" where
  "load_entries verifyCompactSlots minID slotIndex [] acc = acc"
| "load_entries verifyCompactSlots minID slotIndex (entry # entries) acc =
     load_entries verifyCompactSlots minID (slotIndex + 1) entries
       (if EndOffset entry < StartOffset entry then acc
        else if BlockID entry = 0 \<and> StartOffset entry = 0 \<and> EndOffset entry = 0 then acc
        else if verifyCompactSlots \<and> BlockID entry \<noteq> minID + slotIndex then acc
        else case acc of (idx, latestBlock, inferredMin) \<Rightarrow>
          (AList.update (BlockID entry) entry idx,
           if BlockID entry > latestBlock then BlockID entry else latestBlock,
           if inferredMin = 0 \<or> BlockID entry < inferredMin then BlockID entry else inferredMin))"

definition loadBlockIndex :: "blockIndexState \<Rightarrow> blockIndexState" where
  "loadBlockIndex s =
     (let entries = snd (decode_all readIndexRecord (indexMapFile s));
          idx0 = (case blockIndex s of None \<Rightarrow> [] | Some m \<Rightarrow> m) in
      case load_entries (minBlockID s \<noteq> 0) (minBlockID s) 0 entries (idx0, 0, 0) of
        (idx, latestBlock, inferredMin) \<Rightarrow>
          s\<lparr>blockIndex := Some idx, latestBlockID := latestBlock,
            minBlockID := (if minBlockID s = 0 \<and> inferredMin > 0 then inferredMin else minBlockID s)\<rparr>)"

section \<open>The index as a list of consecutive entries\<close>

text \<open>
  The blocks of a log are numbered consecutively from its smallest block number, which is
  not zero; \<open>slots m es\<close> says that \<open>es\<close> are the entries of the blocks from \<open>m\<close> on, within the
  ranges in which neither a block number nor a file position wraps.
\<close>

definition slots :: "u64 \<Rightarrow> blockIndexEntry list \<Rightarrow> bool" where
  "slots m es \<longleftrightarrow> m \<noteq> 0 \<and> unat m + length es \<le> 2 ^ 64 - 1 \<and> 24 * int (length es) < 2 ^ 63 \<and>
     (\<forall>i < length es. BlockID (es ! i) = m + word_of_nat i \<and> offset_fits (es ! i) \<and>
        StartOffset (es ! i) \<le> EndOffset (es ! i))"

definition slot_of :: "u64 \<Rightarrow> u64 \<Rightarrow> nat" where
  "slot_of m b = unat b - unat m"

definition index_bytes :: "blockIndexEntry list \<Rightarrow> bytes" where
  "index_bytes es = concat (map encodeIndexEntry es)"

definition put_slot :: "u64 \<Rightarrow> blockIndexEntry list \<Rightarrow> blockIndexEntry \<Rightarrow> blockIndexEntry list" where
  "put_slot m es e =
     (let i = slot_of m (BlockID e) in if i < length es then es[i := e] else es @ [e])"

lemma length_index_bytes [simp]: "length (index_bytes es) = 24 * length es"
  by (induction es) (simp_all add: index_bytes_def)

lemma index_bytes_append [simp]: "index_bytes (xs @ ys) = index_bytes xs @ index_bytes ys"
  by (simp add: index_bytes_def)

lemma index_bytes_Cons [simp]: "index_bytes (x # ys) = encodeIndexEntry x @ index_bytes ys"
  by (simp add: index_bytes_def)

lemma index_bytes_Nil [simp]: "index_bytes [] = []"
  by (simp add: index_bytes_def)

lemma slot_of_add: "unat m + i < 2 ^ 64 \<Longrightarrow> slot_of m (m + word_of_nat i) = i"
  by (simp add: slot_of_def unat_word_ariths unat_of_nat)

lemma word_from_slot: "m \<le> b \<Longrightarrow> m + word_of_nat (slot_of m b) = b"
  by (simp add: slot_of_def word_le_nat_alt of_nat_diff)

lemma index_pos_slot:
  assumes "m \<le> b" "24 * int (slot_of m b) < 2 ^ 63"
  shows "index_pos m b = int (24 * slot_of m b)"
proof -
  have "b - m = word_of_int (int (slot_of m b))"
    using word_from_slot [OF assms(1)] by (metis add_diff_cancel_left' of_int_of_nat_eq)
  then have "int64_of_uint64 (b - m) = int (slot_of m b)"
    using assms(2) i64_id [of "int (slot_of m b)"] by (simp add: int64_of_uint64_def i64_def)
  with assms(2) show ?thesis by (simp add: index_pos_def indexEntrySize_def i64_id)
qed

lemma slots_nth:
  assumes "slots m es" "i < length es"
  shows "BlockID (es ! i) = m + word_of_nat i" "offset_fits (es ! i)" "StartOffset (es ! i) \<le> EndOffset (es ! i)"
    "BlockID (es ! i) \<noteq> 0" "slot_of m (BlockID (es ! i)) = i" "m \<le> BlockID (es ! i)"
proof -
  show id: "BlockID (es ! i) = m + word_of_nat i" and "offset_fits (es ! i)" "StartOffset (es ! i) \<le> EndOffset (es ! i)"
    using assms by (simp_all add: slots_def)
  have lt: "unat m + i < 2 ^ 64" using assms by (simp add: slots_def)
  then have u: "unat (m + word_of_nat i) = unat m + i" by (simp add: unat_word_ariths unat_of_nat)
  moreover have "unat m \<noteq> 0" using assms(1) by (simp add: slots_def unat_eq_0)
  ultimately show "BlockID (es ! i) \<noteq> 0" by (metis add_is_0 id unat_0)
  show "slot_of m (BlockID (es ! i)) = i" using id slot_of_add [OF lt] by simp
  show "m \<le> BlockID (es ! i)" using u by (simp add: id word_le_nat_alt)
qed

lemma index_bytes_split:
  "i < length es \<Longrightarrow> index_bytes es = index_bytes (take i es) @ encodeIndexEntry (es ! i) @ index_bytes (drop (Suc i) es)"
  by (metis id_take_nth_drop index_bytes_Cons index_bytes_append)

lemma readAt_slot:
  "i < length es \<Longrightarrow> readAt (index_bytes es) (int (24 * i)) 24 = Inr (encodeIndexEntry (es ! i))"
  by (rule readAt_mid [OF index_bytes_split]) simp_all

lemma readAt_past_slots: "length es \<le> i \<Longrightarrow> readAt (index_bytes es) (int (24 * i)) 24 = Inl EOF"
  by (simp add: readAt_def)

definition index_at :: "u64 \<Rightarrow> blockIndexEntry list \<Rightarrow> blockIndexState \<Rightarrow> bool" where
  "index_at m es s \<longleftrightarrow> slots m es \<and> minBlockID s = m \<and> indexMapOpen s \<and> indexMapFile s = index_bytes es"

text \<open>The lookup table that the entries \<open>es\<close> of the blocks from \<open>m\<close> on represent.\<close>

definition slot_lookup :: "u64 \<Rightarrow> blockIndexEntry list \<Rightarrow> u64 \<Rightarrow> blockIndexEntry option" where
  "slot_lookup m es b = (if m \<le> b \<and> slot_of m b < length es then Some (es ! slot_of m b) else None)"

lemma findBlockIndexEntryOnDisk_slots:
  assumes "index_at m es s" "24 * int (slot_of m b) < 2 ^ 63"
  shows "findBlockIndexEntryOnDisk s b = Inr (slot_lookup m es b)"
proof (cases "m \<le> b")
  case True
  note pos = index_pos_slot [OF True assms(2)]
  note defs = findBlockIndexEntryOnDisk_def slot_lookup_def indexEntrySize_def
  from assms(1) have s: "slots m es" "minBlockID s = m" "indexMapOpen s" "indexMapFile s = index_bytes es"
    by (simp_all add: index_at_def)
  show ?thesis
  proof (cases "slot_of m b < length es")
    case lt: True
    note nth = slots_nth [OF s(1) lt]
    have "BlockID (es ! slot_of m b) = b" using nth(1) word_from_slot [OF True] by simp
    moreover have "decodeIndexEntry (encodeIndexEntry (es ! slot_of m b)) = es ! slot_of m b"
      using nth(2) by (rule decode_encodeIndexEntry)
    ultimately show ?thesis
      using True lt s pos readAt_slot [OF lt] nth(3,4) by (simp add: defs Let_def)
  next
    case False
    then have "readAt (index_bytes es) (int (24 * slot_of m b)) 24 = Inl EOF"
      by (intro readAt_past_slots) simp
    with False True s pos show ?thesis by (simp add: defs)
  qed
next
  case False
  with assms(1) show ?thesis
    by (simp add: findBlockIndexEntryOnDisk_def slot_lookup_def index_at_def not_le)
qed

lemma getBlockIndexEntry_slots:
  assumes "index_at m es s" "24 * int (slot_of m b) < 2 ^ 63" "blockIndex s = None" "indexBuffer s = []"
  shows "getBlockIndexEntry s b = slot_lookup m es b"
    and "getBlockIndexEntryWithSource s b = Inr (map_option (\<lambda>e. (e, False)) (slot_lookup m es b))"
  using findBlockIndexEntryOnDisk_slots [OF assms(1,2)] assms(3,4)
  by (simp_all add: getBlockIndexEntry_def getBlockIndexEntryWithSource_def buffered_entry_def split: option.splits)

section \<open>Flushing\<close>

text \<open>Entries that fill slots already there or the next one.\<close>

fun puts_ok :: "u64 \<Rightarrow> nat \<Rightarrow> blockIndexEntry list \<Rightarrow> bool" where
  "puts_ok m n [] \<longleftrightarrow> True"
| "puts_ok m n (e # es) \<longleftrightarrow>
     m \<le> BlockID e \<and> slot_of m (BlockID e) \<le> n \<and> 24 * int n < 2 ^ 63 \<and>
     puts_ok m (if slot_of m (BlockID e) < n then n else Suc n) es"

lemma index_writeAt_slot:
  assumes "indexWriteFault env = (\<lambda>_ _ _. None)" "m \<le> BlockID e" "slot_of m (BlockID e) \<le> length es"
    "24 * int (length es) < 2 ^ 63"
  shows "index_writeAt env (index_bytes es) (index_pos m (BlockID e)) (encodeIndexEntry e) =
    (None, index_bytes (put_slot m es e))"
proof -
  let ?i = "slot_of m (BlockID e)"
  have pos: "index_pos m (BlockID e) = int (24 * ?i)" using assms by (intro index_pos_slot) auto
  show ?thesis
  proof (cases "?i < length es")
    case True
    then have upd: "index_bytes (es[?i := e]) = index_bytes (take ?i es) @ encodeIndexEntry e @ index_bytes (drop (Suc ?i) es)"
      by (simp add: upd_conv_take_nth_drop)
    have "writeAt (index_bytes es) (int (24 * ?i)) (encodeIndexEntry e) = Inr (index_bytes (es[?i := e]))"
      unfolding upd by (rule writeAt_mid [OF index_bytes_split [OF True]]) (use True in simp_all)
    with True pos assms(1) show ?thesis by (simp add: index_writeAt_def put_slot_def)
  next
    case False
    with assms(3) have "?i = length es" by simp
    then have "writeAt (index_bytes es) (int (24 * ?i)) (encodeIndexEntry e) = Inr (index_bytes (es @ [e]))"
      using writeAt_end [of "index_bytes es"] by simp
    with False pos assms(1) show ?thesis by (simp add: index_writeAt_def put_slot_def)
  qed
qed

lemma length_put_slot: "length (put_slot m es e) = (if slot_of m (BlockID e) < length es then length es else Suc (length es))"
  by (simp add: put_slot_def Let_def)

lemma flush_entries_puts:
  assumes "indexWriteFault env = (\<lambda>_ _ _. None)"
  shows "puts_ok m (length es) ns \<Longrightarrow>
    flush_entries env m ns (index_bytes es) = (None, index_bytes (foldl (put_slot m) es ns))"
proof (induction ns arbitrary: es)
  case (Cons e ns)
  then have "index_writeAt env (index_bytes es) (index_pos m (BlockID e)) (encodeIndexEntry e) =
      (None, index_bytes (put_slot m es e))"
    using assms by (intro index_writeAt_slot) simp_all
  moreover have "puts_ok m (length (put_slot m es e)) ns"
    using Cons.prems by (simp only: length_put_slot puts_ok.simps)
  ultimately show ?case using Cons by (simp add: word_le_nat_alt word_less_nat_alt)
qed simp

lemma flushIndexBuffer_puts:
  assumes "indexWriteFault env = (\<lambda>_ _ _. None)" "indexMapOpen s" "indexMapFile s = index_bytes es"
    "puts_ok m (length es) (indexBuffer s)"
  shows "flushIndexBufferWithBlockID env m s =
    (None, s\<lparr>indexBuffer := [], indexMapFile := index_bytes (foldl (put_slot m) es (indexBuffer s))\<rparr>)"
proof (cases "indexBuffer s = []")
  case True
  then have "s\<lparr>indexBuffer := [], indexMapFile := index_bytes es\<rparr> = s" using assms(3) by simp
  with True show ?thesis by (simp add: flushIndexBufferWithBlockID_def)
next
  case False
  with assms(2,3) flush_entries_puts [OF assms(1,4)] show ?thesis
    by (simp add: flushIndexBufferWithBlockID_def)
qed

text \<open>
  Whatever a flush runs into, the entries it could not write stay in the buffer: a block with
  a buffered entry is found before the flush and after a failed one.
\<close>

lemma flush_failure_restores:
  assumes "flushIndexBufferWithBlockID env m s = (Some e, s')"
  shows "indexBuffer s' = indexBuffer s \<and> blockIndex s' = blockIndex s \<and> minBlockID s' = minBlockID s \<and>
    latestBlockID s' = latestBlockID s"
  using assms
  by (auto simp: flushIndexBufferWithBlockID_def restoreIndexBuffer_def Let_def split: if_splits prod.splits option.splits)

section \<open>Loading\<close>

lemma AList_update_new: "k \<notin> fst ` set al \<Longrightarrow> AList.update k v al = al @ [(k, v)]"
  by (induction al) auto

definition entry_map :: "blockIndexEntry list \<Rightarrow> (u64 \<times> blockIndexEntry) list" where
  "entry_map es = map (\<lambda>e. (BlockID e, e)) es"

lemma load_entries_slots:
  assumes "v \<longrightarrow> m0 = m" "m \<noteq> 0" "unat m + k + length es \<le> 2 ^ 64 - 1"
    "\<forall>i < length es. BlockID (es ! i) = m + word_of_nat (k + i) \<and> StartOffset (es ! i) \<le> EndOffset (es ! i)"
    "\<forall>x \<in> fst ` set idx. unat x < unat m + k" "unat l < unat m + k" "im = 0 \<or> unat im < unat m + k"
  shows "load_entries v m0 (word_of_nat k) es (idx, l, im) =
    (idx @ entry_map es, if es = [] then l else BlockID (last es),
     if im = 0 \<and> es \<noteq> [] then BlockID (hd es) else im)"
  using assms
proof (induction es arbitrary: k idx l im)
  case (Cons e es)
  from Cons.prems(4) have e: "BlockID e = m + word_of_nat k" "StartOffset e \<le> EndOffset e" by force+
  have u: "unat (BlockID e) = unat m + k"
    using Cons.prems(3) e(1) by (simp add: unat_word_ariths unat_of_nat)
  then have ne0: "BlockID e \<noteq> 0" using Cons.prems(2) by (metis add_is_0 unat_0 unat_eq_0)
  have new: "BlockID e \<notin> fst ` set idx" using Cons.prems(5) u by force
  have gt: "l < BlockID e" using Cons.prems(6) u by (simp add: word_less_nat_alt)
  have im: "im = 0 \<or> \<not> BlockID e < im" using Cons.prems(7) u by (auto simp: word_less_nat_alt)
  have rest: "\<forall>i < length es. BlockID (es ! i) = m + word_of_nat (Suc k + i) \<and> StartOffset (es ! i) \<le> EndOffset (es ! i)"
    using Cons.prems(4) by (metis Suc_less_eq add_Suc add_Suc_right length_Cons nth_Cons_Suc)
  let ?im = "if im = 0 then BlockID e else im"
  have "load_entries v m0 (word_of_nat (Suc k)) es (AList.update (BlockID e) e idx, BlockID e, ?im) =
      ((idx @ [(BlockID e, e)]) @ entry_map es, if es = [] then BlockID e else BlockID (last es), ?im)"
  proof (subst AList_update_new [OF new], subst Cons.IH [OF Cons.prems(1,2) _ rest])
    show "\<forall>x \<in> fst ` set (idx @ [(BlockID e, e)]). unat x < unat m + Suc k" using Cons.prems(5) u by force
    show "?im = 0 \<or> unat ?im < unat m + Suc k" using Cons.prems(7) u by auto
  qed (use Cons.prems(3) u ne0 in auto)
  moreover have "load_entries v m0 (word_of_nat k) (e # es) (idx, l, im) =
      load_entries v m0 (word_of_nat (Suc k)) es (AList.update (BlockID e) e idx, BlockID e, ?im)"
    using e ne0 gt im Cons.prems(1) by (auto simp: add.commute)
  ultimately show ?case by (simp add: entry_map_def)
qed (simp add: entry_map_def)

lemma decode_index_bytes: "slots m es \<Longrightarrow> decode_all readIndexRecord (index_bytes es) = (None, es)"
  unfolding index_bytes_def
  by (rule index_codec.decode_all_concat) (auto simp: slots_def in_set_conv_nth)

text \<open>
  Loading rebuilds the whole map from the index file, with the smallest block number from the
  metadata or, when the metadata was lost, from the records themselves.
\<close>

lemma loadBlockIndex_slots:
  assumes "slots m es" "es \<noteq> []" "indexMapFile s = index_bytes es" "blockIndex s = Some []"
    "minBlockID s = 0 \<or> minBlockID s = m"
  shows "loadBlockIndex s =
    s\<lparr>blockIndex := Some (entry_map es), latestBlockID := BlockID (last es), minBlockID := m\<rparr>"
proof -
  have hd: "BlockID (hd es) = m" using slots_nth(1) [OF assms(1), of 0] assms(2) by (simp add: hd_conv_nth)
  have m: "m \<noteq> 0" "unat m > 0" using assms(1) by (simp_all add: slots_def unat_gt_0)
  have "load_entries (minBlockID s \<noteq> 0) (minBlockID s) (word_of_nat 0) es ([], 0, 0) =
      ([] @ entry_map es, if es = [] then 0 else BlockID (last es), if (0::u64) = 0 \<and> es \<noteq> [] then BlockID (hd es) else 0)"
    by (rule load_entries_slots [where m = m]) (use assms m in \<open>auto simp: slots_def\<close>)
  with assms(2-5) m decode_index_bytes [OF assms(1)] hd show ?thesis
    by (auto simp: loadBlockIndex_def Let_def word_gt_0)
qed

lemma loadBlockIndex_empty:
  assumes "indexMapFile s = []" "blockIndex s = Some []"
  shows "loadBlockIndex s = s\<lparr>latestBlockID := 0\<rparr>"
  using assms by (simp add: loadBlockIndex_def decode_all_def)

lemma loadIndexMeta_saved:
  "indexMetaFile s = Some (encodeIndexMeta m l) \<Longrightarrow> loadIndexMeta s = s\<lparr>minBlockID := m\<rparr>"
  by (simp add: loadIndexMeta_def encodeIndexMeta_def indexMetaSize_def ReadFull_def)

lemma last_slot: "slots m es \<Longrightarrow> es \<noteq> [] \<Longrightarrow> BlockID (last es) = m + word_of_nat (length es - 1)"
  using slots_nth(1) [of m es "length es - 1"] by (simp add: last_conv_nth)

lemma slots_appendI:
  assumes "slots m es" "BlockID e = m + word_of_nat (length es)" "offset_fits e" "StartOffset e \<le> EndOffset e"
    "unat m + length es < 2 ^ 64 - 1" "24 * int (Suc (length es)) < 2 ^ 63"
  shows "slots m (es @ [e])"
  using assms by (auto simp: slots_def nth_append less_Suc_eq)

lemma slots_updateI:
  assumes "slots m es" "i < length es" "BlockID e = BlockID (es ! i)" "offset_fits e" "StartOffset e \<le> EndOffset e"
  shows "slots m (es[i := e])"
  using assms by (auto simp: slots_def nth_list_update)

end
