(* ===== verification/Block_Log.thy ===== *)
theory Block_Log
  imports Block_Window Block_Index
begin

text \<open>
  The append-only block log, \<^verbatim>\<open>THEO/datablockStore.go\<close>: opening and closing, appends, commit
  markers, deletions and reads, over the data file behind a \<^verbatim>\<open>bufio.Writer\<close>, the block index
  (\<^verbatim>\<open>Block_Index\<close>) and the window of recent blocks (\<^verbatim>\<open>Block_Window\<close>). Each operation that
  writes runs in an environment of write faults and returns its error, if any, with the state
  it leaves behind.
\<close>

section \<open>State\<close>

record 's BlockAppendOnlyLog =
  dataFile :: bytes
  dataBuf :: bytes
  dataErr :: "io_error option"
  currentOffset :: int
  idx :: blockIndexState
  win :: "'s recentWindow"
  closed :: bool

type_synonym 's baol_result = "baol_error option \<times> 's BlockAppendOnlyLog"

definition initialBufferSize :: nat where "initialBufferSize = 4096"

section \<open>The buffered data writer\<close>

text \<open>
  \<^verbatim>\<open>bufio.Writer\<close>: a write that does not fit goes to the file, after what is buffered; an
  error is kept and returned by every later call.
\<close>

definition file_append :: "io_env \<Rightarrow> bytes \<Rightarrow> bytes \<Rightarrow> io_error option \<times> nat \<times> bytes" where
  "file_append env f p =
     (case dataWriteFault env f p of
        None \<Rightarrow> (None, length p, f @ p)
      | Some n \<Rightarrow> (Some IOFault, min n (length p), f @ take n p))"

definition dataWriter_Flush :: "io_env \<Rightarrow> 's BlockAppendOnlyLog \<Rightarrow> io_error option \<times> 's BlockAppendOnlyLog" where
  "dataWriter_Flush env s =
     (case dataErr s of
        Some e \<Rightarrow> (Some e, s)
      | None \<Rightarrow>
          if dataBuf s = [] then (None, s)
          else case file_append env (dataFile s) (dataBuf s) of
              (None, n, f) \<Rightarrow> (None, s\<lparr>dataFile := f, dataBuf := []\<rparr>)
            | (Some e, n, f) \<Rightarrow> (Some e, s\<lparr>dataFile := f, dataBuf := drop n (dataBuf s), dataErr := Some e\<rparr>))"

definition dataWriter_Write ::
  "io_env \<Rightarrow> bytes \<Rightarrow> 's BlockAppendOnlyLog \<Rightarrow> io_error option \<times> 's BlockAppendOnlyLog" where
  "dataWriter_Write env p s =
     (let direct = (\<lambda>p s. case file_append env (dataFile s) p of
            (None, n, f) \<Rightarrow> (None, s\<lparr>dataFile := f\<rparr>)
          | (Some e, n, f) \<Rightarrow> (Some e, s\<lparr>dataFile := f, dataErr := Some e\<rparr>)) in
      case dataErr s of
        Some e \<Rightarrow> (Some e, s)
      | None \<Rightarrow>
          let avail = initialBufferSize - length (dataBuf s) in
          if length p \<le> avail then (None, s\<lparr>dataBuf := dataBuf s @ p\<rparr>)
          else if dataBuf s = [] then direct p s
          else case dataWriter_Flush env (s\<lparr>dataBuf := dataBuf s @ take avail p\<rparr>) of
              (Some e, s') \<Rightarrow> (Some e, s')
            | (None, s') \<Rightarrow>
                let p' = drop avail p in
                if length p' \<le> initialBufferSize then (None, s'\<lparr>dataBuf := p'\<rparr>) else direct p' s')"

section \<open>Writing blocks\<close>

definition flush_index :: "io_env \<Rightarrow> 's BlockAppendOnlyLog \<Rightarrow> 's baol_result" where
  "flush_index env s =
     (case flushIndexBufferWithBlockID env (minBlockID (idx s)) (idx s) of (err, i) \<Rightarrow> (err, s\<lparr>idx := i\<rparr>))"

definition save_meta :: "io_env \<Rightarrow> 's BlockAppendOnlyLog \<Rightarrow> 's baol_result" where
  "save_meta env s = (case saveIndexMeta env (idx s) of (err, i) \<Rightarrow> (err, s\<lparr>idx := i\<rparr>))"

definition index_block :: "'s skiplist_ops \<Rightarrow> int \<Rightarrow> bytes \<Rightarrow> 's BlockAppendOnlyLog \<Rightarrow> 's baol_result" where
  "index_block sl entryPos blockBytes s =
     (case decode_all readLogEntry blockBytes of
        (err, es) \<Rightarrow> (map_option ErrDecode err, s\<lparr>win := index_entries sl entryPos es (win s)\<rparr>))"

text \<open>One round of the gap loop: an empty block at the current offset.\<close>

definition fill_one :: "'s skiplist_ops \<Rightarrow> u64 \<Rightarrow> 's BlockAppendOnlyLog \<Rightarrow> 's BlockAppendOnlyLog" where
  "fill_one sl missingID s =
     (let i1 = (if minBlockID (idx s) = 0 then (idx s)\<lparr>minBlockID := missingID\<rparr> else idx s);
          entry = \<lparr>BlockID = missingID, StartOffset = currentOffset s, EndOffset = currentOffset s\<rparr> in
      s\<lparr>idx := (writeIndexEntry entry i1)\<lparr>latestBlockID := missingID\<rparr>,
        win := updateRecentBlocks sl missingID (win s)\<rparr>)"

function fill_loop :: "'s skiplist_ops \<Rightarrow> u64 \<Rightarrow> u64 \<Rightarrow> 's BlockAppendOnlyLog \<Rightarrow> 's BlockAppendOnlyLog" where
  "fill_loop sl missingID target s =
     (if missingID < target then fill_loop sl (missingID + 1) target (fill_one sl missingID s) else s)"
  by pat_completeness auto

termination
proof (relation "measure (\<lambda>(sl, missingID, target, s). unat target - unat missingID)")
  fix sl :: "'s skiplist_ops" and missingID target :: u64 and s
  assume lt: "missingID < target"
  then have "unat missingID < unat target" by (simp add: word_less_nat_alt)
  moreover have "unat (missingID + 1) = unat missingID + 1"
    using lt by (intro unat_word_ariths(1) [THEN trans]) (use unsigned_less [of target, where ?'a = nat] calculation in simp)
  ultimately show "((sl, missingID + 1, target, fill_one sl missingID s), (sl, missingID, target, s)) \<in>
      measure (\<lambda>(sl, missingID, target, s). unat target - unat missingID)"
    by simp
qed simp

declare fill_loop.simps [simp del]

definition fillMissingBlocksUntil ::
  "io_env \<Rightarrow> 's skiplist_ops \<Rightarrow> u64 \<Rightarrow> 's BlockAppendOnlyLog \<Rightarrow> 's baol_result" where
  "fillMissingBlocksUntil env sl target s =
     (if target \<le> latestBlockID (idx s) + 1 then (None, s)
      else case flush_index env (fill_loop sl (latestBlockID (idx s) + 1) target s) of
          (Some e, s1) \<Rightarrow> (Some e, s1)
        | (None, s1) \<Rightarrow> save_meta env s1)"

definition MarkBlockCommitted ::
  "io_env \<Rightarrow> 's skiplist_ops \<Rightarrow> u64 \<Rightarrow> 's BlockAppendOnlyLog \<Rightarrow> 's baol_result" where
  "MarkBlockCommitted env sl blockID s0 =
     (if blockID = 0 then (None, s0)
      else if closed s0 then (Some ErrLogClosed, s0)
      else let s = s0\<lparr>win := ensureWriteTrackingInitialized sl (win s0)\<rparr> in
        if blockID \<le> latestBlockID (idx s) then (None, s)
        else case (if blockID > latestBlockID (idx s) + 1 then fillMissingBlocksUntil env sl blockID s else (None, s)) of
            (Some e, s1) \<Rightarrow> (Some e, s1)
          | (None, s1) \<Rightarrow>
              (case flush_index env (fill_one sl blockID s1) of
                 (Some e, s2) \<Rightarrow> (Some e, s2)
               | (None, s2) \<Rightarrow> save_meta env s2))"

text \<open>
  \<^verbatim>\<open>Append\<close> from the point where the block is to be written: the data, the index entry (which
  extends an existing block), the metadata, whose failure is only logged, the skiplist and the
  index file.
\<close>

definition append_block ::
  "io_env \<Rightarrow> 's skiplist_ops \<Rightarrow> u64 \<Rightarrow> (bytes \<times> bytes) list \<Rightarrow> 's BlockAppendOnlyLog \<Rightarrow> 's baol_result" where
  "append_block env sl blockID kvs s =
     (let existing = getBlockIndexEntry (idx s) blockID;
          startOffset = (case existing of Some e \<Rightarrow> EndOffset e | None \<Rightarrow> currentOffset s);
          blockBytes = writeLogEntries blockID kvs in
      case dataWriter_Write env blockBytes s of
        (Some e, s1) \<Rightarrow> (Some (ErrDataWrite e), s1)
      | (None, s1) \<Rightarrow>
          (case dataWriter_Flush env s1 of
             (Some e, s2) \<Rightarrow> (Some (ErrDataFlush e), s2)
           | (None, s2) \<Rightarrow>
               let endOffset = i64 (startOffset + int (length blockBytes));
                   entry = \<lparr>BlockID = blockID,
                     StartOffset = (case existing of Some e \<Rightarrow> StartOffset e | None \<Rightarrow> startOffset),
                     EndOffset = endOffset\<rparr>;
                   i3 = writeIndexEntry entry (idx s2);
                   s3 = s2\<lparr>currentOffset := endOffset, idx := i3\<rparr>;
                   s4 = (if blockID > latestBlockID i3
                         then snd (save_meta env
                           (s3\<lparr>idx := i3\<lparr>minBlockID := (if minBlockID i3 = 0 then blockID else minBlockID i3),
                                           latestBlockID := blockID\<rparr>,
                               win := updateRecentBlocks sl blockID (win s3)\<rparr>))
                         else s3) in
               case (if is_indexed (win s4) blockID then index_block sl startOffset blockBytes s4 else (None, s4)) of
                 (Some e, s5) \<Rightarrow> (Some e, s5)
               | (None, s5) \<Rightarrow> flush_index env s5))"

definition Append ::
  "io_env \<Rightarrow> 's skiplist_ops \<Rightarrow> u64 \<Rightarrow> (bytes \<times> bytes) list \<Rightarrow> 's BlockAppendOnlyLog \<Rightarrow> 's baol_result" where
  "Append env sl blockID kvs s0 =
     (if closed s0 then (Some ErrLogClosed, s0)
      else let s = s0\<lparr>win := ensureWriteTrackingInitialized sl (win s0)\<rparr>;
               latest = latestBlockID (idx s);
               isFirstAppend = (latest = 0 \<and> currentOffset s = 0) in
        if \<not> (blockID = 0 \<and> isFirstAppend) \<and> blockID \<le> latest \<and> getBlockIndexEntry (idx s) blockID = None
        then (Some (ErrNonMonotonic latest blockID), s)
        else if \<not> (blockID = 0 \<and> isFirstAppend) \<and> blockID < latest then (None, s)
        else case (if \<not> isFirstAppend \<and> blockID > latest + 1 then fillMissingBlocksUntil env sl blockID s else (None, s)) of
            (Some e, s1) \<Rightarrow> (Some e, s1)
          | (None, s1) \<Rightarrow> if kvs = [] then (None, s1) else append_block env sl blockID kvs s1)"

definition isLogEmptyInitial :: "'s BlockAppendOnlyLog \<Rightarrow> bool" where
  "isLogEmptyInitial s \<longleftrightarrow>
     latestBlockID (idx s) = 0 \<and> (case blockIndex (idx s) of None \<Rightarrow> True | Some m \<Rightarrow> m = [])"

definition AppendToNewBlock ::
  "io_env \<Rightarrow> 's skiplist_ops \<Rightarrow> (bytes \<times> bytes) list \<Rightarrow> 's BlockAppendOnlyLog \<Rightarrow>
   (baol_error + u64) \<times> 's BlockAppendOnlyLog" where
  "AppendToNewBlock env sl kvs s0 =
     (if closed s0 then (Inl ErrLogClosed, s0)
      else let s = s0\<lparr>win := ensureWriteTrackingInitialized sl (win s0)\<rparr> in
        if kvs = [] then (Inr (if isLogEmptyInitial s then 0 else latestBlockID (idx s)), s)
        else let newBlockID = (if isLogEmptyInitial s then 1 else latestBlockID (idx s) + 1);
                 startOffset = currentOffset s;
                 blockBytes = writeLogEntries newBlockID kvs in
          case dataWriter_Write env blockBytes s of
            (Some e, s1) \<Rightarrow> (Inl (ErrDataWrite e), s1)
          | (None, s1) \<Rightarrow>
              let endOffset = i64 (startOffset + int (length blockBytes));
                  entry = \<lparr>BlockID = newBlockID, StartOffset = startOffset, EndOffset = endOffset\<rparr>;
                  i2 = (idx s1)\<lparr>minBlockID := (if minBlockID (idx s1) = 0 then newBlockID else minBlockID (idx s1)),
                                latestBlockID := newBlockID\<rparr>;
                  s2 = s1\<lparr>currentOffset := endOffset, idx := writeIndexEntry entry i2\<rparr> in
              (case dataWriter_Flush env s2 of
                 (Some e, s3) \<Rightarrow> (Inl (ErrDataFlush e), s3)
               | (None, s3) \<Rightarrow>
                   (case flush_index env s3 of
                      (Some e, s4) \<Rightarrow> (Inl e, s4)
                    | (None, s4) \<Rightarrow>
                        let s5 = snd (save_meta env s4);
                            s6 = s5\<lparr>win := updateRecentBlocks sl newBlockID (win s5)\<rparr> in
                        case (if is_indexed (win s6) newBlockID then index_block sl startOffset blockBytes s6 else (None, s6)) of
                          (Some e, s7) \<Rightarrow> (Inl e, s7)
                        | (None, s7) \<Rightarrow> (Inr newBlockID, s7))))"

definition Delete :: "io_env \<Rightarrow> 's skiplist_ops \<Rightarrow> bytes \<Rightarrow> 's BlockAppendOnlyLog \<Rightarrow> 's baol_result" where
  "Delete env sl key s0 =
     (if closed s0 then (Some ErrLogClosed, s0)
      else let s = s0\<lparr>win := ensureWriteTrackingInitialized sl (win s0)\<rparr>;
               dataType = GetDataTypeFromKey key;
               blockID = (case ParseBlockNumberFromKey key dataType of None \<Rightarrow> 0 | Some b \<Rightarrow> b);
               latest = latestBlockID (idx s) in
        if latest > 0 \<and> latest - blockID > IgnoredThreshold then (None, s)
        else let blockIDForDelete = (if latest = 0 then 1 else latest + 1);
                 startOffset = currentOffset s;
                 blockBytes = writeLogEntry blockIDForDelete key TombstoneMarker in
          case dataWriter_Write env blockBytes s of
            (Some e, s1) \<Rightarrow> (Some (ErrDataWrite e), s1)
          | (None, s1) \<Rightarrow>
              let endOffset = i64 (startOffset + int (length blockBytes));
                  entry = \<lparr>BlockID = blockIDForDelete, StartOffset = startOffset, EndOffset = endOffset\<rparr>;
                  s2 = s1\<lparr>currentOffset := endOffset,
                          idx := writeIndexEntry entry ((idx s1)\<lparr>latestBlockID := blockIDForDelete\<rparr>)\<rparr> in
              (case dataWriter_Flush env s2 of
                 (Some e, s3) \<Rightarrow> (Some (ErrDataFlush e), s3)
               | (None, s3) \<Rightarrow>
                   (case flush_index env s3 of
                      (Some e, s4) \<Rightarrow> (Some e, s4)
                    | (None, s4) \<Rightarrow>
                        let w = updateRecentBlocks sl blockIDForDelete (win s4) in
                        (None, s4\<lparr>win :=
                           (if is_indexed w blockIDForDelete
                            then setSkiplistEntry sl blockIDForDelete key
                                   (buildKVPointerForSkiplist blockIDForDelete startOffset key TombstoneMarker) w
                            else w)\<rparr>))))"

section \<open>Reading\<close>

definition LatestBlockID :: "'s BlockAppendOnlyLog \<Rightarrow> u64" where
  "LatestBlockID s = latestBlockID (idx s)"

definition RecentN :: "'s BlockAppendOnlyLog \<Rightarrow> int" where
  "RecentN s = recentN (win s)"

definition header_lengths :: "bytes \<Rightarrow> u32 \<times> u32" where
  "header_lengths h = (Uint32 (take 4 (drop 8 h)), Uint32 (drop 12 h))"

definition readHeaderAndLocate :: "'s BlockAppendOnlyLog \<Rightarrow> kvPointer \<Rightarrow> baol_error + u32 \<times> u32" where
  "readHeaderAndLocate s ptr =
     (let header = readAt (dataFile s) (kp_Offset ptr) 16;
          second = (case header of Inr h \<Rightarrow> Inr (header_lengths h) | Inl e \<Rightarrow> Inl (ErrPointer (kp_Offset ptr))) in
      if kp_BlockID ptr \<noteq> 0 then
        (case getBlockIndexEntry (idx s) (kp_BlockID ptr) of
           None \<Rightarrow> second
         | Some mainEntry \<Rightarrow>
             if kp_Offset ptr \<ge> StartOffset mainEntry \<and> i64 (kp_Offset ptr + 16) \<le> EndOffset mainEntry
             then (case header of Inr h \<Rightarrow> Inr (header_lengths h) | Inl e \<Rightarrow> second)
             else second)
      else second)"

definition readValueBytesFromPointerWithSource ::
  "'s BlockAppendOnlyLog \<Rightarrow> kvPointer \<Rightarrow> baol_error + bytes \<times> bool" where
  "readValueBytesFromPointerWithSource s ptr =
     (if kp_HasInlineValue ptr then Inr (kp_InlineValue ptr, True)
      else case readHeaderAndLocate s ptr of
          Inl e \<Rightarrow> Inl e
        | Inr (keyLen, valueLen) \<Rightarrow>
            (case readAt (dataFile s) (i64 (kp_Offset ptr + 16 + int (unat keyLen))) (unat valueLen) of
               Inl e \<Rightarrow> Inl (ErrDataRead e)
             | Inr valueBytes \<Rightarrow> Inr (valueBytes, False)))"

text \<open>
  The scans of a block: \<^verbatim>\<open>make([]byte, size)\<close> and one positional read. A scan for a key stops at
  the first match; when there is none it is repeated from the start of the block.
\<close>

definition read_block :: "'s BlockAppendOnlyLog \<Rightarrow> blockIndexEntry \<Rightarrow> io_error + bytes" where
  "read_block s e = readAt (dataFile s) (StartOffset e) (nat (EndOffset e - StartOffset e))"

fun scan_for_key :: "nat \<Rightarrow> bytes \<Rightarrow> bytes \<Rightarrow> baol_error + bytes option" where
  "scan_for_key 0 reader key = Inr None"
| "scan_for_key (Suc n) reader key =
     (if reader = [] then Inr None
      else case readLogEntry reader of
          Inl LogEOF \<Rightarrow> Inr None
        | Inl e \<Rightarrow> Inl (ErrDecode e)
        | Inr (entry, rest) \<Rightarrow>
            if le_Key entry = key then Inr (Some (le_Value entry)) else scan_for_key n rest key)"

definition findKeyInOneBlock ::
  "'s BlockAppendOnlyLog \<Rightarrow> blockIndexEntry \<Rightarrow> bytes \<Rightarrow> baol_error + bytes option" where
  "findKeyInOneBlock s indexEntry key =
     (if EndOffset indexEntry - StartOffset indexEntry \<le> 0 then Inr None
      else case read_block s indexEntry of
          Inl e \<Rightarrow> Inl (ErrDataRead e)
        | Inr blockData \<Rightarrow>
            (case scan_for_key (length blockData) blockData key of
               Inr None \<Rightarrow> scan_for_key (length blockData) blockData key
             | r \<Rightarrow> r))"

definition Get :: "'s skiplist_ops \<Rightarrow> bytes \<Rightarrow> 's BlockAppendOnlyLog \<Rightarrow> baol_error + bytes \<times> bool" where
  "Get sl key s =
     (let found = (\<lambda>v. if v = TombstoneMarker then Inr ([], True) else Inr (v, True)) in
      if closed s then Inl ErrLogClosed
      else case sl_Get sl (skiplistIndex (win s)) key of
          Some pointer \<Rightarrow>
            (case readValueBytesFromPointerWithSource s pointer of
               Inl e \<Rightarrow> Inl e
             | Inr (valueBytes, src) \<Rightarrow> found valueBytes)
        | None \<Rightarrow>
            (case ParseBlockNumberFromKey key (GetDataTypeFromKey key) of
               None \<Rightarrow> Inr ([], False)
             | Some blockID \<Rightarrow>
                 let latest = latestBlockID (idx s) in
                 if blockID > latest then Inl (ErrRequestedFutureBlock blockID latest)
                 else if latest - blockID > IgnoredThreshold then Inr ([], True)
                 else if is_indexed (win s) blockID then Inr ([], False)
                 else case getBlockIndexEntryWithSource (idx s) blockID of
                     Inl e \<Rightarrow> Inl e
                   | Inr None \<Rightarrow> Inr ([], False)
                   | Inr (Some (mainEntry, src)) \<Rightarrow>
                       (case findKeyInOneBlock s mainEntry key of
                          Inl e \<Rightarrow> Inl e
                        | Inr (Some v) \<Rightarrow> found v
                        | Inr None \<Rightarrow> Inr ([], False))))"

definition DeletedMark :: bytes where "DeletedMark = bytes_of_string ''__DELETED__''"

definition GetByBlock :: "u64 \<Rightarrow> 's BlockAppendOnlyLog \<Rightarrow> baol_error option \<times> (bytes \<times> bytes) list" where
  "GetByBlock blockID s =
     (if closed s then (Some ErrLogClosed, [])
      else case getBlockIndexEntry (idx s) blockID of
          None \<Rightarrow> (None, [])
        | Some indexEntry \<Rightarrow>
            if EndOffset indexEntry - StartOffset indexEntry \<le> 0 then (None, [])
            else case read_block s indexEntry of
                Inl e \<Rightarrow> (Some (ErrDataRead e), [])
              | Inr blockData \<Rightarrow>
                  (case decode_all readLogEntry blockData of
                     (err, es) \<Rightarrow> (map_option ErrDecode err,
                       fold (\<lambda>e. AList.update (le_Key e)
                         (if le_Value e = TombstoneMarker then DeletedMark else le_Value e)) es [])))"

definition DeleteByPrefixInBlock ::
  "io_env \<Rightarrow> 's skiplist_ops \<Rightarrow> u64 \<Rightarrow> bytes \<Rightarrow> 's BlockAppendOnlyLog \<Rightarrow> 's baol_result" where
  "DeleteByPrefixInBlock env sl targetBlockID pre s =
     (if closed s then (Some ErrLogClosed, s)
      else case getBlockIndexEntry (idx s) targetBlockID of
          None \<Rightarrow> (Some (ErrTargetBlockNotFound targetBlockID), s)
        | Some indexEntry \<Rightarrow>
            if EndOffset indexEntry - StartOffset indexEntry \<le> 0 then (None, s)
            else case read_block s indexEntry of
                Inl e \<Rightarrow> (Some (ErrDataRead e), s)
              | Inr blockData \<Rightarrow>
                  (case decode_all readLogEntry blockData of
                     (Some e, es) \<Rightarrow> (Some (ErrDecode e), s)
                   | (None, es) \<Rightarrow>
                       let kvsInBlock = fold (\<lambda>e. AList.update (le_Key e) (le_Value e)) es [];
                           keysToTombstone = map (\<lambda>(k, v). (k, TombstoneMarker))
                             (filter (\<lambda>(k, v). prefix pre k \<and> v \<noteq> TombstoneMarker) kvsInBlock) in
                       if keysToTombstone = [] then (None, s)
                       else case AppendToNewBlock env sl keysToTombstone s of
                           (Inl e, s') \<Rightarrow> (Some e, s')
                         | (Inr b, s') \<Rightarrow> (None, s')))"

section \<open>Flushing and closing\<close>

definition FlushIndexBuffer :: "io_env \<Rightarrow> 's BlockAppendOnlyLog \<Rightarrow> 's baol_result" where
  "FlushIndexBuffer env s = flush_index env s"

text \<open>One tick or signal of the background goroutine; its error is dropped.\<close>

definition backgroundFlush :: "io_env \<Rightarrow> 's BlockAppendOnlyLog \<Rightarrow> 's BlockAppendOnlyLog" where
  "backgroundFlush env s =
     (case flushIndexBuffer env ((idx s)\<lparr>indexBufferFlush := False\<rparr>) of (err, i) \<Rightarrow> s\<lparr>idx := i\<rparr>)"

definition FlushDataAndIndex :: "io_env \<Rightarrow> 's BlockAppendOnlyLog \<Rightarrow> 's baol_result" where
  "FlushDataAndIndex env s =
     (if closed s then (Some ErrLogClosed, s)
      else case dataWriter_Flush env s of
          (Some e, s1) \<Rightarrow> (Some (ErrDataFlush e), s1)
        | (None, s1) \<Rightarrow>
            (case flush_index env s1 of
               (Some e, s2) \<Rightarrow> (Some e, s2)
             | (None, s2) \<Rightarrow> save_meta env s2))"

definition Close :: "io_env \<Rightarrow> 's BlockAppendOnlyLog \<Rightarrow> baol_error list \<times> 's BlockAppendOnlyLog" where
  "Close env s =
     (if closed s then ([ErrClosed], s)
      else case flush_index env (s\<lparr>closed := True\<rparr>) of
          (err1, s1) \<Rightarrow>
            (case dataWriter_Flush env s1 of
               (err2, s2) \<Rightarrow>
                 ((case err1 of None \<Rightarrow> [] | Some e \<Rightarrow> [e]) @ (case err2 of None \<Rightarrow> [] | Some e \<Rightarrow> [ErrDataFlush e]),
                  s2\<lparr>idx := (idx s2)\<lparr>indexMapOpen := False\<rparr>\<rparr>)))"

section \<open>Opening\<close>

definition readAndIndexBlockFrom ::
  "'s skiplist_ops \<Rightarrow> blockIndexEntry \<Rightarrow> 's BlockAppendOnlyLog \<Rightarrow> 's baol_result" where
  "readAndIndexBlockFrom sl indexEntry s =
     (if EndOffset indexEntry - StartOffset indexEntry \<le> 0 then (None, s)
      else case read_block s indexEntry of
          Inl e \<Rightarrow> (Some (ErrDataRead e), s)
        | Inr blockData \<Rightarrow> index_block sl (StartOffset indexEntry) blockData s)"

primrec rebuild_loop ::
  "'s skiplist_ops \<Rightarrow> u64 list \<Rightarrow> u64 set \<Rightarrow> 's BlockAppendOnlyLog \<Rightarrow> 's baol_result" where
  "rebuild_loop sl [] newIndexBlocks s = (None, s\<lparr>win := (win s)\<lparr>indexedBlocks := Some newIndexBlocks\<rparr>\<rparr>)"
| "rebuild_loop sl (blockID # bs) newIndexBlocks s =
     (if \<not> is_indexed (win s) blockID then rebuild_loop sl bs newIndexBlocks s
      else case getBlockIndexEntry (idx s) blockID of
          None \<Rightarrow> (Some (ErrInconsistentIndex blockID), s)
        | Some indexEntry \<Rightarrow>
            (case readAndIndexBlockFrom sl indexEntry s of
               (Some e, s') \<Rightarrow> (Some e, s')
             | (None, s') \<Rightarrow> rebuild_loop sl bs (insert blockID newIndexBlocks) s'))"

definition rebuildSkiplist :: "'s skiplist_ops \<Rightarrow> 's BlockAppendOnlyLog \<Rightarrow> 's baol_result" where
  "rebuildSkiplist sl s =
     (let blocksToIndex = sort (case recentBlocks (win s) of None \<Rightarrow> [] | Some bs \<Rightarrow> bs) in
      rebuild_loop sl blocksToIndex {}
        (s\<lparr>win := (win s)\<lparr>skiplistIndex := sl_New sl, indexedBlockKeys := Some Map.empty\<rparr>\<rparr>))"

definition releaseBootstrapResources :: "'s BlockAppendOnlyLog \<Rightarrow> 's BlockAppendOnlyLog" where
  "releaseBootstrapResources s =
     s\<lparr>idx := (idx s)\<lparr>blockIndex := None\<rparr>, win := releaseBootstrapResources_window (win s)\<rparr>"

text \<open>The files of a log directory; a missing data or index file is created empty.\<close>

record log_disk =
  disk_data :: bytes
  disk_index :: bytes
  disk_meta :: "bytes option"

definition disk_of :: "'s BlockAppendOnlyLog \<Rightarrow> log_disk" where
  "disk_of s = \<lparr>disk_data = dataFile s, disk_index = indexMapFile (idx s), disk_meta = indexMetaFile (idx s)\<rparr>"

definition initial_log :: "'s skiplist_ops \<Rightarrow> log_disk \<Rightarrow> int \<Rightarrow> 's BlockAppendOnlyLog" where
  "initial_log sl d n =
     \<lparr>dataFile = disk_data d, dataBuf = [], dataErr = None, currentOffset = int (length (disk_data d)),
      idx = \<lparr>indexMapFile = disk_index d, indexMapOpen = True, indexMetaFile = disk_meta d, blockIndex = Some [],
             minBlockID = 0, latestBlockID = 0, indexBuffer = [], indexBufferSize = n div 2, indexBufferFlush = False\<rparr>,
      win = \<lparr>recentN = n, recentBlocks = Some [], skiplistIndex = sl_New sl, indexedBlocks = Some {},
             indexedBlockKeys = Some Map.empty\<rparr>,
      closed = False\<rparr>"

definition NewBlockAppendOnlyLog ::
  "'s skiplist_ops \<Rightarrow> log_disk \<Rightarrow> int \<Rightarrow> baol_error + 's BlockAppendOnlyLog" where
  "NewBlockAppendOnlyLog sl d recentN_arg =
     (let n = (if recentN_arg \<le> 0 then defaultRecentN else recentN_arg);
          s = initial_log sl d n;
          i = loadBlockIndex (loadIndexMeta (idx s));
          allLoadedBlockIDs = sort (map fst (case blockIndex i of None \<Rightarrow> [] | Some m \<Rightarrow> m));
          recent = last_n n allLoadedBlockIDs;
          s1 = s\<lparr>idx := i, win := (win s)\<lparr>recentBlocks := Some recent, indexedBlocks := Some (set recent)\<rparr>\<rparr> in
      case rebuildSkiplist sl s1 of
        (Some e, s2) \<Rightarrow> Inl e
      | (None, s2) \<Rightarrow> Inr (releaseBootstrapResources s2))"

end
