(* ===== verification/Block_Iterator.thy ===== *)
theory Block_Iterator
  imports Block_Log
begin

text \<open>
  The streaming iterator of the block log, \<^verbatim>\<open>baolStreamIterator\<close> of \<^verbatim>\<open>THEO/datablockStore.go\<close>:
  positioning on the block of the lower bound, prefetching the next pair from the skiplist of
  the recent window or from the data file, and publishing it. The iterator keeps a reference to
  the log, so each operation takes the log as it is at the time of the call.
\<close>

section \<open>State\<close>

datatype iter_error =
    ItClosed
  | ItLog baol_error
  | ItRead io_error
  | ItCorruptHeader int
  | ItCorruptEntry int
  | ItTooLarge int

text \<open>The iterator that only carries an error; \<open>Key\<close> and \<open>Value\<close> give the nil slice.\<close>

record 'e errorIterator = ei_err :: 'e

definition ei_Next :: "'e errorIterator \<Rightarrow> bool" where "ei_Next it = False"
definition ei_Error :: "'e errorIterator \<Rightarrow> 'e" where "ei_Error it = ei_err it"
definition ei_Key :: "'e errorIterator \<Rightarrow> bytes option" where "ei_Key it = None"
definition ei_Value :: "'e errorIterator \<Rightarrow> bytes option" where "ei_Value it = None"
definition ei_Release :: "'e errorIterator \<Rightarrow> 'e errorIterator" where "ei_Release it = it"

record baolStreamIterator =
  it_baol :: bool
  it_prefix :: bytes
  it_minBlockID :: u64
  it_maxBlockID :: u64
  it_lowerBound :: bytes
  it_seekKey :: bytes
  it_seekExact :: bool
  it_curBlockID :: u64
  it_curBlockEntry :: blockIndexEntry
  it_hasCurrentBlock :: bool
  it_nextOffset :: int
  it_hasNextKV :: bool
  it_nextKey :: bytes
  it_nextValue :: bytes
  it_key :: bytes
  it_value :: bytes
  it_err :: "iter_error option"

definition stream_lowerBound :: "bytes \<Rightarrow> bytes \<Rightarrow> bytes" where
  "stream_lowerBound pre start =
     (if start \<noteq> [] then
        (if pre \<noteq> [] \<and> \<not> prefix pre start then pre @ start else start)
      else if pre \<noteq> [] then pre else [])"

definition stream_startBlock :: "u64 \<Rightarrow> u64 \<Rightarrow> bytes \<Rightarrow> u64" where
  "stream_startBlock minB maxB lowerBound =
     (let b = (if lowerBound \<noteq> []
               then (case ParseBlockNumberFromKey lowerBound (GetDataTypeFromKey lowerBound) of
                       Some blockID \<Rightarrow> blockID | None \<Rightarrow> minB)
               else minB) in
      if b = 0 \<and> maxB = 0 then 0
      else let b1 = (if b = 0 then 1 else b);
               b2 = (if minB \<noteq> 0 \<and> b1 < minB then minB else b1) in
        if b2 > maxB then 0 else b2)"

text \<open>A current block of zero is the iterator returned before a start block is set: it is empty.\<close>

definition NewIterator ::
  "bytes \<Rightarrow> bytes \<Rightarrow> 's BlockAppendOnlyLog \<Rightarrow> iter_error errorIterator + baolStreamIterator" where
  "NewIterator pre start s =
     (if closed s then Inl \<lparr>ei_err = ItClosed\<rparr>
      else let minB = minBlockID (idx s); maxB = latestBlockID (idx s); lo = stream_lowerBound pre start in
        Inr \<lparr>it_baol = True, it_prefix = pre, it_minBlockID = minB, it_maxBlockID = maxB, it_lowerBound = lo,
             it_seekKey = lo, it_seekExact = False, it_curBlockID = stream_startBlock minB maxB lo,
             it_curBlockEntry = \<lparr>BlockID = 0, StartOffset = 0, EndOffset = 0\<rparr>, it_hasCurrentBlock = False,
             it_nextOffset = 0, it_hasNextKV = False, it_nextKey = [], it_nextValue = [], it_key = [], it_value = [],
             it_err = None\<rparr>)"

section \<open>Prefetching\<close>

definition keyBeforeSeek :: "baolStreamIterator \<Rightarrow> bytes \<Rightarrow> bool" where
  "keyBeforeSeek it key \<longleftrightarrow>
     it_seekKey it \<noteq> [] \<and> (key < it_seekKey it \<or> it_seekExact it \<and> key = it_seekKey it)"

definition readKeyAt :: "'s BlockAppendOnlyLog \<Rightarrow> int \<Rightarrow> int \<Rightarrow> iter_error + bytes \<times> int \<times> int \<times> int" where
  "readKeyAt s offset blockEnd =
     (if i64 (offset + 16) > blockEnd then Inl (ItCorruptHeader offset)
      else case readAt (dataFile s) offset 16 of
          Inl e \<Rightarrow> Inl (ItRead e)
        | Inr hdr \<Rightarrow>
            (case header_lengths hdr of (keyLenU32, valueLenU32) \<Rightarrow>
               let keyLen = int (unat keyLenU32); valueLen = int (unat valueLenU32); entrySize = 16 + keyLen + valueLen in
               if keyLen > 2 ^ 63 - 1 \<or> valueLen > 2 ^ 63 - 1 then Inl (ItTooLarge offset)
               else if i64 (offset + entrySize) > blockEnd then Inl (ItCorruptEntry offset)
               else case readAt (dataFile s) (i64 (offset + 16)) (nat keyLen) of
                   Inl e \<Rightarrow> Inl (ItRead e)
                 | Inr key \<Rightarrow> Inr (key, keyLen, valueLen, entrySize)))"

definition readValueAt :: "'s BlockAppendOnlyLog \<Rightarrow> int \<Rightarrow> int \<Rightarrow> int \<Rightarrow> iter_error + bytes" where
  "readValueAt s offset keyLen valueLen =
     (case readAt (dataFile s) (i64 (offset + 16 + keyLen)) (nat valueLen) of Inl e \<Rightarrow> Inl (ItRead e) | Inr v \<Rightarrow> Inr v)"

text \<open>The walk over the skiplist from the element the seek has found.\<close>

primrec memory_scan ::
  "'s BlockAppendOnlyLog \<Rightarrow> baolStreamIterator \<Rightarrow> (bytes \<times> kvPointer) list \<Rightarrow> baolStreamIterator" where
  "memory_scan s it [] = it\<lparr>it_hasNextKV := False\<rparr>"
| "memory_scan s it (elem # es) =
     (case elem of (key, ptr) \<Rightarrow>
        if it_prefix it \<noteq> [] \<and> \<not> prefix (it_prefix it) key then
          (if key < it_prefix it then memory_scan s it es else it\<lparr>it_hasNextKV := False\<rparr>)
        else if kp_BlockID ptr < it_curBlockID it then memory_scan s it es
        else if kp_BlockID ptr > it_maxBlockID it then it\<lparr>it_hasNextKV := False\<rparr>
        else case readValueBytesFromPointerWithSource s ptr of
            Inl e \<Rightarrow> it\<lparr>it_err := Some (ItLog e), it_hasNextKV := False\<rparr>
          | Inr (value, src) \<Rightarrow>
              it\<lparr>it_nextKey := key, it_nextValue := value, it_hasNextKV := True,
                 it_curBlockID := kp_BlockID ptr, it_hasCurrentBlock := False\<rparr>)"

definition seek_elements :: "'s skiplist_ops \<Rightarrow> 's \<Rightarrow> baolStreamIterator \<Rightarrow> (bytes \<times> kvPointer) list" where
  "seek_elements sl x it =
     (if it_seekKey it \<noteq> [] then
        (case sl_Find sl x (it_seekKey it) of
           [] \<Rightarrow> []
         | (k, p) # es \<Rightarrow> if it_seekExact it \<and> k = it_seekKey it then es else (k, p) # es)
      else sl_Front sl x)"

definition prefetchFromMemoryIndex ::
  "'s skiplist_ops \<Rightarrow> 's BlockAppendOnlyLog \<Rightarrow> baolStreamIterator \<Rightarrow> bool \<times> baolStreamIterator" where
  "prefetchFromMemoryIndex sl s it =
     (if \<not> it_baol it \<or> it_curBlockID it = 0 then (False, it)
      else if closed s then (True, it\<lparr>it_err := Some ItClosed, it_hasNextKV := False\<rparr>)
      else if \<not> is_indexed (win s) (it_curBlockID it) then (False, it)
      else (True, memory_scan s it (seek_elements sl (skiplistIndex (win s)) it)))"

text \<open>
  One round of the prefetch loop: the flag says whether the loop goes on. \<open>load_block\<close> is the
  lookup of the current block's index entry; \<open>None\<close> when the block has no bytes.
\<close>

definition load_block :: "'s BlockAppendOnlyLog \<Rightarrow> baolStreamIterator \<Rightarrow> baolStreamIterator option" where
  "load_block s it =
     (if it_hasCurrentBlock it then Some it
      else case getBlockIndexEntry (idx s) (it_curBlockID it) of
          None \<Rightarrow> None
        | Some e \<Rightarrow>
            if EndOffset e \<le> StartOffset e then None
            else Some (it\<lparr>it_curBlockEntry := e, it_hasCurrentBlock := True, it_nextOffset := StartOffset e\<rparr>))"

definition prefetch_round ::
  "'s skiplist_ops \<Rightarrow> 's BlockAppendOnlyLog \<Rightarrow> baolStreamIterator \<Rightarrow> bool \<times> baolStreamIterator" where
  "prefetch_round sl s it =
     (if it_curBlockID it > it_maxBlockID it then (False, it\<lparr>it_hasNextKV := False\<rparr>)
      else case prefetchFromMemoryIndex sl s it of
          (True, it') \<Rightarrow> (False, it')
        | (False, it0) \<Rightarrow>
            if \<not> it_hasCurrentBlock it \<and> closed s then (False, it\<lparr>it_err := Some ItClosed, it_hasNextKV := False\<rparr>)
            else case load_block s it of
              None \<Rightarrow> (True, it\<lparr>it_curBlockID := it_curBlockID it + 1\<rparr>)
            | Some it1 \<Rightarrow>
                if it_nextOffset it1 \<ge> EndOffset (it_curBlockEntry it1)
                then (True, it1\<lparr>it_curBlockID := it_curBlockID it1 + 1, it_hasCurrentBlock := False\<rparr>)
                else case readKeyAt s (it_nextOffset it1) (EndOffset (it_curBlockEntry it1)) of
                    Inl e \<Rightarrow> (False, it1\<lparr>it_err := Some e, it_hasNextKV := False\<rparr>)
                  | Inr (key, keyLen, valueLen, bytesRead) \<Rightarrow>
                      if keyBeforeSeek it1 key \<or> it_prefix it1 \<noteq> [] \<and> \<not> prefix (it_prefix it1) key
                      then (True, it1\<lparr>it_nextOffset := i64 (it_nextOffset it1 + bytesRead)\<rparr>)
                      else case readValueAt s (it_nextOffset it1) keyLen valueLen of
                          Inl e \<Rightarrow> (False, it1\<lparr>it_err := Some e, it_hasNextKV := False\<rparr>)
                        | Inr value \<Rightarrow>
                            (False, it1\<lparr>it_nextOffset := i64 (it_nextOffset it1 + bytesRead),
                                        it_nextKey := key, it_nextValue := value, it_hasNextKV := True\<rparr>))"

text \<open>
  The loop, with fuel for its rounds: the block number wraps after the largest one, and then the
  loop of the code does not end.
\<close>

primrec prefetch_loop ::
  "nat \<Rightarrow> 's skiplist_ops \<Rightarrow> 's BlockAppendOnlyLog \<Rightarrow> baolStreamIterator \<Rightarrow> baolStreamIterator option" where
  "prefetch_loop 0 sl s it = None"
| "prefetch_loop (Suc n) sl s it =
     (case prefetch_round sl s it of (True, it') \<Rightarrow> prefetch_loop n sl s it' | (False, it') \<Rightarrow> Some it')"

definition prefetchNext ::
  "nat \<Rightarrow> 's skiplist_ops \<Rightarrow> 's BlockAppendOnlyLog \<Rightarrow> baolStreamIterator \<Rightarrow> baolStreamIterator option" where
  "prefetchNext n sl s it =
     (if \<not> it_baol it \<or> it_curBlockID it = 0 then Some it else prefetch_loop n sl s it)"

section \<open>The iterator interface\<close>

definition it_publish :: "baolStreamIterator \<Rightarrow> baolStreamIterator" where
  "it_publish it =
     it\<lparr>it_key := it_nextKey it, it_value := it_nextValue it, it_seekKey := it_nextKey it, it_seekExact := True,
        it_hasNextKV := False, it_nextKey := [], it_nextValue := []\<rparr>"

definition it_Next ::
  "nat \<Rightarrow> 's skiplist_ops \<Rightarrow> 's BlockAppendOnlyLog \<Rightarrow> baolStreamIterator \<Rightarrow> (bool \<times> baolStreamIterator) option" where
  "it_Next n sl s it =
     (if it_err it \<noteq> None then Some (False, it)
      else if it_hasNextKV it then Some (True, it_publish it)
      else case prefetchNext n sl s it of
          None \<Rightarrow> None
        | Some it' \<Rightarrow>
            if it_err it' \<noteq> None \<or> \<not> it_hasNextKV it' then Some (False, it') else Some (True, it_publish it'))"

definition it_Error :: "baolStreamIterator \<Rightarrow> iter_error option" where "it_Error it = it_err it"
definition it_Key :: "baolStreamIterator \<Rightarrow> bytes" where "it_Key it = it_key it"
definition it_Value :: "baolStreamIterator \<Rightarrow> bytes" where "it_Value it = it_value it"

definition it_Release :: "baolStreamIterator \<Rightarrow> baolStreamIterator" where
  "it_Release it = it\<lparr>it_baol := False, it_key := [], it_value := [], it_nextKey := [], it_nextValue := []\<rparr>"

text \<open>What a client loop \<^verbatim>\<open>for it.Next() { it.Key(), it.Value() }\<close> sees, on logs that may change between calls.\<close>

fun it_collect ::
  "nat \<Rightarrow> 's skiplist_ops \<Rightarrow> 's BlockAppendOnlyLog list \<Rightarrow> baolStreamIterator \<Rightarrow> (bytes \<times> bytes) list" where
  "it_collect n sl [] it = []"
| "it_collect n sl (s # ss) it =
     (case it_Next n sl s it of
        Some (True, it') \<Rightarrow> (it_Key it', it_Value it') # it_collect n sl ss it'
      | r \<Rightarrow> [])"


section \<open>Order and range\<close>

definition in_stream :: "baolStreamIterator \<Rightarrow> bytes \<Rightarrow> bool" where
  "in_stream it k \<longleftrightarrow> (it_prefix it = [] \<or> prefix (it_prefix it) k) \<and> \<not> keyBeforeSeek it k"

text \<open>A prefetch does not move the position of the seek, and what it finds is in range.\<close>

definition prefetched :: "baolStreamIterator \<Rightarrow> baolStreamIterator \<Rightarrow> bool" where
  "prefetched it it' \<longleftrightarrow>
     it_prefix it' = it_prefix it \<and> it_seekKey it' = it_seekKey it \<and> it_seekExact it' = it_seekExact it \<and>
     (it_hasNextKV it' \<longrightarrow> in_stream it (it_nextKey it'))"

lemma keyBeforeSeek_cong:
  "it_seekKey it' = it_seekKey it \<Longrightarrow> it_seekExact it' = it_seekExact it \<Longrightarrow> keyBeforeSeek it' k = keyBeforeSeek it k"
  by (simp add: keyBeforeSeek_def)

lemma memory_scan_prefetched:
  assumes "\<forall>k \<in> fst ` set es. \<not> keyBeforeSeek it k"
  shows "prefetched it (memory_scan s it es)"
  using assms
proof (induction es)
  case (Cons e es)
  obtain k p where e: "e = (k, p)" by (cases e)
  from Cons have ih: "prefetched it (memory_scan s it es)" and k: "\<not> keyBeforeSeek it k" by (simp_all add: e)
  have stop: "prefetched it (it\<lparr>it_hasNextKV := False\<rparr>)" "prefetched it (it\<lparr>it_err := x, it_hasNextKV := False\<rparr>)" for x
    by (simp_all add: prefetched_def)
  have found: "prefetched it (it\<lparr>it_nextKey := k, it_nextValue := v, it_hasNextKV := True, it_curBlockID := b, it_hasCurrentBlock := False\<rparr>)"
    if "it_prefix it = [] \<or> prefix (it_prefix it) k" for v b
    using that k by (simp add: prefetched_def in_stream_def)
  show ?case by (auto simp: e ih stop found split: sum.split)
qed (simp add: prefetched_def)

lemma dropWhile_not_before:
  fixes xs :: "(bytes \<times> 'v) list"
  assumes "sorted_wrt (<) (map fst xs)" "dropWhile (\<lambda>e. fst e < k) xs = (a, b) # es"
  shows "k \<le> a" "\<forall>e \<in> set es. a < fst e"
proof -
  from assms(2) show "k \<le> a" using hd_dropWhile [of "\<lambda>e. fst e < k" xs] by (simp add: not_less)
  have "sorted_wrt (<) (map fst (takeWhile (\<lambda>e. fst e < k) xs @ dropWhile (\<lambda>e. fst e < k) xs))" using assms(1) by simp
  then show "\<forall>e \<in> set es. a < fst e" unfolding assms(2) by (auto simp: sorted_wrt_append)
qed

lemma seek_elements_range:
  assumes "skiplist_laws sl"
  shows "\<forall>k \<in> fst ` set (seek_elements sl x it). \<not> keyBeforeSeek it k"
proof (cases "it_seekKey it = [] \<or> sl_Find sl x (it_seekKey it) = []")
  case False
  then obtain a b es where f: "sl_Find sl x (it_seekKey it) = (a, b) # es" by (cases "sl_Find sl x (it_seekKey it)") auto
  have "sl_Find sl x (it_seekKey it) = dropWhile (\<lambda>e. fst e < it_seekKey it) (sl_Front sl x)" "sorted_wrt (<) (map fst (sl_Front sl x))"
    using assms by (simp_all add: skiplist_laws_def strict_sorted_iff)
  from dropWhile_not_before [OF this(2), of "it_seekKey it" a b es] this(1) f
  have le: "it_seekKey it \<le> a" "\<forall>e \<in> set es. a < fst e" by simp_all
  have "\<not> keyBeforeSeek it k" if "it_seekKey it < k" for k using that by (auto simp: keyBeforeSeek_def)
  moreover have "\<not> keyBeforeSeek it a" if "\<not> (it_seekExact it \<and> a = it_seekKey it)" using le(1) that by (auto simp: keyBeforeSeek_def)
  ultimately show ?thesis
    using le False f by (auto simp: seek_elements_def intro: le_less_trans)
qed (auto simp: keyBeforeSeek_def seek_elements_def)

lemma prefetchFromMemoryIndex_prefetched:
  assumes "skiplist_laws sl" "prefetchFromMemoryIndex sl s it = (True, it')"
  shows "prefetched it it'"
proof -
  consider "it' = it\<lparr>it_err := Some ItClosed, it_hasNextKV := False\<rparr>"
    | "it' = memory_scan s it (seek_elements sl (skiplistIndex (win s)) it)"
    using assms(2) by (auto simp: prefetchFromMemoryIndex_def split: if_splits)
  then show ?thesis
  proof cases
    case 1
    then show ?thesis by (simp add: prefetched_def)
  next
    case 2
    then show ?thesis using memory_scan_prefetched [OF seek_elements_range [OF assms(1)]] by simp
  qed
qed

lemma load_block_same:
  "load_block s it = Some it1 \<Longrightarrow> it_prefix it1 = it_prefix it \<and> it_seekKey it1 = it_seekKey it \<and>
     it_seekExact it1 = it_seekExact it \<and> it_hasNextKV it1 = it_hasNextKV it \<and> it_curBlockID it1 = it_curBlockID it \<and>
     it_maxBlockID it1 = it_maxBlockID it \<and> it_hasCurrentBlock it1 \<and> (it_hasCurrentBlock it \<longrightarrow> it1 = it)"
  by (auto simp: load_block_def split: if_splits option.splits)

lemma prefetched_same:
  "it_prefix it' = it_prefix it \<Longrightarrow> it_seekKey it' = it_seekKey it \<Longrightarrow> it_seekExact it' = it_seekExact it \<Longrightarrow>
   \<not> it_hasNextKV it' \<Longrightarrow> prefetched it it'"
  by (simp add: prefetched_def)

lemma prefetch_round_prefetched:
  assumes "skiplist_laws sl" "prefetch_round sl s it = (c, it')" "\<not> it_hasNextKV it"
  shows "prefetched it it' \<and> (c \<longrightarrow> \<not> it_hasNextKV it')"
proof (cases "it_curBlockID it > it_maxBlockID it \<or> fst (prefetchFromMemoryIndex sl s it)")
  case True
  with assms(2) prefetchFromMemoryIndex_prefetched [OF assms(1), of s it] show ?thesis
    by (auto simp: prefetch_round_def prefetched_same split: prod.splits if_splits)
next
  case False
  then obtain it0 where m: "\<not> it_curBlockID it > it_maxBlockID it" "prefetchFromMemoryIndex sl s it = (False, it0)"
    by (cases "prefetchFromMemoryIndex sl s it") auto
  show ?thesis
  proof (cases "load_block s it")
    case None
    with assms(2,3) m show ?thesis by (auto simp: prefetch_round_def prefetched_same split: if_splits)
  next
    case (Some it1)
    note l = load_block_same [OF Some]
    have stay: "prefetched it (it1\<lparr>it_err := e, it_hasNextKV := False\<rparr>)" "prefetched it (it\<lparr>it_err := e, it_hasNextKV := False\<rparr>)"
      "prefetched it (it1\<lparr>it_nextOffset := n\<rparr>)" "prefetched it (it1\<lparr>it_curBlockID := b, it_hasCurrentBlock := False\<rparr>)" for e n b
      using l assms(3) by (simp_all add: prefetched_same)
    have found: "prefetched it (it1\<lparr>it_nextOffset := n, it_nextKey := k, it_nextValue := v, it_hasNextKV := True\<rparr>)"
      if "\<not> (keyBeforeSeek it1 k \<or> it_prefix it1 \<noteq> [] \<and> \<not> prefix (it_prefix it1) k)" for n k v
      using that l by (simp add: prefetched_def in_stream_def keyBeforeSeek_def)
    have h: "\<not> it_hasNextKV it1" using l assms(3) by simp
    show ?thesis
      using assms(2) m Some
      by (simp add: prefetch_round_def split: if_split_asm sum.split_asm prod.split_asm) (use stay found h in auto)
  qed
qed

lemma prefetch_loop_prefetched:
  assumes "skiplist_laws sl"
  shows "prefetch_loop n sl s it = Some it' \<Longrightarrow> \<not> it_hasNextKV it \<Longrightarrow> prefetched it it'"
proof (induction n arbitrary: it)
  case (Suc n)
  obtain c it1 where r: "prefetch_round sl s it = (c, it1)" by fastforce
  note p = prefetch_round_prefetched [OF assms r Suc.prems(2)]
  show ?case
  proof (cases c)
    case True
    with Suc.IH [of it1] Suc.prems(1) r p have "prefetched it1 it'" by simp
    with p show ?thesis by (auto simp: prefetched_def in_stream_def keyBeforeSeek_def)
  qed (use Suc.prems(1) r p in simp)
qed simp

lemma it_Next_range:
  assumes "skiplist_laws sl" "it_Next n sl s it = Some (True, it')" "\<not> it_hasNextKV it"
  shows "in_stream it (it_key it') \<and> it_seekKey it' = it_key it' \<and> it_seekExact it' \<and> \<not> it_hasNextKV it' \<and> it_prefix it' = it_prefix it"
proof -
  obtain it1 where it1: "prefetchNext n sl s it = Some it1" "it_hasNextKV it1" "it' = it_publish it1"
    using assms(2,3) by (auto simp: it_Next_def split: if_splits option.splits)
  then have "prefetched it it1" using prefetch_loop_prefetched [OF assms(1) _ assms(3)] assms(3)
    by (auto simp: prefetchNext_def split: if_splits)
  with it1 show ?thesis by (simp add: prefetched_def it_publish_def)
qed

text \<open>The keys a client sees after the iterator has published \<open>k\<close>.\<close>

lemma it_collect_ascending:
  assumes "skiplist_laws sl"
  shows "\<not> it_hasNextKV it \<Longrightarrow> it_prefix it \<noteq> [] \<Longrightarrow>
    sorted_wrt (<) (map fst (it_collect n sl ss it)) \<and> (\<forall>k \<in> fst ` set (it_collect n sl ss it). in_stream it k)"
proof (induction ss arbitrary: it)
  case (Cons s ss)
  show ?case
  proof (cases "\<exists>it'. it_Next n sl s it = Some (True, it')")
    case True
    then obtain it' where it': "it_Next n sl s it = Some (True, it')" by blast
    note r = it_Next_range [OF assms it' Cons.prems(1)]
    have ne: "it_key it' \<noteq> []" using r Cons.prems(2) by (auto simp: in_stream_def)
    have after: "it_key it' < k" if "in_stream it' k" for k
      using that r ne by (simp add: in_stream_def keyBeforeSeek_def) (meson linorder_less_linear)
    have range: "in_stream it k" if "in_stream it' k" for k
      using after [OF that] that r by (auto simp: in_stream_def keyBeforeSeek_def)
    from Cons.IH [of it'] r Cons.prems(2) after range it' show ?thesis by (auto simp: it_Key_def)
  qed (auto split: option.splits prod.splits bool.splits)
qed simp

section \<open>Termination\<close>

definition it_todo :: "baolStreamIterator \<Rightarrow> nat \<times> nat \<times> nat" where
  "it_todo it =
     (unat (it_maxBlockID it) + 1 - unat (it_curBlockID it),
      if it_hasCurrentBlock it then 0 else 1,
      nat (EndOffset (it_curBlockEntry it) - it_nextOffset it))"

lemma u32_int: "int (unat (w :: u32)) < 2 ^ 32"
  using uint_lt2p [of w] by simp

lemma readKeyAt_advances:
  assumes "readKeyAt s off e = Inr (key, keyLen, valueLen, n)" "int (length (dataFile s)) < 2 ^ 62"
  shows "off < i64 (off + n)" "0 \<le> off"
proof -
  have off: "0 \<le> off" "off + 16 \<le> int (length (dataFile s))"
    using assms(1) by (auto simp: readKeyAt_def readAt_def split: if_splits)
  have n: "n = 16 + keyLen + valueLen" "0 \<le> keyLen" "keyLen < 2 ^ 32" "0 \<le> valueLen" "valueLen < 2 ^ 32"
    using assms(1) u32_int by (auto simp: readKeyAt_def Let_def split: if_splits sum.splits prod.splits)
  have "i64 (off + n) = off + n" using off n assms(2) by (intro i64_id) auto
  with n off show "off < i64 (off + n)" "0 \<le> off" by simp_all
qed

lemma prefetch_round_todo:
  assumes "prefetch_round sl s it = (True, it')" "int (length (dataFile s)) < 2 ^ 62" "it_maxBlockID it \<noteq> - 1"
  shows "(it_todo it', it_todo it) \<in> less_than <*lex*> less_than <*lex*> less_than \<and> it_maxBlockID it' = it_maxBlockID it"
proof -
  have le: "unat (it_curBlockID it) \<le> unat (it_maxBlockID it)" "\<not> it_curBlockID it > it_maxBlockID it"
    using assms(1) by (auto simp: prefetch_round_def word_le_nat_alt not_less split: if_splits)
  have "it_curBlockID it \<noteq> - 1" using le assms(3) by (metis word_order.extremum_uniqueI linorder_not_less)
  then have next_block: "unat (it_curBlockID it + 1) = unat (it_curBlockID it) + 1"
    using unatSuc [of "it_curBlockID it"] by (simp add: add.commute eq_neg_iff_add_eq_0)
  consider "load_block s it = None" "it' = it\<lparr>it_curBlockID := it_curBlockID it + 1\<rparr>"
    | it1 where "load_block s it = Some it1" "it' = it1\<lparr>it_curBlockID := it_curBlockID it1 + 1, it_hasCurrentBlock := False\<rparr>"
    | it1 key kl vl n where "load_block s it = Some it1" "it_nextOffset it1 < EndOffset (it_curBlockEntry it1)"
        "readKeyAt s (it_nextOffset it1) (EndOffset (it_curBlockEntry it1)) = Inr (key, kl, vl, n)"
        "it' = it1\<lparr>it_nextOffset := i64 (it_nextOffset it1 + n)\<rparr>"
    using assms(1) by (auto simp: prefetch_round_def split: if_splits prod.splits bool.splits option.splits sum.splits)
  then show ?thesis
  proof cases
    case 1
    then show ?thesis using le(1) next_block by (simp add: it_todo_def Suc_diff_le)
  next
    case 2
    then show ?thesis using load_block_same [OF 2(1)] le(1) next_block by (simp add: it_todo_def Suc_diff_le)
  next
    case (3 it1 key kl vl n)
    note l = load_block_same [OF 3(1)] and adv = readKeyAt_advances [OF 3(3) assms(2)]
    have "nat (EndOffset (it_curBlockEntry it1) - i64 (it_nextOffset it1 + n)) < nat (EndOffset (it_curBlockEntry it1) - it_nextOffset it1)"
      using adv(1) 3(2) by linarith
    with 3 l show ?thesis by (auto simp: it_todo_def)
  qed
qed

lemma prefetch_loop_terminates:
  assumes "int (length (dataFile s)) < 2 ^ 62"
  shows "it_maxBlockID it \<noteq> - 1 \<Longrightarrow> \<exists>n it'. prefetch_loop n sl s it = Some it'"
proof (induction "it_todo it" arbitrary: it rule: wf_induct_rule [OF wf_lex_prod [OF wf_less_than wf_lex_prod [OF wf_less_than wf_less_than]]])
  case 1
  obtain c it1 where r: "prefetch_round sl s it = (c, it1)" by fastforce
  show ?case
  proof (cases c)
    case True
    have "prefetch_round sl s it = (True, it1)" using r True by simp
    from prefetch_round_todo [OF this assms 1(2)]
    obtain n it' where "prefetch_loop n sl s it1 = Some it'" using 1(1) [of it1] 1(2) by auto
    then have "prefetch_loop (Suc n) sl s it = Some it'" using r True by simp
    then show ?thesis by blast
  next
    case False
    then have "prefetch_loop (Suc 0) sl s it = Some it1" using r by simp
    then show ?thesis by blast
  qed
qed

lemma prefetch_loop_more: "prefetch_loop n sl s it = Some it' \<Longrightarrow> n \<le> m \<Longrightarrow> prefetch_loop m sl s it = Some it'"
proof (induction n arbitrary: it m)
  case (Suc n)
  then obtain m' where "m = Suc m'" "n \<le> m'" by (cases m) auto
  with Suc show ?case by (auto split: prod.splits bool.splits)
qed simp

section \<open>A log for the iterator\<close>

text \<open>An entry of the data file as the iterator reads it.\<close>

lemma read_entry_at:
  assumes "dataFile s = xs @ writeLogEntry b k v @ ys" "off = int (length xs)" "length k < 2 ^ 32" "length v < 2 ^ 32"
    and "off + 16 + int (length k) + int (length v) \<le> e" "e < 2 ^ 63"
  shows "readKeyAt s off e = Inr (k, int (length k), int (length v), 16 + int (length k) + int (length v))"
    "readValueAt s off (int (length k)) (int (length v)) = Inr v"
proof -
  let ?h = "PutUint64 b @ PutUint32 (word_of_nat (length k)) @ PutUint32 (word_of_nat (length v))"
  have d: "dataFile s = xs @ ?h @ (k @ v @ ys)" "dataFile s = (xs @ ?h) @ k @ (v @ ys)" "dataFile s = (xs @ ?h @ k) @ v @ ys"
    using assms(1) by (simp_all add: writeLogEntry_def)
  have i: "i64 (off + 16) = off + 16" "i64 (off + (16 + int (length k) + int (length v))) = off + (16 + int (length k) + int (length v))"
      "i64 (off + 16 + int (length k)) = off + 16 + int (length k)"
    using assms(2,5,6) by (simp_all add: i64_id)
  have h: "readAt (dataFile s) off 16 = Inr ?h" by (rule readAt_mid [OF d(1)]) (simp_all add: assms(2))
  have l: "header_lengths ?h = (word_of_nat (length k), word_of_nat (length v))" by (simp add: header_lengths_def)
  have u: "unat (word_of_nat (length k) :: u32) = length k" "unat (word_of_nat (length v) :: u32) = length v"
    using assms(3,4) by (simp_all add: unat_of_nat)
  have "readAt (dataFile s) (off + 16) (length k) = Inr k" by (rule readAt_mid [OF d(2)]) (simp_all add: assms(2))
  then show "readKeyAt s off e = Inr (k, int (length k), int (length v), 16 + int (length k) + int (length v))"
    using assms(3-6) unfolding readKeyAt_def h sum.case l prod.case u Let_def i by simp
  have "readAt (dataFile s) (off + 16 + int (length k)) (length v) = Inr v" by (rule readAt_mid [OF d(3)]) (simp_all add: assms(2))
  then show "readValueAt s off (int (length k)) (int (length v)) = Inr v" unfolding readValueAt_def i by simp
qed

text \<open>
  A log of two blocks outside the window. The first block was written by two appends, the second of
  which brought a key between the two of the first.
\<close>

definition header_key :: "8 word \<Rightarrow> 8 word \<Rightarrow> bytes" where
  "header_key b h = headerPrefix @ [0, 0, 0, 0, 0, 0, 0, b, h]"

definition two_block_log :: "(bytes \<times> kvPointer) list BlockAppendOnlyLog" where
  "two_block_log = \<lparr>dataFile = writeLogEntry 5 (header_key 5 7) [1] @ writeLogEntry 5 (header_key 5 9) [2] @
       writeLogEntry 5 (header_key 5 8) [3] @ writeLogEntry 6 (header_key 6 4) [4],
     dataBuf = [], dataErr = None, currentOffset = 108,
     idx = \<lparr>indexMapFile = [], indexMapOpen = True, indexMetaFile = None, blockIndex = None, minBlockID = 5, latestBlockID = 6,
       indexBuffer = [\<lparr>BlockID = 5, StartOffset = 0, EndOffset = 81\<rparr>, \<lparr>BlockID = 6, StartOffset = 81, EndOffset = 108\<rparr>],
       indexBufferSize = 4, indexBufferFlush = False\<rparr>,
     win = \<lparr>recentN = 2, recentBlocks = Some [], skiplistIndex = [], indexedBlocks = Some {}, indexedBlockKeys = Some Map.empty\<rparr>,
     closed = False\<rparr>"

lemma two_block_reads:
  "readKeyAt two_block_log 0 81 = Inr (header_key 5 7, 10, 1, 27)" "readValueAt two_block_log 0 10 1 = Inr [1]"
  "readKeyAt two_block_log 27 81 = Inr (header_key 5 9, 10, 1, 27)" "readValueAt two_block_log 27 10 1 = Inr [2]"
  "readKeyAt two_block_log 54 81 = Inr (header_key 5 8, 10, 1, 27)"
  "readKeyAt two_block_log 81 108 = Inr (header_key 6 4, 10, 1, 27)" "readValueAt two_block_log 81 10 1 = Inr [4]"
proof -
  have len: "length (header_key b h) = 10" for b h by (simp add: header_key_def headerPrefix_def bytes_of_string_def)
  have e: "length (writeLogEntry b (header_key c h) [x]) = 27" for b c h x by (simp add: writeLogEntry_def len)
  note r = read_entry_at [where s = two_block_log, unfolded two_block_log_def BlockAppendOnlyLog.simps, folded two_block_log_def]
  show "readKeyAt two_block_log 0 81 = Inr (header_key 5 7, 10, 1, 27)" "readValueAt two_block_log 0 10 1 = Inr [1]"
    using r [of "[]" 5 "header_key 5 7" "[1]" _ 0 81] by (simp_all add: len)
  show "readKeyAt two_block_log 27 81 = Inr (header_key 5 9, 10, 1, 27)" "readValueAt two_block_log 27 10 1 = Inr [2]"
    using r [of "writeLogEntry 5 (header_key 5 7) [1]" 5 "header_key 5 9" "[2]" _ 27 81] by (simp_all add: len e)
  show "readKeyAt two_block_log 54 81 = Inr (header_key 5 8, 10, 1, 27)"
    using r(1) [of "writeLogEntry 5 (header_key 5 7) [1] @ writeLogEntry 5 (header_key 5 9) [2]" 5 "header_key 5 8" "[3]" _ 54 81] by (simp add: len e)
  show "readKeyAt two_block_log 81 108 = Inr (header_key 6 4, 10, 1, 27)" "readValueAt two_block_log 81 10 1 = Inr [4]"
    using r [of "writeLogEntry 5 (header_key 5 7) [1] @ writeLogEntry 5 (header_key 5 9) [2] @ writeLogEntry 5 (header_key 5 8) [3]" 6 "header_key 6 4" "[4]" "[]" 81 108]
    by (simp_all add: len e)
qed

definition two_block_iterator :: baolStreamIterator where
  "two_block_iterator = \<lparr>it_baol = True, it_prefix = headerPrefix, it_minBlockID = 5, it_maxBlockID = 6, it_lowerBound = headerPrefix,
     it_seekKey = headerPrefix, it_seekExact = False, it_curBlockID = 5,
     it_curBlockEntry = \<lparr>BlockID = 0, StartOffset = 0, EndOffset = 0\<rparr>, it_hasCurrentBlock = False,
     it_nextOffset = 0, it_hasNextKV = False, it_nextKey = [], it_nextValue = [], it_key = [], it_value = [], it_err = None\<rparr>"

lemma two_block_iterator: "NewIterator headerPrefix [] two_block_log = Inr two_block_iterator"
proof -
  have h: "length headerPrefix = 1" by (simp add: headerPrefix_def bytes_of_string_def)
  then have "stream_startBlock 5 6 headerPrefix = 5" "headerPrefix \<noteq> []"
    by (auto simp: stream_startBlock_def ParseBlockNumberFromKey_def Let_def)
  then show ?thesis by (simp add: NewIterator_def two_block_log_def two_block_iterator_def stream_lowerBound_def Let_def)
qed

lemma two_block_index:
  "getBlockIndexEntry (idx two_block_log) 5 = Some \<lparr>BlockID = 5, StartOffset = 0, EndOffset = 81\<rparr>"
  "getBlockIndexEntry (idx two_block_log) 6 = Some \<lparr>BlockID = 6, StartOffset = 81, EndOffset = 108\<rparr>"
  "prefetchFromMemoryIndex alist_skiplist two_block_log it = (False, it)" "\<not> closed two_block_log"
  by (simp_all add: getBlockIndexEntry_def getBlockIndexEntryWithSource_def buffered_entry_def two_block_log_def
      prefetchFromMemoryIndex_def is_indexed_def window_blocks_def)

lemma two_block_keys:
  "prefix headerPrefix (header_key b h)" "\<not> header_key 5 7 < headerPrefix" "\<not> header_key 5 9 < header_key 5 7" "header_key 5 9 \<noteq> header_key 5 7"
  "header_key 5 8 < header_key 5 9" "header_key 5 9 \<noteq> []" "\<not> header_key 6 4 < header_key 5 9" "header_key 6 4 \<noteq> header_key 5 9"
  by (simp_all add: header_key_def headerPrefix_def bytes_of_string_def)

lemma two_block_collected:
  "it_collect 4 alist_skiplist (replicate 4 two_block_log) two_block_iterator =
     [(header_key 5 7, [1]), (header_key 5 9, [2]), (header_key 6 4, [4])]"
proof -
  have four: "(4 :: nat) = Suc (Suc (Suc (Suc 0)))" by simp
  show ?thesis
    unfolding four replicate.simps
    by (simp add: it_Next_def prefetchNext_def prefetch_round_def two_block_iterator_def load_block_def two_block_index two_block_reads
        two_block_keys keyBeforeSeek_def it_publish_def i64_id it_Key_def it_Value_def)
qed

section \<open>Properties\<close>

text \<open>
  C18. Over any states of the log, also while it is written, an iterator with a nonempty prefix
  gives strictly ascending keys that have the prefix and are not below the lower bound, which
  is the start key or the prefix extended by it. The comment on the function promises the order on
  disk, entry by entry; an entry whose key is not above the last one returned is passed over, as the
  log of the witness shows, where the second append to a block brought a smaller key.
\<close>

theorem stream_iterator_ascending:
  assumes "skiplist_laws sl" "pre \<noteq> []" "NewIterator pre start s = Inr it"
  shows "sorted_wrt (<) (map fst (it_collect n sl ss it)) \<and>
    (\<forall>(k, v) \<in> set (it_collect n sl ss it). prefix pre k \<and> stream_lowerBound pre start \<le> k)"
proof -
  have it: "\<not> it_hasNextKV it" "it_prefix it = pre" "it_seekKey it = stream_lowerBound pre start"
    using assms(3) by (auto simp: NewIterator_def Let_def split: if_splits)
  moreover have "stream_lowerBound pre start \<noteq> []" using assms(2) by (simp add: stream_lowerBound_def)
  ultimately have "prefix pre k \<and> stream_lowerBound pre start \<le> k" if "in_stream it k" for k
    using that assms(2) by (auto simp: in_stream_def keyBeforeSeek_def)
  with it_collect_ascending [OF assms(1) it(1), of n ss] assms(2) it(2) show ?thesis by fastforce
qed

theorem stream_iterator_ascending_witness:
  "NewIterator headerPrefix [] two_block_log = Inr two_block_iterator \<and>
   map fst (it_collect 4 alist_skiplist (replicate 4 two_block_log) two_block_iterator) = [header_key 5 7, header_key 5 9, header_key 6 4] \<and>
   sorted_wrt (<) [header_key 5 7, header_key 5 9, header_key 6 4]"
proof -
  have "headerPrefix \<noteq> []" by (simp add: headerPrefix_def bytes_of_string_def)
  from stream_iterator_ascending [OF alist_skiplist_laws this two_block_iterator, of 4 "replicate 4 two_block_log"] two_block_iterator
  show ?thesis unfolding two_block_collected by simp
qed

text \<open>
  C26. A step of the iterator ends, whatever the files of the log hold, when the data file is below
  \<open>2 ^ 62\<close> bytes and the newest block of the iterator is not the largest number, \<open>2 ^ 64 - 1\<close>: all large
  enough fuels give the same result. With that number the loop of the code may not end, because the
  block number wraps.
\<close>

theorem stream_iterator_terminates:
  assumes "int (length (dataFile s)) < 2 ^ 62" "it_maxBlockID it \<noteq> - 1"
  shows "\<exists>n r. \<forall>m \<ge> n. it_Next m sl s it = Some r"
proof -
  obtain n it' where n: "\<forall>m \<ge> n. prefetch_loop m sl s it = Some it'"
    using prefetch_loop_terminates [OF assms, of sl] prefetch_loop_more by blast
  then have same: "it_Next m sl s it = it_Next n sl s it" if "n \<le> m" for m
    using that by (simp add: it_Next_def prefetchNext_def)
  have "it_Next n sl s it \<noteq> None" using n by (simp add: it_Next_def prefetchNext_def del: not_None_eq)
  then obtain r where "it_Next n sl s it = Some r" by blast
  with same show ?thesis by (intro exI [of _ n] exI [of _ r]) simp
qed

theorem stream_iterator_terminates_witness:
  "\<exists>n r. \<forall>m \<ge> n. it_Next m alist_skiplist two_block_log two_block_iterator = Some r"
proof (rule stream_iterator_terminates)
  show "int (length (dataFile two_block_log)) < 2 ^ 62" by (simp add: two_block_log_def writeLogEntry_def header_key_def headerPrefix_def bytes_of_string_def)
  show "it_maxBlockID two_block_iterator \<noteq> - 1" by (simp add: two_block_iterator_def)
qed

text \<open>
  The condition on the newest block is needed: when it is the largest number and the log has no more
  entries, the block number wraps and the loop goes on forever.
\<close>

lemma iterator_wraps:
  assumes "\<not> closed s" "\<And>b. getBlockIndexEntry (idx s) b = None" "\<And>b. \<not> is_indexed (win s) b"
    and "it_maxBlockID it = - 1" "\<not> it_hasCurrentBlock it"
  shows "prefetch_loop n sl s it = None"
  using assms(4,5)
proof (induction n arbitrary: it)
  case (Suc n)
  have "\<not> it_maxBlockID it < it_curBlockID it" using Suc.prems(1) by (simp add: word_order.not_eq_extremum)
  then have "prefetch_round sl s it = (True, it\<lparr>it_curBlockID := it_curBlockID it + 1\<rparr>)"
    using Suc.prems assms(1-3) by (simp add: prefetch_round_def prefetchFromMemoryIndex_def load_block_def)
  with Suc.IH [of "it\<lparr>it_curBlockID := it_curBlockID it + 1\<rparr>"] Suc.prems show ?case by simp
qed simp

end
