(* ===== verification/Pebble_Store.thy ===== *)
theory Pebble_Store
  imports Theo_Prelude "HOL-Library.Sublist"
begin

text \<open>
  The Pebble-backed key-value store, \<^verbatim>\<open>THEO/pebblestore/pebble.go\<close>: lookups and updates with
  the closed check, prefix iterators, and write batches with their read-your-writes overlay
  and replay. The Pebble database and its batches are a third-party package and a parameter,
  the record \<open>pebble_ops\<close>; \<open>pebble_laws\<close> states what the package documents, relative to the
  contents \<open>view\<close> of a database.
\<close>

section \<open>The Pebble package\<close>

datatype batch_op = BSet bytes bytes | BDelete bytes | BDeleteRange bytes bytes

datatype store_error =
    ErrStoreClosed
  | ErrNotFound
  | ErrPebble nat
  | ErrNoDeleteRange

record ('d, 'b) pebble_ops =
  p_Get :: "'d \<Rightarrow> bytes \<Rightarrow> store_error + bytes"
  p_Set :: "'d \<Rightarrow> bytes \<Rightarrow> bytes \<Rightarrow> store_error option \<times> 'd"
  p_Delete :: "'d \<Rightarrow> bytes \<Rightarrow> store_error option \<times> 'd"
  p_DeleteRange :: "'d \<Rightarrow> bytes \<Rightarrow> bytes \<Rightarrow> store_error option \<times> 'd"
  p_NewIter :: "'d \<Rightarrow> bytes option \<Rightarrow> store_error + (bytes \<times> bytes) list"
  p_Flush :: "'d \<Rightarrow> store_error option \<times> 'd"
  p_Close :: "'d \<Rightarrow> store_error option \<times> 'd"
  p_Open :: "nat \<Rightarrow> nat \<Rightarrow> nat \<Rightarrow> bool \<Rightarrow> store_error + 'd"
  pb_New :: "'b"
  pb_Set :: "'b \<Rightarrow> bytes \<Rightarrow> bytes \<Rightarrow> store_error option \<times> 'b"
  pb_Delete :: "'b \<Rightarrow> bytes \<Rightarrow> store_error option \<times> 'b"
  pb_DeleteRange :: "'b \<Rightarrow> bytes \<Rightarrow> bytes \<Rightarrow> store_error option \<times> 'b"
  pb_Reset :: "'b \<Rightarrow> 'b"
  pb_Reader :: "'b \<Rightarrow> batch_op list"
  pb_Commit :: "'d \<Rightarrow> 'b \<Rightarrow> store_error option \<times> 'd"

type_synonym kv_view = "bytes \<Rightarrow> bytes option"

definition apply_op :: "batch_op \<Rightarrow> kv_view \<Rightarrow> kv_view" where
  "apply_op op m =
     (case op of BSet k v \<Rightarrow> m(k \<mapsto> v) | BDelete k \<Rightarrow> m(k := None)
      | BDeleteRange s e \<Rightarrow> (\<lambda>k. if s \<le> k \<and> k < e then None else m k))"

definition pebble_laws :: "('d, 'b) pebble_ops \<Rightarrow> ('d \<Rightarrow> kv_view) \<Rightarrow> bool" where
  "pebble_laws ops view \<longleftrightarrow>
     (\<forall>d k. p_Get ops d k = (case view d k of None \<Rightarrow> Inl ErrNotFound | Some v \<Rightarrow> Inr v)) \<and>
     (\<forall>d k v d'. p_Set ops d k v = (None, d') \<longrightarrow> view d' = apply_op (BSet k v) (view d)) \<and>
     (\<forall>d k d'. p_Delete ops d k = (None, d') \<longrightarrow> view d' = apply_op (BDelete k) (view d)) \<and>
     (\<forall>d s e d'. p_DeleteRange ops d s e = (None, d') \<longrightarrow> view d' = apply_op (BDeleteRange s e) (view d)) \<and>
     (\<forall>d lo kvs. p_NewIter ops d lo = Inr kvs \<longrightarrow>
        sorted (map fst kvs) \<and> distinct (map fst kvs) \<and>
        (\<forall>k v. (k, v) \<in> set kvs \<longleftrightarrow> view d k = Some v \<and> (case lo of None \<Rightarrow> True | Some l \<Rightarrow> l \<le> k))) \<and>
     (\<forall>d d' r. p_Flush ops d = (r, d') \<longrightarrow> view d' = view d) \<and>
     pb_Reader ops (pb_New ops) = [] \<and> (\<forall>b. pb_Reader ops (pb_Reset ops b) = []) \<and>
     (\<forall>b k v b'. pb_Set ops b k v = (None, b') \<longrightarrow> pb_Reader ops b' = pb_Reader ops b @ [BSet k v]) \<and>
     (\<forall>b k b'. pb_Delete ops b k = (None, b') \<longrightarrow> pb_Reader ops b' = pb_Reader ops b @ [BDelete k]) \<and>
     (\<forall>b s e b'. pb_DeleteRange ops b s e = (None, b') \<longrightarrow> pb_Reader ops b' = pb_Reader ops b @ [BDeleteRange s e]) \<and>
     (\<forall>d b d'. pb_Commit ops d b = (None, d') \<longrightarrow> view d' = fold apply_op (pb_Reader ops b) (view d))"

section \<open>The store\<close>

text \<open>\<open>ps_open\<close> is that the quit channel is not nil; Close sets it to nil.\<close>

record 'd PebbleStore =
  ps_db :: 'd
  ps_open :: bool

definition minCache :: nat where "minCache = 16"
definition minHandles :: nat where "minHandles = 16"
definition defaultCacheValue :: nat where "defaultCacheValue = 16"
definition defaultHandlesValue :: nat where "defaultHandlesValue = 32768"
definition maxMemTableSize :: nat where "maxMemTableSize = 2 ^ 32 - 1"

definition pebble_settings :: "int \<Rightarrow> int \<Rightarrow> nat \<times> nat \<times> nat" where
  "pebble_settings cache handles =
     (let cache1 = (if cache \<le> 0 then int defaultCacheValue else cache);
          handles1 = (if handles \<le> 0 then int defaultHandlesValue else handles);
          cache2 = (if cache1 < int minCache then int minCache else cache1);
          handles2 = (if handles1 < int minHandles then int minHandles else handles1);
          memTableSize = nat cache2 * 1024 * 1024 div 4 in
      (nat cache2 * 1024 * 1024, nat handles2,
       if memTableSize \<ge> maxMemTableSize then maxMemTableSize - 1 else memTableSize))"

definition NewPebbleStore :: "('d, 'b) pebble_ops \<Rightarrow> int \<Rightarrow> int \<Rightarrow> bool \<Rightarrow> store_error + 'd PebbleStore" where
  "NewPebbleStore ops cache handles readonly =
     (case pebble_settings cache handles of (c, h, m) \<Rightarrow>
        (case p_Open ops c h m readonly of
           Inl e \<Rightarrow> Inl e | Inr d \<Rightarrow> Inr \<lparr>ps_db = d, ps_open = True\<rparr>))"

definition ps_Close :: "('d, 'b) pebble_ops \<Rightarrow> 'd PebbleStore \<Rightarrow> store_error option \<times> 'd PebbleStore" where
  "ps_Close ops s =
     (if \<not> ps_open s then (None, s)
      else case p_Close ops (ps_db s) of (r, d) \<Rightarrow> (r, \<lparr>ps_db = d, ps_open = False\<rparr>))"

definition ps_Has :: "('d, 'b) pebble_ops \<Rightarrow> bytes \<Rightarrow> 'd PebbleStore \<Rightarrow> store_error + int \<times> bool" where
  "ps_Has ops key s =
     (if \<not> ps_open s then Inl ErrStoreClosed
      else case p_Get ops (ps_db s) key of
          Inl ErrNotFound \<Rightarrow> Inr (-1, False)
        | Inl e \<Rightarrow> Inl e
        | Inr v \<Rightarrow> Inr (int (length v), True))"

definition ps_Get :: "('d, 'b) pebble_ops \<Rightarrow> bytes \<Rightarrow> 'd PebbleStore \<Rightarrow> store_error + bytes" where
  "ps_Get ops key s =
     (if \<not> ps_open s then Inl ErrStoreClosed
      else case p_Get ops (ps_db s) key of
          Inl e \<Rightarrow> Inl (if e = ErrNotFound then ErrNotFound else e)
        | Inr v \<Rightarrow> Inr v)"

definition ps_Put :: "('d, 'b) pebble_ops \<Rightarrow> bytes \<Rightarrow> bytes \<Rightarrow> 'd PebbleStore \<Rightarrow> store_error option \<times> 'd PebbleStore" where
  "ps_Put ops key val s =
     (if \<not> ps_open s then (Some ErrStoreClosed, s)
      else case p_Set ops (ps_db s) key val of (r, d) \<Rightarrow> (r, s\<lparr>ps_db := d\<rparr>))"

definition ps_Delete :: "('d, 'b) pebble_ops \<Rightarrow> bytes \<Rightarrow> 'd PebbleStore \<Rightarrow> store_error option \<times> 'd PebbleStore" where
  "ps_Delete ops key s =
     (if \<not> ps_open s then (Some ErrStoreClosed, s)
      else case p_Delete ops (ps_db s) key of (r, d) \<Rightarrow> (r, s\<lparr>ps_db := d\<rparr>))"

text \<open>Unlike the other updates, a range deletion does not look at the quit channel.\<close>

definition ps_DeleteRange ::
  "('d, 'b) pebble_ops \<Rightarrow> bytes \<Rightarrow> bytes \<Rightarrow> 'd PebbleStore \<Rightarrow> store_error option \<times> 'd PebbleStore" where
  "ps_DeleteRange ops st en s = (case p_DeleteRange ops (ps_db s) st en of (r, d) \<Rightarrow> (r, s\<lparr>ps_db := d\<rparr>))"

definition ps_Flush :: "('d, 'b) pebble_ops \<Rightarrow> 'd PebbleStore \<Rightarrow> store_error option \<times> 'd PebbleStore" where
  "ps_Flush ops s =
     (if \<not> ps_open s then (Some ErrStoreClosed, s)
      else case p_Flush ops (ps_db s) of (r, d) \<Rightarrow> (r, s\<lparr>ps_db := d\<rparr>))"

section \<open>Iterators\<close>

text \<open>
  \<open>pi_at\<close> is the element the underlying iterator stands on, \<open>pi_rest\<close> those after it;
  \<open>pi_iter\<close> is that the underlying iterator exists and has not been released.
\<close>

record pebbleIterator =
  pi_iter :: bool
  pi_at :: "(bytes \<times> bytes) option"
  pi_rest :: "(bytes \<times> bytes) list"
  pi_prefix :: "bytes option"
  pi_initErr :: "store_error option"
  pi_moved :: bool

definition iter_lowerBound :: "bytes \<Rightarrow> bytes \<Rightarrow> bytes option" where
  "iter_lowerBound pre start =
     (if start \<noteq> [] then
        (if pre \<noteq> [] \<and> \<not> prefix pre start then Some (pre @ start) else Some start)
      else if pre \<noteq> [] then Some pre else None)"

definition ps_NewIterator :: "('d, 'b) pebble_ops \<Rightarrow> bytes option \<Rightarrow> bytes \<Rightarrow> 'd PebbleStore \<Rightarrow> pebbleIterator" where
  "ps_NewIterator ops pre start s =
     (case p_NewIter ops (ps_db s) (iter_lowerBound (case pre of None \<Rightarrow> [] | Some p \<Rightarrow> p) start) of
        Inl e \<Rightarrow> \<lparr>pi_iter = False, pi_at = None, pi_rest = [], pi_prefix = pre, pi_initErr = Some e, pi_moved = False\<rparr>
      | Inr kvs \<Rightarrow> \<lparr>pi_iter = True, pi_at = None, pi_rest = kvs, pi_prefix = pre, pi_initErr = None, pi_moved = False\<rparr>)"

definition pi_Next :: "pebbleIterator \<Rightarrow> bool \<times> pebbleIterator" where
  "pi_Next it =
     (if pi_initErr it \<noteq> None \<or> \<not> pi_iter it then (False, it)
      else let it1 = it\<lparr>pi_moved := True\<rparr> in
        case pi_rest it1 of
          [] \<Rightarrow> (False, it1\<lparr>pi_at := None\<rparr>)
        | (k, v) # kvs \<Rightarrow>
            (case pi_prefix it1 of None \<Rightarrow> True | Some p \<Rightarrow> prefix p k, it1\<lparr>pi_at := Some (k, v), pi_rest := kvs\<rparr>))"

definition pi_Key :: "pebbleIterator \<Rightarrow> bytes option" where
  "pi_Key it = (if pi_initErr it \<noteq> None \<or> \<not> pi_iter it then None else map_option fst (pi_at it))"

definition pi_Value :: "pebbleIterator \<Rightarrow> bytes option" where
  "pi_Value it = (if pi_initErr it \<noteq> None \<or> \<not> pi_iter it then None else map_option snd (pi_at it))"

definition pi_Error :: "pebbleIterator \<Rightarrow> store_error option" where
  "pi_Error it = pi_initErr it"

definition pi_Release :: "pebbleIterator \<Rightarrow> pebbleIterator" where
  "pi_Release it = it\<lparr>pi_iter := False, pi_at := None, pi_rest := []\<rparr>"

text \<open>The loop every client runs: \<^verbatim>\<open>for it.Next() { it.Key(), it.Value() }\<close>.\<close>

fun pi_collect :: "nat \<Rightarrow> pebbleIterator \<Rightarrow> (bytes \<times> bytes) list" where
  "pi_collect 0 it = []"
| "pi_collect (Suc n) it =
     (case pi_Next it of
        (False, it') \<Rightarrow> []
      | (True, it') \<Rightarrow> (case pi_at it' of None \<Rightarrow> [] | Some kv \<Rightarrow> kv # pi_collect n it'))"

section \<open>Batches\<close>

text \<open>
  A nil value in the overlay marks a deleted key. The underlying batch is there from the
  creation of the wrapper on, so its nil checks never fire.
\<close>

record 'b pebbleBatch =
  bt_b :: 'b
  bt_kvs :: "(bytes \<times> bytes option) list"
  bt_size :: int

definition ps_NewBatch :: "('d, 'b) pebble_ops \<Rightarrow> 'b pebbleBatch" where
  "ps_NewBatch ops = \<lparr>bt_b = pb_New ops, bt_kvs = [], bt_size = 0\<rparr>"

definition BatchGet :: "bytes \<Rightarrow> 'b pebbleBatch \<Rightarrow> bytes option \<times> bool" where
  "BatchGet key b =
     (case map_of (bt_kvs b) key of None \<Rightarrow> (None, False) | Some v \<Rightarrow> (v, True))"

definition bt_Put :: "('d, 'b) pebble_ops \<Rightarrow> bytes \<Rightarrow> bytes \<Rightarrow> 'b pebbleBatch \<Rightarrow> store_error option \<times> 'b pebbleBatch" where
  "bt_Put ops key val b =
     (case pb_Set ops (bt_b b) key val of
        (Some e, x) \<Rightarrow> (Some e, b\<lparr>bt_b := x\<rparr>)
      | (None, x) \<Rightarrow>
          (None, b\<lparr>bt_b := x, bt_kvs := AList.update key (Some val) (bt_kvs b),
                   bt_size := bt_size b + int (length key) + int (length val)\<rparr>))"

definition bt_Delete :: "('d, 'b) pebble_ops \<Rightarrow> bytes \<Rightarrow> 'b pebbleBatch \<Rightarrow> store_error option \<times> 'b pebbleBatch" where
  "bt_Delete ops key b =
     (case pb_Delete ops (bt_b b) key of
        (Some e, x) \<Rightarrow> (Some e, b\<lparr>bt_b := x\<rparr>)
      | (None, x) \<Rightarrow>
          (None, b\<lparr>bt_b := x, bt_kvs := AList.update key None (bt_kvs b), bt_size := bt_size b + int (length key)\<rparr>))"

definition maxBatchKey :: bytes where "maxBatchKey = replicate 32 255"

definition bt_DeleteRange ::
  "('d, 'b) pebble_ops \<Rightarrow> bytes \<Rightarrow> bytes option \<Rightarrow> 'b pebbleBatch \<Rightarrow> store_error option \<times> 'b pebbleBatch" where
  "bt_DeleteRange ops st en b =
     (let en' = (case en of None \<Rightarrow> maxBatchKey | Some e \<Rightarrow> e) in
      case pb_DeleteRange ops (bt_b b) st en' of
        (Some e, x) \<Rightarrow> (Some e, b\<lparr>bt_b := x\<rparr>)
      | (None, x) \<Rightarrow> (None, b\<lparr>bt_b := x, bt_size := bt_size b + int (length st) + int (length en')\<rparr>))"

definition bt_ValueSize :: "'b pebbleBatch \<Rightarrow> int" where
  "bt_ValueSize b = bt_size b"

definition bt_Write :: "('d, 'b) pebble_ops \<Rightarrow> 'b pebbleBatch \<Rightarrow> 'd PebbleStore \<Rightarrow> store_error option \<times> 'd PebbleStore" where
  "bt_Write ops b s = (case pb_Commit ops (ps_db s) (bt_b b) of (r, d) \<Rightarrow> (r, s\<lparr>ps_db := d\<rparr>))"

definition bt_Reset :: "('d, 'b) pebble_ops \<Rightarrow> 'b pebbleBatch \<Rightarrow> 'b pebbleBatch" where
  "bt_Reset ops b = b\<lparr>bt_b := pb_Reset ops (bt_b b), bt_kvs := [], bt_size := 0\<rparr>"

text \<open>
  Replay of the recorded operations into a writer, an \<^verbatim>\<open>ethdb.KeyValueWriter\<close> that may also
  delete ranges. The writer is given by its three methods on a state.
\<close>

record 'w kv_writer =
  w_Put :: "bytes \<Rightarrow> bytes \<Rightarrow> 'w \<Rightarrow> store_error option \<times> 'w"
  w_Delete :: "bytes \<Rightarrow> 'w \<Rightarrow> store_error option \<times> 'w"
  w_DeleteRange :: "(bytes \<Rightarrow> bytes \<Rightarrow> 'w \<Rightarrow> store_error option \<times> 'w) option"

fun replay_ops :: "'w kv_writer \<Rightarrow> batch_op list \<Rightarrow> 'w \<Rightarrow> store_error option \<times> 'w" where
  "replay_ops w [] st = (None, st)"
| "replay_ops w (op # rest) st =
     (case (case op of
              BSet k v \<Rightarrow> w_Put w k v st
            | BDelete k \<Rightarrow> w_Delete w k st
            | BDeleteRange a e \<Rightarrow> (case w_DeleteRange w of None \<Rightarrow> (Some ErrNoDeleteRange, st) | Some f \<Rightarrow> f a e st)) of
        (Some err, st') \<Rightarrow> (Some err, st')
      | (None, st') \<Rightarrow> replay_ops w rest st')"

definition bt_Replay :: "('d, 'b) pebble_ops \<Rightarrow> 'w kv_writer \<Rightarrow> 'b pebbleBatch \<Rightarrow> 'w \<Rightarrow> store_error option \<times> 'w" where
  "bt_Replay ops w b st = replay_ops w (pb_Reader ops (bt_b b)) st"

section \<open>An instance of the package\<close>

text \<open>For evaluation: a database as an association list, a batch as the list of its operations.\<close>

definition alist_op :: "batch_op \<Rightarrow> (bytes \<times> bytes) list \<Rightarrow> (bytes \<times> bytes) list" where
  "alist_op op d =
     (case op of BSet k v \<Rightarrow> (k, v) # d | BDelete k \<Rightarrow> filter (\<lambda>e. fst e \<noteq> k) d
      | BDeleteRange s e \<Rightarrow> filter (\<lambda>x. \<not> (s \<le> fst x \<and> fst x < e)) d)"

definition alist_pebble :: "((bytes \<times> bytes) list, batch_op list) pebble_ops" where
  "alist_pebble = \<lparr>
     p_Get = (\<lambda>d k. case map_of d k of None \<Rightarrow> Inl ErrNotFound | Some v \<Rightarrow> Inr v),
     p_Set = (\<lambda>d k v. (None, alist_op (BSet k v) d)),
     p_Delete = (\<lambda>d k. (None, alist_op (BDelete k) d)),
     p_DeleteRange = (\<lambda>d s e. (None, alist_op (BDeleteRange s e) d)),
     p_NewIter = (\<lambda>d lo. Inr (filter (\<lambda>x. case lo of None \<Rightarrow> True | Some l \<Rightarrow> l \<le> fst x) (sort_key fst (AList.clearjunk d)))),
     p_Flush = (\<lambda>d. (None, d)), p_Close = (\<lambda>d. (None, d)), p_Open = (\<lambda>_ _ _ _. Inr []),
     pb_New = [], pb_Set = (\<lambda>b k v. (None, b @ [BSet k v])), pb_Delete = (\<lambda>b k. (None, b @ [BDelete k])),
     pb_DeleteRange = (\<lambda>b s e. (None, b @ [BDeleteRange s e])), pb_Reset = (\<lambda>_. []), pb_Reader = (\<lambda>b. b),
     pb_Commit = (\<lambda>d b. (None, fold alist_op b d))\<rparr>"

lemma map_of_filter_fst: "map_of (filter (\<lambda>x. P (fst x)) d) = (\<lambda>k. if P k then map_of d k else None)"
  by (induction d) (auto simp: fun_eq_iff)

lemma map_of_alist_op: "map_of (alist_op op d) = apply_op op (map_of d)"
proof (cases op)
  case (BDelete k)
  then show ?thesis using map_of_filter_fst [of "\<lambda>x. x \<noteq> k" d] by (auto simp: alist_op_def apply_op_def fun_eq_iff)
next
  case (BDeleteRange s e)
  then show ?thesis using map_of_filter_fst [of "\<lambda>x. \<not> (s \<le> x \<and> x < e)" d] by (auto simp: alist_op_def apply_op_def fun_eq_iff)
qed (simp add: alist_op_def apply_op_def)

lemma map_of_fold_alist_op: "map_of (fold alist_op b d) = fold apply_op b (map_of d)"
  by (induction b arbitrary: d) (simp_all add: map_of_alist_op)

lemma distinct_fst_sorted_alist: "distinct (map fst (sort_key fst (AList.clearjunk d)))"
  by (metis distinct_clearjunk distinct_map distinct_sort inj_on_def set_sort)

lemma alist_pebble_laws: "pebble_laws alist_pebble map_of"
proof -
  have iter: "sorted (map fst (filter P (sort_key fst (AList.clearjunk d)))) \<and>
      distinct (map fst (filter P (sort_key fst (AList.clearjunk d))))" for P and d :: "(bytes \<times> bytes) list"
    using distinct_fst_sorted_alist [of d] by (simp add: sorted_filter distinct_map_filter)
  have mem: "(k, v) \<in> set (sort_key fst (AList.clearjunk d)) \<longleftrightarrow> map_of d k = Some v" for k v and d :: "(bytes \<times> bytes) list"
    using map_of_eq_Some_iff [OF distinct_clearjunk, of d k v] by (simp add: map_of_clearjunk)
  show ?thesis
    unfolding pebble_laws_def alist_pebble_def
    using iter mem by (auto simp: map_of_alist_op map_of_fold_alist_op split: option.splits)
qed

section \<open>Prefix iteration\<close>

lemma prefix_le: "prefix p k \<Longrightarrow> p \<le> (k :: bytes)"
  by (induction p arbitrary: k) (auto simp: prefix_def)

lemma prefix_convex:
  "p \<le> k \<Longrightarrow> \<not> prefix p k \<Longrightarrow> k \<le> k' \<Longrightarrow> \<not> prefix p (k' :: bytes)"
proof (induction p arbitrary: k k')
  case (Cons a p)
  then show ?case by (cases k; cases k') (auto simp: Cons_le_Cons)
qed simp

lemma takeWhile_prefix:
  "sorted (map fst kvs) \<Longrightarrow> \<forall>x \<in> set kvs. p \<le> fst x \<Longrightarrow>
   takeWhile (\<lambda>x. prefix p (fst x)) kvs = filter (\<lambda>x. prefix (p :: bytes) (fst x)) kvs"
proof (induction kvs)
  case (Cons x kvs)
  show ?case
  proof (cases "prefix p (fst x)")
    case False
    have "\<not> prefix p (fst y)" if "y \<in> set kvs" for y
      using prefix_convex [of p "fst x" "fst y"] Cons.prems that False by simp
    with False show ?thesis by (simp add: filter_empty_conv)
  qed (use Cons in simp)
qed simp

lemma pi_collect_takeWhile:
  "pi_iter it \<Longrightarrow> pi_initErr it = None \<Longrightarrow> length (pi_rest it) < n \<Longrightarrow>
   pi_collect n it = takeWhile (\<lambda>x. case pi_prefix it of None \<Rightarrow> True | Some p \<Rightarrow> prefix p (fst x)) (pi_rest it)"
proof (induction n arbitrary: it)
  case (Suc n)
  show ?case
  proof (cases "pi_rest it")
    case (Cons x kvs)
    obtain k v where x: "x = (k, v)" by (cases x)
    let ?it = "it\<lparr>pi_moved := True, pi_at := Some (k, v), pi_rest := kvs\<rparr>"
    have "pi_collect n ?it = takeWhile (\<lambda>x. case pi_prefix it of None \<Rightarrow> True | Some p \<Rightarrow> prefix p (fst x)) kvs"
      using Suc.IH [of ?it] Suc.prems Cons by simp
    with Suc.prems Cons x show ?thesis by (auto simp: pi_Next_def Let_def split: bool.splits option.splits)
  qed (use Suc.prems in \<open>simp add: pi_Next_def Let_def\<close>)
qed simp

definition in_range :: "bytes \<Rightarrow> bytes \<Rightarrow> bytes \<Rightarrow> bool" where
  "in_range pre start k \<longleftrightarrow> prefix pre k \<and> (if prefix pre start then start \<le> k else pre @ start \<le> k)"

lemma lowerBound_range:
  "prefix pre k \<and> (case iter_lowerBound pre start of None \<Rightarrow> True | Some l \<Rightarrow> l \<le> k) \<longleftrightarrow> in_range pre start k"
  "(case iter_lowerBound pre start of None \<Rightarrow> True | Some l \<Rightarrow> l \<le> k) \<Longrightarrow> pre \<le> k"
proof -
  have "pre \<le> pre @ start" by (rule prefix_le) simp
  then show "(case iter_lowerBound pre start of None \<Rightarrow> True | Some l \<Rightarrow> l \<le> k) \<Longrightarrow> pre \<le> k"
    by (auto simp: iter_lowerBound_def split: if_splits dest: prefix_le)
  show "prefix pre k \<and> (case iter_lowerBound pre start of None \<Rightarrow> True | Some l \<Rightarrow> l \<le> k) \<longleftrightarrow> in_range pre start k"
    by (auto simp: iter_lowerBound_def in_range_def prefix_le)
qed

section \<open>Batches against the store\<close>

definition bt_apply :: "('d, 'b) pebble_ops \<Rightarrow> batch_op \<Rightarrow> 'b pebbleBatch \<Rightarrow> store_error option \<times> 'b pebbleBatch" where
  "bt_apply ops op b =
     (case op of BSet k v \<Rightarrow> bt_Put ops k v b | BDelete k \<Rightarrow> bt_Delete ops k b | BDeleteRange s e \<Rightarrow> bt_DeleteRange ops s (Some e) b)"

fun bt_run :: "('d, 'b) pebble_ops \<Rightarrow> batch_op list \<Rightarrow> 'b pebbleBatch \<Rightarrow> store_error option \<times> 'b pebbleBatch" where
  "bt_run ops [] b = (None, b)"
| "bt_run ops (op # rest) b =
     (case bt_apply ops op b of (Some e, b') \<Rightarrow> (Some e, b') | (None, b') \<Rightarrow> bt_run ops rest b')"

primrec op_size :: "batch_op \<Rightarrow> nat" where
  "op_size (BSet k v) = length k + length v"
| "op_size (BDelete k) = length k"
| "op_size (BDeleteRange s e) = length s + length e"

fun is_range :: "batch_op \<Rightarrow> bool" where
  "is_range (BDeleteRange s e) = True"
| "is_range op = False"

text \<open>The overlay tells what the recorded operations do to each key.\<close>

definition overlay_ok :: "('d, 'b) pebble_ops \<Rightarrow> 'b pebbleBatch \<Rightarrow> bool" where
  "overlay_ok ops b \<longleftrightarrow>
     (\<forall>m k. fold apply_op (pb_Reader ops (bt_b b)) m k = (case map_of (bt_kvs b) k of None \<Rightarrow> m k | Some v \<Rightarrow> v))"

lemma pebble_law_reader:
  assumes "pebble_laws ops view"
  shows "pb_Set ops x k v = (None, x') \<Longrightarrow> pb_Reader ops x' = pb_Reader ops x @ [BSet k v]"
    "pb_Delete ops x k = (None, x') \<Longrightarrow> pb_Reader ops x' = pb_Reader ops x @ [BDelete k]"
    "pb_DeleteRange ops x st en = (None, x') \<Longrightarrow> pb_Reader ops x' = pb_Reader ops x @ [BDeleteRange st en]"
    "pb_Reader ops (pb_New ops) = []"
    "pb_Commit ops d x = (None, d') \<Longrightarrow> view d' = fold apply_op (pb_Reader ops x) (view d)"
  using assms unfolding pebble_laws_def by blast+

lemma pebble_law_db:
  assumes "pebble_laws ops view"
  shows "p_Get ops d k = (case view d k of None \<Rightarrow> Inl ErrNotFound | Some v \<Rightarrow> Inr v)"
    "p_Set ops d k v = (None, d') \<Longrightarrow> view d' = apply_op (BSet k v) (view d)"
    "p_Delete ops d k = (None, d') \<Longrightarrow> view d' = apply_op (BDelete k) (view d)"
    "p_DeleteRange ops d st en = (None, d') \<Longrightarrow> view d' = apply_op (BDeleteRange st en) (view d)"
  using assms by (simp_all add: pebble_laws_def)

lemma pebble_law_iter:
  assumes "pebble_laws ops view" "p_NewIter ops d lo = Inr kvs"
  shows "sorted (map fst kvs)" "distinct (map fst kvs)"
    "(k, v) \<in> set kvs \<longleftrightarrow> view d k = Some v \<and> (case lo of None \<Rightarrow> True | Some l \<Rightarrow> l \<le> k)"
  using assms by (simp_all add: pebble_laws_def)

lemma bt_apply_reader:
  assumes "pebble_laws ops view" "bt_apply ops op b = (None, b')"
  shows "pb_Reader ops (bt_b b') = pb_Reader ops (bt_b b) @ [op]" "bt_size b' = bt_size b + int (op_size op)"
  using assms pebble_law_reader [OF assms(1)]
  by (auto simp: bt_apply_def bt_Put_def bt_Delete_def bt_DeleteRange_def Let_def split: batch_op.splits prod.splits option.splits)

lemma bt_apply_overlay:
  assumes laws: "pebble_laws ops view" and ap: "bt_apply ops op b = (None, b')" and "\<not> is_range op" "overlay_ok ops b"
  shows "overlay_ok ops b'"
proof (cases op)
  case (BSet k v)
  then have "bt_kvs b' = AList.update k (Some v) (bt_kvs b)"
    using ap by (auto simp: bt_apply_def bt_Put_def split: prod.splits option.splits)
  with assms(4) BSet bt_apply_reader(1) [OF laws ap] show ?thesis
    by (auto simp: overlay_ok_def apply_op_def update_conv')
next
  case (BDelete k)
  then have "bt_kvs b' = AList.update k None (bt_kvs b)"
    using ap by (auto simp: bt_apply_def bt_Delete_def split: prod.splits option.splits)
  with assms(4) BDelete bt_apply_reader(1) [OF laws ap] show ?thesis
    by (auto simp: overlay_ok_def apply_op_def update_conv')
qed (use assms(3) in simp)

lemma bt_run_reader:
  assumes "pebble_laws ops view"
  shows "bt_run ops os b = (None, b') \<Longrightarrow>
    pb_Reader ops (bt_b b') = pb_Reader ops (bt_b b) @ os \<and> bt_size b' = bt_size b + int (sum_list (map op_size os))"
proof (induction os arbitrary: b)
  case (Cons op os)
  then obtain b1 where b1: "bt_apply ops op b = (None, b1)" "bt_run ops os b1 = (None, b')"
    by (auto split: prod.splits option.splits)
  with Cons.IH [OF b1(2)] bt_apply_reader [OF assms b1(1)] show ?case by simp
qed simp

lemma bt_run_overlay:
  assumes "pebble_laws ops view"
  shows "bt_run ops os b = (None, b') \<Longrightarrow> \<forall>op \<in> set os. \<not> is_range op \<Longrightarrow> overlay_ok ops b \<Longrightarrow> overlay_ok ops b'"
proof (induction os arbitrary: b)
  case (Cons op os)
  then obtain b1 where b1: "bt_apply ops op b = (None, b1)" "bt_run ops os b1 = (None, b')"
    by (auto split: prod.splits option.splits)
  with Cons.IH [OF b1(2)] Cons.prems bt_apply_overlay [OF assms b1(1)] show ?case by simp
qed simp

lemma ps_Get_view:
  "pebble_laws ops view \<Longrightarrow> ps_open s \<Longrightarrow> ps_Get ops k s = (case view (ps_db s) k of None \<Rightarrow> Inl ErrNotFound | Some v \<Rightarrow> Inr v)"
  by (simp add: ps_Get_def pebble_law_db split: option.splits)

lemma bt_Write_view:
  assumes "pebble_laws ops view" "bt_Write ops b s = (None, s')"
  shows "view (ps_db s') = fold apply_op (pb_Reader ops (bt_b b)) (view (ps_db s))" "ps_open s' = ps_open s"
  using assms(2) pebble_law_reader(5) [OF assms(1)] by (auto simp: bt_Write_def split: prod.splits)

text \<open>The store as the target of a replay.\<close>

definition store_writer :: "('d, 'b) pebble_ops \<Rightarrow> 'd PebbleStore kv_writer" where
  "store_writer ops = \<lparr>w_Put = ps_Put ops, w_Delete = ps_Delete ops, w_DeleteRange = Some (ps_DeleteRange ops)\<rparr>"

lemma replay_ops_view:
  assumes "pebble_laws ops view"
  shows "replay_ops (store_writer ops) os s = (None, s') \<Longrightarrow> view (ps_db s') = fold apply_op os (view (ps_db s)) \<and> ps_open s' = ps_open s"
proof (induction os arbitrary: s)
  case (Cons op os)
  show ?case
  proof (cases op)
    case (BSet k v)
    with Cons pebble_law_db(2) [OF assms] show ?thesis
      by (fastforce simp: store_writer_def ps_Put_def split: if_splits prod.splits option.splits)
  next
    case (BDelete k)
    with Cons pebble_law_db(3) [OF assms] show ?thesis
      by (fastforce simp: store_writer_def ps_Delete_def split: if_splits prod.splits option.splits)
  next
    case (BDeleteRange a e)
    with Cons pebble_law_db(4) [OF assms] show ?thesis
      by (fastforce simp: store_writer_def ps_DeleteRange_def split: if_splits prod.splits option.splits)
  qed
qed simp

section \<open>Properties\<close>

text \<open>
  C27. An iterator over a prefix visits exactly the bindings of the store whose key has the
  prefix and is not below the start, in ascending order, each once; a start without the prefix
  is taken relative to it.
\<close>

theorem pebble_iterator_range:
  assumes "pebble_laws ops view" "p_NewIter ops (ps_db s) (iter_lowerBound pre start) = Inr kvs" "length kvs < n"
  shows "set (pi_collect n (ps_NewIterator ops (Some pre) start s)) = {(k, v). view (ps_db s) k = Some v \<and> in_range pre start k} \<and>
    sorted (map fst (pi_collect n (ps_NewIterator ops (Some pre) start s))) \<and>
    distinct (map fst (pi_collect n (ps_NewIterator ops (Some pre) start s)))"
proof -
  note kvs = pebble_law_iter [OF assms(1,2)]
  have "\<forall>x \<in> set kvs. pre \<le> fst x" using kvs(3) lowerBound_range(2) by (metis prod.collapse)
  then have col: "pi_collect n (ps_NewIterator ops (Some pre) start s) = filter (\<lambda>x. prefix pre (fst x)) kvs"
    using pi_collect_takeWhile [of "ps_NewIterator ops (Some pre) start s" n] takeWhile_prefix [OF kvs(1)] assms(2,3)
    by (simp add: ps_NewIterator_def)
  have "set (filter (\<lambda>x. prefix pre (fst x)) kvs) = {(k, v). view (ps_db s) k = Some v \<and> in_range pre start k}"
    by (auto simp: kvs(3) lowerBound_range(1) [symmetric])
  with kvs(1,2) col show ?thesis by (simp add: sorted_filter distinct_map_filter)
qed

theorem pebble_iterator_range_witness:
  "set (pi_collect 5 (ps_NewIterator alist_pebble (Some [1]) [2] \<lparr>ps_db = [([1, 3], [9]), ([1], [8]), ([2], [7])], ps_open = True\<rparr>)) =
     {(k, v). map_of [([1, 3], [9]), ([1], [8]), ([2], [7])] k = Some v \<and> in_range [1] [2] k}"
proof -
  let ?s = "\<lparr>ps_db = [([1, 3], [9]), ([1], [8]), ([2], [7])], ps_open = True\<rparr> :: (bytes \<times> bytes) list PebbleStore"
  obtain kvs where "p_NewIter alist_pebble (ps_db ?s) (iter_lowerBound [1] [2]) = Inr kvs" "length kvs < 5"
    by (simp add: alist_pebble_def le_imp_less_Suc)
  from pebble_iterator_range [OF alist_pebble_laws this] show ?thesis by simp
qed

text \<open>
  C28. A batch of puts and deletions reads its own writes: what its overlay reports for a key is
  what the store holds after the batch is written, other keys keep their value, and its size
  is the sum of the lengths recorded.
\<close>

theorem batch_read_your_writes:
  assumes "pebble_laws ops view" "\<forall>op \<in> set os. \<not> is_range op" "bt_run ops os (ps_NewBatch ops) = (None, b)"
    and "bt_Write ops b s = (None, s')" "ps_open s"
  shows "ps_Get ops k s' =
      (case BatchGet k b of (Some v, found) \<Rightarrow> Inr v | (None, found) \<Rightarrow> if found then Inl ErrNotFound else ps_Get ops k s) \<and>
    bt_ValueSize b = int (sum_list (map op_size os))"
proof -
  have "overlay_ok ops (ps_NewBatch ops)" using pebble_law_reader(4) [OF assms(1)] by (simp add: overlay_ok_def ps_NewBatch_def)
  then have ov: "overlay_ok ops b" using bt_run_overlay [OF assms(1,3,2)] by blast
  have "bt_ValueSize b = int (sum_list (map op_size os))"
    using bt_run_reader [OF assms(1,3)] by (simp add: bt_ValueSize_def ps_NewBatch_def)
  moreover have "view (ps_db s') k = (case map_of (bt_kvs b) k of None \<Rightarrow> view (ps_db s) k | Some v \<Rightarrow> v)"
    using bt_Write_view(1) [OF assms(1,4)] ov by (simp add: overlay_ok_def)
  ultimately show ?thesis
    using ps_Get_view [OF assms(1), of s' k] ps_Get_view [OF assms(1,5), of k] bt_Write_view(2) [OF assms(1,4)] assms(5)
    by (simp add: BatchGet_def split: option.splits)
qed

theorem batch_read_your_writes_witness:
  "\<exists>b s'. bt_run alist_pebble [BSet [1] [2], BDelete [3]] (ps_NewBatch alist_pebble) = (None, b) \<and>
     bt_Write alist_pebble b \<lparr>ps_db = [([3], [4])], ps_open = True\<rparr> = (None, s') \<and>
     ps_Get alist_pebble [3] s' = Inl ErrNotFound \<and> bt_ValueSize b = 3"
proof -
  obtain b where b: "bt_run alist_pebble [BSet [1] [2], BDelete [3]] (ps_NewBatch alist_pebble) = (None, b)" "BatchGet [3] b = (None, True)"
    by (simp add: alist_pebble_def bt_apply_def bt_Put_def bt_Delete_def ps_NewBatch_def BatchGet_def)
  obtain s' where s': "bt_Write alist_pebble b \<lparr>ps_db = [([3], [4])], ps_open = True\<rparr> = (None, s')"
    by (simp add: alist_pebble_def bt_Write_def)
  from batch_read_your_writes [OF alist_pebble_laws _ b(1) s', of "[3]"] b s' show ?thesis by auto
qed

text \<open>
  Replaying a batch into the store gives the same store contents as writing it.
\<close>

theorem batch_replay_equals_write:
  assumes "pebble_laws ops view" "bt_run ops os (ps_NewBatch ops) = (None, b)" "ps_open s"
    and "bt_Write ops b s = (None, s1)" "bt_Replay ops (store_writer ops) b s = (None, s2)"
  shows "ps_Get ops k s1 = ps_Get ops k s2"
proof -
  have "view (ps_db s1) = view (ps_db s2)" "ps_open s1" "ps_open s2"
    using bt_Write_view [OF assms(1,4)] replay_ops_view [OF assms(1), of "pb_Reader ops (bt_b b)" s s2] assms(3,5)
    by (simp_all add: bt_Replay_def)
  with ps_Get_view [OF assms(1)] show ?thesis by simp
qed

theorem batch_replay_equals_write_witness:
  "\<exists>b s1 s2. bt_run alist_pebble [BSet [1] [2], BDeleteRange [3] [5]] (ps_NewBatch alist_pebble) = (None, b) \<and>
     bt_Write alist_pebble b \<lparr>ps_db = [([3], [4])], ps_open = True\<rparr> = (None, s1) \<and>
     bt_Replay alist_pebble (store_writer alist_pebble) b \<lparr>ps_db = [([3], [4])], ps_open = True\<rparr> = (None, s2) \<and>
     (\<forall>k. ps_Get alist_pebble k s1 = ps_Get alist_pebble k s2)"
proof -
  let ?s = "\<lparr>ps_db = [([3], [4])], ps_open = True\<rparr> :: (bytes \<times> bytes) list PebbleStore"
  obtain b where b: "bt_run alist_pebble [BSet [1] [2], BDeleteRange [3] [5]] (ps_NewBatch alist_pebble) = (None, b)"
      "bt_b b = [BSet [1] [2], BDeleteRange [3] [5]]"
    by (simp add: alist_pebble_def bt_apply_def bt_Put_def bt_DeleteRange_def ps_NewBatch_def)
  obtain s1 where s1: "bt_Write alist_pebble b ?s = (None, s1)" by (simp add: alist_pebble_def bt_Write_def)
  obtain s2 where s2: "bt_Replay alist_pebble (store_writer alist_pebble) b ?s = (None, s2)"
    using b(2) by (simp add: alist_pebble_def bt_Replay_def store_writer_def ps_Put_def ps_DeleteRange_def)
  from batch_replay_equals_write [OF alist_pebble_laws b(1) _ s1 s2] b(1) s1 s2 show ?thesis by auto
qed

text \<open>
  A range deletion does not reach the overlay of a batch: a key put before it still reads
  with its value from the batch, while it is gone from the store once the batch is written.
\<close>

theorem batch_delete_range_stale:
  assumes "pebble_laws ops view" "bt_run ops [BSet k v, BDeleteRange st en] (ps_NewBatch ops) = (None, b)" "st \<le> k" "k < en"
    and "bt_Write ops b s = (None, s')" "ps_open s"
  shows "BatchGet k b = (Some v, True) \<and> ps_Get ops k s' = Inl ErrNotFound"
proof -
  have "view (ps_db s') k = None"
    using bt_Write_view(1) [OF assms(1,5)] bt_run_reader [OF assms(1,2)] pebble_law_reader(4) [OF assms(1)] assms(3,4)
    by (simp add: ps_NewBatch_def apply_op_def)
  moreover have "BatchGet k b = (Some v, True)"
    using assms(2) by (auto simp: bt_apply_def bt_Put_def bt_DeleteRange_def ps_NewBatch_def BatchGet_def Let_def split: prod.splits option.splits)
  ultimately show ?thesis
    using ps_Get_view [OF assms(1), of s' k] bt_Write_view(2) [OF assms(1,5)] assms(6) by simp
qed

theorem batch_delete_range_stale_witness:
  "\<exists>b s'. bt_run alist_pebble [BSet [4] [2], BDeleteRange [3] [5]] (ps_NewBatch alist_pebble) = (None, b) \<and>
     bt_Write alist_pebble b \<lparr>ps_db = [], ps_open = True\<rparr> = (None, s') \<and>
     BatchGet [4] b = (Some [2], True) \<and> ps_Get alist_pebble [4] s' = Inl ErrNotFound"
proof -
  obtain b where b: "bt_run alist_pebble [BSet [4] [2], BDeleteRange [3] [5]] (ps_NewBatch alist_pebble) = (None, b)"
    by (simp add: alist_pebble_def bt_apply_def bt_Put_def bt_DeleteRange_def ps_NewBatch_def)
  obtain s' where s': "bt_Write alist_pebble b \<lparr>ps_db = [], ps_open = True\<rparr> = (None, s')" by (simp add: alist_pebble_def bt_Write_def)
  have "[3] \<le> [4 :: byte]" "[4] < [5 :: byte]" by simp_all
  from batch_delete_range_stale [OF alist_pebble_laws b this s'] b s' show ?thesis by auto
qed

text \<open>
  The settings handed to Pebble: at least sixteen mebibytes of cache and sixteen file
  handles, and a memtable of a quarter of the cache that stays below the package's limit.
\<close>

theorem pebble_settings_bounds:
  "case pebble_settings cache handles of (c, h, m) \<Rightarrow>
     16 * 1024 * 1024 \<le> c \<and> 16 \<le> h \<and> m < maxMemTableSize \<and> 4 * m \<le> c"
  by (auto simp: pebble_settings_def Let_def minCache_def minHandles_def defaultCacheValue_def defaultHandlesValue_def maxMemTableSize_def
      split: if_splits)

end
