(* ===== verification/Theo_Database.thy ===== *)
theory Theo_Database
  imports Complex_Main Account_Cache Block_Log Block_Iterator Pebble_Store
begin

text \<open>
  The database that routes keys by their class, \<^verbatim>\<open>THEO/theo.go\<close>: block data go to the block
  log through a pending map, trie nodes to the state store, everything else to the Pebble
  store. The state store \<^verbatim>\<open>prefixdb.PrefixDB\<close> is used through the methods in the record
  \<open>prefixdb_ops\<close>. A dereference of a nil store is the error \<open>TPanic\<close>.
\<close>

section \<open>The stores behind the database\<close>

record prefix_settings =
  chunkFileSize :: int
  totalCacheSizeMiB :: int
  contractCachePrefetchCount :: int
  nodeFileGCRatioThreshold :: rat
  gcWorkers :: int
  storageGCThreshold :: rat
  nodeFileSortedCompression :: bool
  segmentIndexCompression :: bool
  prefixdbHandles :: int

type_synonym 'p state_op = "'p \<Rightarrow> nat option \<times> 'p"

record 'p prefixdb_ops =
  x_Open :: "prefix_settings \<Rightarrow> nat + 'p"
  x_Close :: "'p state_op"
  x_Has :: "'p \<Rightarrow> DataType \<Rightarrow> bytes \<Rightarrow> bytes option \<Rightarrow> (nat + bool) \<times> 'p"
  x_Get :: "'p \<Rightarrow> DataType \<Rightarrow> bytes \<Rightarrow> bytes option \<Rightarrow> (nat + bytes \<times> bool) \<times> 'p"
  x_Put :: "DataType \<Rightarrow> bytes \<Rightarrow> bytes \<Rightarrow> bytes option \<Rightarrow> 'p state_op"
  x_BatchPut :: "DataType \<Rightarrow> bytes \<Rightarrow> bytes option \<Rightarrow> bytes option \<Rightarrow> 'p state_op"
  x_BatchCommit :: "'p state_op"
  x_BatchCommitWithBlockID :: "u64 \<Rightarrow> 'p state_op"
  x_Delete :: "DataType \<Rightarrow> bytes \<Rightarrow> bytes option \<Rightarrow> 'p state_op"
  x_GCPrefixTree :: "'p state_op"
  x_GCAllStorageChunkFiles :: "'p state_op"
  x_RunPostLoadGC :: "'p state_op"
  x_UpgradeSegmentIndexFiles :: "'p state_op"
  x_TrimLogsAfterCommitTag :: "u64 \<Rightarrow> 'p state_op"
  x_GCWorkerCount :: "'p \<Rightarrow> int"

record ('s, 'd, 'b, 'p) theo_env =
  te_io :: io_env
  te_sl :: "'s skiplist_ops"
  te_pb :: "('d, 'b) pebble_ops"
  te_x :: "'p prefixdb_ops"

section \<open>Errors\<close>

datatype theo_error =
    TClosed
  | TNotFound
  | TStore store_error
  | TLog baol_error
  | TLogClose "baol_error list"
  | TState nat
  | TNotInitialized string
  | TInvalidStorageKey bytes
  | TNoAccountKey bytes
  | TNoBlockID DataType bytes
  | TSpansBlocks u64 u64
  | TPanic

text \<open>The sentinels of the Pebble store and the log's closed error are the database's own.\<close>

definition store_err :: "store_error \<Rightarrow> theo_error" where
  "store_err e = (case e of ErrStoreClosed \<Rightarrow> TClosed | ErrNotFound \<Rightarrow> TNotFound | e \<Rightarrow> TStore e)"

definition log_err :: "baol_error \<Rightarrow> theo_error" where
  "log_err e = (if e = ErrClosed then TClosed else TLog e)"

definition isNotFoundError :: "theo_error \<Rightarrow> bool" where
  "isNotFoundError e \<longleftrightarrow> (case e of TNotFound \<Rightarrow> True | TLog (ErrRequestedFutureBlock b l) \<Rightarrow> True | _ \<Rightarrow> False)"

record errorBatch = eb_err :: theo_error

definition eb_Put :: "bytes \<Rightarrow> bytes \<Rightarrow> errorBatch \<Rightarrow> theo_error" where "eb_Put key val b = eb_err b"
definition eb_Delete :: "bytes \<Rightarrow> errorBatch \<Rightarrow> theo_error" where "eb_Delete key b = eb_err b"
definition eb_DeleteRange :: "bytes \<Rightarrow> bytes \<Rightarrow> errorBatch \<Rightarrow> theo_error" where "eb_DeleteRange st en b = eb_err b"
definition eb_ValueSize :: "errorBatch \<Rightarrow> int" where "eb_ValueSize b = 0"
definition eb_Write :: "errorBatch \<Rightarrow> theo_error" where "eb_Write b = eb_err b"
definition eb_Reset :: "errorBatch \<Rightarrow> errorBatch" where "eb_Reset b = b"
definition eb_Replay :: "'w kv_writer \<Rightarrow> errorBatch \<Rightarrow> theo_error" where "eb_Replay w b = eb_err b"

definition AolHandledDataTypes :: "DataType \<Rightarrow> bool" where
  "AolHandledDataTypes t \<longleftrightarrow> t = HeaderDataType \<or> t = BlockBodyDataType \<or> t = BlockReceiptsDataType"

definition PrefixDBHandledDataTypes :: "DataType \<Rightarrow> bool" where
  "PrefixDBHandledDataTypes t \<longleftrightarrow> t = TrieNodeAccountDataType \<or> t = TrieNodeStorageDataType"

definition aolDeleteTombstone :: bytes where "aolDeleteTombstone = bytes_of_string ''__AOL_DELETED__''"

section \<open>State\<close>

text \<open>A store that was not opened is \<open>None\<close>, and so is the nil map of pending block data.\<close>

record ('s, 'd, 'p) Database =
  db_fn :: string
  db_pebble :: "'d PebbleStore option"
  db_statepdb :: "'p option"
  db_blockAol :: "'s BlockAppendOnlyLog option"
  db_accountHashKeyCache :: "accountHashToKeyCache option"
  db_quitChan :: bool
  db_closed :: bool
  db_baolkvs :: "(bytes \<times> bytes) list option"
  db_baolLatestBlock :: u64
  db_accountKey :: "bytes option"

definition pending :: "('s, 'd, 'p) Database \<Rightarrow> (bytes \<times> bytes) list" where
  "pending db = (case db_baolkvs db of None \<Rightarrow> [] | Some kvs \<Rightarrow> kvs)"

section \<open>Account keys\<close>

text \<open>A lookup of the cache copies the key into a buffer of 64 bytes that the database then keeps.\<close>

definition keep_key :: "bytes option \<Rightarrow> nat \<Rightarrow> bytes \<Rightarrow> bytes option" where
  "keep_key old n tmp = (if n = 0 \<and> old = None then None else Some (take n tmp))"

definition resolve_in_pebble ::
  "('s, 'd, 'b, 'p) theo_env \<Rightarrow> bytes \<Rightarrow> ('s, 'd, 'p) Database \<Rightarrow> (theo_error + bytes option) \<times> ('s, 'd, 'p) Database" where
  "resolve_in_pebble te key db =
     (case db_pebble db of
        None \<Rightarrow> (Inr None, db)
      | Some p \<Rightarrow>
          (case ps_Get (te_pb te) key p of
             Inl e \<Rightarrow> (Inr None, db)
           | Inr val \<Rightarrow>
               (case db_accountHashKeyCache db of
                  None \<Rightarrow> (Inr (Some val), db)
                | Some c \<Rightarrow>
                    (case Account_Cache.Put c key val of
                       None \<Rightarrow> (Inl TPanic, db)
                     | Some c' \<Rightarrow> (Inr (Some val), db\<lparr>db_accountHashKeyCache := Some c'\<rparr>)))))"

definition GetParentAccountKey ::
  "('s, 'd, 'b, 'p) theo_env \<Rightarrow> bytes \<Rightarrow> ('s, 'd, 'p) Database \<Rightarrow> (theo_error + bytes option) \<times> ('s, 'd, 'p) Database" where
  "GetParentAccountKey te key db =
     (if length key \<noteq> 32 then (Inr None, db)
      else case db_accountHashKeyCache db of
          None \<Rightarrow> resolve_in_pebble te key db
        | Some c \<Rightarrow>
            (case Account_Cache.Get c key (replicate 64 0) of
               None \<Rightarrow> (Inl TPanic, db)
             | Some (n, ok, tmp, c') \<Rightarrow>
                 let db' = db\<lparr>db_accountHashKeyCache := Some c'\<rparr> in
                 if ok then let k = keep_key (db_accountKey db) (unat n) tmp in (Inr k, db'\<lparr>db_accountKey := k\<rparr>)
                 else resolve_in_pebble te key db'))"

definition resolvePrefixDBAccountKey ::
  "('s, 'd, 'b, 'p) theo_env \<Rightarrow> bytes \<Rightarrow> DataType \<Rightarrow> bool \<Rightarrow> ('s, 'd, 'p) Database \<Rightarrow>
   (theo_error + bytes option) \<times> ('s, 'd, 'p) Database" where
  "resolvePrefixDBAccountKey te key dataType requirePresent db =
     (if dataType \<noteq> TrieNodeStorageDataType then (Inr None, db)
      else if length key < 33 then (Inl (TInvalidStorageKey key), db)
      else case GetParentAccountKey te (take 32 (drop 1 key)) db of
          (Inl e, db') \<Rightarrow> (Inl e, db')
        | (Inr accountKey, db') \<Rightarrow>
            if requirePresent \<and> accountKey = None then (Inl (TNoAccountKey key), db') else (Inr accountKey, db'))"

definition SetAccountKey :: "bytes option \<Rightarrow> ('s, 'd, 'p) Database \<Rightarrow> ('s, 'd, 'p) Database" where
  "SetAccountKey k db = db\<lparr>db_accountKey := k\<rparr>"

definition InsertAccountHashPebble ::
  "('s, 'd, 'b, 'p) theo_env \<Rightarrow> bytes \<Rightarrow> bytes \<Rightarrow> ('s, 'd, 'p) Database \<Rightarrow> theo_error option \<times> ('s, 'd, 'p) Database" where
  "InsertAccountHashPebble te key accounthash db =
     (case (case db_accountHashKeyCache db of None \<Rightarrow> Some None
            | Some c \<Rightarrow> map_option Some (Account_Cache.Put c accounthash key)) of
        None \<Rightarrow> (Some TPanic, db)
      | Some c' \<Rightarrow>
          let db1 = db\<lparr>db_accountHashKeyCache := c'\<rparr> in
          (case db_pebble db1 of
             None \<Rightarrow> (Some TPanic, db1)
           | Some p \<Rightarrow>
               (case ps_Put (te_pb te) accounthash key p of
                  (r, p') \<Rightarrow> (map_option store_err r, db1\<lparr>db_pebble := Some p'\<rparr>))))"

section \<open>Opening and closing\<close>

definition new_database :: "string \<Rightarrow> ('s, 'd, 'p) Database" where
  "new_database dirPath =
     \<lparr>db_fn = dirPath, db_pebble = None, db_statepdb = None, db_blockAol = None,
      db_accountHashKeyCache = Some (newAccountHashToKeyCache defaultAccountHashToKeyCacheCapacity),
      db_quitChan = True, db_closed = False, db_baolkvs = None, db_baolLatestBlock = 0, db_accountKey = None\<rparr>"

text \<open>
  The files of the block log are an argument; those of the other stores are behind their
  operations. The startup timings are left out.
\<close>

definition NewAOLOnly ::
  "('s, 'd, 'b, 'p) theo_env \<Rightarrow> log_disk \<Rightarrow> string \<Rightarrow> int \<Rightarrow> theo_error + ('s, 'd, 'p) Database" where
  "NewAOLOnly te d dirPath n =
     (case NewBlockAppendOnlyLog (te_sl te) d n of
        Inl e \<Rightarrow> Inl (log_err e)
      | Inr baol \<Rightarrow> Inr ((new_database dirPath)\<lparr>db_blockAol := Some baol, db_baolkvs := Some []\<rparr>))"

definition ReadLatestBlockID :: "('s, 'd, 'b, 'p) theo_env \<Rightarrow> log_disk \<Rightarrow> int \<Rightarrow> theo_error + u64" where
  "ReadLatestBlockID te d n =
     (case NewBlockAppendOnlyLog (te_sl te) d n of
        Inl e \<Rightarrow> Inl (log_err e)
      | Inr baol \<Rightarrow> Inr (Block_Log.LatestBlockID baol))"

definition NewWithPrefixGCAndStoreSettings ::
  "('s, 'd, 'b, 'p) theo_env \<Rightarrow> log_disk \<Rightarrow> string \<Rightarrow> int \<Rightarrow> bool \<Rightarrow> prefix_settings \<Rightarrow> int \<Rightarrow> int \<Rightarrow>
   theo_error + ('s, 'd, 'p) Database" where
  "NewWithPrefixGCAndStoreSettings te d dirPath n readonly cfg pebbleCache pebbleHandles =
     (case x_Open (te_x te) cfg of
        Inl e \<Rightarrow> Inl (TState e)
      | Inr statePrefixdb \<Rightarrow>
          let db = (new_database dirPath)\<lparr>db_statepdb := Some statePrefixdb\<rparr> in
          (case NewBlockAppendOnlyLog (te_sl te) d n of
             Inl e \<Rightarrow> Inl (log_err e)
           | Inr baol \<Rightarrow>
               (case NewPebbleStore (te_pb te) pebbleCache pebbleHandles readonly of
                  Inl e \<Rightarrow> Inl (store_err e)
                | Inr pebbleStore \<Rightarrow>
                    Inr (db\<lparr>db_blockAol := Some baol, db_baolkvs := Some [], db_pebble := Some pebbleStore\<rparr>))))"

definition NewWithPrefixGCAndFileHandlesSettings ::
  "('s, 'd, 'b, 'p) theo_env \<Rightarrow> log_disk \<Rightarrow> string \<Rightarrow> int \<Rightarrow> bool \<Rightarrow> prefix_settings \<Rightarrow> theo_error + ('s, 'd, 'p) Database" where
  "NewWithPrefixGCAndFileHandlesSettings te d dirPath n readonly cfg =
     NewWithPrefixGCAndStoreSettings te d dirPath n readonly cfg 0 0"

definition NewWithPrefixGCSettings ::
  "('s, 'd, 'b, 'p) theo_env \<Rightarrow> log_disk \<Rightarrow> string \<Rightarrow> int \<Rightarrow> bool \<Rightarrow> prefix_settings \<Rightarrow> theo_error + ('s, 'd, 'p) Database" where
  "NewWithPrefixGCSettings te d dirPath n readonly cfg =
     NewWithPrefixGCAndFileHandlesSettings te d dirPath n readonly (cfg\<lparr>prefixdbHandles := 0\<rparr>)"

definition NewWithPrefixCacheSettings ::
  "('s, 'd, 'b, 'p) theo_env \<Rightarrow> log_disk \<Rightarrow> string \<Rightarrow> int \<Rightarrow> bool \<Rightarrow> int \<Rightarrow> int \<Rightarrow> int \<Rightarrow> theo_error + ('s, 'd, 'p) Database" where
  "NewWithPrefixCacheSettings te d dirPath n readonly chunk totalMiB prefetch =
     NewWithPrefixGCSettings te d dirPath n readonly
       \<lparr>chunkFileSize = chunk, totalCacheSizeMiB = totalMiB, contractCachePrefetchCount = prefetch,
        nodeFileGCRatioThreshold = 0, gcWorkers = 0, storageGCThreshold = 0, nodeFileSortedCompression = False,
        segmentIndexCompression = False, prefixdbHandles = 0\<rparr>"

definition New ::
  "('s, 'd, 'b, 'p) theo_env \<Rightarrow> log_disk \<Rightarrow> string \<Rightarrow> int \<Rightarrow> bool \<Rightarrow> int \<Rightarrow> u64 \<Rightarrow> int \<Rightarrow> theo_error + ('s, 'd, 'p) Database" where
  "New te d dirPath n readonly chunk prefixTreeCacheSize prefetch =
     NewWithPrefixGCSettings te d dirPath n readonly
       \<lparr>chunkFileSize = chunk, totalCacheSizeMiB = int (unat (prefixTreeCacheSize div (1024 * 1024))),
        contractCachePrefetchCount = prefetch,
        nodeFileGCRatioThreshold = 0, gcWorkers = 0, storageGCThreshold = 0, nodeFileSortedCompression = False,
        segmentIndexCompression = False, prefixdbHandles = 0\<rparr>"

definition NewStateOnlyWithPrefixGCAndFileHandlesSettings ::
  "('s, 'd, 'b, 'p) theo_env \<Rightarrow> string \<Rightarrow> prefix_settings \<Rightarrow> theo_error + ('s, 'd, 'p) Database" where
  "NewStateOnlyWithPrefixGCAndFileHandlesSettings te stateDir cfg =
     (case x_Open (te_x te) cfg of
        Inl e \<Rightarrow> Inl (TState e)
      | Inr statePrefixdb \<Rightarrow> Inr ((new_database stateDir)\<lparr>db_statepdb := Some statePrefixdb\<rparr>))"

definition NewStateWithPebbleGCAndStoreSettings ::
  "('s, 'd, 'b, 'p) theo_env \<Rightarrow> string \<Rightarrow> bool \<Rightarrow> prefix_settings \<Rightarrow> int \<Rightarrow> int \<Rightarrow> theo_error + ('s, 'd, 'p) Database" where
  "NewStateWithPebbleGCAndStoreSettings te dirPath readonly cfg pebbleCache pebbleHandles =
     (case x_Open (te_x te) cfg of
        Inl e \<Rightarrow> Inl (TState e)
      | Inr statePrefixdb \<Rightarrow>
          (case NewPebbleStore (te_pb te) pebbleCache pebbleHandles readonly of
             Inl e \<Rightarrow> Inl (store_err e)
           | Inr pebbleStore \<Rightarrow>
               Inr ((new_database dirPath)\<lparr>db_statepdb := Some statePrefixdb, db_pebble := Some pebbleStore\<rparr>)))"

definition close_pebble ::
  "('s, 'd, 'b, 'p) theo_env \<Rightarrow> ('s, 'd, 'p) Database \<Rightarrow> theo_error option \<times> ('s, 'd, 'p) Database" where
  "close_pebble te db =
     (case db_pebble db of
        None \<Rightarrow> (None, db)
      | Some p \<Rightarrow> (case ps_Close (te_pb te) p of (r, p') \<Rightarrow> (map_option store_err r, db\<lparr>db_pebble := Some p'\<rparr>)))"

text \<open>Nobody answers on the quit channel: the wait for it ends by its timeout.\<close>

definition db_Close ::
  "('s, 'd, 'b, 'p) theo_env \<Rightarrow> ('s, 'd, 'p) Database \<Rightarrow> theo_error option \<times> ('s, 'd, 'p) Database" where
  "db_Close te db =
     (if db_closed db then (Some TClosed, db)
      else let db1 = db\<lparr>db_closed := True, db_quitChan := False,
                        db_statepdb := map_option (\<lambda>p. snd (x_Close (te_x te) p)) (db_statepdb db)\<rparr> in
        case db_blockAol db1 of
          None \<Rightarrow> close_pebble te db1
        | Some baol \<Rightarrow>
            (case Block_Log.Close (te_io te) baol of
               (errs, baol') \<Rightarrow>
                 let db2 = db1\<lparr>db_blockAol := Some baol'\<rparr> in
                 if errs \<noteq> [] then (Some (TLogClose errs), db2) else close_pebble te db2))"

definition CloseAol ::
  "('s, 'd, 'b, 'p) theo_env \<Rightarrow> ('s, 'd, 'p) Database \<Rightarrow> theo_error option \<times> ('s, 'd, 'p) Database" where
  "CloseAol te db =
     (case db_blockAol db of
        None \<Rightarrow> (None, db)
      | Some baol \<Rightarrow>
          (case Block_Log.Close (te_io te) baol of
             (errs, baol') \<Rightarrow>
               if errs \<noteq> [] then (Some (TLogClose errs), db\<lparr>db_blockAol := Some baol'\<rparr>)
               else (None, db\<lparr>db_blockAol := None\<rparr>)))"

definition db_LatestBlockID :: "('s, 'd, 'p) Database \<Rightarrow> u64" where
  "db_LatestBlockID db = (case db_blockAol db of None \<Rightarrow> 0 | Some baol \<Rightarrow> Block_Log.LatestBlockID baol)"

definition db_Path :: "('s, 'd, 'p) Database \<Rightarrow> string" where
  "db_Path db = (if db_closed db then [] else db_fn db)"

definition db_Stat :: "('s, 'd, 'p) Database \<Rightarrow> theo_error + string" where
  "db_Stat db = (if db_closed db then Inl TClosed else Inr (''theo(path='' @ db_fn db @ '', recentN=0)''))"

section \<open>The state store\<close>

definition on_state ::
  "('p \<Rightarrow> nat option \<times> 'p) \<Rightarrow> ('s, 'd, 'p) Database \<Rightarrow> theo_error option \<times> ('s, 'd, 'p) Database" where
  "on_state f db =
     (case db_statepdb db of
        None \<Rightarrow> (Some (TNotInitialized ''PrefixDB''), db)
      | Some p \<Rightarrow> (case f p of (r, p') \<Rightarrow> (map_option TState r, db\<lparr>db_statepdb := Some p'\<rparr>)))"

definition StateGCWorkerCount :: "('s, 'd, 'b, 'p) theo_env \<Rightarrow> ('s, 'd, 'p) Database \<Rightarrow> int" where
  "StateGCWorkerCount te db = (case db_statepdb db of None \<Rightarrow> 0 | Some p \<Rightarrow> x_GCWorkerCount (te_x te) p)"

definition TrimStateLogsAfterCommitTag ::
  "('s, 'd, 'b, 'p) theo_env \<Rightarrow> u64 \<Rightarrow> ('s, 'd, 'p) Database \<Rightarrow> theo_error option \<times> ('s, 'd, 'p) Database" where
  "TrimStateLogsAfterCommitTag te blockID db =
     (case db_statepdb db of None \<Rightarrow> (None, db) | Some p \<Rightarrow> on_state (x_TrimLogsAfterCommitTag (te_x te) blockID) db)"

definition PrefixdbBatchCommitWithBlockID ::
  "('s, 'd, 'b, 'p) theo_env \<Rightarrow> u64 \<Rightarrow> ('s, 'd, 'p) Database \<Rightarrow> theo_error option \<times> ('s, 'd, 'p) Database" where
  "PrefixdbBatchCommitWithBlockID te blockID db = on_state (x_BatchCommitWithBlockID (te_x te) blockID) db"

definition PrefixdbBatchCommit ::
  "('s, 'd, 'b, 'p) theo_env \<Rightarrow> ('s, 'd, 'p) Database \<Rightarrow> theo_error option \<times> ('s, 'd, 'p) Database" where
  "PrefixdbBatchCommit te db = PrefixdbBatchCommitWithBlockID te 0 db"

definition GCPrefixTree ::
  "('s, 'd, 'b, 'p) theo_env \<Rightarrow> ('s, 'd, 'p) Database \<Rightarrow> theo_error option \<times> ('s, 'd, 'p) Database" where
  "GCPrefixTree te db =
     (case on_state (x_GCPrefixTree (te_x te)) db of
        (Some e, db') \<Rightarrow> (Some e, db')
      | (None, db') \<Rightarrow> on_state (x_GCAllStorageChunkFiles (te_x te)) db')"

definition RunPostLoadGC ::
  "('s, 'd, 'b, 'p) theo_env \<Rightarrow> ('s, 'd, 'p) Database \<Rightarrow> theo_error option \<times> ('s, 'd, 'p) Database" where
  "RunPostLoadGC te db = on_state (x_RunPostLoadGC (te_x te)) db"

definition UpgradeSegmentIndexFiles ::
  "('s, 'd, 'b, 'p) theo_env \<Rightarrow> ('s, 'd, 'p) Database \<Rightarrow> theo_error option \<times> ('s, 'd, 'p) Database" where
  "UpgradeSegmentIndexFiles te db = on_state (x_UpgradeSegmentIndexFiles (te_x te)) db"

section \<open>Reading\<close>

definition HasWithDataType ::
  "('s, 'd, 'b, 'p) theo_env \<Rightarrow> bytes \<Rightarrow> DataType \<Rightarrow> ('s, 'd, 'p) Database \<Rightarrow> (theo_error + bool) \<times> ('s, 'd, 'p) Database" where
  "HasWithDataType te key dataType db =
     (if db_closed db then (Inl TClosed, db)
      else if AolHandledDataTypes dataType then
        (if map_of (pending db) key \<noteq> None then Inr True
         else case db_blockAol db of
             None \<Rightarrow> Inl TPanic
           | Some baol \<Rightarrow>
               (case Block_Log.Get (te_sl te) key baol of
                  Inl e \<Rightarrow> if isNotFoundError (log_err e) then Inr False else Inl (log_err e)
                | Inr (valStr, exists) \<Rightarrow>
                    if exists then Inr (valStr \<noteq> aolDeleteTombstone) else Inl TNotFound), db)
      else if PrefixDBHandledDataTypes dataType then
        (case db_statepdb db of
           None \<Rightarrow> (Inl (TNotInitialized ''PrefixDB''), db)
         | Some x \<Rightarrow>
             (case resolvePrefixDBAccountKey te key dataType False db of
                (Inl e, db1) \<Rightarrow> (Inl e, db1)
              | (Inr accountKey, db1) \<Rightarrow>
                  (case x_Has (te_x te) x dataType key accountKey of
                     (Inl e, x') \<Rightarrow> (Inl (TState e), db1\<lparr>db_statepdb := Some x'\<rparr>)
                   | (Inr b, x') \<Rightarrow> (Inr b, db1\<lparr>db_statepdb := Some x'\<rparr>))))
      else (case db_pebble db of
              None \<Rightarrow> Inl TPanic
            | Some p \<Rightarrow>
                (case ps_Get (te_pb te) key p of
                   Inr v \<Rightarrow> Inr True
                 | Inl e \<Rightarrow> if isNotFoundError (store_err e) then Inr False else Inl (store_err e)), db))"

definition Has ::
  "('s, 'd, 'b, 'p) theo_env \<Rightarrow> bytes \<Rightarrow> ('s, 'd, 'p) Database \<Rightarrow> (theo_error + bool) \<times> ('s, 'd, 'p) Database" where
  "Has te key db = HasWithDataType te key (GetDataTypeFromKey key) db"

definition GetFromAOL :: "('s, 'd, 'b, 'p) theo_env \<Rightarrow> bytes \<Rightarrow> ('s, 'd, 'p) Database \<Rightarrow> theo_error + bytes" where
  "GetFromAOL te key db =
     (if db_closed db then Inl TClosed
      else case map_of (pending db) key of
          Some valStr \<Rightarrow> Inr valStr
        | None \<Rightarrow>
            (case db_blockAol db of
               None \<Rightarrow> Inl TPanic
             | Some baol \<Rightarrow>
                 (case Block_Log.Get (te_sl te) key baol of
                    Inl e \<Rightarrow> Inl (if isNotFoundError (log_err e) then TNotFound else log_err e)
                  | Inr (valStr, exists) \<Rightarrow>
                      if exists then (if valStr = aolDeleteTombstone then Inl TNotFound else Inr valStr)
                      else Inl TNotFound)))"

definition GetFromPrefixDB ::
  "('s, 'd, 'b, 'p) theo_env \<Rightarrow> bytes \<Rightarrow> DataType \<Rightarrow> ('s, 'd, 'p) Database \<Rightarrow> (theo_error + bytes) \<times> ('s, 'd, 'p) Database" where
  "GetFromPrefixDB te key dataType db =
     (if db_closed db then (Inl TClosed, db)
      else case db_statepdb db of
          None \<Rightarrow> (Inl (TNotInitialized ''PrefixDB''), db)
        | Some x \<Rightarrow>
            (case resolvePrefixDBAccountKey te key dataType False db of
               (Inl e, db1) \<Rightarrow> (Inl e, db1)
             | (Inr accountKey, db1) \<Rightarrow>
                 (case x_Get (te_x te) x dataType key accountKey of
                    (Inl e, x') \<Rightarrow> (Inl (TState e), db1\<lparr>db_statepdb := Some x'\<rparr>)
                  | (Inr (val, exists), x') \<Rightarrow>
                      (if exists then Inr val else Inl TNotFound, db1\<lparr>db_statepdb := Some x'\<rparr>))))"

definition GetFromPebble :: "('s, 'd, 'b, 'p) theo_env \<Rightarrow> bytes \<Rightarrow> ('s, 'd, 'p) Database \<Rightarrow> theo_error + bytes" where
  "GetFromPebble te key db =
     (if db_closed db then Inl TClosed
      else case db_pebble db of
          None \<Rightarrow> Inl TPanic
        | Some p \<Rightarrow>
            (case ps_Get (te_pb te) key p of
               Inl e \<Rightarrow> Inl (if isNotFoundError (store_err e) then TNotFound else store_err e)
             | Inr v \<Rightarrow> Inr v))"

definition db_Get ::
  "('s, 'd, 'b, 'p) theo_env \<Rightarrow> bytes \<Rightarrow> DataType \<Rightarrow> ('s, 'd, 'p) Database \<Rightarrow> (theo_error + bytes) \<times> ('s, 'd, 'p) Database" where
  "db_Get te key dataType db =
     (if AolHandledDataTypes dataType then (GetFromAOL te key db, db)
      else if PrefixDBHandledDataTypes dataType then GetFromPrefixDB te key dataType db
      else (GetFromPebble te key db, db))"

section \<open>Writing\<close>

definition block_of_kv :: "bytes \<Rightarrow> bytes \<Rightarrow> DataType \<Rightarrow> u64 option" where
  "block_of_kv key val dataType =
     (case ParseBlockNumberFromKey key dataType of
        Some b \<Rightarrow> Some b | None \<Rightarrow> ParseBlockNumberFromValue val dataType)"

definition put_block_class ::
  "('s, 'd, 'b, 'p) theo_env \<Rightarrow> bytes \<Rightarrow> bytes \<Rightarrow> DataType \<Rightarrow> ('s, 'd, 'p) Database \<Rightarrow> theo_error option \<times> ('s, 'd, 'p) Database" where
  "put_block_class te key val dataType db =
     (case block_of_kv key val dataType of
        None \<Rightarrow> (Some (TNoBlockID dataType key), db)
      | Some blockID \<Rightarrow>
          if blockID > db_baolLatestBlock db then
            (case db_blockAol db of
               None \<Rightarrow> (Some (TNotInitialized ''AOL''), db)
             | Some baol \<Rightarrow>
                 let db1 = db\<lparr>db_baolkvs := Some (pending db)\<rparr>;
                     (err, baol') = (if db_baolLatestBlock db \<noteq> 0
                                     then Append (te_io te) (te_sl te) (db_baolLatestBlock db) (pending db) baol
                                     else (None, baol)) in
                 (case err of
                    Some e \<Rightarrow> (Some (log_err e), db1\<lparr>db_blockAol := Some baol'\<rparr>)
                  | None \<Rightarrow> (None, db1\<lparr>db_blockAol := Some baol', db_baolkvs := Some [(key, val)],
                                       db_baolLatestBlock := blockID\<rparr>)))
          else (None, db\<lparr>db_baolkvs := Some (AList.update key val (pending db))\<rparr>))"

definition PutWithDataType ::
  "('s, 'd, 'b, 'p) theo_env \<Rightarrow> bytes \<Rightarrow> bytes \<Rightarrow> DataType \<Rightarrow> ('s, 'd, 'p) Database \<Rightarrow> theo_error option \<times> ('s, 'd, 'p) Database" where
  "PutWithDataType te key val dataType db =
     (if db_closed db then (Some TClosed, db)
      else if AolHandledDataTypes dataType then put_block_class te key val dataType db
      else if PrefixDBHandledDataTypes dataType then
        (case db_statepdb db of
           None \<Rightarrow> (Some (TNotInitialized ''PrefixDB''), db)
         | Some x \<Rightarrow>
             (case resolvePrefixDBAccountKey te key dataType True db of
                (Inl e, db1) \<Rightarrow> (Some e, db1)
              | (Inr accountKey, db1) \<Rightarrow> on_state (x_Put (te_x te) dataType key val accountKey) db1))
      else case db_pebble db of
          None \<Rightarrow> (Some (TNotInitialized ''Pebble''), db)
        | Some p \<Rightarrow>
            (case ps_Put (te_pb te) key val p of (r, p') \<Rightarrow> (map_option store_err r, db\<lparr>db_pebble := Some p'\<rparr>)))"

definition db_Put ::
  "('s, 'd, 'b, 'p) theo_env \<Rightarrow> bytes \<Rightarrow> bytes \<Rightarrow> ('s, 'd, 'p) Database \<Rightarrow> theo_error option \<times> ('s, 'd, 'p) Database" where
  "db_Put te key val db = PutWithDataType te key val (GetDataTypeFromKey key) db"

definition BatchPutToPrefixDB ::
  "('s, 'd, 'b, 'p) theo_env \<Rightarrow> bytes \<Rightarrow> bytes option \<Rightarrow> DataType \<Rightarrow> ('s, 'd, 'p) Database \<Rightarrow> theo_error option \<times> ('s, 'd, 'p) Database" where
  "BatchPutToPrefixDB te key val dataType db =
     (case db_statepdb db of
        None \<Rightarrow> (Some (TNotInitialized ''PrefixDB''), db)
      | Some x \<Rightarrow>
          (case resolvePrefixDBAccountKey te key dataType False db of
             (Inl e, db1) \<Rightarrow> (Some e, db1)
           | (Inr accountKey, db1) \<Rightarrow> on_state (x_BatchPut (te_x te) dataType key val accountKey) db1))"

definition BatchPutToAOL ::
  "bytes \<Rightarrow> bytes \<Rightarrow> DataType \<Rightarrow> ('s, 'd, 'p) Database \<Rightarrow> theo_error option \<times> ('s, 'd, 'p) Database" where
  "BatchPutToAOL key val dataType db =
     (case block_of_kv key val dataType of
        None \<Rightarrow> (Some (TNoBlockID dataType key), db)
      | Some blockID \<Rightarrow>
          if db_blockAol db = None then (Some (TNotInitialized ''AOL''), db)
          else let db1 = db\<lparr>db_baolkvs := Some (pending db),
                            db_baolLatestBlock := (if db_baolLatestBlock db = 0 then blockID else db_baolLatestBlock db)\<rparr> in
            if blockID \<noteq> db_baolLatestBlock db1 then (Some (TSpansBlocks (db_baolLatestBlock db1) blockID), db1)
            else (None, db1\<lparr>db_baolkvs := Some (AList.update key val (pending db1))\<rparr>))"

definition BatchPut ::
  "('s, 'd, 'b, 'p) theo_env \<Rightarrow> bytes \<Rightarrow> bytes \<Rightarrow> DataType \<Rightarrow> ('s, 'd, 'p) Database \<Rightarrow> theo_error option \<times> ('s, 'd, 'p) Database" where
  "BatchPut te key val dataType db =
     (if PrefixDBHandledDataTypes dataType then BatchPutToPrefixDB te key (Some val) dataType db
      else if AolHandledDataTypes dataType then BatchPutToAOL key val dataType db
      else (None, db))"

definition CommitAOLBatch ::
  "('s, 'd, 'b, 'p) theo_env \<Rightarrow> ('s, 'd, 'p) Database \<Rightarrow> theo_error option \<times> ('s, 'd, 'p) Database" where
  "CommitAOLBatch te db =
     (case db_blockAol db of
        None \<Rightarrow> (Some (TNotInitialized ''AOL''), db)
      | Some baol \<Rightarrow>
          if db_baolLatestBlock db = 0 \<or> pending db = [] then (None, db)
          else case Append (te_io te) (te_sl te) (db_baolLatestBlock db) (pending db) baol of
              (Some e, baol1) \<Rightarrow> (Some (log_err e), db\<lparr>db_blockAol := Some baol1\<rparr>)
            | (None, baol1) \<Rightarrow>
                (case FlushDataAndIndex (te_io te) baol1 of
                   (Some e, baol2) \<Rightarrow> (Some (log_err e), db\<lparr>db_blockAol := Some baol2\<rparr>)
                 | (None, baol2) \<Rightarrow>
                     (None, db\<lparr>db_blockAol := Some baol2, db_baolkvs := Some [], db_baolLatestBlock := 0\<rparr>)))"

definition db_MarkBlockCommitted ::
  "('s, 'd, 'b, 'p) theo_env \<Rightarrow> u64 \<Rightarrow> ('s, 'd, 'p) Database \<Rightarrow> theo_error option \<times> ('s, 'd, 'p) Database" where
  "db_MarkBlockCommitted te blockID db =
     (case db_blockAol db of
        None \<Rightarrow> (None, db)
      | Some baol \<Rightarrow>
          if blockID = 0 then (None, db)
          else case Block_Log.MarkBlockCommitted (te_io te) (te_sl te) blockID baol of
              (r, baol') \<Rightarrow> (map_option log_err r, db\<lparr>db_blockAol := Some baol'\<rparr>))"

definition DeleteWithDataType ::
  "('s, 'd, 'b, 'p) theo_env \<Rightarrow> bytes \<Rightarrow> DataType \<Rightarrow> ('s, 'd, 'p) Database \<Rightarrow> theo_error option \<times> ('s, 'd, 'p) Database" where
  "DeleteWithDataType te key dataType db =
     (if db_closed db then (Some TClosed, db)
      else if AolHandledDataTypes dataType then
        (case db_blockAol db of
           None \<Rightarrow> (Some TPanic, db)
         | Some baol \<Rightarrow>
             (case Block_Log.Delete (te_io te) (te_sl te) key baol of
                (r, baol') \<Rightarrow> (map_option log_err r, db\<lparr>db_blockAol := Some baol'\<rparr>)))
      else if PrefixDBHandledDataTypes dataType then
        (case db_statepdb db of
           None \<Rightarrow> (Some (TNotInitialized ''PrefixDB''), db)
         | Some x \<Rightarrow>
             (case resolvePrefixDBAccountKey te key dataType False db of
                (Inl e, db1) \<Rightarrow> (Some e, db1)
              | (Inr accountKey, db1) \<Rightarrow> on_state (x_Delete (te_x te) dataType key accountKey) db1))
      else case db_pebble db of
          None \<Rightarrow> (Some (TNotInitialized ''Pebble''), db)
        | Some p \<Rightarrow>
            (case ps_Delete (te_pb te) key p of (r, p') \<Rightarrow> (map_option store_err r, db\<lparr>db_pebble := Some p'\<rparr>)))"

definition db_Delete ::
  "('s, 'd, 'b, 'p) theo_env \<Rightarrow> bytes \<Rightarrow> ('s, 'd, 'p) Database \<Rightarrow> theo_error option \<times> ('s, 'd, 'p) Database" where
  "db_Delete te key db = DeleteWithDataType te key (GetDataTypeFromKey key) db"

definition BatchDeleteFromPrefixDB ::
  "('s, 'd, 'b, 'p) theo_env \<Rightarrow> bytes \<Rightarrow> DataType \<Rightarrow> ('s, 'd, 'p) Database \<Rightarrow> theo_error option \<times> ('s, 'd, 'p) Database" where
  "BatchDeleteFromPrefixDB te key dataType db =
     (case db_statepdb db of
        None \<Rightarrow> (Some (TNotInitialized ''PrefixDB''), db)
      | Some x \<Rightarrow>
          (case resolvePrefixDBAccountKey te key dataType False db of
             (Inl e, db1) \<Rightarrow> (Some e, db1)
           | (Inr accountKey, db1) \<Rightarrow> on_state (x_BatchPut (te_x te) dataType key None accountKey) db1))"

definition BatchDeleteFromAOL :: "bytes \<Rightarrow> DataType \<Rightarrow> ('s, 'd, 'p) Database \<Rightarrow> theo_error option \<times> ('s, 'd, 'p) Database" where
  "BatchDeleteFromAOL key dataType db = (None, db)"

definition BatchDelete ::
  "('s, 'd, 'b, 'p) theo_env \<Rightarrow> bytes \<Rightarrow> DataType \<Rightarrow> ('s, 'd, 'p) Database \<Rightarrow> theo_error option \<times> ('s, 'd, 'p) Database" where
  "BatchDelete te key dataType db =
     (if PrefixDBHandledDataTypes dataType then BatchDeleteFromPrefixDB te key dataType db
      else if AolHandledDataTypes dataType then BatchDeleteFromAOL key dataType db
      else (None, db))"

section \<open>Ranges, iterators and batches\<close>

lemma pi_Next_shorter [termination_simp]: "(True, it') = pi_Next it \<Longrightarrow> length (pi_rest it') < length (pi_rest it)"
  by (auto simp: pi_Next_def Let_def split: if_splits list.splits)

text \<open>The loop of a range deletion: it ends since every step consumes an element of the iterator.\<close>

function delete_range_loop ::
  "('s, 'd, 'b, 'p) theo_env \<Rightarrow> bytes option \<Rightarrow> bytes option \<Rightarrow> pebbleIterator \<Rightarrow> 'b pebbleBatch \<Rightarrow>
   theo_error option \<times> pebbleIterator \<times> 'b pebbleBatch" where
  "delete_range_loop te st en it b =
     (case pi_Next it of
        (False, it') \<Rightarrow> (None, it', b)
      | (True, it') \<Rightarrow>
          let key = (case pi_Key it' of None \<Rightarrow> [] | Some k \<Rightarrow> k) in
          if (case st of None \<Rightarrow> False | Some s \<Rightarrow> key < s) \<or> (case en of None \<Rightarrow> False | Some e \<Rightarrow> key \<ge> e)
          then delete_range_loop te st en it' b
          else case bt_Delete (te_pb te) key b of
              (Some e, b') \<Rightarrow> (Some (store_err e), it', b')
            | (None, b') \<Rightarrow> delete_range_loop te st en it' b')"
  by pat_completeness auto
termination by (relation "measure (\<lambda>(te, st, en, it, b). length (pi_rest it))") (auto simp: pi_Next_shorter)

declare delete_range_loop.simps [simp del]

definition db_DeleteRange ::
  "('s, 'd, 'b, 'p) theo_env \<Rightarrow> bytes option \<Rightarrow> bytes option \<Rightarrow> ('s, 'd, 'p) Database \<Rightarrow> theo_error option \<times> ('s, 'd, 'p) Database" where
  "db_DeleteRange te st en db =
     (if db_closed db then (Some TClosed, db)
      else case db_pebble db of
          None \<Rightarrow> (None, db)
        | Some p \<Rightarrow>
            if (case (st, en) of (Some s, Some e) \<Rightarrow> s \<ge> e | _ \<Rightarrow> False) then (None, db)
            else case delete_range_loop te st en (ps_NewIterator (te_pb te) None [] p) (ps_NewBatch (te_pb te)) of
                (Some e, it, b) \<Rightarrow> (Some e, db)
              | (None, it, b) \<Rightarrow>
                  (case pi_Error it of
                     Some e \<Rightarrow> (Some (store_err e), db)
                   | None \<Rightarrow>
                       (case bt_Write (te_pb te) b p of (r, p') \<Rightarrow> (map_option store_err r, db\<lparr>db_pebble := Some p'\<rparr>))))"

datatype db_iterator =
    ErrorIterator "theo_error errorIterator"
  | StreamIterator baolStreamIterator
  | PebbleIterator pebbleIterator

definition iter_err :: "iter_error \<Rightarrow> theo_error" where
  "iter_err e = (case e of ItLog l \<Rightarrow> TLog l | _ \<Rightarrow> TClosed)"

definition db_NewIterator ::
  "('s, 'd, 'b, 'p) theo_env \<Rightarrow> bytes option \<Rightarrow> bytes \<Rightarrow> ('s, 'd, 'p) Database \<Rightarrow> theo_error + db_iterator" where
  "db_NewIterator te pre start db =
     (if db_closed db then Inr (ErrorIterator \<lparr>ei_err = TClosed\<rparr>)
      else let prefix = (case pre of None \<Rightarrow> [] | Some q \<Rightarrow> q) in
        if AolHandledDataTypes (GetDataTypeFromKey prefix) then
          (case db_blockAol db of
             None \<Rightarrow> Inl TPanic
           | Some baol \<Rightarrow>
               (case Block_Iterator.NewIterator prefix start baol of
                  Inl e \<Rightarrow> Inr (ErrorIterator \<lparr>ei_err = iter_err (ei_err e)\<rparr>)
                | Inr it \<Rightarrow> Inr (StreamIterator it)))
        else case db_pebble db of
            None \<Rightarrow> Inr (ErrorIterator \<lparr>ei_err = TNotInitialized ''Pebble''\<rparr>)
          | Some p \<Rightarrow> Inr (PebbleIterator (ps_NewIterator (te_pb te) pre start p)))"

definition NewPebbleIterator ::
  "('s, 'd, 'b, 'p) theo_env \<Rightarrow> bytes option \<Rightarrow> bytes \<Rightarrow> ('s, 'd, 'p) Database \<Rightarrow> db_iterator" where
  "NewPebbleIterator te pre start db =
     (if db_closed db then ErrorIterator \<lparr>ei_err = TClosed\<rparr>
      else case db_pebble db of
          None \<Rightarrow> ErrorIterator \<lparr>ei_err = TNotInitialized ''Pebble''\<rparr>
        | Some p \<Rightarrow> PebbleIterator (ps_NewIterator (te_pb te) pre start p))"

datatype 'b db_batch = ErrorBatch errorBatch | StoreBatch "'b pebbleBatch"

text \<open>The check of the closed flag is commented out in the code.\<close>

definition db_NewBatch :: "('s, 'd, 'b, 'p) theo_env \<Rightarrow> ('s, 'd, 'p) Database \<Rightarrow> 'b db_batch" where
  "db_NewBatch te db =
     (case db_pebble db of
        None \<Rightarrow> ErrorBatch \<lparr>eb_err = TNotInitialized ''Pebble''\<rparr>
      | Some p \<Rightarrow> StoreBatch (ps_NewBatch (te_pb te)))"

section \<open>Synchronisation\<close>

definition sync_log ::
  "('s, 'd, 'b, 'p) theo_env \<Rightarrow> ('s, 'd, 'p) Database \<Rightarrow> theo_error option \<times> ('s, 'd, 'p) Database" where
  "sync_log te db =
     (case db_blockAol db of
        None \<Rightarrow> (None, db)
      | Some baol \<Rightarrow>
          if db_baolLatestBlock db = 0 \<or> pending db = [] then (None, db)
          else case Append (te_io te) (te_sl te) (db_baolLatestBlock db) (pending db) baol of
              (Some e, baol') \<Rightarrow> (Some (log_err e), db\<lparr>db_blockAol := Some baol'\<rparr>)
            | (None, baol') \<Rightarrow> (None, db\<lparr>db_blockAol := Some baol', db_baolkvs := Some []\<rparr>))"

definition SyncKeyValue ::
  "('s, 'd, 'b, 'p) theo_env \<Rightarrow> ('s, 'd, 'p) Database \<Rightarrow> theo_error option \<times> ('s, 'd, 'p) Database" where
  "SyncKeyValue te db =
     (if db_closed db then (Some TClosed, db)
      else case sync_log te db of
          (Some e, db1) \<Rightarrow> (Some e, db1)
        | (None, db1) \<Rightarrow>
            (case (case db_statepdb db1 of None \<Rightarrow> (None, db1) | Some x \<Rightarrow> on_state (x_BatchCommit (te_x te)) db1) of
               (Some e, db2) \<Rightarrow> (Some e, db2)
             | (None, db2) \<Rightarrow>
                 (case db_pebble db2 of
                    None \<Rightarrow> (None, db2)
                  | Some p \<Rightarrow>
                      (case ps_Flush (te_pb te) p of
                         (r, p') \<Rightarrow>
                           (case r of None \<Rightarrow> None | Some e \<Rightarrow> if store_err e = TClosed then None else Some (store_err e),
                            db2\<lparr>db_pebble := Some p'\<rparr>)))))"

end
