(* ===== verification/Block_Log_Refinement.thy ===== *)
theory Block_Log_Refinement
  imports Block_Log
begin

text \<open>
  The block log refines a list of blocks. A block is the list of its bindings in the order in
  which they were written; \<open>log_rel\<close> relates a log to the blocks from \<open>m\<close> on through its data
  file, its index file and its window, and every operation is related to its effect on the
  list. The data file may hold bytes that no index entry covers: a torn append leaves some.
\<close>

section \<open>Writers without faults\<close>

definition no_write_faults :: "io_env \<Rightarrow> bool" where
  "no_write_faults env \<longleftrightarrow> dataWriteFault env = (\<lambda>_ _. None) \<and> indexWriteFault env = (\<lambda>_ _ _. None)"

definition no_meta_faults :: "io_env \<Rightarrow> bool" where
  "no_meta_faults env \<longleftrightarrow> \<not> metaOpenFault env \<and> metaWriteFault env = None"

lemma dataWriter_Flush_ok:
  assumes "no_write_faults env" "dataErr s = None"
  shows "dataWriter_Flush env s = (None, s\<lparr>dataFile := dataFile s @ dataBuf s, dataBuf := []\<rparr>)"
  using assms by (cases s) (simp add: dataWriter_Flush_def file_append_def no_write_faults_def)

text \<open>A write leaves its bytes behind what was written before, in the file or in the buffer.\<close>

lemma dataWriter_Write_ok:
  assumes "no_write_faults env" "dataErr s = None"
  shows "\<exists>f b. dataWriter_Write env p s = (None, s\<lparr>dataFile := f, dataBuf := b\<rparr>) \<and> f @ b = dataFile s @ dataBuf s @ p"
proof -
  have fa: "file_append env f q = (None, length q, f @ q)" for f q
    using assms(1) by (simp add: file_append_def no_write_faults_def)
  have self: "s\<lparr>dataFile := dataFile s, dataBuf := dataBuf s\<rparr> = s"
    "s\<lparr>dataBuf := b\<rparr> = s\<lparr>dataFile := dataFile s, dataBuf := b\<rparr>" for b by simp_all
  let ?avail = "initialBufferSize - length (dataBuf s)"
  consider (fits) "length p \<le> ?avail" | (direct) "\<not> length p \<le> ?avail" "dataBuf s = []"
    | (spill) "\<not> length p \<le> ?avail" "dataBuf s \<noteq> []" by blast
  then show ?thesis
  proof cases
    case fits
    then show ?thesis using assms(2)
      by (intro exI [of _ "dataFile s"] exI [of _ "dataBuf s @ p"]) (simp add: dataWriter_Write_def Let_def)
  next
    case direct
    then show ?thesis using assms(2)
      by (intro exI [of _ "dataFile s @ p"] exI [of _ "[]"]) (simp add: dataWriter_Write_def Let_def fa)
  next
    case spill
    let ?s = "s\<lparr>dataBuf := dataBuf s @ take ?avail p\<rparr>" and ?p = "drop ?avail p"
    have fl: "dataWriter_Flush env ?s = (None, s\<lparr>dataFile := dataFile s @ dataBuf s @ take ?avail p, dataBuf := []\<rparr>)"
      using dataWriter_Flush_ok [OF assms(1), of ?s] assms(2) by simp
    show ?thesis
    proof (cases "length ?p \<le> initialBufferSize")
      case True
      with spill fl assms(2) show ?thesis
        by (intro exI [of _ "dataFile s @ dataBuf s @ take ?avail p"] exI [of _ ?p])
           (simp add: dataWriter_Write_def Let_def)
    next
      case False
      with spill fl assms(2) show ?thesis
        by (intro exI [of _ "dataFile s @ dataBuf s @ p"] exI [of _ "[]"])
           (simp add: dataWriter_Write_def Let_def fa)
    qed
  qed
qed

section \<open>Bytes of the data file\<close>

text \<open>The bytes \<open>mid\<close> stand in the file from offset \<open>off\<close> on.\<close>

definition at_offset :: "bytes \<Rightarrow> int \<Rightarrow> bytes \<Rightarrow> bool" where
  "at_offset f off mid \<longleftrightarrow> (\<exists>pre post. f = pre @ mid @ post \<and> off = int (length pre))"

lemma at_offset_append: "at_offset f off mid \<Longrightarrow> at_offset (f @ x) off mid"
  unfolding at_offset_def by (metis append.assoc)

lemma at_offset_end: "at_offset (f @ x) (int (length f)) x"
  unfolding at_offset_def by (metis append_Nil2)

lemma at_offset_sub: "at_offset f off (a @ b) \<Longrightarrow> at_offset f off a \<and> at_offset f (off + int (length a)) b"
  unfolding at_offset_def by (metis append.assoc length_append of_nat_add)

lemma at_offset_bounds: "at_offset f off mid \<Longrightarrow> 0 \<le> off \<and> off + int (length mid) \<le> int (length f)"
  by (auto simp: at_offset_def)

lemma at_offset_extend:
  assumes "at_offset f off mid" "off + int (length mid) = int (length f)"
  shows "at_offset (f @ x) off (mid @ x)"
proof -
  from assms obtain pre post where f: "f = pre @ mid @ post" "off = int (length pre)" by (auto simp: at_offset_def)
  with assms(2) have "post = []" by simp
  with f have "f @ x = pre @ (mid @ x) @ []" by simp
  with f(2) show ?thesis unfolding at_offset_def by blast
qed

lemma readAt_at_offset: "at_offset f off mid \<Longrightarrow> readAt f off (length mid) = Inr mid"
  by (auto simp: at_offset_def intro: readAt_mid)

definition block_at :: "bytes \<Rightarrow> blockIndexEntry \<Rightarrow> (bytes \<times> bytes) list \<Rightarrow> bool" where
  "block_at data e kvs \<longleftrightarrow>
     at_offset data (StartOffset e) (enc_block (BlockID e) kvs) \<and>
     EndOffset e = StartOffset e + int (length (enc_block (BlockID e) kvs)) \<and> kvs_fit kvs"

lemma block_at_append: "block_at data e kvs \<Longrightarrow> block_at (data @ x) e kvs"
  by (simp add: block_at_def at_offset_append)

lemma read_block_at:
  assumes "block_at (dataFile s) e kvs"
  shows "read_block s e = Inr (enc_block (BlockID e) kvs)" "EndOffset e - StartOffset e \<le> 0 \<longleftrightarrow> kvs = []"
  using assms readAt_at_offset [of "dataFile s" "StartOffset e"] enc_block_eq_Nil [of "BlockID e" kvs]
  by (auto simp: block_at_def read_block_def)

section \<open>Pointers\<close>

definition ptr_at :: "bytes \<Rightarrow> kvPointer \<Rightarrow> bytes \<Rightarrow> bytes \<Rightarrow> bool" where
  "ptr_at data p k v \<longleftrightarrow>
     p = buildKVPointerForSkiplist (kp_BlockID p) (kp_Offset p) k v \<and>
     at_offset data (kp_Offset p) (writeLogEntry (kp_BlockID p) k v) \<and>
     length k < 2 ^ 32 \<and> length v < 2 ^ 32"

lemma ptr_at_append: "ptr_at data p k v \<Longrightarrow> ptr_at (data @ x) p k v"
  by (simp add: ptr_at_def at_offset_append)

lemma buildKVPointer_fields [simp]:
  "kp_Offset (buildKVPointerForSkiplist b off k v) = off"
  "kp_HasInlineValue (buildKVPointerForSkiplist b off k v) \<longleftrightarrow> GetDataTypeFromKey k = HeaderDataType"
  "GetDataTypeFromKey k = HeaderDataType \<Longrightarrow> kp_InlineValue (buildKVPointerForSkiplist b off k v) = v"
  by (simp_all add: buildKVPointerForSkiplist_def Let_def)

lemma readHeader_ptr:
  assumes "ptr_at (dataFile s) p k v"
  shows "readHeaderAndLocate s p = Inr (word_of_nat (length k), word_of_nat (length v))"
proof -
  let ?h = "PutUint64 (kp_BlockID p) @ PutUint32 (word_of_nat (length k)) @ PutUint32 (word_of_nat (length v))"
  have "at_offset (dataFile s) (kp_Offset p) ?h"
    using assms at_offset_sub [of "dataFile s" "kp_Offset p" ?h "k @ v"] by (simp add: ptr_at_def writeLogEntry_def)
  then have "readAt (dataFile s) (kp_Offset p) 16 = Inr ?h" using readAt_at_offset by fastforce
  then show ?thesis by (simp add: readHeaderAndLocate_def header_lengths_def Let_def split: option.splits)
qed

lemma read_ptr:
  assumes "ptr_at (dataFile s) p k v" "int (length (dataFile s)) < 2 ^ 63"
  shows "\<exists>src. readValueBytesFromPointerWithSource s p = Inr (v, src)"
proof (cases "kp_HasInlineValue p")
  case True
  then show ?thesis using assms(1) unfolding ptr_at_def
    by (metis buildKVPointer_fields(2,3) readValueBytesFromPointerWithSource_def)
next
  case False
  let ?h = "PutUint64 (kp_BlockID p) @ PutUint32 (word_of_nat (length k)) @ PutUint32 (word_of_nat (length v)) @ k"
  have len: "unat (word_of_nat (length k) :: u32) = length k" "unat (word_of_nat (length v) :: u32) = length v"
    using assms(1) by (simp_all add: ptr_at_def unat_of_nat)
  have "at_offset (dataFile s) (kp_Offset p) (?h @ v)"
    using assms(1) by (simp add: ptr_at_def writeLogEntry_def)
  then have "at_offset (dataFile s) (kp_Offset p + int (length ?h)) v" using at_offset_sub by blast
  then have at: "at_offset (dataFile s) (kp_Offset p + 16 + int (length k)) v" by (simp add: add.assoc)
  then have "i64 (kp_Offset p + 16 + int (length k)) = kp_Offset p + 16 + int (length k)"
    using at_offset_bounds [OF at] assms(2) by (intro i64_id) auto
  moreover have "int (unat (word_of_nat (length k) :: u32)) = int (length k)" using len by simp
  ultimately show ?thesis
    using False readHeader_ptr [OF assms(1)] readAt_at_offset [OF at] len(2)
    by (intro exI [of _ False], simp only: readValueBytesFromPointerWithSource_def) simp
qed

section \<open>Indexing the entries of a block\<close>

lemma index_entries_block:
  assumes laws: "skiplist_laws sl" and len: "int (length data) < 2 ^ 63"
  shows "at_offset data pos (enc_block b kvs) \<Longrightarrow> kvs_fit kvs \<Longrightarrow>
    (case map_of (rev kvs) k of
       None \<Rightarrow> window_index sl (index_entries sl pos (block_entries b kvs) w) k = window_index sl w k
     | Some v \<Rightarrow> \<exists>p. window_index sl (index_entries sl pos (block_entries b kvs) w) k = Some p \<and>
         kp_BlockID p = b \<and> ptr_at data p k v)"
proof (induction kvs arbitrary: pos w)
  case Nil
  then show ?case by (simp add: block_entries_def)
next
  case (Cons x kvs)
  obtain k0 v0 where x: "x = (k0, v0)" by (cases x)
  let ?p = "buildKVPointerForSkiplist b pos k0 v0"
  let ?e = "\<lparr>le_BlockID = b, le_Key = k0, le_Value = v0\<rparr>"
  let ?w = "setSkiplistEntry sl b k0 ?p w"
  have split: "at_offset data pos (writeLogEntry b k0 v0)" "at_offset data (pos + int (entry_size ?e)) (enc_block b kvs)"
    using Cons.prems(1) at_offset_sub [of data pos "writeLogEntry b k0 v0" "enc_block b kvs"]
    by (simp_all add: x enc_block_Cons entry_size_def)
  have fit: "kvs_fit kvs" "length k0 < 2 ^ 32" "length v0 < 2 ^ 32" using Cons.prems(2) by (simp_all add: kvs_fit_def x)
  have "i64 (pos + int (entry_size ?e)) = pos + int (entry_size ?e)"
    using at_offset_bounds [OF split(2)] len by (intro i64_id) auto
  then have step: "index_entries sl pos (block_entries b ((k0, v0) # kvs)) w =
      index_entries sl (pos + int (entry_size ?e)) (block_entries b kvs) ?w"
    by (simp add: block_entries_def)
  have p: "ptr_at data ?p k0 v0" using split(1) fit by (simp add: ptr_at_def)
  have "window_index sl ?w = (window_index sl w)(k0 \<mapsto> ?p)" by (rule window_index_setSkiplistEntry [OF laws])
  with Cons.IH [OF split(2) fit(1), of ?w] p show ?case
    by (auto simp: step x map_add_def split: option.splits if_splits)
qed

lemma block_entries_ids: "e \<in> set (block_entries b kvs) \<Longrightarrow> le_BlockID e = b"
  by (auto simp: block_entries_def)

lemma index_block_enc:
  "kvs_fit kvs \<Longrightarrow> index_block sl pos (enc_block b kvs) s =
     (None, s\<lparr>win := index_entries sl pos (block_entries b kvs) (win s)\<rparr>)"
  by (simp add: index_block_def decode_enc_block)

section \<open>Scanning a block for a key\<close>

lemma scan_for_key_enc:
  "kvs_fit kvs \<Longrightarrow> length (enc_block b kvs) \<le> n \<Longrightarrow> scan_for_key n (enc_block b kvs) key = Inr (map_of kvs key)"
proof (induction kvs arbitrary: n)
  case Nil
  then show ?case by (cases n) simp_all
next
  case (Cons x kvs)
  obtain k v where x: "x = (k, v)" by (cases x)
  let ?e = "\<lparr>le_BlockID = b, le_Key = k, le_Value = v\<rparr>"
  have enc: "enc_block b ((k, v) # kvs) = enc_entry ?e @ enc_block b kvs" by (simp add: enc_block_Cons enc_entry_def)
  have fit: "entry_fits ?e" "kvs_fit kvs" using Cons.prems(1) by (simp_all add: kvs_fit_def x entry_fits_def)
  have len: "length (enc_entry ?e) \<ge> 16" by (simp add: enc_entry_def)
  with Cons.prems(2) obtain n' where n: "n = Suc n'" by (cases n) (simp_all add: x enc)
  have "length (enc_block b kvs) \<le> n'" using Cons.prems(2) len by (simp add: x enc n)
  moreover have "enc_entry ?e \<noteq> []" using len by auto
  ultimately show ?case
    using Cons.IH [OF fit(2)] readLogEntry_writeLogEntry [OF fit(1)] by (simp add: enc n x)
qed

lemma findKeyInOneBlock_at:
  "block_at (dataFile s) e kvs \<Longrightarrow> findKeyInOneBlock s e key = Inr (map_of kvs key)"
  using read_block_at [of s e kvs] scan_for_key_enc [of kvs "BlockID e" "length (enc_block (BlockID e) kvs)" key]
  by (auto simp: findKeyInOneBlock_def block_at_def split: option.splits)

section \<open>The blocks a log holds\<close>

definition block_of :: "u64 \<Rightarrow> (bytes \<times> bytes) list list \<Rightarrow> u64 \<Rightarrow> (bytes \<times> bytes) list" where
  "block_of m bs b = (if m \<le> b \<and> slot_of m b < length bs then bs ! slot_of m b else [])"

text \<open>Every key names the block it is stored in, as the keys of headers, bodies and receipts do.\<close>

definition own :: "u64 \<Rightarrow> (bytes \<times> bytes) list list \<Rightarrow> bool" where
  "own m bs \<longleftrightarrow> (\<forall>b. \<forall>k \<in> fst ` set (block_of m bs b). key_block k = Some b)"

definition window_sound :: "'s skiplist_ops \<Rightarrow> 's recentWindow \<Rightarrow> bytes \<Rightarrow> u64 \<Rightarrow> (bytes \<times> bytes) list list \<Rightarrow> bool" where
  "window_sound sl w data m bs \<longleftrightarrow>
     (\<forall>k p. window_index sl w k = Some p \<longrightarrow>
        (\<exists>v. map_of (rev (block_of m bs (kp_BlockID p))) k = Some v \<and> ptr_at data p k v))"

definition window_complete :: "'s skiplist_ops \<Rightarrow> 's recentWindow \<Rightarrow> u64 \<Rightarrow> (bytes \<times> bytes) list list \<Rightarrow> bool" where
  "window_complete sl w m bs \<longleftrightarrow>
     (\<forall>b \<in> window_blocks w. \<forall>k \<in> fst ` set (block_of m bs b). window_index sl w k \<noteq> None)"

text \<open>The recent blocks are blocks of the log.\<close>

definition window_recent :: "'s recentWindow \<Rightarrow> u64 \<Rightarrow> (bytes \<times> bytes) list list \<Rightarrow> bool" where
  "window_recent w m bs \<longleftrightarrow>
     (\<forall>rb. recentBlocks w = Some rb \<longrightarrow> (\<forall>b \<in> set rb. m \<le> b \<and> slot_of m b < length bs))"

definition window_rel :: "'s skiplist_ops \<Rightarrow> 's recentWindow \<Rightarrow> bytes \<Rightarrow> u64 \<Rightarrow> (bytes \<times> bytes) list list \<Rightarrow> bool" where
  "window_rel sl w data m bs \<longleftrightarrow>
     window_inv sl w \<and> window_sound sl w data m bs \<and> window_complete sl w m bs \<and> window_recent w m bs"

lemma block_of_append_old:
  "slot_of m b \<noteq> length bs \<Longrightarrow> block_of m (bs @ [c]) b = block_of m bs b"
  by (auto simp: block_of_def nth_append)

lemma block_of_append_new:
  "unat m + length bs < 2 ^ 64 \<Longrightarrow> block_of m (bs @ [c]) (m + word_of_nat (length bs)) = c"
  by (simp add: block_of_def slot_of_add word_le_nat_alt unat_word_ariths unat_of_nat)

lemma block_of_append_below: "\<not> m \<le> b \<Longrightarrow> block_of m bs b = []"
  by (simp add: block_of_def)

lemma block_of_append:
  assumes "unat m + length bs < 2 ^ 64"
  shows "block_of m (bs @ [c]) b = (if b = m + word_of_nat (length bs) then c else block_of m bs b)"
proof (cases "b = m + word_of_nat (length bs)")
  case True
  with block_of_append_new [OF assms] show ?thesis by simp
next
  case False
  then have "\<not> m \<le> b \<or> slot_of m b \<noteq> length bs" using word_from_slot by metis
  with False show ?thesis using block_of_append_old [of m b bs c] by (auto simp: block_of_append_below)
qed

lemma block_of_past: "unat m + length bs < 2 ^ 64 \<Longrightarrow> block_of m bs (m + word_of_nat (length bs)) = []"
  by (simp add: block_of_def slot_of_add)

lemma map_of_rev_keys: "map_of (rev kvs) k = Some v \<Longrightarrow> k \<in> fst ` set kvs"
  by (metis map_of_SomeD fst_conv image_eqI set_rev)

lemma map_of_rev_None: "map_of (rev kvs) k = None \<longleftrightarrow> k \<notin> fst ` set kvs"
  by (simp add: map_of_eq_None_iff)

lemma sound_key_block:
  assumes "own m bs" "window_sound sl w data m bs" "window_index sl w k = Some p"
  shows "key_block k = Some (kp_BlockID p)" "k \<in> fst ` set (block_of m bs (kp_BlockID p))"
  using assms map_of_rev_keys unfolding window_sound_def own_def by metis+

section \<open>The window along an append\<close>

lemma window_rel_data: "window_rel sl w data m bs \<Longrightarrow> window_rel sl w (data @ x) m bs"
  unfolding window_rel_def window_sound_def using ptr_at_append by metis

lemma window_rel_ensure:
  assumes "skiplist_laws sl" "window_rel sl w data m bs"
  shows "window_rel sl (ensureWriteTrackingInitialized sl w) data m bs"
proof -
  let ?w = "ensureWriteTrackingInitialized sl w"
  have inv: "window_inv sl w" and sound: "window_sound sl w data m bs" and rec: "window_recent w m bs"
    using assms(2) by (simp_all add: window_rel_def)
  have "m \<le> b \<and> slot_of m b < length bs" if rb: "recentBlocks ?w = Some rb" "b \<in> set rb" for rb b
    using ensureWriteTracking_recent [OF assms(1) rb(1)]
  proof
    assume "recentBlocks w = Some rb"
    with rec rb(2) show ?thesis by (simp add: window_recent_def)
  next
    assume "\<forall>b \<in> set rb. \<exists>k p. window_index sl w k = Some p \<and> kp_BlockID p = b"
    with rb(2) sound show ?thesis
      by (fastforce simp: window_sound_def block_of_def split: if_splits)
  qed
  then show ?thesis
    using assms ensureWriteTracking_spec [OF assms(1) inv]
    by (simp add: window_rel_def window_sound_def window_complete_def window_recent_def)
qed

text \<open>A new block enters the window empty, and the oldest block may leave it.\<close>

lemma window_rel_advance:
  assumes laws: "skiplist_laws sl" and rel: "window_rel sl w data m bs" and own: "own m bs"
    and rb: "recentBlocks w = Some rb" and lt: "unat m + length bs < 2 ^ 64"
  defines "w' \<equiv> updateRecentBlocks sl (m + word_of_nat (length bs)) w"
  shows "window_rel sl w' data m (bs @ [[]])" and "\<exists>rb'. recentBlocks w' = Some rb'"
proof -
  let ?b = "m + word_of_nat (length bs)"
  have inv: "window_inv sl w" and sound: "window_sound sl w data m bs" and comp: "window_complete sl w m bs"
    using rel by (simp_all add: window_rel_def)
  note spec = updateRecentBlocks_spec [OF laws inv rb, of ?b, folded w'_def]
  show "\<exists>rb'. recentBlocks w' = Some rb'" using spec(5) by blast
  have "slot_of m ?b = length bs" "m \<le> ?b"
    using lt by (simp_all add: slot_of_add word_le_nat_alt unat_word_ariths unat_of_nat)
  then have "window_recent w' m (bs @ [[]])"
    using spec(5) rel rb by (fastforce simp: window_rel_def window_recent_def)
  have blk: "block_of m (bs @ [[]]) b = block_of m bs b" for b
    using block_of_append [OF lt, of "[]" b] block_of_past [OF lt] by simp
  have sub: "window_index sl w' k = Some p \<longleftrightarrow>
      window_index sl w k = Some p \<and> kp_BlockID p \<notin> set_option (leaving w ?b)" for k p
    by (auto simp: spec(2) drop_block_def index_without_Some split: option.splits)
  have "window_sound sl w' data m (bs @ [[]])"
    using sound sub blk unfolding window_sound_def by metis
  moreover have "window_index sl w' k \<noteq> None"
    if b: "b \<in> window_blocks w'" and k: "k \<in> fst ` set (block_of m bs b)" for b k
  proof -
    have "b \<noteq> ?b" using k block_of_past [OF lt] by auto
    with b have "b \<in> window_blocks w" "b \<notin> set_option (leaving w ?b)" by (auto simp: spec(3))
    then obtain p where p: "window_index sl w k = Some p" using comp k by (auto simp: window_complete_def)
    have "key_block k = Some b" using own k by (auto simp: own_def)
    with sound_key_block(1) [OF own sound p] have "kp_BlockID p = b" by simp
    with p sub \<open>b \<notin> set_option (leaving w ?b)\<close> show ?thesis by auto
  qed
  then have "window_complete sl w' m (bs @ [[]])" by (simp add: window_complete_def blk)
  ultimately show "window_rel sl w' data m (bs @ [[]])"
    using spec(1) \<open>window_recent w' m (bs @ [[]])\<close> by (simp add: window_rel_def)
qed

text \<open>The entries of the newest block are indexed if the block is in the window.\<close>

lemma window_rel_index:
  assumes laws: "skiplist_laws sl" and rel: "window_rel sl w data m (bs @ [old])"
    and own: "own m (bs @ [old @ kvs])" and lt: "unat m + length bs < 2 ^ 64"
    and b: "b = m + word_of_nat (length bs)" and inw: "b \<in> window_blocks w"
    and at: "at_offset data pos (enc_block b kvs)" and fit: "kvs_fit kvs" and len: "int (length data) < 2 ^ 63"
  shows "window_rel sl (index_entries sl pos (block_entries b kvs) w) data m (bs @ [old @ kvs])"
proof -
  let ?w = "index_entries sl pos (block_entries b kvs) w"
  have inv: "window_inv sl w" and sound: "window_sound sl w data m (bs @ [old])" and comp: "window_complete sl w m (bs @ [old])"
    and rec: "window_recent w m (bs @ [old])"
    using rel by (simp_all add: window_rel_def)
  note blk = block_of_append [OF lt]
  note ix = index_entries_block [OF laws len at fit, where w = w]
  have old: "window_index sl ?w k = window_index sl w k" if "map_of (rev kvs) k = None" for k
    using ix [where k = k] that by simp
  have new: "\<exists>p. window_index sl ?w k = Some p \<and> kp_BlockID p = b \<and> ptr_at data p k v" if "map_of (rev kvs) k = Some v" for k v
    using ix [where k = k] that by simp
  have "window_inv sl ?w"
    using inw block_entries_ids by (intro index_entries_inv [OF laws inv]) metis
  moreover have "window_sound sl ?w data m (bs @ [old @ kvs])"
    unfolding window_sound_def
  proof (intro allI impI)
    fix k p assume p: "window_index sl ?w k = Some p"
    show "\<exists>v. map_of (rev (block_of m (bs @ [old @ kvs]) (kp_BlockID p))) k = Some v \<and> ptr_at data p k v"
    proof (cases "map_of (rev kvs) k")
      case None
      with p old obtain v where "map_of (rev (block_of m (bs @ [old]) (kp_BlockID p))) k = Some v" "ptr_at data p k v"
        using sound unfolding window_sound_def by metis
      with None show ?thesis by (auto simp: blk map_add_def b split: if_splits)
    next
      case (Some v)
      with new [OF Some] p show ?thesis by (auto simp: blk b map_add_def)
    qed
  qed
  moreover have "window_complete sl ?w m (bs @ [old @ kvs])"
    unfolding window_complete_def
  proof (intro ballI)
    fix c k assume c: "c \<in> window_blocks ?w" and k: "k \<in> fst ` set (block_of m (bs @ [old @ kvs]) c)"
    show "window_index sl ?w k \<noteq> None"
    proof (cases "map_of (rev kvs) k")
      case None
      then have "k \<in> fst ` set (block_of m (bs @ [old]) c)"
        using k by (auto simp: blk map_of_rev_None split: if_splits)
      moreover have "c \<in> window_blocks w" using c by simp
      ultimately have "window_index sl w k \<noteq> None" using comp unfolding window_complete_def by blast
      with old [OF None] show ?thesis by simp
    next
      case (Some v)
      with new [OF Some] show ?thesis by auto
    qed
  qed
  ultimately show ?thesis using rec by (simp add: window_rel_def window_recent_def)
qed

lemma window_rel_skip:
  assumes rel: "window_rel sl w data m (bs @ [old])" and lt: "unat m + length bs < 2 ^ 64"
    and notin: "m + word_of_nat (length bs) \<notin> window_blocks w"
  shows "window_rel sl w data m (bs @ [c])"
proof -
  note blk = block_of_append [OF lt]
  have "\<forall>k p. window_index sl w k = Some p \<longrightarrow> kp_BlockID p \<in> window_blocks w"
    using rel unfolding window_rel_def window_inv_def by blast
  then have "kp_BlockID p \<noteq> m + word_of_nat (length bs)" if "window_index sl w k = Some p" for k p
    using that notin by metis
  with rel notin show ?thesis
    by (auto simp: window_rel_def window_sound_def window_complete_def window_recent_def blk split: if_splits)
qed

end
