(* ===== verification/Block_Log_Append.thy ===== *)
theory Block_Log_Append
  imports Block_Log_Refinement
begin

text \<open>
  Appends and commit markers on the block log as operations on its list of blocks: the
  relation \<open>log_rel\<close> between a log and its blocks, and that every append, gap fill and commit
  marker that meets no fault moves it to the blocks the abstract operation gives.
\<close>

section \<open>The relation\<close>

definition meta_min :: "bytes option \<Rightarrow> u64" where
  "meta_min f = (case f of None \<Rightarrow> 0 | Some b \<Rightarrow> if indexMetaSize \<le> length b then Uint64 (take 8 b) else 0)"

lemma loadIndexMeta_meta_min: "loadIndexMeta i = i\<lparr>minBlockID := meta_min (indexMetaFile i)\<rparr>"
  by (simp add: loadIndexMeta_def meta_min_def ReadFull_def indexMetaSize_def split: option.splits)

text \<open>
  The index file holds the entries \<open>es\<close>, the buffer the entries \<open>ns\<close> of the blocks that
  follow; the metadata file, if it is complete, agrees on the smallest block.
\<close>

definition index_rel :: "blockIndexState \<Rightarrow> u64 \<Rightarrow> blockIndexEntry list \<Rightarrow> blockIndexEntry list \<Rightarrow> bool" where
  "index_rel i m es ns \<longleftrightarrow>
     slots m (es @ ns) \<and> indexMapOpen i \<and> indexMapFile i = index_bytes es \<and> blockIndex i = None \<and> indexBuffer i = ns \<and>
     minBlockID i = (if es @ ns = [] then 0 else m) \<and>
     latestBlockID i = (if es @ ns = [] then 0 else m + word_of_nat (length (es @ ns) - 1)) \<and>
     (meta_min (indexMetaFile i) = 0 \<or> es @ ns \<noteq> [] \<and> meta_min (indexMetaFile i) = m)"

definition log_rel ::
  "'s skiplist_ops \<Rightarrow> 's BlockAppendOnlyLog \<Rightarrow> u64 \<Rightarrow> blockIndexEntry list \<Rightarrow> blockIndexEntry list \<Rightarrow>
   (bytes \<times> bytes) list list \<Rightarrow> bool" where
  "log_rel sl s m es ns bs \<longleftrightarrow>
     \<not> closed s \<and> dataBuf s = [] \<and> dataErr s = None \<and>
     currentOffset s = int (length (dataFile s)) \<and> int (length (dataFile s)) < 2 ^ 63 \<and>
     index_rel (idx s) m es ns \<and> list_all2 (block_at (dataFile s)) (es @ ns) bs \<and> own m bs \<and>
     window_rel sl (win s) (dataFile s) m bs"

definition room :: "u64 \<Rightarrow> nat \<Rightarrow> bool" where
  "room m n \<longleftrightarrow> unat m + n < 2 ^ 64 - 1 \<and> 24 * int (Suc n) < 2 ^ 63"

lemma log_rel_length: "log_rel sl s m es ns bs \<Longrightarrow> length es + length ns = length bs"
  by (auto simp: log_rel_def dest: list_all2_lengthD)

lemma log_rel_empty: "log_rel sl s m [] [] [] \<Longrightarrow> m' \<noteq> 0 \<Longrightarrow> log_rel sl s m' [] [] []"
proof -
  assume rel: "log_rel sl s m [] [] []" and m': "m' \<noteq> 0"
  have "unat m' < 2 ^ 64" using unsigned_less [of m', where ?'a = nat] by simp
  then have "slots m' []" using m' by (simp add: slots_def)
  moreover have "block_of m'' [] b = []" for m'' b by (simp add: block_of_def)
  ultimately show ?thesis
    using rel by (simp add: log_rel_def index_rel_def own_def window_rel_def window_sound_def window_complete_def window_recent_def)
qed

section \<open>Index steps\<close>

lemma writeIndexEntry_fields [simp, index_simps]:
  "minBlockID (writeIndexEntry e i) = minBlockID i" "latestBlockID (writeIndexEntry e i) = latestBlockID i"
  "indexMapFile (writeIndexEntry e i) = indexMapFile i" "indexMetaFile (writeIndexEntry e i) = indexMetaFile i"
  "blockIndex (writeIndexEntry e i) = blockIndex i" "indexMapOpen (writeIndexEntry e i) = indexMapOpen i"
  "indexBuffer (writeIndexEntry e i) = indexBuffer i @ [e]"
  by (simp_all add: writeIndexEntry_def bufferIndexEntry_def Let_def)

lemma index_rel_push:
  assumes rel: "index_rel i m es ns" and e: "BlockID e = m + word_of_nat (length (es @ ns))" "offset_fits e"
      "StartOffset e \<le> EndOffset e"
    and room: "room m (length (es @ ns))"
  shows "index_rel ((writeIndexEntry e (i\<lparr>minBlockID := (if minBlockID i = 0 then BlockID e else minBlockID i)\<rparr>))
    \<lparr>latestBlockID := BlockID e\<rparr>) m es (ns @ [e])"
proof -
  have m: "m \<noteq> 0" and sl: "slots m (es @ ns)" using rel by (auto simp: index_rel_def slots_def)
  have "slots m ((es @ ns) @ [e])" using slots_appendI [OF sl e] room by (simp add: room_def)
  moreover have "es @ ns = [] \<Longrightarrow> BlockID e = m" using e(1) by simp
  ultimately show ?thesis
    using rel e(1) m by (auto simp: index_rel_def writeIndexEntry_def bufferIndexEntry_def Let_def)
qed

lemma index_rel_push_at:
  assumes "index_rel i m es ns" "b = m + word_of_nat (length (es @ ns))" "0 \<le> st" "st \<le> en" "en < 2 ^ 63" "room m (length (es @ ns))"
  shows "index_rel ((writeIndexEntry \<lparr>BlockID = b, StartOffset = st, EndOffset = en\<rparr>
      (i\<lparr>minBlockID := (if minBlockID i = 0 then b else minBlockID i)\<rparr>))\<lparr>latestBlockID := b\<rparr>) m es
      (ns @ [\<lparr>BlockID = b, StartOffset = st, EndOffset = en\<rparr>])"
proof -
  let ?e = "\<lparr>BlockID = b, StartOffset = st, EndOffset = en\<rparr>"
  have e: "BlockID ?e = m + word_of_nat (length (es @ ns))" "offset_fits ?e" "StartOffset ?e \<le> EndOffset ?e"
    using assms(2-5) by (simp_all add: offset_fits_def)
  have "BlockID ?e = b" by simp
  with index_rel_push [OF assms(1) e assms(6)] show ?thesis by (simp only:)
qed

lemma slots_puts:
  "slots m (es @ ns) \<Longrightarrow> puts_ok m (length es) ns \<and> foldl (put_slot m) es ns = es @ ns"
proof (induction ns arbitrary: es)
  case (Cons e ns)
  have lt: "length es < length (es @ e # ns)" by simp
  note nth = slots_nth [OF Cons.prems lt]
  have slot: "slot_of m (BlockID e) = length es" "m \<le> BlockID e" using nth(5,6) by simp_all
  have "24 * int (length es) < 2 ^ 63" using Cons.prems by (simp add: slots_def)
  moreover have "slots m ((es @ [e]) @ ns)" using Cons.prems by simp
  ultimately show ?case
    using Cons.IH [of "es @ [e]"] slot by (simp add: put_slot_def)
qed simp

lemma index_rel_flush:
  assumes "index_rel i m es ns" "no_write_faults env"
  shows "\<exists>i'. flushIndexBufferWithBlockID env (minBlockID i) i = (None, i') \<and> index_rel i' m (es @ ns) []"
proof (cases "ns = []")
  case True
  with assms(1) show ?thesis by (simp add: flushIndexBufferWithBlockID_def index_rel_def)
next
  case False
  have "slots m (es @ ns)" using assms(1) by (simp add: index_rel_def)
  with assms False have "flushIndexBufferWithBlockID env (minBlockID i) i =
      (None, i\<lparr>indexBuffer := [], indexMapFile := index_bytes (es @ ns)\<rparr>)"
    using flushIndexBuffer_puts [of env i es m] slots_puts [of m es ns]
    by (simp add: index_rel_def no_write_faults_def)
  with assms(1) False show ?thesis by (simp add: index_rel_def)
qed

lemma meta_min_take:
  "meta_min (Some (take n (encodeIndexMeta m l))) = 0 \<or> meta_min (Some (take n (encodeIndexMeta m l))) = m"
  by (simp add: meta_min_def encodeIndexMeta_def indexMetaSize_def)

lemma meta_min_encode: "meta_min (Some (encodeIndexMeta m l)) = m"
  by (simp add: meta_min_def encodeIndexMeta_def indexMetaSize_def)

lemma index_rel_save:
  assumes "index_rel i m es ns"
  shows "index_rel (snd (saveIndexMeta env i)) m es ns"
    and "no_meta_faults env \<Longrightarrow> fst (saveIndexMeta env i) = None"
  using assms meta_min_take meta_min_encode
  by (auto simp: saveIndexMeta_def index_rel_def no_meta_faults_def Let_def split: option.splits)

lemma saveIndexMeta_fields [simp]:
  "minBlockID (snd (saveIndexMeta env i)) = minBlockID i" "latestBlockID (snd (saveIndexMeta env i)) = latestBlockID i"
  by (simp_all add: saveIndexMeta_def Let_def split: option.splits)

section \<open>Log steps\<close>

lemma save_meta_rel:
  assumes "log_rel sl s m es ns bs"
  shows "log_rel sl (snd (save_meta env s)) m es ns bs"
    and "win (snd (save_meta env s)) = win s" "dataFile (snd (save_meta env s)) = dataFile s"
    and "no_meta_faults env \<Longrightarrow> save_meta env s = (None, snd (save_meta env s))"
proof -
  have rel: "index_rel (idx s) m es ns" using assms by (simp add: log_rel_def)
  obtain e i where sm: "saveIndexMeta env (idx s) = (e, i)" by (cases "saveIndexMeta env (idx s)")
  then have "index_rel i m es ns" "no_meta_faults env \<Longrightarrow> e = None"
    using index_rel_save [OF rel, of env] by simp_all
  with sm assms show "log_rel sl (snd (save_meta env s)) m es ns bs"
    "win (snd (save_meta env s)) = win s" "dataFile (snd (save_meta env s)) = dataFile s"
    "no_meta_faults env \<Longrightarrow> save_meta env s = (None, snd (save_meta env s))"
    by (simp_all add: save_meta_def log_rel_def)
qed

lemma flush_index_rel:
  assumes "log_rel sl s m es ns bs" "no_write_faults env"
  shows "\<exists>s'. flush_index env s = (None, s') \<and> log_rel sl s' m (es @ ns) [] bs \<and> win s' = win s \<and> dataFile s' = dataFile s"
proof -
  have "index_rel (idx s) m es ns" using assms(1) by (simp add: log_rel_def)
  from index_rel_flush [OF this assms(2)] obtain i' where
    "flushIndexBufferWithBlockID env (minBlockID (idx s)) (idx s) = (None, i')" "index_rel i' m (es @ ns) []" by blast
  with assms(1) show ?thesis by (simp add: flush_index_def log_rel_def)
qed

definition gap_entry :: "u64 \<Rightarrow> 's BlockAppendOnlyLog \<Rightarrow> blockIndexEntry" where
  "gap_entry b s = \<lparr>BlockID = b, StartOffset = currentOffset s, EndOffset = currentOffset s\<rparr>"

lemma own_append:
  assumes "own m bs" "unat m + length bs < 2 ^ 64" "\<forall>k \<in> fst ` set kvs. key_block k = Some (m + word_of_nat (length bs))"
  shows "own m (bs @ [kvs])"
  using assms by (auto simp: own_def block_of_append)

lemma fill_one_rel:
  assumes laws: "skiplist_laws sl" and rel: "log_rel sl s m es ns bs" and rb: "recentBlocks (win s) = Some rb"
    and room: "room m (length bs)"
  defines "b \<equiv> m + word_of_nat (length bs)"
  shows "log_rel sl (fill_one sl b s) m es (ns @ [gap_entry b s]) (bs @ [[]])"
    and "\<exists>rb'. recentBlocks (win (fill_one sl b s)) = Some rb'"
    and "dataFile (fill_one sl b s) = dataFile s" "currentOffset (fill_one sl b s) = currentOffset s"
proof -
  let ?e = "gap_entry b s"
  have lt: "unat m + length bs < 2 ^ 64" using room by (simp add: room_def)
  have len: "length (es @ ns) = length bs" using log_rel_length [OF rel] by simp
  have off: "currentOffset s = int (length (dataFile s))" "int (length (dataFile s)) < 2 ^ 63" using rel by (simp_all add: log_rel_def)
  have fo: "fill_one sl b s = s\<lparr>idx := (writeIndexEntry ?e ((idx s)\<lparr>minBlockID := (if minBlockID (idx s) = 0 then b else minBlockID (idx s))\<rparr>))
      \<lparr>latestBlockID := b\<rparr>, win := updateRecentBlocks sl b (win s)\<rparr>"
    by (simp add: fill_one_def gap_entry_def Let_def)
  show "dataFile (fill_one sl b s) = dataFile s" "currentOffset (fill_one sl b s) = currentOffset s"
    by (simp_all add: fo)
  have wrel: "window_rel sl (win s) (dataFile s) m bs" and own: "own m bs" using rel by (simp_all add: log_rel_def)
  note adv = window_rel_advance [OF laws wrel own rb lt, folded b_def]
  show "\<exists>rb'. recentBlocks (win (fill_one sl b s)) = Some rb'" using adv(2) by (simp add: fo)
  have "index_rel (idx s) m es ns" "b = m + word_of_nat (length (es @ ns))" "room m (length (es @ ns))"
    using rel len room by (simp_all only: log_rel_def b_def)
  then have ix: "index_rel (idx (fill_one sl b s)) m es (ns @ [?e])"
    using index_rel_push_at [of "idx s" m es ns b "currentOffset s" "currentOffset s"] off unfolding fo gap_entry_def by simp
  have "at_offset (dataFile s @ []) (int (length (dataFile s))) []" by (rule at_offset_end)
  then have "block_at (dataFile s) ?e []" using off by (simp add: block_at_def gap_entry_def kvs_fit_def)
  then have "list_all2 (block_at (dataFile s)) (es @ ns @ [?e]) (bs @ [[]])"
    using rel list_all2_appendI [of _ "es @ ns" bs "[?e]" "[[]]"] by (simp add: log_rel_def)
  moreover have "own m (bs @ [[]])" by (rule own_append [OF own lt]) simp
  ultimately show "log_rel sl (fill_one sl b s) m es (ns @ [?e]) (bs @ [[]])"
    using rel ix adv(1) by (simp add: log_rel_def fo)
qed

lemma fill_loop_rel:
  assumes laws: "skiplist_laws sl"
  shows "log_rel sl s m es ns bs \<Longrightarrow> recentBlocks (win s) = Some rb \<Longrightarrow>
    unat target = unat m + length bs + n \<Longrightarrow> unat m + length bs + n \<le> 2 ^ 64 - 1 \<Longrightarrow> 24 * int (length bs + n) < 2 ^ 63 \<Longrightarrow>
    \<exists>ns' rb'. let s' = fill_loop sl (m + word_of_nat (length bs)) target s in
      log_rel sl s' m es (ns @ ns') (bs @ replicate n []) \<and> length ns' = n \<and> recentBlocks (win s') = Some rb' \<and>
      dataFile s' = dataFile s \<and> (n = 0 \<or> EndOffset (last ns') = currentOffset s)"
proof (induction n arbitrary: s ns bs rb)
  case 0
  have "unat (m + word_of_nat (length bs)) = unat target" using 0 by (simp add: unat_word_ariths unat_of_nat)
  then have "m + word_of_nat (length bs) = target" by (simp add: word_eq_iff_unsigned [where ?'a = nat])
  with 0 show ?case by (simp add: fill_loop.simps Let_def)
next
  case (Suc n)
  let ?b = "m + word_of_nat (length bs)"
  have r: "room m (length bs)" using Suc.prems by (simp add: room_def)
  note fo = fill_one_rel [OF laws Suc.prems(1,2) r]
  from fo(2) obtain rb1 where rb1: "recentBlocks (win (fill_one sl ?b s)) = Some rb1" by blast
  have "unat ?b = unat m + length bs" using Suc.prems by (simp add: unat_word_ariths unat_of_nat)
  then have lt: "?b < target" using Suc.prems by (simp add: word_less_nat_alt)
  have next_b: "m + word_of_nat (length (bs @ [[]])) = ?b + 1" by simp
  obtain ns' rb' where IH: "log_rel sl (fill_loop sl (?b + 1) target (fill_one sl ?b s)) m es ((ns @ [gap_entry ?b s]) @ ns') ((bs @ [[]]) @ replicate n [])"
      "length ns' = n" "recentBlocks (win (fill_loop sl (?b + 1) target (fill_one sl ?b s))) = Some rb'"
      "dataFile (fill_loop sl (?b + 1) target (fill_one sl ?b s)) = dataFile (fill_one sl ?b s)"
      "n = 0 \<or> EndOffset (last ns') = currentOffset (fill_one sl ?b s)"
    using Suc.IH [OF fo(1) rb1, unfolded next_b Let_def] Suc.prems by auto
  have step: "fill_loop sl ?b target s = fill_loop sl (?b + 1) target (fill_one sl ?b s)"
    using lt by (simp add: fill_loop.simps [of sl ?b])
  have "EndOffset (last (gap_entry ?b s # ns')) = currentOffset s"
    using IH(2,5) fo(4) by (auto simp: gap_entry_def)
  with IH fo(3) show ?case
    by (intro exI [of _ "gap_entry ?b s # ns'"] exI [of _ rb']) (simp add: step Let_def)
qed

section \<open>Gaps and commit markers\<close>

text \<open>The newest block ends where the file ends: no torn append has left bytes behind it.\<close>

definition tight :: "'s BlockAppendOnlyLog \<Rightarrow> blockIndexEntry list \<Rightarrow> bool" where
  "tight s es \<longleftrightarrow> es \<noteq> [] \<longrightarrow> EndOffset (last es) = currentOffset s"

definition tracking :: "'s BlockAppendOnlyLog \<Rightarrow> bool" where
  "tracking s \<longleftrightarrow> recentBlocks (win s) \<noteq> None"

lemma log_rel_ensure:
  assumes "skiplist_laws sl" "log_rel sl s m es ns bs"
  defines "s' \<equiv> s\<lparr>win := ensureWriteTrackingInitialized sl (win s)\<rparr>"
  shows "log_rel sl s' m es ns bs" "tracking s'"
proof -
  have w: "window_rel sl (win s) (dataFile s) m bs" using assms(2) by (simp add: log_rel_def)
  show "log_rel sl s' m es ns bs"
    using assms(2) window_rel_ensure [OF assms(1) w] by (simp add: log_rel_def s'_def)
  show "tracking s'"
    using w ensureWriteTracking_spec(5) [OF assms(1), of "win s"] by (auto simp: tracking_def s'_def window_rel_def)
qed

lemma log_rel_latest:
  assumes "log_rel sl s m es [] bs" "bs \<noteq> []"
  shows "latestBlockID (idx s) = m + word_of_nat (length bs - 1)" "minBlockID (idx s) = m"
    "unat (latestBlockID (idx s)) = unat m + (length bs - 1)" "unat m + length bs \<le> 2 ^ 64 - 1"
    "latestBlockID (idx s) + 1 = m + word_of_nat (length bs)"
proof -
  have len: "length es = length bs" using log_rel_length [OF assms(1)] by simp
  then have es: "es \<noteq> []" using assms(2) by auto
  have sl: "slots m es" and l: "latestBlockID (idx s) = m + word_of_nat (length es - 1)" "minBlockID (idx s) = m"
    using assms(1) es by (simp_all add: log_rel_def index_rel_def)
  show "latestBlockID (idx s) = m + word_of_nat (length bs - 1)" "minBlockID (idx s) = m" using l len by simp_all
  show b: "unat m + length bs \<le> 2 ^ 64 - 1" using sl len by (simp add: slots_def)
  then show "unat (latestBlockID (idx s)) = unat m + (length bs - 1)"
    using l len by (simp add: unat_word_ariths unat_of_nat)
  obtain n where "length bs = Suc n" using assms(2) by (cases bs) auto
  then show "latestBlockID (idx s) + 1 = m + word_of_nat (length bs)"
    using l len by simp
qed

lemma fillMissing_rel:
  assumes laws: "skiplist_laws sl" and env: "no_write_faults env" "no_meta_faults env"
    and rel: "log_rel sl s m es [] bs" and tr: "tracking s" and first: "bs = [] \<Longrightarrow> m = 1"
    and n: "unat target = unat m + length bs + n" "24 * int (length bs + n) < 2 ^ 63" and t: "tight s es"
  shows "\<exists>s' es'. fillMissingBlocksUntil env sl target s = (None, s') \<and> log_rel sl s' m es' [] (bs @ replicate n []) \<and>
    tracking s' \<and> dataFile s' = dataFile s \<and> tight s' es'"
proof -
  let ?b = "m + word_of_nat (length bs)"
  have start: "latestBlockID (idx s) + 1 = ?b"
  proof (cases "bs = []")
    case True
    then have "es = []" using log_rel_length [OF rel] by simp
    with True first rel show ?thesis by (simp add: log_rel_def index_rel_def)
  qed (use log_rel_latest(5) [OF rel] in simp)
  have lt: "unat m + length bs + n \<le> 2 ^ 64 - 1" using n(1) unsigned_less [of target, where ?'a = nat] by simp
  then have ub: "unat ?b = unat m + length bs" by (simp add: unat_word_ariths unat_of_nat)
  show ?thesis
  proof (cases "n = 0")
    case True
    then have "target \<le> ?b" using ub n(1) by (simp add: word_le_nat_alt)
    with True rel tr t start show ?thesis by (auto simp: fillMissingBlocksUntil_def)
  next
    case False
    then have gt: "\<not> target \<le> ?b" using ub n(1) by (simp add: word_le_nat_alt)
    obtain rb where rb: "recentBlocks (win s) = Some rb" using tr by (auto simp: tracking_def)
    let ?s = "fill_loop sl ?b target s"
    obtain ns' rb' where fl: "log_rel sl ?s m es ns' (bs @ replicate n [])" "length ns' = n"
        "recentBlocks (win ?s) = Some rb'" "dataFile ?s = dataFile s" "EndOffset (last ns') = currentOffset s"
      using fill_loop_rel [OF laws rel rb n(1) lt n(2)] False by (auto simp: Let_def)
    obtain s1 where s1: "flush_index env ?s = (None, s1)" "log_rel sl s1 m (es @ ns') [] (bs @ replicate n [])"
        "win s1 = win ?s" "dataFile s1 = dataFile ?s"
      using flush_index_rel [OF fl(1) env(1)] by blast
    note sv = save_meta_rel [OF s1(2), of env]
    have "currentOffset (snd (save_meta env s1)) = currentOffset s"
      using sv(1,3) fl(4) s1(4) rel by (simp add: log_rel_def)
    moreover have "ns' \<noteq> []" using fl(2) False by auto
    ultimately have "tight (snd (save_meta env s1)) (es @ ns')" using fl(5) by (simp add: tight_def)
    moreover have "fillMissingBlocksUntil env sl target s = save_meta env s1"
      using gt s1(1) by (simp add: fillMissingBlocksUntil_def start)
    moreover have "tracking (snd (save_meta env s1))" "dataFile (snd (save_meta env s1)) = dataFile s"
      using sv(2,3) s1(3,4) fl(3,4) by (simp_all add: tracking_def)
    ultimately show ?thesis using sv(1) sv(4) [OF env(2)] by auto
  qed
qed

section \<open>Appending a block\<close>

definition keys_in :: "u64 \<Rightarrow> (bytes \<times> bytes) list \<Rightarrow> bool" where
  "keys_in b kvs \<longleftrightarrow> (\<forall>k \<in> fst ` set kvs. key_block k = Some b)"

definition kvs_ok :: "u64 \<Rightarrow> (bytes \<times> bytes) list \<Rightarrow> bool" where
  "kvs_ok b kvs \<longleftrightarrow> distinct (map fst kvs) \<and> kvs_fit kvs \<and> keys_in b kvs"

lemma kvs_ok_write_order:
  assumes "kvs_ok b kvs"
  shows "kvs_fit (write_order kvs)" "keys_in b (write_order kvs)" "distinct (map fst (write_order kvs))"
  using assms set_write_order [of kvs] distinct_write_order [of kvs]
  by (simp_all add: kvs_ok_def kvs_fit_def keys_in_def)

text \<open>Data written and flushed, up to the point where the index entry is buffered.\<close>

lemma write_and_flush:
  assumes "no_write_faults env" "dataErr s = None" "dataBuf s = []"
  obtains s1 where "dataWriter_Write env p s = (None, s1)"
    "dataWriter_Flush env s1 = (None, s\<lparr>dataFile := dataFile s @ p, dataBuf := []\<rparr>)"
proof -
  obtain f b where w: "dataWriter_Write env p s = (None, s\<lparr>dataFile := f, dataBuf := b\<rparr>)" "f @ b = dataFile s @ p"
    using dataWriter_Write_ok [OF assms(1,2), of p] assms(3) by auto
  have "dataWriter_Flush env (s\<lparr>dataFile := f, dataBuf := b\<rparr>) = (None, s\<lparr>dataFile := dataFile s @ p, dataBuf := []\<rparr>)"
    using dataWriter_Flush_ok [OF assms(1), of "s\<lparr>dataFile := f, dataBuf := b\<rparr>"] assms(2) w(2) by simp
  with w(1) that show thesis by blast
qed

text \<open>
  The common end of an append: the block's bytes stand in the data file, its index entry is
  buffered; the block is indexed if it is in the window, and the buffer is flushed.
\<close>

lemma index_step_rel:
  assumes laws: "skiplist_laws sl" and w: "window_rel sl (win s) (dataFile s) m (bs @ [old])"
    and own: "own m (bs @ [old @ kvs])" and lt: "unat m + length bs < 2 ^ 64" and b: "b = m + word_of_nat (length bs)"
    and at: "at_offset (dataFile s) pos (enc_block b kvs)" and fit: "kvs_fit kvs" and len: "int (length (dataFile s)) < 2 ^ 63"
  shows "\<exists>w'. (if is_indexed (win s) b then index_block sl pos (enc_block b kvs) s else (None, s)) = (None, s\<lparr>win := w'\<rparr>) \<and>
    window_rel sl w' (dataFile s) m (bs @ [old @ kvs]) \<and> recentBlocks w' = recentBlocks (win s)"
proof (cases "b \<in> window_blocks (win s)")
  case True
  then have "(if is_indexed (win s) b then index_block sl pos (enc_block b kvs) s else (None, s)) =
      (None, s\<lparr>win := index_entries sl pos (block_entries b kvs) (win s)\<rparr>)"
    by (simp add: index_block_enc [OF fit])
  with window_rel_index [OF laws w own lt b True at fit len] show ?thesis
    by (intro exI conjI) (assumption | simp)+
next
  case False
  with window_rel_skip [OF w lt, folded b, OF False] show ?thesis
    by (intro exI [of _ "win s"]) simp
qed

definition index_then_flush ::
  "io_env \<Rightarrow> 's skiplist_ops \<Rightarrow> u64 \<Rightarrow> int \<Rightarrow> bytes \<Rightarrow> 's BlockAppendOnlyLog \<Rightarrow> 's baol_result" where
  "index_then_flush env sl b pos blockBytes s =
     (case (if is_indexed (win s) b then index_block sl pos blockBytes s else (None, s)) of
        (Some e, s5) \<Rightarrow> (Some e, s5) | (None, s5) \<Rightarrow> flush_index env s5)"

lemma index_then_flush_rel:
  assumes laws: "skiplist_laws sl"
    and st: "\<not> closed s" "dataBuf s = []" "dataErr s = None" "currentOffset s = int (length (dataFile s))"
      "int (length (dataFile s)) < 2 ^ 63"
    and fl: "flushIndexBufferWithBlockID env (minBlockID (idx s)) (idx s) = (None, i')" "index_rel i' m es' []"
    and blk: "list_all2 (block_at (dataFile s)) es' (bs @ [old @ kvs])"
    and w: "window_rel sl (win s) (dataFile s) m (bs @ [old])" and tr: "tracking s"
    and own: "own m (bs @ [old @ kvs])" and lt: "unat m + length bs < 2 ^ 64" and b: "b = m + word_of_nat (length bs)"
    and at: "at_offset (dataFile s) pos (enc_block b kvs)" and fit: "kvs_fit kvs"
  shows "\<exists>s'. index_then_flush env sl b pos (enc_block b kvs) s = (None, s') \<and> log_rel sl s' m es' [] (bs @ [old @ kvs]) \<and>
    tracking s' \<and> dataFile s' = dataFile s \<and> currentOffset s' = currentOffset s"
proof -
  obtain w' where ix: "(if is_indexed (win s) b then index_block sl pos (enc_block b kvs) s else (None, s)) = (None, s\<lparr>win := w'\<rparr>)"
      "window_rel sl w' (dataFile s) m (bs @ [old @ kvs])" "recentBlocks w' = recentBlocks (win s)"
    using index_step_rel [OF laws w own lt b at fit st(5)] by blast
  have "index_then_flush env sl b pos (enc_block b kvs) s = (None, s\<lparr>win := w', idx := i'\<rparr>)"
    unfolding index_then_flush_def ix(1) by (simp add: flush_index_def fl(1))
  moreover have "log_rel sl (s\<lparr>win := w', idx := i'\<rparr>) m es' [] (bs @ [old @ kvs])"
    using st fl(2) blk own ix(2) by (simp add: log_rel_def)
  moreover have "tracking (s\<lparr>win := w', idx := i'\<rparr>)" using tr ix(3) by (simp add: tracking_def)
  ultimately show ?thesis by auto
qed

lemma append_block_unfold:
  fixes s :: "'s BlockAppendOnlyLog" and b :: u64 and kvs :: "(bytes \<times> bytes) list"
  assumes env: "no_write_faults env" and st: "dataErr s = None" "dataBuf s = []"
  defines "existing \<equiv> getBlockIndexEntry (idx s) b"
  defines "start \<equiv> (case existing of Some e \<Rightarrow> EndOffset e | None \<Rightarrow> currentOffset s)"
  defines "e \<equiv> \<lparr>BlockID = b, StartOffset = (case existing of Some e \<Rightarrow> StartOffset e | None \<Rightarrow> start),
      EndOffset = i64 (start + int (length (writeLogEntries b kvs)))\<rparr>"
  defines "s3 \<equiv> s\<lparr>dataFile := dataFile s @ writeLogEntries b kvs, currentOffset := EndOffset e\<rparr>"
  shows "latestBlockID (idx s) < b \<Longrightarrow> append_block env sl b kvs s =
      index_then_flush env sl b start (writeLogEntries b kvs)
        (snd (save_meta env (s3\<lparr>idx := (writeIndexEntry e ((idx s)\<lparr>minBlockID := (if minBlockID (idx s) = 0 then b else minBlockID (idx s))\<rparr>))
             \<lparr>latestBlockID := b\<rparr>, win := updateRecentBlocks sl b (win s)\<rparr>)))"
    and "\<not> latestBlockID (idx s) < b \<Longrightarrow> append_block env sl b kvs s =
      index_then_flush env sl b start (writeLogEntries b kvs) (s3\<lparr>idx := writeIndexEntry e (idx s)\<rparr>)"
proof -
  obtain s1 where s1: "dataWriter_Write env (writeLogEntries b kvs) s = (None, s1)"
      "dataWriter_Flush env s1 = (None, s\<lparr>dataFile := dataFile s @ writeLogEntries b kvs, dataBuf := []\<rparr>)"
    using write_and_flush [OF env st] by blast
  have buf: "s\<lparr>dataFile := f, dataBuf := []\<rparr> = s\<lparr>dataFile := f\<rparr>" for f using st(2) by (cases s) simp
  have upd: "(writeIndexEntry x i)\<lparr>minBlockID := mi, latestBlockID := l\<rparr> = (writeIndexEntry x (i\<lparr>minBlockID := mi\<rparr>))\<lparr>latestBlockID := l\<rparr>" for x i mi l
    by (simp add: writeIndexEntry_def bufferIndexEntry_def Let_def)
  note d = append_block_def [of env sl b kvs s, unfolded Let_def s1 buf, folded existing_def, folded start_def, folded e_def]
  show "append_block env sl b kvs s = index_then_flush env sl b start (writeLogEntries b kvs)
        (snd (save_meta env (s3\<lparr>idx := (writeIndexEntry e ((idx s)\<lparr>minBlockID := (if minBlockID (idx s) = 0 then b else minBlockID (idx s))\<rparr>))
             \<lparr>latestBlockID := b\<rparr>, win := updateRecentBlocks sl b (win s)\<rparr>)))" if "latestBlockID (idx s) < b"
    using that unfolding d index_then_flush_def by (simp add: s1 buf upd s3_def e_def del: if_split)
  show "append_block env sl b kvs s = index_then_flush env sl b start (writeLogEntries b kvs) (s3\<lparr>idx := writeIndexEntry e (idx s)\<rparr>)"
    if "\<not> latestBlockID (idx s) < b"
    using that unfolding d index_then_flush_def by (simp add: s1 buf upd s3_def e_def del: if_split)
qed

lemma log_rel_fields:
  assumes "log_rel sl s m es ns bs"
  shows "\<not> closed s" "dataBuf s = []" "dataErr s = None" "currentOffset s = int (length (dataFile s))"
    "int (length (dataFile s)) < 2 ^ 63" "index_rel (idx s) m es ns" "list_all2 (block_at (dataFile s)) (es @ ns) bs"
    "own m bs" "window_rel sl (win s) (dataFile s) m bs"
  using assms by (simp_all add: log_rel_def)

lemma log_rel_next_id:
  assumes "log_rel sl s m es [] bs" "room m (length bs)"
  shows "latestBlockID (idx s) < m + word_of_nat (length bs)"
proof (cases "bs = []")
  case True
  then show ?thesis using log_rel_length [OF assms(1)] log_rel_fields(6) [OF assms(1)]
    by (simp add: index_rel_def slots_def word_gt_0)
next
  case False
  have "unat (m + word_of_nat (length bs)) = unat m + length bs"
    using assms(2) by (simp add: room_def unat_word_ariths unat_of_nat)
  with log_rel_latest(3) [OF assms(1) False] False show ?thesis by (simp add: word_less_nat_alt)
qed

lemma save_meta_fields [simp]:
  "dataFile (snd (save_meta env s)) = dataFile s" "dataBuf (snd (save_meta env s)) = dataBuf s"
  "dataErr (snd (save_meta env s)) = dataErr s" "currentOffset (snd (save_meta env s)) = currentOffset s"
  "closed (snd (save_meta env s)) = closed s" "win (snd (save_meta env s)) = win s"
  "idx (snd (save_meta env s)) = snd (saveIndexMeta env (idx s))"
  by (simp_all add: save_meta_def split: prod.splits)

lemma list_all2_block_at_mono:
  "list_all2 (block_at data) es bs \<Longrightarrow> list_all2 (block_at (data @ x)) es bs"
  by (erule list_all2_mono) (rule block_at_append)

lemma append_block_new:
  assumes laws: "skiplist_laws sl" and env: "no_write_faults env"
    and rel: "log_rel sl s m es [] bs" and tr: "tracking s" and room: "room m (length bs)"
    and b: "b = m + word_of_nat (length bs)" and none: "getBlockIndexEntry (idx s) b = None"
    and kvs: "kvs_ok b kvs" and size: "int (length (dataFile s) + length (writeLogEntries b kvs)) < 2 ^ 63"
  shows "\<exists>s' es'. append_block env sl b kvs s = (None, s') \<and> log_rel sl s' m es' [] (bs @ [write_order kvs]) \<and>
    tracking s' \<and> tight s' es' \<and> dataFile s' = dataFile s @ writeLogEntries b kvs"
proof -
  let ?off = "currentOffset s" and ?enc = "enc_block b (write_order kvs)"
  note r = log_rel_fields [OF rel] and k = kvs_ok_write_order [OF kvs]
  have lt: "unat m + length bs < 2 ^ 64" using room by (simp add: room_def)
  have len: "length (es @ []) = length bs" using log_rel_length [OF rel] by simp
  have enc: "writeLogEntries b kvs = ?enc" by (rule writeLogEntries_enc_block)
  have i64: "i64 (?off + int (length ?enc)) = ?off + int (length ?enc)"
    using size r(4) enc by (intro i64_id) simp_all
  obtain rb where rb: "recentBlocks (win s) = Some rb" using tr by (auto simp: tracking_def)
  define e where "e = \<lparr>BlockID = b, StartOffset = ?off, EndOffset = ?off + int (length ?enc)\<rparr>"
  define i where "i = (writeIndexEntry e ((idx s)\<lparr>minBlockID := (if minBlockID (idx s) = 0 then b else minBlockID (idx s))\<rparr>))\<lparr>latestBlockID := b\<rparr>"
  define s4 where "s4 = snd (save_meta env (s\<lparr>dataFile := dataFile s @ ?enc, currentOffset := ?off + int (length ?enc),
      idx := i, win := updateRecentBlocks sl b (win s)\<rparr>))"
  have "b = m + word_of_nat (length (es @ []))" "room m (length (es @ []))" using room by (simp_all only: len b)
  then have "index_rel i m es ([] @ [e])"
    unfolding i_def e_def using r(4) size enc by (intro index_rel_push_at [OF r(6)]) simp_all
  then have "index_rel (idx s4) m es [e]" using index_rel_save(1) [of i m es "[e]" env] by (simp add: s4_def)
  then obtain i' where fl: "flushIndexBufferWithBlockID env (minBlockID (idx s4)) (idx s4) = (None, i')" "index_rel i' m (es @ [e]) []"
    using index_rel_flush [OF _ env] by blast
  note adv = window_rel_advance [OF laws r(9,8) rb lt, folded b]
  have at: "at_offset (dataFile s4) ?off ?enc" using at_offset_end [of "dataFile s" ?enc] r(4) by (simp add: s4_def)
  have own: "own m (bs @ [[] @ write_order kvs])" using own_append [OF r(8) lt] k(2) b by (simp add: keys_in_def)
  have blk: "list_all2 (block_at (dataFile s4)) (es @ [e]) (bs @ [[] @ write_order kvs])"
    using list_all2_block_at_mono [OF r(7), of ?enc] at k(1)
    by (intro list_all2_appendI) (simp_all add: s4_def block_at_def e_def)
  have w: "window_rel sl (win s4) (dataFile s4) m (bs @ [[]])" using window_rel_data [OF adv(1)] by (simp add: s4_def)
  have st: "\<not> closed s4" "dataBuf s4 = []" "dataErr s4 = None" "currentOffset s4 = int (length (dataFile s4))"
      "int (length (dataFile s4)) < 2 ^ 63" "tracking s4"
    using r(1-4) size enc adv(2) by (auto simp: s4_def tracking_def)
  obtain s' where s': "index_then_flush env sl b ?off ?enc s4 = (None, s')" "log_rel sl s' m (es @ [e]) [] (bs @ [[] @ write_order kvs])"
      "tracking s'" "dataFile s' = dataFile s4" "currentOffset s' = currentOffset s4"
    using index_then_flush_rel [OF laws st(1-5) fl blk w st(6) own lt b at k(1)] by blast
  have "latestBlockID (idx s) < b" using log_rel_next_id [OF rel room] by (simp only: b)
  then have "append_block env sl b kvs s = index_then_flush env sl b ?off ?enc s4"
    using append_block_unfold(1) [OF env r(3,2), of b sl kvs]
    by (simp add: none enc i64 s4_def i_def e_def)
  moreover have "tight s' (es @ [e])" using s'(5) by (simp add: tight_def e_def s4_def)
  ultimately show ?thesis using s' enc by (auto simp: s4_def)
qed

section \<open>Lookups and extensions\<close>

lemma log_rel_lookup:
  assumes "log_rel sl s m es [] bs" "24 * int (slot_of m b) < 2 ^ 63"
  shows "bs \<noteq> [] \<Longrightarrow> getBlockIndexEntry (idx s) b = slot_lookup m es b"
    and "bs \<noteq> [] \<Longrightarrow> getBlockIndexEntryWithSource (idx s) b = Inr (map_option (\<lambda>e. (e, False)) (slot_lookup m es b))"
    and "bs = [] \<Longrightarrow> getBlockIndexEntry (idx s) b = None"
proof -
  have len: "length es = length bs" using log_rel_length [OF assms(1)] by simp
  note r = log_rel_fields(6) [OF assms(1)]
  show "getBlockIndexEntry (idx s) b = slot_lookup m es b"
    "getBlockIndexEntryWithSource (idx s) b = Inr (map_option (\<lambda>e. (e, False)) (slot_lookup m es b))" if "bs \<noteq> []"
  proof -
    have "es \<noteq> []" using that len by auto
    then have "index_at m es (idx s)" using r by (simp add: index_at_def index_rel_def)
    from getBlockIndexEntry_slots [OF this assms(2)] r
    show "getBlockIndexEntry (idx s) b = slot_lookup m es b"
      "getBlockIndexEntryWithSource (idx s) b = Inr (map_option (\<lambda>e. (e, False)) (slot_lookup m es b))"
      by (simp_all add: index_rel_def)
  qed
  show "getBlockIndexEntry (idx s) b = None" if "bs = []"
    using that len r
    by (simp add: index_rel_def getBlockIndexEntry_def getBlockIndexEntryWithSource_def buffered_entry_def
        findBlockIndexEntryOnDisk_def readAt_def indexEntrySize_def)
qed

lemma slot_lookup_append: "slots m (es @ [e]) \<Longrightarrow> slot_lookup m (es @ [e]) (BlockID e) = Some e"
  using slots_nth(5,6) [of m "es @ [e]" "length es"] by (simp add: slot_lookup_def)

lemma index_rel_replace_last:
  assumes rel: "index_rel i m (es @ [e]) []" and e': "BlockID e' = BlockID e" "offset_fits e'" "StartOffset e' \<le> EndOffset e'"
    and env: "no_write_faults env"
  shows "\<exists>i'. flushIndexBufferWithBlockID env (minBlockID i) (writeIndexEntry e' i) = (None, i') \<and> index_rel i' m (es @ [e']) []"
proof -
  have sl: "slots m (es @ [e])" using rel by (simp add: index_rel_def)
  have slot: "slot_of m (BlockID e') = length es" "m \<le> BlockID e'" "24 * int (length es) < 2 ^ 63"
    using slots_nth(5,6) [OF sl, of "length es"] sl e'(1) by (simp_all add: slots_def)
  have "puts_ok m (length (es @ [e])) [e']" using slot sl by (simp add: slots_def)
  then have "flushIndexBufferWithBlockID env m (writeIndexEntry e' i) =
      (None, (writeIndexEntry e' i)\<lparr>indexBuffer := [], indexMapFile := index_bytes (foldl (put_slot m) (es @ [e]) [e'])\<rparr>)"
    using flushIndexBuffer_puts [of env "writeIndexEntry e' i" "es @ [e]" m] rel env
    by (simp add: index_rel_def no_write_faults_def)
  moreover have "foldl (put_slot m) (es @ [e]) [e'] = es @ [e']" using slot by (simp add: put_slot_def)
  moreover have "slots m (es @ [e'])" using slots_updateI [OF sl, of "length es" e'] e' by simp
  ultimately show ?thesis using rel by (simp add: index_rel_def)
qed

lemma own_extend:
  assumes "own m (bs @ [old])" "unat m + length bs < 2 ^ 64" "keys_in (m + word_of_nat (length bs)) kvs"
  shows "own m (bs @ [old @ kvs])"
  using assms by (auto simp: own_def block_of_append keys_in_def image_Un split: if_splits)

lemma block_at_extend:
  assumes "block_at data e old" "EndOffset e = int (length data)" "kvs_fit kvs"
  shows "block_at (data @ enc_block (BlockID e) kvs) (e\<lparr>EndOffset := EndOffset e + int (length (enc_block (BlockID e) kvs))\<rparr>) (old @ kvs)"
  using assms at_offset_extend [of data "StartOffset e" "enc_block (BlockID e) old" "enc_block (BlockID e) kvs"]
  by (simp add: block_at_def enc_block_append kvs_fit_def) blast

lemma append_block_extend:
  assumes laws: "skiplist_laws sl" and env: "no_write_faults env"
    and rel: "log_rel sl s m (es @ [e]) [] (bs @ [old])" and tr: "tracking s" and t: "tight s (es @ [e])"
    and b: "b = m + word_of_nat (length bs)" and kvs: "kvs_ok b kvs"
    and size: "int (length (dataFile s) + length (writeLogEntries b kvs)) < 2 ^ 63"
  shows "\<exists>s' es'. append_block env sl b kvs s = (None, s') \<and> log_rel sl s' m es' [] (bs @ [old @ write_order kvs]) \<and>
    tracking s' \<and> tight s' es' \<and> dataFile s' = dataFile s @ writeLogEntries b kvs"
proof -
  let ?enc = "enc_block b (write_order kvs)"
  note r = log_rel_fields [OF rel] and k = kvs_ok_write_order [OF kvs]
  have enc: "writeLogEntries b kvs = ?enc" by (rule writeLogEntries_enc_block)
  have len: "length es = length bs" using log_rel_length [OF rel] by simp
  have sl: "slots m (es @ [e])" using r(6) by (simp add: index_rel_def)
  have id: "BlockID e = b" using slots_nth(1) [OF sl, of "length es"] unfolding b len [symmetric] by simp
  have lt: "unat m + length bs < 2 ^ 64" using sl len by (simp add: slots_def)
  have start: "EndOffset e = int (length (dataFile s))" using t r(4) by (simp add: tight_def)
  have i64: "i64 (EndOffset e + int (length ?enc)) = EndOffset e + int (length ?enc)"
    using size start enc by (intro i64_id) simp_all
  define e' where "e' = e\<lparr>EndOffset := EndOffset e + int (length ?enc)\<rparr>"
  define s4 where "s4 = s\<lparr>dataFile := dataFile s @ ?enc, currentOffset := EndOffset e', idx := writeIndexEntry e' (idx s)\<rparr>"
  have olde: "block_at (dataFile s) e old" "list_all2 (block_at (dataFile s)) es bs"
    using r(7) len by (simp_all add: list_all2_append)
  have "offset_fits e" "StartOffset e \<le> EndOffset e" using slots_nth(2,3) [OF sl, of "length es"] by simp_all
  then have e': "BlockID e' = BlockID e" "offset_fits e'" "StartOffset e' \<le> EndOffset e'"
    using size start enc by (simp_all add: e'_def offset_fits_def)
  obtain i' where "flushIndexBufferWithBlockID env (minBlockID (idx s)) (writeIndexEntry e' (idx s)) = (None, i')"
      and i': "index_rel i' m (es @ [e']) []"
    using index_rel_replace_last [OF r(6) e' env] by blast
  then have fl: "flushIndexBufferWithBlockID env (minBlockID (idx s4)) (idx s4) = (None, i')" by (simp add: s4_def)
  have at: "at_offset (dataFile s4) (EndOffset e) ?enc" using at_offset_end [of "dataFile s" ?enc] start by (simp add: s4_def)
  have own: "own m (bs @ [old @ write_order kvs])" using own_extend [OF r(8) lt] k(2) by (simp add: b)
  have blk: "list_all2 (block_at (dataFile s4)) (es @ [e']) (bs @ [old @ write_order kvs])"
    using list_all2_block_at_mono [OF olde(2), of ?enc] block_at_extend [OF olde(1) start k(1)] id
    by (intro list_all2_appendI) (simp_all add: s4_def e'_def)
  have w: "window_rel sl (win s4) (dataFile s4) m (bs @ [old])" using window_rel_data [OF r(9)] by (simp add: s4_def)
  have st: "\<not> closed s4" "dataBuf s4 = []" "dataErr s4 = None" "currentOffset s4 = int (length (dataFile s4))"
      "int (length (dataFile s4)) < 2 ^ 63" "tracking s4"
    using r(1-4) size enc start tr by (auto simp: s4_def tracking_def e'_def)
  obtain s' where s': "index_then_flush env sl b (EndOffset e) ?enc s4 = (None, s')" "log_rel sl s' m (es @ [e']) [] (bs @ [old @ write_order kvs])"
      "tracking s'" "dataFile s' = dataFile s4" "currentOffset s' = currentOffset s4"
    using index_then_flush_rel [OF laws st(1-5) fl i' blk w st(6) own lt b at k(1)] by blast
  have "24 * int (slot_of m b) < 2 ^ 63" using slots_nth(5) [OF sl, of "length es"] id sl by (simp add: slots_def)
  then have ex: "getBlockIndexEntry (idx s) b = Some e"
    using log_rel_lookup(1) [OF rel] slot_lookup_append [OF sl] id by simp
  have "\<not> latestBlockID (idx s) < b" using log_rel_latest(1) [OF rel] b by simp
  moreover have "\<lparr>BlockID = b, StartOffset = StartOffset e, EndOffset = x\<rparr> = e\<lparr>EndOffset := x\<rparr>" for x
    using id by (cases e) simp
  ultimately have "append_block env sl b kvs s = index_then_flush env sl b (EndOffset e) ?enc s4"
    using append_block_unfold(2) [OF env r(3,2), of b sl kvs]
    by (simp add: ex enc i64 s4_def e'_def)
  moreover have "tight s' (es @ [e'])" using s'(5) by (simp add: tight_def s4_def)
  ultimately show ?thesis using s' enc by (auto simp: s4_def)
qed

section \<open>The abstract log\<close>

text \<open>
  The blocks from the smallest block number on. A commit marker adds empty blocks up to its
  block; an append to a log with blocks adds empty blocks for the numbers it skips, extends
  the newest block, ignores an older one and refuses one below the smallest. The append of
  no binding fills the gap before its block and stops there.
\<close>

type_synonym blocks = "u64 \<times> (bytes \<times> bytes) list list"

definition a_latest :: "blocks \<Rightarrow> u64" where
  "a_latest a = (case a of (m, bs) \<Rightarrow> if bs = [] then 0 else m + word_of_nat (length bs - 1))"

definition a_mark :: "u64 \<Rightarrow> blocks \<Rightarrow> blocks" where
  "a_mark b a =
     (case a of (m, bs) \<Rightarrow>
        if b \<le> a_latest a then a
        else if bs = [] then (1, replicate (unat b) [])
        else (m, bs @ replicate (unat b - unat (a_latest a)) []))"

definition a_append :: "u64 \<Rightarrow> (bytes \<times> bytes) list \<Rightarrow> blocks \<Rightarrow> baol_error option \<times> blocks" where
  "a_append b kvs a =
     (case a of (m, bs) \<Rightarrow>
        if bs = [] then (None, if kvs = [] then a else (b, [write_order kvs]))
        else if b < m then (Some (ErrNonMonotonic (a_latest a) b), a)
        else if b < a_latest a then (None, a)
        else if b = a_latest a
          then (None, if kvs = [] then a else (m, butlast bs @ [last bs @ write_order kvs]))
        else let bs' = bs @ replicate (unat b - unat (a_latest a) - 1) [] in
          (None, (m, if kvs = [] then bs' else bs' @ [write_order kvs])))"

definition log_holds :: "'s skiplist_ops \<Rightarrow> 's BlockAppendOnlyLog \<Rightarrow> blocks \<Rightarrow> bool" where
  "log_holds sl s a \<longleftrightarrow>
     (case a of (m, bs) \<Rightarrow> \<exists>es. log_rel sl s m es [] bs \<and> tight s es \<and> (bs = [] \<longrightarrow> dataFile s = []))"

lemma log_holdsI:
  "log_rel sl s m es [] bs \<Longrightarrow> tight s es \<Longrightarrow> (bs = [] \<Longrightarrow> dataFile s = []) \<Longrightarrow> log_holds sl s (m, bs)"
  by (auto simp: log_holds_def)

lemma log_rel_a_latest: "log_rel sl s m es [] bs \<Longrightarrow> latestBlockID (idx s) = a_latest (m, bs)"
  using log_rel_length [of sl s m es "[]" bs] by (auto simp: a_latest_def log_rel_def index_rel_def)

lemma log_holds_ensure:
  assumes "skiplist_laws sl" "log_rel sl s m es [] bs" "tight s es"
  defines "s' \<equiv> s\<lparr>win := ensureWriteTrackingInitialized sl (win s)\<rparr>"
  shows "log_rel sl s' m es [] bs" "tracking s'" "tight s' es" "dataFile s' = dataFile s" "closed s' = closed s" "idx s' = idx s"
  using log_rel_ensure [OF assms(1,2)] assms(3) by (simp_all add: s'_def tight_def)

text \<open>A block number \<open>n\<close> beyond the next one, counted from the newest block.\<close>

lemma past_latest:
  assumes "log_rel sl s m es [] bs" "bs \<noteq> []" "latestBlockID (idx s) < b" "unat b < 2 ^ 58"
  shows "unat b = unat m + length bs + (unat b - unat (latestBlockID (idx s)) - 1)"
    "24 * int (length bs + (unat b - unat (latestBlockID (idx s)) - 1)) < 2 ^ 63"
    "room m (length bs + (unat b - unat (latestBlockID (idx s)) - 1))"
    "b = m + word_of_nat (length bs + (unat b - unat (latestBlockID (idx s)) - 1))"
proof -
  have l: "unat (latestBlockID (idx s)) = unat m + (length bs - 1)" by (rule log_rel_latest(3) [OF assms(1,2)])
  have "unat (latestBlockID (idx s)) < unat b" using assms(3) by (simp add: word_less_nat_alt)
  with l assms(2) show n: "unat b = unat m + length bs + (unat b - unat (latestBlockID (idx s)) - 1)"
    by (cases bs) auto
  show "24 * int (length bs + (unat b - unat (latestBlockID (idx s)) - 1)) < 2 ^ 63"
    "room m (length bs + (unat b - unat (latestBlockID (idx s)) - 1))"
    using n assms(4) by (simp_all add: room_def)
  have "m \<le> b" "slot_of m b = length bs + (unat b - unat (latestBlockID (idx s)) - 1)"
    using n by (simp_all add: slot_of_def word_le_nat_alt)
  then show "b = m + word_of_nat (length bs + (unat b - unat (latestBlockID (idx s)) - 1))"
    using word_from_slot by metis
qed

lemma fillMissing_guard:
  "(if target > latestBlockID (idx s) + 1 then fillMissingBlocksUntil env sl target s else (None, s)) =
   fillMissingBlocksUntil env sl target s"
  by (simp add: fillMissingBlocksUntil_def not_less)

section \<open>Appends refine the abstract log\<close>

lemma Append_first:
  assumes laws: "skiplist_laws sl" and env: "no_write_faults env" and h: "log_holds sl s (m, [])"
    and b: "b \<noteq> 0" "unat b < 2 ^ 58" and kvs: "kvs_ok b kvs"
    and size: "int (length (dataFile s) + length (writeLogEntries b kvs)) < 2 ^ 63"
  shows "\<exists>s'. Append env sl b kvs s = (None, s') \<and> log_holds sl s' (if kvs = [] then (m, []) else (b, [write_order kvs])) \<and>
    length (dataFile s') \<le> length (dataFile s) + length (writeLogEntries b kvs)"
proof -
  obtain es where rel: "log_rel sl s m es [] []" and t: "tight s es" and d: "dataFile s = []" using h by (auto simp: log_holds_def)
  have es: "es = []" using log_rel_length [OF rel] by simp
  let ?s = "s\<lparr>win := ensureWriteTrackingInitialized sl (win s)\<rparr>"
  note en = log_holds_ensure [OF laws rel t]
  have st: "\<not> closed s" "currentOffset s = 0" "latestBlockID (idx s) = 0"
    using log_rel_fields [OF rel] d es by (simp_all add: index_rel_def)
  have ap: "Append env sl b kvs s = (if kvs = [] then (None, ?s) else append_block env sl b kvs ?s)"
    using st b(1) by (simp add: Append_def Let_def word_le_nat_alt unat_eq_0)
  show ?thesis
  proof (cases "kvs = []")
    case True
    with ap en d show ?thesis by (auto intro: log_holdsI)
  next
    case False
    have rel': "log_rel sl ?s b [] [] []" using log_rel_empty [of sl ?s m b] en(1) es b(1) by simp
    have none: "getBlockIndexEntry (idx ?s) b = None"
      by (rule log_rel_lookup(3) [OF rel']) (simp_all add: slot_of_def)
    have "room b 0" using b(2) by (simp add: room_def)
    then obtain s' es' where s': "append_block env sl b kvs ?s = (None, s')" "log_rel sl s' b es' [] ([] @ [write_order kvs])"
        "tight s' es'" "dataFile s' = dataFile ?s @ writeLogEntries b kvs"
      using append_block_new [OF laws env rel' en(2) _ _ none kvs] size by auto
    with ap False show ?thesis by (auto intro: log_holdsI)
  qed
qed

lemma Append_extend:
  assumes laws: "skiplist_laws sl" and env: "no_write_faults env" and h: "log_holds sl s (m, bs)"
    and b: "bs \<noteq> []" "b = latestBlockID (idx s)" "unat b < 2 ^ 58" and kvs: "kvs_ok b kvs"
    and size: "int (length (dataFile s) + length (writeLogEntries b kvs)) < 2 ^ 63"
  shows "\<exists>s'. Append env sl b kvs s = (None, s') \<and>
    log_holds sl s' (if kvs = [] then (m, bs) else (m, butlast bs @ [last bs @ write_order kvs])) \<and>
    length (dataFile s') \<le> length (dataFile s) + length (writeLogEntries b kvs)"
proof -
  obtain es where rel: "log_rel sl s m es [] bs" and t: "tight s es" using h by (auto simp: log_holds_def)
  let ?s = "s\<lparr>win := ensureWriteTrackingInitialized sl (win s)\<rparr>"
  note en = log_holds_ensure [OF laws rel t]
  obtain bs0 old where bs: "bs = bs0 @ [old]" using b(1) by (cases bs rule: rev_cases) auto
  have len: "length es = length bs" using log_rel_length [OF rel] by simp
  then obtain es0 e where es: "es = es0 @ [e]" using b(1) by (cases es rule: rev_cases) auto
  note l = log_rel_latest [OF rel b(1)]
  have bid: "b = m + word_of_nat (length bs0)" using l(1) b(2) bs by simp
  have sl: "slots m es" using log_rel_fields(6) [OF rel] by (simp add: index_rel_def)
  have "BlockID e = b" using slots_nth(1) [OF sl, of "length es0"] len bid by (simp add: es bs)
  moreover have "24 * int (slot_of m b) < 2 ^ 63" using b(3) by (simp add: slot_of_def)
  ultimately have ex: "getBlockIndexEntry (idx s) b = Some e"
    using log_rel_lookup(1) [OF rel _ b(1)] slot_lookup_append [of m es0 e] sl es by simp
  have "\<not> closed s" "latestBlockID (idx s) \<noteq> 0"
    using log_rel_fields(1) [OF rel] l(3) sl by (auto simp: slots_def unat_eq_0 dest: arg_cong [of _ _ unat])
  moreover have "\<not> latestBlockID (idx s) + 1 < b"
    using l(3,4,5) b bs by (simp add: word_less_nat_alt unat_word_ariths unat_of_nat)
  ultimately have ap: "Append env sl b kvs s = (if kvs = [] then (None, ?s) else append_block env sl b kvs ?s)"
    using ex b(2) by (simp add: Append_def Let_def)
  show ?thesis
  proof (cases "kvs = []")
    case True
    with ap en b(1) show ?thesis by (auto intro: log_holdsI)
  next
    case False
    obtain s' es' where "append_block env sl b kvs ?s = (None, s')" "log_rel sl s' m es' [] (bs0 @ [old @ write_order kvs])"
        "tight s' es'" "dataFile s' = dataFile ?s @ writeLogEntries b kvs"
      using append_block_extend [OF laws env en(1) [unfolded es bs] en(2) en(3) [unfolded es] bid kvs] size by auto
    with ap False bs show ?thesis by (auto intro: log_holdsI)
  qed
qed

lemma Append_new:
  assumes laws: "skiplist_laws sl" and env: "no_write_faults env" "no_meta_faults env" and h: "log_holds sl s (m, bs)"
    and b: "bs \<noteq> []" "latestBlockID (idx s) < b" "unat b < 2 ^ 58" and kvs: "kvs_ok b kvs"
    and size: "int (length (dataFile s) + length (writeLogEntries b kvs)) < 2 ^ 63"
  defines "n \<equiv> unat b - unat (latestBlockID (idx s)) - 1"
  shows "\<exists>s'. Append env sl b kvs s = (None, s') \<and>
    log_holds sl s' (m, if kvs = [] then bs @ replicate n [] else (bs @ replicate n []) @ [write_order kvs]) \<and>
    length (dataFile s') \<le> length (dataFile s) + length (writeLogEntries b kvs)"
proof -
  obtain es where rel: "log_rel sl s m es [] bs" and t: "tight s es" using h by (auto simp: log_holds_def)
  let ?s = "s\<lparr>win := ensureWriteTrackingInitialized sl (win s)\<rparr>"
  note en = log_holds_ensure [OF laws rel t]
  note past = past_latest [OF rel b, folded n_def]
  obtain s1 es1 where s1: "fillMissingBlocksUntil env sl b ?s = (None, s1)" "log_rel sl s1 m es1 [] (bs @ replicate n [])"
      "tracking s1" "dataFile s1 = dataFile ?s" "tight s1 es1"
    using fillMissing_rel [OF laws env en(1,2) _ past(1,2) en(3)] b(1) by auto
  have "latestBlockID (idx s) \<noteq> 0"
    using log_rel_latest(3) [OF rel b(1)] log_rel_fields(6) [OF rel]
    by (auto simp: index_rel_def slots_def unat_eq_0 dest: arg_cong [of _ _ unat])
  then have ap: "Append env sl b kvs s = (if kvs = [] then (None, s1) else append_block env sl b kvs s1)"
    using log_rel_fields(1) [OF rel] s1(1) fillMissing_guard [of ?s b env sl] leD [OF less_imp_le [OF b(2)]] b(2)
    by (simp add: Append_def Let_def not_le [symmetric])
  show ?thesis
  proof (cases "kvs = []")
    case True
    with ap s1 b(1) show ?thesis by (auto intro: log_holdsI)
  next
    case False
    let ?bs = "bs @ replicate n []"
    have r: "room m (length ?bs)" and bid: "b = m + word_of_nat (length ?bs)" using past(3,4) by simp_all
    have "slot_of m b = length ?bs" using past(1) by (simp add: slot_of_def)
    moreover have "length es1 = length ?bs" using log_rel_length [OF s1(2)] by simp
    ultimately have none: "getBlockIndexEntry (idx s1) b = None"
      using log_rel_lookup(1) [OF s1(2), of b] b(1,3) by (simp add: slot_lookup_def slot_of_def)
    obtain s' es' where "append_block env sl b kvs s1 = (None, s')" "log_rel sl s' m es' [] (?bs @ [write_order kvs])"
        "tight s' es'" "dataFile s' = dataFile s1 @ writeLogEntries b kvs"
      using append_block_new [OF laws env(1) s1(2,3) r bid none kvs] size s1(4) by auto
    with ap False s1(4) show ?thesis by (auto intro: log_holdsI)
  qed
qed

lemma Append_old:
  assumes laws: "skiplist_laws sl" and h: "log_holds sl s (m, bs)"
    and b: "bs \<noteq> []" "b < latestBlockID (idx s)" "unat b < 2 ^ 58"
  shows "Append env sl b kvs s = (if b < m then Some (ErrNonMonotonic (latestBlockID (idx s)) b) else None,
      s\<lparr>win := ensureWriteTrackingInitialized sl (win s)\<rparr>)"
    and "log_holds sl (s\<lparr>win := ensureWriteTrackingInitialized sl (win s)\<rparr>) (m, bs)"
proof -
  obtain es where rel: "log_rel sl s m es [] bs" and t: "tight s es" using h by (auto simp: log_holds_def)
  show "log_holds sl (s\<lparr>win := ensureWriteTrackingInitialized sl (win s)\<rparr>) (m, bs)"
    using log_holds_ensure [OF laws rel t] b(1) by (auto intro: log_holdsI)
  have "24 * int (slot_of m b) < 2 ^ 63" using b(3) by (simp add: slot_of_def)
  then have lk: "getBlockIndexEntry (idx s) b = slot_lookup m es b" by (rule log_rel_lookup(1) [OF rel _ b(1)])
  have len: "length es = length bs" using log_rel_length [OF rel] by simp
  have "b < m \<longleftrightarrow> slot_lookup m es b = None"
    using log_rel_latest(3) [OF rel b(1)] b(1,2) len by (cases bs) (auto simp: slot_lookup_def slot_of_def word_less_nat_alt word_le_nat_alt)
  moreover have "\<not> (b = 0 \<and> latestBlockID (idx s) = 0)" using b(2) by auto
  ultimately show "Append env sl b kvs s = (if b < m then Some (ErrNonMonotonic (latestBlockID (idx s)) b) else None,
      s\<lparr>win := ensureWriteTrackingInitialized sl (win s)\<rparr>)"
    using log_rel_fields(1) [OF rel] lk b(2) by (auto simp: Append_def Let_def)
qed

end
