(* ===== verification/Block_Log_Correct.thy ===== *)
theory Block_Log_Correct
  imports Block_Log_Append
begin

text \<open>
  What the block log promises: appends and commit markers refine the abstract list of blocks,
  reads return what the blocks hold whether or not the window covers them, opening the files
  of a log gives the same blocks back, and write faults lose nothing that was stored before.
\<close>

section \<open>One operation\<close>

lemma Append_holds:
  assumes laws: "skiplist_laws sl" and env: "no_write_faults env" "no_meta_faults env" and h: "log_holds sl s a"
    and b: "b \<noteq> 0" "unat b < 2 ^ 58" and kvs: "kvs_ok b kvs"
    and size: "int (length (dataFile s) + length (writeLogEntries b kvs)) < 2 ^ 63"
  shows "\<exists>s'. Append env sl b kvs s = (fst (a_append b kvs a), s') \<and> log_holds sl s' (snd (a_append b kvs a)) \<and>
    length (dataFile s') \<le> length (dataFile s) + length (writeLogEntries b kvs)"
proof -
  obtain m bs where a: "a = (m, bs)" by (cases a)
  show ?thesis
  proof (cases "bs = []")
    case True
    with a Append_first [OF laws env(1) h [unfolded a True] b kvs size] show ?thesis by (simp add: a_append_def)
  next
    case False
    obtain es where rel: "log_rel sl s m es [] bs" using h a by (auto simp: log_holds_def)
    have l: "latestBlockID (idx s) = a_latest a" using log_rel_a_latest [OF rel] a by simp
    have m: "m \<le> latestBlockID (idx s)" using log_rel_latest(3) [OF rel False] by (simp add: word_le_nat_alt)
    consider "b < latestBlockID (idx s)" | "b = latestBlockID (idx s)" | "latestBlockID (idx s) < b" by fastforce
    then show ?thesis
    proof cases
      case 1
      with Append_old(1) [OF laws h [unfolded a] False 1 b(2), of env kvs] Append_old(2) [OF laws h [unfolded a] False 1 b(2)] False show ?thesis
        by (simp add: a_append_def a l [unfolded a])
    next
      case 2
      with Append_extend [OF laws env(1) h [unfolded a] False 2 b(2) kvs size] False m show ?thesis
        by (auto simp: a_append_def a l [unfolded a] leD)
    next
      case 3
      then have "\<not> b < m" "\<not> b < latestBlockID (idx s)" "b \<noteq> latestBlockID (idx s)" using m by auto
      then have "a_append b kvs a = (None, (m, if kvs = [] then bs @ replicate (unat b - unat (latestBlockID (idx s)) - 1) []
          else (bs @ replicate (unat b - unat (latestBlockID (idx s)) - 1) []) @ [write_order kvs]))"
        using False by (simp add: a_append_def a l [unfolded a] Let_def)
      with Append_new [OF laws env h [unfolded a] False 3 b(2) kvs size] show ?thesis by (simp only: fst_conv snd_conv)
    qed
  qed
qed

lemma mark_tail:
  assumes laws: "skiplist_laws sl" and env: "no_write_faults env" "no_meta_faults env"
    and rel: "log_rel sl s m es [] bs" and tr: "tracking s" and room: "room m (length bs)"
    and b: "b = m + word_of_nat (length bs)"
  shows "\<exists>s'. (case flush_index env (fill_one sl b s) of (Some e, s2) \<Rightarrow> (Some e, s2) | (None, s2) \<Rightarrow> save_meta env s2) = (None, s') \<and>
    log_holds sl s' (m, bs @ [[]]) \<and> dataFile s' = dataFile s"
proof -
  obtain rb where rb: "recentBlocks (win s) = Some rb" using tr by (auto simp: tracking_def)
  note fo = fill_one_rel [OF laws rel rb room, folded b]
  obtain s2 where s2: "flush_index env (fill_one sl b s) = (None, s2)" "log_rel sl s2 m (es @ [gap_entry b s]) [] (bs @ [[]])"
      "dataFile s2 = dataFile (fill_one sl b s)"
    using flush_index_rel [OF fo(1) env(1)] by auto
  note sv = save_meta_rel [OF s2(2), of env]
  have "tight (snd (save_meta env s2)) (es @ [gap_entry b s])"
    using log_rel_fields(4) [OF s2(2)] log_rel_fields(4) [OF rel] s2(3) fo(3) by (simp add: tight_def gap_entry_def)
  with sv(1) have "log_holds sl (snd (save_meta env s2)) (m, bs @ [[]])" by (intro log_holdsI) simp_all
  with s2 sv(3) sv(4) [OF env(2)] fo(3) show ?thesis by (intro exI [of _ "snd (save_meta env s2)"]) simp
qed

lemma MarkBlockCommitted_new:
  assumes laws: "skiplist_laws sl" and env: "no_write_faults env" "no_meta_faults env"
    and rel: "log_rel sl s m es [] bs" and t: "tight s es" and first: "bs = [] \<Longrightarrow> m = 1"
    and b: "latestBlockID (idx s) < b" "unat b = unat m + length bs + n" "unat b < 2 ^ 58"
  shows "\<exists>s'. MarkBlockCommitted env sl b s = (None, s') \<and> log_holds sl s' (m, bs @ replicate (Suc n) []) \<and> dataFile s' = dataFile s"
proof -
  let ?s = "s\<lparr>win := ensureWriteTrackingInitialized sl (win s)\<rparr>" and ?bs = "bs @ replicate n []"
  note en = log_holds_ensure [OF laws rel t]
  have "24 * int (length bs + n) < 2 ^ 63" using b by simp
  then obtain s1 es1 where s1: "fillMissingBlocksUntil env sl b ?s = (None, s1)" "log_rel sl s1 m es1 [] ?bs"
      "tracking s1" "dataFile s1 = dataFile ?s"
    using fillMissing_rel [OF laws env en(1,2) first b(2) _ en(3)] by auto
  have "m \<le> b" "slot_of m b = length ?bs" using b(2) by (simp_all add: slot_of_def word_le_nat_alt)
  then have bid: "b = m + word_of_nat (length ?bs)" using word_from_slot by metis
  have "room m (length ?bs)" using b by (simp add: room_def)
  from mark_tail [OF laws env s1(2,3) this bid] obtain s' where s':
      "(case flush_index env (fill_one sl b s1) of (Some e, s2) \<Rightarrow> (Some e, s2) | (None, s2) \<Rightarrow> save_meta env s2) = (None, s')"
      "log_holds sl s' (m, ?bs @ [[]])" "dataFile s' = dataFile s1" by blast
  have nz: "b \<noteq> 0" "\<not> b \<le> latestBlockID (idx s)" using b(1) by auto
  have "MarkBlockCommitted env sl b s = (None, s')"
    using log_rel_fields(1) [OF rel] s1(1) s'(1) nz fillMissing_guard [of ?s b env sl]
    by (simp add: MarkBlockCommitted_def Let_def)
  moreover have "bs @ replicate (Suc n) [] = ?bs @ [[]]" by (simp add: replicate_append_same)
  ultimately show ?thesis using s'(2,3) s1(4) by (simp del: append_assoc)
qed

lemma MarkBlockCommitted_holds:
  assumes laws: "skiplist_laws sl" and env: "no_write_faults env" "no_meta_faults env" and h: "log_holds sl s a"
    and b: "unat b < 2 ^ 58"
  shows "\<exists>s'. MarkBlockCommitted env sl b s = (None, s') \<and> log_holds sl s' (a_mark b a) \<and> dataFile s' = dataFile s"
proof -
  obtain m bs es where a: "a = (m, bs)" and rel: "log_rel sl s m es [] bs" and t: "tight s es" and d: "bs = [] \<Longrightarrow> dataFile s = []"
    using h by (cases a) (auto simp: log_holds_def)
  have l: "latestBlockID (idx s) = a_latest a" using log_rel_a_latest [OF rel] a by simp
  show ?thesis
  proof (cases "b \<le> latestBlockID (idx s)")
    case True
    note en = log_holds_ensure [OF laws rel t]
    have "log_holds sl (s\<lparr>win := ensureWriteTrackingInitialized sl (win s)\<rparr>) a" using en d a by (auto intro: log_holdsI)
    moreover have "a_mark b a = a" using True l by (simp add: a_mark_def a)
    ultimately show ?thesis
      using log_rel_fields(1) [OF rel] True h by (cases "b = 0") (simp_all add: MarkBlockCommitted_def Let_def)
  next
    case False
    then have lt: "latestBlockID (idx s) < b" by simp
    show ?thesis
    proof (cases "bs = []")
      case True
      then have "es = []" using log_rel_length [OF rel] by simp
      with True rel have rel1: "log_rel sl s 1 [] [] []" using log_rel_empty [of sl s m 1] by simp
      have n: "unat b = unat (1 :: u64) + length ([] :: (bytes \<times> bytes) list list) + (unat b - 1)"
        using False by (simp add: word_le_nat_alt)
      have "a_mark b a = (1, [] @ replicate (Suc (unat b - 1)) [])" using False l n True by (simp add: a_mark_def a)
      with MarkBlockCommitted_new [OF laws env rel1 _ _ lt n b] show ?thesis by (simp add: tight_def)
    next
      case ne: False
      have "a_mark b a = (m, bs @ replicate (Suc (unat b - unat (latestBlockID (idx s)) - 1)) [])"
        using False ne l lt by (simp add: a_mark_def a word_less_nat_alt Suc_diff_Suc)
      with MarkBlockCommitted_new [OF laws env rel t _ lt past_latest(1) [OF rel ne lt b] b] ne show ?thesis by simp
    qed
  qed
qed

section \<open>Reads\<close>

definition distinct_keys :: "(bytes \<times> bytes) list list \<Rightarrow> bool" where
  "distinct_keys bs \<longleftrightarrow> (\<forall>kvs \<in> set bs. distinct (map fst kvs))"

definition found :: "bytes \<Rightarrow> bytes \<times> bool" where
  "found v = (if v = TombstoneMarker then ([], True) else (v, True))"

text \<open>What a read of \<open>key\<close> gives on the blocks \<open>a\<close>, where \<open>cached\<close> tells whether the window holds it.\<close>

definition a_get :: "bytes \<Rightarrow> bool \<Rightarrow> blocks \<Rightarrow> baol_error + bytes \<times> bool" where
  "a_get key cached a =
     (case key_block key of
        None \<Rightarrow> Inr ([], False)
      | Some b \<Rightarrow>
          if b > a_latest a then Inl (ErrRequestedFutureBlock b (a_latest a))
          else if \<not> cached \<and> a_latest a - b > IgnoredThreshold then Inr ([], True)
          else case map_of (block_of (fst a) (snd a) b) key of None \<Rightarrow> Inr ([], False) | Some v \<Rightarrow> Inr (found v))"

lemma block_of_distinct: "distinct_keys bs \<Longrightarrow> distinct (map fst (block_of m bs b))"
  by (auto simp: distinct_keys_def block_of_def)

lemma map_of_rev_distinct: "distinct (map fst kvs) \<Longrightarrow> map_of (rev kvs) = map_of kvs"
  by (rule map_of_inject_set [THEN iffD2]) (simp_all add: rev_map [symmetric])

lemma Get_cached:
  assumes rel: "log_rel sl s m es [] bs" and p: "window_index sl (win s) k = Some p" and d: "distinct_keys bs"
  shows "\<exists>b v. key_block k = Some b \<and> map_of (block_of m bs b) k = Some v \<and> Get sl k s = Inr (found v) \<and> b \<le> a_latest (m, bs)"
proof -
  note r = log_rel_fields [OF rel]
  have sound: "window_sound sl (win s) (dataFile s) m bs" using r(9) by (simp add: window_rel_def)
  then obtain v where v: "map_of (rev (block_of m bs (kp_BlockID p))) k = Some v" "ptr_at (dataFile s) p k v"
    using p unfolding window_sound_def by blast
  have kb: "key_block k = Some (kp_BlockID p)" "k \<in> fst ` set (block_of m bs (kp_BlockID p))"
    by (rule sound_key_block [OF r(8) sound p])+
  then have slot: "m \<le> kp_BlockID p" "slot_of m (kp_BlockID p) < length bs" by (auto simp: block_of_def split: if_splits)
  then have "bs \<noteq> []" by auto
  then have "kp_BlockID p \<le> a_latest (m, bs)"
    using log_rel_latest(3) [OF rel] log_rel_a_latest [OF rel] slot by (simp add: word_le_nat_alt slot_of_def)
  moreover obtain src where "readValueBytesFromPointerWithSource s p = Inr (v, src)" using read_ptr [OF v(2) r(5)] by blast
  then have "Get sl k s = Inr (found v)"
    using r(1) p by (simp add: Get_def window_index_def found_def)
  moreover have "map_of (block_of m bs (kp_BlockID p)) k = Some v"
    using v(1) map_of_rev_distinct [OF block_of_distinct [OF d]] by simp
  ultimately show ?thesis using kb(1) by blast
qed

lemma Get_disk:
  assumes rel: "log_rel sl s m es [] bs" and p: "window_index sl (win s) k = None"
    and kb: "key_block k = Some b" and b: "b \<le> a_latest (m, bs)" "\<not> a_latest (m, bs) - b > IgnoredThreshold"
  shows "Get sl k s = (case map_of (block_of m bs b) k of None \<Rightarrow> Inr ([], False) | Some v \<Rightarrow> Inr (found v))"
proof -
  note r = log_rel_fields [OF rel]
  have latest: "latestBlockID (idx s) = a_latest (m, bs)" by (rule log_rel_a_latest [OF rel])
  have get: "Get sl k s = (if b \<in> window_blocks (win s) then Inr ([], False)
      else case getBlockIndexEntryWithSource (idx s) b of Inl e \<Rightarrow> Inl e | Inr None \<Rightarrow> Inr ([], False)
        | Inr (Some (e, src)) \<Rightarrow> (case findKeyInOneBlock s e k of Inl e \<Rightarrow> Inl e | Inr (Some v) \<Rightarrow> Inr (found v) | Inr None \<Rightarrow> Inr ([], False)))"
    using r(1) p kb b latest by (auto simp: Get_def window_index_def key_block_def Let_def found_def split: sum.splits option.splits)
  have len: "length es = length bs" using log_rel_length [OF rel] by simp
  show ?thesis
  proof (cases "b \<in> window_blocks (win s)")
    case True
    then have "k \<notin> fst ` set (block_of m bs b)" using r(9) p unfolding window_rel_def window_complete_def by blast
    with True get show ?thesis by (simp add: map_of_eq_None_iff [THEN iffD2])
  next
    case out: False
    show ?thesis
    proof (cases "bs = []")
      case True
      then have "a_latest (m, bs) = 0" by (simp add: a_latest_def)
      with b(1) have "b = 0" by simp
      moreover have "getBlockIndexEntryWithSource (idx s) 0 = Inr None"
        using True len r(6)
        by (simp add: index_rel_def getBlockIndexEntryWithSource_def buffered_entry_def findBlockIndexEntryOnDisk_def
            readAt_def indexEntrySize_def index_pos_def int64_of_uint64_def i64_def)
      ultimately show ?thesis using out get True by (simp add: block_of_def)
    next
      case False
      have "slot_of m b < length bs \<or> b < m"
        using log_rel_latest(3) [OF rel False] latest b(1) False by (cases bs) (auto simp: slot_of_def word_le_nat_alt)
      then have "24 * int (slot_of m b) < 2 ^ 63"
        using r(6) len by (auto simp: index_rel_def slots_def slot_of_def word_less_nat_alt)
      note lk = log_rel_lookup(2) [OF rel this False]
      show ?thesis
      proof (cases "m \<le> b \<and> slot_of m b < length bs")
        case True
        then have "block_at (dataFile s) (es ! slot_of m b) (bs ! slot_of m b)"
          using r(7) len by (simp add: list_all2_conv_all_nth)
        from findKeyInOneBlock_at [OF this] True out get lk len show ?thesis
          by (auto simp: slot_lookup_def block_of_def split: option.splits)
      next
        case miss: False
        with out get lk len show ?thesis by (auto simp: slot_lookup_def block_of_def)
      qed
    qed
  qed
qed

lemma Get_holds:
  assumes rel: "log_rel sl s m es [] bs" and d: "distinct_keys bs"
  shows "Get sl k s = a_get k (window_index sl (win s) k \<noteq> None) (m, bs)"
proof (cases "window_index sl (win s) k")
  case (Some p)
  from Get_cached [OF rel Some d] Some show ?thesis by (auto simp: a_get_def)
next
  case None
  have c: "\<not> closed s" and latest: "latestBlockID (idx s) = a_latest (m, bs)"
    using log_rel_fields(1) [OF rel] log_rel_a_latest [OF rel] by simp_all
  show ?thesis
  proof (cases "key_block k")
    case kb: None
    with None c show ?thesis by (simp add: a_get_def Get_def window_index_def key_block_def)
  next
    case kb: (Some b)
    consider "b > a_latest (m, bs)" | "b \<le> a_latest (m, bs)" "a_latest (m, bs) - b > IgnoredThreshold"
      | "b \<le> a_latest (m, bs)" "\<not> a_latest (m, bs) - b > IgnoredThreshold" by fastforce
    then show ?thesis
    proof cases
      case 3
      with Get_disk [OF rel None kb 3] None kb show ?thesis by (simp add: a_get_def)
    qed (use None c kb latest in \<open>auto simp: a_get_def Get_def window_index_def key_block_def Let_def\<close>)
  qed
qed

section \<open>Opening\<close>

text \<open>
  The files of a log that holds the blocks \<open>bs\<close>: the index file is whole, each entry covers its
  block in the data file, and the metadata is right, missing or torn.
\<close>

definition disk_holds :: "log_disk \<Rightarrow> u64 \<Rightarrow> blockIndexEntry list \<Rightarrow> (bytes \<times> bytes) list list \<Rightarrow> bool" where
  "disk_holds d m es bs \<longleftrightarrow>
     slots m es \<and> disk_index d = index_bytes es \<and> list_all2 (block_at (disk_data d)) es bs \<and> own m bs \<and>
     (meta_min (disk_meta d) = 0 \<or> bs \<noteq> [] \<and> meta_min (disk_meta d) = m) \<and> int (length (disk_data d)) < 2 ^ 63"

lemma log_rel_disk: "log_rel sl s m es [] bs \<Longrightarrow> disk_holds (disk_of s) m es bs"
  using log_rel_length [of sl s m es "[]" bs] by (auto simp: log_rel_def index_rel_def disk_holds_def disk_of_def)

text \<open>The window while it is rebuilt: the blocks \<open>P\<close> have been indexed.\<close>

definition rebuilt :: "'s skiplist_ops \<Rightarrow> 's recentWindow \<Rightarrow> bytes \<Rightarrow> u64 \<Rightarrow> (bytes \<times> bytes) list list \<Rightarrow> u64 set \<Rightarrow> bool" where
  "rebuilt sl w data m bs P \<longleftrightarrow>
     window_sound sl w data m bs \<and> (\<forall>k p. window_index sl w k = Some p \<longrightarrow> kp_BlockID p \<in> P) \<and>
     (\<forall>b \<in> P. \<forall>k \<in> fst ` set (block_of m bs b). window_index sl w k \<noteq> None)"

lemma rebuilt_step:
  assumes laws: "skiplist_laws sl" and rb: "rebuilt sl w data m bs P" and len: "int (length data) < 2 ^ 63"
    and at: "at_offset data pos (enc_block b (block_of m bs b))" and fit: "kvs_fit (block_of m bs b)"
  shows "rebuilt sl (index_entries sl pos (block_entries b (block_of m bs b)) w) data m bs (insert b P)"
proof -
  let ?kvs = "block_of m bs b" and ?w = "index_entries sl pos (block_entries b (block_of m bs b)) w"
  note ix = index_entries_block [OF laws len at fit, where w = w]
  have old: "window_index sl ?w k = window_index sl w k" if "map_of (rev ?kvs) k = None" for k
    using ix [where k = k] that by simp
  have new: "\<exists>p. window_index sl ?w k = Some p \<and> kp_BlockID p = b \<and> ptr_at data p k v" if "map_of (rev ?kvs) k = Some v" for k v
    using ix [where k = k] that by simp
  have case_k: "window_index sl ?w k = window_index sl w k \<and> map_of (rev ?kvs) k = None \<or>
      (\<exists>v p. map_of (rev ?kvs) k = Some v \<and> window_index sl ?w k = Some p \<and> kp_BlockID p = b \<and> ptr_at data p k v)" for k
    using old [of k] new [of k] by (cases "map_of (rev ?kvs) k") auto
  have "window_sound sl ?w data m bs"
    using rb case_k unfolding rebuilt_def window_sound_def by (metis option.inject)
  moreover have "kp_BlockID p \<in> insert b P" if "window_index sl ?w k = Some p" for k p
    using rb case_k [of k] that unfolding rebuilt_def by auto
  moreover have "window_index sl ?w k \<noteq> None" if "c \<in> insert b P" "k \<in> fst ` set (block_of m bs c)" for c k
    using rb case_k [of k] that unfolding rebuilt_def map_of_rev_None by (metis insertE option.distinct(1))
  ultimately show ?thesis unfolding rebuilt_def by blast
qed

lemma readAndIndexBlockFrom_rebuilt:
  assumes laws: "skiplist_laws sl" and rb: "rebuilt sl (win s) (dataFile s) m bs P" and len: "int (length (dataFile s)) < 2 ^ 63"
    and blk: "block_at (dataFile s) e (block_of m bs (BlockID e))"
  shows "\<exists>w. readAndIndexBlockFrom sl e s = (None, s\<lparr>win := w\<rparr>) \<and> rebuilt sl w (dataFile s) m bs (insert (BlockID e) P) \<and>
    indexedBlocks w = indexedBlocks (win s) \<and> recentN w = recentN (win s)"
proof -
  note rd = read_block_at [OF blk]
  have at: "at_offset (dataFile s) (StartOffset e) (enc_block (BlockID e) (block_of m bs (BlockID e)))"
    and fit: "kvs_fit (block_of m bs (BlockID e))" using blk by (simp_all add: block_at_def)
  note step = rebuilt_step [OF laws rb len at fit]
  show ?thesis
  proof (cases "block_of m bs (BlockID e) = []")
    case True
    then have "readAndIndexBlockFrom sl e s = (None, s\<lparr>win := win s\<rparr>)" using rd by (simp add: readAndIndexBlockFrom_def)
    moreover have "rebuilt sl (win s) (dataFile s) m bs (insert (BlockID e) P)"
      using step True by (simp add: block_entries_def)
    ultimately show ?thesis by blast
  next
    case False
    then have "readAndIndexBlockFrom sl e s =
        (None, s\<lparr>win := index_entries sl (StartOffset e) (block_entries (BlockID e) (block_of m bs (BlockID e))) (win s)\<rparr>)"
      using rd index_block_enc [OF fit] by (simp add: readAndIndexBlockFrom_def)
    with step show ?thesis by (intro exI conjI) (assumption | simp)+
  qed
qed

lemma rebuild_loop_rebuilt:
  assumes laws: "skiplist_laws sl"
  shows "rebuilt sl (win s) (dataFile s) m bs P \<Longrightarrow> int (length (dataFile s)) < 2 ^ 63 \<Longrightarrow>
    \<forall>b \<in> set ids. b \<in> window_blocks (win s) \<and> (\<exists>e. getBlockIndexEntry (idx s) b = Some e \<and> BlockID e = b \<and> block_at (dataFile s) e (block_of m bs b)) \<Longrightarrow>
    \<exists>w. rebuild_loop sl ids P s = (None, s\<lparr>win := w\<rparr>) \<and> rebuilt sl w (dataFile s) m bs (P \<union> set ids) \<and>
      indexedBlocks w = Some (P \<union> set ids) \<and> recentN w = recentN (win s)"
proof (induction ids arbitrary: P s)
  case Nil
  then show ?case
    by (intro exI [of _ "(win s)\<lparr>indexedBlocks := Some P\<rparr>"]) (simp add: rebuilt_def window_sound_def window_index_def)
next
  case (Cons b ids)
  then obtain e where e: "getBlockIndexEntry (idx s) b = Some e" "BlockID e = b" "block_at (dataFile s) e (block_of m bs (BlockID e))"
      and inb: "b \<in> window_blocks (win s)" by auto
  obtain w where w: "readAndIndexBlockFrom sl e s = (None, s\<lparr>win := w\<rparr>)" "rebuilt sl w (dataFile s) m bs (insert b P)"
      "indexedBlocks w = indexedBlocks (win s)" "recentN w = recentN (win s)"
    using readAndIndexBlockFrom_rebuilt [OF laws Cons.prems(1,2) e(3)] e(2) by blast
  have "window_blocks w = window_blocks (win s)" using w(3) by (simp add: window_blocks_def)
  with Cons.IH [of "s\<lparr>win := w\<rparr>" "insert b P"] Cons.prems w e(1) inb show ?case by auto
qed

lemma entry_map_lookup:
  assumes "slots m es" "i < length es"
  shows "map_of (entry_map es) (BlockID (es ! i)) = Some (es ! i)"
proof -
  have "i = j" if "i < length es" "j < length es" "BlockID (es ! i) = BlockID (es ! j)" for i j
    using slots_nth(5) [OF assms(1)] that by metis
  then have "distinct (map BlockID es)" by (auto simp: distinct_conv_nth)
  then show ?thesis using assms(2) by (intro map_of_is_SomeI) (auto simp: entry_map_def o_def)
qed

lemma rebuildSkiplist_rebuilt:
  assumes laws: "skiplist_laws sl" and d: "slots m es" "list_all2 (block_at (dataFile s)) es bs" "int (length (dataFile s)) < 2 ^ 63"
    and ix: "blockIndex (idx s) = Some (entry_map es)"
    and w: "recentBlocks (win s) = Some ids" "indexedBlocks (win s) = Some (set ids)" "set ids \<subseteq> BlockID ` set es"
  shows "\<exists>w. rebuildSkiplist sl s = (None, s\<lparr>win := w\<rparr>) \<and> rebuilt sl w (dataFile s) m bs (set ids) \<and>
    indexedBlocks w = Some (set ids) \<and> recentN w = recentN (win s)"
proof -
  let ?s = "s\<lparr>win := (win s)\<lparr>skiplistIndex := sl_New sl, indexedBlockKeys := Some Map.empty\<rparr>\<rparr>"
  have rb: "rebuilt sl (win ?s) (dataFile ?s) m bs {}"
    using skiplist_Get_New [OF laws] by (simp add: rebuilt_def window_sound_def window_index_def)
  have "b \<in> window_blocks (win ?s) \<and> (\<exists>e. getBlockIndexEntry (idx ?s) b = Some e \<and> BlockID e = b \<and> block_at (dataFile ?s) e (block_of m bs b))"
    if b: "b \<in> set (sort ids)" for b
  proof -
    have "b \<in> BlockID ` set es" using b w(3) by auto
    then obtain i where i: "i < length es" "b = BlockID (es ! i)" by (auto simp: in_set_conv_nth)
    have len: "length es = length bs" using d(2) by (rule list_all2_lengthD)
    have "block_of m bs b = bs ! i" using slots_nth(5,6) [OF d(1) i(1)] i len by (simp add: block_of_def)
    moreover have "block_at (dataFile s) (es ! i) (bs ! i)" using d(2) i(1) by (rule list_all2_nthD)
    moreover have "getBlockIndexEntry (idx s) b = Some (es ! i)"
      using entry_map_lookup [OF d(1) i(1)] ix i(2) by (simp add: getBlockIndexEntry_def getBlockIndexEntryWithSource_def)
    ultimately show ?thesis using b i(2) w(2) by (auto simp: window_blocks_def)
  qed
  then show ?thesis
    using rebuild_loop_rebuilt [OF laws rb, of "sort ids"] d(3) w(1) by (simp add: rebuildSkiplist_def Let_def)
qed

lemma open_window_rel:
  assumes "rebuilt sl w data m bs P" "indexedBlocks w = Some P" "0 < recentN w"
  shows "window_rel sl (releaseBootstrapResources_window w) data m bs"
proof -
  have eq: "window_index sl (releaseBootstrapResources_window w) = window_index sl w"
    "window_blocks (releaseBootstrapResources_window w) = P"
    using assms(2) by (simp_all add: releaseBootstrapResources_window_def window_index_def window_blocks_def)
  have "window_inv sl (releaseBootstrapResources_window w)"
    using assms unfolding window_inv_def eq rebuilt_def by (simp add: releaseBootstrapResources_window_def)
  with assms(1) show ?thesis
    unfolding window_rel_def window_sound_def window_complete_def rebuilt_def eq window_recent_def
    by (simp add: releaseBootstrapResources_window_def)
qed

lemma open_index:
  fixes sl :: "'s skiplist_ops" and n :: int
  assumes "slots m es" "disk_index d = index_bytes es" "meta_min (disk_meta d) = 0 \<or> es \<noteq> [] \<and> meta_min (disk_meta d) = m"
  defines "i \<equiv> loadBlockIndex (loadIndexMeta (idx (initial_log sl d n)))"
  shows "blockIndex i = Some (entry_map es)" "index_rel (i\<lparr>blockIndex := None\<rparr>) m es []"
proof -
  let ?i0 = "(idx (initial_log sl d n))\<lparr>minBlockID := meta_min (disk_meta d)\<rparr>"
  have i: "i = loadBlockIndex ?i0" by (simp add: i_def loadIndexMeta_meta_min) (simp add: initial_log_def)
  show "blockIndex i = Some (entry_map es)" "index_rel (i\<lparr>blockIndex := None\<rparr>) m es []"
  proof (atomize (full), cases "es = []")
    case True
    then have "i = ?i0\<lparr>latestBlockID := 0\<rparr>" using assms(2) i by (simp add: loadBlockIndex_empty initial_log_def)
    with True assms(1-3) show "blockIndex i = Some (entry_map es) \<and> index_rel (i\<lparr>blockIndex := None\<rparr>) m es []"
      by (simp add: initial_log_def entry_map_def index_rel_def)
  next
    case False
    then have "i = ?i0\<lparr>blockIndex := Some (entry_map es), latestBlockID := BlockID (last es), minBlockID := m\<rparr>"
      using loadBlockIndex_slots [OF assms(1) False, of ?i0] assms(2,3) i by (auto simp: initial_log_def)
    with False assms(1-3) last_slot [OF assms(1) False] show "blockIndex i = Some (entry_map es) \<and> index_rel (i\<lparr>blockIndex := None\<rparr>) m es []"
      by (auto simp: initial_log_def index_rel_def)
  qed
qed

lemma open_holds:
  assumes laws: "skiplist_laws sl" and d: "disk_holds d m es bs"
  shows "\<exists>s. NewBlockAppendOnlyLog sl d n = Inr s \<and> log_rel sl s m es [] bs \<and> disk_of s = d"
proof -
  define N where "N = (if n \<le> 0 then defaultRecentN else n)"
  have N: "0 < N" by (simp add: N_def defaultRecentN_def)
  have len: "length es = length bs" using d by (auto simp: disk_holds_def dest: list_all2_lengthD)
  have D: "slots m es" "disk_index d = index_bytes es" "meta_min (disk_meta d) = 0 \<or> es \<noteq> [] \<and> meta_min (disk_meta d) = m"
    "list_all2 (block_at (disk_data d)) es bs" "int (length (disk_data d)) < 2 ^ 63" "own m bs"
    using d len by (auto simp: disk_holds_def)
  define i where "i = loadBlockIndex (loadIndexMeta (idx (initial_log sl d N)))"
  note oi = open_index [OF D(1-3), of sl N, folded i_def]
  define ids where "ids = last_n N (sort (map fst (entry_map es)))"
  define s1 where "s1 = (initial_log sl d N)\<lparr>idx := i, win := (win (initial_log sl d N))\<lparr>recentBlocks := Some ids, indexedBlocks := Some (set ids)\<rparr>\<rparr>"
  have s1: "dataFile s1 = disk_data d" "blockIndex (idx s1) = Some (entry_map es)" "recentBlocks (win s1) = Some ids"
    "indexedBlocks (win s1) = Some (set ids)" "recentN (win s1) = N" "idx s1 = i"
    using oi by (simp_all add: s1_def initial_log_def)
  have "set ids \<subseteq> BlockID ` set es" using last_n_subset [of N "sort (map fst (entry_map es))"] by (auto simp: ids_def entry_map_def)
  with rebuildSkiplist_rebuilt [OF laws D(1), of s1 bs ids] s1 D obtain w where
    w: "rebuildSkiplist sl s1 = (None, s1\<lparr>win := w\<rparr>)" "rebuilt sl w (disk_data d) m bs (set ids)" "indexedBlocks w = Some (set ids)" "recentN w = N"
    by auto
  let ?s = "releaseBootstrapResources (s1\<lparr>win := w\<rparr>)"
  have new: "NewBlockAppendOnlyLog sl d n = Inr ?s"
    using w(1) oi(1) by (simp add: NewBlockAppendOnlyLog_def Let_def flip: N_def i_def) (simp add: ids_def s1_def)
  have "window_rel sl (win ?s) (disk_data d) m bs"
    using open_window_rel [OF w(2,3)] N w(4) by (simp add: releaseBootstrapResources_def)
  then have "log_rel sl ?s m es [] bs"
    using D oi(2) by (simp add: log_rel_def releaseBootstrapResources_def s1_def initial_log_def)
  moreover have "disk_of ?s = d"
    by (simp add: disk_of_def releaseBootstrapResources_def s1_def initial_log_def i_def loadBlockIndex_def loadIndexMeta_meta_min Let_def split: prod.splits)
  ultimately show ?thesis using new by blast
qed

section \<open>Runs\<close>

datatype log_op = OpAppend u64 "(bytes \<times> bytes) list" | OpMark u64 | OpReopen int

primrec log_step :: "'s skiplist_ops \<Rightarrow> log_op \<Rightarrow> 's BlockAppendOnlyLog \<Rightarrow> 's baol_result" where
  "log_step sl (OpAppend b kvs) s = Append no_faults sl b kvs s"
| "log_step sl (OpMark b) s = MarkBlockCommitted no_faults sl b s"
| "log_step sl (OpReopen n) s =
     (case NewBlockAppendOnlyLog sl (disk_of s) n of Inl e \<Rightarrow> (Some e, s) | Inr s' \<Rightarrow> (None, s'))"

primrec a_step :: "log_op \<Rightarrow> blocks \<Rightarrow> baol_error option \<times> blocks" where
  "a_step (OpAppend b kvs) a = a_append b kvs a"
| "a_step (OpMark b) a = (None, a_mark b a)"
| "a_step (OpReopen n) a = (None, a)"

primrec log_run :: "'s skiplist_ops \<Rightarrow> log_op list \<Rightarrow> 's BlockAppendOnlyLog \<Rightarrow> baol_error option list \<times> 's BlockAppendOnlyLog" where
  "log_run sl [] s = ([], s)"
| "log_run sl (op # ops) s =
     (case log_step sl op s of (r, s') \<Rightarrow> (case log_run sl ops s' of (rs, s'') \<Rightarrow> (r # rs, s'')))"

primrec a_run :: "log_op list \<Rightarrow> blocks \<Rightarrow> baol_error option list \<times> blocks" where
  "a_run [] a = ([], a)"
| "a_run (op # ops) a = (case a_step op a of (r, a') \<Rightarrow> (case a_run ops a' of (rs, a'') \<Rightarrow> (r # rs, a'')))"

primrec op_ok :: "log_op \<Rightarrow> bool" where
  "op_ok (OpAppend b kvs) \<longleftrightarrow> b \<noteq> 0 \<and> unat b < 2 ^ 58 \<and> kvs_ok b kvs"
| "op_ok (OpMark b) \<longleftrightarrow> unat b < 2 ^ 58"
| "op_ok (OpReopen n) \<longleftrightarrow> True"

primrec op_bytes :: "log_op \<Rightarrow> nat" where
  "op_bytes (OpAppend b kvs) = length (writeLogEntries b kvs)"
| "op_bytes (OpMark b) = 0"
| "op_bytes (OpReopen n) = 0"

lemma no_faults_ok: "no_write_faults no_faults" "no_meta_faults no_faults"
  by (simp_all add: no_faults_def no_write_faults_def no_meta_faults_def)

lemma reopen_holds:
  assumes "skiplist_laws sl" "log_holds sl s a"
  shows "\<exists>s'. NewBlockAppendOnlyLog sl (disk_of s) n = Inr s' \<and> log_holds sl s' a \<and> dataFile s' = dataFile s"
proof -
  obtain m bs es where a: "a = (m, bs)" and rel: "log_rel sl s m es [] bs" and t: "tight s es" and e: "bs = [] \<Longrightarrow> dataFile s = []"
    using assms(2) by (cases a) (auto simp: log_holds_def)
  obtain s' where s': "NewBlockAppendOnlyLog sl (disk_of s) n = Inr s'" "log_rel sl s' m es [] bs" "disk_of s' = disk_of s"
    using open_holds [OF assms(1) log_rel_disk [OF rel]] by blast
  have d: "dataFile s' = dataFile s" using s'(3) by (simp add: disk_of_def)
  then have "tight s' es" using t log_rel_fields(4) [OF rel] log_rel_fields(4) [OF s'(2)] by (simp add: tight_def)
  with s' d e a show ?thesis by (auto intro: log_holdsI)
qed

lemma log_step_holds:
  assumes "skiplist_laws sl" "log_holds sl s a" "op_ok op" "int (length (dataFile s) + op_bytes op) < 2 ^ 63"
  shows "\<exists>s'. log_step sl op s = (fst (a_step op a), s') \<and> log_holds sl s' (snd (a_step op a)) \<and>
    length (dataFile s') \<le> length (dataFile s) + op_bytes op"
proof (cases op)
  case (OpAppend b kvs)
  with Append_holds [OF assms(1) no_faults_ok assms(2), of b kvs] assms(3,4) show ?thesis by simp
next
  case (OpMark b)
  with MarkBlockCommitted_holds [OF assms(1) no_faults_ok assms(2), of b] assms(3) show ?thesis by auto
next
  case (OpReopen n)
  with reopen_holds [OF assms(1,2), of n] show ?thesis by auto
qed

lemma log_run_holds:
  assumes "skiplist_laws sl"
  shows "log_holds sl s a \<Longrightarrow> \<forall>op \<in> set ops. op_ok op \<Longrightarrow> int (length (dataFile s) + sum_list (map op_bytes ops)) < 2 ^ 63 \<Longrightarrow>
    \<exists>s'. log_run sl ops s = (fst (a_run ops a), s') \<and> log_holds sl s' (snd (a_run ops a))"
proof (induction ops arbitrary: s a)
  case (Cons op ops)
  obtain s1 where s1: "log_step sl op s = (fst (a_step op a), s1)" "log_holds sl s1 (snd (a_step op a))"
      "length (dataFile s1) \<le> length (dataFile s) + op_bytes op"
    using log_step_holds [OF assms Cons.prems(1), of op] Cons.prems(2,3) by auto
  have "int (length (dataFile s1) + sum_list (map op_bytes ops)) < 2 ^ 63" using Cons.prems(3) s1(3) by simp
  with Cons.IH [OF s1(2)] Cons.prems(2) obtain s2 where
    "log_run sl ops s1 = (fst (a_run ops (snd (a_step op a))), s2)" "log_holds sl s2 (snd (a_run ops (snd (a_step op a))))" by auto
  with s1(1) show ?case by (simp add: case_prod_beta)
qed simp

definition empty_disk :: log_disk where
  "empty_disk = \<lparr>disk_data = [], disk_index = [], disk_meta = None\<rparr>"

lemma open_empty:
  assumes "skiplist_laws sl"
  shows "\<exists>s. NewBlockAppendOnlyLog sl empty_disk n = Inr s \<and> log_holds sl s (1, []) \<and> dataFile s = []"
proof -
  have "disk_holds empty_disk 1 [] []"
    by (simp add: disk_holds_def empty_disk_def slots_def own_def block_of_def meta_min_def)
  from open_holds [OF assms this, of n] obtain s where
    s: "NewBlockAppendOnlyLog sl empty_disk n = Inr s" "log_rel sl s 1 [] [] []" "disk_of s = empty_disk" by blast
  then have "dataFile s = []" by (simp add: disk_of_def empty_disk_def)
  with s show ?thesis by (auto intro!: log_holdsI simp: tight_def)
qed

section \<open>Write faults\<close>

lemma disk_holds_torn:
  "disk_holds d m es bs \<Longrightarrow> int (length (disk_data d @ x)) < 2 ^ 63 \<Longrightarrow> disk_holds (d\<lparr>disk_data := disk_data d @ x\<rparr>) m es bs"
  by (simp add: disk_holds_def list_all2_block_at_mono)

lemma dataWriter_Flush_torn:
  assumes "dataWriter_Flush env s = (r, s')"
  shows "\<exists>x. dataFile s' = dataFile s @ x \<and> length x \<le> length (dataBuf s) \<and> idx s' = idx s \<and>
    length (dataBuf s') + length x \<le> length (dataBuf s)"
  using assms
  by (auto simp: dataWriter_Flush_def file_append_def split: option.splits if_splits prod.splits)

end
