(* ===== verification/Block_Log_Theorems.thy ===== *)
theory Block_Log_Theorems
  imports Block_Log_Correct
begin

text \<open>
  The properties of the block log: refinement of the list of blocks over whole runs, reads,
  durability, behaviour under write faults, deletions, and the case of block number zero.
\<close>

section \<open>Torn appends\<close>

lemma dataWriter_Write_torn:
  assumes "dataWriter_Write env p s = (r, s')" "dataBuf s = []"
  shows "\<exists>x. dataFile s' = dataFile s @ x \<and> length x + length (dataBuf s') \<le> length p \<and> idx s' = idx s"
  using assms
  by (auto simp: dataWriter_Write_def file_append_def Let_def split: option.splits if_splits prod.splits)

definition data_fault :: "baol_error \<Rightarrow> bool" where
  "data_fault e \<longleftrightarrow> (case e of ErrDataWrite x \<Rightarrow> True | ErrDataFlush x \<Rightarrow> True | _ \<Rightarrow> False)"

lemma index_then_flush_no_data_fault:
  "index_then_flush env sl b pos bytes s = (Some e, s') \<Longrightarrow> \<not> data_fault e"
  by (auto simp: index_then_flush_def index_block_def flush_index_def flushIndexBufferWithBlockID_def data_fault_def Let_def
      split: prod.splits option.splits if_splits)

lemma append_block_torn:
  assumes "append_block env sl b kvs s = (Some e, s')" "data_fault e" "dataBuf s = []"
  shows "\<exists>x. dataFile s' = dataFile s @ x \<and> length x \<le> length (writeLogEntries b kvs) \<and> idx s' = idx s"
proof -
  let ?bytes = "writeLogEntries b kvs"
  obtain r1 s1 where w: "dataWriter_Write env ?bytes s = (r1, s1)" by (cases "dataWriter_Write env ?bytes s")
  obtain x where x: "dataFile s1 = dataFile s @ x" "length x + length (dataBuf s1) \<le> length ?bytes" "idx s1 = idx s"
    using dataWriter_Write_torn [OF w assms(3)] by blast
  show ?thesis
  proof (cases r1)
    case (Some e1)
    with assms(1) w have "s' = s1" by (simp add: append_block_def Let_def)
    with x show ?thesis by auto
  next
    case None
    obtain r2 s2 where f: "dataWriter_Flush env s1 = (r2, s2)" by (cases "dataWriter_Flush env s1")
    obtain y where y: "dataFile s2 = dataFile s1 @ y" "length y \<le> length (dataBuf s1)" "idx s2 = idx s1"
      using dataWriter_Flush_torn [OF f] by blast
    show ?thesis
    proof (cases r2)
      case (Some e2)
      with assms(1) w None f have "s' = s2" by (simp add: append_block_def Let_def)
      with x y show ?thesis by auto
    next
      case N2: None
      have "\<exists>pos s4. append_block env sl b kvs s = index_then_flush env sl b pos ?bytes s4"
        unfolding append_block_def Let_def w None f N2 prod.case option.case index_then_flush_def by blast
      with assms(1,2) index_then_flush_no_data_fault show ?thesis by metis
    qed
  qed
qed

lemma Append_torn:
  assumes laws: "skiplist_laws sl" and rel: "log_rel sl s m es [] bs" and ap: "Append env sl b kvs s = (Some e, s')" "data_fault e"
    and next_b: "b \<le> latestBlockID (idx s) + 1 \<or> currentOffset s = 0 \<and> latestBlockID (idx s) = 0"
  shows "\<exists>x. disk_of s' = (disk_of s)\<lparr>disk_data := disk_data (disk_of s) @ x\<rparr> \<and> length x \<le> length (writeLogEntries b kvs)"
proof -
  let ?s = "s\<lparr>win := ensureWriteTrackingInitialized sl (win s)\<rparr>"
  have "append_block env sl b kvs ?s = (Some e, s')"
    using ap log_rel_fields(1) [OF rel] next_b
    by (auto simp: Append_def Let_def data_fault_def not_less [symmetric] split: if_splits)
  moreover have "dataBuf ?s = []" using log_rel_fields(2) [OF rel] by simp
  ultimately show ?thesis using append_block_torn [of env sl b kvs ?s e s'] ap(2) by (auto simp: disk_of_def)
qed

section \<open>Deletions\<close>

lemma Delete_tombstone:
  assumes laws: "skiplist_laws sl" and env: "no_write_faults env" and rel: "log_rel sl s m es [] bs" and ne: "bs \<noteq> []"
    and room: "room m (length bs)" and recent: "\<not> latestBlockID (idx s) - (case key_block k of None \<Rightarrow> 0 | Some b \<Rightarrow> b) > IgnoredThreshold"
    and len: "length k < 2 ^ 32" and size: "int (length (dataFile s) + length (writeLogEntry b k TombstoneMarker)) < 2 ^ 63"
    and b: "b = m + word_of_nat (length bs)"
  shows "\<exists>s' p. Delete env sl k s = (None, s') \<and> \<not> closed s' \<and> latestBlockID (idx s') = b \<and>
    window_index sl (win s') k = Some p \<and> ptr_at (dataFile s') p k TombstoneMarker \<and> int (length (dataFile s')) < 2 ^ 63"
proof -
  let ?s = "s\<lparr>win := ensureWriteTrackingInitialized sl (win s)\<rparr>" and ?bytes = "writeLogEntry b k TombstoneMarker"
  note en = log_rel_ensure [OF laws rel] and l = log_rel_latest [OF rel ne]
  note r = log_rel_fields [OF en(1)]
  have latest: "latestBlockID (idx s) + 1 = b" "latestBlockID (idx s) \<noteq> 0" "latestBlockID (idx s) > 0"
    using l(5) b l(3) log_rel_fields(6) [OF rel] by (auto simp: index_rel_def slots_def unat_eq_0 word_gt_0 dest: arg_cong [of _ _ unat])
  obtain f buf where w: "dataWriter_Write env ?bytes ?s = (None, ?s\<lparr>dataFile := f, dataBuf := buf\<rparr>)" "f @ buf = dataFile s @ ?bytes"
    using dataWriter_Write_ok [OF env r(3), of ?bytes] r(2) by auto
  let ?stop = "int (length (dataFile s)) + (16 + int (length k) + int (length TombstoneMarker))"
  have i64: "i64 ?stop = ?stop" using size by (intro i64_id) simp_all
  define e where "e = \<lparr>BlockID = b, StartOffset = int (length (dataFile s)), EndOffset = ?stop\<rparr>"
  define i where "i = (writeIndexEntry e ((idx s)\<lparr>minBlockID := (if minBlockID (idx s) = 0 then b else minBlockID (idx s))\<rparr>))\<lparr>latestBlockID := b\<rparr>"
  have m0: "minBlockID (idx s) \<noteq> 0" using l(2) log_rel_fields(6) [OF rel] by (simp add: index_rel_def slots_def)
  then have i_eq: "writeIndexEntry e ((idx s)\<lparr>latestBlockID := b\<rparr>) = i" "minBlockID i = minBlockID (idx s)"
    by (simp_all add: i_def writeIndexEntry_def bufferIndexEntry_def Let_def)
  have len_es: "length (es @ []) = length bs" using log_rel_length [OF rel] by simp
  have "b = m + word_of_nat (length (es @ []))" "room m (length (es @ []))" using room by (simp_all only: len_es b)
  then have "index_rel i m es ([] @ [e])"
    unfolding i_def e_def using size by (intro index_rel_push_at [OF log_rel_fields(6) [OF rel]]) simp_all
  then obtain i' where fl: "flushIndexBufferWithBlockID env (minBlockID i) i = (None, i')" "index_rel i' m (es @ [e]) []"
    using index_rel_flush [OF _ env] by force
  obtain rb where rb: "recentBlocks (win ?s) = Some rb" using en(2) by (auto simp: tracking_def)
  define w1 where "w1 = updateRecentBlocks sl b (win ?s)"
  have inv: "window_inv sl (win ?s)" using r(9) by (simp add: window_rel_def)
  note spec = updateRecentBlocks_spec [OF laws inv rb, of b, folded w1_def]
  have "b \<notin> set rb"
    using r(9) rb b room by (auto simp: window_rel_def window_recent_def slot_of_add room_def)
  moreover have "recentN (win ?s) > 0" using inv by (simp add: window_inv_def)
  ultimately have "leaving (win ?s) b \<noteq> Some b" using rb by (cases rb) (auto simp: leaving_def Let_def split: if_splits)
  then have inw: "is_indexed w1 b" using spec(3) by auto
  define s' where "s' = ?s\<lparr>dataFile := dataFile s @ ?bytes, dataBuf := [], currentOffset := EndOffset e, idx := i',
      win := setSkiplistEntry sl b k (buildKVPointerForSkiplist b (currentOffset s) k TombstoneMarker) w1\<rparr>"
  have "Delete env sl k s = (None, s')"
    using log_rel_fields(1) [OF rel] recent latest w(1) i64 fl(1) inw env r(3)
    by (simp add: Delete_def Let_def key_block_def i_eq [unfolded e_def] dataWriter_Flush_ok flush_index_def s'_def w(2) r(4))
       (simp add: w1_def e_def log_rel_fields(4) [OF rel])
  moreover have "ptr_at (dataFile s') (buildKVPointerForSkiplist b (currentOffset s) k TombstoneMarker) k TombstoneMarker"
    using at_offset_end [of "dataFile s" ?bytes] r(4) len by (simp add: ptr_at_def s'_def TombstoneMarker_def bytes_of_string_def)
  moreover have "latestBlockID i' = b" using fl(2) b len_es by (simp add: index_rel_def)
  ultimately show ?thesis
    using r(1) size window_index_setSkiplistEntry [OF laws] by (auto simp: s'_def)
qed

section \<open>Block number zero\<close>

lemma index_then_flush_window:
  "kvs_fit kvs \<Longrightarrow> \<exists>w. index_then_flush env sl b pos (enc_block b kvs) s = flush_index env (s\<lparr>win := w\<rparr>)"
  by (cases "is_indexed (win s) b") (auto simp: index_then_flush_def index_block_enc intro: exI [of _ "win s"])

lemma flush_index_one:
  assumes "no_write_faults env" "indexMapOpen (idx s)" "indexBuffer (idx s) = [e]" "minBlockID (idx s) \<le> BlockID e"
    "index_pos (minBlockID (idx s)) (BlockID e) = 0"
  shows "flush_index env s = (None, s\<lparr>idx := (idx s)\<lparr>indexBuffer := [],
    indexMapFile := encodeIndexEntry e @ drop 24 (indexMapFile (idx s))\<rparr>\<rparr>)"
  using assms
  by (simp add: flush_index_def flushIndexBufferWithBlockID_def index_writeAt_def no_write_faults_def writeAt_def Let_def not_less)

lemma kvs_nonempty_bytes: "kvs \<noteq> [] \<Longrightarrow> 0 < length (writeLogEntries b kvs)"
  by (simp add: writeLogEntries_enc_block enc_block_eq_Nil write_order_Nil_iff)

lemma index_pos_same: "index_pos b b = 0"
  by (simp add: index_pos_def int64_of_uint64_def i64_def)

text \<open>The first append, to block zero: the entry goes to slot zero and the smallest number stays zero.\<close>

lemma Append_zero:
  assumes laws: "skiplist_laws sl" and env: "no_write_faults env" and h: "log_holds sl s (m, [])"
    and kvs: "kvs \<noteq> []" "kvs_fit (write_order kvs)" and size: "int (length (writeLogEntries 0 kvs)) < 2 ^ 63"
  shows "\<exists>s1 w. Append env sl 0 kvs s = (None, s1) \<and>
    s1 = s\<lparr>win := w, dataFile := writeLogEntries 0 kvs, currentOffset := int (length (writeLogEntries 0 kvs)), idx := idx s1\<rparr> \<and>
    indexMapFile (idx s1) = encodeIndexEntry \<lparr>BlockID = 0, StartOffset = 0, EndOffset = int (length (writeLogEntries 0 kvs))\<rparr> \<and>
    indexMapOpen (idx s1) \<and> indexBuffer (idx s1) = [] \<and> blockIndex (idx s1) = None \<and> minBlockID (idx s1) = 0 \<and> latestBlockID (idx s1) = 0"
proof -
  obtain es where rel: "log_rel sl s m es [] []" and d: "dataFile s = []" using h by (auto simp: log_holds_def)
  have es: "es = []" using log_rel_length [OF rel] by simp
  note r = log_rel_fields [OF rel]
  let ?s = "s\<lparr>win := ensureWriteTrackingInitialized sl (win s)\<rparr>" and ?e = "\<lparr>BlockID = 0, StartOffset = 0, EndOffset = int (length (writeLogEntries 0 kvs))\<rparr>"
  have st: "currentOffset s = 0" "latestBlockID (idx s) = 0" "minBlockID (idx s) = 0" "indexMapFile (idx s) = []" "indexMapOpen (idx s)"
    "blockIndex (idx s) = None" "indexBuffer (idx s) = []"
    using r d es by (simp_all add: index_rel_def)
  have none: "getBlockIndexEntry (idx s) 0 = None" using log_rel_lookup(3) [OF rel, of 0] by (simp add: slot_of_def)
  have i64: "i64 (int (length (writeLogEntries 0 kvs))) = int (length (writeLogEntries 0 kvs))" using size by (intro i64_id) simp_all
  let ?s3 = "?s\<lparr>dataFile := dataFile ?s @ writeLogEntries 0 kvs, currentOffset := int (length (writeLogEntries 0 kvs)), idx := writeIndexEntry ?e (idx ?s)\<rparr>"
  have "append_block env sl 0 kvs ?s = index_then_flush env sl 0 0 (writeLogEntries 0 kvs) ?s3"
    using append_block_unfold(2) [OF env, of ?s 0 sl kvs] r(2,3) st none i64 by simp
  also obtain w where "\<dots> = flush_index env (?s3\<lparr>win := w\<rparr>)"
    using index_then_flush_window [OF kvs(2), of env sl 0 0 ?s3] writeLogEntries_enc_block [of 0 kvs] by auto
  also have "\<dots> = (None, ?s3\<lparr>win := w, idx := (writeIndexEntry ?e (idx s))\<lparr>indexBuffer := [], indexMapFile := encodeIndexEntry ?e\<rparr>\<rparr>)"
    using flush_index_one [OF env, of "?s3\<lparr>win := w\<rparr>" ?e] st index_pos_same by simp
  finally have ab: "append_block env sl 0 kvs ?s =
      (None, ?s3\<lparr>win := w, idx := (writeIndexEntry ?e (idx s))\<lparr>indexBuffer := [], indexMapFile := encodeIndexEntry ?e\<rparr>\<rparr>)" .
  have "Append env sl 0 kvs s = append_block env sl 0 kvs ?s"
    using r(1) st kvs(1) by (simp add: Append_def Let_def)
  with ab st d show ?thesis
    by (intro exI [of _ "?s3\<lparr>win := w, idx := (writeIndexEntry ?e (idx s))\<lparr>indexBuffer := [], indexMapFile := encodeIndexEntry ?e\<rparr>\<rparr>"] exI [of _ w]) simp
qed

text \<open>The append of block one then takes slot zero: the smallest number becomes one.\<close>

lemma Append_one_after_zero:
  assumes env: "no_write_faults env" and st: "\<not> closed s" "dataErr s = None" "dataBuf s = []" "currentOffset s > 0"
      "blockIndex (idx s) = None" "indexBuffer (idx s) = []" "indexMapOpen (idx s)" "minBlockID (idx s) = 0" "latestBlockID (idx s) = 0"
      "length (indexMapFile (idx s)) = 24"
    and kvs: "kvs \<noteq> []" "kvs_fit (write_order kvs)"
  shows "\<exists>s2. Append env sl 1 kvs s = (None, s2) \<and> \<not> closed s2 \<and> minBlockID (idx s2) = 1 \<and> blockIndex (idx s2) = None \<and>
    indexBuffer (idx s2) = [] \<and> indexMapOpen (idx s2)"
proof -
  let ?s = "s\<lparr>win := ensureWriteTrackingInitialized sl (win s)\<rparr>"
  define e where "e = \<lparr>BlockID = (1::u64), StartOffset = currentOffset s, EndOffset = i64 (currentOffset s + int (length (writeLogEntries 1 kvs)))\<rparr>"
  have pos: "index_pos 0 1 = 24" by (simp add: index_pos_def int64_of_uint64_def indexEntrySize_def i64_id)
  have none: "getBlockIndexEntry (idx s) 1 = None"
    using st by (simp add: getBlockIndexEntry_def getBlockIndexEntryWithSource_def buffered_entry_def findBlockIndexEntryOnDisk_def
        pos readAt_def indexEntrySize_def word_less_nat_alt)
  let ?i = "(writeIndexEntry e ((idx s)\<lparr>minBlockID := 1\<rparr>))\<lparr>latestBlockID := 1\<rparr>"
  define s4 where "s4 = snd (save_meta env (?s\<lparr>dataFile := dataFile s @ writeLogEntries 1 kvs, currentOffset := EndOffset e, idx := ?i,
      win := updateRecentBlocks sl 1 (win ?s)\<rparr>))"
  have i4: "idx s4 = snd (saveIndexMeta env ?i)" "closed s4 = closed s" by (simp_all add: s4_def)
  have f4: "minBlockID (idx s4) = 1" "indexBuffer (idx s4) = [e]" "indexMapOpen (idx s4)" "blockIndex (idx s4) = None"
    using st by (simp_all add: i4 saveIndexMeta_def Let_def split: option.splits)
  have "append_block env sl 1 kvs ?s = index_then_flush env sl 1 (currentOffset s) (writeLogEntries 1 kvs) s4"
    using append_block_unfold(1) [OF env, of ?s 1 sl kvs] st none by (simp add: s4_def e_def)
  also obtain w where "\<dots> = flush_index env (s4\<lparr>win := w\<rparr>)"
    using index_then_flush_window [OF kvs(2), of env sl 1 "currentOffset s" s4] writeLogEntries_enc_block [of 1 kvs] by auto
  also have "\<dots> = (None, s4\<lparr>win := w, idx := (idx s4)\<lparr>indexBuffer := [], indexMapFile := encodeIndexEntry e @ drop 24 (indexMapFile (idx s4))\<rparr>\<rparr>)"
    using flush_index_one [OF env, of "s4\<lparr>win := w\<rparr>" e] f4 index_pos_same by (simp add: e_def)
  finally have ab: "append_block env sl 1 kvs ?s =
      (None, s4\<lparr>win := w, idx := (idx s4)\<lparr>indexBuffer := [], indexMapFile := encodeIndexEntry e @ drop 24 (indexMapFile (idx s4))\<rparr>\<rparr>)" .
  have "Append env sl 1 kvs s = append_block env sl 1 kvs ?s"
    using st kvs(1) by (simp add: Append_def Let_def)
  with ab f4 i4(2) st(1) show ?thesis by simp
qed

lemma below_min_not_found:
  "minBlockID i = m \<Longrightarrow> b < m \<Longrightarrow> blockIndex i = None \<Longrightarrow> indexBuffer i = [] \<Longrightarrow> getBlockIndexEntry i b = None"
  by (simp add: getBlockIndexEntry_def getBlockIndexEntryWithSource_def buffered_entry_def findBlockIndexEntryOnDisk_def)

lemma Delete_hides:
  assumes "skiplist_laws sl" "no_write_faults env" "log_holds sl s a" "snd a \<noteq> []"
    and "key_block k = Some c" "c \<le> a_latest a" "a_latest a - c \<le> IgnoredThreshold" "unat (a_latest a) < 2 ^ 58"
    and "length k < 2 ^ 32" "int (length (dataFile s) + length k) < 2 ^ 62"
  shows "\<exists>s'. Delete env sl k s = (None, s') \<and> Get sl k s' = Inr ([], True) \<and> LatestBlockID s' = a_latest a + 1"
proof -
  obtain m bs es where a: "a = (m, bs)" and rel: "log_rel sl s m es [] bs" using assms(3) by (cases a) (auto simp: log_holds_def)
  have ne: "bs \<noteq> []" using assms(4) a by simp
  note l = log_rel_latest [OF rel ne]
  have latest: "latestBlockID (idx s) = a_latest a" using log_rel_a_latest [OF rel] a by simp
  have room: "room m (length bs)" using l(3) latest assms(8) ne by (cases bs) (simp_all add: room_def)
  have "int (length (dataFile s) + length (writeLogEntry (m + word_of_nat (length bs)) k TombstoneMarker)) < 2 ^ 63"
    using assms(10) by (simp add: TombstoneMarker_def bytes_of_string_def)
  with Delete_tombstone [OF assms(1,2) rel ne room, of k "m + word_of_nat (length bs)"] assms(5,7,9) latest
  obtain s' p where s': "Delete env sl k s = (None, s')" "\<not> closed s'" "latestBlockID (idx s') = m + word_of_nat (length bs)"
      "window_index sl (win s') k = Some p" "ptr_at (dataFile s') p k TombstoneMarker" "int (length (dataFile s')) < 2 ^ 63"
    by (auto simp: leD)
  obtain src where "readValueBytesFromPointerWithSource s' p = Inr (TombstoneMarker, src)" using read_ptr [OF s'(5,6)] by blast
  then have "Get sl k s' = Inr ([], True)" using s'(2,4) by (simp add: Get_def window_index_def)
  moreover have "LatestBlockID s' = a_latest a + 1" using s'(3) l(5) latest by (simp add: LatestBlockID_def)
  ultimately show ?thesis using s'(1) by blast
qed

section \<open>Properties\<close>

text \<open>
  C2. A run of appends, commit markers and reopenings on a fresh log returns the errors of the
  abstract run on the list of blocks and ends in a log that reports its newest block, whatever the
  window size; when no block of the abstract run holds a key twice, every key is read from those
  blocks. The appends of the run are to blocks other than zero, every key names its block, keys and
  values fit their length fields, block numbers are below \<open>2 ^ 58\<close>, and the data of the run stay
  below \<open>2 ^ 63\<close> bytes. For block zero the statement does not hold: its index entry is lost, as
  a theorem below shows.
\<close>

theorem log_runs_refine_blocks:
  assumes "skiplist_laws sl" "\<forall>op \<in> set ops. op_ok op" "int (sum_list (map op_bytes ops)) < 2 ^ 63"
  shows "\<exists>s0 s. NewBlockAppendOnlyLog sl empty_disk n = Inr s0 \<and>
    log_run sl ops s0 = (fst (a_run ops (1, [])), s) \<and>
    LatestBlockID s = a_latest (snd (a_run ops (1, []))) \<and>
    (distinct_keys (snd (snd (a_run ops (1, [])))) \<longrightarrow>
       (\<forall>k. Get sl k s = a_get k (window_index sl (win s) k \<noteq> None) (snd (a_run ops (1, [])))))"
proof -
  obtain s0 where s0: "NewBlockAppendOnlyLog sl empty_disk n = Inr s0" "log_holds sl s0 (1, [])" "dataFile s0 = []"
    using open_empty [OF assms(1)] by blast
  obtain s where s: "log_run sl ops s0 = (fst (a_run ops (1, [])), s)" "log_holds sl s (snd (a_run ops (1, [])))"
    using log_run_holds [OF assms(1) s0(2) assms(2)] assms(3) s0(3) by auto
  then obtain es where rel: "log_rel sl s (fst (snd (a_run ops (1, [])))) es [] (snd (snd (a_run ops (1, []))))"
    by (auto simp: log_holds_def split: prod.splits)
  have "LatestBlockID s = a_latest (snd (a_run ops (1, [])))"
    using log_rel_a_latest [OF rel] by (simp add: LatestBlockID_def)
  with s0(1) s(1) Get_holds [OF rel] show ?thesis by auto
qed

lemma kvs_ok_header:
  "unat b < 2 ^ 56 \<Longrightarrow> length h < 100 \<Longrightarrow> length v < 100 \<Longrightarrow> kvs_ok b [(block_key headerPrefix b h, v)]"
  by (simp add: kvs_ok_def kvs_fit_def keys_in_def key_block_block_key block_prefixes_def)
     (simp add: block_key_def headerPrefix_def bytes_of_string_def)

lemma length_one_header_bytes: "length h < 100 \<Longrightarrow> length v < 100 \<Longrightarrow> length (writeLogEntries b [(block_key headerPrefix c h, v)]) < 300"
  by (simp add: writeLogEntries_def write_order_def block_key_def headerPrefix_def bytes_of_string_def)

definition sample_ops :: "log_op list" where
  "sample_ops = [OpAppend 5 [(block_key headerPrefix 5 [7], [1, 2])], OpReopen 3, OpMark 8, OpAppend 9 [(block_key headerPrefix 9 [8], [3])]]"

theorem log_runs_refine_blocks_witness:
  "\<exists>s0 s. NewBlockAppendOnlyLog alist_skiplist empty_disk 2 = Inr s0 \<and>
    log_run alist_skiplist sample_ops s0 = (fst (a_run sample_ops (1, [])), s) \<and>
    LatestBlockID s = a_latest (snd (a_run sample_ops (1, []))) \<and>
    (distinct_keys (snd (snd (a_run sample_ops (1, [])))) \<longrightarrow>
       (\<forall>k. Get alist_skiplist k s = a_get k (window_index alist_skiplist (win s) k \<noteq> None) (snd (a_run sample_ops (1, [])))))"
proof (rule log_runs_refine_blocks [OF alist_skiplist_laws])
  show "\<forall>op \<in> set sample_ops. op_ok op"
    using kvs_ok_header [of 5 "[7]" "[1, 2]"] kvs_ok_header [of 9 "[8]" "[3]"] by (simp add: sample_ops_def)
  show "int (sum_list (map op_bytes sample_ops)) < 2 ^ 63"
    using length_one_header_bytes [of "[7]" "[1, 2]" 5 5] length_one_header_bytes [of "[8]" "[3]" 9 9] by (simp add: sample_ops_def)
qed

text \<open>
  One append that meets no fault does to the blocks of the log what the abstract append
  does: it opens the log, extends the newest block, ignores an older block, refuses a block
  below the smallest one and fills the numbers it skips with empty blocks.
\<close>

theorem append_refines_blocks:
  assumes "skiplist_laws sl" "no_write_faults env" "no_meta_faults env" "log_holds sl s a"
    and "b \<noteq> 0" "unat b < 2 ^ 58" "kvs_ok b kvs" "int (length (dataFile s) + length (writeLogEntries b kvs)) < 2 ^ 63"
  shows "\<exists>s'. Append env sl b kvs s = (fst (a_append b kvs a), s') \<and> log_holds sl s' (snd (a_append b kvs a))"
  using Append_holds [OF assms] by blast

theorem append_refines_blocks_witness:
  "\<exists>s s'. Append no_faults alist_skiplist 5 [(block_key headerPrefix 5 [7], [1, 2])] s = (None, s') \<and>
     log_holds alist_skiplist s' (5, [[(block_key headerPrefix 5 [7], [1, 2])]])"
proof -
  obtain s where s: "log_holds alist_skiplist s (1, [])" "dataFile s = []" using open_empty [OF alist_skiplist_laws, of 2] by blast
  have "int (length (dataFile s) + length (writeLogEntries 5 [(block_key headerPrefix 5 [7], [1, 2])])) < 2 ^ 63"
    using length_one_header_bytes [of "[7]" "[1, 2]" 5 5] s(2) by simp
  from append_refines_blocks [OF alist_skiplist_laws no_faults_ok s(1) _ _ kvs_ok_header this] show ?thesis
    by (auto simp: a_append_def write_order_def)
qed

text \<open>
  A commit marker adds the empty blocks up to its number, on a fresh log from block one on,
  and does nothing for a number the log already has.
\<close>

theorem mark_refines_blocks:
  assumes "skiplist_laws sl" "no_write_faults env" "no_meta_faults env" "log_holds sl s a" "unat b < 2 ^ 58"
  shows "\<exists>s'. MarkBlockCommitted env sl b s = (None, s') \<and> log_holds sl s' (a_mark b a) \<and> dataFile s' = dataFile s"
  using MarkBlockCommitted_holds [OF assms] .

lemma a_mark_two: "a_mark 2 (1, []) = (1, [[], []])"
proof -
  have "unat (2 :: u64) = 2" "replicate 2 x = [x, x]" for x :: "(bytes \<times> bytes) list"
    by simp (simp add: numeral_2_eq_2)
  then show ?thesis by (simp add: a_mark_def a_latest_def)
qed

theorem mark_refines_blocks_witness:
  "\<exists>s s'. MarkBlockCommitted no_faults alist_skiplist 2 s = (None, s') \<and> log_holds alist_skiplist s' (1, [[], []])"
proof -
  obtain s where s: "log_holds alist_skiplist s (1, [])" using open_empty [OF alist_skiplist_laws, of 2] by blast
  from mark_refines_blocks [OF alist_skiplist_laws no_faults_ok s, of 2] show ?thesis by (auto simp: a_mark_two)
qed

text \<open>
  C17. The window of recent blocks is invisible to reads when no block holds a key twice: two logs
  that hold the same blocks, with windows and skiplists of any kind, answer every read alike for
  keys of the last ten thousand blocks, and the answer is the block's binding. (Of a key that occurs
  twice in a block the window gives the newest value and the search of the data file the first.)
\<close>

theorem window_invisible:
  assumes "log_holds sl s a" "log_holds sl' s' a" "distinct_keys (snd a)"
    and "key_block k = Some b" "b \<le> a_latest a" "a_latest a - b \<le> IgnoredThreshold"
  shows "Get sl k s = Get sl' k s' \<and>
    Get sl k s = Inr (case map_of (block_of (fst a) (snd a) b) k of None \<Rightarrow> ([], False) | Some v \<Rightarrow> found v)"
proof -
  obtain m bs where a: "a = (m, bs)" by (cases a)
  obtain es es' where "log_rel sl s m es [] bs" "log_rel sl' s' m es' [] bs" using assms(1,2) a by (auto simp: log_holds_def)
  with assms(3-6) a show ?thesis
    by (auto simp: Get_holds a_get_def leD split: option.splits)
qed

lemma one_block_log:
  "\<exists>s. log_holds alist_skiplist s (5, [[(block_key headerPrefix 5 [7], [1, 2])]])"
proof -
  let ?kvs = "[(block_key headerPrefix 5 [7], [1, 2])]"
  obtain s where s: "log_holds alist_skiplist s (1, [])" "dataFile s = []" using open_empty [OF alist_skiplist_laws, of 2] by blast
  have "int (length (dataFile s) + length (writeLogEntries 5 ?kvs)) < 2 ^ 63"
    using length_one_header_bytes [of "[7]" "[1, 2]" 5 5] s(2) by simp
  from Append_holds [OF alist_skiplist_laws no_faults_ok s(1) _ _ kvs_ok_header this] show ?thesis
    by (auto simp: a_append_def write_order_def)
qed

theorem window_invisible_witness:
  "\<exists>s s'. NewBlockAppendOnlyLog alist_skiplist (disk_of s) 4 = Inr s' \<and>
    Get alist_skiplist (block_key headerPrefix 5 [7]) s = Get alist_skiplist (block_key headerPrefix 5 [7]) s' \<and>
    Get alist_skiplist (block_key headerPrefix 5 [7]) s = Inr ([1, 2], True)"
proof -
  let ?k = "block_key headerPrefix 5 [7]"
  obtain s where s: "log_holds alist_skiplist s (5, [[(?k, [1, 2])]])" using one_block_log by blast
  then obtain s' where s': "NewBlockAppendOnlyLog alist_skiplist (disk_of s) 4 = Inr s'" "log_holds alist_skiplist s' (5, [[(?k, [1, 2])]])"
    using reopen_holds [OF alist_skiplist_laws s, of 4] by blast
  have k: "key_block ?k = Some 5" by (simp add: key_block_block_key block_prefixes_def)
  have l: "a_latest (5, [[(?k, [1, 2])]]) = 5" by (simp add: a_latest_def)
  have "found [1, 2] = ([1, 2], True)" by (simp add: found_def TombstoneMarker_def bytes_of_string_def)
  with window_invisible [OF s s'(2) _ k] l s'(1) show ?thesis
    by (auto simp: distinct_keys_def block_of_def slot_of_def IgnoredThreshold_def)
qed

text \<open>
  C5. Opening the files of a log gives its blocks back, and so does opening them with the
  metadata file missing: the smallest block number is then read off the index.
\<close>

theorem reopen_recovers_blocks:
  assumes "skiplist_laws sl" "log_holds sl s a"
  shows "(\<exists>s'. NewBlockAppendOnlyLog sl (disk_of s) n = Inr s' \<and> log_holds sl s' a) \<and>
    (\<exists>s'. NewBlockAppendOnlyLog sl ((disk_of s)\<lparr>disk_meta := None\<rparr>) n = Inr s' \<and> log_holds sl s' a)"
proof -
  obtain m bs es where a: "a = (m, bs)" and rel: "log_rel sl s m es [] bs" and t: "tight s es" and e: "bs = [] \<Longrightarrow> dataFile s = []"
    using assms(2) by (cases a) (auto simp: log_holds_def)
  have "disk_holds ((disk_of s)\<lparr>disk_meta := None\<rparr>) m es bs"
    using log_rel_disk [OF rel] by (simp add: disk_holds_def meta_min_def)
  from open_holds [OF assms(1) this, of n] obtain s' where s': "NewBlockAppendOnlyLog sl ((disk_of s)\<lparr>disk_meta := None\<rparr>) n = Inr s'"
    "log_rel sl s' m es [] bs" "disk_of s' = (disk_of s)\<lparr>disk_meta := None\<rparr>" by blast
  then have d: "dataFile s' = dataFile s" by (simp add: disk_of_def)
  then have "tight s' es" using t log_rel_fields(4) [OF rel] log_rel_fields(4) [OF s'(2)] by (simp add: tight_def)
  with s' d e a have "log_holds sl s' a" by (auto intro: log_holdsI)
  with s'(1) reopen_holds [OF assms, of n] show ?thesis by blast
qed

theorem reopen_recovers_blocks_witness:
  "\<exists>(s :: (bytes \<times> kvPointer) list BlockAppendOnlyLog) s'. NewBlockAppendOnlyLog alist_skiplist ((disk_of s)\<lparr>disk_meta := None\<rparr>) 4 = Inr s' \<and> log_holds alist_skiplist s' (1, [[], []])"
proof -
  obtain s where "log_holds alist_skiplist s (1, [])" using open_empty [OF alist_skiplist_laws, of 2] by blast
  then obtain s' where "log_holds alist_skiplist s' (1, [[], []])"
    using MarkBlockCommitted_holds [OF alist_skiplist_laws no_faults_ok, of s "(1, [])" 2] by (auto simp: a_mark_two)
  from reopen_recovers_blocks [OF alist_skiplist_laws this, of 4] show ?thesis by blast
qed

text \<open>
  C8. An append that fails while its data is written loses nothing: whatever part of the data
  reached the file, opening the files again gives the blocks from before the append, and, when none
  of them holds a key twice, their answers to reads. The append leaves no gap: it is to a block that
  the log has, to the one after the newest, or the first of the log. (Over a gap the log writes empty
  blocks before the data, and these stay.) The data stay below \<open>2 ^ 63\<close> bytes.
\<close>

theorem torn_append_recovers:
  assumes "skiplist_laws sl" "log_holds sl s a" "Append env sl b kvs s = (Some e, s')" "data_fault e"
    and "b \<le> latestBlockID (idx s) + 1 \<or> snd a = []" "int (length (dataFile s) + length (writeLogEntries b kvs)) < 2 ^ 63"
  shows "\<exists>s''. NewBlockAppendOnlyLog sl (disk_of s') n = Inr s'' \<and> LatestBlockID s'' = a_latest a \<and>
    (distinct_keys (snd a) \<longrightarrow> (\<forall>k. Get sl k s'' = a_get k (window_index sl (win s'') k \<noteq> None) a))"
proof -
  obtain m bs es where a: "a = (m, bs)" and rel: "log_rel sl s m es [] bs" and d: "bs = [] \<Longrightarrow> dataFile s = []"
    using assms(2) by (cases a) (auto simp: log_holds_def)
  have "b \<le> latestBlockID (idx s) + 1 \<or> currentOffset s = 0 \<and> latestBlockID (idx s) = 0"
    using assms(5) a d log_rel_a_latest [OF rel] log_rel_fields(4) [OF rel] by (auto simp: a_latest_def)
  then obtain x where x: "disk_of s' = (disk_of s)\<lparr>disk_data := disk_data (disk_of s) @ x\<rparr>" "length x \<le> length (writeLogEntries b kvs)"
    using Append_torn [OF assms(1) rel assms(3,4)] by blast
  have "disk_holds (disk_of s') m es bs"
    unfolding x(1) using x(2) assms(6) by (intro disk_holds_torn log_rel_disk [OF rel]) (simp add: disk_of_def)
  from open_holds [OF assms(1) this, of n] obtain s'' where
    s'': "NewBlockAppendOnlyLog sl (disk_of s') n = Inr s''" "log_rel sl s'' m es [] bs" by blast
  with a log_rel_a_latest [OF s''(2)] Get_holds [OF s''(2)] show ?thesis by (auto simp: LatestBlockID_def)
qed

definition full_disk :: io_env where
  "full_disk = no_faults\<lparr>dataWriteFault := (\<lambda>f p. Some 10)\<rparr>"

lemma full_disk_fails:
  assumes "log_holds sl s (m, [])" "b \<noteq> 0" "kvs \<noteq> []" "length (writeLogEntries b kvs) \<le> 4096"
  shows "\<exists>s'. Append full_disk sl b kvs s = (Some (ErrDataFlush IOFault), s')"
proof -
  obtain es where rel: "log_rel sl s m es [] []" and d: "dataFile s = []" using assms(1) by (auto simp: log_holds_def)
  note r = log_rel_fields [OF rel]
  have st: "currentOffset s = 0" "latestBlockID (idx s) = 0" using r(4) d log_rel_a_latest [OF rel] by (simp_all add: a_latest_def)
  have ne: "writeLogEntries b kvs \<noteq> []" using kvs_nonempty_bytes [OF assms(3), of b] by auto
  let ?s = "s\<lparr>win := ensureWriteTrackingInitialized sl (win s)\<rparr>"
  have w: "dataWriter_Write full_disk (writeLogEntries b kvs) ?s = (None, ?s\<lparr>dataBuf := writeLogEntries b kvs\<rparr>)"
    using r(2,3) assms(4) by (simp add: dataWriter_Write_def initialBufferSize_def Let_def)
  have f: "\<exists>s'. dataWriter_Flush full_disk (?s\<lparr>dataBuf := writeLogEntries b kvs\<rparr>) = (Some IOFault, s')"
    using r(3) ne by (simp add: dataWriter_Flush_def file_append_def full_disk_def)
  then have "\<exists>s'. append_block full_disk sl b kvs ?s = (Some (ErrDataFlush IOFault), s')"
    unfolding append_block_def Let_def w by auto
  moreover have "Append full_disk sl b kvs s = append_block full_disk sl b kvs ?s"
    using r(1) st assms(2,3) by (simp add: Append_def Let_def word_le_nat_alt unat_eq_0)
  ultimately show ?thesis by simp
qed

theorem torn_append_recovers_witness:
  "\<exists>s s' s''. Append full_disk alist_skiplist 5 [(block_key headerPrefix 5 [7], [1, 2])] s = (Some (ErrDataFlush IOFault), s') \<and>
    NewBlockAppendOnlyLog alist_skiplist (disk_of s') 4 = Inr s'' \<and> LatestBlockID s'' = 0"
proof -
  let ?kvs = "[(block_key headerPrefix 5 [7], [1, 2])]"
  obtain s where s: "log_holds alist_skiplist s (1, [])" "dataFile s = []" using open_empty [OF alist_skiplist_laws, of 2] by blast
  have len: "length (writeLogEntries 5 ?kvs) < 300" by (rule length_one_header_bytes) simp_all
  then obtain s' where s': "Append full_disk alist_skiplist 5 ?kvs s = (Some (ErrDataFlush IOFault), s')"
    using full_disk_fails [OF s(1), of 5 ?kvs] by auto
  obtain s'' where "NewBlockAppendOnlyLog alist_skiplist (disk_of s') 4 = Inr s''" "LatestBlockID s'' = a_latest (1, [])"
    using torn_append_recovers [OF alist_skiplist_laws s(1) s', of 4] len s(2) by (auto simp: data_fault_def)
  with s' show ?thesis by (auto simp: a_latest_def)
qed

text \<open>
  C23. A flush of the index buffer that fails keeps every entry: each block with a buffered
  entry is found after the failure as it was before.
\<close>

theorem index_flush_failure_keeps_entries:
  assumes "flushIndexBufferWithBlockID env m s = (Some e, s')" "buffered_entry s b \<noteq> None"
  shows "getBlockIndexEntryWithSource s' b = getBlockIndexEntryWithSource s b \<and> indexBuffer s' = indexBuffer s"
proof -
  note f = flush_failure_restores [OF assms(1)]
  then have "buffered_entry s' b = buffered_entry s b" by (simp add: buffered_entry_def)
  with f assms(2) show ?thesis by (auto simp: getBlockIndexEntryWithSource_def split: option.splits)
qed

definition sample_index :: blockIndexState where
  "sample_index = \<lparr>indexMapFile = [], indexMapOpen = False, indexMetaFile = None, blockIndex = None, minBlockID = 5, latestBlockID = 5,
     indexBuffer = [\<lparr>BlockID = 5, StartOffset = 0, EndOffset = 20\<rparr>], indexBufferSize = 3, indexBufferFlush = False\<rparr>"

theorem index_flush_failure_keeps_entries_witness:
  "fst (flushIndexBufferWithBlockID no_faults 5 sample_index) = Some ErrClosed \<and>
   getBlockIndexEntryWithSource (snd (flushIndexBufferWithBlockID no_faults 5 sample_index)) 5 =
     Inr (Some (\<lparr>BlockID = 5, StartOffset = 0, EndOffset = 20\<rparr>, True))"
proof -
  let ?r = "flushIndexBufferWithBlockID no_faults 5 sample_index"
  have e: "fst ?r = Some ErrClosed"
    by (simp add: flushIndexBufferWithBlockID_def sample_index_def restoreIndexBuffer_def Let_def)
  then have "?r = (Some ErrClosed, snd ?r)" by (metis prod.collapse)
  moreover have "buffered_entry sample_index 5 \<noteq> None" by (simp add: buffered_entry_def sample_index_def)
  ultimately have "getBlockIndexEntryWithSource (snd ?r) 5 = getBlockIndexEntryWithSource sample_index 5"
    using index_flush_failure_keeps_entries by blast
  also have "\<dots> = Inr (Some (\<lparr>BlockID = 5, StartOffset = 0, EndOffset = 20\<rparr>, True))"
    by (simp add: getBlockIndexEntryWithSource_def buffered_entry_def sample_index_def)
  finally show ?thesis using e by simp
qed

text \<open>
  After a deletion of a key of the last ten thousand blocks the key reads as deleted, found
  with the empty value, and the log has a new newest block.
\<close>

theorem delete_hides_key:
  assumes "skiplist_laws sl" "no_write_faults env" "log_holds sl s a" "snd a \<noteq> []"
    and "key_block k = Some c" "c \<le> a_latest a" "a_latest a - c \<le> IgnoredThreshold" "unat (a_latest a) < 2 ^ 58"
    and "length k < 2 ^ 32" "int (length (dataFile s) + length k) < 2 ^ 62"
  shows "\<exists>s'. Delete env sl k s = (None, s') \<and> Get sl k s' = Inr ([], True) \<and> LatestBlockID s' = a_latest a + 1"
  using assms by (rule Delete_hides)

theorem delete_hides_key_witness:
  "\<exists>s s'. Delete no_faults alist_skiplist (block_key headerPrefix 1 [7]) s = (None, s') \<and>
     Get alist_skiplist (block_key headerPrefix 1 [7]) s' = Inr ([], True)"
proof -
  obtain s0 where "log_holds alist_skiplist s0 (1, [])" "dataFile s0 = []" using open_empty [OF alist_skiplist_laws, of 2] by blast
  then obtain s where s: "log_holds alist_skiplist s (1, [[], []])" "dataFile s = []"
    using MarkBlockCommitted_holds [OF alist_skiplist_laws no_faults_ok, of s0 "(1, [])" 2] by (auto simp: a_mark_two)
  have k: "key_block (block_key headerPrefix 1 [7]) = Some 1" by (simp add: key_block_block_key block_prefixes_def)
  have len: "length (block_key headerPrefix 1 [7]) = 10" by (simp add: block_key_def headerPrefix_def bytes_of_string_def)
  have l: "a_latest (1, [[], []]) = 2" by (simp add: a_latest_def)
  from delete_hides_key [OF alist_skiplist_laws no_faults_ok(1) s(1) _ k] show ?thesis
    by (auto simp: l len s(2) IgnoredThreshold_def word_le_nat_alt)
qed

text \<open>
  C24. The bytes of a block do not depend on the order in which the map of its bindings is
  visited, and scanning them gives the bindings back, headers first, then bodies, receipts and
  the rest, each class in the order of its keys.
\<close>

theorem block_bytes_order_independent:
  assumes "distinct (map fst kvs)" "distinct (map fst kvs')" "map_of kvs = map_of kvs'" "kvs_fit kvs"
  shows "writeLogEntries b kvs = writeLogEntries b kvs' \<and>
    decode_all readLogEntry (writeLogEntries b kvs) = (None, block_entries b (write_order kvs)) \<and>
    sorted (map (\<lambda>k. (baolWritePriority k, k)) (map fst (write_order kvs))) \<and> set (write_order kvs) = set kvs"
proof -
  have "kvs_fit (write_order kvs)" using assms(1,4) set_write_order [of kvs] by (simp add: kvs_fit_def)
  with assms write_order_cong [OF assms(1-3)] set_write_order [OF assms(1)] show ?thesis
    by (simp only: writeLogEntries_enc_block decode_enc_block write_order_fst sorted_sort_key simp_thms)
qed

theorem block_bytes_order_independent_witness:
  "writeLogEntries 3 [([1], [2]), ([0], [5, 6])] = writeLogEntries 3 [([0], [5, 6]), ([1], [2])]"
  using block_bytes_order_independent [of "[([1], [2]), ([0], [5, 6])]" "[([0], [5, 6]), ([1], [2])]" 3]
  by (auto simp: kvs_fit_def fun_eq_iff)

text \<open>
  C25. Block number zero is lost from the index: after an append to block zero of a fresh log and
  one to block one, the index entry of block one has replaced that of block zero, and block
  zero reads as empty.
\<close>

theorem block_zero_lost:
  assumes "skiplist_laws sl" "no_write_faults env" "log_holds sl s (m, [])"
    and "kvs0 \<noteq> []" "kvs_ok 0 kvs0" "kvs1 \<noteq> []" "kvs_ok 1 kvs1" "int (length (writeLogEntries 0 kvs0)) < 2 ^ 63"
  shows "\<exists>s1 s2. Append env sl 0 kvs0 s = (None, s1) \<and> getBlockIndexEntry (idx s1) 0 \<noteq> None \<and>
    Append env sl 1 kvs1 s1 = (None, s2) \<and> getBlockIndexEntry (idx s2) 0 = None \<and> GetByBlock 0 s2 = (None, [])"
proof -
  obtain es where rel: "log_rel sl s m es [] []" using assms(3) by (auto simp: log_holds_def)
  note r = log_rel_fields [OF rel] and fit = kvs_ok_write_order(1)
  let ?n = "int (length (writeLogEntries 0 kvs0))"
  let ?e = "\<lparr>BlockID = 0, StartOffset = 0, EndOffset = ?n\<rparr>"
  obtain s1 w where s1: "Append env sl 0 kvs0 s = (None, s1)"
      "s1 = s\<lparr>win := w, dataFile := writeLogEntries 0 kvs0, currentOffset := ?n, idx := idx s1\<rparr>"
      "indexMapFile (idx s1) = encodeIndexEntry ?e" "indexMapOpen (idx s1)" "indexBuffer (idx s1) = []" "blockIndex (idx s1) = None"
      "minBlockID (idx s1) = 0" "latestBlockID (idx s1) = 0"
    using Append_zero [OF assms(1-4) fit [OF assms(5)] assms(8)] by blast
  have st: "\<not> closed s1" "dataErr s1 = None" "dataBuf s1 = []" "currentOffset s1 > 0"
    using r(1-3) kvs_nonempty_bytes [OF assms(4), of 0] by (subst s1(2), simp)+
  have "findBlockIndexEntryOnDisk (idx s1) 0 = Inr (Some ?e)"
    using s1(3,4,7) kvs_nonempty_bytes [OF assms(4), of 0] assms(8) decode_encodeIndexEntry [of ?e]
    by (simp add: findBlockIndexEntryOnDisk_def index_pos_same readAt_def indexEntrySize_def offset_fits_def Let_def)
  then have "getBlockIndexEntry (idx s1) 0 \<noteq> None"
    using s1(5,6) by (simp add: getBlockIndexEntry_def getBlockIndexEntryWithSource_def buffered_entry_def)
  moreover obtain s2 where s2: "Append env sl 1 kvs1 s1 = (None, s2)" "\<not> closed s2" "minBlockID (idx s2) = 1" "blockIndex (idx s2) = None"
      "indexBuffer (idx s2) = []"
    using Append_one_after_zero [OF assms(2) st s1(6,5,4,7,8) _ assms(6) fit [OF assms(7)]] s1(3) by auto
  moreover have "getBlockIndexEntry (idx s2) 0 = None"
    using s2 by (intro below_min_not_found [of _ 1]) simp_all
  ultimately show ?thesis using s1(1) by (auto simp: GetByBlock_def)
qed

theorem block_zero_lost_witness:
  "\<exists>s s1 s2. Append no_faults alist_skiplist 0 [(block_key headerPrefix 0 [7], [1])] s = (None, s1) \<and>
     Append no_faults alist_skiplist 1 [(block_key headerPrefix 1 [8], [2])] s1 = (None, s2) \<and> GetByBlock 0 s2 = (None, [])"
proof -
  obtain s where s: "log_holds alist_skiplist s (1, [])" using open_empty [OF alist_skiplist_laws, of 2] by blast
  have "int (length (writeLogEntries 0 [(block_key headerPrefix 0 [7], [1])])) < 2 ^ 63"
    using length_one_header_bytes [of "[7]" "[1]" 0 0] by simp
  from block_zero_lost [OF alist_skiplist_laws no_faults_ok(1) s _ kvs_ok_header _ kvs_ok_header this] show ?thesis by force
qed

end
