(* ===== verification/Simulation.thy ===== *)
theory Simulation
  imports Main
begin

text \<open>
  Runs of operations and their simulation. A component gives its operations as steps that
  return a result and a new state, its specification as steps on an abstract state, and a
  relation between the two that holds as long as a budget, the bytes or records that the
  operations may still use, is not exhausted. An operation may have a precondition on the
  abstract state. From the law on a single step the interface derives that whole runs return
  the results of the specification.
\<close>

primrec run :: "('o \<Rightarrow> 's \<Rightarrow> 'r \<times> 's) \<Rightarrow> 'o list \<Rightarrow> 's \<Rightarrow> 'r list \<times> 's" where
  "run step [] s = ([], s)"
| "run step (op # ops) s =
     (case step op s of (r, s') \<Rightarrow> (case run step ops s' of (rs, s'') \<Rightarrow> (r # rs, s'')))"

primrec run_ok :: "('o \<Rightarrow> 'a \<Rightarrow> 'r \<times> 'a) \<Rightarrow> ('o \<Rightarrow> 'a \<Rightarrow> bool) \<Rightarrow> 'o list \<Rightarrow> 'a \<Rightarrow> bool" where
  "run_ok spec ok [] a = True"
| "run_ok spec ok (op # ops) a = (ok op a \<and> run_ok spec ok ops (snd (spec op a)))"

lemma run_append:
  "run step (xs @ ys) s =
     (case run step xs s of (rs, s') \<Rightarrow> (case run step ys s' of (rs', s'') \<Rightarrow> (rs @ rs', s'')))"
  by (induction xs arbitrary: s) (simp_all split: prod.splits)

lemma snd_run_Cons: "snd (run step (op # ops) s) = snd (run step ops (snd (step op s)))"
  by (simp split: prod.split)

lemma run_ok_stateless: "run_ok spec (\<lambda>op a. ok op) ops a \<longleftrightarrow> (\<forall>op \<in> set ops. ok op)"
  by (induction ops arbitrary: a) auto

locale guarded_simulation =
  fixes step :: "'o \<Rightarrow> 's \<Rightarrow> 'r \<times> 's"
    and spec :: "'o \<Rightarrow> 'a \<Rightarrow> 'r \<times> 'a"
    and rel :: "nat \<Rightarrow> 's \<Rightarrow> 'a \<Rightarrow> bool"
    and guard :: "'o \<Rightarrow> 'a \<Rightarrow> bool"
    and cost :: "'o \<Rightarrow> nat"
  assumes guarded_step: "rel (cost op + n) s a \<Longrightarrow> guard op a \<Longrightarrow>
    \<exists>s'. step op s = (fst (spec op a), s') \<and> rel n s' (snd (spec op a))"
begin

lemma guarded_run:
  "rel (sum_list (map cost ops) + n) s a \<Longrightarrow> run_ok spec guard ops a \<Longrightarrow>
   \<exists>s'. run step ops s = (fst (run spec ops a), s') \<and> rel n s' (snd (run spec ops a))"
proof (induction ops arbitrary: s a)
  case (Cons op ops)
  then obtain s1 where s1: "step op s = (fst (spec op a), s1)" "rel (sum_list (map cost ops) + n) s1 (snd (spec op a))"
    using guarded_step [of op "sum_list (map cost ops) + n" s a] by (auto simp: ac_simps)
  with Cons.IH [OF s1(2)] Cons.prems(2) show ?case by (auto split: prod.splits)
qed simp

end

locale simulation =
  fixes step :: "'o \<Rightarrow> 's \<Rightarrow> 'r \<times> 's"
    and spec :: "'o \<Rightarrow> 'a \<Rightarrow> 'r \<times> 'a"
    and rel :: "nat \<Rightarrow> 's \<Rightarrow> 'a \<Rightarrow> bool"
    and ok :: "'o \<Rightarrow> bool"
    and cost :: "'o \<Rightarrow> nat"
  assumes step_sim: "rel (cost op + n) s a \<Longrightarrow> ok op \<Longrightarrow>
    \<exists>s'. step op s = (fst (spec op a), s') \<and> rel n s' (snd (spec op a))"

sublocale simulation \<subseteq> guarded_simulation step spec rel "\<lambda>op a. ok op" cost
  by unfold_locales (rule step_sim)

context simulation
begin

lemma run_sim:
  "rel (sum_list (map cost ops) + n) s a \<Longrightarrow> \<forall>op \<in> set ops. ok op \<Longrightarrow>
   \<exists>s'. run step ops s = (fst (run spec ops a), s') \<and> rel n s' (snd (run spec ops a))"
  by (rule guarded_run) (simp_all add: run_ok_stateless)

end

text \<open>
  Operations that a fault of their environment may stop: up to the first operation that meets a fault
  the run returns the results of the specification.
\<close>

locale faulty_simulation =
  fixes step :: "'o \<Rightarrow> 's \<Rightarrow> 'r \<times> 's"
    and spec :: "'o \<Rightarrow> 'a \<Rightarrow> 'r \<times> 'a"
    and rel :: "'s \<Rightarrow> 'a \<Rightarrow> bool"
    and ok :: "'o \<Rightarrow> bool"
    and fault :: "'o \<Rightarrow> 's \<Rightarrow> bool"
  assumes faulty_step: "rel s a \<Longrightarrow> ok op \<Longrightarrow> \<not> fault op s \<Longrightarrow>
    \<exists>s'. step op s = (fst (spec op a), s') \<and> rel s' (snd (spec op a))"
begin

lemma run_until_fault:
  "rel s a \<Longrightarrow> \<forall>op \<in> set ops. ok op \<Longrightarrow>
   \<exists>n s'. n \<le> length ops \<and> run step (take n ops) s = (fst (run spec (take n ops) a), s') \<and>
     rel s' (snd (run spec (take n ops) a)) \<and> (n < length ops \<longrightarrow> fault (ops ! n) s')"
proof (induction ops arbitrary: s a)
  case (Cons op ops)
  show ?case
  proof (cases "fault op s")
    case True
    then show ?thesis using Cons.prems(1) by (intro exI [of _ 0]) simp
  next
    case False
    then obtain s1 where s1: "step op s = (fst (spec op a), s1)" "rel s1 (snd (spec op a))"
      using faulty_step Cons.prems by force
    with Cons.IH [of s1 "snd (spec op a)"] Cons.prems(2) obtain n s' where
      n: "n \<le> length ops" "run step (take n ops) s1 = (fst (run spec (take n ops) (snd (spec op a))), s')"
        "rel s' (snd (run spec (take n ops) (snd (spec op a))))" "n < length ops \<longrightarrow> fault (ops ! n) s'"
      by auto
    then show ?thesis using s1 by (intro exI [of _ "Suc n"]) (auto split: prod.split)
  qed
qed simp

end

end
