(* ===== verification/Database_Blocks.thy ===== *)
theory Database_Blocks
  imports Theo_Database Block_Log_Theorems Simulation
begin

text \<open>
  The block data of the database: pending pairs of one block, then the blocks of the log. The
  batch pipeline (buffer pairs, commit them as a block, mark empty blocks) refines an abstract
  state that consists of the number of the pending block, its pairs and the list of blocks.
\<close>

section \<open>The log under the database\<close>

lemma FlushDataAndIndex_holds:
  assumes "no_write_faults env" "no_meta_faults env" "log_holds sl s a"
  shows "\<exists>s'. FlushDataAndIndex env s = (None, s') \<and> log_holds sl s' a \<and> dataFile s' = dataFile s"
proof -
  obtain m bs es where a: "a = (m, bs)" and rel: "log_rel sl s m es [] bs" and t: "tight s es" and d: "bs = [] \<Longrightarrow> dataFile s = []"
    using assms(3) by (cases a) (auto simp: log_holds_def)
  note r = log_rel_fields [OF rel]
  have w: "dataWriter_Flush env s = (None, s)" using dataWriter_Flush_ok [OF assms(1) r(3)] r(2) by simp
  obtain s1 where s1: "flush_index env s = (None, s1)" "log_rel sl s1 m es [] bs" "dataFile s1 = dataFile s"
    using flush_index_rel [OF rel assms(1)] by auto
  note sm = save_meta_rel [OF s1(2)]
  have "FlushDataAndIndex env s = (None, snd (save_meta env s1))"
    using r(1) w s1(1) sm(4) [OF assms(2)] by (simp add: FlushDataAndIndex_def)
  moreover have "tight (snd (save_meta env s1)) es"
    using t log_rel_fields(4) [OF s1(2)] s1(3) r(4) by (simp add: tight_def)
  ultimately show ?thesis
    using sm(1,3) s1(3) d a by (auto intro!: log_holdsI)
qed

lemma Append_refused_data:
  assumes "log_holds sl s a" "fst (a_append b kvs a) = Some e" "Append env sl b kvs s = (Some e, s')"
  shows "dataFile s' = dataFile s" "snd (a_append b kvs a) = a"
proof -
  obtain m bs es where a: "a = (m, bs)" and rel: "log_rel sl s m es [] bs"
    using assms(1) by (cases a) (auto simp: log_holds_def)
  have b: "bs \<noteq> []" "b < m" using assms(2) a by (auto simp: a_append_def Let_def split: if_splits)
  then show "snd (a_append b kvs a) = a" using a by (simp add: a_append_def)
  note l = log_rel_latest [OF rel b(1)]
  have "b < latestBlockID (idx s)" using b(2) l(3) by (simp add: word_less_nat_alt)
  with assms(3) log_rel_fields(1) [OF rel] show "dataFile s' = dataFile s"
    by (auto simp: Append_def Let_def not_less[symmetric] split: if_splits)
qed

definition kv_bytes :: "(bytes \<times> bytes) list \<Rightarrow> nat" where
  "kv_bytes kvs = sum_list (map (\<lambda>(k, v). 16 + length k + length v) kvs)"

lemma length_enc_block: "length (enc_block b kvs) = kv_bytes kvs"
  by (induction kvs) (auto simp: enc_block_Cons kv_bytes_def)

lemma kv_bytes_update: "kv_bytes (AList.update k v kvs) \<le> kv_bytes kvs + (16 + length k + length v)"
  by (induction kvs) (auto simp: kv_bytes_def)

lemma length_writeLogEntries_kv:
  assumes "distinct (map fst kvs)"
  shows "length (writeLogEntries b kvs) = kv_bytes kvs"
proof -
  have "mset (write_order kvs) = mset kvs"
    using assms distinct_write_order [of kvs] set_write_order [of kvs]
    by (intro set_eq_iff_mset_eq_distinct [THEN iffD1]) (simp_all add: distinct_map)
  then have "mset (map (\<lambda>(k, v). 16 + length k + length v) (write_order kvs)) = mset (map (\<lambda>(k, v). 16 + length k + length v) kvs)"
    by (simp add: mset_map)
  then show ?thesis unfolding writeLogEntries_enc_block length_enc_block kv_bytes_def by (metis sum_mset_sum_list)
qed

lemma kvs_ok_update:
  assumes "kvs_ok b kvs" "key_block k = Some b" "length k < 2 ^ 32" "length v < 2 ^ 32"
  shows "kvs_ok b (AList.update k v kvs)"
proof -
  have "set (AList.update k v kvs) \<subseteq> insert (k, v) (set kvs)" by (induction kvs) auto
  then show ?thesis using assms distinct_update [of kvs k v]
    by (auto simp: kvs_ok_def kvs_fit_def keys_in_def)
qed

section \<open>The abstract state\<close>

datatype block_op = BlockPut bytes bytes | BlockCommit | BlockMark u64

primrec db_step ::
  "('s, 'd, 'b, 'p) theo_env \<Rightarrow> block_op \<Rightarrow> ('s, 'd, 'p) Database \<Rightarrow> theo_error option \<times> ('s, 'd, 'p) Database" where
  "db_step te (BlockPut k v) db = BatchPut te k v (GetDataTypeFromKey k) db"
| "db_step te BlockCommit db = CommitAOLBatch te db"
| "db_step te (BlockMark b) db = db_MarkBlockCommitted te b db"

type_synonym block_state = "u64 \<times> (bytes \<times> bytes) list \<times> blocks"

fun ab_step :: "block_op \<Rightarrow> block_state \<Rightarrow> theo_error option \<times> block_state" where
  "ab_step (BlockPut k v) (cur, P, a) =
     (case key_block k of
        None \<Rightarrow> (None, (cur, P, a))
      | Some b \<Rightarrow>
          if cur \<noteq> 0 \<and> b \<noteq> cur then (Some (TSpansBlocks cur b), (cur, P, a))
          else (None, (b, AList.update k v P, a)))"
| "ab_step BlockCommit (cur, P, a) =
     (if P = [] then (None, (cur, P, a))
      else case a_append cur P a of
          (Some e, a') \<Rightarrow> (Some (log_err e), (cur, P, a'))
        | (None, a') \<Rightarrow> (None, (0, [], a')))"
| "ab_step (BlockMark b) (cur, P, a) = (None, (cur, P, a_mark b a))"

primrec block_op_ok :: "block_op \<Rightarrow> bool" where
  "block_op_ok (BlockPut k v) \<longleftrightarrow>
     (\<exists>b. key_block k = Some b \<and> b \<noteq> 0 \<and> unat b < 2 ^ 58) \<and> length k < 2 ^ 32 \<and> length v < 2 ^ 32"
| "block_op_ok BlockCommit \<longleftrightarrow> True"
| "block_op_ok (BlockMark b) \<longleftrightarrow> unat b < 2 ^ 58"

primrec block_op_bytes :: "block_op \<Rightarrow> nat" where
  "block_op_bytes (BlockPut k v) = 16 + length k + length v"
| "block_op_bytes BlockCommit = 0"
| "block_op_bytes (BlockMark b) = 0"

definition db_rel :: "('s, 'd, 'b, 'p) theo_env \<Rightarrow> nat \<Rightarrow> ('s, 'd, 'p) Database \<Rightarrow> block_state \<Rightarrow> bool" where
  "db_rel te n db st \<longleftrightarrow>
     (case st of (cur, P, a) \<Rightarrow>
        \<not> db_closed db \<and> pending db = P \<and> db_baolLatestBlock db = cur \<and> (P = [] \<longleftrightarrow> cur = 0) \<and>
        kvs_ok cur P \<and> unat cur < 2 ^ 58 \<and>
        (\<exists>s. db_blockAol db = Some s \<and> log_holds (te_sl te) s a \<and>
             int (length (dataFile s) + kv_bytes P + n) < 2 ^ 63))"

definition te_ok :: "('s, 'd, 'b, 'p) theo_env \<Rightarrow> bool" where
  "te_ok te \<longleftrightarrow> skiplist_laws (te_sl te) \<and> no_write_faults (te_io te) \<and> no_meta_faults (te_io te)"

lemma key_block_class:
  "key_block k = Some b \<Longrightarrow> AolHandledDataTypes (GetDataTypeFromKey k) \<and> \<not> PrefixDBHandledDataTypes (GetDataTypeFromKey k) \<and>
     block_of_kv k v (GetDataTypeFromKey k) = Some b"
  by (auto simp: key_block_def ParseBlockNumberFromKey_def AolHandledDataTypes_def PrefixDBHandledDataTypes_def block_of_kv_def
      split: if_splits)

lemma db_relI:
  "\<not> db_closed db \<Longrightarrow> pending db = P \<Longrightarrow> db_baolLatestBlock db = cur \<Longrightarrow> (P = [] \<longleftrightarrow> cur = 0) \<Longrightarrow> kvs_ok cur P \<Longrightarrow>
   unat cur < 2 ^ 58 \<Longrightarrow> db_blockAol db = Some s \<Longrightarrow> log_holds (te_sl te) s a \<Longrightarrow>
   int (length (dataFile s) + kv_bytes P + n) < 2 ^ 63 \<Longrightarrow> db_rel te n db (cur, P, a)"
  by (auto simp: db_rel_def)

lemma kvs_ok_Nil [simp]: "kvs_ok b []"
  by (simp add: kvs_ok_def kvs_fit_def keys_in_def)

lemma kv_bytes_Nil [simp]: "kv_bytes [] = 0"
  by (simp add: kv_bytes_def)

lemma block_put_sim:
  assumes "db_rel te (block_op_bytes (BlockPut k v) + n) db (cur, P, a)" "block_op_ok (BlockPut k v)"
  shows "\<exists>db'. BatchPut te k v (GetDataTypeFromKey k) db = (fst (ab_step (BlockPut k v) (cur, P, a)), db') \<and>
    db_rel te n db' (snd (ab_step (BlockPut k v) (cur, P, a)))"
proof -
  obtain b where b: "key_block k = Some b" "b \<noteq> 0" "unat b < 2 ^ 58" and len: "length k < 2 ^ 32" "length v < 2 ^ 32"
    using assms(2) by auto
  obtain s where d: "\<not> db_closed db" "pending db = P" "db_baolLatestBlock db = cur" "P = [] \<longleftrightarrow> cur = 0" "kvs_ok cur P" "unat cur < 2 ^ 58"
      "db_blockAol db = Some s" "log_holds (te_sl te) s a"
      "int (length (dataFile s) + kv_bytes P + (16 + length k + length v + n)) < 2 ^ 63"
    using assms(1) by (auto simp: db_rel_def)
  note cl = key_block_class [OF b(1), of v]
  have bp: "BatchPut te k v (GetDataTypeFromKey k) db = BatchPutToAOL k v (GetDataTypeFromKey k) db" using cl by (simp add: BatchPut_def)
  show ?thesis
  proof (cases "cur \<noteq> 0 \<and> b \<noteq> cur")
    case True
    then show ?thesis
      using d cl b(1) by (auto simp: bp BatchPutToAOL_def pending_def Let_def intro!: db_relI)
  next
    case False
    have ok: "kvs_ok b (AList.update k v P)"
      using kvs_ok_update [of b P k v] d(4,5) False b(1) len by (cases "cur = 0") auto
    have "P \<noteq> [] \<Longrightarrow> AList.update k v P \<noteq> []" by (cases P) auto
    then have ne: "AList.update k v P \<noteq> []" by (cases P) auto
    have "int (length (dataFile s) + kv_bytes (AList.update k v P) + n) < 2 ^ 63" using d(9) kv_bytes_update [of k v P] by linarith
    with False ok ne d cl b show ?thesis
      by (auto simp: bp BatchPutToAOL_def pending_def Let_def intro!: db_relI)
  qed
qed

lemma block_commit_sim:
  assumes te: "te_ok te" and rel: "db_rel te n db (cur, P, a)"
  shows "\<exists>db'. CommitAOLBatch te db = (fst (ab_step BlockCommit (cur, P, a)), db') \<and> db_rel te n db' (snd (ab_step BlockCommit (cur, P, a)))"
proof (cases "P = []")
  case True
  then show ?thesis using rel by (auto simp: db_rel_def CommitAOLBatch_def)
next
  case False
  obtain s where d: "\<not> db_closed db" "pending db = P" "db_baolLatestBlock db = cur" "cur \<noteq> 0" "kvs_ok cur P" "unat cur < 2 ^ 58"
      "db_blockAol db = Some s" "log_holds (te_sl te) s a" "int (length (dataFile s) + kv_bytes P + n) < 2 ^ 63"
    using rel False by (auto simp: db_rel_def)
  have t: "skiplist_laws (te_sl te)" "no_write_faults (te_io te)" "no_meta_faults (te_io te)" using te by (simp_all add: te_ok_def)
  have kb: "length (writeLogEntries cur P) = kv_bytes P" using d(5) by (intro length_writeLogEntries_kv) (simp add: kvs_ok_def)
  obtain s1 where s1: "Append (te_io te) (te_sl te) cur P s = (fst (a_append cur P a), s1)" "log_holds (te_sl te) s1 (snd (a_append cur P a))"
      "length (dataFile s1) \<le> length (dataFile s) + kv_bytes P"
    using Append_holds [OF t d(8,4,6,5)] d(9) kb by auto
  show ?thesis
  proof (cases "fst (a_append cur P a)")
    case None
    then obtain a' where a': "a_append cur P a = (None, a')" by (cases "a_append cur P a") auto
    obtain s2 where s2: "FlushDataAndIndex (te_io te) s1 = (None, s2)" "log_holds (te_sl te) s2 a'" "dataFile s2 = dataFile s1"
      using FlushDataAndIndex_holds [OF t(2,3) s1(2)] a' by auto
    have "db_rel te n (db\<lparr>db_blockAol := Some s2, db_baolkvs := Some [], db_baolLatestBlock := 0\<rparr>) (0, [], a')"
      using d(1) s2 s1(3) d(9) by (intro db_relI [of _ _ _ s2]) (simp_all add: pending_def)
    with False d s1(1) s2(1) a' show ?thesis by (simp add: CommitAOLBatch_def)
  next
    case (Some e)
    note rf = Append_refused_data [OF d(8) Some, of "te_io te" s1]
    have r: "dataFile s1 = dataFile s" "a_append cur P a = (Some e, a)" "log_holds (te_sl te) s1 a"
      using rf s1(1,2) Some by (cases "a_append cur P a"; simp)+
    have "db_rel te n (db\<lparr>db_blockAol := Some s1\<rparr>) (cur, P, a)"
      using d False r by (intro db_relI [of _ _ _ s1]) (simp_all add: pending_def)
    with False d s1(1) r(2) show ?thesis by (simp add: CommitAOLBatch_def)
  qed
qed

lemma block_mark_sim:
  assumes te: "te_ok te" and rel: "db_rel te n db (cur, P, a)" and b: "unat b < 2 ^ 58"
  shows "\<exists>db'. db_MarkBlockCommitted te b db = (None, db') \<and> db_rel te n db' (cur, P, a_mark b a)"
proof (cases "b = 0")
  case True
  then have "a_mark b a = a" by (simp add: a_mark_def split: prod.split)
  with True rel show ?thesis by (auto simp: db_MarkBlockCommitted_def db_rel_def)
next
  case False
  obtain s where d: "\<not> db_closed db" "pending db = P" "db_baolLatestBlock db = cur" "P = [] \<longleftrightarrow> cur = 0" "kvs_ok cur P" "unat cur < 2 ^ 58"
      "db_blockAol db = Some s" "log_holds (te_sl te) s a" "int (length (dataFile s) + kv_bytes P + n) < 2 ^ 63"
    using rel by (auto simp: db_rel_def)
  obtain s1 where "MarkBlockCommitted (te_io te) (te_sl te) b s = (None, s1)" "log_holds (te_sl te) s1 (a_mark b a)" "dataFile s1 = dataFile s"
    using MarkBlockCommitted_holds [OF _ _ _ d(8) b] te by (auto simp: te_ok_def)
  with False d show ?thesis by (auto simp: db_MarkBlockCommitted_def pending_def intro!: db_relI)
qed

interpretation db_blocks: simulation "db_step te" ab_step "\<lambda>n db st. te_ok te \<and> db_rel te n db st" block_op_ok block_op_bytes
  for te :: "('s, 'd, 'b, 'p) theo_env"
proof unfold_locales
  fix op n and db :: "('s, 'd, 'p) Database" and st
  assume rel: "te_ok te \<and> db_rel te (block_op_bytes op + n) db st" and ok: "block_op_ok op"
  obtain cur P a where st: "st = (cur, P, a)" by (cases st) auto
  show "\<exists>db'. db_step te op db = (fst (ab_step op st), db') \<and> te_ok te \<and> db_rel te n db' (snd (ab_step op st))"
  proof (cases op)
    case (BlockPut k v)
    with block_put_sim [of te k v n db cur P a] rel ok st show ?thesis by auto
  next
    case BlockCommit
    with block_commit_sim [of te n db cur P a] rel st show ?thesis by auto
  next
    case (BlockMark b)
    with block_mark_sim [of te n db cur P a b] rel ok st show ?thesis by auto
  qed
qed

section \<open>Reading\<close>

definition blocks_get :: "bytes \<Rightarrow> blocks \<Rightarrow> theo_error + bytes" where
  "blocks_get key a =
     (case key_block key of
        None \<Rightarrow> Inl TNotFound
      | Some b \<Rightarrow>
          if b > a_latest a then Inl TNotFound
          else case map_of (block_of (fst a) (snd a) b) key of
              None \<Rightarrow> Inl TNotFound
            | Some v \<Rightarrow> if v = TombstoneMarker then Inr [] else if v = aolDeleteTombstone then Inl TNotFound else Inr v)"

fun ab_read :: "bytes \<Rightarrow> block_state \<Rightarrow> theo_error + bytes" where
  "ab_read key (cur, P, a) = (case map_of P key of Some v \<Rightarrow> Inr v | None \<Rightarrow> blocks_get key a)"

definition recent_key :: "bytes \<Rightarrow> blocks \<Rightarrow> bool" where
  "recent_key key a \<longleftrightarrow>
     (case key_block key of None \<Rightarrow> True | Some b \<Rightarrow> b > a_latest a \<or> a_latest a - b \<le> IgnoredThreshold)"

lemma aolDeleteTombstone_nonempty: "aolDeleteTombstone \<noteq> []"
  by (simp add: aolDeleteTombstone_def bytes_of_string_def)

lemma GetFromAOL_holds:
  assumes "db_rel te n db (cur, P, a)" "distinct_keys (snd a)" "recent_key key a"
  shows "GetFromAOL te key db = ab_read key (cur, P, a)"
proof -
  obtain s where d: "\<not> db_closed db" "pending db = P" "db_blockAol db = Some s" "log_holds (te_sl te) s a"
    using assms(1) by (auto simp: db_rel_def)
  obtain m bs es where a: "a = (m, bs)" and rel: "log_rel (te_sl te) s m es [] bs"
    using d(4) by (cases a) (auto simp: log_holds_def)
  have g: "Block_Log.Get (te_sl te) key s = a_get key (window_index (te_sl te) (win s) key \<noteq> None) a"
    using Get_holds [OF rel] assms(2) a by simp
  show ?thesis
    using assms(3) d(1-3) aolDeleteTombstone_nonempty
    by (auto simp: GetFromAOL_def g a_get_def blocks_get_def recent_key_def found_def isNotFoundError_def log_err_def
        split: option.splits if_splits)
qed

lemma db_rel_latest: "db_rel te n db (cur, P, a) \<Longrightarrow> db_LatestBlockID db = a_latest a"
  by (cases a) (auto simp: db_rel_def log_holds_def db_LatestBlockID_def LatestBlockID_def dest: log_rel_a_latest)

lemma open_db_rel:
  assumes "te_ok te" "int n < 2 ^ 63"
  shows "\<exists>db. NewAOLOnly te empty_disk dir r = Inr db \<and> db_rel te n db (0, [], (1, []))"
proof -
  obtain s where "NewBlockAppendOnlyLog (te_sl te) empty_disk r = Inr s" "log_holds (te_sl te) s (1, [])" "dataFile s = []"
    using open_empty [of "te_sl te"] assms(1) by (auto simp: te_ok_def)
  with assms(2) show ?thesis
    by (auto simp: NewAOLOnly_def new_database_def pending_def intro!: db_relI)
qed

end
