(* ===== verification/Database_Keys.thy ===== *)
theory Database_Keys
  imports Theo_Database Simulation
begin

text \<open>
  The account keys of the database and its Pebble data: lookups of a parent account key go
  through the account-hash cache to the Pebble store, insertions go to both. The cache stays
  coherent with the store until Pebble refuses a write, so up to then a run of insertions and
  lookups behaves as a map. Range deletions remove exactly the keys of the range.
\<close>

section \<open>The cache without panics\<close>

lemma stored_length:
  assumes inv: "cache_inv c is" and v: "account_cache_content c h = Some v"
  shows "0 < length v" "length v \<le> 64"
proof -
  obtain i where i: "ac_index c h = Some i" "v = stored_key (ent c i)" using v by (auto simp: account_cache_content_def)
  then have mem: "i \<in> set is" using cache_inv_index [OF inv] by simp
  have "length (ce_key (ent c i)) = 64" "slot_ok c i"
    using inv cache_inv_in_range [OF inv mem] mem by (simp_all add: cache_inv_def)
  moreover from this have "0 < unat (ce_keyLen (ent c i))" by (simp add: slot_ok_def word_less_nat_alt)
  ultimately show "0 < length v" "length v \<le> 64" using i(2) by (simp_all add: stored_key_def slot_ok_def)
qed

lemma cache_Get_total:
  assumes "account_cache_inv c" "length h = 32"
  shows "\<exists>n tmp c'. Account_Cache.Get c h (replicate 64 0) = Some (n, account_cache_content c h \<noteq> None, tmp, c') \<and>
    account_cache_get c h = (account_cache_content c h, c') \<and>
    (\<forall>v. account_cache_content c h = Some v \<longrightarrow> take (unat n) tmp = v \<and> unat n \<noteq> 0)"
proof -
  obtain "is" where inv: "cache_inv c is" using assms(1) by (auto simp: account_cache_inv_def)
  note g = Get_refines [OF inv assms(2), of "replicate 64 0"] and content = account_content_abs [OF inv, of h]
  show ?thesis
  proof (cases "account_cache_content c h")
    case None
    with g content show ?thesis by (auto simp: account_cache_get_def)
  next
    case (Some v)
    note len = stored_length [OF inv Some]
    have n: "unat (word_of_nat (length v) :: 8 word) = length v" using len(2) by (simp add: unat_of_nat)
    obtain c' where c': "Account_Cache.Get c h (replicate 64 0) = Some (word_of_nat (length v), True, v @ drop (length v) (replicate 64 0), c')"
      using g content [symmetric] Some by auto
    then have "account_cache_get c h = (Some v, c')" using n by (simp add: account_cache_get_def)
    with c' Some n len show ?thesis by auto
  qed
qed

lemma cache_Put_total:
  assumes "account_cache_inv c"
  shows "Account_Cache.Put c h k = Some (account_cache_put c h k)"
proof (cases "account_cacheable h k")
  case True
  obtain "is" where inv: "cache_inv c is" using assms by (auto simp: account_cache_inv_def)
  from Put_refines [OF inv, of h k] True obtain c' where "Account_Cache.Put c h k = Some c'" by (auto simp: account_cacheable_def)
  then show ?thesis by (simp add: account_cache_put_def)
qed (auto simp: account_cacheable_def Account_Cache.Put_def account_cache_put_def)

lemma account_cache_put_found:
  assumes "account_cache_inv c" "account_cacheable h k"
  shows "account_cache_inv (account_cache_put c h k)" "account_cache_content (account_cache_put c h k) h = Some k"
proof -
  obtain "is" where inv: "cache_inv c is" using assms(1) by (auto simp: account_cache_inv_def)
  obtain c' js where put: "Account_Cache.Put c h k = Some c'" "cache_inv c' js"
      "cache_abs c' js = lru_put (nat (ac_cap c)) h k (cache_abs c is)"
    using Put_refines [OF inv, of h k] assms(2) by (auto simp: account_cacheable_def)
  then show "account_cache_inv (account_cache_put c h k)" by (auto simp: account_cache_put_def account_cache_inv_def)
  show "account_cache_content (account_cache_put c h k) h = Some k"
    using put account_content_abs [OF put(2), of h] by (simp add: account_cache_put_def lru_put_def)
qed

section \<open>Account keys\<close>

text \<open>The cache and the store hold the same bindings, as far as the cache holds them.\<close>

definition keys_rel ::
  "('s, 'd, 'b, 'p) theo_env \<Rightarrow> ('d \<Rightarrow> kv_view) \<Rightarrow> ('s, 'd, 'p) Database \<Rightarrow> kv_view \<Rightarrow> bool" where
  "keys_rel te view db m \<longleftrightarrow>
     pebble_laws (te_pb te) view \<and>
     (\<exists>c p. db_accountHashKeyCache db = Some c \<and> db_pebble db = Some p \<and> ps_open p \<and> view (ps_db p) = m \<and>
       account_cache_inv c \<and> account_cache_content c \<subseteq>\<^sub>m m)"

lemma keys_relI:
  "pebble_laws (te_pb te) view \<Longrightarrow> db_accountHashKeyCache db = Some c \<Longrightarrow> db_pebble db = Some p \<Longrightarrow> ps_open p \<Longrightarrow> view (ps_db p) = m \<Longrightarrow>
   account_cache.coherent c m \<Longrightarrow> keys_rel te view db m"
  by (auto simp: keys_rel_def account_cache.coherent_def)

lemma GetParentAccountKey_keys:
  assumes rel: "keys_rel te view db m" and h: "length h = 32"
  shows "\<exists>db'. GetParentAccountKey te h db = (Inr (m h), db') \<and> keys_rel te view db' m"
proof -
  obtain c p where d: "db_accountHashKeyCache db = Some c" "db_pebble db = Some p" "ps_open p" "view (ps_db p) = m"
      and co: "account_cache.coherent c m" and inv: "account_cache_inv c"
      and laws: "pebble_laws (te_pb te) view"
    using rel by (auto simp: keys_rel_def account_cache.coherent_def)
  obtain n tmp c' where g: "Account_Cache.Get c h (replicate 64 0) = Some (n, account_cache_content c h \<noteq> None, tmp, c')"
      "account_cache_get c h = (account_cache_content c h, c')"
      "\<forall>v. account_cache_content c h = Some v \<longrightarrow> take (unat n) tmp = v \<and> unat n \<noteq> 0"
    using cache_Get_total [OF inv h] by blast
  have rt: "fst (account_cache.read_through c m h) = m h" "account_cache.coherent (snd (account_cache.read_through c m h)) m"
    using account_cache.read_through_correct [OF co, of h] by blast+
  have c': "account_cache_inv c'" using account_cache.coherent_get [OF co, of h] g(2) by (simp add: account_cache.coherent_def)
  show ?thesis
  proof (cases "account_cache_content c h")
    case (Some v)
    have "m h = Some v" using rt(1) g(2) Some by (simp add: account_cache.read_through_def)
    moreover have "account_cache.coherent c' m" using rt(2) g(2) Some by (simp add: account_cache.read_through_def)
    ultimately show ?thesis
      using Some g(1,3) d h laws by (auto simp: GetParentAccountKey_def keep_key_def Let_def intro!: keys_relI)
  next
    case None
    let ?db = "db\<lparr>db_accountHashKeyCache := Some c'\<rparr>"
    have r: "GetParentAccountKey te h db = resolve_in_pebble te h ?db" using None g(1) d h by (simp add: GetParentAccountKey_def)
    have pg: "ps_Get (te_pb te) h p = (case m h of None \<Rightarrow> Inl ErrNotFound | Some v \<Rightarrow> Inr v)"
      using ps_Get_view [OF laws d(3)] d(4) by simp
    from rt(2) None g(2) have "account_cache.coherent (case m h of None \<Rightarrow> c' | Some v \<Rightarrow> account_cache_put c' h v) m"
      by (simp add: account_cache.read_through_def split: option.splits)
    with r pg cache_Put_total [OF c'] d laws show ?thesis
      by (auto simp: resolve_in_pebble_def split: option.splits intro!: keys_relI)
  qed
qed

datatype key_op = KeyInsert bytes bytes | KeyLookup bytes

text \<open>Pebble refuses the write of an insertion.\<close>

primrec set_fails :: "('s, 'd, 'b, 'p) theo_env \<Rightarrow> key_op \<Rightarrow> ('s, 'd, 'p) Database \<Rightarrow> bool" where
  "set_fails te (KeyInsert h k) db \<longleftrightarrow> (\<exists>p e d. db_pebble db = Some p \<and> p_Set (te_pb te) (ps_db p) h k = (Some e, d))"
| "set_fails te (KeyLookup h) db \<longleftrightarrow> False"

lemma InsertAccountHashPebble_keys:
  assumes rel: "keys_rel te view db m" and ok: "account_cacheable h k" and set: "\<not> set_fails te (KeyInsert h k) db"
  shows "\<exists>db'. InsertAccountHashPebble te k h db = (None, db') \<and> keys_rel te view db' (m(h \<mapsto> k))"
proof -
  obtain c p where d: "db_accountHashKeyCache db = Some c" "db_pebble db = Some p" "ps_open p" "view (ps_db p) = m"
      and co: "account_cache.coherent c m" and inv: "account_cache_inv c"
      and laws: "pebble_laws (te_pb te) view"
    using rel by (auto simp: keys_rel_def account_cache.coherent_def)
  obtain d' where s: "p_Set (te_pb te) (ps_db p) h k = (None, d')"
    using set d(2) by (cases "p_Set (te_pb te) (ps_db p) h k") auto
  have v: "view d' = m(h \<mapsto> k)" using pebble_law_db(2) [OF laws s] d(4) by (simp add: apply_op_def)
  have "account_cache.coherent (account_cache_put c h k) (m(h \<mapsto> k))" by (rule account_cache.write_through_coherent [OF co ok])
  with s v d cache_Put_total [OF inv] laws show ?thesis
    by (auto simp: InsertAccountHashPebble_def ps_Put_def Let_def intro!: keys_relI)
qed

primrec key_step ::
  "('s, 'd, 'b, 'p) theo_env \<Rightarrow> key_op \<Rightarrow> ('s, 'd, 'p) Database \<Rightarrow> (theo_error + bytes option) \<times> ('s, 'd, 'p) Database" where
  "key_step te (KeyInsert h k) db =
     (case InsertAccountHashPebble te k h db of (None, db') \<Rightarrow> (Inr None, db') | (Some e, db') \<Rightarrow> (Inl e, db'))"
| "key_step te (KeyLookup h) db = GetParentAccountKey te h db"

primrec key_spec :: "key_op \<Rightarrow> kv_view \<Rightarrow> (theo_error + bytes option) \<times> kv_view" where
  "key_spec (KeyInsert h k) m = (Inr None, m(h \<mapsto> k))"
| "key_spec (KeyLookup h) m = (Inr (m h), m)"

primrec key_op_ok :: "key_op \<Rightarrow> bool" where
  "key_op_ok (KeyInsert h k) \<longleftrightarrow> length h = 32 \<and> 0 < length k \<and> length k \<le> 64"
| "key_op_ok (KeyLookup h) \<longleftrightarrow> length h = 32"

interpretation db_keys: faulty_simulation "key_step te" key_spec "keys_rel te view" key_op_ok "set_fails te"
  for te :: "('s, 'd, 'b, 'p) theo_env" and view
proof unfold_locales
  fix op and db :: "('s, 'd, 'p) Database" and m
  assume rel: "keys_rel te view db m" and ok: "key_op_ok op" and set: "\<not> set_fails te op db"
  show "\<exists>db'. key_step te op db = (fst (key_spec op m), db') \<and> keys_rel te view db' (snd (key_spec op m))"
  proof (cases op)
    case (KeyInsert h k)
    with InsertAccountHashPebble_keys [OF rel, of h k] ok set show ?thesis by (auto simp: account_cacheable_def)
  next
    case (KeyLookup h)
    with GetParentAccountKey_keys [OF rel, of h] ok show ?thesis by auto
  qed
qed

text \<open>An insertion that Pebble refuses reports its error, but the key is in the cache by then.\<close>

lemma refused_insertion:
  assumes rel: "keys_rel te view db m" and set: "p_Set (te_pb te) (ps_db p) h k = (Some e, d)" "db_pebble db = Some p"
  shows "\<exists>c. InsertAccountHashPebble te k h db =
    (Some (store_err e), db\<lparr>db_accountHashKeyCache := Some (account_cache_put c h k), db_pebble := Some (p\<lparr>ps_db := d\<rparr>)\<rparr>) \<and>
    db_accountHashKeyCache db = Some c \<and> account_cache_inv c"
proof -
  obtain c where c: "db_accountHashKeyCache db = Some c" "account_cache_inv c" "ps_open p"
    using rel set(2) by (auto simp: keys_rel_def)
  then show ?thesis using set cache_Put_total [OF c(2)] by (auto simp: InsertAccountHashPebble_def ps_Put_def Let_def)
qed

section \<open>Range deletions\<close>

definition in_key_range :: "bytes option \<Rightarrow> bytes option \<Rightarrow> bytes \<Rightarrow> bool" where
  "in_key_range st en k \<longleftrightarrow>
     (case st of None \<Rightarrow> True | Some s \<Rightarrow> s \<le> k) \<and> (case en of None \<Rightarrow> True | Some e \<Rightarrow> k < e)"

lemma not_in_key_range:
  "(case st of None \<Rightarrow> False | Some s \<Rightarrow> k < s) \<or> (case en of None \<Rightarrow> False | Some e \<Rightarrow> k \<ge> e) \<longleftrightarrow> \<not> in_key_range st en k"
  by (auto simp: in_key_range_def split: option.splits)

lemma delete_range_loop_reader:
  assumes laws: "pebble_laws (te_pb te) view"
  shows "pi_iter it \<Longrightarrow> pi_initErr it = None \<Longrightarrow> pi_prefix it = None \<Longrightarrow>
    delete_range_loop te st en it b = (None, it', b') \<Longrightarrow>
    pb_Reader (te_pb te) (bt_b b') = pb_Reader (te_pb te) (bt_b b) @ map BDelete (filter (in_key_range st en) (map fst (pi_rest it))) \<and>
    pi_initErr it' = None"
proof (induction "length (pi_rest it)" arbitrary: it b)
  case 0
  then show ?case by (subst (asm) delete_range_loop.simps) (auto simp: pi_Next_def Let_def)
next
  case (Suc n)
  then obtain k v rest where r: "pi_rest it = (k, v) # rest" by (cases "pi_rest it") auto
  define it1 where "it1 = it\<lparr>pi_moved := True, pi_at := Some (k, v), pi_rest := rest\<rparr>"
  have nx: "pi_Next it = (True, it1)" "pi_Key it1 = Some k" using r Suc.prems by (simp_all add: pi_Next_def it1_def pi_Key_def Let_def)
  have it1: "pi_iter it1" "pi_initErr it1 = None" "pi_prefix it1 = None" "pi_rest it1 = rest" "n = length rest"
    using Suc.prems Suc.hyps(2) r by (simp_all add: it1_def)
  show ?case
  proof (cases "in_key_range st en k")
    case True
    then obtain b1 where b1: "bt_Delete (te_pb te) k b = (None, b1)" "delete_range_loop te st en it1 b1 = (None, it', b')"
      using Suc.prems(4) nx by (subst (asm) delete_range_loop.simps) (auto simp: not_in_key_range split: prod.splits option.splits)
    have "pb_Reader (te_pb te) (bt_b b1) = pb_Reader (te_pb te) (bt_b b) @ [BDelete k]"
      using b1(1) pebble_law_reader(2) [OF laws] by (auto simp: bt_Delete_def split: prod.splits option.splits)
    with Suc.hyps(1) [of it1 b1] b1(2) it1 True r show ?thesis by simp
  next
    case False
    then have "delete_range_loop te st en it1 b = (None, it', b')"
      using Suc.prems(4) nx by (subst (asm) delete_range_loop.simps) (auto simp: not_in_key_range)
    with Suc.hyps(1) [of it1 b] it1 False r show ?thesis by simp
  qed
qed

lemma fold_deletes: "fold apply_op (map BDelete ks) m k = (if k \<in> set ks then None else m k)"
  by (induction ks arbitrary: m) (auto simp: apply_op_def)

lemma DeleteRange_view:
  assumes laws: "pebble_laws (te_pb te) view" and p: "db_pebble db = Some p" "\<not> db_closed db"
    and run: "db_DeleteRange te st en db = (None, db')"
  shows "\<exists>p'. db' = db\<lparr>db_pebble := Some p'\<rparr> \<and> ps_open p' = ps_open p \<and>
    view (ps_db p') = (\<lambda>k. if in_key_range st en k then None else view (ps_db p) k)"
proof (cases "case (st, en) of (Some s, Some e) \<Rightarrow> s \<ge> e | _ \<Rightarrow> False")
  case True
  then have "db' = db" using run p by (auto simp: db_DeleteRange_def)
  moreover have "\<not> in_key_range st en k" for k using True by (auto simp: in_key_range_def split: option.splits)
  ultimately show ?thesis using p by (intro exI [of _ p]) simp
next
  case False
  let ?it = "ps_NewIterator (te_pb te) None [] p" and ?b = "ps_NewBatch (te_pb te)"
  obtain it b where l: "delete_range_loop te st en ?it ?b = (None, it, b)" "pi_Error it = None"
    using run p False by (auto simp: db_DeleteRange_def split: prod.splits option.splits)
  obtain p' where w: "bt_Write (te_pb te) b p = (None, p')" "db' = db\<lparr>db_pebble := Some p'\<rparr>"
    using run p False l by (auto simp: db_DeleteRange_def split: prod.splits option.splits)
  show ?thesis
  proof (cases "p_NewIter (te_pb te) (ps_db p) None")
    case (Inl e)
    then have "pi_initErr ?it = Some e" "pi_Next ?it = (False, ?it)" by (simp_all add: ps_NewIterator_def iter_lowerBound_def pi_Next_def)
    with l show ?thesis by (subst (asm) delete_range_loop.simps) (auto simp: pi_Error_def)
  next
    case (Inr kvs)
    then have it: "pi_iter ?it" "pi_initErr ?it = None" "pi_prefix ?it = None" "pi_rest ?it = kvs"
      by (simp_all add: ps_NewIterator_def iter_lowerBound_def)
    have rd: "pb_Reader (te_pb te) (bt_b b) = map BDelete (filter (in_key_range st en) (map fst kvs))"
      using delete_range_loop_reader [OF laws it(1-3) l(1)] pebble_law_reader(4) [OF laws] it(4) by (simp add: ps_NewBatch_def)
    have keys: "k \<in> fst ` set kvs \<longleftrightarrow> view (ps_db p) k \<noteq> None" for k
      using pebble_law_iter(3) [OF laws Inr] by (force simp: image_iff)
    have "view (ps_db p') k = (if in_key_range st en k then None else view (ps_db p) k)" for k
      using bt_Write_view(1) [OF laws w(1)] rd keys [of k] by (simp add: fold_deletes)
    with w bt_Write_view(2) [OF laws w(1)] show ?thesis by auto
  qed
qed

end
