(* ===== verification/Database_Theorems.thy ===== *)
theory Database_Theorems
  imports Database_Blocks Database_Keys
begin

text \<open>
  The properties of the database as a whole: block data through the pending batch and the log,
  account keys through the cache and Pebble, the routing of keys by class, range deletions, and
  the behaviour after deletion and after closing.
\<close>

section \<open>A concrete environment\<close>

text \<open>A state store that keeps its pairs in a list and ignores account keys.\<close>

definition list_prefixdb :: "(bytes \<times> bytes) list prefixdb_ops" where
  "list_prefixdb = \<lparr>x_Open = (\<lambda>cfg. Inr []), x_Close = (\<lambda>p. (None, p)),
     x_Has = (\<lambda>p t k a. (Inr (map_of p k \<noteq> None), p)),
     x_Get = (\<lambda>p t k a. (Inr (case map_of p k of None \<Rightarrow> ([], False) | Some v \<Rightarrow> (v, True)), p)),
     x_Put = (\<lambda>t k v a p. (None, (k, v) # p)),
     x_BatchPut = (\<lambda>t k v a p. (None, case v of None \<Rightarrow> filter (\<lambda>e. fst e \<noteq> k) p | Some w \<Rightarrow> (k, w) # p)),
     x_BatchCommit = (\<lambda>p. (None, p)), x_BatchCommitWithBlockID = (\<lambda>b p. (None, p)),
     x_Delete = (\<lambda>t k a p. (None, filter (\<lambda>e. fst e \<noteq> k) p)),
     x_GCPrefixTree = (\<lambda>p. (None, p)), x_GCAllStorageChunkFiles = (\<lambda>p. (None, p)), x_RunPostLoadGC = (\<lambda>p. (None, p)),
     x_UpgradeSegmentIndexFiles = (\<lambda>p. (None, p)), x_TrimLogsAfterCommitTag = (\<lambda>b p. (None, p)),
     x_GCWorkerCount = (\<lambda>p. 1)\<rparr>"

definition list_env ::
  "((bytes \<times> kvPointer) list, (bytes \<times> bytes) list, batch_op list, (bytes \<times> bytes) list) theo_env" where
  "list_env = \<lparr>te_io = no_faults, te_sl = alist_skiplist, te_pb = alist_pebble, te_x = list_prefixdb\<rparr>"

lemma list_env_ok: "te_ok list_env"
  by (simp add: te_ok_def list_env_def alist_skiplist_laws no_faults_ok)

lemma list_env_fields [simp]:
  "te_sl list_env = alist_skiplist" "te_pb list_env = alist_pebble" "te_io list_env = no_faults" "te_x list_env = list_prefixdb"
  by (simp_all add: list_env_def)

section \<open>Closing and deleting\<close>

lemma Close_disk:
  assumes "no_write_faults env" "log_holds sl s a"
  shows "\<exists>s'. Block_Log.Close env s = ([], s') \<and> disk_of s' = disk_of s"
proof -
  obtain m bs es where a: "a = (m, bs)" and rel: "log_rel sl s m es [] bs"
    using assms(2) by (cases a) (auto simp: log_holds_def)
  note r = log_rel_fields [OF rel]
  have "flush_index env (s\<lparr>closed := True\<rparr>) = (None, s\<lparr>closed := True\<rparr>)"
    using r(6) by (simp add: flush_index_def flushIndexBufferWithBlockID_def index_rel_def)
  moreover have "dataWriter_Flush env (s\<lparr>closed := True\<rparr>) = (None, s\<lparr>closed := True\<rparr>)"
    using dataWriter_Flush_ok [OF assms(1), of "s\<lparr>closed := True\<rparr>"] r(2,3) by simp
  ultimately show ?thesis using r(1) by (simp add: Block_Log.Close_def disk_of_def)
qed

lemma put_first_block:
  assumes "db_rel te n db (0, [], a)" "key_block k = Some b" "b \<noteq> 0"
  shows "db_Put te k v db = (None, db\<lparr>db_baolkvs := Some [(k, v)], db_baolLatestBlock := b\<rparr>)"
proof -
  obtain s where d: "\<not> db_closed db" "pending db = []" "db_baolLatestBlock db = 0" "db_blockAol db = Some s"
    using assms(1) by (auto simp: db_rel_def)
  then have "db\<lparr>db_blockAol := Some s\<rparr> = db" by (cases db) simp
  with d key_block_class [OF assms(2), of v] assms(3) show ?thesis
    by (simp add: db_Put_def PutWithDataType_def put_block_class_def Let_def word_gt_0)
qed

section \<open>Frames\<close>

definition same_blocks :: "('s, 'd, 'p) Database \<Rightarrow> ('s, 'd, 'p) Database \<Rightarrow> bool" where
  "same_blocks db db' \<longleftrightarrow> db_blockAol db' = db_blockAol db \<and> db_baolkvs db' = db_baolkvs db \<and>
     db_baolLatestBlock db' = db_baolLatestBlock db"

definition same_state :: "('s, 'd, 'p) Database \<Rightarrow> ('s, 'd, 'p) Database \<Rightarrow> bool" where
  "same_state db db' \<longleftrightarrow> db_statepdb db' = db_statepdb db \<and> db_accountHashKeyCache db' = db_accountHashKeyCache db \<and>
     db_accountKey db' = db_accountKey db"

lemma put_block_class_frame:
  "same_state db (snd (put_block_class te k v t db)) \<and> db_pebble (snd (put_block_class te k v t db)) = db_pebble db \<and>
   db_closed (snd (put_block_class te k v t db)) = db_closed db"
  by (simp add: put_block_class_def same_state_def Let_def split: option.split prod.split)

lemma resolve_frame:
  "same_blocks db (snd (resolvePrefixDBAccountKey te k t q db)) \<and>
   db_pebble (snd (resolvePrefixDBAccountKey te k t q db)) = db_pebble db \<and>
   db_closed (snd (resolvePrefixDBAccountKey te k t q db)) = db_closed db"
proof -
  have "same_blocks db (snd (GetParentAccountKey te h db)) \<and> db_pebble (snd (GetParentAccountKey te h db)) = db_pebble db \<and>
      db_closed (snd (GetParentAccountKey te h db)) = db_closed db" for h
    by (simp add: GetParentAccountKey_def resolve_in_pebble_def same_blocks_def Let_def split: option.split sum.split)
  from this [of "take 32 (drop 1 k)"] show ?thesis
    by (cases "GetParentAccountKey te (take 32 (drop 1 k)) db")
       (simp add: resolvePrefixDBAccountKey_def same_blocks_def split: sum.split)
qed

lemma put_state_frame:
  "same_blocks db (snd (case resolvePrefixDBAccountKey te k t q db of
       (Inl e, db1) \<Rightarrow> (Some e, db1) | (Inr a, db1) \<Rightarrow> on_state (f a) db1)) \<and>
   db_pebble (snd (case resolvePrefixDBAccountKey te k t q db of
       (Inl e, db1) \<Rightarrow> (Some e, db1) | (Inr a, db1) \<Rightarrow> on_state (f a) db1)) = db_pebble db \<and>
   db_closed (snd (case resolvePrefixDBAccountKey te k t q db of
       (Inl e, db1) \<Rightarrow> (Some e, db1) | (Inr a, db1) \<Rightarrow> on_state (f a) db1)) = db_closed db"
  using resolve_frame [of db te k t q]
  by (cases "resolvePrefixDBAccountKey te k t q db")
     (simp add: on_state_def same_blocks_def split: sum.split prod.split option.split)

section \<open>Properties\<close>



text \<open>
  C14. Account keys behave as a map until Pebble refuses a write: whatever the cache holds or evicts,
  a run of insertions of keys of 1 to 64 bytes under hashes of 32 bytes and of parent-key lookups
  returns what the Pebble store's bindings say, without a panic, up to the end or up to an insertion
  whose write Pebble refuses and which returns Pebble's error. After such an insertion a lookup may
  answer with the refused key, which is in the cache by then.
\<close>

theorem account_keys_as_map:
  assumes "keys_rel te view db m" "\<forall>op \<in> set ops. key_op_ok op"
  shows "\<exists>n db'. run (key_step te) (take n ops) db = (fst (run key_spec (take n ops) m), db') \<and>
    keys_rel te view db' (snd (run key_spec (take n ops) m)) \<and>
    (n = length ops \<or> n < length ops \<and> (\<exists>h k p e. ops ! n = KeyInsert h k \<and> db_pebble db' = Some p \<and>
       fst (p_Set (te_pb te) (ps_db p) h k) = Some e \<and> fst (key_step te (ops ! n) db') = Inl (store_err e)))"
proof -
  obtain n db' where n: "n \<le> length ops" "run (key_step te) (take n ops) db = (fst (run key_spec (take n ops) m), db')"
      "keys_rel te view db' (snd (run key_spec (take n ops) m))" "n < length ops \<longrightarrow> set_fails te (ops ! n) db'"
    using db_keys.run_until_fault [OF assms] by blast
  have "\<exists>h k p e. ops ! n = KeyInsert h k \<and> db_pebble db' = Some p \<and>
       fst (p_Set (te_pb te) (ps_db p) h k) = Some e \<and> fst (key_step te (ops ! n) db') = Inl (store_err e)" if less: "n < length ops"
  proof (cases "ops ! n")
    case (KeyInsert h k)
    then obtain p e d where f: "db_pebble db' = Some p" "p_Set (te_pb te) (ps_db p) h k = (Some e, d)" using n(4) less by auto
    with refused_insertion [OF n(3) f(2,1)] KeyInsert show ?thesis by auto
  next
    case (KeyLookup h)
    with n(4) less show ?thesis by simp
  qed
  with n show ?thesis by (intro exI [of _ n] exI [of _ db']) auto
qed

theorem account_keys_as_map_witness:
  "\<exists>db'. run (key_step list_env) [KeyLookup (replicate 32 1), KeyInsert (replicate 32 1) [7], KeyLookup (replicate 32 1)]
       ((new_database ''d'')\<lparr>db_pebble := Some \<lparr>ps_db = [], ps_open = True\<rparr>\<rparr>) = ([Inr None, Inr None, Inr (Some [7])], db')"
proof -
  let ?db = "(new_database ''d'')\<lparr>db_pebble := Some \<lparr>ps_db = [], ps_open = True\<rparr>\<rparr> :: ((bytes \<times> kvPointer) list, _, (bytes \<times> bytes) list) Database"
  let ?c = "newAccountHashToKeyCache defaultAccountHashToKeyCacheCapacity"
  have inv: "cache_inv ?c []" by (rule cache_inv_new) (simp_all add: defaultAccountHashToKeyCacheCapacity_def)
  have "account_cache_content ?c h = None" for h using account_content_abs [OF inv, of h] by (simp add: cache_abs_def)
  with inv have "account_cache_inv ?c" "account_cache_content ?c \<subseteq>\<^sub>m map_of []"
    by (auto simp: account_cache_inv_def map_le_def)
  then have rel: "keys_rel list_env map_of ?db (map_of [])"
    using alist_pebble_laws by (simp add: keys_rel_def new_database_def alist_pebble_def)
  let ?ops = "[KeyLookup (replicate 32 1), KeyInsert (replicate 32 1) [7], KeyLookup (replicate 32 1)]"
  have "\<forall>op \<in> set ?ops. key_op_ok op" by simp
  from account_keys_as_map [OF rel this] obtain n db' where
    n: "run (key_step list_env) (take n ?ops) ?db = (fst (run key_spec (take n ?ops) (map_of [])), db')" "n = length ?ops"
    by (auto simp: alist_pebble_def)
  then have "run (key_step list_env) ?ops ?db = ([Inr None, Inr None, Inr (Some [7])], db')" by simp
  then show ?thesis by blast
qed

text \<open>
  The insertion that Pebble refuses: the caller gets the error, but a lookup answers with the key,
  since it was put into the cache before the write.
\<close>

lemma refused_insertion_answered:
  assumes "keys_rel te view db m" "p_Set (te_pb te) (ps_db p) h k = (Some e, d)" "db_pebble db = Some p" "account_cacheable h k"
  shows "\<exists>db' db''. InsertAccountHashPebble te k h db = (Some (store_err e), db') \<and> GetParentAccountKey te h db' = (Inr (Some k), db'')"
proof -
  obtain c where c: "InsertAccountHashPebble te k h db =
      (Some (store_err e), db\<lparr>db_accountHashKeyCache := Some (account_cache_put c h k), db_pebble := Some (p\<lparr>ps_db := d\<rparr>)\<rparr>)"
      "account_cache_inv c"
    using refused_insertion [OF assms(1-3)] by blast
  have "account_cache_inv (account_cache_put c h k)" "account_cache_content (account_cache_put c h k) h = Some k"
    using account_cache_put_found [OF c(2) assms(4)] by blast+
  moreover from this obtain n tmp c' where "Account_Cache.Get (account_cache_put c h k) h (replicate 64 0) = Some (n, True, tmp, c')"
      "take (unat n) tmp = k \<and> unat n \<noteq> 0"
    using cache_Get_total [of "account_cache_put c h k" h] assms(4) by (auto simp: account_cacheable_def)
  ultimately show ?thesis using c(1) assms(4) by (auto simp: GetParentAccountKey_def account_cacheable_def keep_key_def Let_def)
qed

text \<open>
  C29. A put touches only the store of its class: a block pair only the pending batch and the
  log, a trie node only the state store and the account-key cache, any other pair only Pebble.
\<close>

theorem put_stays_in_class:
  "(AolHandledDataTypes t \<or> same_blocks db (snd (PutWithDataType te k v t db))) \<and>
   (PrefixDBHandledDataTypes t \<or> same_state db (snd (PutWithDataType te k v t db))) \<and>
   (AolHandledDataTypes t = PrefixDBHandledDataTypes t \<or> db_pebble (snd (PutWithDataType te k v t db)) = db_pebble db) \<and>
   db_closed (snd (PutWithDataType te k v t db)) = db_closed db"
proof (cases "db_closed db \<or> \<not> AolHandledDataTypes t \<and> \<not> PrefixDBHandledDataTypes t")
  case True
  then show ?thesis by (auto simp: PutWithDataType_def same_blocks_def same_state_def split: option.split prod.split)
next
  case False
  then show ?thesis
    using put_block_class_frame [of db te k v t] put_state_frame [where db = db and te = te and k = k and t = t and q = True and f = "\<lambda>a. x_Put (te_x te) t k v a"]
    by (cases "db_statepdb db")
       (auto simp: PutWithDataType_def AolHandledDataTypes_def PrefixDBHandledDataTypes_def same_blocks_def same_state_def)
qed

text \<open>
  A range deletion of the database that succeeds removes exactly the Pebble keys from the
  start (inclusive) to the end (exclusive), either bound being optional, and changes nothing else.
\<close>

theorem delete_range_exact:
  assumes "pebble_laws (te_pb te) view" "db_pebble db = Some p" "\<not> db_closed db" "db_DeleteRange te st en db = (None, db')"
  shows "\<exists>p'. db' = db\<lparr>db_pebble := Some p'\<rparr> \<and>
    view (ps_db p') = (\<lambda>k. if in_key_range st en k then None else view (ps_db p) k)"
  using DeleteRange_view [OF assms] by blast

theorem delete_range_exact_witness:
  "\<exists>db' p'. db_DeleteRange list_env (Some [2]) None ((new_database ''d'')\<lparr>db_pebble := Some \<lparr>ps_db = [([1], [9]), ([3], [8])], ps_open = True\<rparr>\<rparr>) = (None, db') \<and>
     db_pebble db' = Some p' \<and> map_of (ps_db p') [3] = None \<and> map_of (ps_db p') [1] = Some [9]"
proof -
  let ?db = "(new_database ''d'')\<lparr>db_pebble := Some \<lparr>ps_db = [([1], [9]), ([3], [8])], ps_open = True\<rparr>\<rparr> :: ((bytes \<times> kvPointer) list, _, (bytes \<times> bytes) list) Database"
  have pe: "db_pebble ?db = Some \<lparr>ps_db = [([1], [9]), ([3], [8])], ps_open = True\<rparr>" "\<not> db_closed ?db" by (simp_all add: new_database_def)
  have it: "ps_NewIterator alist_pebble None [] \<lparr>ps_db = [([1], [9]), ([3], [8])], ps_open = True\<rparr> =
      \<lparr>pi_iter = True, pi_at = None, pi_rest = [([1], [9]), ([3], [8])], pi_prefix = None, pi_initErr = None, pi_moved = False\<rparr>"
    by (simp add: ps_NewIterator_def iter_lowerBound_def alist_pebble_def)
  have del: "bt_Delete alist_pebble k b = (None, b\<lparr>bt_b := bt_b b @ [BDelete k], bt_kvs := AList.update k None (bt_kvs b), bt_size := bt_size b + int (length k)\<rparr>)" for k b
    by (simp add: bt_Delete_def alist_pebble_def)
  have nx: "pi_Next \<lparr>pi_iter = True, pi_at = x, pi_rest = (k, v) # r, pi_prefix = None, pi_initErr = None, pi_moved = m\<rparr> =
      (True, \<lparr>pi_iter = True, pi_at = Some (k, v), pi_rest = r, pi_prefix = None, pi_initErr = None, pi_moved = True\<rparr>)"
    "pi_Next \<lparr>pi_iter = True, pi_at = x, pi_rest = [], pi_prefix = None, pi_initErr = None, pi_moved = m\<rparr> =
      (False, \<lparr>pi_iter = True, pi_at = None, pi_rest = [], pi_prefix = None, pi_initErr = None, pi_moved = True\<rparr>)" for x k v r m
    by (simp_all add: pi_Next_def)
  obtain i b where l: "delete_range_loop list_env (Some [2]) None
        \<lparr>pi_iter = True, pi_at = None, pi_rest = [([1], [9]), ([3], [8])], pi_prefix = None, pi_initErr = None, pi_moved = False\<rparr> (ps_NewBatch alist_pebble) = (None, i, b)"
      "pi_Error i = None"
    by (simp add: delete_range_loop.simps nx del pi_Key_def pi_Error_def Let_def)
  obtain p2 where w: "bt_Write alist_pebble b \<lparr>ps_db = [([1], [9]), ([3], [8])], ps_open = True\<rparr> = (None, p2)" by (simp add: alist_pebble_def bt_Write_def)
  have "\<exists>db'. db_DeleteRange list_env (Some [2]) None ?db = (None, db')"
    unfolding db_DeleteRange_def pe(1) using pe(2) by (simp add: it l w)
  then obtain db' where db': "db_DeleteRange list_env (Some [2]) None ?db = (None, db')" by blast
  have "pebble_laws (te_pb list_env) map_of" using alist_pebble_laws by simp
  from delete_range_exact [OF this pe db'] obtain p' where
    p': "db' = ?db\<lparr>db_pebble := Some p'\<rparr>" "map_of (ps_db p') = (\<lambda>k. if in_key_range (Some [2]) None k then None else
      map_of (ps_db \<lparr>ps_db = [([1], [9]), ([3], [8])], ps_open = True\<rparr>) k)" by blast
  show ?thesis
  proof (intro exI conjI)
    show "db_DeleteRange list_env (Some [2]) None ?db = (None, db')" by (rule db')
    show "db_pebble db' = Some p'" by (simp add: p'(1))
    show "map_of (ps_db p') [3] = None" "map_of (ps_db p') [1] = Some [9]" by (simp_all add: p'(2) in_key_range_def)
  qed
qed

text \<open>
  A deleted key of the block log is not absent for the database: after Delete of a recent
  key, Get returns the empty value without an error and Has returns true, since the marker the
  database compares with is not the one the log uses.
\<close>

theorem deleted_key_reads_empty:
  assumes "te_ok te" "\<not> db_closed db" "map_of (pending db) k = None" "db_blockAol db = Some s"
    and "log_holds (te_sl te) s a" "snd a \<noteq> []"
    and "key_block k = Some c" "c \<le> a_latest a" "a_latest a - c \<le> IgnoredThreshold" "unat (a_latest a) < 2 ^ 58"
    and "length k < 2 ^ 32" "int (length (dataFile s) + length k) < 2 ^ 62"
  shows "\<exists>db'. db_Delete te k db = (None, db') \<and> db_Get te k (GetDataTypeFromKey k) db' = (Inr [], db') \<and> Has te k db' = (Inr True, db')"
proof -
  have te: "skiplist_laws (te_sl te)" "no_write_faults (te_io te)" using assms(1) by (simp_all add: te_ok_def)
  obtain s' where s': "Delete (te_io te) (te_sl te) k s = (None, s')" "Get (te_sl te) k s' = Inr ([], True)"
    using Delete_hides [OF te assms(5-12)] by blast
  note cl = key_block_class [OF assms(7)]
  let ?db = "db\<lparr>db_blockAol := Some s'\<rparr>"
  have "db_Delete te k db = (None, ?db)" using s'(1) assms(2,4) cl by (simp add: db_Delete_def DeleteWithDataType_def)
  moreover have "pending ?db = pending db" by (simp add: pending_def)
  ultimately show ?thesis
    using s'(2) assms(2,3) cl aolDeleteTombstone_nonempty
    by (auto simp: db_Get_def GetFromAOL_def Has_def HasWithDataType_def)
qed

theorem deleted_key_reads_empty_witness:
  "\<exists>db db'. db_Delete list_env (block_key headerPrefix 1 [7]) db = (None, db') \<and>
     db_Get list_env (block_key headerPrefix 1 [7]) (GetDataTypeFromKey (block_key headerPrefix 1 [7])) db' = (Inr [], db')"
proof -
  obtain s0 where "log_holds alist_skiplist s0 (1, [])" "dataFile s0 = []" using open_empty [OF alist_skiplist_laws, of 2] by blast
  then obtain s where s: "log_holds alist_skiplist s (1, [[], []])" "dataFile s = []"
    using MarkBlockCommitted_holds [OF alist_skiplist_laws no_faults_ok, of s0 "(1, [])" 2] by (auto simp: a_mark_two)
  let ?db = "(new_database ''d'')\<lparr>db_blockAol := Some s\<rparr> :: (_, (bytes \<times> bytes) list, (bytes \<times> bytes) list) Database"
  have k: "key_block (block_key headerPrefix 1 [7]) = Some 1" by (simp add: key_block_block_key block_prefixes_def)
  have len: "length (block_key headerPrefix 1 [7]) = 10" by (simp add: block_key_def headerPrefix_def bytes_of_string_def)
  have l: "a_latest (1, [[], []]) = 2" by (simp add: a_latest_def)
  have db: "\<not> db_closed ?db" "map_of (pending ?db) (block_key headerPrefix 1 [7]) = None" "db_blockAol ?db = Some s"
    by (simp_all add: new_database_def pending_def)
  from deleted_key_reads_empty [OF list_env_ok db _ _ k, of "(1, [[], []])"] s show ?thesis
    by (auto simp: l len IgnoredThreshold_def word_le_nat_alt)
qed

text \<open>
  C30. Close does not write the pending block pairs: a key put for a new block reads back before
  Close, and a log opened from the files left by Close holds only the earlier blocks, in which a
  read of the key fails as a request for a future block.
\<close>

theorem close_drops_pending:
  assumes "te_ok te" "db_rel te n db (0, [], a)" "distinct_keys (snd a)" "key_block k = Some b" "b > a_latest a"
  shows "\<exists>db1 r db2 s2 s3. db_Put te k v db = (None, db1) \<and> GetFromAOL te k db1 = Inr v \<and>
    db_Close te db1 = (r, db2) \<and> db_blockAol db2 = Some s2 \<and> NewBlockAppendOnlyLog (te_sl te) (disk_of s2) w = Inr s3 \<and>
    log_holds (te_sl te) s3 a \<and> Get (te_sl te) k s3 = Inl (ErrRequestedFutureBlock b (a_latest a))"
proof -
  have te: "skiplist_laws (te_sl te)" "no_write_faults (te_io te)" using assms(1) by (simp_all add: te_ok_def)
  have b0: "b \<noteq> 0" using assms(5) by (auto simp: word_less_nat_alt)
  let ?db = "db\<lparr>db_baolkvs := Some [(k, v)], db_baolLatestBlock := b\<rparr>"
  obtain s where s: "\<not> db_closed db" "db_blockAol db = Some s" "log_holds (te_sl te) s a" using assms(2) by (auto simp: db_rel_def)
  have put: "db_Put te k v db = (None, ?db)" by (rule put_first_block [OF assms(2,4) b0])
  have get: "GetFromAOL te k ?db = Inr v" using s(1) by (simp add: GetFromAOL_def pending_def)
  obtain s2 where s2: "Block_Log.Close (te_io te) s = ([], s2)" "disk_of s2 = disk_of s" using Close_disk [OF te(2) s(3)] by blast
  obtain r db2 where cl: "db_Close te ?db = (r, db2)" "db_blockAol db2 = Some s2"
    using s(1,2) s2(1) by (cases "db_Close te ?db") (auto simp: db_Close_def close_pebble_def Let_def split: option.splits prod.splits)
  obtain s3 where s3: "NewBlockAppendOnlyLog (te_sl te) (disk_of s2) w = Inr s3" "log_holds (te_sl te) s3 a"
    using reopen_holds [OF te(1) s(3)] s2(2) by auto
  obtain m bs es where a: "a = (m, bs)" and rel: "log_rel (te_sl te) s3 m es [] bs"
    using s3(2) by (cases a) (auto simp: log_holds_def)
  have "Get (te_sl te) k s3 = Inl (ErrRequestedFutureBlock b (a_latest a))"
    using Get_holds [OF rel, of k] assms(3,4,5) a by (simp add: a_get_def)
  with put get cl s3 show ?thesis by blast
qed

theorem close_drops_pending_witness:
  "\<exists>db db1 r db2 s2 s3. db_Put list_env (block_key headerPrefix 5 [7]) [1] db = (None, db1) \<and>
     db_Close list_env db1 = (r, db2) \<and> db_blockAol db2 = Some s2 \<and>
     NewBlockAppendOnlyLog alist_skiplist (disk_of s2) 2 = Inr s3 \<and>
     Get alist_skiplist (block_key headerPrefix 5 [7]) s3 = Inl (ErrRequestedFutureBlock 5 0)"
proof -
  obtain db where db: "db_rel list_env 0 db (0, [], (1, []))" using open_db_rel [OF list_env_ok, of 0 "''d''" 2] by auto
  have k: "key_block (block_key headerPrefix 5 [7]) = Some 5" by (simp add: key_block_block_key block_prefixes_def)
  have l: "a_latest (1, []) = 0" by (simp add: a_latest_def)
  have d: "distinct_keys (snd (1 :: u64, []))" by (simp add: distinct_keys_def)
  from close_drops_pending [OF list_env_ok db d k, of "[1]" 2] show ?thesis unfolding l list_env_fields by auto blast
qed

text \<open>
  Block zero is no block of its own for the batch: a pair of block zero is accepted without
  opening a batch, and the next pair of a block \<open>b\<close> joins it, so both are committed as block \<open>b\<close>.
\<close>

theorem batch_block_zero_joins_next:
  assumes "db_blockAol db = Some s" "pending db = []" "db_baolLatestBlock db = 0"
    and "key_block k0 = Some 0" "key_block k1 = Some b" "b \<noteq> 0"
  shows "\<exists>db1 db2. BatchPut te k0 v0 (GetDataTypeFromKey k0) db = (None, db1) \<and> BatchPut te k1 v1 (GetDataTypeFromKey k1) db1 = (None, db2) \<and>
    db_baolLatestBlock db2 = b \<and> map_of (pending db2) k0 = Some v0 \<and> map_of (pending db2) k1 = Some v1"
proof -
  have "k1 \<noteq> k0" using assms(4-6) by auto
  then show ?thesis
    using assms key_block_class [OF assms(4), of v0] key_block_class [OF assms(5), of v1]
    by (auto simp: BatchPut_def BatchPutToAOL_def pending_def Let_def)
qed

theorem batch_block_zero_joins_next_witness:
  "\<exists>db db1 db2. BatchPut list_env (block_key headerPrefix 0 []) [1] (GetDataTypeFromKey (block_key headerPrefix 0 [])) db = (None, db1) \<and>
     BatchPut list_env (block_key headerPrefix 5 []) [2] (GetDataTypeFromKey (block_key headerPrefix 5 [])) db1 = (None, db2) \<and>
     db_baolLatestBlock db2 = 5 \<and> map_of (pending db2) (block_key headerPrefix 0 []) = Some [1]"
proof -
  obtain db where "db_rel list_env 0 db (0, [], (1, []))" using open_db_rel [OF list_env_ok, of 0 "''d''" 2] by auto
  then obtain s where "db_blockAol db = Some s" "pending db = []" "db_baolLatestBlock db = 0" by (auto simp: db_rel_def)
  from batch_block_zero_joins_next [OF this, of "block_key headerPrefix 0 []" "block_key headerPrefix 5 []" 5 list_env "[1]" "[2]"] show ?thesis
    by (simp add: key_block_block_key block_prefixes_def) blast
qed

text \<open>
  A database that has been closed refuses every routed operation with the closed error and
  keeps its state: reads, writes, deletions, range deletions, synchronisation and a second Close;
  its iterators carry the closed error.
\<close>

theorem closed_database_refuses:
  assumes "db_Close te db = (r, db')"
  shows "db_closed db' \<and> Has te k db' = (Inl TClosed, db') \<and> db_Get te k t db' = (Inl TClosed, db') \<and>
    PutWithDataType te k v t db' = (Some TClosed, db') \<and> DeleteWithDataType te k t db' = (Some TClosed, db') \<and>
    db_DeleteRange te st en db' = (Some TClosed, db') \<and> SyncKeyValue te db' = (Some TClosed, db') \<and>
    db_Close te db' = (Some TClosed, db') \<and> db_NewIterator te pre start db' = Inr (ErrorIterator \<lparr>ei_err = TClosed\<rparr>)"
proof -
  have c: "db_closed db'"
    using assms by (auto simp: db_Close_def close_pebble_def Let_def split: if_splits option.splits prod.splits)
  then show ?thesis
    by (simp add: Has_def HasWithDataType_def db_Get_def GetFromAOL_def GetFromPrefixDB_def GetFromPebble_def PutWithDataType_def
        DeleteWithDataType_def db_DeleteRange_def SyncKeyValue_def db_Close_def db_NewIterator_def)
qed

theorem closed_database_refuses_witness:
  "\<exists>r db'. db_Close list_env (new_database ''d'') = (r, db') \<and> db_Put list_env [] [] db' = (Some TClosed, db')"
proof -
  obtain r db' where c: "db_Close list_env (new_database ''d'') = (r, db')" by fastforce
  from closed_database_refuses [OF c] c show ?thesis by (auto simp: db_Put_def)
qed

end
