(* ===== verification/Shared_Cache.thy ===== *)
theory Shared_Cache
  imports Theo_Prelude Cache_Interface Simulation "HOL-Library.Multiset"
begin

text \<open>
  \<^verbatim>\<open>THEO/prefixdb/shared_cache.go\<close>, the byte-budgeted cache that the node cache, the
  storage value cache, the segment index cache and the node-file cache share. The list of
  elements is kept front to back; an element is named by a number of its own, as a
  \<^verbatim>\<open>*list.Element\<close> is by its address, and the map \<^verbatim>\<open>items\<close> leads from a key to an
  element. \<open>sc_evicted\<close> records the values of removed elements in order, the values whose
  \<^verbatim>\<open>onSharedCacheEvict\<close> is called when they have that method. The receiver is a cache
  that exists: on a nil receiver the operations answer as on an empty cache. Locks and lock
  statistics are left out; every operation runs under the lock of the cache. The theory shows
  that the byte accounts are exact and within the budget, that an insertion survives its own
  eviction loop, which entry is the victim, and that the cache meets the contract of a cache
  in front of a store.
\<close>

section \<open>State\<close>

datatype sharedCacheNamespace =
    sharedCacheNamespaceNode | sharedCacheNamespaceStorage
  | sharedCacheNamespaceSegmentIndex | sharedCacheNamespaceFileNode

type_synonym sharedCacheCompositeKey = "sharedCacheNamespace \<times> bytes"

record 'v sharedCacheEntry =
  en_namespace :: sharedCacheNamespace
  en_key :: bytes
  en_value :: 'v
  en_sizeBytes :: u64
  en_freq :: u32
  en_lastTouch :: u64

type_synonym 'v element = "nat \<times> 'v sharedCacheEntry"

record 'v sharedByteCache =
  sc_capacityBytes :: u64
  sc_usedBytes :: u64
  sc_namespaceUsage :: "sharedCacheNamespace \<Rightarrow> u64"
  sc_ll :: "'v element list"
  sc_items :: "sharedCacheCompositeKey \<rightharpoonup> nat"
  sc_clock :: u64
  sc_nextElement :: nat
  sc_evicted :: "'v list"

definition sharedCacheEvictionSample :: nat where
  "sharedCacheEvictionSample = 32"

definition newSharedByteCache :: "u64 \<Rightarrow> 'v sharedByteCache" where
  "newSharedByteCache capacityBytes =
     \<lparr>sc_capacityBytes = (if capacityBytes = 0 then 1 else capacityBytes), sc_usedBytes = 0,
      sc_namespaceUsage = (\<lambda>_. 0), sc_ll = [], sc_items = Map.empty, sc_clock = 0,
      sc_nextElement = 0, sc_evicted = []\<rparr>"

section \<open>Operations\<close>

definition remove_id :: "nat \<Rightarrow> 'v element list \<Rightarrow> 'v element list" where
  "remove_id i ll = filter (\<lambda>x. fst x \<noteq> i) ll"

definition bumpSharedCacheEntryFreq :: "'v sharedCacheEntry \<Rightarrow> 'v sharedCacheEntry" where
  "bumpSharedCacheEntryFreq entry =
     (if en_freq entry = - 1 then entry else entry\<lparr>en_freq := en_freq entry + 1\<rparr>)"

definition touchEntryLocked :: "'v sharedByteCache \<Rightarrow> nat \<Rightarrow> 'v sharedByteCache" where
  "touchEntryLocked c i =
     (case map_of (sc_ll c) i of
        None \<Rightarrow> c
      | Some entry \<Rightarrow>
          (let clock = sc_clock c + 1;
               entry' = (bumpSharedCacheEntryFreq entry)\<lparr>en_lastTouch := clock\<rparr>
           in c\<lparr>sc_clock := clock, sc_ll := (i, entry') # remove_id i (sc_ll c)\<rparr>))"

definition removeElementLocked :: "'v sharedByteCache \<Rightarrow> nat \<Rightarrow> 'v sharedByteCache" where
  "removeElementLocked c i =
     (case map_of (sc_ll c) i of
        None \<Rightarrow> c
      | Some entry \<Rightarrow>
          (let ns = en_namespace entry; size = en_sizeBytes entry; used = sc_namespaceUsage c ns in
           c\<lparr>sc_evicted := sc_evicted c @ [en_value entry],
             sc_items := (sc_items c)((ns, en_key entry) := None),
             sc_ll := remove_id i (sc_ll c),
             sc_usedBytes := (if size \<le> sc_usedBytes c then sc_usedBytes c - size else 0),
             sc_namespaceUsage := (sc_namespaceUsage c)(ns := (if size \<le> used then used - size else 0))\<rparr>))"

text \<open>
  The scan of \<^verbatim>\<open>selectVictimLocked\<close> runs from the back of the list, skips the front unless
  it is the only element, and looks at no more than \<open>sharedCacheEvictionSample\<close> entries.
\<close>

definition better_victim :: "'v element option \<Rightarrow> 'v element \<Rightarrow> bool" where
  "better_victim victim elem =
     (case victim of
        None \<Rightarrow> True
      | Some v \<Rightarrow> en_freq (snd elem) < en_freq (snd v) \<or>
          (en_freq (snd elem) = en_freq (snd v) \<and> en_lastTouch (snd elem) < en_lastTouch (snd v)))"

fun select_loop :: "nat \<Rightarrow> nat \<Rightarrow> nat \<Rightarrow> 'v element option \<Rightarrow> 'v element list \<Rightarrow> 'v element option" where
  "select_loop front back sampled victim [] = victim"
| "select_loop front back sampled victim (elem # rest) =
     (if sharedCacheEvictionSample \<le> sampled then victim
      else if fst elem = front \<and> fst elem \<noteq> back then select_loop front back sampled victim rest
      else select_loop front back (sampled + 1)
             (if better_victim victim elem then Some elem else victim) rest)"

definition selectVictimLocked :: "'v sharedByteCache \<Rightarrow> nat option" where
  "selectVictimLocked c =
     (if sc_ll c = [] then None
      else case select_loop (fst (hd (sc_ll c))) (fst (last (sc_ll c))) 0 None (rev (sc_ll c)) of
          Some v \<Rightarrow> Some (fst v)
        | None \<Rightarrow> Some (fst (last (sc_ll c))))"

lemma select_loop_member:
  "select_loop f b n v xs = Some e \<Longrightarrow> v = Some e \<or> e \<in> set xs"
  by (induction f b n v xs rule: select_loop.induct) (auto split: if_splits)

lemma selectVictim_member: "selectVictimLocked c = Some i \<Longrightarrow> i \<in> fst ` set (sc_ll c)"
  by (auto simp: selectVictimLocked_def split: if_splits option.splits dest!: select_loop_member)

lemma length_remove_id: "i \<in> fst ` set ll \<Longrightarrow> length (remove_id i ll) < length ll"
  unfolding remove_id_def by (induction ll) (auto simp: le_imp_less_Suc)

lemma removeElement_shrinks:
  "i \<in> fst ` set (sc_ll c) \<Longrightarrow> length (sc_ll (removeElementLocked c i)) < length (sc_ll c)"
  by (auto simp: removeElementLocked_def Let_def length_remove_id map_of_eq_None_iff split: option.split)

function evict_loop :: "'v sharedByteCache \<Rightarrow> 'v sharedByteCache" where
  "evict_loop c =
     (if sc_capacityBytes c < sc_usedBytes c
      then case selectVictimLocked c of
          None \<Rightarrow> c
        | Some victim \<Rightarrow> evict_loop (removeElementLocked c victim)
      else c)"
  by pat_completeness auto
termination
  by (relation "measure (\<lambda>c. length (sc_ll c))") (auto intro: removeElement_shrinks selectVictim_member)

declare evict_loop.simps [simp del]

definition cache_Get :: "'v sharedByteCache \<Rightarrow> sharedCacheNamespace \<Rightarrow> bytes \<Rightarrow> 'v option \<times> 'v sharedByteCache" where
  "cache_Get c ns key =
     (if key = [] then (None, c)
      else case sc_items c (ns, key) of
          None \<Rightarrow> (None, c)
        | Some elem \<Rightarrow> (map_option en_value (map_of (sc_ll c) elem), touchEntryLocked c elem))"

definition GetNoTouch :: "'v sharedByteCache \<Rightarrow> sharedCacheNamespace \<Rightarrow> bytes \<Rightarrow> 'v option \<times> 'v sharedByteCache" where
  "GetNoTouch c ns key =
     (if key = [] then (None, c)
      else case sc_items c (ns, key) of
          None \<Rightarrow> (None, c)
        | Some elem \<Rightarrow>
            (map_option en_value (map_of (sc_ll c) elem),
             c\<lparr>sc_ll := map (\<lambda>x. if fst x = elem then (elem, bumpSharedCacheEntryFreq (snd x)) else x) (sc_ll c)\<rparr>))"

definition push_entry :: "'v sharedByteCache \<Rightarrow> sharedCacheNamespace \<Rightarrow> bytes \<Rightarrow> 'v \<Rightarrow> u64 \<Rightarrow> u32 \<Rightarrow> 'v sharedByteCache" where
  "push_entry c ns key value sizeBytes freq =
     (let elem = sc_nextElement c;
          entry = \<lparr>en_namespace = ns, en_key = key, en_value = value, en_sizeBytes = sizeBytes,
                   en_freq = freq, en_lastTouch = 0\<rparr>;
          c1 = touchEntryLocked (c\<lparr>sc_ll := (elem, entry) # sc_ll c, sc_nextElement := elem + 1\<rparr>) elem
      in c1\<lparr>sc_items := (sc_items c1)((ns, key) \<mapsto> elem),
            sc_usedBytes := sc_usedBytes c1 + sizeBytes,
            sc_namespaceUsage := (sc_namespaceUsage c1)(ns := sc_namespaceUsage c1 ns + sizeBytes)\<rparr>)"

definition existing_freq :: "'v sharedByteCache \<Rightarrow> sharedCacheCompositeKey \<Rightarrow> u32" where
  "existing_freq c lookup =
     (case sc_items c lookup of
        None \<Rightarrow> 1
      | Some elem \<Rightarrow> (case map_of (sc_ll c) elem of None \<Rightarrow> 1 | Some e \<Rightarrow> en_freq e))"

definition drop_existing :: "'v sharedByteCache \<Rightarrow> sharedCacheCompositeKey \<Rightarrow> 'v sharedByteCache" where
  "drop_existing c lookup =
     (case sc_items c lookup of None \<Rightarrow> c | Some elem \<Rightarrow> removeElementLocked c elem)"

definition cache_Add :: "'v sharedByteCache \<Rightarrow> sharedCacheNamespace \<Rightarrow> bytes \<Rightarrow> 'v \<Rightarrow> u64 \<Rightarrow> 'v sharedByteCache" where
  "cache_Add c ns key value sizeBytes =
     (if key = [] then c
      else let size = (if sizeBytes = 0 then 1 else sizeBytes);
               freq = existing_freq c (ns, key);
               c1 = drop_existing c (ns, key)
           in if sc_capacityBytes c1 < size then c1
              else evict_loop (push_entry c1 ns key value size freq))"

definition cache_Remove :: "'v sharedByteCache \<Rightarrow> sharedCacheNamespace \<Rightarrow> bytes \<Rightarrow> 'v sharedByteCache" where
  "cache_Remove c ns key = (if key = [] then c else drop_existing c (ns, key))"

definition RemoveNamespace :: "'v sharedByteCache \<Rightarrow> sharedCacheNamespace \<Rightarrow> 'v sharedByteCache" where
  "RemoveNamespace c ns =
     foldl (\<lambda>c elem. if en_namespace (snd elem) = ns then removeElementLocked c (fst elem) else c) c (sc_ll c)"

definition NamespaceStats :: "'v sharedByteCache \<Rightarrow> sharedCacheNamespace \<Rightarrow> u64 \<times> u64" where
  "NamespaceStats c ns = (sc_namespaceUsage c ns, sc_capacityBytes c)"

section \<open>Accounts and index\<close>

definition ckey :: "'v element \<Rightarrow> sharedCacheCompositeKey" where
  "ckey x = (en_namespace (snd x), en_key (snd x))"

definition sizes :: "'v element list \<Rightarrow> nat" where
  "sizes ll = sum_list (map (\<lambda>x. unat (en_sizeBytes (snd x))) ll)"

definition ns_sizes :: "sharedCacheNamespace \<Rightarrow> 'v element list \<Rightarrow> nat" where
  "ns_sizes ns ll = sizes (filter (\<lambda>x. en_namespace (snd x) = ns) ll)"

definition sc_content :: "'v sharedByteCache \<Rightarrow> sharedCacheCompositeKey \<rightharpoonup> 'v" where
  "sc_content c = map_of (map (\<lambda>x. (ckey x, en_value (snd x))) (sc_ll c))"

definition entry_ok :: "'v element \<Rightarrow> bool" where
  "entry_ok x \<longleftrightarrow> en_key (snd x) \<noteq> [] \<and> 0 < en_sizeBytes (snd x)"

definition accounts_ok :: "'v sharedByteCache \<Rightarrow> bool" where
  "accounts_ok c \<longleftrightarrow> unat (sc_usedBytes c) = sizes (sc_ll c) \<and>
     (\<forall>ns. unat (sc_namespaceUsage c ns) = ns_sizes ns (sc_ll c))"

definition index_ok :: "'v sharedByteCache \<Rightarrow> bool" where
  "index_ok c \<longleftrightarrow> distinct (map fst (sc_ll c)) \<and> (\<forall>x \<in> set (sc_ll c). fst x < sc_nextElement c \<and> entry_ok x) \<and>
     distinct (map ckey (sc_ll c)) \<and> sc_items c = map_of (map (\<lambda>x. (ckey x, fst x)) (sc_ll c))"

definition sc_inv :: "'v sharedByteCache \<Rightarrow> bool" where
  "sc_inv c \<longleftrightarrow> index_ok c \<and> accounts_ok c \<and> 0 < sc_capacityBytes c \<and> sc_capacityBytes c < 2 ^ 63 \<and>
     sc_usedBytes c \<le> sc_capacityBytes c"

lemma sizes_simps [simp]:
  "sizes [] = 0" "sizes (x # xs) = unat (en_sizeBytes (snd x)) + sizes xs" "sizes (xs @ ys) = sizes xs + sizes ys"
  "ns_sizes ns [] = 0" "ns_sizes ns (xs @ ys) = ns_sizes ns xs + ns_sizes ns ys"
  "ns_sizes ns (x # xs) = (if en_namespace (snd x) = ns then unat (en_sizeBytes (snd x)) else 0) + ns_sizes ns xs"
  by (simp_all add: sizes_def ns_sizes_def)

lemma ns_sizes_le: "ns_sizes ns ll \<le> sizes ll"
  by (induction ll) auto

lemma bump_frame [simp]:
  "en_namespace (bumpSharedCacheEntryFreq e) = en_namespace e" "en_key (bumpSharedCacheEntryFreq e) = en_key e"
  "en_value (bumpSharedCacheEntryFreq e) = en_value e" "en_sizeBytes (bumpSharedCacheEntryFreq e) = en_sizeBytes e"
  by (simp_all add: bumpSharedCacheEntryFreq_def)

text \<open>An element of the list splits it, and removing the element leaves the two parts.\<close>

lemma element_split:
  fixes ll :: "'v element list"
  assumes "distinct (map fst ll)" and "map_of ll i = Some e"
  obtains xs ys where "ll = xs @ (i, e) # ys" "remove_id i ll = xs @ ys" "i \<notin> fst ` set xs" "i \<notin> fst ` set ys"
proof -
  from assms(2) have "(i, e) \<in> set ll" by (rule map_of_SomeD)
  then obtain xs ys where ll: "ll = xs @ (i, e) # ys" by (meson split_list)
  with assms(1) have n: "i \<notin> fst ` set xs" "i \<notin> fst ` set ys" by auto
  have "filter (\<lambda>x. fst x \<noteq> i) zs = zs" if "i \<notin> fst ` set zs" for zs :: "'v element list"
    using that by (induction zs) auto
  with n have "remove_id i ll = xs @ ys" by (simp add: remove_id_def ll)
  with ll n that show thesis by blast
qed

lemma map_of_ckey_Some:
  "map_of (map (\<lambda>x. (ckey x, f x)) ll) k = Some v \<Longrightarrow> \<exists>x \<in> set ll. ckey x = k \<and> f x = v"
  by (auto dest!: map_of_SomeD)

lemma map_of_ckey_split:
  assumes "distinct (map ckey (xs @ x # ys))"
  shows "map_of (map (\<lambda>x. (ckey x, f x)) (xs @ ys)) = (map_of (map (\<lambda>x. (ckey x, f x)) (xs @ x # ys)))(ckey x := None)"
    and "map_of (map (\<lambda>x. (ckey x, f x)) (xs @ x # ys)) = (map_of (map (\<lambda>x. (ckey x, f x)) (xs @ ys)))(ckey x \<mapsto> f x)"
proof -
  have nx: "ckey x \<notin> ckey ` set xs" and ny: "ckey x \<notin> ckey ` set ys" using assms by auto
  have none: "map_of (map (\<lambda>x. (ckey x, f x)) zs) (ckey x) = None" if "ckey x \<notin> ckey ` set zs" for zs
    using that by (auto simp: map_of_eq_None_iff image_iff)
  show "map_of (map (\<lambda>x. (ckey x, f x)) (xs @ ys)) = (map_of (map (\<lambda>x. (ckey x, f x)) (xs @ x # ys)))(ckey x := None)"
    "map_of (map (\<lambda>x. (ckey x, f x)) (xs @ x # ys)) = (map_of (map (\<lambda>x. (ckey x, f x)) (xs @ ys)))(ckey x \<mapsto> f x)"
    by (auto simp: fun_eq_iff map_add_def none [OF nx] none [OF ny] split: option.split)
qed

lemma index_okD:
  assumes "index_ok c" "sc_items c k = Some i"
  obtains e where "map_of (sc_ll c) i = Some e" "ckey (i, e) = k" "sc_content c k = Some (en_value e)"
proof -
  from assms have "map_of (map (\<lambda>x. (ckey x, fst x)) (sc_ll c)) k = Some i" by (simp add: index_ok_def)
  from map_of_ckey_Some [OF this] obtain x where x: "x \<in> set (sc_ll c)" "ckey x = k" "fst x = i" by blast
  from x(1,3) assms(1) have "map_of (sc_ll c) i = Some (snd x)" unfolding index_ok_def by auto
  moreover have "sc_content c k = Some (en_value (snd x))"
    using x assms(1) unfolding sc_content_def index_ok_def
    by (intro map_of_is_SomeI) (auto simp: comp_def intro: rev_image_eqI)
  ultimately show thesis using x that [of "snd x"] by (cases x) auto
qed

lemma content_None_items: "index_ok c \<Longrightarrow> sc_content c k = None \<longleftrightarrow> sc_items c k = None"
  by (simp add: index_ok_def sc_content_def map_of_eq_None_iff image_image)

lemma removeElement_ok:
  assumes "index_ok c" "accounts_ok c" "map_of (sc_ll c) i = Some e"
  shows "index_ok (removeElementLocked c i)" "accounts_ok (removeElementLocked c i)"
    "sc_content (removeElementLocked c i) = (sc_content c)(ckey (i, e) := None)"
    "sc_capacityBytes (removeElementLocked c i) = sc_capacityBytes c"
    "sc_nextElement (removeElementLocked c i) = sc_nextElement c"
    "sc_evicted (removeElementLocked c i) = sc_evicted c @ [en_value e]"
    "sc_usedBytes (removeElementLocked c i) \<le> sc_usedBytes c"
    "sc_ll (removeElementLocked c i) = remove_id i (sc_ll c)"
proof -
  obtain xs ys where ll: "sc_ll c = xs @ (i, e) # ys" "remove_id i (sc_ll c) = xs @ ys"
    using element_split [OF _ assms(3)] assms(1) unfolding index_ok_def by metis
  let ?d = "removeElementLocked c i"
  have d: "?d = c\<lparr>sc_evicted := sc_evicted c @ [en_value e],
       sc_items := (sc_items c)(ckey (i, e) := None), sc_ll := xs @ ys,
       sc_usedBytes := (if en_sizeBytes e \<le> sc_usedBytes c then sc_usedBytes c - en_sizeBytes e else 0),
       sc_namespaceUsage := (sc_namespaceUsage c)(en_namespace e :=
         (if en_sizeBytes e \<le> sc_namespaceUsage c (en_namespace e)
          then sc_namespaceUsage c (en_namespace e) - en_sizeBytes e else 0))\<rparr>"
    using assms(3) ll by (simp add: removeElementLocked_def ckey_def Let_def)
  have dist: "distinct (map ckey (xs @ (i, e) # ys))" using assms(1) ll by (simp add: index_ok_def)
  note split = map_of_ckey_split [OF dist]
  show "index_ok ?d" using assms(1) ll split(1) [of fst] unfolding index_ok_def d by auto
  show "sc_content ?d = (sc_content c)(ckey (i, e) := None)"
    using ll split(1) [of "\<lambda>x. en_value (snd x)"] unfolding d sc_content_def by simp
  have u: "en_sizeBytes e \<le> sc_usedBytes c"
    using assms(2) ll by (simp add: accounts_ok_def word_le_nat_alt)
  have n: "en_sizeBytes e \<le> sc_namespaceUsage c (en_namespace e)"
    using assms(2) ll by (simp add: accounts_ok_def word_le_nat_alt)
  show "accounts_ok ?d"
    using assms(2) ll u n unfolding d accounts_ok_def by (auto simp: unat_sub)
  show "sc_usedBytes ?d \<le> sc_usedBytes c"
    using u unfolding d by (simp add: word_le_nat_alt unat_sub)
qed (use assms(3) in \<open>simp_all add: removeElementLocked_def Let_def\<close>)

lemma drop_existing_ok:
  assumes "index_ok c" "accounts_ok c"
  shows "index_ok (drop_existing c k)" "accounts_ok (drop_existing c k)"
    "sc_content (drop_existing c k) = (sc_content c)(k := None)"
    "sc_capacityBytes (drop_existing c k) = sc_capacityBytes c"
    "sc_usedBytes (drop_existing c k) \<le> sc_usedBytes c"
    "sc_items (drop_existing c k) k = None"
proof -
  have all: "index_ok (drop_existing c k) \<and> accounts_ok (drop_existing c k) \<and>
    sc_content (drop_existing c k) = (sc_content c)(k := None) \<and>
    sc_capacityBytes (drop_existing c k) = sc_capacityBytes c \<and> sc_usedBytes (drop_existing c k) \<le> sc_usedBytes c"
  proof (cases "sc_items c k")
    case None
    then have "sc_content c k = None" using assms(1) by (simp add: content_None_items)
    with None assms show ?thesis by (auto simp: drop_existing_def)
  next
    case (Some i)
    with assms obtain e where e: "map_of (sc_ll c) i = Some e" "ckey (i, e) = k" by (metis index_okD)
    with Some removeElement_ok [OF assms e(1)] show ?thesis by (simp add: drop_existing_def)
  qed
  then show "index_ok (drop_existing c k)" "accounts_ok (drop_existing c k)"
    "sc_content (drop_existing c k) = (sc_content c)(k := None)"
    "sc_capacityBytes (drop_existing c k) = sc_capacityBytes c"
    "sc_usedBytes (drop_existing c k) \<le> sc_usedBytes c" by simp_all
  from all show "sc_items (drop_existing c k) k = None" using content_None_items [of "drop_existing c k" k] by simp
qed

text \<open>Moving an element to the front and refreshing it keeps the accounts, the index and the content.\<close>

lemma touch_ok:
  assumes "index_ok c" "accounts_ok c"
  shows "index_ok (touchEntryLocked c i)" "accounts_ok (touchEntryLocked c i)"
    "sc_content (touchEntryLocked c i) = sc_content c"
    "sc_capacityBytes (touchEntryLocked c i) = sc_capacityBytes c"
    "sc_usedBytes (touchEntryLocked c i) = sc_usedBytes c"
    "sc_evicted (touchEntryLocked c i) = sc_evicted c"
proof -
  let ?d = "touchEntryLocked c i"
  have all: "index_ok ?d \<and> accounts_ok ?d \<and> sc_content ?d = sc_content c"
  proof (cases "map_of (sc_ll c) i")
    case None
    then show ?thesis using assms by (simp add: touchEntryLocked_def)
  next
    case (Some e)
    obtain xs ys where ll: "sc_ll c = xs @ (i, e) # ys" "remove_id i (sc_ll c) = xs @ ys"
      using element_split [OF _ Some] assms(1) unfolding index_ok_def by metis
    define e' where "e' = (bumpSharedCacheEntryFreq e)\<lparr>en_lastTouch := sc_clock c + 1\<rparr>"
    have d: "?d = c\<lparr>sc_clock := sc_clock c + 1, sc_ll := (i, e') # xs @ ys\<rparr>"
      using Some ll by (simp add: touchEntryLocked_def e'_def Let_def)
    have k: "ckey (i, e') = ckey (i, e)" "en_value e' = en_value e" "en_namespace e' = en_namespace e"
      "en_sizeBytes e' = en_sizeBytes e" "entry_ok (i, e') = entry_ok (i, e)"
      by (simp_all add: e'_def ckey_def entry_ok_def)
    have dist: "distinct (map ckey (xs @ (i, e) # ys))" using assms(1) ll by (simp add: index_ok_def)
    have "index_ok ?d"
      using assms(1) ll k map_of_ckey_split(2) [OF dist, of fst] unfolding index_ok_def d by auto
    moreover have "sc_content ?d = sc_content c"
      using ll k map_of_ckey_split(2) [OF dist, of "\<lambda>x. en_value (snd x)"] unfolding d sc_content_def by simp
    moreover have "accounts_ok ?d" using assms(2) ll k unfolding d accounts_ok_def by (simp add: ac_simps)
    ultimately show ?thesis by simp
  qed
  then show "index_ok ?d" "accounts_ok ?d" "sc_content ?d = sc_content c" by simp_all
qed (simp_all add: touchEntryLocked_def Let_def split: option.split)

section \<open>Insertion and eviction\<close>

lemma push_ok:
  assumes "index_ok c" "accounts_ok c" "sc_items c (ns, key) = None" "key \<noteq> []" "0 < sz"
    and "unat (sc_usedBytes c) + unat sz < 2 ^ 64"
  shows "index_ok (push_entry c ns key v sz freq)" "accounts_ok (push_entry c ns key v sz freq)"
    "sc_content (push_entry c ns key v sz freq) = (sc_content c)((ns, key) \<mapsto> v)"
    "sc_capacityBytes (push_entry c ns key v sz freq) = sc_capacityBytes c"
    "\<exists>x rest. sc_ll (push_entry c ns key v sz freq) = x # rest \<and> ckey x = (ns, key) \<and> en_value (snd x) = v \<and>
       en_sizeBytes (snd x) = sz"
proof -
  define i where "i = sc_nextElement c"
  define e where "e = (bumpSharedCacheEntryFreq \<lparr>en_namespace = ns, en_key = key, en_value = v, en_sizeBytes = sz,
    en_freq = freq, en_lastTouch = 0\<rparr>)\<lparr>en_lastTouch := sc_clock c + 1\<rparr>"
  let ?d = "push_entry c ns key v sz freq"
  have fresh: "\<forall>x \<in> set (sc_ll c). fst x \<noteq> i" "\<forall>x \<in> set (sc_ll c). fst x < i" using assms(1) by (auto simp: index_ok_def i_def)
  from fresh(1) have "remove_id i (sc_ll c) = sc_ll c" by (simp add: remove_id_def)
  then have d: "?d = c\<lparr>sc_clock := sc_clock c + 1, sc_ll := (i, e) # sc_ll c, sc_nextElement := i + 1,
      sc_items := (sc_items c)((ns, key) \<mapsto> i), sc_usedBytes := sc_usedBytes c + sz,
      sc_namespaceUsage := (sc_namespaceUsage c)(ns := sc_namespaceUsage c ns + sz)\<rparr>"
    by (simp add: push_entry_def touchEntryLocked_def Let_def i_def e_def remove_id_def)
  have e: "ckey (i, e) = (ns, key)" "en_value e = v" "en_namespace e = ns" "en_sizeBytes e = sz" "en_key e = key"
    by (simp_all add: e_def ckey_def)
  have new: "(ns, key) \<notin> ckey ` set (sc_ll c)"
    using assms(1,3) by (simp add: index_ok_def map_of_eq_None_iff image_image)
  show "index_ok ?d"
    using assms(1,4,5) fresh new e unfolding index_ok_def d entry_ok_def by (auto simp: less_Suc_eq)
  show "sc_content ?d = (sc_content c)((ns, key) \<mapsto> v)" using e unfolding d sc_content_def by simp
  have "ns_sizes ns (sc_ll c) + unat sz < 2 ^ 64"
    using assms(2,6) ns_sizes_le [of ns "sc_ll c"] by (simp add: accounts_ok_def)
  then show "accounts_ok ?d"
    using assms(2,6) e unfolding d accounts_ok_def by (auto simp: unat_word_ariths)
  show "sc_capacityBytes ?d = sc_capacityBytes c" by (simp add: d)
  show "\<exists>x rest. sc_ll ?d = x # rest \<and> ckey x = (ns, key) \<and> en_value (snd x) = v \<and> en_sizeBytes (snd x) = sz"
    using e by (simp add: d)
qed

lemma select_loop_not_front:
  "f \<noteq> b \<Longrightarrow> f \<notin> fst ` set_option v \<Longrightarrow> select_loop f b n v xs = Some e \<Longrightarrow> fst e \<noteq> f"
  by (induction f b n v xs rule: select_loop.induct) (auto split: if_splits)

lemma victim_not_front:
  assumes "sc_ll c = x # rest" "rest \<noteq> []" "distinct (map fst (sc_ll c))" "selectVictimLocked c = Some i"
  shows "i \<noteq> fst x"
proof -
  have "fst (last rest) \<in> fst ` set rest" using last_in_set [OF assms(2)] by (rule imageI)
  moreover have "fst x \<notin> fst ` set rest" using assms(1,3) by simp
  ultimately have ne: "fst x \<noteq> fst (last rest)" by metis
  then show ?thesis
    using assms select_loop_not_front [OF ne, of None 0 "rev (x # rest)"]
    by (auto simp: selectVictimLocked_def split: option.splits if_splits)
qed

lemma evict_ok:
  assumes "index_ok c" "accounts_ok c" "sc_ll c = x # rest" "en_sizeBytes (snd x) \<le> sc_capacityBytes c"
  shows "index_ok (evict_loop c) \<and> accounts_ok (evict_loop c) \<and> sc_content (evict_loop c) \<subseteq>\<^sub>m sc_content c \<and>
    sc_capacityBytes (evict_loop c) = sc_capacityBytes c \<and> sc_usedBytes (evict_loop c) \<le> sc_capacityBytes c \<and>
    (\<exists>rest'. sc_ll (evict_loop c) = x # rest')"
  using assms
proof (induction c arbitrary: rest rule: evict_loop.induct)
  case (1 c)
  show ?case
  proof (cases "sc_capacityBytes c < sc_usedBytes c")
    case False
    with 1(2-5) show ?thesis by (subst (1 2 3 4 5 6) evict_loop.simps) auto
  next
    case True
    have "rest \<noteq> []"
      using True 1(3-5) by (auto simp: accounts_ok_def word_less_nat_alt word_le_nat_alt)
    obtain i where i: "selectVictimLocked c = Some i"
      using 1(4) by (cases "selectVictimLocked c") (auto simp: selectVictimLocked_def split: option.splits)
    have ix: "i \<noteq> fst x"
      using victim_not_front [OF 1(4) \<open>rest \<noteq> []\<close> _ i] 1(2) by (simp add: index_ok_def)
    obtain e where e: "map_of (sc_ll c) i = Some e"
      using selectVictim_member [OF i] by (metis map_of_eq_None_iff not_Some_eq)
    let ?d = "removeElementLocked c i"
    note r = removeElement_ok [OF 1(2,3) e]
    have "sc_ll ?d = x # remove_id i rest" using r(8) 1(4) ix by (simp add: remove_id_def)
    with 1(1) [OF True i r(1,2)] 1(5) r(4)
    have "index_ok (evict_loop ?d) \<and> accounts_ok (evict_loop ?d) \<and> sc_content (evict_loop ?d) \<subseteq>\<^sub>m sc_content ?d \<and>
      sc_capacityBytes (evict_loop ?d) = sc_capacityBytes c \<and> sc_usedBytes (evict_loop ?d) \<le> sc_capacityBytes c \<and>
      (\<exists>rest'. sc_ll (evict_loop ?d) = x # rest')" by simp
    moreover have "evict_loop c = evict_loop ?d" using True i by (simp add: evict_loop.simps [of c])
    moreover have "sc_content ?d \<subseteq>\<^sub>m sc_content c" using r(3) by (auto simp: map_le_def)
    ultimately show ?thesis by (auto intro: map_le_trans)
  qed
qed

lemma unat_less_2_63: "(w :: u64) < 2 ^ 63 \<Longrightarrow> unat w < 2 ^ 63"
  by (simp add: word_less_nat_alt)

lemma Add_rejects:
  assumes "sc_inv c" "key \<noteq> []" "sc_capacityBytes c < sz"
  shows "sc_inv (cache_Add c ns key v sz) \<and> sc_content (cache_Add c ns key v sz) = (sc_content c)((ns, key) := None)"
proof -
  have i: "index_ok c" "accounts_ok c" using assms(1) by (simp_all add: sc_inv_def)
  note d = drop_existing_ok [OF i, of "(ns, key)"]
  have "cache_Add c ns key v sz = drop_existing c (ns, key)"
    using assms d(4) by (auto simp: cache_Add_def Let_def)
  with d assms(1) show ?thesis by (auto simp: sc_inv_def)
qed

lemma Add_stores:
  assumes "sc_inv c" "key \<noteq> []" "sz \<le> sc_capacityBytes c"
  shows "sc_inv (cache_Add c ns key v sz)" "sc_content (cache_Add c ns key v sz) \<subseteq>\<^sub>m (sc_content c)((ns, key) \<mapsto> v)"
    "sc_content (cache_Add c ns key v sz) (ns, key) = Some v"
    "sc_capacityBytes (cache_Add c ns key v sz) = sc_capacityBytes c"
proof -
  have i: "index_ok c" "accounts_ok c" and cap: "0 < sc_capacityBytes c" "sc_capacityBytes c < 2 ^ 63" "sc_usedBytes c \<le> sc_capacityBytes c"
    using assms(1) by (simp_all add: sc_inv_def)
  define s where "s = (if sz = 0 then 1 else sz)"
  define c1 where "c1 = drop_existing c (ns, key)"
  define c2 where "c2 = push_entry c1 ns key v s (existing_freq c (ns, key))"
  have s: "0 < s" "s \<le> sc_capacityBytes c"
    using assms(3) cap(1) by (auto simp: s_def word_le_nat_alt word_less_nat_alt unat_gt_0 Suc_le_eq)
  note d = drop_existing_ok [OF i, of "(ns, key)", folded c1_def]
  have add: "cache_Add c ns key v sz = evict_loop c2"
    using assms(2) s(2) d(4) by (simp add: cache_Add_def Let_def s_def c1_def c2_def not_less)
  have sum: "unat (sc_usedBytes c1) + unat s < 2 ^ 64"
    using d(5) s(2) cap(3) unat_less_2_63 [OF cap(2)] by (simp add: word_le_nat_alt)
  note p = push_ok [OF d(1,2,6) assms(2) s(1) sum, of v "existing_freq c (ns, key)", folded c2_def]
  obtain x rest where x: "sc_ll c2 = x # rest" "ckey x = (ns, key)" "en_value (snd x) = v" "en_sizeBytes (snd x) = s"
    using p(5) by auto
  have ev: "index_ok (evict_loop c2) \<and> accounts_ok (evict_loop c2) \<and> sc_content (evict_loop c2) \<subseteq>\<^sub>m sc_content c2 \<and>
    sc_capacityBytes (evict_loop c2) = sc_capacityBytes c2 \<and> sc_usedBytes (evict_loop c2) \<le> sc_capacityBytes c2 \<and>
    (\<exists>rest'. sc_ll (evict_loop c2) = x # rest')"
    using s(2) x(4) p(4) d(4) by (intro evict_ok [OF p(1,2) x(1)]) simp
  then show "sc_inv (cache_Add c ns key v sz)"
    using add p(4) d(4) cap by (simp add: sc_inv_def)
  show "sc_capacityBytes (cache_Add c ns key v sz) = sc_capacityBytes c" using ev add p(4) d(4) by simp
  show "sc_content (cache_Add c ns key v sz) \<subseteq>\<^sub>m (sc_content c)((ns, key) \<mapsto> v)"
    using ev add p(3) d(3) by simp
  show "sc_content (cache_Add c ns key v sz) (ns, key) = Some v"
    using ev add x(2,3) by (auto simp: sc_content_def)
qed

lemma map_le_cases: "m \<subseteq>\<^sub>m m' \<Longrightarrow> m k = None \<or> m k = m' k"
  by (auto simp: map_le_def dom_def)

lemma Add_ok:
  assumes "sc_inv c"
  shows "sc_inv (cache_Add c ns key v sz)" "sc_capacityBytes (cache_Add c ns key v sz) = sc_capacityBytes c"
    "key \<noteq> [] \<Longrightarrow> sc_content (cache_Add c ns key v sz) \<subseteq>\<^sub>m (sc_content c)((ns, key) \<mapsto> v)"
    "k \<noteq> (ns, key) \<Longrightarrow> sc_content (cache_Add c ns key v sz) k = None \<or> sc_content (cache_Add c ns key v sz) k = sc_content c k"
    "sc_content (cache_Add c ns key v sz) (ns, key) \<in> {None, Some v} \<or> key = []"
proof -
  let ?d = "cache_Add c ns key v sz"
  have all: "sc_inv ?d \<and> sc_capacityBytes ?d = sc_capacityBytes c \<and> sc_content ?d \<subseteq>\<^sub>m (sc_content c)((ns, key) \<mapsto> v)"
    if key: "key \<noteq> []"
  proof (cases "sc_capacityBytes c < sz")
    case True
    have i: "index_ok c" "accounts_ok c" using assms by (simp_all add: sc_inv_def)
    have "sc_capacityBytes ?d = sc_capacityBytes c"
      using True drop_existing_ok(4) [OF i] by (auto simp: cache_Add_def Let_def)
    with Add_rejects [OF assms key True] show ?thesis by (auto simp: map_le_def)
  next
    case False
    with Add_stores [OF assms key] show ?thesis by (simp add: not_less)
  qed
  show "sc_inv ?d" "sc_capacityBytes ?d = sc_capacityBytes c"
    using all assms by (cases "key = []"; simp add: cache_Add_def)+
  show le: "sc_content ?d \<subseteq>\<^sub>m (sc_content c)((ns, key) \<mapsto> v)" if "key \<noteq> []" using all that by simp
  show "sc_content ?d k = None \<or> sc_content ?d k = sc_content c k" if "k \<noteq> (ns, key)"
    using map_le_cases [OF le, of k] that by (cases "key = []") (simp_all add: cache_Add_def)
  show "sc_content ?d (ns, key) \<in> {None, Some v} \<or> key = []"
    using map_le_cases [OF le, of "(ns, key)"] by auto
qed

lemma Get_ok:
  assumes "sc_inv c"
  shows "fst (cache_Get c ns key) = sc_content c (ns, key)" "sc_content (snd (cache_Get c ns key)) = sc_content c"
    "sc_inv (snd (cache_Get c ns key))" "sc_capacityBytes (snd (cache_Get c ns key)) = sc_capacityBytes c"
proof -
  have i: "index_ok c" "accounts_ok c" using assms by (simp_all add: sc_inv_def)
  have "sc_content c (ns, []) = None"
    using i(1) by (auto simp: index_ok_def sc_content_def map_of_eq_None_iff entry_ok_def ckey_def)
  then show "fst (cache_Get c ns key) = sc_content c (ns, key)"
  proof (cases "sc_items c (ns, key)")
    case None
    then show ?thesis using content_None_items [OF i(1), of "(ns, key)"] \<open>sc_content c (ns, []) = None\<close>
      by (simp add: cache_Get_def)
  next
    case (Some j)
    then obtain e where "map_of (sc_ll c) j = Some e" "sc_content c (ns, key) = Some (en_value e)"
      using index_okD [OF i(1) Some] by metis
    with Some show ?thesis using \<open>sc_content c (ns, []) = None\<close>
      by (auto simp: cache_Get_def)
  qed
  show "sc_content (snd (cache_Get c ns key)) = sc_content c" "sc_inv (snd (cache_Get c ns key))"
    "sc_capacityBytes (snd (cache_Get c ns key)) = sc_capacityBytes c"
    using touch_ok [OF i] assms by (auto simp: cache_Get_def sc_inv_def split: option.split)
qed

lemma bump_elements_ok:
  fixes c :: "'v sharedByteCache"
  defines "f \<equiv> \<lambda>j (x :: 'v element). if fst x = j then (j, bumpSharedCacheEntryFreq (snd x)) else x"
  assumes "index_ok c" "accounts_ok c"
  shows "index_ok (c\<lparr>sc_ll := map (f j) (sc_ll c)\<rparr>)" "accounts_ok (c\<lparr>sc_ll := map (f j) (sc_ll c)\<rparr>)"
    "sc_content (c\<lparr>sc_ll := map (f j) (sc_ll c)\<rparr>) = sc_content c"
proof -
  have f: "fst (f j x) = fst x" "ckey (f j x) = ckey x" "en_value (snd (f j x)) = en_value (snd x)"
    "en_sizeBytes (snd (f j x)) = en_sizeBytes (snd x)" "en_namespace (snd (f j x)) = en_namespace (snd x)"
    "entry_ok (f j x) = entry_ok x" for x
    by (simp_all add: f_def ckey_def entry_ok_def)
  have ns: "sizes (map (f j) xs) = sizes xs" "ns_sizes n (map (f j) xs) = ns_sizes n xs" for xs n
    by (induction xs) (simp_all add: f)
  show "index_ok (c\<lparr>sc_ll := map (f j) (sc_ll c)\<rparr>)" "accounts_ok (c\<lparr>sc_ll := map (f j) (sc_ll c)\<rparr>)"
    "sc_content (c\<lparr>sc_ll := map (f j) (sc_ll c)\<rparr>) = sc_content c"
    using assms(2,3) unfolding index_ok_def accounts_ok_def sc_content_def
    by (simp_all add: f comp_def ns)
qed

lemma GetNoTouch_ok:
  assumes "sc_inv c"
  shows "fst (GetNoTouch c ns key) = sc_content c (ns, key)" "sc_content (snd (GetNoTouch c ns key)) = sc_content c"
    "sc_inv (snd (GetNoTouch c ns key))" "sc_capacityBytes (snd (GetNoTouch c ns key)) = sc_capacityBytes c"
proof -
  have i: "index_ok c" "accounts_ok c" using assms by (simp_all add: sc_inv_def)
  have "fst (GetNoTouch c ns key) = fst (cache_Get c ns key)"
    by (simp add: GetNoTouch_def cache_Get_def split: option.split)
  with Get_ok(1) [OF assms] show "fst (GetNoTouch c ns key) = sc_content c (ns, key)" by simp
  show "sc_content (snd (GetNoTouch c ns key)) = sc_content c" "sc_inv (snd (GetNoTouch c ns key))"
    "sc_capacityBytes (snd (GetNoTouch c ns key)) = sc_capacityBytes c"
    using bump_elements_ok [OF i] assms by (auto simp: GetNoTouch_def sc_inv_def split: option.split)
qed

lemma Remove_ok:
  assumes "sc_inv c"
  shows "sc_inv (cache_Remove c ns key)" "sc_content (cache_Remove c ns key) = (sc_content c)((ns, key) := None)"
    "sc_capacityBytes (cache_Remove c ns key) = sc_capacityBytes c"
proof -
  have i: "index_ok c" "accounts_ok c" using assms by (simp_all add: sc_inv_def)
  have "sc_content c (ns, []) = None"
    using i(1) by (auto simp: index_ok_def sc_content_def map_of_eq_None_iff entry_ok_def ckey_def)
  then show "sc_inv (cache_Remove c ns key)" "sc_content (cache_Remove c ns key) = (sc_content c)((ns, key) := None)"
    "sc_capacityBytes (cache_Remove c ns key) = sc_capacityBytes c"
    using drop_existing_ok [OF i, of "(ns, key)"] assms by (auto simp: cache_Remove_def sc_inv_def)
qed

text \<open>\<^verbatim>\<open>RemoveNamespace\<close> walks the list as it was; an element removed earlier is not met again.\<close>

lemma map_of_remove_id: "k \<noteq> j \<Longrightarrow> map_of (remove_id j ll) k = map_of ll k"
  by (induction ll) (auto simp: remove_id_def)

lemma remove_fold_ok:
  assumes "sc_inv c" "\<forall>x \<in> set xs. map_of (sc_ll c) (fst x) = Some (snd x)" "distinct (map fst xs)"
  shows "sc_inv (foldl (\<lambda>c x. if en_namespace (snd x) = ns then removeElementLocked c (fst x) else c) c xs) \<and>
    sc_ll (foldl (\<lambda>c x. if en_namespace (snd x) = ns then removeElementLocked c (fst x) else c) c xs) =
      filter (\<lambda>y. \<not> (\<exists>x \<in> set xs. fst x = fst y \<and> en_namespace (snd x) = ns)) (sc_ll c) \<and>
    sc_capacityBytes (foldl (\<lambda>c x. if en_namespace (snd x) = ns then removeElementLocked c (fst x) else c) c xs) =
      sc_capacityBytes c"
  using assms
proof (induction xs arbitrary: c)
  case (Cons x xs)
  show ?case
  proof (cases "en_namespace (snd x) = ns")
    case False
    with Cons.IH [of c] Cons.prems show ?thesis by (auto intro!: filter_cong)
  next
    case True
    let ?d = "removeElementLocked c (fst x)"
    have i: "index_ok c" "accounts_ok c" "map_of (sc_ll c) (fst x) = Some (snd x)"
      using Cons.prems by (simp_all add: sc_inv_def)
    note r = removeElement_ok [OF i]
    have inv: "sc_inv ?d" using Cons.prems(1) r by (auto simp: sc_inv_def)
    have "\<forall>y \<in> set xs. map_of (sc_ll ?d) (fst y) = Some (snd y)"
    proof
      fix y assume y: "y \<in> set xs"
      then have "fst y \<noteq> fst x" using Cons.prems(3) by (metis distinct.simps(2) image_eqI list.map(2) set_map)
      with y Cons.prems(2) r(8) show "map_of (sc_ll ?d) (fst y) = Some (snd y)" by (simp add: map_of_remove_id)
    qed
    from Cons.IH [OF inv this] Cons.prems(3) True r(4,8) show ?thesis
      by (auto simp: remove_id_def intro!: filter_cong)
  qed
qed simp

lemma RemoveNamespace_ok:
  assumes "sc_inv c"
  shows "sc_inv (RemoveNamespace c ns)" "sc_capacityBytes (RemoveNamespace c ns) = sc_capacityBytes c"
    "sc_content (RemoveNamespace c ns) = (\<lambda>k. if fst k = ns then None else sc_content c k)"
proof -
  have d: "distinct (map fst (sc_ll c))" using assms by (simp add: sc_inv_def index_ok_def)
  then have m: "\<forall>x \<in> set (sc_ll c). map_of (sc_ll c) (fst x) = Some (snd x)" by auto
  note f = remove_fold_ok [OF assms m d, of ns, folded RemoveNamespace_def]
  then show "sc_inv (RemoveNamespace c ns)" "sc_capacityBytes (RemoveNamespace c ns) = sc_capacityBytes c" by simp_all
  have "(\<exists>x \<in> set (sc_ll c). fst x = fst y \<and> en_namespace (snd x) = ns) \<longleftrightarrow> en_namespace (snd y) = ns"
    if "y \<in> set (sc_ll c)" for y using that d by (auto simp: distinct_map dest: inj_onD)
  with f have ll: "sc_ll (RemoveNamespace c ns) = filter (\<lambda>y. en_namespace (snd y) \<noteq> ns) (sc_ll c)"
    by (auto intro!: filter_cong)
  have "map_of (map (\<lambda>x. (ckey x, en_value (snd x))) (filter (\<lambda>y. en_namespace (snd y) \<noteq> ns) xs)) k =
    (if fst k = ns then None else map_of (map (\<lambda>x. (ckey x, en_value (snd x))) xs) k)" for xs :: "'a element list" and k
    by (induction xs) (auto simp: ckey_def)
  then show "sc_content (RemoveNamespace c ns) = (\<lambda>k. if fst k = ns then None else sc_content c k)"
    unfolding sc_content_def ll by presburger
qed

section \<open>The contract of a cache\<close>

text \<open>
  The shared cache in front of a store of values with their sizes: an insertion under the
  empty key does nothing, every other one leaves at most the new binding of the key.
\<close>

interpretation shared: store_cache sc_inv sc_content
  "\<lambda>c (ns, k). cache_Get c ns k" "\<lambda>c (ns, k) v. cache_Add c ns k v (sz v)" "\<lambda>(ns, k) v. k \<noteq> []" for sz
proof unfold_locales
  fix c :: "'a sharedByteCache" and k :: sharedCacheCompositeKey and v :: 'a
  obtain ns key where k: "k = (ns, key)" by (cases k)
  assume c: "sc_inv c"
  show "fst ((\<lambda>(ns, k). cache_Get c ns k) k) = sc_content c k"
    "sc_content (snd ((\<lambda>(ns, k). cache_Get c ns k) k)) \<subseteq>\<^sub>m sc_content c"
    "sc_inv (snd ((\<lambda>(ns, k). cache_Get c ns k) k))"
    using Get_ok [OF c, of ns key] k by simp_all
  show "sc_inv ((\<lambda>(ns, k) v. cache_Add c ns k v (sz v)) k v)" using Add_ok(1) [OF c] k by simp
  show "sc_content ((\<lambda>(ns, k) v. cache_Add c ns k v (sz v)) k v) \<subseteq>\<^sub>m (sc_content c)(k \<mapsto> v)"
    if "(\<lambda>(ns, k) v. k \<noteq> []) k v" using Add_ok(3) [OF c, of key ns v "sz v"] k that by simp
  show "(\<lambda>(ns, k) v. cache_Add c ns k v (sz v)) k v = c" if "\<not> (\<lambda>(ns, k) v. k \<noteq> []) k v"
    using that k by (simp add: cache_Add_def)
qed

section \<open>Runs of operations\<close>

datatype 'v cache_op =
    OpGet sharedCacheNamespace bytes | OpGetNoTouch sharedCacheNamespace bytes
  | OpAdd sharedCacheNamespace bytes 'v u64 | OpRemove sharedCacheNamespace bytes
  | OpRemoveNamespace sharedCacheNamespace

primrec cache_step :: "'v cache_op \<Rightarrow> 'v sharedByteCache \<Rightarrow> 'v option \<times> 'v sharedByteCache" where
  "cache_step (OpGet ns k) c = cache_Get c ns k"
| "cache_step (OpGetNoTouch ns k) c = GetNoTouch c ns k"
| "cache_step (OpAdd ns k v sz) c = (None, cache_Add c ns k v sz)"
| "cache_step (OpRemove ns k) c = (None, cache_Remove c ns k)"
| "cache_step (OpRemoveNamespace ns) c = (None, RemoveNamespace c ns)"

lemma new_inv: "cap < 2 ^ 63 \<Longrightarrow> sc_inv (newSharedByteCache cap)"
  by (auto simp: sc_inv_def newSharedByteCache_def index_ok_def accounts_ok_def word_neq_0_conv)

lemma step_inv:
  assumes "sc_inv c"
  shows "sc_inv (snd (cache_step op c))" "sc_capacityBytes (snd (cache_step op c)) = sc_capacityBytes c"
  by (cases op; simp add: assms Get_ok GetNoTouch_ok Add_ok Remove_ok RemoveNamespace_ok)+

lemma run_inv:
  "sc_inv c \<Longrightarrow> sc_inv (snd (run cache_step ops c)) \<and> sc_capacityBytes (snd (run cache_step ops c)) = sc_capacityBytes c"
proof (induction ops arbitrary: c)
  case (Cons op ops)
  from Cons.IH [OF step_inv(1) [OF Cons.prems, of op]] step_inv(2) [OF Cons.prems, of op]
  show ?case by (simp add: snd_run_Cons del: run.simps)
qed simp

text \<open>The values the cache has in its keeping: those in the list and those it has let go.\<close>

definition custody :: "'v sharedByteCache \<Rightarrow> 'v multiset" where
  "custody c = mset (map (\<lambda>x. en_value (snd x)) (sc_ll c)) + mset (sc_evicted c)"

definition accepted :: "'v sharedByteCache \<Rightarrow> 'v cache_op \<Rightarrow> 'v multiset" where
  "accepted c op =
     (case op of OpAdd ns k v sz \<Rightarrow> if k \<noteq> [] \<and> sz \<le> sc_capacityBytes c then {#v#} else {#} | _ \<Rightarrow> {#})"

lemma custody_remove:
  assumes "distinct (map fst (sc_ll c))"
  shows "custody (removeElementLocked c i) = custody c" "distinct (map fst (sc_ll (removeElementLocked c i)))"
proof -
  have "custody (removeElementLocked c i) = custody c \<and> distinct (map fst (sc_ll (removeElementLocked c i)))"
  proof (cases "map_of (sc_ll c) i")
    case (Some e)
    obtain xs ys where "sc_ll c = xs @ (i, e) # ys" "remove_id i (sc_ll c) = xs @ ys"
      using element_split [OF assms Some] by metis
    with Some assms show ?thesis by (simp add: removeElementLocked_def custody_def Let_def)
  qed (use assms in \<open>simp add: removeElementLocked_def\<close>)
  then show "custody (removeElementLocked c i) = custody c" "distinct (map fst (sc_ll (removeElementLocked c i)))"
    by simp_all
qed

lemma custody_touch:
  assumes "distinct (map fst (sc_ll c))"
  shows "custody (touchEntryLocked c i) = custody c \<and> distinct (map fst (sc_ll (touchEntryLocked c i)))"
proof (cases "map_of (sc_ll c) i")
  case (Some e)
  obtain xs ys where "sc_ll c = xs @ (i, e) # ys" "remove_id i (sc_ll c) = xs @ ys"
    using element_split [OF assms Some] by metis
  with Some assms show ?thesis by (auto simp: touchEntryLocked_def custody_def Let_def)
qed (use assms in \<open>simp add: touchEntryLocked_def\<close>)

lemma custody_evict: "distinct (map fst (sc_ll c)) \<Longrightarrow> custody (evict_loop c) = custody c"
proof (induction c rule: evict_loop.induct)
  case (1 c)
  then show ?case
    using custody_remove [OF 1(2)] by (subst evict_loop.simps) (auto split: option.split)
qed

lemma custody_push:
  assumes "index_ok c"
  shows "custody (push_entry c ns key v sz freq) = custody c + {#v#}"
    and "distinct (map fst (sc_ll (push_entry c ns key v sz freq)))"
proof -
  let ?e = "\<lparr>en_namespace = ns, en_key = key, en_value = v, en_sizeBytes = sz, en_freq = freq, en_lastTouch = 0\<rparr>"
  let ?c = "c\<lparr>sc_ll := (sc_nextElement c, ?e) # sc_ll c, sc_nextElement := sc_nextElement c + 1\<rparr>"
  have d: "distinct (map fst (sc_ll ?c))" using assms by (auto simp: index_ok_def)
  have "custody (push_entry c ns key v sz freq) = custody (touchEntryLocked ?c (sc_nextElement c))"
    by (simp add: push_entry_def Let_def custody_def)
  with custody_touch [OF d] show "custody (push_entry c ns key v sz freq) = custody c + {#v#}"
    by (simp add: custody_def)
  from custody_touch [OF d] show "distinct (map fst (sc_ll (push_entry c ns key v sz freq)))"
    by (simp add: push_entry_def Let_def)
qed

lemma custody_Add:
  assumes "sc_inv c"
  shows "custody (cache_Add c ns key v sz) = custody c + accepted c (OpAdd ns key v sz)"
proof -
  have i: "index_ok c" "accounts_ok c" "distinct (map fst (sc_ll c))" "0 < sc_capacityBytes c"
    using assms by (simp_all add: sc_inv_def index_ok_def)
  note d = drop_existing_ok [OF i(1,2), of "(ns, key)"]
  have dr: "custody (drop_existing c (ns, key)) = custody c"
    using custody_remove [OF i(3)] by (simp add: drop_existing_def split: option.split)
  have one: "\<not> sc_capacityBytes c < 1" using i(4) by (simp add: word_less_nat_alt)
  note p = custody_push [OF d(1)]
  show ?thesis
    using dr p(1) custody_evict [OF p(2)] d(4) one
    by (auto simp: cache_Add_def accepted_def Let_def not_less)
qed

lemma custody_bump: "custody (snd (GetNoTouch c ns k)) = custody c"
proof -
  have "{#en_value (snd x). x \<in># {#if fst x = j then (j, bumpSharedCacheEntryFreq (snd x)) else x. x \<in># M#}#} =
    {#en_value (snd x). x \<in># M#}" for j and M :: "'a element multiset"
    by (induction M) auto
  then show ?thesis by (simp add: GetNoTouch_def custody_def split: option.split)
qed

lemma custody_RemoveNamespace:
  assumes "distinct (map fst (sc_ll c))"
  shows "custody (RemoveNamespace c ns) = custody c"
proof -
  have "custody (foldl (\<lambda>c x. if en_namespace (snd x) = ns then removeElementLocked c (fst x) else c) c xs) = custody c" for xs
    using assms by (induction xs arbitrary: c) (simp_all add: custody_remove)
  then show ?thesis by (simp add: RemoveNamespace_def)
qed

lemma custody_step:
  assumes "sc_inv c"
  shows "custody (snd (cache_step op c)) = custody c + accepted c op"
proof -
  have d: "distinct (map fst (sc_ll c))" using assms by (simp add: sc_inv_def index_ok_def)
  have touch: "custody (touchEntryLocked c i) = custody c" for i using custody_touch [OF d] by simp
  show ?thesis
  proof (cases op)
    case (OpGet ns k)
    with touch show ?thesis by (simp add: accepted_def cache_Get_def split: option.split)
  next
    case (OpRemove ns k)
    with custody_remove [OF d] show ?thesis
      by (simp add: accepted_def cache_Remove_def drop_existing_def split: option.split)
  next
    case (OpAdd ns k v sz)
    with custody_Add [OF assms] show ?thesis by simp
  qed (simp_all add: accepted_def custody_bump custody_RemoveNamespace [OF d])
qed

lemma custody_run:
  assumes "sc_inv c"
  shows "custody (snd (run cache_step ops c)) = custody c + sum_list (map (accepted c) ops)"
  using assms
proof (induction ops arbitrary: c)
  case (Cons op ops)
  let ?d = "snd (cache_step op c)"
  have a: "accepted ?d = accepted c"
    using step_inv(2) [OF Cons.prems] by (auto simp: fun_eq_iff accepted_def split: cache_op.split)
  from Cons.IH [OF step_inv(1) [OF Cons.prems, of op]] a custody_step [OF Cons.prems, of op]
  show ?case by (simp add: snd_run_Cons ac_simps del: run.simps)
qed simp

section \<open>The choice of the victim\<close>

definition use_rank :: "'v element \<Rightarrow> nat \<times> nat" where
  "use_rank x = (unat (en_freq (snd x)), unat (en_lastTouch (snd x)))"

definition rank_le :: "nat \<times> nat \<Rightarrow> nat \<times> nat \<Rightarrow> bool" where
  "rank_le a b \<longleftrightarrow> fst a < fst b \<or> (fst a = fst b \<and> snd a \<le> snd b)"

lemma better_victim_rank:
  "better_victim (Some v) x \<longleftrightarrow> \<not> rank_le (use_rank v) (use_rank x)"
  by (auto simp: better_victim_def rank_le_def use_rank_def word_less_nat_alt word_unat_eq_iff)

lemma rank_le_trans: "rank_le a b \<Longrightarrow> rank_le b c \<Longrightarrow> rank_le a c"
  by (auto simp: rank_le_def)

lemma rank_le_refl: "rank_le a a"
  by (simp add: rank_le_def)

lemma rank_le_total: "\<not> rank_le a b \<Longrightarrow> rank_le b a"
  by (auto simp: rank_le_def)

lemma select_loop_least:
  assumes "\<forall>x \<in> set xs. fst x \<noteq> f" "select_loop f b n (Some v) xs = w"
  shows "\<exists>u. w = Some u \<and> u \<in> insert v (set (take (sharedCacheEvictionSample - n) xs)) \<and>
    (\<forall>x \<in> insert v (set (take (sharedCacheEvictionSample - n) xs)). rank_le (use_rank u) (use_rank x))"
  using assms
proof (induction xs arbitrary: n v)
  case Nil
  then show ?case by (intro exI [of _ v]) (simp add: rank_le_refl)
next
  case (Cons y ys)
  show ?case
  proof (cases "sharedCacheEvictionSample \<le> n")
    case True
    with Cons.prems show ?thesis by (intro exI [of _ v]) (simp add: rank_le_refl)
  next
    case False
    define v' where "v' = (if better_victim (Some v) y then y else v)"
    have t: "take (sharedCacheEvictionSample - n) (y # ys) = y # take (sharedCacheEvictionSample - (n + 1)) ys"
      using False by (simp add: not_le Suc_diff_Suc [symmetric])
    have s: "select_loop f b (n + 1) (Some v') ys = w"
      using False Cons.prems by (auto simp: v'_def split: if_splits)
    obtain u where u: "w = Some u" "u \<in> insert v' (set (take (sharedCacheEvictionSample - (n + 1)) ys))"
      "\<forall>x \<in> insert v' (set (take (sharedCacheEvictionSample - (n + 1)) ys)). rank_le (use_rank u) (use_rank x)"
      using Cons.IH [OF _ s] Cons.prems(1) by auto
    have v': "v' \<in> {v, y}" "rank_le (use_rank v') (use_rank v)" "rank_le (use_rank v') (use_rank y)"
      by (auto simp: v'_def better_victim_rank rank_le_refl dest: rank_le_total)
    have "rank_le (use_rank u) (use_rank x)" if "x \<in> insert v (set (y # take (sharedCacheEvictionSample - (n + 1)) ys))" for x
      using that u(3) v'(2,3) by (auto intro: rank_le_trans)
    moreover have "u \<in> insert v (set (y # take (sharedCacheEvictionSample - (n + 1)) ys))" using u(2) v'(1) by auto
    ultimately show ?thesis unfolding t using u(1) by blast
  qed
qed

lemma select_loop_stops_at_front:
  "\<forall>x \<in> set xs. fst x \<noteq> f \<Longrightarrow> f \<noteq> b \<Longrightarrow> fst y = f \<Longrightarrow> select_loop f b n v (xs @ [y]) = select_loop f b n v xs"
  by (induction f b n v xs rule: select_loop.induct) auto

lemma selectVictim_least:
  assumes "index_ok c" "sc_ll c = x # rest" "rest \<noteq> []"
  shows "\<exists>v \<in> set (take sharedCacheEvictionSample (rev rest)). selectVictimLocked c = Some (fst v) \<and>
    (\<forall>y \<in> set (take sharedCacheEvictionSample (rev rest)). rank_le (use_rank v) (use_rank y))"
proof -
  have nf: "\<forall>y \<in> set (rev rest). fst y \<noteq> fst x" using assms(1,2) by (auto simp: index_ok_def image_iff)
  have lb: "fst x \<noteq> fst (last rest)" using nf last_in_set [OF assms(3)] by (metis set_rev)
  obtain l ls where r: "rev rest = l # ls" using assms(3) by (cases "rev rest") auto
  have fl: "fst l \<noteq> fst x" "\<forall>y \<in> set ls. fst y \<noteq> fst x" using nf r by auto
  have "select_loop (fst x) (fst (last rest)) 0 None (rev rest @ [x]) = select_loop (fst x) (fst (last rest)) 1 (Some l) ls"
    using select_loop_stops_at_front [OF nf lb refl, of 0 None] fl(1) r
    by (simp add: better_victim_def sharedCacheEvictionSample_def)
  moreover obtain u where u: "select_loop (fst x) (fst (last rest)) 1 (Some l) ls = Some u"
    "u \<in> insert l (set (take (sharedCacheEvictionSample - 1) ls))"
    "\<forall>y \<in> insert l (set (take (sharedCacheEvictionSample - 1) ls)). rank_le (use_rank u) (use_rank y)"
    using select_loop_least [OF fl(2) refl, of "fst (last rest)" 1 l] by blast
  moreover have "take sharedCacheEvictionSample (rev rest) = l # take (sharedCacheEvictionSample - 1) ls"
    by (simp add: r sharedCacheEvictionSample_def)
  moreover have "selectVictimLocked c = Some (fst u)"
    using calculation(1,2) assms(2,3) by (simp add: selectVictimLocked_def)
  ultimately show ?thesis by (metis list.simps(15))
qed

section \<open>Properties\<close>

text \<open>
  C12. The byte accounts of the shared cache are exact and within the budget: after any
  sequence of operations on a cache with a capacity below 2^63 bytes, the used bytes are the
  sum of the sizes of the live entries, the usage of each namespace is the sum over its
  entries, no entry is indexed that is not live, and the sum never exceeds the capacity.
\<close>

theorem shared_cache_accounts:
  assumes "cap < 2 ^ 63"
  shows "let c = snd (run cache_step ops (newSharedByteCache cap)) in
     unat (sc_usedBytes c) = sizes (sc_ll c) \<and> sc_usedBytes c \<le> (if cap = 0 then 1 else cap) \<and>
     (\<forall>ns. unat (fst (NamespaceStats c ns)) = ns_sizes ns (sc_ll c)) \<and>
     dom (sc_items c) = ckey ` set (sc_ll c) \<and> distinct (map ckey (sc_ll c))"
proof -
  let ?c = "snd (run cache_step ops (newSharedByteCache cap))"
  have "sc_inv ?c" "sc_capacityBytes ?c = (if cap = 0 then 1 else cap)"
    using run_inv [OF new_inv [OF assms], of ops] by (simp_all add: newSharedByteCache_def)
  then show ?thesis
    by (simp add: Let_def sc_inv_def accounts_ok_def index_ok_def NamespaceStats_def dom_map_of_conv_image_fst image_image)
qed

theorem shared_cache_accounts_witness:
  "let c = snd (run cache_step [OpAdd sharedCacheNamespaceNode [1] True 3, OpAdd sharedCacheNamespaceStorage [2] False 4]
     (newSharedByteCache 5)) in unat (sc_usedBytes c) = 4 \<and> unat (sc_usedBytes c) = sizes (sc_ll c)"
  (is "let c = ?c in _ c \<and> _ c")
proof -
  have "unat (sc_usedBytes ?c) = 4" by code_simp
  moreover have "(5 :: u64) < 2 ^ 63" by simp
  from shared_cache_accounts [OF this, unfolded Let_def, THEN conjunct1]
  have "unat (sc_usedBytes ?c) = sizes (sc_ll ?c)" .
  ultimately show ?thesis unfolding Let_def by (rule conjI)
qed

text \<open>
  C20. An insertion survives its own eviction loop: after any sequence of operations, a value
  added under a non-empty key is what the next lookup of that key returns when its size fits
  the capacity; a value larger than the capacity is not kept and takes the older binding of
  its key away, so no stale value is left; every other key keeps its value or is evicted.
\<close>

theorem add_survives_eviction:
  assumes "cap < 2 ^ 63" and "key \<noteq> []" and "c = snd (run cache_step ops (newSharedByteCache cap))"
  shows "fst (cache_Get (cache_Add c ns key v sz) ns key) = (if sz \<le> sc_capacityBytes c then Some v else None) \<and>
     ((ns', key') \<noteq> (ns, key) \<longrightarrow>
        fst (cache_Get (cache_Add c ns key v sz) ns' key') \<in> {None, fst (cache_Get c ns' key')})"
proof -
  have c: "sc_inv c" using run_inv [OF new_inv [OF assms(1)], of ops] assms(3) by simp
  note g = Get_ok(1) [OF Add_ok(1) [OF c]] Get_ok(1) [OF c]
  show ?thesis
    using Add_stores(3) [OF c assms(2)] Add_rejects [OF c assms(2)] Add_ok(4) [OF c, of "(ns', key')" ns key v sz]
    by (auto simp: g not_le)
qed

theorem add_survives_eviction_witness:
  "let c = snd (run cache_step [OpAdd sharedCacheNamespaceNode [1] True 3] (newSharedByteCache 5)) in
     fst (cache_Get (cache_Add c sharedCacheNamespaceNode [2] False 4) sharedCacheNamespaceNode [2]) = Some False"
proof -
  have "sc_capacityBytes (snd (run cache_step [OpAdd sharedCacheNamespaceNode [1] True 3] (newSharedByteCache 5))) = 5"
    by code_simp
  then show ?thesis
    using add_survives_eviction [of 5 "[2]" _ "[OpAdd sharedCacheNamespaceNode [1] True 3]"
      sharedCacheNamespaceNode False 4 sharedCacheNamespaceNode "[1]", OF _ _ refl]
    unfolding Let_def by simp
qed

text \<open>
  The victim of an eviction is, among the last entries of the list up to the sample size
  and without the entry at the front, the one of least frequency, and of the least recent use
  among those.
\<close>

theorem victim_least_used:
  assumes "cap < 2 ^ 63" and "c = snd (run cache_step ops (newSharedByteCache cap))" and "sc_ll c = x # rest" "rest \<noteq> []"
  shows "\<exists>v \<in> set (take sharedCacheEvictionSample (rev rest)). selectVictimLocked c = Some (fst v) \<and>
     (\<forall>y \<in> set (take sharedCacheEvictionSample (rev rest)). rank_le (use_rank v) (use_rank y))"
proof (rule selectVictim_least [OF _ assms(3,4)])
  show "index_ok c" using run_inv [OF new_inv [OF assms(1)], of ops] assms(2) by (simp add: sc_inv_def)
qed

theorem victim_least_used_witness:
  "let c = snd (run cache_step [OpAdd sharedCacheNamespaceNode [1] True 3, OpAdd sharedCacheNamespaceStorage [2] False 4]
     (newSharedByteCache 50)) in \<exists>v \<in> set (rev (tl (sc_ll c))). selectVictimLocked c = Some (fst v)"
proof -
  let ?c = "snd (run cache_step [OpAdd sharedCacheNamespaceNode [1] True 3, OpAdd sharedCacheNamespaceStorage [2] False 4]
     (newSharedByteCache 50))"
  have len: "length (sc_ll ?c) = 2" by code_simp
  obtain x xs where x: "sc_ll ?c = x # xs" using len by (cases "sc_ll ?c") (simp_all del: run.simps)
  with len obtain y where y: "xs = [y]" by (cases xs) (simp_all del: run.simps)
  have cap: "(50 :: u64) < 2 ^ 63" by simp
  have "xs \<noteq> []" by (simp add: y)
  from victim_least_used [OF cap refl x this] obtain v where
    "v \<in> set (take sharedCacheEvictionSample (rev xs))" "selectVictimLocked ?c = Some (fst v)" by blast
  moreover have "set (take sharedCacheEvictionSample (rev xs)) = set (rev (tl (sc_ll ?c)))"
    by (simp only: x y sharedCacheEvictionSample_def) simp
  ultimately show ?thesis unfolding Let_def by blast
qed

text \<open>
  C21. Every value the cache accepts is let go at most once and none is lost: after any
  sequence of operations the values in the cache together with the values whose eviction was
  notified are exactly the values of the accepted insertions.
\<close>

theorem evicted_exactly_once:
  assumes "cap < 2 ^ 63"
  shows "let c = snd (run cache_step ops (newSharedByteCache cap)) in
     mset (map (\<lambda>x. en_value (snd x)) (sc_ll c)) + mset (sc_evicted c) =
       sum_list (map (accepted (newSharedByteCache cap)) ops)"
  using custody_run [OF new_inv [OF assms], of ops]
  by (simp add: Let_def custody_def newSharedByteCache_def)

theorem evicted_exactly_once_witness:
  "let c = snd (run cache_step [OpAdd sharedCacheNamespaceNode [1] True 3, OpAdd sharedCacheNamespaceStorage [2] False 4]
     (newSharedByteCache 5)) in
     mset (map (\<lambda>x. en_value (snd x)) (sc_ll c)) + mset (sc_evicted c) = {#False, True#} \<and> sc_evicted c = [True]"
  (is "let c = ?c in _ c \<and> _ c")
proof -
  let ?ops = "[OpAdd sharedCacheNamespaceNode [1] True 3, OpAdd sharedCacheNamespaceStorage [2] False 4]"
  have "sc_evicted ?c = [True]" by code_simp
  moreover have "(5 :: u64) < 2 ^ 63" by simp
  from evicted_exactly_once [OF this, of ?ops, unfolded Let_def]
  have "mset (map (\<lambda>x. en_value (snd x)) (sc_ll ?c)) + mset (sc_evicted ?c) = sum_list (map (accepted (newSharedByteCache 5)) ?ops)" .
  moreover have "sum_list (map (accepted (newSharedByteCache 5)) ?ops) = {#False, True#}"
    by (simp add: accepted_def newSharedByteCache_def add_mset_commute)
  ultimately show ?thesis unfolding Let_def by (metis conjI)
qed

end
