(* ===== verification/Node_Cache.thy ===== *)
theory Node_Cache
  imports Shared_Cache
begin

text \<open>
  The typed views over the shared cache: the node cache of \<^verbatim>\<open>prefixdb/cache.go\<close>, and the
  storage value cache and the segment index cache of \<^verbatim>\<open>prefixdb/shared_cache.go\<close>, with the
  reference-counted buffers of the node-file cache (\<^verbatim>\<open>prefixdb/prefixTree.go\<close>). The values
  that the code passes as \<^verbatim>\<open>interface{}\<close> are the constructors of \<open>cached\<close>; a type assertion
  that would panic is \<open>None\<close>. The theory shows that no assertion panics, that the bounded
  node cache never disagrees with an unbounded one, that the segment index cache never
  confuses two of its keys, and that a cached buffer is given back exactly once and never
  while a reader holds it.
\<close>

section \<open>Values\<close>

record StorageInfo =
  si_storageFileID :: u32
  si_storageOffset :: u64
  si_storageSize :: u64

record nodeCacheRecord =
  nr_value :: bytes
  nr_accountOffset :: u64
  nr_accountSize :: u32
  nr_storageInfo :: StorageInfo

record NodeCacheEntry =
  ne_Key :: bytes
  ne_Value :: bytes
  ne_AccountOffset :: u64
  ne_AccountSize :: u32
  ne_StorageInfo :: StorageInfo

record segmentChunkMeta =
  cm_FileName :: bytes
  cm_KeyStart :: bytes

datatype segmentIndexLayoutMode = indexLayoutFlat | indexLayoutMultiLevel

record segmentIndexL1Entry =
  l1_MetaID :: u32
  l1_KeyStart :: bytes
  l1_ChunkCount :: u32

record segmentIndexLayout =
  sl_mode :: segmentIndexLayoutMode
  sl_entries :: "segmentIndexL1Entry list"
  sl_nextMetaID :: u32
  sl_flatData :: bytes

record segmentIndexCacheEntry =
  se_folderKey :: bytes
  se_metas :: "segmentChunkMeta list"
  se_sizeBytes :: u64

record segmentIndexLayoutCacheEntry =
  sle_layout :: segmentIndexLayout
  sle_sizeBytes :: u64

datatype cached =
    NodeRecord nodeCacheRecord
  | StorageValue "bytes option"
  | SegmentMetas segmentIndexCacheEntry
  | SegmentLayout segmentIndexLayoutCacheEntry
  | FileNodeRef nat

type_synonym shared_cache = "cached sharedByteCache"

text \<open>A nil slice and an empty one are the same list; a copy is the list itself.\<close>

definition cloneBytes :: "bytes \<Rightarrow> bytes" where
  "cloneBytes src = (if length src = 0 then [] else src)"

lemma cloneBytes_id [simp]: "cloneBytes bs = bs"
  by (simp add: cloneBytes_def)

section \<open>The node cache\<close>

definition estimateNodeCacheRecordSize :: "bytes \<Rightarrow> nodeCacheRecord \<Rightarrow> u64" where
  "estimateNodeCacheRecordSize key rec =
     (let total = word_of_nat (length key) + word_of_nat (length (nr_value rec)) + 64
      in if total = 0 then 1 else total)"

definition add_record :: "shared_cache \<Rightarrow> bytes \<Rightarrow> nodeCacheRecord \<Rightarrow> shared_cache" where
  "add_record c key rec =
     cache_Add c sharedCacheNamespaceNode key (NodeRecord rec) (estimateNodeCacheRecordSize key rec)"

text \<open>
  \<^verbatim>\<open>shared.Get\<close> followed by the assertion \<^verbatim>\<open>raw.(*nodeCacheRecord)\<close>: the record when the
  key is cached, \<open>None\<close> as a whole when the assertion panics.
\<close>

definition get_record :: "shared_cache \<Rightarrow> bytes \<Rightarrow> (nodeCacheRecord option \<times> shared_cache) option" where
  "get_record c key =
     (case cache_Get c sharedCacheNamespaceNode key of
        (None, c') \<Rightarrow> Some (None, c')
      | (Some (NodeRecord r), c') \<Rightarrow> Some (Some r, c')
      | (Some _, _) \<Rightarrow> None)"

definition nc_Clear :: "shared_cache \<Rightarrow> shared_cache" where
  "nc_Clear c = RemoveNamespace c sharedCacheNamespaceNode"

definition nc_Get :: "shared_cache \<Rightarrow> bytes \<Rightarrow> (NodeCacheEntry option \<times> shared_cache) option" where
  "nc_Get c key =
     (if key = [] then Some (None, c)
      else case get_record c key of
          None \<Rightarrow> None
        | Some (None, c') \<Rightarrow> Some (None, c')
        | Some (Some rec, c') \<Rightarrow>
            Some (Some \<lparr>ne_Key = key, ne_Value = cloneBytes (nr_value rec), ne_AccountOffset = nr_accountOffset rec,
                        ne_AccountSize = nr_accountSize rec, ne_StorageInfo = nr_storageInfo rec\<rparr>, c'))"

definition nc_Put :: "shared_cache \<Rightarrow> NodeCacheEntry \<Rightarrow> shared_cache" where
  "nc_Put c entry =
     (if ne_Key entry = [] then c
      else add_record c (ne_Key entry)
        \<lparr>nr_value = cloneBytes (ne_Value entry), nr_accountOffset = ne_AccountOffset entry,
         nr_accountSize = ne_AccountSize entry, nr_storageInfo = ne_StorageInfo entry\<rparr>)"

definition with_metadata :: "nodeCacheRecord option \<Rightarrow> u64 \<Rightarrow> u32 \<Rightarrow> StorageInfo \<Rightarrow> nodeCacheRecord" where
  "with_metadata current accountOffset accountSize storageInfo =
     (let rec = \<lparr>nr_value = [], nr_accountOffset = accountOffset, nr_accountSize = accountSize,
                 nr_storageInfo = storageInfo\<rparr> in
      case current of
        None \<Rightarrow> rec
      | Some cur \<Rightarrow>
          (let rec = rec\<lparr>nr_value := cloneBytes (nr_value cur)\<rparr> in
           if nr_accountSize rec = 0 \<and> nr_accountOffset rec = nr_accountOffset cur
           then rec\<lparr>nr_accountSize := nr_accountSize cur\<rparr> else rec))"

definition nc_StoreMetadata :: "shared_cache \<Rightarrow> bytes \<Rightarrow> u64 \<Rightarrow> u32 \<Rightarrow> StorageInfo \<Rightarrow> shared_cache option" where
  "nc_StoreMetadata c key accountOffset accountSize storageInfo =
     (if key = [] then Some c
      else case get_record c key of
          None \<Rightarrow> None
        | Some (cur, c') \<Rightarrow> Some (add_record c' key (with_metadata cur accountOffset accountSize storageInfo)))"

text \<open>The three updates that apply only to a cached entry.\<close>

definition update_cached :: "shared_cache \<Rightarrow> bytes \<Rightarrow> (nodeCacheRecord \<Rightarrow> nodeCacheRecord) \<Rightarrow> shared_cache option" where
  "update_cached c key f =
     (if key = [] then Some c
      else case get_record c key of
          None \<Rightarrow> None
        | Some (None, c') \<Rightarrow> Some c'
        | Some (Some cur, c') \<Rightarrow> Some (add_record c' key (f cur)))"

definition nc_UpdateValue :: "shared_cache \<Rightarrow> bytes \<Rightarrow> bytes \<Rightarrow> shared_cache option" where
  "nc_UpdateValue c key value =
     update_cached c key (\<lambda>cur. \<lparr>nr_value = cloneBytes value, nr_accountOffset = nr_accountOffset cur,
       nr_accountSize = nr_accountSize cur, nr_storageInfo = nr_storageInfo cur\<rparr>)"

definition nc_UpdateAccountOffset :: "shared_cache \<Rightarrow> bytes \<Rightarrow> u64 \<Rightarrow> u32 \<Rightarrow> shared_cache option" where
  "nc_UpdateAccountOffset c key accountOffset accountSize =
     update_cached c key (\<lambda>cur. \<lparr>nr_value = cloneBytes (nr_value cur), nr_accountOffset = accountOffset,
       nr_accountSize = accountSize, nr_storageInfo = nr_storageInfo cur\<rparr>)"

definition nc_UpdateStoragePointer :: "shared_cache \<Rightarrow> bytes \<Rightarrow> StorageInfo \<Rightarrow> shared_cache option" where
  "nc_UpdateStoragePointer c key storageInfo =
     update_cached c key (\<lambda>cur. \<lparr>nr_value = cloneBytes (nr_value cur), nr_accountOffset = nr_accountOffset cur,
       nr_accountSize = nr_accountSize cur, nr_storageInfo = storageInfo\<rparr>)"

definition nc_Delete :: "shared_cache \<Rightarrow> bytes \<Rightarrow> shared_cache" where
  "nc_Delete c key = (if key = [] then c else cache_Remove c sharedCacheNamespaceNode key)"

section \<open>The storage value cache\<close>

text \<open>A cached storage value is a byte string, or nil for a key known to be absent.\<close>

definition estimateStorageCacheValueSize :: "bytes \<Rightarrow> bytes option \<Rightarrow> u64" where
  "estimateStorageCacheValueSize key value =
     (let total = word_of_nat (length key) + 16 + (case value of None \<Rightarrow> 0 | Some v \<Rightarrow> word_of_nat (length v))
      in if total = 0 then 1 else total)"

definition sv_Get :: "shared_cache \<Rightarrow> bytes \<Rightarrow> cached option \<times> shared_cache" where
  "sv_Get c key = cache_Get c sharedCacheNamespaceStorage key"

definition sv_Add :: "shared_cache \<Rightarrow> bytes \<Rightarrow> bytes option \<Rightarrow> shared_cache" where
  "sv_Add c key value =
     (if key = [] then c
      else cache_Add c sharedCacheNamespaceStorage key (StorageValue value) (estimateStorageCacheValueSize key value))"

definition sv_Remove :: "shared_cache \<Rightarrow> bytes \<Rightarrow> shared_cache" where
  "sv_Remove c key = cache_Remove c sharedCacheNamespaceStorage key"

section \<open>The segment index cache\<close>

definition ascii :: "string \<Rightarrow> bytes" where
  "ascii s = map (\<lambda>ch. word_of_nat (of_char ch)) s"

definition segmentIndexFolderIDCacheKey :: "u32 \<Rightarrow> bytes" where
  "segmentIndexFolderIDCacheKey folderID = ascii ''id:'' @ PutUint32 folderID"

definition segmentIndexCacheKey :: "bytes \<Rightarrow> bytes" where
  "segmentIndexCacheKey folderKey = ascii ''l1:'' @ folderKey"

definition segmentIndexLayoutCacheKey :: "bytes \<Rightarrow> bytes" where
  "segmentIndexLayoutCacheKey folderKey = ascii ''layout:'' @ folderKey"

definition segmentIndexLevel2CacheKey :: "bytes \<Rightarrow> u32 \<Rightarrow> u64 \<Rightarrow> bytes" where
  "segmentIndexLevel2CacheKey folderKey metaID generation =
     ascii ''l2:'' @ folderKey @ ascii '':'' @ PutUint32 metaID @ PutUint64 generation"

definition estimateSegmentChunkMetasMemory :: "segmentChunkMeta list \<Rightarrow> u64" where
  "estimateSegmentChunkMetasMemory metas =
     (if metas = [] then 0
      else foldl (\<lambda>total m. total + word_of_nat (length (cm_FileName m)) + word_of_nat (length (cm_KeyStart m)))
             (word_of_nat (length metas) * 40) metas)"

definition estimateSegmentIndexLayoutMemory :: "segmentIndexLayout \<Rightarrow> u64" where
  "estimateSegmentIndexLayoutMemory layout =
     (let total = foldl (\<lambda>total e. total + word_of_nat (length (l1_KeyStart e)))
        (64 + word_of_nat (length (sl_flatData layout)) + word_of_nat (length (sl_entries layout)) * 40) (sl_entries layout)
      in if total = 0 then 1 else total)"

definition cloneSegmentChunkMetas :: "segmentChunkMeta list \<Rightarrow> segmentChunkMeta list" where
  "cloneSegmentChunkMetas src =
     (if src = [] then []
      else map (\<lambda>m. \<lparr>cm_FileName = cm_FileName m, cm_KeyStart = cloneBytes (cm_KeyStart m)\<rparr>) src)"

definition cloneSegmentIndexLayout :: "segmentIndexLayout \<Rightarrow> segmentIndexLayout" where
  "cloneSegmentIndexLayout src =
     \<lparr>sl_mode = sl_mode src,
      sl_entries = (if sl_entries src = [] then []
        else map (\<lambda>e. \<lparr>l1_MetaID = l1_MetaID e, l1_KeyStart = cloneBytes (l1_KeyStart e),
                       l1_ChunkCount = l1_ChunkCount e\<rparr>) (sl_entries src)),
      sl_nextMetaID = sl_nextMetaID src,
      sl_flatData = (if 0 < length (sl_flatData src) then cloneBytes (sl_flatData src) else [])\<rparr>"

lemma clone_ids [simp]:
  "cloneSegmentChunkMetas metas = metas" "cloneSegmentIndexLayout layout = layout"
proof -
  have "map (\<lambda>e. \<lparr>l1_MetaID = l1_MetaID e, l1_KeyStart = l1_KeyStart e, l1_ChunkCount = l1_ChunkCount e\<rparr>) es = es" for es
    by (rule map_idI) simp
  then show "cloneSegmentIndexLayout layout = layout" by (cases layout) (simp add: cloneSegmentIndexLayout_def)
qed (auto simp: cloneSegmentChunkMetas_def intro: map_idI)

record segmentIndexCache =
  ix_shared :: shared_cache
  ix_capacityBytes :: u64
  ix_usedBytes :: u64
  ix_layouts :: "bytes \<rightharpoonup> segmentIndexLayout"

definition refreshUsage :: "segmentIndexCache \<Rightarrow> segmentIndexCache" where
  "refreshUsage c =
     (let (used, cap) = NamespaceStats (ix_shared c) sharedCacheNamespaceSegmentIndex
      in c\<lparr>ix_usedBytes := used, ix_capacityBytes := cap\<rparr>)"

definition newSharedSegmentIndexCache :: "shared_cache \<Rightarrow> segmentIndexCache" where
  "newSharedSegmentIndexCache shared =
     refreshUsage \<lparr>ix_shared = shared, ix_capacityBytes = 0, ix_usedBytes = 0, ix_layouts = Map.empty\<rparr>"

definition newSegmentIndexCache :: "int \<Rightarrow> segmentIndexCache option" where
  "newSegmentIndexCache capacityMiB =
     (if capacityMiB \<le> 0 then None
      else Some (newSharedSegmentIndexCache (newSharedByteCache (word_of_int capacityMiB * 1024 * 1024))))"

definition lookup_metas :: "segmentIndexCache \<Rightarrow> bytes \<Rightarrow> segmentChunkMeta list option \<times> segmentIndexCache" where
  "lookup_metas c key =
     (case GetNoTouch (ix_shared c) sharedCacheNamespaceSegmentIndex key of
        (Some (SegmentMetas entry), s) \<Rightarrow> (Some (se_metas entry), c\<lparr>ix_shared := s\<rparr>)
      | (_, s) \<Rightarrow> (None, c\<lparr>ix_shared := s\<rparr>))"

definition GetByPath :: "segmentIndexCache \<Rightarrow> bytes \<Rightarrow> segmentChunkMeta list option \<times> segmentIndexCache" where
  "GetByPath c folderPath = lookup_metas c (segmentIndexCacheKey folderPath)"

definition ix_Get :: "segmentIndexCache \<Rightarrow> u32 \<Rightarrow> segmentChunkMeta list option \<times> segmentIndexCache" where
  "ix_Get c folderID = GetByPath c (segmentIndexFolderIDCacheKey folderID)"

definition GetLevel2ByPath :: "segmentIndexCache \<Rightarrow> bytes \<Rightarrow> u32 \<Rightarrow> u64 \<Rightarrow> segmentChunkMeta list option \<times> segmentIndexCache" where
  "GetLevel2ByPath c folderPath metaID generation =
     lookup_metas c (segmentIndexLevel2CacheKey folderPath metaID generation)"

definition GetLevel2 :: "segmentIndexCache \<Rightarrow> u32 \<Rightarrow> u32 \<Rightarrow> u64 \<Rightarrow> segmentChunkMeta list option \<times> segmentIndexCache" where
  "GetLevel2 c folderID metaID generation = GetLevel2ByPath c (segmentIndexFolderIDCacheKey folderID) metaID generation"

definition GetLayoutByPath :: "segmentIndexCache \<Rightarrow> bytes \<Rightarrow> segmentIndexLayout option \<times> segmentIndexCache" where
  "GetLayoutByPath c folderPath =
     (case ix_layouts c folderPath of
        Some layout \<Rightarrow> (Some layout, c)
      | None \<Rightarrow>
          (case GetNoTouch (ix_shared c) sharedCacheNamespaceSegmentIndex (segmentIndexLayoutCacheKey folderPath) of
             (Some (SegmentLayout entry), s) \<Rightarrow> (Some (sle_layout entry), c\<lparr>ix_shared := s\<rparr>)
           | (_, s) \<Rightarrow> (None, c\<lparr>ix_shared := s\<rparr>)))"

definition remove_key :: "segmentIndexCache \<Rightarrow> bytes \<Rightarrow> segmentIndexCache" where
  "remove_key c key =
     refreshUsage (c\<lparr>ix_shared := cache_Remove (ix_shared c) sharedCacheNamespaceSegmentIndex key\<rparr>)"

definition add_key :: "segmentIndexCache \<Rightarrow> bytes \<Rightarrow> cached \<Rightarrow> u64 \<Rightarrow> segmentIndexCache" where
  "add_key c key v sizeBytes =
     refreshUsage (c\<lparr>ix_shared := cache_Add (ix_shared c) sharedCacheNamespaceSegmentIndex key v sizeBytes\<rparr>)"

definition addByPath :: "segmentIndexCache \<Rightarrow> bytes \<Rightarrow> segmentChunkMeta list \<Rightarrow> bool \<Rightarrow> segmentIndexCache" where
  "addByPath c folderPath metas cloneMetas =
     (let sizeBytes = estimateSegmentChunkMetasMemory metas in
      if sizeBytes = 0 then remove_key c (segmentIndexCacheKey folderPath)
      else let stored = (if cloneMetas then cloneSegmentChunkMetas metas else metas)
           in add_key c (segmentIndexCacheKey folderPath)
                (SegmentMetas \<lparr>se_folderKey = folderPath, se_metas = stored, se_sizeBytes = sizeBytes\<rparr>) sizeBytes)"

definition addLevel2ByPath :: "segmentIndexCache \<Rightarrow> bytes \<Rightarrow> u32 \<Rightarrow> u64 \<Rightarrow> segmentChunkMeta list \<Rightarrow> bool \<Rightarrow> segmentIndexCache" where
  "addLevel2ByPath c folderPath metaID generation metas cloneMetas =
     (let sizeBytes = estimateSegmentChunkMetasMemory metas;
          key = segmentIndexLevel2CacheKey folderPath metaID generation in
      if sizeBytes = 0 then remove_key c key
      else let stored = (if cloneMetas then cloneSegmentChunkMetas metas else metas)
           in add_key c key
                (SegmentMetas \<lparr>se_folderKey = folderPath, se_metas = stored, se_sizeBytes = sizeBytes\<rparr>) sizeBytes)"

definition AddLayoutByPath :: "segmentIndexCache \<Rightarrow> bytes \<Rightarrow> segmentIndexLayout \<Rightarrow> segmentIndexCache" where
  "AddLayoutByPath c folderPath layout =
     (if folderPath = [] then c
      else if sl_mode layout \<noteq> indexLayoutMultiLevel
      then let c1 = c\<lparr>ix_layouts := (ix_layouts c)(folderPath := None)\<rparr>;
               sizeBytes = estimateSegmentIndexLayoutMemory layout in
           if sizeBytes = 0 then remove_key c1 (segmentIndexLayoutCacheKey folderPath)
           else add_key c1 (segmentIndexLayoutCacheKey folderPath)
                  (SegmentLayout \<lparr>sle_layout = cloneSegmentIndexLayout layout, sle_sizeBytes = sizeBytes\<rparr>) sizeBytes
      else let c1 = remove_key c (segmentIndexLayoutCacheKey folderPath)
           in c1\<lparr>ix_layouts := (ix_layouts c1)(folderPath \<mapsto> cloneSegmentIndexLayout layout)\<rparr>)"

definition RemoveByPath :: "segmentIndexCache \<Rightarrow> bytes \<Rightarrow> segmentIndexCache" where
  "RemoveByPath c folderPath = remove_key c (segmentIndexCacheKey folderPath)"

definition RemoveLayoutByPath :: "segmentIndexCache \<Rightarrow> bytes \<Rightarrow> segmentIndexCache" where
  "RemoveLayoutByPath c folderPath =
     (if folderPath = [] then c
      else remove_key (c\<lparr>ix_layouts := (ix_layouts c)(folderPath := None)\<rparr>) (segmentIndexLayoutCacheKey folderPath))"

section \<open>The bounded node cache against an unbounded one\<close>

datatype node_op =
    NodePut NodeCacheEntry | NodeStoreMetadata bytes u64 u32 StorageInfo | NodeUpdateValue bytes bytes
  | NodeUpdateAccountOffset bytes u64 u32 | NodeUpdateStoragePointer bytes StorageInfo
  | NodeDelete bytes | NodeGet bytes | NodeClear | OtherView "cached cache_op"

text \<open>An operation of another view: it names a namespace of its own.\<close>

primrec op_namespace :: "'v cache_op \<Rightarrow> sharedCacheNamespace" where
  "op_namespace (OpGet ns k) = ns"
| "op_namespace (OpGetNoTouch ns k) = ns"
| "op_namespace (OpAdd ns k v sz) = ns"
| "op_namespace (OpRemove ns k) = ns"
| "op_namespace (OpRemoveNamespace ns) = ns"

primrec node_op_ok :: "node_op \<Rightarrow> bool" where
  "node_op_ok (NodePut e) = True"
| "node_op_ok (NodeStoreMetadata k off sz si) = True"
| "node_op_ok (NodeUpdateValue k v) = True"
| "node_op_ok (NodeUpdateAccountOffset k off sz) = True"
| "node_op_ok (NodeUpdateStoragePointer k si) = True"
| "node_op_ok (NodeDelete k) = True"
| "node_op_ok (NodeGet k) = True"
| "node_op_ok NodeClear = True"
| "node_op_ok (OtherView op) = (op_namespace op \<noteq> sharedCacheNamespaceNode)"

primrec node_step :: "node_op \<Rightarrow> shared_cache \<Rightarrow> shared_cache option" where
  "node_step (NodePut e) c = Some (nc_Put c e)"
| "node_step (NodeStoreMetadata k off sz si) c = nc_StoreMetadata c k off sz si"
| "node_step (NodeUpdateValue k v) c = nc_UpdateValue c k v"
| "node_step (NodeUpdateAccountOffset k off sz) c = nc_UpdateAccountOffset c k off sz"
| "node_step (NodeUpdateStoragePointer k si) c = nc_UpdateStoragePointer c k si"
| "node_step (NodeDelete k) c = Some (nc_Delete c k)"
| "node_step (NodeGet k) c = map_option snd (nc_Get c k)"
| "node_step NodeClear c = Some (nc_Clear c)"
| "node_step (OtherView op) c = Some (snd (cache_step op c))"

primrec run_steps :: "('o \<Rightarrow> 's \<Rightarrow> 's option) \<Rightarrow> 'o list \<Rightarrow> 's \<Rightarrow> 's option" where
  "run_steps step [] s = Some s"
| "run_steps step (op # ops) s = (case step op s of None \<Rightarrow> None | Some s' \<Rightarrow> run_steps step ops s')"

definition set_if_key :: "bytes \<Rightarrow> (bytes \<rightharpoonup> 'r) \<Rightarrow> (bytes \<rightharpoonup> 'r) \<Rightarrow> (bytes \<rightharpoonup> 'r)" where
  "set_if_key k m m' = (if k = [] then m else m')"

definition update_bound :: "bytes \<Rightarrow> ('r \<Rightarrow> 'r) \<Rightarrow> (bytes \<rightharpoonup> 'r) \<Rightarrow> (bytes \<rightharpoonup> 'r)" where
  "update_bound k f m = (case m k of None \<Rightarrow> m | Some r \<Rightarrow> m(k \<mapsto> f r))"

text \<open>The same operations on a map that never evicts.\<close>

primrec node_spec :: "node_op \<Rightarrow> (bytes \<rightharpoonup> nodeCacheRecord) \<Rightarrow> (bytes \<rightharpoonup> nodeCacheRecord)" where
  "node_spec (NodePut e) m = set_if_key (ne_Key e) m
     (m(ne_Key e \<mapsto> \<lparr>nr_value = ne_Value e, nr_accountOffset = ne_AccountOffset e, nr_accountSize = ne_AccountSize e,
                     nr_storageInfo = ne_StorageInfo e\<rparr>))"
| "node_spec (NodeStoreMetadata k off sz si) m = set_if_key k m (m(k \<mapsto> with_metadata (m k) off sz si))"
| "node_spec (NodeUpdateValue k v) m = set_if_key k m (update_bound k (\<lambda>r. r\<lparr>nr_value := v\<rparr>) m)"
| "node_spec (NodeUpdateAccountOffset k off sz) m =
     set_if_key k m (update_bound k (\<lambda>r. r\<lparr>nr_accountOffset := off, nr_accountSize := sz\<rparr>) m)"
| "node_spec (NodeUpdateStoragePointer k si) m = set_if_key k m (update_bound k (\<lambda>r. r\<lparr>nr_storageInfo := si\<rparr>) m)"
| "node_spec (NodeDelete k) m = m(k := None)"
| "node_spec (NodeGet k) m = m"
| "node_spec NodeClear m = Map.empty"
| "node_spec (OtherView op) m = m"

text \<open>
  A cached record agrees with the full one in its pointers; it may lack the value or the
  account size, which an eviction between two updates can lose.
\<close>

definition record_le :: "nodeCacheRecord \<Rightarrow> nodeCacheRecord \<Rightarrow> bool" where
  "record_le r r' \<longleftrightarrow> nr_accountOffset r = nr_accountOffset r' \<and> nr_storageInfo r = nr_storageInfo r' \<and>
     (nr_value r = [] \<or> nr_value r = nr_value r') \<and> (nr_accountSize r = 0 \<or> nr_accountSize r = nr_accountSize r')"

abbreviation node_key :: "bytes \<Rightarrow> sharedCacheCompositeKey" where
  "node_key k \<equiv> (sharedCacheNamespaceNode, k)"

definition node_rel :: "shared_cache \<Rightarrow> (bytes \<rightharpoonup> nodeCacheRecord) \<Rightarrow> bool" where
  "node_rel c m \<longleftrightarrow> sc_inv c \<and>
     (\<forall>k v. sc_content c (node_key k) = Some v \<longrightarrow> (\<exists>r r'. v = NodeRecord r \<and> m k = Some r' \<and> record_le r r'))"

lemma record_le_refl [simp]: "record_le r r"
  by (simp add: record_le_def)

lemma get_record_ok:
  assumes "node_rel c m"
  shows "\<exists>cur c'. get_record c k = Some (cur, c') \<and> node_rel c' m \<and> sc_content c' = sc_content c \<and>
     sc_content c (node_key k) = map_option NodeRecord cur \<and>
     (\<forall>r. cur = Some r \<longrightarrow> (\<exists>r'. m k = Some r' \<and> record_le r r'))"
proof -
  have c: "sc_inv c" using assms by (simp add: node_rel_def)
  obtain x c' where g: "cache_Get c sharedCacheNamespaceNode k = (x, c')" by (cases "cache_Get c sharedCacheNamespaceNode k")
  with Get_ok [OF c, of sharedCacheNamespaceNode k]
  have x: "x = sc_content c (node_key k)" and c': "sc_content c' = sc_content c" "sc_inv c'" by simp_all
  then have rel: "node_rel c' m" using assms by (simp add: node_rel_def)
  show ?thesis
  proof (cases x)
    case None
    with g x c' rel show ?thesis by (simp add: get_record_def)
  next
    case (Some v)
    with assms x obtain r r' where v: "v = NodeRecord r" "m k = Some r'" "record_le r r'"
      unfolding node_rel_def by metis
    have "get_record c k = Some (Some r, c')" using g Some v(1) by (simp add: get_record_def)
    moreover have "sc_content c (node_key k) = Some (NodeRecord r)" using x Some v(1) by simp
    ultimately show ?thesis using c' rel v by simp
  qed
qed

lemma node_rel_add:
  assumes "node_rel c m" "k \<noteq> []" "record_le r r'"
  shows "node_rel (add_record c k r) (m(k \<mapsto> r'))"
proof -
  have c: "sc_inv c" using assms(1) by (simp add: node_rel_def)
  let ?d = "add_record c k r"
  have le: "sc_content ?d \<subseteq>\<^sub>m (sc_content c)(node_key k \<mapsto> NodeRecord r)"
    unfolding add_record_def by (rule Add_ok(3) [OF c assms(2)])
  have "\<exists>s s'. v = NodeRecord s \<and> (m(k \<mapsto> r')) k' = Some s' \<and> record_le s s'"
    if "sc_content ?d (node_key k') = Some v" for k' v
  proof -
    from map_le_cases [OF le, of "node_key k'"] that
    have v: "((sc_content c)(node_key k \<mapsto> NodeRecord r)) (node_key k') = Some v" by simp
    show ?thesis
    proof (cases "k' = k")
      case True
      with v assms(3) show ?thesis by auto
    next
      case False
      with v assms(1) show ?thesis by (simp add: node_rel_def)
    qed
  qed
  then show ?thesis using Add_ok(1) [OF c] unfolding node_rel_def add_record_def by blast
qed

lemma node_rel_smaller:
  assumes "node_rel c m" "sc_inv d"
    and "\<And>k v. sc_content d (node_key k) = Some v \<Longrightarrow> sc_content c (node_key k) = Some v \<and> m' k = m k"
  shows "node_rel d m'"
  using assms unfolding node_rel_def by metis

text \<open>An operation on another namespace adds nothing to this one.\<close>

lemma other_view_content:
  assumes "sc_inv c" "op_namespace op \<noteq> ns"
  shows "sc_content (snd (cache_step op c)) (ns, k) \<in> {None, sc_content c (ns, k)}"
  using assms Add_ok(4) [OF assms(1), of "(ns, k)"]
  by (cases op) (auto simp: Get_ok GetNoTouch_ok Remove_ok RemoveNamespace_ok)

lemma update_cached_ok:
  assumes "node_rel c m" "\<And>r r'. record_le r r' \<Longrightarrow> record_le (f r) (g r')"
  shows "\<exists>c'. update_cached c k f = Some c' \<and> node_rel c' (set_if_key k m (update_bound k g m))"
proof (cases "k = []")
  case True
  with assms(1) show ?thesis by (simp add: update_cached_def set_if_key_def)
next
  case False
  obtain cur c' where g: "get_record c k = Some (cur, c')" "node_rel c' m" "sc_content c' = sc_content c"
    "sc_content c (node_key k) = map_option NodeRecord cur"
    "\<forall>r. cur = Some r \<longrightarrow> (\<exists>r'. m k = Some r' \<and> record_le r r')"
    using get_record_ok [OF assms(1), of k] by auto
  show ?thesis
  proof (cases cur)
    case None
    have "node_rel c' (update_bound k g m)"
      using g(2-4) None by (intro node_rel_smaller [OF g(2)]) (auto simp: node_rel_def update_bound_def split: option.split)
    with False g(1) None show ?thesis by (simp add: update_cached_def set_if_key_def)
  next
    case (Some r)
    with g(5) obtain r' where r': "m k = Some r'" "record_le r r'" by auto
    from node_rel_add [OF g(2) False assms(2) [OF r'(2)]] False g(1) Some r'(1) show ?thesis
      by (simp add: update_cached_def set_if_key_def update_bound_def)
  qed
qed

lemma with_metadata_mono:
  assumes "\<forall>r. cur = Some r \<longrightarrow> (\<exists>r'. cur' = Some r' \<and> record_le r r')"
  shows "record_le (with_metadata cur off sz si) (with_metadata cur' off sz si)"
  using assms by (cases cur; cases cur') (auto simp: with_metadata_def record_le_def Let_def)

lemma node_step_ok:
  assumes "node_rel c m" "node_op_ok op"
  shows "\<exists>c'. node_step op c = Some c' \<and> node_rel c' (node_spec op m)"
proof -
  have c: "sc_inv c" using assms(1) by (simp add: node_rel_def)
  show ?thesis
  proof (cases op)
    case (NodePut e)
    with node_rel_add [OF assms(1) _ record_le_refl] assms(1) show ?thesis
      by (auto simp: nc_Put_def set_if_key_def)
  next
    case (NodeStoreMetadata k off sz si)
    obtain cur c' where g: "get_record c k = Some (cur, c')" "node_rel c' m"
      "\<forall>r. cur = Some r \<longrightarrow> (\<exists>r'. m k = Some r' \<and> record_le r r')"
      using get_record_ok [OF assms(1), of k] by auto
    from node_rel_add [OF g(2) _ with_metadata_mono [OF g(3)], of k off sz si] NodeStoreMetadata g(1) assms(1)
    show ?thesis by (auto simp: nc_StoreMetadata_def set_if_key_def)
  next
    case (NodeUpdateValue k v)
    then show ?thesis unfolding NodeUpdateValue node_step.simps node_spec.simps nc_UpdateValue_def
      by (intro update_cached_ok [OF assms(1)]) (auto simp: record_le_def)
  next
    case (NodeUpdateAccountOffset k off sz)
    then show ?thesis unfolding NodeUpdateAccountOffset node_step.simps node_spec.simps nc_UpdateAccountOffset_def
      by (intro update_cached_ok [OF assms(1)]) (auto simp: record_le_def)
  next
    case (NodeUpdateStoragePointer k si)
    then show ?thesis unfolding NodeUpdateStoragePointer node_step.simps node_spec.simps nc_UpdateStoragePointer_def
      by (intro update_cached_ok [OF assms(1)]) (auto simp: record_le_def)
  next
    case (NodeDelete k)
    have "node_rel (cache_Remove c sharedCacheNamespaceNode k) (m(k := None))"
      using Remove_ok [OF c, of sharedCacheNamespaceNode k]
      by (intro node_rel_smaller [OF assms(1)]) (auto split: if_splits)
    moreover have "node_rel c (m(k := None))" if "k = []"
      using Get_ok(1) [OF c, of sharedCacheNamespaceNode k] that c
      by (intro node_rel_smaller [OF assms(1)]) (auto simp: cache_Get_def)
    ultimately show ?thesis using NodeDelete by (simp add: nc_Delete_def)
  next
    case (NodeGet k)
    obtain cur c' where "get_record c k = Some (cur, c')" "node_rel c' m"
      using get_record_ok [OF assms(1), of k] by auto
    with NodeGet assms(1) show ?thesis by (cases cur) (simp_all add: nc_Get_def)
  next
    case NodeClear
    have "node_rel (nc_Clear c) Map.empty"
      using RemoveNamespace_ok [OF c, of sharedCacheNamespaceNode] by (simp add: node_rel_def nc_Clear_def)
    with NodeClear show ?thesis by simp
  next
    case (OtherView op')
    have "node_rel (snd (cache_step op' c)) m"
      using other_view_content [OF c, of op' sharedCacheNamespaceNode] OtherView assms(2) step_inv(1) [OF c, of op']
      by (intro node_rel_smaller [OF assms(1)]) (auto, metis option.distinct(1))
    with OtherView show ?thesis by simp
  qed
qed

lemma node_run_ok:
  "node_rel c m \<Longrightarrow> \<forall>op \<in> set ops. node_op_ok op \<Longrightarrow>
   \<exists>c'. run_steps node_step ops c = Some c' \<and> node_rel c' (fold node_spec ops m)"
proof (induction ops arbitrary: c m)
  case (Cons op ops)
  then obtain c' where "node_step op c = Some c'" "node_rel c' (node_spec op m)"
    using node_step_ok [of c m op] by auto
  with Cons.IH [of c' "node_spec op m"] Cons.prems(2) show ?case by simp
qed simp

lemma node_rel_new: "cap < 2 ^ 63 \<Longrightarrow> node_rel (newSharedByteCache cap) Map.empty"
  using new_inv [of cap] by (simp add: node_rel_def sc_content_def newSharedByteCache_def)

section \<open>The keys of the segment index cache\<close>

datatype segment_key = Level1 bytes | Level2 bytes u32 u64 | Layout bytes

primrec segment_cache_key :: "segment_key \<Rightarrow> bytes" where
  "segment_cache_key (Level1 f) = segmentIndexCacheKey f"
| "segment_cache_key (Level2 f i g) = segmentIndexLevel2CacheKey f i g"
| "segment_cache_key (Layout f) = segmentIndexLayoutCacheKey f"

lemma PutUint32_inject: "PutUint32 a = PutUint32 b \<Longrightarrow> a = b"
  by (metis Uint_Put_alone(2))

lemma segment_cache_key_inject [simp]: "segment_cache_key a = segment_cache_key b \<longleftrightarrow> a = b"
proof
  assume eq: "segment_cache_key a = segment_cache_key b"
  have l2: "f = f' \<and> i = i' \<and> g = g'"
    if "segmentIndexLevel2CacheKey f i g = segmentIndexLevel2CacheKey f' i' g'" for f i g f' i' g'
  proof -
    from that have "f @ (ascii '':'' @ PutUint32 i @ PutUint64 g) = f' @ (ascii '':'' @ PutUint32 i' @ PutUint64 g')"
      by (simp add: segmentIndexLevel2CacheKey_def)
    then have "f = f'" "PutUint32 i @ PutUint64 g = PutUint32 i' @ PutUint64 g'"
      by (simp_all add: ascii_def append_eq_append_conv)
    then have "f = f'" "PutUint32 i = PutUint32 i'" "PutUint64 g = PutUint64 g'" by simp_all
    then show ?thesis by (intro conjI PutUint64_inject PutUint32_inject)
  qed
  have tag: "segment_cache_key k ! 1 = (case k of Level1 _ \<Rightarrow> 49 | Level2 _ _ _ \<Rightarrow> 50 | Layout _ \<Rightarrow> 97)" for k
    by (cases k) (simp_all add: segmentIndexCacheKey_def segmentIndexLevel2CacheKey_def segmentIndexLayoutCacheKey_def ascii_def)
  have l1: "segmentIndexCacheKey f = segmentIndexCacheKey f' \<Longrightarrow> f = f'"
    "segmentIndexLayoutCacheKey f = segmentIndexLayoutCacheKey f' \<Longrightarrow> f = f'" for f f'
    by (simp_all add: segmentIndexCacheKey_def segmentIndexLayoutCacheKey_def)
  have same: "(case a of Level1 _ \<Rightarrow> 49 | Level2 _ _ _ \<Rightarrow> 50 | Layout _ \<Rightarrow> (97 :: byte)) =
      (case b of Level1 _ \<Rightarrow> 49 | Level2 _ _ _ \<Rightarrow> 50 | Layout _ \<Rightarrow> 97)"
    using tag [of a] tag [of b] eq by metis
  show "a = b"
  proof (cases a)
    case a: (Level1 f)
    with same obtain f' where "b = Level1 f'" by (cases b) simp_all
    with a eq l1(1) [of f f'] show ?thesis by simp
  next
    case a: (Level2 f i g)
    with same obtain f' i' g' where "b = Level2 f' i' g'" by (cases b) simp_all
    with a eq l2 [of f i g f' i' g'] show ?thesis by simp
  next
    case a: (Layout f)
    with same obtain f' where "b = Layout f'" by (cases b) simp_all
    with a eq l1(2) [of f f'] show ?thesis by simp
  qed
qed simp

lemma segment_cache_key_nonempty [simp]: "segment_cache_key a \<noteq> []"
  by (cases a) (simp_all add: segmentIndexCacheKey_def segmentIndexLevel2CacheKey_def segmentIndexLayoutCacheKey_def ascii_def)

lemmas segment_keys = segment_cache_key.simps [symmetric]

section \<open>The segment index cache against unbounded maps\<close>

datatype segment_op =
    SegAdd bytes "segmentChunkMeta list" bool | SegAddLevel2 bytes u32 u64 "segmentChunkMeta list" bool
  | SegAddLayout bytes segmentIndexLayout | SegRemove bytes | SegRemoveLayout bytes
  | SegGet bytes | SegGetLevel2 bytes u32 u64 | SegGetLayout bytes | SegOther "cached cache_op"

primrec segment_op_ok :: "segment_op \<Rightarrow> bool" where
  "segment_op_ok (SegAdd f ms b) = True"
| "segment_op_ok (SegAddLevel2 f i g ms b) = True"
| "segment_op_ok (SegAddLayout f l) = True"
| "segment_op_ok (SegRemove f) = True"
| "segment_op_ok (SegRemoveLayout f) = True"
| "segment_op_ok (SegGet f) = True"
| "segment_op_ok (SegGetLevel2 f i g) = True"
| "segment_op_ok (SegGetLayout f) = True"
| "segment_op_ok (SegOther op) = (op_namespace op \<noteq> sharedCacheNamespaceSegmentIndex)"

primrec segment_step :: "segment_op \<Rightarrow> segmentIndexCache \<Rightarrow> segmentIndexCache" where
  "segment_step (SegAdd f ms b) c = addByPath c f ms b"
| "segment_step (SegAddLevel2 f i g ms b) c = addLevel2ByPath c f i g ms b"
| "segment_step (SegAddLayout f l) c = AddLayoutByPath c f l"
| "segment_step (SegRemove f) c = RemoveByPath c f"
| "segment_step (SegRemoveLayout f) c = RemoveLayoutByPath c f"
| "segment_step (SegGet f) c = snd (GetByPath c f)"
| "segment_step (SegGetLevel2 f i g) c = snd (GetLevel2ByPath c f i g)"
| "segment_step (SegGetLayout f) c = snd (GetLayoutByPath c f)"
| "segment_step (SegOther op) c = c\<lparr>ix_shared := snd (cache_step op (ix_shared c))\<rparr>"

text \<open>What has last been stored under each key, in a map of its own for each kind of value.\<close>

datatype segment_value = Metas "segmentChunkMeta list" | LayoutOf segmentIndexLayout

primrec segment_spec :: "segment_op \<Rightarrow> (segment_key \<rightharpoonup> segment_value) \<Rightarrow> (segment_key \<rightharpoonup> segment_value)" where
  "segment_spec (SegAdd f ms b) m = m(Level1 f := if ms = [] then None else Some (Metas ms))"
| "segment_spec (SegAddLevel2 f i g ms b) m = m(Level2 f i g := if ms = [] then None else Some (Metas ms))"
| "segment_spec (SegAddLayout f l) m = (if f = [] then m else m(Layout f \<mapsto> LayoutOf l))"
| "segment_spec (SegRemove f) m = m(Level1 f := None)"
| "segment_spec (SegRemoveLayout f) m = (if f = [] then m else m(Layout f := None))"
| "segment_spec (SegGet f) m = m"
| "segment_spec (SegGetLevel2 f i g) m = m"
| "segment_spec (SegGetLayout f) m = m"
| "segment_spec (SegOther op) m = m"

primrec cached_segment :: "cached \<Rightarrow> segment_value option" where
  "cached_segment (NodeRecord r) = None"
| "cached_segment (StorageValue v) = None"
| "cached_segment (SegmentMetas e) = Some (Metas (se_metas e))"
| "cached_segment (SegmentLayout e) = Some (LayoutOf (sle_layout e))"
| "cached_segment (FileNodeRef a) = None"

abbreviation seg_content :: "segmentIndexCache \<Rightarrow> segment_key \<Rightarrow> cached option" where
  "seg_content c k \<equiv> sc_content (ix_shared c) (sharedCacheNamespaceSegmentIndex, segment_cache_key k)"

definition value_kind_ok :: "segment_key \<Rightarrow> segment_value \<Rightarrow> bool" where
  "value_kind_ok k v \<longleftrightarrow> (case (k, v) of (Layout _, LayoutOf _) \<Rightarrow> True | (Layout _, Metas _) \<Rightarrow> False
     | (_, Metas _) \<Rightarrow> True | (_, LayoutOf _) \<Rightarrow> False)"

definition segment_rel :: "segmentIndexCache \<Rightarrow> (segment_key \<rightharpoonup> segment_value) \<Rightarrow> bool" where
  "segment_rel c m \<longleftrightarrow> sc_inv (ix_shared c) \<and>
     (\<forall>k v. seg_content c k = Some v \<longrightarrow> (\<exists>w. m k = Some w \<and> cached_segment v = Some w)) \<and>
     (\<forall>k w. m k = Some w \<longrightarrow> value_kind_ok k w) \<and>
     (\<forall>f l. ix_layouts c f = Some l \<longleftrightarrow> m (Layout f) = Some (LayoutOf l) \<and> sl_mode l = indexLayoutMultiLevel)"

lemma refreshUsage_frame [simp]:
  "ix_shared (refreshUsage c) = ix_shared c" "ix_layouts (refreshUsage c) = ix_layouts c"
  by (simp_all add: refreshUsage_def split: prod.split)

lemma segment_rel_remove:
  assumes "segment_rel c m"
  shows "segment_rel (c\<lparr>ix_shared := cache_Remove (ix_shared c) sharedCacheNamespaceSegmentIndex (segment_cache_key k)\<rparr>) m"
  using assms Remove_ok [of "ix_shared c" sharedCacheNamespaceSegmentIndex "segment_cache_key k"]
  unfolding segment_rel_def by auto

lemma segment_rel_update:
  assumes "segment_rel c m" "sc_inv s"
    and "\<And>k' v. sc_content s (sharedCacheNamespaceSegmentIndex, segment_cache_key k') = Some v \<Longrightarrow>
      if k' = k then \<exists>w. x = Some w \<and> cached_segment v = Some w else seg_content c k' = Some v"
    and "\<And>w. x = Some w \<Longrightarrow> value_kind_ok k w"
    and "\<And>f. k = Layout f \<Longrightarrow> L f = (case x of Some (LayoutOf l) \<Rightarrow> if sl_mode l = indexLayoutMultiLevel then Some l else None | _ \<Rightarrow> None)"
    and "\<And>f. k \<noteq> Layout f \<Longrightarrow> L f = ix_layouts c f"
  shows "segment_rel (c\<lparr>ix_shared := s, ix_layouts := L\<rparr>) (m(k := x))"
proof -
  have a: "\<exists>w. (m(k := x)) k' = Some w \<and> cached_segment v = Some w"
    if "sc_content s (sharedCacheNamespaceSegmentIndex, segment_cache_key k') = Some v" for k' v
    using assms(3) [OF that] assms(1) by (cases "k' = k") (auto simp: segment_rel_def)
  have b: "L f = Some l \<longleftrightarrow> (m(k := x)) (Layout f) = Some (LayoutOf l) \<and> sl_mode l = indexLayoutMultiLevel" for f l
  proof (cases "k = Layout f")
    case True
    with assms(4) assms(5) [OF True] show ?thesis
      by (cases x) (auto simp: value_kind_ok_def split: segment_value.splits)
  next
    case False
    with assms(1) assms(6) [OF False] show ?thesis by (auto simp: segment_rel_def)
  qed
  show ?thesis using assms(1,2,4) a b unfolding segment_rel_def by auto
qed

lemma segment_rel_refresh [simp]: "segment_rel (refreshUsage c) m = segment_rel c m"
  by (simp add: segment_rel_def)

lemma segment_rel_cong: "ix_shared c = ix_shared d \<Longrightarrow> ix_layouts c = ix_layouts d \<Longrightarrow> segment_rel c m = segment_rel d m"
  by (simp add: segment_rel_def)

definition layout_after :: "segment_key \<Rightarrow> segment_value option \<Rightarrow> (bytes \<rightharpoonup> segmentIndexLayout) \<Rightarrow> (bytes \<rightharpoonup> segmentIndexLayout)" where
  "layout_after k x L =
     (case k of
        Layout f \<Rightarrow> L(f := (case x of Some (LayoutOf l) \<Rightarrow> if sl_mode l = indexLayoutMultiLevel then Some l else None | _ \<Rightarrow> None))
      | _ \<Rightarrow> L)"

lemma segment_rel_layouts:
  assumes "segment_rel c m" "sc_inv s" "\<And>w. x = Some w \<Longrightarrow> value_kind_ok k w"
    and "\<And>k' v. sc_content s (sharedCacheNamespaceSegmentIndex, segment_cache_key k') = Some v \<Longrightarrow>
      if k' = k then \<exists>w. x = Some w \<and> cached_segment v = Some w else seg_content c k' = Some v"
  shows "segment_rel (c\<lparr>ix_shared := s, ix_layouts := layout_after k x (ix_layouts c)\<rparr>) (m(k := x))"
  by (rule segment_rel_update [OF assms(1,2,4,3)]) (auto simp: layout_after_def split: segment_key.splits)

lemma remove_key_ok:
  assumes "segment_rel c m" "\<And>w. x = Some w \<Longrightarrow> value_kind_ok k w"
  shows "segment_rel (remove_key (c\<lparr>ix_layouts := layout_after k x (ix_layouts c)\<rparr>) (segment_cache_key k)) (m(k := x))"
proof -
  have c: "sc_inv (ix_shared c)" using assms(1) by (simp add: segment_rel_def)
  note r = Remove_ok [OF c, of sharedCacheNamespaceSegmentIndex "segment_cache_key k"]
  have "segment_rel (c\<lparr>ix_shared := cache_Remove (ix_shared c) sharedCacheNamespaceSegmentIndex (segment_cache_key k),
      ix_layouts := layout_after k x (ix_layouts c)\<rparr>) (m(k := x))"
    by (rule segment_rel_layouts [OF assms(1) r(1) assms(2)]) (auto simp: r(2) split: if_splits)
  then show ?thesis unfolding remove_key_def segment_rel_refresh
    by (rule iffD1 [OF segment_rel_cong, rotated 2]) simp_all
qed

lemma add_key_ok:
  assumes "segment_rel c m" "value_kind_ok k w" "cached_segment v = Some w"
  shows "segment_rel (add_key (c\<lparr>ix_layouts := layout_after k (Some w) (ix_layouts c)\<rparr>) (segment_cache_key k) v sz) (m(k \<mapsto> w))"
proof -
  have c: "sc_inv (ix_shared c)" using assms(1) by (simp add: segment_rel_def)
  let ?s = "cache_Add (ix_shared c) sharedCacheNamespaceSegmentIndex (segment_cache_key k) v sz"
  have le: "sc_content ?s \<subseteq>\<^sub>m (sc_content (ix_shared c))((sharedCacheNamespaceSegmentIndex, segment_cache_key k) \<mapsto> v)"
    by (rule Add_ok(3) [OF c]) simp
  have "segment_rel (c\<lparr>ix_shared := ?s, ix_layouts := layout_after k (Some w) (ix_layouts c)\<rparr>) (m(k \<mapsto> w))"
  proof (rule segment_rel_layouts [OF assms(1) Add_ok(1) [OF c]])
    fix k' v' assume "sc_content ?s (sharedCacheNamespaceSegmentIndex, segment_cache_key k') = Some v'"
    with map_le_cases [OF le, of "(sharedCacheNamespaceSegmentIndex, segment_cache_key k')"] assms(3)
    show "if k' = k then \<exists>u. Some w = Some u \<and> cached_segment v' = Some u else seg_content c k' = Some v'"
      by (auto split: if_splits)
  qed (use assms(2) in simp)
  then show ?thesis unfolding add_key_def segment_rel_refresh
    by (rule iffD1 [OF segment_rel_cong, rotated 2]) simp_all
qed

lemma add_metas_ok:
  assumes "segment_rel c m" "\<forall>f. k \<noteq> Layout f"
    and "sz = estimateSegmentChunkMetasMemory ms"
  shows "segment_rel (if sz = 0 then remove_key c (segment_cache_key k)
      else add_key c (segment_cache_key k) (SegmentMetas \<lparr>se_folderKey = f, se_metas = ms, se_sizeBytes = sz\<rparr>) sz)
    (m(k := if ms = [] then None else Some (Metas ms)))"
proof -
  have k: "layout_after k x L = L" for x L using assms(2) by (simp add: layout_after_def split: segment_key.split)
  have ok: "value_kind_ok k (Metas ms)" using assms(2) by (simp add: value_kind_ok_def split: segment_key.split)
  have e: "sz = 0" if "ms = []" using that assms(3) by (simp add: estimateSegmentChunkMetasMemory_def)
  have "value_kind_ok k w" if "(if ms = [] then None else Some (Metas ms)) = Some w" for w
    using that ok by (simp split: if_splits)
  from remove_key_ok [OF assms(1) this]
  have "segment_rel (remove_key c (segment_cache_key k)) (m(k := if ms = [] then None else Some (Metas ms)))"
    by (simp add: k)
  moreover have "segment_rel (add_key c (segment_cache_key k) (SegmentMetas \<lparr>se_folderKey = f, se_metas = ms, se_sizeBytes = sz\<rparr>) sz)
      (m(k \<mapsto> Metas ms))"
    using add_key_ok [OF assms(1) ok, of "SegmentMetas \<lparr>se_folderKey = f, se_metas = ms, se_sizeBytes = sz\<rparr>" sz]
    by (simp add: k)
  ultimately show ?thesis using e by auto
qed

lemma segment_rel_shared:
  assumes "segment_rel c m" "sc_inv s"
    and "\<And>k. sc_content s (sharedCacheNamespaceSegmentIndex, k) \<in> {None, sc_content (ix_shared c) (sharedCacheNamespaceSegmentIndex, k)}"
  shows "segment_rel (c\<lparr>ix_shared := s\<rparr>) m"
proof -
  have "seg_content c k = Some v" if "sc_content s (sharedCacheNamespaceSegmentIndex, segment_cache_key k) = Some v" for k v
    using assms(3) [of "segment_cache_key k"] that by auto
  with assms(1,2) show ?thesis unfolding segment_rel_def by simp
qed

lemma lookup_metas_ok:
  assumes "segment_rel c m" "\<forall>f. k \<noteq> Layout f"
  shows "segment_rel (snd (lookup_metas c (segment_cache_key k))) m"
    and "fst (lookup_metas c (segment_cache_key k)) = Some ms \<Longrightarrow> m k = Some (Metas ms)"
proof -
  have c: "sc_inv (ix_shared c)" using assms(1) by (simp add: segment_rel_def)
  note g = GetNoTouch_ok [OF c, of sharedCacheNamespaceSegmentIndex "segment_cache_key k"]
  obtain r s where gs: "GetNoTouch (ix_shared c) sharedCacheNamespaceSegmentIndex (segment_cache_key k) = (r, s)"
    by (cases "GetNoTouch (ix_shared c) sharedCacheNamespaceSegmentIndex (segment_cache_key k)")
  have "segment_rel (c\<lparr>ix_shared := s\<rparr>) m"
    using g gs by (intro segment_rel_shared [OF assms(1)]) auto
  then show "segment_rel (snd (lookup_metas c (segment_cache_key k))) m"
    by (simp add: lookup_metas_def gs split: option.split cached.split)
  assume "fst (lookup_metas c (segment_cache_key k)) = Some ms"
  then obtain e where "r = Some (SegmentMetas e)" "ms = se_metas e"
    by (auto simp: lookup_metas_def gs split: option.splits cached.splits)
  then have "seg_content c k = Some (SegmentMetas e)" "ms = se_metas e" using g(1) gs by simp_all
  with assms(1) show "m k = Some (Metas ms)" unfolding segment_rel_def by fastforce
qed

lemma GetLayout_ok:
  assumes "segment_rel c m"
  shows "segment_rel (snd (GetLayoutByPath c f)) m"
    and "fst (GetLayoutByPath c f) = Some l \<Longrightarrow> m (Layout f) = Some (LayoutOf l)"
    and "m (Layout f) = Some (LayoutOf l) \<Longrightarrow> sl_mode l = indexLayoutMultiLevel \<Longrightarrow> fst (GetLayoutByPath c f) = Some l"
proof -
  have c: "sc_inv (ix_shared c)" using assms(1) by (simp add: segment_rel_def)
  let ?k = "segmentIndexLayoutCacheKey f"
  note g = GetNoTouch_ok [OF c, of sharedCacheNamespaceSegmentIndex ?k]
  obtain r s where gs: "GetNoTouch (ix_shared c) sharedCacheNamespaceSegmentIndex ?k = (r, s)"
    by (cases "GetNoTouch (ix_shared c) sharedCacheNamespaceSegmentIndex ?k")
  have "segment_rel (c\<lparr>ix_shared := s\<rparr>) m"
    using g gs by (intro segment_rel_shared [OF assms(1)]) auto
  then show "segment_rel (snd (GetLayoutByPath c f)) m"
    using assms by (simp add: GetLayoutByPath_def gs split: option.split cached.split)
  have L: "ix_layouts c f = Some l \<longleftrightarrow> m (Layout f) = Some (LayoutOf l) \<and> sl_mode l = indexLayoutMultiLevel" for l
    using assms by (simp add: segment_rel_def)
  show "fst (GetLayoutByPath c f) = Some l" if "m (Layout f) = Some (LayoutOf l)" "sl_mode l = indexLayoutMultiLevel"
    using that L [of l] by (simp add: GetLayoutByPath_def)
  have r: "m (Layout f) = Some (LayoutOf (sle_layout e))" if "r = Some (SegmentLayout e)" for e
  proof -
    have "seg_content c (Layout f) = Some (SegmentLayout e)" using g(1) gs that by simp
    with assms show ?thesis unfolding segment_rel_def by fastforce
  qed
  assume "fst (GetLayoutByPath c f) = Some l"
  with L r show "m (Layout f) = Some (LayoutOf l)"
    by (auto simp: GetLayoutByPath_def gs split: option.splits cached.splits)
qed

lemma AddLayout_ok:
  assumes "segment_rel c m" "f \<noteq> []"
  shows "segment_rel (AddLayoutByPath c f l) (m(Layout f \<mapsto> LayoutOf l))"
proof -
  let ?sz = "estimateSegmentIndexLayoutMemory l"
  let ?v = "SegmentLayout \<lparr>sle_layout = l, sle_sizeBytes = ?sz\<rparr>"
  have ok: "value_kind_ok (Layout f) (LayoutOf l)" by (simp add: value_kind_ok_def)
  note rem = remove_key_ok [OF assms(1), of "Some (LayoutOf l)" "Layout f"]
  note add = add_key_ok [OF assms(1) ok, of ?v ?sz]
  show ?thesis
  proof (cases "sl_mode l = indexLayoutMultiLevel")
    case True
    have "segment_rel (AddLayoutByPath c f l) (m(Layout f \<mapsto> LayoutOf l)) =
      segment_rel (remove_key (c\<lparr>ix_layouts := layout_after (Layout f) (Some (LayoutOf l)) (ix_layouts c)\<rparr>)
        (segment_cache_key (Layout f))) (m(Layout f \<mapsto> LayoutOf l))"
      using True assms(2) by (intro segment_rel_cong) (simp_all add: AddLayoutByPath_def remove_key_def layout_after_def Let_def)
    with rem ok show ?thesis by simp
  next
    case False
    with assms(2) rem add ok show ?thesis by (simp add: AddLayoutByPath_def layout_after_def Let_def)
  qed
qed

lemma segment_step_ok:
  assumes "segment_rel c m" "segment_op_ok op"
  shows "segment_rel (segment_step op c) (segment_spec op m)"
proof -
  have c: "sc_inv (ix_shared c)" using assms(1) by (simp add: segment_rel_def)
  show ?thesis
  proof (cases op)
    case (SegAdd f ms b)
    with add_metas_ok [OF assms(1) _ refl, of "Level1 f" ms f] show ?thesis
      by (simp add: addByPath_def Let_def cong: if_cong split del: if_split)
  next
    case (SegAddLevel2 f i g ms b)
    with add_metas_ok [OF assms(1) _ refl, of "Level2 f i g" ms f] show ?thesis
      by (simp add: addLevel2ByPath_def Let_def cong: if_cong split del: if_split)
  next
    case (SegAddLayout f l)
    with AddLayout_ok [OF assms(1)] assms(1) show ?thesis by (auto simp: AddLayoutByPath_def)
  next
    case (SegRemove f)
    with remove_key_ok [OF assms(1), of None "Level1 f"] show ?thesis
      by (simp add: RemoveByPath_def layout_after_def)
  next
    case (SegRemoveLayout f)
    with remove_key_ok [OF assms(1), of None "Layout f"] assms(1) show ?thesis
      by (simp add: RemoveLayoutByPath_def layout_after_def)
  next
    case (SegGet f)
    with lookup_metas_ok(1) [OF assms(1), of "Level1 f"] show ?thesis by (simp add: GetByPath_def)
  next
    case (SegGetLevel2 f i g)
    with lookup_metas_ok(1) [OF assms(1), of "Level2 f i g"] show ?thesis by (simp add: GetLevel2ByPath_def)
  next
    case (SegGetLayout f)
    with GetLayout_ok(1) [OF assms(1)] show ?thesis by simp
  next
    case (SegOther op')
    with assms(2) show ?thesis
      using segment_rel_shared [OF assms(1) step_inv(1) [OF c] other_view_content [OF c]] by simp
  qed
qed

lemma segment_run_ok:
  "segment_rel c m \<Longrightarrow> \<forall>op \<in> set ops. segment_op_ok op \<Longrightarrow> segment_rel (fold segment_step ops c) (fold segment_spec ops m)"
  by (induction ops arbitrary: c m) (simp_all add: segment_step_ok)

lemma segment_rel_new: "cap < 2 ^ 63 \<Longrightarrow> segment_rel (newSharedSegmentIndexCache (newSharedByteCache cap)) Map.empty"
  using new_inv [of cap] by (simp add: segment_rel_def newSharedSegmentIndexCache_def sc_content_def newSharedByteCache_def)

section \<open>Reference-counted node-file buffers\<close>

record fileNodeCacheEntry =
  fe_hdrBuf :: bytes
  fe_buf :: "bytes option"
  fe_refs :: int
  fe_evicted :: bool

definition newFileNodeCacheEntry :: "bytes \<Rightarrow> bytes \<Rightarrow> fileNodeCacheEntry" where
  "newFileNodeCacheEntry hdrBuf buf = \<lparr>fe_hdrBuf = hdrBuf, fe_buf = Some buf, fe_refs = 1, fe_evicted = False\<rparr>"

definition Retain :: "fileNodeCacheEntry \<Rightarrow> bool \<times> fileNodeCacheEntry" where
  "Retain e = (if fe_evicted e \<and> fe_refs e = 0 then (False, e) else (True, e\<lparr>fe_refs := fe_refs e + 1\<rparr>))"

text \<open>\<open>Release\<close> returns the buffer that it hands to the release function, if it hands one over.\<close>

definition Release :: "fileNodeCacheEntry \<Rightarrow> bytes option \<times> fileNodeCacheEntry" where
  "Release e =
     (let e1 = (if 0 < fe_refs e then e\<lparr>fe_refs := fe_refs e - 1\<rparr> else e) in
      if fe_evicted e1 \<and> fe_refs e1 = 0 \<and> fe_buf e1 \<noteq> None then (fe_buf e1, e1\<lparr>fe_buf := None\<rparr>) else (None, e1))"

definition onSharedCacheEvict :: "fileNodeCacheEntry \<Rightarrow> bytes option \<times> fileNodeCacheEntry" where
  "onSharedCacheEvict e = Release (e\<lparr>fe_evicted := True\<rparr>)"

text \<open>
  The life of an entry: readers retain it and release it once each, the cache evicts it once
  (an accepted value is let go at most once). The state is the entry, the number of readers
  that hold it and the buffers given back so far.
\<close>

inductive entry_life :: "bytes \<Rightarrow> bytes \<Rightarrow> fileNodeCacheEntry \<Rightarrow> nat \<Rightarrow> bytes list \<Rightarrow> bool" for hdr buf where
  created: "entry_life hdr buf (newFileNodeCacheEntry hdr buf) 0 []"
| retained: "entry_life hdr buf e n given \<Longrightarrow> Retain e = (True, e') \<Longrightarrow> entry_life hdr buf e' (Suc n) given"
| refused: "entry_life hdr buf e n given \<Longrightarrow> Retain e = (False, e') \<Longrightarrow> entry_life hdr buf e' n given"
| released: "entry_life hdr buf e (Suc n) given \<Longrightarrow> Release e = (b, e') \<Longrightarrow>
    entry_life hdr buf e' n (given @ (case b of None \<Rightarrow> [] | Some x \<Rightarrow> [x]))"
| evicted: "entry_life hdr buf e n given \<Longrightarrow> \<not> fe_evicted e \<Longrightarrow> onSharedCacheEvict e = (b, e') \<Longrightarrow>
    entry_life hdr buf e' n (given @ (case b of None \<Rightarrow> [] | Some x \<Rightarrow> [x]))"

lemma entry_life_inv:
  "entry_life hdr buf e n given \<Longrightarrow>
     fe_refs e = int n + (if fe_evicted e then 0 else 1) \<and>
     (if fe_evicted e \<and> n = 0 then fe_buf e = None \<and> given = [buf] else fe_buf e = Some buf \<and> given = [])"
proof (induction rule: entry_life.induct)
  case created
  then show ?case by (simp add: newFileNodeCacheEntry_def)
next
  case (retained e n given e')
  then show ?case by (auto simp: Retain_def split: if_splits)
next
  case (refused e n given e')
  then show ?case by (auto simp: Retain_def split: if_splits)
next
  case (released e n given b e')
  then show ?case by (auto simp: Release_def Let_def split: if_splits option.split)
next
  case (evicted e n given b e')
  then show ?case by (auto simp: onSharedCacheEvict_def Release_def Let_def split: if_splits option.split)
qed

section \<open>Properties\<close>

text \<open>
  C9. The bounded node cache never disagrees with an unbounded one: after any sequence of node
  cache operations, with the operations of the other views in between, no type assertion has
  panicked, and an entry that \<open>Get\<close> returns has the account offset and the storage pointer
  that a map without eviction holds for the key, and its value and account size unless an
  eviction made the cache forget them.
\<close>

theorem node_cache_sound:
  assumes "cap < 2 ^ 63" and "\<forall>op \<in> set ops. node_op_ok op"
  shows "\<exists>c e c'. run_steps node_step ops (newSharedByteCache cap) = Some c \<and> nc_Get c key = Some (e, c') \<and>
     (\<forall>x. e = Some x \<longrightarrow> (\<exists>r. fold node_spec ops Map.empty key = Some r \<and>
        ne_AccountOffset x = nr_accountOffset r \<and> ne_StorageInfo x = nr_storageInfo r \<and>
        ne_Value x \<in> {[], nr_value r} \<and> ne_AccountSize x \<in> {0, nr_accountSize r}))"
proof -
  obtain c where c: "run_steps node_step ops (newSharedByteCache cap) = Some c" "node_rel c (fold node_spec ops Map.empty)"
    using node_run_ok [OF node_rel_new [OF assms(1)] assms(2)] by blast
  obtain cur c' where g: "get_record c key = Some (cur, c')"
    "\<forall>r. cur = Some r \<longrightarrow> (\<exists>r'. fold node_spec ops Map.empty key = Some r' \<and> record_le r r')"
    using get_record_ok [OF c(2), of key] by blast
  show ?thesis
  proof (cases "key = [] \<or> cur = None")
    case True
    with c(1) g(1) show ?thesis by (auto simp: nc_Get_def)
  next
    case False
    then obtain r where "cur = Some r" by blast
    with False c(1) g show ?thesis by (auto simp: nc_Get_def record_le_def)
  qed
qed

theorem node_cache_sound_witness:
  "\<exists>c e c'. run_steps node_step [NodeStoreMetadata [7] 5 9 \<lparr>si_storageFileID = 1, si_storageOffset = 2, si_storageSize = 3\<rparr>,
       NodeUpdateValue [7] [8]] (newSharedByteCache 1000) = Some c \<and> nc_Get c [7] = Some (e, c') \<and>
     (\<forall>x. e = Some x \<longrightarrow> ne_AccountOffset x = 5)"
  using node_cache_sound [of 1000 "[NodeStoreMetadata [7] 5 9 \<lparr>si_storageFileID = 1, si_storageOffset = 2, si_storageSize = 3\<rparr>,
       NodeUpdateValue [7] [8]]" "[7]"]
  by (auto simp: set_if_key_def update_bound_def with_metadata_def simp del: run_steps.simps)

text \<open>
  C16. The segment index cache never confuses its keys and never loses a multi-level layout:
  after any sequence of its operations, with the operations of the other views in between,
  the chunk list returned for a folder, or for a folder, a meta file and a generation, is the
  one last stored for exactly these; a layout returned for a folder is the last one stored
  for it; and a multi-level layout is always returned.
\<close>

theorem segment_cache_sound:
  assumes "cap < 2 ^ 63" and "\<forall>op \<in> set ops. segment_op_ok op"
    and "c = fold segment_step ops (newSharedSegmentIndexCache (newSharedByteCache cap))"
    and "m = fold segment_spec ops Map.empty"
  shows "(\<forall>ms. fst (GetByPath c f) = Some ms \<longrightarrow> m (Level1 f) = Some (Metas ms)) \<and>
     (\<forall>ms. fst (GetLevel2ByPath c f i g) = Some ms \<longrightarrow> m (Level2 f i g) = Some (Metas ms)) \<and>
     (\<forall>l. fst (GetLayoutByPath c f) = Some l \<longrightarrow> m (Layout f) = Some (LayoutOf l)) \<and>
     (\<forall>l. m (Layout f) = Some (LayoutOf l) \<longrightarrow> sl_mode l = indexLayoutMultiLevel \<longrightarrow> fst (GetLayoutByPath c f) = Some l)"
proof -
  have rel: "segment_rel c m" using segment_run_ok [OF segment_rel_new [OF assms(1)] assms(2)] assms(3,4) by simp
  have "m (Level1 f) = Some (Metas ms)" if "fst (GetByPath c f) = Some ms" for ms
    using lookup_metas_ok(2) [OF rel, of "Level1 f" ms] that by (simp add: GetByPath_def)
  moreover have "m (Level2 f i g) = Some (Metas ms)" if "fst (GetLevel2ByPath c f i g) = Some ms" for ms
    using lookup_metas_ok(2) [OF rel, of "Level2 f i g" ms] that by (simp add: GetLevel2ByPath_def)
  ultimately show ?thesis using GetLayout_ok(2,3) [OF rel] by blast
qed

theorem segment_cache_sound_witness:
  "let c = fold segment_step [SegAddLevel2 [1] 2 3 [\<lparr>cm_FileName = [4], cm_KeyStart = [5]\<rparr>] True,
       SegAddLayout [1] \<lparr>sl_mode = indexLayoutMultiLevel, sl_entries = [], sl_nextMetaID = 0, sl_flatData = []\<rparr>]
       (newSharedSegmentIndexCache (newSharedByteCache 1000)) in
   fst (GetLevel2ByPath c [1] 2 4) = None \<and>
   fst (GetLayoutByPath c [1]) = Some \<lparr>sl_mode = indexLayoutMultiLevel, sl_entries = [], sl_nextMetaID = 0, sl_flatData = []\<rparr>"
proof -
  let ?l = "\<lparr>sl_mode = indexLayoutMultiLevel, sl_entries = [], sl_nextMetaID = 0, sl_flatData = []\<rparr>"
  let ?ops = "[SegAddLevel2 [1] 2 3 [\<lparr>cm_FileName = [4], cm_KeyStart = [5]\<rparr>] True, SegAddLayout [1] ?l]"
  let ?c = "fold segment_step ?ops (newSharedSegmentIndexCache (newSharedByteCache 1000))"
  have m: "fold segment_spec ?ops Map.empty (Level2 [1] 2 4) = None"
    "fold segment_spec ?ops Map.empty (Layout [1]) = Some (LayoutOf ?l)" by simp_all
  have "(1000 :: u64) < 2 ^ 63" "\<forall>op \<in> set ?ops. segment_op_ok op" by simp_all
  note s = segment_cache_sound [OF this refl refl, of "[1]" 2 4]
  have "fst (GetLevel2ByPath ?c [1] 2 4) = None"
    using s m(1) by (metis option.distinct(1) option.exhaust)
  moreover have "fst (GetLayoutByPath ?c [1]) = Some ?l"
    using s m(2) by (metis segmentIndexLayout.select_convs(1))
  ultimately show ?thesis unfolding Let_def by (rule conjI)
qed

text \<open>
  C22. A cached node-file buffer is given back to the pool exactly once and only when it is out
  of use: in every life of an entry, as long as it is in the cache or a reader holds it, it
  still has its buffer and nothing has been given back; once it is evicted and the last reader
  has released it, the buffer has been given back exactly once, and the entry can no longer
  be retained.
\<close>

theorem buffer_given_back_once:
  assumes "entry_life hdr buf e n given"
  shows "if fe_evicted e \<and> n = 0 then given = [buf] \<and> fe_buf e = None \<and> Retain e = (False, e)
     else given = [] \<and> fe_buf e = Some buf \<and> fst (Retain e)"
  using entry_life_inv [OF assms] by (auto simp: Retain_def)

theorem buffer_given_back_once_witness:
  "\<exists>e. entry_life [1] [2] e 0 [[2]] \<and> Retain e = (False, e)"
proof -
  let ?e = "newFileNodeCacheEntry [1] [2]"
  have "Retain ?e = (True, ?e\<lparr>fe_refs := 2\<rparr>)" by (simp add: Retain_def newFileNodeCacheEntry_def)
  from entry_life.retained [OF entry_life.created this]
  have 1: "entry_life [1] [2] (?e\<lparr>fe_refs := 2\<rparr>) 1 []" by simp
  have "onSharedCacheEvict (?e\<lparr>fe_refs := 2\<rparr>) = (None, ?e\<lparr>fe_refs := 1, fe_evicted := True\<rparr>)"
    by (simp add: onSharedCacheEvict_def Release_def newFileNodeCacheEntry_def Let_def)
  from entry_life.evicted [OF 1 _ this] have 2: "entry_life [1] [2] (?e\<lparr>fe_refs := 1, fe_evicted := True\<rparr>) (Suc 0) []"
    by (simp add: newFileNodeCacheEntry_def)
  have "Release (?e\<lparr>fe_refs := 1, fe_evicted := True\<rparr>) = (Some [2], ?e\<lparr>fe_refs := 0, fe_evicted := True, fe_buf := None\<rparr>)"
    by (simp add: Release_def newFileNodeCacheEntry_def Let_def)
  from entry_life.released [OF 2 this]
  have 3: "entry_life [1] [2] (?e\<lparr>fe_refs := 0, fe_evicted := True, fe_buf := None\<rparr>) 0 [[2]]" by simp
  show ?thesis using 3 buffer_given_back_once [OF 3] by auto
qed

end
