(* ===== verification/Node_File.thy ===== *)
theory Node_File
  imports Theo_Prelude "HOL-Library.Multiset"
begin

text \<open>
  Node files (\<^verbatim>\<open>prefixdb/prefixTree.go\<close>, \<^verbatim>\<open>prefixdb/compression.go\<close>): a header, a part
  of entries sorted by key that may be compressed, and a part of entries in the order in which
  they were appended. The theory models the formats, the search in both parts and the
  compaction that merges the second part into the first. The zstd package is the parameter
  \<open>zstd_ops\<close>, of which the theory uses that decoding undoes encoding and that an encoding of
  a non-empty input is not empty.
\<close>

section \<open>Entries\<close>

record NodeInfo =
  ni_key :: bytes
  ni_accountOffset :: u64
  ni_accountSize :: u32
  ni_storageFileID :: u32
  ni_storageOffset :: u64
  ni_storageSize :: u64

definition NodeEntrySize :: nat where
  "NodeEntrySize = 65"

definition MaxKeySize :: nat where
  "MaxKeySize = 32"

definition nodeCommitTagMagic :: u64 where
  "nodeCommitTagMagic = 0x434d54424c4f434b"

definition zero_info :: NodeInfo where
  "zero_info = \<lparr>ni_key = [], ni_accountOffset = 0, ni_accountSize = 0, ni_storageFileID = 0,
                ni_storageOffset = 0, ni_storageSize = 0\<rparr>"

definition cloneNodeInfo :: "NodeInfo \<Rightarrow> NodeInfo" where
  "cloneNodeInfo nodeInfo = (if 0 < length (ni_key nodeInfo) then nodeInfo\<lparr>ni_key := ni_key nodeInfo\<rparr> else nodeInfo)"

lemma cloneNodeInfo_id [simp]: "cloneNodeInfo n = n"
  by (simp add: cloneNodeInfo_def)

definition tombstoneNodeInfo :: "bytes \<Rightarrow> NodeInfo" where
  "tombstoneNodeInfo key = zero_info\<lparr>ni_key := key\<rparr>"

definition isNodeInfoTombstone :: "NodeInfo \<Rightarrow> bool" where
  "isNodeInfoTombstone n \<longleftrightarrow> ni_accountOffset n = 0 \<and> ni_accountSize n = 0 \<and> ni_storageFileID n = 0 \<and>
     ni_storageOffset n = 0 \<and> ni_storageSize n = 0"

definition hasStorageInfo :: "NodeInfo \<Rightarrow> bool" where
  "hasStorageInfo n \<longleftrightarrow> ni_storageFileID n \<noteq> 0 \<or> ni_storageOffset n \<noteq> 0 \<or> ni_storageSize n \<noteq> 0"

definition mergeNodeInfoForAppend :: "NodeInfo \<Rightarrow> NodeInfo \<Rightarrow> NodeInfo" where
  "mergeNodeInfoForAppend previous nxt =
     (if isNodeInfoTombstone nxt then cloneNodeInfo nxt
      else let merged = cloneNodeInfo nxt;
               merged = (if ni_accountSize merged = 0 \<and> ni_accountOffset merged = ni_accountOffset previous
                         then merged\<lparr>ni_accountSize := ni_accountSize previous\<rparr> else merged) in
           if hasStorageInfo previous \<and> \<not> hasStorageInfo merged
           then let merged = merged\<lparr>ni_storageFileID := ni_storageFileID previous,
                                    ni_storageOffset := ni_storageOffset previous,
                                    ni_storageSize := ni_storageSize previous\<rparr> in
                if ni_accountOffset merged < ni_accountOffset previous
                then merged\<lparr>ni_accountOffset := ni_accountOffset previous, ni_accountSize := ni_accountSize previous\<rparr>
                else merged
           else merged)"

definition nodeLookupKey :: "bytes \<Rightarrow> bytes" where
  "nodeLookupKey key = (if MaxKeySize < length key then take MaxKeySize key else key)"

text \<open>
  An entry has 65 bytes: the key length, 32 bytes of key padded with zeros, the account
  offset and size, and the storage pointer.
\<close>

definition encodeNodeEntry :: "NodeInfo \<Rightarrow> bytes" where
  "encodeNodeEntry nodeInfo =
     (let keyLen = (if MaxKeySize < length (ni_key nodeInfo) then MaxKeySize else length (ni_key nodeInfo)) in
      word_of_nat keyLen # take keyLen (ni_key nodeInfo) @ replicate (32 - keyLen) 0 @
      PutUint64 (ni_accountOffset nodeInfo) @ PutUint32 (ni_accountSize nodeInfo) @
      PutUint32 (ni_storageFileID nodeInfo) @ PutUint64 (ni_storageOffset nodeInfo) @ PutUint64 (ni_storageSize nodeInfo))"

definition decodeNodeEntry :: "bytes \<Rightarrow> NodeInfo" where
  "decodeNodeEntry entry =
     (if length entry < NodeEntrySize then zero_info
      else let keyLen = (if MaxKeySize < unat (entry ! 0) then MaxKeySize else unat (entry ! 0)) in
        \<lparr>ni_key = take keyLen (drop 1 entry), ni_accountOffset = Uint64 (drop 33 entry),
         ni_accountSize = Uint32 (drop 41 entry), ni_storageFileID = Uint32 (drop 45 entry),
         ni_storageOffset = Uint64 (drop 49 entry), ni_storageSize = Uint64 (drop 57 entry)\<rparr>)"

definition encodeNodeEntries :: "NodeInfo list \<Rightarrow> bytes" where
  "encodeNodeEntries entries = concat (map encodeNodeEntry entries)"

definition commit_tag :: "u64 \<Rightarrow> bytes" where
  "commit_tag blockID = replicate 33 0 @ PutUint64 nodeCommitTagMagic @ replicate 16 0 @ PutUint64 blockID"

definition appendNodeCommitTag :: "bytes \<Rightarrow> u64 \<Rightarrow> bytes" where
  "appendNodeCommitTag dst blockID = (if blockID = 0 then dst else dst @ commit_tag blockID)"

definition isZeroNodeEntryRange :: "bytes \<Rightarrow> nat \<Rightarrow> nat \<Rightarrow> bool" where
  "isZeroNodeEntryRange entry start stop = list_all (\<lambda>b. b = 0) (take (stop - start) (drop start entry))"

definition nodeCommitTagBlockID :: "bytes \<Rightarrow> u64 option" where
  "nodeCommitTagBlockID entry =
     (if length entry < NodeEntrySize \<or> entry ! 0 \<noteq> 0 then None
      else if \<not> isZeroNodeEntryRange entry 1 33 then None
      else if Uint64 (drop 33 entry) \<noteq> nodeCommitTagMagic then None
      else if Uint32 (drop 41 entry) \<noteq> 0 \<or> Uint32 (drop 45 entry) \<noteq> 0 \<or> Uint64 (drop 49 entry) \<noteq> 0 then None
      else let blockID = Uint64 (drop 57 entry) in if blockID = 0 then None else Some blockID)"

definition isNodeCommitTagEntry :: "bytes \<Rightarrow> bool" where
  "isNodeCommitTagEntry entry \<longleftrightarrow> nodeCommitTagBlockID entry \<noteq> None"

section \<open>Headers and compression\<close>

record FileNodeHeader =
  fh_Magic :: u32
  fh_Version :: "16 word"
  fh_SortedEntryCount :: u32
  fh_UnsortedEntryCount :: u32
  fh_Reserved :: bytes

definition FileNodeMagic :: u32 where
  "FileNodeMagic = 0x50544E46"

definition fileNodeVersionBase :: "16 word" where
  "fileNodeVersionBase = 2"

definition fileNodeVersionCompressed :: "16 word" where
  "fileNodeVersionCompressed = 3"

definition fileNodeHeaderFlagSortedZstd :: byte where
  "fileNodeHeaderFlagSortedZstd = 1"

definition FileNodeHeaderSize :: nat where
  "FileNodeHeaderSize = 22"

definition new_header :: FileNodeHeader where
  "new_header = \<lparr>fh_Magic = FileNodeMagic, fh_Version = fileNodeVersionBase, fh_SortedEntryCount = 0,
                 fh_UnsortedEntryCount = 0, fh_Reserved = replicate 8 0\<rparr>"

definition PutUint16 :: "16 word \<Rightarrow> bytes" where
  "PutUint16 w = be_put 2 (unat w)"

definition Uint16 :: "bytes \<Rightarrow> 16 word" where
  "Uint16 bs = word_of_nat (be_get (take 2 bs))"

definition encodeFileNodeHeader :: "FileNodeHeader \<Rightarrow> bytes" where
  "encodeFileNodeHeader header =
     PutUint32 (fh_Magic header) @ PutUint16 (fh_Version header) @ PutUint32 (fh_SortedEntryCount header) @
     PutUint32 (fh_UnsortedEntryCount header) @ fh_Reserved header"

text \<open>\<^verbatim>\<open>binary.Read\<close> of a header from a buffer that holds one.\<close>

definition decodeFileNodeHeader :: "bytes \<Rightarrow> FileNodeHeader" where
  "decodeFileNodeHeader bs =
     \<lparr>fh_Magic = Uint32 bs, fh_Version = Uint16 (drop 4 bs), fh_SortedEntryCount = Uint32 (drop 6 bs),
      fh_UnsortedEntryCount = Uint32 (drop 10 bs), fh_Reserved = take 8 (drop 14 bs)\<rparr>"

definition encodeFileNodeAndPayload :: "FileNodeHeader \<Rightarrow> bytes \<Rightarrow> bytes" where
  "encodeFileNodeAndPayload header payload =
     (if length payload = 0 then encodeFileNodeHeader header else encodeFileNodeHeader header @ payload)"

datatype node_error =
    EmptyZstdPayload | ZstdError | UnexpectedDecompressedSize nat nat
  | CorruptedMetadataHeader | UnsupportedMetadataVersion "16 word"
  | NegativePayload | PayloadSmallerThanSorted nat nat | UnsortedNotAligned nat | ShortPayload nat nat
  | InvalidNodeFileSize nat | InvalidMagic u32 | NodeFileMissing | NodeOpenFault | NodeWriteFault
  | EmptyKey | GlobalFileClosed

record zstd_ops =
  z_EncodeAll :: "bytes \<Rightarrow> bytes"
  z_DecodeAll :: "bytes \<Rightarrow> bytes option"

definition zstd_laws :: "zstd_ops \<Rightarrow> bool" where
  "zstd_laws z \<longleftrightarrow> (\<forall>src. z_DecodeAll z (z_EncodeAll z src) = Some src) \<and> (\<forall>src. src \<noteq> [] \<longrightarrow> z_EncodeAll z src \<noteq> [])"

definition compressMetadataZstd :: "zstd_ops \<Rightarrow> bytes \<Rightarrow> bytes" where
  "compressMetadataZstd z src = (if length src = 0 then [] else z_EncodeAll z src)"

definition decompressMetadataZstd :: "zstd_ops \<Rightarrow> bytes \<Rightarrow> int \<Rightarrow> node_error + bytes" where
  "decompressMetadataZstd z src expectedSize =
     (if length src = 0 then if expectedSize = 0 then Inr [] else Inl EmptyZstdPayload
      else case z_DecodeAll z src of
          None \<Rightarrow> Inl ZstdError
        | Some out \<Rightarrow>
            if 0 \<le> expectedSize \<and> int (length out) \<noteq> expectedSize
            then Inl (UnexpectedDecompressedSize (length out) (nat expectedSize)) else Inr out)"

definition compressedMetadataMagic :: u32 where
  "compressedMetadataMagic = 0x5a4d4431"

definition compressedMetadataVersion :: "16 word" where
  "compressedMetadataVersion = 1"

definition encodeCompressedMetadataBlock :: "zstd_ops \<Rightarrow> bytes \<Rightarrow> bytes" where
  "encodeCompressedMetadataBlock z raw =
     PutUint32 compressedMetadataMagic @ PutUint16 compressedMetadataVersion @ [0, 0] @
     PutUint32 (word_of_nat (length raw)) @ compressMetadataZstd z raw"

text \<open>The result is the data, and whether they were compressed.\<close>

definition maybeDecodeCompressedMetadataBlock :: "zstd_ops \<Rightarrow> bytes \<Rightarrow> node_error + bytes \<times> bool" where
  "maybeDecodeCompressedMetadataBlock z data =
     (if length data < 4 \<or> Uint32 data \<noteq> compressedMetadataMagic then Inr (data, False)
      else if length data < 12 then Inl CorruptedMetadataHeader
      else if Uint16 (drop 4 data) \<noteq> compressedMetadataVersion
      then Inl (UnsupportedMetadataVersion (Uint16 (drop 4 data)))
      else case decompressMetadataZstd z (drop 12 data) (int (unat (Uint32 (drop 8 data)))) of
          Inl e \<Rightarrow> Inl e
        | Inr raw \<Rightarrow> Inr (raw, True))"

definition sortedCompressed :: "FileNodeHeader \<Rightarrow> bool" where
  "sortedCompressed h \<longleftrightarrow> fileNodeVersionCompressed \<le> fh_Version h \<and> and (fh_Reserved h ! 0) fileNodeHeaderFlagSortedZstd \<noteq> 0"

definition sortedCompressedSize :: "FileNodeHeader \<Rightarrow> int" where
  "sortedCompressedSize h =
     (if \<not> sortedCompressed h then int (unat (fh_SortedEntryCount h)) * int NodeEntrySize
      else int (unat (Uint32 (drop 4 (fh_Reserved h)))))"

definition setSortedCompression :: "bool \<Rightarrow> nat \<Rightarrow> FileNodeHeader \<Rightarrow> FileNodeHeader" where
  "setSortedCompression compressed compressedSize h =
     (if compressed
      then h\<lparr>fh_Version := fileNodeVersionCompressed,
             fh_Reserved := fileNodeHeaderFlagSortedZstd # replicate 3 0 @ PutUint32 (word_of_nat compressedSize)\<rparr>
      else h\<lparr>fh_Version := (if fh_Version h < fileNodeVersionBase \<or> fh_Version h = fileNodeVersionCompressed
                            then fileNodeVersionBase else fh_Version h),
             fh_Reserved := replicate 8 0\<rparr>)"

definition nodeFileStoredSortedPayloadSize :: "FileNodeHeader \<Rightarrow> node_error + nat" where
  "nodeFileStoredSortedPayloadSize header =
     (if sortedCompressedSize header < 0 then Inl NegativePayload else Inr (nat (sortedCompressedSize header)))"

definition nodeFileInferUnsortedEntryCount :: "FileNodeHeader \<Rightarrow> nat \<Rightarrow> node_error + u32" where
  "nodeFileInferUnsortedEntryCount header payloadSize =
     (case nodeFileStoredSortedPayloadSize header of
        Inl e \<Rightarrow> Inl e
      | Inr sortedStored \<Rightarrow>
          if payloadSize < sortedStored then Inl (PayloadSmallerThanSorted payloadSize sortedStored)
          else if (payloadSize - sortedStored) mod NodeEntrySize \<noteq> 0 then Inl (UnsortedNotAligned (payloadSize - sortedStored))
          else Inr (word_of_nat ((payloadSize - sortedStored) div NodeEntrySize)))"

definition nodeFileStoredPayloadSize :: "FileNodeHeader \<Rightarrow> node_error + nat" where
  "nodeFileStoredPayloadSize header =
     (case nodeFileStoredSortedPayloadSize header of
        Inl e \<Rightarrow> Inl e
      | Inr sortedStored \<Rightarrow> Inr (sortedStored + unat (fh_UnsortedEntryCount header) * NodeEntrySize))"

definition encodeNodeFilePayload :: "zstd_ops \<Rightarrow> FileNodeHeader \<Rightarrow> bytes \<Rightarrow> bytes \<Rightarrow> bool \<Rightarrow> bytes \<times> FileNodeHeader" where
  "encodeNodeFilePayload z header sortedSlice unsortedSlice compressSorted =
     (let h = header\<lparr>fh_SortedEntryCount := word_of_nat (length sortedSlice div NodeEntrySize),
                     fh_UnsortedEntryCount := word_of_nat (length unsortedSlice div NodeEntrySize)\<rparr> in
      if compressSorted \<and> 0 < length sortedSlice
      then let compressed = compressMetadataZstd z sortedSlice
           in (compressed @ unsortedSlice, setSortedCompression True (length compressed) h)
      else (sortedSlice @ unsortedSlice, setSortedCompression False 0 h))"

text \<open>The result is the whole decoded payload, its sorted part and its unsorted part.\<close>

definition decodeNodeFilePayload :: "zstd_ops \<Rightarrow> FileNodeHeader \<Rightarrow> bytes \<Rightarrow> node_error + bytes \<times> bytes \<times> bytes" where
  "decodeNodeFilePayload z header payload =
     (let expectedSorted = unat (fh_SortedEntryCount header) * NodeEntrySize in
      if \<not> sortedCompressed header
      then if length payload < expectedSorted then Inl (PayloadSmallerThanSorted (length payload) expectedSorted)
           else let unsortedStored = length payload - expectedSorted in
             if unsortedStored mod NodeEntrySize \<noteq> 0 then Inl (UnsortedNotAligned unsortedStored)
             else Inr (payload, take expectedSorted payload, drop expectedSorted payload)
      else case nodeFileStoredSortedPayloadSize header of
          Inl e \<Rightarrow> Inl e
        | Inr sortedStored \<Rightarrow>
            if length payload < sortedStored then Inl (ShortPayload (length payload) sortedStored)
            else let unsortedStored = length payload - sortedStored in
              if unsortedStored mod NodeEntrySize \<noteq> 0 then Inl (UnsortedNotAligned unsortedStored)
              else case decompressMetadataZstd z (take sortedStored payload) (int expectedSorted) of
                  Inl e \<Rightarrow> Inl e
                | Inr sortedSlice \<Rightarrow>
                    let combined = sortedSlice @ drop sortedStored payload
                    in Inr (combined, take (length sortedSlice) combined, drop (length sortedSlice) combined))"

section \<open>Search\<close>

text \<open>
  A slice is read entry by entry. The counts are \<^verbatim>\<open>uint32\<close> in the code; the indices of the
  binary search are numbers here, which agrees with the code as long as \<^verbatim>\<open>low + high\<close> stays
  below 2^32, that is for slices of fewer than 2^31 entries (139 GB).
\<close>

definition slice_entries :: "bytes \<Rightarrow> bytes list" where
  "slice_entries bs =
     map (\<lambda>i. take NodeEntrySize (drop (i * NodeEntrySize) bs)) [0..<length bs div NodeEntrySize]"

definition key_at :: "bytes \<Rightarrow> nat \<Rightarrow> bytes" where
  "key_at sortedSlice i =
     (let start = i * NodeEntrySize;
          keyLen = (if MaxKeySize < unat (sortedSlice ! start) then MaxKeySize else unat (sortedSlice ! start))
      in take keyLen (drop (start + 1) sortedSlice))"

function bsearch :: "bytes \<Rightarrow> bytes \<Rightarrow> nat \<Rightarrow> nat \<Rightarrow> nat option" where
  "bsearch sortedSlice lookupKey low high =
     (if high < low then None
      else let mid = (low + high) div 2; k = key_at sortedSlice mid in
        if k = lookupKey then Some mid
        else if k < lookupKey then bsearch sortedSlice lookupKey (mid + 1) high
        else if mid = 0 then None
        else bsearch sortedSlice lookupKey low (mid - 1))"
  by pat_completeness auto
termination
  by (relation "measure (\<lambda>(s, k, low, high). high + 1 - low)") auto

declare bsearch.simps [simp del]

definition linear_find :: "bytes \<Rightarrow> bytes list \<Rightarrow> bytes option" where
  "linear_find lookupKey es = find (\<lambda>e. \<not> isNodeCommitTagEntry e \<and> ni_key (decodeNodeEntry e) = lookupKey) es"

definition findNodeInfoInSortedSlice :: "bytes \<Rightarrow> bytes \<Rightarrow> NodeInfo option" where
  "findNodeInfoInSortedSlice sortedSlice key =
     (let sortedCount = length sortedSlice div NodeEntrySize; lookupKey = nodeLookupKey key in
      if sortedCount = 0 then None
      else if list_ex isNodeCommitTagEntry (slice_entries sortedSlice)
      then map_option decodeNodeEntry (linear_find lookupKey (slice_entries sortedSlice))
      else map_option (\<lambda>mid. decodeNodeEntry (take NodeEntrySize (drop (mid * NodeEntrySize) sortedSlice)))
             (bsearch sortedSlice lookupKey 0 (sortedCount - 1)))"

definition nodeFileContainsKey :: "bytes \<Rightarrow> bytes \<Rightarrow> bytes \<Rightarrow> bool" where
  "nodeFileContainsKey sortedSlice unsortedSlice key =
     (let lookupKey = nodeLookupKey key in
      case linear_find lookupKey (rev (slice_entries unsortedSlice)) of
        Some entry \<Rightarrow> \<not> isNodeInfoTombstone (decodeNodeEntry entry)
      | None \<Rightarrow>
          (case findNodeInfoInSortedSlice sortedSlice lookupKey of
             Some dec \<Rightarrow> \<not> isNodeInfoTombstone dec
           | None \<Rightarrow> False))"

text \<open>
  The search of \<^verbatim>\<open>getFromFileNodeWithBreakdown\<close> in the two parts of a file. The scan of the
  unsorted part runs from the newest entry to the oldest and keeps the newest hit with a
  storage pointer and the newest one without; a deletion marker of the key ends the search.
\<close>

fun scan_unsorted :: "bytes \<Rightarrow> bytes list \<Rightarrow> NodeInfo option \<Rightarrow> NodeInfo option \<Rightarrow> (NodeInfo option \<times> NodeInfo option) option" where
  "scan_unsorted lookupKey [] latestAccountHit latestStorageHit = Some (latestAccountHit, latestStorageHit)"
| "scan_unsorted lookupKey (entry # rest) latestAccountHit latestStorageHit =
     (if isNodeCommitTagEntry entry then scan_unsorted lookupKey rest latestAccountHit latestStorageHit
      else let dec = decodeNodeEntry entry in
        if ni_key dec \<noteq> lookupKey then scan_unsorted lookupKey rest latestAccountHit latestStorageHit
        else if isNodeInfoTombstone dec then None
        else if hasStorageInfo dec
        then scan_unsorted lookupKey rest latestAccountHit
               (if latestStorageHit = None then Some dec else latestStorageHit)
        else scan_unsorted lookupKey rest (if latestAccountHit = None then Some dec else latestAccountHit) latestStorageHit)"

definition mergeForRead :: "NodeInfo option \<Rightarrow> NodeInfo option \<Rightarrow> NodeInfo" where
  "mergeForRead base overlay =
     (case overlay of
        None \<Rightarrow> (case base of None \<Rightarrow> zero_info | Some b \<Rightarrow> cloneNodeInfo b)
      | Some ov \<Rightarrow> (case base of None \<Rightarrow> cloneNodeInfo ov | Some b \<Rightarrow> mergeNodeInfoForAppend b ov))"

definition findSortedHit :: "bytes \<Rightarrow> bytes \<Rightarrow> NodeInfo option" where
  "findSortedHit sortedSlice lookupKey =
     (case findNodeInfoInSortedSlice sortedSlice lookupKey of
        None \<Rightarrow> None
      | Some dec \<Rightarrow> if isNodeInfoTombstone dec then None else Some dec)"

definition searchNodeFile :: "bytes \<Rightarrow> bytes \<Rightarrow> bytes \<Rightarrow> NodeInfo option" where
  "searchNodeFile sortedSlice unsortedSlice key =
     (let lookupKey = nodeLookupKey key in
      if length sortedSlice div NodeEntrySize + length unsortedSlice div NodeEntrySize = 0 then None
      else case scan_unsorted lookupKey (rev (slice_entries unsortedSlice)) None None of
          None \<Rightarrow> None
        | Some (latestAccountHit, latestStorageHit) \<Rightarrow>
            let sortedHit = findSortedHit sortedSlice lookupKey in
            (case latestStorageHit of
               Some _ \<Rightarrow>
                 let merged = mergeForRead sortedHit latestStorageHit in
                 Some (case latestAccountHit of None \<Rightarrow> merged | Some _ \<Rightarrow> mergeForRead latestAccountHit (Some merged))
             | None \<Rightarrow>
                 (case latestAccountHit of
                    Some _ \<Rightarrow> Some (mergeForRead sortedHit latestAccountHit)
                  | None \<Rightarrow> sortedHit)))"

section \<open>Compaction\<close>

text \<open>The map of the code is an association list; the entries are sorted by key at the end.\<close>

definition add_sorted :: "bytes \<Rightarrow> (bytes \<times> NodeInfo) list \<Rightarrow> (bytes \<times> NodeInfo) list" where
  "add_sorted entry m =
     (if isNodeCommitTagEntry entry then m
      else let dec = decodeNodeEntry entry in
        if 0 < length (ni_key dec) \<and> \<not> isNodeInfoTombstone dec then AList.update (ni_key dec) dec m else m)"

definition add_unsorted :: "bytes \<Rightarrow> (bytes \<times> NodeInfo) list \<Rightarrow> (bytes \<times> NodeInfo) list" where
  "add_unsorted entry m =
     (if isNodeCommitTagEntry entry then m
      else let dec = decodeNodeEntry entry; k = ni_key dec in
        if length k = 0 then m
        else if isNodeInfoTombstone dec then AList.delete k m
        else AList.update k (case map_of m k of None \<Rightarrow> dec | Some old \<Rightarrow> mergeNodeInfoForAppend old dec) m)"

definition buildEntriesFromSlices :: "bytes \<Rightarrow> bytes \<Rightarrow> NodeInfo list" where
  "buildEntriesFromSlices sortedSlice unsortedSlice =
     (let m = fold add_unsorted (slice_entries unsortedSlice) (fold add_sorted (slice_entries sortedSlice) [])
      in sort_key ni_key (map snd m))"

section \<open>Commit tags\<close>

text \<open>
  The loop of \<^verbatim>\<open>findLastNodeCommitTagEnd\<close> walks back from the last whole entry of the
  unsorted part and stops at the first commit tag it meets.
\<close>

fun last_tag_loop :: "bytes \<Rightarrow> nat \<Rightarrow> nat \<Rightarrow> nat option" where
  "last_tag_loop payload unsortedStart 0 = None"
| "last_tag_loop payload unsortedStart (Suc n) =
     (if isNodeCommitTagEntry (take NodeEntrySize (drop (unsortedStart + n * NodeEntrySize) payload))
      then Some (unsortedStart + Suc n * NodeEntrySize) else last_tag_loop payload unsortedStart n)"

definition findLastNodeCommitTagEnd :: "bytes \<Rightarrow> nat option" where
  "findLastNodeCommitTagEnd payload =
     (if length payload \<le> FileNodeHeaderSize then None
      else let header = decodeFileNodeHeader payload in
        if fh_Magic header \<noteq> FileNodeMagic then None
        else case nodeFileStoredSortedPayloadSize header of
            Inl _ \<Rightarrow> None
          | Inr sortedStored \<Rightarrow>
              let unsortedStart = FileNodeHeaderSize + sortedStored in
              if length payload < unsortedStart then None
              else last_tag_loop payload unsortedStart ((length payload - unsortedStart) div NodeEntrySize))"

section \<open>Round trips\<close>

named_theorems node_simps \<open>encodings of node entries and headers\<close>

lemma Uint16_PutUint16 [simp, node_simps]: "Uint16 (PutUint16 w @ rest) = w"
  using unsigned_less [of w, where ?'a = nat] by (simp add: Uint16_def PutUint16_def be_get_be_put)

lemma length_PutUint16 [simp, node_simps]: "length (PutUint16 w) = 2"
  by (simp add: PutUint16_def)

lemma length_encodeNodeEntry [simp, node_simps]: "length (encodeNodeEntry n) = 65"
  by (auto simp: encodeNodeEntry_def Let_def MaxKeySize_def)

definition stored_info :: "NodeInfo \<Rightarrow> NodeInfo" where
  "stored_info n = n\<lparr>ni_key := take MaxKeySize (ni_key n)\<rparr>"

lemma stored_info_simps [simp]:
  "ni_key (stored_info n) = take MaxKeySize (ni_key n)" "ni_accountOffset (stored_info n) = ni_accountOffset n"
  "ni_accountSize (stored_info n) = ni_accountSize n" "ni_storageFileID (stored_info n) = ni_storageFileID n"
  "ni_storageOffset (stored_info n) = ni_storageOffset n" "ni_storageSize (stored_info n) = ni_storageSize n"
  by (simp_all add: stored_info_def)

lemma drop_append_exact: "length xs = n \<Longrightarrow> drop n (xs @ ys) = ys"
  by auto

lemma decode_encode_entry [node_simps]: "decodeNodeEntry (encodeNodeEntry n) = stored_info n"
proof -
  define k where "k = take MaxKeySize (ni_key n)"
  have len: "length k \<le> 32" by (simp add: k_def MaxKeySize_def)
  define pad where "pad = replicate (32 - length k) (0 :: byte)"
  have e: "encodeNodeEntry n = (word_of_nat (length k) # k @ pad) @ PutUint64 (ni_accountOffset n) @ PutUint32 (ni_accountSize n) @
      PutUint32 (ni_storageFileID n) @ PutUint64 (ni_storageOffset n) @ PutUint64 (ni_storageSize n)"
    by (auto simp: encodeNodeEntry_def Let_def k_def pad_def MaxKeySize_def)
  have u: "unat (word_of_nat (length k) :: byte) = length k" using len by (simp add: unat_of_nat)
  have l: "length (word_of_nat (length k) # k @ pad) = 33" using len by (simp add: pad_def)
  define hd33 where "hd33 = word_of_nat (length k) # k @ pad"
  note e' = e [folded hd33_def]
  have d: "drop 33 (encodeNodeEntry n) = PutUint64 (ni_accountOffset n) @ PutUint32 (ni_accountSize n) @
      PutUint32 (ni_storageFileID n) @ PutUint64 (ni_storageOffset n) @ PutUint64 (ni_storageSize n)"
    unfolding e' using l by (intro drop_append_exact) (simp add: hd33_def)
  have d41: "drop 41 (encodeNodeEntry n) = drop 8 (drop 33 (encodeNodeEntry n))"
    "drop 45 (encodeNodeEntry n) = drop 12 (drop 33 (encodeNodeEntry n))"
    "drop 49 (encodeNodeEntry n) = drop 16 (drop 33 (encodeNodeEntry n))"
    "drop 57 (encodeNodeEntry n) = drop 24 (drop 33 (encodeNodeEntry n))" by (simp_all add: drop_drop)
  have key: "take (length k) (drop 1 (encodeNodeEntry n)) = k" unfolding e by simp
  have z: "encodeNodeEntry n ! 0 = word_of_nat (length k)" unfolding e by simp
  have k32: "take 32 (ni_key n) = k" by (simp add: k_def MaxKeySize_def)
  show ?thesis
    unfolding decodeNodeEntry_def z d41 d
    using len key by (simp add: NodeEntrySize_def u MaxKeySize_def Let_def stored_info_def k32)
qed

lemma decode_encode_header [node_simps]:
  assumes "length (fh_Reserved h) = 8"
  shows "decodeFileNodeHeader (encodeFileNodeHeader h @ rest) = h"
  using assms by (simp add: decodeFileNodeHeader_def encodeFileNodeHeader_def)

lemma length_encode_header [simp, node_simps]:
  "length (fh_Reserved h) = 8 \<Longrightarrow> length (encodeFileNodeHeader h) = FileNodeHeaderSize"
  by (simp add: encodeFileNodeHeader_def FileNodeHeaderSize_def)

lemma length_concat_fixed: "\<forall>e \<in> set es. length e = n \<Longrightarrow> length (concat es) = length es * n"
  by (induction es) auto

lemma take_drop_concat_fixed:
  "\<forall>e \<in> set es. length e = n \<Longrightarrow> i < length es \<Longrightarrow> take n (drop (i * n) (concat es)) = es ! i"
proof (induction es arbitrary: i)
  case (Cons e es)
  then show ?case by (cases i) (simp_all add: add.commute)
qed simp

lemma slice_entries_concat [node_simps]:
  "\<forall>e \<in> set es. length e = 65 \<Longrightarrow> slice_entries (concat es) = es"
proof -
  assume a: "\<forall>e \<in> set es. length e = 65"
  then have "length (concat es) div 65 = length es" by (simp add: length_concat_fixed [OF a])
  then have "slice_entries (concat es) = map (\<lambda>i. take 65 (drop (i * 65) (concat es))) [0..<length es]"
    by (simp add: slice_entries_def NodeEntrySize_def)
  also have "\<dots> = map (\<lambda>i. es ! i) [0..<length es]"
    by (intro map_cong refl take_drop_concat_fixed [OF a]) simp
  also have "\<dots> = es" by (rule map_nth)
  finally show ?thesis .
qed

lemma slice_entries_exact:
  assumes "length bs mod 65 = 0"
  shows "concat (slice_entries bs) = bs" "\<forall>e \<in> set (slice_entries bs). length e = 65"
proof -
  have "concat (map (\<lambda>i. take 65 (drop (i * 65) xs)) [0..<n]) = xs" if "length xs = n * 65" for n and xs :: bytes
    using that
  proof (induction n arbitrary: xs)
    case (Suc n)
    have "map (\<lambda>i. take 65 (drop (i * 65) xs)) [0..<Suc n] =
      take 65 xs # map (\<lambda>i. take 65 (drop (i * 65) (drop 65 xs))) [0..<n]"
      by (simp add: map_upt_Suc add.commute del: upt_Suc)
    then show ?case using Suc.IH [of "drop 65 xs"] Suc.prems by simp
  qed simp
  from this [of bs "length bs div 65"] div_mult_mod_eq [of "length bs" 65] assms show "concat (slice_entries bs) = bs"
    by (simp add: slice_entries_def NodeEntrySize_def)
  show "\<forall>e \<in> set (slice_entries bs). length e = 65"
  proof
    fix e assume "e \<in> set (slice_entries bs)"
    then obtain i where i: "i < length bs div 65" "e = take 65 (drop (i * 65) bs)"
      by (auto simp: slice_entries_def NodeEntrySize_def)
    have "Suc i * 65 \<le> length bs" using i(1) by (metis Suc_leI div_times_less_eq_dividend le_trans mult_le_mono1)
    with i(2) show "length e = 65" by simp
  qed
qed

lemma slice_entries_append:
  assumes "length xs mod 65 = 0" "length ys mod 65 = 0"
  shows "slice_entries (xs @ ys) = slice_entries xs @ slice_entries ys"
proof -
  have "xs @ ys = concat (slice_entries xs @ slice_entries ys)"
    using slice_entries_exact(1) [OF assms(1)] slice_entries_exact(1) [OF assms(2)] by simp
  moreover have "slice_entries (concat (slice_entries xs @ slice_entries ys)) = slice_entries xs @ slice_entries ys"
    using slice_entries_exact(2) [OF assms(1)] slice_entries_exact(2) [OF assms(2)] by (intro slice_entries_concat) auto
  ultimately show ?thesis by metis
qed

lemma slice_encodeNodeEntries [node_simps]: "slice_entries (encodeNodeEntries ns) = map encodeNodeEntry ns"
  unfolding encodeNodeEntries_def by (rule slice_entries_concat) simp

lemma length_encodeNodeEntries [simp, node_simps]: "length (encodeNodeEntries ns) = length ns * 65"
  unfolding encodeNodeEntries_def by (subst length_concat_fixed [where n = 65]) simp_all

lemma length_commit_tag [simp, node_simps]: "length (commit_tag b) = 65"
  by (simp add: commit_tag_def)

lemma commit_tag_recognised [node_simps]: "b \<noteq> 0 \<Longrightarrow> nodeCommitTagBlockID (commit_tag b) = Some b"
proof -
  have z: "be_get (replicate n 0) = 0" for n by (induction n) simp_all
  have w: "(word_of_nat (be_get (PutUint64 x)) :: u64) = x" for x using Uint_Put_alone(1) [of x] by (simp add: Uint64_def)
  assume "b \<noteq> 0"
  then show ?thesis
    by (simp add: nodeCommitTagBlockID_def commit_tag_def NodeEntrySize_def isZeroNodeEntryRange_def nth_append
        list_all_iff Uint32_def Uint64_def take_replicate z w)
qed

lemma entry_not_tag [node_simps]: "ni_key n \<noteq> [] \<Longrightarrow> \<not> isNodeCommitTagEntry (encodeNodeEntry n)"
proof -
  assume k: "ni_key n \<noteq> []"
  define m where "m = (if MaxKeySize < length (ni_key n) then MaxKeySize else length (ni_key n))"
  have m: "0 < m" "m \<le> 32" using k by (auto simp: m_def MaxKeySize_def)
  have "encodeNodeEntry n ! 0 = word_of_nat m" by (simp add: encodeNodeEntry_def Let_def m_def)
  moreover have "(word_of_nat m :: byte) \<noteq> 0"
  proof
    assume "(word_of_nat m :: byte) = 0"
    then have "unat (word_of_nat m :: byte) = 0" by simp
    with m show False by (simp add: unat_of_nat)
  qed
  ultimately show ?thesis by (simp add: isNodeCommitTagEntry_def nodeCommitTagBlockID_def)
qed

section \<open>Binary search on a sorted slice\<close>

definition valid_info :: "NodeInfo \<Rightarrow> bool" where
  "valid_info n \<longleftrightarrow> ni_key n \<noteq> [] \<and> length (ni_key n) \<le> MaxKeySize"

definition sorted_infos :: "NodeInfo list \<Rightarrow> bool" where
  "sorted_infos ns \<longleftrightarrow> sorted_wrt (\<lambda>a b. ni_key a < ni_key b) ns \<and> (\<forall>n \<in> set ns. valid_info n)"

lemma stored_valid [simp]: "valid_info n \<Longrightarrow> stored_info n = n"
  by (cases n) (simp add: valid_info_def stored_info_def)

lemma key_at_encode:
  assumes "i < length ns" "\<forall>n \<in> set ns. valid_info n"
  shows "key_at (encodeNodeEntries ns) i = ni_key (ns ! i)"
proof -
  let ?s = "encodeNodeEntries ns" and ?n = "ns ! i"
  have n: "valid_info ?n" using assms by simp
  have e: "take 65 (drop (i * 65) ?s) = encodeNodeEntry ?n"
    unfolding encodeNodeEntries_def using assms(1) take_drop_concat_fixed [of "map encodeNodeEntry ns" 65 i] by simp
  have dec: "decodeNodeEntry (encodeNodeEntry ?n) = ?n" using n by (simp add: decode_encode_entry)
  have len: "i * 65 + 65 \<le> length ?s" using assms(1) by simp
  have first: "?s ! (i * 65) = encodeNodeEntry ?n ! 0"
    using arg_cong [OF e, of "\<lambda>x. x ! 0"] len by simp
  have rest: "take m (drop (Suc (i * 65)) ?s) = take m (drop (Suc 0) (encodeNodeEntry ?n))" if "m \<le> 32" for m
  proof -
    have "drop (Suc 0) (encodeNodeEntry ?n) = take 64 (drop (Suc (i * 65)) ?s)"
      unfolding e [symmetric] by (simp add: drop_take)
    with that show ?thesis by simp
  qed
  have "ni_key ?n = (let keyLen = (if MaxKeySize < unat (encodeNodeEntry ?n ! 0) then MaxKeySize else unat (encodeNodeEntry ?n ! 0))
      in take keyLen (drop 1 (encodeNodeEntry ?n)))"
    using arg_cong [OF dec, of ni_key] by (simp add: decodeNodeEntry_def NodeEntrySize_def Let_def)
  then show ?thesis by (simp add: key_at_def NodeEntrySize_def first rest MaxKeySize_def Let_def)
qed

lemma bsearch_sound: "bsearch s k low high = Some m \<Longrightarrow> key_at s m = k \<and> low \<le> m \<and> m \<le> high"
proof (induction s k low high rule: bsearch.induct)
  case (1 s k low high)
  let ?mid = "(low + high) div 2"
  from 1(3) have nl: "\<not> high < low" by (subst (asm) bsearch.simps) (auto split: if_splits)
  consider "key_at s ?mid = k" "m = ?mid"
    | "key_at s ?mid \<noteq> k" "key_at s ?mid < k" "bsearch s k (?mid + 1) high = Some m"
    | "key_at s ?mid \<noteq> k" "\<not> key_at s ?mid < k" "?mid \<noteq> 0" "bsearch s k low (?mid - 1) = Some m"
    using 1(3) nl by (subst (asm) bsearch.simps) (auto simp: Let_def split: if_splits)
  then show ?case
  proof cases
    case 1
    with nl show ?thesis by auto
  next
    case 2
    from "1.IH"(1) [OF nl refl refl 2(1,2,3)] nl show ?thesis by auto
  next
    case 3
    from "1.IH"(2) [OF nl refl refl 3] nl show ?thesis by auto
  qed
qed

lemma bsearch_complete:
  assumes "low \<le> j" "j \<le> high" "key_at s j = k" "\<forall>a b. a < b \<longrightarrow> b \<le> high \<longrightarrow> key_at s a < key_at s b"
  shows "bsearch s k low high \<noteq> None"
  using assms
proof (induction s k low high rule: bsearch.induct)
  case (1 s k low high)
  let ?mid = "(low + high) div 2"
  have mid: "\<not> high < low" "?mid \<le> high" using 1(3,4) by auto
  show ?case
  proof (cases "key_at s ?mid = k")
    case True
    with mid show ?thesis by (subst bsearch.simps) (simp add: Let_def)
  next
    case ne: False
    show ?thesis
    proof (cases "key_at s ?mid < k")
      case True
      have "?mid < j"
      proof (rule ccontr)
        assume "\<not> ?mid < j"
        then have "j < ?mid" using ne 1(5) by (metis linorder_neqE_nat)
        with 1(5,6) mid(2) True show False by (meson order.asym)
      qed
      with 1(1) [OF mid(1) refl refl ne True] 1(4-6) have "bsearch s k (?mid + 1) high \<noteq> None" by simp
      with mid ne True show ?thesis by (subst bsearch.simps) (simp add: Let_def)
    next
      case False
      have "j < ?mid"
      proof (rule ccontr)
        assume "\<not> j < ?mid"
        then have "?mid < j" using ne 1(5) by (metis linorder_neqE_nat)
        with 1(4-6) False ne show False by (meson order.asym)
      qed
      moreover from this mid(2) 1(6) have "\<forall>a b. a < b \<longrightarrow> b \<le> ?mid - 1 \<longrightarrow> key_at s a < key_at s b" by auto
      ultimately have "bsearch s k low (?mid - 1) \<noteq> None"
        using 1(2) [OF mid(1) refl refl ne False] 1(3,5) by auto
      with mid ne False \<open>j < ?mid\<close> show ?thesis by (subst bsearch.simps) (simp add: Let_def)
    qed
  qed
qed

abbreviation info_map :: "NodeInfo list \<Rightarrow> bytes \<rightharpoonup> NodeInfo" where
  "info_map ns \<equiv> map_of (map (\<lambda>n. (ni_key n, n)) ns)"

lemma sorted_search:
  assumes "sorted_infos ns"
  shows "findNodeInfoInSortedSlice (encodeNodeEntries ns) k = info_map ns (nodeLookupKey k)"
proof (cases "ns = []")
  case True
  then show ?thesis by (simp add: findNodeInfoInSortedSlice_def encodeNodeEntries_def NodeEntrySize_def)
next
  case False
  let ?s = "encodeNodeEntries ns" and ?k = "nodeLookupKey k"
  have v: "\<forall>n \<in> set ns. valid_info n" and w: "sorted_wrt (\<lambda>a b. ni_key a < ni_key b) ns"
    using assms by (simp_all add: sorted_infos_def)
  have cnt: "length ?s div NodeEntrySize = length ns" by (simp add: NodeEntrySize_def)
  have no_tag: "\<not> list_ex isNodeCommitTagEntry (slice_entries ?s)"
    using v by (auto simp: list_ex_iff slice_encodeNodeEntries entry_not_tag valid_info_def)
  have at: "decodeNodeEntry (take NodeEntrySize (drop (i * NodeEntrySize) ?s)) = ns ! i" if "i < length ns" for i
    using that v take_drop_concat_fixed [of "map encodeNodeEntry ns" 65 i]
    by (simp add: encodeNodeEntries_def NodeEntrySize_def decode_encode_entry)
  have keys: "key_at ?s i = ni_key (ns ! i)" if "i < length ns" for i using key_at_encode [OF that v] .
  have lt: "\<forall>a b. a < b \<longrightarrow> b \<le> length ns - 1 \<longrightarrow> key_at ?s a < key_at ?s b"
    using w keys False by (auto simp: sorted_wrt_iff_nth_less)
  have dist: "distinct (map ni_key ns)"
    using w by (auto simp: distinct_conv_nth sorted_wrt_iff_nth_less) (metis linorder_neqE_nat order.irrefl)
  have m: "info_map ns (ni_key (ns ! i)) = Some (ns ! i)" if "i < length ns" for i
    using that dist by (intro map_of_is_SomeI) (auto simp: comp_def)
  show ?thesis
  proof (cases "bsearch ?s ?k 0 (length ns - 1)")
    case None
    have "ni_key n \<noteq> ?k" if "n \<in> set ns" for n
    proof
      assume "ni_key n = ?k"
      with that obtain i where "i < length ns" "key_at ?s i = ?k" by (metis in_set_conv_nth keys)
      moreover from this have "i \<le> length ns - 1" by simp
      ultimately show False using bsearch_complete [of 0 i "length ns - 1" ?s ?k] lt None by simp
    qed
    then have "?k \<notin> ni_key ` set ns" unfolding image_iff by metis
    then have "info_map ns ?k = None" by (simp add: map_of_eq_None_iff image_image)
    with None False cnt no_tag show ?thesis by (simp add: findNodeInfoInSortedSlice_def Let_def)
  next
    case (Some j)
    from bsearch_sound [OF Some] have j0: "j \<le> length ns - 1" "key_at ?s j = ?k" by simp_all
    with False have j: "j < length ns" "key_at ?s j = ?k" by (cases ns; simp)+
    with m [OF j(1)] keys [OF j(1)] at [OF j(1)] Some False cnt no_tag show ?thesis
      by (simp add: findNodeInfoInSortedSlice_def Let_def)
  qed
qed

section \<open>Compaction as a fold over the history of a key\<close>

text \<open>\<open>hits k es\<close> are the entries of a key in the order of the slice, commit tags left out.\<close>

definition hits :: "bytes \<Rightarrow> bytes list \<Rightarrow> NodeInfo list" where
  "hits k es = filter (\<lambda>n. ni_key n = k) (map decodeNodeEntry (filter (\<lambda>e. \<not> isNodeCommitTagEntry e) es))"

definition compact_step :: "NodeInfo \<Rightarrow> NodeInfo option \<Rightarrow> NodeInfo option" where
  "compact_step n v =
     (if isNodeInfoTombstone n then None
      else Some (case v of None \<Rightarrow> n | Some old \<Rightarrow> mergeNodeInfoForAppend old n))"

definition compact_value :: "NodeInfo list \<Rightarrow> NodeInfo option \<Rightarrow> NodeInfo option" where
  "compact_value h v = fold compact_step h v"

lemma hits_simps [simp]:
  "hits k [] = []" "hits k (xs @ ys) = hits k xs @ hits k ys"
  "hits k (e # es) = (if \<not> isNodeCommitTagEntry e \<and> ni_key (decodeNodeEntry e) = k then decodeNodeEntry e # hits k es else hits k es)"
  by (auto simp: hits_def)

lemma hits_rev: "hits k (rev es) = rev (hits k es)"
  by (induction es) auto

lemma decode_key_length: "length (ni_key (decodeNodeEntry e)) \<le> MaxKeySize"
  by (auto simp: decodeNodeEntry_def Let_def zero_info_def min_def)

lemma merge_key [simp]: "ni_key (mergeNodeInfoForAppend p n) = ni_key n"
  by (simp add: mergeNodeInfoForAppend_def Let_def)

lemma merge_live:
  assumes "\<not> isNodeInfoTombstone n"
  shows "\<not> isNodeInfoTombstone (mergeNodeInfoForAppend p n)"
proof -
  have "ni_accountOffset p \<noteq> 0" if "ni_accountOffset n < ni_accountOffset p"
    using that by auto
  with assms show ?thesis
    by (auto simp: mergeNodeInfoForAppend_def isNodeInfoTombstone_def hasStorageInfo_def Let_def)
qed

definition build_ok :: "(bytes \<times> NodeInfo) list \<Rightarrow> bool" where
  "build_ok m \<longleftrightarrow> distinct (map fst m) \<and> (\<forall>(k, n) \<in> set m. ni_key n = k \<and> valid_info n \<and> \<not> isNodeInfoTombstone n)"

lemma build_ok_update:
  assumes "build_ok m" "ni_key n = k" "valid_info n" "\<not> isNodeInfoTombstone n"
  shows "build_ok (AList.update k n m)"
proof -
  have "set (AList.update k n m) \<subseteq> insert (k, n) (set m)" by (induction m) auto
  with assms show ?thesis by (auto simp: build_ok_def distinct_update)
qed

lemma build_ok_delete: "build_ok m \<Longrightarrow> build_ok (AList.delete k m)"
  by (auto simp: build_ok_def AList.distinct_delete) (auto simp: AList.delete_eq)

lemma build_ok_add_sorted: "build_ok m \<Longrightarrow> build_ok (add_sorted e m)"
  using decode_key_length [of e]
  by (auto simp: add_sorted_def Let_def valid_info_def intro!: build_ok_update)

lemma build_ok_add_unsorted: "build_ok m \<Longrightarrow> build_ok (add_unsorted e m)"
  using decode_key_length [of e]
  by (auto simp: add_unsorted_def Let_def valid_info_def merge_live intro!: build_ok_update build_ok_delete split: option.split)

lemma build_ok_fold:
  "build_ok m \<Longrightarrow> build_ok (fold add_sorted es m)" "build_ok m \<Longrightarrow> build_ok (fold add_unsorted es m)"
  by (induction es arbitrary: m) (simp_all add: build_ok_add_sorted build_ok_add_unsorted)

lemma map_of_add_unsorted:
  "k \<noteq> [] \<Longrightarrow> map_of (add_unsorted e m) k = compact_value (hits k [e]) (map_of m k)"
  by (auto simp: add_unsorted_def Let_def compact_value_def compact_step_def update_conv' delete_conv' split: option.split)

lemma map_of_fold_unsorted:
  "k \<noteq> [] \<Longrightarrow> map_of (fold add_unsorted es m) k = compact_value (hits k es) (map_of m k)"
proof (induction es arbitrary: m)
  case (Cons e es)
  have "hits k (e # es) = hits k [e] @ hits k es" by simp
  with Cons show ?case by (simp add: map_of_add_unsorted compact_value_def del: hits_simps(3))
qed (simp add: compact_value_def)

lemma sorted_built:
  assumes "build_ok m"
  shows "sorted_infos (sort_key ni_key (map snd m))" "info_map (sort_key ni_key (map snd m)) = map_of m"
    "\<forall>n \<in> set (sort_key ni_key (map snd m)). \<not> isNodeInfoTombstone n"
proof -
  let ?ns = "sort_key ni_key (map snd m)"
  have keys: "map ni_key (map snd m) = map fst m" using assms by (auto simp: build_ok_def)
  have d: "distinct (map ni_key ?ns)"
  proof -
    have "mset (map ni_key ?ns) = mset (map ni_key (map snd m))" by (simp only: mset_map mset_sort)
    then have "distinct (map ni_key ?ns) = distinct (map fst m)" unfolding keys by (rule mset_eq_imp_distinct_iff)
    with assms show ?thesis by (simp add: build_ok_def)
  qed
  have "sorted (map ni_key ?ns)" by simp
  with d have "sorted_wrt (<) (map ni_key ?ns)" by (simp add: strict_sorted_iff)
  then show "sorted_infos ?ns" using assms by (auto simp: sorted_infos_def sorted_wrt_map build_ok_def)
  show "\<forall>n \<in> set ?ns. \<not> isNodeInfoTombstone n" using assms by (auto simp: build_ok_def)
  have s: "set (map (\<lambda>n. (ni_key n, n)) ?ns) = set m" using assms by (force simp: build_ok_def image_iff)
  have "distinct (map fst (map (\<lambda>n. (ni_key n, n)) ?ns))" using d by (simp add: comp_def)
  with s assms show "info_map ?ns = map_of m" by (simp add: map_of_inject_set build_ok_def)
qed

lemma built_search:
  assumes "nodeLookupKey k \<noteq> []"
  shows "findNodeInfoInSortedSlice (encodeNodeEntries (buildEntriesFromSlices s u)) k =
    compact_value (hits (nodeLookupKey k) (slice_entries u)) (map_of (fold add_sorted (slice_entries s) []) (nodeLookupKey k))"
proof -
  let ?m = "fold add_unsorted (slice_entries u) (fold add_sorted (slice_entries s) [])"
  have ok: "build_ok ?m" by (intro build_ok_fold) (simp add: build_ok_def)
  show ?thesis
    unfolding buildEntriesFromSlices_def Let_def sorted_search [OF sorted_built(1) [OF ok]] sorted_built(2) [OF ok]
    by (rule map_of_fold_unsorted [OF assms])
qed

lemma fold_add_sorted_encoded:
  assumes "sorted_infos ns" "\<forall>n \<in> set ns. \<not> isNodeInfoTombstone n"
  shows "map_of (fold add_sorted (slice_entries (encodeNodeEntries ns)) []) = info_map ns"
proof -
  have "map_of (fold add_sorted (map encodeNodeEntry xs) m) = map_of m ++ info_map xs"
    if "\<forall>n \<in> set xs. valid_info n \<and> \<not> isNodeInfoTombstone n" "distinct (map ni_key xs)" for xs m
    using that
  proof (induction xs arbitrary: m)
    case (Cons x xs)
    have "map_of (add_sorted (encodeNodeEntry x) m) = (map_of m)(ni_key x \<mapsto> x)"
      using Cons.prems(1) by (simp add: add_sorted_def entry_not_tag decode_encode_entry valid_info_def update_conv')
    moreover have "info_map xs (ni_key x) = None" using Cons.prems(2) by (simp add: map_of_eq_None_iff image_image)
    ultimately show ?case using Cons by (auto simp: fun_eq_iff map_add_def split: option.split)
  qed simp
  moreover have "distinct (map ni_key ns)"
    using assms(1) by (auto simp: sorted_infos_def sorted_wrt_map [symmetric] strict_sorted_iff)
  ultimately show ?thesis
    using assms by (simp add: slice_encodeNodeEntries sorted_infos_def)
qed

section \<open>Reading without compaction\<close>

lemma scan_unsorted_hits:
  "scan_unsorted k es a s =
     (if list_ex isNodeInfoTombstone (hits k es) then None
      else Some (case a of None \<Rightarrow> find (\<lambda>n. \<not> hasStorageInfo n) (hits k es) | Some x \<Rightarrow> a,
                 case s of None \<Rightarrow> find hasStorageInfo (hits k es) | Some x \<Rightarrow> s))"
proof (induction es arbitrary: a s)
  case Nil
  then show ?case by (simp split: option.split)
next
  case (Cons e es)
  then show ?case by (auto simp: Let_def split: option.split)
qed

definition read_value :: "NodeInfo list \<Rightarrow> NodeInfo option \<Rightarrow> NodeInfo option" where
  "read_value h sortedHit =
     (if list_ex isNodeInfoTombstone h then None
      else case find hasStorageInfo (rev h) of
          Some s \<Rightarrow>
            (let merged = mergeForRead sortedHit (Some s) in
             Some (case find (\<lambda>n. \<not> hasStorageInfo n) (rev h) of
                     None \<Rightarrow> merged | Some a \<Rightarrow> mergeForRead (Some a) (Some merged)))
        | None \<Rightarrow>
            (case find (\<lambda>n. \<not> hasStorageInfo n) (rev h) of
               Some a \<Rightarrow> Some (mergeForRead sortedHit (Some a))
             | None \<Rightarrow> sortedHit))"

lemma search_read_value:
  assumes "sorted_infos ns" "\<forall>n \<in> set ns. \<not> isNodeInfoTombstone n"
  shows "searchNodeFile (encodeNodeEntries ns) u k =
    read_value (hits (nodeLookupKey k) (slice_entries u)) (info_map ns (nodeLookupKey k))"
proof -
  have idem: "nodeLookupKey (nodeLookupKey k) = nodeLookupKey k" by (simp add: nodeLookupKey_def)
  have hit: "findSortedHit (encodeNodeEntries ns) (nodeLookupKey k) = info_map ns (nodeLookupKey k)"
  proof (cases "info_map ns (nodeLookupKey k)")
    case None
    then show ?thesis by (simp add: findSortedHit_def sorted_search [OF assms(1)] idem)
  next
    case (Some n)
    then have "n \<in> set ns" by (auto dest!: map_of_SomeD)
    with Some assms(2) show ?thesis by (simp add: findSortedHit_def sorted_search [OF assms(1)] idem)
  qed
  have empty: "read_value (hits (nodeLookupKey k) (slice_entries u)) (info_map ns (nodeLookupKey k)) = None"
    if "length (encodeNodeEntries ns) div NodeEntrySize + length u div NodeEntrySize = 0"
    using that by (simp add: read_value_def slice_entries_def NodeEntrySize_def)
  show ?thesis
  proof (cases "length (encodeNodeEntries ns) div NodeEntrySize + length u div NodeEntrySize = 0")
    case True
    with empty show ?thesis by (simp add: searchNodeFile_def)
  next
    case False
    then show ?thesis
      by (auto simp: searchNodeFile_def scan_unsorted_hits hits_rev hit read_value_def Let_def split: option.split)
  qed
qed

text \<open>
  The discipline of appends under which reading and compaction agree on a key: a deletion is
  its newest entry or there is none, account sizes are not zero, account offsets do not
  decrease, and no entry without a storage pointer follows one with such a pointer.
\<close>

definition append_discipline :: "NodeInfo list \<Rightarrow> NodeInfo option \<Rightarrow> bool" where
  "append_discipline h b \<longleftrightarrow>
     (h \<noteq> [] \<and> isNodeInfoTombstone (last h)) \<or>
     (\<not> list_ex isNodeInfoTombstone h \<and> (\<forall>n \<in> set h. ni_accountSize n \<noteq> 0) \<and>
      sorted (map ni_accountOffset ((case b of None \<Rightarrow> [] | Some x \<Rightarrow> [x]) @ h)) \<and>
      sorted_wrt (\<lambda>x y. hasStorageInfo x \<longrightarrow> hasStorageInfo y) h)"

lemma merge_with_storage:
  "ni_accountSize n \<noteq> 0 \<Longrightarrow> hasStorageInfo n \<Longrightarrow> mergeNodeInfoForAppend p n = n"
  by (simp add: mergeNodeInfoForAppend_def)

lemma merge_account:
  assumes "\<not> hasStorageInfo n" "ni_accountSize n \<noteq> 0" "ni_accountOffset p \<le> ni_accountOffset n"
  shows "mergeNodeInfoForAppend p n = (if hasStorageInfo p
    then n\<lparr>ni_storageFileID := ni_storageFileID p, ni_storageOffset := ni_storageOffset p, ni_storageSize := ni_storageSize p\<rparr> else n)"
  using assms by (auto simp: mergeNodeInfoForAppend_def hasStorageInfo_def isNodeInfoTombstone_def Let_def)

lemma compact_accounts:
  assumes "h \<noteq> []" "\<forall>n \<in> set h. \<not> hasStorageInfo n \<and> ni_accountSize n \<noteq> 0"
    and "sorted (map ni_accountOffset ((case b of None \<Rightarrow> [] | Some x \<Rightarrow> [x]) @ h))"
  shows "compact_value h b = Some (mergeForRead b (Some (last h)))"
  using assms
proof (induction h rule: rev_induct)
  case (snoc l xs)
  have live: "\<not> isNodeInfoTombstone l" using snoc.prems(2) by (auto simp: isNodeInfoTombstone_def)
  show ?case
  proof (cases "xs = []")
    case True
    with live show ?thesis by (cases b) (simp_all add: compact_value_def compact_step_def mergeForRead_def)
  next
    case False
    let ?x = "last xs"
    have v: "compact_value xs b = Some (mergeForRead b (Some ?x))"
      using snoc.IH [OF False] snoc.prems(2,3) by (cases b) (auto simp: sorted_append)
    have x: "\<not> hasStorageInfo ?x" "ni_accountSize ?x \<noteq> 0" "ni_accountOffset ?x \<le> ni_accountOffset l"
      using snoc.prems(2,3) False last_in_set [OF False] by (cases b; auto simp: sorted_append)+
    have l: "\<not> hasStorageInfo l" "ni_accountSize l \<noteq> 0" using snoc.prems(2) by auto
    have "compact_value (xs @ [l]) b = Some (mergeNodeInfoForAppend (mergeForRead b (Some ?x)) l)"
      using v live by (simp add: compact_value_def compact_step_def)
    moreover have "mergeNodeInfoForAppend (mergeForRead b (Some ?x)) l = mergeForRead b (Some l)"
    proof (cases b)
      case None
      with x l show ?thesis by (simp add: mergeForRead_def merge_account)
    next
      case (Some p)
      have "ni_accountOffset p \<le> ni_accountOffset ?x" "ni_accountOffset p \<le> ni_accountOffset l"
        using snoc.prems(3) Some False by (auto simp: sorted_append)
      with x l Some show ?thesis by (auto simp: mergeForRead_def merge_account hasStorageInfo_def)
    qed
    ultimately show ?thesis by simp
  qed
qed simp

lemma compact_read_agree:
  assumes "append_discipline h b"
  shows "compact_value h b = read_value h b"
proof (cases "h \<noteq> [] \<and> isNodeInfoTombstone (last h)")
  case True
  then have "list_ex isNodeInfoTombstone h" by (auto simp: list_ex_iff)
  moreover have "compact_value h b = None"
    using True by (cases h rule: rev_cases) (simp_all add: compact_value_def compact_step_def)
  ultimately show ?thesis by (simp add: read_value_def)
next
  case False
  with assms have d: "\<not> list_ex isNodeInfoTombstone h" "\<forall>n \<in> set h. ni_accountSize n \<noteq> 0"
    "sorted (map ni_accountOffset ((case b of None \<Rightarrow> [] | Some x \<Rightarrow> [x]) @ h))"
    "sorted_wrt (\<lambda>x y. hasStorageInfo x \<longrightarrow> hasStorageInfo y) h"
    by (auto simp: append_discipline_def)
  show ?thesis
  proof (cases h rule: rev_cases)
    case Nil
    then show ?thesis by (simp add: compact_value_def read_value_def)
  next
    case (snoc xs l)
    have l: "ni_accountSize l \<noteq> 0" "\<not> isNodeInfoTombstone l" using d(1,2) snoc by simp_all
    show ?thesis
    proof (cases "hasStorageInfo l")
      case True
      have "compact_value h b = Some l"
        using snoc l True by (simp add: compact_value_def compact_step_def merge_with_storage split: option.split)
      moreover have "mergeForRead y (Some l) = l" for y using l True by (cases y) (simp_all add: mergeForRead_def merge_with_storage)
      ultimately show ?thesis using d(1) snoc True by (simp add: read_value_def split: option.split)
    next
      case ns: False
      have all: "\<forall>n \<in> set h. \<not> hasStorageInfo n" using d(4) snoc ns by (auto simp: sorted_wrt_append)
      then have "find hasStorageInfo (rev h) = None" by (simp add: find_None_iff)
      moreover have "find (\<lambda>n. \<not> hasStorageInfo n) (rev h) = Some l" using snoc ns by simp
      moreover have "compact_value h b = Some (mergeForRead b (Some l))"
        using compact_accounts [of h b] all d(2,3) snoc by simp
      ultimately show ?thesis using d(1) by (simp add: read_value_def)
    qed
  qed
qed

section \<open>Files\<close>

lemma not_compressed [simp]:
  "\<not> sortedCompressed (setSortedCompression False n h)"
  by (simp add: sortedCompressed_def setSortedCompression_def)

lemma compressed_size:
  "sortedCompressed (setSortedCompression True n h)"
  "n < 2 ^ 32 \<Longrightarrow> sortedCompressedSize (setSortedCompression True n h) = int n"
  by (simp_all add: sortedCompressed_def sortedCompressedSize_def setSortedCompression_def
      fileNodeVersionCompressed_def fileNodeHeaderFlagSortedZstd_def unat_of_nat)

lemma setSortedCompression_frame [simp]:
  "fh_SortedEntryCount (setSortedCompression c n h) = fh_SortedEntryCount h"
  "fh_Magic (setSortedCompression c n h) = fh_Magic h" "length (fh_Reserved (setSortedCompression c n h)) = 8"
  by (simp_all add: setSortedCompression_def)

lemma payload_roundtrip:
  assumes "zstd_laws z" "length s mod 65 = 0" "length u mod 65 = 0" "length s < 65 * 2 ^ 32" "length (z_EncodeAll z s) < 2 ^ 32"
    and "encodeNodeFilePayload z h s u c = (payload, h')"
  shows "decodeNodeFilePayload z h' payload = Inr (s @ u, s, u)" "length (fh_Reserved h') = 8" "fh_Magic h' = fh_Magic h"
proof -
  have "length s div 65 < 2 ^ 32" using assms(4) by simp
  then have cnt: "unat (word_of_nat (length s div 65) :: u32) * 65 = length s"
    using assms(2) div_mult_mod_eq [of "length s" 65] by (simp add: unat_of_nat)
  show "length (fh_Reserved h') = 8" "fh_Magic h' = fh_Magic h"
    using assms(6) by (auto simp: encodeNodeFilePayload_def Let_def split: if_splits)
  show "decodeNodeFilePayload z h' payload = Inr (s @ u, s, u)"
  proof (cases "c \<and> 0 < length s")
    case False
    then show ?thesis
      using assms(3,6) cnt by (auto simp: encodeNodeFilePayload_def decodeNodeFilePayload_def NodeEntrySize_def Let_def)
  next
    case True
    let ?z = "z_EncodeAll z s"
    have "?z \<noteq> []" "z_DecodeAll z ?z = Some s" using assms(1) True by (auto simp: zstd_laws_def)
    then have "decompressMetadataZstd z ?z (int (length s)) = Inr s" by (simp add: decompressMetadataZstd_def)
    moreover obtain h0 where h': "h' = setSortedCompression True (length ?z) h0" "payload = ?z @ u"
      "unat (fh_SortedEntryCount h') * 65 = length s"
      using assms(6) True cnt by (auto simp: encodeNodeFilePayload_def compressMetadataZstd_def NodeEntrySize_def Let_def)
    ultimately show ?thesis
      using assms(3,5) compressed_size(1) [of "length ?z" h0] compressed_size(2) [OF assms(5), of h0]
      by (simp add: decodeNodeFilePayload_def nodeFileStoredSortedPayloadSize_def NodeEntrySize_def Let_def)
  qed
qed

lemma metadata_block_roundtrip:
  assumes "zstd_laws z" "length raw < 2 ^ 32"
  shows "maybeDecodeCompressedMetadataBlock z (encodeCompressedMetadataBlock z raw) = Inr (raw, True)"
proof -
  have "decompressMetadataZstd z (compressMetadataZstd z raw) (int (length raw)) = Inr raw"
    using assms(1) by (auto simp: decompressMetadataZstd_def compressMetadataZstd_def zstd_laws_def)
  with assms(2) show ?thesis
    by (simp add: maybeDecodeCompressedMetadataBlock_def encodeCompressedMetadataBlock_def unat_of_nat)
qed

lemma last_tag_loop_concat:
  assumes "\<forall>e \<in> set (xs @ ys). length e = 65" "length pre = start" "\<forall>e \<in> set ys. \<not> isNodeCommitTagEntry e"
    and "xs = [] \<or> isNodeCommitTagEntry (last xs)"
  shows "last_tag_loop (pre @ concat (xs @ ys) @ rest) start (length (xs @ ys)) =
    (if xs = [] then None else Some (start + length xs * 65))"
proof -
  let ?p = "pre @ concat (xs @ ys) @ rest"
  have at: "take 65 (drop (start + i * 65) ?p) = (xs @ ys) ! i" if "i < length (xs @ ys)" for i
  proof -
    have "drop (start + i * 65) ?p = drop (i * 65) (concat (xs @ ys) @ rest)" using assms(2) by (simp add: add.commute flip: drop_drop)
    moreover have "i * 65 + 65 \<le> length (concat (xs @ ys))"
      using that length_concat_fixed [OF assms(1)] by simp
    ultimately show ?thesis using take_drop_concat_fixed [OF assms(1) that] by (simp add: min_def)
  qed
  have "last_tag_loop ?p start n = (if xs = [] then None else Some (start + length xs * 65))"
    if "length xs \<le> n" "n \<le> length (xs @ ys)" for n
    using that
  proof (induction n)
    case 0
    then show ?case by simp
  next
    case (Suc n)
    show ?case
    proof (cases "length xs = Suc n")
      case True
      then have "xs \<noteq> []" by auto
      with True have "(xs @ ys) ! n = last xs" by (simp add: nth_append last_conv_nth)
      with True \<open>xs \<noteq> []\<close> assms(4) at [of n] Suc.prems show ?thesis by (simp add: NodeEntrySize_def)
    next
      case False
      then have "(xs @ ys) ! n \<in> set ys" using Suc.prems by (auto simp: nth_append)
      with False assms(3) at [of n] Suc show ?thesis by (simp add: NodeEntrySize_def)
    qed
  qed
  then show ?thesis by simp
qed

section \<open>Properties\<close>

text \<open>
  C31. Node files round-trip: whatever the sorted and the unsorted part hold, the header read
  back from an encoded file is the one that was written, and its payload decodes to the same
  two parts, with and without compression of the sorted part; and a list of entries with keys
  of at most 32 bytes is read back entry by entry.
\<close>

theorem node_file_roundtrip:
  assumes "zstd_laws z" "length s mod 65 = 0" "length u mod 65 = 0" "length s < 65 * 2 ^ 32" "length (z_EncodeAll z s) < 2 ^ 32"
    and "encodeNodeFilePayload z new_header s u c = (payload, h)" "file = encodeFileNodeAndPayload h payload"
    and "\<forall>n \<in> set ns. length (ni_key n) \<le> 32"
  shows "decodeFileNodeHeader file = h \<and> fh_Magic h = FileNodeMagic \<and>
     decodeNodeFilePayload z h (drop FileNodeHeaderSize file) = Inr (s @ u, s, u) \<and>
     map decodeNodeEntry (slice_entries (encodeNodeEntries ns)) = ns"
proof -
  note p = payload_roundtrip [OF assms(1-6)]
  have f: "file = encodeFileNodeHeader h @ payload" using assms(7) by (simp add: encodeFileNodeAndPayload_def)
  have "stored_info n = n" if "n \<in> set ns" for n
    using assms(8) that by (cases n) (auto simp: stored_info_def MaxKeySize_def)
  then have "map decodeNodeEntry (map encodeNodeEntry ns) = ns"
    by (simp add: decode_encode_entry comp_def map_idI)
  with p show ?thesis
    by (simp add: f decode_encode_header slice_encodeNodeEntries new_header_def drop_append_exact)
qed

definition toy_zstd :: zstd_ops where
  "toy_zstd = \<lparr>z_EncodeAll = (\<lambda>src. 0 # src), z_DecodeAll = (\<lambda>src. Some (tl src))\<rparr>"

theorem node_file_roundtrip_witness:
  "zstd_laws toy_zstd \<and> (let (payload, h) = encodeNodeFilePayload toy_zstd new_header (encodeNodeEntries [zero_info]) [] True in
     decodeFileNodeHeader (encodeFileNodeAndPayload h payload) = h)"
proof -
  have z: "zstd_laws toy_zstd" by (simp add: zstd_laws_def toy_zstd_def)
  obtain payload h where e: "encodeNodeFilePayload toy_zstd new_header (encodeNodeEntries [zero_info]) [] True = (payload, h)"
    by (cases "encodeNodeFilePayload toy_zstd new_header (encodeNodeEntries [zero_info]) [] True")
  have "length (z_EncodeAll toy_zstd (encodeNodeEntries [zero_info])) < 2 ^ 32" by (simp add: toy_zstd_def)
  from node_file_roundtrip [OF z _ _ _ this e refl, of "[]"] e z show ?thesis by simp
qed

text \<open>
  The binary search in the sorted part finds exactly the entry of the key: on a slice of
  entries with strictly ascending keys it always ends and returns the entry whose key is the
  first 32 bytes of the wanted key, or nothing when there is none.
\<close>

theorem sorted_search_exact:
  assumes "sorted_wrt (\<lambda>a b. ni_key a < ni_key b) ns" "\<forall>n \<in> set ns. ni_key n \<noteq> [] \<and> length (ni_key n) \<le> 32"
    and "length ns < 2 ^ 31"
  shows "findNodeInfoInSortedSlice (encodeNodeEntries ns) k = find (\<lambda>n. ni_key n = take 32 k) ns"
proof -
  have "sorted_infos ns" using assms by (simp add: sorted_infos_def valid_info_def MaxKeySize_def)
  moreover have "info_map xs j = find (\<lambda>n. ni_key n = j) xs" for xs j by (induction xs) auto
  moreover have "nodeLookupKey k = take 32 k" by (simp add: nodeLookupKey_def MaxKeySize_def)
  ultimately show ?thesis by (simp add: sorted_search)
qed

theorem sorted_search_exact_witness:
  "findNodeInfoInSortedSlice (encodeNodeEntries [zero_info\<lparr>ni_key := [1]\<rparr>, zero_info\<lparr>ni_key := [1, 2], ni_accountSize := 7\<rparr>]) [1, 2] =
     Some (zero_info\<lparr>ni_key := [1, 2], ni_accountSize := 7\<rparr>)"
  using sorted_search_exact [of "[zero_info\<lparr>ni_key := [1]\<rparr>, zero_info\<lparr>ni_key := [1, 2], ni_accountSize := 7\<rparr>]" "[1, 2]"]
  by (simp add: zero_info_def)

text \<open>
  C32. Compaction does not change what is read: when the entries that were appended for a key
  since the last compaction follow the append discipline, a lookup in the compacted file
  returns what the lookup in the two-part file returned.
\<close>

theorem compaction_preserves_reads:
  assumes "sorted_infos ns" "\<forall>n \<in> set ns. \<not> isNodeInfoTombstone n" "key \<noteq> []"
    and "append_discipline (hits (nodeLookupKey key) (slice_entries u)) (info_map ns (nodeLookupKey key))"
  shows "searchNodeFile (encodeNodeEntries (buildEntriesFromSlices (encodeNodeEntries ns) u)) [] key =
     searchNodeFile (encodeNodeEntries ns) u key"
proof -
  let ?m = "fold add_unsorted (slice_entries u) (fold add_sorted (slice_entries (encodeNodeEntries ns)) [])"
  let ?b = "buildEntriesFromSlices (encodeNodeEntries ns) u"
  have k: "nodeLookupKey key \<noteq> []" using assms(3) by (simp add: nodeLookupKey_def MaxKeySize_def)
  have ok: "build_ok ?m" by (intro build_ok_fold) (simp add: build_ok_def)
  have b: "sorted_infos ?b" "\<forall>n \<in> set ?b. \<not> isNodeInfoTombstone n" "info_map ?b = map_of ?m"
    using sorted_built [OF ok] by (simp_all add: buildEntriesFromSlices_def)
  have "searchNodeFile (encodeNodeEntries ?b) [] key = map_of ?m (nodeLookupKey key)"
    using search_read_value [OF b(1,2), of "[]" key] b(3) by (simp add: read_value_def slice_entries_def)
  also have "\<dots> = compact_value (hits (nodeLookupKey key) (slice_entries u)) (info_map ns (nodeLookupKey key))"
    using map_of_fold_unsorted [OF k] fold_add_sorted_encoded [OF assms(1,2)] by simp
  also have "\<dots> = searchNodeFile (encodeNodeEntries ns) u key"
    using compact_read_agree [OF assms(4)] search_read_value [OF assms(1,2), of u key] by simp
  finally show ?thesis .
qed

lemma example_infos:
  "sorted_infos [zero_info\<lparr>ni_key := [1, 2, 3, 4, 5, 6], ni_accountOffset := 1, ni_accountSize := 2\<rparr>]"
  "\<not> isNodeInfoTombstone (zero_info\<lparr>ni_key := [1, 2, 3, 4, 5, 6], ni_accountOffset := 1, ni_accountSize := 2\<rparr>)"
  by (simp_all add: sorted_infos_def valid_info_def MaxKeySize_def isNodeInfoTombstone_def zero_info_def)

theorem compaction_preserves_reads_witness:
  "searchNodeFile (encodeNodeEntries (buildEntriesFromSlices
       (encodeNodeEntries [zero_info\<lparr>ni_key := [1, 2, 3, 4, 5, 6], ni_accountOffset := 1, ni_accountSize := 2\<rparr>])
       (encodeNodeEntries [zero_info\<lparr>ni_key := [1, 2, 3, 4, 5, 6], ni_accountOffset := 9, ni_accountSize := 3\<rparr>]))) []
       [1, 2, 3, 4, 5, 6] =
   searchNodeFile (encodeNodeEntries [zero_info\<lparr>ni_key := [1, 2, 3, 4, 5, 6], ni_accountOffset := 1, ni_accountSize := 2\<rparr>])
     (encodeNodeEntries [zero_info\<lparr>ni_key := [1, 2, 3, 4, 5, 6], ni_accountOffset := 9, ni_accountSize := 3\<rparr>]) [1, 2, 3, 4, 5, 6]"
proof (rule compaction_preserves_reads [OF example_infos(1)])
  let ?n = "zero_info\<lparr>ni_key := [1, 2, 3, 4, 5, 6], ni_accountOffset := 9, ni_accountSize := 3\<rparr> :: NodeInfo"
  have "hits (nodeLookupKey [1, 2, 3, 4, 5, 6]) (slice_entries (encodeNodeEntries [?n])) = [?n]"
    by (simp add: slice_encodeNodeEntries entry_not_tag decode_encode_entry nodeLookupKey_def MaxKeySize_def stored_info_def)
  then show "append_discipline (hits (nodeLookupKey [1, 2, 3, 4, 5, 6]) (slice_entries (encodeNodeEntries [?n])))
    (info_map [zero_info\<lparr>ni_key := [1, 2, 3, 4, 5, 6], ni_accountOffset := 1, ni_accountSize := 2\<rparr>] (nodeLookupKey [1, 2, 3, 4, 5, 6]))"
    by (simp add: append_discipline_def isNodeInfoTombstone_def nodeLookupKey_def MaxKeySize_def zero_info_def)
qed (use example_infos(2) in simp_all)

text \<open>
  C33. A key that was deleted and written again is not found until the next compaction: when
  the unsorted part holds a deletion of the key and after it a new entry for it, the lookup
  stops at the deletion, although the entry is newer; the check for the key's presence and
  the compacted file both see the new entry.
\<close>

theorem reinserted_key_unreadable:
  assumes "valid_info n" "\<not> isNodeInfoTombstone n" "key = ni_key n"
  shows "searchNodeFile s (encodeNodeEntries [tombstoneNodeInfo key, n]) key = None \<and>
     nodeFileContainsKey s (encodeNodeEntries [tombstoneNodeInfo key, n]) key \<and>
     findNodeInfoInSortedSlice (encodeNodeEntries (buildEntriesFromSlices s (encodeNodeEntries [tombstoneNodeInfo key, n]))) key = Some n"
proof -
  let ?t = "tombstoneNodeInfo key" and ?u = "encodeNodeEntries [tombstoneNodeInfo key, n]"
  have k: "nodeLookupKey key = key" "key \<noteq> []" using assms by (simp_all add: nodeLookupKey_def valid_info_def)
  have t: "valid_info ?t" "isNodeInfoTombstone ?t" "ni_key ?t = key"
    using assms by (simp_all add: valid_info_def tombstoneNodeInfo_def zero_info_def isNodeInfoTombstone_def)
  have es: "slice_entries ?u = [encodeNodeEntry ?t, encodeNodeEntry n]" by (simp add: slice_encodeNodeEntries)
  have h: "hits key (slice_entries ?u) = [?t, n]"
    using assms(1) assms(3) [symmetric] t k by (simp add: es entry_not_tag decode_encode_entry)
  have "searchNodeFile s ?u key = None"
    by (simp add: searchNodeFile_def scan_unsorted_hits k(1) hits_rev h t(2))
  moreover have "nodeFileContainsKey s ?u key"
    using assms(1,2) assms(3) [symmetric] k by (simp add: nodeFileContainsKey_def linear_find_def es entry_not_tag decode_encode_entry)
  moreover have "compact_value [?t, n] v = Some n" for v using assms(2) t(2) by (simp add: compact_value_def compact_step_def)
  ultimately show ?thesis using built_search [of key s ?u] k h by simp
qed

theorem reinserted_key_unreadable_witness:
  "searchNodeFile [] (encodeNodeEntries [tombstoneNodeInfo [1, 2, 3, 4, 5, 6],
     zero_info\<lparr>ni_key := [1, 2, 3, 4, 5, 6], ni_accountOffset := 1, ni_accountSize := 2\<rparr>]) [1, 2, 3, 4, 5, 6] = None"
  using reinserted_key_unreadable [of "zero_info\<lparr>ni_key := [1, 2, 3, 4, 5, 6], ni_accountOffset := 1, ni_accountSize := 2\<rparr>" _ "[]"]
    example_infos by (simp add: sorted_infos_def)

text \<open>
  A newer account pointer is hidden by an older storage pointer until the next compaction:
  when the unsorted part holds an entry with a storage pointer and after it an entry without
  one and with a higher account offset, the lookup returns the account offset of the older
  entry, the compacted file the newer one with the storage pointer kept.
\<close>

theorem newer_account_hidden:
  assumes "valid_info a" "valid_info b" "ni_key b = ni_key a" "hasStorageInfo a" "\<not> hasStorageInfo b"
    and "ni_accountSize a \<noteq> 0" "ni_accountSize b \<noteq> 0" "ni_accountOffset a < ni_accountOffset b"
  shows "searchNodeFile [] (encodeNodeEntries [a, b]) (ni_key a) = Some a \<and>
     findNodeInfoInSortedSlice (encodeNodeEntries (buildEntriesFromSlices [] (encodeNodeEntries [a, b]))) (ni_key a) =
       Some (b\<lparr>ni_storageFileID := ni_storageFileID a, ni_storageOffset := ni_storageOffset a, ni_storageSize := ni_storageSize a\<rparr>)"
proof -
  let ?u = "encodeNodeEntries [a, b]" and ?k = "ni_key a"
  have k: "nodeLookupKey ?k = ?k" "?k \<noteq> []" using assms(1) by (simp_all add: nodeLookupKey_def valid_info_def)
  have live: "\<not> isNodeInfoTombstone a" "\<not> isNodeInfoTombstone b" using assms(6,7) by (simp_all add: isNodeInfoTombstone_def)
  have h: "hits ?k (slice_entries ?u) = [a, b]"
    using assms(1-3) k by (simp add: slice_encodeNodeEntries entry_not_tag decode_encode_entry)
  have "mergeForRead None (Some a) = a" "mergeForRead (Some b) (Some a) = a"
    using merge_with_storage [OF assms(6,4)] by (simp_all add: mergeForRead_def)
  moreover have "findSortedHit [] ?k = None" by (simp add: findSortedHit_def findNodeInfoInSortedSlice_def)
  ultimately have "searchNodeFile [] ?u ?k = Some a"
    using live assms(4,5) by (simp add: searchNodeFile_def scan_unsorted_hits k(1) hits_rev h Let_def NodeEntrySize_def)
  moreover have "mergeNodeInfoForAppend a b =
      b\<lparr>ni_storageFileID := ni_storageFileID a, ni_storageOffset := ni_storageOffset a, ni_storageSize := ni_storageSize a\<rparr>"
    using merge_account [OF assms(5,7) less_imp_le [OF assms(8)]] assms(4) by simp
  then have "compact_value [a, b] None = Some (b\<lparr>ni_storageFileID := ni_storageFileID a,
      ni_storageOffset := ni_storageOffset a, ni_storageSize := ni_storageSize a\<rparr>)"
    using live by (simp add: compact_value_def compact_step_def)
  ultimately show ?thesis using built_search [of ?k "[]" ?u] k h by (simp add: slice_entries_def)
qed

theorem newer_account_hidden_witness:
  "let a = zero_info\<lparr>ni_key := [1, 2, 3, 4, 5, 6], ni_accountOffset := 1, ni_accountSize := 2, ni_storageSize := 5\<rparr>;
       b = zero_info\<lparr>ni_key := [1, 2, 3, 4, 5, 6], ni_accountOffset := 9, ni_accountSize := 2\<rparr>
   in searchNodeFile [] (encodeNodeEntries [a, b]) [1, 2, 3, 4, 5, 6] = Some a"
  using newer_account_hidden
    [of "zero_info\<lparr>ni_key := [1, 2, 3, 4, 5, 6], ni_accountOffset := 1, ni_accountSize := 2, ni_storageSize := 5\<rparr>"
        "zero_info\<lparr>ni_key := [1, 2, 3, 4, 5, 6], ni_accountOffset := 9, ni_accountSize := 2\<rparr>"]
  by (simp add: valid_info_def MaxKeySize_def hasStorageInfo_def zero_info_def Let_def)

text \<open>
  Trimming keeps exactly the committed entries: in a file whose unsorted part is a sequence
  of whole entries, the last of which that is a commit tag ends \<open>xs\<close>, followed by \<open>ys\<close>
  without a tag and by an incomplete entry, the position found is the end of \<open>xs\<close>; without a
  commit tag no position is found and the file is left as it is.
\<close>

theorem trim_position_after_last_tag:
  assumes "length (fh_Reserved h) = 8" "fh_Magic h = FileNodeMagic" "nodeFileStoredSortedPayloadSize h = Inr (length s)"
    and "\<forall>e \<in> set (xs @ ys). length e = 65" "length rest < 65" "\<forall>e \<in> set ys. \<not> isNodeCommitTagEntry e"
    and "xs = [] \<or> isNodeCommitTagEntry (last xs)"
  shows "findLastNodeCommitTagEnd (encodeFileNodeHeader h @ s @ concat (xs @ ys) @ rest) =
     (if xs = [] then None else Some (FileNodeHeaderSize + length s + length xs * 65))"
proof -
  define P where "P = (encodeFileNodeHeader h @ s) @ concat (xs @ ys) @ rest"
  have l: "length (encodeFileNodeHeader h @ s) = FileNodeHeaderSize + length s" using assms(1) by simp
  have loop: "last_tag_loop P (FileNodeHeaderSize + length s) (length (xs @ ys)) =
      (if xs = [] then None else Some (FileNodeHeaderSize + length s + length xs * 65))"
    unfolding P_def by (rule last_tag_loop_concat [OF assms(4) l assms(6,7)])
  have hdr: "decodeFileNodeHeader P = h" unfolding P_def append_assoc by (rule decode_encode_header [OF assms(1)])
  have len: "length P = FileNodeHeaderSize + length s + (length (xs @ ys) * 65 + length rest)"
    using length_concat_fixed [OF assms(4)] assms(1) by (simp add: P_def)
  then have n: "(length P - (FileNodeHeaderSize + length s)) div 65 = length (xs @ ys)" using assms(5) by simp
  have "findLastNodeCommitTagEnd P = (if xs = [] then None else Some (FileNodeHeaderSize + length s + length xs * 65))"
  proof (cases "length P \<le> FileNodeHeaderSize")
    case True
    with len have "xs = []" by simp
    with True show ?thesis by (simp add: findLastNodeCommitTagEnd_def)
  next
    case False
    have "\<not> length P < FileNodeHeaderSize + length s" using len by simp
    with False loop hdr assms(2,3) n show ?thesis
      by (simp add: findLastNodeCommitTagEnd_def NodeEntrySize_def Let_def del: length_append)
  qed
  then show ?thesis by (simp add: P_def)
qed

theorem trim_position_after_last_tag_witness:
  "findLastNodeCommitTagEnd (encodeFileNodeHeader new_header @ [] @ concat ([commit_tag 7] @ [encodeNodeEntry (tombstoneNodeInfo [1])]) @ [9]) =
     Some (FileNodeHeaderSize + 65)"
proof -
  have s: "nodeFileStoredSortedPayloadSize new_header = Inr (length ([] :: bytes))"
    by (simp add: nodeFileStoredSortedPayloadSize_def sortedCompressedSize_def sortedCompressed_def new_header_def
        fileNodeVersionBase_def fileNodeVersionCompressed_def)
  have "isNodeCommitTagEntry (commit_tag 7)" by (simp add: isNodeCommitTagEntry_def commit_tag_recognised)
  moreover have "\<not> isNodeCommitTagEntry (encodeNodeEntry (tombstoneNodeInfo [1]))"
    by (rule entry_not_tag) (simp add: tombstoneNodeInfo_def)
  ultimately show ?thesis
    using trim_position_after_last_tag [OF _ _ s, of "[commit_tag 7]" "[encodeNodeEntry (tombstoneNodeInfo [1])]" "[9]"]
    by (simp add: new_header_def)
qed

end
