(* ===== verification/Prefix_Tree.thy ===== *)
theory Prefix_Tree
  imports Complex_Main Node_File Shared_Cache
begin

text \<open>
  The prefix tree (\<^verbatim>\<open>prefixdb/prefixTree.go\<close>): node pointers of short keys in one global
  file with an in-memory index, those of longer keys in one bucket file per six-byte prefix.
  A bucket file is read through the shared cache and compacted in the background; the global
  file collects the entries of a commit and appends them at its end.

  The directory of node files is an association list from file names to contents. Open file handles are left
  out: a handle always leads to the current file, since compaction drops the handles of the
  file it replaces. Failures of the file system are the parameter \<open>node_io\<close>. The operations
  run one after another; a compaction that a read has scheduled stays in flight until
  \<open>processGCJob\<close> runs it, and a mutation of the file waits for it, which is the only way past
  \<^verbatim>\<open>beginFileMutation\<close>. The skiplist package is the parameter \<open>index_ops\<close>.
\<close>

section \<open>Parameters\<close>

record 's index_ops =
  gi_New :: 's
  gi_Get :: "'s \<Rightarrow> bytes \<Rightarrow> NodeInfo option"
  gi_Set :: "'s \<Rightarrow> bytes \<Rightarrow> NodeInfo \<Rightarrow> 's"
  gi_Remove :: "'s \<Rightarrow> bytes \<Rightarrow> 's"
  gi_Front :: "'s \<Rightarrow> (bytes \<times> NodeInfo) list"

definition index_laws :: "'s index_ops \<Rightarrow> bool" where
  "index_laws g \<longleftrightarrow>
     (\<forall>k. gi_Get g (gi_New g) k = None) \<and>
     (\<forall>s k k' v. gi_Get g (gi_Set g s k v) k' = (if k' = k then Some v else gi_Get g s k')) \<and>
     (\<forall>s k k'. gi_Get g (gi_Remove g s k) k' = (if k' = k then None else gi_Get g s k')) \<and>
     (\<forall>s. sorted (map fst (gi_Front g s)) \<and> distinct (map fst (gi_Front g s))) \<and>
     (\<forall>s k. map_of (gi_Front g s) k = gi_Get g s k)"

text \<open>
  \<open>nio_open f\<close> tells that opening or creating the file fails, \<open>nio_write f data\<close> that only so
  many bytes of a write reach the file before it fails, \<open>nio_rename f\<close> that the rename onto
  the file fails.
\<close>

record node_io =
  nio_open :: "bytes \<Rightarrow> bool"
  nio_write :: "bytes \<Rightarrow> bytes \<Rightarrow> nat option"
  nio_rename :: "bytes \<Rightarrow> bool"

definition no_faults :: node_io where
  "no_faults = \<lparr>nio_open = (\<lambda>_. False), nio_write = (\<lambda>_ _. None), nio_rename = (\<lambda>_. False)\<rparr>"

record 's tree_env =
  te_index :: "'s index_ops"
  te_zstd :: zstd_ops
  te_nio :: node_io

section \<open>State\<close>

type_synonym directory = "(bytes \<times> bytes) list"

record PrefixTrieNode =
  tn_accountOffset :: u64
  tn_accountSize :: u32
  tn_storageFileID :: u32
  tn_storageOffset :: u64
  tn_storageSize :: u64

record gcState =
  gs_header :: FileNodeHeader
  gs_sorted :: bytes
  gs_unsorted :: bytes

record 's PrefixTree =
  pt_maxDepth :: nat
  pt_files :: directory
  pt_globalFileID :: bytes
  pt_bucketPrefixLength :: nat
  pt_sharedCache :: "(bytes \<times> bytes) sharedByteCache option"
  pt_globalNodeIndex :: "'s option"
  pt_globalFileOpen :: bool
  pt_globalHeader :: FileNodeHeader
  pt_globalCommitDepth :: nat
  pt_globalCommitDirty :: bool
  pt_globalCommitBlockID :: u64
  pt_globalCommitBatch :: "(bytes \<times> NodeInfo) list option"
  pt_gcCount :: nat
  pt_gcInFlight :: "bytes \<rightharpoonup> gcState"
  pt_gcRatioThreshold :: rat
  pt_compressSorted :: bool

type_synonym 's tree_result = "node_error option \<times> 's PrefixTree"

section \<open>File names\<close>

definition name_bytes :: "string \<Rightarrow> bytes" where
  "name_bytes s = map (\<lambda>ch. word_of_nat (of_char ch)) s"

definition globalFileName :: bytes where
  "globalFileName = name_bytes ''global.node''"

definition MaxPrefixDepth :: nat where
  "MaxPrefixDepth = 6"

definition hex_digit :: "nat \<Rightarrow> byte" where
  "hex_digit d = (if d < 10 then word_of_nat (48 + d) else word_of_nat (87 + d))"

definition hex :: "bytes \<Rightarrow> bytes" where
  "hex bs = concat (map (\<lambda>b. [hex_digit (unat b div 16), hex_digit (unat b mod 16)]) bs)"

definition getBucketID :: "'s PrefixTree \<Rightarrow> bytes \<Rightarrow> bytes" where
  "getBucketID pt key =
     (let p = pt_bucketPrefixLength pt in
      if length key < p
      then name_bytes ''bucket_'' @ hex (key @ replicate (p - length key) 0) @ name_bytes ''.node''
      else name_bytes ''bucket_'' @ hex (take p key) @ name_bytes ''.node'')"

definition fileIDForKey :: "'s PrefixTree \<Rightarrow> bytes \<Rightarrow> bytes" where
  "fileIDForKey pt key = (if length key < pt_maxDepth pt then pt_globalFileID pt else getBucketID pt key)"

definition tmp_name :: "bytes \<Rightarrow> bytes" where
  "tmp_name fileID = fileID @ name_bytes ''.tmp''"

section \<open>The cache of node files\<close>

definition invalidateFileNodeCache :: "bytes \<Rightarrow> 's PrefixTree \<Rightarrow> 's PrefixTree" where
  "invalidateFileNodeCache fileID pt =
     (if fileID = pt_globalFileID pt then pt
      else case pt_sharedCache pt of
          None \<Rightarrow> pt
        | Some c \<Rightarrow>
            if fileID = [] then pt
            else pt\<lparr>pt_sharedCache := Some (cache_Remove c sharedCacheNamespaceFileNode fileID)\<rparr>)"

definition estimateFileNodeCacheEntrySize :: "bytes \<Rightarrow> bytes \<times> bytes \<Rightarrow> u64" where
  "estimateFileNodeCacheEntrySize fileID entry =
     (let total = word_of_nat (length fileID + length (fst entry) + length (snd entry)) in
      if total = 0 then 1 else total)"

definition setFileNodeCache :: "bytes \<Rightarrow> bytes \<Rightarrow> bytes \<Rightarrow> 's PrefixTree \<Rightarrow> 's PrefixTree" where
  "setFileNodeCache fileID hdrBuf buf pt =
     (if fileID = pt_globalFileID pt then pt
      else case pt_sharedCache pt of
          None \<Rightarrow> pt
        | Some c \<Rightarrow>
            if fileID = [] then pt
            else pt\<lparr>pt_sharedCache := Some (cache_Add c sharedCacheNamespaceFileNode fileID (hdrBuf, buf)
                     (estimateFileNodeCacheEntrySize fileID (hdrBuf, buf)))\<rparr>)"

definition getFileNodeCache :: "bytes \<Rightarrow> 's PrefixTree \<Rightarrow> (bytes \<times> bytes) option \<times> 's PrefixTree" where
  "getFileNodeCache fileID pt =
     (if fileID = pt_globalFileID pt then (None, pt)
      else case pt_sharedCache pt of
          None \<Rightarrow> (None, pt)
        | Some c \<Rightarrow>
            if fileID = [] then (None, pt)
            else case cache_Get c sharedCacheNamespaceFileNode fileID of
                (r, c') \<Rightarrow> (r, pt\<lparr>pt_sharedCache := Some c'\<rparr>))"

section \<open>Reading and writing node files\<close>

definition readWholeNodeFile :: "bytes \<Rightarrow> node_error + FileNodeHeader \<times> bytes" where
  "readWholeNodeFile f =
     (if length f < FileNodeHeaderSize then Inl (InvalidNodeFileSize (length f))
      else let header = decodeFileNodeHeader f in
        if fh_Magic header \<noteq> FileNodeMagic then Inl (InvalidMagic (fh_Magic header))
        else Inr (header, drop FileNodeHeaderSize f))"

text \<open>\<^verbatim>\<open>os.ReadDir\<close> lists the directory in the order of the names.\<close>

definition dir_names :: "directory \<Rightarrow> bytes list" where
  "dir_names d = sort (map fst d)"

text \<open>The result is the raw header, the header and the decoded payload.\<close>

definition readDecodedFileNode :: "zstd_ops \<Rightarrow> bytes \<Rightarrow> node_error + bytes \<times> FileNodeHeader \<times> bytes" where
  "readDecodedFileNode z f =
     (case readWholeNodeFile f of
        Inl e \<Rightarrow> Inl e
      | Inr (header, payload) \<Rightarrow>
          if length payload = 0 then Inr (take FileNodeHeaderSize f, header, [])
          else case decodeNodeFilePayload z header payload of
              Inl e \<Rightarrow> Inl e
            | Inr (decoded, _, _) \<Rightarrow>
                Inr (take FileNodeHeaderSize f, header, if \<not> sortedCompressed header then payload else decoded))"

text \<open>A write at the end of a file; when it fails, a prefix of the data has reached the file.\<close>

definition write_end :: "node_io \<Rightarrow> bytes \<Rightarrow> bytes \<Rightarrow> 's PrefixTree \<Rightarrow> 's tree_result" where
  "write_end io fileID data pt =
     (let old = (case map_of (pt_files pt) fileID of None \<Rightarrow> [] | Some f \<Rightarrow> f) in
      case nio_write io fileID data of
        None \<Rightarrow> (None, pt\<lparr>pt_files := AList.update fileID (old @ data) (pt_files pt)\<rparr>)
      | Some n \<Rightarrow> (Some NodeWriteFault, pt\<lparr>pt_files := AList.update fileID (old @ take n data) (pt_files pt)\<rparr>))"

section \<open>Compaction\<close>

definition rebuild_index :: "'s index_ops \<Rightarrow> NodeInfo list \<Rightarrow> 's" where
  "rebuild_index g entries = fold (\<lambda>e s. gi_Set g s (ni_key e) (cloneNodeInfo e)) entries (gi_New g)"

text \<open>
  Replacing a node file through a temporary file. A failed write leaves the temporary file
  behind, a failed rename removes it.
\<close>

definition replace_file :: "node_io \<Rightarrow> bytes \<Rightarrow> bytes \<Rightarrow> 's PrefixTree \<Rightarrow> 's tree_result" where
  "replace_file io fileID fileData pt =
     (let tmp = tmp_name fileID in
      if nio_open io tmp then (Some NodeOpenFault, pt)
      else case nio_write io tmp fileData of
          Some n \<Rightarrow> (Some NodeWriteFault, pt\<lparr>pt_files := AList.update tmp (take n fileData) (pt_files pt)\<rparr>)
        | None \<Rightarrow>
            if nio_rename io fileID then (Some NodeWriteFault, pt\<lparr>pt_files := AList.delete tmp (pt_files pt)\<rparr>)
            else (None, pt\<lparr>pt_files := AList.update fileID fileData (AList.delete tmp (pt_files pt))\<rparr>))"

definition compactFileFromState :: "'s tree_env \<Rightarrow> bytes \<Rightarrow> gcState \<Rightarrow> 's PrefixTree \<Rightarrow> 's tree_result" where
  "compactFileFromState te fileID state pt0 =
     (let pt = invalidateFileNodeCache fileID pt0;
          entries = buildEntriesFromSlices (gs_sorted state) (gs_unsorted state);
          sortedData = encodeNodeEntries entries in
      case encodeNodeFilePayload (te_zstd te) (new_header\<lparr>fh_SortedEntryCount := word_of_nat (length entries)\<rparr>)
             sortedData [] (pt_compressSorted pt) of
        (payload, newHdr) \<Rightarrow>
          (case replace_file (te_nio te) fileID (encodeFileNodeAndPayload newHdr payload) pt of
             (Some e, pt1) \<Rightarrow> (Some e, pt1)
           | (None, pt1) \<Rightarrow>
               if fileID = pt_globalFileID pt1
               then let pt2 = pt1\<lparr>pt_globalFileOpen := False, pt_globalHeader := newHdr,
                                  pt_globalNodeIndex := Some (rebuild_index (te_index te) entries)\<rparr> in
                 if nio_open (te_nio te) fileID then (Some NodeOpenFault, pt2)
                 else (None, pt2\<lparr>pt_globalFileOpen := True, pt_gcCount := pt_gcCount pt2 + 1\<rparr>)
               else (None, (setFileNodeCache fileID (encodeFileNodeHeader newHdr) sortedData pt1)
                        \<lparr>pt_gcCount := pt_gcCount pt1 + 1\<rparr>)))"

definition finishGC :: "bytes \<Rightarrow> 's PrefixTree \<Rightarrow> 's PrefixTree" where
  "finishGC fileID pt = pt\<lparr>pt_gcInFlight := (pt_gcInFlight pt)(fileID := None)\<rparr>"

text \<open>A failure of the compaction is printed and otherwise ignored.\<close>

definition processGCJob :: "'s tree_env \<Rightarrow> bytes \<Rightarrow> 's PrefixTree \<Rightarrow> 's PrefixTree" where
  "processGCJob te fileID pt =
     (case pt_gcInFlight pt fileID of
        None \<Rightarrow> pt
      | Some state \<Rightarrow> finishGC fileID (snd (compactFileFromState te fileID state pt)))"

text \<open>\<^verbatim>\<open>beginFileMutation\<close> waits for the compaction of the file that is in flight.\<close>

definition beginFileMutation :: "'s tree_env \<Rightarrow> bytes \<Rightarrow> 's PrefixTree \<Rightarrow> 's PrefixTree" where
  "beginFileMutation te fileID pt = (if fileID = [] then pt else processGCJob te fileID pt)"

definition sanitizeNodeFileGCRatioThreshold :: "rat \<Rightarrow> rat" where
  "sanitizeNodeFileGCRatioThreshold threshold = (if threshold \<le> 0 then 1 else threshold)"

definition maxPrefixTreeGCWorkers :: int where
  "maxPrefixTreeGCWorkers = 64"

definition sanitizePrefixTreeGCWorkerCount :: "int \<Rightarrow> int \<Rightarrow> int" where
  "sanitizePrefixTreeGCWorkerCount numCPU workers =
     (let w = (if workers \<le> 0 then numCPU div 2 else workers);
          w = (if w < 1 then 1 else w)
      in if maxPrefixTreeGCWorkers < w then maxPrefixTreeGCWorkers else w)"

text \<open>The ratio is a float in the code; a division by zero is infinite there.\<close>

definition shouldScheduleGC :: "'s PrefixTree \<Rightarrow> nat \<Rightarrow> nat \<Rightarrow> bool" where
  "shouldScheduleGC pt sortedCount unsortedCount =
     (if unsortedCount = 0 then False
      else sortedCount = 0 \<or>
        sanitizeNodeFileGCRatioThreshold (pt_gcRatioThreshold pt) \<le> of_nat unsortedCount / of_nat sortedCount)"

definition maybeScheduleGC :: "bytes \<Rightarrow> FileNodeHeader \<Rightarrow> bytes \<Rightarrow> bytes \<Rightarrow> 's PrefixTree \<Rightarrow> 's PrefixTree" where
  "maybeScheduleGC fileID header sortedSlice unsortedSlice pt =
     (if fileID = pt_globalFileID pt \<or> fileID = [] \<or> length unsortedSlice = 0 then pt
      else if pt_gcInFlight pt fileID \<noteq> None then pt
      else pt\<lparr>pt_gcInFlight := (pt_gcInFlight pt)(fileID \<mapsto>
             \<lparr>gs_header = header\<lparr>fh_SortedEntryCount := word_of_nat (length sortedSlice div NodeEntrySize),
                                 fh_UnsortedEntryCount := word_of_nat (length unsortedSlice div NodeEntrySize)\<rparr>,
              gs_sorted = sortedSlice, gs_unsorted = unsortedSlice\<rparr>)\<rparr>)"

section \<open>Lookup\<close>

definition getFromGlobalNode :: "'s tree_env \<Rightarrow> bytes \<Rightarrow> 's PrefixTree \<Rightarrow> NodeInfo option" where
  "getFromGlobalNode te key pt =
     (case pt_globalNodeIndex pt of
        None \<Rightarrow> None
      | Some ix \<Rightarrow>
          (case gi_Get (te_index te) ix key of
             Some n \<Rightarrow> Some (cloneNodeInfo n)
           | None \<Rightarrow>
               if MaxKeySize < length key
               then map_option cloneNodeInfo (gi_Get (te_index te) ix (nodeLookupKey key)) else None))"

text \<open>
  The two parts of a bucket file as a lookup sees them: those of a compaction in flight, those
  of the cache, or those of the file, which are then cached. A failed read is tried once more
  on a fresh handle, which leads to the same file.
\<close>

definition locate_slices :: "'s tree_env \<Rightarrow> bytes \<Rightarrow> 's PrefixTree \<Rightarrow>
    (node_error + (FileNodeHeader \<times> bytes \<times> bytes \<times> bool) option) \<times> 's PrefixTree" where
  "locate_slices te fileID pt =
     (let split = (\<lambda>header buf. (header, take (unat (fh_SortedEntryCount header) * NodeEntrySize) buf,
                                 drop (unat (fh_SortedEntryCount header) * NodeEntrySize) buf, True)) in
      case pt_gcInFlight pt fileID of
        Some state \<Rightarrow> (Inr (Some (gs_header state, gs_sorted state, gs_unsorted state, False)), pt)
      | None \<Rightarrow>
          (case getFileNodeCache fileID pt of
             (Some (hdrBuf, buf), pt1) \<Rightarrow>
               let header = decodeFileNodeHeader hdrBuf in
               if fh_Magic header \<noteq> FileNodeMagic then (Inl (InvalidMagic (fh_Magic header)), pt1)
               else (Inr (Some (split header buf)), pt1)
           | (None, pt1) \<Rightarrow>
               if nio_open (te_nio te) fileID then (Inl NodeOpenFault, pt1)
               else case map_of (pt_files pt1) fileID of
                   None \<Rightarrow> (Inr None, pt1)
                 | Some f \<Rightarrow>
                     (case readDecodedFileNode (te_zstd te) f of
                        Inl e \<Rightarrow> (Inl e, invalidateFileNodeCache fileID pt1)
                      | Inr (hdrBuf, header, buf) \<Rightarrow>
                          (Inr (Some (split header buf)), setFileNodeCache fileID hdrBuf buf pt1))))"

definition getFromFileNode :: "'s tree_env \<Rightarrow> bytes \<Rightarrow> bytes \<Rightarrow> 's PrefixTree \<Rightarrow>
    (node_error + NodeInfo option) \<times> 's PrefixTree" where
  "getFromFileNode te fileID key pt =
     (if fileID = pt_globalFileID pt then (Inr (getFromGlobalNode te key pt), pt)
      else case locate_slices te fileID pt of
          (Inl e, pt1) \<Rightarrow> (Inl e, pt1)
        | (Inr None, pt1) \<Rightarrow> (Inr None, pt1)
        | (Inr (Some (header, sortedSlice, unsortedSlice, mayCompact)), pt1) \<Rightarrow>
            let sortedCount = length sortedSlice div NodeEntrySize;
                unsortedCount = length unsortedSlice div NodeEntrySize;
                pt2 = (if mayCompact \<and> shouldScheduleGC pt1 sortedCount unsortedCount
                       then maybeScheduleGC fileID header sortedSlice unsortedSlice pt1 else pt1)
            in (Inr (searchNodeFile sortedSlice unsortedSlice key), pt2))"

definition tree_Get :: "'s tree_env \<Rightarrow> bytes \<Rightarrow> 's PrefixTree \<Rightarrow> (node_error + NodeInfo option) \<times> 's PrefixTree" where
  "tree_Get te key pt =
     (if key = [] then (Inl EmptyKey, pt) else getFromFileNode te (fileIDForKey pt key) key pt)"

section \<open>The global file\<close>

definition appendGlobalNodeEntriesWithBlockID :: "'s tree_env \<Rightarrow> NodeInfo list \<Rightarrow> u64 \<Rightarrow> 's PrefixTree \<Rightarrow> 's tree_result" where
  "appendGlobalNodeEntriesWithBlockID te entries blockID pt =
     (if entries = [] then (None, pt)
      else if \<not> pt_globalFileOpen pt then (Some GlobalFileClosed, pt)
      else write_end (te_nio te) (pt_globalFileID pt) (appendNodeCommitTag (concat (map encodeNodeEntry entries)) blockID) pt)"

definition batch_put :: "bytes \<Rightarrow> NodeInfo \<Rightarrow> 's PrefixTree \<Rightarrow> 's PrefixTree" where
  "batch_put key n pt =
     pt\<lparr>pt_globalCommitBatch := Some (AList.update key n (case pt_globalCommitBatch pt of None \<Rightarrow> [] | Some b \<Rightarrow> b)),
        pt_globalCommitDirty := True\<rparr>"

text \<open>The loop of \<^verbatim>\<open>putGlobalNodeInfos\<close>: merge each entry with the indexed one, index it and batch it.\<close>

definition put_global_one :: "'s tree_env \<Rightarrow> NodeInfo \<Rightarrow> NodeInfo list \<times> 's PrefixTree \<Rightarrow> NodeInfo list \<times> 's PrefixTree" where
  "put_global_one te entry acc =
     (let (appendEntries, pt) = acc;
          ix = (case pt_globalNodeIndex pt of None \<Rightarrow> gi_New (te_index te) | Some ix \<Rightarrow> ix);
          nxt = cloneNodeInfo entry;
          nxt = (case gi_Get (te_index te) ix (ni_key entry) of
                   None \<Rightarrow> nxt | Some previous \<Rightarrow> mergeNodeInfoForAppend previous nxt);
          pt1 = pt\<lparr>pt_globalNodeIndex := Some (gi_Set (te_index te) ix (ni_key entry) (cloneNodeInfo nxt))\<rparr>;
          pt2 = (if 0 < pt_globalCommitDepth pt1 then batch_put (ni_key entry) (cloneNodeInfo nxt) pt1 else pt1)
      in (appendEntries @ [nxt], pt2))"

definition putGlobalNodeInfos :: "'s tree_env \<Rightarrow> NodeInfo list \<Rightarrow> u64 \<Rightarrow> 's PrefixTree \<Rightarrow> 's tree_result" where
  "putGlobalNodeInfos te entries blockID pt =
     (let (appendEntries, pt1) = fold (put_global_one te) entries ([], pt) in
      if 0 < pt_globalCommitDepth pt1 then (None, pt1)
      else appendGlobalNodeEntriesWithBlockID te appendEntries blockID pt1)"

definition beginGlobalCommitWithBlockID :: "u64 \<Rightarrow> 's PrefixTree \<Rightarrow> 's PrefixTree" where
  "beginGlobalCommitWithBlockID blockID pt =
     pt\<lparr>pt_globalCommitDepth := pt_globalCommitDepth pt + 1,
        pt_globalCommitBatch := Some (case pt_globalCommitBatch pt of None \<Rightarrow> [] | Some b \<Rightarrow> b),
        pt_globalCommitBlockID := (if pt_globalCommitBlockID pt < blockID then blockID else pt_globalCommitBlockID pt)\<rparr>"

text \<open>The entries of the batch, a map in the code, in key order.\<close>

definition batch_entries :: "'s PrefixTree \<Rightarrow> NodeInfo list" where
  "batch_entries pt = sort_key ni_key (map (cloneNodeInfo \<circ> snd) (case pt_globalCommitBatch pt of None \<Rightarrow> [] | Some b \<Rightarrow> b))"

definition endGlobalCommit :: "'s tree_env \<Rightarrow> 's PrefixTree \<Rightarrow> 's tree_result" where
  "endGlobalCommit te pt0 =
     (if pt_globalCommitDepth pt0 = 0 then (None, pt0)
      else let pt = pt0\<lparr>pt_globalCommitDepth := pt_globalCommitDepth pt0 - 1\<rparr> in
        if 0 < pt_globalCommitDepth pt then (None, pt)
        else if \<not> pt_globalCommitDirty pt then (None, pt\<lparr>pt_globalCommitBlockID := 0\<rparr>)
        else let reset = (\<lambda>p. p\<lparr>pt_globalCommitDirty := False, pt_globalCommitBlockID := 0,
                               pt_globalCommitBatch := map_option (\<lambda>_. []) (pt_globalCommitBatch p)\<rparr>) in
          if batch_entries pt = [] then (None, reset pt)
          else case appendGlobalNodeEntriesWithBlockID te (batch_entries pt) (pt_globalCommitBlockID pt) pt of
              (r, pt1) \<Rightarrow> (r, reset pt1))"

definition deleteFromGlobalFileNode :: "'s tree_env \<Rightarrow> bytes \<Rightarrow> 's PrefixTree \<Rightarrow> (node_error + bool) \<times> 's PrefixTree" where
  "deleteFromGlobalFileNode te key pt =
     (case pt_globalNodeIndex pt of
        None \<Rightarrow> (Inr False, pt)
      | Some ix \<Rightarrow>
          if gi_Get (te_index te) ix key = None then (Inr False, pt)
          else let pt1 = pt\<lparr>pt_globalNodeIndex := Some (gi_Remove (te_index te) ix key)\<rparr>;
                   tombstone = tombstoneNodeInfo key in
            if 0 < pt_globalCommitDepth pt1 then (Inr True, batch_put key tombstone pt1)
            else case appendGlobalNodeEntriesWithBlockID te [tombstone] 0 pt1 of
                (Some e, pt2) \<Rightarrow> (Inl e, pt2)
              | (None, pt2) \<Rightarrow> (Inr True, pt2))"

definition rewriteGlobalNodeFileLocked :: "'s tree_env \<Rightarrow> 's PrefixTree \<Rightarrow> 's tree_result" where
  "rewriteGlobalNodeFileLocked te pt =
     (let ix = (case pt_globalNodeIndex pt of None \<Rightarrow> gi_New (te_index te) | Some ix \<Rightarrow> ix);
          entries = map (cloneNodeInfo \<circ> snd) (gi_Front (te_index te) ix);
          fileID = pt_globalFileID pt;
          pt = pt\<lparr>pt_globalNodeIndex := Some ix\<rparr> in
      case encodeNodeFilePayload (te_zstd te) (new_header\<lparr>fh_SortedEntryCount := word_of_nat (length entries)\<rparr>)
             (encodeNodeEntries entries) [] (pt_compressSorted pt) of
        (payload, header) \<Rightarrow>
          (case replace_file (te_nio te) fileID (encodeFileNodeAndPayload header payload) pt of
             (Some e, pt1) \<Rightarrow> (Some e, pt1)
           | (None, pt1) \<Rightarrow>
               if nio_open (te_nio te) fileID then (Some NodeOpenFault, pt1\<lparr>pt_globalFileOpen := False\<rparr>)
               else (None, pt1\<lparr>pt_globalFileOpen := True, pt_globalHeader := header\<rparr>)))"

definition loadGlobalNodeIndex :: "'s tree_env \<Rightarrow> 's PrefixTree \<Rightarrow> 's tree_result" where
  "loadGlobalNodeIndex te pt =
     (let fileID = pt_globalFileID pt;
          install = (\<lambda>header ix p. p\<lparr>pt_globalFileOpen := True, pt_globalHeader := header, pt_globalNodeIndex := Some ix\<rparr>) in
      if nio_open (te_nio te) fileID then (Some NodeOpenFault, pt)
      else let f = (case map_of (pt_files pt) fileID of None \<Rightarrow> [] | Some f \<Rightarrow> f);
               pt1 = pt\<lparr>pt_files := AList.update fileID f (pt_files pt)\<rparr> in
        if length f = 0
        then case write_end (te_nio te) fileID (encodeFileNodeHeader new_header) pt1 of
            (Some e, pt2) \<Rightarrow> (Some e, pt2)
          | (None, pt2) \<Rightarrow> (None, install new_header (gi_New (te_index te)) pt2)
        else case readWholeNodeFile f of
            Inl e \<Rightarrow> (Some e, pt1)
          | Inr (header, payload) \<Rightarrow>
              if length payload = 0 then (None, install header (gi_New (te_index te)) pt1)
              else case decodeNodeFilePayload (te_zstd te) header payload of
                  Inl e \<Rightarrow> (Some e, pt1)
                | Inr (_, sortedSlice, unsortedSlice) \<Rightarrow>
                    (None, install header (rebuild_index (te_index te) (buildEntriesFromSlices sortedSlice unsortedSlice)) pt1))"

section \<open>Updates\<close>

definition appendFileNodeEntriesWithBlockID :: "'s tree_env \<Rightarrow> bytes \<Rightarrow> NodeInfo list \<Rightarrow> u64 \<Rightarrow> 's PrefixTree \<Rightarrow> 's tree_result" where
  "appendFileNodeEntriesWithBlockID te fileID entries blockID pt0 =
     (if entries = [] then (None, pt0)
      else let pt = invalidateFileNodeCache fileID (beginFileMutation te fileID pt0) in
        if nio_open (te_nio te) fileID then (Some NodeOpenFault, pt)
        else let f = (case map_of (pt_files pt) fileID of None \<Rightarrow> [] | Some f \<Rightarrow> f);
                 pt1 = pt\<lparr>pt_files := AList.update fileID f (pt_files pt)\<rparr>;
                 entryData = appendNodeCommitTag (encodeNodeEntries entries) blockID in
          if length f = 0 then write_end (te_nio te) fileID (encodeFileNodeAndPayload new_header entryData) pt1
          else if length f < FileNodeHeaderSize then (Some (InvalidNodeFileSize (length f)), pt1)
          else write_end (te_nio te) fileID entryData pt1)"

text \<open>
  The grouping of \<^verbatim>\<open>putNodeInfosLocked\<close>: the entries of the global file, and per bucket file
  its entries in their order; the files are visited in the order of their names.
\<close>

definition group_entries :: "'s PrefixTree \<Rightarrow> NodeInfo list \<Rightarrow> NodeInfo list \<times> (bytes \<times> NodeInfo list) list" where
  "group_entries pt entries =
     (let globals = filter (\<lambda>e. fileIDForKey pt (ni_key e) = pt_globalFileID pt) entries;
          buckets = filter (\<lambda>e. fileIDForKey pt (ni_key e) \<noteq> pt_globalFileID pt) entries;
          fileOrder = sort (remdups (map (\<lambda>e. fileIDForKey pt (ni_key e)) buckets))
      in (globals, map (\<lambda>f. (f, filter (\<lambda>e. fileIDForKey pt (ni_key e) = f) buckets)) fileOrder))"

fun append_groups :: "'s tree_env \<Rightarrow> u64 \<Rightarrow> (bytes \<times> NodeInfo list) list \<Rightarrow> 's PrefixTree \<Rightarrow> 's tree_result" where
  "append_groups te blockID [] pt = (None, pt)"
| "append_groups te blockID ((fileID, es) # rest) pt =
     (case appendFileNodeEntriesWithBlockID te fileID es blockID pt of
        (Some e, pt1) \<Rightarrow> (Some e, pt1)
      | (None, pt1) \<Rightarrow> append_groups te blockID rest pt1)"

definition PutNodeInfosWithBlockID :: "'s tree_env \<Rightarrow> NodeInfo list \<Rightarrow> u64 \<Rightarrow> 's PrefixTree \<Rightarrow> 's tree_result" where
  "PutNodeInfosWithBlockID te entries blockID pt =
     (if entries = [] then (None, pt)
      else if list_ex (\<lambda>e. length (ni_key e) = 0) entries then (Some EmptyKey, pt)
      else case group_entries pt entries of
          (globals, groups) \<Rightarrow>
            (case (if 0 < length globals then putGlobalNodeInfos te globals blockID pt else (None, pt)) of
               (Some e, pt1) \<Rightarrow> (Some e, pt1)
             | (None, pt1) \<Rightarrow> append_groups te blockID groups pt1))"

definition tree_Put :: "'s tree_env \<Rightarrow> bytes \<Rightarrow> u64 \<Rightarrow> u32 \<Rightarrow> u32 \<Rightarrow> u64 \<Rightarrow> u64 \<Rightarrow> 's PrefixTree \<Rightarrow> 's tree_result" where
  "tree_Put te key accountOffset accountSize storageFileID storageOffset storageSize pt =
     (if key = [] then (Some EmptyKey, pt)
      else PutNodeInfosWithBlockID te
        [\<lparr>ni_key = key, ni_accountOffset = accountOffset, ni_accountSize = accountSize,
          ni_storageFileID = storageFileID, ni_storageOffset = storageOffset, ni_storageSize = storageSize\<rparr>] 0 pt)"

definition trieNodeToNodeInfo :: "bytes \<Rightarrow> PrefixTrieNode option \<Rightarrow> NodeInfo" where
  "trieNodeToNodeInfo key node =
     (case node of
        None \<Rightarrow> tombstoneNodeInfo key
      | Some n \<Rightarrow> \<lparr>ni_key = key, ni_accountOffset = tn_accountOffset n, ni_accountSize = tn_accountSize n,
          ni_storageFileID = tn_storageFileID n, ni_storageOffset = tn_storageOffset n, ni_storageSize = tn_storageSize n\<rparr>)"

definition nodeInfoToTrieNode :: "NodeInfo \<Rightarrow> PrefixTrieNode" where
  "nodeInfoToTrieNode n =
     \<lparr>tn_accountOffset = ni_accountOffset n, tn_accountSize = ni_accountSize n, tn_storageFileID = ni_storageFileID n,
      tn_storageOffset = ni_storageOffset n, tn_storageSize = ni_storageSize n\<rparr>"

definition PutNode :: "'s tree_env \<Rightarrow> bytes \<Rightarrow> PrefixTrieNode option \<Rightarrow> 's PrefixTree \<Rightarrow> 's tree_result" where
  "PutNode te key node pt = PutNodeInfosWithBlockID te [trieNodeToNodeInfo key node] 0 pt"

text \<open>The entry is merged with the indexed one and appended at once, or batched inside a commit.\<close>

definition putIntoGlobalFileNode :: "'s tree_env \<Rightarrow> NodeInfo \<Rightarrow> 's PrefixTree \<Rightarrow> 's tree_result" where
  "putIntoGlobalFileNode te entry pt =
     (let (appended, pt1) = put_global_one te entry ([], pt) in
      if 0 < pt_globalCommitDepth pt1 then (None, pt1)
      else appendGlobalNodeEntriesWithBlockID te appended 0 pt1)"

definition putIntoFileNode :: "'s tree_env \<Rightarrow> bytes \<Rightarrow> NodeInfo \<Rightarrow> 's PrefixTree \<Rightarrow> 's tree_result" where
  "putIntoFileNode te fileID entry pt =
     (if fileID = pt_globalFileID pt then putIntoGlobalFileNode te entry pt
      else appendFileNodeEntriesWithBlockID te fileID [entry] 0 pt)"

definition deleteFromFileNode :: "'s tree_env \<Rightarrow> bytes \<Rightarrow> bytes \<Rightarrow> 's PrefixTree \<Rightarrow> (node_error + bool) \<times> 's PrefixTree" where
  "deleteFromFileNode te fileID key pt0 =
     (if fileID = pt_globalFileID pt0 then deleteFromGlobalFileNode te key pt0
      else let pt = invalidateFileNodeCache fileID (beginFileMutation te fileID pt0) in
        if nio_open (te_nio te) fileID then (Inl NodeOpenFault, pt)
        else case map_of (pt_files pt) fileID of
            None \<Rightarrow> (Inl NodeFileMissing, pt)
          | Some f \<Rightarrow>
              (case readWholeNodeFile f of
                 Inl e \<Rightarrow> (Inl e, pt)
               | Inr (header, payload) \<Rightarrow>
                   (case decodeNodeFilePayload (te_zstd te) header payload of
                      Inl e \<Rightarrow> (Inl e, pt)
                    | Inr (_, sortedSlice, unsortedSlice) \<Rightarrow>
                        if \<not> nodeFileContainsKey sortedSlice unsortedSlice key then (Inr False, pt)
                        else case write_end (te_nio te) fileID (encodeNodeEntry (tombstoneNodeInfo key)) pt of
                            (Some e, pt1) \<Rightarrow> (Inl e, pt1)
                          | (None, pt1) \<Rightarrow> (Inr True, pt1))))"

definition tree_Delete :: "'s tree_env \<Rightarrow> bytes \<Rightarrow> 's PrefixTree \<Rightarrow> (node_error + bool) \<times> 's PrefixTree" where
  "tree_Delete te key pt =
     (if key = [] then (Inl EmptyKey, pt) else deleteFromFileNode te (fileIDForKey pt key) key pt)"

section \<open>Whole-tree operations\<close>

definition buildGCStateFromFile :: "'s tree_env \<Rightarrow> bytes \<Rightarrow> 's PrefixTree \<Rightarrow> node_error + gcState option" where
  "buildGCStateFromFile te fileID pt =
     (if nio_open (te_nio te) fileID then Inl NodeOpenFault
      else case map_of (pt_files pt) fileID of
          None \<Rightarrow> Inr None
        | Some f \<Rightarrow>
            (case readWholeNodeFile f of
               Inl e \<Rightarrow> Inl e
             | Inr (header, payload) \<Rightarrow>
                 if length payload \<le> 0 then Inr None
                 else case nodeFileInferUnsortedEntryCount header (length payload) of
                     Inl e \<Rightarrow> Inl e
                   | Inr unsortedCount \<Rightarrow>
                       if fh_SortedEntryCount header = 0 \<and> unsortedCount = 0 then Inr None
                       else if unsortedCount = 0 then Inr None
                       else case decodeNodeFilePayload (te_zstd te) header payload of
                           Inl e \<Rightarrow> Inl e
                         | Inr (_, sortedSlice, unsortedSlice) \<Rightarrow>
                             Inr (Some \<lparr>gs_header = setSortedCompression False 0
                                 (header\<lparr>fh_SortedEntryCount := word_of_nat (length sortedSlice div NodeEntrySize),
                                         fh_UnsortedEntryCount := word_of_nat (length unsortedSlice div NodeEntrySize)\<rparr>),
                               gs_sorted = sortedSlice, gs_unsorted = unsortedSlice\<rparr>)))"

text \<open>
  The sweep of \<^verbatim>\<open>CompactAllNodeFiles\<close>: the compactions in flight are waited for, then every
  file of the directory with an unsorted part is compacted.
  The jobs run in parallel in the code, each on a file of its own.
\<close>

definition compact_one :: "'s tree_env \<Rightarrow> bytes \<Rightarrow> nat \<times> 's PrefixTree \<Rightarrow> nat \<times> 's PrefixTree" where
  "compact_one te fileID acc =
     (let (n, pt) = acc in
      case buildGCStateFromFile te fileID pt of
        Inl _ \<Rightarrow> (n, pt)
      | Inr None \<Rightarrow> (n, pt)
      | Inr (Some state) \<Rightarrow>
          if fh_UnsortedEntryCount (gs_header state) = 0 \<or> pt_gcInFlight pt fileID \<noteq> None then (n, pt)
          else case compactFileFromState te fileID state (pt\<lparr>pt_gcInFlight := (pt_gcInFlight pt)(fileID \<mapsto> state)\<rparr>) of
              (r, pt1) \<Rightarrow> (if r = None then n + 1 else n, finishGC fileID pt1))"

definition CompactAllNodeFiles :: "'s tree_env \<Rightarrow> 's PrefixTree \<Rightarrow> nat \<times> 's PrefixTree" where
  "CompactAllNodeFiles te pt =
     (let names = dir_names (pt_files pt);
          pending = filter (\<lambda>f. pt_gcInFlight pt f \<noteq> None) names;
          pt1 = fold (processGCJob te) pending pt
      in fold (compact_one te) (dir_names (pt_files pt1)) (length pending, pt1))"

definition trim_one :: "bytes \<Rightarrow> bytes list \<times> 's PrefixTree \<Rightarrow> bytes list \<times> 's PrefixTree" where
  "trim_one fileID acc =
     (let (trimmed, pt) = acc in
      case map_of (pt_files pt) fileID of
        None \<Rightarrow> (trimmed, pt)
      | Some f \<Rightarrow>
          (case findLastNodeCommitTagEnd f of
             None \<Rightarrow> (trimmed, pt)
           | Some e \<Rightarrow>
               if length f \<le> e then (trimmed, pt)
               else (trimmed @ [fileID], pt\<lparr>pt_files := AList.update fileID (take e f) (pt_files pt)\<rparr>)))"

definition TrimNodeFilesAfterCommitTag :: "'s tree_env \<Rightarrow> u64 \<Rightarrow> 's PrefixTree \<Rightarrow> 's tree_result" where
  "TrimNodeFilesAfterCommitTag te blockID pt =
     (if blockID = 0 then (None, pt)
      else case fold trim_one (dir_names (pt_files pt)) ([], pt) of
          (trimmed, pt1) \<Rightarrow>
            if trimmed = [] then (None, pt1)
            else loadGlobalNodeIndex te (fold invalidateFileNodeCache trimmed pt1))"

definition tree_Close :: "'s tree_env \<Rightarrow> 's PrefixTree \<Rightarrow> 's tree_result" where
  "tree_Close te pt0 =
     (let pt = fold (processGCJob te) (dir_names (pt_files pt0)) pt0 in
      case (if pt_globalCommitDirty pt
            then case (if batch_entries pt = [] then (None, pt) else appendGlobalNodeEntriesWithBlockID te (batch_entries pt) 0 pt) of
                (Some e, p) \<Rightarrow> (Some e, p)
              | (None, p) \<Rightarrow> (None, p\<lparr>pt_globalCommitDirty := False,
                                    pt_globalCommitBatch := map_option (\<lambda>_. []) (pt_globalCommitBatch p)\<rparr>)
            else (None, pt)) of
        (Some e, pt1) \<Rightarrow> (Some e, pt1)
      | (None, pt1) \<Rightarrow>
          let f = (case map_of (pt_files pt1) (pt_globalFileID pt1) of None \<Rightarrow> [] | Some f \<Rightarrow> f) in
          (case (if \<not> pt_globalFileOpen pt1 \<or> length f \<le> FileNodeHeaderSize then (None, pt1)
                 else case nodeFileInferUnsortedEntryCount (pt_globalHeader pt1) (length f - FileNodeHeaderSize) of
                     Inl e \<Rightarrow> (Some e, pt1)
                   | Inr n \<Rightarrow> if 0 < n then rewriteGlobalNodeFileLocked te pt1 else (None, pt1)) of
             (Some e, pt2) \<Rightarrow> (Some e, pt2)
           | (None, pt2) \<Rightarrow> (None, pt2\<lparr>pt_globalFileOpen := False\<rparr>)))"

definition NewPrefixTree :: "'s tree_env \<Rightarrow> directory \<Rightarrow> (bytes \<times> bytes) sharedByteCache option \<Rightarrow> rat \<Rightarrow> bool \<Rightarrow> 's tree_result" where
  "NewPrefixTree te files cache ratio compress =
     loadGlobalNodeIndex te
       \<lparr>pt_maxDepth = MaxPrefixDepth, pt_files = files, pt_globalFileID = globalFileName,
        pt_bucketPrefixLength = MaxPrefixDepth, pt_sharedCache = cache,
        pt_globalNodeIndex = Some (gi_New (te_index te)), pt_globalFileOpen = False, pt_globalHeader = new_header,
        pt_globalCommitDepth = 0, pt_globalCommitDirty = False, pt_globalCommitBlockID = 0, pt_globalCommitBatch = None,
        pt_gcCount = 0, pt_gcInFlight = Map.empty,
        pt_gcRatioThreshold = sanitizeNodeFileGCRatioThreshold ratio, pt_compressSorted = compress\<rparr>"

end
