(* ===== verification/Prefix_Tree_Files.thy ===== *)
theory Prefix_Tree_Files
  imports Prefix_Tree
begin

text \<open>
  Node files and the entries of a key. A bucket or global file holds a sorted list of node
  pointers and the entries appended since; the theory gives what a read of the decoded file
  sees, and the discipline on the entries of one key under which the value of the key is its
  newest entry whether or not the file is compacted in between.
\<close>

section \<open>File names\<close>

definition bucket_name :: "bytes \<Rightarrow> bytes" where
  "bucket_name key = name_bytes ''bucket_'' @ hex (take 6 key) @ name_bytes ''.node''"

definition file_of :: "bytes \<Rightarrow> bytes" where
  "file_of key = (if length key < 6 then globalFileName else bucket_name key)"

definition tree_shape :: "'s PrefixTree \<Rightarrow> bool" where
  "tree_shape pt \<longleftrightarrow> pt_maxDepth pt = 6 \<and> pt_bucketPrefixLength pt = 6 \<and> pt_globalFileID pt = globalFileName"

lemma fileIDForKey_file_of: "tree_shape pt \<Longrightarrow> fileIDForKey pt key = file_of key"
  by (simp add: fileIDForKey_def file_of_def getBucketID_def bucket_name_def tree_shape_def)

lemma name_lasts:
  "last (bucket_name k) = 101" "last globalFileName = 101" "last (tmp_name f) = 112"
  by (simp_all add: bucket_name_def globalFileName_def tmp_name_def name_bytes_def)

lemma names_nonempty [simp]: "bucket_name k \<noteq> []" "globalFileName \<noteq> []" "file_of k \<noteq> []"
  by (simp_all add: bucket_name_def globalFileName_def file_of_def name_bytes_def)

lemma file_of_not_tmp [simp]: "file_of k \<noteq> tmp_name f" "tmp_name f \<noteq> file_of k"
proof -
  have "last (file_of k) = 101" using name_lasts by (simp add: file_of_def)
  then show "file_of k \<noteq> tmp_name f" "tmp_name f \<noteq> file_of k" using name_lasts(3) [of f] by (auto dest: arg_cong [of _ _ last])
qed

lemma bucket_not_global [simp]: "bucket_name k \<noteq> globalFileName"
proof -
  have "hd (bucket_name k) = 98" "hd globalFileName = 103"
    by (simp_all add: bucket_name_def globalFileName_def name_bytes_def)
  then show ?thesis by auto
qed

lemma file_of_lookup_key [simp]: "file_of (nodeLookupKey k) = file_of k" "file_of (take MaxKeySize k) = file_of k"
  by (auto simp: file_of_def nodeLookupKey_def MaxKeySize_def bucket_name_def)

lemma nodeLookupKey_take: "nodeLookupKey k = take MaxKeySize k"
  by (simp add: nodeLookupKey_def)

section \<open>Decoded files\<close>

definition file_slices :: "zstd_ops \<Rightarrow> bytes \<Rightarrow> (bytes \<times> bytes) option" where
  "file_slices z f =
     (case readWholeNodeFile f of
        Inl _ \<Rightarrow> None
      | Inr (header, payload) \<Rightarrow>
          (case decodeNodeFilePayload z header payload of Inl _ \<Rightarrow> None | Inr (_, s, u) \<Rightarrow> Some (s, u)))"

definition file_holds :: "zstd_ops \<Rightarrow> bytes \<Rightarrow> NodeInfo list \<Rightarrow> bytes list \<Rightarrow> bool" where
  "file_holds z f ns es \<longleftrightarrow>
     (\<exists>h stored. f = encodeFileNodeHeader h @ stored @ concat es \<and> length (fh_Reserved h) = 8 \<and> fh_Magic h = FileNodeMagic \<and>
        unat (fh_SortedEntryCount h) = length ns \<and> (\<forall>e \<in> set es. length e = 65) \<and>
        sorted_infos ns \<and> (\<forall>n \<in> set ns. \<not> isNodeInfoTombstone n) \<and>
        (if sortedCompressed h
         then sortedCompressedSize h = int (length stored) \<and>
              decompressMetadataZstd z stored (int (length ns * 65)) = Inr (encodeNodeEntries ns)
         else stored = encodeNodeEntries ns))"

lemma file_holds_decode:
  assumes "file_holds z f ns es"
  obtains h payload where "readWholeNodeFile f = Inr (h, payload)" "f = encodeFileNodeHeader h @ payload"
    "length (fh_Reserved h) = 8" "fh_Magic h = FileNodeMagic" "unat (fh_SortedEntryCount h) = length ns"
    "decodeNodeFilePayload z h payload = Inr (encodeNodeEntries ns @ concat es, encodeNodeEntries ns, concat es)"
    "\<not> sortedCompressed h \<Longrightarrow> payload = encodeNodeEntries ns @ concat es"
    "nodeFileInferUnsortedEntryCount h (length payload) = Inr (word_of_nat (length es))"
proof -
  from assms obtain h stored where f: "f = encodeFileNodeHeader h @ stored @ concat es" "length (fh_Reserved h) = 8"
    "fh_Magic h = FileNodeMagic" "unat (fh_SortedEntryCount h) = length ns" "\<forall>e \<in> set es. length e = 65"
    and st: "if sortedCompressed h then sortedCompressedSize h = int (length stored) \<and>
        decompressMetadataZstd z stored (int (length ns * 65)) = Inr (encodeNodeEntries ns) else stored = encodeNodeEntries ns"
    unfolding file_holds_def by blast
  have len: "length (concat es) = length es * 65" by (rule length_concat_fixed [OF f(5)])
  have r: "readWholeNodeFile f = Inr (h, stored @ concat es)"
    using f(2,3) decode_encode_header [OF f(2), of "stored @ concat es"] by (simp add: readWholeNodeFile_def f(1) drop_append_exact)
  have d: "decodeNodeFilePayload z h (stored @ concat es) =
      Inr (encodeNodeEntries ns @ concat es, encodeNodeEntries ns, concat es)"
  proof (cases "sortedCompressed h")
    case True
    with st len f(4) show ?thesis
      by (simp add: decodeNodeFilePayload_def nodeFileStoredSortedPayloadSize_def NodeEntrySize_def Let_def)
  next
    case False
    with st len f(4) show ?thesis by (simp add: decodeNodeFilePayload_def NodeEntrySize_def Let_def)
  qed
  have i: "nodeFileInferUnsortedEntryCount h (length (stored @ concat es)) = Inr (word_of_nat (length es))"
    using st len f(4)
    by (cases "sortedCompressed h")
      (simp_all add: nodeFileInferUnsortedEntryCount_def nodeFileStoredSortedPayloadSize_def sortedCompressedSize_def NodeEntrySize_def nat_mult_distrib)
  have "\<not> sortedCompressed h \<Longrightarrow> stored @ concat es = encodeNodeEntries ns @ concat es" using st by simp
  from that [OF r f(1) f(2,3,4) d this i] show thesis by blast
qed

lemma file_holds_slices: "file_holds z f ns es \<Longrightarrow> file_slices z f = Some (encodeNodeEntries ns, concat es)"
  by (erule file_holds_decode) (simp add: file_slices_def)

lemma file_holds_sorted:
  "file_holds z f ns es \<Longrightarrow> sorted_infos ns \<and> (\<forall>n \<in> set ns. \<not> isNodeInfoTombstone n) \<and> (\<forall>e \<in> set es. length e = 65)"
  by (auto simp: file_holds_def)

lemma file_holds_nonempty: "file_holds z f ns es \<Longrightarrow> FileNodeHeaderSize \<le> length f"
  by (auto simp: file_holds_def)

lemma file_holds_append:
  assumes "file_holds z f ns es" "\<forall>e \<in> set xs. length e = 65"
  shows "file_holds z (f @ concat xs) ns (es @ xs)"
  using assms unfolding file_holds_def by (auto 0 3)

lemma file_holds_new:
  assumes "zstd_laws z" "sorted_infos ns" "\<forall>n \<in> set ns. \<not> isNodeInfoTombstone n" "length ns < 2 ^ 32"
    and "length (z_EncodeAll z (encodeNodeEntries ns)) < 2 ^ 32"
    and "encodeNodeFilePayload z (new_header\<lparr>fh_SortedEntryCount := w\<rparr>) (encodeNodeEntries ns) [] c = (payload, h)"
  shows "file_holds z (encodeFileNodeAndPayload h payload) ns []"
proof -
  let ?s = "encodeNodeEntries ns"
  have f: "encodeFileNodeAndPayload h payload = encodeFileNodeHeader h @ payload @ concat []"
    by (simp add: encodeFileNodeAndPayload_def)
  have cnt: "unat (word_of_nat (length ns) :: u32) = length ns" using assms(4) by (simp add: unat_of_nat)
  show ?thesis
  proof (cases "c \<and> 0 < length ?s")
    case False
    with assms(2,3,6) cnt show ?thesis unfolding f file_holds_def
      by (intro exI [of _ h] exI [of _ payload]) (auto simp: encodeNodeFilePayload_def NodeEntrySize_def new_header_def)
  next
    case True
    let ?z = "z_EncodeAll z ?s"
    have "?z \<noteq> []" "z_DecodeAll z ?z = Some ?s"
      using assms(1) True unfolding zstd_laws_def by (metis length_greater_0_conv)+
    then have "decompressMetadataZstd z ?z (int (length ns * 65)) = Inr ?s" by (simp add: decompressMetadataZstd_def)
    with True assms(2,3,6) cnt compressed_size(1) compressed_size(2) [OF assms(5)] show ?thesis unfolding f file_holds_def
      by (intro exI [of _ h] exI [of _ payload])
        (auto simp: encodeNodeFilePayload_def compressMetadataZstd_def NodeEntrySize_def new_header_def Let_def)
  qed
qed

lemma file_holds_initial: "\<forall>e \<in> set xs. length e = 65 \<Longrightarrow> file_holds z (encodeFileNodeAndPayload new_header (concat xs)) [] xs"
  unfolding file_holds_def
  by (intro exI [of _ new_header] exI [of _ "[]"])
    (auto simp: encodeFileNodeAndPayload_def new_header_def sorted_infos_def sortedCompressed_def encodeNodeEntries_def
      fileNodeVersionBase_def fileNodeVersionCompressed_def)

text \<open>What a lookup finds in the cache or in a file: the two parts.\<close>

lemma readDecoded_holds:
  assumes "file_holds z f ns es"
  obtains hb h where "readDecodedFileNode z f = Inr (hb, h, encodeNodeEntries ns @ concat es)"
    "decodeFileNodeHeader hb = h" "fh_Magic h = FileNodeMagic" "unat (fh_SortedEntryCount h) = length ns" "hb = take FileNodeHeaderSize f"
proof -
  obtain h payload where r: "readWholeNodeFile f = Inr (h, payload)" "f = encodeFileNodeHeader h @ payload"
    "length (fh_Reserved h) = 8" "fh_Magic h = FileNodeMagic" "unat (fh_SortedEntryCount h) = length ns"
    "decodeNodeFilePayload z h payload = Inr (encodeNodeEntries ns @ concat es, encodeNodeEntries ns, concat es)"
    "\<not> sortedCompressed h \<Longrightarrow> payload = encodeNodeEntries ns @ concat es"
    using file_holds_decode [OF assms] by metis
  have hb: "take FileNodeHeaderSize f = encodeFileNodeHeader h" using r(2,3) by simp
  have dec: "decodeFileNodeHeader (encodeFileNodeHeader h) = h" using decode_encode_header [OF r(3), of "[]"] by simp
  have "readDecodedFileNode z f = Inr (encodeFileNodeHeader h, h, encodeNodeEntries ns @ concat es)"
  proof (cases "payload = []")
    case True
    have "encodeNodeEntries ns @ concat es = []"
    proof (cases "sortedCompressed h")
      case c: True
      then show ?thesis using r(5,6) True
        by (auto simp: decodeNodeFilePayload_def nodeFileStoredSortedPayloadSize_def decompressMetadataZstd_def Let_def split: if_splits)
    qed (use r(7) True in simp)
    with True r(1) hb show ?thesis by (simp add: readDecodedFileNode_def)
  next
    case False
    with r(1,6,7) hb show ?thesis by (simp add: readDecodedFileNode_def)
  qed
  with that dec r(4,5) hb show thesis by metis
qed

section \<open>The entries of one key\<close>

text \<open>
  What a client of the tree observes of the append discipline: an entry has a size, its account
  offset is not below that of the present entry, and it has a storage pointer when the present
  entry has one. A deleted key is not written again.
\<close>

definition put_ok :: "NodeInfo option \<Rightarrow> NodeInfo \<Rightarrow> bool" where
  "put_ok v n \<longleftrightarrow> ni_accountSize n \<noteq> 0 \<and>
     (case v of None \<Rightarrow> True
      | Some p \<Rightarrow> ni_accountOffset p \<le> ni_accountOffset n \<and> (hasStorageInfo p \<longrightarrow> hasStorageInfo n))"

fun chain_ok :: "NodeInfo option \<Rightarrow> NodeInfo list \<Rightarrow> bool" where
  "chain_ok v [] = True"
| "chain_ok v (n # ns) = (put_ok v n \<and> chain_ok (Some n) ns)"

definition last_or_old :: "NodeInfo list \<Rightarrow> NodeInfo option \<Rightarrow> NodeInfo option" where
  "last_or_old xs v = (if xs = [] then v else Some (last xs))"

definition seq_of :: "NodeInfo option \<Rightarrow> NodeInfo list \<Rightarrow> NodeInfo list" where
  "seq_of b h = (case b of None \<Rightarrow> [] | Some x \<Rightarrow> [x]) @ h"

definition key_ok :: "NodeInfo option \<Rightarrow> NodeInfo list \<Rightarrow> NodeInfo option \<Rightarrow> bool \<Rightarrow> bool" where
  "key_ok b h v dead \<longleftrightarrow>
     (if dead then v = None \<and> (if h = [] then b = None else isNodeInfoTombstone (last h))
      else (\<forall>x \<in> set (seq_of b h). ni_accountSize x \<noteq> 0) \<and> sorted (map ni_accountOffset (seq_of b h)) \<and>
        sorted_wrt (\<lambda>x y. hasStorageInfo x \<longrightarrow> hasStorageInfo y) (seq_of b h) \<and> v = last_or_old (seq_of b h) None)"

lemma size_live: "ni_accountSize x \<noteq> 0 \<Longrightarrow> \<not> isNodeInfoTombstone x"
  by (simp add: isNodeInfoTombstone_def)

lemma key_ok_discipline: "key_ok b h v dead \<Longrightarrow> append_discipline h b \<or> h = [] \<and> b = None"
  by (cases b) (auto simp: key_ok_def append_discipline_def seq_of_def list_ex_iff size_live split: if_splits)

lemma merge_last:
  assumes "ni_accountSize l \<noteq> 0" "hasStorageInfo p \<longrightarrow> hasStorageInfo l"
  shows "mergeNodeInfoForAppend p l = l"
  using assms by (auto simp: mergeNodeInfoForAppend_def)

lemma key_ok_compact_value:
  assumes "key_ok b h v dead"
  shows "compact_value h b = v"
proof (cases dead)
  case True
  with assms show ?thesis
    by (cases h rule: rev_cases) (auto simp: key_ok_def compact_value_def compact_step_def split: if_splits)
next
  case False
  with assms have k: "\<forall>x \<in> set (seq_of b h). ni_accountSize x \<noteq> 0"
    "sorted_wrt (\<lambda>x y. hasStorageInfo x \<longrightarrow> hasStorageInfo y) (seq_of b h)" "v = last_or_old (seq_of b h) None"
    by (simp_all add: key_ok_def)
  from k(1,2) have "compact_value h b = last_or_old (seq_of b h) None"
  proof (induction h rule: rev_induct)
    case Nil
    then show ?case by (cases b) (simp_all add: compact_value_def seq_of_def last_or_old_def)
  next
    case (snoc l xs)
    have s: "seq_of b (xs @ [l]) = seq_of b xs @ [l]" by (simp add: seq_of_def)
    have l: "ni_accountSize l \<noteq> 0" "\<And>p. p \<in> set (seq_of b xs) \<Longrightarrow> hasStorageInfo p \<longrightarrow> hasStorageInfo l"
      using snoc.prems unfolding s by (auto simp: sorted_wrt_append)
    have "compact_value xs b = last_or_old (seq_of b xs) None" using snoc unfolding s by (auto simp: sorted_wrt_append)
    then have "compact_value (xs @ [l]) b = Some (case last_or_old (seq_of b xs) None of None \<Rightarrow> l | Some old \<Rightarrow> mergeNodeInfoForAppend old l)"
      using size_live [OF l(1)] by (simp add: compact_value_def compact_step_def)
    also have "\<dots> = Some l"
      using merge_last [OF l(1) l(2) [OF last_in_set]] by (simp add: last_or_old_def)
    finally show ?case by (simp add: s last_or_old_def)
  qed
  with k(3) show ?thesis by simp
qed

lemma key_ok_read: "key_ok b h v dead \<Longrightarrow> read_value h b = v"
  using key_ok_discipline [of b h v dead] key_ok_compact_value [of b h v dead] compact_read_agree [of h b]
  by (auto simp: read_value_def compact_value_def)

lemma key_ok_compacted: "key_ok b h v dead \<Longrightarrow> key_ok v [] v dead"
proof (cases dead)
  case False
  assume k: "key_ok b h v dead"
  show ?thesis
  proof (cases "seq_of b h = []")
    case True
    with k False show ?thesis by (simp add: key_ok_def seq_of_def last_or_old_def)
  next
    case ne: False
    with k False have "v = Some (last (seq_of b h))" "ni_accountSize (last (seq_of b h)) \<noteq> 0"
      by (auto simp: key_ok_def last_or_old_def)
    with False show ?thesis by (simp add: key_ok_def seq_of_def last_or_old_def)
  qed
qed (simp add: key_ok_def)

lemma key_ok_put:
  assumes "key_ok b h v False" "put_ok v n"
  shows "key_ok b (h @ [n]) (Some n) False"
proof -
  let ?s = "seq_of b h"
  have s: "seq_of b (h @ [n]) = ?s @ [n]" by (simp add: seq_of_def)
  have k: "\<forall>x \<in> set ?s. ni_accountSize x \<noteq> 0" "sorted (map ni_accountOffset ?s)"
    "sorted_wrt (\<lambda>x y. hasStorageInfo x \<longrightarrow> hasStorageInfo y) ?s" "v = last_or_old ?s None"
    using assms(1) by (simp_all add: key_ok_def)
  have "ni_accountOffset x \<le> ni_accountOffset n \<and> (hasStorageInfo x \<longrightarrow> hasStorageInfo n)" if x: "x \<in> set ?s" for x
  proof -
    obtain xs l where sl: "?s = xs @ [l]" using x by (cases ?s rule: rev_cases) auto
    have "ni_accountOffset x \<le> ni_accountOffset l \<and> (hasStorageInfo x \<longrightarrow> hasStorageInfo l)"
      using k(2,3) x unfolding sl by (auto simp: sorted_append sorted_wrt_append)
    moreover have "ni_accountOffset l \<le> ni_accountOffset n \<and> (hasStorageInfo l \<longrightarrow> hasStorageInfo n)"
      using assms(2) k(4) unfolding sl by (simp add: put_ok_def last_or_old_def)
    ultimately show ?thesis by auto
  qed
  with k assms(2) show ?thesis
    by (simp add: key_ok_def s sorted_append sorted_wrt_append last_or_old_def put_ok_def)
qed

lemma key_ok_chain: "key_ok b h v False \<Longrightarrow> chain_ok v xs \<Longrightarrow> key_ok b (h @ xs) (last_or_old xs v) False"
proof (induction xs arbitrary: h v)
  case (Cons n xs)
  from Cons.IH [OF key_ok_put [OF Cons.prems(1)], of n] Cons.prems(2) show ?case
    by (auto simp: last_or_old_def)
qed (simp add: last_or_old_def)

lemma key_ok_delete: "key_ok b h v dead \<Longrightarrow> isNodeInfoTombstone t \<Longrightarrow> key_ok b (h @ [t]) None True"
  by (simp add: key_ok_def)

text \<open>A batch keeps only the last entry of a chain.\<close>

lemma chain_last_ok: "chain_ok v xs \<Longrightarrow> xs \<noteq> [] \<Longrightarrow> put_ok v (last xs)"
proof (induction xs arbitrary: v)
  case (Cons n xs)
  show ?case
  proof (cases "xs = []")
    case False
    with Cons have "put_ok (Some n) (last xs)" "put_ok v n" by auto
    then show ?thesis using False by (auto simp: put_ok_def split: option.splits)
  qed (use Cons in simp)
qed simp

section \<open>Compacted files\<close>

definition compacted :: "NodeInfo list \<Rightarrow> bytes list \<Rightarrow> NodeInfo list" where
  "compacted ns es = buildEntriesFromSlices (encodeNodeEntries ns) (concat es)"

lemma length_add_sorted: "length (add_sorted e m) \<le> Suc (length m)"
  and length_add_unsorted: "length (add_unsorted e m) \<le> Suc (length m)"
proof -
  have u: "length (AList.update k v m) \<le> Suc (length m)" for k and v :: NodeInfo by (induction m) auto
  have d: "length (AList.delete k m) \<le> Suc (length m)" for k
    using length_filter_le [of _ m] by (simp add: AList.delete_eq le_SucI)
  show "length (add_sorted e m) \<le> Suc (length m)" using u by (auto simp: add_sorted_def Let_def)
  show "length (add_unsorted e m) \<le> Suc (length m)" using u d by (auto simp: add_unsorted_def Let_def)
qed

lemma length_fold_add:
  "length (fold add_sorted es m) \<le> length es + length m" "length (fold add_unsorted es m) \<le> length es + length m"
proof (induction es arbitrary: m)
  case (Cons e es)
  case 1 then show ?case using Cons(1) [of "add_sorted e m"] length_add_sorted [of e m] by simp
  case 2 then show ?case using Cons(2) [of "add_unsorted e m"] length_add_unsorted [of e m] by simp
qed simp_all

lemma compacted_ok:
  assumes "file_holds z f ns es"
  shows "sorted_infos (compacted ns es)" "\<forall>n \<in> set (compacted ns es). \<not> isNodeInfoTombstone n"
    "length (compacted ns es) \<le> length ns + length es"
    "k \<noteq> [] \<Longrightarrow> info_map (compacted ns es) k = compact_value (hits k es) (info_map ns k)"
proof -
  note s = file_holds_sorted [OF assms]
  let ?b = "fold add_sorted (slice_entries (encodeNodeEntries ns)) []"
  let ?m = "fold add_unsorted (slice_entries (concat es)) ?b"
  have ok: "build_ok ?m" by (intro build_ok_fold) (simp add: build_ok_def)
  have c: "compacted ns es = sort_key ni_key (map snd ?m)" by (simp add: compacted_def buildEntriesFromSlices_def)
  have e: "slice_entries (concat es) = es" using s slice_entries_concat [of es] by (simp add: NodeEntrySize_def)
  show "sorted_infos (compacted ns es)" "\<forall>n \<in> set (compacted ns es). \<not> isNodeInfoTombstone n"
    unfolding c using sorted_built [OF ok] by simp_all
  show "length (compacted ns es) \<le> length ns + length es"
    using length_fold_add(2) [of es ?b] length_fold_add(1) [of "map encodeNodeEntry ns" "[]"]
    by (simp add: c e slice_encodeNodeEntries)
  show "info_map (compacted ns es) k = compact_value (hits k es) (info_map ns k)" if "k \<noteq> []"
    using sorted_built(2) [OF ok] map_of_fold_unsorted [OF that, of es ?b] fold_add_sorted_encoded [of ns] s by (simp add: c e)
qed

lemma compacted_no_empty_key: "file_holds z f ns es \<Longrightarrow> info_map (compacted ns es) [] = None"
  using compacted_ok(1) [of z f ns es] by (auto simp: sorted_infos_def valid_info_def map_of_eq_None_iff)

lemma compact_chain: "chain_ok v xs \<Longrightarrow> compact_value xs v = last_or_old xs v"
proof (induction xs arbitrary: v)
  case (Cons n xs)
  then have p: "put_ok v n" "chain_ok (Some n) xs" by simp_all
  have "compact_step n v = Some n"
    using p(1) merge_last [of n] by (auto simp: compact_step_def put_ok_def size_live split: option.splits)
  with Cons.IH [OF p(2)] show ?case by (simp add: compact_value_def last_or_old_def)
qed (simp add: compact_value_def last_or_old_def)

end
