(* ===== verification/Prefix_Tree_Correct.thy ===== *)
theory Prefix_Tree_Correct
  imports Prefix_Tree_Files
begin

text \<open>
  The prefix tree as a map from keys to node pointers. The relation between a tree and the map
  has a part for the bucket files, with the shared cache and the snapshots of compactions in
  flight, and a part for the global file with its index. The theory shows that the operations
  keep the relation.
\<close>

section \<open>The tree and the map\<close>

record tree_map =
  tm_map :: "bytes \<rightharpoonup> NodeInfo"
  tm_dead :: "bytes set"
  tm_files :: "bytes set"

definition good_key :: "bytes \<Rightarrow> bool" where
  "good_key k \<longleftrightarrow> k \<noteq> [] \<and> length k \<le> MaxKeySize"

definition short_key :: "bytes \<Rightarrow> bool" where
  "short_key k \<longleftrightarrow> k \<noteq> [] \<and> length k < 6"

definition keys_ok :: "NodeInfo list \<Rightarrow> bytes list \<Rightarrow> (bytes \<Rightarrow> bool) \<Rightarrow> tree_map \<Rightarrow> bool" where
  "keys_ok ns es P a \<longleftrightarrow> (\<forall>k. P k \<longrightarrow> key_ok (info_map ns k) (hits k es) (tm_map a k) (k \<in> tm_dead a))"

definition file_rel :: "zstd_ops \<Rightarrow> nat \<Rightarrow> bytes \<Rightarrow> bytes \<Rightarrow> tree_map \<Rightarrow> bool" where
  "file_rel z room f bs a \<longleftrightarrow> (\<exists>ns es. file_holds z bs ns es \<and> length ns + length es \<le> room \<and>
     keys_ok ns es (\<lambda>k. good_key k \<and> file_of k = f) a)"

definition cache_entry :: "'s PrefixTree \<Rightarrow> bytes \<Rightarrow> (bytes \<times> bytes) option" where
  "cache_entry pt f = (case pt_sharedCache pt of None \<Rightarrow> None | Some c \<Rightarrow> sc_content c (sharedCacheNamespaceFileNode, f))"

definition cache_inv :: "'s PrefixTree \<Rightarrow> bool" where
  "cache_inv pt \<longleftrightarrow> (case pt_sharedCache pt of None \<Rightarrow> True | Some c \<Rightarrow> sc_inv c)"

definition cached_ok :: "zstd_ops \<Rightarrow> bytes option \<Rightarrow> bytes \<times> bytes \<Rightarrow> bool" where
  "cached_ok z file x \<longleftrightarrow> (\<exists>bs h. file = Some bs \<and> readDecodedFileNode z bs = Inr (fst x, h, snd x))"

definition snapshot_ok :: "zstd_ops \<Rightarrow> bytes option \<Rightarrow> gcState \<Rightarrow> bool" where
  "snapshot_ok z file st \<longleftrightarrow> (\<exists>bs. file = Some bs \<and> file_slices z bs = Some (gs_sorted st, gs_unsorted st))"

definition dir_ok :: "'s PrefixTree \<Rightarrow> bool" where
  "dir_ok pt \<longleftrightarrow> tree_shape pt \<and> distinct (map fst (pt_files pt)) \<and> fst ` set (pt_files pt) \<subseteq> range file_of"

definition buckets_ok :: "zstd_ops \<Rightarrow> nat \<Rightarrow> 's PrefixTree \<Rightarrow> tree_map \<Rightarrow> bool" where
  "buckets_ok z room pt a \<longleftrightarrow> cache_inv pt \<and>
     (\<forall>f x. cache_entry pt f = Some x \<longrightarrow> f \<noteq> globalFileName \<and> cached_ok z (map_of (pt_files pt) f) x) \<and>
     (\<forall>f st. pt_gcInFlight pt f = Some st \<longrightarrow> f \<noteq> globalFileName \<and> snapshot_ok z (map_of (pt_files pt) f) st) \<and>
     (\<forall>f bs. f \<noteq> globalFileName \<longrightarrow> map_of (pt_files pt) f = Some bs \<longrightarrow> file_rel z room f bs a) \<and>
     (\<forall>k. good_key k \<longrightarrow> file_of k \<noteq> globalFileName \<longrightarrow> map_of (pt_files pt) (file_of k) = None \<longrightarrow>
        tm_map a k = None \<and> k \<notin> tm_dead a) \<and>
     (\<forall>f. f \<noteq> globalFileName \<longrightarrow> (f \<in> tm_files a \<longleftrightarrow> map_of (pt_files pt) f \<noteq> None))"

text \<open>The index of the global file is what a compaction of the file would give.\<close>

definition global_ok :: "'s tree_env \<Rightarrow> nat \<Rightarrow> 's PrefixTree \<Rightarrow> tree_map \<Rightarrow> bool" where
  "global_ok te room pt a \<longleftrightarrow> pt_globalFileOpen pt \<and> (\<exists>bs ns es ix.
     map_of (pt_files pt) globalFileName = Some bs \<and> file_holds (te_zstd te) bs ns es \<and> length ns + length es \<le> room \<and>
     keys_ok ns es short_key a \<and> pt_globalHeader pt = decodeFileNodeHeader bs \<and>
     pt_globalNodeIndex pt = Some ix \<and> (\<forall>k. gi_Get (te_index te) ix k = info_map (compacted ns es) k))"

definition no_commit :: "'s PrefixTree \<Rightarrow> bool" where
  "no_commit pt \<longleftrightarrow> pt_globalCommitDepth pt = 0 \<and> \<not> pt_globalCommitDirty pt \<and> pt_globalCommitBlockID pt = 0 \<and>
     (pt_globalCommitBatch pt = None \<or> pt_globalCommitBatch pt = Some [])"

text \<open>Entries are counted against a limit that keeps counts and compressed sizes in 32 bits.\<close>

definition env_ok :: "'s tree_env \<Rightarrow> nat \<Rightarrow> bool" where
  "env_ok te limit \<longleftrightarrow> index_laws (te_index te) \<and> zstd_laws (te_zstd te) \<and> te_nio te = no_faults \<and> limit < 2 ^ 32 \<and>
     (\<forall>ns. length ns \<le> limit \<longrightarrow> length (z_EncodeAll (te_zstd te) (encodeNodeEntries ns)) < 2 ^ 32)"

section \<open>Frames\<close>

text \<open>The fields that the operations on bucket files leave alone, and those that the global file's leave alone.\<close>

definition global_part :: "'s PrefixTree \<Rightarrow> _" where
  "global_part pt = (map_of (pt_files pt) globalFileName, pt_globalNodeIndex pt, pt_globalFileOpen pt, pt_globalHeader pt,
     pt_globalCommitDepth pt, pt_globalCommitDirty pt, pt_globalCommitBlockID pt, pt_globalCommitBatch pt)"

definition bucket_part :: "'s PrefixTree \<Rightarrow> _" where
  "bucket_part pt = ((map_of (pt_files pt))(globalFileName := None), pt_sharedCache pt, pt_gcInFlight pt)"

definition same_on :: "(bytes \<Rightarrow> bool) \<Rightarrow> tree_map \<Rightarrow> tree_map \<Rightarrow> bool" where
  "same_on P a a' \<longleftrightarrow> (\<forall>k. P k \<longrightarrow> tm_map a' k = tm_map a k \<and> (k \<in> tm_dead a' \<longleftrightarrow> k \<in> tm_dead a))"

lemma keys_ok_same: "keys_ok ns es P a \<Longrightarrow> same_on P a a' \<Longrightarrow> keys_ok ns es P a'"
  by (simp add: keys_ok_def same_on_def)

lemma file_rel_mono:
  "file_rel z room f bs a \<Longrightarrow> room \<le> room' \<Longrightarrow> same_on (\<lambda>k. good_key k \<and> file_of k = f) a a' \<Longrightarrow> file_rel z room' f bs a'"
  unfolding file_rel_def by (meson keys_ok_same le_trans)

lemma short_key_good: "short_key k \<Longrightarrow> good_key k" "short_key k \<Longrightarrow> file_of k = globalFileName"
  "good_key k \<Longrightarrow> file_of k = globalFileName \<Longrightarrow> short_key k"
  by (auto simp: short_key_def good_key_def MaxKeySize_def file_of_def split: if_splits)

lemma global_ok_frame:
  assumes "global_ok te room pt a" "global_part pt' = global_part pt" "same_on short_key a a'" "room \<le> room'"
  shows "global_ok te room' pt' a'"
proof -
  from assms(1) obtain bs ns es ix where g: "pt_globalFileOpen pt" "map_of (pt_files pt) globalFileName = Some bs"
    "file_holds (te_zstd te) bs ns es" "length ns + length es \<le> room" "keys_ok ns es short_key a"
    "pt_globalHeader pt = decodeFileNodeHeader bs" "pt_globalNodeIndex pt = Some ix"
    "\<forall>k. gi_Get (te_index te) ix k = info_map (compacted ns es) k"
    unfolding global_ok_def by blast
  have "length ns + length es \<le> room'" using g(4) assms(4) by simp
  with g assms(2) keys_ok_same [OF g(5) assms(3)] show ?thesis
    unfolding global_ok_def global_part_def by auto
qed

lemma part_files: "bucket_part pt' = bucket_part pt \<Longrightarrow> f \<noteq> globalFileName \<Longrightarrow> map_of (pt_files pt') f = map_of (pt_files pt) f"
  unfolding bucket_part_def by (metis fun_upd_other prod.inject)

lemma buckets_ok_frame:
  assumes "buckets_ok z room pt a" "bucket_part pt' = bucket_part pt" "same_on (\<lambda>k. \<not> short_key k) a a'" "room \<le> room'"
    and "tm_files a' - {globalFileName} = tm_files a - {globalFileName}"
  shows "buckets_ok z room' pt' a'"
proof -
  note f = part_files [OF assms(2)]
  have c: "cache_entry pt' = cache_entry pt" "cache_inv pt' = cache_inv pt" "pt_gcInFlight pt' = pt_gcInFlight pt"
    using assms(2) by (simp_all add: bucket_part_def cache_entry_def cache_inv_def fun_eq_iff)
  have s: "file_rel z room' g bs a'" if "g \<noteq> globalFileName" "file_rel z room g bs a" for g bs
  proof (rule file_rel_mono [OF that(2) assms(4)])
    show "same_on (\<lambda>k. good_key k \<and> file_of k = g) a a'"
      using assms(3) that(1) short_key_good(2) by (auto simp: same_on_def)
  qed
  have t: "g \<in> tm_files a' \<longleftrightarrow> g \<in> tm_files a" if "g \<noteq> globalFileName" for g using assms(5) that by blast
  have k: "tm_map a' k = tm_map a k \<and> (k \<in> tm_dead a' \<longleftrightarrow> k \<in> tm_dead a)" if "file_of k \<noteq> globalFileName" for k
    using assms(3) that short_key_good(2) by (auto simp: same_on_def)
  from assms(1) show ?thesis
    unfolding buckets_ok_def c by (simp add: f s t k cong: conj_cong)
qed

lemma field_frames [simp]:
  "dir_ok (pt\<lparr>pt_gcCount := n\<rparr>) = dir_ok pt" "global_part (pt\<lparr>pt_gcCount := n\<rparr>) = global_part pt"
  "dir_ok (pt\<lparr>pt_gcInFlight := gc\<rparr>) = dir_ok pt" "global_part (pt\<lparr>pt_gcInFlight := gc\<rparr>) = global_part pt"
  "dir_ok (pt\<lparr>pt_sharedCache := c\<rparr>) = dir_ok pt" "global_part (pt\<lparr>pt_sharedCache := c\<rparr>) = global_part pt"
  "dir_ok (finishGC f pt) = dir_ok pt" "global_part (finishGC f pt) = global_part pt"
  "pt_files (finishGC f pt) = pt_files pt" "pt_gcInFlight (finishGC f pt) = (pt_gcInFlight pt)(f := None)"
  by (simp_all add: dir_ok_def tree_shape_def global_part_def finishGC_def)

section \<open>The cache\<close>

lemma no_faults_simps [simp]:
  "nio_open no_faults f = False" "nio_write no_faults f bs = None" "nio_rename no_faults f = False"
  by (simp_all add: no_faults_def)

lemma invalidate_frame [simp]:
  "pt_files (invalidateFileNodeCache f pt) = pt_files pt" "pt_gcInFlight (invalidateFileNodeCache f pt) = pt_gcInFlight pt"
  "tree_shape (invalidateFileNodeCache f pt) = tree_shape pt" "pt_globalFileID (invalidateFileNodeCache f pt) = pt_globalFileID pt"
  "pt_compressSorted (invalidateFileNodeCache f pt) = pt_compressSorted pt"
  "dir_ok (invalidateFileNodeCache f pt) = dir_ok pt" "global_part (invalidateFileNodeCache f pt) = global_part pt"
  by (auto simp: invalidateFileNodeCache_def tree_shape_def dir_ok_def global_part_def split: option.splits)

lemma setFileNodeCache_frame [simp]:
  "pt_files (setFileNodeCache f h b pt) = pt_files pt" "pt_gcInFlight (setFileNodeCache f h b pt) = pt_gcInFlight pt"
  "tree_shape (setFileNodeCache f h b pt) = tree_shape pt" "pt_globalFileID (setFileNodeCache f h b pt) = pt_globalFileID pt"
  "dir_ok (setFileNodeCache f h b pt) = dir_ok pt" "global_part (setFileNodeCache f h b pt) = global_part pt"
  by (auto simp: setFileNodeCache_def tree_shape_def dir_ok_def global_part_def split: option.splits)

lemma invalidate_cache:
  assumes "cache_inv pt" "f \<noteq> []" "f \<noteq> pt_globalFileID pt"
  shows "cache_inv (invalidateFileNodeCache f pt)" "cache_entry (invalidateFileNodeCache f pt) = (cache_entry pt)(f := None)"
proof -
  have "cache_inv (invalidateFileNodeCache f pt) \<and> cache_entry (invalidateFileNodeCache f pt) = (cache_entry pt)(f := None)"
  proof (cases "pt_sharedCache pt")
    case (Some c)
    with assms Remove_ok [of c sharedCacheNamespaceFileNode f] show ?thesis
      by (auto simp: invalidateFileNodeCache_def cache_inv_def cache_entry_def)
  qed (use assms in \<open>auto simp: invalidateFileNodeCache_def cache_inv_def cache_entry_def\<close>)
  then show "cache_inv (invalidateFileNodeCache f pt)" "cache_entry (invalidateFileNodeCache f pt) = (cache_entry pt)(f := None)"
    by simp_all
qed

lemma set_cache:
  assumes "cache_inv pt"
  shows "cache_inv (setFileNodeCache f h b pt)"
    "cache_entry (setFileNodeCache f h b pt) g = Some x \<Longrightarrow>
       x = (h, b) \<and> g = f \<and> f \<noteq> pt_globalFileID pt \<or> cache_entry pt g = Some x"
proof -
  let ?p = "setFileNodeCache f h b pt"
  have "cache_inv ?p \<and> (cache_entry ?p g = Some x \<longrightarrow> x = (h, b) \<and> g = f \<and> f \<noteq> pt_globalFileID pt \<or> cache_entry pt g = Some x)"
  proof (cases "f = pt_globalFileID pt \<or> pt_sharedCache pt = None \<or> f = []")
    case True
    then have "?p = pt" by (auto simp: setFileNodeCache_def split: option.split)
    with assms show ?thesis by simp
  next
    case False
    then obtain c where c: "pt_sharedCache pt = Some c" "sc_inv c" "f \<noteq> []" using assms by (auto simp: cache_inv_def)
    let ?c = "cache_Add c sharedCacheNamespaceFileNode f (h, b) (estimateFileNodeCacheEntrySize f (h, b))"
    have p: "pt_sharedCache ?p = Some ?c" using False c by (auto simp: setFileNodeCache_def)
    have "sc_content ?c (sharedCacheNamespaceFileNode, g) = None \<or>
        sc_content ?c (sharedCacheNamespaceFileNode, g) = ((sc_content c)((sharedCacheNamespaceFileNode, f) \<mapsto> (h, b))) (sharedCacheNamespaceFileNode, g)"
      by (rule map_le_cases [OF Add_ok(3) [OF c(2,3)]])
    with p c(1) False Add_ok(1) [OF c(2)] show ?thesis
      by (auto simp: cache_inv_def cache_entry_def split: if_splits)
  qed
  then show "cache_inv ?p" "cache_entry ?p g = Some x \<Longrightarrow>
      x = (h, b) \<and> g = f \<and> f \<noteq> pt_globalFileID pt \<or> cache_entry pt g = Some x"
    by blast+
qed

lemma get_cache:
  assumes "cache_inv pt" "f \<noteq> []" "f \<noteq> pt_globalFileID pt"
  obtains c where "getFileNodeCache f pt = (cache_entry pt f, pt\<lparr>pt_sharedCache := c\<rparr>)"
    "cache_inv (pt\<lparr>pt_sharedCache := c\<rparr>)" "cache_entry (pt\<lparr>pt_sharedCache := c\<rparr>) = cache_entry pt"
proof (cases "pt_sharedCache pt")
  case None
  then have "pt\<lparr>pt_sharedCache := None\<rparr> = pt" by simp
  with None assms that [of None] show thesis by (simp add: getFileNodeCache_def cache_entry_def)
next
  case (Some c)
  obtain r c' where g: "cache_Get c sharedCacheNamespaceFileNode f = (r, c')" by fastforce
  have "sc_inv c" using assms(1) Some by (simp add: cache_inv_def)
  from Get_ok [OF this, of sharedCacheNamespaceFileNode f] g Some assms(2,3) that [of "Some c'"] show thesis
    by (auto simp: getFileNodeCache_def cache_inv_def cache_entry_def fun_eq_iff)
qed

section \<open>Changing one bucket file\<close>

lemma buckets_okD:
  assumes "buckets_ok z room pt a"
  shows "cache_inv pt" "cache_entry pt f = Some x \<Longrightarrow> f \<noteq> globalFileName \<and> cached_ok z (map_of (pt_files pt) f) x"
    "pt_gcInFlight pt f = Some st \<Longrightarrow> f \<noteq> globalFileName \<and> snapshot_ok z (map_of (pt_files pt) f) st"
    "f \<noteq> globalFileName \<Longrightarrow> map_of (pt_files pt) f = Some bs \<Longrightarrow> file_rel z room f bs a"
    "good_key k \<Longrightarrow> file_of k \<noteq> globalFileName \<Longrightarrow> map_of (pt_files pt) (file_of k) = None \<Longrightarrow> tm_map a k = None \<and> k \<notin> tm_dead a"
    "f \<noteq> globalFileName \<Longrightarrow> f \<in> tm_files a \<longleftrightarrow> map_of (pt_files pt) f \<noteq> None"
  using assms unfolding buckets_ok_def by blast+

lemma bucket_change:
  assumes b: "buckets_ok z room pt a" "room \<le> room'" "f \<noteq> globalFileName" "file_rel z room' f bs a'"
    and a: "same_on (\<lambda>k. file_of k \<noteq> f) a a'" "tm_files a' = insert f (tm_files a)"
    and p: "map_of (pt_files pt') = (map_of (pt_files pt))(f \<mapsto> bs)" "pt_gcInFlight pt' = (pt_gcInFlight pt)(f := None)"
    and c: "cache_inv pt'" "\<And>g x. cache_entry pt' g = Some x \<Longrightarrow> g \<noteq> f \<and> cache_entry pt g = Some x \<or> g = f \<and> cached_ok z (Some bs) x"
  shows "buckets_ok z room' pt' a'"
proof -
  note d = buckets_okD [OF b(1)]
  have "g \<noteq> globalFileName \<and> cached_ok z (map_of (pt_files pt') g) x" if "cache_entry pt' g = Some x" for g x
    using c(2) [OF that] d(2) [of g x] b(3) by (auto simp: p(1))
  moreover have "g \<noteq> globalFileName \<and> snapshot_ok z (map_of (pt_files pt') g) st" if "pt_gcInFlight pt' g = Some st" for g st
    using that d(3) [of g st] by (auto simp: p split: if_splits)
  moreover have "file_rel z room' g bs' a'" if "g \<noteq> globalFileName" "map_of (pt_files pt') g = Some bs'" for g bs'
  proof (cases "g = f")
    case True
    with that b(4) show ?thesis by (simp add: p(1))
  next
    case False
    with that d(4) [of g bs'] have "file_rel z room g bs' a" by (simp add: p(1))
    then show ?thesis by (rule file_rel_mono [OF _ b(2)]) (use a(1) False in \<open>auto simp: same_on_def\<close>)
  qed
  moreover have "tm_map a' k = None \<and> k \<notin> tm_dead a'"
    if "good_key k" "file_of k \<noteq> globalFileName" "map_of (pt_files pt') (file_of k) = None" for k
    using that d(5) [of k] a(1) by (auto simp: p(1) same_on_def split: if_splits)
  moreover have "g \<in> tm_files a' \<longleftrightarrow> map_of (pt_files pt') g \<noteq> None" if "g \<noteq> globalFileName" for g
    using that d(6) [of g] by (simp add: p(1) a(2))
  ultimately show ?thesis using c(1) unfolding buckets_ok_def by blast
qed

section \<open>Compaction\<close>

lemma keys_ok_compacted:
  assumes "file_holds z bs ns es" "keys_ok ns es P a" "\<And>k. P k \<Longrightarrow> k \<noteq> []"
  shows "keys_ok (compacted ns es) [] P a"
proof (unfold keys_ok_def, intro allI impI)
  fix k assume k: "P k"
  with assms(2) have "key_ok (info_map ns k) (hits k es) (tm_map a k) (k \<in> tm_dead a)" by (simp add: keys_ok_def)
  from key_ok_compacted [OF this] key_ok_compact_value [OF this] compacted_ok(4) [OF assms(1) assms(3) [OF k]]
  show "key_ok (info_map (compacted ns es) k) (hits k []) (tm_map a k) (k \<in> tm_dead a)" by simp
qed

lemma encoded_file:
  assumes "env_ok te limit" "sorted_infos ns" "\<forall>n \<in> set ns. \<not> isNodeInfoTombstone n" "length ns \<le> limit"
    and "encodeNodeFilePayload (te_zstd te) (new_header\<lparr>fh_SortedEntryCount := w\<rparr>) (encodeNodeEntries ns) [] c = (payload, h)"
  shows "file_holds (te_zstd te) (encodeFileNodeAndPayload h payload) ns []"
    "cached_ok (te_zstd te) (Some (encodeFileNodeAndPayload h payload)) (encodeFileNodeHeader h, encodeNodeEntries ns)"
    "decodeFileNodeHeader (encodeFileNodeAndPayload h payload) = h"
proof -
  show f: "file_holds (te_zstd te) (encodeFileNodeAndPayload h payload) ns []"
    using assms(1,4) by (intro file_holds_new [OF _ assms(2,3) _ _ assms(5)]) (auto simp: env_ok_def)
  have r: "length (fh_Reserved h) = 8"
    using assms(5) by (auto simp: encodeNodeFilePayload_def Let_def split: if_splits)
  then have "take FileNodeHeaderSize (encodeFileNodeAndPayload h payload) = encodeFileNodeHeader h"
    by (simp add: encodeFileNodeAndPayload_def)
  then show "cached_ok (te_zstd te) (Some (encodeFileNodeAndPayload h payload)) (encodeFileNodeHeader h, encodeNodeEntries ns)"
    using readDecoded_holds [OF f] unfolding cached_ok_def by (metis append_Nil2 concat.simps(1) fst_conv snd_conv)
  show "decodeFileNodeHeader (encodeFileNodeAndPayload h payload) = h"
    using decode_encode_header [OF r, of payload] decode_encode_header [OF r, of "[]"] by (simp add: encodeFileNodeAndPayload_def)
qed

lemma replace_file_ok:
  assumes "dir_ok pt"
  shows "replace_file no_faults f fileData pt = (None, pt\<lparr>pt_files := AList.update f fileData (pt_files pt)\<rparr>)"
proof -
  have "tmp_name f \<notin> fst ` set (pt_files pt)" using assms by (auto simp: dir_ok_def)
  then have "AList.delete (tmp_name f) (pt_files pt) = pt_files pt" by (force simp: AList.delete_eq filter_id_conv)
  then show ?thesis by (simp add: replace_file_def)
qed

lemma dir_ok_update:
  assumes "dir_ok pt" "tree_shape pt'" "pt_files pt' = AList.update f bs (pt_files pt)" "f \<in> range file_of"
  shows "dir_ok pt'"
  using assms by (auto simp: dir_ok_def AList.distinct_update dom_update)

lemma holds_slices:
  assumes "file_holds z bs ns es" "file_slices z bs = Some (s, u)"
  shows "s = encodeNodeEntries ns" "u = concat es"
  using file_holds_slices [OF assms(1)] assms(2) by simp_all

lemma compact_bucket:
  assumes env: "env_ok te limit" "room \<le> limit" and d: "dir_ok pt" "buckets_ok (te_zstd te) room pt a"
    and f: "f \<noteq> globalFileName" "snapshot_ok (te_zstd te) (map_of (pt_files pt) f) st"
  obtains pt' where "compactFileFromState te f st pt = (None, pt')" "dir_ok pt'" "global_part pt' = global_part pt"
    "pt_gcInFlight pt' = pt_gcInFlight pt" "buckets_ok (te_zstd te) room (finishGC f pt') a"
    "dom (map_of (pt_files pt')) = dom (map_of (pt_files pt))"
proof -
  let ?z = "te_zstd te"
  from f(2) obtain bs where bs: "map_of (pt_files pt) f = Some bs" "file_slices ?z bs = Some (gs_sorted st, gs_unsorted st)"
    by (auto simp: snapshot_ok_def)
  note b = buckets_okD [OF d(2)]
  have f0: "f \<in> range file_of" "f \<noteq> []" "f \<noteq> pt_globalFileID pt"
  proof -
    show r: "f \<in> range file_of" using bs(1) d(1) by (force simp: dir_ok_def dest: map_of_SomeD)
    then show "f \<noteq> []" using names_nonempty(3) by (metis imageE)
    show "f \<noteq> pt_globalFileID pt" using d(1) f(1) by (simp add: dir_ok_def tree_shape_def)
  qed
  from b(4) [OF f(1) bs(1)] obtain ns es where h: "file_holds ?z bs ns es" "length ns + length es \<le> room"
    "keys_ok ns es (\<lambda>k. good_key k \<and> file_of k = f) a"
    by (auto simp: file_rel_def)
  let ?ns = "compacted ns es"
  have e: "buildEntriesFromSlices (gs_sorted st) (gs_unsorted st) = ?ns"
    using holds_slices [OF h(1) bs(2)] by (simp add: compacted_def)
  let ?p = "invalidateFileNodeCache f pt"
  obtain payload hd where enc: "encodeNodeFilePayload ?z (new_header\<lparr>fh_SortedEntryCount := word_of_nat (length ?ns)\<rparr>)
      (encodeNodeEntries ?ns) [] (pt_compressSorted pt) = (payload, hd)" by fastforce
  have len: "length ?ns \<le> room" "length ?ns \<le> limit" using compacted_ok(3) [OF h(1)] h(2) env(2) by simp_all
  note new = encoded_file [OF env(1) compacted_ok(1,2) [OF h(1)] len(2) enc]
  let ?bs = "encodeFileNodeAndPayload hd payload"
  let ?q = "?p\<lparr>pt_files := AList.update f ?bs (pt_files ?p)\<rparr>"
  let ?pt = "(setFileNodeCache f (encodeFileNodeHeader hd) (encodeNodeEntries ?ns) ?q)\<lparr>pt_gcCount := pt_gcCount ?q + 1\<rparr>"
  have io: "te_nio te = no_faults" using env(1) by (simp add: env_ok_def)
  have comp: "compactFileFromState te f st pt = (None, ?pt)"
    unfolding compactFileFromState_def Let_def e io
    using enc replace_file_ok [of ?p f ?bs] d(1) f0(3) by (simp add: invalidate_frame(1))
  have "tree_shape ?p" using d(1) by (simp add: dir_ok_def)
  then have "tree_shape ?q" by (simp add: tree_shape_def)
  then have dq: "dir_ok ?q" by (rule dir_ok_update [OF d(1) _ _ f0(1)]) simp
  have inv: "cache_inv ?p" "cache_entry ?p = (cache_entry pt)(f := None)" using invalidate_cache [OF b(1) f0(2,3)] by simp_all
  have q: "cache_inv ?q" "cache_entry ?q = (cache_entry pt)(f := None)"
    using inv by (simp_all add: cache_inv_def cache_entry_def fun_eq_iff)
  have rel: "file_rel ?z room f ?bs a"
    unfolding file_rel_def
    using new(1) len(1) keys_ok_compacted [OF h(1,3)] by (intro exI [of _ ?ns] exI [of _ "[]"]) (auto simp: good_key_def)
  have files: "pt_files ?pt = AList.update f ?bs (pt_files pt)" by simp
  show thesis
  proof (rule that [OF comp])
    show "dir_ok ?pt" using dq by simp
    show "global_part ?pt = global_part pt"
      using f(1) setFileNodeCache_frame(6) [of f "encodeFileNodeHeader hd" "encodeNodeEntries ?ns" ?q] invalidate_frame(7) [of f pt]
      by (simp add: global_part_def update_conv')
    show "pt_gcInFlight ?pt = pt_gcInFlight pt" by simp
    show "dom (map_of (pt_files ?pt)) = dom (map_of (pt_files pt))"
      unfolding files using bs(1) by (auto simp: update_conv')
    show "buckets_ok ?z room (finishGC f ?pt) a"
    proof (rule bucket_change [OF d(2) order_refl f(1) rel])
      show "tm_files a = insert f (tm_files a)" using b(6) [OF f(1)] bs(1) by auto
      show "map_of (pt_files (finishGC f ?pt)) = (map_of (pt_files pt))(f \<mapsto> ?bs)"
        by (simp add: finishGC_def update_conv')
      have c: "cache_entry (finishGC f ?pt) = cache_entry (setFileNodeCache f (encodeFileNodeHeader hd) (encodeNodeEntries ?ns) ?q)"
        "cache_inv (finishGC f ?pt) = cache_inv (setFileNodeCache f (encodeFileNodeHeader hd) (encodeNodeEntries ?ns) ?q)"
        by (simp_all add: finishGC_def cache_entry_def cache_inv_def fun_eq_iff)
      show "cache_inv (finishGC f ?pt)" unfolding c using set_cache(1) [OF q(1)] .
      show "g \<noteq> f \<and> cache_entry pt g = Some x \<or> g = f \<and> cached_ok ?z (Some ?bs) x"
        if "cache_entry (finishGC f ?pt) g = Some x" for g x
        using set_cache(2) [OF q(1) that [unfolded c]] new(2) q(2) by (auto split: if_splits)
    qed (simp_all add: same_on_def finishGC_def)
  qed
qed

lemma processGCJob_ok:
  assumes env: "env_ok te limit" "room \<le> limit" and d: "dir_ok pt" "buckets_ok (te_zstd te) room pt a"
  shows "dir_ok (processGCJob te f pt)" "buckets_ok (te_zstd te) room (processGCJob te f pt) a"
    "global_part (processGCJob te f pt) = global_part pt" "pt_gcInFlight (processGCJob te f pt) = (pt_gcInFlight pt)(f := None)"
    "dom (map_of (pt_files (processGCJob te f pt))) = dom (map_of (pt_files pt))"
proof -
  let ?p = "processGCJob te f pt"
  have "dir_ok ?p \<and> buckets_ok (te_zstd te) room ?p a \<and> global_part ?p = global_part pt \<and>
      pt_gcInFlight ?p = (pt_gcInFlight pt)(f := None) \<and> dom (map_of (pt_files ?p)) = dom (map_of (pt_files pt))"
  proof (cases "pt_gcInFlight pt f")
    case None
    with d show ?thesis by (simp add: processGCJob_def fun_upd_idem)
  next
    case (Some st)
    have s: "f \<noteq> globalFileName" "snapshot_ok (te_zstd te) (map_of (pt_files pt) f) st"
      using buckets_okD(3) [OF d(2) Some] by simp_all
    obtain pt' where "compactFileFromState te f st pt = (None, pt')" "dir_ok pt'" "global_part pt' = global_part pt"
      "pt_gcInFlight pt' = pt_gcInFlight pt" "buckets_ok (te_zstd te) room (finishGC f pt') a"
      "dom (map_of (pt_files pt')) = dom (map_of (pt_files pt))"
      by (rule compact_bucket [OF env d s])
    with Some show ?thesis by (simp add: processGCJob_def)
  qed
  then show "dir_ok ?p" "buckets_ok (te_zstd te) room ?p a" "global_part ?p = global_part pt"
    "pt_gcInFlight ?p = (pt_gcInFlight pt)(f := None)" "dom (map_of (pt_files ?p)) = dom (map_of (pt_files pt))"
    by simp_all
qed

lemma buckets_ok_cache:
  assumes "buckets_ok z room pt a" "pt_files pt' = pt_files pt" "pt_gcInFlight pt' = pt_gcInFlight pt" "cache_inv pt'"
    and "\<And>f x. cache_entry pt' f = Some x \<Longrightarrow> f \<noteq> globalFileName \<and> cached_ok z (map_of (pt_files pt) f) x"
  shows "buckets_ok z room pt' a"
  using assms unfolding buckets_ok_def by simp

text \<open>A mutation of a bucket file first waits for its compaction and drops its cached content.\<close>

lemma ready_for_change:
  fixes pt :: "'s PrefixTree"
  defines "ready \<equiv> \<lambda>te f (pt :: 's PrefixTree). invalidateFileNodeCache f (beginFileMutation te f pt)"
  assumes env: "env_ok te limit" "room \<le> limit" and d: "dir_ok pt" "buckets_ok (te_zstd te) room pt a" "f \<noteq> globalFileName" "f \<noteq> []"
  shows "dir_ok (ready te f pt)" "buckets_ok (te_zstd te) room (ready te f pt) a" "global_part (ready te f pt) = global_part pt"
    "pt_gcInFlight (ready te f pt) f = None" "cache_entry (ready te f pt) f = None"
    "dom (map_of (pt_files (ready te f pt))) = dom (map_of (pt_files pt))"
proof -
  let ?p = "beginFileMutation te f pt"
  have p: "?p = processGCJob te f pt" using d(4) by (simp add: beginFileMutation_def)
  note g = processGCJob_ok [OF env d(1,2), of f, folded p]
  have f: "f \<noteq> pt_globalFileID ?p" using g(1) d(3) by (simp add: dir_ok_def tree_shape_def)
  note c = invalidate_cache [OF buckets_okD(1) [OF g(2)] d(4) f]
  show "dir_ok (ready te f pt)" "global_part (ready te f pt) = global_part pt" "pt_gcInFlight (ready te f pt) f = None"
    "cache_entry (ready te f pt) f = None" "dom (map_of (pt_files (ready te f pt))) = dom (map_of (pt_files pt))"
    unfolding ready_def using g c by simp_all
  show "buckets_ok (te_zstd te) room (ready te f pt) a"
    unfolding ready_def using c buckets_okD(2) [OF g(2)]
    by (intro buckets_ok_cache [OF g(2)]) (auto split: if_splits)
qed

section \<open>Appending to bucket files\<close>

definition entries_of :: "NodeInfo list \<Rightarrow> u64 \<Rightarrow> bytes list" where
  "entries_of es b = map encodeNodeEntry es @ (if b = 0 then [] else [commit_tag b])"

definition written :: "bytes \<Rightarrow> NodeInfo list \<Rightarrow> NodeInfo list" where
  "written k es = map stored_info (filter (\<lambda>n. take MaxKeySize (ni_key n) = k) es)"

definition put_guard :: "NodeInfo list \<Rightarrow> tree_map \<Rightarrow> bool" where
  "put_guard es a \<longleftrightarrow> (\<forall>n \<in> set es. take MaxKeySize (ni_key n) \<notin> tm_dead a \<and>
     chain_ok (tm_map a (take MaxKeySize (ni_key n))) (written (take MaxKeySize (ni_key n)) es))"

definition abs_put :: "NodeInfo list \<Rightarrow> tree_map \<Rightarrow> tree_map" where
  "abs_put es a = a\<lparr>tm_map := (\<lambda>k. last_or_old (written k es) (tm_map a k)), tm_files := tm_files a \<union> (file_of \<circ> ni_key) ` set es\<rparr>"

lemma entries_of_length: "e \<in> set (entries_of es b) \<Longrightarrow> length e = 65" "length (entries_of es b) \<le> length es + 1"
  by (auto simp: entries_of_def split: if_splits)

lemma concat_entries: "appendNodeCommitTag (encodeNodeEntries es) b = concat (entries_of es b)"
  "appendNodeCommitTag (concat (map encodeNodeEntry es)) b = concat (entries_of es b)"
  by (simp_all add: appendNodeCommitTag_def entries_of_def encodeNodeEntries_def)

lemma hits_entries:
  assumes "\<forall>n \<in> set es. ni_key n \<noteq> []"
  shows "hits k (entries_of es b) = written k es"
proof -
  have "b \<noteq> 0 \<Longrightarrow> isNodeCommitTagEntry (commit_tag b)" by (simp add: isNodeCommitTagEntry_def commit_tag_recognised)
  then have "hits k (if b = 0 then [] else [commit_tag b]) = []" by simp
  moreover have "hits k (map encodeNodeEntry es) = written k es"
    using assms by (induction es) (auto simp: written_def entry_not_tag decode_encode_entry stored_info_def)
  ultimately show ?thesis by (simp add: entries_of_def)
qed

lemma keys_ok_append:
  assumes "keys_ok ns es P a" "put_guard new a" "\<forall>n \<in> set new. ni_key n \<noteq> []"
  shows "keys_ok ns (es @ entries_of new b) P (abs_put new a)"
proof (unfold keys_ok_def, intro allI impI)
  fix k assume "P k"
  with assms(1) have k: "key_ok (info_map ns k) (hits k es) (tm_map a k) (k \<in> tm_dead a)" by (simp add: keys_ok_def)
  show "key_ok (info_map ns k) (hits k (es @ entries_of new b)) (tm_map (abs_put new a) k) (k \<in> tm_dead (abs_put new a))"
  proof (cases "written k new = []")
    case True
    with k show ?thesis by (simp add: hits_entries [OF assms(3)] abs_put_def last_or_old_def)
  next
    case False
    then obtain n where "n \<in> set new" "take MaxKeySize (ni_key n) = k" by (auto simp: written_def filter_empty_conv)
    with assms(2) have "k \<notin> tm_dead a" "chain_ok (tm_map a k) (written k new)" by (auto simp: put_guard_def)
    with key_ok_chain [of _ _ _ "written k new"] k show ?thesis by (simp add: hits_entries [OF assms(3)] abs_put_def)
  qed
qed

lemma append_bucket:
  assumes env: "env_ok te limit" "room \<le> limit" and d: "dir_ok pt" "buckets_ok (te_zstd te) room pt a"
    and f: "f \<noteq> globalFileName" "new \<noteq> []" "\<forall>n \<in> set new. ni_key n \<noteq> [] \<and> file_of (ni_key n) = f"
    and g: "put_guard new a" "room + length new + 1 \<le> room'"
  obtains pt' where "appendFileNodeEntriesWithBlockID te f new b pt = (None, pt')" "dir_ok pt'"
    "buckets_ok (te_zstd te) room' pt' (abs_put new a)" "global_part pt' = global_part pt"
proof -
  let ?z = "te_zstd te" and ?q = "invalidateFileNodeCache f (beginFileMutation te f pt)" and ?xs = "entries_of new b"
  obtain n where n: "n \<in> set new" using f(2) by (cases new) auto
  then have f0: "f \<in> range file_of" "f \<noteq> []" using f(3) names_nonempty(3) by (metis rangeI, metis)
  note r = ready_for_change [OF env d f(1) f0(2)]
  have io: "te_nio te = no_faults" using env(1) by (simp add: env_ok_def)
  have x: "\<forall>e \<in> set ?xs. length e = 65" "length ?xs \<le> length new + 1" "\<forall>n \<in> set new. ni_key n \<noteq> []"
    using entries_of_length f(3) by auto
  define bs where "bs = (case map_of (pt_files ?q) f of None \<Rightarrow> encodeFileNodeAndPayload new_header (concat ?xs) | Some old \<Rightarrow> old @ concat ?xs)"
  define pt' where "pt' = ?q\<lparr>pt_files := AList.update f bs (pt_files ?q)\<rparr>"
  note b = buckets_okD [OF r(2)]
  have rel: "file_rel ?z room' f bs (abs_put new a)"
  proof (cases "map_of (pt_files ?q) f")
    case None
    have "keys_ok [] [] (\<lambda>k. good_key k \<and> file_of k = f) a"
      using b(5) None f(1) by (auto simp: keys_ok_def key_ok_def seq_of_def last_or_old_def)
    from keys_ok_append [OF this g(1) x(3), of b] file_holds_initial [OF x(1), of ?z] g(2) x(2) None show ?thesis
      unfolding file_rel_def by (intro exI [of _ "[]"] exI [of _ ?xs]) (simp add: bs_def)
  next
    case (Some old)
    from b(4) [OF f(1) Some] obtain ns es where h: "file_holds ?z old ns es" "length ns + length es \<le> room"
      "keys_ok ns es (\<lambda>k. good_key k \<and> file_of k = f) a" by (auto simp: file_rel_def)
    from keys_ok_append [OF h(3) g(1) x(3), of b] file_holds_append [OF h(1) x(1)] h(2) g(2) x(2) Some show ?thesis
      unfolding file_rel_def by (intro exI [of _ ns] exI [of _ "es @ ?xs"]) (simp add: bs_def)
  qed
  have app: "appendFileNodeEntriesWithBlockID te f new b pt = (None, pt')"
  proof (cases "map_of (pt_files ?q) f")
    case None
    with f(2) show ?thesis
      by (simp add: appendFileNodeEntriesWithBlockID_def io write_end_def update_conv' pt'_def bs_def concat_entries Let_def)
  next
    case (Some old)
    from b(4) [OF f(1) Some] have "FileNodeHeaderSize \<le> length old" by (auto simp: file_rel_def dest: file_holds_nonempty)
    moreover have "0 < FileNodeHeaderSize" by (simp add: FileNodeHeaderSize_def)
    ultimately have "old \<noteq> []" "\<not> length old < FileNodeHeaderSize" by auto
    with Some f(2) show ?thesis
      by (simp add: appendFileNodeEntriesWithBlockID_def io write_end_def update_conv' pt'_def bs_def concat_entries Let_def)
  qed
  have sh: "tree_shape pt'" using r(1) by (simp add: pt'_def dir_ok_def tree_shape_def)
  show thesis
  proof (rule that [OF app])
    show "dir_ok pt'" by (rule dir_ok_update [OF r(1) sh _ f0(1)]) (simp add: pt'_def)
    show "global_part pt' = global_part pt" unfolding r(3) [symmetric] using f(1) by (simp add: pt'_def global_part_def update_conv')
    show "buckets_ok ?z room' pt' (abs_put new a)"
    proof (rule bucket_change [OF r(2) _ f(1) rel])
      show "same_on (\<lambda>k. file_of k \<noteq> f) a (abs_put new a)"
      proof -
        have "written k new = []" if "file_of k \<noteq> f" for k
          using that f(3) file_of_lookup_key(2) by (auto simp: written_def filter_empty_conv)
        then show ?thesis by (simp add: same_on_def abs_put_def last_or_old_def)
      qed
      show "tm_files (abs_put new a) = insert f (tm_files a)" using n f(3) by (force simp: abs_put_def)
      have c: "cache_inv pt' = cache_inv ?q" "cache_entry pt' = cache_entry ?q" by (simp_all add: pt'_def cache_inv_def cache_entry_def fun_eq_iff)
      show "cache_inv pt'" unfolding c by (rule b(1))
      show "g \<noteq> f \<and> cache_entry ?q g = Some x \<or> g = f \<and> cached_ok ?z (Some bs) x" if "cache_entry pt' g = Some x" for g x
        using that r(5) unfolding c by auto
      show "pt_gcInFlight pt' = (pt_gcInFlight ?q)(f := None)" using r(4) by (simp add: pt'_def fun_upd_idem)
    qed (use g(2) in \<open>simp_all add: pt'_def update_conv'\<close>)
  qed
qed

lemma last_or_old_append: "last_or_old (xs @ ys) v = last_or_old ys (last_or_old xs v)"
  by (simp add: last_or_old_def)

lemma written_append: "written k (xs @ ys) = written k xs @ written k ys"
  by (simp add: written_def)

lemma abs_put_append: "abs_put ys (abs_put xs a) = abs_put (xs @ ys) a"
  by (simp add: abs_put_def written_append last_or_old_append image_Un Un_assoc)

lemma abs_put_Nil [simp]: "abs_put [] a = a"
  by (simp add: abs_put_def written_def last_or_old_def)

lemma written_elsewhere: "\<forall>n \<in> set es. file_of (ni_key n) = f \<Longrightarrow> file_of k \<noteq> f \<Longrightarrow> written k es = []"
  using file_of_lookup_key(2) by (auto simp: written_def filter_empty_conv)

lemma put_guard_elsewhere:
  assumes "put_guard es a" "\<forall>n \<in> set es. file_of (ni_key n) = f" "\<forall>n \<in> set es'. file_of (ni_key n) = f'" "f \<noteq> f'"
  shows "put_guard es (abs_put es' a)"
proof -
  have "tm_map (abs_put es' a) (take MaxKeySize (ni_key n)) = tm_map a (take MaxKeySize (ni_key n))" if "n \<in> set es" for n
    using written_elsewhere [OF assms(3), of "take MaxKeySize (ni_key n)"] assms(2,4) that
    by (simp add: abs_put_def last_or_old_def)
  with assms(1) show ?thesis by (simp add: put_guard_def) (simp add: abs_put_def)
qed

definition group_ok :: "tree_map \<Rightarrow> bytes \<times> NodeInfo list \<Rightarrow> bool" where
  "group_ok a g \<longleftrightarrow> fst g \<noteq> globalFileName \<and> snd g \<noteq> [] \<and> (\<forall>n \<in> set (snd g). ni_key n \<noteq> [] \<and> file_of (ni_key n) = fst g) \<and>
     put_guard (snd g) a"

lemma append_groups_ok:
  assumes "env_ok te limit" "room + (\<Sum>g \<leftarrow> groups. length (snd g) + 1) \<le> limit" "dir_ok pt" "buckets_ok (te_zstd te) room pt a"
    and "distinct (map fst groups)" "\<forall>g \<in> set groups. group_ok a g"
  shows "\<exists>pt'. append_groups te b groups pt = (None, pt') \<and> dir_ok pt' \<and> global_part pt' = global_part pt \<and>
    buckets_ok (te_zstd te) (room + (\<Sum>g \<leftarrow> groups. length (snd g) + 1)) pt' (abs_put (concat (map snd groups)) a)"
  using assms
proof (induction groups arbitrary: pt a room)
  case (Cons g groups)
  obtain f es where g: "g = (f, es)" by fastforce
  have o: "group_ok a (f, es)" "room \<le> limit" using Cons.prems(2,6) g by simp_all
  obtain pt1 where p1: "appendFileNodeEntriesWithBlockID te f es b pt = (None, pt1)" "dir_ok pt1"
    "buckets_ok (te_zstd te) (room + length es + 1) pt1 (abs_put es a)" "global_part pt1 = global_part pt"
    by (rule append_bucket [OF Cons.prems(1) o(2) Cons.prems(3,4), of f es "room + length es + 1" b]) (use o(1) in \<open>auto simp: group_ok_def\<close>)
  have guards: "\<forall>h \<in> set groups. group_ok (abs_put es a) h"
  proof
    fix h assume h: "h \<in> set groups"
    then have ho: "group_ok a h" "fst h \<noteq> f" using Cons.prems(5,6) g by (auto simp: image_iff)
    then show "group_ok (abs_put es a) h"
      using put_guard_elsewhere [of "snd h" a "fst h" es f] o(1) by (auto simp: group_ok_def)
  qed
  let ?room = "room + length es + 1 + (\<Sum>g \<leftarrow> groups. length (snd g) + 1)"
  have sum: "?room = room + (\<Sum>g \<leftarrow> g # groups. length (snd g) + 1)" using g by simp
  have "?room \<le> limit" "distinct (map fst groups)" using Cons.prems(2,5) unfolding sum by simp_all
  from Cons.IH [OF Cons.prems(1) this(1) p1(2,3) this(2) guards] obtain pt2 where p2:
    "append_groups te b groups pt1 = (None, pt2)" "dir_ok pt2" "global_part pt2 = global_part pt1"
    "buckets_ok (te_zstd te) ?room pt2 (abs_put (concat (map snd groups)) (abs_put es a))"
    by blast
  have "abs_put (concat (map snd (g # groups))) a = abs_put (concat (map snd groups)) (abs_put es a)"
    by (simp add: g abs_put_append)
  with p1(1,4) p2 g show ?case unfolding sum [symmetric] by simp
qed simp

section \<open>Deletion and lookup in bucket files\<close>

lemma linear_find_last:
  "map_option decodeNodeEntry (linear_find k (rev es)) = (if hits k es = [] then None else Some (last (hits k es)))"
  by (induction es rule: rev_induct) (auto simp: linear_find_def)

lemma contains_key_iff:
  assumes "file_holds z bs ns es" "key_ok (info_map ns k) (hits k es) v dead" "k = nodeLookupKey key"
  shows "nodeFileContainsKey (encodeNodeEntries ns) (concat es) key \<longleftrightarrow> v \<noteq> None"
proof -
  note s = file_holds_sorted [OF assms(1)]
  have e: "slice_entries (concat es) = es" using s slice_entries_concat [of es] by simp
  have i: "nodeLookupKey (nodeLookupKey key) = nodeLookupKey key" by (simp add: nodeLookupKey_def)
  have live: "\<not> isNodeInfoTombstone n" if "info_map ns k = Some n" for n
    using that s by (auto dest!: map_of_SomeD)
  have "nodeFileContainsKey (encodeNodeEntries ns) (concat es) key \<longleftrightarrow>
      (if hits k es = [] then info_map ns k \<noteq> None else \<not> isNodeInfoTombstone (last (hits k es)))"
    using linear_find_last [of k es] sorted_search [of ns k] s live
    by (auto simp: nodeFileContainsKey_def e i assms(3) Let_def split: option.splits if_splits)
  also have "\<dots> \<longleftrightarrow> v \<noteq> None"
    using assms(2)
    by (cases "hits k es = []")
      (auto simp: key_ok_def last_or_old_def seq_of_def size_live split: if_splits option.splits)
  finally show ?thesis .
qed

definition abs_remove :: "bytes \<Rightarrow> tree_map \<Rightarrow> tree_map" where
  "abs_remove k a = a\<lparr>tm_map := (tm_map a)(k := None), tm_dead := insert k (tm_dead a)\<rparr>"

lemma keys_ok_tombstone:
  assumes "keys_ok ns es P a" "key \<noteq> []"
  shows "keys_ok ns (es @ [encodeNodeEntry (tombstoneNodeInfo key)]) P (abs_remove (nodeLookupKey key) a)"
proof -
  have t: "ni_key (tombstoneNodeInfo key) = key" "isNodeInfoTombstone (stored_info (tombstoneNodeInfo key))"
    by (simp_all add: tombstoneNodeInfo_def isNodeInfoTombstone_def zero_info_def stored_info_def)
  have h: "hits k [encodeNodeEntry (tombstoneNodeInfo key)] = (if k = nodeLookupKey key then [stored_info (tombstoneNodeInfo key)] else [])" for k
    using assms(2) entry_not_tag [of "tombstoneNodeInfo key"] t(1)
    by (simp add: decode_encode_entry stored_info_def nodeLookupKey_take)
  show ?thesis
    unfolding keys_ok_def
  proof (intro allI impI)
    fix k assume "P k"
    with assms(1) have k: "key_ok (info_map ns k) (hits k es) (tm_map a k) (k \<in> tm_dead a)" by (simp add: keys_ok_def)
    show "key_ok (info_map ns k) (hits k (es @ [encodeNodeEntry (tombstoneNodeInfo key)]))
        (tm_map (abs_remove (nodeLookupKey key) a) k) (k \<in> tm_dead (abs_remove (nodeLookupKey key) a))"
      unfolding hits_simps(2) h using k key_ok_delete [OF k t(2)] by (cases "k = nodeLookupKey key") (simp_all add: abs_remove_def)
  qed
qed

lemma good_lookup_key: "key \<noteq> [] \<Longrightarrow> good_key (nodeLookupKey key)"
  by (auto simp: good_key_def nodeLookupKey_def MaxKeySize_def)

definition abs_delete :: "bytes \<Rightarrow> tree_map \<Rightarrow> (node_error + bool) \<times> tree_map" where
  "abs_delete key a =
     (if key = [] then (Inl EmptyKey, a)
      else if 6 \<le> length key \<and> file_of key \<notin> tm_files a then (Inl NodeFileMissing, a)
      else if tm_map a (nodeLookupKey key) = None then (Inr False, a)
      else (Inr True, abs_remove (nodeLookupKey key) a))"

lemma delete_bucket:
  assumes env: "env_ok te limit" "room + 1 \<le> limit" and d: "dir_ok pt" "buckets_ok (te_zstd te) room pt a"
    and k: "6 \<le> length key"
  shows "\<exists>pt'. deleteFromFileNode te (file_of key) key pt = (fst (abs_delete key a), pt') \<and> dir_ok pt' \<and>
    global_part pt' = global_part pt \<and> buckets_ok (te_zstd te) (room + 1) pt' (snd (abs_delete key a))"
proof -
  let ?z = "te_zstd te" and ?f = "file_of key" and ?k = "nodeLookupKey key"
  let ?q = "invalidateFileNodeCache ?f (beginFileMutation te ?f pt)"
  have f: "?f \<noteq> globalFileName" "key \<noteq> []" using k by (auto simp: file_of_def)
  have gl: "?f \<noteq> pt_globalFileID pt" using d(1) f(1) by (simp add: dir_ok_def tree_shape_def)
  have rl: "room \<le> limit" using env(2) by simp
  note r = ready_for_change [OF env(1) rl d f(1) names_nonempty(3)]
  note b = buckets_okD [OF r(2)]
  have io: "te_nio te = no_faults" using env(1) by (simp add: env_ok_def)
  have mono: "buckets_ok ?z (room + 1) ?q a" by (rule buckets_ok_frame [OF r(2)]) (simp_all add: same_on_def)
  show ?thesis
  proof (cases "map_of (pt_files ?q) ?f")
    case None
    then have "?f \<notin> tm_files a" using b(6) [OF f(1)] by simp
    with None r(1,3) mono k f(2) show ?thesis by (simp add: deleteFromFileNode_def gl io abs_delete_def Let_def)
  next
    case (Some bs)
    then have tf: "?f \<in> tm_files a" using b(6) [OF f(1)] by simp
    from b(4) [OF f(1) Some] obtain ns es where h: "file_holds ?z bs ns es" "length ns + length es \<le> room"
      "keys_ok ns es (\<lambda>k. good_key k \<and> file_of k = ?f) a" by (auto simp: file_rel_def)
    have ko: "key_ok (info_map ns ?k) (hits ?k es) (tm_map a ?k) (?k \<in> tm_dead a)"
      using h(3) good_lookup_key [OF f(2)] by (simp add: keys_ok_def)
    obtain hd payload where dec: "readWholeNodeFile bs = Inr (hd, payload)"
      "decodeNodeFilePayload ?z hd payload = Inr (encodeNodeEntries ns @ concat es, encodeNodeEntries ns, concat es)"
      using file_holds_decode [OF h(1)] by metis
    note has = contains_key_iff [OF h(1) ko refl]
    show ?thesis
    proof (cases "tm_map a ?k = None")
      case True
      with Some dec has r(1,3) mono k f(2) tf show ?thesis by (simp add: deleteFromFileNode_def gl io abs_delete_def Let_def)
    next
      case False
      let ?t = "encodeNodeEntry (tombstoneNodeInfo key)"
      define pt' where "pt' = ?q\<lparr>pt_files := AList.update ?f (bs @ ?t) (pt_files ?q)\<rparr>"
      have del: "deleteFromFileNode te ?f key pt = (Inr True, pt')"
        using Some dec has False by (simp add: deleteFromFileNode_def gl io write_end_def pt'_def Let_def)
      have "file_holds ?z (bs @ concat [?t]) ns (es @ [?t])" by (rule file_holds_append [OF h(1)]) simp
      with h(2) keys_ok_tombstone [OF h(3) f(2)] have rel: "file_rel ?z (room + 1) ?f (bs @ ?t) (abs_remove ?k a)"
        unfolding file_rel_def by (intro exI [of _ ns] exI [of _ "es @ [?t]"]) simp
      have c: "cache_inv pt' = cache_inv ?q" "cache_entry pt' = cache_entry ?q" by (simp_all add: pt'_def cache_inv_def cache_entry_def fun_eq_iff)
      have "buckets_ok ?z (room + 1) pt' (abs_remove ?k a)"
      proof (rule bucket_change [OF r(2) _ f(1) rel])
        show "same_on (\<lambda>k. file_of k \<noteq> ?f) a (abs_remove ?k a)" by (auto simp: same_on_def abs_remove_def)
        show "tm_files (abs_remove ?k a) = insert ?f (tm_files a)" using tf by (auto simp: abs_remove_def)
        show "cache_inv pt'" unfolding c by (rule b(1))
        show "g \<noteq> ?f \<and> cache_entry ?q g = Some x \<or> g = ?f \<and> cached_ok ?z (Some (bs @ ?t)) x" if "cache_entry pt' g = Some x" for g x
          using that r(5) unfolding c by auto
        show "pt_gcInFlight pt' = (pt_gcInFlight ?q)(?f := None)" using r(4) by (simp add: pt'_def fun_upd_idem)
      qed (simp_all add: pt'_def update_conv')
      moreover have "dir_ok pt'"
      proof (rule dir_ok_update [OF r(1)])
        show "tree_shape pt'" using r(1) by (simp add: pt'_def dir_ok_def tree_shape_def)
      qed (auto simp: pt'_def)
      moreover have "global_part pt' = global_part pt" unfolding r(3) [symmetric] using f(1) by (simp add: pt'_def global_part_def update_conv')
      ultimately show ?thesis using del False k f(2) tf by (simp add: abs_delete_def)
    qed
  qed
qed

lemma search_holds:
  assumes "file_holds z bs ns es" "key_ok (info_map ns (nodeLookupKey key)) (hits (nodeLookupKey key) es) v dead"
  shows "searchNodeFile (encodeNodeEntries ns) (concat es) key = v"
  using file_holds_sorted [OF assms(1)] search_read_value [of ns "concat es" key] slice_entries_concat [of es] key_ok_read [OF assms(2)]
  by simp

lemma locate_ok:
  assumes env: "env_ok te limit" and d: "dir_ok pt" "buckets_ok (te_zstd te) room pt a" and f: "f \<noteq> globalFileName" "f \<noteq> []"
  obtains (missing) c where "map_of (pt_files pt) f = None" "locate_slices te f pt = (Inr None, pt\<lparr>pt_sharedCache := c\<rparr>)"
    "buckets_ok (te_zstd te) room (pt\<lparr>pt_sharedCache := c\<rparr>) a"
  | (found) bs ns es h m c where "map_of (pt_files pt) f = Some bs" "file_holds (te_zstd te) bs ns es"
    "keys_ok ns es (\<lambda>k. good_key k \<and> file_of k = f) a"
    "locate_slices te f pt = (Inr (Some (h, encodeNodeEntries ns, concat es, m)), pt\<lparr>pt_sharedCache := c\<rparr>)"
    "buckets_ok (te_zstd te) room (pt\<lparr>pt_sharedCache := c\<rparr>) a"
proof -
  let ?z = "te_zstd te"
  note b = buckets_okD [OF d(2)]
  have io: "te_nio te = no_faults" using env by (simp add: env_ok_def)
  have fg: "f \<noteq> pt_globalFileID pt" using d(1) f(1) by (simp add: dir_ok_def tree_shape_def)
  have rel: thesis if "map_of (pt_files pt) f = Some bs" "\<And>ns es. file_holds ?z bs ns es \<Longrightarrow>
      keys_ok ns es (\<lambda>k. good_key k \<and> file_of k = f) a \<Longrightarrow> thesis" for bs thesis
    using b(4) [OF f(1) that(1)] that(2) by (auto simp: file_rel_def)
  have cut: "take (unat (fh_SortedEntryCount h) * NodeEntrySize) (encodeNodeEntries ns @ concat es) = encodeNodeEntries ns"
    "drop (unat (fh_SortedEntryCount h) * NodeEntrySize) (encodeNodeEntries ns @ concat es) = concat es"
    if "unat (fh_SortedEntryCount h) = length ns" for h ns es
    using that by (simp_all add: NodeEntrySize_def)
  show thesis
  proof (cases "pt_gcInFlight pt f")
    case (Some st)
    from b(3) [OF Some] obtain bs where bs: "map_of (pt_files pt) f = Some bs" "file_slices ?z bs = Some (gs_sorted st, gs_unsorted st)"
      by (auto simp: snapshot_ok_def)
    show thesis
    proof (rule rel [OF bs(1)])
      fix ns es assume h: "file_holds ?z bs ns es" "keys_ok ns es (\<lambda>k. good_key k \<and> file_of k = f) a"
      from Some holds_slices [OF h(1) bs(2)]
      have "locate_slices te f pt = (Inr (Some (gs_header st, encodeNodeEntries ns, concat es, False)), pt\<lparr>pt_sharedCache := pt_sharedCache pt\<rparr>)"
        by (simp add: locate_slices_def)
      from found [OF bs(1) h this] d(2) show thesis by simp
    qed
  next
    case no_snapshot: None
    obtain c where c: "getFileNodeCache f pt = (cache_entry pt f, pt\<lparr>pt_sharedCache := c\<rparr>)"
      "cache_inv (pt\<lparr>pt_sharedCache := c\<rparr>)" "cache_entry (pt\<lparr>pt_sharedCache := c\<rparr>) = cache_entry pt"
      by (rule get_cache [OF b(1) f(2) fg])
    let ?p = "pt\<lparr>pt_sharedCache := c\<rparr>"
    have bp: "buckets_ok ?z room ?p a" using b(2) c by (intro buckets_ok_cache [OF d(2)]) simp_all
    show thesis
    proof (cases "cache_entry pt f")
      case (Some x)
      then obtain bs h where x: "map_of (pt_files pt) f = Some bs" "readDecodedFileNode ?z bs = Inr (fst x, h, snd x)"
        using b(2) [OF Some] by (auto simp: cached_ok_def)
      show thesis
      proof (rule rel [OF x(1)])
        fix ns es assume h: "file_holds ?z bs ns es" "keys_ok ns es (\<lambda>k. good_key k \<and> file_of k = f) a"
        obtain hb hd where r: "readDecodedFileNode ?z bs = Inr (hb, hd, encodeNodeEntries ns @ concat es)"
          "decodeFileNodeHeader hb = hd" "fh_Magic hd = FileNodeMagic" "unat (fh_SortedEntryCount hd) = length ns"
          by (rule readDecoded_holds [OF h(1)])
        with x(2) have "x = (hb, encodeNodeEntries ns @ concat es)" by (cases x) simp
        with no_snapshot Some c(1) r cut [OF r(4)]
        have "locate_slices te f pt = (Inr (Some (hd, encodeNodeEntries ns, concat es, True)), ?p)"
          by (simp add: locate_slices_def)
        from found [OF x(1) h this bp] show thesis .
      qed
    next
      case uncached: None
      show thesis
      proof (cases "map_of (pt_files pt) f")
        case None
        with no_snapshot uncached c(1) have "locate_slices te f pt = (Inr None, ?p)" by (simp add: locate_slices_def io)
        from missing [OF None this bp] show thesis .
      next
        case (Some bs)
        show thesis
        proof (rule rel [OF Some])
          fix ns es assume h: "file_holds ?z bs ns es" "keys_ok ns es (\<lambda>k. good_key k \<and> file_of k = f) a"
          obtain hb hd where r: "readDecodedFileNode ?z bs = Inr (hb, hd, encodeNodeEntries ns @ concat es)"
            "decodeFileNodeHeader hb = hd" "fh_Magic hd = FileNodeMagic" "unat (fh_SortedEntryCount hd) = length ns"
            by (rule readDecoded_holds [OF h(1)])
          let ?s = "setFileNodeCache f hb (encodeNodeEntries ns @ concat es) ?p"
          obtain c' where s: "?s = pt\<lparr>pt_sharedCache := c'\<rparr>"
            using fg f(2) by (cases c) (simp_all add: setFileNodeCache_def)
          have l: "locate_slices te f pt = (Inr (Some (hd, encodeNodeEntries ns, concat es, True)), ?s)"
            using no_snapshot uncached c(1) r Some cut [OF r(4)] by (simp add: locate_slices_def io)
          have "buckets_ok ?z room ?s a"
          proof (rule buckets_ok_cache [OF bp])
            show "cache_inv ?s" by (rule set_cache(1) [OF c(2)])
            show "g \<noteq> globalFileName \<and> cached_ok ?z (map_of (pt_files ?p) g) x" if "cache_entry ?s g = Some x" for g x
              using set_cache(2) [OF c(2) that] b(2) [of g x] c(3) Some r(1) f(1) by (auto simp: cached_ok_def)
          qed simp_all
          with found [OF Some h l [unfolded s]] show thesis unfolding s .
        qed
      qed
    qed
  qed
qed

lemma schedule_ok:
  assumes "buckets_ok z room pt a" "f \<noteq> globalFileName" "map_of (pt_files pt) f = Some bs" "file_slices z bs = Some (s, u)"
  shows "buckets_ok z room (maybeScheduleGC f h s u pt) a" "dir_ok (maybeScheduleGC f h s u pt) = dir_ok pt"
    "global_part (maybeScheduleGC f h s u pt) = global_part pt"
proof -
  obtain gc where gc: "maybeScheduleGC f h s u pt = pt\<lparr>pt_gcInFlight := gc\<rparr>"
    "gc = pt_gcInFlight pt \<or> (\<exists>st. gc = (pt_gcInFlight pt)(f \<mapsto> st) \<and> gs_sorted st = s \<and> gs_unsorted st = u)"
  proof (cases "f = pt_globalFileID pt \<or> f = [] \<or> length u = 0 \<or> pt_gcInFlight pt f \<noteq> None")
    case True
    then have "maybeScheduleGC f h s u pt = pt\<lparr>pt_gcInFlight := pt_gcInFlight pt\<rparr>" by (auto simp: maybeScheduleGC_def)
    then show ?thesis using that by blast
  next
    case False
    then show ?thesis by (intro that) (auto simp: maybeScheduleGC_def)
  qed
  show "dir_ok (maybeScheduleGC f h s u pt) = dir_ok pt" "global_part (maybeScheduleGC f h s u pt) = global_part pt"
    by (simp_all add: gc(1))
  note b = buckets_okD [OF assms(1)]
  have c: "cache_inv (pt\<lparr>pt_gcInFlight := gc\<rparr>) = cache_inv pt" "cache_entry (pt\<lparr>pt_gcInFlight := gc\<rparr>) = cache_entry pt"
    by (simp_all add: cache_inv_def cache_entry_def fun_eq_iff)
  have "g \<noteq> globalFileName \<and> snapshot_ok z (map_of (pt_files pt) g) st" if "gc g = Some st" for g st
    using gc(2) that b(3) [of g st] assms(2-4) by (auto simp: snapshot_ok_def split: if_splits)
  with assms(1) show "buckets_ok z room (maybeScheduleGC f h s u pt) a"
    unfolding gc(1) buckets_ok_def c by simp
qed

lemma get_bucket:
  assumes env: "env_ok te limit" and d: "dir_ok pt" "buckets_ok (te_zstd te) room pt a" and k: "6 \<le> length key"
  shows "\<exists>pt'. getFromFileNode te (file_of key) key pt = (Inr (tm_map a (nodeLookupKey key)), pt') \<and> dir_ok pt' \<and>
    global_part pt' = global_part pt \<and> buckets_ok (te_zstd te) room pt' a"
proof -
  let ?f = "file_of key" and ?k = "nodeLookupKey key"
  have f: "?f \<noteq> globalFileName" "key \<noteq> []" using k by (auto simp: file_of_def)
  have gl: "?f \<noteq> pt_globalFileID pt" using d(1) f(1) by (simp add: dir_ok_def tree_shape_def)
  note gk = good_lookup_key [OF f(2)]
  show ?thesis
  proof (cases rule: locate_ok [OF env d f(1) names_nonempty(3), case_names missing found])
    case (missing c)
    have "tm_map a ?k = None" using buckets_okD(5) [OF d(2) gk] missing(1) f(1) by simp
    with missing gl d(1) show ?thesis by (simp add: getFromFileNode_def)
  next
    case (found bs ns es h m c)
    let ?p = "pt\<lparr>pt_sharedCache := c\<rparr>"
    have "key_ok (info_map ns ?k) (hits ?k es) (tm_map a ?k) (?k \<in> tm_dead a)"
      using found(3) gk by (simp add: keys_ok_def)
    note s = search_holds [OF found(2) this]
    have "map_of (pt_files ?p) ?f = Some bs" using found(1) by simp
    note sch = schedule_ok [OF found(5) f(1) this file_holds_slices [OF found(2)], of h]
    show ?thesis
      using gl found(4,5) s sch d(1) by (auto simp: getFromFileNode_def Let_def)
  qed
qed

section \<open>The global file\<close>

lemma global_okE:
  assumes "global_ok te room pt a"
  obtains bs ns es ix where "pt_globalFileOpen pt" "map_of (pt_files pt) globalFileName = Some bs"
    "file_holds (te_zstd te) bs ns es" "length ns + length es \<le> room" "keys_ok ns es short_key a"
    "pt_globalHeader pt = decodeFileNodeHeader bs" "pt_globalNodeIndex pt = Some ix"
    "\<And>k. gi_Get (te_index te) ix k = info_map (compacted ns es) k"
  using assms unfolding global_ok_def by blast

lemma index_lookup:
  assumes "keys_ok ns es short_key a" "file_holds z bs ns es" "short_key k"
  shows "info_map (compacted ns es) k = tm_map a k"
  using assms compacted_ok(4) [OF assms(2), of k] key_ok_compact_value by (fastforce simp: keys_ok_def short_key_def)

lemma get_global:
  assumes "global_ok te room pt a" "short_key key"
  shows "getFromGlobalNode te key pt = tm_map a key"
proof -
  obtain bs ns es ix where "file_holds (te_zstd te) bs ns es" "keys_ok ns es short_key a"
    "pt_globalNodeIndex pt = Some ix" "\<And>k. gi_Get (te_index te) ix k = info_map (compacted ns es) k"
    using assms(1) by (rule global_okE) blast
  with index_lookup [OF this(2,1) assms(2)] assms(2) show ?thesis
    by (auto simp: getFromGlobalNode_def short_key_def MaxKeySize_def split: option.split)
qed

text \<open>The index after a list of entries, each the newest of its key so far.\<close>

definition put_index :: "(bytes \<Rightarrow> NodeInfo option) \<Rightarrow> NodeInfo list \<Rightarrow> bytes \<Rightarrow> NodeInfo option" where
  "put_index m es k = last_or_old (filter (\<lambda>n. ni_key n = k) es) (m k)"

definition batch_all :: "NodeInfo list \<Rightarrow> 's PrefixTree \<Rightarrow> 's PrefixTree" where
  "batch_all es pt = (if 0 < pt_globalCommitDepth pt then fold (\<lambda>n. batch_put (ni_key n) n) es pt else pt)"

lemma batch_put_index: "batch_put k n (q\<lparr>pt_globalNodeIndex := i\<rparr>) = (batch_put k n q)\<lparr>pt_globalNodeIndex := i\<rparr>"
  by (simp add: batch_put_def)

lemma fold_put_global:
  assumes "index_laws (te_index te)" "pt_globalNodeIndex pt = Some ix"
    and "\<forall>k. chain_ok (gi_Get (te_index te) ix k) (filter (\<lambda>n. ni_key n = k) es)"
  shows "\<exists>ix'. fold (put_global_one te) es (acc, pt) = (acc @ es, (batch_all es pt)\<lparr>pt_globalNodeIndex := Some ix'\<rparr>) \<and>
    gi_Get (te_index te) ix' = put_index (gi_Get (te_index te) ix) es"
  using assms(2,3)
proof (induction es arbitrary: acc pt ix)
  case Nil
  then have "pt\<lparr>pt_globalNodeIndex := Some ix\<rparr> = pt" "batch_all [] pt = pt" by (simp_all add: batch_all_def)
  then show ?case by (intro exI [of _ ix]) (simp add: put_index_def last_or_old_def fun_eq_iff)
next
  case (Cons n es)
  let ?g = "te_index te"
  let ?ix = "gi_Set ?g ix (ni_key n) n"
  have set: "gi_Get ?g ?ix k = (if k = ni_key n then Some n else gi_Get ?g ix k)" for k
    using assms(1) by (simp add: index_laws_def)
  have ok: "put_ok (gi_Get ?g ix (ni_key n)) n" using Cons.prems(2) [rule_format, of "ni_key n"] by simp
  have merged: "(case gi_Get ?g ix (ni_key n) of None \<Rightarrow> n | Some p \<Rightarrow> mergeNodeInfoForAppend p n) = n"
    using ok merge_last by (auto simp: put_ok_def split: option.splits)
  let ?p = "(if 0 < pt_globalCommitDepth pt then batch_put (ni_key n) n pt else pt)\<lparr>pt_globalNodeIndex := Some ?ix\<rparr>"
  have one: "put_global_one te n (acc, pt) = (acc @ [n], ?p)"
    using merged by (simp add: put_global_one_def Cons.prems(1) batch_put_def)
  have chains: "\<forall>k. chain_ok (gi_Get ?g ?ix k) (filter (\<lambda>m. ni_key m = k) es)"
  proof
    fix k show "chain_ok (gi_Get ?g ?ix k) (filter (\<lambda>m. ni_key m = k) es)"
      using Cons.prems(2) [rule_format, of k] by (cases "k = ni_key n") (simp_all add: set)
  qed
  have depth: "pt_globalCommitDepth ?p = pt_globalCommitDepth pt" by (simp add: batch_put_def)
  have comm: "fold (\<lambda>n. batch_put (ni_key n) n) xs (q\<lparr>pt_globalNodeIndex := i\<rparr>) =
      (fold (\<lambda>n. batch_put (ni_key n) n) xs q)\<lparr>pt_globalNodeIndex := i\<rparr>" for xs i and q :: "'a PrefixTree"
    by (induction xs arbitrary: q) (simp_all add: batch_put_index)
  have ba: "(batch_all es ?p)\<lparr>pt_globalNodeIndex := i\<rparr> = (batch_all (n # es) pt)\<lparr>pt_globalNodeIndex := i\<rparr>" for i
    using depth by (simp add: batch_all_def comm)
  have pi: "put_index (gi_Get ?g ?ix) es = put_index (gi_Get ?g ix) (n # es)"
    by (auto simp: put_index_def set last_or_old_def fun_eq_iff)
  have "pt_globalNodeIndex ?p = Some ?ix" by simp
  from Cons.IH [OF this chains, of "acc @ [n]"] show ?case by (simp add: one ba pi)
qed

end
