(* ===== verification/Prefix_Tree_Refinement.thy ===== *)
theory Prefix_Tree_Refinement
  imports Prefix_Tree_Correct Simulation
begin

text \<open>
  The prefix tree refines a map. The theory adds the operations on the global file, commits,
  full compaction and reopening to those on bucket files, and composes the steps of the tree
  into runs.
\<close>

section \<open>Appending to the global file\<close>

lemma written_short:
  assumes "\<forall>n \<in> set es. short_key (ni_key n)"
  shows "written k es = filter (\<lambda>n. ni_key n = k) es"
  using assms unfolding written_def by (induction es) (auto simp: short_key_def MaxKeySize_def valid_info_def)

lemma appended_header:
  assumes "file_holds z bs ns es"
  shows "decodeFileNodeHeader (bs @ x) = decodeFileNodeHeader bs"
proof -
  obtain h payload where "bs = encodeFileNodeHeader h @ payload" "length (fh_Reserved h) = 8"
    using file_holds_decode [OF assms] by metis
  then show ?thesis using decode_encode_header [of h "payload @ x"] decode_encode_header [of h payload] by simp
qed

definition index_chains :: "(bytes \<Rightarrow> NodeInfo option) \<Rightarrow> NodeInfo list \<Rightarrow> bool" where
  "index_chains m es \<longleftrightarrow> (\<forall>k. chain_ok (m k) (filter (\<lambda>n. ni_key n = k) es))"

lemma info_map_appended:
  assumes "file_holds z bs ns es" "\<forall>n \<in> set new. short_key (ni_key n)" "index_chains (info_map (compacted ns es)) new"
  shows "info_map (compacted ns (es @ entries_of new b)) = put_index (info_map (compacted ns es)) new"
proof
  fix k
  let ?es = "es @ entries_of new b"
  have h: "file_holds z (bs @ concat (entries_of new b)) ns ?es"
    using file_holds_append [OF assms(1)] entries_of_length(1) by blast
  have ne: "\<forall>n \<in> set new. ni_key n \<noteq> []" using assms(2) by (auto simp: short_key_def)
  show "info_map (compacted ns ?es) k = put_index (info_map (compacted ns es)) new k"
  proof (cases "k = []")
    case True
    then show ?thesis
      using compacted_no_empty_key [OF h] compacted_no_empty_key [OF assms(1)] ne
      by (auto simp: put_index_def last_or_old_def filter_empty_conv)
  next
    case False
    have "info_map (compacted ns ?es) k = compact_value (written k new) (compact_value (hits k es) (info_map ns k))"
      using compacted_ok(4) [OF h False] hits_entries [OF ne] by (simp add: compact_value_def)
    also have "\<dots> = compact_value (filter (\<lambda>n. ni_key n = k) new) (info_map (compacted ns es) k)"
      using compacted_ok(4) [OF assms(1) False] written_short [OF assms(2)] by simp
    also have "\<dots> = put_index (info_map (compacted ns es)) new k"
      using assms(3) by (simp add: compact_chain index_chains_def put_index_def)
    finally show ?thesis .
  qed
qed

lemma append_global:
  assumes "te_nio te = no_faults" "pt_globalFileOpen pt" "tree_shape pt" "map_of (pt_files pt) globalFileName = Some bs" "new \<noteq> []"
  shows "appendGlobalNodeEntriesWithBlockID te new b pt =
    (None, pt\<lparr>pt_files := AList.update globalFileName (bs @ concat (entries_of new b)) (pt_files pt)\<rparr>)"
  using assms by (simp add: appendGlobalNodeEntriesWithBlockID_def write_end_def tree_shape_def concat_entries)

lemma guard_chains:
  assumes "put_guard new a" "\<forall>n \<in> set new. short_key (ni_key n)" "\<And>k. short_key k \<Longrightarrow> m k = tm_map a k"
  shows "index_chains m new"
  unfolding index_chains_def
proof
  fix k
  show "chain_ok (m k) (filter (\<lambda>n. ni_key n = k) new)"
  proof (cases "filter (\<lambda>n. ni_key n = k) new = []")
    case False
    then obtain n where n: "n \<in> set new" "ni_key n = k" by (auto simp: filter_empty_conv)
    with assms(2) have k: "short_key k" "take MaxKeySize k = k" by (auto simp: short_key_def MaxKeySize_def)
    have "chain_ok (tm_map a k) (written k new)" using assms(1) n k(2) by (auto simp: put_guard_def)
    with assms(3) [OF k(1)] written_short [OF assms(2)] show ?thesis by simp
  qed simp
qed

definition commit_part :: "'s PrefixTree \<Rightarrow> _" where
  "commit_part pt = (pt_globalCommitDepth pt, pt_globalCommitDirty pt, pt_globalCommitBlockID pt, pt_globalCommitBatch pt)"

text \<open>Writing entries to the global file when the index already has them.\<close>

lemma global_written:
  assumes env: "te_nio te = no_faults" and d: "dir_ok pt" and o: "pt_globalFileOpen pt"
    and f: "map_of (pt_files pt) globalFileName = Some bs" "file_holds (te_zstd te) bs ns es" "length ns + length es \<le> room"
      "keys_ok ns es short_key a" "pt_globalHeader pt = decodeFileNodeHeader bs"
    and new: "new \<noteq> []" "\<forall>n \<in> set new. short_key (ni_key n)" "put_guard new a" "room + length new + 1 \<le> room'"
    and ix: "pt_globalNodeIndex pt = Some ix" "gi_Get (te_index te) ix = put_index (info_map (compacted ns es)) new"
  shows "\<exists>pt'. appendGlobalNodeEntriesWithBlockID te new b pt = (None, pt') \<and> dir_ok pt' \<and> bucket_part pt' = bucket_part pt \<and>
    commit_part pt' = commit_part pt \<and> global_ok te room' pt' (abs_put new a)"
proof -
  let ?xs = "entries_of new b"
  let ?pt = "pt\<lparr>pt_files := AList.update globalFileName (bs @ concat ?xs) (pt_files pt)\<rparr>"
  have sh: "tree_shape pt" using d by (simp add: dir_ok_def)
  have ne: "\<forall>n \<in> set new. ni_key n \<noteq> []" using new(2) by (auto simp: short_key_def)
  have x: "\<forall>e \<in> set ?xs. length e = 65" using entries_of_length(1) by blast
  have ch: "index_chains (info_map (compacted ns es)) new"
    by (rule guard_chains [OF new(3,2)]) (rule index_lookup [OF f(4,2)])
  have "global_ok te room' ?pt (abs_put new a)"
    unfolding global_ok_def
  proof (intro conjI exI)
    show "map_of (pt_files ?pt) globalFileName = Some (bs @ concat ?xs)" by (simp add: update_conv')
    show "file_holds (te_zstd te) (bs @ concat ?xs) ns (es @ ?xs)" by (rule file_holds_append [OF f(2) x])
    show "length ns + length (es @ ?xs) \<le> room'" using f(3) new(4) entries_of_length(2) [of new b] by simp
    show "keys_ok ns (es @ ?xs) short_key (abs_put new a)" by (rule keys_ok_append [OF f(4) new(3) ne])
    show "pt_globalHeader ?pt = decodeFileNodeHeader (bs @ concat ?xs)" using f(5) appended_header [OF f(2)] by simp
    show "\<forall>k. gi_Get (te_index te) ix k = info_map (compacted ns (es @ ?xs)) k"
      using info_map_appended [OF f(2) new(2) ch, of b] ix(2) by simp
  qed (simp_all add: o ix(1))
  moreover have "globalFileName = file_of [0]" by (simp add: file_of_def)
  then have "globalFileName \<in> range file_of" by (rule range_eqI)
  then have "dir_ok ?pt" by (intro dir_ok_update [OF d]) (use sh in \<open>simp_all add: tree_shape_def\<close>)
  ultimately show ?thesis
    using append_global [OF env o sh f(1) new(1), of b] by (auto simp: bucket_part_def commit_part_def update_conv')
qed

lemma put_global_direct:
  assumes env: "env_ok te limit" and g: "global_ok te room pt a" and d: "dir_ok pt" "pt_globalCommitDepth pt = 0"
    and new: "new \<noteq> []" "\<forall>n \<in> set new. short_key (ni_key n)" "put_guard new a" "room + length new + 1 \<le> room'"
  shows "\<exists>pt'. putGlobalNodeInfos te new b pt = (None, pt') \<and> dir_ok pt' \<and> bucket_part pt' = bucket_part pt \<and>
    commit_part pt' = commit_part pt \<and> global_ok te room' pt' (abs_put new a)"
proof -
  obtain bs ns es ix where f: "pt_globalFileOpen pt" "map_of (pt_files pt) globalFileName = Some bs"
    "file_holds (te_zstd te) bs ns es" "length ns + length es \<le> room" "keys_ok ns es short_key a"
    "pt_globalHeader pt = decodeFileNodeHeader bs" and ix: "pt_globalNodeIndex pt = Some ix"
    "\<And>k. gi_Get (te_index te) ix k = info_map (compacted ns es) k"
    by (rule global_okE [OF g]) blast
  have ix': "gi_Get (te_index te) ix = info_map (compacted ns es)" using ix(2) by blast
  have ch: "index_chains (gi_Get (te_index te) ix) new"
    unfolding ix' by (rule guard_chains [OF new(3,2)]) (rule index_lookup [OF f(5,3)])
  have laws: "index_laws (te_index te)" "te_nio te = no_faults" using env by (simp_all add: env_ok_def)
  from fold_put_global [OF laws(1) ix(1) ch [unfolded index_chains_def], of "[]"] d(2) obtain i where
    i: "fold (put_global_one te) new ([], pt) = (new, pt\<lparr>pt_globalNodeIndex := Some i\<rparr>)"
      "gi_Get (te_index te) i = put_index (info_map (compacted ns es)) new"
    unfolding ix' by (auto simp: batch_all_def)
  let ?p = "pt\<lparr>pt_globalNodeIndex := Some i\<rparr>"
  have "dir_ok ?p" using d(1) by (simp add: dir_ok_def tree_shape_def)
  from global_written [OF laws(2) this, of bs ns es room a new room' i b] f new i
  obtain pt' where "appendGlobalNodeEntriesWithBlockID te new b ?p = (None, pt')" "dir_ok pt'" "bucket_part pt' = bucket_part ?p"
    "commit_part pt' = commit_part ?p" "global_ok te room' pt' (abs_put new a)" by auto
  with i(1) d(2) show ?thesis by (simp add: putGlobalNodeInfos_def bucket_part_def commit_part_def)
qed

section \<open>The batch of a commit\<close>

definition batch_of :: "NodeInfo list \<Rightarrow> (bytes \<times> NodeInfo) list" where
  "batch_of es = fold (\<lambda>n. AList.update (ni_key n) n) es []"

definition batched :: "NodeInfo list \<Rightarrow> NodeInfo list" where
  "batched es = sort_key ni_key (map snd (batch_of es))"

lemma batch_of_map: "map_of (batch_of es) k = last_or_old (filter (\<lambda>n. ni_key n = k) es) None"
proof -
  have "map_of (fold (\<lambda>n. AList.update (ni_key n) n) es m) k = last_or_old (filter (\<lambda>n. ni_key n = k) es) (map_of m k)" for m
    by (induction es arbitrary: m) (auto simp: last_or_old_def update_conv')
  then show ?thesis by (simp add: batch_of_def)
qed

lemma batch_of_build_ok:
  assumes "\<forall>n \<in> set es. valid_info n \<and> \<not> isNodeInfoTombstone n"
  shows "build_ok (batch_of es)"
proof -
  have "build_ok m \<Longrightarrow> build_ok (fold (\<lambda>n. AList.update (ni_key n) n) es m)" for m
    using assms by (induction es arbitrary: m) (auto intro: build_ok_update)
  from this [of "[]"] show ?thesis by (simp add: batch_of_def build_ok_def)
qed

lemma filter_sorted_key:
  assumes "sorted_infos ns"
  shows "filter (\<lambda>n. ni_key n = k) ns = (case info_map ns k of None \<Rightarrow> [] | Some n \<Rightarrow> [n])"
proof -
  have "distinct (map ni_key ns)"
    using assms by (auto simp: sorted_infos_def sorted_wrt_map [symmetric] strict_sorted_iff)
  then show ?thesis
    by (induction ns) (force simp: filter_empty_conv split: option.split dest: map_of_SomeD)+
qed

lemma guard_live: "put_guard es a \<Longrightarrow> n \<in> set es \<Longrightarrow> ni_accountSize n \<noteq> 0"
proof -
  have "ni_accountSize m \<noteq> 0" if "chain_ok v xs" "m \<in> set xs" for v m xs
    using that by (induction xs arbitrary: v) (auto simp: put_ok_def)
  moreover assume "put_guard es a" "n \<in> set es"
  then have "chain_ok (tm_map a (take MaxKeySize (ni_key n))) (written (take MaxKeySize (ni_key n)) es)"
    "stored_info n \<in> set (written (take MaxKeySize (ni_key n)) es)"
    by (auto simp: put_guard_def written_def)
  ultimately show ?thesis by (metis stored_info_simps)
qed

lemma batched_ok:
  assumes "\<forall>n \<in> set es. short_key (ni_key n)" "put_guard es a"
  shows "\<forall>n \<in> set (batched es). short_key (ni_key n)" "put_guard (batched es) a" "abs_put (batched es) a = abs_put es a"
    "put_index m (batched es) = put_index m es" "length (batched es) \<le> length es" "batched es = [] \<longleftrightarrow> es = []"
proof -
  have live: "\<forall>n \<in> set es. valid_info n \<and> \<not> isNodeInfoTombstone n"
    using assms(1) guard_live [OF assms(2)] by (auto simp: valid_info_def short_key_def MaxKeySize_def size_live)
  note ok = batch_of_build_ok [OF live]
  have filt: "filter (\<lambda>n. ni_key n = k) (batched es) =
      (if filter (\<lambda>n. ni_key n = k) es = [] then [] else [last (filter (\<lambda>n. ni_key n = k) es)])" for k
    unfolding batched_def filter_sorted_key [OF sorted_built(1) [OF ok]] sorted_built(2) [OF ok] batch_of_map
    by (simp add: last_or_old_def)
  have mem: "n \<in> set es" if "n \<in> set (batched es)" for n
  proof -
    have "n \<in> set (filter (\<lambda>m. ni_key m = ni_key n) (batched es))" using that by simp
    then have "filter (\<lambda>m. ni_key m = ni_key n) es \<noteq> []" "n = last (filter (\<lambda>m. ni_key m = ni_key n) es)"
      unfolding filt by (auto split: if_splits)
    then have "n \<in> set (filter (\<lambda>m. ni_key m = ni_key n) es)" using last_in_set by metis
    then show ?thesis by simp
  qed
  show sk: "\<forall>n \<in> set (batched es). short_key (ni_key n)" using mem assms(1) by blast
  have pi: "put_index m (batched es) = put_index m es" for m
    by (rule ext) (simp add: put_index_def filt last_or_old_def)
  show "put_index m (batched es) = put_index m es" by (rule pi)
  show "put_guard (batched es) a"
    unfolding put_guard_def
  proof
    fix n assume n: "n \<in> set (batched es)"
    let ?k = "ni_key n"
    have k: "take MaxKeySize ?k = ?k" "n \<in> set es" using sk n mem by (auto simp: short_key_def MaxKeySize_def)
    then have g: "?k \<notin> tm_dead a" "chain_ok (tm_map a ?k) (filter (\<lambda>m. ni_key m = ?k) es)"
      using assms(2) written_short [OF assms(1)] by (auto simp: put_guard_def)
    have "filter (\<lambda>m. ni_key m = ?k) es \<noteq> []" using k(2) by (auto simp: filter_empty_conv)
    with chain_last_ok [OF g(2)] g(1) k(1) show "take MaxKeySize ?k \<notin> tm_dead a \<and>
        chain_ok (tm_map a (take MaxKeySize ?k)) (written (take MaxKeySize ?k) (batched es))"
      by (simp add: written_short [OF sk] filt)
  qed
  show e: "batched es = [] \<longleftrightarrow> es = []"
  proof
    assume b: "batched es = []"
    show "es = []"
    proof (cases es)
      case (Cons n xs)
      with filt [of "ni_key n"] b show ?thesis by (simp split: if_splits)
    qed
  qed (simp add: batched_def batch_of_def)
  have "(file_of \<circ> ni_key) ` set (batched es) = (file_of \<circ> ni_key) ` set es"
  proof -
    have "(file_of \<circ> ni_key) n = globalFileName" if "n \<in> set es \<or> n \<in> set (batched es)" for n
      using that sk assms(1) short_key_good(2) by auto
    then show ?thesis using e by (cases "es = []") (auto simp: image_constant_conv cong: image_cong)
  qed
  then show "abs_put (batched es) a = abs_put es a"
    using pi [of "tm_map a"] by (simp add: abs_put_def written_short [OF sk] written_short [OF assms(1)] put_index_def [abs_def])
  have "length (fold (\<lambda>n. AList.update (ni_key n) n) xs m) \<le> length xs + length m" for xs m
  proof (induction xs arbitrary: m)
    case (Cons n xs)
    have "length (AList.update (ni_key n) n m) \<le> Suc (length m)" by (induction m) auto
    with Cons [of "AList.update (ni_key n) n m"] show ?case by simp
  qed simp
  from this [of es "[]"] show "length (batched es) \<le> length es" by (simp add: batched_def batch_of_def)
qed

section \<open>Grouping by file\<close>

lemma written_file: "written k (filter (\<lambda>n. file_of (ni_key n) = f) es) = (if file_of k = f then written k es else [])"
proof -
  have "take MaxKeySize (ni_key n) = k \<and> file_of (ni_key n) = f \<longleftrightarrow> file_of k = f \<and> take MaxKeySize (ni_key n) = k" for n
    using file_of_lookup_key(2) [of "ni_key n"] by metis
  then have "filter (\<lambda>n. take MaxKeySize (ni_key n) = k) (filter (\<lambda>n. file_of (ni_key n) = f) es) =
      filter (\<lambda>n. file_of k = f \<and> take MaxKeySize (ni_key n) = k) es"
    unfolding filter_filter by (intro filter_cong refl) blast
  then show ?thesis unfolding written_def by simp
qed

lemma guard_file: "put_guard es a \<Longrightarrow> put_guard (filter (\<lambda>n. file_of (ni_key n) = f) es) a"
  by (auto simp: put_guard_def written_file)

lemma written_groups:
  "distinct fs \<Longrightarrow> written k (concat (map (\<lambda>f. filter (\<lambda>n. file_of (ni_key n) = f) es) fs)) =
     (if file_of k \<in> set fs then written k es else [])"
proof (induction fs)
  case (Cons f fs)
  then show ?case by (auto simp: written_append written_file)
qed (simp add: written_def)

lemma sum_groups: "distinct fs \<Longrightarrow> (\<Sum>f \<leftarrow> fs. length (filter (\<lambda>n. g n = f) es)) \<le> length es"
proof (induction es)
  case (Cons n es)
  have "(\<Sum>f \<leftarrow> fs. length (filter (\<lambda>m. g m = f) (n # es))) =
      (\<Sum>f \<leftarrow> fs. if g n = f then 1 else 0) + (\<Sum>f \<leftarrow> fs. length (filter (\<lambda>m. g m = f) es))"
    by (induction fs) auto
  moreover have "(\<Sum>f \<leftarrow> fs. if g n = f then 1 else 0) \<le> (1 :: nat)"
    using Cons.prems by (simp add: sum_list_distinct_conv_sum_set)
  ultimately show ?case using Cons by simp
qed (induction fs, auto)

definition globals :: "NodeInfo list \<Rightarrow> NodeInfo list" where
  "globals es = filter (\<lambda>n. file_of (ni_key n) = globalFileName) es"

definition bucket_order :: "NodeInfo list \<Rightarrow> bytes list" where
  "bucket_order es = sort (remdups (map (\<lambda>n. file_of (ni_key n)) (filter (\<lambda>n. file_of (ni_key n) \<noteq> globalFileName) es)))"

definition groups :: "NodeInfo list \<Rightarrow> (bytes \<times> NodeInfo list) list" where
  "groups es = map (\<lambda>f. (f, filter (\<lambda>n. file_of (ni_key n) = f) es)) (bucket_order es)"

lemma bucket_order_set:
  "distinct (bucket_order es)" "f \<in> set (bucket_order es) \<longleftrightarrow> f \<noteq> globalFileName \<and> (\<exists>n \<in> set es. file_of (ni_key n) = f)"
  by (auto simp: bucket_order_def)

lemma group_entries_eq:
  assumes "tree_shape pt"
  shows "group_entries pt es = (globals es, groups es)"
proof -
  have id: "pt_globalFileID pt = globalFileName" using assms by (simp add: tree_shape_def)
  have "filter (\<lambda>e. file_of (ni_key e) = f) (filter (\<lambda>e. file_of (ni_key e) \<noteq> globalFileName) es) =
      filter (\<lambda>e. file_of (ni_key e) = f) es" if "f \<noteq> globalFileName" for f
    using that by (induction es) auto
  then show ?thesis
    using bucket_order_set(2)
    by (simp add: group_entries_def fileIDForKey_file_of [OF assms] id globals_def groups_def bucket_order_def)
qed

lemma groups_put: "abs_put (concat (map snd (groups es))) (abs_put (globals es) a) = abs_put es a"
proof -
  let ?gs = "concat (map snd (groups es))"
  have gs: "?gs = concat (map (\<lambda>f. filter (\<lambda>n. file_of (ni_key n) = f) es) (bucket_order es))"
    by (simp add: groups_def comp_def)
  have "written k (globals es @ ?gs) = written k es" for k
  proof -
    have "written k es = []" if "file_of k \<noteq> globalFileName" "file_of k \<notin> set (bucket_order es)"
      using that written_elsewhere [of es] file_of_lookup_key(2) unfolding bucket_order_set(2)
      by (auto simp: written_def filter_empty_conv)
    moreover have "globalFileName \<notin> set (bucket_order es)" by (simp add: bucket_order_set(2))
    ultimately show ?thesis
      unfolding written_append gs written_groups [OF bucket_order_set(1)] globals_def written_file by auto
  qed
  moreover have "set (globals es @ ?gs) = set es"
    unfolding gs by (auto simp: globals_def bucket_order_set(2))
  ultimately show ?thesis unfolding abs_put_append by (simp only: abs_put_def)
qed

lemma globals_short: "\<forall>n \<in> set es. ni_key n \<noteq> [] \<Longrightarrow> n \<in> set (globals es) \<Longrightarrow> short_key (ni_key n)"
  by (auto simp: globals_def short_key_def file_of_def split: if_splits)

lemma short_keys_frame:
  assumes "\<forall>n \<in> set es. short_key (ni_key n)"
  shows "same_on (\<lambda>k. \<not> short_key k) a (abs_put es a)" "tm_files (abs_put es a) - {globalFileName} = tm_files a - {globalFileName}"
proof -
  have "written k es = []" if "\<not> short_key k" for k using assms that by (auto simp: written_short filter_empty_conv)
  then show "same_on (\<lambda>k. \<not> short_key k) a (abs_put es a)" by (simp add: same_on_def abs_put_def last_or_old_def)
  show "tm_files (abs_put es a) - {globalFileName} = tm_files a - {globalFileName}"
    using assms short_key_good(2) by (auto simp: abs_put_def)
qed

lemma bucket_stage:
  assumes env: "env_ok te limit" "room + 2 * length es \<le> limit"
    and d: "dir_ok pt" "buckets_ok (te_zstd te) room pt (abs_put (globals es) a)"
    and es: "\<forall>n \<in> set es. ni_key n \<noteq> []" "put_guard es a"
  shows "\<exists>pt'. append_groups te b (groups es) pt = (None, pt') \<and> dir_ok pt' \<and> global_part pt' = global_part pt \<and>
    buckets_ok (te_zstd te) (room + 2 * length es) pt' (abs_put es a)"
proof -
  let ?sum = "\<Sum>g \<leftarrow> groups es. length (snd g) + 1"
  have ok: "group_ok (abs_put (globals es) a) g" if g: "g \<in> set (groups es)" for g
  proof -
    obtain f where f: "g = (f, filter (\<lambda>n. file_of (ni_key n) = f) es)" "f \<in> set (bucket_order es)"
      using g by (auto simp: groups_def)
    have "put_guard (snd g) (abs_put (globals es) a)"
      using f bucket_order_set(2) [of f es]
      by (intro put_guard_elsewhere [of _ _ f _ globalFileName]) (auto simp: globals_def intro: guard_file [OF es(2)])
    with f es(1) bucket_order_set(2) [of f es] show ?thesis by (auto simp: group_ok_def filter_empty_conv)
  qed
  have len: "?sum \<le> 2 * length es"
  proof -
    have "?sum \<le> (\<Sum>g \<leftarrow> groups es. 2 * length (snd g))"
    proof (rule sum_list_mono)
      fix g assume "g \<in> set (groups es)"
      from ok [OF this] have "snd g \<noteq> []" by (simp add: group_ok_def)
      then show "length (snd g) + 1 \<le> 2 * length (snd g)" by (cases "snd g") simp_all
    qed
    also have "\<dots> = 2 * (\<Sum>f \<leftarrow> bucket_order es. length (filter (\<lambda>n. file_of (ni_key n) = f) es))"
      by (simp add: groups_def comp_def sum_list_const_mult)
    also have "\<dots> \<le> 2 * length es" using sum_groups [OF bucket_order_set(1), of "\<lambda>n. file_of (ni_key n)" es] by simp
    finally show ?thesis .
  qed
  have "distinct (map fst (groups es))" using bucket_order_set(1) by (simp add: groups_def comp_def)
  from append_groups_ok [OF env(1) _ d this, of b] ok len env(2) obtain pt' where
    "append_groups te b (groups es) pt = (None, pt')" "dir_ok pt'" "global_part pt' = global_part pt"
    "buckets_ok (te_zstd te) (room + ?sum) pt' (abs_put es a)"
    unfolding groups_put by fastforce
  moreover from this(4) have "buckets_ok (te_zstd te) (room + 2 * length es) pt' (abs_put es a)"
    by (rule buckets_ok_frame) (use len in \<open>simp_all add: same_on_def\<close>)
  ultimately show ?thesis by blast
qed

section \<open>Steps of the tree\<close>

definition tree_core :: "'s tree_env \<Rightarrow> nat \<Rightarrow> 's PrefixTree \<Rightarrow> tree_map \<Rightarrow> bool" where
  "tree_core te room pt a \<longleftrightarrow> dir_ok pt \<and> buckets_ok (te_zstd te) room pt a \<and> global_ok te room pt a"

lemma tree_core_mono: "tree_core te room pt a \<Longrightarrow> room \<le> room' \<Longrightarrow> tree_core te room' pt a"
  unfolding tree_core_def
  by (auto intro: global_ok_frame [where pt = pt and a = a] buckets_ok_frame [where pt = pt and a = a] simp: same_on_def)

lemma global_part_commit: "global_part pt' = global_part pt \<Longrightarrow> commit_part pt' = commit_part pt"
  by (simp add: global_part_def commit_part_def)

lemma groups_frame_short: "same_on short_key (abs_put (globals es) a) (abs_put es a)"
proof -
  have "written k (globals es) = written k es" if "short_key k" for k
    using short_key_good(2) [OF that] by (simp add: globals_def written_file)
  then show ?thesis by (simp add: same_on_def abs_put_def)
qed

lemma put_core:
  assumes env: "env_ok te limit" "room + 2 * length es + 1 \<le> limit" and c: "tree_core te room pt a" "pt_globalCommitDepth pt = 0"
    and es: "es \<noteq> []" "\<forall>n \<in> set es. ni_key n \<noteq> []" "put_guard es a"
  shows "\<exists>pt'. PutNodeInfosWithBlockID te es b pt = (None, pt') \<and> tree_core te (room + 2 * length es + 1) pt' (abs_put es a) \<and>
    commit_part pt' = commit_part pt"
proof -
  let ?g = "globals es" and ?room = "room + 2 * length es + 1"
  have d: "dir_ok pt" "buckets_ok (te_zstd te) room pt a" "global_ok te room pt a" using c(1) by (simp_all add: tree_core_def)
  have short: "\<forall>n \<in> set ?g. short_key (ni_key n)" using globals_short [OF es(2)] by blast
  have guard: "put_guard ?g a" unfolding globals_def by (rule guard_file [OF es(3)])
  have len: "length ?g \<le> length es" by (simp add: globals_def)
  obtain pt1 where p1: "(if 0 < length ?g then putGlobalNodeInfos te ?g b pt else (None, pt)) = (None, pt1)" "dir_ok pt1"
    "bucket_part pt1 = bucket_part pt" "commit_part pt1 = commit_part pt" "global_ok te ?room pt1 (abs_put ?g a)"
  proof (cases "?g = []")
    case True
    have "global_ok te ?room pt a" by (rule global_ok_frame [OF d(3) refl]) (simp_all add: same_on_def)
    with True d(1) that [of pt] show ?thesis by simp
  next
    case False
    from put_global_direct [OF env(1) d(3,1) c(2) False short guard, of ?room b] len that False show ?thesis by auto
  qed
  have "buckets_ok (te_zstd te) room pt1 (abs_put ?g a)"
    by (rule buckets_ok_frame [OF d(2) p1(3) short_keys_frame(1) [OF short] order_refl short_keys_frame(2) [OF short]])
  from bucket_stage [OF env(1) _ p1(2) this es(2,3), of b] env(2) obtain pt2 where p2:
    "append_groups te b (groups es) pt1 = (None, pt2)" "dir_ok pt2" "global_part pt2 = global_part pt1"
    "buckets_ok (te_zstd te) (room + 2 * length es) pt2 (abs_put es a)" by auto
  have "PutNodeInfosWithBlockID te es b pt = (None, pt2)"
    using es(1,2) p1(1) p2(1) d(1)
    by (simp add: PutNodeInfosWithBlockID_def group_entries_eq dir_ok_def list_ex_iff)
  moreover have "global_ok te ?room pt2 (abs_put es a)"
    by (rule global_ok_frame [OF p1(5) p2(3) groups_frame_short order_refl])
  moreover have "buckets_ok (te_zstd te) ?room pt2 (abs_put es a)"
    by (rule buckets_ok_frame [OF p2(4) refl]) (simp_all add: same_on_def)
  moreover have "commit_part pt2 = commit_part pt" using global_part_commit [OF p2(3)] p1(4) by simp
  ultimately show ?thesis using p2(2) by (simp add: tree_core_def)
qed

definition commit_entries :: "'s tree_env \<Rightarrow> NodeInfo list \<Rightarrow> u64 \<Rightarrow> 's PrefixTree \<Rightarrow> node_error option \<times> 's PrefixTree" where
  "commit_entries te es b pt =
     (case PutNodeInfosWithBlockID te es b (beginGlobalCommitWithBlockID b pt) of
        (r, pt1) \<Rightarrow> (case endGlobalCommit te pt1 of (r', pt2) \<Rightarrow> (if r = None then r' else r, pt2)))"

lemma fold_batch_put:
  assumes "pt_globalCommitBatch pt = Some m"
  shows "fold (\<lambda>n. batch_put (ni_key n) n) es pt = (if es = [] then pt
    else pt\<lparr>pt_globalCommitBatch := Some (fold (\<lambda>n. AList.update (ni_key n) n) es m), pt_globalCommitDirty := True\<rparr>)"
  using assms
proof (induction es arbitrary: pt m)
  case (Cons n es)
  have "pt_globalCommitBatch (batch_put (ni_key n) n pt) = Some (AList.update (ni_key n) n m)"
    using Cons.prems by (simp add: batch_put_def)
  from Cons.IH [OF this] Cons.prems show ?case by (auto simp: batch_put_def)
qed simp

lemma put_global_batched:
  assumes env: "env_ok te limit" and g: "global_ok te room pt a"
    and c: "pt_globalCommitDepth pt = 1" "pt_globalCommitBatch pt = Some []"
    and new: "new \<noteq> []" "\<forall>n \<in> set new. short_key (ni_key n)" "put_guard new a"
  shows "\<exists>ix. putGlobalNodeInfos te new b pt =
      (None, pt\<lparr>pt_globalCommitBatch := Some (batch_of new), pt_globalCommitDirty := True, pt_globalNodeIndex := Some ix\<rparr>) \<and>
    (\<forall>bs ns es. map_of (pt_files pt) globalFileName = Some bs \<longrightarrow> file_holds (te_zstd te) bs ns es \<longrightarrow>
       gi_Get (te_index te) ix = put_index (info_map (compacted ns es)) new)"
proof -
  obtain bs ns es ix where f: "map_of (pt_files pt) globalFileName = Some bs"
    "file_holds (te_zstd te) bs ns es" "keys_ok ns es short_key a" and ix: "pt_globalNodeIndex pt = Some ix"
    "\<And>k. gi_Get (te_index te) ix k = info_map (compacted ns es) k"
    by (rule global_okE [OF g]) blast
  have ix': "gi_Get (te_index te) ix = info_map (compacted ns es)" using ix(2) by blast
  have ch: "index_chains (gi_Get (te_index te) ix) new"
    unfolding ix' by (rule guard_chains [OF new(3,2)]) (rule index_lookup [OF f(3,2)])
  have laws: "index_laws (te_index te)" using env by (simp add: env_ok_def)
  from fold_put_global [OF laws ix(1) ch [unfolded index_chains_def], of "[]"] obtain i where
    i: "fold (put_global_one te) new ([], pt) = (new, (batch_all new pt)\<lparr>pt_globalNodeIndex := Some i\<rparr>)"
      "gi_Get (te_index te) i = put_index (info_map (compacted ns es)) new"
    unfolding ix' by auto
  have "batch_all new pt = pt\<lparr>pt_globalCommitBatch := Some (batch_of new), pt_globalCommitDirty := True\<rparr>"
    using c new(1) fold_batch_put [OF c(2), of new] by (simp add: batch_all_def batch_of_def)
  with i(1) c(1) have p: "putGlobalNodeInfos te new b pt =
      (None, pt\<lparr>pt_globalCommitBatch := Some (batch_of new), pt_globalCommitDirty := True, pt_globalNodeIndex := Some i\<rparr>)"
    by (simp add: putGlobalNodeInfos_def)
  have "gi_Get (te_index te) i = put_index (info_map (compacted ns' es')) new"
    if "map_of (pt_files pt) globalFileName = Some bs'" "file_holds (te_zstd te) bs' ns' es'" for bs' ns' es'
  proof -
    have "encodeNodeEntries ns' = encodeNodeEntries ns" "concat es' = concat es"
      using that f holds_slices [OF f(2)] file_holds_slices [OF that(2)] by simp_all
    then have "compacted ns' es' = compacted ns es" by (simp add: compacted_def)
    with i(2) show ?thesis by simp
  qed
  with p show ?thesis by blast
qed

lemma commit_fields [simp]:
  "dir_ok (pt\<lparr>pt_globalCommitDepth := n\<rparr>) = dir_ok pt" "dir_ok (pt\<lparr>pt_globalCommitBlockID := w\<rparr>) = dir_ok pt"
  "dir_ok (pt\<lparr>pt_globalCommitDirty := t\<rparr>) = dir_ok pt" "dir_ok (pt\<lparr>pt_globalCommitBatch := m\<rparr>) = dir_ok pt"
  "dir_ok (pt\<lparr>pt_globalNodeIndex := i\<rparr>) = dir_ok pt"
  "bucket_part (pt\<lparr>pt_globalCommitDepth := n\<rparr>) = bucket_part pt" "bucket_part (pt\<lparr>pt_globalCommitBlockID := w\<rparr>) = bucket_part pt"
  "bucket_part (pt\<lparr>pt_globalCommitDirty := t\<rparr>) = bucket_part pt" "bucket_part (pt\<lparr>pt_globalCommitBatch := m\<rparr>) = bucket_part pt"
  "bucket_part (pt\<lparr>pt_globalNodeIndex := i\<rparr>) = bucket_part pt"
  "global_ok te room (pt\<lparr>pt_globalCommitDepth := n\<rparr>) a = global_ok te room pt a"
  "global_ok te room (pt\<lparr>pt_globalCommitBlockID := w\<rparr>) a = global_ok te room pt a"
  "global_ok te room (pt\<lparr>pt_globalCommitDirty := t\<rparr>) a = global_ok te room pt a"
  "global_ok te room (pt\<lparr>pt_globalCommitBatch := m\<rparr>) a = global_ok te room pt a"
  by (simp_all add: dir_ok_def tree_shape_def bucket_part_def global_ok_def)

lemma buckets_ok_same: "buckets_ok z room pt a \<Longrightarrow> bucket_part pt' = bucket_part pt \<Longrightarrow> buckets_ok z room pt' a"
  by (erule buckets_ok_frame) (simp_all add: same_on_def)

lemma begin_fields:
  assumes "no_commit pt"
  shows "beginGlobalCommitWithBlockID b pt =
    pt\<lparr>pt_globalCommitDepth := 1, pt_globalCommitBatch := Some [], pt_globalCommitBlockID := b\<rparr>"
  using assms by (auto simp: beginGlobalCommitWithBlockID_def no_commit_def word_gt_0 split: option.split)

lemma core_after_begin:
  assumes "tree_core te room pt a" "no_commit pt" and q: "q = beginGlobalCommitWithBlockID b pt"
  shows "dir_ok q" "buckets_ok (te_zstd te) room q a" "global_ok te room q a" "pt_globalCommitDepth q = 1"
    "pt_globalCommitBatch q = Some []" "pt_globalCommitBlockID q = b" "\<not> pt_globalCommitDirty q" "tree_shape q"
  using assms(1,2) unfolding q begin_fields [OF assms(2)]
  by (auto simp: tree_core_def no_commit_def dir_ok_def tree_shape_def intro: buckets_ok_same)

lemma commit_core:
  assumes env: "env_ok te limit" "room + 2 * length es + 1 \<le> limit" and c: "tree_core te room pt a" "no_commit pt"
    and es: "es \<noteq> []" "\<forall>n \<in> set es. ni_key n \<noteq> []" "put_guard es a"
  shows "\<exists>pt'. commit_entries te es b pt = (None, pt') \<and> tree_core te (room + 2 * length es + 1) pt' (abs_put es a) \<and> no_commit pt'"
proof -
  let ?g = "globals es" and ?room = "room + 2 * length es + 1" and ?z = "te_zstd te"
  define q where "q = beginGlobalCommitWithBlockID b pt"
  note q = core_after_begin [OF c q_def]
  have short: "\<forall>n \<in> set ?g. short_key (ni_key n)" using globals_short [OF es(2)] by blast
  have guard: "put_guard ?g a" unfolding globals_def by (rule guard_file [OF es(3)])
  have put: "PutNodeInfosWithBlockID te es b q =
      (case (if 0 < length ?g then putGlobalNodeInfos te ?g b q else (None, q)) of
         (Some e, pt1) \<Rightarrow> (Some e, pt1) | (None, pt1) \<Rightarrow> append_groups te b (groups es) pt1)"
    using es(1,2) q(1) by (simp add: PutNodeInfosWithBlockID_def group_entries_eq dir_ok_def list_ex_iff)
  have stage: "\<exists>pt2. append_groups te b (groups es) pt1 = (None, pt2) \<and> dir_ok pt2 \<and> global_part pt2 = global_part pt1 \<and>
      buckets_ok ?z ?room pt2 (abs_put es a)" if "dir_ok pt1" "bucket_part pt1 = bucket_part q" for pt1
  proof -
    have "buckets_ok ?z room pt1 (abs_put ?g a)"
      by (rule buckets_ok_frame [OF q(2) that(2) short_keys_frame(1) [OF short] order_refl short_keys_frame(2) [OF short]])
    from bucket_stage [OF env(1) _ that(1) this es(2,3), of b] env(2) obtain pt2 where p2:
      "append_groups te b (groups es) pt1 = (None, pt2)" "dir_ok pt2" "global_part pt2 = global_part pt1"
      "buckets_ok ?z (room + 2 * length es) pt2 (abs_put es a)" by auto
    from p2(4) have "buckets_ok ?z ?room pt2 (abs_put es a)" by (rule buckets_ok_frame) (simp_all add: same_on_def)
    with p2 show ?thesis by blast
  qed
  show ?thesis
  proof (cases "?g = []")
    case True
    obtain pt2 where p2: "append_groups te b (groups es) q = (None, pt2)" "dir_ok pt2" "global_part pt2 = global_part q"
      "buckets_ok ?z ?room pt2 (abs_put es a)" using stage [OF q(1) refl] by blast
    let ?e = "pt2\<lparr>pt_globalCommitDepth := 0, pt_globalCommitBlockID := 0\<rparr>"
    have fields: "pt_globalCommitDepth pt2 = 1" "\<not> pt_globalCommitDirty pt2" "pt_globalCommitBatch pt2 = Some []"
      using p2(3) q(4,5,7) by (simp_all add: global_part_def)
    then have "commit_entries te es b pt = (None, ?e)"
      using put True p2(1) by (simp add: commit_entries_def q_def [symmetric] endGlobalCommit_def)
    moreover have "global_ok te ?room pt2 (abs_put es a)"
      using groups_frame_short [of es a] True by (intro global_ok_frame [OF q(3) p2(3)]) simp_all
    then have "tree_core te ?room ?e (abs_put es a)"
      using p2(2,4) by (auto simp: tree_core_def intro: buckets_ok_same)
    moreover have "no_commit ?e" using fields by (simp add: no_commit_def)
    ultimately show ?thesis by blast
  next
    case False
    obtain ix where ix: "putGlobalNodeInfos te ?g b q =
        (None, q\<lparr>pt_globalCommitBatch := Some (batch_of ?g), pt_globalCommitDirty := True, pt_globalNodeIndex := Some ix\<rparr>)"
      "\<And>bs ns es'. map_of (pt_files q) globalFileName = Some bs \<Longrightarrow> file_holds ?z bs ns es' \<Longrightarrow>
         gi_Get (te_index te) ix = put_index (info_map (compacted ns es')) ?g"
      using put_global_batched [OF env(1) q(3,4,5) False short guard, of b] by blast
    let ?p = "q\<lparr>pt_globalCommitBatch := Some (batch_of ?g), pt_globalCommitDirty := True, pt_globalNodeIndex := Some ix\<rparr>"
    have "dir_ok ?p" "bucket_part ?p = bucket_part q" using q(1) by simp_all
    from stage [OF this] obtain pt2 where p2: "append_groups te b (groups es) ?p = (None, pt2)" "dir_ok pt2"
      "global_part pt2 = global_part ?p" "buckets_ok ?z ?room pt2 (abs_put es a)" by blast
    let ?c = "pt2\<lparr>pt_globalCommitDepth := 0\<rparr>"
    obtain bs ns es' where f: "pt_globalFileOpen q" "map_of (pt_files q) globalFileName = Some bs" "file_holds ?z bs ns es'"
      "length ns + length es' \<le> room" "keys_ok ns es' short_key a" "pt_globalHeader q = decodeFileNodeHeader bs"
      by (rule global_okE [OF q(3)]) blast
    have gp: "pt_globalFileOpen ?c" "map_of (pt_files ?c) globalFileName = Some bs" "pt_globalHeader ?c = decodeFileNodeHeader bs"
      "pt_globalNodeIndex ?c = Some ix" "pt_globalCommitBatch ?c = Some (batch_of ?g)" "pt_globalCommitDepth pt2 = 1"
      "pt_globalCommitDirty ?c" "pt_globalCommitBlockID ?c = b"
      using p2(3) f q(4,6) by (simp_all add: global_part_def)
    note bok = batched_ok [OF short guard]
    have be: "batch_entries ?c = batched ?g" using gp(5) by (simp add: batch_entries_def batched_def cloneNodeInfo_def comp_def)
    have ne: "batched ?g \<noteq> []" using bok(6) False by simp
    have "length ?g \<le> length es" by (simp add: globals_def)
    with bok(5) have len: "room + length (batched ?g) + 1 \<le> ?room" by simp
    have "gi_Get (te_index te) ix = put_index (info_map (compacted ns es')) (batched ?g)" using ix(2) [OF f(2,3)] bok(4) by simp
    from global_written [OF _ _ gp(1,2) f(3,4,5) gp(3) ne bok(1,2) len gp(4) this, of b] env(1) p2(2)
    obtain pt3 where p3: "appendGlobalNodeEntriesWithBlockID te (batched ?g) b ?c = (None, pt3)" "dir_ok pt3"
      "bucket_part pt3 = bucket_part ?c" "commit_part pt3 = commit_part ?c" "global_ok te ?room pt3 (abs_put ?g a)"
      unfolding bok(3) by (auto simp: env_ok_def)
    let ?e = "pt3\<lparr>pt_globalCommitDirty := False, pt_globalCommitBlockID := 0, pt_globalCommitBatch := Some []\<rparr>"
    have fields: "pt_globalCommitDepth pt3 = 0" "pt_globalCommitBatch pt3 = Some (batch_of ?g)"
      using p3(4) gp(5) by (simp_all add: commit_part_def)
    have end_: "endGlobalCommit te pt2 = (None, ?e)"
      using gp(6,7,8) be ne p3(1) fields by (simp add: endGlobalCommit_def)
    have "commit_entries te es b pt = (None, ?e)"
      using put ix(1) False p2(1) end_ by (simp add: commit_entries_def q_def [symmetric])
    moreover have "global_ok te ?room pt3 (abs_put es a)"
      by (rule global_ok_frame [OF p3(5) refl groups_frame_short order_refl])
    then have "tree_core te ?room ?e (abs_put es a)"
      using p3(2,3) buckets_ok_same [OF p2(4), of ?e] by (simp add: tree_core_def)
    moreover have "no_commit ?e" using fields by (simp add: no_commit_def)
    ultimately show ?thesis by blast
  qed
qed

lemma removed_frame:
  "\<not> short_key k \<Longrightarrow> same_on short_key a (abs_remove k a)" "short_key k \<Longrightarrow> same_on (\<lambda>k. \<not> short_key k) a (abs_remove k a)"
  "tm_files (abs_remove k a) = tm_files a"
  by (auto simp: same_on_def abs_remove_def)

lemma delete_global:
  assumes env: "env_ok te limit" and g: "global_ok te room pt a" and d: "dir_ok pt" "pt_globalCommitDepth pt = 0" and k: "short_key key"
  shows "\<exists>pt'. deleteFromGlobalFileNode te key pt = (fst (abs_delete key a), pt') \<and> dir_ok pt' \<and> bucket_part pt' = bucket_part pt \<and>
    commit_part pt' = commit_part pt \<and> global_ok te (room + 1) pt' (snd (abs_delete key a))"
proof -
  obtain bs ns es ix where f: "pt_globalFileOpen pt" "map_of (pt_files pt) globalFileName = Some bs"
    "file_holds (te_zstd te) bs ns es" "length ns + length es \<le> room" "keys_ok ns es short_key a"
    "pt_globalHeader pt = decodeFileNodeHeader bs" and ix: "pt_globalNodeIndex pt = Some ix"
    "\<And>k. gi_Get (te_index te) ix k = info_map (compacted ns es) k"
    by (rule global_okE [OF g]) blast
  have key: "key \<noteq> []" "\<not> 6 \<le> length key" "nodeLookupKey key = key" using k by (auto simp: short_key_def nodeLookupKey_def MaxKeySize_def)
  have found: "gi_Get (te_index te) ix key = tm_map a key" using index_lookup [OF f(5,3) k] ix(2) by simp
  have more: "global_ok te (room + 1) pt a" by (rule global_ok_frame [OF g refl]) (simp_all add: same_on_def)
  show ?thesis
  proof (cases "tm_map a key = None")
    case True
    with found ix(1) key d(1) more show ?thesis by (simp add: deleteFromGlobalFileNode_def abs_delete_def)
  next
    case False
    let ?t = "tombstoneNodeInfo key" and ?ix = "gi_Remove (te_index te) ix key"
    let ?p = "pt\<lparr>pt_globalNodeIndex := Some ?ix\<rparr>" and ?x = "encodeNodeEntry (tombstoneNodeInfo key)"
    let ?pt = "?p\<lparr>pt_files := AList.update globalFileName (bs @ ?x) (pt_files ?p)\<rparr>"
    have sh: "tree_shape ?p" "te_nio te = no_faults" using d(1) env by (simp_all add: dir_ok_def tree_shape_def env_ok_def)
    have app: "appendGlobalNodeEntriesWithBlockID te [?t] 0 ?p = (None, ?pt)"
      using append_global [OF sh(2), of ?p bs "[?t]" 0] f(1,2) sh(1) by (simp add: entries_of_def)
    have del: "deleteFromGlobalFileNode te key pt = (Inr True, ?pt)"
      using found False ix(1) d(2) app by (simp add: deleteFromGlobalFileNode_def)
    have fh: "file_holds (te_zstd te) (bs @ ?x) ns (es @ [?x])" using file_holds_append [OF f(3), of "[?x]"] by simp
    have keys: "keys_ok ns (es @ [?x]) short_key (abs_remove key a)" using keys_ok_tombstone [OF f(5) key(1)] by (simp add: key(3))
    have t: "isNodeInfoTombstone (stored_info ?t)" "ni_key (stored_info ?t) = key" "\<not> isNodeCommitTagEntry ?x"
      using key(1,3) by (auto simp: tombstoneNodeInfo_def isNodeInfoTombstone_def zero_info_def stored_info_def nodeLookupKey_take intro!: entry_not_tag)
    have map: "info_map (compacted ns (es @ [?x])) k' = (if k' = key then None else info_map (compacted ns es) k')" for k'
    proof (cases "k' = []")
      case True
      with compacted_no_empty_key [OF fh] compacted_no_empty_key [OF f(3)] show ?thesis by simp
    next
      case ne: False
      from compacted_ok(4) [OF fh ne] compacted_ok(4) [OF f(3) ne] t show ?thesis
        by (auto simp: decode_encode_entry compact_value_def compact_step_def)
    qed
    have "global_ok te (room + 1) ?pt (abs_remove key a)"
      unfolding global_ok_def
    proof (intro conjI exI)
      show "\<forall>k'. gi_Get (te_index te) ?ix k' = info_map (compacted ns (es @ [?x])) k'"
        using env ix(2) map by (simp add: env_ok_def index_laws_def)
      show "map_of (pt_files ?pt) globalFileName = Some (bs @ ?x)" by (simp add: update_conv')
      show "pt_globalHeader ?pt = decodeFileNodeHeader (bs @ ?x)" using f(6) appended_header [OF f(3)] by simp
    qed (use f(1,4) fh keys in simp_all)
    moreover have "globalFileName = file_of [0]" by (simp add: file_of_def)
    then have "globalFileName \<in> range file_of" by (rule range_eqI)
    then have "dir_ok ?pt" by (intro dir_ok_update [OF d(1)]) (use sh(1) in \<open>simp_all add: tree_shape_def\<close>)
    ultimately show ?thesis
      using del False key by (auto simp: abs_delete_def bucket_part_def commit_part_def update_conv')
  qed
qed

lemma delete_core:
  assumes env: "env_ok te limit" "room + 1 \<le> limit" and c: "tree_core te room pt a" "pt_globalCommitDepth pt = 0"
  shows "\<exists>pt'. tree_Delete te key pt = (fst (abs_delete key a), pt') \<and> tree_core te (room + 1) pt' (snd (abs_delete key a)) \<and>
    commit_part pt' = commit_part pt"
proof -
  have d: "dir_ok pt" "buckets_ok (te_zstd te) room pt a" "global_ok te room pt a" "tree_shape pt"
    using c(1) by (simp_all add: tree_core_def dir_ok_def)
  show ?thesis
  proof (cases "key = [] \<or> 6 \<le> length key")
    case True
    show ?thesis
    proof (cases "key = []")
      case True
      then show ?thesis using tree_core_mono [OF c(1), of "room + 1"] by (simp add: tree_Delete_def abs_delete_def)
    next
      case False
      with True have l: "6 \<le> length key" by simp
      obtain pt' where p: "deleteFromFileNode te (file_of key) key pt = (fst (abs_delete key a), pt')" "dir_ok pt'"
        "global_part pt' = global_part pt" "buckets_ok (te_zstd te) (room + 1) pt' (snd (abs_delete key a))"
        using delete_bucket [OF env d(1,2) l] by blast
      have "\<not> short_key (nodeLookupKey key)" using l by (auto simp: short_key_def nodeLookupKey_def MaxKeySize_def)
      then have "same_on short_key a (snd (abs_delete key a))"
        using removed_frame(1) by (auto simp: abs_delete_def same_on_def)
      from global_ok_frame [OF d(3) p(3) this, of "room + 1"] p global_part_commit [OF p(3)] False d(4) show ?thesis
        by (auto simp: tree_Delete_def fileIDForKey_file_of tree_core_def)
    qed
  next
    case False
    then have k: "short_key key" "key \<noteq> []" "fileIDForKey pt key = pt_globalFileID pt"
      using d(4) by (auto simp: short_key_def fileIDForKey_def tree_shape_def)
    obtain pt' where p: "deleteFromGlobalFileNode te key pt = (fst (abs_delete key a), pt')" "dir_ok pt'" "bucket_part pt' = bucket_part pt"
      "commit_part pt' = commit_part pt" "global_ok te (room + 1) pt' (snd (abs_delete key a))"
      using delete_global [OF env(1) d(3,1) c(2) k(1)] by blast
    have s: "nodeLookupKey key = key" using k(1) by (auto simp: short_key_def nodeLookupKey_def MaxKeySize_def)
    have "same_on (\<lambda>k. \<not> short_key k) a (snd (abs_delete key a))" "tm_files (snd (abs_delete key a)) = tm_files a"
      using removed_frame(2) [OF k(1)] removed_frame(3) [of key a] by (auto simp: abs_delete_def same_on_def s)
    with buckets_ok_frame [OF d(2) p(3), of "snd (abs_delete key a)" "room + 1"] p k(2,3) show ?thesis
      by (simp add: tree_Delete_def deleteFromFileNode_def tree_core_def)
  qed
qed

definition abs_get :: "bytes \<Rightarrow> tree_map \<Rightarrow> node_error + NodeInfo option" where
  "abs_get key a = (if key = [] then Inl EmptyKey else Inr (tm_map a (nodeLookupKey key)))"

lemma get_core:
  assumes env: "env_ok te limit" and c: "tree_core te room pt a"
  shows "\<exists>pt'. tree_Get te key pt = (abs_get key a, pt') \<and> tree_core te room pt' a \<and> commit_part pt' = commit_part pt"
proof -
  have d: "dir_ok pt" "buckets_ok (te_zstd te) room pt a" "global_ok te room pt a" "tree_shape pt"
    using c by (simp_all add: tree_core_def dir_ok_def)
  consider "key = []" | "short_key key" | "6 \<le> length key" by (fastforce simp: short_key_def)
  then show ?thesis
  proof cases
    case 1
    with c show ?thesis by (simp add: tree_Get_def abs_get_def)
  next
    case 2
    then have "key \<noteq> []" "fileIDForKey pt key = pt_globalFileID pt" "nodeLookupKey key = key"
      using d(4) by (auto simp: short_key_def fileIDForKey_def tree_shape_def nodeLookupKey_def MaxKeySize_def)
    with c get_global [OF d(3) 2] show ?thesis by (simp add: tree_Get_def getFromFileNode_def abs_get_def)
  next
    case 3
    then have ne: "key \<noteq> []" by auto
    obtain pt' where p: "getFromFileNode te (file_of key) key pt = (Inr (tm_map a (nodeLookupKey key)), pt')" "dir_ok pt'"
      "global_part pt' = global_part pt" "buckets_ok (te_zstd te) room pt' a" using get_bucket [OF env d(1,2) 3] by blast
    have "global_ok te room pt' a" by (rule global_ok_frame [OF d(3) p(3)]) (simp_all add: same_on_def)
    with p global_part_commit [OF p(3)] ne d(4) show ?thesis by (simp add: tree_Get_def fileIDForKey_file_of tree_core_def abs_get_def)
  qed
qed

section \<open>Compaction of the whole tree\<close>

lemma gc_core:
  assumes "env_ok te limit" "room \<le> limit" "tree_core te room pt a"
  shows "tree_core te room (processGCJob te f pt) a" "commit_part (processGCJob te f pt) = commit_part pt"
    "pt_gcInFlight (processGCJob te f pt) = (pt_gcInFlight pt)(f := None)"
proof -
  have d: "dir_ok pt" "buckets_ok (te_zstd te) room pt a" "global_ok te room pt a" using assms(3) by (simp_all add: tree_core_def)
  note g = processGCJob_ok [OF assms(1,2) d(1,2), of f]
  have "global_ok te room (processGCJob te f pt) a" by (rule global_ok_frame [OF d(3) g(3)]) (simp_all add: same_on_def)
  with g global_part_commit [OF g(3)] show "tree_core te room (processGCJob te f pt) a" "commit_part (processGCJob te f pt) = commit_part pt"
    "pt_gcInFlight (processGCJob te f pt) = (pt_gcInFlight pt)(f := None)" by (simp_all add: tree_core_def)
qed

lemma gc_fold_core:
  assumes "env_ok te limit" "room \<le> limit" "tree_core te room pt a"
  shows "tree_core te room (fold (processGCJob te) fs pt) a" "commit_part (fold (processGCJob te) fs pt) = commit_part pt"
    "pt_gcInFlight (fold (processGCJob te) fs pt) = (\<lambda>f. if f \<in> set fs then None else pt_gcInFlight pt f)"
  using assms(3)
proof (induction fs arbitrary: pt)
  case (Cons f fs)
  case 1 then show ?case using Cons(1) gc_core(1) [OF assms(1,2)] by simp
  case 2 then show ?case using Cons(2) gc_core(1,2) [OF assms(1,2)] by simp
  case 3 then show ?case using Cons(3) gc_core(1,3) [OF assms(1,2)] by (auto simp: fun_eq_iff)
qed (simp_all add: fun_eq_iff)

lemma rebuild_get:
  assumes "index_laws g" "distinct (map ni_key ns)"
  shows "gi_Get g (rebuild_index g ns) k = info_map ns k"
proof -
  have "gi_Get g (fold (\<lambda>e s. gi_Set g s (ni_key e) (cloneNodeInfo e)) ns s) k =
      (case info_map ns k of None \<Rightarrow> gi_Get g s k | Some n \<Rightarrow> Some n)" for s
    using assms(2)
  proof (induction ns arbitrary: s)
    case (Cons n ns)
    have "info_map ns (ni_key n) = None" using Cons.prems by (simp add: map_of_eq_None_iff image_image)
    with Cons show ?case using assms(1) by (auto simp: index_laws_def split: option.split)
  qed simp
  then show ?thesis using assms(1) by (simp add: rebuild_index_def index_laws_def split: option.split)
qed

lemma sorted_infos_distinct: "sorted_infos ns \<Longrightarrow> distinct (map ni_key ns)"
  by (auto simp: sorted_infos_def sorted_wrt_map [symmetric] strict_sorted_iff)

lemma compacted_again:
  assumes "file_holds z f ns []"
  shows "info_map (compacted ns []) = info_map ns"
proof
  fix k
  show "info_map (compacted ns []) k = info_map ns k"
  proof (cases "k = []")
    case True
    have "info_map ns [] = None"
      using file_holds_sorted [OF assms] by (auto simp: sorted_infos_def valid_info_def map_of_eq_None_iff)
    with True compacted_no_empty_key [OF assms] show ?thesis by simp
  qed (use compacted_ok(4) [OF assms] in \<open>simp add: compact_value_def\<close>)
qed

text \<open>A global file that is replaced by its compacted entries.\<close>

lemma global_compacted:
  assumes env: "env_ok te limit" "room \<le> limit" and f: "file_holds (te_zstd te) bs ns es" "length ns + length es \<le> room" "keys_ok ns es short_key a"
    and enc: "encodeNodeFilePayload (te_zstd te) (new_header\<lparr>fh_SortedEntryCount := w\<rparr>) (encodeNodeEntries (compacted ns es)) [] c = (payload, h)"
    and p: "pt_globalFileOpen pt" "map_of (pt_files pt) globalFileName = Some (encodeFileNodeAndPayload h payload)" "pt_globalHeader pt = h"
      "pt_globalNodeIndex pt = Some ix" "\<And>k. gi_Get (te_index te) ix k = info_map (compacted ns es) k"
  shows "global_ok te room pt a"
proof -
  have len: "length (compacted ns es) \<le> room" using compacted_ok(3) [OF f(1)] f(2) by simp
  then have "length (compacted ns es) \<le> limit" using env(2) by simp
  note new = encoded_file [OF env(1) compacted_ok(1,2) [OF f(1)] this enc]
  have "keys_ok (compacted ns es) [] short_key a" by (rule keys_ok_compacted [OF f(1,3)]) (simp add: short_key_def)
  with new p len compacted_again [OF new(1)] show ?thesis
    unfolding global_ok_def by (intro conjI exI [of _ "encodeFileNodeAndPayload h payload"] exI [of _ "compacted ns es"] exI [of _ "[]"] exI [of _ ix]) simp_all
qed

lemma global_in_range: "globalFileName \<in> range file_of"
proof -
  have "globalFileName = file_of [0]" by (simp add: file_of_def)
  then show ?thesis by (rule range_eqI)
qed

lemma compact_global:
  assumes env: "env_ok te limit" "room \<le> limit" and d: "dir_ok pt" "global_ok te room pt a"
    and s: "snapshot_ok (te_zstd te) (map_of (pt_files pt) globalFileName) st"
  shows "\<exists>pt'. compactFileFromState te globalFileName st pt = (None, pt') \<and> dir_ok pt' \<and> bucket_part pt' = bucket_part pt \<and>
    commit_part pt' = commit_part pt \<and> global_ok te room pt' a"
proof -
  obtain bs ns es where f: "map_of (pt_files pt) globalFileName = Some bs"
    "file_holds (te_zstd te) bs ns es" "length ns + length es \<le> room" "keys_ok ns es short_key a"
    by (rule global_okE [OF d(2)]) blast
  let ?ns = "compacted ns es"
  have e: "buildEntriesFromSlices (gs_sorted st) (gs_unsorted st) = ?ns"
    using s f(1) holds_slices [OF f(2)] by (auto simp: snapshot_ok_def compacted_def)
  have id: "pt_globalFileID pt = globalFileName" "te_nio te = no_faults" "index_laws (te_index te)"
    using d(1) env(1) by (simp_all add: dir_ok_def tree_shape_def env_ok_def)
  have inv: "invalidateFileNodeCache globalFileName pt = pt" by (simp add: invalidateFileNodeCache_def id)
  obtain payload h where enc: "encodeNodeFilePayload (te_zstd te) (new_header\<lparr>fh_SortedEntryCount := word_of_nat (length ?ns)\<rparr>)
      (encodeNodeEntries ?ns) [] (pt_compressSorted pt) = (payload, h)" by fastforce
  define q where "q = pt\<lparr>pt_files := AList.update globalFileName (encodeFileNodeAndPayload h payload) (pt_files pt),
    pt_globalHeader := h, pt_globalNodeIndex := Some (rebuild_index (te_index te) ?ns), pt_globalFileOpen := True, pt_gcCount := pt_gcCount pt + 1\<rparr>"
  have "compactFileFromState te globalFileName st pt = (None, q)"
    unfolding compactFileFromState_def Let_def e inv using enc replace_file_ok [OF d(1)] id by (simp add: q_def)
  moreover have "global_ok te room q a"
  proof (rule global_compacted [OF env f(2-4) enc])
    show "pt_globalNodeIndex q = Some (rebuild_index (te_index te) ?ns)" by (simp add: q_def)
    show "gi_Get (te_index te) (rebuild_index (te_index te) ?ns) k = info_map ?ns k" for k
      by (rule rebuild_get [OF id(3) sorted_infos_distinct [OF compacted_ok(1) [OF f(2)]]])
  qed (simp_all add: q_def update_conv')
  moreover have "tree_shape q" using d(1) by (simp add: q_def dir_ok_def tree_shape_def)
  then have "dir_ok q" by (rule dir_ok_update [OF d(1) _ _ global_in_range]) (simp add: q_def)
  ultimately show ?thesis by (auto simp: q_def bucket_part_def commit_part_def update_conv')
qed

lemma gc_state_snapshot:
  assumes "buildGCStateFromFile te f pt = Inr (Some st)"
  shows "snapshot_ok (te_zstd te) (map_of (pt_files pt) f) st"
  using assms
  by (auto simp: buildGCStateFromFile_def snapshot_ok_def file_slices_def Let_def split: if_splits option.splits sum.splits prod.splits)

lemma finish_fields:
  "global_ok te room (finishGC f pt) a = global_ok te room pt a" "commit_part (finishGC f pt) = commit_part pt"
  by (simp_all add: finishGC_def global_ok_def commit_part_def)

lemma compact_one_core:
  assumes env: "env_ok te limit" "room \<le> limit" and c: "tree_core te room (snd acc) a"
  shows "tree_core te room (snd (compact_one te f acc)) a" "commit_part (snd (compact_one te f acc)) = commit_part (snd acc)"
proof -
  obtain n pt where acc: "acc = (n, pt)" by fastforce
  have d: "dir_ok pt" "buckets_ok (te_zstd te) room pt a" "global_ok te room pt a" using c by (simp_all add: tree_core_def acc)
  have "tree_core te room (snd (compact_one te f acc)) a \<and> commit_part (snd (compact_one te f acc)) = commit_part pt"
  proof (cases "\<exists>st. buildGCStateFromFile te f pt = Inr (Some st) \<and> fh_UnsortedEntryCount (gs_header st) \<noteq> 0 \<and> pt_gcInFlight pt f = None")
    case False
    then have "compact_one te f acc = (n, pt)" by (auto simp: compact_one_def acc split: sum.split option.split)
    with c show ?thesis by (simp add: acc)
  next
    case True
    then obtain st where st: "buildGCStateFromFile te f pt = Inr (Some st)" "fh_UnsortedEntryCount (gs_header st) \<noteq> 0" "pt_gcInFlight pt f = None" by blast
    let ?p = "pt\<lparr>pt_gcInFlight := (pt_gcInFlight pt)(f \<mapsto> st)\<rparr>"
    have one: "snd (compact_one te f acc) = finishGC f (snd (compactFileFromState te f st ?p))"
      using st by (simp add: compact_one_def acc split: prod.split)
    note s = gc_state_snapshot [OF st(1)]
    have gp: "global_ok te room ?p a" "commit_part ?p = commit_part pt" "dir_ok ?p"
      using d(1,3) by (simp_all add: global_ok_def commit_part_def)
    show ?thesis
    proof (cases "f = globalFileName")
      case True
      have "snapshot_ok (te_zstd te) (map_of (pt_files ?p) globalFileName) st" using s True by simp
      from compact_global [OF env gp(3,1) this] obtain q where q: "compactFileFromState te globalFileName st ?p = (None, q)" "dir_ok q"
        "bucket_part q = bucket_part ?p" "commit_part q = commit_part ?p" "global_ok te room q a" by blast
      have "bucket_part (finishGC f q) = bucket_part pt"
        using q(3) st(3) True by (auto simp: bucket_part_def finishGC_def)
      from buckets_ok_same [OF d(2) this] q gp(2) show ?thesis
        unfolding one by (simp add: True tree_core_def finish_fields)
    next
      case False
      have cc: "cache_inv ?p = cache_inv pt" "cache_entry ?p = cache_entry pt" by (simp_all add: cache_inv_def cache_entry_def fun_eq_iff)
      have "buckets_ok (te_zstd te) room ?p a"
        using d(2) s False unfolding buckets_ok_def cc by auto
      from gc_core [OF env, of ?p a f] this gp d(1) have "tree_core te room (processGCJob te f ?p) a" "commit_part (processGCJob te f ?p) = commit_part pt"
        by (simp_all add: tree_core_def)
      moreover have "processGCJob te f ?p = snd (compact_one te f acc)" by (simp add: one processGCJob_def)
      ultimately show ?thesis by simp
    qed
  qed
  then show "tree_core te room (snd (compact_one te f acc)) a" "commit_part (snd (compact_one te f acc)) = commit_part (snd acc)"
    by (simp_all add: acc)
qed

lemma compact_all_core:
  assumes env: "env_ok te limit" "room \<le> limit" and c: "tree_core te room pt a"
  shows "tree_core te room (snd (CompactAllNodeFiles te pt)) a" "commit_part (snd (CompactAllNodeFiles te pt)) = commit_part pt"
proof -
  have "tree_core te room (snd (fold (compact_one te) fs acc)) a \<and> commit_part (snd (fold (compact_one te) fs acc)) = commit_part (snd acc)"
    if "tree_core te room (snd acc) a" for fs acc
    using that by (induction fs arbitrary: acc) (simp_all add: compact_one_core [OF env])
  from this [of "(_, fold (processGCJob te) _ pt)"] gc_fold_core [OF env c]
  show "tree_core te room (snd (CompactAllNodeFiles te pt)) a" "commit_part (snd (CompactAllNodeFiles te pt)) = commit_part pt"
    by (simp_all add: CompactAllNodeFiles_def Let_def)
qed

section \<open>Closing and opening\<close>

lemma front_sorted_infos:
  assumes "index_laws g" "\<And>k. gi_Get g ix k = info_map ns k" "sorted_infos ns"
  shows "map snd (gi_Front g ix) = ns"
proof -
  let ?f = "gi_Front g ix" and ?m = "map (\<lambda>n. (ni_key n, n)) ns"
  have f: "sorted (map fst ?f)" "distinct (map fst ?f)" "\<And>k. map_of ?f k = gi_Get g ix k" using assms(1) by (simp_all add: index_laws_def)
  have keys: "map fst ?m = map ni_key ns" by simp
  have m: "sorted (map fst ?m)" "distinct (map fst ?m)"
    unfolding keys using assms(3) by (auto simp: sorted_infos_def sorted_wrt_map [symmetric] strict_sorted_iff)
  have "map_of ?f = map_of ?m" using f(3) assms(2) by (intro ext) simp
  then have "set ?f = set ?m" using map_of_inject_set [OF f(2) m(2)] by simp
  moreover have "inj_on fst (set ?f \<union> set ?m)" using calculation f(2) by (simp add: distinct_map)
  ultimately have "?f = ?m" using f(1,2) m by (intro map_sorted_distinct_set_unique [of fst])
  then show ?thesis by (simp add: comp_def)
qed

lemma rewrite_core:
  assumes env: "env_ok te limit" "room \<le> limit" and c: "tree_core te room pt a"
  shows "\<exists>pt'. rewriteGlobalNodeFileLocked te pt = (None, pt') \<and> tree_core te room pt' a"
proof -
  have d: "dir_ok pt" "buckets_ok (te_zstd te) room pt a" "global_ok te room pt a" using c by (simp_all add: tree_core_def)
  obtain bs ns es ix where f: "map_of (pt_files pt) globalFileName = Some bs"
    "file_holds (te_zstd te) bs ns es" "length ns + length es \<le> room" "keys_ok ns es short_key a"
    and ix: "pt_globalNodeIndex pt = Some ix" "\<And>k. gi_Get (te_index te) ix k = info_map (compacted ns es) k"
    by (rule global_okE [OF d(3)]) blast
  let ?ns = "compacted ns es"
  have id: "pt_globalFileID pt = globalFileName" "te_nio te = no_faults" "index_laws (te_index te)" "pt\<lparr>pt_globalNodeIndex := Some ix\<rparr> = pt"
    using d(1) env(1) ix(1) by (simp_all add: dir_ok_def tree_shape_def env_ok_def)
  have entries: "map (cloneNodeInfo \<circ> snd) (gi_Front (te_index te) ix) = ?ns"
    using front_sorted_infos [OF id(3) ix(2) compacted_ok(1) [OF f(2)]] by (simp add: comp_def)
  obtain payload h where enc: "encodeNodeFilePayload (te_zstd te) (new_header\<lparr>fh_SortedEntryCount := word_of_nat (length ?ns)\<rparr>)
      (encodeNodeEntries ?ns) [] (pt_compressSorted pt) = (payload, h)" by fastforce
  define q where "q = pt\<lparr>pt_files := AList.update globalFileName (encodeFileNodeAndPayload h payload) (pt_files pt),
    pt_globalFileOpen := True, pt_globalHeader := h\<rparr>"
  have "rewriteGlobalNodeFileLocked te pt = (None, q)"
    unfolding rewriteGlobalNodeFileLocked_def Let_def ix(1) option.case entries
    using enc replace_file_ok [OF d(1)] id by (simp add: q_def)
  moreover have "global_ok te room q a"
    by (rule global_compacted [OF env f(2-4) enc _ _ _ _ ix(2)]) (simp_all add: q_def update_conv' ix(1))
  moreover have "tree_shape q" using d(1) by (simp add: q_def dir_ok_def tree_shape_def)
  then have "dir_ok q" by (rule dir_ok_update [OF d(1) _ _ global_in_range]) (simp add: q_def)
  moreover have "buckets_ok (te_zstd te) room q a"
    by (rule buckets_ok_same [OF d(2)]) (simp add: q_def bucket_part_def update_conv')
  ultimately show ?thesis by (auto simp: tree_core_def)
qed

lemma close_core:
  assumes env: "env_ok te limit" "room \<le> limit" and c: "tree_core te room pt a" "no_commit pt"
  shows "\<exists>p. tree_Close te pt = (None, p\<lparr>pt_globalFileOpen := False\<rparr>) \<and> tree_core te room p a"
proof -
  let ?p = "fold (processGCJob te) (dir_names (pt_files pt)) pt"
  note g = gc_fold_core [OF env c(1), of "dir_names (pt_files pt)"]
  have d: "dir_ok ?p" "global_ok te room ?p a" using g(1) by (simp_all add: tree_core_def)
  have dirty: "\<not> pt_globalCommitDirty ?p" using g(2) c(2) by (simp add: commit_part_def no_commit_def)
  obtain bs ns es where f: "pt_globalFileOpen ?p" "map_of (pt_files ?p) globalFileName = Some bs" "file_holds (te_zstd te) bs ns es"
    "pt_globalHeader ?p = decodeFileNodeHeader bs" by (rule global_okE [OF d(2)]) blast
  obtain h payload where h: "bs = encodeFileNodeHeader h @ payload" "length (fh_Reserved h) = 8"
    "nodeFileInferUnsortedEntryCount h (length payload) = Inr (word_of_nat (length es))"
    using file_holds_decode [OF f(3)] by metis
  have hd: "pt_globalHeader ?p = h" "length bs - FileNodeHeaderSize = length payload" "pt_globalFileID ?p = globalFileName"
    using f(4) h(1,2) decode_encode_header [OF h(2), of payload] d(1) by (simp_all add: dir_ok_def tree_shape_def)
  obtain q where q: "rewriteGlobalNodeFileLocked te ?p = (None, q)" "tree_core te room q a"
    using rewrite_core [OF env g(1)] by blast
  have "tree_Close te pt = (None, (if \<not> pt_globalFileOpen ?p \<or> length bs \<le> FileNodeHeaderSize then ?p
      else if 0 < (word_of_nat (length es) :: u32) then q else ?p)\<lparr>pt_globalFileOpen := False\<rparr>)"
    using dirty f(2) h(3) hd q(1) by (simp add: tree_Close_def Let_def)
  moreover have "tree_core te room (if \<not> pt_globalFileOpen ?p \<or> length bs \<le> FileNodeHeaderSize then ?p
      else if 0 < (word_of_nat (length es) :: u32) then q else ?p) a"
    using g(1) q(2) by simp
  ultimately show ?thesis by blast
qed

lemma fresh_buckets:
  assumes b: "buckets_ok z room pt a" and p: "\<And>f. f \<noteq> globalFileName \<Longrightarrow> map_of (pt_files p) f = map_of (pt_files pt) f"
    and n: "pt_sharedCache p = Some (newSharedByteCache cap)" "cap < 2 ^ 63" "pt_gcInFlight p = Map.empty"
  shows "buckets_ok z room p a"
proof -
  have c: "cache_inv p" "cache_entry p = (\<lambda>_. None)"
    using n(1) new_inv [OF n(2)] by (auto simp: cache_inv_def cache_entry_def sc_content_def newSharedByteCache_def)
  have g: "file_of k \<noteq> globalFileName \<Longrightarrow> map_of (pt_files p) (file_of k) = map_of (pt_files pt) (file_of k)" for k using p by simp
  from b show ?thesis unfolding buckets_ok_def c(2) n(3) using c(1) by (simp add: p g)
qed

lemma load_core:
  assumes env: "env_ok te limit" and c: "tree_core te room p a" "cap < 2 ^ 63"
  shows "\<exists>pt'. NewPrefixTree te (pt_files p) (Some (newSharedByteCache cap)) ratio compress = (None, pt') \<and> tree_core te room pt' a \<and> no_commit pt'"
proof -
  have d: "dir_ok p" "buckets_ok (te_zstd te) room p a" "global_ok te room p a" using c(1) by (simp_all add: tree_core_def)
  obtain bs ns es where f: "map_of (pt_files p) globalFileName = Some bs" "file_holds (te_zstd te) bs ns es"
    "length ns + length es \<le> room" "keys_ok ns es short_key a" by (rule global_okE [OF d(3)]) blast
  obtain h payload where h: "readWholeNodeFile bs = Inr (h, payload)" "bs = encodeFileNodeHeader h @ payload" "length (fh_Reserved h) = 8"
    "decodeNodeFilePayload (te_zstd te) h payload = Inr (encodeNodeEntries ns @ concat es, encodeNodeEntries ns, concat es)"
    using file_holds_decode [OF f(2)] by metis
  have io: "te_nio te = no_faults" "index_laws (te_index te)" using env by (simp_all add: env_ok_def)
  have ne: "bs \<noteq> []" using file_holds_nonempty [OF f(2)] by (auto simp: FileNodeHeaderSize_def)
  define ix where "ix = (if length payload = 0 then gi_New (te_index te) else rebuild_index (te_index te) (compacted ns es))"
  define q where "q = \<lparr>pt_maxDepth = MaxPrefixDepth, pt_files = AList.update globalFileName bs (pt_files p), pt_globalFileID = globalFileName,
    pt_bucketPrefixLength = MaxPrefixDepth, pt_sharedCache = Some (newSharedByteCache cap),
    pt_globalNodeIndex = Some ix, pt_globalFileOpen = True, pt_globalHeader = h,
    pt_globalCommitDepth = 0, pt_globalCommitDirty = False, pt_globalCommitBlockID = 0, pt_globalCommitBatch = None,
    pt_gcCount = 0, pt_gcInFlight = Map.empty,
    pt_gcRatioThreshold = sanitizeNodeFileGCRatioThreshold ratio, pt_compressSorted = compress\<rparr>"
  have "NewPrefixTree te (pt_files p) (Some (newSharedByteCache cap)) ratio compress = (None, q)"
    using f(1) ne h(1,4) by (simp add: NewPrefixTree_def loadGlobalNodeIndex_def io(1) Let_def q_def ix_def compacted_def)
  moreover have ix: "gi_Get (te_index te) ix k = info_map (compacted ns es) k" for k
  proof (cases "payload = []")
    case True
    obtain hb h' where "readDecodedFileNode (te_zstd te) bs = Inr (hb, h', encodeNodeEntries ns @ concat es)"
      by (rule readDecoded_holds [OF f(2)])
    with True h(1) have "encodeNodeEntries ns @ concat es = []" by (simp add: readDecodedFileNode_def)
    then have "encodeNodeEntries ns = []" "concat es = []" unfolding append_is_Nil_conv by blast+
    then have "compacted ns es = []" unfolding compacted_def by (simp only: buildEntriesFromSlices_def) (simp add: slice_entries_def)
    with True io(2) show ?thesis by (simp add: ix_def index_laws_def)
  next
    case False
    then show ?thesis
      using rebuild_get [OF io(2) sorted_infos_distinct [OF compacted_ok(1) [OF f(2)]]] by (simp add: ix_def)
  qed
  have "global_ok te room q a"
    using f ix decode_encode_header [OF h(3), of payload] h(2) unfolding global_ok_def
    by (intro conjI exI [of _ bs] exI [of _ ns] exI [of _ es] exI [of _ ix]) (simp_all add: q_def update_conv')
  moreover have "tree_shape q" by (simp add: q_def tree_shape_def MaxPrefixDepth_def)
  then have "dir_ok q" by (rule dir_ok_update [OF d(1) _ _ global_in_range]) (simp add: q_def)
  moreover have "buckets_ok (te_zstd te) room q a"
    by (rule fresh_buckets [OF d(2) _ _ c(2)]) (simp_all add: q_def update_conv')
  ultimately show ?thesis by (simp add: tree_core_def no_commit_def q_def)
qed

definition empty_map :: tree_map where
  "empty_map = \<lparr>tm_map = Map.empty, tm_dead = {}, tm_files = {}\<rparr>"

lemma new_core:
  assumes "env_ok te limit" "cap < 2 ^ 63"
  shows "\<exists>pt'. NewPrefixTree te [] (Some (newSharedByteCache cap)) ratio compress = (None, pt') \<and> tree_core te 0 pt' empty_map \<and> no_commit pt'"
proof -
  let ?bs = "encodeFileNodeHeader new_header"
  have io: "te_nio te = no_faults" "index_laws (te_index te)" using assms(1) by (simp_all add: env_ok_def)
  define q where "q = \<lparr>pt_maxDepth = MaxPrefixDepth, pt_files = [(globalFileName, ?bs)], pt_globalFileID = globalFileName,
    pt_bucketPrefixLength = MaxPrefixDepth, pt_sharedCache = Some (newSharedByteCache cap),
    pt_globalNodeIndex = Some (gi_New (te_index te)), pt_globalFileOpen = True, pt_globalHeader = new_header,
    pt_globalCommitDepth = 0, pt_globalCommitDirty = False, pt_globalCommitBlockID = 0, pt_globalCommitBatch = None,
    pt_gcCount = 0, pt_gcInFlight = Map.empty,
    pt_gcRatioThreshold = sanitizeNodeFileGCRatioThreshold ratio, pt_compressSorted = compress\<rparr>"
  have "NewPrefixTree te [] (Some (newSharedByteCache cap)) ratio compress = (None, q)"
    by (simp add: NewPrefixTree_def loadGlobalNodeIndex_def io(1) Let_def q_def write_end_def)
  moreover have "file_holds (te_zstd te) ?bs [] []"
    using file_holds_initial [of "[]" "te_zstd te"] by (simp add: encodeFileNodeAndPayload_def)
  then have "global_ok te 0 q empty_map"
    using io(2) decode_encode_header [of new_header "[]"] unfolding global_ok_def
    by (intro conjI exI [of _ ?bs] exI [of _ "[]"] exI [of _ "gi_New (te_index te)"])
      (auto simp: q_def empty_map_def keys_ok_def key_ok_def seq_of_def last_or_old_def index_laws_def new_header_def
        compacted_def buildEntriesFromSlices_def slice_entries_def encodeNodeEntries_def)
  moreover have "dir_ok q" using global_in_range by (simp add: dir_ok_def tree_shape_def q_def MaxPrefixDepth_def)
  moreover have "buckets_ok (te_zstd te) 0 q empty_map"
  proof -
    let ?e = "q\<lparr>pt_sharedCache := None\<rparr>"
    have "buckets_ok (te_zstd te) 0 ?e empty_map"
      by (auto simp: buckets_ok_def cache_inv_def cache_entry_def q_def empty_map_def)
    then show ?thesis by (rule fresh_buckets [OF _ _ _ assms(2)]) (simp_all add: q_def)
  qed
  ultimately show ?thesis by (simp add: tree_core_def no_commit_def q_def)
qed

end
