(* ===== verification/Prefix_Tree_Theorems.thy ===== *)
theory Prefix_Tree_Theorems
  imports Prefix_Tree_Refinement
begin

text \<open>
  Runs of the prefix tree. A client looks keys up, writes entries directly or in a commit,
  deletes keys, and the tree is compacted, closed and opened again, or the process dies between
  two operations and the directory is opened as it is. The results are those of a map from keys
  to node pointers.
\<close>

section \<open>Operations and their specification\<close>

datatype tree_op =
    TGet bytes
  | TPut "NodeInfo list" u64
  | TCommit "NodeInfo list" u64
  | TDelete bytes
  | TCompact bytes
  | TCompactAll
  | TReopen u64 rat bool
  | TCrash u64 rat bool

datatype tree_answer = AInfo "node_error + NodeInfo option" | AError "node_error option" | AFound "node_error + bool"

definition reopen_tree :: "'s tree_env \<Rightarrow> u64 \<Rightarrow> rat \<Rightarrow> bool \<Rightarrow> 's PrefixTree \<Rightarrow> 's tree_result" where
  "reopen_tree te cap ratio compress pt =
     (case tree_Close te pt of
        (Some e, p) \<Rightarrow> (Some e, p)
      | (None, p) \<Rightarrow> NewPrefixTree te (pt_files p) (Some (newSharedByteCache cap)) ratio compress)"

fun tree_step :: "'s tree_env \<Rightarrow> tree_op \<Rightarrow> 's PrefixTree \<Rightarrow> tree_answer \<times> 's PrefixTree" where
  "tree_step te (TGet key) pt = map_prod AInfo id (tree_Get te key pt)"
| "tree_step te (TPut es b) pt = map_prod AError id (PutNodeInfosWithBlockID te es b pt)"
| "tree_step te (TCommit es b) pt = map_prod AError id (commit_entries te es b pt)"
| "tree_step te (TDelete key) pt = map_prod AFound id (tree_Delete te key pt)"
| "tree_step te (TCompact f) pt = (AError None, processGCJob te f pt)"
| "tree_step te TCompactAll pt = (AError None, snd (CompactAllNodeFiles te pt))"
| "tree_step te (TReopen cap ratio compress) pt = map_prod AError id (reopen_tree te cap ratio compress pt)"
| "tree_step te (TCrash cap ratio compress) pt =
     map_prod AError id (NewPrefixTree te (pt_files pt) (Some (newSharedByteCache cap)) ratio compress)"

definition spec_put :: "NodeInfo list \<Rightarrow> tree_map \<Rightarrow> node_error option \<times> tree_map" where
  "spec_put es a = (if es \<noteq> [] \<and> list_ex (\<lambda>n. ni_key n = []) es then (Some EmptyKey, a) else (None, abs_put es a))"

fun tree_spec :: "tree_op \<Rightarrow> tree_map \<Rightarrow> tree_answer \<times> tree_map" where
  "tree_spec (TGet key) a = (AInfo (abs_get key a), a)"
| "tree_spec (TPut es b) a = map_prod AError id (spec_put es a)"
| "tree_spec (TCommit es b) a = map_prod AError id (spec_put es a)"
| "tree_spec (TDelete key) a = map_prod AFound id (abs_delete key a)"
| "tree_spec (TCompact f) a = (AError None, a)"
| "tree_spec TCompactAll a = (AError None, a)"
| "tree_spec (TReopen cap ratio compress) a = (AError None, a)"
| "tree_spec (TCrash cap ratio compress) a = (AError None, a)"

fun tree_guard :: "tree_op \<Rightarrow> tree_map \<Rightarrow> bool" where
  "tree_guard (TPut es b) a = put_guard es a"
| "tree_guard (TCommit es b) a = put_guard es a"
| "tree_guard (TReopen cap ratio compress) a = (cap < 2 ^ 63)"
| "tree_guard (TCrash cap ratio compress) a = (cap < 2 ^ 63)"
| "tree_guard op a = True"

fun tree_cost :: "tree_op \<Rightarrow> nat" where
  "tree_cost (TPut es b) = 2 * length es + 1"
| "tree_cost (TCommit es b) = 2 * length es + 1"
| "tree_cost (TDelete key) = 1"
| "tree_cost op = 0"

definition tree_rel :: "'s tree_env \<Rightarrow> nat \<Rightarrow> nat \<Rightarrow> 's PrefixTree \<Rightarrow> tree_map \<Rightarrow> bool" where
  "tree_rel te limit n pt a \<longleftrightarrow> env_ok te limit \<and> n \<le> limit \<and> tree_core te (limit - n) pt a \<and> no_commit pt"

lemma no_commit_part: "commit_part pt' = commit_part pt \<Longrightarrow> no_commit pt' = no_commit pt"
  by (simp add: commit_part_def no_commit_def)

lemma put_step:
  assumes env: "env_ok te limit" "room + 2 * length es + 1 \<le> limit" and c: "tree_core te room pt a" "no_commit pt" and g: "put_guard es a"
  shows "\<exists>pt'. PutNodeInfosWithBlockID te es b pt = (fst (spec_put es a), pt') \<and>
      tree_core te (room + 2 * length es + 1) pt' (snd (spec_put es a)) \<and> no_commit pt'"
    "\<exists>pt'. commit_entries te es b pt = (fst (spec_put es a), pt') \<and>
      tree_core te (room + 2 * length es + 1) pt' (snd (spec_put es a)) \<and> no_commit pt'"
proof -
  note mono = tree_core_mono [OF c(1), of "room + 2 * length es + 1"]
  let ?q = "(beginGlobalCommitWithBlockID b pt)"
  have idle: "\<exists>pt'. endGlobalCommit te ?q = (None, pt') \<and> tree_core te room pt' a \<and> no_commit pt'"
    using c by (intro exI [of _ "pt\<lparr>pt_globalCommitDepth := 0, pt_globalCommitBatch := Some [], pt_globalCommitBlockID := 0\<rparr>"])
      (auto simp: begin_fields [OF c(2)] endGlobalCommit_def no_commit_def tree_core_def intro: buckets_ok_same)
  have refuse: "PutNodeInfosWithBlockID te es b p = (fst (spec_put es a), p) \<and> snd (spec_put es a) = a"
    if "es = [] \<or> list_ex (\<lambda>n. ni_key n = []) es" for p
    using that by (auto simp: PutNodeInfosWithBlockID_def spec_put_def)
  have all: "es \<noteq> []" "\<forall>n \<in> set es. ni_key n \<noteq> []" "spec_put es a = (None, abs_put es a)"
    if "\<not> (es = [] \<or> list_ex (\<lambda>n. ni_key n = []) es)"
    using that by (auto simp: spec_put_def list_ex_iff)
  show "\<exists>pt'. PutNodeInfosWithBlockID te es b pt = (fst (spec_put es a), pt') \<and>
      tree_core te (room + 2 * length es + 1) pt' (snd (spec_put es a)) \<and> no_commit pt'"
  proof (cases "es = [] \<or> list_ex (\<lambda>n. ni_key n = []) es")
    case True
    from refuse [OF this, of pt] mono c(2) show ?thesis by simp
  next
    case False
    have "pt_globalCommitDepth pt = 0" using c(2) by (simp add: no_commit_def)
    from put_core [OF env c(1) this all(1,2) [OF False] g, of b] all(3) [OF False] c(2) no_commit_part show ?thesis by auto
  qed
  show "\<exists>pt'. commit_entries te es b pt = (fst (spec_put es a), pt') \<and>
      tree_core te (room + 2 * length es + 1) pt' (snd (spec_put es a)) \<and> no_commit pt'"
  proof (cases "es = [] \<or> list_ex (\<lambda>n. ni_key n = []) es")
    case True
    from idle obtain p where p: "endGlobalCommit te ?q = (None, p)" "tree_core te room p a" "no_commit p" by blast
    have "commit_entries te es b pt = (fst (spec_put es a), p)"
      using refuse [OF True, of ?q] p(1) by (simp add: commit_entries_def)
    with refuse [OF True, of ?q] tree_core_mono [OF p(2), of "room + 2 * length es + 1"] p(3) show ?thesis by simp
  next
    case False
    from commit_core [OF env c all(1,2) [OF False] g, of b] all(3) [OF False] show ?thesis by auto
  qed
qed

lemma tree_step_ok:
  assumes rel: "tree_rel te limit (tree_cost op + n) pt a" and g: "tree_guard op a"
  shows "\<exists>pt'. tree_step te op pt = (fst (tree_spec op a), pt') \<and> tree_rel te limit n pt' (snd (tree_spec op a))"
proof -
  let ?room = "limit - (tree_cost op + n)"
  have r: "env_ok te limit" "tree_cost op + n \<le> limit" "tree_core te ?room pt a" "no_commit pt"
    using rel by (simp_all add: tree_rel_def)
  have room: "?room + tree_cost op = limit - n" "?room \<le> limit" "?room + tree_cost op \<le> limit" using r(2) by simp_all
  have depth: "pt_globalCommitDepth pt = 0" using r(4) by (simp add: no_commit_def)
  have "\<exists>pt'. tree_step te op pt = (fst (tree_spec op a), pt') \<and>
      tree_core te (?room + tree_cost op) pt' (snd (tree_spec op a)) \<and> no_commit pt'"
  proof (cases op)
    case (TGet key)
    obtain p where "tree_Get te key pt = (abs_get key a, p)" "tree_core te ?room p a" "commit_part p = commit_part pt"
      using get_core [OF r(1,3), of key] by blast
    with TGet r(4) no_commit_part [of p pt] show ?thesis by simp
  next
    case (TPut es b)
    then have c: "?room + 2 * length es + 1 = ?room + tree_cost op" "put_guard es a" using g by simp_all
    obtain p where p: "PutNodeInfosWithBlockID te es b pt = (fst (spec_put es a), p)"
      "tree_core te (?room + tree_cost op) p (snd (spec_put es a))" "no_commit p"
      using put_step(1) [OF r(1) _ r(3,4) c(2), of b] room(3) unfolding c(1) by blast
    have "tree_step te op pt = (fst (tree_spec op a), p)" "snd (tree_spec op a) = snd (spec_put es a)" using TPut p(1) by simp_all
    with p(2,3) show ?thesis by metis
  next
    case (TCommit es b)
    then have c: "?room + 2 * length es + 1 = ?room + tree_cost op" "put_guard es a" using g by simp_all
    obtain p where p: "commit_entries te es b pt = (fst (spec_put es a), p)"
      "tree_core te (?room + tree_cost op) p (snd (spec_put es a))" "no_commit p"
      using put_step(2) [OF r(1) _ r(3,4) c(2), of b] room(3) unfolding c(1) by blast
    have "tree_step te op pt = (fst (tree_spec op a), p)" "snd (tree_spec op a) = snd (spec_put es a)" using TCommit p(1) by simp_all
    with p(2,3) show ?thesis by metis
  next
    case (TDelete key)
    then have c: "?room + 1 = ?room + tree_cost op" by simp
    obtain p where p: "tree_Delete te key pt = (fst (abs_delete key a), p)"
      "tree_core te (?room + tree_cost op) p (snd (abs_delete key a))" "commit_part p = commit_part pt"
      using delete_core [OF r(1) _ r(3) depth, of key] room(3) unfolding c by blast
    have "tree_step te op pt = (fst (tree_spec op a), p)" "snd (tree_spec op a) = snd (abs_delete key a)" using TDelete p(1) by simp_all
    with p(2) no_commit_part [OF p(3)] r(4) show ?thesis by metis
  next
    case (TCompact f)
    with gc_core(1) [OF r(1) room(2) r(3), of f] no_commit_part [OF gc_core(2) [OF r(1) room(2) r(3), of f]] r(4) show ?thesis by simp
  next
    case TCompactAll
    with compact_all_core(1) [OF r(1) room(2) r(3)] no_commit_part [OF compact_all_core(2) [OF r(1) room(2) r(3)]] r(4) show ?thesis by simp
  next
    case (TReopen cap ratio compress)
    obtain p where p: "tree_Close te pt = (None, p\<lparr>pt_globalFileOpen := False\<rparr>)" "tree_core te ?room p a"
      using close_core [OF r(1) room(2) r(3,4)] by blast
    from load_core [OF r(1) p(2), of cap ratio compress] p(1) g TReopen show ?thesis by (auto simp: reopen_tree_def)
  next
    case (TCrash cap ratio compress)
    with load_core [OF r(1,3), of cap ratio compress] g show ?thesis by auto
  qed
  then show ?thesis using r(1,2) unfolding tree_rel_def room(1) by auto
qed

interpretation prefix_tree: guarded_simulation "tree_step te" tree_spec "tree_rel te limit" tree_guard tree_cost
  for te :: "'s tree_env" and limit
  by unfold_locales (rule tree_step_ok)

section \<open>Results\<close>

lemma fresh_tree:
  assumes "env_ok te limit" "cap < 2 ^ 63" "n \<le> limit"
  shows "\<exists>pt. NewPrefixTree te [] (Some (newSharedByteCache cap)) ratio compress = (None, pt) \<and> tree_rel te limit n pt empty_map"
proof -
  obtain pt where pt: "NewPrefixTree te [] (Some (newSharedByteCache cap)) ratio compress = (None, pt)"
    "tree_core te 0 pt empty_map" "no_commit pt"
    using new_core [OF assms(1,2)] by blast
  with tree_core_mono [OF pt(2), of "limit - n"] assms show ?thesis by (simp add: tree_rel_def)
qed

text \<open>
  C3. The prefix tree behaves as a map. From an empty directory, a run of lookups, writes, commits,
  deletions, compactions, clean reopenings and crashes between operations returns exactly the
  results of a map from keys (cut to 32 bytes) to node pointers, with the errors for empty keys and for the deletion
  from a bucket file that does not exist. In particular neither the cache, nor the snapshots of
  compactions in flight, nor compaction, nor a restart shows in a result. The run writes at most \<open>limit\<close> entries, and
  its writes keep to the discipline of the state store: sizes are not zero, account
  offsets do not decrease, storage pointers are not dropped, deleted keys are not written again.
\<close>

theorem prefix_tree_refines_map:
  assumes "env_ok te limit" "cap < 2 ^ 63" "sum_list (map tree_cost ops) \<le> limit" "run_ok tree_spec tree_guard ops empty_map"
  shows "\<exists>pt. NewPrefixTree te [] (Some (newSharedByteCache cap)) ratio compress = (None, pt) \<and>
    fst (run (tree_step te) ops pt) = fst (run tree_spec ops empty_map)"
proof -
  obtain pt where pt: "NewPrefixTree te [] (Some (newSharedByteCache cap)) ratio compress = (None, pt)"
    "tree_rel te limit (sum_list (map tree_cost ops) + 0) pt empty_map"
    using fresh_tree [OF assms(1,2), of "sum_list (map tree_cost ops)"] assms(3) by auto
  with prefix_tree.guarded_run [OF pt(2) assms(4)] show ?thesis by auto
qed

definition list_index :: "(bytes \<times> NodeInfo) list index_ops" where
  "list_index = \<lparr>gi_New = [], gi_Get = map_of, gi_Set = (\<lambda>s k v. AList.update k v s), gi_Remove = (\<lambda>s k. AList.delete k s),
     gi_Front = (\<lambda>s. sort_key fst (AList.clearjunk s))\<rparr>"

lemma list_index_laws: "index_laws list_index"
proof -
  have "distinct (map fst (sort_key fst (AList.clearjunk s)))" for s :: "(bytes \<times> NodeInfo) list"
  proof -
    have "mset (map fst (sort_key fst (AList.clearjunk s))) = mset (map fst (AList.clearjunk s))" by (simp only: mset_map mset_sort)
    then show ?thesis using distinct_clearjunk mset_eq_imp_distinct_iff by blast
  qed
  moreover from this have "map_of (sort_key fst (AList.clearjunk s)) = map_of s" for s :: "(bytes \<times> NodeInfo) list"
    using map_of_inject_set [of "sort_key fst (AList.clearjunk s)" "AList.clearjunk s"] distinct_clearjunk [of s]
    by (simp add: map_of_clearjunk)
  ultimately show ?thesis by (simp add: index_laws_def list_index_def update_conv' delete_conv')
qed

definition toy_env :: "(bytes \<times> NodeInfo) list tree_env" where
  "toy_env = \<lparr>te_index = list_index, te_zstd = toy_zstd, te_nio = no_faults\<rparr>"

lemma toy_env_ok: "env_ok toy_env 1000"
  using list_index_laws by (auto simp: env_ok_def toy_env_def toy_zstd_def zstd_laws_def)

definition info :: "bytes \<Rightarrow> u64 \<Rightarrow> u32 \<Rightarrow> u32 \<Rightarrow> NodeInfo" where
  "info k offset sz fileID = \<lparr>ni_key = k, ni_accountOffset = offset, ni_accountSize = sz, ni_storageFileID = fileID, ni_storageOffset = 0, ni_storageSize = 0\<rparr>"

definition short_path :: bytes where
  "short_path = [1, 2]"

definition long_path :: bytes where
  "long_path = [1, 2, 3, 4, 5, 6, 7]"

definition example_run :: "tree_op list" where
  "example_run = [TDelete long_path, TPut [info long_path 10 5 0, info short_path 15 5 0] 0, TGet long_path,
     TCommit [info long_path 20 5 3, info short_path 25 5 4, info short_path 30 5 4] 7, TGet short_path,
     TCrash 4096 1 True, TGet long_path, TCompactAll, TDelete long_path, TGet long_path, TReopen 4096 1 False,
     TGet short_path, TGet long_path, TGet []]"

lemma example_run_spec:
  "fst (run tree_spec example_run empty_map) =
     [AFound (Inl NodeFileMissing), AError None, AInfo (Inr (Some (info long_path 10 5 0))), AError None,
      AInfo (Inr (Some (info short_path 30 5 4))), AError None, AInfo (Inr (Some (info long_path 20 5 3))), AError None,
      AFound (Inr True), AInfo (Inr None), AError None, AInfo (Inr (Some (info short_path 30 5 4))), AInfo (Inr None),
      AInfo (Inl EmptyKey)]"
  by code_simp

lemma example_run_guarded: "run_ok tree_spec tree_guard example_run empty_map"
  by code_simp

theorem prefix_tree_refines_map_witness:
  "\<exists>pt. NewPrefixTree toy_env [] (Some (newSharedByteCache 65536)) 1 True = (None, pt) \<and>
    fst (run (tree_step toy_env) example_run pt) =
     [AFound (Inl NodeFileMissing), AError None, AInfo (Inr (Some (info long_path 10 5 0))), AError None,
      AInfo (Inr (Some (info short_path 30 5 4))), AError None, AInfo (Inr (Some (info long_path 20 5 3))), AError None,
      AFound (Inr True), AInfo (Inr None), AError None, AInfo (Inr (Some (info short_path 30 5 4))), AInfo (Inr None),
      AInfo (Inl EmptyKey)]"
proof -
  have "sum_list (map tree_cost example_run) \<le> 1000" by (simp add: example_run_def)
  from prefix_tree_refines_map [OF toy_env_ok _ this example_run_guarded, of 65536 1 True] example_run_spec show ?thesis by simp
qed

lemma sortedCompressedSize_uncompressed:
  "\<not> sortedCompressed h \<Longrightarrow> sortedCompressedSize h = int (unat (fh_SortedEntryCount h) * NodeEntrySize)"
  by (simp add: sortedCompressedSize_def)

lemma misaligned_refused:
  assumes "nodeFileStoredSortedPayloadSize h = Inr (length stored)" "length tail mod 65 \<noteq> 0"
  shows "\<exists>e. decodeNodeFilePayload z h (stored @ tail) = Inl e"
proof (cases "sortedCompressed h")
  case True
  with assms show ?thesis by (simp add: decodeNodeFilePayload_def NodeEntrySize_def)
next
  case False
  then have "unat (fh_SortedEntryCount h) * NodeEntrySize = length stored"
    using assms(1) unfolding nodeFileStoredSortedPayloadSize_def sortedCompressedSize_uncompressed [OF False] by (simp del: of_nat_mult)
  with False assms(2) show ?thesis by (simp add: decodeNodeFilePayload_def NodeEntrySize_def)
qed

lemma readDecoded_refused:
  "readWholeNodeFile f = Inr (h, pl) \<Longrightarrow> pl \<noteq> [] \<Longrightarrow> decodeNodeFilePayload z h pl = Inl e \<Longrightarrow> readDecodedFileNode z f = Inl e"
  by (simp add: readDecodedFileNode_def)

lemma take_concat_fixed:
  assumes "\<forall>e \<in> set es. length e = m" "0 < m"
  shows "take n (concat es) = concat (take (n div m) es) @ take (n mod m) (concat (drop (n div m) es))"
  using assms(1)
proof (induction es arbitrary: n)
  case (Cons e es)
  show ?case
  proof (cases "n < m")
    case True
    then show ?thesis by simp
  next
    case False
    then have d: "n div m = Suc ((n - m) div m)" "n mod m = (n - m) mod m" using assms(2) by (simp_all add: le_div_geq le_mod_geq)
    have "take n (concat (e # es)) = e @ take (n - m) (concat es)" using Cons.prems False by simp
    with Cons.IH [of "n - m"] Cons.prems show ?thesis by (simp add: d)
  qed
qed simp

lemma torn_entries:
  assumes "b \<noteq> 0" "\<forall>m \<in> set new. ni_key m \<noteq> []" "n < length (concat (entries_of new b))"
  obtains ys rest where "take n (concat (entries_of new b)) = concat ys @ rest" "\<forall>e \<in> set ys. length e = 65 \<and> \<not> isNodeCommitTagEntry e"
    "length rest = n mod 65"
proof -
  let ?E = "entries_of new b"
  let ?ys = "take (n div 65) ?E" and ?rest = "take (n mod 65) (concat (drop (n div 65) ?E))"
  have E: "\<forall>e \<in> set ?E. length e = 65" using entries_of_length(1) by blast
  have n: "n div 65 < length ?E" using assms(3) length_concat_fixed [OF E] by (simp add: less_mult_imp_div_less)
  then have "n div 65 \<le> length new" using assms(1) by (simp add: entries_of_def)
  then have ys: "?ys = take (n div 65) (map encodeNodeEntry new)" by (simp add: entries_of_def)
  have d: "drop (n div 65) ?E = ?E ! (n div 65) # drop (Suc (n div 65)) ?E" "length (?E ! (n div 65)) = 65"
    using E n by (simp_all add: Cons_nth_drop_Suc)
  then have "65 \<le> length (concat (drop (n div 65) ?E))" unfolding d(1) by simp
  moreover have "n mod 65 < 65" by simp
  ultimately have "n mod 65 \<le> length (concat (drop (n div 65) ?E))" by linarith
  then have "length ?rest = n mod 65" by (simp only: length_take min_absorb2)
  moreover have "\<forall>e \<in> set ?ys. length e = 65 \<and> \<not> isNodeCommitTagEntry e"
    unfolding ys using assms(2) by (auto dest!: in_set_takeD simp: entry_not_tag)
  moreover have "take n (concat ?E) = concat ?ys @ ?rest" by (rule take_concat_fixed [OF E]) simp
  ultimately show thesis using that by blast
qed

lemma holds_layout:
  assumes "file_holds z bs ns es"
  obtains h stored where "bs = encodeFileNodeHeader h @ stored @ concat es" "length (fh_Reserved h) = 8" "fh_Magic h = FileNodeMagic"
    "nodeFileStoredSortedPayloadSize h = Inr (length stored)" "\<forall>e \<in> set es. length e = 65"
    "length bs = FileNodeHeaderSize + length stored + length es * 65"
proof -
  obtain h stored where h: "bs = encodeFileNodeHeader h @ stored @ concat es" "length (fh_Reserved h) = 8" "fh_Magic h = FileNodeMagic"
    "unat (fh_SortedEntryCount h) = length ns" "\<forall>e \<in> set es. length e = 65"
    "if sortedCompressed h then sortedCompressedSize h = int (length stored) else stored = encodeNodeEntries ns"
    using assms unfolding file_holds_def by (metis (no_types, lifting))
  have "nodeFileStoredSortedPayloadSize h = Inr (length stored)"
    using h(4,6) by (cases "sortedCompressed h") (simp_all add: nodeFileStoredSortedPayloadSize_def sortedCompressedSize_uncompressed NodeEntrySize_def)
  moreover have "length bs = FileNodeHeaderSize + length stored + length es * 65"
    using h(1,2) length_concat_fixed [OF h(5)] by simp
  ultimately show thesis using that h by blast
qed

text \<open>
  C10. A torn commit is undone by trimming. When a write of entries and their commit tag to a node
  file whose content ends with a commit tag fails after some of the bytes, the trim of the
  recovery restores exactly the content from before. Until then, when the tear is inside an
  entry, every read of the file fails.
\<close>

theorem torn_commit_trimmed:
  assumes "file_holds z bs ns (es @ [commit_tag b0])" "b0 \<noteq> 0" "b \<noteq> 0" "\<forall>m \<in> set new. ni_key m \<noteq> []"
    and data: "data = appendNodeCommitTag (encodeNodeEntries new) b" "nio_write io f data = Some n" "n < length data"
    and pt: "map_of (pt_files pt) f = Some bs" "write_end io f data pt = (r, pt')"
  shows "r = Some NodeWriteFault \<and> map_of (pt_files (snd (trim_one f ([], pt')))) f = Some bs \<and>
    (n mod 65 \<noteq> 0 \<longrightarrow> (\<exists>bs' e. map_of (pt_files pt') f = Some bs' \<and> readDecodedFileNode z bs' = Inl e))"
proof -
  let ?xs = "es @ [commit_tag b0]"
  have dt: "data = concat (entries_of new b)" by (simp add: data(1) concat_entries)
  obtain ys rest where torn: "take n data = concat ys @ rest" "\<forall>e \<in> set ys. length e = 65 \<and> \<not> isNodeCommitTagEntry e"
    "length rest = n mod 65" using torn_entries [OF assms(3,4), of n] data(3) unfolding dt by blast
  obtain h stored where h: "bs = encodeFileNodeHeader h @ stored @ concat ?xs" "length (fh_Reserved h) = 8" "fh_Magic h = FileNodeMagic"
    "nodeFileStoredSortedPayloadSize h = Inr (length stored)" "\<forall>e \<in> set ?xs. length e = 65"
    "length bs = FileNodeHeaderSize + length stored + length ?xs * 65" by (rule holds_layout [OF assms(1)])
  let ?tail = "concat (?xs @ ys) @ rest"
  have whole: "bs @ take n data = encodeFileNodeHeader h @ stored @ ?tail" by (simp add: h(1) torn(1))
  have all: "\<forall>e \<in> set (?xs @ ys). length e = 65" using h(5) torn(2) by auto
  have tag: "isNodeCommitTagEntry (last ?xs)" using assms(2) by (simp add: isNodeCommitTagEntry_def commit_tag_recognised)
  have pos: "findLastNodeCommitTagEnd (bs @ take n data) = Some (length bs)"
    using trim_position_after_last_tag [OF h(2,3,4) all, of rest] tag torn(2,3) by (simp add: whole h(6))
  have p: "r = Some NodeWriteFault" "map_of (pt_files pt') f = Some (bs @ take n data)"
    using pt data(2) by (auto simp: write_end_def update_conv')
  have "map_of (pt_files (snd (trim_one f ([], pt')))) f = Some bs"
    using p(2) pos by (cases "take n data = []") (auto simp: trim_one_def update_conv')
  moreover have "\<exists>e. readDecodedFileNode z (bs @ take n data) = Inl e" if m: "n mod 65 \<noteq> 0"
  proof -
    have rd: "readWholeNodeFile (bs @ take n data) = Inr (h, stored @ ?tail)"
      using h(2,3) decode_encode_header [OF h(2), of "stored @ ?tail"] by (simp add: readWholeNodeFile_def whole drop_append_exact)
    have "length ?tail = length (?xs @ ys) * 65 + n mod 65" using length_concat_fixed [OF all] torn(3) by (simp only: length_append)
    moreover have "(k * 65 + n mod 65) mod 65 = n mod 65" for k by simp
    ultimately have "length ?tail mod 65 \<noteq> 0" using m by (simp only: not_False_eq_True)
    from misaligned_refused [OF h(4) this] have "\<exists>e. decodeNodeFilePayload z h (stored @ ?tail) = Inl e" .
    moreover have "stored @ ?tail \<noteq> []" using length_commit_tag [of b0] by (auto simp del: length_commit_tag)
    ultimately show ?thesis using readDecoded_refused [OF rd] by blast
  qed
  ultimately show ?thesis using p by auto
qed

definition example_tree :: "directory \<Rightarrow> (bytes \<times> NodeInfo) list PrefixTree" where
  "example_tree files = \<lparr>pt_maxDepth = 6, pt_files = files, pt_globalFileID = globalFileName, pt_bucketPrefixLength = 6,
     pt_sharedCache = None, pt_globalNodeIndex = None, pt_globalFileOpen = False, pt_globalHeader = new_header,
     pt_globalCommitDepth = 0, pt_globalCommitDirty = False, pt_globalCommitBlockID = 0, pt_globalCommitBatch = None,
     pt_gcCount = 0, pt_gcInFlight = Map.empty, pt_gcRatioThreshold = 1, pt_compressSorted = False\<rparr>"

definition tearing_disk :: node_io where
  "tearing_disk = no_faults\<lparr>nio_write := (\<lambda>f bs. Some 70)\<rparr>"

theorem torn_commit_trimmed_witness:
  "let bs = encodeFileNodeAndPayload new_header (commit_tag 3);
       data = appendNodeCommitTag (encodeNodeEntries [info long_path 10 5 0]) 4 in
   fst (write_end tearing_disk [1] data (example_tree [([1], bs)])) = Some NodeWriteFault \<and>
   map_of (pt_files (snd (trim_one [1] ([], snd (write_end tearing_disk [1] data (example_tree [([1], bs)])))))) [1] = Some bs"
proof -
  let ?bs = "encodeFileNodeAndPayload new_header (commit_tag 3)" and ?new = "[info long_path 10 5 0]"
  let ?data = "appendNodeCommitTag (encodeNodeEntries ?new) 4"
  have h: "file_holds toy_zstd ?bs [] ([] @ [commit_tag 3])" using file_holds_initial [of "[commit_tag 3]" toy_zstd] by simp
  have len: "70 < length ?data" by (simp add: appendNodeCommitTag_def)
  have w: "nio_write tearing_disk [1] ?data = Some 70" by (simp add: tearing_disk_def)
  have f: "map_of (pt_files (example_tree [([1], ?bs)])) [1] = Some ?bs" by (simp add: example_tree_def)
  obtain r p where wr: "write_end tearing_disk [1] ?data (example_tree [([1], ?bs)]) = (r, p)" by fastforce
  have "\<forall>m \<in> set ?new. ni_key m \<noteq> []" by (simp add: info_def long_path_def)
  from torn_commit_trimmed [OF h _ _ this refl w len f wr] wr show ?thesis by (simp add: Let_def)
qed

end
