(* ===== verification/Segment_Format.thy ===== *)
theory Segment_Format
  imports Node_File
begin

text \<open>
  The two record formats of the storage logs of \<^verbatim>\<open>src/THEO/prefixdb/prefixdb.go\<close>. A common
  storage segment is read forward, each record with its header of two 16-bit lengths in front; a
  segmented chunk is read from its tail, each record with the same four bytes behind it. In both
  formats a record whose two lengths are zero is a commit tag and carries a 64-bit block number.
  The theory holds the writers, the readers, the searches for the last commit tag and their
  correctness against the list of items that a log holds.
\<close>

named_theorems seg_simps \<open>storage records and their scans\<close>

section \<open>Evaluating big-endian integers\<close>

primrec be_int :: "int \<Rightarrow> bytes \<Rightarrow> int" where
  "be_int acc [] = acc"
| "be_int acc (b # bs) = be_int (acc * 256 + uint b) bs"

primrec put_int :: "nat \<Rightarrow> int \<Rightarrow> bytes" where
  "put_int 0 v = []"
| "put_int (Suc n) v = word_of_int (v div 256 ^ n) # put_int n v"

lemma be_int_get: "be_int acc bs = acc * 256 ^ length bs + int (be_get bs)"
  by (induction bs arbitrary: acc) (simp_all add: algebra_simps)

lemma put_int_put: "put_int n (int v) = be_put n v"
proof (induction n)
  case (Suc n)
  have "(word_of_int (int v div 256 ^ n) :: byte) = word_of_int (int (v div 256 ^ n))" by (simp add: zdiv_int)
  with Suc show ?case by simp
qed simp

lemma Uint_code [code]:
  "Uint64 bs = word_of_int (be_int 0 (take 8 bs))"
  "Uint16 bs = word_of_int (be_int 0 (take 2 bs))"
  by (simp_all add: Uint64_def Uint16_def be_int_get)

lemma PutUint_code [code]:
  "PutUint64 w = put_int 8 (uint w)"
  "PutUint16 v = put_int 2 (uint v)"
  using put_int_put [of 8 "unat w"] put_int_put [of 2 "unat v"] by (simp_all add: PutUint64_def PutUint16_def)

section \<open>Records\<close>

type_synonym kvPair = "bytes \<times> bytes"

definition segmentedChunkEntryHeaderSize :: nat where
  "segmentedChunkEntryHeaderSize = 4"

definition commitTagRecordSize :: nat where
  "commitTagRecordSize = 12"

datatype seg_error =
    KeyTooLarge nat
  | ValueTooLarge nat
  | SegUnexpectedEOF
  | UnsupportedHeaderSize int

datatype log_item = Rec bytes bytes | Tag u64

definition record_header :: "kvPair \<Rightarrow> bytes" where
  "record_header kv = PutUint16 (word_of_nat (length (fst kv))) @ PutUint16 (word_of_nat (length (snd kv)))"

definition entry_bytes :: "kvPair \<Rightarrow> nat" where
  "entry_bytes kv = segmentedChunkEntryHeaderSize + length (fst kv) + length (snd kv)"

fun size_check :: "kvPair list \<Rightarrow> seg_error option" where
  "size_check [] = None"
| "size_check (v # kvs) =
     (if length (fst v) > 0xFFFF then Some (KeyTooLarge (length (fst v)))
      else if length (snd v) > 0xFFFF then Some (ValueTooLarge (length (snd v)))
      else size_check kvs)"

definition serializeStorageSegment :: "kvPair list \<Rightarrow> seg_error + bytes" where
  "serializeStorageSegment kvs =
     (case size_check kvs of Some e \<Rightarrow> Inl e
      | None \<Rightarrow> Inr (concat (map (\<lambda>v. record_header v @ fst v @ snd v) kvs)))"

definition serializeChunkPayload :: "kvPair list \<Rightarrow> seg_error + bytes" where
  "serializeChunkPayload kvs =
     (case size_check kvs of Some e \<Rightarrow> Inl e
      | None \<Rightarrow> Inr (concat (map (\<lambda>v. fst v @ snd v @ record_header v) kvs)))"

definition estimateSegmentSize :: "kvPair list \<Rightarrow> nat" where
  "estimateSegmentSize kvs = fold (\<lambda>kv total. total + entry_bytes kv) kvs 0"

definition payloadSize :: "kvPair list \<Rightarrow> nat" where
  "payloadSize entries = fold (\<lambda>kv total. total + entry_bytes kv) entries 0"

definition appendForwardCommitTag :: "bytes \<Rightarrow> u64 \<Rightarrow> bytes" where
  "appendForwardCommitTag dst blockID = (if blockID = 0 then dst else dst @ replicate 4 0 @ PutUint64 blockID)"

definition appendChunkCommitTag :: "bytes \<Rightarrow> u64 \<Rightarrow> bytes" where
  "appendChunkCommitTag dst blockID = (if blockID = 0 then dst else dst @ PutUint64 blockID @ replicate 4 0)"

section \<open>Reading one record\<close>

definition header_at :: "bytes \<Rightarrow> nat \<Rightarrow> nat \<times> nat" where
  "header_at payload i = (unat (Uint16 (drop i payload)), unat (Uint16 (drop (i + 2) payload)))"

definition forwardCommitTagBlockID :: "bytes \<Rightarrow> nat \<Rightarrow> u64 option" where
  "forwardCommitTagBlockID payload cursor =
     (if cursor + commitTagRecordSize > length payload then None
      else if header_at payload cursor \<noteq> (0, 0) then None
      else Some (Uint64 (drop (cursor + segmentedChunkEntryHeaderSize) payload)))"

definition chunkCommitTagBlockID :: "bytes \<Rightarrow> nat \<Rightarrow> u64 option" where
  "chunkCommitTagBlockID payload footerEnd =
     (if footerEnd < commitTagRecordSize \<or> footerEnd > length payload then None
      else if header_at payload (footerEnd - segmentedChunkEntryHeaderSize) \<noteq> (0, 0) then None
      else Some (Uint64 (drop (footerEnd - commitTagRecordSize) payload)))"

text \<open>
  The body that the forward loops share: the record or tag at the cursor and the cursor behind it,
  or \<^const>\<open>None\<close> where the payload ends inside of it. The body of the tail loops is its mirror image.
\<close>

definition forward_step :: "bytes \<Rightarrow> nat \<Rightarrow> (log_item \<times> nat) option" where
  "forward_step payload cursor =
     (if cursor + segmentedChunkEntryHeaderSize > length payload then None
      else let (klen, vlen) = header_at payload cursor in
        if klen = 0 \<and> vlen = 0
        then map_option (\<lambda>b. (Tag b, cursor + commitTagRecordSize)) (forwardCommitTagBlockID payload cursor)
        else let d = cursor + segmentedChunkEntryHeaderSize in
          if d + klen + vlen > length payload then None
          else Some (Rec (take klen (drop d payload)) (take vlen (drop (d + klen) payload)), d + klen + vlen))"

definition tail_step :: "bytes \<Rightarrow> nat \<Rightarrow> (log_item \<times> nat) option" where
  "tail_step payload cursor =
     (if cursor < segmentedChunkEntryHeaderSize then None
      else let (klen, vlen) = header_at payload (cursor - segmentedChunkEntryHeaderSize) in
        if klen = 0 \<and> vlen = 0
        then map_option (\<lambda>b. (Tag b, cursor - commitTagRecordSize)) (chunkCommitTagBlockID payload cursor)
        else let recordSize = segmentedChunkEntryHeaderSize + klen + vlen in
          if recordSize > cursor then None
          else let d = cursor - recordSize in
            Some (Rec (take klen (drop d payload)) (take vlen (drop (d + klen) payload)), d))"

lemma forward_step_progress:
  "forward_step payload cursor = Some (it, c) \<Longrightarrow> cursor < c \<and> c \<le> length payload"
  by (auto simp: forward_step_def Let_def segmentedChunkEntryHeaderSize_def commitTagRecordSize_def
      forwardCommitTagBlockID_def split: if_splits prod.splits)

lemma tail_step_progress: "tail_step payload cursor = Some (it, c) \<Longrightarrow> c < cursor"
  by (auto simp: tail_step_def Let_def segmentedChunkEntryHeaderSize_def commitTagRecordSize_def
      chunkCommitTagBlockID_def split: if_splits prod.splits)

section \<open>Loops over a forward log\<close>

function lastForwardTagLoop :: "bytes \<Rightarrow> nat \<Rightarrow> u64 option \<Rightarrow> u64 option" where
  "lastForwardTagLoop payload cursor newest =
     (if cursor < length payload then
        case forward_step payload cursor of
          None \<Rightarrow> newest
        | Some (Tag b, c) \<Rightarrow> lastForwardTagLoop payload c (Some b)
        | Some (Rec _ _, c) \<Rightarrow> lastForwardTagLoop payload c newest
      else newest)"
  by pat_completeness auto
termination
  by (relation "measure (\<lambda>(payload, cursor, _). length payload - cursor)")
    (auto dest: forward_step_progress)

definition lastForwardCommitTagBlockIDFrom :: "bytes \<Rightarrow> nat \<Rightarrow> u64 option" where
  "lastForwardCommitTagBlockIDFrom payload start = lastForwardTagLoop payload start None"

definition lastForwardCommitTagBlockID :: "bytes \<Rightarrow> bool \<Rightarrow> u64 option" where
  "lastForwardCommitTagBlockID payload allowLeadingPadding =
     (case (if allowLeadingPadding \<and> payload \<noteq> [] \<and> payload ! 0 = 0
            then lastForwardCommitTagBlockIDFrom payload 1 else None) of
        Some b \<Rightarrow> Some b
      | None \<Rightarrow> lastForwardCommitTagBlockIDFrom payload 0)"

function forwardTagEndLoop :: "bytes \<Rightarrow> nat \<Rightarrow> nat option \<Rightarrow> nat option" where
  "forwardTagEndLoop payload cursor fin =
     (if cursor < length payload then
        case forward_step payload cursor of
          None \<Rightarrow> fin
        | Some (Tag b, c) \<Rightarrow> forwardTagEndLoop payload c (Some c)
        | Some (Rec _ _, c) \<Rightarrow> forwardTagEndLoop payload c fin
      else fin)"
  by pat_completeness auto
termination
  by (relation "measure (\<lambda>(payload, cursor, _). length payload - cursor)")
    (auto dest: forward_step_progress)

definition findLastForwardCommitTagEndFrom :: "bytes \<Rightarrow> nat \<Rightarrow> nat option" where
  "findLastForwardCommitTagEndFrom payload start = forwardTagEndLoop payload start None"

definition findLastForwardCommitTagEnd :: "bytes \<Rightarrow> bool \<Rightarrow> nat option" where
  "findLastForwardCommitTagEnd payload allowLeadingPadding =
     (case (if allowLeadingPadding \<and> payload \<noteq> [] \<and> payload ! 0 = 0
            then findLastForwardCommitTagEndFrom payload 1 else None) of
        Some e \<Rightarrow> Some e
      | None \<Rightarrow> findLastForwardCommitTagEndFrom payload 0)"

function countPayloadLoop :: "bytes \<Rightarrow> nat \<Rightarrow> nat \<Rightarrow> seg_error + nat" where
  "countPayloadLoop payload cursor n =
     (if cursor < length payload then
        case forward_step payload cursor of
          None \<Rightarrow> Inl SegUnexpectedEOF
        | Some (Tag b, c) \<Rightarrow> countPayloadLoop payload c n
        | Some (Rec _ _, c) \<Rightarrow> countPayloadLoop payload c (n + 1)
      else Inr n)"
  by pat_completeness auto
termination
  by (relation "measure (\<lambda>(payload, cursor, _). length payload - cursor)")
    (auto dest: forward_step_progress)

definition countPayloadEntriesWithHeaderSize :: "bytes \<Rightarrow> int \<Rightarrow> seg_error + nat" where
  "countPayloadEntriesWithHeaderSize payload headerSize =
     (if headerSize \<noteq> int segmentedChunkEntryHeaderSize then Inl (UnsupportedHeaderSize headerSize)
      else countPayloadLoop payload 0 0)"

definition parseSegmentBuffer :: "bytes \<Rightarrow> seg_error + bytes \<times> nat" where
  "parseSegmentBuffer buf =
     (case countPayloadEntriesWithHeaderSize buf (int segmentedChunkEntryHeaderSize) of
        Inl e \<Rightarrow> Inl e | Inr kvCount \<Rightarrow> Inr (buf, kvCount))"

function buildPairsLoop :: "bytes \<Rightarrow> nat \<Rightarrow> nat \<Rightarrow> seg_error + kvPair list" where
  "buildPairsLoop payload n cursor =
     (if n = 0 then Inr []
      else case forward_step payload cursor of
          None \<Rightarrow> Inl SegUnexpectedEOF
        | Some (Tag b, c) \<Rightarrow> buildPairsLoop payload n c
        | Some (Rec k v, c) \<Rightarrow> map_sum id ((#) (k, v)) (buildPairsLoop payload (n - 1) c))"
  by pat_completeness auto
termination
  by (relation "measure (\<lambda>(payload, n, cursor). length payload - cursor)")
    (auto dest: forward_step_progress)

definition buildPairsFromPayload :: "bytes \<Rightarrow> int \<Rightarrow> int \<Rightarrow> seg_error + kvPair list" where
  "buildPairsFromPayload payload kvCount headerSize =
     (if kvCount \<le> 0 then Inr []
      else if headerSize \<noteq> int segmentedChunkEntryHeaderSize then Inl (UnsupportedHeaderSize headerSize)
      else buildPairsLoop payload (nat kvCount) 0)"

section \<open>Loops over a chunk, from its tail\<close>

function lastChunkTagLoop :: "bytes \<Rightarrow> nat \<Rightarrow> u64 option" where
  "lastChunkTagLoop payload cursor =
     (if cursor > 0 then
        case tail_step payload cursor of
          None \<Rightarrow> None
        | Some (Tag b, c) \<Rightarrow> Some b
        | Some (Rec _ _, c) \<Rightarrow> lastChunkTagLoop payload c
      else None)"
  by pat_completeness auto
termination
  by (relation "measure (\<lambda>(payload, cursor). cursor)") (auto dest: tail_step_progress)

definition lastChunkCommitTagBlockID :: "bytes \<Rightarrow> u64 option" where
  "lastChunkCommitTagBlockID payload = lastChunkTagLoop payload (length payload)"

function chunkTagEndLoop :: "bytes \<Rightarrow> nat \<Rightarrow> nat option" where
  "chunkTagEndLoop payload cursor =
     (if cursor > 0 then
        case tail_step payload cursor of
          None \<Rightarrow> None
        | Some (Tag b, c) \<Rightarrow> Some cursor
        | Some (Rec _ _, c) \<Rightarrow> chunkTagEndLoop payload c
      else None)"
  by pat_completeness auto
termination
  by (relation "measure (\<lambda>(payload, cursor). cursor)") (auto dest: tail_step_progress)

primrec chunkTagSweep :: "bytes \<Rightarrow> nat \<Rightarrow> nat option" where
  "chunkTagSweep payload 0 = None"
| "chunkTagSweep payload (Suc c) =
     (case chunkCommitTagBlockID payload (Suc c) of
        Some blockID \<Rightarrow> if blockID \<noteq> 0 then Some (Suc c) else chunkTagSweep payload c
      | None \<Rightarrow> chunkTagSweep payload c)"

definition findLastChunkCommitTagEnd :: "bytes \<Rightarrow> nat option" where
  "findLastChunkCommitTagEnd payload =
     (case chunkTagEndLoop payload (length payload) of
        Some e \<Rightarrow> Some e
      | None \<Rightarrow> chunkTagSweep payload (length payload))"

function countChunkLoop :: "bytes \<Rightarrow> nat \<Rightarrow> nat \<Rightarrow> seg_error + nat" where
  "countChunkLoop buf cursor n =
     (if cursor > 0 then
        case tail_step buf cursor of
          None \<Rightarrow> Inl SegUnexpectedEOF
        | Some (Tag b, c) \<Rightarrow> countChunkLoop buf c n
        | Some (Rec _ _, c) \<Rightarrow> countChunkLoop buf c (n + 1)
      else Inr n)"
  by pat_completeness auto
termination
  by (relation "measure (\<lambda>(payload, cursor, _). cursor)") (auto dest: tail_step_progress)

definition countChunkEntriesFromTail :: "bytes \<Rightarrow> seg_error + nat" where
  "countChunkEntriesFromTail buf = countChunkLoop buf (length buf) 0"

function buildChunkLoop :: "bytes \<Rightarrow> nat \<Rightarrow> kvPair list \<Rightarrow> seg_error + kvPair list" where
  "buildChunkLoop payload cursor entries =
     (if cursor > 0 then
        case tail_step payload cursor of
          None \<Rightarrow> Inl SegUnexpectedEOF
        | Some (Tag b, c) \<Rightarrow> buildChunkLoop payload c entries
        | Some (Rec k v, c) \<Rightarrow> buildChunkLoop payload c (entries @ [(k, v)])
      else Inr (rev entries))"
  by pat_completeness auto
termination
  by (relation "measure (\<lambda>(payload, cursor, _). cursor)") (auto dest: tail_step_progress)

definition buildPairsFromChunkBuffer :: "bytes \<Rightarrow> int \<Rightarrow> seg_error + kvPair list" where
  "buildPairsFromChunkBuffer payload kvCount =
     (case (if kvCount < 0 then map_sum id int (countChunkEntriesFromTail payload) else Inr kvCount) of
        Inl e \<Rightarrow> Inl e
      | Inr n \<Rightarrow> if n \<le> 0 then Inr [] else buildChunkLoop payload (length payload) [])"

text \<open>Reading one key of a chunk: the tail scan stops at the first, newest, record of the key.\<close>

datatype chunk_read =
    ChunkValue bytes
  | ChunkTombstone
  | ChunkKeyNotFound
  | ChunkCorrupted
  | ChunkEmpty

type_synonym cache_add = "bytes \<times> bytes \<times> bool"

function readSegmentedChunkBufferLoop :: "bytes \<Rightarrow> bytes \<Rightarrow> nat \<Rightarrow> chunk_read \<times> cache_add list" where
  "readSegmentedChunkBufferLoop buf storageKey cursor =
     (if cursor > 0 then
        case tail_step buf cursor of
          None \<Rightarrow> (ChunkCorrupted, [])
        | Some (Tag b, c) \<Rightarrow> readSegmentedChunkBufferLoop buf storageKey c
        | Some (Rec k v, c) \<Rightarrow>
            (if k = storageKey
             then (if v = [] then (ChunkTombstone, [(storageKey, [], False)])
                   else (ChunkValue v, [(storageKey, v, False)]))
             else readSegmentedChunkBufferLoop buf storageKey c)
      else (ChunkKeyNotFound, [(storageKey, [], False)]))"
  by pat_completeness auto
termination
  by (relation "measure (\<lambda>(buf, k, cursor). cursor)") (auto dest: tail_step_progress)

definition readSegmentedChunkBufferToCache :: "bytes \<Rightarrow> bytes \<Rightarrow> chunk_read \<times> cache_add list" where
  "readSegmentedChunkBufferToCache buf storageKey = readSegmentedChunkBufferLoop buf storageKey (length buf)"

text \<open>
  The streaming read also collects up to \<^verbatim>\<open>storageGetCacheCount\<close> records that it passes and
  offers them to the storage cache when it finds the key. The second component of the result are
  the values that it adds to the cache, in order; a \<^verbatim>\<open>nil\<close> value is the empty list.
\<close>

function streamingLoop :: "int \<Rightarrow> bytes \<Rightarrow> bytes \<Rightarrow> nat \<Rightarrow> kvPair list \<Rightarrow> chunk_read \<times> cache_add list" where
  "streamingLoop prefetchLimit buf storageKey cursor pending =
     (if cursor > 0 then
        case tail_step buf cursor of
          None \<Rightarrow> (ChunkCorrupted, [])
        | Some (Tag b, c) \<Rightarrow> streamingLoop prefetchLimit buf storageKey c pending
        | Some (Rec k v, c) \<Rightarrow>
            (let pending' = (if prefetchLimit > 0 \<and> int (length pending) < prefetchLimit
                             then pending @ [(k, v)] else pending);
                 prefetched = map (\<lambda>(k', v'). (k', v', True)) pending'
             in if k = storageKey
                then (if v = [] then (ChunkTombstone, prefetched @ [(storageKey, [], False)])
                      else (ChunkValue v, prefetched @ [(storageKey, v, False)]))
                else streamingLoop prefetchLimit buf storageKey c pending')
      else (ChunkKeyNotFound, [(storageKey, [], False)]))"
  by pat_completeness auto
termination
  by (relation "measure (\<lambda>(l, buf, k, cursor, _). cursor)") (auto dest: tail_step_progress)

definition readSegmentedChunkToCacheStreaming :: "int \<Rightarrow> bytes \<Rightarrow> bytes \<Rightarrow> chunk_read \<times> cache_add list" where
  "readSegmentedChunkToCacheStreaming prefetchLimit buf storageKey =
     (if buf = [] then (ChunkEmpty, [])
      else if prefetchLimit = 0 then readSegmentedChunkBufferToCache buf storageKey
      else streamingLoop prefetchLimit buf storageKey (length buf) [])"

definition trimFileAfterLastCommitTag :: "bytes \<Rightarrow> bool \<Rightarrow> bool \<Rightarrow> bool \<times> bytes" where
  "trimFileAfterLastCommitTag payload chunkFormat allowLeadingPadding =
     (case (if chunkFormat then findLastChunkCommitTagEnd payload
            else findLastForwardCommitTagEnd payload allowLeadingPadding) of
        None \<Rightarrow> (False, payload)
      | Some e \<Rightarrow> (True, if e < length payload then take e payload else payload))"

lemmas seg_loop_simps = lastForwardTagLoop.simps forwardTagEndLoop.simps countPayloadLoop.simps buildPairsLoop.simps
  lastChunkTagLoop.simps chunkTagEndLoop.simps countChunkLoop.simps buildChunkLoop.simps
  readSegmentedChunkBufferLoop.simps streamingLoop.simps

declare seg_loop_simps [simp del]

section \<open>Logs as lists of items\<close>

fun fwd_enc :: "log_item \<Rightarrow> bytes" where
  "fwd_enc (Rec k v) = record_header (k, v) @ k @ v"
| "fwd_enc (Tag b) = replicate 4 0 @ PutUint64 b"

fun chunk_enc :: "log_item \<Rightarrow> bytes" where
  "chunk_enc (Rec k v) = k @ v @ record_header (k, v)"
| "chunk_enc (Tag b) = PutUint64 b @ replicate 4 0"

fun item_ok :: "log_item \<Rightarrow> bool" where
  "item_ok (Rec k v) \<longleftrightarrow> length k \<le> 0xFFFF \<and> length v \<le> 0xFFFF \<and> (k \<noteq> [] \<or> v \<noteq> [])"
| "item_ok (Tag b) \<longleftrightarrow> True"

abbreviation fwd_log :: "log_item list \<Rightarrow> bytes" where
  "fwd_log xs \<equiv> concat (map fwd_enc xs)"

abbreviation chunk_log :: "log_item list \<Rightarrow> bytes" where
  "chunk_log xs \<equiv> concat (map chunk_enc xs)"

fun records :: "log_item list \<Rightarrow> kvPair list" where
  "records [] = []"
| "records (Rec k v # xs) = (k, v) # records xs"
| "records (Tag b # xs) = records xs"

definition rec_items :: "kvPair list \<Rightarrow> log_item list" where
  "rec_items kvs = map (\<lambda>(k, v). Rec k v) kvs"

definition tag_items :: "u64 \<Rightarrow> log_item list" where
  "tag_items blockID = (if blockID = 0 then [] else [Tag blockID])"

lemma records_append [simp, seg_simps]: "records (xs @ ys) = records xs @ records ys"
  by (induction xs rule: records.induct) simp_all

lemma records_rec_items [simp, seg_simps]: "records (rec_items kvs) = kvs"
  by (induction kvs) (auto simp: rec_items_def)

lemma records_tag_items [simp, seg_simps]: "records (tag_items b) = []"
  by (simp add: tag_items_def)

lemma rec_items_append: "rec_items (xs @ ys) = rec_items xs @ rec_items ys"
  by (simp add: rec_items_def)

definition entry_ok :: "kvPair \<Rightarrow> bool" where
  "entry_ok kv \<longleftrightarrow> length (fst kv) \<le> 0xFFFF \<and> length (snd kv) \<le> 0xFFFF \<and> (fst kv \<noteq> [] \<or> snd kv \<noteq> [])"

lemma item_ok_rec_items: "(\<forall>it \<in> set (rec_items kvs). item_ok it) \<longleftrightarrow> (\<forall>kv \<in> set kvs. entry_ok kv)"
  by (auto simp: rec_items_def entry_ok_def)

lemma item_ok_tag_items [simp]: "\<forall>it \<in> set (tag_items b). item_ok it"
  by (simp add: tag_items_def)

lemma length_record_header [simp, seg_simps]: "length (record_header kv) = 4"
  by (simp add: record_header_def)

lemma length_fwd_enc [simp, seg_simps]:
  "length (fwd_enc (Rec k v)) = entry_bytes (k, v)" "length (fwd_enc (Tag b)) = commitTagRecordSize"
  by (simp_all add: entry_bytes_def segmentedChunkEntryHeaderSize_def commitTagRecordSize_def)

lemma length_chunk_enc [simp, seg_simps]:
  "length (chunk_enc (Rec k v)) = entry_bytes (k, v)" "length (chunk_enc (Tag b)) = commitTagRecordSize"
  by (simp_all add: entry_bytes_def segmentedChunkEntryHeaderSize_def commitTagRecordSize_def)

lemma header_at_record:
  "length k \<le> 0xFFFF \<Longrightarrow> length v \<le> 0xFFFF \<Longrightarrow>
   header_at (pre @ record_header (k, v) @ post) (length pre) = (length k, length v)"
  by (simp add: header_at_def record_header_def unat_of_nat Uint16_PutUint16 flip: PutUint16_def)

lemma header_at_zero: "header_at (pre @ replicate 4 0 @ post) (length pre) = (0, 0)"
  by (simp add: header_at_def Uint16_def numeral_eq_Suc)

lemma forward_step_enc [seg_simps]:
  assumes "item_ok it"
  shows "forward_step (pre @ fwd_enc it @ post) (length pre) = Some (it, length pre + length (fwd_enc it))"
proof (cases it)
  case (Rec k v)
  have h: "header_at (pre @ fwd_enc it @ post) (length pre) = (length k, length v)"
    using assms header_at_record [of k v pre "k @ v @ post"] by (simp add: Rec)
  show ?thesis using assms
    by (auto simp: forward_step_def h segmentedChunkEntryHeaderSize_def Let_def)
      (auto simp: Rec entry_bytes_def segmentedChunkEntryHeaderSize_def)
next
  case (Tag b)
  have h: "header_at (pre @ fwd_enc it @ post) (length pre) = (0, 0)"
    using header_at_zero [of pre "PutUint64 b @ post"] by (simp add: Tag)
  show ?thesis
    by (auto simp: forward_step_def forwardCommitTagBlockID_def h segmentedChunkEntryHeaderSize_def Let_def)
      (auto simp: Tag commitTagRecordSize_def)
qed

lemma tail_step_enc [seg_simps]:
  assumes "item_ok it"
  shows "tail_step (pre @ chunk_enc it @ post) (length pre + length (chunk_enc it)) = Some (it, length pre)"
proof (cases it)
  case (Rec k v)
  have h: "header_at (pre @ chunk_enc it @ post) (length pre + length (chunk_enc it) - 4) = (length k, length v)"
    using assms header_at_record [of k v "pre @ k @ v" post]
    by (simp add: Rec entry_bytes_def segmentedChunkEntryHeaderSize_def)
  show ?thesis using assms
    by (auto simp: tail_step_def h segmentedChunkEntryHeaderSize_def Let_def)
      (auto simp: Rec entry_bytes_def segmentedChunkEntryHeaderSize_def)
next
  case (Tag b)
  have h: "header_at (pre @ chunk_enc it @ post) (length pre + length (chunk_enc it) - 4) = (0, 0)"
    using header_at_zero [of "pre @ PutUint64 b" post] by (simp add: Tag commitTagRecordSize_def add.commute)
  show ?thesis
    by (auto simp: tail_step_def chunkCommitTagBlockID_def h segmentedChunkEntryHeaderSize_def Let_def)
      (auto simp: Tag commitTagRecordSize_def)
qed

section \<open>What the loops compute\<close>

lemma fwd_enc_pos [simp]: "0 < length (fwd_enc it)"
  by (cases it) (simp_all add: entry_bytes_def segmentedChunkEntryHeaderSize_def commitTagRecordSize_def)

lemma chunk_enc_pos [simp]: "0 < length (chunk_enc it)"
  by (cases it) (simp_all add: entry_bytes_def segmentedChunkEntryHeaderSize_def commitTagRecordSize_def)

lemma sizes_pos [simp]: "0 < entry_bytes kv" "0 < commitTagRecordSize"
  by (simp_all add: entry_bytes_def segmentedChunkEntryHeaderSize_def commitTagRecordSize_def)

lemma enc_not_Nil [simp]: "fwd_enc it \<noteq> []" "chunk_enc it \<noteq> []"
  using fwd_enc_pos [of it] chunk_enc_pos [of it] by auto

fun last_tag :: "u64 option \<Rightarrow> log_item list \<Rightarrow> u64 option" where
  "last_tag b [] = b"
| "last_tag b (Tag c # xs) = last_tag (Some c) xs"
| "last_tag b (Rec k v # xs) = last_tag b xs"

fun tag_end :: "nat \<Rightarrow> nat option \<Rightarrow> log_item list \<Rightarrow> nat option" where
  "tag_end n e [] = e"
| "tag_end n e (Tag c # xs) = tag_end (n + commitTagRecordSize) (Some (n + commitTagRecordSize)) xs"
| "tag_end n e (Rec k v # xs) = tag_end (n + entry_bytes (k, v)) e xs"

definition stops :: "bytes \<Rightarrow> nat \<Rightarrow> bool" where
  "stops payload cursor \<longleftrightarrow> cursor \<ge> length payload \<or> forward_step payload cursor = None"

lemma forwardTagEndLoop_log:
  "\<forall>it \<in> set xs. item_ok it \<Longrightarrow> stops (pre @ fwd_log xs @ rest) (length (pre @ fwd_log xs)) \<Longrightarrow>
   forwardTagEndLoop (pre @ fwd_log xs @ rest) (length pre) e = tag_end (length pre) e xs"
proof (induction xs arbitrary: pre e)
  case Nil
  then show ?case by (auto simp: stops_def forwardTagEndLoop.simps split: option.splits)
next
  case (Cons it xs)
  have s: "forward_step (pre @ fwd_log (it # xs) @ rest) (length pre) = Some (it, length pre + length (fwd_enc it))"
    using forward_step_enc [of it pre "fwd_log xs @ rest"] Cons.prems(1) by simp
  show ?case
    using Cons.IH [of "pre @ fwd_enc it" e] Cons.IH [of "pre @ fwd_enc it" "Some (length (pre @ fwd_enc it))"]
      Cons.prems fwd_enc_pos [of it] s
    by (subst forwardTagEndLoop.simps) (cases it; simp add: add.assoc del: fwd_enc.simps)
qed

lemma lastForwardTagLoop_log:
  "\<forall>it \<in> set xs. item_ok it \<Longrightarrow> stops (pre @ fwd_log xs @ rest) (length (pre @ fwd_log xs)) \<Longrightarrow>
   lastForwardTagLoop (pre @ fwd_log xs @ rest) (length pre) b = last_tag b xs"
proof (induction xs arbitrary: pre b)
  case Nil
  then show ?case by (auto simp: stops_def lastForwardTagLoop.simps split: option.splits)
next
  case (Cons it xs)
  have s: "forward_step (pre @ fwd_log (it # xs) @ rest) (length pre) = Some (it, length pre + length (fwd_enc it))"
    using forward_step_enc [of it pre "fwd_log xs @ rest"] Cons.prems(1) by simp
  show ?case
    using Cons.IH [of "pre @ fwd_enc it"] Cons.prems fwd_enc_pos [of it] s
    by (subst lastForwardTagLoop.simps) (cases it; simp add: add.assoc del: fwd_enc.simps)
qed

lemma countPayloadLoop_log:
  "\<forall>it \<in> set xs. item_ok it \<Longrightarrow>
   countPayloadLoop (pre @ fwd_log xs) (length pre) n = Inr (n + length (records xs))"
proof (induction xs arbitrary: pre n)
  case Nil
  then show ?case by (simp add: countPayloadLoop.simps)
next
  case (Cons it xs)
  have s: "forward_step (pre @ fwd_log (it # xs)) (length pre) = Some (it, length pre + length (fwd_enc it))"
    using forward_step_enc [of it pre "fwd_log xs"] Cons.prems(1) by simp
  show ?case
    using Cons.IH [of "pre @ fwd_enc it"] Cons.prems fwd_enc_pos [of it] s
    by (subst countPayloadLoop.simps) (cases it; simp add: add.assoc del: fwd_enc.simps)
qed

lemma buildPairsLoop_log:
  "\<forall>it \<in> set xs. item_ok it \<Longrightarrow>
   buildPairsLoop (pre @ fwd_log xs) (length (records xs)) (length pre) = Inr (records xs)"
proof (induction xs arbitrary: pre)
  case Nil
  then show ?case by (simp add: buildPairsLoop.simps)
next
  case (Cons it xs)
  have s: "forward_step (pre @ fwd_log (it # xs)) (length pre) = Some (it, length pre + length (fwd_enc it))"
    using forward_step_enc [of it pre "fwd_log xs"] Cons.prems(1) by simp
  show ?case
    using Cons.IH [of "pre @ fwd_enc it"] Cons.prems fwd_enc_pos [of it] s
    by (subst buildPairsLoop.simps) (cases it; simp add: add.assoc del: fwd_enc.simps)
qed

text \<open>The reference answers for a chunk: the newest record of a key decides.\<close>

definition read_result :: "bytes option \<Rightarrow> chunk_read" where
  "read_result r = (case r of None \<Rightarrow> ChunkKeyNotFound | Some v \<Rightarrow> if v = [] then ChunkTombstone else ChunkValue v)"

abbreviation newest :: "kvPair list \<Rightarrow> bytes \<rightharpoonup> bytes" where
  "newest kvs \<equiv> map_of (rev kvs)"

lemma tail_step_log:
  "item_ok it \<Longrightarrow>
   tail_step (chunk_log (xs @ [it]) @ post) (length (chunk_log (xs @ [it]))) = Some (it, length (chunk_log xs))"
  using tail_step_enc [of it "chunk_log xs" post] by simp

lemma countChunkLoop_log:
  "\<forall>it \<in> set xs. item_ok it \<Longrightarrow>
   countChunkLoop (chunk_log xs @ post) (length (chunk_log xs)) n = Inr (n + length (records xs))"
proof (induction xs arbitrary: post n rule: rev_induct)
  case Nil
  then show ?case by (simp add: countChunkLoop.simps)
next
  case (snoc it xs)
  show ?case
    using snoc.IH [of "chunk_enc it @ post"] snoc.prems tail_step_log [of it xs post]
    by (subst countChunkLoop.simps) (cases it; simp del: chunk_enc.simps)
qed

lemma buildChunkLoop_log:
  "\<forall>it \<in> set xs. item_ok it \<Longrightarrow>
   buildChunkLoop (chunk_log xs @ post) (length (chunk_log xs)) es = Inr (records xs @ rev es)"
proof (induction xs arbitrary: post es rule: rev_induct)
  case Nil
  then show ?case by (simp add: buildChunkLoop.simps)
next
  case (snoc it xs)
  show ?case
    using snoc.IH [of "chunk_enc it @ post"] snoc.prems tail_step_log [of it xs post]
    by (subst buildChunkLoop.simps) (cases it; simp del: chunk_enc.simps)
qed

lemma readSegmentedChunkBufferLoop_log:
  "\<forall>it \<in> set xs. item_ok it \<Longrightarrow>
   readSegmentedChunkBufferLoop (chunk_log xs @ post) k (length (chunk_log xs)) =
     (let r = newest (records xs) k in (read_result r, [(k, case r of None \<Rightarrow> [] | Some v \<Rightarrow> v, False)]))"
proof (induction xs arbitrary: post rule: rev_induct)
  case Nil
  then show ?case by (simp add: readSegmentedChunkBufferLoop.simps read_result_def)
next
  case (snoc it xs)
  show ?case
    using snoc.IH [of "chunk_enc it @ post"] snoc.prems tail_step_log [of it xs post]
    by (subst readSegmentedChunkBufferLoop.simps) (cases it; simp add: read_result_def Let_def del: chunk_enc.simps)
qed

lemma fst_streamingLoop_log:
  "\<forall>it \<in> set xs. item_ok it \<Longrightarrow>
   fst (streamingLoop l (chunk_log xs @ post) k (length (chunk_log xs)) pending) = read_result (newest (records xs) k)"
proof (induction xs arbitrary: post pending rule: rev_induct)
  case Nil
  then show ?case by (simp add: streamingLoop.simps read_result_def)
next
  case (snoc it xs)
  show ?case
    using snoc.IH [of "chunk_enc it @ post"] snoc.prems tail_step_log [of it xs post]
    by (subst streamingLoop.simps) (cases it; simp add: read_result_def Let_def del: chunk_enc.simps)
qed

lemma last_tag_snoc:
  "last_tag b (xs @ [it]) = (case it of Tag c \<Rightarrow> Some c | Rec k v \<Rightarrow> last_tag b xs)"
  by (induction b xs rule: last_tag.induct) (auto split: log_item.splits)

lemma lastChunkTagLoop_log:
  "\<forall>it \<in> set xs. item_ok it \<Longrightarrow>
   lastChunkTagLoop (chunk_log xs @ post) (length (chunk_log xs)) = last_tag None xs"
proof (induction xs arbitrary: post rule: rev_induct)
  case Nil
  then show ?case by (simp add: lastChunkTagLoop.simps)
next
  case (snoc it xs)
  show ?case
    using snoc.IH [of "chunk_enc it @ post"] snoc.prems tail_step_log [of it xs post]
    by (subst lastChunkTagLoop.simps) (cases it; simp add: last_tag_snoc del: chunk_enc.simps)
qed

lemma tag_end_snoc:
  "tag_end n e (xs @ [it]) =
     (case it of Tag c \<Rightarrow> Some (n + length (chunk_log (xs @ [it]))) | Rec k v \<Rightarrow> tag_end n e xs)"
  by (induction n e xs rule: tag_end.induct) (auto split: log_item.splits simp del: chunk_enc.simps)

lemma chunkTagEndLoop_log:
  "\<forall>it \<in> set xs. item_ok it \<Longrightarrow>
   chunkTagEndLoop (chunk_log xs @ post) (length (chunk_log xs)) = tag_end 0 None xs"
proof (induction xs arbitrary: post rule: rev_induct)
  case Nil
  then show ?case by (simp add: chunkTagEndLoop.simps)
next
  case (snoc it xs)
  show ?case
    using snoc.IH [of "chunk_enc it @ post"] snoc.prems tail_step_log [of it xs post]
    by (subst chunkTagEndLoop.simps) (cases it; simp add: tag_end_snoc del: chunk_enc.simps)
qed

section \<open>Writers\<close>

lemma commit_items_ok:
  "\<forall>kv \<in> set kvs. entry_ok kv \<Longrightarrow> \<forall>it \<in> set (rec_items kvs @ tag_items b). item_ok it"
  using item_ok_rec_items [of kvs] by (auto simp: tag_items_def)

lemma size_check_None: "size_check kvs = None \<longleftrightarrow> (\<forall>kv \<in> set kvs. length (fst kv) \<le> 0xFFFF \<and> length (snd kv) \<le> 0xFFFF)"
  by (induction kvs) auto

lemma entry_ok_size_check: "\<forall>kv \<in> set kvs. entry_ok kv \<Longrightarrow> size_check kvs = None"
  by (simp add: size_check_None entry_ok_def)

lemma size_check_Some:
  "size_check kvs = Some e \<Longrightarrow>
   \<exists>kv \<in> set kvs. (e = KeyTooLarge (length (fst kv)) \<and> length (fst kv) > 0xFFFF) \<or>
                  (e = ValueTooLarge (length (snd kv)) \<and> length (snd kv) > 0xFFFF)"
  by (induction kvs) (auto split: if_splits)

lemma serializeStorageSegment_log:
  "\<forall>kv \<in> set kvs. entry_ok kv \<Longrightarrow> serializeStorageSegment kvs = Inr (fwd_log (rec_items kvs))"
  by (simp add: serializeStorageSegment_def entry_ok_size_check rec_items_def comp_def split_beta)

lemma serializeChunkPayload_log:
  "\<forall>kv \<in> set kvs. entry_ok kv \<Longrightarrow> serializeChunkPayload kvs = Inr (chunk_log (rec_items kvs))"
  by (simp add: serializeChunkPayload_def entry_ok_size_check rec_items_def comp_def split_beta)

lemma appendForwardCommitTag_log: "appendForwardCommitTag (fwd_log xs) b = fwd_log (xs @ tag_items b)"
  by (simp add: appendForwardCommitTag_def tag_items_def)

lemma appendChunkCommitTag_log: "appendChunkCommitTag (chunk_log xs) b = chunk_log (xs @ tag_items b)"
  by (simp add: appendChunkCommitTag_def tag_items_def)

lemma fold_sizes: "fold (\<lambda>kv n. n + entry_bytes kv) kvs m = m + sum_list (map entry_bytes kvs)"
  by (induction kvs arbitrary: m) simp_all

lemma length_rec_log:
  "length (fwd_log (rec_items kvs)) = sum_list (map entry_bytes kvs)"
  "length (chunk_log (rec_items kvs)) = sum_list (map entry_bytes kvs)"
  by (induction kvs) (auto simp: rec_items_def simp del: fwd_enc.simps chunk_enc.simps)

lemma payloadSize_sum: "payloadSize kvs = sum_list (map entry_bytes kvs)" "estimateSegmentSize kvs = payloadSize kvs"
  by (simp_all add: payloadSize_def estimateSegmentSize_def fold_sizes)

section \<open>Readers\<close>

lemma buildPairs_log:
  assumes "\<forall>it \<in> set xs. item_ok it"
  shows "parseSegmentBuffer (fwd_log xs) = Inr (fwd_log xs, length (records xs))"
    and "buildPairsFromPayload (fwd_log xs) (int (length (records xs))) (int segmentedChunkEntryHeaderSize) = Inr (records xs)"
  using countPayloadLoop_log [OF assms, of "[]" 0] buildPairsLoop_log [OF assms, of "[]"]
  by (simp_all add: parseSegmentBuffer_def countPayloadEntriesWithHeaderSize_def buildPairsFromPayload_def)

lemma chunk_pairs_log:
  assumes "\<forall>it \<in> set xs. item_ok it"
  shows "countChunkEntriesFromTail (chunk_log xs) = Inr (length (records xs))"
    and "n < 0 \<or> n = int (length (records xs)) \<Longrightarrow> buildPairsFromChunkBuffer (chunk_log xs) n = Inr (records xs)"
  using countChunkLoop_log [OF assms, of "[]" 0] buildChunkLoop_log [OF assms, of "[]" "[]"]
  by (auto simp: countChunkEntriesFromTail_def buildPairsFromChunkBuffer_def)

lemma readSegmentedChunkBufferToCache_log:
  assumes "\<forall>it \<in> set xs. item_ok it"
  shows "readSegmentedChunkBufferToCache (chunk_log xs) k =
     (let r = newest (records xs) k in (read_result r, [(k, case r of None \<Rightarrow> [] | Some v \<Rightarrow> v, False)]))"
  using readSegmentedChunkBufferLoop_log [OF assms, of "[]" k] by (simp add: readSegmentedChunkBufferToCache_def)

lemma fst_streaming_log:
  assumes "\<forall>it \<in> set xs. item_ok it" "xs \<noteq> []"
  shows "fst (readSegmentedChunkToCacheStreaming l (chunk_log xs) k) = read_result (newest (records xs) k)"
  using assms readSegmentedChunkBufferToCache_log [OF assms(1), of k] fst_streamingLoop_log [OF assms(1), of l "[]" k "[]"]
  by (cases xs) (simp_all add: readSegmentedChunkToCacheStreaming_def Let_def)

lemma lastChunkCommitTagBlockID_log:
  "\<forall>it \<in> set xs. item_ok it \<Longrightarrow> lastChunkCommitTagBlockID (chunk_log xs) = last_tag None xs"
  using lastChunkTagLoop_log [of xs "[]"] by (simp add: lastChunkCommitTagBlockID_def)

section \<open>Recovery\<close>

lemma tag_end_Recs: "(\<forall>it \<in> set zs. \<exists>k v. it = Rec k v) \<Longrightarrow> tag_end n e zs = e"
  by (induction n e zs rule: tag_end.induct) auto

lemma tag_end_app:
  "(\<forall>it \<in> set zs. \<exists>k v. it = Rec k v) \<Longrightarrow>
   tag_end n e (ys @ Tag b # zs) = Some (n + length (fwd_log (ys @ [Tag b])))"
  by (induction n e ys rule: tag_end.induct) (auto simp: tag_end_Recs simp del: fwd_enc.simps)

lemma chunk_length_eq: "length (chunk_log xs) = length (fwd_log xs)"
proof (induction xs)
  case (Cons it xs)
  then show ?case by (cases it) (simp_all del: fwd_enc.simps chunk_enc.simps)
qed simp

lemma torn_record_stops:
  assumes "item_ok it" and n: "n < length (fwd_enc it)"
  shows "stops (pre @ take n (fwd_enc it)) (length pre)"
proof (cases "n < 4")
  case True
  then have "length (pre @ take n (fwd_enc it)) < length pre + 4" by simp
  then show ?thesis by (simp add: stops_def forward_step_def segmentedChunkEntryHeaderSize_def)
next
  case False
  show ?thesis
  proof (cases it)
    case (Rec k v)
    have "take n (fwd_enc it) = record_header (k, v) @ take (n - 4) (k @ v)" using False by (simp add: Rec)
    then show ?thesis
      using assms header_at_record [of k v pre "take (n - 4) (k @ v)"] n False
      by (auto simp: Rec stops_def forward_step_def Let_def segmentedChunkEntryHeaderSize_def entry_bytes_def
          simp del: take_append)
  next
    case (Tag b)
    have "take n (fwd_enc it) = replicate 4 0 @ take (n - 4) (PutUint64 b)" using False by (simp add: Tag)
    then show ?thesis
      using header_at_zero [of pre "take (n - 4) (PutUint64 b)"] n False
      by (auto simp: Tag stops_def forward_step_def forwardCommitTagBlockID_def Let_def
          segmentedChunkEntryHeaderSize_def commitTagRecordSize_def simp del: take_append)
  qed
qed

lemma forward_end_torn:
  assumes items: "\<forall>it \<in> set (ys @ Tag b # zs). item_ok it" and recs: "\<forall>it \<in> set zs. \<exists>k v. it = Rec k v"
    and torn: "item_ok it" "n < length (fwd_enc it)"
  shows "findLastForwardCommitTagEndFrom (pre @ fwd_log (ys @ Tag b # zs) @ take n (fwd_enc it)) (length pre) =
           Some (length pre + length (fwd_log (ys @ [Tag b])))"
  unfolding findLastForwardCommitTagEndFrom_def
  using forwardTagEndLoop_log [of "ys @ Tag b # zs" pre "take n (fwd_enc it)" None] items
    torn_record_stops [OF torn, of "pre @ fwd_log (ys @ Tag b # zs)"] tag_end_app [OF recs]
  by (simp del: fwd_enc.simps)

lemma forward_trim:
  assumes "\<forall>it \<in> set (ys @ Tag b # zs). item_ok it" "\<forall>it \<in> set zs. \<exists>k v. it = Rec k v"
    "item_ok it" "n < length (fwd_enc it)"
  shows "trimFileAfterLastCommitTag (fwd_log (ys @ Tag b # zs) @ take n (fwd_enc it)) False False =
           (True, fwd_log (ys @ [Tag b]))"
    and "trimFileAfterLastCommitTag (0 # fwd_log (ys @ Tag b # zs) @ take n (fwd_enc it)) False True =
           (True, 0 # fwd_log (ys @ [Tag b]))"
  using forward_end_torn [OF assms, of "[]"] forward_end_torn [OF assms, of "[0]"]
  by (simp_all add: trimFileAfterLastCommitTag_def findLastForwardCommitTagEnd_def del: fwd_enc.simps)

lemma chunk_trim:
  assumes "\<forall>it \<in> set (ys @ Tag b # zs). item_ok it" "\<forall>it \<in> set zs. \<exists>k v. it = Rec k v"
  shows "trimFileAfterLastCommitTag (chunk_log (ys @ Tag b # zs)) True p = (True, chunk_log (ys @ [Tag b]))"
proof -
  have "findLastChunkCommitTagEnd (chunk_log (ys @ Tag b # zs)) = Some (length (chunk_log (ys @ [Tag b])))"
    using chunkTagEndLoop_log [OF assms(1), of "[]"] tag_end_app [OF assms(2)] chunk_length_eq [of "ys @ [Tag b]"]
    by (simp add: findLastChunkCommitTagEnd_def del: chunk_enc.simps fwd_enc.simps)
  then show ?thesis by (simp add: trimFileAfterLastCommitTag_def del: chunk_enc.simps)
qed

section \<open>Theorems\<close>

text \<open>
  C34. Whatever pairs a commit writes, as a common segment or as a chunk, with or without its commit
  tag, the readers return exactly these pairs in the same order, the counters count them, and the
  sizes that the commit computed beforehand are the sizes written. The tag is found again from the
  end of the chunk.
\<close>

theorem storage_formats_roundtrip:
  assumes "\<forall>kv \<in> set kvs. entry_ok kv"
  shows "\<exists>seg chunk. serializeStorageSegment kvs = Inr seg \<and> serializeChunkPayload kvs = Inr chunk \<and>
     length seg = estimateSegmentSize kvs \<and> length chunk = payloadSize kvs \<and>
     parseSegmentBuffer (appendForwardCommitTag seg b) = Inr (appendForwardCommitTag seg b, length kvs) \<and>
     buildPairsFromPayload (appendForwardCommitTag seg b) (int (length kvs)) 4 = Inr kvs \<and>
     countChunkEntriesFromTail (appendChunkCommitTag chunk b) = Inr (length kvs) \<and>
     buildPairsFromChunkBuffer (appendChunkCommitTag chunk b) (-1) = Inr kvs \<and>
     lastChunkCommitTagBlockID (appendChunkCommitTag chunk b) = (if b = 0 then None else Some b)"
proof -
  let ?xs = "rec_items kvs @ tag_items b"
  have ok: "\<forall>it \<in> set ?xs. item_ok it" by (rule commit_items_ok [OF assms])
  have tag: "last_tag c ?xs = (if b = 0 then c else Some b)" for c
    by (induction kvs) (auto simp: rec_items_def tag_items_def)
  have fwd: "appendForwardCommitTag (fwd_log (rec_items kvs)) b = fwd_log ?xs"
    and chunk: "appendChunkCommitTag (chunk_log (rec_items kvs)) b = chunk_log ?xs"
    by (rule appendForwardCommitTag_log appendChunkCommitTag_log)+
  have recs: "records ?xs = kvs" by simp
  show ?thesis
  proof (intro exI conjI)
    show "serializeStorageSegment kvs = Inr (fwd_log (rec_items kvs))" by (rule serializeStorageSegment_log [OF assms])
    show "serializeChunkPayload kvs = Inr (chunk_log (rec_items kvs))" by (rule serializeChunkPayload_log [OF assms])
    show "buildPairsFromChunkBuffer (appendChunkCommitTag (chunk_log (rec_items kvs)) b) (-1) = Inr kvs"
      unfolding chunk using chunk_pairs_log(2) [OF ok, of "-1"] recs by simp
    show "lastChunkCommitTagBlockID (appendChunkCommitTag (chunk_log (rec_items kvs)) b) = (if b = 0 then None else Some b)"
      unfolding chunk using lastChunkCommitTagBlockID_log [OF ok] tag by simp
  qed (use buildPairs_log [OF ok] chunk_pairs_log(1) [OF ok] recs fwd chunk in
      \<open>simp_all add: length_rec_log payloadSize_sum segmentedChunkEntryHeaderSize_def\<close>)
qed

lemma storage_formats_roundtrip_witness:
  "buildPairsFromPayload (appendForwardCommitTag (record_header ([1], [2, 3]) @ [1, 2, 3]) 9) 1 4 = Inr [([1], [2, 3])] \<and>
   buildPairsFromChunkBuffer (appendChunkCommitTag ([1, 2, 3] @ record_header ([1], [2, 3])) 9) (-1) = Inr [([1], [2, 3])]"
  using storage_formats_roundtrip [of "[([1], [2, 3])]" 9]
  by (auto simp: entry_ok_def serializeStorageSegment_def serializeChunkPayload_def)

text \<open>
  C35. After a crash the trim of a storage log or of the account log (which begins with a padding
  byte) cuts it right behind its last complete commit tag, whatever complete records and whatever
  torn record or torn tag the crash left behind it. A chunk is cut behind its last tag when the
  records after it are complete.
\<close>

theorem storage_log_trimmed:
  assumes "\<forall>it \<in> set (ys @ Tag b # zs). item_ok it" "\<forall>it \<in> set zs. \<exists>k v. it = Rec k v"
    and "item_ok it" "n < length (fwd_enc it)"
  shows "trimFileAfterLastCommitTag (fwd_log (ys @ Tag b # zs) @ take n (fwd_enc it)) False False =
           (True, fwd_log (ys @ [Tag b])) \<and>
         trimFileAfterLastCommitTag (0 # fwd_log (ys @ Tag b # zs) @ take n (fwd_enc it)) False True =
           (True, 0 # fwd_log (ys @ [Tag b])) \<and>
         trimFileAfterLastCommitTag (chunk_log (ys @ Tag b # zs)) True False = (True, chunk_log (ys @ [Tag b]))"
  using forward_trim [OF assms] chunk_trim [OF assms(1,2)] by blast

lemma storage_log_trimmed_witness:
  "trimFileAfterLastCommitTag
     (fwd_log [Rec [1] [2, 3], Tag 9, Rec [4] [5]] @ take 5 (fwd_enc (Rec [1] [7]))) False False =
     (True, fwd_log [Rec [1] [2, 3], Tag 9])"
  using storage_log_trimmed [of "[Rec [1] [2, 3]]" 9 "[Rec [4] [5]]" "Rec [1] [7]" 5]
  by (simp add: entry_bytes_def segmentedChunkEntryHeaderSize_def)

text \<open>
  A chunk that a crash tore inside a record has no such guarantee: the bytes of the torn record are
  read as footers. Here the torn record ends in zero bytes of its value, these are taken for a
  commit tag, and the file keeps all of its torn tail; the readers then return a record that nobody
  wrote.
\<close>

definition torn_chunk :: bytes where
  "torn_chunk = chunk_log [Rec [1] [2], Tag 7] @ take 13 (chunk_enc (Rec [9] (replicate 20 0)))"

lemma torn_chunk_not_trimmed:
  "trimFileAfterLastCommitTag torn_chunk True False = (True, torn_chunk)"
  "buildPairsFromChunkBuffer torn_chunk (-1) = Inr [([1], [2]), ([], [0, 0, 0, 0, 0, 0, 0, 7, 0])]"
  by code_simp+

end
