(* ===== verification/Segment_Entries.thy ===== *)
theory Segment_Entries
  imports Segment_Format
begin

text \<open>
  The list algorithms of the storage logs in \<^verbatim>\<open>src/THEO/prefixdb/prefixdb.go\<close>: sorting the
  pairs of a commit, dropping superseded versions, merging a commit into the records of a chunk,
  splitting a list of records into chunks, finding the chunk of a key, and the names of the chunk
  files. Each is a definition of its own, followed by its equivalence with a reference definition
  on maps and lists. Keys are compared by \<^verbatim>\<open>bytes.Compare\<close>, the lexicographic order on bytes.
\<close>

section \<open>Sorting\<close>

fun merge_runs :: "kvPair list \<Rightarrow> kvPair list \<Rightarrow> kvPair list" where
  "merge_runs (x # xs) (y # ys) =
     (if fst x \<le> fst y then x # merge_runs xs (y # ys) else y # merge_runs (x # xs) ys)"
| "merge_runs [] ys = ys"
| "merge_runs xs [] = xs"

function merge_pass :: "nat \<Rightarrow> kvPair list \<Rightarrow> kvPair list" where
  "merge_pass width src =
     (if src = [] \<or> width = 0 then []
      else merge_runs (take width src) (take width (drop width src)) @ merge_pass width (drop (2 * width) src))"
  by pat_completeness auto
termination
  by (relation "measure (\<lambda>(w, src). length src)") auto

function sort_passes :: "nat \<Rightarrow> kvPair list \<Rightarrow> kvPair list" where
  "sort_passes width src =
     (if 0 < width \<and> width < length src then sort_passes (2 * width) (merge_pass width src) else src)"
  by pat_completeness auto

declare merge_pass.simps [simp del]

lemma length_merge_runs [simp]: "length (merge_runs xs ys) = length xs + length ys"
  by (induction xs ys rule: merge_runs.induct) auto

lemma length_merge_pass: "0 < width \<Longrightarrow> length (merge_pass width src) = length src"
proof (induction width src rule: merge_pass.induct)
  case (1 width src)
  then show ?case by (subst merge_pass.simps) auto
qed

termination sort_passes
  by (relation "measure (\<lambda>(w, src). length src - w)") (auto simp: length_merge_pass)

declare sort_passes.simps [simp del]

definition sortKVPairs :: "kvPair list \<Rightarrow> kvPair list" where
  "sortKVPairs entries =
     (if length entries < 2 then entries
      else if length entries \<le> 65536 then sort_key fst entries
      else sort_passes 1 entries)"

section \<open>Newest versions\<close>

fun keep_run_ends :: "kvPair list \<Rightarrow> kvPair list" where
  "keep_run_ends [] = []"
| "keep_run_ends [x] = [x]"
| "keep_run_ends (x # y # xs) = (if fst x = fst y then keep_run_ends (y # xs) else x # keep_run_ends (y # xs))"

definition dedupSortedKVPairs :: "kvPair list \<Rightarrow> kvPair list" where
  "dedupSortedKVPairs kvs = (if length kvs < 2 then kvs else keep_run_ends kvs)"

fun scan_order :: "bool \<Rightarrow> kvPair list \<Rightarrow> bool \<times> bool" where
  "scan_order strict (x # y # xs) =
     (if fst x > fst y then (False, False) else scan_order (strict \<and> fst x \<noteq> fst y) (y # xs))"
| "scan_order strict xs = (True, strict)"

definition lastIdx :: "kvPair list \<Rightarrow> bytes \<rightharpoonup> nat" where
  "lastIdx entries = fold (\<lambda>(i, e) m. m(fst e \<mapsto> i)) (enumerate 0 entries) Map.empty"

definition firstIdx :: "kvPair list \<Rightarrow> bytes \<rightharpoonup> nat" where
  "firstIdx entries =
     fold (\<lambda>(i, e) m. if m (fst e) = None then m(fst e \<mapsto> i) else m) (enumerate 0 entries) Map.empty"

definition keep_at :: "(bytes \<rightharpoonup> nat) \<Rightarrow> kvPair list \<Rightarrow> kvPair list" where
  "keep_at m entries = map snd (filter (\<lambda>(i, e). m (fst e) = Some i) (enumerate 0 entries))"

definition normalizeStorageEntries :: "kvPair list \<Rightarrow> kvPair list" where
  "normalizeStorageEntries entries =
     (if length entries \<le> 1 then entries
      else let (ordered, strictlyIncreasing) = scan_order True entries in
        if ordered then (if strictlyIncreasing then entries else keep_run_ends entries)
        else sortKVPairs (keep_at (lastIdx entries) entries))"

definition normalizeTailScannedStorageEntries :: "kvPair list \<Rightarrow> kvPair list" where
  "normalizeTailScannedStorageEntries entries =
     (if length entries \<le> 1 then entries
      else if distinct (map fst entries) then sortKVPairs entries
      else sortKVPairs (keep_at (firstIdx entries) entries))"

definition maybeNormalizeChunkEntries :: "kvPair list \<Rightarrow> kvPair list" where
  "maybeNormalizeChunkEntries entries =
     (if length entries < 2 then entries else normalizeTailScannedStorageEntries entries)"

fun mergeAndDedupPairs :: "kvPair list \<Rightarrow> kvPair list \<Rightarrow> kvPair list" where
  "mergeAndDedupPairs (x # xs) (y # ys) =
     (if fst x < fst y then x # mergeAndDedupPairs xs (y # ys)
      else if fst y < fst x then y # mergeAndDedupPairs (x # xs) ys
      else y # mergeAndDedupPairs xs ys)"
| "mergeAndDedupPairs [] ys = ys"
| "mergeAndDedupPairs xs [] = xs"

section \<open>Chunks\<close>

fun split_loop :: "int \<Rightarrow> kvPair list \<Rightarrow> nat \<Rightarrow> kvPair list \<Rightarrow> kvPair list list" where
  "split_loop limit chunk sz [] = (if chunk = [] then [] else [chunk])"
| "split_loop limit chunk sz (e # es) =
     (if int (sz + entry_bytes e) > limit \<and> chunk \<noteq> []
      then chunk # split_loop limit [e] (entry_bytes e) es
      else split_loop limit (chunk @ [e]) (sz + entry_bytes e) es)"

definition splitEntriesBySize :: "kvPair list \<Rightarrow> int \<Rightarrow> kvPair list list" where
  "splitEntriesBySize entries limit = split_loop limit [] 0 entries"

record segmentChunkMeta =
  FileName :: string
  KeyStart :: bytes

text \<open>\<^verbatim>\<open>sort.Search\<close> of the standard library, a binary search for the first index with the property.\<close>

function search_loop :: "(nat \<Rightarrow> bool) \<Rightarrow> nat \<Rightarrow> nat \<Rightarrow> nat" where
  "search_loop f i j =
     (if i < j then let h = (i + j) div 2 in if \<not> f h then search_loop f (h + 1) j else search_loop f i h else i)"
  by pat_completeness auto
termination
  by (relation "measure (\<lambda>(f, i, j). j - i)") auto

declare search_loop.simps [simp del]

definition sort_Search :: "nat \<Rightarrow> (nat \<Rightarrow> bool) \<Rightarrow> nat" where
  "sort_Search n f = search_loop f 0 n"

definition findChunkIndexForKey :: "segmentChunkMeta list \<Rightarrow> bytes \<Rightarrow> int" where
  "findChunkIndexForKey metas key =
     (if metas = [] then -1
      else if key = [] then 0
      else let idx = sort_Search (length metas)
                 (\<lambda>i. KeyStart (metas ! i) \<noteq> [] \<and> key < KeyStart (metas ! i)) in
        if idx = 0 then
          (if KeyStart (metas ! 0) = [] then 0
           else if key < KeyStart (metas ! 0) then -1 else 0)
        else let selected = idx - 1 in
          if KeyStart (metas ! selected) = [] then int selected
          else if key < KeyStart (metas ! selected) then -1
          else if idx < length metas \<and> KeyStart (metas ! idx) \<noteq> [] \<and> key \<ge> KeyStart (metas ! idx) then -1
          else int selected)"

fun partition_loop :: "segmentChunkMeta list \<Rightarrow> kvPair list \<Rightarrow> kvPair list list \<Rightarrow> kvPair list \<Rightarrow>
    kvPair list list \<times> kvPair list" where
  "partition_loop metas [] buckets unmatched = (buckets, unmatched)"
| "partition_loop metas (kv # kvs) buckets unmatched =
     (let idx = findChunkIndexForKey metas (fst kv) in
      if idx < 0 then partition_loop metas kvs buckets (unmatched @ [kv])
      else partition_loop metas kvs (buckets[nat idx := buckets ! nat idx @ [kv]]) unmatched)"

definition partitionEntriesByChunks :: "segmentChunkMeta list \<Rightarrow> kvPair list \<Rightarrow> kvPair list list \<times> kvPair list" where
  "partitionEntriesByChunks metas kvs =
     (if metas = [] \<or> kvs = [] then (replicate (length metas) [], [])
      else partition_loop metas kvs (replicate (length metas) []) [])"

definition adjustMetaRange :: "segmentChunkMeta \<Rightarrow> kvPair list \<Rightarrow> segmentChunkMeta" where
  "adjustMetaRange meta additions =
     (case additions of [] \<Rightarrow> meta
      | kv # _ \<Rightarrow>
          if KeyStart meta = [] \<or> fst kv < KeyStart meta then meta\<lparr>KeyStart := fst kv\<rparr> else meta)"

section \<open>Names of chunk files\<close>

definition digit :: "nat \<Rightarrow> char" where
  "digit d = char_of (48 + d)"

fun decimal :: "nat \<Rightarrow> string" where
  "decimal n = (if n < 10 then [digit n] else decimal (n div 10) @ [digit (n mod 10)])"

declare decimal.simps [simp del]

definition chunkFileNameForOrdinal :: "u32 \<Rightarrow> string" where
  "chunkFileNameForOrdinal ordinal =
     (let n = unat ordinal in
      if n < 10000
      then [digit (n div 1000 mod 10), digit (n div 100 mod 10), digit (n div 10 mod 10), digit (n mod 10)] @ ''.dat''
      else decimal n @ ''.dat'')"

fun parse_digits :: "int \<Rightarrow> string \<Rightarrow> int" where
  "parse_digits idx [] = idx"
| "parse_digits idx (c # cs) =
     (let v = of_char c :: int in
      if v < 48 \<or> v > 57 then -1 else parse_digits (i64 (idx * 10 + (v - 48))) cs)"

definition parseChunkOrdinal :: "string \<Rightarrow> int" where
  "parseChunkOrdinal name =
     (if length name \<le> 4 then -1
      else if drop (length name - 4) name \<noteq> ''.dat'' then -1
      else parse_digits 0 (take (length name - 4) name))"

record chunkFileAllocator =
  ca_next :: int

definition newChunkFileAllocator :: "segmentChunkMeta list \<Rightarrow> chunkFileAllocator" where
  "newChunkFileAllocator metas =
     \<lparr>ca_next = fold (\<lambda>meta maxIdx. let idx = parseChunkOrdinal (FileName meta) in
                          if idx > maxIdx then idx else maxIdx) metas (-1) + 1\<rparr>"

definition nextName :: "chunkFileAllocator \<Rightarrow> string \<times> chunkFileAllocator" where
  "nextName a = (chunkFileNameForOrdinal (word_of_int (ca_next a)), a\<lparr>ca_next := ca_next a + 1\<rparr>)"

section \<open>The merge sort is the stable sort\<close>

lemma mset_merge_runs: "mset (merge_runs xs ys) = mset xs + mset ys"
  by (induction xs ys rule: merge_runs.induct) auto

lemma set_merge_runs: "set (merge_runs xs ys) = set xs \<union> set ys"
  using arg_cong [OF mset_merge_runs [of xs ys], of set_mset] by simp

lemma sorted_merge_runs:
  "sorted (map fst xs) \<Longrightarrow> sorted (map fst ys) \<Longrightarrow> sorted (map fst (merge_runs xs ys))"
proof (induction xs ys rule: merge_runs.induct)
  case (1 x xs y ys)
  then show ?case by (force simp: set_merge_runs)
qed auto

lemma filter_merge_runs:
  "sorted (map fst xs) \<Longrightarrow> sorted (map fst ys) \<Longrightarrow>
   filter (\<lambda>e. k = fst e) (merge_runs xs ys) = filter (\<lambda>e. k = fst e) xs @ filter (\<lambda>e. k = fst e) ys"
proof (induction xs ys rule: merge_runs.induct)
  case (1 x xs y ys)
  show ?case
  proof (cases "fst x \<le> fst y")
    case True
    with 1 show ?thesis by auto
  next
    case False
    then have "filter (\<lambda>e. k = fst e) (x # xs) = []" if "k = fst y"
      using 1(3) that by (auto simp: filter_empty_conv)
    with 1 False show ?thesis by auto
  qed
qed auto

lemma merge_runs_sort: "merge_runs (sort_key fst xs) (sort_key fst ys) = sort_key fst (xs @ ys)"
proof (rule properties_for_sort_key [symmetric])
  show "mset (merge_runs (sort_key fst xs) (sort_key fst ys)) = mset (xs @ ys)" by (simp add: mset_merge_runs)
  show "sorted (map fst (merge_runs (sort_key fst xs) (sort_key fst ys)))" by (simp add: sorted_merge_runs)
  show "filter (\<lambda>x. fst k = fst x) (merge_runs (sort_key fst xs) (sort_key fst ys)) = filter (\<lambda>x. fst k = fst x) (xs @ ys)"
    for k using sort_key_stable [of fst "fst k" xs] sort_key_stable [of fst "fst k" ys]
    by (simp only: filter_merge_runs sorted_sort_key filter_append eq_commute [of _ "fst k"])
qed

function block_sort :: "nat \<Rightarrow> kvPair list \<Rightarrow> kvPair list" where
  "block_sort w xs = (if xs = [] \<or> w = 0 then [] else sort_key fst (take w xs) @ block_sort w (drop w xs))"
  by pat_completeness auto
termination
  by (relation "measure (\<lambda>(w, src). length src)") auto

declare block_sort.simps [simp del]

lemma length_block_sort: "0 < w \<Longrightarrow> length (block_sort w xs) = length xs"
proof (induction w xs rule: block_sort.induct)
  case (1 w xs)
  then show ?case by (subst block_sort.simps) auto
qed

lemma block_sort_parts:
  assumes "0 < w"
  shows "take w (block_sort w xs) = sort_key fst (take w xs)" "drop w (block_sort w xs) = block_sort w (drop w xs)"
proof -
  have e: "block_sort w [] = []" by (simp add: block_sort.simps)
  show "take w (block_sort w xs) = sort_key fst (take w xs)" "drop w (block_sort w xs) = block_sort w (drop w xs)"
    using assms e block_sort.simps [of w xs] by (cases "length xs < w"; simp add: min_def)+
qed

lemma merge_pass_block_sort: "0 < w \<Longrightarrow> merge_pass w (block_sort w xs) = block_sort (2 * w) xs"
proof (induction "length xs" arbitrary: xs rule: less_induct)
  case less
  show ?case
  proof (cases "xs = []")
    case True
    then show ?thesis by (simp add: block_sort.simps merge_pass.simps)
  next
    case False
    have ne: "block_sort w xs \<noteq> []" using length_block_sort [OF less.prems, of xs] False by auto
    have d: "drop (2 * w) (block_sort w xs) = block_sort w (drop (2 * w) xs)"
      using less.prems by (simp add: mult_2 block_sort_parts(2) flip: drop_drop)
    have t: "take (2 * w) xs = take w xs @ take w (drop w xs)" by (simp add: mult_2 take_add)
    have "merge_pass w (block_sort w xs) =
        sort_key fst (take (2 * w) xs) @ merge_pass w (block_sort w (drop (2 * w) xs))"
      using ne less.prems by (subst merge_pass.simps) (simp add: block_sort_parts merge_runs_sort t d)
    also have "\<dots> = block_sort (2 * w) xs"
      using less.hyps [of "drop (2 * w) xs"] less.prems False block_sort.simps [of "2 * w" xs] by simp
    finally show ?thesis .
  qed
qed

lemma sort_passes_block_sort: "0 < w \<Longrightarrow> sort_passes w (block_sort w xs) = sort_key fst xs"
proof (induction "length xs - w" arbitrary: w rule: less_induct)
  case less
  show ?case
  proof (cases "w < length xs")
    case True
    have "sort_passes w (block_sort w xs) = sort_passes (2 * w) (block_sort (2 * w) xs)"
      using True less.prems sort_passes.simps [of w "block_sort w xs"]
      by (simp add: length_block_sort merge_pass_block_sort)
    also have "\<dots> = sort_key fst xs" using less.hyps [of "2 * w"] True less.prems by simp
    finally show ?thesis .
  next
    case False
    then show ?thesis
      using less.prems block_sort.simps [of w xs] sort_passes.simps [of w "block_sort w xs"]
      by (auto simp: length_block_sort block_sort.simps [of w "[]"])
  qed
qed

lemma block_sort_one: "block_sort 1 xs = xs"
  by (induction xs) (simp_all add: block_sort.simps)

lemma sortKVPairs_stable: "sortKVPairs entries = sort_key fst entries"
proof (cases "length entries < 2")
  case True
  then show ?thesis by (cases entries) (auto simp: sortKVPairs_def)
next
  case False
  then show ?thesis using sort_passes_block_sort [of 1 entries] by (simp only: sortKVPairs_def block_sort_one) simp
qed

section \<open>Newest versions\<close>

abbreviation strict_keys :: "kvPair list \<Rightarrow> bool" where
  "strict_keys kvs \<equiv> sorted_wrt (<) (map fst kvs)"

lemma strict_keys_distinct: "strict_keys kvs \<Longrightarrow> distinct (map fst kvs)"
  by (simp add: strict_sorted_iff)

lemma map_of_same_set:
  "distinct (map fst xs) \<Longrightarrow> distinct (map fst ys) \<Longrightarrow> set xs = set ys \<Longrightarrow> map_of xs = map_of ys"
  by (simp add: map_of_inject_set)

lemma sort_distinct:
  assumes "distinct (map fst xs)"
  shows "strict_keys (sort_key fst xs)" "map_of (sort_key fst xs) = map_of xs" "set (sort_key fst xs) = set xs"
proof -
  have "mset (map fst (sort_key fst xs)) = mset (map fst xs)" by (simp only: mset_map mset_sort)
  with assms have d: "distinct (map fst (sort_key fst xs))" using mset_eq_imp_distinct_iff by blast
  then show "strict_keys (sort_key fst xs)" by (simp add: strict_sorted_iff)
  show "map_of (sort_key fst xs) = map_of xs" by (rule map_of_same_set [OF d assms]) simp
qed simp

lemma set_keep_run_ends: "set (keep_run_ends xs) \<subseteq> set xs"
  by (induction xs rule: keep_run_ends.induct) auto

lemma keep_run_ends_sorted:
  "sorted (map fst xs) \<Longrightarrow> strict_keys (keep_run_ends xs) \<and> map_of (keep_run_ends xs) = newest xs"
proof (induction xs rule: keep_run_ends.induct)
  case (3 x y xs)
  show ?case
  proof (cases "fst x = fst y")
    case True
    have "newest (x # y # xs) k = newest (y # xs) k" for k
      using True by (cases x; cases y) (auto simp: map_add_def split: option.splits)
    with 3 True show ?thesis by auto
  next
    case False
    have lt: "fst x < fst e" if "e \<in> set (y # xs)" for e using 3(3) that False by force
    then have "fst x \<notin> fst ` set (rev (y # xs))" by fastforce
    then have none: "newest (y # xs) (fst x) = None" by (simp only: map_of_eq_None_iff not_False_eq_True)
    have "newest (x # y # xs) = (newest (y # xs))(fst x \<mapsto> snd x)"
    proof
      fix k
      show "newest (x # y # xs) k = ((newest (y # xs))(fst x \<mapsto> snd x)) k"
        using none by (cases x) (auto simp: map_add_def split: option.splits)
    qed
    moreover have "\<forall>e \<in> set (keep_run_ends (y # xs)). fst x < fst e" using set_keep_run_ends [of "y # xs"] lt by blast
    ultimately show ?thesis using 3 False by (cases x) auto
  qed
qed auto

lemma newest_distinct: "distinct (map fst xs) \<Longrightarrow> newest xs = map_of xs"
  by (rule map_of_same_set) (simp_all flip: rev_map)

lemma dedupSortedKVPairs_sorted:
  "sorted (map fst kvs) \<Longrightarrow> strict_keys (dedupSortedKVPairs kvs) \<and> map_of (dedupSortedKVPairs kvs) = newest kvs"
  using keep_run_ends_sorted [of kvs] by (cases kvs rule: keep_run_ends.cases) (auto simp: dedupSortedKVPairs_def)

lemma lastIdx_snoc: "lastIdx (xs @ [x]) = (lastIdx xs)(fst x \<mapsto> length xs)"
  by (simp add: lastIdx_def enumerate_append_eq)

lemma keep_at_snoc:
  "keep_at m (xs @ [x]) = keep_at m xs @ (if m (fst x) = Some (length xs) then [x] else [])"
  by (simp add: keep_at_def enumerate_append_eq)

lemma keep_at_upd:
  assumes "\<forall>i < length xs. i \<noteq> n"
  shows "keep_at (m(k \<mapsto> n)) xs = filter (\<lambda>e. fst e \<noteq> k) (keep_at m xs)"
proof -
  have "filter (\<lambda>(i, e). (m(k \<mapsto> n)) (fst e) = Some i) (enumerate 0 xs) =
      filter (\<lambda>(i, e). m (fst e) = Some i \<and> fst e \<noteq> k) (enumerate 0 xs)"
    by (rule filter_cong) (use assms in \<open>auto simp: in_set_enumerate_eq\<close>)
  then have "keep_at (m(k \<mapsto> n)) xs = map snd (filter (\<lambda>p. m (fst (snd p)) = Some (fst p) \<and> fst (snd p) \<noteq> k) (enumerate 0 xs))"
    by (simp only: keep_at_def split_def)
  then show ?thesis by (simp add: keep_at_def filter_map comp_def split_def conj_commute)
qed

lemma map_of_filter_neq: "map_of (filter (\<lambda>e. fst e \<noteq> k) xs) = (map_of xs)(k := None)"
  by (induction xs) auto

lemma keep_last:
  "distinct (map fst (keep_at (lastIdx xs) xs)) \<and> map_of (keep_at (lastIdx xs) xs) = newest xs"
proof (induction xs rule: rev_induct)
  case Nil
  then show ?case by (simp add: keep_at_def)
next
  case (snoc x xs)
  have k: "keep_at (lastIdx (xs @ [x])) (xs @ [x]) = filter (\<lambda>e. fst e \<noteq> fst x) (keep_at (lastIdx xs) xs) @ [x]"
    by (simp add: lastIdx_snoc keep_at_snoc keep_at_upd del: fun_upd_apply) simp
  have "distinct (map fst (filter (\<lambda>e. fst e \<noteq> fst x) (keep_at (lastIdx xs) xs)))"
    using snoc distinct_map_filter by blast
  moreover have "map_of (filter (\<lambda>e. fst e \<noteq> fst x) (keep_at (lastIdx xs) xs) @ [x]) = newest (xs @ [x])"
    using snoc by (cases x) (auto simp: map_of_filter_neq map_add_def fun_eq_iff split: option.splits)
  ultimately show ?case unfolding k by auto
qed

lemma firstIdx_snoc:
  "firstIdx (xs @ [x]) = (if firstIdx xs (fst x) = None then (firstIdx xs)(fst x \<mapsto> length xs) else firstIdx xs)"
  by (simp add: firstIdx_def enumerate_append_eq)

lemma dom_firstIdx: "dom (firstIdx xs) = fst ` set xs" "firstIdx xs k = Some i \<Longrightarrow> i < length xs"
  by (induction xs arbitrary: k i rule: rev_induct)
    (auto simp: firstIdx_snoc split: if_splits, auto simp: firstIdx_def less_Suc_eq)

lemma keep_first:
  "distinct (map fst (keep_at (firstIdx xs) xs)) \<and> map_of (keep_at (firstIdx xs) xs) = map_of xs"
proof (induction xs rule: rev_induct)
  case Nil
  then show ?case by (simp add: keep_at_def)
next
  case (snoc x xs)
  have dk: "fst ` set (keep_at (firstIdx xs) xs) = fst ` set xs"
    using snoc by (metis dom_map_of_conv_image_fst)
  show ?case
  proof (cases "fst x \<in> fst ` set xs")
    case True
    then obtain i where i: "firstIdx xs (fst x) = Some i" using dom_firstIdx(1) [of xs] by blast
    then have "i \<noteq> length xs" using dom_firstIdx(2) by fastforce
    then have "keep_at (firstIdx (xs @ [x])) (xs @ [x]) = keep_at (firstIdx xs) xs"
      using i by (simp add: firstIdx_snoc keep_at_snoc)
    moreover have "map_of (xs @ [x]) = map_of xs"
      using True by (cases x) (force simp: map_add_def fun_eq_iff dest: weak_map_of_SomeI split: option.splits)
    ultimately show ?thesis using snoc by simp
  next
    case False
    then have none: "firstIdx xs (fst x) = None" using dom_firstIdx(1) [of xs] by blast
    have "filter (\<lambda>e. fst e \<noteq> fst x) (keep_at (firstIdx xs) xs) = keep_at (firstIdx xs) xs"
      using False unfolding filter_id_conv dk [symmetric] by (metis image_eqI)
    then have "keep_at (firstIdx (xs @ [x])) (xs @ [x]) = keep_at (firstIdx xs) xs @ [x]"
      using none by (simp add: firstIdx_snoc keep_at_snoc keep_at_upd del: fun_upd_apply) simp
    then show ?thesis using snoc False unfolding dk [symmetric] by (auto simp: map_add_def)
  qed
qed

lemma scan_order_flags:
  "scan_order st xs = (sorted (map fst xs), sorted (map fst xs) \<and> st \<and> strict_keys xs)"
proof (induction st xs rule: scan_order.induct)
  case (1 st x y xs)
  have s: "sorted (map fst (x # y # xs)) \<longleftrightarrow> fst x \<le> fst y \<and> sorted (map fst (y # xs))"
    by (simp add: sorted2 del: sorted_wrt.simps)
  have t: "strict_keys (x # y # xs) \<longleftrightarrow> fst x < fst y \<and> strict_keys (y # xs)" by force
  show ?case using 1 by (auto simp: s t simp del: list.map sorted_wrt.simps)
qed auto

lemma normalizeStorageEntries_newest:
  "strict_keys (normalizeStorageEntries es) \<and> map_of (normalizeStorageEntries es) = newest es"
proof (cases "length es \<le> 1")
  case True
  then show ?thesis by (cases es) (auto simp: normalizeStorageEntries_def)
next
  case False
  have d: "strict_keys es \<Longrightarrow> newest es = map_of es" by (rule newest_distinct [OF strict_keys_distinct])
  show ?thesis
    using False keep_run_ends_sorted [of es] keep_last [of es] sort_distinct [of "keep_at (lastIdx es) es"] d
    by (auto simp: normalizeStorageEntries_def scan_order_flags sortKVPairs_stable)
qed

lemma normalizeTail_oldest:
  "strict_keys (normalizeTailScannedStorageEntries es) \<and> map_of (normalizeTailScannedStorageEntries es) = map_of es"
proof (cases "length es \<le> 1")
  case True
  then show ?thesis by (cases es) (auto simp: normalizeTailScannedStorageEntries_def)
next
  case False
  then show ?thesis
    using keep_first [of es] sort_distinct [of "keep_at (firstIdx es) es"] sort_distinct [of es]
    by (auto simp: normalizeTailScannedStorageEntries_def sortKVPairs_stable)
qed

lemma maybeNormalize_oldest:
  "strict_keys (maybeNormalizeChunkEntries es) \<and> map_of (maybeNormalizeChunkEntries es) = map_of es"
  using normalizeTail_oldest [of es] by (cases es rule: keep_run_ends.cases) (auto simp: maybeNormalizeChunkEntries_def)

lemma set_mergeAndDedup: "set (mergeAndDedupPairs xs ys) \<subseteq> set xs \<union> set ys"
  by (induction xs ys rule: mergeAndDedupPairs.induct) auto

lemma mergeAndDedup_Cons_less: "\<forall>e \<in> set xs \<union> set ys. k < fst e \<Longrightarrow> \<forall>e \<in> set (mergeAndDedupPairs xs ys). k < fst e"
  using set_mergeAndDedup [of xs ys] by blast

lemma mergeAndDedup_map:
  "strict_keys xs \<Longrightarrow> strict_keys ys \<Longrightarrow>
   strict_keys (mergeAndDedupPairs xs ys) \<and> map_of (mergeAndDedupPairs xs ys) = map_of xs ++ map_of ys"
proof (induction xs ys rule: mergeAndDedupPairs.induct)
  case (1 x xs y ys)
  obtain a b c d where xy: "x = (a, b)" "y = (c, d)" by (metis surj_pair)
  have nx: "a \<notin> fst ` set xs" and ny: "c \<notin> fst ` set ys" using 1(4,5) by (auto simp: xy)
  consider "a < c" | "c < a" | "a = c" by fastforce
  then show ?case
  proof cases
    case 1
    have lt: "\<forall>e \<in> set (y # ys). a < fst e" using 1 "1.prems"(2) by (auto simp: xy)
    have lx: "\<forall>e \<in> set xs. a < fst e" using "1.prems"(1) by (simp add: xy)
    have "\<forall>e \<in> set (mergeAndDedupPairs xs (y # ys)). a < fst e"
      by (rule mergeAndDedup_Cons_less) (use lt lx in blast)
    moreover have "a \<notin> dom (map_of (y # ys))" using lt unfolding dom_map_of_conv_image_fst by blast
    then have "(map_of xs ++ map_of (y # ys))(a \<mapsto> b) = (map_of xs)(a \<mapsto> b) ++ map_of (y # ys)"
      by (rule map_add_upd_left [symmetric])
    ultimately show ?thesis using 1 "1.IH"(1) "1.prems" by (simp add: xy del: map_of.simps(2) fun_upd_apply) simp
  next
    case 2
    have lt: "\<forall>e \<in> set (x # xs). c < fst e" using 2 "1.prems"(1) by (auto simp: xy)
    have "\<forall>e \<in> set (mergeAndDedupPairs (x # xs) ys). c < fst e"
      by (rule mergeAndDedup_Cons_less) (use lt "1.prems"(2) in \<open>auto simp: xy\<close>)
    moreover have "(map_of (x # xs) ++ map_of ys)(c \<mapsto> d) = map_of (x # xs) ++ (map_of ys)(c \<mapsto> d)" by simp
    moreover have "\<not> a < c" using 2 by simp
    ultimately show ?thesis using 2 "1.IH"(2) "1.prems" by (simp add: xy del: map_of.simps(2) fun_upd_apply) simp
  next
    case 3
    have "\<forall>e \<in> set (mergeAndDedupPairs xs ys). c < fst e"
      by (rule mergeAndDedup_Cons_less) (use "1.prems" 3 in \<open>auto simp: xy\<close>)
    moreover have "(map_of xs)(a \<mapsto> b) ++ (map_of ys)(a \<mapsto> d) = (map_of xs ++ map_of ys)(a \<mapsto> d)"
      by (auto simp: map_add_def fun_eq_iff split: option.splits)
    ultimately show ?thesis using 3 "1.IH"(3) "1.prems" by (simp add: xy del: fun_upd_apply)
  qed
qed auto

section \<open>Splitting into chunks\<close>

lemma split_loop_concat: "concat (split_loop limit chunk sz es) = chunk @ es"
  by (induction limit chunk sz es rule: split_loop.induct) auto

lemma split_loop_bound:
  "sz = sum_list (map entry_bytes chunk) \<Longrightarrow> int sz \<le> limit \<or> length chunk \<le> 1 \<Longrightarrow>
   \<forall>c \<in> set (split_loop limit chunk sz es). c \<noteq> [] \<and> (int (payloadSize c) \<le> limit \<or> length c = 1)"
proof (induction limit chunk sz es rule: split_loop.induct)
  case (1 limit chunk sz)
  then show ?case by (cases chunk) (auto simp: payloadSize_sum)
next
  case (2 limit chunk sz e es)
  show ?case
  proof (cases "int (sz + entry_bytes e) > limit \<and> chunk \<noteq> []")
    case True
    have "int (payloadSize chunk) \<le> limit \<or> length chunk = 1"
      using 2(3,4) True by (cases chunk) (auto simp: payloadSize_sum)
    moreover have "\<forall>c \<in> set (split_loop limit [e] (entry_bytes e) es). c \<noteq> [] \<and> (int (payloadSize c) \<le> limit \<or> length c = 1)"
      by (rule 2(1) [OF True]) simp_all
    ultimately show ?thesis using True by simp
  next
    case False
    have sz: "sz + entry_bytes e = sum_list (map entry_bytes (chunk @ [e]))" using 2(3) by simp
    have "int (sz + entry_bytes e) \<le> limit \<or> length (chunk @ [e]) \<le> 1" using False by auto
    from 2(2) [OF False sz this] False show ?thesis by simp
  qed
qed

lemma split_bounds:
  "concat (splitEntriesBySize es limit) = es"
  "c \<in> set (splitEntriesBySize es limit) \<Longrightarrow> c \<noteq> []"
  "c \<in> set (splitEntriesBySize es limit) \<Longrightarrow> int (payloadSize c) \<le> limit \<or> length c = 1"
  using split_loop_bound [of 0 "[]" limit es] by (auto simp: splitEntriesBySize_def split_loop_concat)

section \<open>Finding the chunk of a key\<close>

lemma search_loop_spec:
  "(\<forall>a b. a \<le> b \<and> b < n \<and> f a \<longrightarrow> f b) \<Longrightarrow> i \<le> j \<Longrightarrow> j \<le> n \<Longrightarrow>
   \<forall>k < i. \<not> f k \<Longrightarrow> \<forall>k. j \<le> k \<and> k < n \<longrightarrow> f k \<Longrightarrow>
   search_loop f i j \<le> n \<and> (\<forall>k < search_loop f i j. \<not> f k) \<and> (\<forall>k. search_loop f i j \<le> k \<and> k < n \<longrightarrow> f k)"
proof (induction f i j rule: search_loop.induct)
  case (1 f i j)
  show ?case
  proof (cases "i < j")
    case True
    define h where "h = (i + j) div 2"
    have h: "i \<le> h" "h < j" using True by (auto simp: h_def)
    show ?thesis
    proof (cases "f h")
      case t: True
      have hi: "\<forall>k. h \<le> k \<and> k < n \<longrightarrow> f k" using "1.prems"(1) t by blast
      have u: "search_loop f i j = search_loop f i h" using True t by (subst search_loop.simps) (simp add: h_def)
      show ?thesis unfolding u
        by (rule "1.IH"(2) [OF True h_def]) (use t "1.prems" h hi in \<open>auto simp del: not_less\<close>)
    next
      case t: False
      have "h < n" using h "1.prems"(3) by simp
      then have lo: "\<forall>k < h + 1. \<not> f k" using "1.prems"(1) t by (metis less_Suc_eq_le Suc_eq_plus1)
      have u: "search_loop f i j = search_loop f (h + 1) j" using True t by (subst search_loop.simps) (simp add: h_def)
      show ?thesis unfolding u
        by (rule "1.IH"(1) [OF True h_def]) (use t "1.prems" h lo in auto)
    qed
  next
    case False
    then have "search_loop f i j = i" by (subst search_loop.simps) simp
    then show ?thesis using "1.prems" False by auto
  qed
qed

lemma sort_Search_spec:
  assumes "\<forall>a b. a \<le> b \<and> b < n \<and> f a \<longrightarrow> f b"
  shows "sort_Search n f \<le> n" "k < sort_Search n f \<Longrightarrow> \<not> f k" "sort_Search n f \<le> k \<Longrightarrow> k < n \<Longrightarrow> f k"
proof -
  have "sort_Search n f \<le> n \<and> (\<forall>k < sort_Search n f. \<not> f k) \<and> (\<forall>k. sort_Search n f \<le> k \<and> k < n \<longrightarrow> f k)"
    unfolding sort_Search_def by (rule search_loop_spec [OF assms]) auto
  then show "sort_Search n f \<le> n" "k < sort_Search n f \<Longrightarrow> \<not> f k" "sort_Search n f \<le> k \<Longrightarrow> k < n \<Longrightarrow> f k"
    by blast+
qed

lemma search_loop_le: "i \<le> j \<Longrightarrow> search_loop f i j \<le> j"
proof (induction f i j rule: search_loop.induct)
  case (1 f i j)
  show ?case
  proof (cases "i < j")
    case True
    define h where "h = (i + j) div 2"
    have h: "i \<le> h" "h < j" using True by (auto simp: h_def)
    have u: "search_loop f i j = (if f h then search_loop f i h else search_loop f (h + 1) j)"
      using True by (subst search_loop.simps) (simp add: h_def)
    show ?thesis unfolding u
      using "1.IH"(1) [OF True h_def] "1.IH"(2) [OF True h_def] h by (cases "f h") simp_all
  next
    case False
    then have "search_loop f i j = i" by (subst search_loop.simps) simp
    then show ?thesis using "1.prems" by simp
  qed
qed

lemma findChunkIndex_bound: "findChunkIndexForKey metas key < int (length metas) \<or> metas = []"
  using search_loop_le [of 0 "length metas" "\<lambda>i. KeyStart (metas ! i) \<noteq> [] \<and> key < KeyStart (metas ! i)"]
  by (auto simp: findChunkIndexForKey_def sort_Search_def Let_def)

definition starts_ok :: "segmentChunkMeta list \<Rightarrow> bool" where
  "starts_ok metas \<longleftrightarrow> sorted_wrt (<) (map KeyStart metas) \<and> [] \<notin> set (map KeyStart metas)"

definition chunk_pos :: "segmentChunkMeta list \<Rightarrow> bytes \<Rightarrow> nat" where
  "chunk_pos metas key = length (takeWhile (\<lambda>m. KeyStart m \<le> key) metas)"

lemma starts_ok_nth:
  assumes "starts_ok metas" "i < length metas"
  shows "KeyStart (metas ! i) \<noteq> []" "i < j \<Longrightarrow> j < length metas \<Longrightarrow> KeyStart (metas ! i) < KeyStart (metas ! j)"
  using assms by (auto simp: starts_ok_def sorted_wrt_iff_nth_less image_iff) (metis nth_mem)

lemma chunk_pos_search:
  assumes "starts_ok metas"
  shows "sort_Search (length metas) (\<lambda>i. KeyStart (metas ! i) \<noteq> [] \<and> key < KeyStart (metas ! i)) = chunk_pos metas key"
proof -
  let ?f = "\<lambda>i. KeyStart (metas ! i) \<noteq> [] \<and> key < KeyStart (metas ! i)"
  have "\<forall>a b. a \<le> b \<and> b < length metas \<and> ?f a \<longrightarrow> ?f b"
  proof (intro allI impI, elim conjE)
    fix a b assume ab: "a \<le> b" "b < length metas" "KeyStart (metas ! a) \<noteq> []" "key < KeyStart (metas ! a)"
    then have "KeyStart (metas ! a) \<le> KeyStart (metas ! b)"
      using starts_ok_nth(2) [OF assms, of a b] by (cases "a = b") auto
    with ab show "?f b" using starts_ok_nth(1) [OF assms, of b] by auto
  qed
  note spec = sort_Search_spec [of "length metas" ?f, OF this]
  define r where "r = sort_Search (length metas) ?f"
  have r: "r \<le> length metas" using spec(1) by (simp add: r_def)
  have low: "KeyStart (metas ! i) \<le> key" if "i < r" for i
    using spec(2) [of i] that r starts_ok_nth(1) [OF assms, of i] by (auto simp: r_def [symmetric] not_less)
  have hi: "\<not> KeyStart (metas ! r) \<le> key" if "r < length metas"
    using spec(3) [of r] that by (auto simp: r_def [symmetric])
  have "takeWhile (\<lambda>m. KeyStart m \<le> key) metas = take r metas"
    by (rule takeWhile_eq_take_P_nth) (use low hi r in auto)
  then show ?thesis using r by (simp add: chunk_pos_def r_def [symmetric])
qed

lemma chunk_pos_props:
  assumes "starts_ok metas"
  shows "chunk_pos metas key \<le> length metas"
    "i < chunk_pos metas key \<Longrightarrow> KeyStart (metas ! i) \<le> key"
    "chunk_pos metas key \<le> i \<Longrightarrow> i < length metas \<Longrightarrow> key < KeyStart (metas ! i)"
proof -
  show le: "chunk_pos metas key \<le> length metas" by (simp add: chunk_pos_def length_takeWhile_le)
  show "KeyStart (metas ! i) \<le> key" if "i < chunk_pos metas key" for i
    using that by (metis chunk_pos_def nth_mem set_takeWhileD takeWhile_nth)
  show "key < KeyStart (metas ! i)" if "chunk_pos metas key \<le> i" "i < length metas" for i
  proof -
    have "\<not> KeyStart (metas ! chunk_pos metas key) \<le> key"
      using that nth_length_takeWhile [of "\<lambda>m. KeyStart m \<le> key" metas] by (simp add: chunk_pos_def)
    then show ?thesis
      using that starts_ok_nth(2) [OF assms, of "chunk_pos metas key" i] by (cases "chunk_pos metas key = i") auto
  qed
qed

lemma findChunkIndex_pos:
  assumes ok: "starts_ok metas" and "metas \<noteq> []" "key \<noteq> []"
  shows "findChunkIndexForKey metas key = int (chunk_pos metas key) - 1"
proof -
  note p = chunk_pos_props [OF ok, where key = key]
  have s: "KeyStart (metas ! i) \<noteq> []" if "i < length metas" for i using starts_ok_nth(1) [OF ok that] .
  show ?thesis
  proof (cases "chunk_pos metas key = 0")
    case True
    then have "key < KeyStart (metas ! 0)" using p(3) [of 0] assms by simp
    then show ?thesis using assms True s [of 0] by (simp add: findChunkIndexForKey_def chunk_pos_search [OF ok])
  next
    case False
    then have "KeyStart (metas ! (chunk_pos metas key - 1)) \<le> key" using p(2) [of "chunk_pos metas key - 1"] by simp
    moreover have "chunk_pos metas key < length metas \<Longrightarrow> key < KeyStart (metas ! chunk_pos metas key)"
      using p(3) [of "chunk_pos metas key"] by simp
    ultimately show ?thesis using assms False s [of "chunk_pos metas key - 1"] p(1)
      by (auto simp: findChunkIndexForKey_def chunk_pos_search [OF ok] Let_def not_less)
  qed
qed

lemma partition_loop_filter:
  assumes "metas \<noteq> []"
  shows "length bs = length metas \<Longrightarrow> partition_loop metas kvs bs un =
     (map (\<lambda>i. bs ! i @ filter (\<lambda>kv. findChunkIndexForKey metas (fst kv) = int i) kvs) [0..<length metas],
      un @ filter (\<lambda>kv. findChunkIndexForKey metas (fst kv) < 0) kvs)"
proof (induction kvs arbitrary: bs un)
  case Nil
  then show ?case by (auto intro: nth_equalityI)
next
  case (Cons kv kvs)
  let ?i = "findChunkIndexForKey metas (fst kv)"
  show ?case
  proof (cases "?i < 0")
    case True
    then have "\<forall>i. ?i \<noteq> int i" by auto
    with True Cons show ?thesis by simp
  next
    case False
    then have "nat ?i < length bs" using findChunkIndex_bound [of metas "fst kv"] assms Cons.prems by auto
    then show ?thesis using False Cons by (auto simp: Let_def nth_list_update)
  qed
qed

lemma partition_filter:
  assumes "metas \<noteq> []"
  shows "partitionEntriesByChunks metas kvs =
     (map (\<lambda>i. filter (\<lambda>kv. findChunkIndexForKey metas (fst kv) = int i) kvs) [0..<length metas],
      filter (\<lambda>kv. findChunkIndexForKey metas (fst kv) < 0) kvs)"
proof (cases "kvs = []")
  case True
  then show ?thesis using assms by (auto simp: partitionEntriesByChunks_def intro: nth_equalityI)
next
  case False
  then show ?thesis using assms partition_loop_filter [OF assms, of "replicate (length metas) []" kvs "[]"]
    by (simp add: partitionEntriesByChunks_def)
qed

section \<open>Names of chunk files\<close>

lemma of_char_digit: "d < 10 \<Longrightarrow> (of_char (digit d) :: int) = 48 + int d"
proof -
  have "list_all (\<lambda>d. (of_char (digit d) :: int) = 48 + int d) [0..<10]" by code_simp
  then show "d < 10 \<Longrightarrow> (of_char (digit d) :: int) = 48 + int d" by (simp add: list_all_iff)
qed

lemma parse_digits_append:
  "(\<forall>c \<in> set xs. 48 \<le> (of_char c :: int) \<and> (of_char c :: int) \<le> 57) \<Longrightarrow>
   parse_digits idx (xs @ ys) = parse_digits (parse_digits idx xs) ys"
  by (induction xs arbitrary: idx) (auto simp: Let_def not_less)

lemma decimal_digits: "\<forall>c \<in> set (decimal n). 48 \<le> (of_char c :: int) \<and> (of_char c :: int) \<le> 57"
proof (induction n rule: decimal.induct)
  case (1 n)
  show ?case using 1 of_char_digit [of n] of_char_digit [of "n mod 10"]
    by (subst decimal.simps) auto
qed

lemma parse_decimal: "int n < 2 ^ 63 \<Longrightarrow> parse_digits 0 (decimal n) = int n"
proof (induction n rule: decimal.induct)
  case (1 n)
  show ?case
  proof (cases "n < 10")
    case True
    then show ?thesis by (subst decimal.simps) (simp add: of_char_digit i64_id)
  next
    case False
    have "parse_digits 0 (decimal n) = parse_digits (parse_digits 0 (decimal (n div 10))) [digit (n mod 10)]"
      using False by (subst decimal.simps) (simp add: parse_digits_append decimal_digits)
    also have "parse_digits 0 (decimal (n div 10)) = int (n div 10)" using 1 False by simp
    also have "parse_digits (int (n div 10)) [digit (n mod 10)] = i64 (int (n div 10) * 10 + int (n mod 10))"
    proof -
      have "\<not> 9 < n mod 10" by presburger
      then show ?thesis using of_char_digit [of "n mod 10"] by simp
    qed
    also have "int (n div 10) * 10 + int (n mod 10) = int n"      by (metis div_mult_mod_eq of_nat_add of_nat_mult of_nat_numeral)
    finally show ?thesis using "1.prems" by (simp add: i64_id)
  qed
qed

lemma decimal_not_Nil [simp]: "decimal n \<noteq> []"
  by (subst decimal.simps) simp

lemma parse_digits_four:
  "a < 10 \<Longrightarrow> b < 10 \<Longrightarrow> c < 10 \<Longrightarrow> d < 10 \<Longrightarrow>
   parse_digits 0 [digit a, digit b, digit c, digit d] = ((int a * 10 + int b) * 10 + int c) * 10 + int d"
  by (simp add: of_char_digit i64_id)

lemma parse_four:
  assumes "n < 10000"
  shows "parse_digits 0 [digit (n div 1000 mod 10), digit (n div 100 mod 10), digit (n div 10 mod 10), digit (n mod 10)] = int n"
proof -
  have "n div 1000 mod 10 = n div 1000" using assms by simp
  moreover have "n div 100 = 10 * (n div 1000) + n div 100 mod 10"
    using mult_div_mod_eq [of 10 "n div 100"] by (simp flip: div_mult2_eq)
  moreover have "n div 10 = 10 * (n div 100) + n div 10 mod 10"
    using mult_div_mod_eq [of 10 "n div 10"] by (simp flip: div_mult2_eq)
  moreover have "n = 10 * (n div 10) + n mod 10" by simp
  moreover have "x = y \<Longrightarrow> z = 10 * y + u \<Longrightarrow> v = 10 * z + w \<Longrightarrow> m = 10 * v + t \<Longrightarrow>
      int m = ((int x * 10 + int u) * 10 + int w) * 10 + int t" for x y z u v w m t :: nat by simp
  ultimately have "int n = ((int (n div 1000 mod 10) * 10 + int (n div 100 mod 10)) * 10 + int (n div 10 mod 10)) * 10 + int (n mod 10)"
    by blast
  moreover have "n div 1000 mod 10 < 10" "n div 100 mod 10 < 10" "n div 10 mod 10 < 10" "n mod 10 < 10" by simp_all
  ultimately show ?thesis using parse_digits_four by metis
qed

lemma parse_chunk_name [simp]: "parseChunkOrdinal (chunkFileNameForOrdinal ordinal) = int (unat ordinal)"
proof -
  have "int (unat ordinal) < 2 ^ 63" using unsigned_less [of ordinal, where ?'a = int] by simp
  then show ?thesis
    using parse_four [of "unat ordinal"] parse_decimal [of "unat ordinal"]
    by (simp add: chunkFileNameForOrdinal_def parseChunkOrdinal_def Let_def)
qed

lemma chunk_name_inject [simp]: "chunkFileNameForOrdinal a = chunkFileNameForOrdinal b \<longleftrightarrow> a = b"
proof
  assume "chunkFileNameForOrdinal a = chunkFileNameForOrdinal b"
  then have "int (unat a) = int (unat b)" by (metis parse_chunk_name)
  then show "a = b" by (auto intro: word_uint_eqI)
qed simp

lemma allocator_above:
  "meta \<in> set metas \<Longrightarrow> parseChunkOrdinal (FileName meta) < ca_next (newChunkFileAllocator metas)"
proof -
  let ?f = "\<lambda>meta m. max m (parseChunkOrdinal (FileName meta))"
  have f: "(\<lambda>meta m. let idx = parseChunkOrdinal (FileName meta) in if idx > m then idx else m) = ?f"
    by (auto simp: fun_eq_iff Let_def max_def)
  have "(\<forall>meta \<in> set metas. parseChunkOrdinal (FileName meta) \<le> fold ?f metas m) \<and> m \<le> fold ?f metas m" for m
  proof (induction metas arbitrary: m)
    case (Cons meta metas)
    show ?case using Cons.IH [of "?f meta m"] by auto
  qed simp
  from this [of "-1"] show "meta \<in> set metas \<Longrightarrow> parseChunkOrdinal (FileName meta) < ca_next (newChunkFileAllocator metas)"
    unfolding newChunkFileAllocator_def f by force
qed

lemma newest_sort_key: "newest (sort_key fst entries) = newest entries"
proof
  fix k
  have f: "map_of xs k = (case filter (\<lambda>e. fst e = k) xs of [] \<Rightarrow> None | e # _ \<Rightarrow> Some (snd e))" for xs :: "kvPair list"
    by (induction xs) auto
  show "newest (sort_key fst entries) k = newest entries k" using sort_key_stable [of fst k entries] by (simp only: f flip: rev_filter)
qed

section \<open>Theorems\<close>

text \<open>
  C36. Sorting the pairs of a commit, by the library sort or for large commits by the bottom-up merge
  sort, is the stable sort by key, and what the normalisation of a log keeps are the newest pairs of
  each key in strictly ascending key order.
\<close>

theorem commit_pairs_sorted_newest:
  "sortKVPairs entries = sort_key fst entries \<and>
   strict_keys (dedupSortedKVPairs (sortKVPairs entries)) \<and>
   map_of (dedupSortedKVPairs (sortKVPairs entries)) = newest entries \<and>
   dedupSortedKVPairs (sortKVPairs entries) = normalizeStorageEntries entries"
proof -
  let ?s = "sort_key fst entries"
  have d: "strict_keys (dedupSortedKVPairs ?s)" "map_of (dedupSortedKVPairs ?s) = newest ?s"
    using dedupSortedKVPairs_sorted [of ?s] by auto
  have eq: "newest ?s = newest entries" by (rule newest_sort_key)
  note n = normalizeStorageEntries_newest [of entries]
  have "set (dedupSortedKVPairs ?s) = set (normalizeStorageEntries entries)"
    using map_of_inject_set [of "dedupSortedKVPairs ?s" "normalizeStorageEntries entries"] d n eq
    by (simp add: strict_keys_distinct)
  then have "dedupSortedKVPairs ?s = normalizeStorageEntries entries"
    using d(1) n by (intro map_sorted_distinct_set_unique [of fst])
      (simp_all add: strict_sorted_iff distinct_map)
  with d eq show ?thesis by (simp add: sortKVPairs_stable)
qed

text \<open>
  Merging a commit into the records of a segment overrides exactly the keys of the commit, and
  splitting the result into chunks neither loses nor reorders a record, leaves no chunk empty and
  keeps every chunk within the limit unless it is a single record.
\<close>

theorem merge_overrides_and_splits:
  assumes "strict_keys existing" "strict_keys additions"
  shows "let merged = mergeAndDedupPairs existing additions; chunks = splitEntriesBySize merged limit in
     strict_keys merged \<and> map_of merged = map_of existing ++ map_of additions \<and> concat chunks = merged \<and>
     (\<forall>c \<in> set chunks. c \<noteq> [] \<and> (int (payloadSize c) \<le> limit \<or> length c = 1))"
  using mergeAndDedup_map [OF assms] split_bounds(1) [of "mergeAndDedupPairs existing additions" limit]
    split_bounds(2,3) [where es = "mergeAndDedupPairs existing additions" and limit = limit]
  by (auto simp: Let_def)

lemma merge_overrides_and_splits_witness:
  "map_of (mergeAndDedupPairs [([1], [2]), ([5], [6])] [([3], [4]), ([5], [7])]) [5] = Some [7] \<and>
   concat (splitEntriesBySize (mergeAndDedupPairs [([1], [2]), ([5], [6])] [([3], [4]), ([5], [7])]) 7) =
     mergeAndDedupPairs [([1], [2]), ([5], [6])] [([3], [4]), ([5], [7])]"
  using merge_overrides_and_splits [of "[([1], [2]), ([5], [6])]" "[([3], [4]), ([5], [7])]" 7]
  by (simp add: Let_def map_add_def)

end
