(* ===== verification/Segment_Index.thy ===== *)
theory Segment_Index
  imports Segment_Entries "HOL-Library.Char_ord" "HOL-Library.Product_Lexorder"
begin

text \<open>
  The index of a folder of chunk files, \<^verbatim>\<open>index.meta\<close>, of \<^verbatim>\<open>src/THEO/prefixdb/prefixdb.go\<close>: the
  names and first keys of the chunks in key order, either in one flat file or, when it outgrows a
  threshold, in shards \<^verbatim>\<open>index.meta.l2.*\<close> below a top-level file. The theory holds the codecs, the
  binary searches on the encoded and the decoded index, the writer, the full reader and the lookup
  of a single key, and shows that what a lookup finds is the chunk that a linear search in the list
  last written finds. The index is read from and written to its files, as with the index caches
  switched off; the caches are the subject of the theory on node caches. A folder is a map from file
  names to contents, and its file system does not fail.
\<close>

section \<open>Constants and data\<close>

definition segmentIndexCompressionMinSize :: nat where "segmentIndexCompressionMinSize = 4 * 1024"
definition segmentIndexKeyStartMaxBytes :: nat where "segmentIndexKeyStartMaxBytes = 32"
definition segmentIndexFixedKeyFieldBytes :: nat where "segmentIndexFixedKeyFieldBytes = 1 + segmentIndexKeyStartMaxBytes"
definition segmentIndexFlatEntryBytes :: nat where "segmentIndexFlatEntryBytes = 4 + segmentIndexFixedKeyFieldBytes"
definition segmentIndexFlatMagic :: u32 where "segmentIndexFlatMagic = 0x464c4958"
definition segmentIndexMultiLevelMagic :: u32 where "segmentIndexMultiLevelMagic = 0x4d4c4958"
definition segmentIndexFormatVersion :: "16 word" where "segmentIndexFormatVersion = 3"
definition segmentIndexFlatVersion :: "16 word" where "segmentIndexFlatVersion = 3"
definition segmentIndexFileName :: string where "segmentIndexFileName = ''index.meta''"

datatype index_error =
    NotCompact | KeyStartTooLarge nat | InvalidKeyLength nat | IndexEOF | CorruptedIndexHeader
  | UnsupportedIndexFormat | UnsupportedIndexVersion "16 word" | IndexFileMissing | InvalidIndexFile
  | IndexEntryNotFound | IndexDecompression node_error | InvalidLayoutMode | SlicePanic

datatype segmentIndexLayoutMode = indexLayoutFlat | indexLayoutMultiLevel

record segmentIndexL1Entry =
  l1_MetaID :: u32
  l1_KeyStart :: bytes
  l1_ChunkCount :: u32

record segmentIndexLayout =
  sl_mode :: segmentIndexLayoutMode
  sl_entries :: "segmentIndexL1Entry list"
  sl_nextMetaID :: u32
  sl_flatData :: bytes

type_synonym folder = "string \<rightharpoonup> bytes"

record index_config =
  ic_zstd :: zstd_ops
  ic_compression :: bool
  ic_level2Size :: nat
  ic_threshold :: nat

definition level2IndexFileName :: "u32 \<Rightarrow> string" where
  "level2IndexFileName metaID =
     (let d = decimal (unat metaID) in ''index.meta.l2.'' @ replicate (8 - length d) (digit 0) @ d)"

section \<open>Codecs\<close>

definition segmentChunkMetaCanUseCompactEncoding :: "segmentChunkMeta \<Rightarrow> bool" where
  "segmentChunkMetaCanUseCompactEncoding meta \<longleftrightarrow>
     \<not> length (KeyStart meta) > segmentIndexKeyStartMaxBytes \<and> parseChunkOrdinal (FileName meta) \<ge> 0"

definition canUseCompactSegmentEncoding :: "segmentChunkMeta list \<Rightarrow> bool" where
  "canUseCompactSegmentEncoding metas \<longleftrightarrow> list_all segmentChunkMetaCanUseCompactEncoding metas"

definition estimateSegmentEntrySize :: "segmentChunkMeta \<Rightarrow> nat" where
  "estimateSegmentEntrySize meta =
     (if segmentChunkMetaCanUseCompactEncoding meta then segmentIndexFlatEntryBytes
      else 2 + length (FileName meta) + 2 + length (KeyStart meta))"

definition estimateSegmentIndexSize :: "segmentChunkMeta list \<Rightarrow> nat" where
  "estimateSegmentIndexSize metas =
     (if canUseCompactSegmentEncoding metas then 12 else 4) + sum_list (map estimateSegmentEntrySize metas)"

definition appendFixedSegmentIndexKeyStart :: "bytes \<Rightarrow> bytes \<Rightarrow> index_error + bytes" where
  "appendFixedSegmentIndexKeyStart buf key =
     (if length key > segmentIndexKeyStartMaxBytes then Inl (KeyStartTooLarge (length key))
      else Inr (buf @ [word_of_nat (length key)] @ key @ replicate (segmentIndexKeyStartMaxBytes - length key) 0))"

definition decodeFixedSegmentIndexKeyStart :: "bytes \<Rightarrow> index_error + bytes \<times> nat" where
  "decodeFixedSegmentIndexKeyStart data =
     (if length data < segmentIndexFixedKeyFieldBytes then Inl IndexEOF
      else let keyLen = unat (data ! 0) in
        if keyLen > segmentIndexKeyStartMaxBytes then Inl (InvalidKeyLength keyLen)
        else Inr (take keyLen (drop 1 data), segmentIndexFixedKeyFieldBytes))"

definition bytes_Compare :: "bytes \<Rightarrow> bytes \<Rightarrow> int" where
  "bytes_Compare a b = (if a < b then -1 else if a = b then 0 else 1)"

definition compareSearchKeyToEncodedFixedSegmentIndexKey :: "bytes \<Rightarrow> bytes \<Rightarrow> index_error + int" where
  "compareSearchKeyToEncodedFixedSegmentIndexKey search encoded =
     (if length encoded < segmentIndexFixedKeyFieldBytes then Inl IndexEOF
      else let keyLen = unat (encoded ! 0) in
        if keyLen > segmentIndexKeyStartMaxBytes then Inl (InvalidKeyLength keyLen)
        else Inr (bytes_Compare search (take keyLen (drop 1 encoded))))"

fun encode_metas :: "bytes \<Rightarrow> segmentChunkMeta list \<Rightarrow> index_error + bytes" where
  "encode_metas buf [] = Inr buf"
| "encode_metas buf (meta # metas) =
     (case appendFixedSegmentIndexKeyStart (buf @ PutUint32 (word_of_int (parseChunkOrdinal (FileName meta)))) (KeyStart meta) of
        Inl e \<Rightarrow> Inl e | Inr buf' \<Rightarrow> encode_metas buf' metas)"

definition encodeSegmentChunkMetas :: "segmentChunkMeta list \<Rightarrow> index_error + bytes" where
  "encodeSegmentChunkMetas metas =
     (if \<not> canUseCompactSegmentEncoding metas then Inl NotCompact
      else encode_metas (PutUint32 segmentIndexFlatMagic @ PutUint16 segmentIndexFlatVersion @ [0, 0] @
                         PutUint32 (word_of_nat (length metas))) metas)"

definition flatSegmentIndexCount :: "bytes \<Rightarrow> index_error + nat \<times> 16 word" where
  "flatSegmentIndexCount data =
     (if length data < 12 then Inl CorruptedIndexHeader
      else if Uint32 data \<noteq> segmentIndexFlatMagic then Inl UnsupportedIndexFormat
      else if Uint16 (drop 4 data) \<noteq> segmentIndexFlatVersion then Inl (UnsupportedIndexVersion (Uint16 (drop 4 data)))
      else Inr (unat (Uint32 (drop 8 data)), Uint16 (drop 4 data)))"

definition flatSegmentIndexMetaAt :: "bytes \<Rightarrow> 16 word \<Rightarrow> nat \<Rightarrow> index_error + segmentChunkMeta" where
  "flatSegmentIndexMetaAt data version idx =
     (if version \<noteq> segmentIndexFlatVersion then Inl (UnsupportedIndexVersion version)
      else let offset = 12 + idx * segmentIndexFlatEntryBytes in
        if offset + segmentIndexFlatEntryBytes > length data then Inl IndexEOF
        else case decodeFixedSegmentIndexKeyStart (take segmentIndexFixedKeyFieldBytes (drop (offset + 4) data)) of
            Inl e \<Rightarrow> Inl e
          | Inr (keyStart, _) \<Rightarrow>
              Inr \<lparr>FileName = chunkFileNameForOrdinal (Uint32 (drop offset data)), KeyStart = keyStart\<rparr>)"

text \<open>
  The probes of the search on an encoded index slice the data at the probed entry; a slice beyond
  the data panics in the source and is \<^const>\<open>SlicePanic\<close> here.
\<close>

definition probe_flat :: "bytes \<Rightarrow> bytes \<Rightarrow> nat \<Rightarrow> index_error + int" where
  "probe_flat data key i =
     (let offset = 12 + i * segmentIndexFlatEntryBytes + 4 in
      if offset + segmentIndexFixedKeyFieldBytes > length data then Inl SlicePanic
      else compareSearchKeyToEncodedFixedSegmentIndexKey key (take segmentIndexFixedKeyFieldBytes (drop offset data)))"

function search_flat :: "bytes \<Rightarrow> bytes \<Rightarrow> nat \<Rightarrow> nat \<Rightarrow> index_error + nat" where
  "search_flat data key i j =
     (if i < j then
        let h = (i + j) div 2 in
        case probe_flat data key h of
          Inl SlicePanic \<Rightarrow> Inl SlicePanic
        | Inl _ \<Rightarrow> search_flat data key i h
        | Inr cmp \<Rightarrow> (if \<not> cmp < 0 then search_flat data key (h + 1) j else search_flat data key i h)
      else Inr i)"
  by pat_completeness auto
termination
  by (relation "measure (\<lambda>(d, k, i, j). j - i)") auto

declare search_flat.simps [simp del]

definition selectFixedFlatSegmentIndexMeta :: "bytes \<Rightarrow> bytes \<Rightarrow> index_error + segmentChunkMeta option" where
  "selectFixedFlatSegmentIndexMeta data key =
     (case flatSegmentIndexCount data of
        Inl e \<Rightarrow> Inl e
      | Inr (n, version) \<Rightarrow>
          if n = 0 then Inr None
          else case search_flat data key 0 n of
              Inl e \<Rightarrow> Inl e
            | Inr idx \<Rightarrow>
                if idx = 0 then
                  (case probe_flat data key 0 of
                     Inl e \<Rightarrow> Inl e
                   | Inr cmp \<Rightarrow> if cmp < 0 then Inr None else map_sum id Some (flatSegmentIndexMetaAt data version 0))
                else (case flatSegmentIndexMetaAt data version (idx - 1) of
                     Inl e \<Rightarrow> Inl e
                   | Inr selected \<Rightarrow>
                       if key < KeyStart selected then Inr None
                       else if idx < n then
                         (case probe_flat data key idx of
                            Inl e \<Rightarrow> Inl e
                          | Inr cmp \<Rightarrow> if cmp \<ge> 0 then Inr None else Inr (Some selected))
                       else Inr (Some selected)))"

fun decode_metas :: "bytes \<Rightarrow> nat \<Rightarrow> nat \<Rightarrow> index_error + segmentChunkMeta list" where
  "decode_metas data cursor 0 = Inr []"
| "decode_metas data cursor (Suc n) =
     (if cursor + segmentIndexFlatEntryBytes > length data then Inl IndexEOF
      else case decodeFixedSegmentIndexKeyStart (take segmentIndexFixedKeyFieldBytes (drop (cursor + 4) data)) of
          Inl e \<Rightarrow> Inl e
        | Inr (start, m) \<Rightarrow>
            map_sum id ((#) \<lparr>FileName = chunkFileNameForOrdinal (Uint32 (drop cursor data)), KeyStart = start\<rparr>)
              (decode_metas data (cursor + 4 + m) n))"

definition decodeSegmentIndexBuffer :: "bytes \<Rightarrow> index_error + segmentChunkMeta list" where
  "decodeSegmentIndexBuffer data =
     (case flatSegmentIndexCount data of
        Inl e \<Rightarrow> Inl e
      | Inr (n, version) \<Rightarrow>
          if n = 0 then Inr []
          else if version \<noteq> segmentIndexFlatVersion then Inl (UnsupportedIndexVersion version)
          else decode_metas data 12 n)"

fun encode_l1 :: "bytes \<Rightarrow> segmentIndexL1Entry list \<Rightarrow> index_error + bytes" where
  "encode_l1 buf [] = Inr buf"
| "encode_l1 buf (e # es) =
     (case appendFixedSegmentIndexKeyStart (buf @ PutUint32 (l1_MetaID e) @ PutUint32 (l1_ChunkCount e)) (l1_KeyStart e) of
        Inl err \<Rightarrow> Inl err | Inr buf' \<Rightarrow> encode_l1 buf' es)"

definition encodeTopLevelIndex :: "segmentIndexLayout \<Rightarrow> index_error + bytes" where
  "encodeTopLevelIndex layout =
     (if sl_mode layout \<noteq> indexLayoutMultiLevel then Inl InvalidLayoutMode
      else encode_l1 (PutUint32 segmentIndexMultiLevelMagic @ PutUint16 segmentIndexFormatVersion @ [0, 0] @
                      PutUint32 (sl_nextMetaID layout) @ PutUint32 (word_of_nat (length (sl_entries layout))))
             (sl_entries layout))"

definition l1_order :: "segmentIndexL1Entry \<Rightarrow> bytes \<times> nat \<times> nat" where
  "l1_order e = (l1_KeyStart e, unat (l1_MetaID e), unat (l1_ChunkCount e))"

definition lessSegmentIndexL1Entry :: "segmentIndexL1Entry \<Rightarrow> segmentIndexL1Entry \<Rightarrow> bool" where
  "lessSegmentIndexL1Entry a b =
     (if l1_KeyStart a \<noteq> l1_KeyStart b then l1_KeyStart a < l1_KeyStart b
      else if l1_MetaID a \<noteq> l1_MetaID b then l1_MetaID a < l1_MetaID b
      else l1_ChunkCount a < l1_ChunkCount b)"

fun adjacent :: "('a \<Rightarrow> 'a \<Rightarrow> bool) \<Rightarrow> 'a list \<Rightarrow> bool" where
  "adjacent lt (x # y # xs) = (if lt y x then False else adjacent lt (y # xs))"
| "adjacent lt xs = True"

definition isSegmentIndexL1EntriesOrdered :: "segmentIndexL1Entry list \<Rightarrow> bool" where
  "isSegmentIndexL1EntriesOrdered entries = adjacent lessSegmentIndexL1Entry entries"

definition normalizeSegmentIndexL1EntriesOrder :: "segmentIndexL1Entry list \<Rightarrow> segmentIndexL1Entry list \<times> bool" where
  "normalizeSegmentIndexL1EntriesOrder entries =
     (if length entries \<le> 1 then (entries, False)
      else if isSegmentIndexL1EntriesOrdered entries then (entries, False)
      else (sort_key l1_order entries, True))"

fun decode_l1 :: "bytes \<Rightarrow> nat \<Rightarrow> nat \<Rightarrow> index_error + segmentIndexL1Entry list" where
  "decode_l1 data cursor 0 = Inr []"
| "decode_l1 data cursor (Suc n) =
     (if cursor + 8 > length data then Inl IndexEOF
      else if cursor + 8 + segmentIndexFixedKeyFieldBytes > length data then Inl IndexEOF
      else case decodeFixedSegmentIndexKeyStart (take segmentIndexFixedKeyFieldBytes (drop (cursor + 8) data)) of
          Inl e \<Rightarrow> Inl e
        | Inr (start, m) \<Rightarrow>
            map_sum id ((#) \<lparr>l1_MetaID = Uint32 (drop cursor data), l1_KeyStart = start,
                              l1_ChunkCount = Uint32 (drop (cursor + 4) data)\<rparr>)
              (decode_l1 data (cursor + 8 + m) n))"

definition parseMultiLevelLayout :: "bytes \<Rightarrow> index_error + segmentIndexLayout" where
  "parseMultiLevelLayout data =
     (if length data < 16 then Inl CorruptedIndexHeader
      else if Uint16 (drop 4 data) \<noteq> segmentIndexFormatVersion then Inl (UnsupportedIndexVersion (Uint16 (drop 4 data)))
      else case decode_l1 data 16 (unat (Uint32 (drop 12 data))) of
          Inl e \<Rightarrow> Inl e
        | Inr entries \<Rightarrow>
            let nextID = Uint32 (drop 8 data) in
            Inr \<lparr>sl_mode = indexLayoutMultiLevel,
                 sl_entries = fst (normalizeSegmentIndexL1EntriesOrder entries),
                 sl_nextMetaID = (if nextID = 0 then word_of_nat (length entries) + 1 else nextID),
                 sl_flatData = []\<rparr>)"

section \<open>Order and search of the decoded index\<close>

definition meta_order :: "segmentChunkMeta \<Rightarrow> bytes \<times> string" where
  "meta_order m = (KeyStart m, FileName m)"

definition lessSegmentChunkMeta :: "segmentChunkMeta \<Rightarrow> segmentChunkMeta \<Rightarrow> bool" where
  "lessSegmentChunkMeta a b =
     (if KeyStart a \<noteq> KeyStart b then KeyStart a < KeyStart b else FileName a < FileName b)"

definition isSegmentChunkMetasOrdered :: "segmentChunkMeta list \<Rightarrow> bool" where
  "isSegmentChunkMetasOrdered metas = adjacent lessSegmentChunkMeta metas"

definition normalizeSegmentChunkMetasOrder :: "segmentChunkMeta list \<Rightarrow> segmentChunkMeta list \<times> bool" where
  "normalizeSegmentChunkMetasOrder metas =
     (if length metas \<le> 1 then (metas, False)
      else if isSegmentChunkMetasOrdered metas then (metas, False)
      else (sort_key meta_order metas, True))"

definition upperBoundSegmentIndexL1Entries :: "segmentIndexL1Entry list \<Rightarrow> bytes \<Rightarrow> nat" where
  "upperBoundSegmentIndexL1Entries entries key =
     search_loop (\<lambda>mid. \<not> (l1_KeyStart (entries ! mid) = [] \<or> l1_KeyStart (entries ! mid) \<le> key)) 0 (length entries)"

definition upperBoundSegmentChunkMetas :: "segmentChunkMeta list \<Rightarrow> bytes \<Rightarrow> nat" where
  "upperBoundSegmentChunkMetas metas key =
     search_loop (\<lambda>mid. \<not> (KeyStart (metas ! mid) = [] \<or> KeyStart (metas ! mid) \<le> key)) 0 (length metas)"

definition selectSegmentL1Entry :: "segmentIndexL1Entry list \<Rightarrow> bytes \<Rightarrow> segmentIndexL1Entry option" where
  "selectSegmentL1Entry entries key =
     (if entries = [] then None
      else if key = [] then Some (entries ! 0)
      else let idx = upperBoundSegmentIndexL1Entries entries key in
        if idx = 0 then None else Some (entries ! (idx - 1)))"

definition selectSegmentChunkMeta :: "segmentChunkMeta list \<Rightarrow> bytes \<Rightarrow> segmentChunkMeta option" where
  "selectSegmentChunkMeta metas key =
     (if metas = [] then None
      else if key = [] then Some (metas ! 0)
      else let idx = upperBoundSegmentChunkMetas metas key in
        if idx = 0 then None else Some (metas ! (idx - 1)))"

fun split_metas :: "nat \<Rightarrow> segmentChunkMeta list \<Rightarrow> nat \<Rightarrow> segmentChunkMeta list \<Rightarrow> segmentChunkMeta list list" where
  "split_metas level2Size grp groupSize [] = (if grp = [] then [] else [grp])"
| "split_metas level2Size grp groupSize (meta # metas) =
     (let entrySize = estimateSegmentEntrySize meta;
          full = groupSize + entrySize > level2Size \<and> grp \<noteq> [];
          grp' = (if full then [] else grp) @ [meta];
          groupSize' = (if full then 4 else groupSize) + entrySize;
          rest = (if groupSize' \<ge> level2Size then grp' # split_metas level2Size [] 4 metas
                  else split_metas level2Size grp' groupSize' metas)
      in if full then grp # rest else rest)"

definition splitSegmentMetas :: "nat \<Rightarrow> segmentChunkMeta list \<Rightarrow> segmentChunkMeta list list" where
  "splitSegmentMetas level2Size metas = split_metas level2Size [] 4 metas"

section \<open>Index files\<close>

definition encodeSegmentIndexFileData :: "index_config \<Rightarrow> bytes \<Rightarrow> bytes" where
  "encodeSegmentIndexFileData cfg data =
     (if \<not> ic_compression cfg \<or> length data \<le> segmentIndexCompressionMinSize then data
      else encodeCompressedMetadataBlock (ic_zstd cfg) data)"

definition decodeSegmentIndexFileData :: "index_config \<Rightarrow> bytes \<Rightarrow> index_error + bytes" where
  "decodeSegmentIndexFileData cfg data =
     (case maybeDecodeCompressedMetadataBlock (ic_zstd cfg) data of
        Inl e \<Rightarrow> Inl (IndexDecompression e) | Inr (raw, _) \<Rightarrow> Inr raw)"

definition readSegmentIndexFile :: "index_config \<Rightarrow> folder \<Rightarrow> string \<Rightarrow> index_error + bytes" where
  "readSegmentIndexFile cfg files path =
     (case files path of None \<Rightarrow> Inl IndexFileMissing | Some data \<Rightarrow> decodeSegmentIndexFileData cfg data)"

text \<open>Written to a temporary file that is renamed, unless the content is already there.\<close>

definition writeFileAtomic :: "folder \<Rightarrow> string \<Rightarrow> bytes \<Rightarrow> folder" where
  "writeFileAtomic files path data = files(path @ ''.tmp'' := None, path \<mapsto> data)"

definition writeFileIfChanged :: "folder \<Rightarrow> string \<Rightarrow> bytes \<Rightarrow> folder" where
  "writeFileIfChanged files path data =
     (if files path = Some data then files else writeFileAtomic files path data)"

definition writeSegmentIndexFileIfChanged :: "index_config \<Rightarrow> folder \<Rightarrow> string \<Rightarrow> bytes \<Rightarrow> folder" where
  "writeSegmentIndexFileIfChanged cfg files path data =
     writeFileIfChanged files path (encodeSegmentIndexFileData cfg data)"

definition loadSegmentIndexLayout :: "index_config \<Rightarrow> folder \<Rightarrow> index_error + segmentIndexLayout" where
  "loadSegmentIndexLayout cfg files =
     (case readSegmentIndexFile cfg files segmentIndexFileName of
        Inl IndexFileMissing \<Rightarrow> Inr \<lparr>sl_mode = indexLayoutFlat, sl_entries = [], sl_nextMetaID = 1, sl_flatData = []\<rparr>
      | Inl e \<Rightarrow> Inl e
      | Inr data \<Rightarrow>
          if length data < 4 then Inl InvalidIndexFile
          else if Uint32 data \<noteq> segmentIndexMultiLevelMagic
          then Inr \<lparr>sl_mode = indexLayoutFlat, sl_entries = [], sl_nextMetaID = 1, sl_flatData = data\<rparr>
          else parseMultiLevelLayout data)"

fun read_shards :: "index_config \<Rightarrow> folder \<Rightarrow> segmentIndexL1Entry list \<Rightarrow> index_error + segmentChunkMeta list" where
  "read_shards cfg files [] = Inr []"
| "read_shards cfg files (e # es) =
     (case readSegmentIndexFile cfg files (level2IndexFileName (l1_MetaID e)) of
        Inl err \<Rightarrow> Inl err
      | Inr data \<Rightarrow>
          (case decodeSegmentIndexBuffer data of
             Inl err \<Rightarrow> Inl err
           | Inr metas \<Rightarrow> map_sum id ((@) metas) (read_shards cfg files es)))"

definition flat_data :: "index_config \<Rightarrow> folder \<Rightarrow> segmentIndexLayout \<Rightarrow> index_error + bytes" where
  "flat_data cfg files layout =
     (if sl_flatData layout = [] then readSegmentIndexFile cfg files segmentIndexFileName else Inr (sl_flatData layout))"

definition readSegmentIndex :: "index_config \<Rightarrow> folder \<Rightarrow> index_error + segmentChunkMeta list" where
  "readSegmentIndex cfg files =
     (case loadSegmentIndexLayout cfg files of
        Inl e \<Rightarrow> Inl e
      | Inr layout \<Rightarrow>
          if sl_mode layout = indexLayoutMultiLevel then read_shards cfg files (sl_entries layout)
          else (case flat_data cfg files layout of
                  Inl e \<Rightarrow> Inl e | Inr data \<Rightarrow> decodeSegmentIndexBuffer data))"

definition readSegmentIndexForKey :: "index_config \<Rightarrow> folder \<Rightarrow> bytes \<Rightarrow> index_error + segmentChunkMeta list" where
  "readSegmentIndexForKey cfg files key =
     (if key = [] then readSegmentIndex cfg files
      else case loadSegmentIndexLayout cfg files of
        Inl e \<Rightarrow> Inl e
      | Inr layout \<Rightarrow>
          if sl_mode layout \<noteq> indexLayoutMultiLevel then
            (case flat_data cfg files layout of
               Inl e \<Rightarrow> Inl e
             | Inr data \<Rightarrow>
                 (case selectFixedFlatSegmentIndexMeta data key of
                    Inl e \<Rightarrow> Inl e
                  | Inr (Some meta) \<Rightarrow> Inr [meta]
                  | Inr None \<Rightarrow> readSegmentIndex cfg files))
          else (case selectSegmentL1Entry (sl_entries layout) key of
               None \<Rightarrow> Inl IndexEntryNotFound
             | Some entry \<Rightarrow>
                 (case readSegmentIndexFile cfg files (level2IndexFileName (l1_MetaID entry)) of
                    Inl e \<Rightarrow> Inl e
                  | Inr data \<Rightarrow>
                      (case decodeSegmentIndexBuffer data of
                         Inl e \<Rightarrow> Inl e
                       | Inr metas \<Rightarrow>
                           if selectSegmentChunkMeta metas key = None
                           then (case readSegmentIndex cfg files of
                                   Inr fallbackMetas \<Rightarrow>
                                     if selectSegmentChunkMeta fallbackMetas key \<noteq> None then Inr fallbackMetas else Inr metas
                                 | Inl _ \<Rightarrow> Inr metas)
                           else Inr metas))))"

definition remove_all :: "string list \<Rightarrow> folder \<Rightarrow> folder" where
  "remove_all names files = fold (\<lambda>n f. f(n := None)) names files"

definition removeStaleLevel2IndexFiles :: "folder \<Rightarrow> segmentIndexL1Entry list \<Rightarrow> u32 list \<Rightarrow> folder" where
  "removeStaleLevel2IndexFiles files oldEntries keep =
     remove_all (map (\<lambda>e. level2IndexFileName (l1_MetaID e)) (filter (\<lambda>e. l1_MetaID e \<notin> set keep) oldEntries)) files"

definition is_level2_name :: "string \<Rightarrow> bool" where
  "is_level2_name name \<longleftrightarrow>
     take 14 name = ''index.meta.l2.'' \<and> 14 < length name \<and>
     (let v = of_char (name ! 14) :: int in 48 \<le> v \<and> v \<le> 57)"

definition removeLevel2IndexFiles :: "folder \<Rightarrow> folder" where
  "removeLevel2IndexFiles files = (\<lambda>n. if is_level2_name n then None else files n)"

fun group_by_counts :: "segmentIndexL1Entry list \<Rightarrow> segmentChunkMeta list \<Rightarrow> segmentChunkMeta list list" where
  "group_by_counts [] metas = []"
| "group_by_counts (e # es) metas =
     take (unat (l1_ChunkCount e)) metas # group_by_counts es (drop (unat (l1_ChunkCount e)) metas)"

fun assign_ids :: "segmentIndexL1Entry list \<Rightarrow> u32 \<Rightarrow> 'a list \<Rightarrow> u32 list \<times> u32" where
  "assign_ids entries nextID [] = ([], nextID)"
| "assign_ids entries nextID (g # groups) =
     (let old = (case entries of [] \<Rightarrow> 0 | e # _ \<Rightarrow> l1_MetaID e);
          (i, next') = (if old = 0 then (nextID, nextID + 1) else (old, nextID));
          (is, next'') = assign_ids (tl entries) next' groups
      in (i # is, next''))"

fun write_shards :: "index_config \<Rightarrow> folder \<Rightarrow> (u32 \<times> segmentChunkMeta list) list \<Rightarrow>
    folder \<times> (index_error + segmentIndexL1Entry list)" where
  "write_shards cfg files [] = (files, Inr [])"
| "write_shards cfg files ((i, grp) # gs) =
     (case encodeSegmentChunkMetas grp of
        Inl e \<Rightarrow> (files, Inl e)
      | Inr buf \<Rightarrow>
          let files1 = writeSegmentIndexFileIfChanged cfg files (level2IndexFileName i) buf in
          if grp = [] then (files1, Inl SlicePanic)
          else (case write_shards cfg files1 gs of
             (files', Inl e) \<Rightarrow> (files', Inl e)
           | (files', Inr es) \<Rightarrow>
               (files', Inr (\<lparr>l1_MetaID = i, l1_KeyStart = KeyStart (grp ! 0),
                              l1_ChunkCount = word_of_nat (length grp)\<rparr> # es))))"

definition prev_entries :: "index_config \<Rightarrow> folder \<Rightarrow> segmentIndexL1Entry list" where
  "prev_entries cfg files =
     (case loadSegmentIndexLayout cfg files of
        Inr layout \<Rightarrow> if sl_mode layout = indexLayoutMultiLevel then sl_entries layout else []
      | Inl _ \<Rightarrow> [])"

definition drop_level2 :: "segmentIndexL1Entry list \<Rightarrow> folder \<Rightarrow> folder" where
  "drop_level2 prevEntries files =
     (if prevEntries \<noteq> [] then removeStaleLevel2IndexFiles files prevEntries [] else removeLevel2IndexFiles files)"

definition index_groups :: "index_config \<Rightarrow> segmentIndexLayout \<Rightarrow> segmentChunkMeta list \<Rightarrow> segmentChunkMeta list list" where
  "index_groups cfg layout metas =
     (let groups = (if sl_entries layout \<noteq> [] \<and>
                       sum_list (map (\<lambda>e. unat (l1_ChunkCount e)) (sl_entries layout)) = length metas
                    then group_by_counts (sl_entries layout) metas else [])
      in if groups = []
         then (let split = splitSegmentMetas (ic_level2Size cfg) metas in if split = [] then [metas] else split)
         else groups)"

definition writeMultiLevelIndex :: "index_config \<Rightarrow> segmentChunkMeta list \<Rightarrow> folder \<Rightarrow> index_error option \<times> folder" where
  "writeMultiLevelIndex cfg metas files =
     (case loadSegmentIndexLayout cfg files of
        Inl e \<Rightarrow> (Some e, files)
      | Inr layout0 \<Rightarrow>
          let layout = (if sl_mode layout0 \<noteq> indexLayoutMultiLevel
                        then \<lparr>sl_mode = indexLayoutMultiLevel, sl_entries = [], sl_nextMetaID = 1, sl_flatData = []\<rparr>
                        else layout0);
              groups = index_groups cfg layout metas;
              (ids, nextID) = assign_ids (sl_entries layout)
                                (if sl_nextMetaID layout = 0 then 1 else sl_nextMetaID layout) groups
          in case write_shards cfg files (zip ids groups) of
            (files1, Inl e) \<Rightarrow> (Some e, files1)
          | (files1, Inr newEntries) \<Rightarrow>
              let (entries, topOrderChanged) = normalizeSegmentIndexL1EntriesOrder newEntries;
                  newLayout = \<lparr>sl_mode = indexLayoutMultiLevel, sl_entries = entries, sl_nextMetaID = nextID, sl_flatData = []\<rparr>;
                  needTopUpdate = (sl_entries layout \<noteq> entries \<or> sl_nextMetaID layout \<noteq> nextID \<or> topOrderChanged)
              in (case (if needTopUpdate then map_sum id Some (encodeTopLevelIndex newLayout) else Inr None) of
                    Inl e \<Rightarrow> (Some e, files1)
                  | Inr b \<Rightarrow>
                      let files2 = (case b of None \<Rightarrow> files1
                                    | Some buf \<Rightarrow> writeSegmentIndexFileIfChanged cfg files1 segmentIndexFileName buf)
                      in (None, removeStaleLevel2IndexFiles files2 (sl_entries layout) ids)))"

definition writeSegmentIndexLocked :: "index_config \<Rightarrow> segmentChunkMeta list \<Rightarrow> folder \<Rightarrow> index_error option \<times> folder" where
  "writeSegmentIndexLocked cfg metas0 files =
     (let metas = fst (normalizeSegmentChunkMetasOrder metas0);
          prevEntries = prev_entries cfg files
      in if metas = [] then (None, drop_level2 prevEntries (files(segmentIndexFileName := None)))
         else if estimateSegmentIndexSize metas \<le> ic_threshold cfg then
           (case encodeSegmentChunkMetas metas of
              Inl e \<Rightarrow> (Some e, files)
            | Inr buf \<Rightarrow>
                (None, drop_level2 prevEntries (writeSegmentIndexFileIfChanged cfg files segmentIndexFileName buf)))
         else writeMultiLevelIndex cfg metas files)"

section \<open>The flat index\<close>

lemmas index_sizes = segmentIndexKeyStartMaxBytes_def segmentIndexFixedKeyFieldBytes_def segmentIndexFlatEntryBytes_def

definition meta_ok :: "segmentChunkMeta \<Rightarrow> bool" where
  "meta_ok m \<longleftrightarrow> (\<exists>n. FileName m = chunkFileNameForOrdinal n) \<and> KeyStart m \<noteq> [] \<and> length (KeyStart m) \<le> 32"

definition key_field :: "bytes \<Rightarrow> bytes" where
  "key_field k = [word_of_nat (length k)] @ k @ replicate (32 - length k) 0"

definition meta_bytes :: "segmentChunkMeta \<Rightarrow> bytes" where
  "meta_bytes m = PutUint32 (word_of_int (parseChunkOrdinal (FileName m))) @ key_field (KeyStart m)"

definition flat_bytes :: "segmentChunkMeta list \<Rightarrow> bytes" where
  "flat_bytes ms = PutUint32 segmentIndexFlatMagic @ PutUint16 segmentIndexFlatVersion @ [0, 0] @
     PutUint32 (word_of_nat (length ms)) @ concat (map meta_bytes ms)"

lemma length_key_field: "length k \<le> 32 \<Longrightarrow> length (key_field k) = 33"
  by (simp add: key_field_def)

lemma length_meta_bytes: "meta_ok m \<Longrightarrow> length (meta_bytes m) = 37"
  by (simp add: meta_bytes_def length_key_field meta_ok_def)

lemma meta_ok_compact: "list_all meta_ok ms \<Longrightarrow> canUseCompactSegmentEncoding ms"
  by (auto simp: canUseCompactSegmentEncoding_def segmentChunkMetaCanUseCompactEncoding_def meta_ok_def index_sizes list_all_iff)

lemma append_key_field: "length k \<le> 32 \<Longrightarrow> appendFixedSegmentIndexKeyStart buf k = Inr (buf @ key_field k)"
  by (simp add: appendFixedSegmentIndexKeyStart_def key_field_def index_sizes)

lemma decode_key_field:
  "length k \<le> 32 \<Longrightarrow> decodeFixedSegmentIndexKeyStart (take 33 (key_field k @ rest)) = Inr (k, 33)"
  by (simp add: decodeFixedSegmentIndexKeyStart_def key_field_def index_sizes Let_def unat_of_nat)

lemma compare_key_field:
  "length k \<le> 32 \<Longrightarrow>
   compareSearchKeyToEncodedFixedSegmentIndexKey key (take 33 (key_field k @ rest)) = Inr (bytes_Compare key k)"
  by (simp add: compareSearchKeyToEncodedFixedSegmentIndexKey_def key_field_def index_sizes Let_def unat_of_nat)

lemma encode_metas_bytes:
  "list_all meta_ok ms \<Longrightarrow> encode_metas buf ms = Inr (buf @ concat (map meta_bytes ms))"
  by (induction ms arbitrary: buf) (auto simp: append_key_field meta_ok_def meta_bytes_def)

lemma encode_flat: "list_all meta_ok ms \<Longrightarrow> encodeSegmentChunkMetas ms = Inr (flat_bytes ms)"
  by (simp add: encodeSegmentChunkMetas_def meta_ok_compact encode_metas_bytes flat_bytes_def)

lemma meta_name: "meta_ok m \<Longrightarrow> chunkFileNameForOrdinal (word_of_int (parseChunkOrdinal (FileName m))) = FileName m"
  by (auto simp: meta_ok_def)

lemma decode_metas_bytes:
  "list_all meta_ok ms \<Longrightarrow>
   decode_metas (pre @ concat (map meta_bytes ms) @ rest) (length pre) (length ms) = Inr ms"
proof (induction ms arbitrary: pre)
  case (Cons m ms)
  have m: "meta_ok m" and k: "length (KeyStart m) \<le> 32" using Cons.prems by (auto simp: meta_ok_def)
  let ?rest = "concat (map meta_bytes ms) @ rest"
  define d where "d = pre @ concat (map meta_bytes (m # ms)) @ rest"
  have d4: "drop (length pre + 4) d = key_field (KeyStart m) @ ?rest" by (simp add: meta_bytes_def d_def)
  have d0: "drop (length pre) d = PutUint32 (word_of_int (parseChunkOrdinal (FileName m))) @ key_field (KeyStart m) @ ?rest"
    by (simp add: meta_bytes_def d_def)
  have le: "length pre + 37 \<le> length d" using length_meta_bytes [OF m] by (simp add: d_def)
  have "decode_metas d (length (pre @ meta_bytes m)) (length ms) = Inr ms"
    using Cons.IH [of "pre @ meta_bytes m"] Cons.prems by (simp add: d_def)
  moreover have "length (pre @ meta_bytes m) = length pre + 4 + 33" using length_meta_bytes [OF m] by simp
  ultimately have ih: "decode_metas d (length pre + 4 + 33) (length ms) = Inr ms" by (simp add: add.commute)
  have "decode_metas d (length pre) (length (m # ms)) = Inr (m # ms)"
    using le ih decode_key_field [OF k, of ?rest] meta_name [OF m] by (simp add: index_sizes d4 d0 del: take_append)
  then show ?case by (simp add: d_def)
qed simp

lemma flat_count:
  "length ms < 2 ^ 32 \<Longrightarrow> flatSegmentIndexCount (flat_bytes ms) = Inr (length ms, segmentIndexFlatVersion)"
  by (simp add: flatSegmentIndexCount_def flat_bytes_def unat_of_nat)

lemma decode_flat:
  assumes "list_all meta_ok ms" "length ms < 2 ^ 32"
  shows "decodeSegmentIndexBuffer (flat_bytes ms) = Inr ms"
proof -
  let ?h = "PutUint32 segmentIndexFlatMagic @ PutUint16 segmentIndexFlatVersion @ [0, 0] @ PutUint32 (word_of_nat (length ms))"
  have "flat_bytes ms = ?h @ concat (map meta_bytes ms) @ []" by (simp add: flat_bytes_def)
  moreover have "length ?h = 12" by simp
  ultimately have "decode_metas (flat_bytes ms) 12 (length ms) = Inr ms"
    using decode_metas_bytes [OF assms(1), of ?h "[]"] by simp
  then show ?thesis by (simp add: decodeSegmentIndexBuffer_def flat_count [OF assms(2)])
qed

lemma drop_concat_metas:
  "list_all meta_ok ms \<Longrightarrow> i \<le> length ms \<Longrightarrow> drop (i * 37) (concat (map meta_bytes ms)) = concat (map meta_bytes (drop i ms))"
proof (induction ms arbitrary: i)
  case (Cons m ms)
  then show ?case by (cases i) (simp_all add: length_meta_bytes)
qed simp

lemma length_concat_metas: "list_all meta_ok ms \<Longrightarrow> length (concat (map meta_bytes ms)) = 37 * length ms"
  by (induction ms) (simp_all add: length_meta_bytes)

lemma length_flat_bytes: "list_all meta_ok ms \<Longrightarrow> length (flat_bytes ms) = 12 + 37 * length ms"
  by (simp add: flat_bytes_def length_concat_metas)

lemma drop_flat:
  assumes "list_all meta_ok ms" "i < length ms"
  shows "drop (12 + i * 37) (flat_bytes ms) = meta_bytes (ms ! i) @ concat (map meta_bytes (drop (Suc i) ms))"
proof -
  have "drop 12 (flat_bytes ms) = concat (map meta_bytes ms)" by (simp add: flat_bytes_def)
  moreover have "drop (12 + i * 37) (flat_bytes ms) = drop (i * 37) (drop 12 (flat_bytes ms))" by (simp add: add.commute)
  ultimately show ?thesis
    using assms drop_concat_metas [of ms i] by (simp add: Cons_nth_drop_Suc [symmetric] del: drop_drop)
qed

lemma flat_probe:
  assumes "list_all meta_ok ms" "i < length ms"
  shows "probe_flat (flat_bytes ms) key i = Inr (bytes_Compare key (KeyStart (ms ! i)))"
    and "flatSegmentIndexMetaAt (flat_bytes ms) segmentIndexFlatVersion i = Inr (ms ! i)"
proof -
  have m: "meta_ok (ms ! i)" using assms by (simp add: list_all_length)
  then have k: "length (KeyStart (ms ! i)) \<le> 32" by (simp add: meta_ok_def)
  let ?rest = "concat (map meta_bytes (drop (Suc i) ms))"
  have d: "drop (12 + i * 37) (flat_bytes ms) = PutUint32 (word_of_int (parseChunkOrdinal (FileName (ms ! i)))) @ key_field (KeyStart (ms ! i)) @ ?rest"
    using drop_flat [OF assms] by (simp add: meta_bytes_def)
  have "drop (12 + i * 37 + 4) (flat_bytes ms) = drop 4 (drop (12 + i * 37) (flat_bytes ms))" by (simp add: ac_simps)
  then have d4: "drop (16 + i * 37) (flat_bytes ms) = key_field (KeyStart (ms ! i)) @ ?rest" by (simp only: d) (simp add: add.commute)
  have le: "12 + i * 37 + 37 \<le> length (flat_bytes ms)" using assms by (simp add: length_flat_bytes)
  show "probe_flat (flat_bytes ms) key i = Inr (bytes_Compare key (KeyStart (ms ! i)))"
    using le compare_key_field [OF k, of key ?rest] by (simp add: probe_flat_def index_sizes d4 Let_def del: take_append)
  show "flatSegmentIndexMetaAt (flat_bytes ms) segmentIndexFlatVersion i = Inr (ms ! i)"
    using le decode_key_field [OF k, of ?rest] meta_name [OF m]
    by (simp add: flatSegmentIndexMetaAt_def index_sizes d4 d Let_def del: take_append)
qed

section \<open>Searches agree with the linear search\<close>

definition select_ref :: "segmentChunkMeta list \<Rightarrow> bytes \<Rightarrow> segmentChunkMeta option" where
  "select_ref ms key = (let p = chunk_pos ms key in if p = 0 then None else Some (ms ! (p - 1)))"

lemma search_is_pos:
  assumes "\<forall>i < r. P i" "\<forall>i. r \<le> i \<and> i < n \<longrightarrow> \<not> P i" "r \<le> n"
  shows "search_loop (\<lambda>i. \<not> P i) 0 n = r"
proof -
  have mono: "\<forall>a b. a \<le> b \<and> b < n \<and> \<not> P a \<longrightarrow> \<not> P b" using assms by (meson leI le_trans)
  note s = sort_Search_spec [of n "\<lambda>i. \<not> P i", OF mono, unfolded sort_Search_def]
  show ?thesis
  proof (rule antisym)
    show "search_loop (\<lambda>i. \<not> P i) 0 n \<le> r"
      using s(2) [of r] assms(2) s(1) by (metis leI less_le_trans order_refl)
    show "r \<le> search_loop (\<lambda>i. \<not> P i) 0 n"
      using s(3) [of "search_loop (\<lambda>i. \<not> P i) 0 n"] assms(1,3) by (metis leI less_le_trans order_refl)
  qed
qed

lemma pos_facts:
  assumes "starts_ok ms"
  shows "\<forall>i < chunk_pos ms key. KeyStart (ms ! i) = [] \<or> KeyStart (ms ! i) \<le> key"
    and "\<forall>i. chunk_pos ms key \<le> i \<and> i < length ms \<longrightarrow> \<not> (KeyStart (ms ! i) = [] \<or> KeyStart (ms ! i) \<le> key)"
    and "chunk_pos ms key \<le> length ms"
  using chunk_pos_props [OF assms, where key = key] starts_ok_nth(1) [OF assms] by (auto simp: not_le)

lemma upperBound_pos: "starts_ok ms \<Longrightarrow> upperBoundSegmentChunkMetas ms key = chunk_pos ms key"
  unfolding upperBoundSegmentChunkMetas_def using pos_facts [of ms key] by (rule search_is_pos) assumption

lemma selectSegmentChunkMeta_ref: "starts_ok ms \<Longrightarrow> key \<noteq> [] \<Longrightarrow> selectSegmentChunkMeta ms key = select_ref ms key"
  by (auto simp: selectSegmentChunkMeta_def select_ref_def upperBound_pos chunk_pos_def)

lemma search_flat_loop:
  assumes "\<forall>h < n. probe_flat data key h = Inr (c h)"
  shows "j \<le> n \<Longrightarrow> search_flat data key i j = Inr (search_loop (\<lambda>h. c h < 0) i j)"
proof (induction "j - i" arbitrary: i j rule: less_induct)
  case less
  show ?case
  proof (cases "i < j")
    case True
    define h where "h = (i + j) div 2"
    have h: "i \<le> h" "h < j" using True by (auto simp: h_def)
    have p: "probe_flat data key h = Inr (c h)" using assms h less.prems by auto
    have u: "search_flat data key i j = (if \<not> c h < 0 then search_flat data key (h + 1) j else search_flat data key i h)"
      using True p by (subst search_flat.simps) (simp add: h_def Let_def)
    have v: "search_loop (\<lambda>h. c h < 0) i j =
        (if \<not> c h < 0 then search_loop (\<lambda>h. c h < 0) (h + 1) j else search_loop (\<lambda>h. c h < 0) i h)"
      using True by (subst search_loop.simps) (simp add: h_def Let_def)
    show ?thesis unfolding u v using less.hyps [of j "h + 1"] less.hyps [of h i] h less.prems by simp
  next
    case False
    then show ?thesis by (subst search_flat.simps, subst search_loop.simps) simp
  qed
qed

lemma select_flat:
  assumes ms: "list_all meta_ok ms" "length ms < 2 ^ 32" and ok: "starts_ok ms"
  shows "selectFixedFlatSegmentIndexMeta (flat_bytes ms) key = Inr (select_ref ms key)"
proof (cases "ms = []")
  case True
  have "flatSegmentIndexCount (flat_bytes []) = Inr (0, segmentIndexFlatVersion)" using flat_count [of "[]"] by simp
  then show ?thesis by (simp add: True selectFixedFlatSegmentIndexMeta_def select_ref_def chunk_pos_def)
next
  case False
  let ?n = "length ms" and ?p = "chunk_pos ms key"
  note pr = chunk_pos_props [OF ok, where key = key]
  have probe: "\<forall>h < ?n. probe_flat (flat_bytes ms) key h = Inr (bytes_Compare key (KeyStart (ms ! h)))"
    using flat_probe(1) [OF ms(1)] by blast
  have lt: "(bytes_Compare key (KeyStart (ms ! h)) < 0) = (\<not> KeyStart (ms ! h) \<le> key)" for h
    by (auto simp: bytes_Compare_def)
  have "search_flat (flat_bytes ms) key 0 ?n = Inr (search_loop (\<lambda>h. \<not> KeyStart (ms ! h) \<le> key) 0 ?n)"
    using search_flat_loop [OF probe, of ?n 0] by (simp add: lt)
  also have "search_loop (\<lambda>h. \<not> KeyStart (ms ! h) \<le> key) 0 ?n = ?p"
    by (rule search_is_pos) (use pr in \<open>auto simp: not_le\<close>)
  finally have s: "search_flat (flat_bytes ms) key 0 ?n = Inr ?p" .
  show ?thesis
  proof (cases "?p = 0")
    case True
    have "\<not> KeyStart (ms ! 0) \<le> key" using pr(3) [of 0] True False by (simp add: not_le)
    then show ?thesis using True False s probe lt [of 0]
      by (simp add: selectFixedFlatSegmentIndexMeta_def flat_count [OF ms(2)] select_ref_def)
  next
    case p: False
    have le: "KeyStart (ms ! (?p - 1)) \<le> key" using pr(2) [of "?p - 1"] p by simp
    have meta: "flatSegmentIndexMetaAt (flat_bytes ms) segmentIndexFlatVersion (?p - 1) = Inr (ms ! (?p - 1))"
      by (rule flat_probe(2) [OF ms(1)]) (use pr(1) p False in simp)
    have "bytes_Compare key (KeyStart (ms ! ?p)) < 0" if "?p < ?n" using lt [of ?p] pr(3) [of ?p] that by (simp add: not_le)
    then have "\<not> 0 \<le> bytes_Compare key (KeyStart (ms ! ?p))" if "?p < ?n" using that by simp
    then show ?thesis using p False s probe meta le
      by (cases "?p < ?n") (simp_all add: selectFixedFlatSegmentIndexMeta_def flat_count [OF ms(2)] select_ref_def leD)
  qed
qed

section \<open>The top level\<close>

definition entry_fits :: "segmentIndexL1Entry \<Rightarrow> bool" where
  "entry_fits e \<longleftrightarrow> length (l1_KeyStart e) \<le> 32"

definition l1_bytes :: "segmentIndexL1Entry \<Rightarrow> bytes" where
  "l1_bytes e = PutUint32 (l1_MetaID e) @ PutUint32 (l1_ChunkCount e) @ key_field (l1_KeyStart e)"

definition top_bytes :: "u32 \<Rightarrow> segmentIndexL1Entry list \<Rightarrow> bytes" where
  "top_bytes nextID es = PutUint32 segmentIndexMultiLevelMagic @ PutUint16 segmentIndexFormatVersion @ [0, 0] @
     PutUint32 nextID @ PutUint32 (word_of_nat (length es)) @ concat (map l1_bytes es)"

lemma length_l1_bytes: "entry_fits e \<Longrightarrow> length (l1_bytes e) = 41"
  by (simp add: l1_bytes_def length_key_field entry_fits_def)

lemma encode_l1_bytes: "list_all entry_fits es \<Longrightarrow> encode_l1 buf es = Inr (buf @ concat (map l1_bytes es))"
  by (induction es arbitrary: buf) (auto simp: append_key_field entry_fits_def l1_bytes_def)

lemma encode_top:
  "list_all entry_fits (sl_entries l) \<Longrightarrow> sl_mode l = indexLayoutMultiLevel \<Longrightarrow>
   encodeTopLevelIndex l = Inr (top_bytes (sl_nextMetaID l) (sl_entries l))"
  by (simp add: encodeTopLevelIndex_def encode_l1_bytes top_bytes_def)

lemma decode_l1_bytes:
  "list_all entry_fits es \<Longrightarrow> decode_l1 (pre @ concat (map l1_bytes es)) (length pre) (length es) = Inr es"
proof (induction es arbitrary: pre)
  case (Cons e es)
  have e: "entry_fits e" and k: "length (l1_KeyStart e) \<le> 32" using Cons.prems by (auto simp: entry_fits_def)
  let ?rest = "concat (map l1_bytes es)"
  define d where "d = pre @ concat (map l1_bytes (e # es))"
  have d0: "drop (length pre) d = PutUint32 (l1_MetaID e) @ PutUint32 (l1_ChunkCount e) @ key_field (l1_KeyStart e) @ ?rest"
    by (simp add: l1_bytes_def d_def)
  have d4: "drop (length pre + 4) d = PutUint32 (l1_ChunkCount e) @ key_field (l1_KeyStart e) @ ?rest"
    and d8: "drop (length pre + 8) d = key_field (l1_KeyStart e) @ ?rest" by (simp_all add: l1_bytes_def d_def)
  have le: "length pre + 41 \<le> length d" using length_l1_bytes [OF e] by (simp add: d_def)
  have "decode_l1 d (length (pre @ l1_bytes e)) (length es) = Inr es"
    using Cons.IH [of "pre @ l1_bytes e"] Cons.prems by (simp add: d_def)
  then have ih: "decode_l1 d (length pre + 8 + 33) (length es) = Inr es"
    using length_l1_bytes [OF e] by (simp add: add.commute)
  have "decode_l1 d (length pre) (length (e # es)) = Inr (e # es)"
    using le ih decode_key_field [OF k, of ?rest] by (simp add: index_sizes d0 d4 d8 del: take_append)
  then show ?case by (simp add: d_def)
qed simp

lemma parse_top:
  assumes "list_all entry_fits es" "length es < 2 ^ 32" "nextID \<noteq> 0"
  shows "parseMultiLevelLayout (top_bytes nextID es) =
    Inr \<lparr>sl_mode = indexLayoutMultiLevel, sl_entries = fst (normalizeSegmentIndexL1EntriesOrder es), sl_nextMetaID = nextID, sl_flatData = []\<rparr>"
proof -
  let ?h = "PutUint32 segmentIndexMultiLevelMagic @ PutUint16 segmentIndexFormatVersion @ [0, 0] @ PutUint32 nextID @ PutUint32 (word_of_nat (length es))"
  have "top_bytes nextID es = ?h @ concat (map l1_bytes es)" by (simp add: top_bytes_def)
  moreover have "length ?h = 16" by simp
  ultimately have d: "decode_l1 (top_bytes nextID es) 16 (length es) = Inr es"
    using decode_l1_bytes [OF assms(1), of ?h] by simp
  have "Uint32 (drop 12 (top_bytes nextID es)) = word_of_nat (length es)" by (simp add: top_bytes_def)
  then have n: "unat (Uint32 (drop 12 (top_bytes nextID es))) = length es" using assms(2) by (simp add: unat_of_nat)
  have h: "16 \<le> length (top_bytes nextID es)" "Uint16 (drop 4 (top_bytes nextID es)) = segmentIndexFormatVersion"
    "Uint32 (drop 8 (top_bytes nextID es)) = nextID" by (simp_all add: top_bytes_def)
  show ?thesis using assms(3) h by (simp add: parseMultiLevelLayout_def n d)
qed

lemma normalize_l1_sorted:
  assumes "sorted_wrt (<) (map l1_KeyStart es)"
  shows "normalizeSegmentIndexL1EntriesOrder es = (es, False)"
proof -
  have "adjacent lessSegmentIndexL1Entry es" using assms
  proof (induction lessSegmentIndexL1Entry es rule: adjacent.induct)
    case (1 x y xs)
    then show ?case by (auto simp: lessSegmentIndexL1Entry_def)
  qed simp_all
  then show ?thesis by (simp add: normalizeSegmentIndexL1EntriesOrder_def isSegmentIndexL1EntriesOrdered_def)
qed

section \<open>Names of index files\<close>

definition index_file :: "string \<Rightarrow> bool" where
  "index_file n \<longleftrightarrow> take 10 n = ''index.meta''"

lemma chunk_name_digit: "of_char (hd (chunkFileNameForOrdinal n)) \<in> {48..57::int}"
proof (cases "unat n < 10000")
  case True
  have "unat n div 1000 mod 10 < 10" by simp
  from of_char_digit [OF this] True show ?thesis by (simp add: chunkFileNameForOrdinal_def Let_def)
next
  case False
  have "hd (decimal (unat n)) \<in> set (decimal (unat n))" by simp
  with decimal_digits [of "unat n"] False show ?thesis by (auto simp: chunkFileNameForOrdinal_def Let_def)
qed

lemma digit_not_index_file: "of_char (hd n) \<in> {48..57::int} \<Longrightarrow> \<not> index_file n"
proof
  assume d: "of_char (hd n) \<in> {48..57::int}" and "index_file n"
  then have "hd n = CHR ''i''" by (cases n) (simp_all add: index_file_def)
  moreover have "of_char (CHR ''i'') = (105 :: int)" by simp
  ultimately show False using d by auto
qed

lemma chunk_not_index_file: "\<not> index_file (chunkFileNameForOrdinal n)"
  by (rule digit_not_index_file [OF chunk_name_digit])

lemma parse_zeros: "parse_digits 0 (replicate k (digit 0) @ xs) = parse_digits 0 xs"
  by (induction k) (simp_all add: of_char_digit i64_id)

lemma level2_inject [simp]: "level2IndexFileName i = level2IndexFileName j \<longleftrightarrow> i = j"
proof
  assume "level2IndexFileName i = level2IndexFileName j"
  then have "parse_digits 0 (drop 14 (level2IndexFileName i)) = parse_digits 0 (drop 14 (level2IndexFileName j))" by simp
  then have "int (unat i) = int (unat j)"
    using unsigned_less [of i, where ?'a = int] unsigned_less [of j, where ?'a = int]
    by (simp add: level2IndexFileName_def Let_def parse_zeros parse_decimal)
  then show "i = j" by (auto intro: word_uint_eqI)
qed simp

lemma last_decimal: "of_char (last (decimal n)) \<in> {48..57::int}"
  using decimal_digits [of n] by (metis decimal_not_Nil last_in_set atLeastAtMost_iff)

lemma level2_names [simp]:
  "level2IndexFileName i \<noteq> segmentIndexFileName" "segmentIndexFileName \<noteq> level2IndexFileName i"
  "level2IndexFileName i @ ''.tmp'' \<noteq> segmentIndexFileName" "segmentIndexFileName \<noteq> level2IndexFileName i @ ''.tmp''"
  "level2IndexFileName i \<noteq> segmentIndexFileName @ ''.tmp''"
  "level2IndexFileName j \<noteq> level2IndexFileName i @ ''.tmp''"
  "index_file (level2IndexFileName i)" "index_file (level2IndexFileName i @ ''.tmp'')"
  "index_file segmentIndexFileName" "index_file (segmentIndexFileName @ ''.tmp'')"
  "is_level2_name segmentIndexFileName = False"
proof -
  have "last (level2IndexFileName j) = last (decimal (unat j))" by (simp add: level2IndexFileName_def Let_def)
  then have "last (level2IndexFileName j) \<noteq> CHR ''p''" using last_decimal [of "unat j"] by auto
  moreover have "last (level2IndexFileName i @ ''.tmp'') = CHR ''p''" by simp
  ultimately show "level2IndexFileName j \<noteq> level2IndexFileName i @ ''.tmp''" by metis
qed (simp_all add: level2IndexFileName_def segmentIndexFileName_def index_file_def is_level2_name_def Let_def)

lemma level2_index_file: "is_level2_name n \<Longrightarrow> index_file n"
proof -
  assume "is_level2_name n"
  then have "take 14 n = ''index.meta.l2.''" by (simp add: is_level2_name_def)
  then have "take 10 (take 14 n) = ''index.meta''" by simp
  then show "index_file n" by (simp add: index_file_def)
qed

section \<open>What the files of a folder hold\<close>

definition file_holds :: "index_config \<Rightarrow> folder \<Rightarrow> string \<Rightarrow> bytes \<Rightarrow> bool" where
  "file_holds cfg files path data \<longleftrightarrow> readSegmentIndexFile cfg files path = Inr data"

definition raw_ok :: "index_config \<Rightarrow> bytes \<Rightarrow> bool" where
  "raw_ok cfg data \<longleftrightarrow> zstd_laws (ic_zstd cfg) \<and> length data < 2 ^ 32 \<and> 4 \<le> length data \<and> Uint32 data \<noteq> compressedMetadataMagic"

lemma decode_encode_file: "raw_ok cfg data \<Longrightarrow> decodeSegmentIndexFileData cfg (encodeSegmentIndexFileData cfg data) = Inr data"
  using metadata_block_roundtrip [of "ic_zstd cfg" data]
  by (auto simp: raw_ok_def decodeSegmentIndexFileData_def encodeSegmentIndexFileData_def)
    (simp_all add: maybeDecodeCompressedMetadataBlock_def)

lemma write_holds: "raw_ok cfg data \<Longrightarrow> file_holds cfg (writeSegmentIndexFileIfChanged cfg files path data) path data"
  by (simp add: file_holds_def readSegmentIndexFile_def writeSegmentIndexFileIfChanged_def writeFileIfChanged_def
      writeFileAtomic_def decode_encode_file)

lemma write_other [simp]:
  "p \<noteq> path \<Longrightarrow> p \<noteq> path @ ''.tmp'' \<Longrightarrow> writeSegmentIndexFileIfChanged cfg files path data p = files p"
  by (simp add: writeSegmentIndexFileIfChanged_def writeFileIfChanged_def writeFileAtomic_def)

lemma file_holds_cong: "files p = files' p \<Longrightarrow> file_holds cfg files p data = file_holds cfg files' p data"
  by (simp add: file_holds_def readSegmentIndexFile_def)

definition entry_of :: "segmentIndexL1Entry \<Rightarrow> segmentChunkMeta list \<Rightarrow> bool" where
  "entry_of e g \<longleftrightarrow> g \<noteq> [] \<and> l1_KeyStart e = KeyStart (g ! 0) \<and> l1_ChunkCount e = word_of_nat (length g)"

definition ids_ok :: "u32 \<Rightarrow> u32 list \<Rightarrow> bool" where
  "ids_ok nextID ids \<longleftrightarrow> distinct ids \<and> (\<forall>i \<in> set ids. i \<noteq> 0 \<and> i < nextID)"

definition multi_holds :: "index_config \<Rightarrow> folder \<Rightarrow> segmentIndexL1Entry list \<Rightarrow> segmentChunkMeta list list \<Rightarrow> u32 \<Rightarrow> bool" where
  "multi_holds cfg files es gs nextID \<longleftrightarrow>
     file_holds cfg files segmentIndexFileName (top_bytes nextID es) \<and> list_all2 entry_of es gs \<and>
     (\<forall>i < length es. file_holds cfg files (level2IndexFileName (l1_MetaID (es ! i))) (flat_bytes (gs ! i))) \<and>
     ids_ok nextID (map l1_MetaID es)"

definition metas_ok :: "segmentChunkMeta list \<Rightarrow> bool" where
  "metas_ok ms \<longleftrightarrow> list_all meta_ok ms \<and> starts_ok ms \<and> length ms < 2 ^ 26"

definition index_holds :: "index_config \<Rightarrow> folder \<Rightarrow> segmentChunkMeta list \<Rightarrow> bool" where
  "index_holds cfg files ms \<longleftrightarrow> metas_ok ms \<and> zstd_laws (ic_zstd cfg) \<and>
     (if ms = [] then files segmentIndexFileName = None
      else file_holds cfg files segmentIndexFileName (flat_bytes ms) \<or>
           (\<exists>es gs nextID. multi_holds cfg files es gs nextID \<and> concat gs = ms))"

lemma starts_ok_append: "starts_ok (xs @ ys) \<Longrightarrow> starts_ok xs \<and> starts_ok ys"
  by (auto simp: starts_ok_def sorted_wrt_append)

lemma metas_ok_append: "metas_ok (xs @ ys) \<Longrightarrow> metas_ok xs \<and> metas_ok ys"
  using starts_ok_append [of xs ys] by (auto simp: metas_ok_def)

lemma metas_ok_concat: "metas_ok (concat gs) \<Longrightarrow> g \<in> set gs \<Longrightarrow> metas_ok g"
  by (induction gs) (auto dest: metas_ok_append)

lemma metas_ok_less: "metas_ok ms \<Longrightarrow> length ms < 2 ^ 32"
  by (simp add: metas_ok_def)

lemma flat_raw_ok: "zstd_laws (ic_zstd cfg) \<Longrightarrow> metas_ok ms \<Longrightarrow> raw_ok cfg (flat_bytes ms)"
  by (auto simp: raw_ok_def metas_ok_def length_flat_bytes)
    (simp add: flat_bytes_def segmentIndexFlatMagic_def compressedMetadataMagic_def)

lemma flat_not_multi: "Uint32 (flat_bytes ms) = segmentIndexFlatMagic" "Uint32 (top_bytes n es) = segmentIndexMultiLevelMagic"
  by (simp_all add: flat_bytes_def top_bytes_def)

lemma multi_entries_all:
  "list_all2 entry_of es gs \<Longrightarrow> metas_ok (concat gs) \<Longrightarrow>
   list_all entry_fits es \<and> sorted_wrt (<) (map l1_KeyStart es) \<and> length es \<le> length (concat gs)"
proof (induction es gs rule: list_all2_induct)
  case (Cons e es g gs)
  have m: "metas_ok g" "metas_ok (concat gs)" using Cons.prems metas_ok_append [of g "concat gs"] by auto
  have g: "g \<noteq> []" "l1_KeyStart e = KeyStart (g ! 0)" using Cons(1) by (auto simp: entry_of_def)
  have "meta_ok (g ! 0)" using m(1) g(1) by (cases g) (auto simp: metas_ok_def)
  then have fits: "entry_fits e" using g(2) by (simp add: entry_fits_def meta_ok_def)
  have "KeyStart (g ! 0) < l1_KeyStart e'" if mem: "e' \<in> set es" for e'
  proof -
    obtain i where i: "i < length es" "e' = es ! i" using mem unfolding in_set_conv_nth by blast
    then have "entry_of e' (gs ! i)" "gs ! i \<in> set gs" using Cons(2) by (auto simp: list_all2_conv_all_nth)
    then have z: "gs ! i ! 0 \<in> set (gs ! i)" "gs ! i \<in> set gs" "l1_KeyStart e' = KeyStart (gs ! i ! 0)"
      by (simp_all add: entry_of_def)
    then have h: "gs ! i ! 0 \<in> set (concat gs)" "l1_KeyStart e' = KeyStart (gs ! i ! 0)"
      unfolding set_concat by blast+
    have "sorted_wrt (<) (map KeyStart (g @ concat gs))" using Cons.prems by (simp add: metas_ok_def starts_ok_def)
    then show ?thesis using g(1) h by (auto simp: sorted_wrt_append)
  qed
  moreover have "Suc (length es) \<le> length g + length (concat gs)" using Cons.IH [OF m(2)] g(1) by (cases g) auto
  ultimately show ?case using Cons.IH [OF m(2)] fits g(2) by simp
qed simp

lemma multi_entries:
  assumes "list_all2 entry_of es gs" "metas_ok (concat gs)"
  shows "list_all entry_fits es" "sorted_wrt (<) (map l1_KeyStart es)" "length es \<le> length (concat gs)"
  using multi_entries_all [OF assms] by auto

lemma top_raw_ok:
  assumes "zstd_laws (ic_zstd cfg)" "list_all entry_fits es" "length es < 2 ^ 26"
  shows "raw_ok cfg (top_bytes n es)"
proof -
  have "length (concat (map l1_bytes es)) = 41 * length es"
    using assms(2) by (induction es) (simp_all add: length_l1_bytes)
  then show ?thesis using assms by (auto simp: raw_ok_def flat_not_multi segmentIndexMultiLevelMagic_def compressedMetadataMagic_def)
    (simp_all add: top_bytes_def)
qed

lemma load_flat:
  "file_holds cfg files segmentIndexFileName (flat_bytes ms) \<Longrightarrow>
   loadSegmentIndexLayout cfg files =
     Inr \<lparr>sl_mode = indexLayoutFlat, sl_entries = [], sl_nextMetaID = 1, sl_flatData = flat_bytes ms\<rparr>"
  by (simp add: loadSegmentIndexLayout_def file_holds_def flat_not_multi segmentIndexFlatMagic_def segmentIndexMultiLevelMagic_def)
    (simp add: flat_bytes_def)

lemma load_multi:
  assumes "multi_holds cfg files es gs nextID" "metas_ok (concat gs)" "concat gs \<noteq> []"
  shows "loadSegmentIndexLayout cfg files =
     Inr \<lparr>sl_mode = indexLayoutMultiLevel, sl_entries = es, sl_nextMetaID = nextID, sl_flatData = []\<rparr>"
proof -
  have e: "list_all2 entry_of es gs" using assms(1) by (simp add: multi_holds_def)
  note m = multi_entries [OF e assms(2)]
  have "es \<noteq> []" using e assms(3) by auto
  then have "nextID \<noteq> 0" using assms(1) by (cases es) (auto simp: multi_holds_def ids_ok_def)
  moreover have "length es < 2 ^ 32" using m(3) assms(2) by (simp add: metas_ok_def)
  ultimately show ?thesis
    using parse_top [OF m(1)] normalize_l1_sorted [OF m(2)] assms(1)
    by (simp add: loadSegmentIndexLayout_def multi_holds_def file_holds_def flat_not_multi) (simp add: top_bytes_def)
qed

section \<open>Readers\<close>

lemma read_shards_groups:
  "\<forall>i < length es. file_holds cfg files (level2IndexFileName (l1_MetaID (es ! i))) (flat_bytes (gs ! i)) \<Longrightarrow>
   length es = length gs \<Longrightarrow> \<forall>g \<in> set gs. metas_ok g \<Longrightarrow> read_shards cfg files es = Inr (concat gs)"
proof (induction es arbitrary: gs)
  case (Cons e es)
  then obtain g gs' where gs: "gs = g # gs'" by (cases gs) auto
  have f: "readSegmentIndexFile cfg files (level2IndexFileName (l1_MetaID e)) = Inr (flat_bytes g)"
    using Cons.prems(1) by (auto simp: gs file_holds_def)
  have "\<forall>i < length es. file_holds cfg files (level2IndexFileName (l1_MetaID (es ! i))) (flat_bytes (gs' ! i))"
    using Cons.prems(1) by (force simp: gs)
  then have "read_shards cfg files es = Inr (concat gs')" using Cons.IH [of gs'] Cons.prems gs by simp
  moreover have "decodeSegmentIndexBuffer (flat_bytes g) = Inr g"
    using Cons.prems(3) decode_flat [of g] metas_ok_less [of g] by (simp add: gs metas_ok_def)
  ultimately show ?case by (simp add: f gs)
qed simp

lemma decode_metas_ok: "metas_ok ms \<Longrightarrow> decodeSegmentIndexBuffer (flat_bytes ms) = Inr ms"
  using decode_flat [of ms] metas_ok_less [of ms] by (simp add: metas_ok_def)

lemma flat_bytes_not_Nil [simp]: "flat_bytes ms \<noteq> []"
  by (simp add: flat_bytes_def)

lemma readSegmentIndex_holds:
  assumes h: "index_holds cfg files ms" and ne: "ms \<noteq> []"
  shows "readSegmentIndex cfg files = Inr ms"
proof -
  have ok: "metas_ok ms" using h by (simp add: index_holds_def)
  consider (flat) "file_holds cfg files segmentIndexFileName (flat_bytes ms)"
    | (multi) es gs nextID where "multi_holds cfg files es gs nextID" "concat gs = ms"
    using h ne by (auto simp: index_holds_def)
  then show ?thesis
  proof cases
    case flat
    then show ?thesis by (simp add: readSegmentIndex_def load_flat flat_data_def decode_metas_ok [OF ok])
  next
    case multi
    have gs: "\<forall>g \<in> set gs. metas_ok g" using metas_ok_concat [of gs] ok multi(2) by blast
    have "read_shards cfg files es = Inr (concat gs)"
      by (rule read_shards_groups) (use multi(1) gs in \<open>auto simp: multi_holds_def dest: list_all2_lengthD\<close>)
    then show ?thesis using load_multi [OF multi(1)] multi(2) ok ne by (simp add: readSegmentIndex_def)
  qed
qed

lemma readSegmentIndex_empty:
  "index_holds cfg files [] \<Longrightarrow> readSegmentIndex cfg files = Inl IndexFileMissing"
  by (simp add: index_holds_def readSegmentIndex_def loadSegmentIndexLayout_def readSegmentIndexFile_def flat_data_def)

lemma chunk_pos_app:
  assumes "\<forall>m \<in> set a. KeyStart m \<le> key" "b = [] \<or> \<not> KeyStart (hd b) \<le> key"
  shows "chunk_pos (a @ g @ b) key = length a + chunk_pos g key"
proof -
  have "takeWhile (\<lambda>m. KeyStart m \<le> key) (g @ b) = takeWhile (\<lambda>m. KeyStart m \<le> key) g"
    using assms(2) by (induction g) (cases b, auto)
  then show ?thesis using assms(1) by (simp add: chunk_pos_def takeWhile_append)
qed

lemma select_middle:
  assumes "\<forall>m \<in> set a. KeyStart m \<le> key" "b = [] \<or> \<not> KeyStart (hd b) \<le> key" "g \<noteq> []" "KeyStart (g ! 0) \<le> key"
  shows "select_ref (a @ g @ b) key = select_ref g key \<and> select_ref g key \<noteq> None"
proof -
  have p: "0 < chunk_pos g key" using assms(3,4) by (cases g) (auto simp: chunk_pos_def)
  moreover have "chunk_pos g key \<le> length g" by (simp add: chunk_pos_def length_takeWhile_le)
  ultimately have "(a @ g @ b) ! (length a + chunk_pos g key - 1) = g ! (chunk_pos g key - 1)"
    by (simp add: nth_append)
  then show ?thesis using p by (simp add: select_ref_def chunk_pos_app [OF assms(1,2)])
qed

lemma upperBoundL1_pos:
  assumes "sorted_wrt (<) (map l1_KeyStart es)"
  shows "\<exists>r \<le> length es. upperBoundSegmentIndexL1Entries es key = r \<and>
     (\<forall>i < r. l1_KeyStart (es ! i) \<le> key) \<and> (\<forall>i. r \<le> i \<and> i < length es \<longrightarrow> \<not> l1_KeyStart (es ! i) \<le> key)"
proof -
  have s: "i < j \<Longrightarrow> j < length es \<Longrightarrow> l1_KeyStart (es ! i) < l1_KeyStart (es ! j)" for i j
    using assms by (simp add: sorted_wrt_iff_nth_less)
  have nil: "([] :: bytes) \<le> k" for k by simp
  let ?f = "\<lambda>mid. \<not> (l1_KeyStart (es ! mid) = [] \<or> l1_KeyStart (es ! mid) \<le> key)"
  have "\<forall>a b. a \<le> b \<and> b < length es \<and> ?f a \<longrightarrow> ?f b"
  proof (intro allI impI, elim conjE)
    fix a b assume ab: "a \<le> b" "b < length es" and f: "?f a"
    have "l1_KeyStart (es ! a) \<le> l1_KeyStart (es ! b)" using s [of a b] ab by (cases "a = b") auto
    then have "\<not> l1_KeyStart (es ! b) \<le> key" using f by auto
    then show "?f b" using nil [of key] by auto
  qed
  note sp = sort_Search_spec [OF this, unfolded sort_Search_def, folded upperBoundSegmentIndexL1Entries_def]
  show ?thesis using sp nil by (intro exI [of _ "upperBoundSegmentIndexL1Entries es key"]) fastforce
qed

lemma select_metas_ok: "metas_ok ms \<Longrightarrow> key \<noteq> [] \<Longrightarrow> selectSegmentChunkMeta ms key = select_ref ms key"
  by (simp add: selectSegmentChunkMeta_ref metas_ok_def)

lemma select_single:
  "select_ref ms key = Some m \<Longrightarrow> metas_ok ms \<Longrightarrow> key \<noteq> [] \<Longrightarrow> selectSegmentChunkMeta [m] key = Some m"
proof -
  assume s: "select_ref ms key = Some m" and ok: "metas_ok ms" and k: "key \<noteq> []"
  then have p: "0 < chunk_pos ms key" "m = ms ! (chunk_pos ms key - 1)" by (auto simp: select_ref_def Let_def split: if_splits)
  have st: "starts_ok ms" using ok by (simp add: metas_ok_def)
  have le: "KeyStart m \<le> key" using chunk_pos_props(2) [OF st, of "chunk_pos ms key - 1" key] p by simp
  have "m \<in> set ms" using p chunk_pos_props(1) [OF st, of key] by simp
  then have "starts_ok [m]" using st by (auto simp: starts_ok_def)
  then show ?thesis using le k by (simp add: selectSegmentChunkMeta_ref select_ref_def chunk_pos_def)
qed

lemma multi_split:
  assumes e: "list_all2 entry_of es gs" and ok: "metas_ok (concat gs)" and r: "0 < r" "r \<le> length es"
    and le: "l1_KeyStart (es ! (r - 1)) \<le> key"
    and gt: "\<forall>i. r \<le> i \<and> i < length es \<longrightarrow> \<not> l1_KeyStart (es ! i) \<le> key"
  shows "select_ref (concat gs) key = select_ref (gs ! (r - 1)) key \<and> select_ref (gs ! (r - 1)) key \<noteq> None"
proof -
  let ?a = "concat (take (r - 1) gs)" and ?g = "gs ! (r - 1)" and ?b = "concat (drop r gs)"
  have len: "length es = length gs" and nth: "\<And>i. i < length gs \<Longrightarrow> entry_of (es ! i) (gs ! i)"
    using e by (auto simp: list_all2_conv_all_nth)
  have "gs = take (r - 1) gs @ ?g # drop (Suc (r - 1)) gs" using r len by (intro id_take_nth_drop) auto
  then have "concat gs = concat (take (r - 1) gs @ ?g # drop (Suc (r - 1)) gs)" by (rule arg_cong)
  then have c: "concat gs = ?a @ ?g @ ?b" using r by simp
  have g: "?g \<noteq> []" "KeyStart (?g ! 0) \<le> key" using nth [of "r - 1"] le r len by (auto simp: entry_of_def)
  have "sorted_wrt (<) (map KeyStart (?a @ ?g @ ?b))" using ok unfolding c [symmetric] by (simp add: metas_ok_def starts_ok_def)
  then have "\<forall>x \<in> set (map KeyStart ?a). \<forall>y \<in> set (map KeyStart (?g @ ?b)). x < y"
    unfolding map_append sorted_wrt_append by blast
  moreover have "KeyStart (?g ! 0) \<in> set (map KeyStart (?g @ ?b))" using g(1) by simp
  ultimately have "\<forall>m \<in> set ?a. KeyStart m < KeyStart (?g ! 0)" by simp
  then have "\<forall>m \<in> set ?a. KeyStart m \<le> key" using g(2) by (meson less_le_trans less_imp_le)
  moreover have "?b = [] \<or> \<not> KeyStart (hd ?b) \<le> key"
  proof (cases "r < length gs")
    case True
    then have d: "drop r gs = gs ! r # drop (Suc r) gs" by (simp add: Cons_nth_drop_Suc)
    have "gs ! r \<noteq> []" "l1_KeyStart (es ! r) = KeyStart (gs ! r ! 0)" using nth [OF True] by (auto simp: entry_of_def)
    then show ?thesis using gt True len by (auto simp: d hd_append hd_conv_nth)
  qed simp
  ultimately show ?thesis unfolding c using g by (intro select_middle) auto
qed

lemma readForKey_holds:
  assumes h: "index_holds cfg files ms" and ne: "ms \<noteq> []" and k: "key \<noteq> []"
  shows "case readSegmentIndexForKey cfg files key of
      Inr metas \<Rightarrow> selectSegmentChunkMeta metas key = select_ref ms key
    | Inl e \<Rightarrow> e = IndexEntryNotFound \<and> select_ref ms key = None"
proof -
  have ok: "metas_ok ms" using h by (simp add: index_holds_def)
  have st: "starts_ok ms" using ok by (simp add: metas_ok_def)
  note full = readSegmentIndex_holds [OF h ne]
  consider (flat) "file_holds cfg files segmentIndexFileName (flat_bytes ms)"
    | (multi) es gs nextID where "multi_holds cfg files es gs nextID" "concat gs = ms"
    using h ne by (auto simp: index_holds_def)
  then show ?thesis
  proof cases
    case flat
    have "selectFixedFlatSegmentIndexMeta (flat_bytes ms) key = Inr (select_ref ms key)"
      using select_flat [of ms key] ok metas_ok_less [OF ok] by (simp add: metas_ok_def)
    then show ?thesis using k select_metas_ok [OF ok k] select_single [OF _ ok k]
      by (simp add: readSegmentIndexForKey_def load_flat [OF flat] flat_data_def full split: option.split)
  next
    case multi
    have e: "list_all2 entry_of es gs" using multi(1) by (simp add: multi_holds_def)
    have okc: "metas_ok (concat gs)" using ok multi(2) by simp
    note load = load_multi [OF multi(1) okc, unfolded multi(2), OF ne]
    obtain r where r: "r \<le> length es" "upperBoundSegmentIndexL1Entries es key = r"
      "\<forall>i < r. l1_KeyStart (es ! i) \<le> key" "\<forall>i. r \<le> i \<and> i < length es \<longrightarrow> \<not> l1_KeyStart (es ! i) \<le> key"
      using upperBoundL1_pos [OF multi_entries(2) [OF e okc], of key] by blast
    have es: "es \<noteq> []" using e multi(2) ne by auto
    show ?thesis
    proof (cases "r = 0")
      case True
      have "entry_of (es ! 0) (gs ! 0)" "gs \<noteq> []" using e es by (auto simp: list_all2_conv_all_nth)
      then have "hd ms = gs ! 0 ! 0" "l1_KeyStart (es ! 0) = KeyStart (gs ! 0 ! 0)"
        using multi(2) by (cases gs; auto simp: entry_of_def hd_append hd_conv_nth)+
      moreover have "\<not> l1_KeyStart (es ! 0) \<le> key" using r(4) True es by simp
      ultimately have "select_ref ms key = None" using ne by (cases ms) (auto simp: select_ref_def chunk_pos_def)
      then show ?thesis using k es r(2) True by (simp add: readSegmentIndexForKey_def load selectSegmentL1Entry_def)
    next
      case False
      let ?g = "gs ! (r - 1)"
      have lt: "r - 1 < length es" using r(1) False by simp
      have sel: "selectSegmentL1Entry es key = Some (es ! (r - 1))" using es k r(2) False by (simp add: selectSegmentL1Entry_def)
      have split: "select_ref ms key = select_ref ?g key" "select_ref ?g key \<noteq> None"
        using multi_split [OF e okc _ r(1), of key] r(3,4) False lt multi(2) by auto
      have g: "metas_ok ?g" using metas_ok_concat [OF okc, of ?g] lt e by (auto dest: list_all2_lengthD)
      have "readSegmentIndexFile cfg files (level2IndexFileName (l1_MetaID (es ! (r - 1)))) = Inr (flat_bytes ?g)"
        using multi(1) lt by (auto simp: multi_holds_def file_holds_def)
      then show ?thesis using k sel split select_metas_ok [OF g k] decode_metas_ok [OF g]
        by (auto simp: readSegmentIndexForKey_def load)
    qed
  qed
qed

section \<open>The writer\<close>

lemma assign_ids_props:
  "ids_ok nextID (map l1_MetaID es) \<Longrightarrow> nextID \<noteq> 0 \<Longrightarrow> unat nextID + length groups < 2 ^ 32 \<Longrightarrow>
   assign_ids es nextID groups = (ids, nextID') \<Longrightarrow>
   length ids = length groups \<and> ids_ok nextID' ids \<and> unat nextID \<le> unat nextID' \<and>
   unat nextID' \<le> unat nextID + length groups \<and>
   (\<forall>i \<in> set ids. i \<in> set (map l1_MetaID es) \<or> nextID \<le> i)"
proof (induction es nextID groups arbitrary: ids nextID' rule: assign_ids.induct)
  case (1 es nextID)
  then show ?case by (simp add: ids_ok_def)
next
  case (2 es nextID g groups)
  have inc: "unat (nextID + 1) = Suc (unat nextID)"
    using "2.prems"(3) by (simp add: unat_word_ariths)
  show ?case
  proof (cases es)
    case Nil
    obtain ids1 n1 where r: "assign_ids [] (nextID + 1) groups = (ids1, n1)" by fastforce
    then have ids: "ids = nextID # ids1" "nextID' = n1" using "2.prems"(4) Nil by auto
    have nz: "nextID + 1 \<noteq> 0" using inc by (metis unat_0 nat.distinct(1))
    have "length ids1 = length groups \<and> ids_ok n1 ids1 \<and> unat (nextID + 1) \<le> unat n1 \<and>
        unat n1 \<le> unat (nextID + 1) + length groups \<and> (\<forall>i \<in> set ids1. i \<in> set (map l1_MetaID []) \<or> nextID + 1 \<le> i)"
      using "2.IH" [of 0 "(nextID, nextID + 1)" nextID "nextID + 1" ids1 n1] Nil r nz inc "2.prems"(3)
      by (simp add: ids_ok_def)
    then show ?thesis using ids inc "2.prems"(2)
      by (auto simp: ids_ok_def word_le_nat_alt word_less_nat_alt)
  next
    case (Cons e es')
    have e0: "l1_MetaID e \<noteq> 0" "l1_MetaID e < nextID" "l1_MetaID e \<notin> set (map l1_MetaID es')"
      and es': "ids_ok nextID (map l1_MetaID es')" using "2.prems"(1) by (auto simp: Cons ids_ok_def)
    obtain ids1 n1 where r: "assign_ids es' nextID groups = (ids1, n1)" by fastforce
    then have ids: "ids = l1_MetaID e # ids1" "nextID' = n1" using "2.prems"(4) Cons e0 by auto
    have "length ids1 = length groups \<and> ids_ok n1 ids1 \<and> unat nextID \<le> unat n1 \<and>
        unat n1 \<le> unat nextID + length groups \<and> (\<forall>i \<in> set ids1. i \<in> set (map l1_MetaID es') \<or> nextID \<le> i)"
      using "2.IH" [of "l1_MetaID e" "(l1_MetaID e, nextID)" "l1_MetaID e" nextID ids1 n1] Cons r es' e0 "2.prems"(2,3)
      by simp
    then show ?thesis using ids e0
      by (auto simp: Cons ids_ok_def word_le_nat_alt word_less_nat_alt)
  qed
qed

lemma split_metas_concat: "concat (split_metas l2 grp sz ms) = grp @ ms"
  by (induction l2 grp sz ms rule: split_metas.induct) (auto simp: Let_def)

lemma split_metas_not_Nil: "[] \<notin> set (split_metas l2 grp sz ms)"
  by (induction ms arbitrary: grp sz) (auto simp: Let_def)

lemma group_by_counts_props:
  "sum_list (map (\<lambda>e. unat (l1_ChunkCount e)) es) = length ms \<Longrightarrow> \<forall>e \<in> set es. l1_ChunkCount e \<noteq> 0 \<Longrightarrow>
   concat (group_by_counts es ms) = ms \<and> (\<forall>g \<in> set (group_by_counts es ms). g \<noteq> []) \<and> length (group_by_counts es ms) = length es"
proof (induction es ms rule: group_by_counts.induct)
  case (2 e es ms)
  have "0 < unat (l1_ChunkCount e)" using "2.prems"(2) by (simp add: unat_gt_0)
  moreover have "sum_list (map (\<lambda>e. unat (l1_ChunkCount e)) es) = length (drop (unat (l1_ChunkCount e)) ms)"
    using "2.prems"(1) by simp
  moreover have "ms \<noteq> []" using calculation(1) "2.prems"(1) by (cases ms) auto
  ultimately show ?case using "2.IH" "2.prems"(2) by auto
qed simp

lemma index_groups_props:
  assumes "ms \<noteq> []" "\<forall>e \<in> set (sl_entries l). l1_ChunkCount e \<noteq> 0"
  shows "concat (index_groups cfg l ms) = ms" "\<forall>g \<in> set (index_groups cfg l ms). g \<noteq> []"
proof -
  let ?c = "sl_entries l \<noteq> [] \<and> sum_list (map (\<lambda>e. unat (l1_ChunkCount e)) (sl_entries l)) = length ms"
  have s: "concat (splitSegmentMetas (ic_level2Size cfg) ms) = ms" "\<forall>g \<in> set (splitSegmentMetas (ic_level2Size cfg) ms). g \<noteq> []"
    using split_metas_concat [of "ic_level2Size cfg" "[]" 4 ms] split_metas_not_Nil [of "ic_level2Size cfg" "[]" 4 ms]
    unfolding splitSegmentMetas_def by auto
  have ne: "splitSegmentMetas (ic_level2Size cfg) ms \<noteq> []" using s(1) assms(1) by auto
  have "index_groups cfg l ms = group_by_counts (sl_entries l) ms \<or> index_groups cfg l ms = splitSegmentMetas (ic_level2Size cfg) ms"
    and "\<not> ?c \<Longrightarrow> index_groups cfg l ms = splitSegmentMetas (ic_level2Size cfg) ms"
    using ne by (auto simp: index_groups_def Let_def)
  then consider "index_groups cfg l ms = splitSegmentMetas (ic_level2Size cfg) ms"
    | ?c "index_groups cfg l ms = group_by_counts (sl_entries l) ms" by blast
  then have "concat (index_groups cfg l ms) = ms \<and> (\<forall>g \<in> set (index_groups cfg l ms). g \<noteq> [])"
  proof cases
    case 1
    then show ?thesis using s by simp
  next
    case 2
    then show ?thesis using group_by_counts_props [OF conjunct2 [OF 2(1)] assms(2)] by simp
  qed
  then show "concat (index_groups cfg l ms) = ms" "\<forall>g \<in> set (index_groups cfg l ms). g \<noteq> []" by auto
qed

lemma write_shards_holds:
  assumes z: "zstd_laws (ic_zstd cfg)"
  shows "length ids = length gs \<Longrightarrow> distinct ids \<Longrightarrow> \<forall>g \<in> set gs. g \<noteq> [] \<and> metas_ok g \<Longrightarrow>
   \<exists>files' es. write_shards cfg files (zip ids gs) = (files', Inr es) \<and> map l1_MetaID es = ids \<and> list_all2 entry_of es gs \<and>
     (\<forall>i < length gs. file_holds cfg files' (level2IndexFileName (ids ! i)) (flat_bytes (gs ! i))) \<and>
     (\<forall>p. (\<forall>i \<in> set ids. p \<noteq> level2IndexFileName i \<and> p \<noteq> level2IndexFileName i @ ''.tmp'') \<longrightarrow> files' p = files p)"
proof (induction gs arbitrary: ids files)
  case (Cons g gs)
  then obtain i ids1 where ids: "ids = i # ids1" by (cases ids) auto
  define files1 where "files1 = writeSegmentIndexFileIfChanged cfg files (level2IndexFileName i) (flat_bytes g)"
  have g: "g \<noteq> []" "metas_ok g" and gs: "\<forall>g \<in> set gs. g \<noteq> [] \<and> metas_ok g" using Cons.prems(3) by auto
  obtain files' es where r: "write_shards cfg files1 (zip ids1 gs) = (files', Inr es)" "map l1_MetaID es = ids1"
    "list_all2 entry_of es gs" "\<forall>k < length gs. file_holds cfg files' (level2IndexFileName (ids1 ! k)) (flat_bytes (gs ! k))"
    "\<forall>p. (\<forall>i \<in> set ids1. p \<noteq> level2IndexFileName i \<and> p \<noteq> level2IndexFileName i @ ''.tmp'') \<longrightarrow> files' p = files1 p"
    using Cons.IH [of ids1 files1] Cons.prems gs by (auto simp: ids)
  have e: "encodeSegmentChunkMetas g = Inr (flat_bytes g)" using g(2) by (simp add: encode_flat metas_ok_def)
  let ?e = "\<lparr>l1_MetaID = i, l1_KeyStart = KeyStart (g ! 0), l1_ChunkCount = word_of_nat (length g)\<rparr>"
  have w: "write_shards cfg files (zip ids (g # gs)) = (files', Inr (?e # es))"
    using g(1) e r(1) by (simp add: ids files1_def)
  have "files' (level2IndexFileName i) = files1 (level2IndexFileName i)"
    by (rule r(5) [rule_format]) (use Cons.prems(2) in \<open>auto simp: ids\<close>)
  then have h: "file_holds cfg files' (level2IndexFileName i) (flat_bytes g)"
    using write_holds [OF flat_raw_ok [OF z g(2)], of files "level2IndexFileName i"] file_holds_cong [of files' _ files1]
    by (simp add: files1_def)
  have "\<forall>k < length (g # gs). file_holds cfg files' (level2IndexFileName (ids ! k)) (flat_bytes ((g # gs) ! k))"
    using h r(4) by (auto simp: ids less_Suc_eq_0_disj)
  moreover have "files' p = files p"
    if "\<forall>i \<in> set ids. p \<noteq> level2IndexFileName i \<and> p \<noteq> level2IndexFileName i @ ''.tmp''" for p
    using r(5) that by (simp add: ids files1_def)
  moreover have "entry_of ?e g" using g(1) by (simp add: entry_of_def)
  ultimately show ?case using w r(2,3) by (intro exI [of _ files'] exI [of _ "?e # es"]) (simp add: ids)
qed (auto intro!: exI [of _ "[]"])

lemma remove_all_other: "p \<notin> set names \<Longrightarrow> remove_all names files p = files p"
  by (induction names arbitrary: files) (auto simp: remove_all_def)

lemma removeStale_other:
  "\<forall>e \<in> set es. l1_MetaID e \<notin> set keep \<longrightarrow> p \<noteq> level2IndexFileName (l1_MetaID e) \<Longrightarrow>
   removeStaleLevel2IndexFiles files es keep p = files p"
  unfolding removeStaleLevel2IndexFiles_def by (rule remove_all_other) auto

lemma drop_level2_other: "\<not> is_level2_name p \<Longrightarrow> (\<And>i. p \<noteq> level2IndexFileName i) \<Longrightarrow> drop_level2 es files p = files p"
  by (auto simp: drop_level2_def removeLevel2IndexFiles_def intro: removeStale_other)

lemma drop_level2_frame: "\<not> index_file p \<Longrightarrow> drop_level2 es files p = files p"
  by (rule drop_level2_other) (auto dest: level2_index_file)

lemma drop_level2_index: "drop_level2 es files segmentIndexFileName = files segmentIndexFileName"
  by (rule drop_level2_other) auto

definition id_bound :: "index_config \<Rightarrow> folder \<Rightarrow> nat \<Rightarrow> bool" where
  "id_bound cfg files n \<longleftrightarrow>
     0 < n \<and> (case loadSegmentIndexLayout cfg files of Inr l \<Rightarrow> unat (sl_nextMetaID l) \<le> n | Inl _ \<Rightarrow> False)"

definition old_layout_ok :: "segmentIndexLayout \<Rightarrow> bool" where
  "old_layout_ok l \<longleftrightarrow> ids_ok (sl_nextMetaID l) (map l1_MetaID (sl_entries l)) \<and> sl_nextMetaID l \<noteq> 0 \<and>
     (\<forall>e \<in> set (sl_entries l). l1_ChunkCount e \<noteq> 0)"

lemma index_holds_layout:
  assumes "index_holds cfg files old"
  shows "\<exists>l. loadSegmentIndexLayout cfg files = Inr l \<and> old_layout_ok l \<and>
     (sl_mode l = indexLayoutMultiLevel \<longrightarrow>
        file_holds cfg files segmentIndexFileName (top_bytes (sl_nextMetaID l) (sl_entries l)))"
proof -
  have ok: "metas_ok old" using assms by (simp add: index_holds_def)
  consider (none) "files segmentIndexFileName = None"
    | (flat) "file_holds cfg files segmentIndexFileName (flat_bytes old)"
    | (multi) es gs nextID where "multi_holds cfg files es gs nextID" "concat gs = old" "old \<noteq> []"
    using assms by (auto simp: index_holds_def split: if_splits)
  then show ?thesis
  proof cases
    case none
    then show ?thesis by (simp add: loadSegmentIndexLayout_def readSegmentIndexFile_def old_layout_ok_def ids_ok_def)
  next
    case flat
    then show ?thesis by (simp add: load_flat old_layout_ok_def ids_ok_def)
  next
    case multi
    have e: "list_all2 entry_of es gs" using multi(1) by (simp add: multi_holds_def)
    have okc: "metas_ok (concat gs)" using ok multi(2) by simp
    have "l1_ChunkCount x \<noteq> 0" if mem: "x \<in> set es" for x
    proof -
      obtain i where i: "i < length es" "x = es ! i" using mem unfolding in_set_conv_nth by blast
      then have g: "entry_of x (gs ! i)" "gs ! i \<in> set gs" using e by (auto simp: list_all2_conv_all_nth)
      then have "metas_ok (gs ! i)" using metas_ok_concat [OF okc] by blast
      then have "unat (word_of_nat (length (gs ! i)) :: u32) = length (gs ! i)"
        using metas_ok_less [of "gs ! i"] by (simp add: unat_of_nat)
      then show ?thesis using g(1) by (auto simp: entry_of_def)
    qed
    moreover have "es \<noteq> []" using e multi(2,3) by auto
    then have "nextID \<noteq> 0" using multi(1) by (cases es) (auto simp: multi_holds_def ids_ok_def)
    ultimately show ?thesis
      using load_multi [OF multi(1) okc] multi by (simp add: old_layout_ok_def multi_holds_def)
  qed
qed

lemma length_concat_ge: "\<forall>g \<in> set gs. g \<noteq> [] \<Longrightarrow> length gs \<le> length (concat gs)"
proof (induction gs)
  case (Cons g gs)
  then show ?case by (cases g) auto
qed simp

lemma writeMulti_holds:
  assumes old: "index_holds cfg files old" and ms: "metas_ok ms" "ms \<noteq> []"
    and room: "id_bound cfg files N" "N + length ms < 2 ^ 32"
  shows "\<exists>files'. writeMultiLevelIndex cfg ms files = (None, files') \<and> index_holds cfg files' ms \<and>
     id_bound cfg files' (N + length ms) \<and> (\<forall>p. \<not> index_file p \<longrightarrow> files' p = files p)"
proof -
  have z: "zstd_laws (ic_zstd cfg)" using old by (simp add: index_holds_def)
  obtain l0 where l0: "loadSegmentIndexLayout cfg files = Inr l0" "old_layout_ok l0"
    "sl_mode l0 = indexLayoutMultiLevel \<Longrightarrow> file_holds cfg files segmentIndexFileName (top_bytes (sl_nextMetaID l0) (sl_entries l0))"
    using index_holds_layout [OF old] by blast
  define l where "l = (if sl_mode l0 \<noteq> indexLayoutMultiLevel
      then \<lparr>sl_mode = indexLayoutMultiLevel, sl_entries = [], sl_nextMetaID = 1, sl_flatData = []\<rparr> else l0)"
  have l: "old_layout_ok l" "unat (sl_nextMetaID l) \<le> N" "sl_nextMetaID l \<noteq> 0"
    "sl_entries l = [] \<or> file_holds cfg files segmentIndexFileName (top_bytes (sl_nextMetaID l) (sl_entries l))"
    using l0 room(1) by (auto simp: l_def old_layout_ok_def ids_ok_def id_bound_def)
  define gs where "gs = index_groups cfg l ms"
  have gs: "concat gs = ms" "\<forall>g \<in> set gs. g \<noteq> [] \<and> metas_ok g"
    using index_groups_props [OF ms(2), of l cfg] l(1) metas_ok_concat [of gs] ms(1) by (auto simp: gs_def old_layout_ok_def)
  obtain ids nextID where ids: "assign_ids (sl_entries l) (sl_nextMetaID l) gs = (ids, nextID)" by fastforce
  have "length gs \<le> length ms"
    using gs(2) length_concat_ge [of gs] unfolding gs(1) by blast
  then have a: "length ids = length gs" "ids_ok nextID ids" "unat nextID \<le> N + length ms"
    using assign_ids_props [OF _ l(3) _ ids] l(1,2) room(2) by (auto simp: old_layout_ok_def)
  obtain files1 es where w: "write_shards cfg files (zip ids gs) = (files1, Inr es)" "map l1_MetaID es = ids" "list_all2 entry_of es gs"
    "\<forall>i < length gs. file_holds cfg files1 (level2IndexFileName (ids ! i)) (flat_bytes (gs ! i))"
    "\<forall>p. (\<forall>i \<in> set ids. p \<noteq> level2IndexFileName i \<and> p \<noteq> level2IndexFileName i @ ''.tmp'') \<longrightarrow> files1 p = files p"
    using write_shards_holds [OF z a(1) _ gs(2), of files] a(2) by (auto simp: ids_ok_def)
  have okc: "metas_ok (concat gs)" using ms(1) gs(1) by simp
  note e = multi_entries [OF w(3) okc]
  define files2 where "files2 = (if sl_entries l \<noteq> es \<or> sl_nextMetaID l \<noteq> nextID
      then writeSegmentIndexFileIfChanged cfg files1 segmentIndexFileName (top_bytes nextID es) else files1)"
  define files3 where "files3 = removeStaleLevel2IndexFiles files2 (sl_entries l) ids"
  have "encodeTopLevelIndex \<lparr>sl_mode = indexLayoutMultiLevel, sl_entries = es, sl_nextMetaID = nextID, sl_flatData = []\<rparr>
      = Inr (top_bytes nextID es)" using e(1) by (simp add: encode_top)
  then have res: "writeMultiLevelIndex cfg ms files = (None, files3)"
    using l(3) ids w(1) normalize_l1_sorted [OF e(2)]
    by (simp add: writeMultiLevelIndex_def l0(1) l_def [symmetric] gs_def [symmetric] files2_def files3_def)
  have len: "length es = length gs" using w(3) by (rule list_all2_lengthD)
  have "length es < 2 ^ 26" using e(3) gs(1) ms(1) by (simp add: metas_ok_def)
  note raw = top_raw_ok [OF z e(1) this, of nextID]
  have idx1: "files1 segmentIndexFileName = files segmentIndexFileName"
    by (rule w(5) [rule_format]) simp
  have "es \<noteq> []" using len gs(1) ms(2) by auto
  then have top2: "file_holds cfg files2 segmentIndexFileName (top_bytes nextID es)"
    using write_holds [OF raw, of files1 segmentIndexFileName] l(4) file_holds_cong [of files1 segmentIndexFileName files cfg, OF idx1]
    by (auto simp: files2_def)
  have top3: "files3 segmentIndexFileName = files2 segmentIndexFileName"
    unfolding files3_def by (rule removeStale_other) simp
  have "file_holds cfg files3 (level2IndexFileName (l1_MetaID (es ! i))) (flat_bytes (gs ! i))" if i: "i < length es" for i
  proof -
    have m: "l1_MetaID (es ! i) = ids ! i" "ids ! i \<in> set ids" using w(2) i by auto
    have "files2 (level2IndexFileName (ids ! i)) = files1 (level2IndexFileName (ids ! i))" by (simp add: files2_def)
    moreover have "files3 (level2IndexFileName (ids ! i)) = files2 (level2IndexFileName (ids ! i))"
      unfolding files3_def by (rule removeStale_other) (use m(2) in auto)
    ultimately have "files3 (level2IndexFileName (ids ! i)) = files1 (level2IndexFileName (ids ! i))" by simp
    from file_holds_cong [of files3 "level2IndexFileName (ids ! i)" files1 cfg, OF this] show ?thesis using w(4) i len by (simp add: m(1))
  qed
  then have mh: "multi_holds cfg files3 es gs nextID"
    using top2 file_holds_cong [of files3 segmentIndexFileName files2 cfg, OF top3] w(2,3) a(2) by (simp add: multi_holds_def)
  then have "index_holds cfg files3 ms" using ms z gs(1) by (auto simp: index_holds_def)
  moreover have "id_bound cfg files3 (N + length ms)"
    using load_multi [OF mh okc] gs(1) ms(2) a(3) room(1) by (simp add: id_bound_def)
  moreover have "files3 p = files p" if p: "\<not> index_file p" for p
  proof -
    have np: "p \<noteq> level2IndexFileName i" "p \<noteq> level2IndexFileName i @ ''.tmp''" "p \<noteq> segmentIndexFileName"
      "p \<noteq> segmentIndexFileName @ ''.tmp''" for i using p level2_names(7-10) by metis+
    have "files3 p = files2 p" unfolding files3_def by (rule removeStale_other) (use np in auto)
    also have "\<dots> = files1 p" using np by (simp add: files2_def)
    also have "\<dots> = files p" by (rule w(5) [rule_format]) (use np in auto)
    finally show ?thesis .
  qed
  ultimately show ?thesis using res by blast
qed

lemma writeIndex_holds:
  assumes old: "index_holds cfg files old" and ms: "metas_ok (fst (normalizeSegmentChunkMetasOrder ms0))"
    and room: "id_bound cfg files N" "N + length ms0 < 2 ^ 32"
  shows "\<exists>files'. writeSegmentIndexLocked cfg ms0 files = (None, files') \<and>
     index_holds cfg files' (fst (normalizeSegmentChunkMetasOrder ms0)) \<and> id_bound cfg files' (N + length ms0) \<and>
     (\<forall>p. \<not> index_file p \<longrightarrow> files' p = files p)"
proof -
  define ms where "ms = fst (normalizeSegmentChunkMetasOrder ms0)"
  have z: "zstd_laws (ic_zstd cfg)" using old by (simp add: index_holds_def)
  have ok: "metas_ok ms" using ms by (simp add: ms_def)
  have len: "length ms = length ms0" by (simp add: ms_def normalizeSegmentChunkMetasOrder_def)
  have np: "p \<noteq> segmentIndexFileName" "p \<noteq> segmentIndexFileName @ ''.tmp''" if "\<not> index_file p" for p
    using that level2_names(9,10) by metis+
  consider (empty) "ms = []" | (flat) "ms \<noteq> []" "estimateSegmentIndexSize ms \<le> ic_threshold cfg"
    | (multi) "ms \<noteq> []" "\<not> estimateSegmentIndexSize ms \<le> ic_threshold cfg" by blast
  then show ?thesis
  proof cases
    case empty
    have "files' segmentIndexFileName = None \<Longrightarrow> id_bound cfg files' (N + length ms0)" for files'
      using room(1) by (simp add: id_bound_def loadSegmentIndexLayout_def readSegmentIndexFile_def)
    then show ?thesis using empty ok z np
      by (simp add: writeSegmentIndexLocked_def ms_def [symmetric] index_holds_def drop_level2_index drop_level2_frame)
  next
    case flat
    have "encodeSegmentChunkMetas ms = Inr (flat_bytes ms)" using ok by (simp add: encode_flat metas_ok_def)
    moreover have "file_holds cfg (drop_level2 es (writeSegmentIndexFileIfChanged cfg files segmentIndexFileName (flat_bytes ms)))
        segmentIndexFileName (flat_bytes ms)" for es
      using write_holds [OF flat_raw_ok [OF z ok]]
        file_holds_cong [of "drop_level2 es (writeSegmentIndexFileIfChanged cfg files segmentIndexFileName (flat_bytes ms))"
          segmentIndexFileName "writeSegmentIndexFileIfChanged cfg files segmentIndexFileName (flat_bytes ms)" cfg,
          OF drop_level2_index] by blast
    moreover have "file_holds cfg files' segmentIndexFileName (flat_bytes ms) \<Longrightarrow> id_bound cfg files' (N + length ms0)" for files'
      using room(1) by (simp add: id_bound_def load_flat)
    ultimately show ?thesis using flat ok z np
      by (simp add: writeSegmentIndexLocked_def ms_def [symmetric] index_holds_def drop_level2_frame)
  next
    case multi
    then show ?thesis using writeMulti_holds [OF old ok multi(1) room(1)] room(2) len
      by (simp add: writeSegmentIndexLocked_def ms_def [symmetric])
  qed
qed

section \<open>Theorems\<close>

primrec write_indexes :: "index_config \<Rightarrow> segmentChunkMeta list list \<Rightarrow> folder \<Rightarrow> folder" where
  "write_indexes cfg [] files = files"
| "write_indexes cfg (ms # mss) files = write_indexes cfg mss (snd (writeSegmentIndexLocked cfg ms files))"

lemma write_indexes_holds:
  assumes "\<forall>ms \<in> set mss. metas_ok (fst (normalizeSegmentChunkMetasOrder ms))"
  shows "index_holds cfg files old \<Longrightarrow> id_bound cfg files N \<Longrightarrow> N + sum_list (map length mss) < 2 ^ 32 \<Longrightarrow>
     mss \<noteq> [] \<Longrightarrow> index_holds cfg (write_indexes cfg mss files) (fst (normalizeSegmentChunkMetasOrder (last mss)))"
  using assms
proof (induction mss arbitrary: files old N)
  case (Cons ms mss)
  have room: "N + length ms < 2 ^ 32" using Cons.prems(3) by simp
  have ok: "metas_ok (fst (normalizeSegmentChunkMetasOrder ms))" using Cons.prems(5) by simp
  obtain files' where w: "writeSegmentIndexLocked cfg ms files = (None, files')"
    "index_holds cfg files' (fst (normalizeSegmentChunkMetasOrder ms))" "id_bound cfg files' (N + length ms)"
    using writeIndex_holds [OF Cons.prems(1) ok Cons.prems(2) room] by blast
  then show ?case using Cons.IH [OF w(2,3)] Cons.prems(3,5) by (cases mss) (simp_all add: add.assoc)
qed simp

lemma no_index_holds:
  "zstd_laws (ic_zstd cfg) \<Longrightarrow> files segmentIndexFileName = None \<Longrightarrow> index_holds cfg files [] \<and> id_bound cfg files 1"
  by (simp add: index_holds_def metas_ok_def starts_ok_def id_bound_def loadSegmentIndexLayout_def readSegmentIndexFile_def)

text \<open>
  C7. Whatever chunk lists were written to the index of a folder one after another, through flat and
  sharded layouts, compressed or not, the full reader returns the last list in key order, and the
  lookup of a key, which reads one shard or searches the encoded bytes, selects the same chunk as a
  linear search in that list: the last one whose first key is not above the key.
\<close>

theorem index_lookup_as_written:
  assumes "zstd_laws (ic_zstd cfg)" "files segmentIndexFileName = None"
    and "\<forall>ms \<in> set mss. metas_ok (fst (normalizeSegmentChunkMetasOrder ms))" "sum_list (map length mss) < 2 ^ 31"
    and "mss \<noteq> []" "last mss \<noteq> []" "key \<noteq> []"
  shows "let ms = fst (normalizeSegmentChunkMetasOrder (last mss)); files' = write_indexes cfg mss files in
     readSegmentIndex cfg files' = Inr ms \<and>
     (case readSegmentIndexForKey cfg files' key of
        Inr metas \<Rightarrow> selectSegmentChunkMeta metas key = select_ref ms key
      | Inl e \<Rightarrow> e = IndexEntryNotFound \<and> select_ref ms key = None)"
proof -
  let ?ms = "fst (normalizeSegmentChunkMetasOrder (last mss))"
  have h: "index_holds cfg (write_indexes cfg mss files) ?ms"
    using write_indexes_holds [OF assms(3), of cfg files "[]" 1] no_index_holds [of cfg files, OF assms(1,2)] assms(4,5) by simp
  have ne: "?ms \<noteq> []" using assms(6) by (simp add: normalizeSegmentChunkMetasOrder_def) (metis length_0_conv length_sort)
  show ?thesis using readSegmentIndex_holds [OF h ne] readForKey_holds [OF h ne assms(7)] by (simp add: Let_def)
qed

definition example_metas :: "segmentChunkMeta list" where
  "example_metas = [\<lparr>FileName = chunkFileNameForOrdinal 1, KeyStart = [3]\<rparr>, \<lparr>FileName = chunkFileNameForOrdinal 0, KeyStart = [1]\<rparr>,
     \<lparr>FileName = chunkFileNameForOrdinal 2, KeyStart = [7]\<rparr>]"

definition example_config :: index_config where
  "example_config = \<lparr>ic_zstd = toy_zstd, ic_compression = True, ic_level2Size = 50, ic_threshold = 60\<rparr>"

lemma index_lookup_as_written_witness:
  "\<exists>metas. readSegmentIndexForKey example_config (write_indexes example_config [[hd example_metas], example_metas] Map.empty) [5] = Inr metas \<and>
     selectSegmentChunkMeta metas [5] = Some (hd example_metas)"
proof -
  have z: "zstd_laws (ic_zstd example_config)" by (simp add: example_config_def zstd_laws_def toy_zstd_def)
  have s: "fst (normalizeSegmentChunkMetasOrder example_metas) = [example_metas ! 1, example_metas ! 0, example_metas ! 2]"
    by (simp add: example_metas_def normalizeSegmentChunkMetasOrder_def isSegmentChunkMetasOrdered_def lessSegmentChunkMeta_def
        meta_order_def)
  have s1: "fst (normalizeSegmentChunkMetasOrder [hd example_metas]) = [hd example_metas]"
    by (simp add: normalizeSegmentChunkMetasOrder_def)
  have ok: "\<forall>ms \<in> set [[hd example_metas], example_metas]. metas_ok (fst (normalizeSegmentChunkMetasOrder ms))"
    by (auto simp: s s1) (auto simp: example_metas_def metas_ok_def meta_ok_def starts_ok_def)
  have r: "select_ref [example_metas ! 1, example_metas ! 0, example_metas ! 2] [5] = Some (hd example_metas)"
    by (simp add: select_ref_def chunk_pos_def example_metas_def)
  have len: "length example_metas = 3" "example_metas \<noteq> []" by (simp_all add: example_metas_def)
  show ?thesis
    using index_lookup_as_written [OF z _ ok, of Map.empty "[5]"] r len
    by (auto simp: s Let_def simp del: write_indexes.simps split: sum.splits)
qed

end
