(* ===== verification/Segment_Folder.thy ===== *)
theory Segment_Folder
  imports Segment_Index
begin

text \<open>
  The folder of chunk files of one account in \<^verbatim>\<open>src/THEO/prefixdb/prefixdb.go\<close>: writing a new
  folder, merging a commit into the chunks of an existing one, looking up a key, rewriting one chunk
  in the background, the full sweep over all chunks and the removal of unreferenced files. The
  chunk buffer and the index caches are switched off, as with a positive prefetch count and no index
  cache; the file system does not fail.
\<close>

lemma Uint32_code [code]: "Uint32 bs = word_of_int (be_int 0 (take 4 bs))" "PutUint32 v = put_int 4 (uint v)"
  using put_int_put [of 4 "unat v"] by (simp_all add: Uint32_def be_int_get PutUint32_def)

section \<open>Configuration\<close>

record folder_config =
  fc_index :: index_config
  fc_storageChunkSize :: int
  fc_segmentedChunkHardLimit :: int
  fc_storageGetCacheCount :: int

definition defaultSegmentIndexLevel2Size :: int where
  "defaultSegmentIndexLevel2Size = 8 * 1024"

definition resolveSegmentIndexLevel2Size :: "int \<Rightarrow> int" where
  "resolveSegmentIndexLevel2Size storageChunkFileSize =
     (if storageChunkFileSize > 0 then storageChunkFileSize else defaultSegmentIndexLevel2Size)"

definition resolveSegmentIndexMultiLevelThreshold :: "int \<Rightarrow> int" where
  "resolveSegmentIndexMultiLevelThreshold level2Size =
     (if level2Size \<le> 0 then defaultSegmentIndexLevel2Size else level2Size) * 2"

definition segmentedChunkTargetSize :: "folder_config \<Rightarrow> int" where
  "segmentedChunkTargetSize cfg =
     (if fc_storageChunkSize cfg > 0 then fc_storageChunkSize cfg
      else if fc_segmentedChunkHardLimit cfg > 0 then fc_segmentedChunkHardLimit cfg
      else 16 * 1024)"

definition segmentedChunkTriggerSize :: "folder_config \<Rightarrow> int" where
  "segmentedChunkTriggerSize cfg =
     (if fc_segmentedChunkHardLimit cfg > 0 then fc_segmentedChunkHardLimit cfg else segmentedChunkTargetSize cfg)"

section \<open>Chunk files\<close>

datatype folder_error =
    FolderIndex index_error
  | FolderRecord seg_error
  | ChunkFileMissing
  | EmptyChunkFile
  | ChunkTooLarge
  | NoChunksBuilt
  | MissingChunkNotReferenced

text \<open>A chunk is written to a temporary file and renamed.\<close>

definition writeChunkFile :: "folder \<Rightarrow> string \<Rightarrow> kvPair list \<Rightarrow> u64 \<Rightarrow> folder_error + folder" where
  "writeChunkFile files fileName entries blockID =
     (case serializeChunkPayload entries of
        Inl e \<Rightarrow> Inl (FolderRecord e)
      | Inr seg \<Rightarrow> Inr (writeFileAtomic files fileName (appendChunkCommitTag seg blockID)))"

definition readSegmentFileBuffer :: "folder \<Rightarrow> string \<Rightarrow> folder_error + bytes" where
  "readSegmentFileBuffer files fileName =
     (case files fileName of
        None \<Rightarrow> Inl ChunkFileMissing
      | Some buf \<Rightarrow>
          if length buf = 0 then Inl EmptyChunkFile
          else if int (length buf) > 2 ^ 32 - 1 then Inl ChunkTooLarge
          else Inr buf)"

definition readSegmentChunkFile :: "folder \<Rightarrow> string \<Rightarrow> folder_error + kvPair list \<times> bytes" where
  "readSegmentChunkFile files fileName =
     (case readSegmentFileBuffer files fileName of
        Inl e \<Rightarrow> Inl e
      | Inr buf \<Rightarrow>
          (case countChunkEntriesFromTail buf of
             Inl e \<Rightarrow> Inl (FolderRecord e)
           | Inr kvCount \<Rightarrow>
               (case buildPairsFromChunkBuffer buf (int kvCount) of
                  Inl e \<Rightarrow> Inl (FolderRecord e) | Inr entries \<Rightarrow> Inr (entries, buf))))"

definition appendChunkFile :: "folder \<Rightarrow> string \<Rightarrow> kvPair list \<Rightarrow> bytes \<Rightarrow> u64 \<Rightarrow> folder_error + folder" where
  "appendChunkFile files fileName additions content blockID =
     (if additions = [] then Inr files
      else case serializeChunkPayload additions of
          Inl e \<Rightarrow> Inl (FolderRecord e)
        | Inr seg \<Rightarrow> Inr (files(fileName \<mapsto> content @ appendChunkCommitTag seg blockID)))"

section \<open>Writing all chunks of a folder\<close>

text \<open>
  The chunks are cut and written in one pass; their names come from an allocator, or are the
  ordinals from zero. The files written before a failure stay.
\<close>

fun write_chunks :: "folder \<Rightarrow> chunkFileAllocator option \<Rightarrow> nat \<Rightarrow> u64 \<Rightarrow> kvPair list list \<Rightarrow>
    folder \<times> chunkFileAllocator option \<times> (folder_error + segmentChunkMeta list)" where
  "write_chunks files alloc chunkIdx blockID [] = (files, alloc, Inr [])"
| "write_chunks files alloc chunkIdx blockID (chunk # chunks) =
     (case serializeChunkPayload chunk of
        Inl e \<Rightarrow> (files, alloc, Inl (FolderRecord e))
      | Inr seg \<Rightarrow>
          let (name, alloc') = (case alloc of
                 Some a \<Rightarrow> (case nextName a of (n, a') \<Rightarrow> (n, Some a'))
               | None \<Rightarrow> (chunkFileNameForOrdinal (word_of_nat chunkIdx), None))
          in case write_chunks (files(name \<mapsto> appendChunkCommitTag seg blockID)) alloc' (chunkIdx + 1) blockID chunks of
               (files', a, Inl e) \<Rightarrow> (files', a, Inl e)
             | (files', a, Inr metas) \<Rightarrow> (files', a, Inr (\<lparr>FileName = name, KeyStart = fst (chunk ! 0)\<rparr> # metas)))"

definition writeSegmentedChunksToFolder :: "folder_config \<Rightarrow> folder \<Rightarrow> kvPair list \<Rightarrow> chunkFileAllocator option \<Rightarrow> u64 \<Rightarrow>
    folder \<times> chunkFileAllocator option \<times> (folder_error + segmentChunkMeta list)" where
  "writeSegmentedChunksToFolder cfg files kvs alloc blockID =
     (case write_chunks files alloc 0 blockID (split_loop (fc_storageChunkSize cfg) [] 0 kvs) of
        (files', a, Inl e) \<Rightarrow> (files', a, Inl e)
      | (files', a, Inr metas) \<Rightarrow> (files', a, if metas = [] then Inl NoChunksBuilt else Inr metas))"

definition removeStaleSegmentChunkFiles :: "folder \<Rightarrow> string list \<Rightarrow> folder" where
  "removeStaleSegmentChunkFiles files keep = (\<lambda>n. if parseChunkOrdinal n \<ge> 0 \<and> n \<notin> set keep then None else files n)"

definition tolerated_index_error :: "index_error \<Rightarrow> bool" where
  "tolerated_index_error e \<longleftrightarrow> e \<in> {IndexFileMissing, IndexEntryNotFound, IndexEOF}"

definition rewriteAccountNamedSegmentedStorage :: "folder_config \<Rightarrow> kvPair list \<Rightarrow> u64 \<Rightarrow> folder \<Rightarrow> folder_error option \<times> folder" where
  "rewriteAccountNamedSegmentedStorage cfg kvs blockID files =
     (case (case readSegmentIndex (fc_index cfg) files of
              Inl e \<Rightarrow> if tolerated_index_error e then None else Some (FolderIndex e)
            | Inr _ \<Rightarrow> None) of
        Some e \<Rightarrow> (Some e, files)
      | None \<Rightarrow>
             (case writeSegmentedChunksToFolder cfg files kvs None blockID of
                (files1, _, Inl e) \<Rightarrow> (Some e, files1)
              | (files1, _, Inr chunkMetas) \<Rightarrow>
                  (case writeSegmentIndexLocked (fc_index cfg) chunkMetas files1 of
                     (Some e, files2) \<Rightarrow> (Some (FolderIndex e), files2)
                   | (None, files2) \<Rightarrow> (None, removeStaleSegmentChunkFiles files2 (map FileName chunkMetas)))))"



section \<open>Merging a commit into a folder\<close>

text \<open>
  The chunks of a rewrite: one chunk keeps the name of the old file, several get names from the
  allocator, and the old file stays behind unreferenced.
\<close>

fun rewrite_files :: "folder \<Rightarrow> segmentChunkMeta \<Rightarrow> bool \<Rightarrow> nat \<Rightarrow> chunkFileAllocator \<Rightarrow> u64 \<Rightarrow> kvPair list list \<Rightarrow>
    folder \<times> chunkFileAllocator \<times> (folder_error + segmentChunkMeta list)" where
  "rewrite_files files meta reuseOldFileName idx alloc blockID [] = (files, alloc, Inr [])"
| "rewrite_files files meta reuseOldFileName idx alloc blockID (chunk # chunks) =
     (let (name, alloc') = (if \<not> reuseOldFileName \<or> idx > 0 then nextName alloc else (FileName meta, alloc)) in
      case writeChunkFile files name chunk blockID of
        Inl e \<Rightarrow> (files, alloc', Inl e)
      | Inr files1 \<Rightarrow>
          (case rewrite_files files1 meta reuseOldFileName (idx + 1) alloc' blockID chunks of
             (files2, a, Inl e) \<Rightarrow> (files2, a, Inl e)
           | (files2, a, Inr metas) \<Rightarrow> (files2, a, Inr (\<lparr>FileName = name, KeyStart = fst (chunk ! 0)\<rparr> # metas))))"

definition rewriteChunkWithDedup :: "folder_config \<Rightarrow> folder \<Rightarrow> segmentChunkMeta \<Rightarrow> kvPair list \<Rightarrow> chunkFileAllocator \<Rightarrow>
    kvPair list option \<Rightarrow> u64 \<Rightarrow> folder \<times> chunkFileAllocator \<times> (folder_error + segmentChunkMeta list)" where
  "rewriteChunkWithDedup cfg files meta additions alloc existing blockID =
     (case (case existing of
              None \<Rightarrow> map_sum id fst (readSegmentChunkFile files (FileName meta)) | Some es \<Rightarrow> Inr es) of
        Inl e \<Rightarrow> (files, alloc, Inl e)
      | Inr es \<Rightarrow>
          let merged = mergeAndDedupPairs (if length es > 1 then maybeNormalizeChunkEntries es else es) additions;
              chunks = splitEntriesBySize merged (segmentedChunkTargetSize cfg)
          in if merged = [] then (files, alloc, Inr [])
             else rewrite_files files meta (length chunks = 1) 0 alloc blockID chunks)"

definition mutateSegmentChunk :: "folder_config \<Rightarrow> folder \<Rightarrow> segmentChunkMeta \<Rightarrow> kvPair list \<Rightarrow> chunkFileAllocator \<Rightarrow> u64 \<Rightarrow>
    folder \<times> chunkFileAllocator \<times> (folder_error + segmentChunkMeta list)" where
  "mutateSegmentChunk cfg files meta additions alloc blockID =
     (if additions = [] then (files, alloc, Inr [meta])
      else case files (FileName meta) of
        None \<Rightarrow> rewriteChunkWithDedup cfg files meta additions alloc (Some []) blockID
      | Some content \<Rightarrow>
          (let appendBytes = payloadSize additions; trigger = segmentedChunkTriggerSize cfg in
           if appendBytes = 0 then (files, alloc, Inr [meta])
           else if trigger > 0 \<and> int (length content) + int appendBytes > trigger
           then rewriteChunkWithDedup cfg files meta additions alloc None blockID
           else case appendChunkFile files (FileName meta) additions content blockID of
               Inl e \<Rightarrow> (files, alloc, Inl e)
             | Inr files' \<Rightarrow> (files', alloc, Inr [adjustMetaRange meta additions])))"

fun update_chunks :: "folder_config \<Rightarrow> folder \<Rightarrow> chunkFileAllocator \<Rightarrow> u64 \<Rightarrow> (segmentChunkMeta \<times> kvPair list) list \<Rightarrow>
    folder \<times> chunkFileAllocator \<times> (folder_error + segmentChunkMeta list \<times> bool)" where
  "update_chunks cfg files alloc blockID [] = (files, alloc, Inr ([], False))"
| "update_chunks cfg files alloc blockID ((meta, additions) # rest) =
     (if additions = []
      then (case update_chunks cfg files alloc blockID rest of
              (files', a, Inl e) \<Rightarrow> (files', a, Inl e)
            | (files', a, Inr (updated, dirty)) \<Rightarrow> (files', a, Inr (meta # updated, dirty)))
      else case mutateSegmentChunk cfg files meta additions alloc blockID of
             (files1, a1, Inl e) \<Rightarrow> (files1, a1, Inl e)
           | (files1, a1, Inr metas) \<Rightarrow>
               (case update_chunks cfg files1 a1 blockID rest of
                  (files', a, Inl e) \<Rightarrow> (files', a, Inl e)
                | (files', a, Inr (updated, dirty)) \<Rightarrow> (files', a, Inr (metas @ updated, metas \<noteq> [meta] \<or> dirty))))"

definition updateAccountNamedSegmentedStorage :: "folder_config \<Rightarrow> kvPair list \<Rightarrow> u64 \<Rightarrow> folder \<Rightarrow> folder_error option \<times> folder" where
  "updateAccountNamedSegmentedStorage cfg kvs blockID files =
     (case readSegmentIndex (fc_index cfg) files of
        Inl e \<Rightarrow>
          if tolerated_index_error e \<or> files segmentIndexFileName = None
          then rewriteAccountNamedSegmentedStorage cfg kvs blockID files
          else (Some (FolderIndex e), files)
      | Inr metas0 \<Rightarrow>
          if metas0 = [] then rewriteAccountNamedSegmentedStorage cfg kvs blockID files
          else
            let (metas, orderChanged) = normalizeSegmentChunkMetasOrder metas0;
                (buckets, unmatched) = partitionEntriesByChunks metas kvs
            in case update_chunks cfg files (newChunkFileAllocator metas) blockID (zip metas buckets) of
                 (files1, _, Inl e) \<Rightarrow> (Some e, files1)
               | (files1, alloc, Inr (updated, dirty)) \<Rightarrow>
                   (case (if unmatched = [] then (files1, Inr [])
                          else case writeSegmentedChunksToFolder cfg files1 (sortKVPairs unmatched) (Some alloc) blockID of
                              (f, _, r) \<Rightarrow> (f, r)) of
                      (files2, Inl e) \<Rightarrow> (Some e, files2)
                    | (files2, Inr newMetas) \<Rightarrow>
                        if orderChanged \<or> dirty \<or> unmatched \<noteq> []
                        then (case writeSegmentIndexLocked (fc_index cfg) (updated @ newMetas) files2 of
                                (e, files3) \<Rightarrow> (map_option FolderIndex e, files3))
                        else (None, files2)))"

section \<open>Looking up a key\<close>

datatype segment_read =
    SegmentChunkRead chunk_read
  | SegmentIndexEntryNotFound
  | SegmentIndexEmpty
  | SegmentChunkMetaNotFound
  | SegmentReadError folder_error

definition readSegmentedChunkToCacheByPath :: "folder_config \<Rightarrow> folder \<Rightarrow> bytes \<Rightarrow> segment_read \<times> cache_add list" where
  "readSegmentedChunkToCacheByPath cfg files storageKey =
     (case readSegmentIndexForKey (fc_index cfg) files storageKey of
        Inl e \<Rightarrow> (if e = IndexEntryNotFound then SegmentIndexEntryNotFound else SegmentReadError (FolderIndex e), [])
      | Inr metas \<Rightarrow>
          if metas = [] then (SegmentIndexEmpty, [])
          else case selectSegmentChunkMeta metas storageKey of
              None \<Rightarrow> (SegmentChunkMetaNotFound, [])
            | Some meta \<Rightarrow>
                (case readSegmentFileBuffer files (FileName meta) of
                   Inl e \<Rightarrow> (SegmentReadError e, [])
                 | Inr buf \<Rightarrow>
                     (case readSegmentedChunkToCacheStreaming (fc_storageGetCacheCount cfg) buf storageKey of
                        (r, adds) \<Rightarrow> (SegmentChunkRead r, adds))))"

text \<open>A reference whose chunk file is missing is dropped from the index.\<close>

definition repairMissingChunkFile :: "folder_config \<Rightarrow> string \<Rightarrow> folder \<Rightarrow> folder_error option \<times> folder" where
  "repairMissingChunkFile cfg fileName files =
     (case readSegmentIndex (fc_index cfg) files of
        Inl e \<Rightarrow> (Some (FolderIndex e), files)
      | Inr metas \<Rightarrow>
          if \<not> (\<exists>m \<in> set metas. FileName m = fileName) then (Some MissingChunkNotReferenced, files)
          else case writeSegmentIndexLocked (fc_index cfg) (filter (\<lambda>m. FileName m \<noteq> fileName) metas) files of
              (e, files') \<Rightarrow> (map_option FolderIndex e, files'))"

definition rebuildSegmentIndexFile :: "folder_config \<Rightarrow> folder \<Rightarrow> folder_error option \<times> folder" where
  "rebuildSegmentIndexFile cfg files =
     (if files segmentIndexFileName = None then (None, files)
      else case readSegmentIndex (fc_index cfg) files of
          Inl e \<Rightarrow> (Some (FolderIndex e), files)
        | Inr metas \<Rightarrow>
            (case writeSegmentIndexLocked (fc_index cfg) metas files of (e, files') \<Rightarrow> (map_option FolderIndex e, files')))"

section \<open>The sweep over all chunks of a folder\<close>

text \<open>
  Every record is read with the last commit tag of its chunk; a stable sort by key keeps the
  versions of a key in their order and the last one is kept.
\<close>

type_synonym taggedKVPair = "kvPair \<times> u64"

fun read_all :: "folder \<Rightarrow> segmentChunkMeta list \<Rightarrow> folder_error + taggedKVPair list" where
  "read_all files [] = Inr []"
| "read_all files (meta # metas) =
     (case readSegmentChunkFile files (FileName meta) of
        Inl e \<Rightarrow> Inl e
      | Inr (entries, backing) \<Rightarrow>
          (let sourceTag = (case lastChunkCommitTagBlockID backing of Some b \<Rightarrow> b | None \<Rightarrow> 0) in
           map_sum id ((@) (map (\<lambda>e. (e, sourceTag)) entries)) (read_all files metas)))"

fun keep_tagged_ends :: "taggedKVPair list \<Rightarrow> taggedKVPair list" where
  "keep_tagged_ends [] = []"
| "keep_tagged_ends [x] = [x]"
| "keep_tagged_ends (x # y # xs) =
     (if fst (fst x) = fst (fst y) then keep_tagged_ends (y # xs) else x # keep_tagged_ends (y # xs))"

definition sweep_dedup :: "taggedKVPair list \<Rightarrow> taggedKVPair list" where
  "sweep_dedup allEntries =
     (if length allEntries > 1 then keep_tagged_ends (sort_key (\<lambda>e. fst (fst e)) allEntries) else allEntries)"

text \<open>The chunks are cut by size; the tag of a chunk is the greatest tag of its records.\<close>

fun tagged_chunks :: "int \<Rightarrow> kvPair list \<Rightarrow> nat \<Rightarrow> u64 \<Rightarrow> taggedKVPair list \<Rightarrow> (kvPair list \<times> u64) list" where
  "tagged_chunks limit current sz tag [] = (if current = [] then [] else [(current, tag)])"
| "tagged_chunks limit current sz tag ((e, t) # es) =
     (if int (sz + entry_bytes e) > limit \<and> current \<noteq> []
      then (current, tag) # tagged_chunks limit [e] (entry_bytes e) (if t > 0 then t else 0) es
      else tagged_chunks limit (current @ [e]) (sz + entry_bytes e) (if t > tag then t else tag) es)"

fun write_tagged :: "folder \<Rightarrow> nat \<Rightarrow> (kvPair list \<times> u64) list \<Rightarrow> folder \<times> (folder_error + segmentChunkMeta list)" where
  "write_tagged files i [] = (files, Inr [])"
| "write_tagged files i ((entries, tag) # chunks) =
     (let fileName = chunkFileNameForOrdinal (word_of_nat i) in
      case writeChunkFile files fileName entries tag of
        Inl e \<Rightarrow> (files, Inl e)
      | Inr files1 \<Rightarrow>
          (case write_tagged files1 (i + 1) chunks of
             (files2, Inl e) \<Rightarrow> (files2, Inl e)
           | (files2, Inr metas) \<Rightarrow> (files2, Inr (\<lparr>FileName = fileName, KeyStart = fst (entries ! 0)\<rparr> # metas))))"

definition GCAllStorageChunkFiles :: "folder_config \<Rightarrow> folder \<Rightarrow> folder_error option \<times> folder" where
  "GCAllStorageChunkFiles cfg files =
     (case readSegmentIndex (fc_index cfg) files of
        Inl e \<Rightarrow> (Some (FolderIndex e), files)
      | Inr metas \<Rightarrow>
          if metas = [] then (None, files)
          else case read_all files metas of
              Inl e \<Rightarrow> (Some e, files)
            | Inr allEntries \<Rightarrow>
                (case write_tagged files 0 (tagged_chunks (segmentedChunkTargetSize cfg) [] 0 0 (sweep_dedup allEntries)) of
                   (files1, Inl e) \<Rightarrow> (Some e, files1)
                 | (files1, Inr updated) \<Rightarrow>
                     (let keep = set (map FileName updated);
                          files2 = remove_all (filter (\<lambda>n. n \<notin> keep) (map FileName metas)) files1
                      in case writeSegmentIndexLocked (fc_index cfg) updated files2 of
                           (e, files3) \<Rightarrow> (map_option FolderIndex e, files3))))"

text \<open>Unreferenced chunk files and left-over temporary files are removed; the number of removed files is reported.\<close>

definition has_suffix :: "string \<Rightarrow> string \<Rightarrow> bool" where
  "has_suffix name s \<longleftrightarrow> length s \<le> length name \<and> drop (length name - length s) name = s"

definition is_garbage :: "string set \<Rightarrow> string \<Rightarrow> bool" where
  "is_garbage referenced name \<longleftrightarrow>
     has_suffix name ''.dat.tmp'' \<or> has_suffix name ''.dat'' \<and> name \<notin> referenced"

definition GCCollectGarbageChunks :: "folder_config \<Rightarrow> u32 \<Rightarrow> folder \<Rightarrow> folder_error option \<times> nat \<times> folder" where
  "GCCollectGarbageChunks cfg folderID files =
     (if folderID = 0 then (None, 0, files)
      else case readSegmentIndex (fc_index cfg) files of
        Inl e \<Rightarrow> (Some (FolderIndex e), 0, files)
      | Inr metas \<Rightarrow>
          let referenced = set (filter (\<lambda>n. n \<noteq> []) (map FileName metas)) in
          (None, card {n \<in> dom files. is_garbage referenced n}, \<lambda>n. if is_garbage referenced n then None else files n))"

section \<open>Rewriting single chunks in the background\<close>

text \<open>
  The rewritten chunks go to new files, whose names are reserved by creating an empty file; the
  reservation tries one ordinal after another until a name is free.
\<close>

partial_function (option) reserveChunkFileName :: "folder \<Rightarrow> int \<Rightarrow> (string \<times> int) option" where
  "reserveChunkFileName files ord =
     (let candidate = chunkFileNameForOrdinal (word_of_int ord) in
      if files candidate = None then Some (candidate, ord + 1) else reserveChunkFileName files (ord + 1))"

declare reserveChunkFileName.simps [code]

fun new_files :: "folder \<Rightarrow> int \<Rightarrow> u64 \<Rightarrow> string list \<Rightarrow> kvPair list list \<Rightarrow>
    (folder \<times> (folder_error + segmentChunkMeta list \<times> int)) option" where
  "new_files files ordinal tag reserved [] = Some (files, Inr ([], ordinal))"
| "new_files files ordinal tag reserved (chunk # chunks) =
     (case reserveChunkFileName files ordinal of
        None \<Rightarrow> None
      | Some (name, nxt) \<Rightarrow>
          (case writeChunkFile (files(name \<mapsto> [])) name chunk tag of
             Inl e \<Rightarrow> Some (remove_all (reserved @ [name]) (files(name \<mapsto> [])), Inl e)
           | Inr files1 \<Rightarrow>
               (case new_files files1 nxt tag (reserved @ [name]) chunks of
                  None \<Rightarrow> None
                | Some (files2, Inl e) \<Rightarrow> Some (files2, Inl e)
                | Some (files2, Inr (metas, ord)) \<Rightarrow>
                    Some (files2, Inr (\<lparr>FileName = name, KeyStart = fst (chunk ! 0)\<rparr> # metas, ord)))))"

definition rewriteChunkWithDedupToNewFiles :: "folder_config \<Rightarrow> folder \<Rightarrow> segmentChunkMeta \<Rightarrow> kvPair list \<Rightarrow> int \<Rightarrow>
    kvPair list option \<Rightarrow> u64 \<Rightarrow> (folder \<times> (folder_error + segmentChunkMeta list \<times> int)) option" where
  "rewriteChunkWithDedupToNewFiles cfg files meta additions startOrdinal existing lastTag =
     (case (case existing of
              None \<Rightarrow> map_sum id (map_prod id Some) (readSegmentChunkFile files (FileName meta))
            | Some es \<Rightarrow> Inr (es, None)) of
        Inl e \<Rightarrow> Some (files, Inl e)
      | Inr (es, backing) \<Rightarrow>
          (let tag = (case backing of
                 Some buf \<Rightarrow> if lastTag = 0 then (case lastChunkCommitTagBlockID buf of Some b \<Rightarrow> b | None \<Rightarrow> 0) else lastTag
               | None \<Rightarrow> lastTag);
               merged = mergeAndDedupPairs (if length es > 1 then maybeNormalizeChunkEntries es else es) additions
           in if merged = [] then Some (files, Inr ([], startOrdinal))
              else new_files files startOrdinal tag [] (splitEntriesBySize merged (segmentedChunkTargetSize cfg))))"

definition maxOrdinal :: "segmentChunkMeta list \<Rightarrow> int" where
  "maxOrdinal metas =
     fold (\<lambda>meta maxOrd. let ord = parseChunkOrdinal (FileName meta) in if ord > maxOrd then ord else maxOrd) metas (-1)"

text \<open>
  A chunk is scheduled with the bytes that the read found, when they are longer than the trigger
  size and no job for it is in flight.
\<close>

record storageGCJob =
  job_fileName :: string
  job_lastTagBlockID :: u64
  job_chunkBuffer :: "bytes option"

definition maybeScheduleStorageGC :: "folder_config \<Rightarrow> string set \<Rightarrow> string \<Rightarrow> bytes option \<Rightarrow> storageGCJob option \<times> string set" where
  "maybeScheduleStorageGC cfg inFlight fileName backing =
     (case backing of
        None \<Rightarrow> (None, inFlight)
      | Some buf \<Rightarrow>
          if fileName = [] \<or> length buf = 0 \<or> int (length buf) \<le> segmentedChunkTriggerSize cfg \<or> fileName \<in> inFlight
          then (None, inFlight)
          else (Some \<lparr>job_fileName = fileName,
                      job_lastTagBlockID = (case lastChunkCommitTagBlockID buf of Some b \<Rightarrow> b | None \<Rightarrow> 0),
                      job_chunkBuffer = Some buf\<rparr>, insert fileName inFlight))"

definition preload :: "storageGCJob \<Rightarrow> kvPair list option \<times> u64" where
  "preload job =
     (case job_chunkBuffer job of
        None \<Rightarrow> (None, job_lastTagBlockID job)
      | Some payload \<Rightarrow>
          ((case countChunkEntriesFromTail payload of
              Inl _ \<Rightarrow> None
            | Inr kvCount \<Rightarrow>
                (case buildPairsFromChunkBuffer payload (int kvCount) of Inl _ \<Rightarrow> None | Inr decoded \<Rightarrow> Some decoded)),
           if job_lastTagBlockID job = 0
           then (case lastChunkCommitTagBlockID payload of Some b \<Rightarrow> b | None \<Rightarrow> 0) else job_lastTagBlockID job))"

section \<open>Replacing chunks in the index\<close>

definition buildLayoutGroupsFromMetas :: "segmentIndexLayout \<Rightarrow> segmentChunkMeta list \<Rightarrow> segmentChunkMeta list list option" where
  "buildLayoutGroupsFromMetas layout metas =
     (if sl_mode layout \<noteq> indexLayoutMultiLevel \<or> sl_entries layout = [] then None
      else if sum_list (map (\<lambda>e. unat (l1_ChunkCount e)) (sl_entries layout)) \<noteq> length metas then None
      else Some (group_by_counts (sl_entries layout) metas))"

definition applyGroupReplacement :: "segmentChunkMeta list \<Rightarrow> string \<Rightarrow> segmentChunkMeta list \<Rightarrow> segmentChunkMeta list option" where
  "applyGroupReplacement grp oldFileName replacement =
     (if \<exists>m \<in> set grp. FileName m = oldFileName
      then Some (takeWhile (\<lambda>m. FileName m \<noteq> oldFileName) grp @ replacement @
                 tl (dropWhile (\<lambda>m. FileName m \<noteq> oldFileName) grp))
      else None)"

type_synonym replacements = "(string \<times> segmentChunkMeta list) list"

definition buildUpdatedSegmentChunkMetas :: "segmentChunkMeta list \<Rightarrow> replacements \<Rightarrow> segmentChunkMeta list \<times> bool" where
  "buildUpdatedSegmentChunkMetas metas repl =
     (concat (map (\<lambda>m. case map_of repl (FileName m) of Some r \<Rightarrow> r | None \<Rightarrow> [m]) metas),
      \<exists>m \<in> set metas. FileName m \<in> fst ` set repl)"

fun replace_in_groups :: "segmentChunkMeta list list \<Rightarrow> nat \<Rightarrow> string \<Rightarrow> segmentChunkMeta list \<Rightarrow>
    (segmentChunkMeta list list \<times> nat) option" where
  "replace_in_groups [] i oldFileName replacement = None"
| "replace_in_groups (g # gs) i oldFileName replacement =
     (case applyGroupReplacement g oldFileName replacement of
        Some g' \<Rightarrow> Some (g' # gs, i)
      | None \<Rightarrow> map_option (map_prod ((#) g) id) (replace_in_groups gs (i + 1) oldFileName replacement))"

fun replace_all :: "segmentChunkMeta list list \<Rightarrow> nat set \<Rightarrow> replacements \<Rightarrow> (segmentChunkMeta list list \<times> nat set) option" where
  "replace_all gs affected [] = Some (gs, affected)"
| "replace_all gs affected ((oldFileName, replacement) # rest) =
     (case replace_in_groups gs 0 oldFileName replacement of
        None \<Rightarrow> None | Some (gs', i) \<Rightarrow> replace_all gs' (insert i affected) rest)"

fun write_affected :: "index_config \<Rightarrow> folder \<Rightarrow> nat set \<Rightarrow> nat \<Rightarrow> (segmentIndexL1Entry \<times> segmentChunkMeta list) list \<Rightarrow>
    folder \<times> (index_error + segmentIndexL1Entry list)" where
  "write_affected cfg files affected idx [] = (files, Inr [])"
| "write_affected cfg files affected idx ((e, g) # rest) =
     (if g = [] then write_affected cfg files affected (idx + 1) rest
      else case (if idx \<in> affected
                 then map_sum id (writeSegmentIndexFileIfChanged cfg files (level2IndexFileName (l1_MetaID e)))
                        (encodeSegmentChunkMetas g)
                 else Inr files) of
             Inl err \<Rightarrow> (files, Inl err)
           | Inr files1 \<Rightarrow>
               (case write_affected cfg files1 affected (idx + 1) rest of
                  (files2, Inl err) \<Rightarrow> (files2, Inl err)
                | (files2, Inr es) \<Rightarrow>
                    (files2, Inr (\<lparr>l1_MetaID = l1_MetaID e, l1_KeyStart = KeyStart (g ! 0),
                                   l1_ChunkCount = word_of_nat (length g)\<rparr> # es))))"

definition writeSegmentIndexIncrementalGC :: "index_config \<Rightarrow> replacements \<Rightarrow> folder \<Rightarrow> (index_error + bool) \<times> folder" where
  "writeSegmentIndexIncrementalGC cfg repl files =
     (if repl = [] then (Inr True, files)
      else case loadSegmentIndexLayout cfg files of
        Inl e \<Rightarrow> (Inl e, files)
      | Inr layout \<Rightarrow>
          (case readSegmentIndex cfg files of
             Inl e \<Rightarrow> (Inl e, files)
           | Inr current \<Rightarrow>
               (let whole = (case buildUpdatedSegmentChunkMetas current repl of (updated, changed) \<Rightarrow>
                      if \<not> changed then (Inr False, files)
                      else case writeSegmentIndexLocked cfg updated files of
                          (Some e, files') \<Rightarrow> (Inl e, files') | (None, files') \<Rightarrow> (Inr True, files'))
                in case buildLayoutGroupsFromMetas layout current of
                  None \<Rightarrow> whole
                | Some groups0 \<Rightarrow>
                    (case replace_all groups0 {} repl of
                       None \<Rightarrow> whole
                     | Some (groups, affected) \<Rightarrow>
                         (case write_affected cfg files affected 0 (zip (sl_entries layout) groups) of
                            (files1, Inl e) \<Rightarrow> (Inl e, files1)
                          | (files1, Inr es) \<Rightarrow>
                              (let (newEntries, topOrderChanged) = normalizeSegmentIndexL1EntriesOrder es;
                                   newLayout = \<lparr>sl_mode = indexLayoutMultiLevel, sl_entries = newEntries,
                                                sl_nextMetaID = sl_nextMetaID layout, sl_flatData = []\<rparr>;
                                   finish = (\<lambda>f. (Inr True, removeStaleLevel2IndexFiles f (sl_entries layout) (map l1_MetaID es)))
                               in if sl_entries layout \<noteq> newEntries \<or> topOrderChanged
                                  then (case encodeTopLevelIndex newLayout of
                                          Inl e \<Rightarrow> (Inl e, files1)
                                        | Inr buf \<Rightarrow> finish (writeSegmentIndexFileIfChanged cfg files1 segmentIndexFileName buf))
                                  else finish files1))))))"

section \<open>The background jobs\<close>

text \<open>
  A job runs in two phases, between which commits may change the folder: the first writes the new
  chunk files next to the old ones, the second exchanges them in the index.
\<close>

definition finish_job :: "folder_config \<Rightarrow> segmentChunkMeta list \<Rightarrow> replacements \<Rightarrow> folder \<Rightarrow> folder_error option \<times> folder" where
  "finish_job cfg latest repl files =
     (if \<not> (\<exists>m \<in> set latest. FileName m \<in> fst ` set repl) then (None, files)
      else case writeSegmentIndexIncrementalGC (fc_index cfg) repl files of
          (Inl e, files') \<Rightarrow> (Some (FolderIndex e), files')
        | (Inr applied, files') \<Rightarrow>
            if \<not> applied then (None, files')
            else (case readSegmentIndex (fc_index cfg) files' of
                    Inl e \<Rightarrow> (Some (FolderIndex e), files') | Inr _ \<Rightarrow> (None, files')))"

definition runStorageGCJob :: "folder_config \<Rightarrow> storageGCJob \<Rightarrow> folder \<Rightarrow> (folder_error option \<times> folder) option" where
  "runStorageGCJob cfg job files =
     (case readSegmentIndex (fc_index cfg) files of
        Inl e \<Rightarrow> Some (Some (FolderIndex e), files)
      | Inr metas \<Rightarrow>
          (case find (\<lambda>m. FileName m = job_fileName job) metas of
             None \<Rightarrow> Some (None, files)
           | Some meta \<Rightarrow>
               (case preload job of (preloaded, lastTag) \<Rightarrow>
                (case rewriteChunkWithDedupToNewFiles cfg files meta [] (maxOrdinal metas + 1) preloaded lastTag of
                   None \<Rightarrow> None
                 | Some (files1, Inl e) \<Rightarrow> Some (Some e, files1)
                 | Some (files1, Inr (chunkMetas, _)) \<Rightarrow>
                     Some (finish_job cfg metas [(job_fileName job, chunkMetas)] files1)))))"

fun unique_jobs :: "string set \<Rightarrow> storageGCJob list \<Rightarrow> storageGCJob list" where
  "unique_jobs seen [] = []"
| "unique_jobs seen (j # js) =
     (if job_fileName j = [] \<or> job_fileName j \<in> seen then unique_jobs seen js
      else j # unique_jobs (insert (job_fileName j) seen) js)"

fun rewrite_jobs :: "folder_config \<Rightarrow> segmentChunkMeta list \<Rightarrow> folder \<Rightarrow> int \<Rightarrow> storageGCJob list \<Rightarrow>
    (folder \<times> (folder_error + replacements)) option" where
  "rewrite_jobs cfg metas files nextOrd [] = Some (files, Inr [])"
| "rewrite_jobs cfg metas files nextOrd (job # jobs) =
     (case find (\<lambda>m. FileName m = job_fileName job) metas of
        None \<Rightarrow> rewrite_jobs cfg metas files nextOrd jobs
      | Some meta \<Rightarrow>
          (case preload job of (preloaded, lastTag) \<Rightarrow>
           (case rewriteChunkWithDedupToNewFiles cfg files meta [] nextOrd preloaded lastTag of
              None \<Rightarrow> None
            | Some (files1, Inl e) \<Rightarrow> Some (files1, Inl e)
            | Some (files1, Inr (chunkMetas, nextOrd2)) \<Rightarrow>
                map_option (map_prod id (map_sum id ((#) (job_fileName job, chunkMetas))))
                  (rewrite_jobs cfg metas files1 nextOrd2 jobs))))"

definition runStorageGCBatch :: "folder_config \<Rightarrow> storageGCJob list \<Rightarrow> folder \<Rightarrow> (folder_error option \<times> folder) option" where
  "runStorageGCBatch cfg jobs files =
     (if jobs = [] then Some (None, files)
      else case readSegmentIndex (fc_index cfg) files of
        Inl e \<Rightarrow> Some (Some (FolderIndex e), files)
      | Inr metas \<Rightarrow>
          if metas = [] \<or> unique_jobs {} jobs = [] then Some (None, files)
          else case rewrite_jobs cfg metas files (maxOrdinal metas + 1) (unique_jobs {} jobs) of
              None \<Rightarrow> None
            | Some (files1, Inl e) \<Rightarrow> Some (Some e, files1)
            | Some (files1, Inr repl) \<Rightarrow>
                if repl = [] then Some (None, files1) else Some (finish_job cfg metas repl files1))"

end
