(* ===== verification/Segment_Folder_Correct.thy ===== *)
theory Segment_Folder_Correct
  imports Segment_Folder
begin

text \<open>
  The folder of an account as a list of chunks, each the items of its log: what a lookup returns,
  what a commit and the sweep do to the records, and that every operation keeps the index, the chunk
  files and the key ranges of the chunks in agreement.
\<close>

section \<open>Chunks of a folder\<close>

type_synonym chunk = "segmentChunkMeta \<times> log_item list"

abbreviation chunk_keys :: "chunk \<Rightarrow> bytes set" where
  "chunk_keys c \<equiv> fst ` set (records (snd c))"

abbreviation chunk_start :: "chunk \<Rightarrow> bytes" where
  "chunk_start c \<equiv> KeyStart (fst c)"

definition chunk_ok :: "folder \<Rightarrow> chunk \<Rightarrow> bool" where
  "chunk_ok files c \<longleftrightarrow> files (FileName (fst c)) = Some (chunk_log (snd c)) \<and> (\<forall>it \<in> set (snd c). item_ok it) \<and>
     records (snd c) \<noteq> [] \<and> length (chunk_log (snd c)) < 2 ^ 32"

definition before :: "chunk \<Rightarrow> chunk \<Rightarrow> bool" where
  "before c d \<longleftrightarrow> (\<forall>k \<in> insert (chunk_start c) (chunk_keys c). k < chunk_start d)"

definition ordered :: "chunk list \<Rightarrow> bool" where
  "ordered cs \<longleftrightarrow> sorted_wrt before cs \<and> (\<forall>c \<in> set cs. \<forall>k \<in> chunk_keys c. chunk_start c \<le> k)"

definition content :: "chunk list \<Rightarrow> bytes \<rightharpoonup> bytes" where
  "content cs = newest (concat (map (records \<circ> snd) cs))"

definition folder_holds :: "folder_config \<Rightarrow> folder \<Rightarrow> chunk list \<Rightarrow> bool" where
  "folder_holds cfg files cs \<longleftrightarrow> index_holds (fc_index cfg) files (map fst cs) \<and> (\<forall>c \<in> set cs. chunk_ok files c) \<and>
     ordered cs \<and> distinct (map (FileName \<circ> fst) cs) \<and> (\<forall>c \<in> set cs. \<forall>k \<in> chunk_keys c. length k \<le> 32)"

lemma content_simps [simp]:
  "content [] = Map.empty" "content (c # cs) = newest (records (snd c)) ++ content cs"
  "content (cs @ ds) = content cs ++ content ds"
  by (simp_all add: content_def)

lemma dom_newest: "dom (newest kvs) = fst ` set kvs"
  by (simp add: dom_map_of_conv_image_fst)

lemma dom_content: "dom (content cs) = (\<Union>c \<in> set cs. chunk_keys c)"
  by (induction cs) (auto simp: dom_newest)

lemma ordered_append:
  "ordered (cs @ ds) \<longleftrightarrow> ordered cs \<and> ordered ds \<and> (\<forall>c \<in> set cs. \<forall>d \<in> set ds. before c d)"
  by (auto simp: ordered_def sorted_wrt_append)

lemma ordered_Cons:
  "ordered (c # cs) \<longleftrightarrow> (\<forall>k \<in> chunk_keys c. chunk_start c \<le> k) \<and> ordered cs \<and> (\<forall>d \<in> set cs. before c d)"
  by (auto simp: ordered_def)

lemma ordered_Nil [simp]: "ordered []"
  by (simp add: ordered_def)

lemma ordered_starts: "ordered cs \<Longrightarrow> (\<forall>c \<in> set cs. chunk_start c \<noteq> []) \<Longrightarrow> starts_ok (map fst cs)"
  by (induction cs) (auto simp: starts_ok_def ordered_Cons before_def)

lemma ordered_later: "ordered (c # cs) \<Longrightarrow> k \<in> chunk_keys c \<Longrightarrow> content cs k = None"
proof -
  assume o: "ordered (c # cs)" and k: "k \<in> chunk_keys c"
  have "k \<notin> chunk_keys d" if d: "d \<in> set cs" for d
  proof
    assume "k \<in> chunk_keys d"
    moreover have "before c d" "ordered cs" using o d by (auto simp: ordered_Cons)
    ultimately have "chunk_start d \<le> k" "k < chunk_start d" using d k by (auto simp: ordered_def before_def)
    then show False by simp
  qed
  then show "content cs k = None" using dom_content [of cs] by blast
qed

lemma content_None_below:
  assumes "ordered cs" "\<forall>c \<in> set cs. k < chunk_start c"
  shows "content cs k = None"
proof -
  have "k \<notin> chunk_keys c" if c: "c \<in> set cs" for c
    using assms c by (force simp: ordered_def not_le [symmetric])
  then show ?thesis using dom_content [of cs] by blast
qed

text \<open>The chunk that the index selects for a key is the only one that can hold it.\<close>

lemma content_at:
  "ordered cs \<Longrightarrow>
   content cs k = (let p = chunk_pos (map fst cs) k in if p = 0 then None else newest (records (snd (cs ! (p - 1)))) k)"
proof (induction cs)
  case (Cons c cs)
  have o: "ordered cs" and lt: "\<forall>d \<in> set cs. before c d" and lo: "\<forall>k \<in> chunk_keys c. chunk_start c \<le> k"
    using Cons.prems by (auto simp: ordered_Cons)
  define p where "p = chunk_pos (map fst cs) k"
  have pos: "chunk_pos (map fst (c # cs)) k = (if chunk_start c \<le> k then Suc p else 0)"
    by (simp add: chunk_pos_def p_def)
  show ?case
  proof (cases "chunk_start c \<le> k")
    case True
    show ?thesis
    proof (cases "p = 0")
      case p: True
      then have "content cs k = None" using Cons.IH [OF o] by (simp add: p_def [symmetric])
      then show ?thesis using True p pos by (simp add: map_add_def)
    next
      case p: False
      then obtain d ds where cs: "cs = d # ds" "chunk_start d \<le> k"
        by (cases cs) (auto simp: p_def chunk_pos_def split: if_splits)
      then have "k \<notin> chunk_keys c" using lt by (auto simp: before_def)
      then have "newest (records (snd c)) k = None" using dom_newest [of "records (snd c)"] by blast
      then show ?thesis using True p pos Cons.IH [OF o] by (simp add: p_def [symmetric] map_add_def nth_Cons' split: option.splits)
    qed
  next
    case False
    then have lt0: "k < chunk_start c" by simp
    then have "k < chunk_start d" if "d \<in> set cs" for d using lt that by (auto simp: before_def intro: less_trans)
    then have "content (c # cs) k = None" using lt0 by (intro content_None_below [OF Cons.prems]) auto
    then show ?thesis using False pos by simp
  qed
qed (simp add: chunk_pos_def)

section \<open>Names\<close>

lemma chunk_name_last: "last (chunkFileNameForOrdinal n) = CHR ''t''" "chunkFileNameForOrdinal n \<noteq> []"
  by (simp_all add: chunkFileNameForOrdinal_def Let_def)

lemma chunk_tmp [simp]:
  "chunkFileNameForOrdinal a \<noteq> chunkFileNameForOrdinal b @ ''.tmp''"
  "chunkFileNameForOrdinal b @ ''.tmp'' \<noteq> chunkFileNameForOrdinal a"
proof -
  show ne: "chunkFileNameForOrdinal a \<noteq> chunkFileNameForOrdinal b @ ''.tmp''"
  proof
    assume "chunkFileNameForOrdinal a = chunkFileNameForOrdinal b @ ''.tmp''"
    then have "last (chunkFileNameForOrdinal a) = CHR ''p''" by simp
    then show False using chunk_name_last(1) [of a] by simp
  qed
  show "chunkFileNameForOrdinal b @ ''.tmp'' \<noteq> chunkFileNameForOrdinal a" using ne by (rule not_sym)
qed

lemma chunk_tmp_not_index: "\<not> index_file (chunkFileNameForOrdinal n @ ''.tmp'')"
  using chunk_name_digit [of n] chunk_name_last(2) [of n] by (intro digit_not_index_file) (simp add: hd_append2)

section \<open>Writing chunks\<close>

text \<open>
  All writers store a list of named, tagged chunks; they touch no other file than these and the
  temporary files next to them.
\<close>

type_synonym named_chunk = "string \<times> kvPair list \<times> u64"

abbreviation chunk_items :: "kvPair list \<Rightarrow> u64 \<Rightarrow> log_item list" where
  "chunk_items kvs b \<equiv> rec_items kvs @ tag_items b"

definition touched :: "string set \<Rightarrow> string set" where
  "touched names = names \<union> (\<lambda>n. n @ ''.tmp'') ` names"

definition stores :: "folder \<Rightarrow> folder \<Rightarrow> named_chunk list \<Rightarrow> bool" where
  "stores files files' ncs \<longleftrightarrow>
     (\<forall>(n, kvs, b) \<in> set ncs. files' n = Some (chunk_log (chunk_items kvs b))) \<and>
     (\<forall>p. p \<notin> touched (fst ` set ncs) \<longrightarrow> files' p = files p)"

definition as_chunks :: "named_chunk list \<Rightarrow> chunk list" where
  "as_chunks ncs = map (\<lambda>(n, kvs, b). (\<lparr>FileName = n, KeyStart = fst (kvs ! 0)\<rparr>, chunk_items kvs b)) ncs"

fun pairs :: "named_chunk list \<Rightarrow> kvPair list" where
  "pairs [] = []"
| "pairs ((n, kvs, b) # ncs) = kvs @ pairs ncs"

definition is_chunk_name :: "string \<Rightarrow> bool" where
  "is_chunk_name n \<longleftrightarrow> (\<exists>i. n = chunkFileNameForOrdinal i)"

lemma chunk_name_clash: "is_chunk_name a \<Longrightarrow> is_chunk_name b \<Longrightarrow> a \<noteq> b @ ''.tmp''"
  by (auto simp: is_chunk_name_def)

lemma stores_Nil [simp]: "stores files files []"
  by (simp add: stores_def)

lemma stores_Cons:
  assumes "files1 n = Some (chunk_log (chunk_items kvs b))" "\<And>p. p \<noteq> n \<Longrightarrow> p \<noteq> n @ ''.tmp'' \<Longrightarrow> files1 p = files p"
    and r: "stores files1 files' ncs" and "n \<notin> fst ` set ncs" "\<forall>m \<in> insert n (fst ` set ncs). is_chunk_name m"
  shows "stores files files' ((n, kvs, b) # ncs)"
proof -
  have "n \<notin> touched (fst ` set ncs)" using assms(4,5) chunk_name_clash by (auto simp: touched_def)
  then have "files' n = files1 n" using r by (simp add: stores_def)
  moreover have "files' p = files p" if "p \<notin> touched (fst ` set ((n, kvs, b) # ncs))" for p
    using that r assms(2) by (auto simp: stores_def touched_def)
  ultimately show ?thesis using assms(1) r by (auto simp: stores_def)
qed

lemma writeChunkFile_stores:
  assumes "\<forall>kv \<in> set kvs. entry_ok kv" "is_chunk_name n"
  shows "\<exists>files1. writeChunkFile files n kvs b = Inr files1 \<and> files1 n = Some (chunk_log (chunk_items kvs b)) \<and>
     (\<forall>p. p \<noteq> n \<longrightarrow> p \<noteq> n @ ''.tmp'' \<longrightarrow> files1 p = files p)"
  using assms chunk_name_clash [OF assms(2) assms(2)] serializeChunkPayload_log [OF assms(1)]
    appendChunkCommitTag_log [of "rec_items kvs" b]
  by (simp add: writeChunkFile_def writeFileAtomic_def del: append_assoc)

definition allocated :: "int \<Rightarrow> nat \<Rightarrow> string list" where
  "allocated ord n = map (\<lambda>i. chunkFileNameForOrdinal (word_of_int (ord + int i))) [0..<n]"

lemma allocated_Suc: "allocated ord (Suc n) = chunkFileNameForOrdinal (word_of_int ord) # allocated (ord + 1) n"
  by (simp add: allocated_def upt_conv_Cons map_Suc_upt [symmetric] add.assoc del: upt_Suc)

lemma length_allocated [simp]: "length (allocated ord n) = n"
  by (simp add: allocated_def)

lemma allocated_names: "n \<in> set (allocated ord k) \<Longrightarrow> is_chunk_name n"
  by (auto simp: allocated_def is_chunk_name_def)

lemma parse_ordinal: "0 \<le> x \<Longrightarrow> x < 2 ^ 32 \<Longrightarrow> parseChunkOrdinal (chunkFileNameForOrdinal (word_of_int x)) = x"
  by (simp add: unat_eq_nat_uint uint_word_of_int del: of_int_add)

lemma allocated_ordinal:
  assumes "n \<in> set (allocated ord k)" "0 \<le> ord" "ord + int k < 2 ^ 32"
  shows "ord \<le> parseChunkOrdinal n" "parseChunkOrdinal n < ord + int k"
proof -
  obtain i where i: "i < k" "n = chunkFileNameForOrdinal (word_of_int (ord + int i))" using assms(1) by (auto simp: allocated_def)
  then have "parseChunkOrdinal n = ord + int i" unfolding i(2) using assms by (intro parse_ordinal) auto
  then show "ord \<le> parseChunkOrdinal n" "parseChunkOrdinal n < ord + int k" using i(1) by simp_all
qed

lemma distinct_allocated: "0 \<le> ord \<Longrightarrow> ord + int k < 2 ^ 32 \<Longrightarrow> distinct (allocated ord k)"
proof -
  assume b: "0 \<le> ord" "ord + int k < 2 ^ 32"
  have "inj_on (\<lambda>i. chunkFileNameForOrdinal (word_of_int (ord + int i))) (set [0..<k])"
  proof (rule inj_onI)
    fix i j assume ij: "i \<in> set [0..<k]" "j \<in> set [0..<k]"
      and e: "chunkFileNameForOrdinal (word_of_int (ord + int i)) = chunkFileNameForOrdinal (word_of_int (ord + int j))"
    have "ord + int i = ord + int j"
      using arg_cong [OF e, of parseChunkOrdinal] parse_ordinal [of "ord + int i"] parse_ordinal [of "ord + int j"] b ij
      by (simp only:) simp
    then show "i = j" by simp
  qed
  then show ?thesis by (simp add: allocated_def distinct_map)
qed

abbreviation tagged :: "string list \<Rightarrow> kvPair list list \<Rightarrow> u64 \<Rightarrow> named_chunk list" where
  "tagged names chunks b \<equiv> zip names (map (\<lambda>c. (c, b)) chunks)"

lemma set_zip_names: "fst ` set (zip xs ys) \<subseteq> set xs"
  by (auto dest: set_zip_leftD)

lemma first_not_allocated: "0 \<le> ord \<Longrightarrow> ord + int (Suc k) < 2 ^ 32 \<Longrightarrow>
    chunkFileNameForOrdinal (word_of_int ord) \<notin> set (allocated (ord + 1) k)"
  using distinct_allocated [of ord "Suc k"] by (simp add: allocated_Suc)

lemma stores_first:
  assumes "files1 (chunkFileNameForOrdinal (word_of_int ord)) = Some (chunk_log (chunk_items kvs b))"
    and "\<And>p. p \<noteq> chunkFileNameForOrdinal (word_of_int ord) \<Longrightarrow> p \<noteq> chunkFileNameForOrdinal (word_of_int ord) @ ''.tmp'' \<Longrightarrow>
      files1 p = files p"
    and r: "stores files1 files' (zip (allocated (ord + 1) (length chunks)) chunks)"
    and "0 \<le> ord" "ord + int (Suc (length chunks)) < 2 ^ 32"
  shows "stores files files' (zip (allocated ord (Suc (length chunks))) ((kvs, b) # chunks))"
proof -
  have f: "fst ` set (zip (allocated (ord + 1) (length chunks)) chunks) \<subseteq> set (allocated (ord + 1) (length chunks))"
    by (rule set_zip_names)
  have "chunkFileNameForOrdinal (word_of_int ord) \<notin> fst ` set (zip (allocated (ord + 1) (length chunks)) chunks)"
    using first_not_allocated [OF assms(4,5)] f by blast
  moreover have "\<forall>m \<in> insert (chunkFileNameForOrdinal (word_of_int ord)) (fst ` set (zip (allocated (ord + 1) (length chunks)) chunks)).
      is_chunk_name m" using f allocated_names by (auto simp: is_chunk_name_def)
  ultimately show ?thesis unfolding allocated_Suc zip_Cons_Cons by (intro stores_Cons [OF assms(1,2) r])
qed

lemma write_tagged_stores:
  "\<forall>(kvs, b) \<in> set chunks. \<forall>kv \<in> set kvs. entry_ok kv \<Longrightarrow> int i + int (length chunks) < 2 ^ 32 \<Longrightarrow>
   \<exists>files'. write_tagged files i chunks = (files', Inr (map fst (as_chunks (zip (allocated (int i) (length chunks)) chunks)))) \<and>
     stores files files' (zip (allocated (int i) (length chunks)) chunks)"
proof (induction chunks arbitrary: files i)
  case (Cons c chunks)
  obtain kvs b where c: "c = (kvs, b)" by fastforce
  have n: "chunkFileNameForOrdinal (word_of_int (int i)) = chunkFileNameForOrdinal (word_of_nat i)" by simp
  obtain files1 where w: "writeChunkFile files (chunkFileNameForOrdinal (word_of_nat i)) kvs b = Inr files1"
    "files1 (chunkFileNameForOrdinal (word_of_nat i)) = Some (chunk_log (chunk_items kvs b))"
    "\<forall>p. p \<noteq> chunkFileNameForOrdinal (word_of_nat i) \<longrightarrow> p \<noteq> chunkFileNameForOrdinal (word_of_nat i) @ ''.tmp'' \<longrightarrow> files1 p = files p"
    using writeChunkFile_stores [of kvs "chunkFileNameForOrdinal (word_of_nat i)" files b] Cons.prems(1) c by (auto simp: is_chunk_name_def)
  obtain files' where r: "write_tagged files1 (i + 1) chunks =
      (files', Inr (map fst (as_chunks (zip (allocated (int i + 1) (length chunks)) chunks))))"
    "stores files1 files' (zip (allocated (int i + 1) (length chunks)) chunks)"
    using Cons.IH [of "i + 1" files1] Cons.prems by (auto simp: add.commute)
  have s: "stores files files' (zip (allocated (int i) (Suc (length chunks))) ((kvs, b) # chunks))"
    by (rule stores_first [of files1 "int i" kvs b files files' chunks]) (use w(2,3) r(2) Cons.prems(2) in auto)
  moreover have "write_tagged files i (c # chunks) =
      (files', Inr (map fst (as_chunks (zip (allocated (int i) (Suc (length chunks))) ((kvs, b) # chunks)))))"
    using w(1) r(1) by (simp add: c allocated_Suc as_chunks_def)
  ultimately show ?case by (auto simp: c)
qed (simp add: as_chunks_def)

lemma rewrite_files_stores:
  "\<forall>kvs \<in> set chunks. \<forall>kv \<in> set kvs. entry_ok kv \<Longrightarrow> 0 \<le> ca_next alloc \<Longrightarrow> ca_next alloc + int (length chunks) < 2 ^ 32 \<Longrightarrow>
   \<exists>files'. rewrite_files files meta False idx alloc b chunks =
       (files', alloc\<lparr>ca_next := ca_next alloc + int (length chunks)\<rparr>,
        Inr (map fst (as_chunks (tagged (allocated (ca_next alloc) (length chunks)) chunks b)))) \<and>
     stores files files' (tagged (allocated (ca_next alloc) (length chunks)) chunks b)"
proof (induction chunks arbitrary: files idx alloc)
  case (Cons kvs chunks)
  let ?n = "chunkFileNameForOrdinal (word_of_int (ca_next alloc))"
  obtain files1 where w: "writeChunkFile files ?n kvs b = Inr files1" "files1 ?n = Some (chunk_log (chunk_items kvs b))"
    "\<forall>p. p \<noteq> ?n \<longrightarrow> p \<noteq> ?n @ ''.tmp'' \<longrightarrow> files1 p = files p"
    using writeChunkFile_stores [of kvs ?n files b] Cons.prems(1) by (auto simp: is_chunk_name_def)
  define alloc1 where "alloc1 = alloc\<lparr>ca_next := ca_next alloc + 1\<rparr>"
  obtain files' where r: "rewrite_files files1 meta False (idx + 1) alloc1 b chunks =
      (files', alloc\<lparr>ca_next := ca_next alloc + int (length (kvs # chunks))\<rparr>,
       Inr (map fst (as_chunks (tagged (allocated (ca_next alloc + 1) (length chunks)) chunks b))))"
    "stores files1 files' (tagged (allocated (ca_next alloc + 1) (length chunks)) chunks b)"
    using Cons.IH [of alloc1 files1 "idx + 1"] Cons.prems by (auto simp: alloc1_def add.assoc)
  have "stores files files' (zip (allocated (ca_next alloc) (Suc (length (map (\<lambda>c. (c, b)) chunks)))) ((kvs, b) # map (\<lambda>c. (c, b)) chunks))"
    by (rule stores_first [of files1 "ca_next alloc" kvs b files files' "map (\<lambda>c. (c, b)) chunks"]) (use w(2,3) r(2) Cons.prems in auto)
  moreover have "rewrite_files files meta False idx alloc b (kvs # chunks) =
      (files', alloc\<lparr>ca_next := ca_next alloc + int (length (kvs # chunks))\<rparr>,
       Inr (map fst (as_chunks (tagged (allocated (ca_next alloc) (length (kvs # chunks))) (kvs # chunks) b))))"
    using w(1) r(1) by (simp add: nextName_def alloc1_def allocated_Suc as_chunks_def)
  ultimately show ?case by auto
qed (simp add: as_chunks_def)

lemma write_chunks_stores:
  "\<forall>kvs \<in> set chunks. \<forall>kv \<in> set kvs. entry_ok kv \<Longrightarrow>
   ord = (case alloc of None \<Rightarrow> int idx | Some a \<Rightarrow> ca_next a) \<Longrightarrow> 0 \<le> ord \<Longrightarrow> ord + int (length chunks) < 2 ^ 32 \<Longrightarrow>
   \<exists>files' a. write_chunks files alloc idx b chunks =
       (files', a, Inr (map fst (as_chunks (tagged (allocated ord (length chunks)) chunks b)))) \<and>
     stores files files' (tagged (allocated ord (length chunks)) chunks b)"
proof (induction chunks arbitrary: files idx alloc ord)
  case (Cons kvs chunks)
  let ?n = "chunkFileNameForOrdinal (word_of_int ord)"
  define alloc1 where "alloc1 = map_option (\<lambda>a. a\<lparr>ca_next := ca_next a + 1\<rparr>) alloc"
  define files1 where "files1 = files(?n \<mapsto> chunk_log (chunk_items kvs b))"
  have ser: "serializeChunkPayload kvs = Inr (chunk_log (rec_items kvs))"
    using Cons.prems(1) by (intro serializeChunkPayload_log) simp
  obtain files' a where r: "write_chunks files1 alloc1 (idx + 1) b chunks =
      (files', a, Inr (map fst (as_chunks (tagged (allocated (ord + 1) (length chunks)) chunks b))))"
    "stores files1 files' (tagged (allocated (ord + 1) (length chunks)) chunks b)"
    using Cons.IH [where ord = "ord + 1" and alloc = alloc1 and idx = "idx + 1" and files = files1] Cons.prems by (auto simp: alloc1_def add.commute split: option.splits)
  have "stores files files' (zip (allocated ord (Suc (length (map (\<lambda>c. (c, b)) chunks)))) ((kvs, b) # map (\<lambda>c. (c, b)) chunks))"
    by (rule stores_first [of files1 ord kvs b files files' "map (\<lambda>c. (c, b)) chunks"]) (use r(2) Cons.prems in \<open>auto simp: files1_def\<close>)
  moreover have "write_chunks files alloc idx b (kvs # chunks) =
      (files', a, Inr (map fst (as_chunks (tagged (allocated ord (length (kvs # chunks))) (kvs # chunks) b))))"
    using ser r(1) Cons.prems(2) appendChunkCommitTag_log [of "rec_items kvs" b]
    by (cases alloc) (simp_all add: nextName_def alloc1_def files1_def allocated_Suc as_chunks_def)
  ultimately show ?case by auto
qed (simp add: as_chunks_def)

section \<open>Written chunks\<close>

definition fits :: "named_chunk list \<Rightarrow> bool" where
  "fits ncs \<longleftrightarrow> (\<forall>(n, kvs, b) \<in> set ncs. kvs \<noteq> [] \<and> (\<forall>kv \<in> set kvs. entry_ok kv) \<and> int (payloadSize kvs) < 2 ^ 31)"

lemma as_chunks_simps [simp]:
  "as_chunks [] = []"
  "as_chunks ((n, kvs, b) # ncs) = (\<lparr>FileName = n, KeyStart = fst (kvs ! 0)\<rparr>, chunk_items kvs b) # as_chunks ncs"
  by (simp_all add: as_chunks_def)

lemma as_chunks_names: "map (FileName \<circ> fst) (as_chunks ncs) = map fst ncs"
  by (induction ncs rule: pairs.induct) auto

lemma content_as_chunks: "content (as_chunks ncs) = newest (pairs ncs)"
  by (induction ncs rule: pairs.induct) auto

lemma as_chunks_keys: "c \<in> set (as_chunks ncs) \<Longrightarrow> fits ncs \<Longrightarrow> chunk_start c \<in> chunk_keys c \<and> chunk_keys c \<subseteq> fst ` set (pairs ncs)"
proof (induction ncs rule: pairs.induct)
  case (2 n kvs b ncs)
  have f: "fits ncs" "kvs \<noteq> []" using "2.prems"(2) by (auto simp: fits_def)
  show ?case
  proof (cases "c \<in> set (as_chunks ncs)")
    case True
    then show ?thesis using "2.IH" [OF True f(1)] by auto
  next
    case False
    then show ?thesis using "2.prems"(1) f(2) by auto
  qed
qed simp

lemma ordered_as_chunks: "strict_keys (pairs ncs) \<Longrightarrow> fits ncs \<Longrightarrow> ordered (as_chunks ncs)"
proof (induction ncs)
  case (Cons x ncs)
  obtain n kvs b where x: "x = (n, kvs, b)" using prod_cases3 by blast
  have f: "fits ncs" "kvs \<noteq> []" using Cons.prems(2) by (auto simp: fits_def x)
  have s: "strict_keys kvs" "strict_keys (pairs ncs)" "\<forall>k \<in> fst ` set kvs. \<forall>k' \<in> fst ` set (pairs ncs). k < k'"
    using Cons.prems(1) by (auto simp: x sorted_wrt_append)
  have "fst (kvs ! 0) \<le> k" if "k \<in> fst ` set kvs" for k using s(1) that by (cases kvs) (auto simp: less_imp_le)
  moreover have "before (\<lparr>FileName = n, KeyStart = fst (kvs ! 0)\<rparr>, chunk_items kvs b) d" if d: "d \<in> set (as_chunks ncs)" for d
  proof -
    have "chunk_start d \<in> fst ` set (pairs ncs)" using as_chunks_keys [OF d f(1)] by blast
    then have "\<forall>k \<in> fst ` set kvs. k < chunk_start d" using s(3) by blast
    moreover have "kvs ! 0 \<in> set kvs" using f(2) by simp
    ultimately show ?thesis by (simp add: before_def)
  qed
  ultimately show ?case using Cons.IH [OF s(2) f(1)] by (simp add: x ordered_Cons)
qed simp

lemma length_tag_items: "length (chunk_log (tag_items b)) \<le> 12"
  by (simp add: tag_items_def commitTagRecordSize_def)

lemma length_chunk_items: "length (chunk_log (chunk_items kvs b)) \<le> payloadSize kvs + 12"
  using length_tag_items [of b] length_rec_log(2) [of kvs] by (simp add: payloadSize_sum)

lemma stores_chunk_ok:
  assumes "stores files files' ncs" "fits ncs"
  shows "\<forall>c \<in> set (as_chunks ncs). chunk_ok files' c"
proof
  fix c assume "c \<in> set (as_chunks ncs)"
  then obtain n kvs b where m: "(n, kvs, b) \<in> set ncs" "c = (\<lparr>FileName = n, KeyStart = fst (kvs ! 0)\<rparr>, chunk_items kvs b)"
    by (auto simp: as_chunks_def)
  have f: "kvs \<noteq> []" "\<forall>kv \<in> set kvs. entry_ok kv" "int (payloadSize kvs) < 2 ^ 31" using assms(2) m(1) by (auto simp: fits_def)
  have "int (length (chunk_log (chunk_items kvs b))) < 2 ^ 32" using length_chunk_items [of kvs b] f(3) by simp
  then have "length (chunk_log (chunk_items kvs b)) < 2 ^ 32" by simp
  moreover have "files' n = Some (chunk_log (chunk_items kvs b))" using assms(1) m(1) by (auto simp: stores_def)
  ultimately show "chunk_ok files' c" using f(1) commit_items_ok [OF f(2), of b] m(2) by (simp add: chunk_ok_def)
qed

lemma entry_bytes_bound: "entry_ok kv \<Longrightarrow> entry_bytes kv \<le> 4 + 2 * 0xFFFF"
  by (auto simp: entry_ok_def entry_bytes_def segmentedChunkEntryHeaderSize_def split: prod.splits)

lemma split_payload:
  assumes "c \<in> set (splitEntriesBySize kvs limit)" "\<forall>kv \<in> set kvs. entry_ok kv" "limit < 2 ^ 31"
  shows "int (payloadSize c) < 2 ^ 31" "\<forall>kv \<in> set c. entry_ok kv" "c \<noteq> []"
proof -
  have "set c \<subseteq> set (concat (splitEntriesBySize kvs limit))" using assms(1) by auto
  then show e: "\<forall>kv \<in> set c. entry_ok kv" using assms(2) by (auto simp: split_bounds(1))
  show "c \<noteq> []" by (rule split_bounds(2) [OF assms(1)])
  have "int (payloadSize c) \<le> limit \<or> length c = 1" by (rule split_bounds(3) [OF assms(1)])
  then show "int (payloadSize c) < 2 ^ 31"
  proof
    assume "length c = 1"
    then obtain kv where "c = [kv]" by (cases c) auto
    then show ?thesis using e entry_bytes_bound [of kv] by (simp add: payloadSize_sum)
  qed (use assms(3) in simp)
qed

lemma length_split: "length (splitEntriesBySize kvs limit) \<le> length kvs"
  using length_concat_ge [of "splitEntriesBySize kvs limit"] split_bounds(1,2) by metis

section \<open>One chunk takes its part of a commit\<close>

definition cfg_ok :: "folder_config \<Rightarrow> bool" where
  "cfg_ok cfg \<longleftrightarrow> segmentedChunkTriggerSize cfg < 2 ^ 31 \<and> segmentedChunkTargetSize cfg < 2 ^ 31"

definition overflows :: "folder_config \<Rightarrow> chunk \<Rightarrow> kvPair list \<Rightarrow> bool" where
  "overflows cfg c adds \<longleftrightarrow>
     adds \<noteq> [] \<and> int (length (chunk_log (snd c))) + int (payloadSize adds) > segmentedChunkTriggerSize cfg"

text \<open>The records of the chunk as the commit leaves them: a rewrite lets the oldest version of a key decide.\<close>

definition kept :: "folder_config \<Rightarrow> chunk \<times> kvPair list \<Rightarrow> kvPair list" where
  "kept cfg ca = (if overflows cfg (fst ca) (snd ca) then rev (records (snd (fst ca))) else records (snd (fst ca)))"

definition grown :: "chunk \<times> kvPair list \<Rightarrow> chunk" where
  "grown ca = (fst (fst ca), snd (fst ca) @ rec_items (snd ca))"

definition becomes :: "folder_config \<Rightarrow> chunk \<times> kvPair list \<Rightarrow> chunk list \<Rightarrow> bool" where
  "becomes cfg ca ds \<longleftrightarrow> ds \<noteq> [] \<and> ordered ds \<and> content ds = newest (kept cfg ca) ++ map_of (snd ca) \<and>
     length ds \<le> length (records (snd (grown ca))) \<and>
     (\<forall>d \<in> set ds. chunk_start (fst ca) \<le> chunk_start d \<and> chunk_start d \<in> insert (chunk_start (fst ca)) (chunk_keys (grown ca)) \<and>
        chunk_keys d \<subseteq> chunk_keys (grown ca))"

definition adds_ok :: "chunk \<times> kvPair list \<Rightarrow> bool" where
  "adds_ok ca \<longleftrightarrow> strict_keys (snd ca) \<and> (\<forall>kv \<in> set (snd ca). entry_ok kv) \<and>
     (\<forall>k \<in> chunk_keys (grown ca). chunk_start (fst ca) \<le> k) \<and> chunk_start (fst ca) \<noteq> []"

lemma sizes_positive: "0 < segmentedChunkTriggerSize cfg" "0 < segmentedChunkTargetSize cfg"
  by (auto simp: segmentedChunkTriggerSize_def segmentedChunkTargetSize_def)

lemma pairs_tagged: "length names = length chunks \<Longrightarrow> pairs (tagged names chunks b) = concat chunks"
  by (induction names chunks rule: list_induct2) auto

lemma fits_tagged:
  assumes "\<forall>kv \<in> set kvs. entry_ok kv" "limit < 2 ^ 31"
  shows "fits (tagged names (splitEntriesBySize kvs limit) b)"
proof -
  have "kvs' \<noteq> [] \<and> (\<forall>kv \<in> set kvs'. entry_ok kv) \<and> int (payloadSize kvs') < 2 ^ 31"
    if "(n, kvs', b') \<in> set (tagged names (splitEntriesBySize kvs limit) b)" for n kvs' b'
  proof -
    have "kvs' \<in> set (splitEntriesBySize kvs limit)" using set_zip_rightD [OF that] by auto
    from split_payload [OF this assms] show ?thesis by simp
  qed
  then show ?thesis unfolding fits_def by blast
qed

lemma readSegmentChunkFile_ok:
  assumes "chunk_ok files c"
  shows "readSegmentChunkFile files (FileName (fst c)) = Inr (records (snd c), chunk_log (snd c))"
proof -
  have o: "\<forall>it \<in> set (snd c). item_ok it" "files (FileName (fst c)) = Some (chunk_log (snd c))"
    "length (chunk_log (snd c)) < 2 ^ 32" "snd c \<noteq> []" using assms by (auto simp: chunk_ok_def)
  have "chunk_log (snd c) \<noteq> []" using o(4) enc_not_Nil by (cases "snd c") auto
  moreover have "\<not> int (length (chunk_log (snd c))) > 2 ^ 32 - 1" using o(3) by simp
  ultimately show ?thesis
    using o chunk_pairs_log [OF o(1)] by (simp add: readSegmentChunkFile_def readSegmentFileBuffer_def)
qed

text \<open>The merged records of a rewrite.\<close>

lemma rewrite_merged:
  fixes es adds :: "kvPair list"
  assumes "strict_keys adds" "adds \<noteq> []"
  defines "merged \<equiv> mergeAndDedupPairs (if length es > 1 then maybeNormalizeChunkEntries es else es) adds"
  shows "strict_keys merged" "map_of merged = map_of es ++ map_of adds" "merged \<noteq> []" "set merged \<subseteq> set es \<union> set adds"
    "length merged \<le> length es + length adds"
proof -
  let ?e = "if length es > 1 then maybeNormalizeChunkEntries es else es"
  have e: "strict_keys ?e" "map_of ?e = map_of es" using maybeNormalize_oldest [of es] by (cases es; auto)+
  show m: "strict_keys merged" "map_of merged = map_of es ++ map_of adds"
    using mergeAndDedup_map [OF e(1) assms(1)] e(2) by (simp_all add: merged_def)
  show sub: "set merged \<subseteq> set es \<union> set adds"
  proof
    fix kv assume "kv \<in> set merged"
    then have "map_of merged (fst kv) = Some (snd kv)"
      using m(1) by (intro map_of_is_SomeI) (auto dest: strict_keys_distinct)
    then have "map_of adds (fst kv) = Some (snd kv) \<or> map_of es (fst kv) = Some (snd kv)"
      unfolding m(2) by (auto simp: map_add_Some_iff)
    then show "kv \<in> set es \<union> set adds" by (auto dest: map_of_SomeD)
  qed
  obtain k v where kv: "(k, v) \<in> set adds" using assms(2) by (cases adds) auto
  then have "k \<in> dom (map_of merged)" unfolding m(2) dom_map_add dom_map_of_conv_image_fst by (metis UnCI fst_conv image_eqI)
  then show "merged \<noteq> []" by auto
  have "distinct merged" using strict_keys_distinct [OF m(1)] by (simp add: distinct_map)
  then have "card (set merged) = length merged" by (rule distinct_card)
  moreover have "card (set merged) \<le> card (set es \<union> set adds)" using sub by (intro card_mono) auto
  ultimately show "length merged \<le> length es + length adds"
    using card_Un_le [of "set es" "set adds"] card_length [of es] card_length [of adds] by linarith
qed

text \<open>The names of the chunks that a rewrite produces: the old name or fresh ordinals.\<close>

definition fresh_names :: "int \<Rightarrow> int \<Rightarrow> string set" where
  "fresh_names lo hi = {n. is_chunk_name n \<and> lo \<le> parseChunkOrdinal n \<and> parseChunkOrdinal n < hi}"

definition mutated :: "folder_config \<Rightarrow> folder \<Rightarrow> chunkFileAllocator \<Rightarrow> chunk \<times> kvPair list \<Rightarrow>
    folder \<Rightarrow> chunkFileAllocator \<Rightarrow> chunk list \<Rightarrow> bool" where
  "mutated cfg files alloc ca files' alloc' ds \<longleftrightarrow> becomes cfg ca ds \<and> (\<forall>d \<in> set ds. chunk_ok files' d) \<and>
     distinct (map (FileName \<circ> fst) ds) \<and> ca_next alloc \<le> ca_next alloc' \<and>
     ca_next alloc' \<le> ca_next alloc + int (length (records (snd (grown ca)))) \<and>
     (\<forall>d \<in> set ds. FileName (fst d) \<in> insert (FileName (fst (fst ca))) (fresh_names (ca_next alloc) (ca_next alloc'))) \<and>
     (\<forall>p. p \<notin> touched (insert (FileName (fst (fst ca))) (fresh_names (ca_next alloc) (ca_next alloc'))) \<longrightarrow> files' p = files p)"

lemma stores_frame: "stores files files' ncs \<Longrightarrow> fst ` set ncs \<subseteq> N \<Longrightarrow> p \<notin> touched N \<Longrightarrow> files' p = files p"
proof -
  assume s: "stores files files' ncs" and sub: "fst ` set ncs \<subseteq> N" and p: "p \<notin> touched N"
  have "touched (fst ` set ncs) \<subseteq> touched N" using sub unfolding touched_def by blast
  then have "p \<notin> touched (fst ` set ncs)" using p by blast
  then show "files' p = files p" using s by (simp add: stores_def)
qed

lemma records_entry_ok: "\<forall>it \<in> set xs. item_ok it \<Longrightarrow> \<forall>kv \<in> set (records xs). entry_ok kv"
  by (induction xs rule: records.induct) (auto simp: entry_ok_def)

lemma becomes_written:
  assumes a: "adds_ok (c, adds)" and ov: "overflows cfg c adds"
    and ncs: "strict_keys (pairs ncs)" "fits ncs" "map_of (pairs ncs) = map_of (records (snd c)) ++ map_of adds"
      "ncs \<noteq> []" "length ncs \<le> length (records (snd c)) + length adds"
  shows "becomes cfg (c, adds) (as_chunks ncs)"
proof -
  have "dom (map_of (pairs ncs)) = chunk_keys (grown (c, adds))" unfolding ncs(3) by (auto simp: dom_map_of_conv_image_fst grown_def)
  then have keys: "fst ` set (pairs ncs) = chunk_keys (grown (c, adds))" by (simp add: dom_map_of_conv_image_fst)
  have "chunk_start c \<le> chunk_start d \<and> chunk_start d \<in> insert (chunk_start c) (chunk_keys (grown (c, adds))) \<and>
      chunk_keys d \<subseteq> chunk_keys (grown (c, adds))" if d: "d \<in> set (as_chunks ncs)" for d
    using as_chunks_keys [OF d ncs(2)] a unfolding keys adds_ok_def fst_conv by blast
  moreover have "content (as_chunks ncs) = newest (kept cfg (c, adds)) ++ map_of adds"
    using ncs(3) ov newest_distinct [OF strict_keys_distinct [OF ncs(1)]] by (simp add: content_as_chunks kept_def)
  moreover have "as_chunks ncs \<noteq> []" "length (as_chunks ncs) = length ncs" using ncs(4) by (simp_all add: as_chunks_def)
  ultimately show ?thesis using ordered_as_chunks [OF ncs(1,2)] ncs(5) unfolding becomes_def by (simp add: grown_def)
qed

lemma rewrite_once:
  assumes "\<forall>kv \<in> set kvs. entry_ok kv" "is_chunk_name (FileName meta)"
  shows "\<exists>files'. rewrite_files files meta True 0 alloc b [kvs] = (files', alloc, Inr (map fst (as_chunks [(FileName meta, kvs, b)]))) \<and>
     stores files files' [(FileName meta, kvs, b)]"
proof -
  obtain files1 where w: "writeChunkFile files (FileName meta) kvs b = Inr files1"
    "files1 (FileName meta) = Some (chunk_log (chunk_items kvs b))"
    "\<forall>p. p \<noteq> FileName meta \<longrightarrow> p \<noteq> FileName meta @ ''.tmp'' \<longrightarrow> files1 p = files p"
    using writeChunkFile_stores [OF assms, of files b] by blast
  then show ?thesis using stores_Cons [of files1 "FileName meta" kvs b files files1 "[]"] assms(2) by simp
qed

lemma rewriteChunk_mutated:
  assumes c: "chunk_ok files c" "is_chunk_name (FileName (fst c))" and a: "adds_ok (c, adds)" and ov: "overflows cfg c adds"
    and cfg: "cfg_ok cfg" and al: "0 \<le> ca_next alloc" "ca_next alloc + int (length (records (snd (grown (c, adds))))) < 2 ^ 32"
  shows "\<exists>files' alloc' ds. rewriteChunkWithDedup cfg files (fst c) adds alloc None b = (files', alloc', Inr (map fst ds)) \<and>
     mutated cfg files alloc (c, adds) files' alloc' ds"
proof -
  let ?es = "records (snd c)"
  define merged where "merged = mergeAndDedupPairs (if length ?es > 1 then maybeNormalizeChunkEntries ?es else ?es) adds"
  define chunks where "chunks = splitEntriesBySize merged (segmentedChunkTargetSize cfg)"
  have ne: "adds \<noteq> []" and sk: "strict_keys adds" using a ov by (auto simp: adds_ok_def overflows_def)
  note m = rewrite_merged [OF sk ne, of ?es, folded merged_def]
  have "\<forall>kv \<in> set ?es. entry_ok kv" by (rule records_entry_ok) (use c(1) in \<open>simp add: chunk_ok_def\<close>)
  then have e: "\<forall>kv \<in> set merged. entry_ok kv" using m(4) a by (auto simp: adds_ok_def)
  have lim: "segmentedChunkTargetSize cfg < 2 ^ 31" using cfg by (simp add: cfg_ok_def)
  have ce: "\<forall>kvs \<in> set chunks. \<forall>kv \<in> set kvs. entry_ok kv" using split_payload(2) [OF _ e lim] by (auto simp: chunks_def)
  have con: "concat chunks = merged" by (simp add: chunks_def split_bounds(1))
  have len: "length chunks \<le> length ?es + length adds" using length_split [of merged "segmentedChunkTargetSize cfg"] m(5) by (simp add: chunks_def)
  have grown: "length (records (snd (grown (c, adds)))) = length ?es + length adds" by (simp add: grown_def)
  have res: "rewriteChunkWithDedup cfg files (fst c) adds alloc None b = rewrite_files files (fst c) (length chunks = 1) 0 alloc b chunks"
    using readSegmentChunkFile_ok [OF c(1)] m(3) unfolding chunks_def merged_def by (simp add: rewriteChunkWithDedup_def Let_def split del: if_split)
  have ncs: "becomes cfg (c, adds) (as_chunks (tagged names chunks b))" "fits (tagged names chunks b)"
    if names: "length names = length chunks" for names
  proof -
    have p: "pairs (tagged names chunks b) = merged" using pairs_tagged [OF names] con by simp
    show f: "fits (tagged names chunks b)" unfolding chunks_def by (rule fits_tagged [OF e lim])
    have "tagged names chunks b \<noteq> []" using m(3) con names by (cases chunks; cases names) auto
    then show "becomes cfg (c, adds) (as_chunks (tagged names chunks b))"
      using becomes_written [OF a ov _ f] m(1,2) len names by (simp add: p)
  qed
  show ?thesis
  proof (cases "length chunks = 1")
    case True
    then obtain kvs where ch: "chunks = [kvs]" by (cases chunks) auto
    have "\<forall>kv \<in> set kvs. entry_ok kv" using ce ch by simp
    from rewrite_once [OF this c(2)] obtain files' where
      w: "rewrite_files files (fst c) True 0 alloc b [kvs] = (files', alloc, Inr (map fst (as_chunks [(FileName (fst c), kvs, b)])))"
        "stores files files' [(FileName (fst c), kvs, b)]" by blast
    have "mutated cfg files alloc (c, adds) files' alloc (as_chunks [(FileName (fst c), kvs, b)])"
      using ncs [of "[FileName (fst c)]"] w(2) stores_chunk_ok [OF w(2)] ch
      by (auto simp: mutated_def touched_def stores_def)
    moreover have "rewriteChunkWithDedup cfg files (fst c) adds alloc None b =
        (files', alloc, Inr (map fst (as_chunks [(FileName (fst c), kvs, b)])))"
      unfolding res ch using w(1) by (simp del: rewrite_files.simps)
    ultimately show ?thesis by blast
  next
    case False
    let ?names = "allocated (ca_next alloc) (length chunks)"
    define alloc' where "alloc' = alloc\<lparr>ca_next := ca_next alloc + int (length chunks)\<rparr>"
    have b32: "ca_next alloc + int (length chunks) < 2 ^ 32" using al(2) len grown by linarith
    obtain files' where w: "rewrite_files files (fst c) False 0 alloc b chunks = (files', alloc', Inr (map fst (as_chunks (tagged ?names chunks b))))"
      "stores files files' (tagged ?names chunks b)"
      using rewrite_files_stores [OF ce al(1) b32] alloc'_def by blast
    have fn: "n \<in> fresh_names (ca_next alloc) (ca_next alloc')" if "n \<in> set ?names" for n
      using allocated_ordinal [OF that al(1) b32] allocated_names [OF that] by (simp add: fresh_names_def alloc'_def)
    have nm: "map (FileName \<circ> fst) (as_chunks (tagged ?names chunks b)) = ?names"
      unfolding as_chunks_names by simp
    have set_nm: "(FileName \<circ> fst) ` set (as_chunks (tagged ?names chunks b)) = set ?names"
      using arg_cong [OF nm, of set] by simp
    have in_names: "FileName (fst d) \<in> insert (FileName (fst c)) (fresh_names (ca_next alloc) (ca_next alloc'))"
      if "d \<in> set (as_chunks (tagged ?names chunks b))" for d
      using that set_nm fn by force
    have sub: "fst ` set (tagged ?names chunks b) \<subseteq> fresh_names (ca_next alloc) (ca_next alloc')"
      using set_zip_names [of ?names "map (\<lambda>c. (c, b)) chunks"] fn by blast
    have "files' p = files p" if "p \<notin> touched (insert (FileName (fst c)) (fresh_names (ca_next alloc) (ca_next alloc')))" for p
      by (rule stores_frame [OF w(2) _ that]) (use sub in blast)
    moreover have "ca_next alloc \<le> ca_next alloc'" "ca_next alloc' \<le> ca_next alloc + int (length (records (snd (grown (c, adds)))))"
      using len grown by (simp_all add: alloc'_def)
    moreover have "distinct (map (FileName \<circ> fst) (as_chunks (tagged ?names chunks b)))"
      unfolding nm by (rule distinct_allocated [OF al(1) b32])
    ultimately have "mutated cfg files alloc (c, adds) files' alloc' (as_chunks (tagged ?names chunks b))"
      using ncs [of ?names] stores_chunk_ok [OF w(2)] in_names unfolding mutated_def fst_conv by simp
    then show ?thesis using res w(1) False by auto
  qed
qed

lemma payload_positive: "adds \<noteq> [] \<Longrightarrow> payloadSize adds \<noteq> 0"
  by (cases adds) (auto simp: payloadSize_sum entry_bytes_def segmentedChunkEntryHeaderSize_def split: prod.splits)

lemma append_mutated:
  assumes c: "chunk_ok files c" and a: "adds_ok (c, adds)" and ne: "adds \<noteq> []" and ov: "\<not> overflows cfg c adds" and cfg: "cfg_ok cfg"
  shows "mutated cfg files alloc (c, adds) (files(FileName (fst c) \<mapsto> chunk_log (snd c @ chunk_items adds b))) alloc
     [(fst c, snd c @ chunk_items adds b)]"
proof -
  have e: "\<forall>kv \<in> set adds. entry_ok kv" and st: "\<forall>k \<in> chunk_keys (grown (c, adds)). chunk_start c \<le> k"
    using a by (auto simp: adds_ok_def)
  have "int (length (chunk_log (snd c))) + int (payloadSize adds) < 2 ^ 31" using ov ne cfg by (simp add: overflows_def cfg_ok_def)
  then have "int (length (chunk_log (snd c @ chunk_items adds b))) < 2 ^ 32" using length_chunk_items [of adds b] by simp
  then have "length (chunk_log (snd c @ chunk_items adds b)) < 2 ^ 32" by simp
  then have "chunk_ok (files(FileName (fst c) \<mapsto> chunk_log (snd c @ chunk_items adds b))) (fst c, snd c @ chunk_items adds b)"
    using c commit_items_ok [OF e, of b] ne by (auto simp: chunk_ok_def)
  moreover have "becomes cfg (c, adds) [(fst c, snd c @ chunk_items adds b)]"
    using st ov ne newest_distinct [OF strict_keys_distinct, of adds] a
    by (auto simp: becomes_def ordered_Cons kept_def grown_def adds_ok_def Suc_le_eq)
  ultimately show ?thesis unfolding mutated_def by (auto simp: touched_def)
qed

lemma mutateSegmentChunk_mutated:
  assumes c: "chunk_ok files c" "is_chunk_name (FileName (fst c))" and a: "adds_ok (c, adds)" and ne: "adds \<noteq> []"
    and cfg: "cfg_ok cfg" and al: "0 \<le> ca_next alloc" "ca_next alloc + int (length (records (snd (grown (c, adds))))) < 2 ^ 32"
  shows "\<exists>files' alloc' ds. mutateSegmentChunk cfg files (fst c) adds alloc b = (files', alloc', Inr (map fst ds)) \<and>
     mutated cfg files alloc (c, adds) files' alloc' ds"
proof (cases "overflows cfg c adds")
  case True
  have "files (FileName (fst c)) = Some (chunk_log (snd c))" using c(1) by (simp add: chunk_ok_def)
  then have "mutateSegmentChunk cfg files (fst c) adds alloc b = rewriteChunkWithDedup cfg files (fst c) adds alloc None b"
    using True payload_positive [OF ne] sizes_positive(1) [of cfg] ne by (simp add: mutateSegmentChunk_def Let_def overflows_def)
  then show ?thesis using rewriteChunk_mutated [OF c a True cfg al] by simp
next
  case False
  have f: "files (FileName (fst c)) = Some (chunk_log (snd c))" using c(1) by (simp add: chunk_ok_def)
  have e: "\<forall>kv \<in> set adds. entry_ok kv" using a by (simp add: adds_ok_def)
  have w: "appendChunkFile files (FileName (fst c)) adds (chunk_log (snd c)) b =
      Inr (files(FileName (fst c) \<mapsto> chunk_log (snd c @ chunk_items adds b)))"
    using serializeChunkPayload_log [OF e] appendChunkCommitTag_log [of "rec_items adds" b] ne by (simp add: appendChunkFile_def)
  have "fst (hd adds) \<in> chunk_keys (grown (c, adds))" using ne by (cases adds) (auto simp: grown_def)
  then have "chunk_start c \<le> fst (hd adds)" "chunk_start c \<noteq> []" using a by (auto simp: adds_ok_def)
  then have r: "adjustMetaRange (fst c) adds = fst c" using ne by (cases adds) (auto simp: adjustMetaRange_def)
  have "mutateSegmentChunk cfg files (fst c) adds alloc b =
      (files(FileName (fst c) \<mapsto> chunk_log (snd c @ chunk_items adds b)), alloc, Inr (map fst [(fst c, snd c @ chunk_items adds b)]))"
    using False payload_positive [OF ne] sizes_positive(1) [of cfg] ne w f r
    by (simp add: mutateSegmentChunk_def Let_def overflows_def del: map_append)
  then show ?thesis using append_mutated [OF c(1) a ne False cfg] by blast
qed

section \<open>All chunks take their parts\<close>

abbreviation cname :: "chunk \<Rightarrow> string" where
  "cname c \<equiv> FileName (fst c)"

definition weight :: "(chunk \<times> kvPair list) list \<Rightarrow> nat" where
  "weight cas = sum_list (map (\<lambda>ca. length (records (snd (grown ca)))) cas)"

definition updated_to :: "folder_config \<Rightarrow> folder \<Rightarrow> chunkFileAllocator \<Rightarrow> (chunk \<times> kvPair list) list \<Rightarrow>
    folder \<Rightarrow> chunkFileAllocator \<Rightarrow> chunk list list \<Rightarrow> bool" where
  "updated_to cfg files alloc cas files' alloc' dss \<longleftrightarrow> list_all2 (becomes cfg) cas dss \<and>
     (\<forall>d \<in> set (concat dss). chunk_ok files' d) \<and> distinct (map cname (concat dss)) \<and>
     ca_next alloc \<le> ca_next alloc' \<and> ca_next alloc' \<le> ca_next alloc + int (weight cas) \<and>
     (\<forall>d \<in> set (concat dss). cname d \<in> cname ` fst ` set cas \<union> fresh_names (ca_next alloc) (ca_next alloc')) \<and>
     (\<forall>p. p \<notin> touched (cname ` fst ` set cas \<union> fresh_names (ca_next alloc) (ca_next alloc')) \<longrightarrow> files' p = files p)"

lemma touched_name: "is_chunk_name n \<Longrightarrow> \<forall>m \<in> N. is_chunk_name m \<Longrightarrow> n \<notin> N \<Longrightarrow> n \<notin> touched N"
  using chunk_name_clash by (auto simp: touched_def)

lemma touched_mono: "M \<subseteq> N \<Longrightarrow> touched M \<subseteq> touched N"
  unfolding touched_def by blast

lemma chunk_ok_frame: "chunk_ok files c \<Longrightarrow> files' (cname c) = files (cname c) \<Longrightarrow> chunk_ok files' c"
  by (simp add: chunk_ok_def)

lemma fresh_names_mono: "lo' \<le> lo \<Longrightarrow> hi \<le> hi' \<Longrightarrow> fresh_names lo hi \<subseteq> fresh_names lo' hi'"
  by (auto simp: fresh_names_def)

lemma becomes_unchanged: "adds_ok (c, []) \<Longrightarrow> records (snd c) \<noteq> [] \<Longrightarrow> becomes cfg (c, []) [c]"
  by (auto simp: becomes_def ordered_Cons kept_def overflows_def grown_def adds_ok_def rec_items_def Suc_le_eq)

lemma mutated_unchanged:
  assumes "chunk_ok files c" "adds_ok (c, [])"
  shows "mutated cfg files alloc (c, []) files alloc [c]"
  using assms becomes_unchanged [of c cfg] by (auto simp: mutated_def chunk_ok_def)

lemma updated_Cons:
  assumes m: "mutated cfg files alloc ca files1 alloc1 ds" and u: "updated_to cfg files1 alloc1 cas files' alloc' dss"
    and names: "\<forall>x \<in> set (ca # cas). is_chunk_name (cname (fst x)) \<and> parseChunkOrdinal (cname (fst x)) < ca_next alloc"
      "cname (fst ca) \<notin> cname ` fst ` set cas"
  shows "updated_to cfg files alloc (ca # cas) files' alloc' (ds # dss)"
proof -
  let ?N1 = "insert (cname (fst ca)) (fresh_names (ca_next alloc) (ca_next alloc1))"
  let ?N2 = "cname ` fst ` set cas \<union> fresh_names (ca_next alloc1) (ca_next alloc')"
  let ?N = "cname ` fst ` set (ca # cas) \<union> fresh_names (ca_next alloc) (ca_next alloc')"
  have le: "ca_next alloc \<le> ca_next alloc1" "ca_next alloc1 \<le> ca_next alloc'" using m u by (auto simp: mutated_def updated_to_def)
  have disj: "?N1 \<inter> ?N2 = {}" using names le by (fastforce simp: fresh_names_def)
  have isn: "\<forall>n \<in> ?N1. is_chunk_name n" "\<forall>n \<in> ?N2. is_chunk_name n" using names(1) by (auto simp: fresh_names_def)
  have sub: "?N1 \<subseteq> ?N" "?N2 \<subseteq> ?N"
    using fresh_names_mono [OF order_refl le(2), of "ca_next alloc"] fresh_names_mono [OF le(1) order_refl, of "ca_next alloc'"] by auto
  have ds: "\<forall>d \<in> set ds. cname d \<in> ?N1" and dss: "\<forall>d \<in> set (concat dss). cname d \<in> ?N2"
    and fr: "\<And>p. p \<notin> touched ?N1 \<Longrightarrow> files1 p = files p" "\<And>p. p \<notin> touched ?N2 \<Longrightarrow> files' p = files1 p"
    using m u by (auto simp: mutated_def updated_to_def)
  have dsok: "chunk_ok files' d" if d: "d \<in> set ds" for d
  proof (rule chunk_ok_frame)
    show "chunk_ok files1 d" using m d by (simp add: mutated_def)
    have "cname d \<in> ?N1" using ds d by blast
    then have "cname d \<notin> touched ?N2" using isn disj by (intro touched_name) blast+
    then show "files' (cname d) = files1 (cname d)" by (rule fr(2))
  qed
  have frame: "files' p = files p" if "p \<notin> touched ?N" for p
  proof -
    have "p \<notin> touched ?N1" "p \<notin> touched ?N2" using that touched_mono [OF sub(1)] touched_mono [OF sub(2)] by blast+
    then show ?thesis using fr [of p] by simp
  qed
  have dist: "distinct (map cname (concat (ds # dss)))"
  proof -
    have "set (map cname ds) \<subseteq> ?N1" "set (map cname (concat dss)) \<subseteq> ?N2" using ds dss by auto
    then have "set (map cname ds) \<inter> set (map cname (concat dss)) = {}" using disj by blast
    moreover have "distinct (map cname ds)" "distinct (map cname (concat dss))"
      using m u by (simp_all add: mutated_def updated_to_def comp_def)
    ultimately show ?thesis by simp
  qed
  have inN: "cname d \<in> ?N" if d: "d \<in> set (concat (ds # dss))" for d
  proof -
    have "d \<in> set ds \<or> d \<in> set (concat dss)" using d by simp
    then have "cname d \<in> ?N1 \<or> cname d \<in> ?N2" using ds dss by blast
    then show ?thesis using sub by blast
  qed
  have "ca_next alloc' \<le> ca_next alloc + int (weight (ca # cas))"
    using m u by (simp add: mutated_def updated_to_def weight_def)
  moreover have "list_all2 (becomes cfg) (ca # cas) (ds # dss)" "\<forall>d \<in> set (concat dss). chunk_ok files' d"
    using m u by (simp_all add: mutated_def updated_to_def)
  moreover have "\<forall>d \<in> set (concat (ds # dss)). chunk_ok files' d" using dsok calculation(3) by auto
  ultimately show ?thesis using le dist inN frame unfolding updated_to_def by (meson order_trans)
qed

lemma update_chunks_updated:
  assumes "cfg_ok cfg"
  shows "\<forall>ca \<in> set cas. chunk_ok files (fst ca) \<and> is_chunk_name (cname (fst ca)) \<and> adds_ok ca \<and>
        parseChunkOrdinal (cname (fst ca)) < ca_next alloc \<Longrightarrow>
     distinct (map (cname \<circ> fst) cas) \<Longrightarrow> 0 \<le> ca_next alloc \<Longrightarrow> ca_next alloc + int (weight cas) < 2 ^ 32 \<Longrightarrow>
     \<exists>files' alloc' dss dirty. update_chunks cfg files alloc b (map (\<lambda>ca. (fst (fst ca), snd ca)) cas) =
         (files', alloc', Inr (map fst (concat dss), dirty)) \<and>
       updated_to cfg files alloc cas files' alloc' dss \<and> (\<not> dirty \<longrightarrow> map fst (concat dss) = map (fst \<circ> fst) cas)"
proof (induction cas arbitrary: files alloc)
  case Nil
  have "updated_to cfg files alloc [] files alloc []" by (simp add: updated_to_def weight_def)
  then show ?case by (intro exI [of _ files] exI [of _ alloc] exI [of _ "[]"] exI [of _ False]) simp
next
  case (Cons ca cas)
  obtain c adds where ca: "ca = (c, adds)" by fastforce
  have c: "chunk_ok files c" "is_chunk_name (cname c)" "adds_ok (c, adds)" using Cons.prems(1) ca by auto
  have names: "\<forall>x \<in> set (ca # cas). is_chunk_name (cname (fst x)) \<and> parseChunkOrdinal (cname (fst x)) < ca_next alloc"
    "cname (fst ca) \<notin> cname ` fst ` set cas" using Cons.prems(1,2) by (auto simp: image_image)
  have w: "weight (ca # cas) = length (records (snd (grown ca))) + weight cas" by (simp add: weight_def)
  obtain files1 alloc1 ds where m: "mutated cfg files alloc ca files1 alloc1 ds"
    and mu: "adds \<noteq> [] \<Longrightarrow> mutateSegmentChunk cfg files (fst c) adds alloc b = (files1, alloc1, Inr (map fst ds))"
    and nil: "adds = [] \<Longrightarrow> files1 = files \<and> alloc1 = alloc \<and> ds = [c]"
  proof (cases "adds = []")
    case True
    then show thesis using that mutated_unchanged [OF c(1)] c(3) ca by blast
  next
    case False
    have "ca_next alloc + int (length (records (snd (grown (c, adds))))) < 2 ^ 32" using Cons.prems(4) w ca by simp
    from mutateSegmentChunk_mutated [OF c(1,2,3) False assms Cons.prems(3) this, of b] show thesis using that False ca by blast
  qed
  have al: "ca_next alloc \<le> ca_next alloc1" "ca_next alloc1 \<le> ca_next alloc + int (length (records (snd (grown ca))))"
    using m by (auto simp: mutated_def)
  let ?N1 = "insert (cname c) (fresh_names (ca_next alloc) (ca_next alloc1))"
  have "chunk_ok files1 (fst x)" if x: "x \<in> set cas" for x
  proof (rule chunk_ok_frame)
    show "chunk_ok files (fst x)" using Cons.prems(1) x by simp
    have "cname (fst x) \<in> cname ` fst ` set cas" using x by blast
    then have "cname (fst x) \<noteq> cname c" using names(2) unfolding ca fst_conv by metis
    then have "cname (fst x) \<notin> ?N1" using names(1) x by (auto simp: fresh_names_def)
    then have "cname (fst x) \<notin> touched ?N1" using names(1) x c(2) by (intro touched_name) (auto simp: fresh_names_def)
    then show "files1 (cname (fst x)) = files (cname (fst x))" using m ca by (simp add: mutated_def)
  qed
  then have "\<forall>x \<in> set cas. chunk_ok files1 (fst x) \<and> is_chunk_name (cname (fst x)) \<and> adds_ok x \<and>
      parseChunkOrdinal (cname (fst x)) < ca_next alloc1" using Cons.prems(1) al(1) by fastforce
  moreover have "distinct (map (cname \<circ> fst) cas)" using Cons.prems(2) by (simp add: comp_def)
  moreover have "0 \<le> ca_next alloc1" "ca_next alloc1 + int (weight cas) < 2 ^ 32"
    using Cons.prems(3,4) al w by linarith+
  ultimately obtain files' alloc' dss dirty where r: "update_chunks cfg files1 alloc1 b (map (\<lambda>ca. (fst (fst ca), snd ca)) cas) =
      (files', alloc', Inr (map fst (concat dss), dirty))" "updated_to cfg files1 alloc1 cas files' alloc' dss"
    "\<not> dirty \<longrightarrow> map fst (concat dss) = map (fst \<circ> fst) cas" using Cons.IH [of files1 alloc1] by blast
  have "updated_to cfg files alloc (ca # cas) files' alloc' (ds # dss)" by (rule updated_Cons [OF m r(2) names])
  moreover have "\<exists>dirty'. update_chunks cfg files alloc b (map (\<lambda>ca. (fst (fst ca), snd ca)) (ca # cas)) =
      (files', alloc', Inr (map fst (concat (ds # dss)), dirty')) \<and> (\<not> dirty' \<longrightarrow> map fst (concat (ds # dss)) = map (fst \<circ> fst) (ca # cas))"
    using r(1,3) mu nil ca by (cases "adds = []") auto
  ultimately show ?case by blast
qed

section \<open>Order and contents after a commit\<close>

lemma becomes_bounds:
  assumes "becomes cfg ca ds" "d \<in> set ds"
  shows "chunk_start (fst ca) \<le> chunk_start d" "chunk_start d \<in> insert (chunk_start (fst ca)) (chunk_keys (grown ca))"
    "chunk_keys d \<subseteq> chunk_keys (grown ca)"
  using assms by (auto simp: becomes_def)

lemma grown_start [simp]: "chunk_start (grown ca) = chunk_start (fst ca)"
  by (simp add: grown_def)

lemma updated_ordered: "list_all2 (becomes cfg) cas dss \<Longrightarrow> ordered (map grown cas) \<Longrightarrow> ordered (concat dss)"
proof (induction cas dss rule: list_all2_induct)
  case (Cons ca cas ds dss)
  have o: "ordered (concat dss)" using Cons.IH Cons.prems by (simp add: ordered_Cons)
  have "before d d'" if d: "d \<in> set ds" and d': "d' \<in> set (concat dss)" for d d'
  proof -
    obtain ds' where ds': "ds' \<in> set dss" "d' \<in> set ds'" using d' by auto
    then obtain i where i: "i < length dss" "dss ! i = ds'" by (auto simp: in_set_conv_nth)
    then have ca': "cas ! i \<in> set cas" "becomes cfg (cas ! i) ds'" using Cons(2) by (auto simp: list_all2_conv_all_nth)
    then have "before (grown ca) (grown (cas ! i))" using Cons.prems by (simp add: ordered_Cons)
    then have "\<forall>k \<in> insert (chunk_start (fst ca)) (chunk_keys (grown ca)). k < chunk_start (fst (cas ! i))" by (simp add: before_def)
    moreover have "chunk_start (fst (cas ! i)) \<le> chunk_start d'" by (rule becomes_bounds(1) [OF ca'(2) ds'(2)])
    moreover have "insert (chunk_start d) (chunk_keys d) \<subseteq> insert (chunk_start (fst ca)) (chunk_keys (grown ca))"
      using becomes_bounds(2,3) [OF Cons(1) d] by blast
    ultimately show ?thesis unfolding before_def by (meson less_le_trans subsetD)
  qed
  moreover have "ordered ds" using Cons(1) by (simp add: becomes_def)
  ultimately show ?case using o by (simp add: ordered_append)
qed simp

lemma set_kept [simp]: "set (kept cfg ca) = set (records (snd (fst ca)))"
  by (simp add: kept_def)

lemma grown_keys: "chunk_keys (grown ca) = chunk_keys (fst ca) \<union> fst ` set (snd ca)"
  by (simp add: grown_def image_Un)

lemma updated_content:
  "list_all2 (becomes cfg) cas dss \<Longrightarrow> ordered (map grown cas) \<Longrightarrow>
   content (concat dss) = newest (concat (map (kept cfg) cas)) ++ map_of (concat (map snd cas))"
proof (induction cas dss rule: list_all2_induct)
  case (Cons ca cas ds dss)
  let ?B = "newest (concat (map (kept cfg) cas))" and ?A = "map_of (concat (map snd cas))"
  have o: "ordered (map grown cas)" using Cons.prems by (simp add: ordered_Cons)
  have keys: "fst ` set (concat (map (kept cfg) cas)) \<union> fst ` set (concat (map snd cas)) = (\<Union>x \<in> set cas. chunk_keys (grown x))"
    by (simp add: set_kept grown_keys image_UN UN_Un_distrib)
  have disj: "k \<notin> (\<Union>x \<in> set cas. chunk_keys (grown x))" if k: "k \<in> chunk_keys (grown ca)" for k
  proof -
    have "content (map grown cas) k = None" by (rule ordered_later [of "grown ca"]) (use Cons.prems k in auto)
    then show ?thesis using dom_content [of "map grown cas"] by auto
  qed
  have A: "dom (map_of (snd ca)) \<subseteq> chunk_keys (grown ca)" by (auto simp: dom_map_of_conv_image_fst grown_def)
  have "dom ?B \<subseteq> (\<Union>x \<in> set cas. chunk_keys (grown x))" "dom ?A \<subseteq> (\<Union>x \<in> set cas. chunk_keys (grown x))"
    unfolding keys [symmetric] dom_map_of_conv_image_fst set_rev by (rule Un_upper1, rule Un_upper2)
  then have d: "dom (map_of (snd ca)) \<inter> dom ?B = {}" "dom (map_of (snd ca)) \<inter> dom ?A = {}" using A disj by blast+
  have c1: "map_of (snd ca) ++ ?B = ?B ++ map_of (snd ca)" by (rule map_add_comm [OF d(1)])
  have c2: "map_of (snd ca) ++ ?A = ?A ++ map_of (snd ca)" by (rule map_add_comm [OF d(2)])
  have "content (concat (ds # dss)) = (newest (kept cfg ca) ++ map_of (snd ca)) ++ (?B ++ ?A)"
    using Cons.IH [OF o] Cons(1) by (simp add: becomes_def)
  also have "\<dots> = newest (kept cfg ca) ++ (map_of (snd ca) ++ ?B) ++ ?A" by simp
  also have "\<dots> = (newest (kept cfg ca) ++ ?B) ++ (map_of (snd ca) ++ ?A)" unfolding c1 by simp
  also have "\<dots> = newest (concat (map (kept cfg) (ca # cas))) ++ map_of (concat (map snd (ca # cas)))" unfolding c2 by simp
  finally show ?case .
qed simp

end
