(* ===== verification/Segment_Folder_Commit.thy ===== *)
theory Segment_Folder_Commit
  imports Segment_Folder_Correct
begin

text \<open>
  Lookups and commits of a folder: what a lookup returns, the assignment of the pairs of a commit to
  the chunks, and the folder after the commit.
\<close>

section \<open>Looking up a key\<close>

definition segment_value :: "segment_read \<Rightarrow> bytes option" where
  "segment_value r = (case r of SegmentChunkRead (ChunkValue v) \<Rightarrow> Some v | _ \<Rightarrow> None)"

definition live :: "bytes option \<Rightarrow> bytes option" where
  "live r = (if r = Some [] then None else r)"

lemma holds_parts:
  assumes "folder_holds cfg files cs"
  shows "index_holds (fc_index cfg) files (map fst cs)" "metas_ok (map fst cs)" "starts_ok (map fst cs)" "ordered cs"
    "\<And>c. c \<in> set cs \<Longrightarrow> chunk_ok files c" "\<And>c. c \<in> set cs \<Longrightarrow> meta_ok (fst c)" "distinct (map cname cs)"
    "\<And>c k. c \<in> set cs \<Longrightarrow> k \<in> chunk_keys c \<Longrightarrow> length k \<le> 32"
proof -
  show i: "index_holds (fc_index cfg) files (map fst cs)" "ordered cs" "\<And>c. c \<in> set cs \<Longrightarrow> chunk_ok files c"
    "\<And>c k. c \<in> set cs \<Longrightarrow> k \<in> chunk_keys c \<Longrightarrow> length k \<le> 32" "distinct (map cname cs)"
    using assms by (auto simp: folder_holds_def comp_def)
  show m: "metas_ok (map fst cs)" using i(1) by (simp add: index_holds_def)
  then show "starts_ok (map fst cs)" "\<And>c. c \<in> set cs \<Longrightarrow> meta_ok (fst c)" by (auto simp: metas_ok_def list_all_iff)
qed

lemma chunk_read_value: "chunk_ok files c \<Longrightarrow>
    \<exists>buf. readSegmentFileBuffer files (cname c) = Inr buf \<and>
      fst (readSegmentedChunkToCacheStreaming l buf k) = read_result (newest (records (snd c)) k)"
proof -
  assume c: "chunk_ok files c"
  have o: "\<forall>it \<in> set (snd c). item_ok it" "files (cname c) = Some (chunk_log (snd c))"
    "length (chunk_log (snd c)) < 2 ^ 32" "snd c \<noteq> []" using c by (auto simp: chunk_ok_def)
  have "chunk_log (snd c) \<noteq> []" using o(4) enc_not_Nil by (cases "snd c") auto
  moreover have "\<not> int (length (chunk_log (snd c))) > 2 ^ 32 - 1" using o(3) by simp
  ultimately have "readSegmentFileBuffer files (cname c) = Inr (chunk_log (snd c))" using o(2) by (simp add: readSegmentFileBuffer_def)
  then show ?thesis using fst_streaming_log [OF o(1,4)] by blast
qed

lemma segment_value_result: "segment_value (SegmentChunkRead (read_result r)) = live r"
  by (cases r) (auto simp: segment_value_def read_result_def live_def)

lemma lookup_content:
  assumes h: "folder_holds cfg files cs" and k: "k \<noteq> []"
  shows "segment_value (fst (readSegmentedChunkToCacheByPath cfg files k)) = live (content cs k)"
proof (cases "cs = []")
  case True
  then have "files segmentIndexFileName = None" using holds_parts(1) [OF h] by (simp add: index_holds_def)
  then have "readSegmentIndexForKey (fc_index cfg) files k = Inl IndexFileMissing"
    using k by (simp add: readSegmentIndexForKey_def loadSegmentIndexLayout_def readSegmentIndexFile_def flat_data_def)
  then show ?thesis using True by (simp add: readSegmentedChunkToCacheByPath_def segment_value_def live_def)
next
  case False
  note p = holds_parts [OF h]
  have ne: "map fst cs \<noteq> []" using False by simp
  have at: "content cs k = (case select_ref (map fst cs) k of None \<Rightarrow> None
      | Some _ \<Rightarrow> newest (records (snd (cs ! (chunk_pos (map fst cs) k - 1)))) k)"
    using content_at [OF p(4), of k] by (simp add: select_ref_def Let_def)
  note sel = readForKey_holds [OF p(1) ne k]
  show ?thesis
  proof (cases "select_ref (map fst cs) k")
    case None
    then show ?thesis using sel at
      by (cases "readSegmentIndexForKey (fc_index cfg) files k")
        (auto simp: readSegmentedChunkToCacheByPath_def segment_value_def live_def)
  next
    case (Some m)
    define i where "i = chunk_pos (map fst cs) k - 1"
    have pos: "0 < chunk_pos (map fst cs) k" "m = map fst cs ! i" using Some by (auto simp: select_ref_def Let_def i_def split: if_splits)
    have i: "i < length cs" using chunk_pos_props(1) [OF p(3), of k] pos(1) by (simp add: i_def)
    obtain metas where r: "readSegmentIndexForKey (fc_index cfg) files k = Inr metas" "selectSegmentChunkMeta metas k = Some m"
      using sel Some by (cases "readSegmentIndexForKey (fc_index cfg) files k") auto
    have mne: "metas \<noteq> []" using r(2) by (auto simp: selectSegmentChunkMeta_def)
    have m: "m = fst (cs ! i)" using pos(2) i by simp
    obtain buf where b: "readSegmentFileBuffer files (cname (cs ! i)) = Inr buf"
      "fst (readSegmentedChunkToCacheStreaming (fc_storageGetCacheCount cfg) buf k) = read_result (newest (records (snd (cs ! i))) k)"
      using chunk_read_value [OF p(5), of "cs ! i"] i by (auto simp: nth_mem)
    have "fst (readSegmentedChunkToCacheByPath cfg files k) = SegmentChunkRead (read_result (content cs k))"
      using r mne b at Some m by (simp add: readSegmentedChunkToCacheByPath_def i_def case_prod_beta)
    then show ?thesis by (simp add: segment_value_result)
  qed
qed

section \<open>Keeping the index apart from the chunks\<close>

lemma index_names_frame:
  assumes f: "files' segmentIndexFileName = files segmentIndexFileName" "\<And>i. files' (level2IndexFileName i) = files (level2IndexFileName i)"
  shows "index_holds cfg files' ms = index_holds cfg files ms" "id_bound cfg files' n = id_bound cfg files n"
proof -
  have fh: "file_holds cfg files' segmentIndexFileName d = file_holds cfg files segmentIndexFileName d"
    "file_holds cfg files' (level2IndexFileName i) d = file_holds cfg files (level2IndexFileName i) d" for i d
    using f by (simp_all add: file_holds_def readSegmentIndexFile_def)
  then have "multi_holds cfg files' es gs i = multi_holds cfg files es gs i" for es gs i by (simp add: multi_holds_def)
  then show "index_holds cfg files' ms = index_holds cfg files ms" using fh(1) f(1) by (simp add: index_holds_def)
  show "id_bound cfg files' n = id_bound cfg files n"
    using f(1) by (simp add: id_bound_def loadSegmentIndexLayout_def readSegmentIndexFile_def)
qed

lemma index_holds_frame:
  assumes "\<And>p. index_file p \<Longrightarrow> files' p = files p"
  shows "index_holds cfg files' ms = index_holds cfg files ms" "id_bound cfg files' n = id_bound cfg files n"
  using index_names_frame [of files' files] assms by simp_all

lemma touched_not_index: "\<forall>n \<in> N. is_chunk_name n \<Longrightarrow> index_file p \<Longrightarrow> p \<notin> touched N"
  using chunk_not_index_file chunk_tmp_not_index by (auto simp: touched_def is_chunk_name_def)

lemma index_ordinal: "index_file p \<Longrightarrow> parseChunkOrdinal p < 0"
proof -
  assume "index_file p"
  then have t: "take 10 p = ''index.meta''" by (simp add: index_file_def)
  have "length (take 10 p) = 10" unfolding t by simp
  then have l: "10 \<le> length p" by simp
  have "take 1 (take (length p - 4) p) = take 1 (take 10 p)" using l by (cases "length p - 4") (auto simp: min_def)
  then have "take 1 (take (length p - 4) p) = ''i''" unfolding t by simp
  then obtain cs where "take (length p - 4) p = CHR ''i'' # cs" by (cases "take (length p - 4) p") auto
  moreover have "of_char (CHR ''i'') = (105 :: int)" by simp
  ultimately show ?thesis using l by (simp add: parseChunkOrdinal_def)
qed

section \<open>The order of the index\<close>

lemma meta_order_inj: "meta_order a = meta_order b \<longleftrightarrow> a = (b :: segmentChunkMeta)"
  by (cases a; cases b) (auto simp: meta_order_def)

lemma less_meta_order: "lessSegmentChunkMeta a b \<longleftrightarrow> meta_order a < meta_order b"
  by (auto simp: lessSegmentChunkMeta_def meta_order_def less_prod_def)

lemma adjacent_sorted: "adjacent lessSegmentChunkMeta ms \<Longrightarrow> sorted (map meta_order ms)"
proof (induction lessSegmentChunkMeta ms rule: adjacent.induct)
  case (1 x y xs)
  then have "sorted (map meta_order (y # xs))" "meta_order x \<le> meta_order y"
    by (simp_all add: less_meta_order split: if_splits)
  then show ?case by (auto intro: order_trans)
qed simp_all

lemma normalize_sort: "fst (normalizeSegmentChunkMetasOrder ms) = sort_key meta_order ms"
proof -
  have "sort_key meta_order ms = ms" if "length ms \<le> 1" using that by (cases ms) auto
  moreover have "sort_key meta_order ms = ms" if "adjacent lessSegmentChunkMeta ms"
    by (rule sort_key_id_if_sorted [OF adjacent_sorted [OF that]])
  ultimately show ?thesis by (auto simp: normalizeSegmentChunkMetasOrder_def isSegmentChunkMetasOrdered_def)
qed

lemma normalize_perm:
  assumes "mset ms0 = mset ms" "starts_ok ms"
  shows "fst (normalizeSegmentChunkMetasOrder ms0) = ms"
  unfolding normalize_sort
proof (rule properties_for_sort_key)
  show "mset ms = mset ms0" using assms(1) by simp
  have "sorted_wrt (\<lambda>a b. KeyStart a < KeyStart b) ms" using assms(2) by (simp add: starts_ok_def sorted_wrt_map)
  then have "sorted_wrt (\<lambda>a b. meta_order a \<le> meta_order b) ms"
    by (rule sorted_wrt_mono_rel [rotated]) (auto simp: meta_order_def less_eq_prod_def)
  then show "sorted (map meta_order ms)" by (simp add: sorted_wrt_map)
  fix k assume "k \<in> set ms"
  have "filter (\<lambda>x. k = x) ms = filter (\<lambda>x. k = x) ms0"
    using assms(1) replicate_count_mset_eq_filter_eq [of ms k] replicate_count_mset_eq_filter_eq [of ms0 k] by simp
  then show "filter (\<lambda>x. meta_order k = meta_order x) ms = filter (\<lambda>x. meta_order k = meta_order x) ms0"
    by (simp add: meta_order_inj)
qed

lemma normalize_sorted: "starts_ok ms \<Longrightarrow> normalizeSegmentChunkMetasOrder ms = (ms, False)"
proof -
  assume ok: "starts_ok ms"
  have "adjacent lessSegmentChunkMeta ms" using ok
  proof (induction lessSegmentChunkMeta ms rule: adjacent.induct)
    case (1 x y xs)
    then show ?case by (auto simp: starts_ok_def lessSegmentChunkMeta_def)
  qed simp_all
  then show ?thesis by (simp add: normalizeSegmentChunkMetasOrder_def isSegmentChunkMetasOrdered_def)
qed

section \<open>The pairs of a commit and the chunks that take them\<close>

definition part_of :: "chunk list \<Rightarrow> kvPair list \<Rightarrow> nat \<Rightarrow> kvPair list" where
  "part_of cs kvs i = filter (\<lambda>kv. chunk_pos (map fst cs) (fst kv) = i) kvs"

definition assigned :: "chunk list \<Rightarrow> kvPair list \<Rightarrow> (chunk \<times> kvPair list) list" where
  "assigned cs kvs = map (\<lambda>i. (cs ! i, part_of cs kvs (Suc i))) [0..<length cs]"

definition commit_ok :: "kvPair list \<Rightarrow> bool" where
  "commit_ok kvs \<longleftrightarrow> kvs \<noteq> [] \<and> strict_keys kvs \<and> (\<forall>kv \<in> set kvs. entry_ok kv \<and> fst kv \<noteq> [] \<and> length (fst kv) \<le> 32)"

abbreviation total_records :: "chunk list \<Rightarrow> nat" where
  "total_records cs \<equiv> sum_list (map (length \<circ> records \<circ> snd) cs)"

definition room :: "folder_config \<Rightarrow> folder \<Rightarrow> chunk list \<Rightarrow> kvPair list \<Rightarrow> bool" where
  "room cfg files cs kvs \<longleftrightarrow> id_bound (fc_index cfg) files (2 ^ 31) \<and>
     ca_next (newChunkFileAllocator (map fst cs)) + int (total_records cs + length kvs) < 2 ^ 26"

lemma strict_filter: "strict_keys kvs \<Longrightarrow> strict_keys (filter P kvs)"
  by (simp add: sorted_wrt_map sorted_wrt_filter)

lemma map_of_part: "map_of (part_of cs kvs i) k = (if chunk_pos (map fst cs) k = i then map_of kvs k else None)"
  by (induction kvs) (auto simp: part_of_def)

lemma map_of_parts:
  "map_of (concat (map (\<lambda>i. part_of cs kvs (Suc i)) [0..<n])) k =
     (if 0 < chunk_pos (map fst cs) k \<and> chunk_pos (map fst cs) k \<le> n then map_of kvs k else None)"
  by (induction n) (auto simp: map_add_def map_of_part le_Suc_eq split: option.splits)

lemma length_parts:
  "length (part_of cs kvs 0) + sum_list (map (\<lambda>i. length (part_of cs kvs (Suc i))) [0..<n]) \<le> length kvs"
proof -
  have "length (part_of cs kvs 0) + sum_list (map (\<lambda>i. length (part_of cs kvs (Suc i))) [0..<n]) =
      length (filter (\<lambda>kv. chunk_pos (map fst cs) (fst kv) \<le> n) kvs)"
  proof (induction n)
    case (Suc n)
    have "length (filter (\<lambda>kv. chunk_pos (map fst cs) (fst kv) \<le> Suc n) kvs) =
        length (filter (\<lambda>kv. chunk_pos (map fst cs) (fst kv) \<le> n) kvs) + length (part_of cs kvs (Suc n))"
      unfolding part_of_def by (induction kvs) auto
    with Suc show ?case by simp
  qed (simp add: part_of_def)
  then show ?thesis by simp
qed

lemma assigned_simps [simp]:
  "map fst (assigned cs kvs) = cs" "length (assigned cs kvs) = length cs"
  "map snd (assigned cs kvs) = map (\<lambda>i. part_of cs kvs (Suc i)) [0..<length cs]"
  by (simp_all add: assigned_def comp_def map_nth)

lemma weight_assigned: "weight (assigned cs kvs) + length (part_of cs kvs 0) \<le> total_records cs + length kvs"
proof -
  have "weight cas = total_records (map fst cas) + sum_list (map length (map snd cas))" for cas
    by (induction cas) (simp_all add: weight_def grown_def)
  from this [of "assigned cs kvs"] length_parts [of cs kvs "length cs"]
  show ?thesis by (simp add: comp_def)
qed

lemma partition_parts:
  assumes "starts_ok (map fst cs)" "cs \<noteq> []" "\<forall>kv \<in> set kvs. fst kv \<noteq> []"
  shows "partitionEntriesByChunks (map fst cs) kvs = (map snd (assigned cs kvs), part_of cs kvs 0)"
proof -
  have pos: "findChunkIndexForKey (map fst cs) (fst kv) = int (chunk_pos (map fst cs) (fst kv)) - 1" if "kv \<in> set kvs" for kv
    by (rule findChunkIndex_pos) (use assms that in auto)
  have "filter (\<lambda>kv. findChunkIndexForKey (map fst cs) (fst kv) = int i) kvs = part_of cs kvs (Suc i)" for i
    unfolding part_of_def by (rule filter_cong [OF refl]) (use pos in auto)
  moreover have "filter (\<lambda>kv. findChunkIndexForKey (map fst cs) (fst kv) < 0) kvs = part_of cs kvs 0"
    unfolding part_of_def by (rule filter_cong [OF refl]) (use pos in auto)
  ultimately show ?thesis using partition_filter [of "map fst cs" kvs] assms(2) by simp
qed

lemma assigned_mem:
  assumes "ca \<in> set (assigned cs kvs)"
  obtains i where "i < length cs" "ca = (cs ! i, part_of cs kvs (Suc i))"
  using assms by (auto simp: assigned_def)

lemma grown_range:
  assumes "ordered cs" "starts_ok (map fst cs)" "i < length cs" "k \<in> insert (chunk_start (cs ! i)) (chunk_keys (grown (cs ! i, part_of cs kvs (Suc i))))"
  shows "chunk_start (cs ! i) \<le> k" "i < j \<Longrightarrow> j < length cs \<Longrightarrow> k < chunk_start (cs ! j)"
proof -
  have o: "\<forall>c \<in> set cs. \<forall>k \<in> chunk_keys c. chunk_start c \<le> k" "sorted_wrt before cs" using assms(1) by (simp_all add: ordered_def)
  have b: "before (cs ! i) (cs ! j)" if "i < j" "j < length cs" using o(2) that by (simp add: sorted_wrt_iff_nth_less)
  consider "k \<in> insert (chunk_start (cs ! i)) (chunk_keys (cs ! i))" | "chunk_pos (map fst cs) k = Suc i"
    using assms(4) by (auto simp: grown_keys part_of_def)
  then have "chunk_start (cs ! i) \<le> k \<and> (i < j \<longrightarrow> j < length cs \<longrightarrow> k < chunk_start (cs ! j))"
  proof cases
    case 1
    then show ?thesis using o(1) b assms(3) by (auto simp: before_def)
  next
    case 2
    then show ?thesis
      using chunk_pos_props(2) [OF assms(2), of i k] chunk_pos_props(3) [OF assms(2), of k j] assms(3) by auto
  qed
  then show "chunk_start (cs ! i) \<le> k" "i < j \<Longrightarrow> j < length cs \<Longrightarrow> k < chunk_start (cs ! j)" by auto
qed

lemma assigned_ordered:
  assumes "ordered cs" "starts_ok (map fst cs)"
  shows "ordered (map grown (assigned cs kvs))"
  unfolding ordered_def
proof
  show "sorted_wrt before (map grown (assigned cs kvs))"
    unfolding sorted_wrt_iff_nth_less before_def
  proof (intro allI impI ballI)
    fix i j k assume ij: "i < j" "j < length (map grown (assigned cs kvs))"
      and k: "k \<in> insert (chunk_start (map grown (assigned cs kvs) ! i)) (chunk_keys (map grown (assigned cs kvs) ! i))"
    have e: "assigned cs kvs ! i = (cs ! i, part_of cs kvs (Suc i))" "assigned cs kvs ! j = (cs ! j, part_of cs kvs (Suc j))"
      using ij by (simp_all add: assigned_def)
    show "k < chunk_start (map grown (assigned cs kvs) ! j)"
      using grown_range(2) [OF assms, of i k kvs j] ij k e by simp
  qed
  show "\<forall>c \<in> set (map grown (assigned cs kvs)). \<forall>k \<in> chunk_keys c. chunk_start c \<le> k"
  proof (intro ballI)
    fix c k assume "c \<in> set (map grown (assigned cs kvs))" and k: "k \<in> chunk_keys c"
    then obtain ca where ca: "ca \<in> set (assigned cs kvs)" "c = grown ca" by auto
    from ca(1) obtain i where i: "i < length cs" "ca = (cs ! i, part_of cs kvs (Suc i))" by (rule assigned_mem)
    show "chunk_start c \<le> k" using grown_range(1) [OF assms i(1), of k kvs] k ca(2) i(2) by simp
  qed
qed

lemma assigned_adds_ok:
  assumes h: "folder_holds cfg files cs" and kvs: "commit_ok kvs" and m: "ca \<in> set (assigned cs kvs)"
  shows "adds_ok ca" "fst ca \<in> set cs"
proof -
  note p = holds_parts [OF h]
  obtain i where i: "i < length cs" "ca = (cs ! i, part_of cs kvs (Suc i))" using m by (rule assigned_mem)
  show "fst ca \<in> set cs" using i by simp
  have "strict_keys (part_of cs kvs (Suc i))" unfolding part_of_def by (rule strict_filter) (use kvs in \<open>simp add: commit_ok_def\<close>)
  moreover have "\<forall>kv \<in> set (part_of cs kvs (Suc i)). entry_ok kv" using kvs by (auto simp: part_of_def commit_ok_def)
  moreover have "chunk_start (cs ! i) \<noteq> []" using p(6) [of "cs ! i"] i(1) by (simp add: meta_ok_def)
  ultimately show "adds_ok ca" using grown_range(1) [OF p(4,3) i(1)] i(2) by (auto simp: adds_ok_def)
qed

section \<open>Writing the index of the new chunks\<close>

definition chunks_ready :: "folder \<Rightarrow> chunk list \<Rightarrow> bool" where
  "chunks_ready files cs \<longleftrightarrow> ordered cs \<and> distinct (map cname cs) \<and> length cs < 2 ^ 26 \<and>
     (\<forall>c \<in> set cs. chunk_ok files c \<and> is_chunk_name (cname c) \<and> chunk_start c \<noteq> [] \<and> length (chunk_start c) \<le> 32 \<and>
        (\<forall>k \<in> chunk_keys c. length k \<le> 32))"

lemma ready_metas_ok: "chunks_ready files cs \<Longrightarrow> metas_ok (map fst cs)"
  using ordered_starts [of cs] by (auto simp: chunks_ready_def metas_ok_def list_all_iff meta_ok_def is_chunk_name_def)

lemma ready_holds:
  "chunks_ready files cs \<Longrightarrow> index_holds (fc_index cfg) files (map fst cs) \<Longrightarrow> folder_holds cfg files cs"
  by (auto simp: chunks_ready_def folder_holds_def comp_def)

lemma ready_frame:
  assumes "chunks_ready files cs" "\<And>n. is_chunk_name n \<Longrightarrow> n \<in> cname ` set cs \<Longrightarrow> files' n = files n"
  shows "chunks_ready files' cs"
  using assms chunk_ok_frame [of files _ files'] unfolding chunks_ready_def by blast

lemma finish_index:
  assumes r: "chunks_ready files cs" and i: "index_holds (fc_index cfg) files old" and b: "id_bound (fc_index cfg) files (2 ^ 31)"
    and ms: "mset ms0 = mset (map fst cs)"
  shows "\<exists>files'. writeSegmentIndexLocked (fc_index cfg) ms0 files = (None, files') \<and> folder_holds cfg files' cs \<and>
     (\<forall>p. \<not> index_file p \<longrightarrow> files' p = files p)"
proof -
  have ok: "metas_ok (map fst cs)" by (rule ready_metas_ok [OF r])
  have n: "fst (normalizeSegmentChunkMetasOrder ms0) = map fst cs"
    by (rule normalize_perm [OF ms]) (use ok in \<open>simp add: metas_ok_def\<close>)
  have "length ms0 = length cs" using arg_cong [OF ms, of "size"] by simp
  then have l: "(2 :: nat) ^ 31 + length ms0 < 2 ^ 32" using r by (simp add: chunks_ready_def)
  have nok: "metas_ok (fst (normalizeSegmentChunkMetasOrder ms0))" using ok n by simp
  obtain files' where w: "writeSegmentIndexLocked (fc_index cfg) ms0 files = (None, files')"
    "index_holds (fc_index cfg) files' (map fst cs)" "\<forall>p. \<not> index_file p \<longrightarrow> files' p = files p"
    using writeIndex_holds [OF i nok b l] n by auto
  have "chunks_ready files' cs"
    by (rule ready_frame [OF r]) (use w(3) chunk_not_index_file in \<open>auto simp: is_chunk_name_def\<close>)
  from ready_holds [OF this w(2)] w(1,3) show ?thesis by blast
qed

lemma ready_append:
  assumes "chunks_ready files cs" "chunks_ready files ds" "\<And>c d. c \<in> set cs \<Longrightarrow> d \<in> set ds \<Longrightarrow> before c d"
    and "cname ` set cs \<inter> cname ` set ds = {}" "length cs + length ds < 2 ^ 26"
  shows "chunks_ready files (cs @ ds)"
  using assms unfolding chunks_ready_def by (auto simp: ordered_append)

lemma bspec_sub: "A \<subseteq> B \<Longrightarrow> \<forall>x \<in> B. P x \<Longrightarrow> \<forall>x \<in> A. P x"
  by blast

lemma ready_as_chunks:
  assumes s: "stores files files' ncs" and f: "fits ncs" and k: "strict_keys (pairs ncs)" "\<forall>kv \<in> set (pairs ncs). fst kv \<noteq> [] \<and> length (fst kv) \<le> 32"
    and n: "distinct (map fst ncs)" "\<forall>x \<in> set ncs. is_chunk_name (fst x)" "length ncs < 2 ^ 26"
  shows "chunks_ready files' (as_chunks ncs)"
proof -
  have names: "map cname (as_chunks ncs) = map fst ncs" using as_chunks_names [of ncs] by (simp add: comp_def)
  have "is_chunk_name (cname c)" if "c \<in> set (as_chunks ncs)" for c
  proof -
    have "cname c \<in> set (map cname (as_chunks ncs))" using that by simp
    then have "cname c \<in> fst ` set ncs" unfolding names by (simp only: set_map)
    then obtain x where "x \<in> set ncs" "cname c = fst x" by blast
    then show ?thesis using n(2) by (simp only:)
  qed
  moreover have "length (as_chunks ncs) = length ncs" by (simp add: as_chunks_def)
  moreover have "chunk_start c \<noteq> [] \<and> length (chunk_start c) \<le> 32 \<and> (\<forall>k \<in> chunk_keys c. length k \<le> 32)"
    if c: "c \<in> set (as_chunks ncs)" for c
  proof -
    have "insert (chunk_start c) (chunk_keys c) \<subseteq> fst ` set (pairs ncs)" using as_chunks_keys [OF c f] by blast
    moreover have "\<forall>k \<in> fst ` set (pairs ncs). k \<noteq> [] \<and> length k \<le> 32" using k(2) by simp
    ultimately have "\<forall>k \<in> insert (chunk_start c) (chunk_keys c). k \<noteq> [] \<and> length k \<le> 32" by (rule bspec_sub)
    then show ?thesis by blast
  qed
  ultimately show ?thesis
    using ordered_as_chunks [OF k(1) f] stores_chunk_ok [OF s f] n names unfolding chunks_ready_def by simp
qed

section \<open>A commit to a folder\<close>

lemma split_is_loop: "split_loop limit [] 0 kvs = splitEntriesBySize kvs limit"
  by (simp add: splitEntriesBySize_def)

lemma storageChunkSize_bound: "cfg_ok cfg \<Longrightarrow> fc_storageChunkSize cfg < 2 ^ 31"
  by (auto simp: cfg_ok_def segmentedChunkTargetSize_def split: if_splits)

text \<open>New chunks for pairs that no chunk takes.\<close>

lemma write_new_chunks:
  assumes cfg: "cfg_ok cfg" and kvs: "strict_keys kvs" "\<forall>kv \<in> set kvs. entry_ok kv \<and> fst kv \<noteq> [] \<and> length (fst kv) \<le> 32" "kvs \<noteq> []"
    and ord: "ord = (case alloc of None \<Rightarrow> 0 | Some a \<Rightarrow> ca_next a)" "0 \<le> ord" "ord + int (length kvs) < 2 ^ 26"
  shows "\<exists>files' a ncs. writeSegmentedChunksToFolder cfg files kvs alloc b = (files', a, Inr (map fst (as_chunks ncs))) \<and>
     stores files files' ncs \<and> chunks_ready files' (as_chunks ncs) \<and> content (as_chunks ncs) = map_of kvs \<and> ncs \<noteq> [] \<and>
     fst ` set ncs \<subseteq> fresh_names ord (ord + int (length kvs)) \<and> length ncs \<le> length kvs"
proof -
  define chunks where "chunks = splitEntriesBySize kvs (fc_storageChunkSize cfg)"
  define names where "names = allocated ord (length chunks)"
  let ?ncs = "tagged names chunks b"
  have e: "\<forall>kv \<in> set kvs. entry_ok kv" using kvs(2) by simp
  note lim = storageChunkSize_bound [OF cfg]
  have ce: "\<forall>c \<in> set chunks. \<forall>kv \<in> set c. entry_ok kv" using split_payload(2) [OF _ e lim] by (auto simp: chunks_def)
  have len: "length chunks \<le> length kvs" unfolding chunks_def by (rule length_split)
  have b32: "ord + int (length chunks) < 2 ^ 32" using ord(3) len by simp
  have o: "ord = (case alloc of None \<Rightarrow> int 0 | Some a \<Rightarrow> ca_next a)" using ord(1) by (simp split: option.split)
  obtain files' a where w: "write_chunks files alloc 0 b chunks = (files', a, Inr (map fst (as_chunks ?ncs)))" "stores files files' ?ncs"
    using write_chunks_stores [OF ce o ord(2) b32, of files b] unfolding names_def by blast
  have ln: "length names = length chunks" by (simp add: names_def)
  have p: "pairs ?ncs = kvs" using pairs_tagged [OF ln] by (simp add: chunks_def split_bounds(1))
  have f: "fits ?ncs" unfolding chunks_def by (rule fits_tagged [OF e lim])
  have ne: "?ncs \<noteq> []" using p kvs(3) by auto
  have lencs: "length ?ncs = length chunks" using ln by simp
  have fstn: "map fst ?ncs = names" using ln by simp
  have sub: "fst ` set ?ncs \<subseteq> fresh_names ord (ord + int (length kvs))"
  proof
    fix n assume "n \<in> fst ` set ?ncs"
    then have n: "n \<in> set names" using set_zip_names [of names] by blast
    then show "n \<in> fresh_names ord (ord + int (length kvs))"
      using allocated_ordinal [OF _ ord(2) b32, of n] allocated_names [of n] len by (simp add: fresh_names_def names_def)
  qed
  have isn: "\<forall>x \<in> set ?ncs. is_chunk_name (fst x)" using sub by (auto simp: fresh_names_def)
  have "distinct names" unfolding names_def by (rule distinct_allocated [OF ord(2) b32])
  then have dist: "distinct (map fst ?ncs)" unfolding fstn .
  have l26: "length ?ncs < 2 ^ 26" using ord(2,3) len lencs by simp
  have "chunks_ready files' (as_chunks ?ncs)"
    by (rule ready_as_chunks [OF w(2) f _ _ dist isn l26]) (use p kvs in simp_all)
  moreover have "content (as_chunks ?ncs) = map_of kvs"
    using newest_distinct [OF strict_keys_distinct [OF kvs(1)]] by (simp add: content_as_chunks p)
  moreover have "as_chunks ?ncs \<noteq> []" using ne by (simp add: as_chunks_def)
  then have "writeSegmentedChunksToFolder cfg files kvs alloc b = (files', a, Inr (map fst (as_chunks ?ncs)))"
    using w(1) by (simp add: writeSegmentedChunksToFolder_def split_is_loop chunks_def [symmetric])
  ultimately show ?thesis using w(2) ne sub len lencs by metis
qed

lemma stale_kept: "n \<in> set keep \<or> parseChunkOrdinal n < 0 \<Longrightarrow> removeStaleSegmentChunkFiles files keep n = files n"
  by (auto simp: removeStaleSegmentChunkFiles_def)

lemma first_commit:
  assumes h: "folder_holds cfg files []" and cfg: "cfg_ok cfg" and kvs: "commit_ok kvs" and room: "room cfg files [] kvs"
  shows "\<exists>files' cs. updateAccountNamedSegmentedStorage cfg kvs b files = (None, files') \<and> folder_holds cfg files' cs \<and>
     content cs = map_of kvs"
proof -
  have i: "index_holds (fc_index cfg) files []" using holds_parts(1) [OF h] by simp
  then have none: "files segmentIndexFileName = None" by (simp add: index_holds_def)
  note e = readSegmentIndex_empty [OF i]
  have up: "updateAccountNamedSegmentedStorage cfg kvs b files = rewriteAccountNamedSegmentedStorage cfg kvs b files"
    using e none by (simp add: updateAccountNamedSegmentedStorage_def)
  have k: "strict_keys kvs" "\<forall>kv \<in> set kvs. entry_ok kv \<and> fst kv \<noteq> [] \<and> length (fst kv) \<le> 32" "kvs \<noteq> []" using kvs by (auto simp: commit_ok_def)
  have len: "(0 :: int) + int (length kvs) < 2 ^ 26" using room by (simp add: room_def newChunkFileAllocator_def)
  obtain files1 a ncs where w: "writeSegmentedChunksToFolder cfg files kvs None b = (files1, a, Inr (map fst (as_chunks ncs)))"
    "stores files files1 ncs" "chunks_ready files1 (as_chunks ncs)" "content (as_chunks ncs) = map_of kvs"
    "fst ` set ncs \<subseteq> fresh_names 0 (0 + int (length kvs))"
    using write_new_chunks [OF cfg k, of 0 None files b] len by auto
  have isn: "\<forall>n \<in> fst ` set ncs. is_chunk_name n" using w(5) by (auto simp: fresh_names_def)
  have fr: "files1 p = files p" if "index_file p" for p
    using w(2) touched_not_index [OF isn that] by (simp add: stores_def)
  have i1: "index_holds (fc_index cfg) files1 []" "id_bound (fc_index cfg) files1 (2 ^ 31)"
    using index_holds_frame [OF fr] i room by (simp_all add: room_def)
  obtain files2 where f: "writeSegmentIndexLocked (fc_index cfg) (map fst (as_chunks ncs)) files1 = (None, files2)"
    "folder_holds cfg files2 (as_chunks ncs)" using finish_index [OF w(3) i1 refl] by blast
  define files3 where "files3 = removeStaleSegmentChunkFiles files2 (map FileName (map fst (as_chunks ncs)))"
  have res: "updateAccountNamedSegmentedStorage cfg kvs b files = (None, files3)"
    unfolding up using e w(1) f(1) by (simp add: rewriteAccountNamedSegmentedStorage_def tolerated_index_error_def files3_def)
  have "files3 p = files2 p" if "index_file p" for p
    unfolding files3_def by (rule stale_kept) (use index_ordinal [OF that] in simp)
  then have "index_holds (fc_index cfg) files3 (map fst (as_chunks ncs))"
    using index_holds_frame(1) [of files3 files2] holds_parts(1) [OF f(2)] by blast
  moreover have "chunk_ok files3 c" if c: "c \<in> set (as_chunks ncs)" for c
  proof (rule chunk_ok_frame [OF holds_parts(5) [OF f(2) c]])
    show "files3 (cname c) = files2 (cname c)" unfolding files3_def by (rule stale_kept) (use c in simp)
  qed
  ultimately have "folder_holds cfg files3 (as_chunks ncs)" using f(2) by (simp add: folder_holds_def)
  then show ?thesis using res w(4) by blast
qed

lemma holds_ordinals:
  assumes h: "folder_holds cfg files cs" and c: "c \<in> set cs"
  shows "is_chunk_name (cname c)" "0 \<le> parseChunkOrdinal (cname c)"
    "parseChunkOrdinal (cname c) < ca_next (newChunkFileAllocator (map fst cs))"
proof -
  have "meta_ok (fst c)" by (rule holds_parts(6) [OF h c])
  then show n: "is_chunk_name (cname c)" by (auto simp: meta_ok_def is_chunk_name_def)
  then show "0 \<le> parseChunkOrdinal (cname c)" by (auto simp: is_chunk_name_def)
  show "parseChunkOrdinal (cname c) < ca_next (newChunkFileAllocator (map fst cs))"
    using allocator_above [of "fst c" "map fst cs"] c by simp
qed

text \<open>The chunks after the update, without the new ones below the first chunk.\<close>

lemma updated_ready:
  assumes h: "folder_holds cfg files cs" and kvs: "commit_ok kvs" and room: "room cfg files cs kvs"
    and u: "updated_to cfg files (newChunkFileAllocator (map fst cs)) (assigned cs kvs) files1 alloc1 dss"
  shows "chunks_ready files1 (concat dss)" "\<And>p. index_file p \<Longrightarrow> files1 p = files p"
    "content (concat dss) = newest (concat (map (kept cfg) (assigned cs kvs))) ++ map_of (concat (map snd (assigned cs kvs)))"
    "\<And>d. d \<in> set (concat dss) \<Longrightarrow> \<exists>c \<in> set cs. chunk_start c \<le> chunk_start d"
    "\<And>d. d \<in> set (concat dss) \<Longrightarrow> parseChunkOrdinal (cname d) < ca_next alloc1"
    "length (concat dss) \<le> weight (assigned cs kvs)"
proof -
  note p = holds_parts [OF h]
  let ?al = "newChunkFileAllocator (map fst cs)"
  have l: "list_all2 (becomes cfg) (assigned cs kvs) dss" using u by (simp add: updated_to_def)
  have og: "ordered (map grown (assigned cs kvs))" by (rule assigned_ordered [OF p(4,3)])
  show con: "content (concat dss) = newest (concat (map (kept cfg) (assigned cs kvs))) ++ map_of (concat (map snd (assigned cs kvs)))"
    by (rule updated_content [OF l og])
  have src: "\<exists>ca \<in> set (assigned cs kvs). becomes cfg ca ds" if "ds \<in> set dss" for ds
  proof -
    obtain i where "i < length dss" "dss ! i = ds" using \<open>ds \<in> set dss\<close> unfolding in_set_conv_nth by blast
    then show ?thesis using l by (auto simp: list_all2_conv_all_nth intro!: bexI [of _ "assigned cs kvs ! i"])
  qed
  have cas: "fst ca \<in> set cs" if "ca \<in> set (assigned cs kvs)" for ca using assigned_adds_ok(2) [OF h kvs that] .
  show st: "\<exists>c \<in> set cs. chunk_start c \<le> chunk_start d" if "d \<in> set (concat dss)" for d
  proof -
    obtain ds where ds: "ds \<in> set dss" "d \<in> set ds" using \<open>d \<in> set (concat dss)\<close> by auto
    obtain ca where ca: "ca \<in> set (assigned cs kvs)" "becomes cfg ca ds" using src [OF ds(1)] by blast
    show ?thesis using becomes_bounds(1) [OF ca(2) ds(2)] cas [OF ca(1)] by blast
  qed
  have names: "\<forall>n \<in> cname ` fst ` set (assigned cs kvs) \<union> fresh_names (ca_next ?al) (ca_next alloc1). is_chunk_name n \<and> parseChunkOrdinal n < ca_next alloc1"
  proof -
    have le: "ca_next ?al \<le> ca_next alloc1" using u by (simp add: updated_to_def)
    have "is_chunk_name (cname (fst ca)) \<and> parseChunkOrdinal (cname (fst ca)) < ca_next alloc1" if "ca \<in> set (assigned cs kvs)" for ca
      using holds_ordinals [OF h cas [OF that]] le by simp
    then show ?thesis by (auto simp: fresh_names_def)
  qed
  have dn: "cname d \<in> cname ` fst ` set (assigned cs kvs) \<union> fresh_names (ca_next ?al) (ca_next alloc1)" if "d \<in> set (concat dss)" for d
    using u that unfolding updated_to_def by blast
  show "parseChunkOrdinal (cname d) < ca_next alloc1" if "d \<in> set (concat dss)" for d using dn [OF that] names by blast
  show "files1 q = files q" if q: "index_file q" for q
  proof -
    have "q \<notin> touched (cname ` fst ` set (assigned cs kvs) \<union> fresh_names (ca_next ?al) (ca_next alloc1))"
      by (rule touched_not_index [OF _ q]) (use names in blast)
    then show ?thesis using u unfolding updated_to_def by blast
  qed
  show len: "length (concat dss) \<le> weight (assigned cs kvs)"
    using l by (induction rule: list_all2_induct) (auto simp: weight_def becomes_def)
  have keys: "chunk_start d \<noteq> [] \<and> length (chunk_start d) \<le> 32 \<and> (\<forall>k \<in> chunk_keys d. length k \<le> 32)" if d: "d \<in> set (concat dss)" for d
  proof -
    obtain ds where ds: "ds \<in> set dss" "d \<in> set ds" using d by auto
    obtain ca where ca: "ca \<in> set (assigned cs kvs)" "becomes cfg ca ds" using src [OF ds(1)] by blast
    note b = becomes_bounds [OF ca(2) ds(2)]
    have m: "chunk_start (fst ca) \<noteq> []" "length (chunk_start (fst ca)) \<le> 32"
      using p(6) [OF cas [OF ca(1)]] by (auto simp: meta_ok_def)
    have "length k \<le> 32" if "k \<in> chunk_keys (grown ca)" for k
      using that p(8) [OF cas [OF ca(1)]] kvs ca(1) by (auto simp: grown_keys commit_ok_def part_of_def elim!: assigned_mem)
    then have "\<forall>k \<in> insert (chunk_start (fst ca)) (chunk_keys (grown ca)). length k \<le> 32" using m(2) by blast
    moreover have "chunk_start d \<noteq> []" using b(1) m(1) by (cases "chunk_start (fst ca)") auto
    ultimately show ?thesis using b(2,3) by blast
  qed
  have "length (concat dss) < 2 ^ 26"
  proof -
    have "0 \<le> ca_next ?al"
      by (cases cs) (use holds_ordinals(2,3) [OF h, of "hd cs"] in \<open>auto simp: newChunkFileAllocator_def\<close>)
    then have "int (weight (assigned cs kvs)) < 2 ^ 26"
      using room weight_assigned [of cs kvs] by (simp add: room_def)
    then show ?thesis using len by simp
  qed
  then show "chunks_ready files1 (concat dss)"
    using u updated_ordered [OF l og] keys names dn unfolding chunks_ready_def updated_to_def by blast
qed

lemma zip_assigned: "zip (map fst cs) (map snd (assigned cs kvs)) = map (\<lambda>ca. (fst (fst ca), snd ca)) (assigned cs kvs)"
proof -
  have "map fst cs = map (fst \<circ> fst) (assigned cs kvs)" unfolding map_map [symmetric] assigned_simps ..
  then show ?thesis by (simp add: zip_map_map zip_same_conv_map comp_def del: assigned_simps)
qed

lemma pos_zero_below:
  assumes "starts_ok (map fst cs)" "chunk_pos (map fst cs) k = 0" "c \<in> set cs"
  shows "k < chunk_start c"
proof -
  obtain i where "i < length cs" "cs ! i = c" using assms(3) unfolding in_set_conv_nth by blast
  then show ?thesis using chunk_pos_props(3) [OF assms(1), of k i] assms(2) by simp
qed

lemma commit_contents:
  assumes o: "ordered cs" and st: "starts_ok (map fst cs)"
  shows "map_of (part_of cs kvs 0) ++ (newest (concat (map (kept cfg) (assigned cs kvs))) ++ map_of (concat (map snd (assigned cs kvs)))) =
     newest (concat (map (kept cfg) (assigned cs kvs))) ++ map_of kvs"
proof
  fix k
  let ?B = "newest (concat (map (kept cfg) (assigned cs kvs)))"
  have n: "chunk_pos (map fst cs) k \<le> length cs" using chunk_pos_props(1) [OF st, of k] by simp
  have "?B k = None" if "chunk_pos (map fst cs) k = 0"
  proof -
    have below: "\<forall>c \<in> set cs. k < chunk_start c"
      using pos_zero_below [OF st that] by blast
    have keys: "fst ` set (concat (map (kept cfg) (assigned cs kvs))) = (\<Union>c \<in> set cs. chunk_keys c)"
    proof -
      have "set (concat (map (kept cfg) cas)) = (\<Union>c \<in> set (map fst cas). set (records (snd c)))" for cas by simp
      from this [of "assigned cs kvs"] show ?thesis by (simp only: assigned_simps(1) image_UN)
    qed
    have "k \<notin> (\<Union>c \<in> set cs. chunk_keys c)" using content_None_below [OF o below] dom_content [of cs] by blast
    then have "k \<notin> dom ?B" unfolding dom_newest keys .
    then show ?thesis by (simp add: domIff)
  qed
  then show "(map_of (part_of cs kvs 0) ++ (?B ++ map_of (concat (map snd (assigned cs kvs))))) k = (?B ++ map_of kvs) k"
    using n by (simp add: map_add_def map_of_part map_of_parts split: option.splits)
qed

text \<open>Pairs below the first chunk go to chunks of their own in front of the others.\<close>

lemma add_new_chunks:
  assumes h: "folder_holds cfg files cs" and cfg: "cfg_ok cfg" and un: "strict_keys (part_of cs kvs 0)" "part_of cs kvs 0 \<noteq> []"
    and k: "\<forall>kv \<in> set kvs. entry_ok kv \<and> fst kv \<noteq> [] \<and> length (fst kv) \<le> 32"
    and r: "chunks_ready files1 ds" "\<And>d. d \<in> set ds \<Longrightarrow> \<exists>c \<in> set cs. chunk_start c \<le> chunk_start d"
      "\<And>d. d \<in> set ds \<Longrightarrow> parseChunkOrdinal (cname d) < ca_next alloc1"
    and i1: "index_holds (fc_index cfg) files1 (map fst cs)" "id_bound (fc_index cfg) files1 (2 ^ 31)"
    and cap: "0 \<le> ca_next alloc1" "ca_next alloc1 + int (length (part_of cs kvs 0)) < 2 ^ 26" "length (part_of cs kvs 0) + length ds < 2 ^ 26"
  shows "\<exists>files2 a ncs files3. writeSegmentedChunksToFolder cfg files1 (part_of cs kvs 0) (Some alloc1) b = (files2, a, Inr (map fst (as_chunks ncs))) \<and>
     writeSegmentIndexLocked (fc_index cfg) (map fst ds @ map fst (as_chunks ncs)) files2 = (None, files3) \<and>
     folder_holds cfg files3 (as_chunks ncs @ ds) \<and> content (as_chunks ncs) = map_of (part_of cs kvs 0)"
proof -
  define un where "un = part_of cs kvs 0"
  have st: "starts_ok (map fst cs)" by (rule holds_parts(3) [OF h])
  have kun: "\<forall>kv \<in> set un. entry_ok kv \<and> fst kv \<noteq> [] \<and> length (fst kv) \<le> 32" using k by (auto simp: un_def part_of_def)
  obtain files2 a ncs where w: "writeSegmentedChunksToFolder cfg files1 un (Some alloc1) b = (files2, a, Inr (map fst (as_chunks ncs)))"
    "stores files1 files2 ncs" "chunks_ready files2 (as_chunks ncs)" "content (as_chunks ncs) = map_of un"
    "fst ` set ncs \<subseteq> fresh_names (ca_next alloc1) (ca_next alloc1 + int (length un))" "length ncs \<le> length un"
    using write_new_chunks [OF cfg un(1) [folded un_def] kun un(2) [folded un_def], of "ca_next alloc1" "Some alloc1" files1 b] cap unfolding un_def by auto
  have isn: "\<forall>n \<in> fst ` set ncs. is_chunk_name n" using w(5) by (auto simp: fresh_names_def)
  have new: "cname ` set (as_chunks ncs) = fst ` set ncs"
    using arg_cong [OF as_chunks_names [of ncs], of set] by (simp add: comp_def image_image)
  have apart: "fst ` set ncs \<inter> cname ` set ds = {}" using w(5) r(3) by (fastforce simp: fresh_names_def)
  have i2: "index_holds (fc_index cfg) files2 (map fst cs)" "id_bound (fc_index cfg) files2 (2 ^ 31)"
    using index_holds_frame [of files2 files1] w(2) touched_not_index [OF isn] i1 by (auto simp: stores_def)
  have r2: "chunks_ready files2 ds"
  proof (rule ready_frame [OF r(1)])
    fix n assume n: "is_chunk_name n" "n \<in> cname ` set ds"
    then have "n \<notin> touched (fst ` set ncs)" using apart isn by (intro touched_name) blast+
    then show "files2 n = files1 n" using w(2) by (simp add: stores_def)
  qed
  have "before c d" if c: "c \<in> set (as_chunks ncs)" and d: "d \<in> set ds" for c d
  proof -
    have "\<forall>k \<in> chunk_keys c. k \<in> fst ` set un" using w(4) c dom_content [of "as_chunks ncs"] by (auto simp: dom_map_of_conv_image_fst)
    then have "\<forall>k \<in> chunk_keys c. chunk_pos (map fst cs) k = 0" by (auto simp: un_def part_of_def)
    moreover obtain e where e: "e \<in> set cs" "chunk_start e \<le> chunk_start d" using r(2) [OF d] by blast
    moreover have "k < chunk_start e" if "chunk_pos (map fst cs) k = 0" for k
      by (rule pos_zero_below [OF st that e(1)])
    ultimately have lt: "\<forall>k \<in> chunk_keys c. k < chunk_start d" by (meson less_le_trans)
    have ck: "chunk_ok files2 c" "ordered (as_chunks ncs)" using w(3) c by (auto simp: chunks_ready_def)
    then obtain k where "k \<in> chunk_keys c" by (cases "records (snd c)") (auto simp: chunk_ok_def)
    then have "chunk_start c < chunk_start d" using lt ck(2) c by (auto simp: ordered_def intro: le_less_trans)
    then show ?thesis using lt by (simp add: before_def)
  qed
  moreover have "length (as_chunks ncs) + length ds < 2 ^ 26"
    using w(6) cap(3) by (simp add: as_chunks_def un_def)
  ultimately have "chunks_ready files2 (as_chunks ncs @ ds)"
    using apart new by (intro ready_append [OF w(3) r2]) auto
  from finish_index [OF this i2, of "map fst ds @ map fst (as_chunks ncs)"]
  obtain files3 where "writeSegmentIndexLocked (fc_index cfg) (map fst ds @ map fst (as_chunks ncs)) files2 = (None, files3)"
    "folder_holds cfg files3 (as_chunks ncs @ ds)" by auto
  then show ?thesis using w(1,4) unfolding un_def by blast
qed

lemma later_commit:
  assumes h: "folder_holds cfg files cs" and ne: "cs \<noteq> []" and cfg: "cfg_ok cfg" and kvs: "commit_ok kvs" and room: "room cfg files cs kvs"
  shows "\<exists>files' cs'. updateAccountNamedSegmentedStorage cfg kvs b files = (None, files') \<and> folder_holds cfg files' cs' \<and>
     content cs' = newest (concat (map (kept cfg) (assigned cs kvs))) ++ map_of kvs"
proof -
  note p = holds_parts [OF h]
  define al where "al = newChunkFileAllocator (map fst cs)"
  define un where "un = part_of cs kvs 0"
  have k: "strict_keys kvs" "\<forall>kv \<in> set kvs. entry_ok kv \<and> fst kv \<noteq> [] \<and> length (fst kv) \<le> 32" using kvs by (auto simp: commit_ok_def)
  have al0: "0 \<le> ca_next al" using holds_ordinals(2,3) [OF h, of "hd cs"] ne by (simp add: al_def)
  have cap: "ca_next al + int (weight (assigned cs kvs)) + int (length un) < 2 ^ 26"
    using room weight_assigned [of cs kvs] by (simp add: room_def al_def un_def)
  have pre: "\<forall>ca \<in> set (assigned cs kvs). chunk_ok files (fst ca) \<and> is_chunk_name (cname (fst ca)) \<and> adds_ok ca \<and>
      parseChunkOrdinal (cname (fst ca)) < ca_next al"
    using assigned_adds_ok [OF h kvs] p(5) holds_ordinals [OF h] by (auto simp: al_def)
  have dist: "distinct (map (cname \<circ> fst) (assigned cs kvs))" using p(7) by (simp add: comp_def assigned_def map_nth flip: map_map [of cname "\<lambda>i. cs ! i", unfolded comp_def])
  obtain files1 alloc1 dss dirty where u: "update_chunks cfg files al b (map (\<lambda>ca. (fst (fst ca), snd ca)) (assigned cs kvs)) =
      (files1, alloc1, Inr (map fst (concat dss), dirty))" "updated_to cfg files al (assigned cs kvs) files1 alloc1 dss"
    "\<not> dirty \<longrightarrow> map fst (concat dss) = map (fst \<circ> fst) (assigned cs kvs)"
    using update_chunks_updated [OF cfg pre dist al0, of b] cap by auto
  note r = updated_ready [OF h kvs room u(2) [unfolded al_def]]
  have al1: "ca_next al \<le> ca_next alloc1" "ca_next alloc1 \<le> ca_next al + int (weight (assigned cs kvs))" using u(2) by (auto simp: updated_to_def)
  have i1: "index_holds (fc_index cfg) files1 (map fst cs)" "id_bound (fc_index cfg) files1 (2 ^ 31)"
    using index_holds_frame [OF r(2)] p(1) room by (auto simp: room_def)
  have cont: "map_of un ++ content (concat dss) = newest (concat (map (kept cfg) (assigned cs kvs))) ++ map_of kvs"
    unfolding r(3) un_def by (rule commit_contents [OF p(4,3)])
  have sun: "strict_keys un" unfolding un_def part_of_def by (rule strict_filter [OF k(1)])
  have "\<forall>kv \<in> set kvs. fst kv \<noteq> []" using k(2) by blast
  note part = partition_parts [OF p(3) ne this, folded un_def]
  have upd: "updateAccountNamedSegmentedStorage cfg kvs b files =
      (if un = []
       then (if dirty then (case writeSegmentIndexLocked (fc_index cfg) (map fst (concat dss)) files1 of (e, files3) \<Rightarrow> (map_option FolderIndex e, files3))
             else (None, files1))
       else case (case writeSegmentedChunksToFolder cfg files1 un (Some alloc1) b of (f, _, r) \<Rightarrow> (f, r)) of
         (files2, Inl e) \<Rightarrow> (Some e, files2)
       | (files2, Inr newMetas) \<Rightarrow>
           (case writeSegmentIndexLocked (fc_index cfg) (map fst (concat dss) @ newMetas) files2 of (e, files3) \<Rightarrow> (map_option FolderIndex e, files3)))"
    using readSegmentIndex_holds [OF p(1)] ne normalize_sorted [OF p(3)] part u(1) sortKVPairs_stable [of un]
      sort_key_id_if_sorted [of fst un] strict_sorted_imp_sorted [OF sun]
    by (cases "un = []") (simp_all add: updateAccountNamedSegmentedStorage_def zip_assigned al_def del: assigned_simps)
  show ?thesis
  proof (cases "un = []")
    case True
    have c0: "content (concat dss) = newest (concat (map (kept cfg) (assigned cs kvs))) ++ map_of kvs" using cont True by simp
    show ?thesis
    proof (cases dirty)
      case d: True
      obtain files3 where "writeSegmentIndexLocked (fc_index cfg) (map fst (concat dss)) files1 = (None, files3)" "folder_holds cfg files3 (concat dss)"
        using finish_index [OF r(1) i1 refl] by blast
      then show ?thesis using upd True d c0 by auto
    next
      case d: False
      have "map fst (concat dss) = map fst (map fst (assigned cs kvs))" unfolding map_map using u(3) d by blast
      then have "index_holds (fc_index cfg) files1 (map fst (concat dss))" using i1(1) by (simp only: assigned_simps(1))
      from ready_holds [OF r(1) this] show ?thesis using upd True d c0 by auto
    qed
  next
    case False
    obtain files2 a ncs files3 where
      w: "writeSegmentedChunksToFolder cfg files1 un (Some alloc1) b = (files2, a, Inr (map fst (as_chunks ncs)))" and
      x: "writeSegmentIndexLocked (fc_index cfg) (map fst (concat dss) @ map fst (as_chunks ncs)) files2 = (None, files3)"
      "folder_holds cfg files3 (as_chunks ncs @ concat dss)" "content (as_chunks ncs) = map_of un"
      using add_new_chunks [OF h cfg sun [unfolded un_def] False [unfolded un_def] k(2) r(1,4,5) i1, of b] cap al0 al1 r(6) unfolding un_def by auto
    have "content (as_chunks ncs @ concat dss) = newest (concat (map (kept cfg) (assigned cs kvs))) ++ map_of kvs"
      using cont x(3) by simp
    then show ?thesis using upd False w x(1,2) by auto
  qed
qed

end
