(* ===== verification/Segment_Folder_Theorems.thy ===== *)
theory Segment_Folder_Theorems
  imports Segment_Folder_Commit
begin

text \<open>
  The sweep over all chunks and the removal of unreferenced files keep what lookups return; the
  results on commits and sweeps of a folder.
\<close>

section \<open>The sweep\<close>

definition source_tag :: "chunk \<Rightarrow> u64" where
  "source_tag c = (case last_tag None (snd c) of Some b \<Rightarrow> b | None \<Rightarrow> 0)"

definition tagged_records :: "chunk list \<Rightarrow> taggedKVPair list" where
  "tagged_records cs = concat (map (\<lambda>c. map (\<lambda>e. (e, source_tag c)) (records (snd c))) cs)"

abbreviation all_records :: "chunk list \<Rightarrow> kvPair list" where
  "all_records cs \<equiv> concat (map (records \<circ> snd) cs)"

lemma fst_tagged_records: "map fst (tagged_records cs) = all_records cs"
  by (induction cs) (simp_all add: tagged_records_def comp_def)

lemma read_all_records: "\<forall>c \<in> set cs. chunk_ok files c \<Longrightarrow> read_all files (map fst cs) = Inr (tagged_records cs)"
proof (induction cs)
  case (Cons c cs)
  have c: "chunk_ok files c" "\<forall>it \<in> set (snd c). item_ok it" using Cons.prems by (auto simp: chunk_ok_def)
  show ?case using Cons readSegmentChunkFile_ok [OF c(1)] lastChunkCommitTagBlockID_log [OF c(2)]
    by (simp add: tagged_records_def source_tag_def)
qed (simp add: tagged_records_def)

lemma map_insort_key: "map f (insort_key (\<lambda>x. g (f x)) x xs) = insort_key g (f x) (map f xs)"
  by (induction xs) auto

lemma map_sort_key: "map f (sort_key (\<lambda>x. g (f x)) xs) = sort_key g (map f xs)"
  by (induction xs) (simp_all add: map_insort_key)

lemma map_keep_tagged: "map fst (keep_tagged_ends xs) = keep_run_ends (map fst xs)"
  by (induction xs rule: keep_tagged_ends.induct) auto

lemma sweep_dedup_newest:
  "strict_keys (map fst (sweep_dedup T))" "map_of (map fst (sweep_dedup T)) = newest (map fst T)"
  "set (map fst (sweep_dedup T)) \<subseteq> set (map fst T)" "length (sweep_dedup T) \<le> length T"
proof -
  let ?s = "sort_key fst (map fst T)"
  have e: "map fst (sweep_dedup T) = dedupSortedKVPairs ?s"
  proof (cases "length T > 1")
    case True
    then show ?thesis by (simp add: sweep_dedup_def map_keep_tagged map_sort_key [of fst fst] dedupSortedKVPairs_def)
  next
    case False
    then show ?thesis by (cases T) (auto simp: sweep_dedup_def dedupSortedKVPairs_def)
  qed
  have d: "strict_keys (dedupSortedKVPairs ?s)" "map_of (dedupSortedKVPairs ?s) = newest ?s"
    using dedupSortedKVPairs_sorted [of ?s] by auto
  show "strict_keys (map fst (sweep_dedup T))" using d(1) e by simp
  show m: "map_of (map fst (sweep_dedup T)) = newest (map fst T)" using d(2) e newest_sort_key [of "map fst T"] by simp
  show sub: "set (map fst (sweep_dedup T)) \<subseteq> set (map fst T)"
  proof
    fix kv assume "kv \<in> set (map fst (sweep_dedup T))"
    then have "map_of (map fst (sweep_dedup T)) (fst kv) = Some (snd kv)"
      using d(1) e by (intro map_of_is_SomeI) (auto dest: strict_keys_distinct)
    then show "kv \<in> set (map fst T)" unfolding m by (auto dest!: map_of_SomeD)
  qed
  have "distinct (map fst (sweep_dedup T))" using strict_keys_distinct [OF d(1)] e by (simp add: distinct_map)
  then have "length (sweep_dedup T) = card (set (map fst (sweep_dedup T)))" using distinct_card by fastforce
  also have "\<dots> \<le> card (set (map fst T))" using sub by (intro card_mono) auto
  also have "\<dots> \<le> length T" using card_length [of "map fst T"] by simp
  finally show "length (sweep_dedup T) \<le> length T" .
qed

lemma tagged_chunks_split: "map fst (tagged_chunks limit cur sz tag es) = split_loop limit cur sz (map fst es)"
  by (induction limit cur sz tag es rule: tagged_chunks.induct) auto

lemma remove_all_kept: "n \<notin> set ns \<Longrightarrow> remove_all ns files n = files n"
  by (rule remove_all_other)

lemma pairs_zip: "length names = length chunks \<Longrightarrow> pairs (zip names chunks) = concat (map fst chunks)"
  by (induction names chunks rule: list_induct2) auto

lemma sweep_holds:
  assumes h: "folder_holds cfg files cs" and ne: "cs \<noteq> []" and cfg: "cfg_ok cfg" and room: "room cfg files cs []"
  shows "\<exists>files' cs'. GCAllStorageChunkFiles cfg files = (None, files') \<and> folder_holds cfg files' cs' \<and>
     content cs' = content cs \<and> distinct (map fst (all_records cs'))"
proof -
  note p = holds_parts [OF h]
  define E where "E = map fst (sweep_dedup (tagged_records cs))"
  define chunks where "chunks = tagged_chunks (segmentedChunkTargetSize cfg) [] 0 0 (sweep_dedup (tagged_records cs))"
  define ncs where "ncs = zip (allocated 0 (length chunks)) chunks"
  note s = sweep_dedup_newest [of "tagged_records cs", unfolded fst_tagged_records, folded E_def]
  have rec: "\<forall>kv \<in> set (all_records cs). entry_ok kv"
  proof
    fix kv assume "kv \<in> set (all_records cs)"
    then obtain c where c: "c \<in> set cs" "kv \<in> set (records (snd c))" by auto
    have "\<forall>it \<in> set (snd c). item_ok it" using p(5) [OF c(1)] by (simp add: chunk_ok_def)
    then show "entry_ok kv" using records_entry_ok c(2) by blast
  qed
  have keys: "\<forall>kv \<in> set (all_records cs). fst kv \<noteq> [] \<and> length (fst kv) \<le> 32"
  proof
    fix kv assume "kv \<in> set (all_records cs)"
    then obtain c where c: "c \<in> set cs" "fst kv \<in> chunk_keys c" by auto
    have "chunk_start c \<le> fst kv" using p(4) c unfolding ordered_def by blast
    moreover have "chunk_start c \<noteq> []" using p(6) [OF c(1)] by (simp add: meta_ok_def)
    ultimately show "fst kv \<noteq> [] \<and> length (fst kv) \<le> 32" using p(8) [OF c] by (cases "chunk_start c") auto
  qed
  have e: "\<forall>kv \<in> set E. entry_ok kv" "\<forall>kv \<in> set E. fst kv \<noteq> [] \<and> length (fst kv) \<le> 32" using s(3) rec keys by blast+
  have lim: "segmentedChunkTargetSize cfg < 2 ^ 31" using cfg by (simp add: cfg_ok_def)
  have sp: "map fst chunks = splitEntriesBySize E (segmentedChunkTargetSize cfg)"
    by (simp add: chunks_def tagged_chunks_split splitEntriesBySize_def E_def)
  have part: "c \<noteq> []" "\<forall>kv \<in> set c. entry_ok kv" "int (payloadSize c) < 2 ^ 31" if "(c, t) \<in> set chunks" for c t
    using split_payload [OF _ e(1) lim, of c] arg_cong [OF sp, of set] that by force+
  have len: "length chunks \<le> length E" using length_split [of E] arg_cong [OF sp, of length] by simp
  have al0: "0 \<le> ca_next (newChunkFileAllocator (map fst cs))" using holds_ordinals(2,3) [OF h, of "hd cs"] ne by simp
  have "length (all_records cs) = total_records cs" by (simp add: length_concat comp_def)
  then have small: "length chunks < 2 ^ 26"
    using len s(4) room al0 arg_cong [OF fst_tagged_records, of length cs] by (simp add: room_def E_def)
  then have b32: "int 0 + int (length chunks) < 2 ^ 32" by simp
  have "kvs \<noteq> [] \<and> (\<forall>kv \<in> set kvs. entry_ok kv) \<and> int (payloadSize kvs) < 2 ^ 31" if "(n, kvs, b) \<in> set ncs" for n kvs b
    using part [of kvs b] set_zip_rightD [of n "(kvs, b)" "allocated 0 (length chunks)" chunks] that by (simp add: ncs_def)
  then have f: "fits ncs" unfolding fits_def by blast
  have pe: "pairs ncs = E" using pairs_zip [of "allocated 0 (length chunks)" chunks] sp split_bounds(1) by (simp add: ncs_def)
  obtain files1 where w: "write_tagged files 0 chunks = (files1, Inr (map fst (as_chunks ncs)))" "stores files files1 ncs"
    using write_tagged_stores [of chunks 0 files] part(2) b32 by (auto simp: ncs_def)
  have nn: "map fst ncs = allocated 0 (length chunks)" by (simp add: ncs_def)
  have isn: "\<forall>x \<in> set ncs. is_chunk_name (fst x)"
    using set_zip_names [of "allocated 0 (length chunks)" chunks] allocated_names by (auto simp: ncs_def)
  have dist: "distinct (map fst ncs)" unfolding nn by (rule distinct_allocated) (use b32 in simp_all)
  have l26: "length ncs < 2 ^ 26" using small by (simp add: ncs_def)
  have r1: "chunks_ready files1 (as_chunks ncs)"
    by (rule ready_as_chunks [OF w(2) f _ _ dist isn l26]) (use pe s(1) e(2) in simp_all)
  define keep where "keep = set (map FileName (map fst (as_chunks ncs)))"
  define files2 where "files2 = remove_all (filter (\<lambda>n. n \<notin> keep) (map FileName (map fst cs))) files1"
  have fr: "files2 q = files q" if q: "index_file q" for q
  proof -
    have "q \<notin> touched (fst ` set ncs)" by (rule touched_not_index [OF _ q]) (use isn in auto)
    moreover have "q \<notin> set (map FileName (map fst cs))"
      using holds_ordinals(1) [OF h] q chunk_not_index_file by (auto simp: is_chunk_name_def) metis
    ultimately show ?thesis using w(2) by (simp add: files2_def remove_all_kept stores_def)
  qed
  have r2: "chunks_ready files2 (as_chunks ncs)"
  proof (rule ready_frame [OF r1])
    fix n assume "n \<in> cname ` set (as_chunks ncs)"
    then have "n \<in> keep" by (auto simp: keep_def)
    then show "files2 n = files1 n" unfolding files2_def by (intro remove_all_kept) simp
  qed
  have i2: "index_holds (fc_index cfg) files2 (map fst cs)" "id_bound (fc_index cfg) files2 (2 ^ 31)"
    using index_holds_frame [OF fr] p(1) room by (auto simp: room_def)
  obtain files3 where x: "writeSegmentIndexLocked (fc_index cfg) (map fst (as_chunks ncs)) files2 = (None, files3)"
    "folder_holds cfg files3 (as_chunks ncs)" using finish_index [OF r2 i2 refl] by blast
  have "GCAllStorageChunkFiles cfg files = (None, files3)"
    using readSegmentIndex_holds [OF p(1)] ne read_all_records [of cs files] p(5) w(1) x(1) [unfolded files2_def keep_def]
    by (simp add: GCAllStorageChunkFiles_def chunks_def [symmetric] Let_def image_image)
  moreover have "content (as_chunks ncs) = content cs"
    using s(2) newest_distinct [OF strict_keys_distinct [OF s(1)]] unfolding content_as_chunks pe by (simp add: content_def)
  moreover have "all_records (as_chunks ncs) = pairs ncs" for ncs by (induction ncs rule: pairs.induct) auto
  ultimately show ?thesis using x(2) strict_keys_distinct [OF s(1)] pe by metis
qed

section \<open>Removing unreferenced files\<close>

lemma suffix_last: "has_suffix n s \<Longrightarrow> s \<noteq> [] \<Longrightarrow> last n = last s"
  unfolding has_suffix_def by (metis append_take_drop_id last_append)

lemma index_not_garbage: "\<not> is_garbage R segmentIndexFileName" "\<not> is_garbage R (level2IndexFileName i)"
proof -
  have l: "last (level2IndexFileName i) = last (decimal (unat i))" by (simp add: level2IndexFileName_def Let_def)
  have "of_char (CHR ''t'') = (116 :: int)" "of_char (CHR ''p'') = (112 :: int)" by simp_all
  then have "last (level2IndexFileName i) \<noteq> CHR ''t''" "last (level2IndexFileName i) \<noteq> CHR ''p''"
    using last_decimal [of "unat i"] unfolding l by auto
  then show "\<not> is_garbage R (level2IndexFileName i)" using suffix_last [of "level2IndexFileName i"] by (auto simp: is_garbage_def)
  show "\<not> is_garbage R segmentIndexFileName" by (simp add: is_garbage_def has_suffix_def segmentIndexFileName_def)
qed

lemma chunk_not_tmp: "is_chunk_name n \<Longrightarrow> \<not> has_suffix n ''.dat.tmp''"
  using suffix_last [of n "''.dat.tmp''"] chunk_name_last(1) by (auto simp: is_chunk_name_def)

lemma collect_holds:
  assumes h: "folder_holds cfg files cs" and ne: "cs \<noteq> []"
  shows "\<exists>n files'. GCCollectGarbageChunks cfg folderID files = (None, n, files') \<and> folder_holds cfg files' cs"
proof (cases "folderID = 0")
  case True
  then show ?thesis using h by (simp add: GCCollectGarbageChunks_def)
next
  case False
  note p = holds_parts [OF h]
  define R where "R = set (filter (\<lambda>n. n \<noteq> []) (map FileName (map fst cs)))"
  define files' where "files' = (\<lambda>n. if is_garbage R n then None else files n)"
  have res: "GCCollectGarbageChunks cfg folderID files = (None, card {n \<in> dom files. is_garbage R n}, files')"
    using readSegmentIndex_holds [OF p(1)] ne False by (simp add: GCCollectGarbageChunks_def R_def files'_def Let_def)
  have "index_holds (fc_index cfg) files' (map fst cs)"
    using index_names_frame(1) [of files' files "fc_index cfg"] p(1) index_not_garbage by (simp add: files'_def)
  moreover have "chunk_ok files' c" if c: "c \<in> set cs" for c
  proof (rule chunk_ok_frame [OF p(5) [OF c]])
    have n: "is_chunk_name (cname c)" by (rule holds_ordinals(1) [OF h c])
    then have "cname c \<noteq> []" using chunk_name_last(2) unfolding is_chunk_name_def by metis
    then have "cname c \<in> R" using c by (auto simp: R_def)
    then show "files' (cname c) = files (cname c)" using chunk_not_tmp [OF n] by (simp add: files'_def is_garbage_def)
  qed
  ultimately have "folder_holds cfg files' cs" using h by (simp add: folder_holds_def)
  then show ?thesis using res by blast
qed

section \<open>Theorems\<close>

text \<open>
  What a commit leaves of a key that it does not contain: if the chunk of the key overflows and is
  rewritten, the oldest record of the key in the chunk, otherwise the newest.
\<close>

definition surviving :: "folder_config \<Rightarrow> chunk list \<Rightarrow> kvPair list \<Rightarrow> bytes \<rightharpoonup> bytes" where
  "surviving cfg cs kvs k =
     (let p = chunk_pos (map fst cs) k in
      if p = 0 then None
      else if overflows cfg (cs ! (p - 1)) (part_of cs kvs p) then map_of (records (snd (cs ! (p - 1)))) k
      else newest (records (snd (cs ! (p - 1)))) k)"

lemma surviving_kept:
  assumes "ordered cs" "starts_ok (map fst cs)"
  shows "newest (concat (map (kept cfg) (assigned cs kvs))) k = surviving cfg cs kvs k"
proof -
  define ds where "ds = map (\<lambda>ca. (fst (fst ca), rec_items (kept cfg ca))) (assigned cs kvs)"
  have nth: "ds ! i = (fst (cs ! i), rec_items (kept cfg (cs ! i, part_of cs kvs (Suc i))))" if "i < length cs" for i
    using that by (simp add: ds_def assigned_def)
  have len: "length ds = length cs" by (simp add: ds_def)
  have fst_ds: "map fst ds = map fst cs" by (rule nth_equalityI) (simp_all add: len nth)
  have keys: "chunk_keys (ds ! i) = chunk_keys (cs ! i)" "chunk_start (ds ! i) = chunk_start (cs ! i)" if "i < length cs" for i
    using that by (simp_all add: nth)
  have "ordered ds" using assms(1) keys len
    unfolding ordered_def sorted_wrt_iff_nth_less before_def all_set_conv_all_nth by simp
  moreover have "content ds = newest (concat (map (kept cfg) (assigned cs kvs)))"
    by (simp add: content_def ds_def comp_def)
  ultimately have "newest (concat (map (kept cfg) (assigned cs kvs))) k =
      (let p = chunk_pos (map fst cs) k in if p = 0 then None else newest (records (snd (ds ! (p - 1)))) k)"
    using content_at [of ds k] fst_ds by simp
  moreover have "records (snd (ds ! (p - 1))) = kept cfg (cs ! (p - 1), part_of cs kvs p)" if "p = chunk_pos (map fst cs) k" "p \<noteq> 0" for p
    using nth [of "p - 1"] chunk_pos_props(1) [OF assms(2), of k] that by simp
  ultimately show ?thesis by (simp add: surviving_def Let_def kept_def)
qed

lemma commit_holds:
  assumes h: "folder_holds cfg files cs" and c: "cfg_ok cfg" "commit_ok kvs" "room cfg files cs kvs"
  shows "\<exists>files' cs'. updateAccountNamedSegmentedStorage cfg kvs b files = (None, files') \<and> folder_holds cfg files' cs' \<and>
     content cs' = surviving cfg cs kvs ++ map_of kvs"
proof -
  note p = holds_parts(3,4) [OF h]
  have s: "newest (concat (map (kept cfg) (assigned cs kvs))) = surviving cfg cs kvs" using surviving_kept [OF p(2,1)] by blast
  show ?thesis
  proof (cases "cs = []")
    case True
    have "surviving cfg [] kvs = Map.empty" by (simp add: surviving_def chunk_pos_def fun_eq_iff)
    then show ?thesis using first_commit [of cfg files kvs b] h c True by auto
  next
    case False
    from later_commit [OF h False c, of b] show ?thesis unfolding s by blast
  qed
qed

text \<open>
  C6. A commit to the folder of an account, which appends to some chunks, rewrites the ones that
  would overflow and adds new ones below the first, succeeds and leaves a consistent folder. A key
  of the commit then reads with its new value; another key reads with its newest record, except in
  a rewritten chunk, where it reads with its oldest record there.
\<close>

theorem folder_commit_lookup:
  assumes "folder_holds cfg files cs" "cfg_ok cfg" "commit_ok kvs" "room cfg files cs kvs" "k \<noteq> []"
  shows "case updateAccountNamedSegmentedStorage cfg kvs blockID files of (e, files') \<Rightarrow>
     e = None \<and> (\<exists>cs'. folder_holds cfg files' cs') \<and>
     segment_value (fst (readSegmentedChunkToCacheByPath cfg files' k)) =
       live (case map_of kvs k of Some v \<Rightarrow> Some v | None \<Rightarrow> surviving cfg cs kvs k)"
proof -
  obtain files' cs' where u: "updateAccountNamedSegmentedStorage cfg kvs blockID files = (None, files')" "folder_holds cfg files' cs'"
    "content cs' = surviving cfg cs kvs ++ map_of kvs" using commit_holds [OF assms(1-4)] by blast
  have "segment_value (fst (readSegmentedChunkToCacheByPath cfg files' k)) = live (content cs' k)"
    by (rule lookup_content [OF u(2) assms(5)])
  then show ?thesis using u by (auto simp: map_add_def split: option.splits)
qed

definition stale_cfg :: folder_config where
  "stale_cfg = \<lparr>fc_index = \<lparr>ic_zstd = toy_zstd, ic_compression = False, ic_level2Size = 400, ic_threshold = 800\<rparr>,
     fc_storageChunkSize = 30, fc_segmentedChunkHardLimit = 30, fc_storageGetCacheCount = 4\<rparr>"

definition stale_chunk :: chunk where
  "stale_chunk = (\<lparr>FileName = chunkFileNameForOrdinal 0, KeyStart = [1]\<rparr>,
     [Rec [1] [10], Rec [2] [20], Tag 1, Rec [1] [11], Tag 2])"

definition stale_folder :: folder where
  "stale_folder = [chunkFileNameForOrdinal 0 \<mapsto> chunk_log (snd stale_chunk), segmentIndexFileName \<mapsto> flat_bytes [fst stale_chunk]]"

lemma stale_index:
  "zstd_laws (ic_zstd (fc_index stale_cfg))" "metas_ok [fst stale_chunk]"
  "file_holds (fc_index stale_cfg) stale_folder segmentIndexFileName (flat_bytes [fst stale_chunk])"
proof -
  show z: "zstd_laws (ic_zstd (fc_index stale_cfg))" by (simp add: stale_cfg_def zstd_laws_def toy_zstd_def)
  show m: "metas_ok [fst stale_chunk]" by (auto simp: stale_chunk_def metas_ok_def meta_ok_def starts_ok_def)
  have "encodeSegmentIndexFileData (fc_index stale_cfg) d = d" for d by (simp add: stale_cfg_def encodeSegmentIndexFileData_def)
  then have "decodeSegmentIndexFileData (fc_index stale_cfg) (flat_bytes [fst stale_chunk]) = Inr (flat_bytes [fst stale_chunk])"
    using decode_encode_file [OF flat_raw_ok [OF z m]] by simp
  then show "file_holds (fc_index stale_cfg) stale_folder segmentIndexFileName (flat_bytes [fst stale_chunk])"
    by (simp add: file_holds_def readSegmentIndexFile_def stale_folder_def)
qed

lemma stale_folder_holds: "folder_holds stale_cfg stale_folder [stale_chunk]"
proof -
  have n: "chunkFileNameForOrdinal 0 \<noteq> segmentIndexFileName" using chunk_not_index_file [of 0] level2_names(9) by metis
  have "index_holds (fc_index stale_cfg) stale_folder [fst stale_chunk]" using stale_index by (simp add: index_holds_def)
  moreover have "chunk_ok stale_folder stale_chunk"
    using n by (auto simp: chunk_ok_def stale_folder_def stale_chunk_def record_header_def)
  ultimately show ?thesis by (auto simp: folder_holds_def ordered_Cons stale_chunk_def)
qed

lemma stale_cfg_ok: "cfg_ok stale_cfg"
  by (simp add: cfg_ok_def stale_cfg_def segmentedChunkTriggerSize_def segmentedChunkTargetSize_def)

lemma folder_commit_lookup_witness:
  "segment_value (fst (readSegmentedChunkToCacheByPath stale_cfg stale_folder [1])) = Some [11] \<and>
   segment_value (fst (readSegmentedChunkToCacheByPath stale_cfg
     (snd (updateAccountNamedSegmentedStorage stale_cfg [([2], [21])] 3 stale_folder)) [1])) = Some [10]"
proof -
  have k: "commit_ok [([2], [21])]" by (simp add: commit_ok_def entry_ok_def)
  have i: "id_bound (fc_index stale_cfg) stale_folder (2 ^ 31)"
    by (simp add: id_bound_def load_flat [OF stale_index(3)])
  have r: "room stale_cfg stale_folder [stale_chunk] [([2], [21])]"
    using i by (simp add: room_def newChunkFileAllocator_def stale_chunk_def)
  have s: "surviving stale_cfg [stale_chunk] [([2], [21])] [1] = Some [10]"
    by (simp add: surviving_def chunk_pos_def stale_chunk_def overflows_def part_of_def payloadSize_sum entry_bytes_def
        segmentedChunkEntryHeaderSize_def segmentedChunkTriggerSize_def stale_cfg_def record_header_def)
  have "segment_value (fst (readSegmentedChunkToCacheByPath stale_cfg stale_folder [1])) = Some [11]"
    using lookup_content [OF stale_folder_holds, of "[1]"] by (simp add: content_def stale_chunk_def live_def)
  then show ?thesis using folder_commit_lookup [OF stale_folder_holds stale_cfg_ok k r, of "[1]" 3] s by (auto simp: live_def split: prod.splits)
qed

text \<open>
  C11. The sweep that rewrites all chunks of a folder, followed by the removal of unreferenced files
  under any folder number, succeeds, every key reads as before, and no superseded record is left.
\<close>

theorem sweep_keeps_lookups:
  assumes "folder_holds cfg files cs" "cs \<noteq> []" "cfg_ok cfg" "room cfg files cs []"
  shows "case GCAllStorageChunkFiles cfg files of (e, files1) \<Rightarrow>
     (case GCCollectGarbageChunks cfg folderID files1 of (e', n, files2) \<Rightarrow>
        e = None \<and> e' = None \<and>
        (\<exists>cs'. folder_holds cfg files2 cs' \<and> distinct (map fst (all_records cs'))) \<and>
        (\<forall>k. k \<noteq> [] \<longrightarrow> segment_value (fst (readSegmentedChunkToCacheByPath cfg files2 k)) =
                       segment_value (fst (readSegmentedChunkToCacheByPath cfg files k))))"
proof -
  obtain files1 cs' where s: "GCAllStorageChunkFiles cfg files = (None, files1)" "folder_holds cfg files1 cs'"
    "content cs' = content cs" "distinct (map fst (all_records cs'))" using sweep_holds [OF assms] by blast
  obtain c where c: "c \<in> set cs" using assms(2) by (cases cs) auto
  have "records (snd c) \<noteq> []" using holds_parts(5) [OF assms(1) c] by (simp add: chunk_ok_def)
  then have "fst (hd (records (snd c))) \<in> chunk_keys c" by simp
  then have "fst (hd (records (snd c))) \<in> dom (content cs)" unfolding dom_content using c by (intro UN_I)
  then have "cs' \<noteq> []" unfolding s(3) [symmetric] by (cases cs') auto
  then obtain n files2 where g: "GCCollectGarbageChunks cfg folderID files1 = (None, n, files2)" "folder_holds cfg files2 cs'"
    using collect_holds [OF s(2)] by blast
  then show ?thesis using s lookup_content [OF assms(1)] lookup_content [OF g(2)] by auto
qed

lemma sweep_keeps_lookups_witness:
  "segment_value (fst (readSegmentedChunkToCacheByPath stale_cfg
     (snd (snd (GCCollectGarbageChunks stale_cfg 1 (snd (GCAllStorageChunkFiles stale_cfg stale_folder))))) [1])) = Some [11]"
proof -
  have r: "room stale_cfg stale_folder [stale_chunk] []"
    by (simp add: room_def newChunkFileAllocator_def stale_chunk_def id_bound_def load_flat [OF stale_index(3)])
  have "segment_value (fst (readSegmentedChunkToCacheByPath stale_cfg stale_folder [1])) = Some [11]"
    using lookup_content [OF stale_folder_holds, of "[1]"] by (simp add: content_def stale_chunk_def live_def)
  then show ?thesis using sweep_keeps_lookups [OF stale_folder_holds _ stale_cfg_ok r, of 1] by (auto split: prod.splits)
qed

end
