(* ===== verification/Buffer_Index.thy ===== *)
theory Buffer_Index
  imports Segment_Format
begin

text \<open>
  The filters and the on-disk index of the buffer logs of \<^verbatim>\<open>src/THEO/prefixdb/prefixdb.go\<close>. A
  buffer log collects the storage updates of one account in the forward format. Its index file
  is a hash table: a header, the heads of the buckets, and records that are chained from the
  newest to the oldest record of their bucket. The theory holds the filter of account folders,
  the counting Bloom filter of buffered keys, the codecs of the index, the reader that keeps one
  page, the lookup along a chain, and the correctness of the filters and of the lookup.
\<close>

unbundle bit_operations_syntax

named_theorems buffer_simps \<open>the index file of a buffer log\<close>

datatype bl_error = BLSeg seg_error | BLRead io_error | BLNotExist | BLKeyRequired

section \<open>Hashes\<close>

definition mix_step :: "u64 \<Rightarrow> byte \<Rightarrow> u64" where
  "mix_step h c = h XOR (ucast c + 0x9e3779b97f4a7c15 + push_bit 6 h + drop_bit 2 h)"

definition mix_final :: "u64 \<Rightarrow> u64" where
  "mix_final h =
     (let h = h XOR drop_bit 33 h;
          h = h * 0xff51afd7ed558ccd;
          h = h XOR drop_bit 33 h;
          h = h * 0xc4ceb9fe1a85ec53
      in h XOR drop_bit 33 h)"

definition mixAccountFolderHash :: "bytes \<Rightarrow> u64 \<Rightarrow> u64" where
  "mixAccountFolderHash key seed = mix_final (foldl mix_step (seed XOR 0x9e3779b97f4a7c15) key)"

definition mixBufferLogHash :: "bytes \<Rightarrow> bytes \<Rightarrow> u64 \<Rightarrow> u64" where
  "mixBufferLogHash accountKey storageKey seed =
     mix_final (foldl mix_step (foldl mix_step (seed XOR 0x9e3779b97f4a7c15) accountKey) storageKey)"

definition mixBufferLogHashValue :: "u64 \<Rightarrow> u64 \<Rightarrow> u64" where
  "mixBufferLogHashValue v seed = mix_final (v XOR seed XOR 0x9e3779b97f4a7c15)"

definition bufferLogDiskIndexKeyHash :: "bytes \<Rightarrow> bytes \<Rightarrow> u64" where
  "bufferLogDiskIndexKeyHash accountKey storageKey = mixBufferLogHash accountKey storageKey 0x9e3779b97f4a7c15"

text \<open>
  The loop that rounds a size up to a power of two. It does not return when the size is above
  \<open>2 ^ 63\<close>, where the shifted word becomes zero.
\<close>

partial_function (option) pow_loop :: "u64 \<Rightarrow> u64 \<Rightarrow> u64 option" where
  "pow_loop bitCount pow = (if pow < bitCount then pow_loop bitCount (push_bit 1 pow) else Some pow)"

definition round_up :: "u64 \<Rightarrow> u64 option" where
  "round_up bitCount = (if bitCount AND (bitCount - 1) \<noteq> 0 then pow_loop bitCount 1 else Some bitCount)"

section \<open>The filter of account folders\<close>

text \<open>
  The words of the filter are indexed by the upper bits of a masked hash. Every filter of the
  program has at least 64 bits (the constant below), so the index is within the words.
\<close>

record accountFolderFilter =
  af_bits :: "u64 list"
  af_mask :: u64
  af_exact :: "bytes set"

definition accountFolderBloomBitCount :: u64 where
  "accountFolderBloomBitCount = 1048576"

definition newAccountFolderFilter :: "u64 \<Rightarrow> accountFolderFilter option" where
  "newAccountFolderFilter bitCount =
     map_option (\<lambda>n. \<lparr>af_bits = replicate (unat (n div 64)) 0, af_mask = n - 1, af_exact = {}\<rparr>)
       (round_up (if bitCount = 0 then accountFolderBloomBitCount else bitCount))"

definition folder_bloomIndexes :: "accountFolderFilter \<Rightarrow> bytes \<Rightarrow> u64 list" where
  "folder_bloomIndexes f accountKey =
     (let h1 = mixAccountFolderHash accountKey 0x100000001b3;
          h2 = mixAccountFolderHash accountKey 0x84222325cbf29ce4
      in [h1 AND af_mask f, (h1 + h2) AND af_mask f, (h1 + 2 * h2) AND af_mask f])"

definition set_bloom_bit :: "u64 \<Rightarrow> u64 list \<Rightarrow> u64 list" where
  "set_bloom_bit i bits =
     (let w = unat (drop_bit 6 i) in bits[w := bits ! w OR push_bit (unat (i AND 63)) 1])"

definition test_bloom_bit :: "u64 list \<Rightarrow> u64 \<Rightarrow> bool" where
  "test_bloom_bit bits i \<longleftrightarrow> bits ! unat (drop_bit 6 i) AND push_bit (unat (i AND 63)) 1 \<noteq> 0"

definition folder_add :: "accountFolderFilter \<Rightarrow> bytes \<Rightarrow> accountFolderFilter" where
  "folder_add f accountKey =
     (if accountKey = [] then f
      else f\<lparr>af_bits := fold set_bloom_bit (folder_bloomIndexes f accountKey) (af_bits f),
             af_exact := insert accountKey (af_exact f)\<rparr>)"

definition folder_remove :: "accountFolderFilter \<Rightarrow> bytes \<Rightarrow> accountFolderFilter" where
  "folder_remove f accountKey = (if accountKey = [] then f else f\<lparr>af_exact := af_exact f - {accountKey}\<rparr>)"

definition folder_maybeContains :: "accountFolderFilter \<Rightarrow> bytes \<Rightarrow> bool" where
  "folder_maybeContains f accountKey \<longleftrightarrow>
     accountKey \<noteq> [] \<and> list_all (test_bloom_bit (af_bits f)) (folder_bloomIndexes f accountKey)
     \<and> accountKey \<in> af_exact f"

section \<open>The counting filter of buffered keys\<close>

record bufferLogBloom =
  bb_count :: "byte list"
  bb_mask :: u64

definition bufferLogBloomBitCount :: u64 where
  "bufferLogBloomBitCount = 134217728"

definition bufferLogBloomHashCount :: nat where
  "bufferLogBloomHashCount = 5"

definition newBufferLogBloom :: "u64 \<Rightarrow> bufferLogBloom option" where
  "newBufferLogBloom bitCount =
     map_option (\<lambda>n. \<lparr>bb_count = replicate (unat n) 0, bb_mask = n - 1\<rparr>)
       (round_up (if bitCount = 0 then bufferLogBloomBitCount else bitCount))"

definition bloomIndexesForHash :: "bufferLogBloom \<Rightarrow> u64 \<Rightarrow> u64 list" where
  "bloomIndexesForHash b keyHash =
     (let h1 = mixBufferLogHashValue keyHash 0x100000001b3;
          h2 = mixBufferLogHashValue keyHash 0x84222325cbf29ce4
      in map (\<lambda>i. (h1 + of_nat i * h2) AND bb_mask b) [0..<bufferLogBloomHashCount])"

definition count_up :: "u64 \<Rightarrow> byte list \<Rightarrow> byte list" where
  "count_up i cs = (if cs ! unat i < 0xff then cs[unat i := cs ! unat i + 1] else cs)"

definition count_down :: "u64 \<Rightarrow> byte list \<Rightarrow> byte list" where
  "count_down i cs = (if cs ! unat i > 0 then cs[unat i := cs ! unat i - 1] else cs)"

definition bloom_addHash :: "bufferLogBloom \<Rightarrow> u64 \<Rightarrow> bufferLogBloom" where
  "bloom_addHash b keyHash = b\<lparr>bb_count := fold count_up (bloomIndexesForHash b keyHash) (bb_count b)\<rparr>"

definition bloom_add :: "bufferLogBloom \<Rightarrow> bytes \<Rightarrow> bytes \<Rightarrow> bufferLogBloom" where
  "bloom_add b accountKey storageKey =
     (if accountKey = [] \<or> storageKey = [] then b
      else bloom_addHash b (bufferLogDiskIndexKeyHash accountKey storageKey))"

definition bloom_remove :: "bufferLogBloom \<Rightarrow> bytes \<Rightarrow> bytes \<Rightarrow> bufferLogBloom" where
  "bloom_remove b accountKey storageKey =
     (if accountKey = [] \<or> storageKey = [] then b
      else b\<lparr>bb_count := fold count_down
               (bloomIndexesForHash b (bufferLogDiskIndexKeyHash accountKey storageKey)) (bb_count b)\<rparr>)"

definition bloom_maybeContains :: "bufferLogBloom \<Rightarrow> bytes \<Rightarrow> bytes \<Rightarrow> bool" where
  "bloom_maybeContains b accountKey storageKey \<longleftrightarrow>
     accountKey \<noteq> [] \<and> storageKey \<noteq> []
     \<and> list_all (\<lambda>i. bb_count b ! unat i \<noteq> 0)
         (bloomIndexesForHash b (bufferLogDiskIndexKeyHash accountKey storageKey))"

section \<open>The format of the index file\<close>

record bufferLogDiskIndexMetadata =
  bm_coveredEnd :: int
  bm_recordCount :: u64
  bm_bucketCount :: u64
  bm_recordsOffset :: int
  bm_fileSize :: int

record bufferLogDiskIndexRecord =
  br_keyHash :: u64
  br_logOffset :: int
  br_prevRecord :: u64

definition bufferLogDiskIndexMagic :: u32 where "bufferLogDiskIndexMagic = 0x424c4958"
definition bufferLogDiskIndexVersion :: "16 word" where "bufferLogDiskIndexVersion = 3"
definition bufferLogDiskIndexFileHeaderSize :: nat where "bufferLogDiskIndexFileHeaderSize = 40"
definition bufferLogDiskIndexRecordSize :: nat where "bufferLogDiskIndexRecordSize = 24"
definition bufferLogDiskIndexBucketHeadSize :: nat where "bufferLogDiskIndexBucketHeadSize = 8"
definition bufferLogDiskIndexMinBucketCount :: u64 where "bufferLogDiskIndexMinBucketCount = 1024"
definition bufferLogDiskIndexMaxBucketCount :: u64 where "bufferLogDiskIndexMaxBucketCount = 4194304"
definition bufferLogDiskIndexTargetChainLen :: u64 where "bufferLogDiskIndexTargetChainLen = 16"
definition bufferLogDiskIndexRebuildChainLen :: u64 where "bufferLogDiskIndexRebuildChainLen = 128"
definition bufferLogDiskIndexPageSize :: nat where "bufferLogDiskIndexPageSize = 4096"

lemmas index_sizes = bufferLogDiskIndexFileHeaderSize_def bufferLogDiskIndexRecordSize_def
  bufferLogDiskIndexBucketHeadSize_def bufferLogDiskIndexPageSize_def

text \<open>The number of wanted buckets is below \<open>2 ^ 60\<close>, so that the doubled count does not wrap.\<close>

function double_until :: "nat \<Rightarrow> nat \<Rightarrow> nat" where
  "double_until desired n = (if 0 < n \<and> n < desired then double_until desired (2 * n) else n)"
  by auto
termination by (relation "measure (\<lambda>(d, n). d - n)") auto

declare double_until.simps [simp del]

definition bufferLogDiskIndexBucketCountForRecords :: "u64 \<Rightarrow> u64" where
  "bufferLogDiskIndexBucketCountForRecords recordCount =
     (let desired = (recordCount + bufferLogDiskIndexTargetChainLen - 1) div bufferLogDiskIndexTargetChainLen;
          n = (if recordCount > 0 \<and> desired > bufferLogDiskIndexMinBucketCount
               then of_nat (double_until (unat desired) 1) else bufferLogDiskIndexMinBucketCount);
          n = max n bufferLogDiskIndexMinBucketCount
      in min n bufferLogDiskIndexMaxBucketCount)"

definition appendBufferLogDiskIndexRecord :: "bytes \<Rightarrow> u64 \<Rightarrow> int \<Rightarrow> u64 \<Rightarrow> bytes" where
  "appendBufferLogDiskIndexRecord dst keyHash recordOffset prevRecord =
     dst @ PutUint64 keyHash @ PutUint64 (uint64_of_int64 recordOffset) @ PutUint64 prevRecord"

definition decodeBufferLogDiskIndexRecord :: "bytes \<Rightarrow> bufferLogDiskIndexRecord" where
  "decodeBufferLogDiskIndexRecord src =
     \<lparr>br_keyHash = Uint64 src, br_logOffset = int64_of_uint64 (Uint64 (drop 8 src)),
      br_prevRecord = Uint64 (drop 16 src)\<rparr>"

text \<open>
  The loop over the appended pairs: the records so far, their number, the touched buckets in
  the order of their first use, and the heads, which the code updates in place.
\<close>

fun payload_loop :: "bytes \<Rightarrow> u64 \<Rightarrow> kvPair list \<Rightarrow> int \<Rightarrow> bytes \<times> u64 \<times> u64 list \<times> u64 list
    \<Rightarrow> bytes \<times> u64 \<times> u64 list \<times> u64 list" where
  "payload_loop accountKey recordCount [] cursor st = st"
| "payload_loop accountKey recordCount (kv # kvs) cursor (payload, appended, touched, heads) =
     (let cursor' = cursor + int (entry_bytes kv) in
      if fst kv = [] then payload_loop accountKey recordCount kvs cursor' (payload, appended, touched, heads)
      else let keyHash = bufferLogDiskIndexKeyHash accountKey (fst kv);
               bucket = keyHash AND (of_nat (length heads) - 1);
               prev = heads ! unat bucket;
               recordID = recordCount + (appended + 1)
           in payload_loop accountKey recordCount kvs cursor'
                (appendBufferLogDiskIndexRecord payload keyHash cursor prev, appended + 1,
                 if bucket \<in> set touched then touched else touched @ [bucket],
                 heads[unat bucket := recordID]))"

definition buildBufferLogDiskIndexPayload ::
    "bytes \<Rightarrow> int \<Rightarrow> kvPair list \<Rightarrow> u64 list \<Rightarrow> u64 \<Rightarrow> bytes \<times> u64 \<times> u64 list \<times> u64 list" where
  "buildBufferLogDiskIndexPayload accountKey appendOffset kvs bucketHeads recordCount =
     (if bucketHeads = [] then ([], 0, [], [])
      else payload_loop accountKey recordCount kvs appendOffset ([], 0, [], bucketHeads))"

definition bufferLogDiskIndexHeader :: "int \<Rightarrow> u64 \<Rightarrow> u64 \<Rightarrow> bytes" where
  "bufferLogDiskIndexHeader logEndOffset recordCount bucketCount =
     PutUint32 bufferLogDiskIndexMagic @ PutUint16 bufferLogDiskIndexVersion @ PutUint16 0 @
     PutUint64 (uint64_of_int64 logEndOffset) @ PutUint64 recordCount @ PutUint64 bucketCount @ PutUint64 0"

definition readBufferLogDiskIndexHeader :: "bytes \<Rightarrow> int \<Rightarrow> bufferLogDiskIndexMetadata option" where
  "readBufferLogDiskIndexHeader header fileSize =
     (if length header < bufferLogDiskIndexFileHeaderSize then None
      else if Uint32 header \<noteq> bufferLogDiskIndexMagic then None
      else if Uint16 (drop 4 header) \<noteq> bufferLogDiskIndexVersion then None
      else let bucketCount = Uint64 (drop 24 header) in
        if bucketCount = 0 \<or> bucketCount AND (bucketCount - 1) \<noteq> 0 \<or> bucketCount > bufferLogDiskIndexMaxBucketCount
        then None
        else let recordsOffset = int bufferLogDiskIndexFileHeaderSize + uint bucketCount * int bufferLogDiskIndexBucketHeadSize
          in if fileSize < recordsOffset then None
          else let recordBytes = fileSize - recordsOffset;
                   recordCount = Uint64 (drop 16 header)
            in if recordBytes mod int bufferLogDiskIndexRecordSize \<noteq> 0 then None
            else if word_of_int (recordBytes div int bufferLogDiskIndexRecordSize) \<noteq> recordCount then None
            else Some \<lparr>bm_coveredEnd = int64_of_uint64 (Uint64 (drop 8 header)), bm_recordCount = recordCount,
                       bm_bucketCount = bucketCount, bm_recordsOffset = recordsOffset, bm_fileSize = fileSize\<rparr>)"

definition readBufferLogDiskIndexMetadataFromFile :: "bytes \<Rightarrow> bufferLogDiskIndexMetadata option" where
  "readBufferLogDiskIndexMetadataFromFile f =
     (if length f < bufferLogDiskIndexFileHeaderSize then None
      else readBufferLogDiskIndexHeader (take bufferLogDiskIndexFileHeaderSize f) (int (length f)))"

definition readBufferLogDiskIndexMetadataFull :: "bytes option \<Rightarrow> bufferLogDiskIndexMetadata option" where
  "readBufferLogDiskIndexMetadataFull idx = Option.bind idx readBufferLogDiskIndexMetadataFromFile"

primrec read_heads :: "bytes \<Rightarrow> nat \<Rightarrow> u64 list" where
  "read_heads buf 0 = []"
| "read_heads buf (Suc n) = Uint64 buf # read_heads (drop bufferLogDiskIndexBucketHeadSize buf) n"

definition readBufferLogDiskIndexBucketHeads :: "bytes \<Rightarrow> bufferLogDiskIndexMetadata \<Rightarrow> io_error + u64 list" where
  "readBufferLogDiskIndexBucketHeads f meta =
     (if bm_bucketCount meta = 0 then Inr []
      else case readAt f (int bufferLogDiskIndexFileHeaderSize) (unat (bm_bucketCount meta) * bufferLogDiskIndexBucketHeadSize) of
        Inl e \<Rightarrow> Inl e
      | Inr buf \<Rightarrow> Inr (read_heads buf (unat (bm_bucketCount meta))))"

definition writeBufferLogDiskIndexBucketHeads :: "bytes \<Rightarrow> u64 list \<Rightarrow> io_error + bytes" where
  "writeBufferLogDiskIndexBucketHeads f heads =
     (if heads = [] then Inr f
      else writeAt f (int bufferLogDiskIndexFileHeaderSize) (concat (map PutUint64 heads)))"

fun write_touched :: "u64 list \<Rightarrow> u64 list \<Rightarrow> bytes \<Rightarrow> io_error + bytes" where
  "write_touched heads [] f = Inr f"
| "write_touched heads (bucket # touched) f =
     (if unat bucket \<ge> length heads then Inl UnexpectedEOF
      else case writeAt f (int bufferLogDiskIndexFileHeaderSize + uint bucket * int bufferLogDiskIndexBucketHeadSize)
                  (PutUint64 (heads ! unat bucket)) of
        Inl e \<Rightarrow> Inl e
      | Inr f' \<Rightarrow> write_touched heads touched f')"

definition writeBufferLogDiskIndexTouchedBucketHeads :: "bytes \<Rightarrow> u64 list \<Rightarrow> u64 list \<Rightarrow> io_error + bytes" where
  "writeBufferLogDiskIndexTouchedBucketHeads f heads touched =
     (if heads = [] \<or> touched = [] then Inr f
      else if length touched > length heads div 4 then writeBufferLogDiskIndexBucketHeads f heads
      else write_touched heads touched f)"

fun each_record :: "(bufferLogDiskIndexRecord \<Rightarrow> 's \<Rightarrow> bl_error + 's) \<Rightarrow> bytes \<Rightarrow> nat \<Rightarrow> 's \<Rightarrow> bl_error + 's" where
  "each_record fn r 0 s = Inr s"
| "each_record fn r (Suc n) s =
     (case ReadFull r bufferLogDiskIndexRecordSize of
        Inl e \<Rightarrow> Inl (BLRead e)
      | Inr (buf, r') \<Rightarrow>
          (case fn (decodeBufferLogDiskIndexRecord buf) s of
             Inl e \<Rightarrow> Inl e
           | Inr s' \<Rightarrow> each_record fn r' n s'))"

definition forEachBufferLogDiskIndexRecord ::
    "bytes \<Rightarrow> bufferLogDiskIndexMetadata \<Rightarrow> (bufferLogDiskIndexRecord \<Rightarrow> 's \<Rightarrow> bl_error + 's) \<Rightarrow> 's \<Rightarrow> bl_error + 's" where
  "forEachBufferLogDiskIndexRecord f meta fn s =
     (let n = unat (bm_recordCount meta) in
      if n = 0 then Inr s
      else each_record fn (take (n * bufferLogDiskIndexRecordSize) (drop (nat (bm_recordsOffset meta)) f)) n s)"

section \<open>The page reader and the lookup\<close>

record bufferLogDiskIndexPageReader =
  pr_fileSize :: int
  pr_pageStart :: int
  pr_pageEnd :: int
  pr_buf :: "bytes option"

definition newBufferLogDiskIndexPageReader :: "int \<Rightarrow> bufferLogDiskIndexPageReader" where
  "newBufferLogDiskIndexPageReader fileSize =
     \<lparr>pr_fileSize = fileSize, pr_pageStart = -1, pr_pageEnd = 0, pr_buf = None\<rparr>"

definition readSlice :: "bytes \<Rightarrow> bufferLogDiskIndexPageReader \<Rightarrow> int \<Rightarrow> nat
    \<Rightarrow> io_error + bytes \<times> bufferLogDiskIndexPageReader" where
  "readSlice f r offset sz =
     (let endp = offset + int sz in
      if offset < 0 then Inl UnexpectedEOF
      else if endp > pr_fileSize r then Inl UnexpectedEOF
      else if pr_buf r \<noteq> None \<and> offset \<ge> pr_pageStart r \<and> endp \<le> pr_pageEnd r
      then Inr (take sz (drop (nat (offset - pr_pageStart r)) (the (pr_buf r))), r)
      else let pageStart = offset - offset mod int bufferLogDiskIndexPageSize;
               readSize = min (bufferLogDiskIndexPageSize + bufferLogDiskIndexRecordSize) (nat (pr_fileSize r - pageStart));
               readSize = max readSize sz
        in case readAt f pageStart readSize of
             Inl e \<Rightarrow> Inl e
           | Inr buf \<Rightarrow>
               let pos = nat (offset - pageStart) in
               if pos + sz > length buf then Inl UnexpectedEOF
               else Inr (take sz (drop pos buf),
                         r\<lparr>pr_buf := Some buf, pr_pageStart := pageStart, pr_pageEnd := pageStart + int readSize\<rparr>))"

definition readBucketHead :: "bytes \<Rightarrow> bufferLogDiskIndexPageReader \<Rightarrow> bufferLogDiskIndexMetadata \<Rightarrow> u64
    \<Rightarrow> io_error + u64 \<times> bufferLogDiskIndexPageReader" where
  "readBucketHead f r meta bucket =
     (if bucket \<ge> bm_bucketCount meta then Inl UnexpectedEOF
      else case readSlice f r (int bufferLogDiskIndexFileHeaderSize + uint bucket * int bufferLogDiskIndexBucketHeadSize)
                  bufferLogDiskIndexBucketHeadSize of
        Inl e \<Rightarrow> Inl e
      | Inr (buf, r') \<Rightarrow> Inr (Uint64 buf, r'))"

definition readRecord :: "bytes \<Rightarrow> bufferLogDiskIndexPageReader \<Rightarrow> bufferLogDiskIndexMetadata \<Rightarrow> u64
    \<Rightarrow> io_error + bufferLogDiskIndexRecord \<times> bufferLogDiskIndexPageReader" where
  "readRecord f r meta recordID =
     (if recordID = 0 \<or> recordID > bm_recordCount meta then Inl UnexpectedEOF
      else case readSlice f r (bm_recordsOffset meta + uint (recordID - 1) * int bufferLogDiskIndexRecordSize)
                  bufferLogDiskIndexRecordSize of
        Inl e \<Rightarrow> Inl e
      | Inr (buf, r') \<Rightarrow> Inr (decodeBufferLogDiskIndexRecord buf, r'))"

record bufferLogEntryRef =
  er_valueOffset :: int
  er_valueLen :: nat

definition readBufferLogRecordRef :: "bytes \<Rightarrow> int \<Rightarrow> bytes option \<Rightarrow> bl_error + (bytes \<times> bufferLogEntryRef) option" where
  "readBufferLogRecordRef log recordOffset storageKey =
     (if recordOffset < 0 then Inr None
      else case readAt log recordOffset segmentedChunkEntryHeaderSize of
        Inl e \<Rightarrow> Inl (BLRead e)
      | Inr header \<Rightarrow>
          let klen = unat (Uint16 header); vlen = unat (Uint16 (drop 2 header)) in
          if klen = 0 then Inr None
          else if storageKey \<noteq> None \<and> klen \<noteq> length (the storageKey) then Inr None
          else let valueOffset = recordOffset + int (segmentedChunkEntryHeaderSize + klen) in
            if valueOffset + int vlen > int (length log) then Inr None
            else case readAt log (recordOffset + int segmentedChunkEntryHeaderSize) klen of
              Inl e \<Rightarrow> Inl (BLRead e)
            | Inr key \<Rightarrow>
                if storageKey \<noteq> None \<and> key \<noteq> the storageKey then Inr None
                else Inr (Some (key, \<lparr>er_valueOffset = valueOffset, er_valueLen = vlen\<rparr>)))"

text \<open>
  The answer of an index: it cannot be used, it has no record of the key, or it points to the
  newest record. The walk along a chain makes at most as many steps as the index has records.
\<close>

datatype index_answer = IndexUnused | IndexAbsent | IndexRef bufferLogEntryRef

fun chain_walk :: "bytes \<Rightarrow> bytes \<Rightarrow> bufferLogDiskIndexMetadata \<Rightarrow> u64 \<Rightarrow> bytes
    \<Rightarrow> nat \<Rightarrow> bufferLogDiskIndexPageReader \<Rightarrow> u64 \<Rightarrow> bl_error + index_answer" where
  "chain_walk f log meta wantHash storageKey 0 r recordID =
     Inr (if recordID \<noteq> 0 then IndexUnused else IndexAbsent)"
| "chain_walk f log meta wantHash storageKey (Suc steps) r recordID =
     (if recordID = 0 then Inr IndexAbsent
      else case readRecord f r meta recordID of
        Inl e \<Rightarrow> Inl (BLRead e)
      | Inr (rec, r') \<Rightarrow>
          if br_keyHash rec \<noteq> wantHash
          then chain_walk f log meta wantHash storageKey steps r' (br_prevRecord rec)
          else case readBufferLogRecordRef log (br_logOffset rec) None of
            Inl e \<Rightarrow> Inl e
          | Inr None \<Rightarrow> Inr IndexUnused
          | Inr (Some (key, ref)) \<Rightarrow>
              if key = storageKey then Inr (IndexRef ref)
              else chain_walk f log meta wantHash storageKey steps r' (br_prevRecord rec))"

definition lookupBufferLogPhysicalIndexRef :: "bytes \<Rightarrow> bytes \<Rightarrow> bytes option \<Rightarrow> bytes \<Rightarrow> bl_error + index_answer" where
  "lookupBufferLogPhysicalIndexRef accountKey storageKey idx log =
     (if accountKey = [] then Inl BLKeyRequired
      else case idx of None \<Rightarrow> Inr IndexUnused
      | Some f \<Rightarrow>
          (case readBufferLogDiskIndexMetadataFromFile f of
             None \<Rightarrow> Inr IndexUnused
           | Some meta \<Rightarrow>
               if bm_coveredEnd meta \<noteq> int (length log) then Inr IndexUnused
               else let wantHash = bufferLogDiskIndexKeyHash accountKey storageKey;
                        bucket = wantHash AND (bm_bucketCount meta - 1)
                 in case readBucketHead f (newBufferLogDiskIndexPageReader (int (length f))) meta bucket of
                      Inl e \<Rightarrow> Inl (BLRead e)
                    | Inr (recordID, r) \<Rightarrow>
                        chain_walk f log meta wantHash storageKey (unat (bm_recordCount meta)) r recordID))"

section \<open>The filters\<close>

lemma masked_le: "unat (x AND m) \<le> unat (m :: u64)"
  by (rule word_le_nat_alt [THEN iffD1]) (rule word_and_le1)

lemma masked_bucket:
  assumes "0 < n" "n < 2 ^ 64"
  shows "unat (h AND (of_nat n - 1 :: u64)) < n"
proof -
  have "unat (of_nat n - 1 :: u64) = n - 1"
    using assms by (subst unat_sub) (simp_all add: word_le_nat_alt unat_of_nat)
  with masked_le [of h "of_nat n - 1"] assms(1) show ?thesis by linarith
qed

definition bloom_ok :: "bufferLogBloom \<Rightarrow> bool" where
  "bloom_ok b \<longleftrightarrow> unat (bb_mask b) < length (bb_count b)"

definition bloom_covers :: "bufferLogBloom \<Rightarrow> u64 \<Rightarrow> bool" where
  "bloom_covers b h \<longleftrightarrow> (\<forall>i \<in> set (bloomIndexesForHash b h). bb_count b ! unat i \<noteq> 0)"

lemma bloom_index_range: "bloom_ok b \<Longrightarrow> i \<in> set (bloomIndexesForHash b h) \<Longrightarrow> unat i < length (bb_count b)"
  using masked_le [of _ "bb_mask b"] by (fastforce simp: bloom_ok_def bloomIndexesForHash_def Let_def intro: le_less_trans)

lemma length_count_up [simp]: "length (count_up i cs) = length cs"
  by (simp add: count_up_def)

lemma length_counts_up [simp]: "length (fold count_up is cs) = length cs"
  by (induction "is" arbitrary: cs) simp_all

lemma byte_plus_one: "(c :: byte) < 0xff \<Longrightarrow> c + 1 \<noteq> 0"
proof
  assume "c < 0xff" "c + 1 = 0"
  then have "c = - 1" by (simp add: add_eq_0_iff2)
  with \<open>c < 0xff\<close> show False by simp
qed

lemma count_up_keeps: "cs ! j \<noteq> 0 \<Longrightarrow> count_up i cs ! j \<noteq> 0"
  using byte_plus_one [of "cs ! unat i"]
  by (cases "j = unat i \<and> unat i < length cs") (auto simp: count_up_def nth_list_update_neq list_update_beyond)

lemma count_up_sets: "unat i < length cs \<Longrightarrow> count_up i cs ! unat i \<noteq> 0"
  using byte_plus_one [of "cs ! unat i"] by (auto simp: count_up_def)

lemma counts_up_keep: "cs ! j \<noteq> 0 \<Longrightarrow> fold count_up is cs ! j \<noteq> 0"
  by (induction "is" arbitrary: cs) (simp_all add: count_up_keeps)

lemma counts_up_set: "i \<in> set is \<Longrightarrow> unat i < length cs \<Longrightarrow> fold count_up is cs ! unat i \<noteq> 0"
proof (induction "is" arbitrary: cs)
  case (Cons j js)
  show ?case
  proof (cases "i = j")
    case True
    with Cons.prems(2) show ?thesis by (simp add: counts_up_keep count_up_sets)
  next
    case False
    with Cons show ?thesis by simp
  qed
qed simp

lemma bloom_addHash_parts [simp]:
  "bb_mask (bloom_addHash b h) = bb_mask b" "bloom_ok (bloom_addHash b h) = bloom_ok b"
  "bloomIndexesForHash (bloom_addHash b h) g = bloomIndexesForHash b g"
  by (simp_all add: bloom_addHash_def bloom_ok_def bloomIndexesForHash_def)

lemma bloom_addHash_covers:
  "bloom_ok b \<Longrightarrow> bloom_covers (bloom_addHash b h) h"
  "bloom_covers b g \<Longrightarrow> bloom_covers (bloom_addHash b h) g"
  by (simp_all add: bloom_covers_def) (simp_all add: bloom_addHash_def counts_up_keep bloom_index_range counts_up_set)

lemma bloom_maybeContains_covers:
  "bloom_maybeContains b a k \<longleftrightarrow> a \<noteq> [] \<and> k \<noteq> [] \<and> bloom_covers b (bufferLogDiskIndexKeyHash a k)"
  by (auto simp: bloom_maybeContains_def bloom_covers_def list_all_iff)

lemma test_bloom_bit_iff: "test_bloom_bit bits i \<longleftrightarrow> bit (bits ! unat (drop_bit 6 i)) (unat (i AND 63))"
  by (simp add: test_bloom_bit_def bit_iff_and_push_bit_not_eq_0)

lemma low_bits_small: "unat (i AND 63 :: u64) < 64"
  using masked_le [of i 63] by simp

lemma set_bloom_bit_keeps: "test_bloom_bit bits j \<Longrightarrow> test_bloom_bit (set_bloom_bit i bits) j"
  by (cases "unat (drop_bit 6 j) = unat (drop_bit 6 i) \<and> unat (drop_bit 6 i) < length bits")
    (auto simp: test_bloom_bit_iff set_bloom_bit_def Let_def bit_or_iff nth_list_update_neq list_update_beyond)

lemma set_bloom_bit_sets: "unat (drop_bit 6 i) < length bits \<Longrightarrow> test_bloom_bit (set_bloom_bit i bits) i"
  using low_bits_small [of i]
  by (simp add: test_bloom_bit_iff set_bloom_bit_def Let_def bit_or_iff bit_exp_iff possible_bit_word)

lemma length_set_bloom_bits [simp]: "length (fold set_bloom_bit is bits) = length bits"
  by (induction "is" arbitrary: bits) (simp_all add: set_bloom_bit_def Let_def)

lemma set_bloom_bits_keep: "test_bloom_bit bits j \<Longrightarrow> test_bloom_bit (fold set_bloom_bit is bits) j"
  by (induction "is" arbitrary: bits) (simp_all add: set_bloom_bit_keeps)

lemma set_bloom_bits_set:
  "i \<in> set is \<Longrightarrow> unat (drop_bit 6 i) < length bits \<Longrightarrow> test_bloom_bit (fold set_bloom_bit is bits) i"
proof (induction "is" arbitrary: bits)
  case (Cons j js)
  show ?case
  proof (cases "i = j")
    case True
    with Cons.prems(2) show ?thesis by (simp add: set_bloom_bits_keep set_bloom_bit_sets)
  next
    case False
    have "length (set_bloom_bit j bits) = length bits" by (simp add: set_bloom_bit_def Let_def)
    with False Cons show ?thesis by simp
  qed
qed simp

text \<open>
  A filter of account folders is exact: its words never lose a bit, so that after any additions
  and removals the answer is membership.
\<close>

definition folder_ok :: "accountFolderFilter \<Rightarrow> bool" where
  "folder_ok f \<longleftrightarrow> unat (af_mask f) < 64 * length (af_bits f)
     \<and> (\<forall>k \<in> af_exact f. k \<noteq> [] \<and> list_all (test_bloom_bit (af_bits f)) (folder_bloomIndexes f k))"

lemma folder_index_range:
  assumes "unat (af_mask f) < 64 * length (af_bits f)" "i \<in> set (folder_bloomIndexes f k)"
  shows "unat (drop_bit 6 i) < length (af_bits f)"
proof -
  have "unat i \<le> unat (af_mask f)" using assms(2) masked_le by (auto simp: folder_bloomIndexes_def Let_def)
  moreover have "unat (drop_bit 6 i) = unat i div 64" by (simp add: drop_bit_eq_div unat_div)
  ultimately show ?thesis using assms(1) by linarith
qed

lemma folder_bloomIndexes_update [simp]:
  "folder_bloomIndexes (f\<lparr>af_bits := b\<rparr>) k = folder_bloomIndexes f k"
  "folder_bloomIndexes (f\<lparr>af_exact := e\<rparr>) k = folder_bloomIndexes f k"
  by (simp_all add: folder_bloomIndexes_def)

lemma folder_add_ok: "folder_ok f \<Longrightarrow> folder_ok (folder_add f k)"
  using folder_index_range [of f _ k] set_bloom_bits_set [of _ "folder_bloomIndexes f k" "af_bits f"]
  by (auto simp: folder_ok_def folder_add_def list_all_iff set_bloom_bits_keep)

lemma folder_remove_ok: "folder_ok f \<Longrightarrow> folder_ok (folder_remove f k)"
  by (auto simp: folder_ok_def folder_remove_def)

lemma folder_maybeContains_exact: "folder_ok f \<Longrightarrow> folder_maybeContains f k \<longleftrightarrow> k \<in> af_exact f"
  by (auto simp: folder_ok_def folder_maybeContains_def)

lemma new_folder_filter:
  "newAccountFolderFilter accountFolderBloomBitCount =
     Some \<lparr>af_bits = replicate 16384 0, af_mask = 1048575, af_exact = {}\<rparr>"
  by (simp add: newAccountFolderFilter_def accountFolderBloomBitCount_def round_up_def)

lemma new_bloom:
  "newBufferLogBloom bufferLogBloomBitCount = Some \<lparr>bb_count = replicate 134217728 0, bb_mask = 134217727\<rparr>"
  by (simp add: newBufferLogBloom_def bufferLogBloomBitCount_def round_up_def)

datatype folder_op = AddFolder bytes | RemoveFolder bytes

fun run_folder :: "folder_op \<Rightarrow> accountFolderFilter \<Rightarrow> accountFolderFilter" where
  "run_folder (AddFolder k) f = folder_add f k"
| "run_folder (RemoveFolder k) f = folder_remove f k"

fun run_set :: "folder_op \<Rightarrow> bytes set \<Rightarrow> bytes set" where
  "run_set (AddFolder k) s = (if k = [] then s else insert k s)"
| "run_set (RemoveFolder k) s = s - {k}"

lemma run_folder_step: "folder_ok f \<Longrightarrow> folder_ok (run_folder op f) \<and> af_exact (run_folder op f) = run_set op (af_exact f)"
proof -
  assume f: "folder_ok f"
  have "folder_ok (run_folder op f)" using f by (cases op) (simp_all add: folder_add_ok folder_remove_ok)
  moreover have "af_exact (run_folder op f) = run_set op (af_exact f)"
    using f by (cases op) (auto simp: folder_add_def folder_remove_def folder_ok_def)
  ultimately show ?thesis by simp
qed

lemma run_folder_all: "folder_ok f \<Longrightarrow> folder_ok (fold run_folder ops f) \<and> af_exact (fold run_folder ops f) = fold run_set ops (af_exact f)"
  by (induction ops arbitrary: f) (simp_all add: run_folder_step)

section \<open>The table that an index file holds\<close>

text \<open>
  The heads and the records after hashing a list of entries, each with its hash and its offset in
  the log, into a number of buckets. Records are numbered from one.
\<close>

type_synonym table = "u64 list \<times> bufferLogDiskIndexRecord list"

definition bucket_of :: "nat \<Rightarrow> u64 \<Rightarrow> nat" where
  "bucket_of n h = unat (h AND (of_nat n - 1))"

fun chain_step :: "u64 \<times> nat \<Rightarrow> table \<Rightarrow> table" where
  "chain_step (h, off) (heads, recs) =
     (let b = bucket_of (length heads) h in
      (heads[b := of_nat (Suc (length recs))],
       recs @ [\<lparr>br_keyHash = h, br_logOffset = int off, br_prevRecord = heads ! b\<rparr>]))"

definition table :: "nat \<Rightarrow> (u64 \<times> nat) list \<Rightarrow> table" where
  "table n es = fold chain_step es (replicate n 0, [])"

lemma table_snoc: "table n (es @ [e]) = chain_step e (table n es)"
  by (simp add: table_def)

lemma table_Nil [simp]: "table n [] = (replicate n 0, [])"
  by (simp add: table_def)

lemma length_chain_step:
  "length (fst (chain_step e t)) = length (fst t)" "length (snd (chain_step e t)) = Suc (length (snd t))"
  by (cases e; cases t; simp add: Let_def)+

lemma length_table [simp]: "length (fst (table n es)) = n" "length (snd (table n es)) = length es"
  by (induction es rule: rev_induct) (simp_all add: table_snoc length_chain_step)

lemma table_snoc_parts:
  "fst (table n (es @ [(h, off)])) = (fst (table n es))[bucket_of n h := of_nat (Suc (length es))]"
  "snd (table n (es @ [(h, off)])) =
     snd (table n es) @ [\<lparr>br_keyHash = h, br_logOffset = int off, br_prevRecord = fst (table n es) ! bucket_of n h\<rparr>]"
  using length_table [of n es] by (cases "table n es"; simp add: table_snoc Let_def)+

lemma bucket_of_less: "0 < n \<Longrightarrow> n < 2 ^ 64 \<Longrightarrow> bucket_of n h < n"
  unfolding bucket_of_def by (rule masked_bucket)

lemma heads_le:
  "length es < 2 ^ 64 \<Longrightarrow> b < n \<Longrightarrow> unat (fst (table n es) ! b) \<le> length es"
proof (induction es rule: rev_induct)
  case (snoc e es)
  obtain h off where e: "e = (h, off)" by (cases e)
  have "unat (of_nat (Suc (length es)) :: u64) = Suc (length es)"
    using snoc.prems(1) by (subst unat_of_nat) simp
  moreover have "unat (fst (table n es) ! b) \<le> length es" using snoc by simp
  ultimately show ?case
    using snoc.prems(2) by (cases "bucket_of n h = b") (simp_all add: e table_snoc_parts del: of_nat_Suc)
qed simp

lemma prev_less:
  assumes "length es < 2 ^ 64" "i < length es" "0 < n" "n < 2 ^ 64"
  shows "unat (br_prevRecord (snd (table n es) ! i)) \<le> i"
  using assms(1,2)
proof (induction es rule: rev_induct)
  case (snoc e es)
  obtain h off where e: "e = (h, off)" by (cases e)
  have "unat (fst (table n es) ! bucket_of n h) \<le> length es"
    using snoc.prems(1) by (intro heads_le bucket_of_less assms) simp
  with snoc show ?case by (auto simp: e table_snoc_parts nth_append not_less)
qed simp

lemma table_offset:
  "i < length es \<Longrightarrow> br_logOffset (snd (table n es) ! i) = int (snd (es ! i))"
proof (induction es rule: rev_induct)
  case (snoc e es)
  then show ?case by (cases e) (simp add: table_snoc_parts nth_append)
qed simp

text \<open>The walk along a chain on the table itself; \<open>ref_at\<close> gives the key and the reference at an offset.\<close>

fun table_walk :: "(int \<Rightarrow> bytes \<times> bufferLogEntryRef) \<Rightarrow> u64 \<Rightarrow> bytes \<Rightarrow> bufferLogDiskIndexRecord list
    \<Rightarrow> nat \<Rightarrow> u64 \<Rightarrow> index_answer" where
  "table_walk ref_at want k recs 0 i = (if i \<noteq> 0 then IndexUnused else IndexAbsent)"
| "table_walk ref_at want k recs (Suc n) i =
     (if i = 0 then IndexAbsent
      else let rec = recs ! (unat i - 1); (k', ref) = ref_at (br_logOffset rec) in
        if br_keyHash rec = want \<and> k' = k then IndexRef ref
        else table_walk ref_at want k recs n (br_prevRecord rec))"

definition descending :: "bufferLogDiskIndexRecord list \<Rightarrow> bool" where
  "descending recs \<longleftrightarrow> (\<forall>i < length recs. unat (br_prevRecord (recs ! i)) \<le> i)"

lemma table_walk_fuel:
  "descending recs \<Longrightarrow> unat i \<le> length recs \<Longrightarrow> unat i \<le> n \<Longrightarrow> unat i \<le> m \<Longrightarrow>
   table_walk ref_at want k recs n i = table_walk ref_at want k recs m i"
proof (induction n arbitrary: m i)
  case 0
  then have "i = 0" by (simp add: unat_eq_0)
  then show ?case by (cases m) simp_all
next
  case (Suc n)
  show ?case
  proof (cases "i = 0")
    case True
    then show ?thesis by (cases m) simp_all
  next
    case False
    then have i: "0 < unat i" by (simp add: unat_gt_0)
    then obtain m' where m: "m = Suc m'" using Suc.prems(4) by (cases m) simp_all
    have "unat (br_prevRecord (recs ! (unat i - 1))) \<le> unat i - 1"
      using Suc.prems(1,2) i by (simp add: descending_def)
    then have "table_walk ref_at want k recs n (br_prevRecord (recs ! (unat i - 1)))
        = table_walk ref_at want k recs m' (br_prevRecord (recs ! (unat i - 1)))"
      using Suc.prems i m by (intro Suc.IH) simp_all
    then show ?thesis by (simp add: m Let_def split: prod.splits)
  qed
qed

lemma table_walk_append:
  "descending recs \<Longrightarrow> unat i \<le> length recs \<Longrightarrow>
   table_walk ref_at want k (recs @ rs) n i = table_walk ref_at want k recs n i"
proof (induction n arbitrary: i)
  case (Suc n)
  show ?case
  proof (cases "i = 0")
    case False
    then have i: "unat i - 1 < length recs" using Suc.prems(2) unat_gt_0 [of i] by linarith
    then have "unat (br_prevRecord (recs ! (unat i - 1))) \<le> length recs"
      using Suc.prems(1) by (fastforce simp: descending_def)
    with Suc i show ?thesis by (simp add: Let_def nth_append split: prod.splits)
  qed simp
qed simp

lemma table_descending: "length es < 2 ^ 64 \<Longrightarrow> 0 < n \<Longrightarrow> n < 2 ^ 64 \<Longrightarrow> descending (snd (table n es))"
  by (simp add: descending_def prev_less)

text \<open>A keyed record of a log: its key, its offset and its value.\<close>

type_synonym keyed = "bytes \<times> nat \<times> bytes"

fun entry_ref :: "keyed \<Rightarrow> bufferLogEntryRef" where
  "entry_ref (k, off, v) =
     \<lparr>er_valueOffset = int (off + segmentedChunkEntryHeaderSize + length k), er_valueLen = length v\<rparr>"

definition refs :: "keyed list \<Rightarrow> bytes \<rightharpoonup> bufferLogEntryRef" where
  "refs ks = map_of (rev (map (\<lambda>e. (fst e, entry_ref e)) ks))"

definition answer :: "bufferLogEntryRef option \<Rightarrow> index_answer" where
  "answer r = (case r of None \<Rightarrow> IndexAbsent | Some ref \<Rightarrow> IndexRef ref)"

lemma refs_Nil [simp]: "refs [] k = None"
  by (simp add: refs_def)

lemma refs_snoc: "refs (ks @ [e]) k = (if k = fst e then Some (entry_ref e) else refs ks k)"
  by (simp add: refs_def)

definition hashed :: "(bytes \<Rightarrow> u64) \<Rightarrow> keyed list \<Rightarrow> (u64 \<times> nat) list" where
  "hashed H ks = map (\<lambda>e. (H (fst e), fst (snd e))) ks"

lemma hashed_snoc [simp]: "hashed H (ks @ [e]) = hashed H ks @ [(H (fst e), fst (snd e))]"
  by (simp add: hashed_def)

lemma length_hashed [simp]: "length (hashed H ks) = length ks"
  by (simp add: hashed_def)

lemma table_walk_newest:
  assumes n: "0 < n" "n < 2 ^ 64"
  shows "length ks < 2 ^ 64 \<Longrightarrow> (\<forall>e \<in> set ks. ref_at (int (fst (snd e))) = (fst e, entry_ref e)) \<Longrightarrow>
    table_walk ref_at (H key) key (snd (table n (hashed H ks))) (length ks)
      (fst (table n (hashed H ks)) ! bucket_of n (H key)) = answer (refs ks key)"
proof (induction ks rule: rev_induct)
  case Nil
  then show ?case using bucket_of_less [OF n] by (simp add: hashed_def answer_def)
next
  case (snoc e ks)
  define t where "t = table n (hashed H ks)"
  define r where "r = \<lparr>br_keyHash = H (fst e), br_logOffset = int (fst (snd e)), br_prevRecord = fst t ! bucket_of n (H (fst e))\<rparr>"
  have parts: "fst (table n (hashed H (ks @ [e]))) = (fst t)[bucket_of n (H (fst e)) := of_nat (Suc (length ks))]"
      "snd (table n (hashed H (ks @ [e]))) = snd t @ [r]"
    by (simp_all add: table_snoc_parts t_def r_def del: of_nat_Suc)
  have len: "length (snd t) = length ks" "length (fst t) = n" by (simp_all add: t_def)
  have final: "(snd t @ [r]) ! length ks = r" using len(1) nth_append_length [of "snd t" r] by simp
  have sel: "br_keyHash r = H (fst e)" "br_logOffset r = int (fst (snd e))"
      "br_prevRecord r = fst t ! bucket_of n (H (fst e))"
    by (simp_all add: r_def)
  have num: "unat (of_nat (Suc (length ks)) :: u64) = Suc (length ks)"
    using snoc.prems(1) by (subst unat_of_nat) simp
  then have nz: "(of_nat (Suc (length ks)) :: u64) \<noteq> 0" by (metis nat.distinct(1) unat_0)
  have desc: "descending (snd t)" using snoc.prems(1) n by (simp add: t_def table_descending)
  have le: "unat (fst t ! bucket_of n h) \<le> length (snd t)" for h
    using heads_le [of "hashed H ks" "bucket_of n h" n] snoc.prems(1) bucket_of_less [OF n] by (simp add: t_def)
  have IH: "table_walk ref_at (H key) key (snd t) (length ks) (fst t ! bucket_of n (H key)) = answer (refs ks key)"
    using snoc by (simp add: t_def)
  have e: "ref_at (int (fst (snd e))) = (fst e, entry_ref e)" using snoc.prems(2) by simp
  show ?case
  proof (cases "bucket_of n (H (fst e)) = bucket_of n (H key)")
    case True
    have "fst (table n (hashed H (ks @ [e]))) ! bucket_of n (H key) = of_nat (Suc (length ks))"
      unfolding parts using True bucket_of_less [OF n] len by (simp del: of_nat_Suc)
    moreover have "table_walk ref_at (H key) key (snd t @ [r]) (Suc (length ks)) (of_nat (Suc (length ks)))
        = (if H (fst e) = H key \<and> fst e = key then IndexRef (entry_ref e)
           else table_walk ref_at (H key) key (snd t @ [r]) (length ks) (fst t ! bucket_of n (H key)))"
      using nz num e True final sel by (simp add: Let_def del: of_nat_Suc)
    ultimately show ?thesis
      using IH unfolding parts by (auto simp: refs_snoc answer_def table_walk_append [OF desc le])
  next
    case False
    then have k: "fst e \<noteq> key" by auto
    have "fst (table n (hashed H (ks @ [e]))) ! bucket_of n (H key) = fst t ! bucket_of n (H key)"
      unfolding parts using False by simp
    moreover have "table_walk ref_at (H key) key (snd t) (Suc (length ks)) (fst t ! bucket_of n (H key))
        = table_walk ref_at (H key) key (snd t) (length ks) (fst t ! bucket_of n (H key))"
      using le len by (intro table_walk_fuel desc) (simp_all add: le_SucI)
    ultimately show ?thesis
      using IH k unfolding parts by (simp add: refs_snoc table_walk_append [OF desc le] del: table_walk.simps)
  qed
qed

section \<open>Reading the index file\<close>

lemma take_drop_concat:
  "\<forall>x \<in> set xs. length (g x) = w \<Longrightarrow> i < length xs \<Longrightarrow>
   take w (drop (i * w) (concat (map g xs) @ post)) = g (xs ! i)"
proof (induction xs arbitrary: i)
  case (Cons x xs)
  then show ?case by (cases i) simp_all
qed simp

lemma length_concat_map: "\<forall>x \<in> set xs. length (g x) = w \<Longrightarrow> length (concat (map g xs)) = length xs * w"
  by (induction xs) simp_all

definition enc_record :: "bufferLogDiskIndexRecord \<Rightarrow> bytes" where
  "enc_record r = PutUint64 (br_keyHash r) @ PutUint64 (uint64_of_int64 (br_logOffset r)) @ PutUint64 (br_prevRecord r)"

definition index_bytes :: "nat \<Rightarrow> nat \<Rightarrow> (u64 \<times> nat) list \<Rightarrow> bytes" where
  "index_bytes cov n es =
     bufferLogDiskIndexHeader (int cov) (of_nat (length es)) (of_nat n) @
     concat (map PutUint64 (fst (table n es))) @ concat (map enc_record (snd (table n es)))"

definition bucket_ok :: "nat \<Rightarrow> bool" where
  "bucket_ok n \<longleftrightarrow> 0 < n \<and> n \<le> 4194304 \<and> of_nat n AND (of_nat n - 1) = (0 :: u64)"

lemma length_enc_record [simp, buffer_simps]: "length (enc_record r) = 24"
  by (simp add: enc_record_def)

lemma length_header [simp, buffer_simps]: "length (bufferLogDiskIndexHeader c r b) = 40"
  by (simp add: bufferLogDiskIndexHeader_def)

lemma length_disk_index [buffer_simps]: "length (index_bytes cov n es) = 40 + 8 * n + 24 * length es"
  by (simp add: index_bytes_def length_concat_map [where w = 8] length_concat_map [where w = 24])

lemma PutUint16_app: "Uint16 (PutUint16 w @ post) = w"
  by simp

lemma decode_enc_record [buffer_simps]:
  "- (2 ^ 63) \<le> br_logOffset r \<Longrightarrow> br_logOffset r < 2 ^ 63 \<Longrightarrow> decodeBufferLogDiskIndexRecord (enc_record r) = r"
  by (simp add: decodeBufferLogDiskIndexRecord_def enc_record_def int64_uint64_roundtrip)

lemma bucket_word: "bucket_ok n \<Longrightarrow> unat (of_nat n :: u64) = n \<and> n < 2 ^ 64"
  by (auto simp: bucket_ok_def unat_of_nat)

definition index_meta :: "nat \<Rightarrow> nat \<Rightarrow> (u64 \<times> nat) list \<Rightarrow> bufferLogDiskIndexMetadata" where
  "index_meta cov n es = \<lparr>bm_coveredEnd = int cov, bm_recordCount = of_nat (length es), bm_bucketCount = of_nat n,
     bm_recordsOffset = 40 + 8 * int n, bm_fileSize = int (length (index_bytes cov n es))\<rparr>"

lemma read_index_meta:
  assumes n: "bucket_ok n" and cov: "cov < 2 ^ 63"
  shows "readBufferLogDiskIndexMetadataFromFile (index_bytes cov n es) = Some (index_meta cov n es)"
proof -
  let ?f = "index_bytes cov n es"
  have take: "take 40 ?f = bufferLogDiskIndexHeader (int cov) (of_nat (length es)) (of_nat n)"
    by (simp add: index_bytes_def)
  have u: "uint (of_nat n :: u64) = int n" using bucket_word [OF n] by (metis uint_nat)
  have le: "\<not> (of_nat n :: u64) > bufferLogDiskIndexMaxBucketCount"
    using n bucket_word [OF n] by (simp add: bucket_ok_def bufferLogDiskIndexMaxBucketCount_def word_less_nat_alt not_less)
  have nz: "(of_nat n :: u64) \<noteq> 0" using n bucket_word [OF n] by (metis bucket_ok_def unat_0 less_irrefl)
  have c: "int64_of_uint64 (uint64_of_int64 (int cov)) = int cov"
    using cov by (intro int64_uint64_roundtrip) simp_all
  have r: "int (length ?f) - (40 + int n * 8) = 24 * int (length es)" by (simp add: length_disk_index)
  show ?thesis
    using n le nz c r unfolding bucket_ok_def
    by (simp add: readBufferLogDiskIndexMetadataFromFile_def readBufferLogDiskIndexHeader_def index_sizes take length_disk_index
        index_meta_def bufferLogDiskIndexHeader_def u Let_def)
qed

definition reader_ok :: "bytes \<Rightarrow> bufferLogDiskIndexPageReader \<Rightarrow> bool" where
  "reader_ok f r \<longleftrightarrow> pr_fileSize r = int (length f) \<and>
     (\<forall>b. pr_buf r = Some b \<longrightarrow> (\<exists>p. pr_pageStart r = int p \<and> pr_pageEnd r = int (p + length b) \<and>
        b = take (length b) (drop p f)))"

lemma new_reader_ok: "reader_ok f (newBufferLogDiskIndexPageReader (int (length f)))"
  by (simp add: reader_ok_def newBufferLogDiskIndexPageReader_def)

lemma readSlice_ok:
  assumes r: "reader_ok f r" and sz: "0 < sz" "sz \<le> 24" and inside: "off + sz \<le> length f"
  shows "\<exists>r'. readSlice f r (int off) sz = Inr (take sz (drop off f), r') \<and> reader_ok f r'"
proof (cases "pr_buf r \<noteq> None \<and> int off \<ge> pr_pageStart r \<and> int off + int sz \<le> pr_pageEnd r")
  case True
  then obtain b where b: "pr_buf r = Some b" by auto
  then obtain p where p: "pr_pageStart r = int p" "pr_pageEnd r = int (p + length b)" "b = take (length b) (drop p f)"
    using r by (auto simp: reader_ok_def)
  have "take sz (drop (off - p) b) = take sz (drop (off - p) (take (length b) (drop p f)))" using p(3) by simp
  also have "\<dots> = take sz (drop off f)"
  proof -
    have "p \<le> off" "off + sz \<le> p + length b" using True p(1,2) by auto
    then show ?thesis by (simp add: drop_take)
  qed
  finally show ?thesis using True r b p inside by (simp add: readSlice_def reader_ok_def Let_def nat_diff_distrib)
next
  case False
  define p where "p = off - off mod 4096"
  define n where "n = max (min (4096 + 24) (length f - p)) sz"
  have ps: "int off - int off mod 4096 = int p" by (simp add: p_def of_nat_mod of_nat_diff)
  have fs: "pr_fileSize r = int (length f)" using r by (simp add: reader_ok_def)
  have le: "p \<le> off" "off - p < 4096" by (auto simp: p_def)
  have inn: "p + n \<le> length f" "0 < n" "off - p + sz \<le> n" using le inside sz by (auto simp: n_def)
  have rd: "readAt f (int p) n = Inr (take n (drop p f))" using inn by (simp add: readAt_def)
  have size: "max (min (4096 + bufferLogDiskIndexRecordSize) (length f - p)) sz = n"
      "max (min (4096 + bufferLogDiskIndexRecordSize) (nat (int (length f) - int p))) sz = n"
    by (simp_all add: n_def index_sizes)
  have cond: "\<not> ((\<exists>y. pr_buf r = Some y) \<and> pr_pageStart r \<le> int off \<and> int off + int sz \<le> pr_pageEnd r)"
    using False by auto
  have pos: "nat (int off - int p) = off - p" by simp
  have len: "length (take n (drop p f)) = n" using inn by simp
  have val: "take sz (drop (off - p) (take n (drop p f))) = take sz (drop off f)"
    using inn le by (simp add: drop_take min_def)
  define r' where "r' = r\<lparr>pr_buf := Some (take n (drop p f)), pr_pageStart := int p, pr_pageEnd := int p + int n\<rparr>"
  have "readSlice f r (int off) sz = Inr (take sz (drop off f), r')"
    using inside inn(3)
    unfolding readSlice_def Let_def fs index_sizes(4) of_nat_numeral ps not_None_eq if_not_P [OF cond] size rd r'_def
    by (simp add: len val pos del: length_take length_drop)
  moreover have "reader_ok f r'" using fs inn(1) by (auto simp: reader_ok_def r'_def min_def)
  ultimately show ?thesis by blast
qed

lemma head_slice:
  assumes "b < n"
  shows "take 8 (drop (40 + b * 8) (index_bytes cov n es)) = PutUint64 (fst (table n es) ! b)"
proof -
  have "drop (40 + b * 8) (index_bytes cov n es) =
      drop (b * 8) (concat (map PutUint64 (fst (table n es))) @ concat (map enc_record (snd (table n es))))"
    by (simp add: index_bytes_def)
  then show ?thesis using assms by (simp only:) (rule take_drop_concat; simp)
qed

lemma record_slice:
  assumes "i < length es"
  shows "take 24 (drop (40 + 8 * n + i * 24) (index_bytes cov n es)) = enc_record (snd (table n es) ! i)"
proof -
  have "length (concat (map PutUint64 (fst (table n es)))) = n * 8" by (simp add: length_concat_map [where w = 8])
  then have "drop (40 + 8 * n + i * 24) (index_bytes cov n es) = drop (i * 24) (concat (map enc_record (snd (table n es))))"
    by (simp add: index_bytes_def)
  with assms take_drop_concat [of "snd (table n es)" enc_record 24 i "[]"] show ?thesis by simp
qed

lemma readBucketHead_index:
  assumes n: "bucket_ok n" and r: "reader_ok (index_bytes cov n es) r"
  shows "\<exists>r'. readBucketHead (index_bytes cov n es) r (index_meta cov n es) (h AND (of_nat n - 1)) =
      Inr (fst (table n es) ! bucket_of n h, r') \<and> reader_ok (index_bytes cov n es) r'"
proof -
  let ?b = "h AND (of_nat n - 1) :: u64"
  have nn: "0 < n" "n < 2 ^ 64" using n bucket_word [OF n] by (auto simp: bucket_ok_def)
  have b: "unat ?b < n" by (rule masked_bucket [OF nn])
  then have lt: "\<not> ?b \<ge> of_nat n" using bucket_word [OF n] by (simp add: word_le_nat_alt)
  have off: "40 + uint ?b * 8 = int (40 + unat ?b * 8)" by simp
  have inside: "40 + unat ?b * 8 + 8 \<le> length (index_bytes cov n es)" using b by (simp add: length_disk_index)
  obtain r' where "readSlice (index_bytes cov n es) r (int (40 + unat ?b * 8)) 8 = Inr (PutUint64 (fst (table n es) ! unat ?b), r')"
      "reader_ok (index_bytes cov n es) r'"
    using readSlice_ok [OF r _ _ inside] unfolding head_slice [OF b] by auto
  moreover from this(1) have "readBucketHead (index_bytes cov n es) r (index_meta cov n es) ?b = Inr (fst (table n es) ! unat ?b, r')"
    using lt unfolding readBucketHead_def index_meta_def index_sizes of_nat_numeral off by simp
  ultimately show ?thesis unfolding bucket_of_def by blast
qed

lemma readRecord_index:
  assumes r: "reader_ok (index_bytes cov n es) r" and len: "length es < 2 ^ 63"
    and i: "i \<noteq> 0" "unat i \<le> length es" and offs: "\<forall>e \<in> set es. snd e < 2 ^ 63"
  shows "\<exists>r'. readRecord (index_bytes cov n es) r (index_meta cov n es) i =
      Inr (snd (table n es) ! (unat i - 1), r') \<and> reader_ok (index_bytes cov n es) r'"
proof -
  have pos: "0 < unat i" using i(1) by (simp add: unat_gt_0)
  have "int (unat (i - 1)) = uint (i - 1)" by simp
  then have sub: "uint (i - 1) = int (unat i - 1)" unfolding unat_minus_one [OF i(1)] by (rule sym)
  have le: "\<not> i > of_nat (length es)" using i(2) len by (simp add: word_less_nat_alt unat_of_nat not_less)
  have off: "40 + 8 * int n + uint (i - 1) * 24 = int (40 + 8 * n + (unat i - 1) * 24)" unfolding sub by simp
  have idx: "unat i - 1 < length es" using pos i(2) by linarith
  then have inside: "40 + 8 * n + (unat i - 1) * 24 + 24 \<le> length (index_bytes cov n es)" by (simp add: length_disk_index)
  have rec: "decodeBufferLogDiskIndexRecord (enc_record (snd (table n es) ! (unat i - 1))) = snd (table n es) ! (unat i - 1)"
    using offs idx by (intro decode_enc_record) (simp_all add: table_offset)
  obtain r' where "readSlice (index_bytes cov n es) r (int (40 + 8 * n + (unat i - 1) * 24)) 24
        = Inr (enc_record (snd (table n es) ! (unat i - 1)), r')" "reader_ok (index_bytes cov n es) r'"
    using readSlice_ok [OF r _ _ inside] unfolding record_slice [OF idx] by auto
  moreover from this(1) have "readRecord (index_bytes cov n es) r (index_meta cov n es) i = Inr (snd (table n es) ! (unat i - 1), r')"
    using le i(1) rec
    unfolding readRecord_def index_meta_def index_sizes of_nat_numeral bufferLogDiskIndexMetadata.simps off by simp
  ultimately show ?thesis by blast
qed

lemma chain_walk_index:
  assumes len: "length es < 2 ^ 63" and n: "bucket_ok n" and offs: "\<forall>e \<in> set es. snd e < 2 ^ 63"
    and keys: "\<forall>e \<in> set es. readBufferLogRecordRef log (int (snd e)) None = Inr (Some (ref_at (int (snd e))))"
  shows "reader_ok (index_bytes cov n es) r \<Longrightarrow> unat i \<le> length es \<Longrightarrow>
    chain_walk (index_bytes cov n es) log (index_meta cov n es) want k steps r i =
      Inr (table_walk ref_at want k (snd (table n es)) steps i)"
proof (induction steps arbitrary: r i)
  case (Suc steps)
  show ?case
  proof (cases "i = 0")
    case False
    define rec where "rec = snd (table n es) ! (unat i - Suc 0)"
    have idx: "unat i - 1 < length es" using False Suc.prems(2) unat_gt_0 [of i] by linarith
    obtain r' where r': "readRecord (index_bytes cov n es) r (index_meta cov n es) i = Inr (rec, r')"
        "reader_ok (index_bytes cov n es) r'"
      using readRecord_index [OF Suc.prems(1) len False Suc.prems(2) offs] rec_def by auto
    have prev: "unat (br_prevRecord rec) \<le> length es"
      using prev_less [of es "unat i - 1" n] len idx n bucket_word [OF n] by (simp add: rec_def bucket_ok_def)
    have key: "readBufferLogRecordRef log (br_logOffset rec) None = Inr (Some (ref_at (br_logOffset rec)))"
      using keys table_offset [OF idx, of n] idx by (simp add: rec_def)
    show ?thesis
      using False r' Suc.IH [OF r'(2) prev]
      by (cases "ref_at (br_logOffset rec)") (simp add: key Let_def flip: rec_def)
  qed simp
qed simp

section \<open>The keyed records of a log\<close>

fun keyed :: "nat \<Rightarrow> log_item list \<Rightarrow> keyed list" where
  "keyed c [] = []"
| "keyed c (Rec k v # xs) = (if k = [] then [] else [(k, c, v)]) @ keyed (c + entry_bytes (k, v)) xs"
| "keyed c (Tag b # xs) = keyed (c + commitTagRecordSize) xs"

lemma keyed_append: "keyed c (xs @ ys) = keyed c xs @ keyed (c + length (fwd_log xs)) ys"
proof (induction xs arbitrary: c)
  case (Cons it xs)
  then show ?case by (cases it) (simp_all add: add.assoc entry_bytes_def segmentedChunkEntryHeaderSize_def commitTagRecordSize_def)
qed simp

lemma keyed_tag_items [simp]: "keyed c (tag_items b) = []"
  by (simp add: tag_items_def)

lemma keyed_item:
  "e \<in> set (keyed c xs) \<Longrightarrow> \<exists>ys zs k v. xs = ys @ Rec k v # zs \<and> k \<noteq> [] \<and> e = (k, c + length (fwd_log ys), v)"
proof (induction xs arbitrary: c)
  case (Cons it xs)
  show ?case
  proof (cases "e \<in> set (keyed (c + length (fwd_enc it)) xs)")
    case True
    from Cons.IH [OF this] obtain ys zs k v where
      "xs = ys @ Rec k v # zs" "k \<noteq> []" "e = (k, c + length (fwd_enc it) + length (fwd_log ys), v)" by blast
    then have "it # xs = (it # ys) @ Rec k v # zs \<and> k \<noteq> [] \<and> e = (k, c + length (fwd_log (it # ys)), v)" by simp
    then show ?thesis by blast
  next
    case False
    with Cons.prems obtain k v where "it = Rec k v" "k \<noteq> []" "e = (k, c, v)" by (cases it) (auto split: if_splits simp del: fwd_enc.simps)
    then show ?thesis by (intro exI [of _ "[]"] exI [of _ xs] exI [of _ k] exI [of _ v]) simp
  qed
qed simp

lemma length_keyed: "length (keyed c xs) \<le> length (fwd_log xs)"
proof (induction xs arbitrary: c)
  case (Cons it xs)
  have "length (keyed c (it # xs)) \<le> Suc (length (keyed (c + length (fwd_enc it)) xs))" by (cases it) (simp_all del: fwd_enc.simps)
  also have "\<dots> \<le> length (fwd_enc it) + length (fwd_log xs)"
    using Cons.IH [of "c + length (fwd_enc it)"] fwd_enc_pos [of it] by linarith
  finally show ?case by simp
qed simp

lemma read_entry:
  assumes "item_ok (Rec k v)" "k \<noteq> []"
  shows "readBufferLogRecordRef (pre @ fwd_enc (Rec k v) @ post) (int (length pre)) None =
      Inr (Some (k, entry_ref (k, length pre, v)))"
    and "readAt (pre @ fwd_enc (Rec k v) @ post) (er_valueOffset (entry_ref (k, length pre, v))) (length v) = Inr v"
proof -
  let ?log = "pre @ fwd_enc (Rec k v) @ post"
  have h: "readAt ?log (int (length pre)) 4 = Inr (record_header (k, v))"
    by (rule readAt_mid [of _ pre _ "k @ v @ post"]) simp_all
  have k: "readAt ?log (int (length pre) + 4) (length k) = Inr k"
    by (rule readAt_mid [of _ "pre @ record_header (k, v)" _ "v @ post"]) simp_all
  have len: "unat (Uint16 (record_header (k, v))) = length k" "unat (Uint16 (drop 2 (record_header (k, v)))) = length v"
    using header_at_record [of k v "[]" "[]"] assms(1) by (simp_all add: header_at_def numeral_2_eq_2)
  show "readBufferLogRecordRef ?log (int (length pre)) None = Inr (Some (k, entry_ref (k, length pre, v)))"
    using assms(2) by (simp add: readBufferLogRecordRef_def segmentedChunkEntryHeaderSize_def h [simplified] k [simplified] len Let_def)
  show "readAt ?log (er_valueOffset (entry_ref (k, length pre, v))) (length v) = Inr v"
    by (rule readAt_mid [of _ "pre @ record_header (k, v) @ k" _ post]) (simp_all add: segmentedChunkEntryHeaderSize_def)
qed

lemma read_keyed:
  assumes ok: "\<forall>it \<in> set items. item_ok it" and e: "e \<in> set (keyed 0 items)"
  shows "readBufferLogRecordRef (fwd_log items) (int (fst (snd e))) None = Inr (Some (fst e, entry_ref e))"
    and "readAt (fwd_log items) (er_valueOffset (entry_ref e)) (er_valueLen (entry_ref e)) = Inr (snd (snd e))"
    and "fst (snd e) < length (fwd_log items)"
proof -
  obtain ys zs k v where d: "items = ys @ Rec k v # zs" "k \<noteq> []" "e = (k, length (fwd_log ys), v)"
    using keyed_item [OF e] by auto
  have "item_ok (Rec k v)" using ok d(1) by simp
  note r = read_entry [OF this d(2), of "fwd_log ys" "fwd_log zs"]
  have l: "fwd_log items = fwd_log ys @ fwd_enc (Rec k v) @ fwd_log zs" by (simp add: d(1))
  show "readBufferLogRecordRef (fwd_log items) (int (fst (snd e))) None = Inr (Some (fst e, entry_ref e))"
    unfolding l using r(1) by (simp add: d(3))
  show "readAt (fwd_log items) (er_valueOffset (entry_ref e)) (er_valueLen (entry_ref e)) = Inr (snd (snd e))"
    unfolding l using r(2) by (simp add: d(3))
  show "fst (snd e) < length (fwd_log items)" unfolding l d(3) using fwd_enc_pos [of "Rec k v"] by simp
qed

definition key_hashes :: "bytes \<Rightarrow> log_item list \<Rightarrow> (u64 \<times> nat) list" where
  "key_hashes a items = hashed (bufferLogDiskIndexKeyHash a) (keyed 0 items)"

lemma lookup_index:
  assumes ok: "\<forall>it \<in> set items. item_ok it" and a: "a \<noteq> []" and len: "length (fwd_log items) < 2 ^ 63" and n: "bucket_ok n"
  shows "lookupBufferLogPhysicalIndexRef a k (Some (index_bytes (length (fwd_log items)) n (key_hashes a items))) (fwd_log items)
    = Inr (answer (refs (keyed 0 items) k))"
proof -
  let ?log = "fwd_log items" and ?es = "key_hashes a items" and ?H = "bufferLogDiskIndexKeyHash a"
  let ?f = "index_bytes (length ?log) n ?es" and ?m = "index_meta (length ?log) n ?es"
  define ref_at where "ref_at z = the (projr (readBufferLogRecordRef ?log z None))" for z
  have nn: "0 < n" "n < 2 ^ 64" using n bucket_word [OF n] by (auto simp: bucket_ok_def)
  have few: "length (keyed 0 items) < 2 ^ 63" using length_keyed [of 0 items] len by linarith
  then have cnt: "length ?es < 2 ^ 63" "unat (of_nat (length ?es) :: u64) = length (keyed 0 items)"
    by (simp_all add: key_hashes_def unat_of_nat)
  have es: "\<forall>e \<in> set ?es. snd e < 2 ^ 63"
      "\<forall>e \<in> set ?es. readBufferLogRecordRef ?log (int (snd e)) None = Inr (Some (ref_at (int (snd e))))"
    using read_keyed [OF ok] len by (fastforce simp: key_hashes_def hashed_def ref_at_def)+
  have keys: "\<forall>e \<in> set (keyed 0 items). ref_at (int (fst (snd e))) = (fst e, entry_ref e)"
    using read_keyed(1) [OF ok] by (simp add: ref_at_def)
  obtain r where r: "readBucketHead ?f (newBufferLogDiskIndexPageReader (int (length ?f))) ?m (?H k AND (of_nat n - 1)) =
      Inr (fst (table n ?es) ! bucket_of n (?H k), r)" "reader_ok ?f r"
    using readBucketHead_index [OF n new_reader_ok] by blast
  have "unat (fst (table n ?es) ! bucket_of n (?H k)) \<le> length ?es"
    using cnt(1) by (intro heads_le bucket_of_less nn) simp
  from chain_walk_index [OF cnt(1) n es r(2) this]
  have "chain_walk ?f ?log ?m (?H k) k (length (keyed 0 items)) r (fst (table n ?es) ! bucket_of n (?H k)) =
      Inr (table_walk ref_at (?H k) k (snd (table n ?es)) (length (keyed 0 items)) (fst (table n ?es) ! bucket_of n (?H k)))" .
  also have "\<dots> = Inr (answer (refs (keyed 0 items) k))"
    using table_walk_newest [OF nn _ keys, of ?H k] few by (simp add: key_hashes_def)
  finally show ?thesis
    using a r(1) cnt(2) by (simp add: lookupBufferLogPhysicalIndexRef_def read_index_meta [OF n len] Let_def) (simp add: index_meta_def)
qed

lemma newest_keyed:
  "k \<noteq> [] \<Longrightarrow> newest (records items) k = map_of (rev (map (\<lambda>e. (fst e, snd (snd e))) (keyed c items))) k"
proof (induction items rule: rev_induct)
  case (snoc it items)
  then show ?case by (cases it) (simp_all add: keyed_append map_add_def)
qed simp

lemma refs_value:
  assumes ok: "\<forall>it \<in> set items. item_ok it" and k: "k \<noteq> []"
  shows "refs (keyed 0 items) k = None \<and> newest (records items) k = None
    \<or> (\<exists>ref v. refs (keyed 0 items) k = Some ref \<and> newest (records items) k = Some v
         \<and> er_valueLen ref = length v \<and> readAt (fwd_log items) (er_valueOffset ref) (er_valueLen ref) = Inr v)"
proof -
  define pick where "pick ks = map_of (rev (map (\<lambda>e. (fst e, e)) ks)) k" for ks :: "keyed list"
  have pick: "refs ks k = map_option entry_ref (pick ks)"
      "map_of (rev (map (\<lambda>e. (fst e, snd (snd e))) ks)) k = map_option (snd \<circ> snd) (pick ks)" for ks
    by (induction ks rule: rev_induct) (simp_all add: refs_def pick_def)
  have mem: "pick ks = Some e \<Longrightarrow> e \<in> set ks" for ks e
    by (auto simp: pick_def dest: map_of_SomeD)
  show ?thesis
  proof (cases "pick (keyed 0 items)")
    case None
    then show ?thesis by (simp add: newest_keyed [OF k, of items 0] pick)
  next
    case (Some e)
    have "er_valueLen (entry_ref e) = length (snd (snd e))" by (cases e) simp
    with Some read_keyed(2) [OF ok mem [OF Some]] show ?thesis by (simp add: newest_keyed [OF k, of items 0] pick)
  qed
qed

end
