(* ===== verification/Buffer_Log.thy ===== *)
theory Buffer_Log
  imports Buffer_Index Segment_Entries "HOL-Library.AList" "HOL-Library.Monad_Syntax"
begin

text \<open>
  The buffer logs of \<^verbatim>\<open>src/THEO/prefixdb/prefixdb.go\<close>: their state in a database and every
  operation on it. The log and the index file of an account are found under the account key, which
  determines their paths. The operating system chooses the modification time of a write and the
  device and inode of a new file; they are an argument of the append. Reading an existing file does
  not fail, and operations run one after another.

  Two caches are kept within their budgets by loops without a bound of their own, which evict the
  least recently used account until the budget holds. An account in the list of recency that the
  cache does not hold would keep them from ending. They are partial functions, and what calls them
  returns \<open>None\<close> when they do not return; that this does not happen is shown in \<open>Buffer_Log_Correct\<close>.
\<close>

section \<open>State\<close>

record log_file =
  lf_data :: bytes
  lf_modTime :: int
  lf_device :: u64
  lf_inode :: u64

record bufferLogAccountIndex =
  bi_path :: bytes
  bi_size :: int
  bi_modTime :: int
  bi_device :: u64
  bi_inode :: u64
  bi_entries :: "(bytes \<times> bufferLogEntryRef) list"

record bufferLogAccountKeyFilter =
  kf_logSize :: int
  kf_hashes :: "u64 list"
  kf_tail :: "u64 set"

record buffer_db =
  bd_logs :: "bytes \<rightharpoonup> log_file"
  bd_idxs :: "bytes \<rightharpoonup> bytes"
  bd_folders :: accountFolderFilter
  bd_bloom :: bufferLogBloom
  bd_loaded :: "bytes set"
  bd_accessed :: "(bytes \<times> (bytes \<times> bytes) list) list"
  bd_indexes :: "(bytes \<times> bufferLogAccountIndex) list"
  bd_indexLRU :: "bytes list"
  bd_indexEntryCount :: int
  bd_filters :: "(bytes \<times> bufferLogAccountKeyFilter) list"
  bd_filterLRU :: "bytes list"
  bd_filterHashCount :: int

definition bufferLogIndexMaxAccounts :: nat where "bufferLogIndexMaxAccounts = 1024"
definition bufferLogIndexMaxEntries :: nat where "bufferLogIndexMaxEntries = 4194304"
definition bufferLogIndexPromoteMinLogBytes :: nat where "bufferLogIndexPromoteMinLogBytes = 1048576"
definition bufferLogAccountFilterMaxAccounts :: nat where "bufferLogAccountFilterMaxAccounts = 256"
definition bufferLogAccountFilterMaxHashes :: nat where "bufferLogAccountFilterMaxHashes = 16777216"

definition isStaleBufferLogReadError :: "bl_error \<Rightarrow> bool" where
  "isStaleBufferLogReadError e \<longleftrightarrow> e \<in> {BLNotExist, BLRead EOF, BLRead UnexpectedEOF}"

section \<open>Identity of log files\<close>

definition bufferLogFileIdentity :: "log_file \<Rightarrow> int \<times> int \<times> u64 \<times> u64" where
  "bufferLogFileIdentity info = (int (length (lf_data info)), lf_modTime info, lf_device info, lf_inode info)"

definition setFileIdentity :: "bufferLogAccountIndex \<Rightarrow> log_file \<Rightarrow> bufferLogAccountIndex" where
  "setFileIdentity idx info =
     (let (sz, modTime, device, inode) = bufferLogFileIdentity info in
      idx\<lparr>bi_size := sz, bi_modTime := modTime, bi_device := device, bi_inode := inode\<rparr>)"

definition matchesFile :: "bufferLogAccountIndex \<Rightarrow> log_file \<Rightarrow> bool" where
  "matchesFile idx info \<longleftrightarrow>
     (let (sz, modTime, device, inode) = bufferLogFileIdentity info in
      if bi_size idx \<noteq> sz then False
      else if bi_inode idx \<noteq> 0 \<or> inode \<noteq> 0 then bi_device idx = device \<and> bi_inode idx = inode
      else bi_modTime idx = modTime)"

definition new_index :: "bytes \<Rightarrow> bufferLogAccountIndex" where
  "new_index accountKey = \<lparr>bi_path = accountKey, bi_size = 0, bi_modTime = 0, bi_device = 0, bi_inode = 0, bi_entries = []\<rparr>"

section \<open>The cache of log indexes\<close>

text \<open>The list element of an index is the place of its account in the list.\<close>

definition touchBufferLogIndexLocked :: "bytes \<Rightarrow> buffer_db \<Rightarrow> buffer_db" where
  "touchBufferLogIndexLocked account db = db\<lparr>bd_indexLRU := account # remove1 account (bd_indexLRU db)\<rparr>"

definition removeBufferLogIndexLocked :: "bytes \<Rightarrow> buffer_db \<Rightarrow> buffer_db" where
  "removeBufferLogIndexLocked account db =
     (if account = [] then db
      else case map_of (bd_indexes db) account of
        None \<Rightarrow> db
      | Some idx \<Rightarrow> db\<lparr>bd_indexLRU := remove1 account (bd_indexLRU db),
          bd_indexEntryCount := max 0 (bd_indexEntryCount db - int (length (bi_entries idx))),
          bd_indexes := AList.delete account (bd_indexes db)\<rparr>)"

partial_function (option) enforceBufferLogIndexBudgetLocked :: "int \<Rightarrow> int \<Rightarrow> buffer_db \<Rightarrow> buffer_db option" where
  "enforceBufferLogIndexBudgetLocked maxAccounts maxEntries db =
     (if bd_indexLRU db = [] then Some db
      else if \<not> (maxAccounts \<ge> 0 \<and> int (length (bd_indexes db)) > maxAccounts)
            \<and> \<not> (maxEntries \<ge> 0 \<and> bd_indexEntryCount db > maxEntries) then Some db
      else enforceBufferLogIndexBudgetLocked maxAccounts maxEntries (removeBufferLogIndexLocked (last (bd_indexLRU db)) db))"

definition enforce_budget :: "buffer_db \<Rightarrow> buffer_db option" where
  "enforce_budget = enforceBufferLogIndexBudgetLocked (int bufferLogIndexMaxAccounts) (int bufferLogIndexMaxEntries)"

definition cacheBufferLogIndexLocked :: "bytes \<Rightarrow> bufferLogAccountIndex \<Rightarrow> buffer_db \<Rightarrow> buffer_db option" where
  "cacheBufferLogIndexLocked account idx db =
     (if account = [] then Some db
      else if length (bi_entries idx) > bufferLogIndexMaxEntries then Some (removeBufferLogIndexLocked account db)
      else let db = removeBufferLogIndexLocked account db;
               db = db\<lparr>bd_indexes := AList.update account idx (bd_indexes db),
                        bd_indexEntryCount := bd_indexEntryCount db + int (length (bi_entries idx))\<rparr>
        in enforce_budget (touchBufferLogIndexLocked account db))"

definition removeBufferLogIndex :: "bytes \<Rightarrow> buffer_db \<Rightarrow> buffer_db" where
  "removeBufferLogIndex accountKey db = (if accountKey = [] then db else removeBufferLogIndexLocked accountKey db)"

fun add_refs :: "int \<Rightarrow> kvPair list \<Rightarrow> (bytes \<times> bufferLogEntryRef) list \<Rightarrow> (bytes \<times> bufferLogEntryRef) list" where
  "add_refs cursor [] entries = entries"
| "add_refs cursor (kv # kvs) entries =
     add_refs (cursor + int (entry_bytes kv)) kvs
       (if fst kv = [] then entries
        else AList.update (fst kv)
               \<lparr>er_valueOffset = cursor + int (segmentedChunkEntryHeaderSize + length (fst kv)), er_valueLen = length (snd kv)\<rparr>
               entries)"

definition updateBufferLogIndexForAppend :: "bytes \<Rightarrow> int \<Rightarrow> log_file \<Rightarrow> kvPair list \<Rightarrow> buffer_db \<Rightarrow> buffer_db option" where
  "updateBufferLogIndexForAppend account appendOffset info kvs db =
     (if account = [] \<or> kvs = [] then Some db
      else let old = map_of (bd_indexes db) account;
               (db, old) = (case old of
                   Some idx \<Rightarrow> if bi_path idx \<noteq> account then (removeBufferLogIndexLocked account db, None) else (db, old)
                 | None \<Rightarrow> (db, None))
        in case old of
             None \<Rightarrow>
               if appendOffset \<noteq> 0 then Some db
               else cacheBufferLogIndexLocked account
                 (setFileIdentity (new_index account \<lparr>bi_entries := add_refs appendOffset kvs []\<rparr>) info) db
           | Some idx \<Rightarrow>
               let idx' = setFileIdentity (idx\<lparr>bi_entries := add_refs appendOffset kvs (bi_entries idx)\<rparr>) info;
                   db = db\<lparr>bd_indexes := AList.update account idx' (bd_indexes db),
                           bd_indexEntryCount := bd_indexEntryCount db + int (length (bi_entries idx')) - int (length (bi_entries idx))\<rparr>
               in enforce_budget (touchBufferLogIndexLocked account db))"

section \<open>The filters of accounts\<close>

definition bufferLogAccountKeyFilterHashCount :: "bufferLogAccountKeyFilter \<Rightarrow> nat" where
  "bufferLogAccountKeyFilterHashCount flt = length (kf_hashes flt) + card (kf_tail flt)"

definition bufferLogAccountKeyFilterContains :: "bufferLogAccountKeyFilter \<Rightarrow> u64 \<Rightarrow> bool" where
  "bufferLogAccountKeyFilterContains flt hash \<longleftrightarrow>
     (let idx = sort_Search (length (kf_hashes flt)) (\<lambda>i. kf_hashes flt ! i \<ge> hash) in
      idx < length (kf_hashes flt) \<and> kf_hashes flt ! idx = hash \<or> hash \<in> kf_tail flt)"

definition compactSortedBufferLogHashes :: "u64 list \<Rightarrow> u64 list" where
  "compactSortedBufferLogHashes hashes = (if length hashes < 2 then hashes else remdups_adj (sort hashes))"

definition removeBufferLogAccountFilterLocked :: "bytes \<Rightarrow> buffer_db \<Rightarrow> buffer_db" where
  "removeBufferLogAccountFilterLocked account db =
     (if account = [] then db
      else case map_of (bd_filters db) account of
        None \<Rightarrow> db
      | Some flt \<Rightarrow> db\<lparr>bd_filters := AList.delete account (bd_filters db),
          bd_filterHashCount := max 0 (bd_filterHashCount db - int (bufferLogAccountKeyFilterHashCount flt)),
          bd_filterLRU := remove1 account (bd_filterLRU db)\<rparr>)"

partial_function (option) evictBufferLogAccountFiltersLocked :: "bytes \<Rightarrow> buffer_db \<Rightarrow> buffer_db option" where
  "evictBufferLogAccountFiltersLocked protect db =
     (if (length (bd_filters db) > bufferLogAccountFilterMaxAccounts
          \<or> bd_filterHashCount db > int bufferLogAccountFilterMaxHashes) \<and> length (bd_filterLRU db) > 1
      then let lru = bd_filterLRU db;
               victim = (if protect \<noteq> [] \<and> last lru = protect then last (butlast lru) else last lru)
        in evictBufferLogAccountFiltersLocked protect (removeBufferLogAccountFilterLocked victim db)
      else Some db)"

definition installBufferLogAccountKeyFilter :: "bytes \<Rightarrow> bufferLogAccountKeyFilter \<Rightarrow> buffer_db \<Rightarrow> buffer_db option" where
  "installBufferLogAccountKeyFilter account flt db =
     (if account = [] then Some db
      else let db = removeBufferLogAccountFilterLocked account db;
               db = db\<lparr>bd_filterLRU := account # bd_filterLRU db,
                        bd_filters := AList.update account flt (bd_filters db),
                        bd_filterHashCount := bd_filterHashCount db + int (bufferLogAccountKeyFilterHashCount flt)\<rparr>
        in evictBufferLogAccountFiltersLocked account db)"

definition removeBufferLogAccountFilter :: "bytes \<Rightarrow> buffer_db \<Rightarrow> buffer_db" where
  "removeBufferLogAccountFilter accountKey db =
     (if accountKey = [] then db else removeBufferLogAccountFilterLocked accountKey db)"

definition touch_filter :: "bytes \<Rightarrow> buffer_db \<Rightarrow> buffer_db" where
  "touch_filter account db = db\<lparr>bd_filterLRU := account # remove1 account (bd_filterLRU db)\<rparr>"

fun add_hashes :: "bytes \<Rightarrow> kvPair list \<Rightarrow> bufferLogAccountKeyFilter \<Rightarrow> bufferLogAccountKeyFilter \<times> nat" where
  "add_hashes account [] flt = (flt, 0)"
| "add_hashes account (kv # kvs) flt =
     (if fst kv = [] then add_hashes account kvs flt
      else let hash = bufferLogDiskIndexKeyHash account (fst kv) in
        if bufferLogAccountKeyFilterContains flt hash then add_hashes account kvs flt
        else let (flt', n) = add_hashes account kvs (flt\<lparr>kf_tail := insert hash (kf_tail flt)\<rparr>)
          in (flt', Suc n))"

definition addBufferLogAccountFilterEntries :: "bytes \<Rightarrow> int \<Rightarrow> kvPair list \<Rightarrow> buffer_db \<Rightarrow> buffer_db option" where
  "addBufferLogAccountFilterEntries account logEndOffset kvs db =
     (if account = [] \<or> kvs = [] then Some db
      else case map_of (bd_filters db) account of
        None \<Rightarrow> Some db
      | Some flt \<Rightarrow>
          let db = touch_filter account db;
              (flt', n) = add_hashes account kvs flt;
              flt' = (if logEndOffset > kf_logSize flt' then flt'\<lparr>kf_logSize := logEndOffset\<rparr> else flt');
              db = db\<lparr>bd_filters := AList.update account flt' (bd_filters db),
                       bd_filterHashCount := bd_filterHashCount db + int n\<rparr>
          in evictBufferLogAccountFiltersLocked account db)"

section \<open>Scanning a log and writing its index\<close>

text \<open>
  The loop that the rebuild of the index file and the construction of an index in memory share:
  every record with its key, its offset and its value.
\<close>

function scan_log :: "bytes \<Rightarrow> nat \<Rightarrow> bl_error + keyed list" where
  "scan_log data cursor =
     (if cursor \<ge> length data then Inr []
      else case forward_step data cursor of
        None \<Rightarrow> Inl (BLRead UnexpectedEOF)
      | Some (Tag b, cursor') \<Rightarrow> scan_log data cursor'
      | Some (Rec k v, cursor') \<Rightarrow>
          (case scan_log data cursor' of Inl e \<Rightarrow> Inl e | Inr es \<Rightarrow> Inr ((k, cursor, v) # es)))"
  by pat_completeness auto
termination
  by (relation "measure (\<lambda>(data, cursor). length data - cursor)") (auto dest: forward_step_progress)

declare scan_log.simps [simp del]

fun rebuild_loop :: "u64 \<Rightarrow> (u64 \<times> nat) list \<Rightarrow> nat \<Rightarrow> bytes \<times> u64 list \<Rightarrow> bytes \<times> u64 list" where
  "rebuild_loop bucketCount [] i st = st"
| "rebuild_loop bucketCount ((keyHash, logOffset) # es) i (payload, heads) =
     (let bucket = keyHash AND (bucketCount - 1); prev = heads ! unat bucket in
      rebuild_loop bucketCount es (Suc i)
        (appendBufferLogDiskIndexRecord payload keyHash (int logOffset) prev,
         heads[unat bucket := of_nat (i + 1)]))"

definition rebuilt_file :: "(u64 \<times> nat) list \<Rightarrow> int \<Rightarrow> io_error + bytes" where
  "rebuilt_file es logEndOffset =
     (let bucketCount = bufferLogDiskIndexBucketCountForRecords (of_nat (length es));
          heads = replicate (unat bucketCount) 0;
          f = bufferLogDiskIndexHeader 0 0 bucketCount
      in case writeBufferLogDiskIndexBucketHeads f heads of
           Inl e \<Rightarrow> Inl e
         | Inr f \<Rightarrow>
             let (payload, heads) = rebuild_loop bucketCount es 0 ([], heads) in
             case writeAt f (int bufferLogDiskIndexFileHeaderSize + uint bucketCount * int bufferLogDiskIndexBucketHeadSize) payload of
               Inl e \<Rightarrow> Inl e
             | Inr f \<Rightarrow>
                 (case writeBufferLogDiskIndexBucketHeads f heads of
                    Inl e \<Rightarrow> Inl e
                  | Inr f \<Rightarrow> writeAt f 0 (bufferLogDiskIndexHeader logEndOffset (of_nat (length es)) bucketCount)))"

definition rebuildBufferLogPhysicalIndexFromBuffer :: "bytes \<Rightarrow> bytes \<Rightarrow> int \<Rightarrow> buffer_db \<Rightarrow> bl_error option \<times> buffer_db" where
  "rebuildBufferLogPhysicalIndexFromBuffer accountKey data logEndOffset db =
     (if accountKey = [] \<or> data = [] then (None, db)
      else case scan_log data 0 of
        Inl e \<Rightarrow> (Some e, db)
      | Inr rs \<Rightarrow>
          let es = map (\<lambda>(k, off, v). (bufferLogDiskIndexKeyHash accountKey k, off)) [r \<leftarrow> rs. fst r \<noteq> []] in
          if es = [] then (None, db)
          else case rebuilt_file es logEndOffset of
            Inl e \<Rightarrow> (Some (BLRead e), db)
          | Inr f \<Rightarrow> (None, db\<lparr>bd_idxs := (bd_idxs db)(accountKey \<mapsto> f)\<rparr>))"

definition rebuildBufferLogPhysicalIndexFromLogFile :: "bytes \<Rightarrow> int \<Rightarrow> buffer_db \<Rightarrow> bl_error option \<times> buffer_db" where
  "rebuildBufferLogPhysicalIndexFromLogFile accountKey logEndOffset db =
     (if accountKey = [] then (Some BLKeyRequired, db)
      else case bd_logs db accountKey of
        None \<Rightarrow> (Some BLNotExist, db)
      | Some info \<Rightarrow>
          if int (length (lf_data info)) \<noteq> logEndOffset then (None, db)
          else rebuildBufferLogPhysicalIndexFromBuffer accountKey (lf_data info) logEndOffset db)"

definition maybeRebuildBufferLogPhysicalIndex :: "bytes \<Rightarrow> bytes \<Rightarrow> int \<Rightarrow> buffer_db \<Rightarrow> buffer_db" where
  "maybeRebuildBufferLogPhysicalIndex accountKey data logEndOffset db =
     (if accountKey = [] \<or> data = [] then db
      else if map_option bm_coveredEnd (readBufferLogDiskIndexMetadataFull (bd_idxs db accountKey)) = Some logEndOffset then db
      else case rebuildBufferLogPhysicalIndexFromBuffer accountKey data logEndOffset db of
        (Some e, db) \<Rightarrow> db
      | (None, db) \<Rightarrow> removeBufferLogAccountFilter accountKey db)"

text \<open>
  The append to the index file: a new file for a new log, nothing but the removal of an index that
  does not reach up to the append, a rebuild when the chains have become long, or the new records
  behind the old ones, the touched heads and at last the header.
\<close>

definition extend_index :: "bytes \<Rightarrow> int \<Rightarrow> int \<Rightarrow> kvPair list \<Rightarrow> bufferLogDiskIndexMetadata \<Rightarrow> u64 list \<Rightarrow> bytes \<Rightarrow> io_error + bytes" where
  "extend_index accountKey appendOffset logEndOffset kvs meta heads f =
     (let (payload, appended, touched, heads) =
            buildBufferLogDiskIndexPayload accountKey appendOffset kvs heads (bm_recordCount meta)
      in if payload = [] \<or> appended = 0 then Inr f
      else case writeAt f (bm_recordsOffset meta + uint (bm_recordCount meta) * int bufferLogDiskIndexRecordSize) payload of
        Inl e \<Rightarrow> Inl e
      | Inr f \<Rightarrow>
          (case writeBufferLogDiskIndexTouchedBucketHeads f heads touched of
             Inl e \<Rightarrow> Inl e
           | Inr f \<Rightarrow> writeAt f 0 (bufferLogDiskIndexHeader logEndOffset (bm_recordCount meta + appended) (bm_bucketCount meta))))"

definition set_index :: "bytes \<Rightarrow> io_error + bytes \<Rightarrow> buffer_db \<Rightarrow> bl_error option \<times> buffer_db" where
  "set_index accountKey r db =
     (case r of Inl e \<Rightarrow> (Some (BLRead e), db) | Inr f \<Rightarrow> (None, db\<lparr>bd_idxs := (bd_idxs db)(accountKey \<mapsto> f)\<rparr>))"

definition appendBufferLogPhysicalIndexEntries ::
    "bytes \<Rightarrow> int \<Rightarrow> int \<Rightarrow> kvPair list \<Rightarrow> buffer_db \<Rightarrow> bl_error option \<times> buffer_db" where
  "appendBufferLogPhysicalIndexEntries accountKey appendOffset logEndOffset kvs db =
     (if accountKey = [] \<or> kvs = [] then (None, db)
      else let added = of_nat (length [kv \<leftarrow> kvs. fst kv \<noteq> []]) :: u64 in
        if appendOffset = 0 then
          if added = 0 then (None, db)
          else let n = bufferLogDiskIndexBucketCountForRecords added;
                   meta = \<lparr>bm_coveredEnd = appendOffset, bm_recordCount = 0, bm_bucketCount = n,
                     bm_recordsOffset = int bufferLogDiskIndexFileHeaderSize + uint n * int bufferLogDiskIndexBucketHeadSize,
                     bm_fileSize = 0\<rparr>;
                   heads = replicate (unat n) 0
            in case writeBufferLogDiskIndexBucketHeads (bufferLogDiskIndexHeader appendOffset 0 n) heads of
                 Inl e \<Rightarrow> (Some (BLRead e), db)
               | Inr f \<Rightarrow> set_index accountKey (extend_index accountKey appendOffset logEndOffset kvs meta heads f) db
        else case readBufferLogDiskIndexMetadataFull (bd_idxs db accountKey) of
          None \<Rightarrow> (None, removeBufferLogAccountFilter accountKey (db\<lparr>bd_idxs := (bd_idxs db)(accountKey := None)\<rparr>))
        | Some meta \<Rightarrow>
            if bm_coveredEnd meta \<noteq> appendOffset
            then (None, removeBufferLogAccountFilter accountKey (db\<lparr>bd_idxs := (bd_idxs db)(accountKey := None)\<rparr>))
            else if bm_recordCount meta + added = bm_recordCount meta then (None, db)
            else if bm_recordCount meta + added > bm_bucketCount meta * bufferLogDiskIndexRebuildChainLen
            then rebuildBufferLogPhysicalIndexFromLogFile accountKey logEndOffset db
            else let f = the (bd_idxs db accountKey) in
              case readBufferLogDiskIndexBucketHeads f meta of
                Inl e \<Rightarrow> (Some (BLRead e), db)
              | Inr heads \<Rightarrow> set_index accountKey (extend_index accountKey appendOffset logEndOffset kvs meta heads f) db)"

section \<open>Accessed keys\<close>

definition isAccountStorageFolderManaged :: "bytes \<Rightarrow> buffer_db \<Rightarrow> bool" where
  "isAccountStorageFolderManaged accountKey db \<longleftrightarrow> folder_maybeContains (bd_folders db) accountKey"

definition accessed_keys :: "bytes \<Rightarrow> buffer_db \<Rightarrow> (bytes \<times> bytes) list" where
  "accessed_keys accountKey db = (case map_of (bd_accessed db) accountKey of None \<Rightarrow> [] | Some ks \<Rightarrow> ks)"

definition set_accessed :: "bytes \<Rightarrow> (bytes \<times> bytes) list \<Rightarrow> buffer_db \<Rightarrow> buffer_db" where
  "set_accessed accountKey ks db =
     db\<lparr>bd_accessed := (if ks = [] then AList.delete accountKey (bd_accessed db) else AList.update accountKey ks (bd_accessed db))\<rparr>"

definition markBufferLogAccessed :: "bytes \<Rightarrow> bytes \<Rightarrow> bytes \<Rightarrow> buffer_db \<Rightarrow> buffer_db" where
  "markBufferLogAccessed accountKey storageKey val db =
     (if accountKey = [] \<or> storageKey = [] \<or> \<not> isAccountStorageFolderManaged accountKey db then db
      else if map_of (accessed_keys accountKey db) storageKey \<noteq> None then db
      else set_accessed accountKey (AList.update storageKey val (accessed_keys accountKey db)) db)"

definition unmarkBufferLogAccessedEntries :: "bytes \<Rightarrow> kvPair list \<Rightarrow> buffer_db \<Rightarrow> buffer_db" where
  "unmarkBufferLogAccessedEntries accountKey kvs db =
     (if accountKey = [] \<or> kvs = [] \<or> accessed_keys accountKey db = [] then db
      else set_accessed accountKey (fold (\<lambda>kv. AList.delete (fst kv)) kvs (accessed_keys accountKey db)) db)"

definition clearBufferLogAccessed :: "bytes \<Rightarrow> bytes list \<Rightarrow> buffer_db \<Rightarrow> buffer_db" where
  "clearBufferLogAccessed accountKey keys db =
     (if accountKey = [] then db
      else if keys = [] then db\<lparr>bd_accessed := AList.delete accountKey (bd_accessed db)\<rparr>
      else set_accessed accountKey (fold AList.delete keys (accessed_keys accountKey db)) db)"

definition hasBufferLogAccessed :: "bytes \<Rightarrow> buffer_db \<Rightarrow> bool" where
  "hasBufferLogAccessed accountKey db \<longleftrightarrow> accountKey \<noteq> [] \<and> accessed_keys accountKey db \<noteq> []"

definition snapshotBufferLogAccessedAccounts :: "buffer_db \<Rightarrow> bytes list" where
  "snapshotBufferLogAccessedAccounts db = map fst [(a, ks) \<leftarrow> bd_accessed db. ks \<noteq> []]"

definition splitBufferLogEntriesByAccess :: "kvPair list \<Rightarrow> bytes set \<Rightarrow> kvPair list \<times> kvPair list" where
  "splitBufferLogEntriesByAccess entries accessed =
     (if entries = [] \<or> accessed = {} then ([], entries)
      else ([e \<leftarrow> entries. fst e \<in> accessed], [e \<leftarrow> entries. fst e \<notin> accessed]))"

definition resetBufferLogState :: "bytes \<Rightarrow> buffer_db \<Rightarrow> buffer_db" where
  "resetBufferLogState accountKey db =
     (if accountKey = [] then db
      else clearBufferLogAccessed accountKey []
        (removeBufferLogAccountFilter accountKey
          (removeBufferLogIndex accountKey (db\<lparr>bd_loaded := bd_loaded db - {accountKey}\<rparr>))))"

definition removeBufferLogForAccount :: "bytes \<Rightarrow> buffer_db \<Rightarrow> bl_error option \<times> buffer_db" where
  "removeBufferLogForAccount accountKey db =
     (if accountKey = [] then (Some BLKeyRequired, db)
      else (None, resetBufferLogState accountKey
        (db\<lparr>bd_logs := (bd_logs db)(accountKey := None), bd_idxs := (bd_idxs db)(accountKey := None)\<rparr>)))"

definition markAccountStorageFolder :: "bytes \<Rightarrow> buffer_db \<Rightarrow> buffer_db" where
  "markAccountStorageFolder accountKey db = db\<lparr>bd_folders := folder_add (bd_folders db) accountKey\<rparr>"

definition clearAccountStorageFolder :: "bytes \<Rightarrow> buffer_db \<Rightarrow> buffer_db" where
  "clearAccountStorageFolder accountKey db = db\<lparr>bd_folders := folder_remove (bd_folders db) accountKey\<rparr>"

section \<open>Appending\<close>

definition markBufferLogBloomLoaded :: "bytes \<Rightarrow> buffer_db \<Rightarrow> buffer_db" where
  "markBufferLogBloomLoaded accountKey db =
     (if accountKey = [] then db else db\<lparr>bd_loaded := insert accountKey (bd_loaded db)\<rparr>)"

text \<open>What the operating system chooses for a write: modification time, device and inode of a new file.\<close>

type_synonym file_stamp = "int \<times> u64 \<times> u64"

definition append_file :: "file_stamp \<Rightarrow> bytes \<Rightarrow> log_file option \<Rightarrow> log_file" where
  "append_file stamp payload f =
     (case (f, stamp) of
        (None, (t, dev, ino)) \<Rightarrow> \<lparr>lf_data = payload, lf_modTime = t, lf_device = dev, lf_inode = ino\<rparr>
      | (Some f, (t, _, _)) \<Rightarrow> f\<lparr>lf_data := lf_data f @ payload, lf_modTime := t\<rparr>)"

definition add_to_bloom :: "bytes \<Rightarrow> kvPair list \<Rightarrow> bufferLogBloom \<Rightarrow> bufferLogBloom" where
  "add_to_bloom accountKey kvs b = fold (\<lambda>kv b. if fst kv = [] then b else bloom_add b accountKey (fst kv)) kvs b"

definition appendBufferLogEntries ::
    "file_stamp \<Rightarrow> bytes \<Rightarrow> kvPair list \<Rightarrow> u64 \<Rightarrow> buffer_db \<Rightarrow> (bl_error option \<times> buffer_db) option" where
  "appendBufferLogEntries stamp accountKey kvs blockID db =
     (if accountKey = [] \<or> kvs = [] then Some (None, db)
      else let db = db\<lparr>bd_bloom := add_to_bloom accountKey kvs (bd_bloom db)\<rparr>;
               db = markBufferLogBloomLoaded accountKey db;
               appendOffset = (case bd_logs db accountKey of None \<Rightarrow> 0 | Some f \<Rightarrow> int (length (lf_data f)))
        in case serializeStorageSegment kvs of
             Inl e \<Rightarrow> Some (Some (BLSeg e), db)
           | Inr seg \<Rightarrow>
               let payload = appendForwardCommitTag seg blockID;
                   info = append_file stamp payload (bd_logs db accountKey);
                   db = db\<lparr>bd_logs := (bd_logs db)(accountKey \<mapsto> info)\<rparr>;
                   logSize = int (length (lf_data info));
                   db = (if appendOffset = 0 then removeBufferLogAccountFilter accountKey db else db)
               in case appendBufferLogPhysicalIndexEntries accountKey appendOffset logSize kvs db of
                    (Some e, db) \<Rightarrow> Some (Some e, db)
                  | (None, db) \<Rightarrow> do {
                      db \<leftarrow> addBufferLogAccountFilterEntries accountKey logSize kvs db;
                      db \<leftarrow> updateBufferLogIndexForAppend accountKey appendOffset info kvs
                              (unmarkBufferLogAccessedEntries accountKey kvs db);
                      Some (None, db)
                    })"

section \<open>Loading the filters\<close>

definition loadBufferLogBloomFromPhysicalIndex :: "bytes \<Rightarrow> int \<Rightarrow> buffer_db \<Rightarrow> (bl_error + bool) \<times> buffer_db" where
  "loadBufferLogBloomFromPhysicalIndex accountKey logSize db =
     (if accountKey = [] then (Inr False, db)
      else case readBufferLogDiskIndexMetadataFull (bd_idxs db accountKey) of
        None \<Rightarrow> (Inr False, db)
      | Some meta \<Rightarrow>
          if bm_coveredEnd meta \<noteq> logSize then (Inr False, db)
          else case forEachBufferLogDiskIndexRecord (the (bd_idxs db accountKey)) meta
                      (\<lambda>rec b. Inr (bloom_addHash b (br_keyHash rec))) (bd_bloom db) of
            Inl e \<Rightarrow> (Inl e, db)
          | Inr b \<Rightarrow> (Inr True, db\<lparr>bd_bloom := b\<rparr>))"

definition ensureBufferLogBloomForAccount :: "bytes \<Rightarrow> buffer_db \<Rightarrow> (bl_error + bool) \<times> buffer_db" where
  "ensureBufferLogBloomForAccount accountKey db =
     (if accountKey = [] then (Inr False, db)
      else if accountKey \<in> bd_loaded db then (Inr True, db)
      else case bd_logs db accountKey of
        None \<Rightarrow> (Inr True, markBufferLogBloomLoaded accountKey db)
      | Some info \<Rightarrow>
          (case loadBufferLogBloomFromPhysicalIndex accountKey (int (length (lf_data info))) db of
             (Inl e, db) \<Rightarrow> (Inl e, db)
           | (Inr loaded, db) \<Rightarrow> if loaded then (Inr True, markBufferLogBloomLoaded accountKey db) else (Inr False, db)))"

definition loadBufferLogAccountKeyFilterFromPhysicalIndex ::
    "bytes \<Rightarrow> int \<Rightarrow> buffer_db \<Rightarrow> bl_error + bufferLogAccountKeyFilter option" where
  "loadBufferLogAccountKeyFilterFromPhysicalIndex accountKey logSize db =
     (if accountKey = [] then Inr None
      else if logSize = 0 then Inr (Some \<lparr>kf_logSize = 0, kf_hashes = [], kf_tail = {}\<rparr>)
      else case readBufferLogDiskIndexMetadataFull (bd_idxs db accountKey) of
        None \<Rightarrow> Inr None
      | Some meta \<Rightarrow>
          if bm_coveredEnd meta \<noteq> logSize then Inr None
          else case forEachBufferLogDiskIndexRecord (the (bd_idxs db accountKey)) meta
                      (\<lambda>rec hs. Inr (hs @ [br_keyHash rec])) [] of
            Inl e \<Rightarrow> Inl e
          | Inr hs \<Rightarrow> Inr (Some \<lparr>kf_logSize = logSize, kf_hashes = compactSortedBufferLogHashes hs, kf_tail = {}\<rparr>))"

definition ensureBufferLogAccountKeyFilter :: "bytes \<Rightarrow> buffer_db \<Rightarrow> ((bl_error + bool) \<times> buffer_db) option" where
  "ensureBufferLogAccountKeyFilter accountKey db =
     (if accountKey = [] then Some (Inr False, db)
      else if map_of (bd_filters db) accountKey \<noteq> None then Some (Inr True, touch_filter accountKey db)
      else case bd_logs db accountKey of
        None \<Rightarrow> do {
          db \<leftarrow> installBufferLogAccountKeyFilter accountKey \<lparr>kf_logSize = 0, kf_hashes = [], kf_tail = {}\<rparr> db;
          Some (Inr True, db)
        }
      | Some info \<Rightarrow>
          (case loadBufferLogAccountKeyFilterFromPhysicalIndex accountKey (int (length (lf_data info))) db of
             Inl e \<Rightarrow> Some (Inl e, db)
           | Inr None \<Rightarrow> Some (Inr False, db)
           | Inr (Some flt) \<Rightarrow> do {
               db \<leftarrow> installBufferLogAccountKeyFilter accountKey flt db;
               Some (Inr True, db)
             }))"

definition bufferLogAccountFilterCurrent :: "bytes \<Rightarrow> int \<Rightarrow> buffer_db \<Rightarrow> bool" where
  "bufferLogAccountFilterCurrent accountKey logSize db \<longleftrightarrow>
     (case bd_logs db accountKey of None \<Rightarrow> logSize = 0 | Some info \<Rightarrow> int (length (lf_data info)) = logSize)"

text \<open>
  The test of a key against the filter of its account. The loop loads the filter again when it does
  not describe the log; the result is whether the filter decided, and whether it rejected the key.
\<close>

partial_function (option) rejects_loop :: "bytes \<Rightarrow> u64 \<Rightarrow> buffer_db \<Rightarrow> ((bl_error + bool \<times> bool) \<times> buffer_db) option" where
  "rejects_loop account hash db =
     (case map_of (bd_filters db) account of
        None \<Rightarrow> Some (Inr (False, False), db)
      | Some flt \<Rightarrow>
          let db = touch_filter account db in
          if bufferLogAccountKeyFilterContains flt hash then Some (Inr (True, False), db)
          else if bufferLogAccountFilterCurrent account (kf_logSize flt) db then Some (Inr (True, True), db)
          else do {
            (r, db) \<leftarrow> ensureBufferLogAccountKeyFilter account (removeBufferLogAccountFilter account db);
            case r of
              Inl e \<Rightarrow> Some (Inl e, db)
            | Inr loaded \<Rightarrow> if loaded then rejects_loop account hash db else Some (Inr (False, False), db)
          })"

definition bufferLogAccountFilterRejectsKey :: "bytes \<Rightarrow> bytes \<Rightarrow> buffer_db \<Rightarrow> ((bl_error + bool \<times> bool) \<times> buffer_db) option" where
  "bufferLogAccountFilterRejectsKey accountKey storageKey db =
     (if accountKey = [] \<or> storageKey = [] then Some (Inr (False, False), db)
      else do {
        (r, db) \<leftarrow> ensureBufferLogAccountKeyFilter accountKey db;
        case r of
          Inl e \<Rightarrow> Some (Inl e, db)
        | Inr loaded \<Rightarrow>
            if loaded then rejects_loop accountKey (bufferLogDiskIndexKeyHash accountKey storageKey) db
            else Some (Inr (False, False), db)
      })"

section \<open>Reading\<close>

text \<open>
  The answer of one way to read a value: this way cannot be used, the log has no record of the key,
  or its newest value, which is empty for a deleted key.
\<close>

datatype value_answer = ValueUnused | ValueAbsent | BufferValue bytes

definition read_ref :: "bytes \<Rightarrow> bufferLogEntryRef \<Rightarrow> bl_error + bytes" where
  "read_ref log ref =
     (if er_valueLen ref = 0 then Inr []
      else case readAt log (er_valueOffset ref) (er_valueLen ref) of Inl e \<Rightarrow> Inl (BLRead e) | Inr v \<Rightarrow> Inr v)"

definition ref_value :: "bytes \<Rightarrow> bufferLogEntryRef \<Rightarrow> bl_error + value_answer" where
  "ref_value log ref = (case read_ref log ref of Inl e \<Rightarrow> Inl e | Inr v \<Rightarrow> Inr (BufferValue v))"

definition readBufferLogValueByDiskIndex :: "bytes \<Rightarrow> bytes \<Rightarrow> buffer_db \<Rightarrow> bl_error + value_answer" where
  "readBufferLogValueByDiskIndex accountKey storageKey db =
     (if accountKey = [] then Inl BLKeyRequired
      else case bd_logs db accountKey of
        None \<Rightarrow> Inr ValueUnused
      | Some info \<Rightarrow>
          (case lookupBufferLogPhysicalIndexRef accountKey storageKey (bd_idxs db accountKey) (lf_data info) of
             Inl e \<Rightarrow> Inl e
           | Inr IndexUnused \<Rightarrow> Inr ValueUnused
           | Inr IndexAbsent \<Rightarrow> Inr ValueAbsent
           | Inr (IndexRef ref) \<Rightarrow> ref_value (lf_data info) ref))"

definition readBufferLogValueByCachedIndex :: "bytes \<Rightarrow> bytes \<Rightarrow> buffer_db \<Rightarrow> (bl_error + value_answer) \<times> buffer_db" where
  "readBufferLogValueByCachedIndex accountKey storageKey db =
     (if accountKey = [] \<or> storageKey = [] then (Inr ValueUnused, db)
      else case map_of (bd_indexes db) accountKey of
        None \<Rightarrow> (Inr ValueUnused, db)
      | Some idx \<Rightarrow>
          (case bd_logs db (bi_path idx) of
             None \<Rightarrow> (Inl BLNotExist, db)
           | Some info \<Rightarrow>
               if \<not> matchesFile idx info then (Inr ValueUnused, resetBufferLogState accountKey db)
               else ((case map_of (bi_entries idx) storageKey of
                        None \<Rightarrow> Inr ValueAbsent
                      | Some ref \<Rightarrow> ref_value (lf_data info) ref), touchBufferLogIndexLocked accountKey db)))"

definition buildBufferLogIndexForAccount :: "bytes \<Rightarrow> buffer_db \<Rightarrow> (bl_error + bufferLogAccountIndex) \<times> buffer_db" where
  "buildBufferLogIndexForAccount accountKey db =
     (if accountKey = [] then (Inl BLKeyRequired, db)
      else case bd_logs db accountKey of
        None \<Rightarrow> (Inr (new_index accountKey), db)
      | Some info \<Rightarrow>
          (case scan_log (lf_data info) 0 of
             Inl e \<Rightarrow> (Inl e, db)
           | Inr rs \<Rightarrow>
               (Inr (setFileIdentity (new_index accountKey
                       \<lparr>bi_entries := fold (\<lambda>e. AList.update (fst e) (entry_ref e)) [r \<leftarrow> rs. fst r \<noteq> []] []\<rparr>) info),
                maybeRebuildBufferLogPhysicalIndex accountKey (lf_data info) (int (length (lf_data info))) db)))"

definition getBufferLogIndex :: "bytes \<Rightarrow> buffer_db \<Rightarrow> ((bl_error + bufferLogAccountIndex option) \<times> buffer_db) option" where
  "getBufferLogIndex accountKey db =
     (if accountKey = [] then Some (Inr None, db)
      else case map_of (bd_indexes db) accountKey of
        Some idx \<Rightarrow> Some (Inr (Some idx), touchBufferLogIndexLocked accountKey db)
      | None \<Rightarrow>
          (case buildBufferLogIndexForAccount accountKey db of
             (Inl e, db) \<Rightarrow> Some (Inl e, db)
           | (Inr built, db) \<Rightarrow> do {
               db \<leftarrow> cacheBufferLogIndexLocked accountKey built db;
               Some (Inr (Some built), db)
             }))"

definition index_record :: "bytes \<Rightarrow> bytes \<Rightarrow> bufferLogDiskIndexRecord \<Rightarrow> (bytes \<times> bufferLogEntryRef) list
    \<Rightarrow> bl_error + (bytes \<times> bufferLogEntryRef) list" where
  "index_record accountKey log rec entries =
     (case readBufferLogRecordRef log (br_logOffset rec) None of
        Inl e \<Rightarrow> Inl e
      | Inr None \<Rightarrow> Inl (BLRead UnexpectedEOF)
      | Inr (Some (key, ref)) \<Rightarrow>
          if bufferLogDiskIndexKeyHash accountKey key \<noteq> br_keyHash rec then Inl (BLRead UnexpectedEOF)
          else Inr (AList.update key ref entries))"

text \<open>The log does not change while the index is built, so that the two checks of its identity hold.\<close>

definition buildBufferLogIndexFromPhysicalIndex :: "bytes \<Rightarrow> buffer_db \<Rightarrow> bl_error + bufferLogAccountIndex option" where
  "buildBufferLogIndexFromPhysicalIndex accountKey db =
     (if accountKey = [] then Inr None
      else case bd_logs db accountKey of
        None \<Rightarrow> Inr (Some (new_index accountKey))
      | Some info \<Rightarrow>
          (case readBufferLogDiskIndexMetadataFull (bd_idxs db accountKey) of
             None \<Rightarrow> Inr None
           | Some meta \<Rightarrow>
               if bm_coveredEnd meta \<noteq> int (length (lf_data info)) then Inr None
               else if unat (bm_recordCount meta) > bufferLogIndexMaxEntries then Inr None
               else case forEachBufferLogDiskIndexRecord (the (bd_idxs db accountKey)) meta
                           (index_record accountKey (lf_data info)) [] of
                 Inl e \<Rightarrow> if e = BLRead UnexpectedEOF then Inr None else Inl e
               | Inr entries \<Rightarrow> Inr (Some (setFileIdentity (new_index accountKey \<lparr>bi_entries := entries\<rparr>) info))))"

definition maybePromoteBufferLogPhysicalIndex :: "bytes \<Rightarrow> int \<Rightarrow> buffer_db \<Rightarrow> buffer_db option" where
  "maybePromoteBufferLogPhysicalIndex accountKey logSize db =
     (if accountKey = [] \<or> logSize < int bufferLogIndexPromoteMinLogBytes then Some db
      else if map_of (bd_indexes db) accountKey \<noteq> None then Some db
      else case buildBufferLogIndexFromPhysicalIndex accountKey db of
        Inr (Some idx) \<Rightarrow> if bi_entries idx = [] then Some db else cacheBufferLogIndexLocked accountKey idx db
      | _ \<Rightarrow> Some db)"

text \<open>
  The two attempts of a read. An error that a stale handle or index can explain resets what is kept
  in memory of the account; the first attempt is then repeated, the second answers that the key is
  not in the log.
\<close>

definition log_size :: "bytes \<Rightarrow> buffer_db \<Rightarrow> int" where
  "log_size accountKey db = (case bd_logs db accountKey of None \<Rightarrow> 0 | Some info \<Rightarrow> int (length (lf_data info)))"

type_synonym read_answer = "((bl_error + bytes option) \<times> buffer_db) option"

definition retry :: "bl_error \<Rightarrow> bytes \<Rightarrow> buffer_db \<Rightarrow> (buffer_db \<Rightarrow> read_answer) \<Rightarrow> read_answer" where
  "retry e accountKey db again =
     (if isStaleBufferLogReadError e then again (resetBufferLogState accountKey db) else Some (Inl e, db))"

definition read_indexed :: "bytes \<Rightarrow> bytes \<Rightarrow> bufferLogAccountIndex \<Rightarrow> buffer_db \<Rightarrow> (buffer_db \<Rightarrow> read_answer) \<Rightarrow> read_answer" where
  "read_indexed accountKey storageKey idx db again =
     (case map_of (bi_entries idx) storageKey of
        None \<Rightarrow> Some (Inr None, db)
      | Some ref \<Rightarrow>
          if er_valueLen ref = 0 then Some (Inr (Some []), db)
          else case bd_logs db (bi_path idx) of
            None \<Rightarrow> retry BLNotExist accountKey db again
          | Some info \<Rightarrow>
              if \<not> matchesFile idx info then again (resetBufferLogState accountKey db)
              else case read_ref (lf_data info) ref of
                Inl e \<Rightarrow> retry e accountKey db again
              | Inr v \<Rightarrow> Some (Inr (Some v), db))"

definition read_by_index :: "bytes \<Rightarrow> bytes \<Rightarrow> buffer_db \<Rightarrow> (buffer_db \<Rightarrow> read_answer) \<Rightarrow> read_answer" where
  "read_by_index accountKey storageKey db again =
     (case readBufferLogValueByCachedIndex accountKey storageKey db of
        (Inl e, db) \<Rightarrow> retry e accountKey db again
      | (Inr ValueAbsent, db) \<Rightarrow> Some (Inr None, db)
      | (Inr (BufferValue v), db) \<Rightarrow> Some (Inr (Some v), db)
      | (Inr ValueUnused, db) \<Rightarrow>
          (case readBufferLogValueByDiskIndex accountKey storageKey db of
             Inl e \<Rightarrow> retry e accountKey db again
           | Inr ValueAbsent \<Rightarrow> do {
               db \<leftarrow> maybePromoteBufferLogPhysicalIndex accountKey (log_size accountKey db) db;
               Some (Inr None, db)
             }
           | Inr (BufferValue v) \<Rightarrow> do {
               db \<leftarrow> maybePromoteBufferLogPhysicalIndex accountKey (log_size accountKey db) db;
               Some (Inr (Some v), db)
             }
           | Inr ValueUnused \<Rightarrow> do {
               (r, db) \<leftarrow> getBufferLogIndex accountKey db;
               case r of
                 Inl e \<Rightarrow> retry e accountKey db again
               | Inr None \<Rightarrow> Some (Inr None, db)
               | Inr (Some idx) \<Rightarrow> read_indexed accountKey storageKey idx db again
             }))"

definition readBufferLogValueByIndex :: "bytes \<Rightarrow> bytes \<Rightarrow> buffer_db \<Rightarrow> read_answer" where
  "readBufferLogValueByIndex accountKey storageKey db =
     read_by_index accountKey storageKey db (\<lambda>db. read_by_index accountKey storageKey db (\<lambda>db. Some (Inr None, db)))"

definition bloom_rejects :: "bytes \<Rightarrow> bytes \<Rightarrow> buffer_db \<Rightarrow> (bl_error + bool) \<times> buffer_db" where
  "bloom_rejects accountKey storageKey db =
     (if bloom_maybeContains (bd_bloom db) accountKey storageKey then (Inr False, db)
      else if accountKey \<in> bd_loaded db then (Inr True, db)
      else case ensureBufferLogBloomForAccount accountKey db of
        (Inl e, db) \<Rightarrow> (Inl e, db)
      | (Inr loaded, db) \<Rightarrow> (Inr (loaded \<and> \<not> bloom_maybeContains (bd_bloom db) accountKey storageKey), db))"

definition readBufferLogValue :: "bytes \<Rightarrow> bytes \<Rightarrow> buffer_db \<Rightarrow> read_answer" where
  "readBufferLogValue accountKey storageKey db =
     (if accountKey = [] \<or> storageKey = [] then Some (Inr None, db)
      else case bloom_rejects accountKey storageKey db of
        (Inl e, db) \<Rightarrow> Some (Inl e, db)
      | (Inr True, db) \<Rightarrow> Some (Inr None, db)
      | (Inr False, db) \<Rightarrow> do {
          (r, db) \<leftarrow> bufferLogAccountFilterRejectsKey accountKey storageKey db;
          case r of
            Inl e \<Rightarrow> Some (Inl e, db)
          | Inr (decided, rejected) \<Rightarrow>
              if decided \<and> rejected then Some (Inr None, db)
              else do {
                (r, db) \<leftarrow> readBufferLogValueByIndex accountKey storageKey db;
                Some (r, case r of Inr (Some v) \<Rightarrow> markBufferLogAccessed accountKey storageKey v db | _ \<Rightarrow> db)
              }
        })"

section \<open>Opening\<close>

definition open_buffer :: "(bytes \<rightharpoonup> log_file) \<Rightarrow> (bytes \<rightharpoonup> bytes) \<Rightarrow> bytes list \<Rightarrow> buffer_db option" where
  "open_buffer logs idxs folders =
     (case (newAccountFolderFilter accountFolderBloomBitCount, newBufferLogBloom bufferLogBloomBitCount) of
        (Some f, Some b) \<Rightarrow> Some
          \<lparr>bd_logs = logs, bd_idxs = idxs, bd_folders = fold (\<lambda>a f. folder_add f a) folders f, bd_bloom = b, bd_loaded = {},
           bd_accessed = [], bd_indexes = [], bd_indexLRU = [], bd_indexEntryCount = 0,
           bd_filters = [], bd_filterLRU = [], bd_filterHashCount = 0\<rparr>
      | _ \<Rightarrow> None)"

end
