(* ===== verification/Buffer_Log_Index.thy ===== *)
theory Buffer_Log_Index
  imports Buffer_Log
begin

text \<open>
  The index file of a buffer log as the operations write it: rebuilt from the log, extended by an
  append, read back record by record, and the scan of a log that the rebuild starts with.
\<close>

section \<open>Bucket counts\<close>

lemma double_until_pow: "\<exists>j. double_until d (2 ^ i) = 2 ^ j \<and> ((2 :: nat) ^ j = 2 ^ i \<or> 2 ^ j < 2 * d)"
proof (induction "d - 2 ^ i" arbitrary: i rule: less_induct)
  case less
  show ?case
  proof (cases "2 ^ i < d")
    case True
    moreover have "d - 2 * x < d - x" if "0 < x" "x < d" for x :: nat using that by linarith
    ultimately have "d - 2 ^ Suc i < d - 2 ^ i" by simp
    from less [OF this] obtain j where "double_until d (2 ^ Suc i) = 2 ^ j" "(2::nat) ^ j = 2 ^ Suc i \<or> 2 ^ j < 2 * d" by auto
    with True show ?thesis by (subst double_until.simps) (auto intro!: exI [of _ j])
  next
    case False
    then show ?thesis by (subst double_until.simps) auto
  qed
qed

lemma pow_masks: "j < 64 \<Longrightarrow> (2 ^ j :: u64) AND (2 ^ j - 1) = 0"
proof -
  have "(2 ^ j :: u64) - 1 = mask j" by (simp add: mask_eq_exp_minus_1)
  moreover have "take_bit j (2 ^ j :: u64) = 0" by (rule bit_eqI) (simp add: bit_take_bit_iff bit_exp_iff)
  ultimately show ?thesis by (simp flip: take_bit_eq_mask)
qed

lemma pow_bucket_ok: "j \<le> 22 \<Longrightarrow> bucket_ok (2 ^ j)"
  using power_increasing [of j 22 "2 :: nat"] pow_masks [of j] by (simp add: bucket_ok_def)

lemma unat_pow: "j < 64 \<Longrightarrow> unat (2 ^ j :: u64) = 2 ^ j"
proof -
  assume "j < 64"
  then have "(2 :: nat) ^ j < 2 ^ 64" by (rule power_strict_increasing) simp
  then show ?thesis using unat_of_nat [of "2 ^ j", where 'a = 64] by simp
qed

lemma bucket_count_ok: "bucket_ok (unat (bufferLogDiskIndexBucketCountForRecords r))"
proof -
  define d where "d = unat ((r + bufferLogDiskIndexTargetChainLen - 1) div bufferLogDiskIndexTargetChainLen)"
  have "unat (r + bufferLogDiskIndexTargetChainLen - 1) < 2 ^ 64" using unsigned_less [of "r + bufferLogDiskIndexTargetChainLen - 1"] by simp
  then have d: "d < 2 ^ 60" by (simp add: d_def unat_div bufferLogDiskIndexTargetChainLen_def)
  obtain j where j: "double_until d (2 ^ 0) = 2 ^ j" "(2 :: nat) ^ j = 2 ^ 0 \<or> 2 ^ j < 2 * d" using double_until_pow by blast
  then have "(2 :: nat) ^ j < 2 ^ 61" using d by auto
  then have j61: "j < 61" by (rule power_less_imp_less_exp [rotated]) simp
  have w: "(of_nat (2 ^ j) :: u64) = 2 ^ j" by simp
  have cases: "bufferLogDiskIndexBucketCountForRecords r \<in> {2 ^ 10, 2 ^ 22} \<or>
      (bufferLogDiskIndexBucketCountForRecords r = 2 ^ j \<and> 2 ^ j \<le> (2 ^ 22 :: u64))"
    using j(1) by (auto simp: bufferLogDiskIndexBucketCountForRecords_def Let_def max_def min_def not_le simp flip: d_def
        simp: bufferLogDiskIndexMinBucketCount_def bufferLogDiskIndexMaxBucketCount_def)
  show ?thesis
  proof (cases "bufferLogDiskIndexBucketCountForRecords r \<in> {2 ^ 10, 2 ^ 22}")
    case True
    then show ?thesis using pow_bucket_ok [of 10] pow_bucket_ok [of 22] by auto
  next
    case False
    with cases have c: "bufferLogDiskIndexBucketCountForRecords r = 2 ^ j" "2 ^ j \<le> (2 ^ 22 :: u64)" by auto
    then have "(2 :: nat) ^ j \<le> 2 ^ 22" using j61 by (simp add: word_le_nat_alt unat_pow)
    then have "j \<le> 22" by (rule power_le_imp_le_exp [rotated]) simp
    then show ?thesis using pow_bucket_ok [of j] j61 by (simp add: c(1) unat_pow)
  qed
qed

section \<open>Writing an index file\<close>

lemma append_record: "appendBufferLogDiskIndexRecord payload h off prev =
    payload @ enc_record \<lparr>br_keyHash = h, br_logOffset = off, br_prevRecord = prev\<rparr>"
  by (simp add: appendBufferLogDiskIndexRecord_def enc_record_def)

lemma rebuild_loop_table:
  "length heads = n \<Longrightarrow> bucket_ok n \<Longrightarrow> i = length recs \<Longrightarrow>
   rebuild_loop (of_nat n) es i (concat (map enc_record recs), heads) =
     (concat (map enc_record (snd (fold chain_step es (heads, recs)))), fst (fold chain_step es (heads, recs)))"
proof (induction es arbitrary: heads recs i)
  case (Cons e es)
  obtain h off where e: "e = (h, off)" by (cases e)
  let ?b = "unat (h AND (of_nat n - 1) :: u64)"
  let ?r = "\<lparr>br_keyHash = h, br_logOffset = int off, br_prevRecord = heads ! ?b\<rparr>"
  have "rebuild_loop (of_nat n) (e # es) i (concat (map enc_record recs), heads) =
      rebuild_loop (of_nat n) es (Suc i) (concat (map enc_record (recs @ [?r])), heads[?b := of_nat (Suc (length recs))])"
    using Cons.prems(3) by (simp add: e append_record Let_def)
  also have "\<dots> = (concat (map enc_record (snd (fold chain_step (e # es) (heads, recs)))), fst (fold chain_step (e # es) (heads, recs)))"
    using Cons.prems by (subst Cons.IH) (simp_all add: e bucket_of_def Let_def)
  finally show ?case .
qed simp

lemma concat_heads_update:
  assumes "b < length hs" "length pre = 40"
  shows "writeAt (pre @ concat (map PutUint64 hs) @ post) (40 + int b * 8) (PutUint64 w) =
    Inr (pre @ concat (map PutUint64 (hs[b := w])) @ post)"
proof -
  have "length (concat (map PutUint64 (take b hs))) = b * 8" using assms(1) by (simp add: length_concat_map [where w = 8])
  then have "writeAt ((pre @ concat (map PutUint64 (take b hs))) @ PutUint64 (hs ! b) @ (concat (map PutUint64 (drop (Suc b) hs)) @ post))
      (40 + int b * 8) (PutUint64 w) =
    Inr ((pre @ concat (map PutUint64 (take b hs))) @ PutUint64 w @ (concat (map PutUint64 (drop (Suc b) hs)) @ post))"
    using assms(2) by (intro writeAt_mid [OF refl]) simp_all
  moreover have "concat (map PutUint64 hs) = concat (map PutUint64 (take b hs)) @ PutUint64 (hs ! b) @ concat (map PutUint64 (drop (Suc b) hs))"
    by (subst id_take_nth_drop [OF assms(1)]) simp
  moreover have "concat (map PutUint64 (hs[b := w])) = concat (map PutUint64 (take b hs)) @ PutUint64 w @ concat (map PutUint64 (drop (Suc b) hs))"
    using assms(1) by (simp add: upd_conv_take_nth_drop)
  ultimately show ?thesis by simp
qed

lemma write_all_heads:
  assumes "length pre = 40" "length old = length hs" "hs \<noteq> []"
  shows "writeBufferLogDiskIndexBucketHeads (pre @ concat (map PutUint64 old) @ post) hs =
    Inr (pre @ concat (map PutUint64 hs) @ post)"
  using assms writeAt_mid [OF refl, of "int (length pre)" pre "concat (map PutUint64 hs)" "concat (map PutUint64 old)" post]
  by (simp add: writeBufferLogDiskIndexBucketHeads_def index_sizes length_concat_map [where w = 8])

lemma write_first_heads:
  "length pre = 40 \<Longrightarrow> hs \<noteq> [] \<Longrightarrow> writeBufferLogDiskIndexBucketHeads pre hs = Inr (pre @ concat (map PutUint64 hs))"
  using writeAt_end [of pre "concat (map PutUint64 hs)"] by (simp add: writeBufferLogDiskIndexBucketHeads_def index_sizes)

lemma write_header:
  "length pre = 40 \<Longrightarrow> length h = 40 \<Longrightarrow> writeAt (pre @ post) 0 h = Inr (h @ post)"
  using writeAt_mid [of "pre @ post" "[]" pre post 0 h] by simp

lemma rebuilt_file_index:
  fixes es :: "(u64 \<times> nat) list"
  defines "n \<equiv> unat (bufferLogDiskIndexBucketCountForRecords (of_nat (length es)))"
  shows "rebuilt_file es (int cov) = Inr (index_bytes cov n es)"
proof -
  let ?c = "bufferLogDiskIndexBucketCountForRecords (of_nat (length es))"
  let ?t = "table n es"
  have n: "bucket_ok n" unfolding n_def by (rule bucket_count_ok)
  have c: "?c = of_nat n" by (simp add: n_def)
  have len: "length (concat (map PutUint64 (replicate n (0 :: u64)))) = n * 8" by (simp add: length_concat sum_list_replicate)
  have pos: "replicate n (0 :: u64) \<noteq> []" "fst ?t \<noteq> []"
    using n length_table(1) [of n es] by (auto simp: bucket_ok_def simp del: length_table)
  have u: "uint (of_nat n :: u64) = int n" using bucket_word [OF n] by (metis uint_nat)
  have loop: "rebuild_loop (of_nat n) es 0 ([], replicate n 0) = (concat (map enc_record (snd ?t)), fst ?t)"
    using rebuild_loop_table [of "replicate n 0" n 0 "[]" es] n by (simp add: table_def)
  define h0 h1 where "h0 = bufferLogDiskIndexHeader 0 0 (of_nat n)"
    and "h1 = bufferLogDiskIndexHeader (int cov) (of_nat (length es)) (of_nat n)"
  have h: "length h0 = 40" "length h1 = 40" by (simp_all add: h0_def h1_def)
  have w: "writeAt (h0 @ concat (map PutUint64 (replicate n 0))) (40 + int n * 8) (concat (map enc_record (snd ?t))) =
      Inr ((h0 @ concat (map PutUint64 (replicate n 0))) @ concat (map enc_record (snd ?t)))"
    using writeAt_end [of "h0 @ concat (map PutUint64 (replicate n 0))"] h(1) len by simp
  show ?thesis
    unfolding rebuilt_file_def c Let_def u index_sizes of_nat_numeral
    using write_first_heads [OF h(1) pos(1)] w write_all_heads [OF h(1) _ pos(2), of "replicate n 0" "concat (map enc_record (snd ?t))"]
      write_header [OF h, of "concat (map PutUint64 (fst ?t)) @ concat (map enc_record (snd ?t))"] bucket_word [OF n]
    by (simp add: loop index_bytes_def flip: h0_def h1_def)
qed

section \<open>Extending an index file\<close>

lemma length_fold_chain: "length (fst (fold chain_step es t)) = length (fst t)"
    "length (snd (fold chain_step es t)) = length (snd t) + length es"
  by (induction es arbitrary: t) (simp_all add: length_chain_step)

definition kv_hashes :: "bytes \<Rightarrow> nat \<Rightarrow> kvPair list \<Rightarrow> (u64 \<times> nat) list" where
  "kv_hashes a c kvs = hashed (bufferLogDiskIndexKeyHash a) (keyed c (rec_items kvs))"

lemma kv_hashes_Cons:
  "kv_hashes a c (kv # kvs) =
     (if fst kv = [] then [] else [(bufferLogDiskIndexKeyHash a (fst kv), c)]) @ kv_hashes a (c + entry_bytes kv) kvs"
  by (cases kv) (simp add: kv_hashes_def rec_items_def hashed_def)

lemma payload_loop_table:
  assumes n: "bucket_ok n"
  shows "length heads = n \<Longrightarrow> c0 \<le> length recs \<Longrightarrow> (\<forall>b \<in> set T. unat b < n) \<Longrightarrow>
    \<exists>T'. payload_loop a (of_nat c0) kvs (int c) (concat (map enc_record (drop c0 recs)), of_nat (length recs - c0), T, heads) =
        (concat (map enc_record (drop c0 (snd (fold chain_step (kv_hashes a c kvs) (heads, recs))))),
         of_nat (length recs + length (kv_hashes a c kvs) - c0), T', fst (fold chain_step (kv_hashes a c kvs) (heads, recs)))
      \<and> set T \<subseteq> set T' \<and> (\<forall>b \<in> set T'. unat b < n)
      \<and> (\<forall>i. i \<notin> unat ` set T' \<longrightarrow> fst (fold chain_step (kv_hashes a c kvs) (heads, recs)) ! i = heads ! i)"
proof (induction kvs arbitrary: c T heads recs)
  case Nil
  then show ?case by (auto simp: kv_hashes_def rec_items_def hashed_def)
next
  case (Cons kv kvs)
  show ?case
  proof (cases "fst kv = []")
    case True
    with Cons.IH [OF Cons.prems, of "c + entry_bytes kv"] show ?thesis by (simp add: kv_hashes_Cons Let_def)
  next
    case False
    define h where "h = bufferLogDiskIndexKeyHash a (fst kv)"
    define b where "b = (h AND (of_nat n - 1) :: u64)"
    define r where "r = \<lparr>br_keyHash = h, br_logOffset = int c, br_prevRecord = heads ! unat b\<rparr>"
    define T1 where "T1 = (if b \<in> set T then T else T @ [b])"
    define heads1 where "heads1 = heads[unat b := of_nat (Suc (length recs))]"
    have bl: "unat b < n" unfolding b_def using n bucket_word [OF n] by (intro masked_bucket) (auto simp: bucket_ok_def)
    have num: "of_nat c0 + (of_nat (length recs - c0) + 1) = (of_nat (Suc (length recs)) :: u64)"
        "of_nat (length recs - c0) + 1 = (of_nat (length (recs @ [r]) - c0) :: u64)"
      using Cons.prems(2) by (simp_all add: of_nat_diff)
    have step: "payload_loop a (of_nat c0) (kv # kvs) (int c) (concat (map enc_record (drop c0 recs)), of_nat (length recs - c0), T, heads) =
        payload_loop a (of_nat c0) kvs (int (c + entry_bytes kv))
          (concat (map enc_record (drop c0 (recs @ [r]))), of_nat (length (recs @ [r]) - c0), T1, heads1)"
      using False Cons.prems(1,2) unfolding num(2) [symmetric]
      by (simp add: Let_def append_record num(1) T1_def heads1_def b_def r_def h_def add.commute [of 1])
    have chain: "chain_step (h, c) (heads, recs) = (heads1, recs @ [r])"
      using Cons.prems(1) by (simp add: Let_def heads1_def r_def b_def bucket_of_def del: of_nat_Suc)
    have prems: "length heads1 = n" "c0 \<le> length (recs @ [r])" "\<forall>x \<in> set T1. unat x < n"
      using Cons.prems bl by (auto simp: heads1_def T1_def)
    let ?f = "fold chain_step (kv_hashes a (c + entry_bytes kv) kvs) (heads1, recs @ [r])"
    have eq: "fold chain_step (kv_hashes a c (kv # kvs)) (heads, recs) = ?f"
        "length recs + length (kv_hashes a c (kv # kvs)) = length (recs @ [r]) + length (kv_hashes a (c + entry_bytes kv) kvs)"
      using False by (simp_all add: kv_hashes_Cons chain del: chain_step.simps flip: h_def)
    from Cons.IH [OF prems, of "c + entry_bytes kv"] obtain T' where
      T': "payload_loop a (of_nat c0) kvs (int (c + entry_bytes kv))
            (concat (map enc_record (drop c0 (recs @ [r]))), of_nat (length (recs @ [r]) - c0), T1, heads1) =
          (concat (map enc_record (drop c0 (snd ?f))), of_nat (length (recs @ [r]) + length (kv_hashes a (c + entry_bytes kv) kvs) - c0), T', fst ?f)"
        "set T1 \<subseteq> set T'" "\<forall>b \<in> set T'. unat b < n" "\<forall>i. i \<notin> unat ` set T' \<longrightarrow> fst ?f ! i = heads1 ! i"
      by blast
    have "\<forall>i. i \<notin> unat ` set T' \<longrightarrow> fst ?f ! i = heads ! i"
    proof (intro allI impI)
      fix i assume i: "i \<notin> unat ` set T'"
      then have "i \<noteq> unat b" using T'(2) by (auto simp: T1_def split: if_splits)
      with T'(4) i show "fst ?f ! i = heads ! i" by (simp add: heads1_def)
    qed
    moreover have "set T \<subseteq> set T'" using T'(2) by (auto simp: T1_def split: if_splits)
    ultimately show ?thesis unfolding step eq using T'(1,3) by blast
  qed
qed

lemma write_touched_heads:
  assumes "length pre = 40"
  shows "length old = length hs \<Longrightarrow> (\<forall>b \<in> set T. unat b < length hs) \<Longrightarrow>
    write_touched hs T (pre @ concat (map PutUint64 old) @ post) =
      Inr (pre @ concat (map PutUint64 (fold (\<lambda>b o'. o'[unat b := hs ! unat b]) T old)) @ post)"
proof (induction T arbitrary: old)
  case (Cons b T)
  have "writeAt (pre @ concat (map PutUint64 old) @ post) (40 + uint b * 8) (PutUint64 (hs ! unat b)) =
      Inr (pre @ concat (map PutUint64 (old[unat b := hs ! unat b])) @ post)"
    using concat_heads_update [of "unat b" old pre post "hs ! unat b"] Cons.prems assms by simp
  then show ?case using Cons.IH [of "old[unat b := hs ! unat b]"] Cons.prems by (simp add: index_sizes)
qed simp

lemma fold_update_agrees:
  "length old = length hs \<Longrightarrow> (\<forall>i < length hs. i \<notin> unat ` set T \<longrightarrow> hs ! i = old ! i) \<Longrightarrow>
   fold (\<lambda>b o'. o'[unat b := hs ! unat b]) T old = (hs :: u64 list)"
proof (induction T arbitrary: old)
  case Nil
  then show ?case by (auto intro: nth_equalityI)
next
  case (Cons b T)
  have "\<forall>i < length hs. i \<notin> unat ` set T \<longrightarrow> hs ! i = old[unat b := hs ! unat b] ! i"
  proof (intro allI impI)
    fix i assume "i < length hs" "i \<notin> unat ` set T"
    then show "hs ! i = old[unat b := hs ! unat b] ! i"
      using Cons.prems by (cases "i = unat b") auto
  qed
  with Cons show ?case by simp
qed

lemma write_touched_index:
  assumes "length pre = 40" "length old = length hs" "hs \<noteq> []"
    and "\<forall>b \<in> set T. unat b < length hs" "\<forall>i < length hs. i \<notin> unat ` set T \<longrightarrow> hs ! i = old ! i"
  shows "writeBufferLogDiskIndexTouchedBucketHeads (pre @ concat (map PutUint64 old) @ post) hs T =
    Inr (pre @ concat (map PutUint64 hs) @ post)"
  using assms(3) write_all_heads [OF assms(1-3)] write_touched_heads [OF assms(1,2,4)] fold_update_agrees [OF assms(2,5)]
  by (cases "T = []") (simp_all add: writeBufferLogDiskIndexTouchedBucketHeads_def)

lemma word_of_nat_neq: "0 < m \<Longrightarrow> m < 2 ^ 64 \<Longrightarrow> (of_nat m :: u64) \<noteq> 0"
proof
  assume "0 < m" "m < 2 ^ 64" "(of_nat m :: u64) = 0"
  moreover from this(2) have "unat (of_nat m :: u64) = m" by (simp add: unat_of_nat)
  ultimately show False by simp
qed

lemma table_append: "table n (es @ fs) = fold chain_step fs (table n es)"
  by (simp add: table_def)

lemma fold_chain_prefix: "\<exists>rs. snd (fold chain_step es t) = snd t @ rs"
proof (induction es arbitrary: t)
  case (Cons e es)
  obtain h off where "e = (h, off)" by (cases e)
  then obtain r where "snd (chain_step e t) = snd t @ [r]" by (cases t) (simp add: Let_def)
  with Cons [of "chain_step e t"] show ?case by auto
qed simp

lemma records_split:
  "snd (table n (es @ fs)) = snd (table n es) @ drop (length es) (snd (table n (es @ fs)))"
  using fold_chain_prefix [of fs "table n es"] by (auto simp: table_append)

lemma extend_index_table:
  fixes a :: bytes and kvs :: "kvPair list" and c n :: nat and es :: "(u64 \<times> nat) list"
  defines "new \<equiv> kv_hashes a c kvs"
  assumes n: "bucket_ok n" and new: "new \<noteq> []" and len: "length es + length new < 2 ^ 63" and hdr: "length hdr = 40"
    and meta: "bm_recordCount meta = of_nat (length es)" "bm_bucketCount meta = of_nat n" "bm_recordsOffset meta = 40 + 8 * int n"
  shows "extend_index a (int c) (int cov) kvs meta (fst (table n es))
      (hdr @ concat (map PutUint64 (fst (table n es))) @ concat (map enc_record (snd (table n es)))) = Inr (index_bytes cov n (es @ new))"
proof -
  let ?t = "table n es" and ?t' = "table n (es @ new)"
  let ?add = "drop (length es) (snd ?t')"
  define f where "f = hdr @ concat (map PutUint64 (fst ?t)) @ concat (map enc_record (snd ?t))"
  have ne: "fst ?t \<noteq> []" "fst ?t' \<noteq> []" "?add \<noteq> []"
    using n new length_table(1) [of n es] length_table(1) [of n "es @ new"] by (auto simp: bucket_ok_def simp del: length_table(1))
  have t': "fold chain_step new (fst ?t, snd ?t) = ?t'" by (simp only: table_append prod.collapse)
  obtain T where T: "buildBufferLogDiskIndexPayload a (int c) kvs (fst ?t) (of_nat (length es)) =
        (concat (map enc_record ?add), of_nat (length new), T, fst ?t')"
      "\<forall>b \<in> set T. unat b < n" "\<forall>i. i \<notin> unat ` set T \<longrightarrow> fst ?t' ! i = fst ?t ! i"
    using payload_loop_table [OF n, of "fst ?t" "length es" "snd ?t" "[]" a kvs c] ne(1)
    by (auto simp: buildBufferLogDiskIndexPayload_def t' [simplified] simp flip: new_def)
  have cnt: "unat (of_nat (length es) :: u64) = length es" "(of_nat (length new) :: u64) \<noteq> 0"
    using len new word_of_nat_neq [of "length new"] by (auto simp: unat_of_nat)
  have off: "40 + 8 * int n + uint (of_nat (length es) :: u64) * 24 = int (length f)"
  proof -
    have "uint (of_nat (length es) :: u64) = int (length es)" using cnt(1) by (metis uint_nat)
    then show ?thesis using hdr
      by (simp add: f_def length_concat_map [where w = 8] length_concat_map [where w = 24])
  qed
  have w1: "writeAt f (40 + 8 * int n + uint (of_nat (length es) :: u64) * 24) (concat (map enc_record ?add)) =
      Inr (hdr @ concat (map PutUint64 (fst ?t)) @ concat (map enc_record (snd ?t')))"
    unfolding off writeAt_end by (subst records_split [of n es new]) (simp add: f_def)
  have w2: "writeBufferLogDiskIndexTouchedBucketHeads (hdr @ concat (map PutUint64 (fst ?t)) @ concat (map enc_record (snd ?t'))) (fst ?t') T =
      Inr (hdr @ concat (map PutUint64 (fst ?t')) @ concat (map enc_record (snd ?t')))"
    using T(2,3) ne by (intro write_touched_index [OF hdr]) simp_all
  have w3: "writeAt (hdr @ concat (map PutUint64 (fst ?t')) @ concat (map enc_record (snd ?t'))) 0
        (bufferLogDiskIndexHeader (int cov) (of_nat (length es) + of_nat (length new)) (of_nat n)) = Inr (index_bytes cov n (es @ new))"
    using write_header [OF hdr] by (simp add: index_bytes_def)
  have "length (concat (map enc_record ?add)) = length ?add * 24" by (simp add: length_concat_map [where w = 24])
  with ne(3) have pl: "concat (map enc_record ?add) \<noteq> []" by (metis length_0_conv list.size(3) mult_is_0 zero_neq_numeral)
  show ?thesis
    unfolding extend_index_def meta T(1) Let_def prod.case index_sizes of_nat_numeral
    using pl cnt(2) by (simp add: w1 w2 w3 del: concat_eq_Nil_conv flip: f_def)
qed

lemma read_heads_concat: "read_heads (concat (map PutUint64 hs)) (length hs) = hs"
  by (induction hs) (simp_all add: index_sizes)

lemma read_heads_index:
  assumes n: "bucket_ok n"
  shows "readBufferLogDiskIndexBucketHeads (index_bytes cov n es) (index_meta cov n es) = Inr (fst (table n es))"
proof -
  let ?hs = "fst (table n es)"
  have u: "unat (of_nat n :: u64) = n" using bucket_word [OF n] by simp
  have nz: "(of_nat n :: u64) \<noteq> 0" using n u by (metis bucket_ok_def less_irrefl unat_0)
  have "readAt (index_bytes cov n es) 40 (n * 8) = Inr (concat (map PutUint64 ?hs))"
    by (rule readAt_mid [of _ "bufferLogDiskIndexHeader (int cov) (of_nat (length es)) (of_nat n)" _ "concat (map enc_record (snd (table n es)))"])
      (simp_all add: index_bytes_def length_concat_map [where w = 8])
  then show ?thesis
    using read_heads_concat [of ?hs] nz
    by (simp add: readBufferLogDiskIndexBucketHeads_def index_meta_def index_sizes u)
qed

lemma each_record_fold:
  "(\<And>rec s. rec \<in> set recs \<Longrightarrow> fn rec s = Inr (g rec s)) \<Longrightarrow>
   (\<forall>rec \<in> set recs. - (2 ^ 63) \<le> br_logOffset rec \<and> br_logOffset rec < 2 ^ 63) \<Longrightarrow>
   each_record fn (concat (map enc_record recs)) (length recs) s = Inr (fold g recs s)"
  by (induction recs arbitrary: s) (simp_all add: index_sizes decode_enc_record)

lemma forEach_index:
  assumes n: "bucket_ok n" and len: "length es < 2 ^ 63" and offs: "\<forall>e \<in> set es. snd e < 2 ^ 63"
    and fn: "\<And>rec s. rec \<in> set (snd (table n es)) \<Longrightarrow> fn rec s = Inr (g rec s)"
  shows "forEachBufferLogDiskIndexRecord (index_bytes cov n es) (index_meta cov n es) fn s = Inr (fold g (snd (table n es)) s)"
proof -
  have u: "unat (of_nat (length es) :: u64) = length es" using len by (simp add: unat_of_nat)
  have d: "drop (40 + 8 * n) (index_bytes cov n es) = concat (map enc_record (snd (table n es)))"
    by (simp add: index_bytes_def length_concat_map [where w = 8])
  have o: "\<forall>rec \<in> set (snd (table n es)). - (2 ^ 63) \<le> br_logOffset rec \<and> br_logOffset rec < 2 ^ 63"
  proof
    fix rec assume "rec \<in> set (snd (table n es))"
    then obtain i where "i < length es" "rec = snd (table n es) ! i" by (auto simp: in_set_conv_nth)
    with offs show "- (2 ^ 63) \<le> br_logOffset rec \<and> br_logOffset rec < 2 ^ 63" by (simp add: table_offset)
  qed
  have "nat (40 + 8 * int n) = 40 + 8 * n" by simp
  then show ?thesis
    using each_record_fold [of "snd (table n es)" fn g s, OF fn o]
    by (simp add: forEachBufferLogDiskIndexRecord_def index_meta_def u index_sizes d Let_def length_concat_map [where w = 24])
qed

section \<open>Scanning a log\<close>

lemma scan_log_items:
  "\<forall>it \<in> set items. item_ok it \<Longrightarrow>
   \<exists>rs. scan_log (pre @ fwd_log items) (length pre) = Inr rs \<and> [r \<leftarrow> rs. fst r \<noteq> []] = keyed (length pre) items"
proof (induction items arbitrary: pre)
  case Nil
  then show ?case by (simp add: scan_log.simps)
next
  case (Cons it items)
  have s: "forward_step (pre @ fwd_log (it # items)) (length pre) = Some (it, length pre + length (fwd_enc it))"
    using forward_step_enc [of it pre "fwd_log items"] Cons.prems by simp
  obtain rs where "scan_log ((pre @ fwd_enc it) @ fwd_log items) (length (pre @ fwd_enc it)) = Inr rs"
      "[r \<leftarrow> rs. fst r \<noteq> []] = keyed (length (pre @ fwd_enc it)) items"
    using Cons.IH [of "pre @ fwd_enc it"] Cons.prems by auto
  then show ?case
    using s fwd_enc_pos [of it] by (subst scan_log.simps) (cases it; simp del: fwd_enc.simps)
qed

lemma scan_whole_log:
  "\<forall>it \<in> set items. item_ok it \<Longrightarrow> \<exists>rs. scan_log (fwd_log items) 0 = Inr rs \<and> [r \<leftarrow> rs. fst r \<noteq> []] = keyed 0 items"
  using scan_log_items [of items "[]"] by simp

lemma fold_update_refs:
  "map_of (fold (\<lambda>e. AList.update (fst e) (entry_ref e)) ks es) = map_of es ++ refs ks"
proof (induction ks rule: rev_induct)
  case (snoc e ks)
  then show ?case by (auto simp: AList.update_conv refs_snoc map_add_def split: option.splits)
qed (simp add: refs_def)

lemma add_refs_keyed:
  "add_refs (int c) kvs es = fold (\<lambda>e. AList.update (fst e) (entry_ref e)) (keyed c (rec_items kvs)) es"
proof (induction kvs arbitrary: c es)
  case (Cons kv kvs)
  obtain k v where kv: "kv = (k, v)" by (cases kv)
  have "add_refs (int c) (kv # kvs) es =
      add_refs (int (c + entry_bytes kv)) kvs (if k = [] then es else AList.update k (entry_ref (k, c, v)) es)"
    by (simp add: kv add.assoc)
  also have "\<dots> = fold (\<lambda>e. AList.update (fst e) (entry_ref e)) (keyed c (rec_items (kv # kvs))) es"
    unfolding Cons.IH by (simp add: kv rec_items_def)
  finally show ?case .
qed (simp add: rec_items_def)

end
