(* ===== verification/Buffer_Log_Caches.thy ===== *)
theory Buffer_Log_Caches
  imports Buffer_Log
begin

text \<open>
  The two caches of the buffer logs: the indexes and the filters of accounts, each with a list of
  recency. The invariant is that the list holds every cached account once and no other. Under it
  the eviction loops end, since every round removes an account from the list, and every operation
  of the buffer logs returns and keeps it, whatever the files hold.
\<close>

section \<open>Lists of recency\<close>

definition list_ok :: "bytes list \<Rightarrow> (bytes \<rightharpoonup> 'a) \<Rightarrow> bool" where
  "list_ok lru m \<longleftrightarrow> distinct lru \<and> set lru = dom m \<and> [] \<notin> dom m"

abbreviation indexes_listed :: "buffer_db \<Rightarrow> bool" where
  "indexes_listed db \<equiv> list_ok (bd_indexLRU db) (map_of (bd_indexes db))"

abbreviation filters_listed :: "buffer_db \<Rightarrow> bool" where
  "filters_listed db \<equiv> list_ok (bd_filterLRU db) (map_of (bd_filters db))"

lemma list_ok_delete: "list_ok l (map_of xs) \<Longrightarrow> list_ok (remove1 a l) (map_of (AList.delete a xs))"
  by (auto simp: list_ok_def AList.delete_conv')

lemma list_ok_absent: "list_ok l m \<Longrightarrow> m a = None \<Longrightarrow> remove1 a l = l"
  by (auto simp: list_ok_def intro: remove1_idem)

lemma list_ok_touch: "list_ok l m \<Longrightarrow> m a \<noteq> None \<Longrightarrow> list_ok (a # remove1 a l) m"
  by (auto simp: list_ok_def)

lemma list_ok_update: "list_ok l (map_of xs) \<Longrightarrow> a \<noteq> [] \<Longrightarrow> list_ok (a # remove1 a l) (map_of (AList.update a x xs))"
  by (auto simp: list_ok_def AList.update_conv' split: if_splits)

lemma list_ok_member: "list_ok l m \<Longrightarrow> a \<in> set l \<Longrightarrow> a \<noteq> [] \<and> m a \<noteq> None"
  by (auto simp: list_ok_def)

lemma map_le_delete: "map_of (AList.delete a xs) \<subseteq>\<^sub>m map_of xs"
  by (auto simp: map_le_def AList.delete_conv')

lemma length_remove1_less: "x \<in> set xs \<Longrightarrow> length (remove1 x xs) < length xs"
  using length_pos_if_in_set [of x xs] by (simp add: length_remove1)

section \<open>What the operations on the caches touch\<close>

text \<open>
  An operation on the cache of indexes changes nothing else, invents no index and leaves the list of
  recency in order; likewise for the filters.
\<close>

definition within_indexes :: "(bytes \<rightharpoonup> bufferLogAccountIndex) \<Rightarrow> buffer_db \<Rightarrow> buffer_db \<Rightarrow> bool" where
  "within_indexes m db db' \<longleftrightarrow>
     (\<exists>x y z. db' = db\<lparr>bd_indexes := x, bd_indexLRU := y, bd_indexEntryCount := z\<rparr> \<and> map_of x \<subseteq>\<^sub>m m \<and> list_ok y (map_of x))"

definition within_filters :: "(bytes \<rightharpoonup> bufferLogAccountKeyFilter) \<Rightarrow> buffer_db \<Rightarrow> buffer_db \<Rightarrow> bool" where
  "within_filters m db db' \<longleftrightarrow>
     (\<exists>x y z. db' = db\<lparr>bd_filters := x, bd_filterLRU := y, bd_filterHashCount := z\<rparr> \<and> map_of x \<subseteq>\<^sub>m m \<and> list_ok y (map_of x))"

lemma within_indexesI:
  "map_of x \<subseteq>\<^sub>m m \<Longrightarrow> list_ok y (map_of x) \<Longrightarrow> within_indexes m db (db\<lparr>bd_indexes := x, bd_indexLRU := y, bd_indexEntryCount := z\<rparr>)"
  unfolding within_indexes_def by blast

lemma within_filtersI:
  "map_of x \<subseteq>\<^sub>m m \<Longrightarrow> list_ok y (map_of x) \<Longrightarrow> within_filters m db (db\<lparr>bd_filters := x, bd_filterLRU := y, bd_filterHashCount := z\<rparr>)"
  unfolding within_filters_def by blast

lemma within_indexes_listed: "within_indexes m db db' \<Longrightarrow> indexes_listed db'"
  by (auto simp: within_indexes_def)

lemma within_filters_listed: "within_filters m db db' \<Longrightarrow> filters_listed db'"
  by (auto simp: within_filters_def)

lemma within_indexes_trans:
  assumes "within_indexes m db db'" "within_indexes m' db' db''" "m' = map_of (bd_indexes db') \<or> m' \<subseteq>\<^sub>m m"
  shows "within_indexes m db db''"
proof -
  obtain x y z where 1: "db' = db\<lparr>bd_indexes := x, bd_indexLRU := y, bd_indexEntryCount := z\<rparr>" "map_of x \<subseteq>\<^sub>m m"
    using assms(1) by (auto simp: within_indexes_def)
  obtain x' y' z' where 2: "db'' = db'\<lparr>bd_indexes := x', bd_indexLRU := y', bd_indexEntryCount := z'\<rparr>" "map_of x' \<subseteq>\<^sub>m m'" "list_ok y' (map_of x')"
    using assms(2) by (auto simp: within_indexes_def)
  have "db'' = db\<lparr>bd_indexes := x', bd_indexLRU := y', bd_indexEntryCount := z'\<rparr>" using 1(1) 2(1) by simp
  moreover have "map_of x' \<subseteq>\<^sub>m m" using 1 2(2) assms(3) by (auto intro: map_le_trans)
  ultimately show ?thesis unfolding within_indexes_def using 2(3) by blast
qed

lemma within_filters_trans:
  assumes "within_filters m db db'" "within_filters m' db' db''" "m' = map_of (bd_filters db') \<or> m' \<subseteq>\<^sub>m m"
  shows "within_filters m db db''"
proof -
  obtain x y z where 1: "db' = db\<lparr>bd_filters := x, bd_filterLRU := y, bd_filterHashCount := z\<rparr>" "map_of x \<subseteq>\<^sub>m m"
    using assms(1) by (auto simp: within_filters_def)
  obtain x' y' z' where 2: "db'' = db'\<lparr>bd_filters := x', bd_filterLRU := y', bd_filterHashCount := z'\<rparr>" "map_of x' \<subseteq>\<^sub>m m'" "list_ok y' (map_of x')"
    using assms(2) by (auto simp: within_filters_def)
  have "db'' = db\<lparr>bd_filters := x', bd_filterLRU := y', bd_filterHashCount := z'\<rparr>" using 1(1) 2(1) by simp
  moreover have "map_of x' \<subseteq>\<^sub>m m" using 1 2(2) assms(3) by (auto intro: map_le_trans)
  ultimately show ?thesis unfolding within_filters_def using 2(3) by blast
qed

lemma within_indexes_more: "within_indexes m db db' \<Longrightarrow> map_of (bd_indexes db') \<subseteq>\<^sub>m m' \<Longrightarrow> within_indexes m' db db'"
  unfolding within_indexes_def by (elim exE conjE) (intro exI conjI; simp)

lemma within_filters_more: "within_filters m db db' \<Longrightarrow> map_of (bd_filters db') \<subseteq>\<^sub>m m' \<Longrightarrow> within_filters m' db db'"
  unfolding within_filters_def by (elim exE conjE) (intro exI conjI; simp)

lemma within_indexes_comp: "within_indexes m db d \<Longrightarrow> within_indexes m' d d' \<Longrightarrow> within_indexes m' db d'"
  unfolding within_indexes_def by (elim exE conjE) (intro exI conjI; simp)

section \<open>The cache of indexes\<close>

lemma within_indexes_refl: "indexes_listed db \<Longrightarrow> within_indexes (map_of (bd_indexes db)) db db"
  using within_indexesI [OF map_le_refl, where x = "bd_indexes db" and db = db and y = "bd_indexLRU db" and z = "bd_indexEntryCount db"] by simp

lemma touch_index_within:
  "indexes_listed db \<Longrightarrow> map_of (bd_indexes db) a \<noteq> None \<Longrightarrow> within_indexes (map_of (bd_indexes db)) db (touchBufferLogIndexLocked a db)"
  using within_indexesI [OF map_le_refl list_ok_touch, where x = "bd_indexes db" and db = db and z = "bd_indexEntryCount db"]
  by (simp add: touchBufferLogIndexLocked_def)

lemma remove_index_parts:
  assumes "indexes_listed db" "a \<noteq> []"
  shows "bd_indexes (removeBufferLogIndexLocked a db) = AList.delete a (bd_indexes db)"
    "bd_indexLRU (removeBufferLogIndexLocked a db) = remove1 a (bd_indexLRU db)"
  using assms list_ok_absent [OF assms(1), of a]
  by (auto simp: removeBufferLogIndexLocked_def delete_id map_of_eq_None_iff split: option.split)

lemma remove_index_within:
  assumes "indexes_listed db"
  shows "within_indexes (map_of (bd_indexes db)) db (removeBufferLogIndexLocked a db)"
  using within_indexes_refl [OF assms] within_indexesI [OF map_le_delete list_ok_delete [OF assms, of a], where db = db]
  by (cases db) (auto simp: removeBufferLogIndexLocked_def split: option.splits)

text \<open>The loop that enforces the budget ends: every round removes the last account from the list.\<close>

lemma enforce_within:
  assumes "indexes_listed db"
  shows "\<exists>db'. enforceBufferLogIndexBudgetLocked x y db = Some db' \<and> within_indexes (map_of (bd_indexes db)) db db'"
  using assms
proof (induction "length (bd_indexLRU db)" arbitrary: db rule: less_induct)
  case less
  show ?case
  proof (cases "bd_indexLRU db = []")
    case True
    then show ?thesis using within_indexes_refl [OF less.prems] by (subst enforceBufferLogIndexBudgetLocked.simps) simp
  next
    case False
    let ?a = "last (bd_indexLRU db)"
    let ?d = "removeBufferLogIndexLocked ?a db"
    have a: "?a \<in> set (bd_indexLRU db)" "?a \<noteq> []" using False list_ok_member [OF less.prems] by auto
    then have "length (bd_indexLRU ?d) < length (bd_indexLRU db)"
      using remove_index_parts(2) [OF less.prems a(2)] length_remove1_less by simp
    note removed = remove_index_within [OF less.prems, of ?a]
    obtain db' where "enforceBufferLogIndexBudgetLocked x y ?d = Some db'" "within_indexes (map_of (bd_indexes ?d)) ?d db'"
      using less.hyps [OF \<open>length _ < _\<close> within_indexes_listed [OF removed]] by blast
    then show ?thesis
      using False within_indexes_refl [OF less.prems] within_indexes_trans [OF removed]
      by (subst enforceBufferLogIndexBudgetLocked.simps) auto
  qed
qed

lemma update_index_within:
  assumes "indexes_listed db" "a \<noteq> []"
  shows "\<exists>db'. enforce_budget (touchBufferLogIndexLocked a (db\<lparr>bd_indexes := AList.update a i (bd_indexes db), bd_indexEntryCount := c\<rparr>)) = Some db'
    \<and> within_indexes ((map_of (bd_indexes db))(a \<mapsto> i)) db db'"
proof -
  let ?d = "touchBufferLogIndexLocked a (db\<lparr>bd_indexes := AList.update a i (bd_indexes db), bd_indexEntryCount := c\<rparr>)"
  have d: "within_indexes ((map_of (bd_indexes db))(a \<mapsto> i)) db ?d"
    using within_indexesI [where x = "AList.update a i (bd_indexes db)" and y = "a # remove1 a (bd_indexLRU db)"
        and m = "(map_of (bd_indexes db))(a \<mapsto> i)" and db = db and z = c] list_ok_update [OF assms]
    by (cases db) (simp add: AList.update_conv' touchBufferLogIndexLocked_def)
  from enforce_within [OF within_indexes_listed [OF d]] show ?thesis
    unfolding enforce_budget_def using within_indexes_trans [OF d] by blast
qed

lemma cache_within:
  assumes "indexes_listed db" "a \<noteq> []"
  shows "\<exists>db'. cacheBufferLogIndexLocked a i db = Some db' \<and> within_indexes ((map_of (bd_indexes db))(a \<mapsto> i)) db db'"
proof -
  let ?d = "removeBufferLogIndexLocked a db" and ?m = "(map_of (bd_indexes db))(a \<mapsto> i)"
  note removed = remove_index_within [OF assms(1), of a]
  have "map_of (bd_indexes ?d) = (map_of (bd_indexes db))(a := None)"
    by (simp add: remove_index_parts(1) [OF assms] AList.delete_conv')
  then have le: "map_of (bd_indexes ?d) \<subseteq>\<^sub>m ?m" "(map_of (bd_indexes ?d))(a \<mapsto> i) = ?m" by (auto simp: map_le_def)
  have d: "within_indexes ?m db ?d" by (rule within_indexes_more [OF removed le(1)])
  obtain db' where "enforce_budget (touchBufferLogIndexLocked a (?d\<lparr>bd_indexes := AList.update a i (bd_indexes ?d),
      bd_indexEntryCount := bd_indexEntryCount ?d + int (length (bi_entries i))\<rparr>)) = Some db'" "within_indexes ?m ?d db'"
    using update_index_within [OF within_indexes_listed [OF removed] assms(2)] le(2) by metis
  then show ?thesis
    using assms(2) d within_indexes_trans [OF d, of ?m] by (auto simp: cacheBufferLogIndexLocked_def Let_def)
qed

section \<open>The cache of filters\<close>

lemma within_filters_refl: "filters_listed db \<Longrightarrow> within_filters (map_of (bd_filters db)) db db"
  using within_filtersI [OF map_le_refl, where x = "bd_filters db" and db = db and y = "bd_filterLRU db" and z = "bd_filterHashCount db"] by simp

lemma touch_filter_within:
  "filters_listed db \<Longrightarrow> map_of (bd_filters db) a \<noteq> None \<Longrightarrow> within_filters (map_of (bd_filters db)) db (touch_filter a db)"
  using within_filtersI [OF map_le_refl list_ok_touch, where x = "bd_filters db" and db = db and z = "bd_filterHashCount db"]
  by (simp add: touch_filter_def)

lemma remove_filter_parts:
  assumes "filters_listed db" "a \<noteq> []"
  shows "bd_filters (removeBufferLogAccountFilterLocked a db) = AList.delete a (bd_filters db)"
    "bd_filterLRU (removeBufferLogAccountFilterLocked a db) = remove1 a (bd_filterLRU db)"
  using assms list_ok_absent [OF assms(1), of a]
  by (auto simp: removeBufferLogAccountFilterLocked_def delete_id map_of_eq_None_iff split: option.split)

lemma remove_filter_within:
  assumes "filters_listed db"
  shows "within_filters (map_of (bd_filters db)) db (removeBufferLogAccountFilterLocked a db)"
  using within_filters_refl [OF assms] within_filtersI [OF map_le_delete list_ok_delete [OF assms, of a], where db = db]
  by (cases db) (auto simp: removeBufferLogAccountFilterLocked_def split: option.splits)

lemma remove_filter_gone: "a \<noteq> [] \<Longrightarrow> map_of (bd_filters (removeBufferLogAccountFilterLocked a db)) a = None"
  by (auto simp: removeBufferLogAccountFilterLocked_def AList.delete_conv' split: option.splits)

text \<open>The victim of a round is one of the last two accounts of the list, which has two or more.\<close>

lemma victim_listed:
  assumes "length l > 1"
  shows "last l \<in> set l" "last (butlast l) \<in> set l"
  using assms by (cases l rule: rev_cases; force)+

lemma evict_within:
  assumes "filters_listed db"
  shows "\<exists>db'. evictBufferLogAccountFiltersLocked p db = Some db' \<and> within_filters (map_of (bd_filters db)) db db'"
  using assms
proof (induction "length (bd_filterLRU db)" arbitrary: db rule: less_induct)
  case less
  show ?case
  proof (cases "length (bd_filterLRU db) > 1")
    case False
    then show ?thesis using within_filters_refl [OF less.prems] by (subst evictBufferLogAccountFiltersLocked.simps) simp
  next
    case True
    let ?l = "bd_filterLRU db"
    define a where "a = (if p \<noteq> [] \<and> last ?l = p then last (butlast ?l) else last ?l)"
    let ?d = "removeBufferLogAccountFilterLocked a db"
    have a: "a \<in> set ?l" using victim_listed [OF True] by (simp add: a_def)
    then have "a \<noteq> []" using list_ok_member [OF less.prems] by blast
    with a have "length (bd_filterLRU ?d) < length ?l"
      using remove_filter_parts(2) [OF less.prems] length_remove1_less by simp
    note removed = remove_filter_within [OF less.prems, of a]
    obtain db' where "evictBufferLogAccountFiltersLocked p ?d = Some db'" "within_filters (map_of (bd_filters ?d)) ?d db'"
      using less.hyps [OF \<open>length _ < _\<close> within_filters_listed [OF removed]] by blast
    then show ?thesis
      using within_filters_refl [OF less.prems] within_filters_trans [OF removed]
      by (subst evictBufferLogAccountFiltersLocked.simps) (auto simp: Let_def a_def [symmetric])
  qed
qed

text \<open>
  The invariant is needed: the loop does not return when the budget is exceeded and the victim has no
  filter.
\<close>

definition evict_stuck :: "bytes \<Rightarrow> buffer_db \<Rightarrow> bool" where
  "evict_stuck p db \<longleftrightarrow> length (bd_filters db) > bufferLogAccountFilterMaxAccounts \<and> length (bd_filterLRU db) > 1 \<and>
     map_of (bd_filters db) (if p \<noteq> [] \<and> last (bd_filterLRU db) = p then last (butlast (bd_filterLRU db)) else last (bd_filterLRU db)) = None"

lemma evict_spins:
  assumes "evict_stuck p db"
  shows "evictBufferLogAccountFiltersLocked p db = None"
proof (rule ccontr)
  assume "evictBufferLogAccountFiltersLocked p db \<noteq> None"
  then obtain d where "evictBufferLogAccountFiltersLocked p db = Some d" by blast
  moreover have "\<not> evict_stuck p db"
    if returned: "\<And>p db d. f p db = Some d \<Longrightarrow> \<not> evict_stuck p db"
      and round: "(if (length (bd_filters db) > bufferLogAccountFilterMaxAccounts
          \<or> bd_filterHashCount db > int bufferLogAccountFilterMaxHashes) \<and> length (bd_filterLRU db) > 1
        then let lru = bd_filterLRU db; victim = (if p \<noteq> [] \<and> last lru = p then last (butlast lru) else last lru)
          in f p (removeBufferLogAccountFilterLocked victim db)
        else Some db) = Some d" for f p db d
  proof
    assume stuck: "evict_stuck p db"
    then have "f p db = Some d" using round by (simp add: evict_stuck_def Let_def removeBufferLogAccountFilterLocked_def split: if_splits)
    with returned stuck show False by blast
  qed
  ultimately have "\<not> evict_stuck p db"
    by (rule evictBufferLogAccountFiltersLocked.raw_induct [where P = "\<lambda>p db d. \<not> evict_stuck p db", rotated])
  with assms show False by blast
qed

lemma update_filter_within:
  assumes "filters_listed db" "a \<noteq> []"
  shows "\<exists>db'. evictBufferLogAccountFiltersLocked p
      (db\<lparr>bd_filterLRU := a # remove1 a (bd_filterLRU db), bd_filters := AList.update a f (bd_filters db), bd_filterHashCount := c\<rparr>) = Some db'
    \<and> within_filters ((map_of (bd_filters db))(a \<mapsto> f)) db db'"
proof -
  let ?d = "db\<lparr>bd_filterLRU := a # remove1 a (bd_filterLRU db), bd_filters := AList.update a f (bd_filters db), bd_filterHashCount := c\<rparr>"
  have d: "within_filters ((map_of (bd_filters db))(a \<mapsto> f)) db ?d"
    using within_filtersI [where x = "AList.update a f (bd_filters db)" and y = "a # remove1 a (bd_filterLRU db)"
        and m = "(map_of (bd_filters db))(a \<mapsto> f)" and db = db and z = c] list_ok_update [OF assms]
    by (cases db) (simp add: AList.update_conv')
  from evict_within [OF within_filters_listed [OF d]] show ?thesis using within_filters_trans [OF d] by blast
qed

lemma install_within:
  assumes "filters_listed db" "a \<noteq> []"
  shows "\<exists>db'. installBufferLogAccountKeyFilter a f db = Some db' \<and> within_filters ((map_of (bd_filters db))(a \<mapsto> f)) db db'"
proof -
  let ?d = "removeBufferLogAccountFilterLocked a db" and ?m = "(map_of (bd_filters db))(a \<mapsto> f)"
  note removed = remove_filter_within [OF assms(1), of a]
  have "map_of (bd_filters ?d) = (map_of (bd_filters db))(a := None)"
    by (simp add: remove_filter_parts(1) [OF assms] AList.delete_conv')
  then have le: "map_of (bd_filters ?d) \<subseteq>\<^sub>m ?m" "(map_of (bd_filters ?d))(a \<mapsto> f) = ?m" by (auto simp: map_le_def)
  have d: "within_filters ?m db ?d" by (rule within_filters_more [OF removed le(1)])
  have l: "remove1 a (bd_filterLRU ?d) = bd_filterLRU ?d"
    using list_ok_absent [OF within_filters_listed [OF removed] remove_filter_gone [OF assms(2)]] .
  obtain db' where "evictBufferLogAccountFiltersLocked a (?d\<lparr>bd_filterLRU := a # bd_filterLRU ?d,
      bd_filters := AList.update a f (bd_filters ?d), bd_filterHashCount := bd_filterHashCount ?d + int (bufferLogAccountKeyFilterHashCount f)\<rparr>) = Some db'"
      "within_filters ?m ?d db'"
    using update_filter_within [OF within_filters_listed [OF removed] assms(2)] le(2) l by metis
  then show ?thesis
    using assms(2) within_filters_trans [OF d, of ?m] by (auto simp: installBufferLogAccountKeyFilter_def Let_def)
qed

section \<open>Every operation returns\<close>

definition lists_ok :: "buffer_db \<Rightarrow> bool" where
  "lists_ok db \<longleftrightarrow> indexes_listed db \<and> filters_listed db"

lemma lists_ok_frames [simp]:
  "lists_ok (db\<lparr>bd_logs := l\<rparr>) = lists_ok db" "lists_ok (db\<lparr>bd_idxs := i\<rparr>) = lists_ok db"
  "lists_ok (db\<lparr>bd_bloom := b\<rparr>) = lists_ok db" "lists_ok (db\<lparr>bd_loaded := s\<rparr>) = lists_ok db"
  "lists_ok (db\<lparr>bd_accessed := x\<rparr>) = lists_ok db" "lists_ok (db\<lparr>bd_folders := f\<rparr>) = lists_ok db"
  by (simp_all add: lists_ok_def)

lemma within_indexes_lists: "within_indexes m db db' \<Longrightarrow> lists_ok db \<Longrightarrow> lists_ok db'"
  by (auto simp: within_indexes_def lists_ok_def)

lemma within_filters_lists: "within_filters m db db' \<Longrightarrow> lists_ok db \<Longrightarrow> lists_ok db'"
  by (auto simp: within_filters_def lists_ok_def)

lemma lists_ok_small:
  assumes "lists_ok db"
  shows "lists_ok (removeBufferLogIndexLocked a db)" "lists_ok (removeBufferLogAccountFilterLocked a db)"
    "lists_ok (removeBufferLogIndex a db)" "lists_ok (removeBufferLogAccountFilter a db)"
    "map_of (bd_indexes db) a \<noteq> None \<Longrightarrow> lists_ok (touchBufferLogIndexLocked a db)"
    "map_of (bd_filters db) a \<noteq> None \<Longrightarrow> lists_ok (touch_filter a db)"
proof -
  have l: "indexes_listed db" "filters_listed db" using assms by (simp_all add: lists_ok_def)
  show 1: "lists_ok (removeBufferLogIndexLocked a db)" by (rule within_indexes_lists [OF remove_index_within [OF l(1)] assms])
  show 2: "lists_ok (removeBufferLogAccountFilterLocked a db)" by (rule within_filters_lists [OF remove_filter_within [OF l(2)] assms])
  show "lists_ok (removeBufferLogIndex a db)" "lists_ok (removeBufferLogAccountFilter a db)"
    using 1 2 assms by (simp_all add: removeBufferLogIndex_def removeBufferLogAccountFilter_def)
  show "lists_ok (touchBufferLogIndexLocked a db)" if "map_of (bd_indexes db) a \<noteq> None"
    by (rule within_indexes_lists [OF touch_index_within [OF l(1) that] assms])
  show "lists_ok (touch_filter a db)" if "map_of (bd_filters db) a \<noteq> None"
    by (rule within_filters_lists [OF touch_filter_within [OF l(2) that] assms])
qed

lemma lists_ok_reset: "lists_ok db \<Longrightarrow> lists_ok (resetBufferLogState a db)"
  by (simp add: resetBufferLogState_def clearBufferLogAccessed_def lists_ok_small(3,4))

lemma lists_ok_marks:
  "lists_ok (markBufferLogAccessed a k v db) = lists_ok db" "lists_ok (unmarkBufferLogAccessedEntries a kvs db) = lists_ok db"
  "lists_ok (markBufferLogBloomLoaded a db) = lists_ok db"
  by (simp_all add: markBufferLogAccessed_def unmarkBufferLogAccessedEntries_def set_accessed_def markBufferLogBloomLoaded_def)

text \<open>A computation of the buffer logs returns, with the lists in order.\<close>

definition returns :: "('r \<times> buffer_db) option \<Rightarrow> bool" where
  "returns x \<longleftrightarrow> (\<exists>r d. x = Some (r, d) \<and> lists_ok d)"

definition returns_db :: "buffer_db option \<Rightarrow> bool" where
  "returns_db x \<longleftrightarrow> (\<exists>d. x = Some d \<and> lists_ok d)"

lemma returns_Some [simp]: "returns (Some (r, d)) = lists_ok d" "returns_db (Some d) = lists_ok d"
  by (simp_all add: returns_def returns_db_def)

lemma returns_bind: "returns x \<Longrightarrow> (\<And>r d. x = Some (r, d) \<Longrightarrow> lists_ok d \<Longrightarrow> returns (f (r, d))) \<Longrightarrow> returns (Option.bind x f)"
  by (auto simp: returns_def)

lemma returns_db_bind: "returns_db x \<Longrightarrow> (\<And>d. lists_ok d \<Longrightarrow> returns (f d)) \<Longrightarrow> returns (Option.bind x f)"
  by (auto simp: returns_db_def returns_def)

lemma cache_returns:
  assumes "lists_ok db"
  shows "returns_db (cacheBufferLogIndexLocked a i db)"
proof (cases "a = []")
  case False
  then show ?thesis
    using cache_within [of db a i] within_indexes_lists assms by (auto simp: returns_db_def lists_ok_def)
qed (simp add: cacheBufferLogIndexLocked_def assms)

lemma install_returns:
  assumes "lists_ok db"
  shows "returns_db (installBufferLogAccountKeyFilter a f db)"
proof (cases "a = []")
  case False
  then show ?thesis
    using install_within [of db a f] within_filters_lists assms by (auto simp: returns_db_def lists_ok_def)
qed (simp add: installBufferLogAccountKeyFilter_def assms)

lemma update_index_touches:
  assumes "lists_ok db"
  shows "\<exists>m d. updateBufferLogIndexForAppend a c info kvs db = Some d \<and> within_indexes m db d"
proof (cases "a = [] \<or> kvs = []")
  case False
  have l: "indexes_listed db" using assms by (simp add: lists_ok_def)
  note removed = remove_index_within [OF l, of a] and kept = within_indexes_refl [OF l]
  have "\<exists>m d. enforce_budget (touchBufferLogIndexLocked a (db\<lparr>bd_indexes := AList.update a i (bd_indexes db), bd_indexEntryCount := n\<rparr>)) = Some d
      \<and> within_indexes m db d" for i n
    using update_index_within [OF l, where a = a and i = i and c = n] False by blast
  moreover have "\<exists>m d. cacheBufferLogIndexLocked a i db = Some d \<and> within_indexes m db d" for i
    using cache_within [OF l, of a i] False by blast
  moreover have "\<exists>m d. cacheBufferLogIndexLocked a i (removeBufferLogIndexLocked a db) = Some d \<and> within_indexes m db d" for i
    using cache_within [OF within_indexes_listed [OF removed], of a i] within_indexes_comp [OF removed] False by blast
  ultimately show ?thesis
    using False kept removed by (auto simp: updateBufferLogIndexForAppend_def Let_def split: option.split)
qed (use assms within_indexes_refl [of db] in \<open>auto simp: updateBufferLogIndexForAppend_def lists_ok_def\<close>)

lemma add_filter_touches:
  assumes "lists_ok db"
  shows "\<exists>m d. addBufferLogAccountFilterEntries a n kvs db = Some d \<and> within_filters m db d"
proof (cases "a = [] \<or> kvs = [] \<or> map_of (bd_filters db) a = None")
  case False
  have "\<exists>m d. evictBufferLogAccountFiltersLocked p
      (db\<lparr>bd_filterLRU := a # remove1 a (bd_filterLRU db), bd_filters := AList.update a f (bd_filters db), bd_filterHashCount := c\<rparr>) = Some d
      \<and> within_filters m db d" for p f c
    using update_filter_within [where db = db and a = a and p = p and f = f and c = c] assms False by (auto simp: lists_ok_def)
  with False show ?thesis by (auto simp: addBufferLogAccountFilterEntries_def Let_def touch_filter_def case_prod_beta)
qed (use assms within_filters_refl [of db] in \<open>auto simp: addBufferLogAccountFilterEntries_def lists_ok_def\<close>)

lemma update_index_returns: "lists_ok db \<Longrightarrow> returns_db (updateBufferLogIndexForAppend a c info kvs db)"
  using update_index_touches within_indexes_lists unfolding returns_db_def by blast

lemma add_filter_returns: "lists_ok db \<Longrightarrow> returns_db (addBufferLogAccountFilterEntries a n kvs db)"
  using add_filter_touches within_filters_lists unfolding returns_db_def by blast

lemma rebuild_lists:
  assumes "lists_ok db"
  shows "lists_ok (snd (rebuildBufferLogPhysicalIndexFromBuffer a data n db))"
    "lists_ok (maybeRebuildBufferLogPhysicalIndex a data n db)"
    "lists_ok (snd (rebuildBufferLogPhysicalIndexFromLogFile a n db))"
proof -
  show 1: "lists_ok (snd (rebuildBufferLogPhysicalIndexFromBuffer a data n db))" for data
    using assms by (simp add: rebuildBufferLogPhysicalIndexFromBuffer_def Let_def split: sum.split)
  show "lists_ok (maybeRebuildBufferLogPhysicalIndex a data n db)"
    using assms 1 [of data] by (auto simp: maybeRebuildBufferLogPhysicalIndex_def lists_ok_small(4) split: prod.split option.split)
  show "lists_ok (snd (rebuildBufferLogPhysicalIndexFromLogFile a n db))"
    using assms 1 by (auto simp: rebuildBufferLogPhysicalIndexFromLogFile_def split: option.split)
qed

lemma append_index_lists:
  assumes "lists_ok db"
  shows "lists_ok (snd (appendBufferLogPhysicalIndexEntries a c n kvs db))"
proof -
  have "lists_ok (snd (set_index a r db))" for r using assms by (simp add: set_index_def split: sum.split)
  with assms rebuild_lists(3) [OF assms] show ?thesis
    unfolding appendBufferLogPhysicalIndexEntries_def Let_def by (simp add: lists_ok_small(4) split: option.split sum.split)
qed

lemma append_returns:
  assumes "lists_ok db"
  shows "returns (appendBufferLogEntries stamp a kvs t db)"
proof -
  have "returns (do {
      d \<leftarrow> addBufferLogAccountFilterEntries a n kvs d;
      d \<leftarrow> updateBufferLogIndexForAppend a c info kvs (unmarkBufferLogAccessedEntries a kvs d);
      Some (None :: bl_error option, d) })" if "lists_ok d" for d n c info
    using that by (intro returns_db_bind add_filter_returns update_index_returns) (simp_all add: lists_ok_marks)
  moreover have "lists_ok d'" if "appendBufferLogPhysicalIndexEntries a c n kvs d = (e, d')" "lists_ok d" for c n d e d'
    using append_index_lists [OF that(2), of a c n kvs] that(1) by simp
  ultimately show ?thesis
    using assms unfolding appendBufferLogEntries_def Let_def
    by (auto simp: lists_ok_marks lists_ok_small(4) split: sum.split prod.split option.split)
qed

text \<open>
  The loop that reloads the filter of an account ends: a filter that was just loaded describes the
  log, so that a second round decides.
\<close>

lemma loaded_filter_size:
  "loadBufferLogAccountKeyFilterFromPhysicalIndex a n db = Inr (Some f) \<Longrightarrow> kf_logSize f = n"
  by (auto simp: loadBufferLogAccountKeyFilterFromPhysicalIndex_def split: if_splits option.splits sum.splits)

lemma ensure_returns:
  assumes "lists_ok db"
  shows "returns (ensureBufferLogAccountKeyFilter a db)"
  using assms install_returns [OF assms]
  by (auto simp: ensureBufferLogAccountKeyFilter_def lists_ok_small(6) intro!: returns_db_bind split: option.split sum.split)

lemma install_parts:
  assumes "a \<noteq> []" "lists_ok db" "installBufferLogAccountKeyFilter a f db = Some d"
  shows "bd_logs d = bd_logs db" "map_of (bd_filters d) a = Some g \<Longrightarrow> g = f"
proof -
  obtain x y z where i: "d = db\<lparr>bd_filters := x, bd_filterLRU := y, bd_filterHashCount := z\<rparr>" "map_of x \<subseteq>\<^sub>m (map_of (bd_filters db))(a \<mapsto> f)"
    using install_within [of db a f] assms by (auto simp: within_filters_def lists_ok_def)
  then show "bd_logs d = bd_logs db" by simp
  assume "map_of (bd_filters d) a = Some g"
  then have g: "map_of x a = Some g" by (simp add: i(1))
  then have "map_of x a = ((map_of (bd_filters db))(a \<mapsto> f)) a" using i(2) unfolding map_le_def by (blast intro: domI)
  with g show "g = f" by simp
qed

lemma ensure_filter_current:
  assumes a: "a \<noteq> []" and ok: "lists_ok db" and none: "map_of (bd_filters db) a = None"
    and r: "ensureBufferLogAccountKeyFilter a db = Some (Inr True, db')" and f: "map_of (bd_filters db') a = Some f"
  shows "bufferLogAccountFilterCurrent a (kf_logSize f) db'"
proof (cases "bd_logs db a")
  case None
  then have "installBufferLogAccountKeyFilter a \<lparr>kf_logSize = 0, kf_hashes = [], kf_tail = {}\<rparr> db = Some db'"
    using r a none by (simp add: ensureBufferLogAccountKeyFilter_def bind_eq_Some_conv)
  with install_parts [OF a ok this] f None show ?thesis by (auto simp: bufferLogAccountFilterCurrent_def)
next
  case (Some info)
  then obtain g where g: "loadBufferLogAccountKeyFilterFromPhysicalIndex a (int (length (lf_data info))) db = Inr (Some g)"
      "installBufferLogAccountKeyFilter a g db = Some db'"
    using r a none by (auto simp: ensureBufferLogAccountKeyFilter_def bind_eq_Some_conv split: sum.splits option.splits)
  with install_parts [OF a ok g(2)] f Some loaded_filter_size [OF g(1)] show ?thesis by (auto simp: bufferLogAccountFilterCurrent_def)
qed

lemma rejects_loop_current:
  assumes "lists_ok db" "\<And>f. map_of (bd_filters db) a = Some f \<Longrightarrow> bufferLogAccountFilterCurrent a (kf_logSize f) db"
  shows "returns (rejects_loop a h db)"
proof (cases "map_of (bd_filters db) a")
  case (Some f)
  then have "bufferLogAccountFilterCurrent a (kf_logSize f) (touch_filter a db)"
    using assms(2) by (simp add: bufferLogAccountFilterCurrent_def touch_filter_def)
  with Some assms(1) show ?thesis by (subst rejects_loop.simps) (simp add: Let_def lists_ok_small(6))
qed (subst rejects_loop.simps, simp add: assms)

lemma rejects_loop_returns:
  assumes a: "a \<noteq> []" and ok: "lists_ok db"
  shows "returns (rejects_loop a h db)"
proof (cases "map_of (bd_filters db) a")
  case None
  then show ?thesis using ok by (subst rejects_loop.simps) simp
next
  case (Some f)
  define db1 where "db1 = removeBufferLogAccountFilter a (touch_filter a db)"
  have ok1: "lists_ok (touch_filter a db)" "lists_ok db1" using ok Some by (simp_all add: db1_def lists_ok_small)
  have none: "map_of (bd_filters db1) a = None" using a by (simp add: db1_def removeBufferLogAccountFilter_def remove_filter_gone)
  have "returns (case r of Inl e \<Rightarrow> Some (Inl e, d) | Inr loaded \<Rightarrow> if loaded then rejects_loop a h d else Some (Inr (False, False), d))"
    if "ensureBufferLogAccountKeyFilter a db1 = Some (r, d)" "lists_ok d" for r d
    using that ensure_filter_current [OF a ok1(2) none, of d] by (auto simp: rejects_loop_current split: sum.split)
  then show ?thesis
    using Some ok1 by (subst rejects_loop.simps) (auto simp: Let_def ensure_returns intro!: returns_bind simp flip: db1_def)
qed

lemma rejects_returns:
  assumes "lists_ok db"
  shows "returns (bufferLogAccountFilterRejectsKey a k db)"
  using assms by (auto simp: bufferLogAccountFilterRejectsKey_def rejects_loop_returns ensure_returns intro!: returns_bind split: sum.split)

lemma build_index_lists: "buildBufferLogIndexForAccount a db = (r, d) \<Longrightarrow> lists_ok db \<Longrightarrow> lists_ok d"
  by (auto simp: buildBufferLogIndexForAccount_def rebuild_lists(2) split: if_splits option.splits sum.splits)

lemma get_index_returns:
  assumes "lists_ok db"
  shows "returns (getBufferLogIndex a db)"
  using assms
  by (auto simp: getBufferLogIndex_def lists_ok_small(5) dest: build_index_lists intro!: returns_db_bind cache_returns
      split: option.split prod.split sum.split)

lemma promote_returns: "lists_ok db \<Longrightarrow> returns_db (maybePromoteBufferLogPhysicalIndex a n db)"
  by (auto simp: maybePromoteBufferLogPhysicalIndex_def cache_returns split: sum.split option.split)

lemma cached_read_lists: "readBufferLogValueByCachedIndex a k db = (r, d) \<Longrightarrow> lists_ok db \<Longrightarrow> lists_ok d"
  by (auto simp: readBufferLogValueByCachedIndex_def lists_ok_reset lists_ok_small(5) split: if_splits option.splits)

lemma retry_returns: "lists_ok db \<Longrightarrow> (\<And>d. lists_ok d \<Longrightarrow> returns (again d)) \<Longrightarrow> returns (retry e a db again)"
  by (simp add: retry_def lists_ok_reset)

lemma read_indexed_returns: "lists_ok db \<Longrightarrow> (\<And>d. lists_ok d \<Longrightarrow> returns (again d)) \<Longrightarrow> returns (read_indexed a k i db again)"
  by (auto simp: read_indexed_def retry_returns lists_ok_reset split: option.split sum.split)

lemma read_by_index_returns:
  assumes "lists_ok db" and again: "\<And>d. lists_ok d \<Longrightarrow> returns (again d)"
  shows "returns (read_by_index a k db again)"
proof -
  obtain r d where r: "readBufferLogValueByCachedIndex a k db = (r, d)" by (cases "readBufferLogValueByCachedIndex a k db")
  then have d: "lists_ok d" using cached_read_lists assms(1) by blast
  then have "returns (do { d \<leftarrow> maybePromoteBufferLogPhysicalIndex a (log_size a d) d; Some (x, d) })" for x :: "bl_error + bytes option"
    by (intro returns_db_bind promote_returns) simp_all
  moreover have "returns (do {
      (r, d) \<leftarrow> getBufferLogIndex a d;
      case r of Inl e \<Rightarrow> retry e a d again | Inr None \<Rightarrow> Some (Inr None, d) | Inr (Some i) \<Rightarrow> read_indexed a k i d again })"
    using d again by (auto intro!: returns_bind get_index_returns retry_returns read_indexed_returns split: sum.split option.split)
  ultimately show ?thesis
    using d again by (auto simp: read_by_index_def r retry_returns split: sum.split value_answer.split)
qed

lemma bloom_lists: "bloom_rejects a k db = (r, d) \<Longrightarrow> lists_ok db \<Longrightarrow> lists_ok d"
  by (auto simp: bloom_rejects_def ensureBufferLogBloomForAccount_def loadBufferLogBloomFromPhysicalIndex_def lists_ok_marks
      split: if_splits option.splits sum.splits)

lemma read_returns:
  assumes "lists_ok db"
  shows "returns (readBufferLogValue a k db)"
proof -
  obtain r d where r: "bloom_rejects a k db = (r, d)" by (cases "bloom_rejects a k db")
  then have d: "lists_ok d" using bloom_lists assms by blast
  have "returns (readBufferLogValueByIndex a k d)" if "lists_ok d" for d
    unfolding readBufferLogValueByIndex_def using that by (intro read_by_index_returns) simp_all
  then have "returns (do {
      (r, d) \<leftarrow> readBufferLogValueByIndex a k d;
      Some (r, case r of Inr (Some v) \<Rightarrow> markBufferLogAccessed a k v d | _ \<Rightarrow> d) })" if "lists_ok d" for d
    using that by (auto intro!: returns_bind simp: lists_ok_marks split: sum.split option.split)
  then show ?thesis
    using assms d r
    by (auto simp: readBufferLogValue_def intro!: returns_bind rejects_returns split: sum.split bool.split)
qed

lemma remove_lists: "lists_ok db \<Longrightarrow> lists_ok (snd (removeBufferLogForAccount a db))"
  by (simp add: removeBufferLogForAccount_def lists_ok_reset)

lemma open_lists: "open_buffer logs idxs folders = Some db \<Longrightarrow> lists_ok db"
  by (auto simp: open_buffer_def lists_ok_def list_ok_def split: option.splits)

end
