(* ===== verification/Buffer_Log_Correct.thy ===== *)
theory Buffer_Log_Correct
  imports Buffer_Log_Index Buffer_Log_Caches
begin

text \<open>
  The correctness of the buffer logs. An invariant relates the files and everything kept in memory to
  the items that were appended; reads preserve it, and a read finds the newest value.
\<close>

section \<open>The invariant\<close>

definition log_data :: "log_file option \<Rightarrow> bytes" where
  "log_data f = (case f of None \<Rightarrow> [] | Some f \<Rightarrow> lf_data f)"

definition buffered :: "log_item list \<Rightarrow> bytes set" where
  "buffered items = fst ` set (keyed 0 items)"

definition index_sound :: "bytes \<Rightarrow> log_item list \<Rightarrow> bytes option \<Rightarrow> bool" where
  "index_sound a items idx \<longleftrightarrow>
     (\<forall>meta. readBufferLogDiskIndexMetadataFull idx = Some meta \<and> bm_coveredEnd meta = int (length (fwd_log items)) \<longrightarrow>
        (\<exists>n. bucket_ok n \<and> idx = Some (index_bytes (length (fwd_log items)) n (key_hashes a items))))"

definition files_ok :: "(bytes \<rightharpoonup> log_file) \<Rightarrow> (bytes \<rightharpoonup> bytes) \<Rightarrow> (bytes \<Rightarrow> log_item list) \<Rightarrow> bool" where
  "files_ok logs idxs hist \<longleftrightarrow>
     (\<forall>a. a \<noteq> [] \<longrightarrow> log_data (logs a) = fwd_log (hist a) \<and> (\<forall>it \<in> set (hist a). item_ok it)
        \<and> length (fwd_log (hist a)) < 2 ^ 63 \<and> (logs a \<noteq> None \<longrightarrow> index_sound a (hist a) (idxs a)))"

definition bloom_inv :: "bufferLogBloom \<Rightarrow> bytes set \<Rightarrow> (bytes \<Rightarrow> log_item list) \<Rightarrow> bool" where
  "bloom_inv b loaded hist \<longleftrightarrow>
     bloom_ok b \<and> (\<forall>a \<in> loaded. \<forall>k \<in> buffered (hist a). bloom_covers b (bufferLogDiskIndexKeyHash a k))"

definition index_inv :: "(bytes \<rightharpoonup> bufferLogAccountIndex) \<Rightarrow> (bytes \<rightharpoonup> log_file) \<Rightarrow> (bytes \<Rightarrow> log_item list) \<Rightarrow> bool" where
  "index_inv idx logs hist \<longleftrightarrow>
     (\<forall>a i. idx a = Some i \<longrightarrow> bi_path i = a \<and> map_of (bi_entries i) = refs (keyed 0 (hist a))
        \<and> (\<forall>f. logs a = Some f \<longrightarrow> matchesFile i f))"

definition filter_inv :: "(bytes \<rightharpoonup> bufferLogAccountKeyFilter) \<Rightarrow> (bytes \<Rightarrow> log_item list) \<Rightarrow> bool" where
  "filter_inv flts hist \<longleftrightarrow>
     (\<forall>a f. flts a = Some f \<longrightarrow> kf_logSize f = int (length (fwd_log (hist a))) \<and> sorted (kf_hashes f)
        \<and> (\<forall>k \<in> buffered (hist a). bufferLogDiskIndexKeyHash a k \<in> set (kf_hashes f) \<union> kf_tail f))"

definition buffer_ok :: "buffer_db \<Rightarrow> (bytes \<Rightarrow> log_item list) \<Rightarrow> bool" where
  "buffer_ok db hist \<longleftrightarrow> lists_ok db \<and> files_ok (bd_logs db) (bd_idxs db) hist \<and> bloom_inv (bd_bloom db) (bd_loaded db) hist
     \<and> index_inv (map_of (bd_indexes db)) (bd_logs db) hist \<and> filter_inv (map_of (bd_filters db)) hist"

lemma index_inv_less: "index_inv idx logs hist \<Longrightarrow> idx' \<subseteq>\<^sub>m idx \<Longrightarrow> index_inv idx' logs hist"
  unfolding index_inv_def map_le_def by (metis domI)

lemma filter_inv_less: "filter_inv f hist \<Longrightarrow> f' \<subseteq>\<^sub>m f \<Longrightarrow> filter_inv f' hist"
  unfolding filter_inv_def map_le_def by (metis domI)

lemma bloom_inv_less: "bloom_inv b l hist \<Longrightarrow> l' \<subseteq> l \<Longrightarrow> bloom_inv b l' hist"
  unfolding bloom_inv_def by blast

section \<open>Reads keep the invariant\<close>

text \<open>Accounts with a log stay marked as loaded.\<close>

definition still_loaded :: "(bytes \<Rightarrow> log_item list) \<Rightarrow> buffer_db \<Rightarrow> buffer_db \<Rightarrow> bool" where
  "still_loaded hist db db' \<longleftrightarrow> (\<forall>x. hist x \<noteq> [] \<and> x \<in> bd_loaded db \<longrightarrow> x \<in> bd_loaded db')"

lemma still_loaded_refl [simp]: "still_loaded hist db db"
  by (simp add: still_loaded_def)

lemma still_loaded_trans: "still_loaded hist db db' \<Longrightarrow> still_loaded hist db' db'' \<Longrightarrow> still_loaded hist db db''"
  by (auto simp: still_loaded_def)

lemma ok_indexes:
  assumes "buffer_ok db hist" "within_indexes m db db'" "index_inv m (bd_logs db) hist"
  shows "buffer_ok db' hist" "bd_logs db' = bd_logs db" "bd_idxs db' = bd_idxs db" "still_loaded hist db db'"
proof -
  obtain x y z where d: "db' = db\<lparr>bd_indexes := x, bd_indexLRU := y, bd_indexEntryCount := z\<rparr>" "map_of x \<subseteq>\<^sub>m m"
    using assms(2) by (auto simp: within_indexes_def)
  with assms(1) index_inv_less [OF assms(3) d(2)] within_indexes_lists [OF assms(2)] show "buffer_ok db' hist" by (simp add: buffer_ok_def)
  show "bd_logs db' = bd_logs db" "bd_idxs db' = bd_idxs db" "still_loaded hist db db'" by (simp_all add: d(1) still_loaded_def)
qed

lemma ok_filters:
  assumes "buffer_ok db hist" "within_filters m db db'" "filter_inv m hist"
  shows "buffer_ok db' hist" "bd_logs db' = bd_logs db" "bd_idxs db' = bd_idxs db" "still_loaded hist db db'"
proof -
  obtain x y z where d: "db' = db\<lparr>bd_filters := x, bd_filterLRU := y, bd_filterHashCount := z\<rparr>" "map_of x \<subseteq>\<^sub>m m"
    using assms(2) by (auto simp: within_filters_def)
  with assms(1) filter_inv_less [OF assms(3) d(2)] within_filters_lists [OF assms(2)] show "buffer_ok db' hist" by (simp add: buffer_ok_def)
  show "bd_logs db' = bd_logs db" "bd_idxs db' = bd_idxs db" "still_loaded hist db db'" by (simp_all add: d(1) still_loaded_def)
qed

lemma buffer_ok_parts:
  assumes "buffer_ok db hist" "a \<noteq> []"
  shows "log_data (bd_logs db a) = fwd_log (hist a)" "\<forall>it \<in> set (hist a). item_ok it" "length (fwd_log (hist a)) < 2 ^ 63"
    "bd_logs db a \<noteq> None \<Longrightarrow> index_sound a (hist a) (bd_idxs db a)"
  using assms by (simp_all add: buffer_ok_def files_ok_def)

lemma buffer_ok_invs:
  "buffer_ok db hist \<Longrightarrow> bloom_inv (bd_bloom db) (bd_loaded db) hist"
  "buffer_ok db hist \<Longrightarrow> index_inv (map_of (bd_indexes db)) (bd_logs db) hist"
  "buffer_ok db hist \<Longrightarrow> filter_inv (map_of (bd_filters db)) hist"
  "buffer_ok db hist \<Longrightarrow> indexes_listed db" "buffer_ok db hist \<Longrightarrow> filters_listed db"
  by (simp_all add: buffer_ok_def lists_ok_def)

lemma buffer_ok_accessed [simp]: "buffer_ok (db\<lparr>bd_accessed := x\<rparr>) hist = buffer_ok db hist"
  by (simp add: buffer_ok_def)

lemma no_log_no_items: "buffer_ok db hist \<Longrightarrow> a \<noteq> [] \<Longrightarrow> bd_logs db a = None \<Longrightarrow> hist a = []"
  using buffer_ok_parts(1) [of db hist a] fwd_enc_pos by (cases "hist a") (auto simp: log_data_def)

lemma buffered_Nil [simp]: "buffered [] = {}"
  by (simp add: buffered_def)

lemma newest_buffered: "k \<noteq> [] \<Longrightarrow> newest (records items) k = None \<longleftrightarrow> k \<notin> buffered items"
  by (force simp: newest_keyed [of k items 0] buffered_def map_of_eq_None_iff image_iff)

lemma touch_index_ok: "buffer_ok db hist \<Longrightarrow> map_of (bd_indexes db) a \<noteq> None \<Longrightarrow> buffer_ok (touchBufferLogIndexLocked a db) hist"
  by (rule ok_indexes(1) [OF _ touch_index_within [OF buffer_ok_invs(4)] buffer_ok_invs(2)])

lemma remove_index_ok: "buffer_ok db hist \<Longrightarrow> buffer_ok (removeBufferLogIndex a db) hist"
  unfolding removeBufferLogIndex_def using ok_indexes(1) [OF _ remove_index_within [OF buffer_ok_invs(4)] buffer_ok_invs(2)] by simp

lemma remove_filter_ok: "buffer_ok db hist \<Longrightarrow> buffer_ok (removeBufferLogAccountFilter a db) hist"
  unfolding removeBufferLogAccountFilter_def using ok_filters(1) [OF _ remove_filter_within [OF buffer_ok_invs(5)] buffer_ok_invs(3)] by simp

lemma touch_filter_ok: "buffer_ok db hist \<Longrightarrow> map_of (bd_filters db) a \<noteq> None \<Longrightarrow> buffer_ok (touch_filter a db) hist"
  by (rule ok_filters(1) [OF _ touch_filter_within [OF buffer_ok_invs(5)] buffer_ok_invs(3)])

text \<open>An index is cached, a filter is installed: both return.\<close>

lemma cache_ok_returns:
  assumes "buffer_ok db hist" "a \<noteq> []" "index_inv ((map_of (bd_indexes db))(a \<mapsto> i)) (bd_logs db) hist"
  shows "\<exists>db'. cacheBufferLogIndexLocked a i db = Some db' \<and> buffer_ok db' hist \<and> bd_logs db' = bd_logs db \<and> still_loaded hist db db'"
  using cache_within [OF buffer_ok_invs(4) [OF assms(1)] assms(2), of i] ok_indexes [OF assms(1) _ assms(3)] by blast

lemma install_ok_returns:
  assumes "buffer_ok db hist" "a \<noteq> []" "filter_inv ((map_of (bd_filters db))(a \<mapsto> f)) hist"
  shows "\<exists>db'. installBufferLogAccountKeyFilter a f db = Some db' \<and> buffer_ok db' hist \<and> bd_logs db' = bd_logs db \<and> still_loaded hist db db'"
  using install_within [OF buffer_ok_invs(5) [OF assms(1)] assms(2), of f] ok_filters [OF assms(1) _ assms(3)] by blast

lemma frames [simp]:
  "bd_logs (touchBufferLogIndexLocked a db) = bd_logs db" "bd_logs (removeBufferLogIndexLocked a db) = bd_logs db"
  "bd_logs (touch_filter a db) = bd_logs db" "bd_logs (removeBufferLogAccountFilterLocked a db) = bd_logs db"
  "bd_idxs (removeBufferLogIndexLocked a db) = bd_idxs db" "bd_idxs (removeBufferLogAccountFilterLocked a db) = bd_idxs db"
  "bd_indexes (removeBufferLogAccountFilterLocked a db) = bd_indexes db"
  by (auto simp: touchBufferLogIndexLocked_def removeBufferLogIndexLocked_def touch_filter_def removeBufferLogAccountFilterLocked_def
      split: option.splits)

lemma loaded_frames [simp]:
  "bd_loaded (touchBufferLogIndexLocked a db) = bd_loaded db" "bd_loaded (removeBufferLogIndexLocked a db) = bd_loaded db"
  "bd_loaded (touch_filter a db) = bd_loaded db" "bd_loaded (removeBufferLogAccountFilterLocked a db) = bd_loaded db"
  "bd_loaded (markBufferLogAccessed a k v db) = bd_loaded db" "bd_loaded (removeBufferLogAccountFilter a db) = bd_loaded db"
  by (auto simp: touchBufferLogIndexLocked_def removeBufferLogIndexLocked_def touch_filter_def removeBufferLogAccountFilterLocked_def
      markBufferLogAccessed_def set_accessed_def removeBufferLogAccountFilter_def split: option.splits)

lemma still_loaded_frames [simp]:
  "still_loaded h d (touchBufferLogIndexLocked a db) = still_loaded h d db"
  "still_loaded h d (touch_filter a db) = still_loaded h d db"
  "still_loaded h d (removeBufferLogAccountFilter a db) = still_loaded h d db"
  "still_loaded h d (markBufferLogAccessed a k v db) = still_loaded h d db"
  "still_loaded h d (db\<lparr>bd_idxs := x\<rparr>) = still_loaded h d db"
  "still_loaded h db (db\<lparr>bd_bloom := b, bd_loaded := insert a (bd_loaded db)\<rparr>)"
  "still_loaded h db (db\<lparr>bd_loaded := insert a (bd_loaded db)\<rparr>)"
  by (simp_all add: still_loaded_def)

lemma reset_ok: "buffer_ok db hist \<Longrightarrow> buffer_ok (resetBufferLogState a db) hist"
proof -
  assume ok: "buffer_ok db hist"
  then have "buffer_ok (db\<lparr>bd_loaded := bd_loaded db - {a}\<rparr>) hist"
    using bloom_inv_less [of "bd_bloom db" "bd_loaded db" hist "bd_loaded db - {a}"] by (simp add: buffer_ok_def)
  then have "buffer_ok (removeBufferLogAccountFilter a (removeBufferLogIndex a (db\<lparr>bd_loaded := bd_loaded db - {a}\<rparr>))) hist"
    by (intro remove_filter_ok remove_index_ok)
  with ok show ?thesis by (simp add: resetBufferLogState_def clearBufferLogAccessed_def)
qed

lemma reset_parts:
  assumes "a \<noteq> []"
  shows "bd_logs (resetBufferLogState a db) = bd_logs db" "bd_idxs (resetBufferLogState a db) = bd_idxs db"
    "map_of (bd_indexes (resetBufferLogState a db)) a = None" "hist a = [] \<Longrightarrow> still_loaded hist db (resetBufferLogState a db)"
  using assms by (auto simp: still_loaded_def) (auto simp: resetBufferLogState_def clearBufferLogAccessed_def removeBufferLogIndex_def removeBufferLogAccountFilter_def
      removeBufferLogIndexLocked_def [of _ "db\<lparr>bd_loaded := _\<rparr>"] AList.delete_conv' split: option.splits)

section \<open>The filters never reject a buffered key\<close>

lemma index_loads:
  assumes ok: "buffer_ok db hist" and a: "a \<noteq> []" and log: "bd_logs db a \<noteq> None"
    and meta: "readBufferLogDiskIndexMetadataFull (bd_idxs db a) = Some meta" "bm_coveredEnd meta = int (length (fwd_log (hist a)))"
  obtains n where "bucket_ok n" "bd_idxs db a = Some (index_bytes (length (fwd_log (hist a))) n (key_hashes a (hist a)))"
    "meta = index_meta (length (fwd_log (hist a))) n (key_hashes a (hist a))"
proof -
  from buffer_ok_parts(4) [OF ok a log] meta obtain n where
    n: "bucket_ok n" "bd_idxs db a = Some (index_bytes (length (fwd_log (hist a))) n (key_hashes a (hist a)))"
    by (auto simp: index_sound_def)
  moreover have "meta = index_meta (length (fwd_log (hist a))) n (key_hashes a (hist a))"
    using meta(1) n read_index_meta [OF n(1) buffer_ok_parts(3) [OF ok a]] by (simp add: readBufferLogDiskIndexMetadataFull_def)
  ultimately show ?thesis by (rule that)
qed

lemma key_hashes_bounds:
  assumes "\<forall>it \<in> set items. item_ok it" "length (fwd_log items) < 2 ^ 63"
  shows "length (key_hashes a items) < 2 ^ 63" "\<forall>e \<in> set (key_hashes a items). snd e < 2 ^ 63"
proof -
  show "length (key_hashes a items) < 2 ^ 63" using length_keyed [of 0 items] assms(2) by (simp add: key_hashes_def)
  show "\<forall>e \<in> set (key_hashes a items). snd e < 2 ^ 63"
    using read_keyed(3) [OF assms(1)] assms(2) by (fastforce simp: key_hashes_def hashed_def)
qed

lemma table_hashes: "br_keyHash ` set (snd (table n es)) = fst ` set es"
proof (induction es rule: rev_induct)
  case (snoc e es)
  then show ?case by (cases e) (simp add: table_snoc_parts)
qed simp

lemma key_hashes_buffered: "fst ` set (key_hashes a items) = bufferLogDiskIndexKeyHash a ` buffered items"
  by (simp add: key_hashes_def hashed_def buffered_def image_image)

lemma filter_contains:
  assumes "sorted (kf_hashes f)"
  shows "bufferLogAccountKeyFilterContains f h \<longleftrightarrow> h \<in> set (kf_hashes f) \<union> kf_tail f"
proof -
  let ?hs = "kf_hashes f"
  let ?i = "sort_Search (length ?hs) (\<lambda>i. ?hs ! i \<ge> h)"
  have mono: "\<forall>a b. a \<le> b \<and> b < length ?hs \<and> ?hs ! a \<ge> h \<longrightarrow> ?hs ! b \<ge> h"
    using assms by (meson order_trans sorted_nth_mono)
  note s = sort_Search_spec [OF mono]
  have "?i < length ?hs \<and> ?hs ! ?i = h \<longleftrightarrow> h \<in> set ?hs"
  proof
    assume "h \<in> set ?hs"
    then obtain j where j: "j < length ?hs" "?hs ! j = h" by (auto simp: in_set_conv_nth)
    have i: "?i \<le> j" using s(2) [of j] j(2) by (metis not_le order_refl)
    then have "?hs ! ?i \<ge> h" "?hs ! ?i \<le> ?hs ! j" using s(3) [of ?i] assms j(1) by (auto intro: sorted_nth_mono)
    with i j show "?i < length ?hs \<and> ?hs ! ?i = h" by auto
  qed (metis nth_mem)
  then show ?thesis by (auto simp: bufferLogAccountKeyFilterContains_def Let_def)
qed

lemma fold_addHash:
  "bloom_ok b \<Longrightarrow> bloom_ok (fold (\<lambda>r b. bloom_addHash b (br_keyHash r)) rs b)
     \<and> (\<forall>g. bloom_covers b g \<or> g \<in> br_keyHash ` set rs \<longrightarrow> bloom_covers (fold (\<lambda>r b. bloom_addHash b (br_keyHash r)) rs b) g)"
proof (induction rs arbitrary: b)
  case (Cons r rs)
  have "bloom_ok (bloom_addHash b (br_keyHash r))" using Cons.prems by simp
  from Cons.IH [OF this] show ?case using bloom_addHash_covers [of b] Cons.prems by auto
qed simp

lemma bloom_inv_more:
  assumes "bloom_inv b loaded hist" "bloom_ok b'" "\<forall>g. bloom_covers b g \<longrightarrow> bloom_covers b' g"
    and "\<forall>k \<in> buffered (hist a). bloom_covers b' (bufferLogDiskIndexKeyHash a k)"
  shows "bloom_inv b' (insert a loaded) hist" "bloom_inv b' loaded hist"
  using assms by (auto simp: bloom_inv_def)

lemma ensure_bloom_ok:
  assumes ok: "buffer_ok db hist" and a: "a \<noteq> []"
  shows "\<exists>l db'. ensureBufferLogBloomForAccount a db = (Inr l, db') \<and> buffer_ok db' hist \<and> bd_logs db' = bd_logs db \<and> still_loaded hist db db'
    \<and> (l \<longrightarrow> a \<in> bd_loaded db')"
proof (cases "a \<in> bd_loaded db")
  case True
  then show ?thesis using ok a by (auto simp: ensureBufferLogBloomForAccount_def)
next
  case False
  show ?thesis
  proof (cases "bd_logs db a")
    case None
    then have "hist a = []" by (rule no_log_no_items [OF ok a])
    then have "bloom_inv (bd_bloom db) (insert a (bd_loaded db)) hist"
      using buffer_ok_invs(1) [OF ok] by (intro bloom_inv_more(1)) (auto simp: bloom_inv_def)
    with ok None False a show ?thesis
      by (auto simp: ensureBufferLogBloomForAccount_def markBufferLogBloomLoaded_def buffer_ok_def)
  next
    case (Some info)
    have data: "lf_data info = fwd_log (hist a)" using buffer_ok_parts(1) [OF ok a] Some by (simp add: log_data_def)
    show ?thesis
    proof (cases "\<exists>meta. readBufferLogDiskIndexMetadataFull (bd_idxs db a) = Some meta \<and> bm_coveredEnd meta = int (length (fwd_log (hist a)))")
      case True
      then obtain meta where m: "readBufferLogDiskIndexMetadataFull (bd_idxs db a) = Some meta" "bm_coveredEnd meta = int (length (fwd_log (hist a)))"
        by blast
      obtain n where n: "bucket_ok n" "bd_idxs db a = Some (index_bytes (length (fwd_log (hist a))) n (key_hashes a (hist a)))"
          "meta = index_meta (length (fwd_log (hist a))) n (key_hashes a (hist a))"
        by (rule index_loads [OF ok a _ m]) (simp add: Some)
      let ?b = "fold (\<lambda>r b. bloom_addHash b (br_keyHash r)) (snd (table n (key_hashes a (hist a)))) (bd_bloom db)"
      have each: "forEachBufferLogDiskIndexRecord (the (bd_idxs db a)) meta (\<lambda>rec b. Inr (bloom_addHash b (br_keyHash rec))) (bd_bloom db) = Inr ?b"
        unfolding n(2,3) option.sel by (intro forEach_index n(1) key_hashes_bounds buffer_ok_parts [OF ok a]) simp
      have inv: "bloom_inv ?b (insert a (bd_loaded db)) hist"
        using buffer_ok_invs(1) [OF ok] fold_addHash [of "bd_bloom db" "snd (table n (key_hashes a (hist a)))"]
        by (intro bloom_inv_more(1) [of "bd_bloom db"]) (auto simp: bloom_inv_def table_hashes key_hashes_buffered)
      have "ensureBufferLogBloomForAccount a db = (Inr True, db\<lparr>bd_bloom := ?b, bd_loaded := insert a (bd_loaded db)\<rparr>)"
        using Some False a m(1) n(3) each data
        by (simp add: ensureBufferLogBloomForAccount_def loadBufferLogBloomFromPhysicalIndex_def markBufferLogBloomLoaded_def index_meta_def)
      with ok inv show ?thesis by (auto simp: buffer_ok_def)
    next
      case none: False
      then have "ensureBufferLogBloomForAccount a db = (Inr False, db)"
        using Some False a data
        by (auto simp: ensureBufferLogBloomForAccount_def loadBufferLogBloomFromPhysicalIndex_def split: option.splits)
      with ok show ?thesis by auto
    qed
  qed
qed

lemma bloom_rejects_ok:
  assumes ok: "buffer_ok db hist" and a: "a \<noteq> []" and k: "k \<noteq> []"
  shows "\<exists>r db'. bloom_rejects a k db = (Inr r, db') \<and> buffer_ok db' hist \<and> bd_logs db' = bd_logs db \<and> still_loaded hist db db' \<and> (r \<longrightarrow> k \<notin> buffered (hist a))"
proof -
  have reject: "k \<notin> buffered (hist a)" if "buffer_ok d hist" "a \<in> bd_loaded d" "\<not> bloom_maybeContains (bd_bloom d) a k" for d
    using buffer_ok_invs(1) [OF that(1)] that(2,3) a k by (auto simp: bloom_inv_def bloom_maybeContains_covers)
  from ensure_bloom_ok [OF ok a] obtain l db' where
    "ensureBufferLogBloomForAccount a db = (Inr l, db')" "buffer_ok db' hist" "bd_logs db' = bd_logs db" "still_loaded hist db db'" "l \<longrightarrow> a \<in> bd_loaded db'"
    by blast
  then show ?thesis using ok reject [of db] reject [of db'] by (auto simp: bloom_rejects_def)
qed

lemma load_filter_ok:
  assumes ok: "buffer_ok db hist" and a: "a \<noteq> []" and log: "bd_logs db a \<noteq> None"
  shows "loadBufferLogAccountKeyFilterFromPhysicalIndex a (int (length (fwd_log (hist a)))) db = Inr None \<or>
    (\<exists>f. loadBufferLogAccountKeyFilterFromPhysicalIndex a (int (length (fwd_log (hist a)))) db = Inr (Some f)
       \<and> filter_inv ((map_of (bd_filters db))(a \<mapsto> f)) hist)"
proof -
  have extend: "filter_inv ((map_of (bd_filters db))(a \<mapsto> \<lparr>kf_logSize = int (length (fwd_log (hist a))), kf_hashes = hs, kf_tail = {}\<rparr>)) hist"
    if "sorted hs" "\<forall>k \<in> buffered (hist a). bufferLogDiskIndexKeyHash a k \<in> set hs" for hs
    using buffer_ok_invs(3) [OF ok] that by (auto simp: filter_inv_def)
  show ?thesis
  proof (cases "length (fwd_log (hist a)) = 0")
    case True
    then have "hist a = []" using fwd_enc_pos by (cases "hist a") auto
    then show ?thesis using a True extend [of "[]"] by (simp add: loadBufferLogAccountKeyFilterFromPhysicalIndex_def)
  next
    case False
    show ?thesis
    proof (cases "\<exists>meta. readBufferLogDiskIndexMetadataFull (bd_idxs db a) = Some meta \<and> bm_coveredEnd meta = int (length (fwd_log (hist a)))")
      case True
      then obtain meta where m: "readBufferLogDiskIndexMetadataFull (bd_idxs db a) = Some meta" "bm_coveredEnd meta = int (length (fwd_log (hist a)))"
        by blast
      obtain n where n: "bucket_ok n" "bd_idxs db a = Some (index_bytes (length (fwd_log (hist a))) n (key_hashes a (hist a)))"
          "meta = index_meta (length (fwd_log (hist a))) n (key_hashes a (hist a))"
        by (rule index_loads [OF ok a log m])
      define hs where "hs = fold (\<lambda>rec hs. hs @ [br_keyHash rec]) (snd (table n (key_hashes a (hist a)))) []"
      have each: "forEachBufferLogDiskIndexRecord (the (bd_idxs db a)) meta (\<lambda>rec hs. Inr (hs @ [br_keyHash rec])) [] = Inr hs"
        unfolding n(2,3) option.sel hs_def by (intro forEach_index n(1) key_hashes_bounds buffer_ok_parts [OF ok a]) simp
      have "fold (\<lambda>rec hs. hs @ [br_keyHash rec]) rs ys = ys @ map br_keyHash rs" for rs :: "bufferLogDiskIndexRecord list" and ys
        by (induction rs arbitrary: ys) simp_all
      then have set: "set (compactSortedBufferLogHashes hs) = bufferLogDiskIndexKeyHash a ` buffered (hist a)"
        by (simp add: compactSortedBufferLogHashes_def hs_def table_hashes flip: key_hashes_buffered)
      have sorted: "sorted (compactSortedBufferLogHashes hs)"
        using sorted_remdups_adj [OF sorted_sort, of hs]
        by (cases hs rule: remdups_adj.cases) (auto simp: compactSortedBufferLogHashes_def simp del: sort_key_simps)
      show ?thesis
        using a False m each extend [OF sorted] set by (auto simp: loadBufferLogAccountKeyFilterFromPhysicalIndex_def)
    next
      case none: False
      then show ?thesis using a False by (auto simp: loadBufferLogAccountKeyFilterFromPhysicalIndex_def split: option.splits)
    qed
  qed
qed

lemma ensure_filter_ok:
  assumes ok: "buffer_ok db hist" and a: "a \<noteq> []"
  shows "\<exists>l db'. ensureBufferLogAccountKeyFilter a db = Some (Inr l, db') \<and> buffer_ok db' hist \<and> bd_logs db' = bd_logs db \<and> still_loaded hist db db'"
proof (cases "map_of (bd_filters db) a")
  case Some
  then show ?thesis using a touch_filter_ok [OF ok] by (auto simp: ensureBufferLogAccountKeyFilter_def)
next
  case None
  show ?thesis
  proof (cases "bd_logs db a")
    case log: None
    have "hist a = []" by (rule no_log_no_items [OF ok a log])
    then have "filter_inv ((map_of (bd_filters db))(a \<mapsto> \<lparr>kf_logSize = 0, kf_hashes = [], kf_tail = {}\<rparr>)) hist"
      using buffer_ok_invs(3) [OF ok] by (auto simp: filter_inv_def)
    from install_ok_returns [OF ok a this] show ?thesis
      using a None log by (auto simp: ensureBufferLogAccountKeyFilter_def)
  next
    case (Some info)
    have data: "lf_data info = fwd_log (hist a)" using buffer_ok_parts(1) [OF ok a] Some by (simp add: log_data_def)
    from load_filter_ok [OF ok a] Some consider
      "loadBufferLogAccountKeyFilterFromPhysicalIndex a (int (length (fwd_log (hist a)))) db = Inr None"
    | f where "loadBufferLogAccountKeyFilterFromPhysicalIndex a (int (length (fwd_log (hist a)))) db = Inr (Some f)"
        "filter_inv ((map_of (bd_filters db))(a \<mapsto> f)) hist"
      by auto
    then show ?thesis
    proof cases
      case 1
      then show ?thesis using a None Some ok data by (auto simp: ensureBufferLogAccountKeyFilter_def)
    next
      case 2
      from install_ok_returns [OF ok a 2(2)] show ?thesis
        using a None Some 2(1) data by (auto simp: ensureBufferLogAccountKeyFilter_def)
    qed
  qed
qed

lemma rejects_ok:
  assumes ok: "buffer_ok db hist" and a: "a \<noteq> []" and k: "k \<noteq> []"
  shows "\<exists>d r db'. bufferLogAccountFilterRejectsKey a k db = Some (Inr (d, r), db') \<and> buffer_ok db' hist
    \<and> bd_logs db' = bd_logs db \<and> still_loaded hist db db' \<and> (d \<and> r \<longrightarrow> k \<notin> buffered (hist a))"
proof -
  obtain l db1 where e: "ensureBufferLogAccountKeyFilter a db = Some (Inr l, db1)" and ok1: "buffer_ok db1 hist" and logs: "bd_logs db1 = bd_logs db" "still_loaded hist db db1"
    using ensure_filter_ok [OF ok a] by blast
  have loop: "\<exists>d r db'. rejects_loop a (bufferLogDiskIndexKeyHash a k) db1 = Some (Inr (d, r), db') \<and> buffer_ok db' hist
    \<and> bd_logs db' = bd_logs db \<and> still_loaded hist db db' \<and> (d \<and> r \<longrightarrow> k \<notin> buffered (hist a))"
  proof (cases "map_of (bd_filters db1) a")
    case None
    then show ?thesis using ok1 logs by (subst rejects_loop.simps) auto
  next
    case (Some f)
    then have f: "kf_logSize f = int (length (fwd_log (hist a)))" "sorted (kf_hashes f)"
        "\<forall>k \<in> buffered (hist a). bufferLogDiskIndexKeyHash a k \<in> set (kf_hashes f) \<union> kf_tail f"
      using buffer_ok_invs(3) [OF ok1] by (auto simp: filter_inv_def)
    have "bufferLogAccountFilterCurrent a (kf_logSize f) (touch_filter a db1)"
      using buffer_ok_parts(1) [OF ok1 a] f(1) by (auto simp: bufferLogAccountFilterCurrent_def log_data_def split: option.splits)
    moreover have "\<not> bufferLogAccountKeyFilterContains f (bufferLogDiskIndexKeyHash a k) \<Longrightarrow> k \<notin> buffered (hist a)"
      using f(3) by (auto simp: filter_contains [OF f(2)])
    ultimately show ?thesis
      using Some touch_filter_ok [OF ok1, of a] logs by (subst rejects_loop.simps) (auto simp: Let_def)
  qed
  show ?thesis using a k e ok1 logs loop by (cases l) (auto simp: bufferLogAccountFilterRejectsKey_def)
qed

section \<open>Reads find the newest value\<close>

lemma matches_own_identity: "matchesFile (setFileIdentity i f) f"
  by (simp add: matchesFile_def setFileIdentity_def bufferLogFileIdentity_def Let_def)

lemma setFileIdentity_parts [simp]:
  "bi_path (setFileIdentity i f) = bi_path i" "bi_entries (setFileIdentity i f) = bi_entries i"
  by (simp_all add: setFileIdentity_def bufferLogFileIdentity_def Let_def)

lemma index_inv_add:
  assumes "index_inv m logs hist" "map_of es = refs (keyed 0 (hist a))" "logs a = Some f"
  shows "index_inv (m(a \<mapsto> setFileIdentity (new_index a \<lparr>bi_entries := es\<rparr>) f)) logs hist"
  using assms matches_own_identity by (auto simp: index_inv_def new_index_def)

lemma rebuild_ok:
  assumes ok: "buffer_ok db hist" and a: "a \<noteq> []"
  shows "\<exists>db'. rebuildBufferLogPhysicalIndexFromBuffer a (fwd_log (hist a)) (int (length (fwd_log (hist a)))) db = (None, db')
    \<and> buffer_ok db' hist \<and> bd_logs db' = bd_logs db \<and> still_loaded hist db db'"
proof (cases "fwd_log (hist a) = []")
  case True
  then show ?thesis using ok by (simp add: rebuildBufferLogPhysicalIndexFromBuffer_def)
next
  case False
  obtain rs where rs: "scan_log (fwd_log (hist a)) 0 = Inr rs" "[r \<leftarrow> rs. fst r \<noteq> []] = keyed 0 (hist a)"
    using scan_whole_log [OF buffer_ok_parts(2) [OF ok a]] by blast
  have es: "map (\<lambda>(k, off, v). (bufferLogDiskIndexKeyHash a k, off)) [r \<leftarrow> rs. fst r \<noteq> []] = key_hashes a (hist a)"
    by (simp add: rs(2) key_hashes_def hashed_def case_prod_beta)
  let ?n = "unat (bufferLogDiskIndexBucketCountForRecords (of_nat (length (key_hashes a (hist a)))))"
  let ?f = "index_bytes (length (fwd_log (hist a))) ?n (key_hashes a (hist a))"
  have "index_sound a (hist a) (Some ?f)" using bucket_count_ok by (auto simp: index_sound_def)
  then have "buffer_ok (db\<lparr>bd_idxs := (bd_idxs db)(a \<mapsto> ?f)\<rparr>) hist" using ok by (simp add: buffer_ok_def files_ok_def)
  then show ?thesis
    using a False ok by (simp add: rebuildBufferLogPhysicalIndexFromBuffer_def rs(1) es rebuilt_file_index Let_def)
qed

lemma maybe_rebuild_ok:
  assumes "buffer_ok db hist" "a \<noteq> []"
  shows "buffer_ok (maybeRebuildBufferLogPhysicalIndex a (fwd_log (hist a)) (int (length (fwd_log (hist a)))) db) hist"
    "bd_logs (maybeRebuildBufferLogPhysicalIndex a (fwd_log (hist a)) (int (length (fwd_log (hist a)))) db) = bd_logs db"
    "still_loaded hist db (maybeRebuildBufferLogPhysicalIndex a (fwd_log (hist a)) (int (length (fwd_log (hist a)))) db)"
proof -
  obtain db' where r: "rebuildBufferLogPhysicalIndexFromBuffer a (fwd_log (hist a)) (int (length (fwd_log (hist a)))) db = (None, db')"
      "buffer_ok db' hist" "bd_logs db' = bd_logs db" "still_loaded hist db db'"
    using rebuild_ok [OF assms] by blast
  have f: "bd_logs (removeBufferLogAccountFilter a db') = bd_logs db" using r(3) by (simp add: removeBufferLogAccountFilter_def)
  show "buffer_ok (maybeRebuildBufferLogPhysicalIndex a (fwd_log (hist a)) (int (length (fwd_log (hist a)))) db) hist"
    "bd_logs (maybeRebuildBufferLogPhysicalIndex a (fwd_log (hist a)) (int (length (fwd_log (hist a)))) db) = bd_logs db"
    "still_loaded hist db (maybeRebuildBufferLogPhysicalIndex a (fwd_log (hist a)) (int (length (fwd_log (hist a)))) db)"
    using assms r(1,4) remove_filter_ok [OF r(2), of a] f
    by (simp_all add: maybeRebuildBufferLogPhysicalIndex_def del: concat_eq_Nil_conv)
qed

lemma get_index_ok:
  assumes ok: "buffer_ok db hist" and a: "a \<noteq> []" and none: "map_of (bd_indexes db) a = None"
  shows "\<exists>i db'. getBufferLogIndex a db = Some (Inr (Some i), db') \<and> buffer_ok db' hist \<and> bd_logs db' = bd_logs db \<and> still_loaded hist db db'
    \<and> bi_path i = a \<and> map_of (bi_entries i) = refs (keyed 0 (hist a)) \<and> (\<forall>f. bd_logs db a = Some f \<longrightarrow> matchesFile i f)"
proof (cases "bd_logs db a")
  case None
  have h: "hist a = []" by (rule no_log_no_items [OF ok a None])
  have "index_inv ((map_of (bd_indexes db))(a \<mapsto> new_index a)) (bd_logs db) hist"
    using buffer_ok_invs(2) [OF ok] h None by (auto simp: index_inv_def new_index_def refs_def)
  from cache_ok_returns [OF ok a this] show ?thesis
    using a none None h by (auto simp: getBufferLogIndex_def buildBufferLogIndexForAccount_def new_index_def refs_def)
next
  case (Some info)
  have data: "lf_data info = fwd_log (hist a)" using buffer_ok_parts(1) [OF ok a] Some by (simp add: log_data_def)
  obtain rs where rs: "scan_log (fwd_log (hist a)) 0 = Inr rs" "[r \<leftarrow> rs. fst r \<noteq> []] = keyed 0 (hist a)"
    using scan_whole_log [OF buffer_ok_parts(2) [OF ok a]] by blast
  define es where "es = fold (\<lambda>e. AList.update (fst e) (entry_ref e)) (keyed 0 (hist a)) []"
  have es: "map_of es = refs (keyed 0 (hist a))" by (simp add: es_def fold_update_refs)
  define i where "i = setFileIdentity (new_index a \<lparr>bi_entries := es\<rparr>) info"
  define db1 where "db1 = maybeRebuildBufferLogPhysicalIndex a (fwd_log (hist a)) (int (length (fwd_log (hist a)))) db"
  have ok1: "buffer_ok db1 hist" "bd_logs db1 = bd_logs db" "still_loaded hist db db1" unfolding db1_def using maybe_rebuild_ok [OF ok a] by auto
  have "index_inv ((map_of (bd_indexes db1))(a \<mapsto> i)) (bd_logs db1) hist"
    unfolding i_def using es Some ok1 by (intro index_inv_add buffer_ok_invs(2)) simp_all
  from cache_ok_returns [OF ok1(1) a this] obtain db2 where
    cached: "cacheBufferLogIndexLocked a i db1 = Some db2" "buffer_ok db2 hist" "bd_logs db2 = bd_logs db1" "still_loaded hist db1 db2" by blast
  have "getBufferLogIndex a db = Option.bind (cacheBufferLogIndexLocked a i db1) (\<lambda>d. Some (Inr (Some i), d))"
    using a none Some data rs by (simp add: getBufferLogIndex_def buildBufferLogIndexForAccount_def i_def es_def db1_def)
  moreover have "bi_path i = a" "bi_entries i = es" "\<forall>f. bd_logs db a = Some f \<longrightarrow> matchesFile i f"
    using Some matches_own_identity by (auto simp: i_def new_index_def)
  ultimately show ?thesis using cached ok1(2) still_loaded_trans [OF ok1(3) cached(4)] es by simp
qed

lemma table_offsets: "map br_logOffset (snd (table n es)) = map (\<lambda>e. int (snd e)) es"
  by (rule nth_equalityI) (simp_all add: table_offset)

lemma table_hash: "i < length es \<Longrightarrow> br_keyHash (snd (table n es) ! i) = fst (es ! i)"
proof (induction es rule: rev_induct)
  case (snoc e es)
  then show ?case by (cases e) (simp add: table_snoc_parts nth_append)
qed simp

lemma index_records_fold:
  assumes ok: "\<forall>it \<in> set items. item_ok it" and len: "length (fwd_log items) < 2 ^ 63" and n: "bucket_ok n"
  shows "forEachBufferLogDiskIndexRecord (index_bytes cov n (key_hashes a items)) (index_meta cov n (key_hashes a items))
      (index_record a (fwd_log items)) [] = Inr (fold (\<lambda>e. AList.update (fst e) (entry_ref e)) (keyed 0 items) [])"
proof -
  let ?es = "key_hashes a items" and ?ks = "keyed 0 items"
  define G where "G z = (case readBufferLogRecordRef (fwd_log items) z None of Inr (Some (k, ref)) \<Rightarrow> AList.update k ref | _ \<Rightarrow> id)" for z
  have G: "G (int (fst (snd e))) = AList.update (fst e) (entry_ref e)" if "e \<in> set ?ks" for e
    using read_keyed(1) [OF ok that] by (simp add: G_def)
  have step: "index_record a (fwd_log items) rec s = Inr (G (br_logOffset rec) s)" if rec: "rec \<in> set (snd (table n ?es))" for rec s
  proof -
    obtain i where i: "i < length ?ks" "rec = snd (table n ?es) ! i" using rec by (auto simp: in_set_conv_nth key_hashes_def)
    then have e: "?ks ! i \<in> set ?ks" by simp
    have "br_logOffset rec = int (fst (snd (?ks ! i)))" "br_keyHash rec = bufferLogDiskIndexKeyHash a (fst (?ks ! i))"
      using i by (simp_all add: table_offset table_hash key_hashes_def hashed_def)
    then show ?thesis using read_keyed(1) [OF ok e] by (simp add: index_record_def G_def)
  qed
  have "fold (\<lambda>rec. G (br_logOffset rec)) (snd (table n ?es)) [] = fold G (map br_logOffset (snd (table n ?es))) []"
    by (simp add: fold_map comp_def)
  also have "\<dots> = fold (\<lambda>e. G (int (fst (snd e)))) ?ks []"
    by (simp add: table_offsets key_hashes_def hashed_def fold_map comp_def)
  also have "\<dots> = fold (\<lambda>e. AList.update (fst e) (entry_ref e)) ?ks []" by (rule fold_cong) (simp_all add: G)
  finally show ?thesis using forEach_index [OF n key_hashes_bounds [OF ok len] step] by simp
qed

lemma promote_ok:
  assumes ok: "buffer_ok db hist" and a: "a \<noteq> []"
  shows "\<exists>db'. maybePromoteBufferLogPhysicalIndex a n db = Some db' \<and> buffer_ok db' hist \<and> bd_logs db' = bd_logs db \<and> still_loaded hist db db'"
proof -
  have *: "\<exists>db'. cacheBufferLogIndexLocked a i db = Some db' \<and> buffer_ok db' hist \<and> bd_logs db' = bd_logs db \<and> still_loaded hist db db'"
    if built: "buildBufferLogIndexFromPhysicalIndex a db = Inr (Some i)" and ne: "bi_entries i \<noteq> []" for i
  proof (cases "bd_logs db a")
    case None
    then show ?thesis using built ne a by (auto simp: buildBufferLogIndexFromPhysicalIndex_def new_index_def)
  next
    case (Some info)
    have data: "lf_data info = fwd_log (hist a)" using buffer_ok_parts(1) [OF ok a] Some by (simp add: log_data_def)
    obtain meta where m: "readBufferLogDiskIndexMetadataFull (bd_idxs db a) = Some meta" "bm_coveredEnd meta = int (length (fwd_log (hist a)))"
      using built a Some data by (auto simp: buildBufferLogIndexFromPhysicalIndex_def split: option.splits if_splits)
    obtain b where b: "bucket_ok b" "bd_idxs db a = Some (index_bytes (length (fwd_log (hist a))) b (key_hashes a (hist a)))"
        "meta = index_meta (length (fwd_log (hist a))) b (key_hashes a (hist a))"
      by (rule index_loads [OF ok a _ m]) (simp add: Some)
    have each: "forEachBufferLogDiskIndexRecord (the (bd_idxs db a)) meta (index_record a (fwd_log (hist a))) [] =
        Inr (fold (\<lambda>e. AList.update (fst e) (entry_ref e)) (keyed 0 (hist a)) [])"
      unfolding b(2,3) option.sel by (rule index_records_fold [OF buffer_ok_parts(2,3) [OF ok a] b(1)])
    have i: "i = setFileIdentity (new_index a \<lparr>bi_entries := fold (\<lambda>e. AList.update (fst e) (entry_ref e)) (keyed 0 (hist a)) []\<rparr>) info"
      using built a Some data m each by (simp add: buildBufferLogIndexFromPhysicalIndex_def split: if_splits)
    have "index_inv ((map_of (bd_indexes db))(a \<mapsto> i)) (bd_logs db) hist"
      unfolding i using Some ok by (intro index_inv_add buffer_ok_invs(2)) (simp_all add: fold_update_refs)
    from cache_ok_returns [OF ok a this] show ?thesis by simp
  qed
  then show ?thesis using ok by (auto simp: maybePromoteBufferLogPhysicalIndex_def split: sum.splits option.splits)
qed

lemma read_ref_ok:
  assumes "\<forall>it \<in> set items. item_ok it" "k \<noteq> []" "refs (keyed 0 items) k = Some ref"
  shows "\<exists>v. newest (records items) k = Some v \<and> read_ref (fwd_log items) ref = Inr v"
proof -
  obtain v where v: "newest (records items) k = Some v" "er_valueLen ref = length v"
      "readAt (fwd_log items) (er_valueOffset ref) (er_valueLen ref) = Inr v"
    using refs_value [OF assms(1,2)] assms(3) by auto
  then show ?thesis by (cases "v = []") (auto simp: read_ref_def)
qed

lemma no_ref: "\<forall>it \<in> set items. item_ok it \<Longrightarrow> k \<noteq> [] \<Longrightarrow> refs (keyed 0 items) k = None \<Longrightarrow> newest (records items) k = None"
  using refs_value by fastforce

lemma read_without_cache:
  assumes ok: "buffer_ok db hist" and a: "a \<noteq> []" and k: "k \<noteq> []" and none: "map_of (bd_indexes db) a = None"
  shows "\<exists>db'. read_by_index a k db again = Some (Inr (newest (records (hist a)) k), db') \<and> buffer_ok db' hist \<and> bd_logs db' = bd_logs db \<and> still_loaded hist db db'"
proof -
  note items = buffer_ok_parts(2) [OF ok a]
  have cached: "readBufferLogValueByCachedIndex a k db = (Inr ValueUnused, db)" using none by (simp add: readBufferLogValueByCachedIndex_def)
  obtain i db1 where g: "getBufferLogIndex a db = Some (Inr (Some i), db1)" "buffer_ok db1 hist" "bd_logs db1 = bd_logs db" "still_loaded hist db db1"
      "bi_path i = a" "map_of (bi_entries i) = refs (keyed 0 (hist a))" "\<forall>f. bd_logs db a = Some f \<longrightarrow> matchesFile i f"
    using get_index_ok [OF ok a none] by blast
  show ?thesis
  proof (cases "bd_logs db a")
    case None
    have h: "hist a = []" by (rule no_log_no_items [OF ok a None])
    then show ?thesis using cached None g a by (auto simp: read_by_index_def read_indexed_def readBufferLogValueByDiskIndex_def)
  next
    case (Some info)
    have data: "lf_data info = fwd_log (hist a)" using buffer_ok_parts(1) [OF ok a] Some by (simp add: log_data_def)
    have scanned: ?thesis if "readBufferLogValueByDiskIndex a k db = Inr ValueUnused"
    proof (cases "refs (keyed 0 (hist a)) k")
      case None
      then show ?thesis using cached that g no_ref [OF items k] by (simp add: read_by_index_def read_indexed_def)
    next
      case ref: (Some ref)
      obtain v where "newest (records (hist a)) k = Some v" "read_ref (fwd_log (hist a)) ref = Inr v"
        using read_ref_ok [OF items k ref] by blast
      then show ?thesis using cached that g ref Some data by (auto simp: read_by_index_def read_indexed_def read_ref_def)
    qed
    show ?thesis
    proof (cases "\<exists>meta. readBufferLogDiskIndexMetadataFull (bd_idxs db a) = Some meta \<and> bm_coveredEnd meta = int (length (fwd_log (hist a)))")
      case True
      then obtain meta where m: "readBufferLogDiskIndexMetadataFull (bd_idxs db a) = Some meta" "bm_coveredEnd meta = int (length (fwd_log (hist a)))"
        by blast
      obtain n where n: "bucket_ok n" "bd_idxs db a = Some (index_bytes (length (fwd_log (hist a))) n (key_hashes a (hist a)))"
        by (rule index_loads [OF ok a _ m]) (simp add: Some)
      have look: "lookupBufferLogPhysicalIndexRef a k (bd_idxs db a) (lf_data info) = Inr (answer (refs (keyed 0 (hist a)) k))"
        unfolding n(2) data by (rule lookup_index [OF items a buffer_ok_parts(3) [OF ok a] n(1)])
      show ?thesis
      proof (cases "refs (keyed 0 (hist a)) k")
        case None
        then show ?thesis
          using cached a Some look no_ref [OF items k] promote_ok [OF ok a, of "log_size a db"]
          by (auto simp: read_by_index_def readBufferLogValueByDiskIndex_def answer_def)
      next
        case ref: (Some ref)
        obtain v where "newest (records (hist a)) k = Some v" "read_ref (fwd_log (hist a)) ref = Inr v"
          using read_ref_ok [OF items k ref] by blast
        then show ?thesis
          using cached a Some look ref data promote_ok [OF ok a, of "log_size a db"]
          by (auto simp: read_by_index_def readBufferLogValueByDiskIndex_def answer_def ref_value_def)
      qed
    next
      case False
      then have "lookupBufferLogPhysicalIndexRef a k (bd_idxs db a) (lf_data info) = Inr IndexUnused"
        using a data by (auto simp: lookupBufferLogPhysicalIndexRef_def readBufferLogDiskIndexMetadataFull_def split: option.splits)
      with a Some show ?thesis by (intro scanned) (simp add: readBufferLogValueByDiskIndex_def)
    qed
  qed
qed

lemma read_by_index_ok:
  assumes ok: "buffer_ok db hist" and a: "a \<noteq> []" and k: "k \<noteq> []"
  shows "\<exists>db'. readBufferLogValueByIndex a k db = Some (Inr (newest (records (hist a)) k), db') \<and> buffer_ok db' hist \<and> bd_logs db' = bd_logs db \<and> still_loaded hist db db'"
proof (cases "map_of (bd_indexes db) a")
  case None
  show ?thesis unfolding readBufferLogValueByIndex_def by (rule read_without_cache [OF ok a k None])
next
  case (Some i)
  note items = buffer_ok_parts(2) [OF ok a]
  have i: "bi_path i = a" "map_of (bi_entries i) = refs (keyed 0 (hist a))" "\<forall>f. bd_logs db a = Some f \<longrightarrow> matchesFile i f"
    using buffer_ok_invs(2) [OF ok] Some by (auto simp: index_inv_def)
  show ?thesis
  proof (cases "bd_logs db a")
    case None
    then have "readBufferLogValueByIndex a k db = read_by_index a k (resetBufferLogState a db) (\<lambda>db. Some (Inr None, db))"
      using Some i a k
      by (simp add: readBufferLogValueByIndex_def read_by_index_def [of _ _ db] readBufferLogValueByCachedIndex_def retry_def isStaleBufferLogReadError_def)
    moreover obtain db' where "read_by_index a k (resetBufferLogState a db) (\<lambda>db. Some (Inr None, db)) = Some (Inr (newest (records (hist a)) k), db')"
        "buffer_ok db' hist" "bd_logs db' = bd_logs (resetBufferLogState a db)" "still_loaded hist (resetBufferLogState a db) db'"
      using read_without_cache [OF reset_ok [OF ok] a k reset_parts(3) [OF a]] by blast
    ultimately show ?thesis
      using reset_parts(1) [OF a] still_loaded_trans [OF reset_parts(4) [of a hist db, OF a no_log_no_items [OF ok a None]]] by simp
  next
    case log: (Some info)
    have data: "lf_data info = fwd_log (hist a)" using buffer_ok_parts(1) [OF ok a] log by (simp add: log_data_def)
    show ?thesis
    proof (cases "refs (keyed 0 (hist a)) k")
      case None
      then show ?thesis
        using Some i a k log no_ref [OF items k] touch_index_ok [OF ok, of a]
        by (simp add: readBufferLogValueByIndex_def read_by_index_def readBufferLogValueByCachedIndex_def)
    next
      case ref: (Some ref)
      obtain v where "newest (records (hist a)) k = Some v" "read_ref (fwd_log (hist a)) ref = Inr v"
        using read_ref_ok [OF items k ref] by blast
      then show ?thesis
        using Some i a k log ref data touch_index_ok [OF ok, of a]
        by (simp add: readBufferLogValueByIndex_def read_by_index_def readBufferLogValueByCachedIndex_def ref_value_def)
    qed
  qed
qed

lemma mark_accessed_ok: "buffer_ok (markBufferLogAccessed a k v db) hist = buffer_ok db hist"
    "bd_logs (markBufferLogAccessed a k v db) = bd_logs db"
  by (simp_all add: markBufferLogAccessed_def set_accessed_def)

lemma read_value_ok:
  assumes ok: "buffer_ok db hist" and a: "a \<noteq> []" and k: "k \<noteq> []"
  shows "\<exists>db'. readBufferLogValue a k db = Some (Inr (newest (records (hist a)) k), db') \<and> buffer_ok db' hist \<and> bd_logs db' = bd_logs db \<and> still_loaded hist db db'"
proof -
  obtain r db1 where b: "bloom_rejects a k db = (Inr r, db1)" and ok1: "buffer_ok db1 hist" "bd_logs db1 = bd_logs db" "still_loaded hist db db1" "r \<longrightarrow> k \<notin> buffered (hist a)"
    using bloom_rejects_ok [OF ok a k] by blast
  obtain d r2 db2 where f: "bufferLogAccountFilterRejectsKey a k db1 = Some (Inr (d, r2), db2)" and ok2: "buffer_ok db2 hist"
      "bd_logs db2 = bd_logs db1" "still_loaded hist db1 db2" "d \<and> r2 \<longrightarrow> k \<notin> buffered (hist a)"
    using rejects_ok [OF ok1(1) a k] by blast
  obtain db3 where v: "readBufferLogValueByIndex a k db2 = Some (Inr (newest (records (hist a)) k), db3)" "buffer_ok db3 hist" "bd_logs db3 = bd_logs db2" "still_loaded hist db2 db3"
    using read_by_index_ok [OF ok2(1) a k] by blast
  show ?thesis
    using a k b ok1 f ok2 v newest_buffered [OF k, of "hist a"] still_loaded_trans [OF ok1(3) ok2(3)]
      still_loaded_trans [OF still_loaded_trans [OF ok1(3) ok2(3)] v(4)]
    by (cases r; cases "d \<and> r2"; cases "newest (records (hist a)) k") (auto simp: readBufferLogValue_def mark_accessed_ok)
qed

end
