(* ===== verification/Buffer_Log_Theorems.thy ===== *)
theory Buffer_Log_Theorems
  imports Buffer_Log_Correct Simulation
begin

text \<open>
  Appends to the buffer logs keep the invariant of \<open>Buffer_Log_Correct\<close>, and the results: runs of
  appends and reads behave as a map from accounts and keys to values, the lookup through the index
  file agrees with the newest record, the filters are exact or err on the safe side, every
  operation returns. The last section shows the key that a reopened
  database loses.
\<close>

section \<open>One append\<close>

definition appended :: "kvPair list \<Rightarrow> u64 \<Rightarrow> log_item list" where
  "appended kvs blockID = rec_items kvs @ tag_items blockID"

definition append_ok :: "kvPair list \<Rightarrow> bool" where
  "append_ok kvs \<longleftrightarrow> kvs \<noteq> [] \<and> (\<forall>kv \<in> set kvs. entry_ok kv \<and> fst kv \<noteq> [])"

lemma append_ok_items: "append_ok kvs \<Longrightarrow> \<forall>it \<in> set (appended kvs b). item_ok it"
  using item_ok_rec_items [of kvs] by (auto simp: append_ok_def appended_def)

lemma records_appended [simp]: "records (appended kvs b) = kvs"
  by (simp add: appended_def)

lemma payload_appended:
  assumes "append_ok kvs"
  shows "serializeStorageSegment kvs = Inr (fwd_log (rec_items kvs))"
    and "appendForwardCommitTag (fwd_log (rec_items kvs)) b = fwd_log (appended kvs b)"
  using assms serializeStorageSegment_log [of kvs] appendForwardCommitTag_log [of "rec_items kvs" b]
  by (auto simp: append_ok_def appended_def entry_ok_size_check)

lemma keyed_rec_items: "fst ` set (keyed c (rec_items kvs)) = {k \<in> fst ` set kvs. k \<noteq> []}"
proof (induction kvs arbitrary: c)
  case (Cons kv kvs)
  then show ?case by (cases kv) (auto simp: rec_items_def)
qed (simp add: rec_items_def)

lemma keyed_appended: "keyed 0 (items @ appended kvs b) = keyed 0 items @ keyed (length (fwd_log items)) (rec_items kvs)"
  by (simp add: appended_def keyed_append)

lemma buffered_appended: "append_ok kvs \<Longrightarrow> buffered (items @ appended kvs b) = buffered items \<union> fst ` set kvs"
  by (auto simp: buffered_def keyed_appended image_Un keyed_rec_items append_ok_def)

lemma key_hashes_appended: "key_hashes a (items @ appended kvs b) = key_hashes a items @ kv_hashes a (length (fwd_log items)) kvs"
  by (simp add: key_hashes_def kv_hashes_def keyed_appended hashed_def)

lemma length_kv_hashes: "append_ok kvs \<Longrightarrow> length (kv_hashes a c kvs) = length kvs"
proof -
  have "\<forall>kv \<in> set kvs. fst kv \<noteq> [] \<Longrightarrow> length (kv_hashes a c kvs) = length kvs"
    by (induction kvs arbitrary: c) (simp_all add: kv_hashes_Cons, simp add: kv_hashes_def rec_items_def hashed_def)
  then show "append_ok kvs \<Longrightarrow> length (kv_hashes a c kvs) = length kvs" by (simp add: append_ok_def)
qed

lemma add_to_bloom_covers:
  assumes "bloom_ok b" "a \<noteq> []"
  shows "bloom_ok (add_to_bloom a kvs b)"
    and "bloom_covers b g \<Longrightarrow> bloom_covers (add_to_bloom a kvs b) g"
    and "k \<in> fst ` set kvs \<Longrightarrow> k \<noteq> [] \<Longrightarrow> bloom_covers (add_to_bloom a kvs b) (bufferLogDiskIndexKeyHash a k)"
proof -
  have "bloom_ok (add_to_bloom a kvs b) \<and> (\<forall>g. bloom_covers b g \<longrightarrow> bloom_covers (add_to_bloom a kvs b) g)
      \<and> (\<forall>k \<in> fst ` set kvs. k \<noteq> [] \<longrightarrow> bloom_covers (add_to_bloom a kvs b) (bufferLogDiskIndexKeyHash a k))"
    using assms(1)
  proof (induction kvs arbitrary: b)
    case Nil
    then show ?case by (simp add: add_to_bloom_def)
  next
    case (Cons kv kvs)
    define b1 where "b1 = (if fst kv = [] then b else bloom_add b a (fst kv))"
    have b1: "bloom_ok b1" "\<forall>g. bloom_covers b g \<longrightarrow> bloom_covers b1 g"
        "fst kv \<noteq> [] \<Longrightarrow> bloom_covers b1 (bufferLogDiskIndexKeyHash a (fst kv))"
      using Cons.prems assms(2) bloom_addHash_covers [of b] by (auto simp: b1_def bloom_add_def)
    have "add_to_bloom a (kv # kvs) b = add_to_bloom a kvs b1" by (simp add: add_to_bloom_def b1_def)
    with Cons.IH [OF b1(1)] b1 show ?case by auto
  qed
  then show "bloom_ok (add_to_bloom a kvs b)" "bloom_covers b g \<Longrightarrow> bloom_covers (add_to_bloom a kvs b) g"
    "k \<in> fst ` set kvs \<Longrightarrow> k \<noteq> [] \<Longrightarrow> bloom_covers (add_to_bloom a kvs b) (bufferLogDiskIndexKeyHash a k)" by auto
qed

lemma bloom_append:
  assumes inv: "bloom_inv b loaded hist" and a: "a \<noteq> []" and kvs: "append_ok kvs" and guard: "a \<in> loaded \<or> hist a = []"
  shows "bloom_inv (add_to_bloom a kvs b) (insert a loaded) (hist(a := hist a @ appended kvs t))"
proof -
  have ok: "bloom_ok b" using inv by (simp add: bloom_inv_def)
  have old: "\<forall>k \<in> buffered (hist x). bloom_covers b (bufferLogDiskIndexKeyHash x k)" if "x \<in> insert a loaded" for x
    using inv guard that by (auto simp: bloom_inv_def)
  have new: "\<forall>k \<in> fst ` set kvs. k \<noteq> []" using kvs by (auto simp: append_ok_def)
  show ?thesis
    unfolding bloom_inv_def using add_to_bloom_covers [OF ok a, where kvs = kvs] old new buffered_appended [OF kvs, of "hist a" t] by auto
qed

lemma add_hashes_covers:
  assumes "sorted (kf_hashes f)"
  shows "kf_hashes (fst (add_hashes a kvs f)) = kf_hashes f" "kf_logSize (fst (add_hashes a kvs f)) = kf_logSize f"
    "kf_tail f \<subseteq> kf_tail (fst (add_hashes a kvs f))"
    "\<forall>k \<in> fst ` set kvs. k \<noteq> [] \<longrightarrow> bufferLogDiskIndexKeyHash a k \<in> set (kf_hashes f) \<union> kf_tail (fst (add_hashes a kvs f))"
proof -
  have "kf_hashes (fst (add_hashes a kvs f)) = kf_hashes f \<and> kf_logSize (fst (add_hashes a kvs f)) = kf_logSize f
    \<and> kf_tail f \<subseteq> kf_tail (fst (add_hashes a kvs f))
    \<and> (\<forall>k \<in> fst ` set kvs. k \<noteq> [] \<longrightarrow> bufferLogDiskIndexKeyHash a k \<in> set (kf_hashes f) \<union> kf_tail (fst (add_hashes a kvs f)))"
    using assms
  proof (induction kvs arbitrary: f)
    case (Cons kv kvs)
    let ?h = "bufferLogDiskIndexKeyHash a (fst kv)"
    show ?case
    proof (cases "fst kv = [] \<or> bufferLogAccountKeyFilterContains f ?h")
      case True
      then have "add_hashes a (kv # kvs) f = add_hashes a kvs f" by (auto simp: Let_def)
      with Cons.IH [OF Cons.prems] True filter_contains [OF Cons.prems, of ?h] show ?thesis by auto
    next
      case False
      let ?f = "f\<lparr>kf_tail := insert ?h (kf_tail f)\<rparr>"
      have "fst (add_hashes a (kv # kvs) f) = fst (add_hashes a kvs ?f)" using False by (simp add: Let_def split: prod.splits)
      with Cons.IH [of ?f] Cons.prems show ?thesis by auto
    qed
  qed simp
  then show "kf_hashes (fst (add_hashes a kvs f)) = kf_hashes f" "kf_logSize (fst (add_hashes a kvs f)) = kf_logSize f"
    "kf_tail f \<subseteq> kf_tail (fst (add_hashes a kvs f))"
    "\<forall>k \<in> fst ` set kvs. k \<noteq> [] \<longrightarrow> bufferLogDiskIndexKeyHash a k \<in> set (kf_hashes f) \<union> kf_tail (fst (add_hashes a kvs f))" by auto
qed

lemma filter_append:
  assumes inv: "filter_inv (map_of (bd_filters db)) hist" and kvs: "append_ok kvs" and a: "a \<noteq> []" and l: "filters_listed db"
  shows "\<exists>m d. addBufferLogAccountFilterEntries a (int (length (fwd_log (hist a @ appended kvs t)))) kvs db = Some d
    \<and> within_filters m db d \<and> filter_inv m (hist(a := hist a @ appended kvs t))"
proof (cases "map_of (bd_filters db) a")
  case None
  then have "addBufferLogAccountFilterEntries a (int (length (fwd_log (hist a @ appended kvs t)))) kvs db = Some db"
    using a kvs by (simp add: addBufferLogAccountFilterEntries_def)
  moreover have "filter_inv (map_of (bd_filters db)) (hist(a := hist a @ appended kvs t))"
    using inv None by (auto simp: filter_inv_def)
  ultimately show ?thesis using within_filters_refl [OF l] by blast
next
  case (Some f)
  define f1 n where "f1 = fst (add_hashes a kvs f)" and "n = snd (add_hashes a kvs f)"
  define len where "len = length (fwd_log (hist a @ appended kvs t))"
  define f2 where "f2 = (if int len > kf_logSize f1 then f1\<lparr>kf_logSize := int len\<rparr> else f1)"
  have f: "kf_logSize f = int (length (fwd_log (hist a)))" "sorted (kf_hashes f)"
      "\<forall>k \<in> buffered (hist a). bufferLogDiskIndexKeyHash a k \<in> set (kf_hashes f) \<union> kf_tail f"
    using inv Some by (auto simp: filter_inv_def)
  note add = add_hashes_covers [OF f(2), where a = a and kvs = kvs, folded f1_def]
  have "kf_logSize f2 = int len" "kf_hashes f2 = kf_hashes f" "kf_tail f2 = kf_tail f1"
    using add(1,2) f(1) by (auto simp: f2_def len_def)
  moreover have "\<forall>k \<in> fst ` set kvs. k \<noteq> []" using kvs by (auto simp: append_ok_def)
  ultimately have "filter_inv ((map_of (bd_filters db))(a \<mapsto> f2)) (hist(a := hist a @ appended kvs t))"
    using inv f add(3,4) by (auto simp: filter_inv_def len_def buffered_appended [OF kvs])
  moreover have "addBufferLogAccountFilterEntries a (int len) kvs db = evictBufferLogAccountFiltersLocked a
      (db\<lparr>bd_filterLRU := a # remove1 a (bd_filterLRU db), bd_filters := AList.update a f2 (bd_filters db),
          bd_filterHashCount := bd_filterHashCount db + int n\<rparr>)"
    using a kvs Some
    by (simp add: addBufferLogAccountFilterEntries_def append_ok_def Let_def case_prod_beta touch_filter_def f2_def flip: f1_def n_def)
  ultimately show ?thesis
    using update_filter_within [OF l a, where p = a and f = f2 and c = "bd_filterHashCount db + int n"] unfolding len_def by auto
qed

lemma refs_append: "refs (xs @ ys) = refs xs ++ refs ys"
  by (simp add: refs_def map_add_def fun_eq_iff split: option.splits)

lemma index_append:
  assumes inv: "index_inv (map_of (bd_indexes db)) logs hist" and kvs: "append_ok kvs" and a: "a \<noteq> []" and l: "indexes_listed db"
  defines "c \<equiv> length (fwd_log (hist a))"
  shows "\<exists>m d. updateBufferLogIndexForAppend a (int c) info kvs db = Some d \<and> within_indexes m db d
    \<and> index_inv m (logs(a \<mapsto> info)) (hist(a := hist a @ appended kvs t))"
proof -
  have entries: "map_of (add_refs (int c) kvs es) = map_of es ++ refs (keyed c (rec_items kvs))" for es
    by (simp add: add_refs_keyed fold_update_refs)
  have extend: "index_inv ((map_of (bd_indexes db))(a \<mapsto> setFileIdentity i info)) (logs(a \<mapsto> info)) (hist(a := hist a @ appended kvs t))"
    if "bi_path i = a" "map_of (bi_entries i) = refs (keyed 0 (hist a)) ++ refs (keyed c (rec_items kvs))" for i
    using inv that matches_own_identity by (auto simp: index_inv_def keyed_appended refs_append c_def)
  show ?thesis
  proof (cases "map_of (bd_indexes db) a")
    case None
    show ?thesis
    proof (cases "c = 0")
      case True
      then have "hist a = []" using fwd_enc_pos by (cases "hist a") (auto simp: c_def)
      then have "index_inv ((map_of (bd_indexes db))(a \<mapsto> setFileIdentity (new_index a \<lparr>bi_entries := add_refs (int c) kvs []\<rparr>) info))
          (logs(a \<mapsto> info)) (hist(a := hist a @ appended kvs t))"
        by (intro extend) (simp_all add: new_index_def entries refs_def)
      moreover have "updateBufferLogIndexForAppend a (int c) info kvs db =
          cacheBufferLogIndexLocked a (setFileIdentity (new_index a \<lparr>bi_entries := add_refs (int c) kvs []\<rparr>) info) db"
        using None True a kvs by (simp add: updateBufferLogIndexForAppend_def append_ok_def)
      ultimately show ?thesis using cache_within [OF l a] by metis
    next
      case False
      then have "updateBufferLogIndexForAppend a (int c) info kvs db = Some db"
        using None by (simp add: updateBufferLogIndexForAppend_def)
      moreover have "index_inv (map_of (bd_indexes db)) (logs(a \<mapsto> info)) (hist(a := hist a @ appended kvs t))"
        using inv None by (auto simp: index_inv_def)
      ultimately show ?thesis using within_indexes_refl [OF l] by blast
    qed
  next
    case (Some i)
    then have i: "bi_path i = a" "map_of (bi_entries i) = refs (keyed 0 (hist a))" using inv by (auto simp: index_inv_def)
    let ?i = "i\<lparr>bi_entries := add_refs (int c) kvs (bi_entries i)\<rparr>"
    have "index_inv ((map_of (bd_indexes db))(a \<mapsto> setFileIdentity ?i info)) (logs(a \<mapsto> info)) (hist(a := hist a @ appended kvs t))"
      using i by (intro extend) (simp_all add: entries)
    moreover have "updateBufferLogIndexForAppend a (int c) info kvs db = enforce_budget (touchBufferLogIndexLocked a
        (db\<lparr>bd_indexes := AList.update a (setFileIdentity ?i info) (bd_indexes db),
            bd_indexEntryCount := bd_indexEntryCount db + int (length (bi_entries ?i)) - int (length (bi_entries i))\<rparr>))"
      using Some i(1) a kvs by (simp add: updateBufferLogIndexForAppend_def append_ok_def Let_def)
    ultimately show ?thesis using update_index_within [OF l a] by metis
  qed
qed

lemma sound_index: "bucket_ok n \<Longrightarrow> index_sound a items (Some (index_bytes (length (fwd_log items)) n (key_hashes a items)))"
  by (auto simp: index_sound_def)

lemma first_index:
  assumes n: "bucket_ok n" and kvs: "append_ok kvs" and len: "length kvs < 2 ^ 63"
    and meta: "bm_recordCount meta = 0" "bm_bucketCount meta = of_nat n" "bm_recordsOffset meta = 40 + 8 * int n"
  shows "\<exists>f. writeBufferLogDiskIndexBucketHeads (bufferLogDiskIndexHeader 0 0 (of_nat n)) (replicate n 0) = Inr f
    \<and> extend_index a 0 (int cov) kvs meta (replicate n 0) f = Inr (index_bytes cov n (kv_hashes a 0 kvs))"
proof -
  let ?h = "bufferLogDiskIndexHeader 0 0 (of_nat n)"
  have ne: "kv_hashes a 0 kvs \<noteq> []" using kvs length_kv_hashes [OF kvs, of a 0] by (auto simp: append_ok_def)
  have "replicate n (0 :: u64) \<noteq> []" using n by (simp add: bucket_ok_def)
  then have "writeBufferLogDiskIndexBucketHeads ?h (replicate n 0) = Inr (?h @ concat (map PutUint64 (replicate n 0)))"
    by (intro write_first_heads) simp_all
  moreover have "extend_index a 0 (int cov) kvs meta (replicate n 0) (?h @ concat (map PutUint64 (replicate n 0))) = Inr (index_bytes cov n (kv_hashes a 0 kvs))"
    using extend_index_table [OF n ne, of "[]" ?h meta cov] len meta by (simp add: length_kv_hashes [OF kvs])
  ultimately show ?thesis by blast
qed

lemma rebuild_from_log:
  assumes ok: "\<forall>it \<in> set items. item_ok it" and a: "a \<noteq> []" and ne: "key_hashes a items \<noteq> []"
    and log: "bd_logs db a = Some info" "lf_data info = fwd_log items"
  shows "\<exists>n. bucket_ok n \<and> rebuildBufferLogPhysicalIndexFromLogFile a (int (length (fwd_log items))) db =
    (None, db\<lparr>bd_idxs := (bd_idxs db)(a \<mapsto> index_bytes (length (fwd_log items)) n (key_hashes a items))\<rparr>)"
proof -
  obtain rs where rs: "scan_log (fwd_log items) 0 = Inr rs" "[r \<leftarrow> rs. fst r \<noteq> []] = keyed 0 items"
    using scan_whole_log [OF ok] by blast
  have es: "map (\<lambda>(k, off, v). (bufferLogDiskIndexKeyHash a k, off)) [r \<leftarrow> rs. fst r \<noteq> []] = key_hashes a items"
    by (simp add: rs(2) key_hashes_def hashed_def case_prod_beta)
  have "fwd_log items \<noteq> []" using ne length_keyed [of 0 items] by (auto simp: key_hashes_def hashed_def simp del: concat_eq_Nil_conv)
  then have "rebuildBufferLogPhysicalIndexFromLogFile a (int (length (fwd_log items))) db = (None, db\<lparr>bd_idxs := (bd_idxs db)(a \<mapsto>
      index_bytes (length (fwd_log items)) (unat (bufferLogDiskIndexBucketCountForRecords (of_nat (length (key_hashes a items))))) (key_hashes a items))\<rparr>)"
    using a ne log
    by (simp add: rebuildBufferLogPhysicalIndexFromLogFile_def rebuildBufferLogPhysicalIndexFromBuffer_def rs(1) es rebuilt_file_index Let_def)
  then show ?thesis using bucket_count_ok by blast
qed

lemma index_file_append:
  fixes items :: "log_item list" and kvs :: "kvPair list" and t :: u64
  defines "new \<equiv> items @ appended kvs t" and "c \<equiv> length (fwd_log items)"
  assumes ok: "\<forall>it \<in> set new. item_ok it" and kvs: "append_ok kvs" and a: "a \<noteq> []" and len: "length (fwd_log new) < 2 ^ 63"
    and log: "bd_logs db a = Some info" "lf_data info = fwd_log new"
    and sound: "c \<noteq> 0 \<Longrightarrow> index_sound a items (bd_idxs db a)"
  shows "\<exists>x db'. appendBufferLogPhysicalIndexEntries a (int c) (int (length (fwd_log new))) kvs db = (None, db') \<and> index_sound a new x
    \<and> (db' = db\<lparr>bd_idxs := (bd_idxs db)(a := x)\<rparr> \<or> db' = removeBufferLogAccountFilter a (db\<lparr>bd_idxs := (bd_idxs db)(a := x)\<rparr>))"
proof -
  have ne: "kvs \<noteq> []" "[kv \<leftarrow> kvs. fst kv \<noteq> []] = kvs" using kvs by (auto simp: append_ok_def)
  have hashes: "key_hashes a new = key_hashes a items @ kv_hashes a c kvs" by (simp add: new_def c_def key_hashes_appended)
  have cnt: "length (key_hashes a items) + length kvs < 2 ^ 63"
    using key_hashes_bounds(1) [OF ok len, of a] length_kv_hashes [OF kvs, of a c] by (simp add: hashes)
  then have added: "(of_nat (length kvs) :: u64) \<noteq> 0" using ne(1) word_of_nat_neq [of "length kvs"] by simp
  have nh: "kv_hashes a c kvs \<noteq> []" using ne(1) length_kv_hashes [OF kvs, of a c] by auto
  show ?thesis
  proof (cases "c = 0")
    case True
    then have items: "items = []" using fwd_enc_pos by (cases items) (auto simp: c_def)
    define w where "w = bufferLogDiskIndexBucketCountForRecords (of_nat (length kvs))"
    have n: "bucket_ok (unat w)" unfolding w_def by (rule bucket_count_ok)
    let ?meta = "\<lparr>bm_coveredEnd = 0, bm_recordCount = 0, bm_bucketCount = w,
                  bm_recordsOffset = int bufferLogDiskIndexFileHeaderSize + uint w * int bufferLogDiskIndexBucketHeadSize, bm_fileSize = 0\<rparr>"
    have "bm_recordsOffset ?meta = 40 + 8 * int (unat w)" by (simp add: index_sizes)
    then obtain f where f: "writeBufferLogDiskIndexBucketHeads (bufferLogDiskIndexHeader 0 0 w) (replicate (unat w) 0) = Inr f"
        "extend_index a 0 (int (length (fwd_log new))) kvs ?meta (replicate (unat w) 0) f =
           Inr (index_bytes (length (fwd_log new)) (unat w) (kv_hashes a 0 kvs))"
      using first_index [OF n kvs, of ?meta a "length (fwd_log new)"] cnt by auto
    have "index_sound a new (Some (index_bytes (length (fwd_log new)) (unat w) (kv_hashes a 0 kvs)))"
      using sound_index [OF n, of a new] hashes True items by (simp add: key_hashes_def hashed_def)
    then show ?thesis
      using True a ne added f
      by (auto simp: appendBufferLogPhysicalIndexEntries_def Let_def set_index_def simp flip: w_def simp del: fun_upd_apply)
  next
    case False
    show ?thesis
    proof (cases "\<exists>meta. readBufferLogDiskIndexMetadataFull (bd_idxs db a) = Some meta \<and> bm_coveredEnd meta = int c")
      case True
      then obtain meta n where m: "readBufferLogDiskIndexMetadataFull (bd_idxs db a) = Some meta" "bm_coveredEnd meta = int c"
          and n: "bucket_ok n" "bd_idxs db a = Some (index_bytes c n (key_hashes a items))"
        using sound [OF False] by (auto simp: index_sound_def c_def)
      have c: "c < 2 ^ 63" using len by (simp add: c_def new_def)
      have meta: "meta = index_meta c n (key_hashes a items)"
        using m(1) n read_index_meta [OF n(1) c] by (simp add: readBufferLogDiskIndexMetadataFull_def)
      have ext: "extend_index a (int c) (int (length (fwd_log new))) kvs meta (fst (table n (key_hashes a items))) (index_bytes c n (key_hashes a items)) =
          Inr (index_bytes (length (fwd_log new)) n (key_hashes a new))"
        using extend_index_table [OF n(1) nh, of "key_hashes a items" "bufferLogDiskIndexHeader (int c) (of_nat (length (key_hashes a items))) (of_nat n)" meta]
          cnt length_kv_hashes [OF kvs, of a c] by (simp add: hashes meta index_meta_def) (simp add: index_bytes_def)
      have heads: "readBufferLogDiskIndexBucketHeads (index_bytes c n (key_hashes a items)) meta = Inr (fst (table n (key_hashes a items)))"
        unfolding meta by (rule read_heads_index [OF n(1)])
      obtain n' where n': "bucket_ok n'" "rebuildBufferLogPhysicalIndexFromLogFile a (int (length (fwd_log new))) db =
          (None, db\<lparr>bd_idxs := (bd_idxs db)(a \<mapsto> index_bytes (length (fwd_log new)) n' (key_hashes a new))\<rparr>)"
        using rebuild_from_log [OF ok a _ log] nh hashes by auto
      show ?thesis
        using False a ne added m n ext heads n' sound_index [OF n(1), of a new] sound_index [OF n'(1), of a new]
        by (auto simp: appendBufferLogPhysicalIndexEntries_def Let_def set_index_def simp del: fun_upd_apply)
    next
      case stale: False
      have "appendBufferLogPhysicalIndexEntries a (int c) (int (length (fwd_log new))) kvs db =
          (None, removeBufferLogAccountFilter a (db\<lparr>bd_idxs := (bd_idxs db)(a := None)\<rparr>))"
        using False stale a ne by (auto simp: appendBufferLogPhysicalIndexEntries_def Let_def split: option.splits)
      moreover have "index_sound a new None" by (simp add: index_sound_def readBufferLogDiskIndexMetadataFull_def)
      ultimately show ?thesis by blast
    qed
  qed
qed

lemma append_file_data: "lf_data (append_file stamp payload f) = log_data f @ payload"
  by (cases stamp; cases f) (simp_all add: append_file_def log_data_def)

lemma files_append:
  assumes ok: "files_ok logs idxs hist" and len: "length (fwd_log (hist a @ appended kvs t)) < 2 ^ 63" and kvs: "append_ok kvs"
    and info: "lf_data info = fwd_log (hist a @ appended kvs t)" and x: "index_sound a (hist a @ appended kvs t) x" and a: "a \<noteq> []"
  shows "files_ok (logs(a \<mapsto> info)) (idxs(a := x)) (hist(a := hist a @ appended kvs t))"
proof -
  have "\<forall>it \<in> set (hist a @ appended kvs t). item_ok it" using ok a append_ok_items [OF kvs] by (auto simp: files_ok_def)
  then show ?thesis using ok len info x by (simp add: files_ok_def log_data_def)
qed

lemma append_keeps:
  fixes hist :: "bytes \<Rightarrow> log_item list"
  assumes ok: "buffer_ok db hist" and a: "a \<noteq> []" and kvs: "append_ok kvs" and guard: "a \<in> bd_loaded db \<or> hist a = []"
    and len: "length (fwd_log (hist a @ appended kvs t)) < 2 ^ 63"
  defines "hist' \<equiv> hist(a := hist a @ appended kvs t)"
  shows "\<exists>db'. appendBufferLogEntries stamp a kvs t db = Some (None, db') \<and> buffer_ok db' hist' \<and> bd_loaded db' = insert a (bd_loaded db)"
proof -
  let ?new = "hist a @ appended kvs t"
  define c where "c = length (fwd_log (hist a))"
  define b where "b = add_to_bloom a kvs (bd_bloom db)"
  define info where "info = append_file stamp (fwd_log (appended kvs t)) (bd_logs db a)"
  define db0 where "db0 = db\<lparr>bd_bloom := b, bd_loaded := insert a (bd_loaded db)\<rparr>"
  define db1 where "db1 = db0\<lparr>bd_logs := (bd_logs db)(a \<mapsto> info)\<rparr>"
  have mark: "markBufferLogBloomLoaded a (db\<lparr>bd_bloom := add_to_bloom a kvs (bd_bloom db)\<rparr>) = db0" "bd_logs db0 = bd_logs db"
    using a by (simp_all add: markBufferLogBloomLoaded_def db0_def b_def)
  define db2 where "db2 = (if int c = 0 then removeBufferLogAccountFilter a db1 else db1)"
  have kne: "kvs \<noteq> []" using kvs by (simp add: append_ok_def)
  have data: "log_data (bd_logs db a) = fwd_log (hist a)" "lf_data info = fwd_log ?new"
    using buffer_ok_parts(1) [OF ok a] by (simp_all add: info_def append_file_data)
  have off: "(case bd_logs db a of None \<Rightarrow> 0 | Some f \<Rightarrow> int (length (lf_data f))) = int c"
    using data(1) by (auto simp: c_def log_data_def split: option.splits)
  have items: "\<forall>it \<in> set ?new. item_ok it" using buffer_ok_parts(2) [OF ok a] append_ok_items [OF kvs] by auto
  have "within_filters (map_of (bd_filters db)) db1 db2"
    using a buffer_ok_invs(5) [OF ok] remove_filter_within [of db1 a] within_filters_refl [of db1]
    by (simp add: db2_def removeBufferLogAccountFilter_def db1_def db0_def)
  then obtain fx fy fz where db2: "db2 = db1\<lparr>bd_filters := fx, bd_filterLRU := fy, bd_filterHashCount := fz\<rparr>" "map_of fx \<subseteq>\<^sub>m map_of (bd_filters db)"
      "list_ok fy (map_of fx)"
    by (auto simp: within_filters_def)
  have sound: "index_sound a (hist a) (bd_idxs db2 a)" if "c \<noteq> 0"
    using buffer_ok_parts(4) [OF ok a] that data(1) by (cases "bd_logs db a") (auto simp: db2 db1_def db0_def c_def log_data_def)
  obtain x db3 where i: "appendBufferLogPhysicalIndexEntries a (int c) (int (length (fwd_log ?new))) kvs db2 = (None, db3)" "index_sound a ?new x"
      "db3 = db2\<lparr>bd_idxs := (bd_idxs db2)(a := x)\<rparr> \<or> db3 = removeBufferLogAccountFilter a (db2\<lparr>bd_idxs := (bd_idxs db2)(a := x)\<rparr>)"
    using index_file_append [OF items kvs a len, of db2 info] data(2) sound by (auto simp: c_def db2(1) db1_def db0_def)
  have "within_filters (map_of (bd_filters db)) (db1\<lparr>bd_idxs := (bd_idxs db)(a := x)\<rparr>) db3"
  proof -
    have "within_filters (map_of (bd_filters db)) (db1\<lparr>bd_idxs := (bd_idxs db)(a := x)\<rparr>) (db2\<lparr>bd_idxs := (bd_idxs db2)(a := x)\<rparr>)"
      using db2 unfolding within_filters_def by (intro exI [of _ fx] exI [of _ fy] exI [of _ fz]) (simp add: db1_def db0_def)
    then show ?thesis
      using i(3) a within_filters_trans [OF _ remove_filter_within [OF within_filters_listed]] by (auto simp: removeBufferLogAccountFilter_def)
  qed
  then obtain gx gy gz where db3: "db3 = (db1\<lparr>bd_idxs := (bd_idxs db)(a := x)\<rparr>)\<lparr>bd_filters := gx, bd_filterLRU := gy, bd_filterHashCount := gz\<rparr>"
      "map_of gx \<subseteq>\<^sub>m map_of (bd_filters db)" "list_ok gy (map_of gx)"
    unfolding within_filters_def by blast
  have "filter_inv (map_of (bd_filters db3)) hist" "filters_listed db3"
    using filter_inv_less [OF buffer_ok_invs(3) [OF ok] db3(2)] db3(3) by (simp_all add: db3(1))
  then obtain m db4 where m: "addBufferLogAccountFilterEntries a (int (length (fwd_log ?new))) kvs db3 = Some db4" "within_filters m db3 db4" "filter_inv m hist'"
    using filter_append [OF _ kvs a, of db3 hist t] unfolding hist'_def by blast
  obtain hx hy hz where db4: "db4 = db3\<lparr>bd_filters := hx, bd_filterLRU := hy, bd_filterHashCount := hz\<rparr>" "map_of hx \<subseteq>\<^sub>m m"
    using m(2) unfolding within_filters_def by blast
  define db5 where "db5 = unmarkBufferLogAccessedEntries a kvs db4"
  have db5: "db5 = db4\<lparr>bd_accessed := bd_accessed db5\<rparr>" by (simp add: db5_def unmarkBufferLogAccessedEntries_def set_accessed_def)
  have "bd_indexes db5 = bd_indexes db" "bd_indexLRU db5 = bd_indexLRU db" by (subst db5, simp add: db4(1) db3(1) db1_def db0_def)+
  then obtain n db6 where n: "updateBufferLogIndexForAppend a (int c) info kvs db5 = Some db6" "within_indexes n db5 db6" "index_inv n ((bd_logs db)(a \<mapsto> info)) hist'"
    using index_append [OF _ kvs a, of db5 "bd_logs db" hist info t] buffer_ok_invs(2,4) [OF ok] unfolding hist'_def c_def by auto
  obtain ix iy iz where db6: "db6 = db5\<lparr>bd_indexes := ix, bd_indexLRU := iy, bd_indexEntryCount := iz\<rparr>" "map_of ix \<subseteq>\<^sub>m n"
    using n(2) unfolding within_indexes_def by blast
  have fields: "bd_logs db6 = (bd_logs db)(a \<mapsto> info)" "bd_idxs db6 = (bd_idxs db)(a := x)" "bd_bloom db6 = b"
      "bd_loaded db6 = insert a (bd_loaded db)" "bd_filters db6 = hx" "bd_indexes db6 = ix"
    unfolding db6(1) by (simp_all, (subst db5, simp add: db4(1) db3(1) db1_def db0_def)+)
  have result: "appendBufferLogEntries stamp a kvs t db = Some (None, db6)"
    using a kne n(1)
    unfolding appendBufferLogEntries_def Let_def mark off payload_appended(1) [OF kvs] sum.case payload_appended(2) [OF kvs]
      info_def [symmetric] db1_def [symmetric] data(2) db2_def [symmetric] i(1) prod.case option.case m(1)
    by (simp add: db5_def)
  moreover have "lists_ok db6" using append_returns [of db stamp a kvs t] ok by (simp add: result buffer_ok_def)
  then have "buffer_ok db6 hist'"
    unfolding buffer_ok_def fields
    using files_append [of "bd_logs db" "bd_idxs db" hist a, OF _ len kvs data(2) i(2) a] bloom_append [OF buffer_ok_invs(1) [OF ok] a kvs guard] ok
      index_inv_less [OF n(3) db6(2)] filter_inv_less [OF m(3) db4(2)]
    by (simp add: hist'_def b_def buffer_ok_def)
  ultimately show ?thesis using fields(4) by blast
qed

section \<open>Removal\<close>

lemma reset_memory:
  assumes "a \<noteq> []"
  shows "map_of (bd_indexes (resetBufferLogState a db)) \<subseteq>\<^sub>m (map_of (bd_indexes db))(a := None)"
    "map_of (bd_filters (resetBufferLogState a db)) \<subseteq>\<^sub>m (map_of (bd_filters db))(a := None)"
    "bd_bloom (resetBufferLogState a db) = bd_bloom db" "bd_loaded (resetBufferLogState a db) = bd_loaded db - {a}"
  using assms by (auto simp: resetBufferLogState_def clearBufferLogAccessed_def removeBufferLogIndex_def removeBufferLogAccountFilter_def
      removeBufferLogIndexLocked_def removeBufferLogAccountFilterLocked_def AList.delete_conv' map_le_def split: option.splits)

lemma remove_keeps:
  assumes ok: "buffer_ok db hist" and a: "a \<noteq> []"
  shows "\<exists>db'. removeBufferLogForAccount a db = (None, db') \<and> buffer_ok db' (hist(a := [])) \<and> bd_loaded db' = bd_loaded db - {a}"
proof -
  define d where "d = db\<lparr>bd_logs := (bd_logs db)(a := None), bd_idxs := (bd_idxs db)(a := None)\<rparr>"
  note mem = reset_memory [OF a, of d] reset_parts(1,2) [OF a, of d]
  have "files_ok (bd_logs d) (bd_idxs d) (hist(a := []))"
    using ok by (simp add: d_def buffer_ok_def files_ok_def log_data_def)
  moreover have "bloom_inv (bd_bloom d) (bd_loaded d - {a}) (hist(a := []))"
    using buffer_ok_invs(1) [OF ok] by (simp add: d_def bloom_inv_def)
  moreover have "index_inv ((map_of (bd_indexes d))(a := None)) (bd_logs d) (hist(a := []))"
    using buffer_ok_invs(2) [OF ok] by (simp add: d_def index_inv_def)
  moreover have "filter_inv ((map_of (bd_filters d))(a := None)) (hist(a := []))"
    using buffer_ok_invs(3) [OF ok] by (simp add: d_def filter_inv_def)
  moreover have "lists_ok (resetBufferLogState a d)" using ok by (simp add: lists_ok_reset d_def buffer_ok_def)
  ultimately have "buffer_ok (resetBufferLogState a d) (hist(a := []))"
    unfolding buffer_ok_def mem(3-6) using index_inv_less [OF _ mem(1)] filter_inv_less [OF _ mem(2)] by blast
  then show ?thesis using a mem(4) by (simp add: removeBufferLogForAccount_def d_def)
qed

section \<open>Runs\<close>

text \<open>
  The operations of a run and their specification: a map from accounts and keys to values, and the
  accounts whose log was not empty when the database was opened last. A run appends to such an
  account only after its log has been removed; the last section shows why.
\<close>

datatype buffer_op =
    AppendBuffer file_stamp bytes "kvPair list" u64
  | ReadBuffer bytes bytes
  | RemoveBuffer bytes
  | ReopenBuffer "bytes list"

datatype buffer_result = Appended "bl_error option" | Removed "bl_error option" | Found "bl_error + bytes option" | Reopened | DoesNotReturn

fun buffer_step :: "buffer_op \<Rightarrow> buffer_db \<Rightarrow> buffer_result \<times> buffer_db" where
  "buffer_step (AppendBuffer stamp a kvs t) db =
     (case appendBufferLogEntries stamp a kvs t db of None \<Rightarrow> (DoesNotReturn, db) | Some (e, db') \<Rightarrow> (Appended e, db'))"
| "buffer_step (ReadBuffer a k) db =
     (case readBufferLogValue a k db of None \<Rightarrow> (DoesNotReturn, db) | Some (r, db') \<Rightarrow> (Found r, db'))"
| "buffer_step (RemoveBuffer a) db = (case removeBufferLogForAccount a db of (e, db') \<Rightarrow> (Removed e, db'))"
| "buffer_step (ReopenBuffer folders) db = (Reopened, the (open_buffer (bd_logs db) (bd_idxs db) folders))"

type_synonym buffer_map = "(bytes \<Rightarrow> bytes \<rightharpoonup> bytes) \<times> bytes set"

fun buffer_spec :: "buffer_op \<Rightarrow> buffer_map \<Rightarrow> buffer_result \<times> buffer_map" where
  "buffer_spec (AppendBuffer stamp a kvs t) (m, old) = (Appended None, (m(a := m a ++ newest kvs), old))"
| "buffer_spec (ReadBuffer a k) (m, old) = (Found (Inr (m a k)), (m, old))"
| "buffer_spec (RemoveBuffer a) (m, old) = (Removed None, (m(a := Map.empty), old - {a}))"
| "buffer_spec (ReopenBuffer folders) (m, old) = (Reopened, (m, {a. m a \<noteq> Map.empty}))"

fun buffer_guard :: "buffer_op \<Rightarrow> buffer_map \<Rightarrow> bool" where
  "buffer_guard (AppendBuffer stamp a kvs t) (m, old) \<longleftrightarrow> a \<noteq> [] \<and> append_ok kvs \<and> a \<notin> old"
| "buffer_guard (ReadBuffer a k) (m, old) \<longleftrightarrow> a \<noteq> [] \<and> k \<noteq> []"
| "buffer_guard (RemoveBuffer a) (m, old) \<longleftrightarrow> a \<noteq> []"
| "buffer_guard (ReopenBuffer folders) (m, old) \<longleftrightarrow> True"

fun buffer_cost :: "buffer_op \<Rightarrow> nat" where
  "buffer_cost (AppendBuffer stamp a kvs t) = sum_list (map entry_bytes kvs) + commitTagRecordSize"
| "buffer_cost (ReadBuffer a k) = 0"
| "buffer_cost (RemoveBuffer a) = 0"
| "buffer_cost (ReopenBuffer folders) = 0"

definition buffer_rel :: "nat \<Rightarrow> buffer_db \<Rightarrow> buffer_map \<Rightarrow> bool" where
  "buffer_rel n db st \<longleftrightarrow>
     (\<exists>hist. buffer_ok db hist \<and> (\<forall>a. fst st a = newest (records (hist a)))
        \<and> (\<forall>a. hist a \<noteq> [] \<longrightarrow> fst st a \<noteq> Map.empty \<and> (a \<in> snd st \<or> a \<in> bd_loaded db))
        \<and> (\<forall>a. length (fwd_log (hist a)) + n < 2 ^ 63))"

lemma open_buffer_parts:
  obtains db where "open_buffer logs idxs folders = Some db" "bd_logs db = logs" "bd_idxs db = idxs" "bloom_ok (bd_bloom db)"
    "bd_loaded db = {}" "bd_indexes db = []" "bd_filters db = []"
  by (simp add: open_buffer_def new_folder_filter new_bloom bloom_ok_def)

lemma open_buffer_ok:
  assumes "files_ok logs idxs hist" "open_buffer logs idxs folders = Some db"
  shows "buffer_ok db hist"
proof -
  obtain d where "open_buffer logs idxs folders = Some d" "bd_logs d = logs" "bd_idxs d = idxs" "bloom_ok (bd_bloom d)"
    "bd_loaded d = {}" "bd_indexes d = []" "bd_filters d = []" by (rule open_buffer_parts)
  with assms open_lists [OF assms(2)] show ?thesis by (simp add: buffer_ok_def bloom_inv_def index_inv_def filter_inv_def)
qed

lemma length_appended: "length (fwd_log (appended kvs t)) \<le> sum_list (map entry_bytes kvs) + commitTagRecordSize"
  using length_rec_log [of kvs] by (auto simp: appended_def tag_items_def commitTagRecordSize_def)

lemma buffer_step_ok:
  assumes r: "buffer_rel (buffer_cost op + n) db st" and g: "buffer_guard op st"
  shows "\<exists>db'. buffer_step op db = (fst (buffer_spec op st), db') \<and> buffer_rel n db' (snd (buffer_spec op st))"
proof -
  obtain m old where st: "st = (m, old)" by (cases st)
  obtain hist where h: "buffer_ok db hist" "\<forall>a. m a = newest (records (hist a))"
      "\<forall>a. hist a \<noteq> [] \<longrightarrow> m a \<noteq> Map.empty \<and> (a \<in> old \<or> a \<in> bd_loaded db)"
      "\<forall>a. length (fwd_log (hist a)) + (buffer_cost op + n) < 2 ^ 63"
    using r unfolding buffer_rel_def st by auto
  show ?thesis
  proof (cases op)
    case (AppendBuffer stamp a kvs t)
    then have a: "a \<noteq> []" "append_ok kvs" "a \<notin> old" using g by (simp_all add: st)
    have len: "length (fwd_log (hist a @ appended kvs t)) + n < 2 ^ 63"
      using h(4) [rule_format, of a] length_appended [of kvs t] AppendBuffer by simp
    have guard: "a \<in> bd_loaded db \<or> hist a = []" using h(3) a(3) by blast
    have "length (fwd_log (hist a @ appended kvs t)) < 2 ^ 63" using len by simp
    from append_keeps [OF h(1) a(1,2) guard this, of stamp] obtain db' where
      db': "appendBufferLogEntries stamp a kvs t db = Some (None, db')" "buffer_ok db' (hist(a := hist a @ appended kvs t))"
        "bd_loaded db' = insert a (bd_loaded db)" by blast
    have "newest kvs \<noteq> Map.empty" using a(2) by (auto simp: append_ok_def map_of_eq_empty_iff)
    then have ne: "m a ++ newest kvs \<noteq> Map.empty" by auto
    have "buffer_rel n db' (m(a := m a ++ newest kvs), old)"
      unfolding buffer_rel_def
    proof (intro exI conjI allI impI)
      show "buffer_ok db' (hist(a := hist a @ appended kvs t))" by (rule db'(2))
      fix x
      show "fst (m(a := m a ++ newest kvs), old) x = newest (records ((hist(a := hist a @ appended kvs t)) x))"
        using h(2) by (simp add: map_add_def)
      show "fst (m(a := m a ++ newest kvs), old) x \<noteq> Map.empty" if "(hist(a := hist a @ appended kvs t)) x \<noteq> []"
        using h(3) ne that by (cases "x = a") auto
      show "x \<in> snd (m(a := m a ++ newest kvs), old) \<or> x \<in> bd_loaded db'" if "(hist(a := hist a @ appended kvs t)) x \<noteq> []"
        using h(3) db'(3) that by (cases "x = a") auto
      show "length (fwd_log ((hist(a := hist a @ appended kvs t)) x)) + n < 2 ^ 63"
        using h(4) [rule_format, of x] len by (cases "x = a") simp_all
    qed
    with db'(1) AppendBuffer show ?thesis by (simp add: st)
  next
    case (ReadBuffer a k)
    then have a: "a \<noteq> []" "k \<noteq> []" using g by (simp_all add: st)
    obtain db' where db': "readBufferLogValue a k db = Some (Inr (newest (records (hist a)) k), db')" "buffer_ok db' hist" "still_loaded hist db db'"
      using read_value_ok [OF h(1) a] by blast
    have "buffer_rel n db' (m, old)"
      using db'(2,3) h(2-4) ReadBuffer by (auto simp: buffer_rel_def still_loaded_def)
    with db'(1) ReadBuffer h(2) show ?thesis by (simp add: st)
  next
    case (RemoveBuffer a)
    then have a: "a \<noteq> []" using g by (simp add: st)
    obtain db' where db': "removeBufferLogForAccount a db = (None, db')" "buffer_ok db' (hist(a := []))" "bd_loaded db' = bd_loaded db - {a}"
      using remove_keeps [OF h(1) a] by blast
    have "buffer_rel n db' (m(a := Map.empty), old - {a})"
      unfolding buffer_rel_def using db'(2,3) h(2-4) RemoveBuffer
      by (intro exI [of _ "hist(a := [])"]) (auto dest: spec [of _ "[]"])
    with db'(1) RemoveBuffer show ?thesis by (simp add: st)
  next
    case (ReopenBuffer folders)
    obtain d where d: "open_buffer (bd_logs db) (bd_idxs db) folders = Some d" by (rule open_buffer_parts)
    have "buffer_ok d hist" using h(1) by (intro open_buffer_ok [OF _ d]) (simp add: buffer_ok_def)
    then have "buffer_rel n d (m, {a. m a \<noteq> Map.empty})" using h(2-4) ReopenBuffer by (auto simp: buffer_rel_def)
    with d ReopenBuffer show ?thesis by (simp add: st)
  qed
qed

lemma buffer_step_returns:
  assumes "lists_ok db" "buffer_step op db = (r, db')"
  shows "r \<noteq> DoesNotReturn \<and> lists_ok db'"
proof (cases op)
  case (AppendBuffer stamp a kvs t)
  then show ?thesis using assms append_returns [OF assms(1), of stamp a kvs t] by (auto simp: returns_def)
next
  case (ReadBuffer a k)
  then show ?thesis using assms read_returns [OF assms(1), of a k] by (auto simp: returns_def)
next
  case (RemoveBuffer a)
  then show ?thesis using assms remove_lists [OF assms(1), of a] by (auto split: prod.splits)
next
  case (ReopenBuffer folders)
  obtain d where "open_buffer (bd_logs db) (bd_idxs db) folders = Some d" by (rule open_buffer_parts)
  with assms(2) ReopenBuffer open_lists show ?thesis by auto
qed

interpretation buffer_logs: guarded_simulation buffer_step buffer_spec buffer_rel buffer_guard buffer_cost
  by unfold_locales (rule buffer_step_ok)

text \<open>
  C4. Refinement of a map: over a run of appends, reads, removals and reopenings that starts with an
  empty database, every read of the buffer logs returns the newest value appended under its account
  and key since the last removal of the account's log, or finds nothing, and no operation fails. In
  particular neither the counting bloom filter, nor the filters of accounts, nor the index files, nor
  the indexes kept in memory and their eviction, nor the rebuild of an index file with long chains
  show in a result. Keys are not empty, keys and values fit their length fields, and after a
  reopening no account is appended to whose log was not empty then.
\<close>

theorem buffer_logs_refine_map:
  assumes "open_buffer Map.empty Map.empty folders = Some db" "run_ok buffer_spec buffer_guard ops (\<lambda>_. Map.empty, {})"
    "sum_list (map buffer_cost ops) < 2 ^ 63"
  shows "fst (run buffer_step ops db) = fst (run buffer_spec ops (\<lambda>_. Map.empty, {}))"
proof -
  have "buffer_ok db (\<lambda>_. [])" by (rule open_buffer_ok [OF _ assms(1)]) (simp add: files_ok_def log_data_def)
  then have "buffer_rel (sum_list (map buffer_cost ops) + 0) db (\<lambda>_. Map.empty, {})"
    using assms(3) unfolding buffer_rel_def by (intro exI [of _ "\<lambda>_. []"]) simp
  from buffer_logs.guarded_run [OF this assms(2)] show ?thesis by auto
qed

definition buffer_run :: "buffer_op list" where
  "buffer_run = [AppendBuffer (1, 1, 1) [1] [([7], [70]), ([8], [])] 3, ReadBuffer [1] [7], ReadBuffer [2] [7],
     AppendBuffer (2, 0, 0) [1] [([7], [71])] 4, ReadBuffer [1] [7], ReadBuffer [1] [8], ReopenBuffer [[1]],
     ReadBuffer [1] [7], ReadBuffer [1] [9], AppendBuffer (3, 1, 2) [2] [([7], [72])] 5, ReadBuffer [2] [7],
     RemoveBuffer [1], ReadBuffer [1] [7], AppendBuffer (4, 1, 3) [1] [([7], [73])] 0, ReadBuffer [1] [7]]"

theorem buffer_logs_refine_map_witness:
  "\<exists>db. open_buffer Map.empty Map.empty [] = Some db \<and> fst (run buffer_step buffer_run db) =
     [Appended None, Found (Inr (Some [70])), Found (Inr None), Appended None, Found (Inr (Some [71])),
      Found (Inr (Some [])), Reopened, Found (Inr (Some [71])), Found (Inr None), Appended None,
      Found (Inr (Some [72])), Removed None, Found (Inr None), Appended None, Found (Inr (Some [73]))]"
proof -
  obtain db where db: "open_buffer Map.empty Map.empty [] = Some db" by (rule open_buffer_parts)
  have "run_ok buffer_spec buffer_guard buffer_run (\<lambda>_. Map.empty, {})"
    by (simp add: buffer_run_def append_ok_def entry_ok_def)
  moreover have "sum_list (map buffer_cost buffer_run) < 2 ^ 63"
    by (simp add: buffer_run_def entry_bytes_def segmentedChunkEntryHeaderSize_def commitTagRecordSize_def)
  ultimately show ?thesis using db buffer_logs_refine_map [OF db, of buffer_run] by (simp add: buffer_run_def)
qed

section \<open>The filters and the index file\<close>

text \<open>
  C37. Liveness: whatever the logs and index files hold when a database is opened on them, every
  operation of a run of appends, reads, removals and reopenings returns. The loops that evict indexes
  and filters until their budget holds end, because the lists of recency hold exactly the cached
  accounts, so that every round removes one; the loop that reloads the filter of an account ends
  after at most one reload; and a stale index is dropped at most once.
\<close>

theorem buffer_operations_return:
  assumes "open_buffer logs idxs folders = Some db"
  shows "DoesNotReturn \<notin> set (fst (run buffer_step ops db))"
proof -
  have "DoesNotReturn \<notin> set (fst (run buffer_step ops db))" if "lists_ok db" for db
    using that
  proof (induction ops arbitrary: db)
    case (Cons op ops)
    obtain r d where r: "buffer_step op db = (r, d)" by fastforce
    from buffer_step_returns [OF Cons.prems r] Cons.IH [of d] show ?case by (auto simp: r split: prod.splits)
  qed simp
  then show ?thesis using open_lists [OF assms] by blast
qed

definition damaged_files :: "bytes \<rightharpoonup> log_file" where
  "damaged_files = [[1] \<mapsto> \<lparr>lf_data = [9, 9, 9], lf_modTime = 1, lf_device = 1, lf_inode = 1\<rparr>]"

theorem buffer_operations_return_witness:
  "\<exists>db. open_buffer damaged_files [[1] \<mapsto> [7, 7], [2] \<mapsto> [7]] [] = Some db \<and> DoesNotReturn \<notin> set (fst (run buffer_step buffer_run db))"
proof -
  obtain db where "open_buffer damaged_files [[1] \<mapsto> [7, 7], [2] \<mapsto> [7]] [] = Some db" by (rule open_buffer_parts)
  with buffer_operations_return [OF this, of buffer_run] show ?thesis by blast
qed

text \<open>
  C38. Equivalence with a set: after any sequence of additions and removals the filter of account
  folders accepts exactly the accounts added and not removed since. Removals leave the bits of the
  bloom part set; the set of exact keys behind it removes its false positives.
\<close>

theorem folder_filter_exact:
  "\<exists>f. newAccountFolderFilter accountFolderBloomBitCount = Some f \<and>
     (\<forall>ops k. folder_maybeContains (fold run_folder ops f) k \<longleftrightarrow> k \<in> fold run_set ops {})"
proof -
  let ?f = "\<lparr>af_bits = replicate 16384 0, af_mask = 1048575, af_exact = {}\<rparr>"
  have ok: "folder_ok ?f" by (simp add: folder_ok_def)
  have "folder_maybeContains (fold run_folder ops ?f) k \<longleftrightarrow> k \<in> fold run_set ops {}" for ops k
    using folder_maybeContains_exact run_folder_all [OF ok, of ops] by simp
  then show ?thesis using new_folder_filter by blast
qed

text \<open>
  C13. Equivalence with a scan: the index file that a rebuild writes for the log of an account answers
  the lookup of every key with a reference to the newest record of that key, from which its value is
  read back, and answers that the key is absent exactly when no record has it.
\<close>

theorem disk_index_finds_newest:
  assumes "\<forall>it \<in> set items. item_ok it" "records items \<noteq> []" "length (fwd_log items) < 2 ^ 63" "a \<noteq> []" "k \<noteq> []" "\<forall>kv \<in> set (records items). fst kv \<noteq> []"
  shows "\<exists>db'. rebuildBufferLogPhysicalIndexFromBuffer a (fwd_log items) (int (length (fwd_log items))) db = (None, db') \<and>
    (case newest (records items) k of
       None \<Rightarrow> lookupBufferLogPhysicalIndexRef a k (bd_idxs db' a) (fwd_log items) = Inr IndexAbsent
     | Some v \<Rightarrow> \<exists>ref. lookupBufferLogPhysicalIndexRef a k (bd_idxs db' a) (fwd_log items) = Inr (IndexRef ref) \<and>
         read_ref (fwd_log items) ref = Inr v)"
proof -
  have ne: "items \<noteq> []" using assms(2) by auto
  obtain rs where rs: "scan_log (fwd_log items) 0 = Inr rs" "[r \<leftarrow> rs. fst r \<noteq> []] = keyed 0 items"
    using scan_whole_log [OF assms(1)] by blast
  obtain kv where kv: "kv \<in> set (records items)" using assms(2) by (cases "records items") auto
  then have "newest (records items) (fst kv) \<noteq> None" by (auto simp: map_of_eq_None_iff)
  then have "keyed 0 items \<noteq> []" using assms(6) kv newest_buffered [of "fst kv" items] by (auto simp: buffered_def)
  then have es: "map (\<lambda>(k, off, v). (bufferLogDiskIndexKeyHash a k, off)) [r \<leftarrow> rs. fst r \<noteq> []] = key_hashes a items" "key_hashes a items \<noteq> []"
    by (simp_all add: rs(2) key_hashes_def hashed_def case_prod_beta)
  let ?n = "unat (bufferLogDiskIndexBucketCountForRecords (of_nat (length (key_hashes a items))))"
  let ?f = "index_bytes (length (fwd_log items)) ?n (key_hashes a items)"
  have "fwd_log items \<noteq> []" using ne fwd_enc_pos by (cases items) auto
  then have "rebuildBufferLogPhysicalIndexFromBuffer a (fwd_log items) (int (length (fwd_log items))) db =
      (None, db\<lparr>bd_idxs := (bd_idxs db)(a \<mapsto> ?f)\<rparr>)"
    using assms(4) es by (simp add: rebuildBufferLogPhysicalIndexFromBuffer_def rs(1) rebuilt_file_index Let_def)
  with lookup_index [OF assms(1,4,3) bucket_count_ok, of k] refs_value [OF assms(1,5)] show ?thesis
    by (auto simp: answer_def read_ref_def)
qed

definition example_items :: "log_item list" where
  "example_items = [Rec [7] [70], Rec [8] [], Tag 3, Rec [7] [71]]"

theorem disk_index_finds_newest_witness:
  "\<exists>db db' ref. open_buffer Map.empty Map.empty [] = Some db \<and>
     rebuildBufferLogPhysicalIndexFromBuffer [1] (fwd_log example_items) (int (length (fwd_log example_items))) db = (None, db') \<and>
     lookupBufferLogPhysicalIndexRef [1] [7] (bd_idxs db' [1]) (fwd_log example_items) = Inr (IndexRef ref) \<and>
     read_ref (fwd_log example_items) ref = Inr [71]"
proof -
  obtain db where db: "open_buffer Map.empty Map.empty [] = Some db" by (rule open_buffer_parts)
  have "\<forall>it \<in> set example_items. item_ok it" "records example_items \<noteq> []" "length (fwd_log example_items) < 2 ^ 63"
      "\<forall>kv \<in> set (records example_items). fst kv \<noteq> []" "newest (records example_items) [7] = Some [71]"
    by (simp_all add: example_items_def record_header_def)
  then show ?thesis
    using db disk_index_finds_newest [of example_items "[1]" "[7]" db] by auto
qed

section \<open>A key that an append after reopening hides\<close>

lemma within_filters_memory: "within_filters m db db' \<Longrightarrow> bd_bloom db' = bd_bloom db \<and> bd_loaded db' = bd_loaded db"
  by (auto simp: within_filters_def)

lemma within_indexes_memory: "within_indexes m db db' \<Longrightarrow> bd_bloom db' = bd_bloom db \<and> bd_loaded db' = bd_loaded db"
  by (auto simp: within_indexes_def)

lemma remove_filter_memory [simp]: "bd_bloom (removeBufferLogAccountFilter a db) = bd_bloom db"
  by (simp add: removeBufferLogAccountFilter_def removeBufferLogAccountFilterLocked_def split: option.split)

lemma append_index_memory:
  "bd_bloom (snd (appendBufferLogPhysicalIndexEntries a x y kvs db)) = bd_bloom db"
  "bd_loaded (snd (appendBufferLogPhysicalIndexEntries a x y kvs db)) = bd_loaded db"
proof -
  have rebuild: "bd_bloom (snd (rebuildBufferLogPhysicalIndexFromLogFile a y db)) = bd_bloom db"
      "bd_loaded (snd (rebuildBufferLogPhysicalIndexFromLogFile a y db)) = bd_loaded db"
    by (auto simp: rebuildBufferLogPhysicalIndexFromLogFile_def rebuildBufferLogPhysicalIndexFromBuffer_def Let_def split: option.splits sum.splits)
  have set: "bd_bloom (snd (set_index a r db)) = bd_bloom db" "bd_loaded (snd (set_index a r db)) = bd_loaded db" for r
    by (simp_all add: set_index_def split: sum.split)
  show "bd_bloom (snd (appendBufferLogPhysicalIndexEntries a x y kvs db)) = bd_bloom db"
    "bd_loaded (snd (appendBufferLogPhysicalIndexEntries a x y kvs db)) = bd_loaded db"
    unfolding appendBufferLogPhysicalIndexEntries_def Let_def by (simp_all add: rebuild set split: option.split sum.split)
qed

lemma append_caches_memory:
  assumes "lists_ok db"
  shows "\<exists>d. (do { db \<leftarrow> addBufferLogAccountFilterEntries a y kvs db;
      db \<leftarrow> updateBufferLogIndexForAppend a x i kvs (unmarkBufferLogAccessedEntries a kvs db); Some (e, db) }) = Some (e, d) \<and>
    bd_bloom d = bd_bloom db \<and> bd_loaded d = bd_loaded db"
proof -
  obtain m d1 where d1: "addBufferLogAccountFilterEntries a y kvs db = Some d1" "within_filters m db d1" using add_filter_touches [OF assms] by blast
  let ?d = "unmarkBufferLogAccessedEntries a kvs d1"
  have "lists_ok ?d" using within_filters_lists [OF d1(2) assms] by (simp add: lists_ok_marks)
  then obtain n d2 where d2: "updateBufferLogIndexForAppend a x i kvs ?d = Some d2" "within_indexes n ?d d2" using update_index_touches by blast
  have "bd_bloom ?d = bd_bloom d1" "bd_loaded ?d = bd_loaded d1" by (simp_all add: unmarkBufferLogAccessedEntries_def set_accessed_def)
  with d1 d2 within_filters_memory [OF d1(2)] within_indexes_memory [OF d2(2)] show ?thesis by simp
qed

lemma append_memory:
  assumes "a \<noteq> []" "kvs \<noteq> []" "lists_ok db"
  shows "\<exists>e d. appendBufferLogEntries stamp a kvs t db = Some (e, d) \<and> bd_bloom d = add_to_bloom a kvs (bd_bloom db) \<and> bd_loaded d = insert a (bd_loaded db)"
proof -
  have index: "bd_bloom d' = bd_bloom d \<and> bd_loaded d' = bd_loaded d \<and> lists_ok d'"
    if "appendBufferLogPhysicalIndexEntries a x y kvs d = (e, d')" "lists_ok d" for x y e d d'
    using that(1) append_index_memory [of a x y kvs d] append_index_lists [OF that(2), of a x y kvs] by simp
  have entries: "\<exists>d'. (case appendBufferLogPhysicalIndexEntries a x y kvs d of (Some e, d') \<Rightarrow> Some (Some e, d')
      | (None, d') \<Rightarrow> do { d' \<leftarrow> addBufferLogAccountFilterEntries a y kvs d';
          d' \<leftarrow> updateBufferLogIndexForAppend a x i kvs (unmarkBufferLogAccessedEntries a kvs d'); Some (None, d') }) = Some (fst (appendBufferLogPhysicalIndexEntries a x y kvs d), d')
      \<and> bd_bloom d' = bd_bloom d \<and> bd_loaded d' = bd_loaded d" if "lists_ok d" for x y i d
  proof -
    obtain e d' where r: "appendBufferLogPhysicalIndexEntries a x y kvs d = (e, d')" by fastforce
    from index [OF r that] append_caches_memory [of d' a y kvs x i] show ?thesis by (cases e) (auto simp: r)
  qed
  show ?thesis
  proof (cases "serializeStorageSegment kvs")
    case (Inl e)
    then show ?thesis using assms by (simp add: appendBufferLogEntries_def markBufferLogBloomLoaded_def Let_def)
  next
    case (Inr seg)
    define d0 where "d0 = markBufferLogBloomLoaded a (db\<lparr>bd_bloom := add_to_bloom a kvs (bd_bloom db)\<rparr>)"
    define info where "info = append_file stamp (appendForwardCommitTag seg t) (bd_logs d0 a)"
    define c where "c = (case bd_logs d0 a of None \<Rightarrow> 0 | Some f \<Rightarrow> int (length (lf_data f)))"
    define d1 where "d1 = d0\<lparr>bd_logs := (bd_logs d0)(a \<mapsto> info)\<rparr>"
    define d2 where "d2 = (if c = 0 then removeBufferLogAccountFilter a d1 else d1)"
    have "lists_ok d1" using assms(3) by (simp add: d1_def d0_def lists_ok_marks)
    then have "lists_ok d2" by (simp add: d2_def lists_ok_small(4))
    moreover have "bd_bloom d2 = add_to_bloom a kvs (bd_bloom db)" "bd_loaded d2 = insert a (bd_loaded db)"
      using assms(1) by (simp_all add: d2_def d1_def d0_def markBufferLogBloomLoaded_def)
    moreover obtain e d3 where "appendBufferLogEntries stamp a kvs t db = Some (e, d3)" "bd_bloom d3 = bd_bloom d2 \<and> bd_loaded d3 = bd_loaded d2"
      using entries [OF \<open>lists_ok d2\<close>, where x = c and y = "int (length (lf_data info))" and i = info] assms(1,2)
      unfolding appendBufferLogEntries_def Let_def Inr sum.case d0_def [symmetric] c_def [symmetric] info_def [symmetric] d1_def [symmetric] d2_def [symmetric]
      by (simp only: if_False simp_thms) blast
    ultimately show ?thesis by simp
  qed
qed

text \<open>
  C39. The code departs from its contract: an append that is the first operation on an account after
  the database is opened marks the account as loaded into the bloom filter without loading the keys
  already in its log. A read of such a key in the database as opened finds its value, a read after
  the append finds nothing, unless the key happens to share all its positions in the filter with
  appended keys. The theorem compares the two reads in the states before and after the append; a read
  that is carried out before the append may load the keys into the filter, and then hides nothing.
\<close>

theorem reopened_append_hides_key:
  assumes "files_ok logs idxs hist" "open_buffer logs idxs folders = Some db" "a \<noteq> []" "k \<noteq> []" "kvs \<noteq> []"
    "newest (records (hist a)) k = Some v" "\<not> bloom_maybeContains (add_to_bloom a kvs (bd_bloom db)) a k"
  shows "(\<exists>d. readBufferLogValue a k db = Some (Inr (Some v), d)) \<and>
    (\<exists>e d. appendBufferLogEntries stamp a kvs t db = Some (e, d) \<and> readBufferLogValue a k d = Some (Inr None, d))"
proof -
  have "\<exists>d. readBufferLogValue a k db = Some (Inr (Some v), d)"
    using read_value_ok [OF open_buffer_ok [OF assms(1,2)] assms(3,4)] assms(6) by auto
  moreover obtain e d where d: "appendBufferLogEntries stamp a kvs t db = Some (e, d)" "bd_bloom d = add_to_bloom a kvs (bd_bloom db)"
      "bd_loaded d = insert a (bd_loaded db)"
    using append_memory [OF assms(3,5) open_lists [OF assms(2)]] by blast
  have "bloom_rejects a k d = (Inr True, d)" using d(2,3) assms(7) by (simp add: bloom_rejects_def)
  then have "readBufferLogValue a k d = Some (Inr None, d)" using assms(3,4) by (simp add: readBufferLogValue_def)
  with d(1) show ?thesis using calculation by blast
qed

lemma counts_up_other: "i \<notin> set is \<Longrightarrow> fold count_up is cs ! unat i = cs ! unat i"
proof (induction "is" arbitrary: cs)
  case (Cons j js)
  then have "unat j \<noteq> unat i" by (metis list.set_intros(1) word_unat_eq_iff)
  with Cons show ?case by (simp add: count_up_def)
qed simp

lemma other_key_rejected:
  assumes "i \<in> set (bloomIndexesForHash b (bufferLogDiskIndexKeyHash a k))" "i \<notin> set (bloomIndexesForHash b (bufferLogDiskIndexKeyHash a k'))"
    "bb_count b ! unat i = 0"
  shows "\<not> bloom_maybeContains (add_to_bloom a [(k', v)] b) a k"
  using assms counts_up_other [OF assms(2), of "bb_count b"]
  by (auto simp: add_to_bloom_def bloom_maybeContains_covers bloom_add_def bloom_covers_def bloom_addHash_def bloomIndexesForHash_def Let_def)

definition old_log :: log_file where
  "old_log = \<lparr>lf_data = fwd_log [Rec [7] [70], Tag 3], lf_modTime = 1, lf_device = 1, lf_inode = 1\<rparr>"

lemma old_log_files: "files_ok [[1] \<mapsto> old_log] Map.empty ((\<lambda>_. [])([1] := [Rec [7] [70], Tag 3]))"
  by (simp add: files_ok_def old_log_def log_data_def index_sound_def readBufferLogDiskIndexMetadataFull_def record_header_def)

theorem reopened_append_hides_key_witness:
  "\<exists>db d e d'. open_buffer [[1] \<mapsto> old_log] Map.empty [] = Some db \<and> readBufferLogValue [1] [7] db = Some (Inr (Some [70]), d) \<and>
     appendBufferLogEntries (2, 1, 1) [1] [([8], [80])] 4 db = Some (e, d') \<and> readBufferLogValue [1] [7] d' = Some (Inr None, d')"
proof -
  let ?i = "bloomIndexesForHash \<lparr>bb_count = [], bb_mask = 134217727\<rparr>"
  obtain db where db: "open_buffer [[1] \<mapsto> old_log] Map.empty [] = Some db" "bd_bloom db = \<lparr>bb_count = replicate 134217728 0, bb_mask = 134217727\<rparr>"
    by (simp add: open_buffer_def new_folder_filter new_bloom)
  have same: "bloomIndexesForHash (bd_bloom db) = ?i" by (simp add: db(2) bloomIndexesForHash_def fun_eq_iff)
  define i where "i = ?i (bufferLogDiskIndexKeyHash [1] [7]) ! 0"
  have i: "i \<in> set (?i (bufferLogDiskIndexKeyHash [1] [7]))" "i \<notin> set (?i (bufferLogDiskIndexKeyHash [1] [8]))" "i < 134217728"
    unfolding i_def by code_simp+
  from i(3) have "unat i < 134217728" by (simp add: word_less_nat_alt)
  with i(1,2) have "\<not> bloom_maybeContains (add_to_bloom [1] [([8], [80])] (bd_bloom db)) [1] [7]"
    by (intro other_key_rejected [where i = i]) (simp_all only: same [unfolded db(2)] db(2) bufferLogBloom.simps nth_replicate not_False_eq_True)
  from reopened_append_hides_key [OF old_log_files db(1) _ _ _ _ this, of "[70]" "(2, 1, 1)" 4] db(1) show ?thesis by auto
qed

end
