(* ===== verification/Buffer_Log_Budget.thy ===== *)
theory Buffer_Log_Budget
  imports Buffer_Log_Correct
begin

text \<open>
  The cache of the indexes of accounts stays within its budget, with its list of recency and its
  running total.
\<close>

section \<open>The budget of the indexes in memory\<close>

definition index_sum :: "(bytes \<times> bufferLogAccountIndex) list \<Rightarrow> int" where
  "index_sum xs = (\<Sum>(a, i) \<leftarrow> xs. int (length (bi_entries i)))"

definition cache_ok :: "buffer_db \<Rightarrow> bool" where
  "cache_ok db \<longleftrightarrow> distinct (bd_indexLRU db) \<and> distinct (map fst (bd_indexes db)) \<and> set (bd_indexLRU db) = fst ` set (bd_indexes db)
     \<and> [] \<notin> fst ` set (bd_indexes db) \<and> bd_indexEntryCount db = index_sum (bd_indexes db)"

definition in_budget :: "buffer_db \<Rightarrow> bool" where
  "in_budget db \<longleftrightarrow> length (bd_indexes db) \<le> bufferLogIndexMaxAccounts \<and> bd_indexEntryCount db \<le> int bufferLogIndexMaxEntries"

lemma index_sum_nonneg: "0 \<le> index_sum xs"
  by (induction xs) (auto simp: index_sum_def)

lemma index_sum_delete:
  "distinct (map fst xs) \<Longrightarrow> map_of xs a = Some i \<Longrightarrow> index_sum xs = int (length (bi_entries i)) + index_sum (AList.delete a xs)"
proof (induction xs)
  case (Cons x xs)
  show ?case
  proof (cases "fst x = a")
    case True
    then have "AList.delete a (x # xs) = xs" using Cons.prems(1) by (auto simp: delete_id)
    with True Cons.prems(2) show ?thesis by (cases x) (simp add: index_sum_def)
  next
    case False
    with Cons show ?thesis by (cases x) (auto simp: index_sum_def)
  qed
qed simp

lemma index_sum_update:
  "distinct (map fst xs) \<Longrightarrow> index_sum (AList.update a i xs) = int (length (bi_entries i)) + index_sum (AList.delete a xs)"
proof (induction xs)
  case (Cons x xs)
  show ?case
  proof (cases "fst x = a")
    case True
    then have "AList.delete a (x # xs) = xs" using Cons.prems by (auto simp: delete_id)
    with True show ?thesis by (cases x) (simp add: index_sum_def)
  next
    case False
    with Cons show ?thesis by (cases x) (auto simp: index_sum_def)
  qed
qed (simp add: index_sum_def)

lemma keys_delete: "fst ` set (AList.delete a xs) = fst ` set xs - {a}"
  by (auto simp: AList.delete_eq)

lemma remove_index_cache:
  assumes "cache_ok db"
  shows "cache_ok (removeBufferLogIndexLocked a db)"
    "bd_indexes (removeBufferLogIndexLocked a db) = AList.delete a (bd_indexes db)"
    "bd_indexLRU (removeBufferLogIndexLocked a db) = remove1 a (bd_indexLRU db)"
    "bd_indexEntryCount (removeBufferLogIndexLocked a db) \<le> bd_indexEntryCount db"
proof -
  have keys: "set (bd_indexLRU db) = fst ` set (bd_indexes db)" "[] \<notin> fst ` set (bd_indexes db)" "distinct (bd_indexLRU db)"
      "distinct (map fst (bd_indexes db))" "bd_indexEntryCount db = index_sum (bd_indexes db)"
    using assms by (auto simp: cache_ok_def)
  have "cache_ok (removeBufferLogIndexLocked a db) \<and> bd_indexes (removeBufferLogIndexLocked a db) = AList.delete a (bd_indexes db)
      \<and> bd_indexLRU (removeBufferLogIndexLocked a db) = remove1 a (bd_indexLRU db)
      \<and> bd_indexEntryCount (removeBufferLogIndexLocked a db) \<le> bd_indexEntryCount db"
  proof (cases "map_of (bd_indexes db) a")
    case None
    then have "a \<notin> fst ` set (bd_indexes db)" by (simp add: map_of_eq_None_iff)
    with assms keys None show ?thesis by (auto simp: removeBufferLogIndexLocked_def delete_id remove1_idem)
  next
    case (Some i)
    then have "a \<noteq> []" using keys(2) by (force dest!: map_of_SomeD)
    moreover have "index_sum (bd_indexes db) = int (length (bi_entries i)) + index_sum (AList.delete a (bd_indexes db))"
      by (rule index_sum_delete [OF keys(4) Some])
    ultimately show ?thesis
      using keys Some index_sum_nonneg [of "AList.delete a (bd_indexes db)"] distinct_delete [OF keys(4), of a]
      by (auto simp: removeBufferLogIndexLocked_def cache_ok_def keys_delete)
  qed
  then show "cache_ok (removeBufferLogIndexLocked a db)" "bd_indexes (removeBufferLogIndexLocked a db) = AList.delete a (bd_indexes db)"
    "bd_indexLRU (removeBufferLogIndexLocked a db) = remove1 a (bd_indexLRU db)"
    "bd_indexEntryCount (removeBufferLogIndexLocked a db) \<le> bd_indexEntryCount db" by simp_all
qed

lemma single_index_fits:
  assumes "cache_ok db" "bd_indexLRU db = [a]" "map_of (bd_indexes db) a = Some i" "length (bi_entries i) \<le> bufferLogIndexMaxEntries"
  shows "in_budget db"
proof -
  have "fst ` set (bd_indexes db) = {a}" "distinct (map fst (bd_indexes db))" using assms(1,2) by (auto simp: cache_ok_def)
  then have "length (bd_indexes db) = 1" by (metis card_1_singleton_iff distinct_card length_map list.set_map One_nat_def)
  then obtain x where "bd_indexes db = [x]" by (auto simp: length_Suc_conv)
  with assms have "bd_indexes db = [(a, i)]" by (cases x) (auto split: if_splits)
  with assms show ?thesis by (simp add: cache_ok_def in_budget_def index_sum_def bufferLogIndexMaxAccounts_def)
qed

lemma remove_index_shorter:
  assumes "cache_ok db"
  shows "length (bd_indexes (removeBufferLogIndexLocked a db)) \<le> length (bd_indexes db)"
  unfolding remove_index_cache(2) [OF assms] by (rule length_delete_le)

text \<open>The loop ends within the budget, and the most recent index stays when it fits the budget alone.\<close>

lemma enforce_in_budget:
  assumes "cache_ok db"
  shows "\<exists>d. enforce_budget db = Some d \<and> cache_ok d \<and> in_budget d \<and>
    (\<forall>a l i. bd_indexLRU db = a # l \<and> map_of (bd_indexes db) a = Some i \<and> length (bi_entries i) \<le> bufferLogIndexMaxEntries \<longrightarrow>
      map_of (bd_indexes d) a = Some i)"
  using assms
proof (induction "length (bd_indexLRU db)" arbitrary: db rule: less_induct)
  case less
  show ?case
  proof (cases "bd_indexLRU db = [] \<or> in_budget db")
    case True
    then have "in_budget db" using less.prems by (auto simp: cache_ok_def in_budget_def index_sum_def)
    moreover from this have "enforce_budget db = Some db"
      unfolding enforce_budget_def by (subst enforceBufferLogIndexBudgetLocked.simps) (auto simp: in_budget_def)
    ultimately show ?thesis using less.prems by blast
  next
    case False
    let ?v = "last (bd_indexLRU db)"
    let ?d = "removeBufferLogIndexLocked ?v db"
    note removed = remove_index_cache [OF less.prems, of ?v]
    have "length (bd_indexLRU ?d) < length (bd_indexLRU db)" using False by (simp add: removed(3) length_remove1_less)
    from less.hyps [OF this removed(1)] obtain d where d: "enforce_budget ?d = Some d" "cache_ok d" "in_budget d"
        "\<forall>a l i. bd_indexLRU ?d = a # l \<and> map_of (bd_indexes ?d) a = Some i \<and> length (bi_entries i) \<le> bufferLogIndexMaxEntries \<longrightarrow> map_of (bd_indexes d) a = Some i"
      by blast
    have "map_of (bd_indexes d) a = Some i"
      if i: "bd_indexLRU db = a # l" "map_of (bd_indexes db) a = Some i" "length (bi_entries i) \<le> bufferLogIndexMaxEntries" for a l i
    proof -
      have "l \<noteq> []" using single_index_fits [OF less.prems] i False by blast
      then have "?v \<noteq> a" using less.prems i(1) last_in_set [of l] by (auto simp: cache_ok_def)
      then show ?thesis using d(4) removed(2,3) i by (auto simp: delete_conv')
    qed
    moreover have "enforce_budget db = enforce_budget ?d"
      using False unfolding enforce_budget_def
      by (subst enforceBufferLogIndexBudgetLocked.simps) (auto simp: in_budget_def)
    ultimately show ?thesis using d by auto
  qed
qed

lemma update_index_cache:
  assumes "cache_ok db" "a \<noteq> []" "c = int (length (bi_entries i)) + index_sum (AList.delete a (bd_indexes db))"
  shows "cache_ok (touchBufferLogIndexLocked a (db\<lparr>bd_indexes := AList.update a i (bd_indexes db), bd_indexEntryCount := c\<rparr>))"
  using assms distinct_update [of "bd_indexes db" a i]
  by (auto simp: cache_ok_def touchBufferLogIndexLocked_def index_sum_update dom_update [unfolded dom_map_of_conv_image_fst])

text \<open>An operation on the indexes returns and leaves them in order and within the budget.\<close>

definition budgeted :: "buffer_db option \<Rightarrow> bool" where
  "budgeted x \<longleftrightarrow> (\<exists>d. x = Some d \<and> cache_ok d \<and> in_budget d)"

lemma budgeted_Some [simp]: "budgeted (Some d) \<longleftrightarrow> cache_ok d \<and> in_budget d"
  by (simp add: budgeted_def)

lemma enforce_budget_ok: "cache_ok db \<Longrightarrow> budgeted (enforce_budget db)"
  using enforce_in_budget unfolding budgeted_def by blast

lemma remove_in_budget: "cache_ok db \<Longrightarrow> in_budget db \<Longrightarrow> in_budget (removeBufferLogIndexLocked a db)"
  using remove_index_cache(4) [of db a] remove_index_shorter [of db a] by (auto simp: in_budget_def)

lemma cache_index_budget:
  assumes "cache_ok db" "in_budget db"
  shows "budgeted (cacheBufferLogIndexLocked a i db)"
    "a \<noteq> [] \<Longrightarrow> length (bi_entries i) \<le> bufferLogIndexMaxEntries \<Longrightarrow>
      \<exists>d. cacheBufferLogIndexLocked a i db = Some d \<and> map_of (bd_indexes d) a = Some i"
proof -
  let ?d = "removeBufferLogIndexLocked a db"
  let ?e = "touchBufferLogIndexLocked a (?d\<lparr>bd_indexes := AList.update a i (bd_indexes ?d),
    bd_indexEntryCount := bd_indexEntryCount ?d + int (length (bi_entries i))\<rparr>)"
  note d = remove_index_cache [OF assms(1), of a]
  have e: "cache_ok ?e" if "a \<noteq> []"
  proof (rule update_index_cache [OF d(1) that])
    show "bd_indexEntryCount ?d + int (length (bi_entries i)) = int (length (bi_entries i)) + index_sum (AList.delete a (bd_indexes ?d))"
      using d(1,2) by (simp add: cache_ok_def delete_idem)
  qed
  show "budgeted (cacheBufferLogIndexLocked a i db)"
    using assms d(1) remove_in_budget e enforce_budget_ok by (simp add: cacheBufferLogIndexLocked_def Let_def)
  assume a: "a \<noteq> []" "length (bi_entries i) \<le> bufferLogIndexMaxEntries"
  have "bd_indexLRU ?e = a # remove1 a (bd_indexLRU ?d)" "map_of (bd_indexes ?e) a = Some i"
    by (simp_all add: touchBufferLogIndexLocked_def update_conv')
  then obtain d' where "enforce_budget ?e = Some d'" "map_of (bd_indexes d') a = Some i"
    using enforce_in_budget [OF e [OF a(1)]] a(2) by blast
  with a show "\<exists>d. cacheBufferLogIndexLocked a i db = Some d \<and> map_of (bd_indexes d) a = Some i"
    by (simp add: cacheBufferLogIndexLocked_def Let_def)
qed

lemma append_index_budget:
  assumes "cache_ok db" "in_budget db"
  shows "budgeted (updateBufferLogIndexForAppend a off info kvs db)"
proof (cases "a = [] \<or> kvs = []")
  case False
  note new = cache_index_budget(1) [where a = a]
  show ?thesis
  proof (cases "map_of (bd_indexes db) a")
    case None
    then show ?thesis using False assms new [OF assms] by (simp add: updateBufferLogIndexForAppend_def)
  next
    case (Some i)
    let ?i = "setFileIdentity (i\<lparr>bi_entries := add_refs off kvs (bi_entries i)\<rparr>) info"
    have "bd_indexEntryCount db + int (length (bi_entries ?i)) - int (length (bi_entries i))
        = int (length (bi_entries ?i)) + index_sum (AList.delete a (bd_indexes db))"
      using assms(1) Some index_sum_delete [of "bd_indexes db" a i] by (simp add: cache_ok_def)
    from update_index_cache [OF assms(1) _ this] False have "cache_ok (touchBufferLogIndexLocked a (db\<lparr>bd_indexes := AList.update a ?i (bd_indexes db),
        bd_indexEntryCount := bd_indexEntryCount db + int (length (bi_entries ?i)) - int (length (bi_entries i))\<rparr>))" by blast
    note kept = enforce_budget_ok [OF this] and gone = remove_index_cache(1) [OF assms(1), of a] remove_in_budget [OF assms, of a]
    show ?thesis
      using False Some kept gone new [OF gone] by (simp add: updateBufferLogIndexForAppend_def Let_def)
  qed
qed (use assms in \<open>simp add: updateBufferLogIndexForAppend_def\<close>)

text \<open>The operations on the indexes in memory, as the code calls them under the lock of the cache.\<close>

datatype index_op =
    CacheIndex bytes bufferLogAccountIndex
  | AppendIndex bytes int log_file "kvPair list"
  | UseIndex bytes bytes
  | DropIndex bytes

fun run_index :: "index_op \<Rightarrow> buffer_db \<Rightarrow> buffer_db option" where
  "run_index (CacheIndex a i) db = cacheBufferLogIndexLocked a i db"
| "run_index (AppendIndex a off info kvs) db = updateBufferLogIndexForAppend a off info kvs db"
| "run_index (UseIndex a k) db = Some (snd (readBufferLogValueByCachedIndex a k db))"
| "run_index (DropIndex a) db = Some (removeBufferLogIndex a db)"

primrec run_indexes :: "index_op list \<Rightarrow> buffer_db \<Rightarrow> buffer_db option" where
  "run_indexes [] db = Some db"
| "run_indexes (op # ops) db = do { db \<leftarrow> run_index op db; run_indexes ops db }"

lemma touch_index_budget:
  assumes "cache_ok db" "in_budget db" "map_of (bd_indexes db) a \<noteq> None"
  shows "cache_ok (touchBufferLogIndexLocked a db) \<and> in_budget (touchBufferLogIndexLocked a db)"
proof -
  have "a \<in> set (bd_indexLRU db)" using assms(1,3) by (force simp: cache_ok_def dest!: map_of_SomeD)
  moreover from this have "insert a (set (bd_indexLRU db) - {a}) = set (bd_indexLRU db)" "a \<noteq> []" using assms(1) unfolding cache_ok_def by (blast, metis)
  ultimately show ?thesis using assms(1,2) by (simp add: cache_ok_def in_budget_def touchBufferLogIndexLocked_def)
qed

lemma reset_index_budget:
  assumes "cache_ok db" "in_budget db"
  shows "cache_ok (resetBufferLogState a db) \<and> in_budget (resetBufferLogState a db)"
proof -
  let ?d = "db\<lparr>bd_loaded := bd_loaded db - {a}\<rparr>"
  have "cache_ok ?d" "in_budget ?d" using assms by (simp_all add: cache_ok_def in_budget_def)
  then have "cache_ok (removeBufferLogIndexLocked a ?d)" "in_budget (removeBufferLogIndexLocked a ?d)"
    using remove_index_cache(1) remove_in_budget by blast+
  then show ?thesis
    using assms by (auto simp: resetBufferLogState_def clearBufferLogAccessed_def removeBufferLogIndex_def removeBufferLogAccountFilter_def
        removeBufferLogAccountFilterLocked_def cache_ok_def in_budget_def split: option.splits)
qed

lemma run_index_budget:
  assumes "cache_ok db" "in_budget db"
  shows "budgeted (run_index op db)"
proof (cases op)
  case (UseIndex a k)
  then show ?thesis
    using assms reset_index_budget [OF assms, of a] touch_index_budget [OF assms, of a]
    by (auto simp: readBufferLogValueByCachedIndex_def split: option.split)
qed (use assms cache_index_budget(1) [OF assms] append_index_budget [OF assms] remove_index_cache(1) [OF assms(1)] remove_in_budget [OF assms]
  in \<open>simp_all add: removeBufferLogIndex_def\<close>)

lemma run_indexes_budget: "cache_ok db \<Longrightarrow> in_budget db \<Longrightarrow> budgeted (run_indexes ops db)"
proof (induction ops arbitrary: db)
  case (Cons op ops)
  from run_index_budget [OF Cons.prems, of op] obtain d where "run_index op db = Some d" "cache_ok d" "in_budget d"
    unfolding budgeted_def by blast
  with Cons.IH [of d] show ?case by simp
qed simp

text \<open>
  C40. Invariant and bound: every sequence of operations on the indexes kept in memory returns, and
  after it the list of recency holds every cached account once, the running total is the number of
  cached entries, there are at most 1024 indexes with at most 4194304 entries together, and an index
  that fits the budget alone is still cached right after it was added, whatever had to be evicted for it.
\<close>

theorem index_cache_in_budget:
  assumes "open_buffer logs idxs folders = Some db"
  shows "\<exists>d. run_indexes ops db = Some d \<and> distinct (bd_indexLRU d) \<and> set (bd_indexLRU d) = dom (map_of (bd_indexes d)) \<and>
    bd_indexEntryCount d = (\<Sum>(a, i) \<leftarrow> bd_indexes d. int (length (bi_entries i))) \<and>
    length (bd_indexes d) \<le> 1024 \<and> bd_indexEntryCount d \<le> 4194304 \<and>
    (\<forall>a i. a \<noteq> [] \<and> length (bi_entries i) \<le> 4194304 \<longrightarrow>
      (\<exists>d'. cacheBufferLogIndexLocked a i d = Some d' \<and> map_of (bd_indexes d') a = Some i))"
proof -
  have "cache_ok db" "in_budget db"
    using assms(1) by (auto simp: open_buffer_def cache_ok_def in_budget_def index_sum_def split: option.splits)
  then obtain d where r: "run_indexes ops db = Some d" and d: "cache_ok d" "in_budget d"
    using run_indexes_budget unfolding budgeted_def by blast
  have "\<forall>a i. a \<noteq> [] \<and> length (bi_entries i) \<le> 4194304 \<longrightarrow>
      (\<exists>d'. cacheBufferLogIndexLocked a i d = Some d' \<and> map_of (bd_indexes d') a = Some i)"
    using cache_index_budget(2) [OF d] by (simp add: bufferLogIndexMaxEntries_def)
  with r d show ?thesis
    by (simp add: cache_ok_def in_budget_def index_sum_def bufferLogIndexMaxAccounts_def bufferLogIndexMaxEntries_def dom_map_of_conv_image_fst)
qed

definition one_index :: bufferLogAccountIndex where
  "one_index = new_index [1] \<lparr>bi_entries := [([7], \<lparr>er_valueOffset = 5, er_valueLen = 1\<rparr>)]\<rparr>"

theorem index_cache_in_budget_witness:
  "\<exists>db d d'. open_buffer Map.empty Map.empty [] = Some db \<and>
     run_indexes [CacheIndex [1] one_index, UseIndex [2] [7], DropIndex [1]] db = Some d \<and> length (bd_indexes d) \<le> 1024 \<and>
     cacheBufferLogIndexLocked [1] one_index d = Some d' \<and> map_of (bd_indexes d') [1] = Some one_index"
proof -
  obtain db where db: "open_buffer Map.empty Map.empty [] = Some db" by (simp add: open_buffer_def new_folder_filter new_bloom)
  have "[1] \<noteq> ([] :: bytes) \<and> length (bi_entries one_index) \<le> 4194304" by (simp add: one_index_def)
  with db index_cache_in_budget [OF db, of "[CacheIndex [1] one_index, UseIndex [2] [7], DropIndex [1]]"] show ?thesis by blast
qed

end
