(* ===== verification/Spec2Isabelle.thy ===== *)
theory Spec2Isabelle
  imports Database_Theorems Node_Cache Prefix_Tree_Theorems Segment_Folder_Theorems Buffer_Log_Theorems Buffer_Log_Budget
begin

text \<open>
  THEO: a storage engine for Ethereum nodes.

  \<^bold>\<open>The program.\<close> A \<^verbatim>\<open>Database\<close> (\<^verbatim>\<open>THEO/theo.go\<close>) classifies every key by its prefix
  (\<^verbatim>\<open>THEO/common.go\<close>, \<^verbatim>\<open>THEO/datatype/datatype.go\<close>) and routes it to one of three stores: block
  data (headers, bodies, receipts and their indices) to an append-only block log
  (\<^verbatim>\<open>THEO/datablockStore.go\<close>), account and storage tries to the state store PrefixDB
  (\<^verbatim>\<open>THEO/prefixdb\<close>), everything else to Pebble (\<^verbatim>\<open>THEO/pebblestore/pebble.go\<close>). An LRU cache of
  account hashes (\<^verbatim>\<open>THEO/account_hash_key_cache.go\<close>) resolves storage keys to account keys. Inside
  PrefixDB one byte-budgeted cache (\<^verbatim>\<open>shared_cache.go\<close>) serves typed views (\<^verbatim>\<open>cache.go\<close>), and a
  prefix tree (\<^verbatim>\<open>prefixTree.go\<close>, \<^verbatim>\<open>compression.go\<close>) keeps the pointers of accounts in node files.
  The storage of an account (\<^verbatim>\<open>prefixdb.go\<close>) lies in a folder of sorted chunk files with an index, and
  in front of it a buffer log takes the newest pairs, found through filters and a hash-table index
  file.

  \<^bold>\<open>Theories and code.\<close>
  \<^item> \<open>Theo_Prelude\<close>: byte strings, big-endian integers, association lists, the collections of
    rewrite rules that the components share. \<open>Simulation\<close>: runs of operations and the interfaces
    \<open>simulation\<close>, \<open>guarded_simulation\<close> and \<open>faulty_simulation\<close>, from a law on single steps to whole
    runs, the last one up to the first fault of the environment.
    \<open>Cache_Interface\<close>: what a bounded cache promises its client.
  \<^item> \<open>Key_Schema\<close>: the classes, the prefix table, the prefix trie and its longest match, block
    numbers in keys and values (\<^verbatim>\<open>common.go\<close>, \<^verbatim>\<open>datatype.go\<close>).
  \<^item> \<open>Account_Cache\<close>: the LRU cache threaded through an array by index; it refines an abstract
    LRU list and is an instance of the cache interface.
  \<^item> \<open>Block_Codec\<close>, \<open>Block_Window\<close>, \<open>Block_Index\<close>, \<open>Block_Log\<close>: the formats of log and index
    records, the window of recent blocks, the index with its buffer and metadata file, and the
    operations \<^verbatim>\<open>Append\<close>, \<^verbatim>\<open>Get\<close>, \<^verbatim>\<open>Delete\<close>, \<^verbatim>\<open>MarkBlockCommitted\<close>, \<^verbatim>\<open>Sync\<close>, opening and closing.
    \<open>Block_Log_Refinement\<close>, \<open>Block_Log_Append\<close>, \<open>Block_Log_Correct\<close> relate a log and its three
    files to a list of blocks; \<open>Block_Log_Theorems\<close> states the results. \<open>Block_Iterator\<close>: the
    streaming iterator.
  \<^item> \<open>Pebble_Store\<close>: lookups, updates, iterators and batches of the Pebble wrapper, with Pebble
    itself as a sorted map.
  \<^item> \<open>Theo_Database\<close>: the \<^verbatim>\<open>Database\<close>. \<open>Database_Blocks\<close>, \<open>Database_Keys\<close>,
    \<open>Database_Theorems\<close>: the pending block batch as an abstract block, the coherence of the
    account cache with Pebble, and what routing preserves.
  \<^item> \<open>Shared_Cache\<close>: the shared cache with eviction by frequency and recency. \<open>Node_Cache\<close>: its
    views for node records, storage values, segment indices, and the reference count of cached
    node-file buffers (an inductive step relation).
  \<^item> \<open>Node_File\<close>: entries, headers and payloads of node files, optional compression, commit
    tags, search and compaction. \<open>Prefix_Tree\<close>: the tree's operations over a directory of node
    files, with the global file and its commit batch, bucket files, cache, and compactions in
    flight. \<open>Prefix_Tree_Files\<close>, \<open>Prefix_Tree_Correct\<close>, \<open>Prefix_Tree_Refinement\<close>: what the
    entries of a key mean in a file, that every operation keeps this meaning, and the simulation by
    a map; \<open>Prefix_Tree_Theorems\<close> states the results.
  \<^item> \<open>Segment_Format\<close>: the forward format of logs and the tail format of chunks, with commit tags
    (\<^verbatim>\<open>serializeStorageSegment\<close> to \<^verbatim>\<open>trimFileAfterLastCommitTag\<close>). \<open>Segment_Entries\<close>: sorting,
    deduplication, merging, splitting and partitioning of pairs. \<open>Segment_Index\<close>: the flat and the
    sharded index of the chunks, its writer and its searches.
  \<^item> \<open>Segment_Folder\<close>: the chunk files of an account, with commit, lookup, repair, sweep and
    background rewriting. \<open>Segment_Folder_Correct\<close>, \<open>Segment_Folder_Commit\<close>: what a folder
    holds, and that commits and sweeps keep it; \<open>Segment_Folder_Theorems\<close> states the results.
  \<^item> \<open>Buffer_Index\<close>: the hashes, the counting bloom filter, the filter of account folders, and the
    index file as a table of chains. \<open>Buffer_Log\<close>: the logs with their index files, the filters
    and indexes kept in memory, append and read. \<open>Buffer_Log_Index\<close>: the index file as it is
    rebuilt and extended. \<open>Buffer_Log_Caches\<close>: the lists of recency of the two caches, and that
    under their invariant the eviction loops end and every operation returns.
    \<open>Buffer_Log_Correct\<close>: the invariant and the reads; \<open>Buffer_Log_Theorems\<close>,
    \<open>Buffer_Log_Budget\<close>: the appends and the results.

  \<^bold>\<open>State and effects.\<close> Structs are records, fallible operations return an error next to the new
  state or in a sum, files are byte lists. What lies outside the repository is a parameter with
  named laws: the skiplist packages (\<open>skiplist_ops\<close>, \<open>index_ops\<close>), zstd (\<open>zstd_ops\<close>), the file
  system's failures (\<open>io_env\<close>, \<open>node_io\<close>: a failing write leaves a prefix of its data), and, for
  the database, PrefixDB (\<open>prefixdb_ops\<close>). Each property with such a law has a witness with a
  concrete instance.

  \<^bold>\<open>What is shown.\<close> Refinement: the block log and the pending batch of the database behave as a
  list of blocks over whole runs with reopening; the prefix tree and the buffer logs behave as maps;
  the caches agree with unbounded maps up to forgotten entries. Equivalence: lookups through the
  sharded index, the index file of a buffer log and the filters give what a plain search gives;
  compaction and sweeps do not change what is read. Recovery: opening gives back the blocks, also after a torn append and
  without the metadata file. Invariants: byte accounts and list structure of the caches,
  coherence of the account cache as long as Pebble takes its writes, budgets of the cached indexes.
  Round trips of all file formats. Termination: a step of the iterator ends unless the newest block is
  the largest number, \<open>2 ^ 64 - 1\<close>, where the block number wraps; every operation of the buffer logs
  returns, from any files they are opened on. Error behaviour of closed stores and failed flushes. Some lemmas state
  where the code departs from its comments, for example that a deleted and reinserted key of a
  node file is unreadable until compaction, that a rewritten chunk brings back the oldest value of
  a key, that an append as the first operation on a buffer log after a restart hides its older keys,
  that the iterator passes over entries out of key order, and that an insertion of an account key
  which Pebble refuses is still answered by the cache.

  \<^bold>\<open>Bounds.\<close> Sizes and offsets are kept at their width. The runs of the block log are bounded by
  the bytes they write, so that offsets stay below \<open>2 ^ 63\<close>; the entries of a node file stay
  below \<open>2 ^ 32\<close>, the width of the counters in its header; a buffer log stays below \<open>2 ^ 63\<close>
  bytes. Loops are structural or have a measure, with these exceptions. The prefetch loop of the
  iterator has fuel, shown to be enough under the condition above. Loops that may run forever are
  partial functions, for which not returning is the value \<open>None\<close>: \<open>reserveChunkFileName\<close> and
  \<open>pow_loop\<close>, which return on the arguments they are called with; the eviction loops
  \<open>enforceBufferLogIndexBudgetLocked\<close> and \<open>evictBufferLogAccountFiltersLocked\<close> and the loop
  \<open>rejects_loop\<close>, which return when the lists of recency hold exactly the cached accounts, an invariant
  of every operation from opening on. Without it the eviction of filters does not return, as
  \<open>Buffer_Log_Caches\<close> also shows.

  \<^bold>\<open>Not modelled.\<close> Of \<^verbatim>\<open>prefixdb.go\<close>: the account log, the common storage files, commit and
  recovery, the migration of buffered pairs into folders, the buffer of recently read chunks, and
  the copy of one log kept for a full read; its batches (\<^verbatim>\<open>batch.go\<close>, \<^verbatim>\<open>storage_batch.go\<close>); the
  configuration; the cache of operating-system handles, which does not change file contents; locks,
  since operations are modelled one after another; statistics and timing; the replay driver, a
  command-line program; the goleveldb fork under \<^verbatim>\<open>ChainKV\<close>, a third-party baseline.
\<close>

end
